(* ===== verification/Prelude.thy ===== *)
theory Prelude
  imports Main "HOL-Library.Word" "HOL-Library.Monad_Syntax"
begin

text \<open>
  Shared vocabulary of the development: the integer types of the C and C++ sources, checked
  array access, NUL-terminated strings as character lists, decimal printing, and the generic
  list lemmas the component theories use.

  An array is a list. An access outside it has no defined result in the source, so
  \<open>get_at\<close> and \<open>set_at\<close> return \<open>None\<close> there; a component lemma that an operation
  returns \<open>Some\<close> therefore also says that the operation makes no such access.
  An \<open>Assert\<close> of the sources (\<open>src/GameNetworkingSockets/src/public/tier0/dbg.h\<close>) reports and goes on,
  so it has no effect on a result; what follows it in the code is what is modelled.
\<close>

unbundle bit_operations_syntax

type_synonym byte = "8 word"
type_synonym u16 = "16 word"
type_synonym u32 = "32 word"

named_theorems arr_simps \<open>checked array access, for the proofs of the container theories\<close>
named_theorems parse_simps \<open>character classes and digit values, for the parser proofs\<close>

subsection \<open>Checked array access\<close>

definition get_at :: "'a list \<Rightarrow> int \<Rightarrow> 'a option" where
  "get_at xs i = (if 0 \<le> i \<and> i < int (length xs) then Some (xs ! nat i) else None)"

definition set_at :: "'a list \<Rightarrow> int \<Rightarrow> 'a \<Rightarrow> 'a list option" where
  "set_at xs i x = (if 0 \<le> i \<and> i < int (length xs) then Some (xs[nat i := x]) else None)"

lemma get_at_Some [arr_simps]:
  "0 \<le> i \<Longrightarrow> i < int (length xs) \<Longrightarrow> get_at xs i = Some (xs ! nat i)"
  by (simp add: get_at_def)

lemma get_at_int [arr_simps]: "k < length xs \<Longrightarrow> get_at xs (int k) = Some (xs ! k)"
  by (simp add: get_at_def)

lemma get_at_iff: "get_at xs i = Some x \<longleftrightarrow> 0 \<le> i \<and> i < int (length xs) \<and> xs ! nat i = x"
  by (auto simp: get_at_def)

lemma set_at_Some [arr_simps]:
  "0 \<le> i \<Longrightarrow> i < int (length xs) \<Longrightarrow> set_at xs i x = Some (xs[nat i := x])"
  by (simp add: set_at_def)

lemma set_at_int [arr_simps]: "k < length xs \<Longrightarrow> set_at xs (int k) x = Some (xs[k := x])"
  by (simp add: set_at_def)

lemma set_at_iff:
  "set_at xs i x = Some ys \<longleftrightarrow> 0 \<le> i \<and> i < int (length xs) \<and> ys = xs[nat i := x]"
  by (auto simp: set_at_def)

lemma get_at_out [simp]: "i < 0 \<Longrightarrow> get_at xs i = None" "int (length xs) \<le> i \<Longrightarrow> get_at xs i = None"
  by (auto simp: get_at_def)

lemma set_at_out [simp]: "i < 0 \<Longrightarrow> set_at xs i x = None" "int (length xs) \<le> i \<Longrightarrow> set_at xs i x = None"
  by (auto simp: set_at_def)

subsection \<open>NUL-terminated strings\<close>

text \<open>
  A \<open>const char *\<close> that walks a NUL-terminated string is the list of characters still in
  front of it: reading it is \<open>c_char\<close>, which gives the terminator at the end of the list,
  and \<open>++s\<close> is \<open>tl\<close>.
\<close>

definition NUL :: char where
  "NUL = CHR 0x00"

fun c_char :: "string \<Rightarrow> char" where
  "c_char [] = NUL"
| "c_char (c # s) = c"

subsection \<open>Printing numbers\<close>

definition digit_char :: "nat \<Rightarrow> char" where
  "digit_char d = char_of (48 + d)"

fun dec_nat :: "nat \<Rightarrow> string" where
  "dec_nat n = (if n < 10 then [digit_char n] else dec_nat (n div 10) @ [digit_char (n mod 10)])"

declare dec_nat.simps [simp del]

definition dec_int :: "int \<Rightarrow> string" where
  "dec_int i = (if i < 0 then CHR ''-'' # dec_nat (nat (- i)) else dec_nat (nat i))"

text \<open>\<open>snprintf\<close> writes at most \<open>n - 1\<close> characters of the formatted text and the terminator.\<close>

definition snprintf :: "nat \<Rightarrow> string \<Rightarrow> string" where
  "snprintf n s = take (n - 1) s"

lemma dec_nat_nonempty [simp]: "dec_nat n \<noteq> []"
  by (subst dec_nat.simps) simp

lemma length_dec_nat: "n < 10 ^ k \<Longrightarrow> 0 < k \<Longrightarrow> length (dec_nat n) \<le> k"
proof (induction n arbitrary: k rule: dec_nat.induct)
  case (1 n)
  show ?case
  proof (cases "n < 10")
    case True
    with "1.prems" show ?thesis by (subst dec_nat.simps) simp
  next
    case False
    obtain j where k: "k = Suc j" using "1.prems"(2) by (cases k) auto
    with False "1.prems"(1) have "0 < j" by (cases j) auto
    note j = k this
    with "1.prems" have "n div 10 < 10 ^ j" by (simp add: div_less_iff_less_mult mult.commute)
    with False j have "length (dec_nat (n div 10)) \<le> j" by (intro "1.IH") auto
    with False j show ?thesis by (subst dec_nat.simps) simp
  qed
qed

subsection \<open>Block moves and stores\<close>

text \<open>\<open>memmove\<close> of \<open>n\<close> cells within an array, and a run of stores from an index on.\<close>

definition memmove :: "'a list \<Rightarrow> int \<Rightarrow> int \<Rightarrow> int \<Rightarrow> 'a list option" where
  "memmove xs dst src n =
     (if 0 \<le> n \<and> 0 \<le> dst \<and> dst + n \<le> int (length xs) \<and> 0 \<le> src \<and> src + n \<le> int (length xs)
      then Some (take (nat dst) xs @ take (nat n) (drop (nat src) xs) @ drop (nat (dst + n)) xs)
      else None)"

fun store_range :: "int \<Rightarrow> 'a list \<Rightarrow> 'a list \<Rightarrow> 'a list option" where
  "store_range i [] c = Some c"
| "store_range i (x # xs) c =
     (case set_at c i x of None \<Rightarrow> None | Some c \<Rightarrow> store_range (i + 1) xs c)"

lemma store_range_Some:
  "0 \<le> i \<Longrightarrow> i + int (length xs) \<le> int (length c) \<Longrightarrow>
   store_range i xs c = Some (take (nat i) c @ xs @ drop (nat i + length xs) c)"
proof (induction i xs c rule: store_range.induct)
  case (2 i x xs c)
  then have i: "nat i < length c" "nat (i + 1) = Suc (nat i)" by auto
  with "2" show ?case
    by (auto simp: set_at_def upd_conv_take_nth_drop take_Suc_conv_app_nth nth_append add.commute)
qed simp

subsection \<open>Chains\<close>

text \<open>The nodes \<open>xs\<close> follow each other by the link \<open>N\<close>, the last one leading to \<open>n\<close>.\<close>

fun chain :: "('w \<Rightarrow> 'w) \<Rightarrow> 'w list \<Rightarrow> 'w \<Rightarrow> bool" where
  "chain N [] n = True"
| "chain N (x # xs) n = (N x = hd (xs @ [n]) \<and> chain N xs n)"

lemma chain_cong: "\<forall>x \<in> set xs. N' x = N x \<Longrightarrow> chain N' xs n = chain N xs n"
  by (induction xs) auto

lemma chain_next: "chain N xs n \<Longrightarrow> x \<in> set xs \<Longrightarrow> distinct xs \<Longrightarrow> n \<notin> set xs \<Longrightarrow> N x \<noteq> x"
proof (induction xs)
  case (Cons y ys)
  then show ?case by (cases ys) auto
qed simp

lemma chain_append: "chain N (xs @ ys) n \<longleftrightarrow> chain N xs (hd (ys @ [n])) \<and> chain N ys n"
proof (induction xs)
  case (Cons x xs)
  then show ?case by (cases xs) auto
qed simp

lemma chain_new_last:
  "chain N xs n \<Longrightarrow> xs \<noteq> [] \<Longrightarrow> distinct xs \<Longrightarrow> chain (N(last xs := m)) xs m"
proof (induction xs)
  case (Cons x xs)
  then show ?case by (cases xs) auto
qed simp

lemma chain_closed: "chain N xs n \<Longrightarrow> x \<in> set xs \<Longrightarrow> N x \<in> set xs \<or> N x = n"
proof (induction xs)
  case (Cons y ys)
  then show ?case by (cases ys) auto
qed simp

subsection \<open>Strict weak orders\<close>

text \<open>What the ordered containers require of a comparison function.\<close>

definition swo :: "('a \<Rightarrow> 'a \<Rightarrow> bool) \<Rightarrow> bool" where
  "swo lt \<longleftrightarrow> (\<forall>x y. lt x y \<longrightarrow> \<not> lt y x) \<and>
     (\<forall>x y z. \<not> lt x y \<longrightarrow> \<not> lt y z \<longrightarrow> \<not> lt x z)"

lemma swo_asym: "swo lt \<Longrightarrow> lt x y \<Longrightarrow> \<not> lt y x"
  and swo_irrefl: "swo lt \<Longrightarrow> \<not> lt x x"
  and swo_ntrans: "swo lt \<Longrightarrow> \<not> lt x y \<Longrightarrow> \<not> lt y z \<Longrightarrow> \<not> lt x z"
  and swo_trans: "swo lt \<Longrightarrow> lt x y \<Longrightarrow> lt y z \<Longrightarrow> lt x z"
  and swo_less_nless: "swo lt \<Longrightarrow> lt x y \<Longrightarrow> \<not> lt z y \<Longrightarrow> lt x z"
  and swo_nless_less: "swo lt \<Longrightarrow> \<not> lt y x \<Longrightarrow> lt y z \<Longrightarrow> lt x z"
  unfolding swo_def by blast+

lemma swo_key: "swo (\<lambda>a b. f a < (f b :: 'b :: linorder))"
  by (auto simp: swo_def)

end
