(* ===== verification/Ipv6Text.thy ===== *)
theory Ipv6Text
  imports Prelude
begin

text \<open>
  The plain C module \<open>src/GameNetworkingSockets/src/tier1/ipv6text.c\<close>: printing an IPv6 address in
  the canonical form of RFC 5952, with an optional scope and a port, and parsing such text.
  An output buffer is the text written to it; the input text is a list of characters, with the
  terminator at its end. A parser result records what was stored through the output pointers,
  on a failing parse too.
\<close>

subsection \<open>Printing\<close>

text \<open>The scan for the longest run of zero quads keeps three locals.\<close>

record run_state =
  idxLongestRunStart :: int
  nLongestRun :: int
  nCurrentRun :: int

definition scan_init :: run_state where
  "scan_init = \<lparr>idxLongestRunStart = -1, nLongestRun = 1, nCurrentRun = 0\<rparr>"

definition scan_quad :: "byte list \<Rightarrow> int \<Rightarrow> run_state \<Rightarrow> run_state option" where
  "scan_quad ip idxQuad r = do {
     hi \<leftarrow> get_at ip (idxQuad * 2);
     lo \<leftarrow> get_at ip (idxQuad * 2 + 1);
     Some (if hi \<noteq> 0 \<or> lo \<noteq> 0 then r\<lparr>nCurrentRun := 0\<rparr>
           else let r = r\<lparr>nCurrentRun := nCurrentRun r + 1\<rparr>
                in if nLongestRun r < nCurrentRun r
                   then r\<lparr>nLongestRun := nCurrentRun r,
                          idxLongestRunStart := idxQuad - nCurrentRun r + 1\<rparr>
                   else r)}"

function scan_quads :: "byte list \<Rightarrow> int \<Rightarrow> run_state \<Rightarrow> run_state option" where
  "scan_quads ip idxQuad r =
     (if idxQuad < 8 then
        (case scan_quad ip idxQuad r of None \<Rightarrow> None
         | Some r' \<Rightarrow> scan_quads ip (idxQuad + 1) r')
      else Some r)"
  by pat_completeness auto
termination
  by (relation "measure (\<lambda>(ip, idx, r). nat (8 - idx))") auto

declare scan_quads.simps [simp del]

definition hexdigits :: string where
  "hexdigits = ''0123456789abcdef''"

definition format_quad :: "u32 \<Rightarrow> string" where
  "format_quad quad =
     (if 0x0010 \<le> quad then
        (if 0x0100 \<le> quad then
           (if 0x1000 \<le> quad then [hexdigits ! unat (drop_bit 12 quad)] else []) @
           [hexdigits ! unat (drop_bit 8 quad AND 0xf)]
         else []) @
        [hexdigits ! unat (drop_bit 4 quad AND 0xf)]
      else []) @
     [hexdigits ! unat (quad AND 0xf)]"

text \<open>
  The printing loop steps over the compressed run in one go, so it is the loop's own run length
  that makes it end; \<open>None\<close> would be a loop that does not.
\<close>

partial_function (option) print_quads ::
  "byte list \<Rightarrow> int \<Rightarrow> int \<Rightarrow> int \<Rightarrow> bool \<Rightarrow> string \<Rightarrow> string option" where
  "print_quads ip idxRunStart nRun idxQuad bNeedColon out =
     (if idxQuad < 8 then
        (if idxQuad = idxRunStart
         then print_quads ip idxRunStart nRun (idxQuad + nRun) False (out @ [CHR '':'', CHR '':''])
         else do {
           hi \<leftarrow> get_at ip (idxQuad * 2);
           lo \<leftarrow> get_at ip (idxQuad * 2 + 1);
           print_quads ip idxRunStart nRun (idxQuad + 1) True
             (out @ (if bNeedColon then [CHR '':''] else []) @
              format_quad (push_bit 8 (ucast hi :: u32) OR ucast lo))})
      else Some out)"

declare print_quads.simps [code]

definition IPv6IPToString :: "byte list \<Rightarrow> string option" where
  "IPv6IPToString ip = do {
     r \<leftarrow> scan_quads ip 0 scan_init;
     print_quads ip (idxLongestRunStart r) (nLongestRun r) 0 False []}"

definition IPv6AddrToString :: "byte list \<Rightarrow> u16 \<Rightarrow> u32 \<Rightarrow> string option" where
  "IPv6AddrToString ip port scope = do {
     t \<leftarrow> IPv6IPToString ip;
     Some ([CHR ''[''] @ t @
           (if scope \<noteq> 0 then snprintf 12 (CHR ''%'' # dec_int (sint scope)) else []) @
           snprintf 8 ([CHR '']'', CHR '':''] @ dec_nat (unat port)))}"

subsection \<open>Parsing\<close>

definition ParseIPv6Addr_HexDigitVal :: "char \<Rightarrow> int" where
  "ParseIPv6Addr_HexDigitVal c =
     (let v = of_char c :: int in
      if 48 \<le> v \<and> v \<le> 57 then v - 48
      else if 97 \<le> v \<and> v \<le> 102 then v - (97 - 0xa)
      else if 65 \<le> v \<and> v \<le> 70 then v - (65 - 0xa)
      else -1)"

definition ParseIPv6Addr_DecimalDigitVal :: "char \<Rightarrow> int" where
  "ParseIPv6Addr_DecimalDigitVal c =
     (let v = of_char c :: int in if 48 \<le> v \<and> v \<le> 57 then v - 48 else -1)"

definition ParseIPv6Addr_IsSpace :: "char \<Rightarrow> bool" where
  "ParseIPv6Addr_IsSpace c \<longleftrightarrow> c = CHR '' '' \<or> c = CHR 0x09"

fun skip_space :: "string \<Rightarrow> string" where
  "skip_space [] = []"
| "skip_space (c # s) = (if ParseIPv6Addr_IsSpace c then skip_space s else c # s)"

text \<open>After the first digit of a quad, up to three more.\<close>

definition parse_quad_digits :: "int \<Rightarrow> string \<Rightarrow> int \<times> string" where
  "parse_quad_digits quad s =
     (let d = ParseIPv6Addr_HexDigitVal (c_char s) in
      if 0 \<le> d then
        (let quad = push_bit 4 quad OR d; s = tl s;
             d = ParseIPv6Addr_HexDigitVal (c_char s) in
         if 0 \<le> d then
           (let quad = push_bit 4 quad OR d; s = tl s;
                d = ParseIPv6Addr_HexDigitVal (c_char s) in
            if 0 \<le> d then (push_bit 4 quad OR d, tl s) else (quad, s))
         else (quad, s))
      else (quad, s))"

text \<open>One octet of a dotted decimal tail: one to three digits, at most 255.\<close>

definition parse_octet :: "string \<Rightarrow> (int \<times> string) option" where
  "parse_octet s =
     (let octet = ParseIPv6Addr_DecimalDigitVal (c_char s) in
      if octet < 0 then None
      else
        let s = tl s; dig = ParseIPv6Addr_DecimalDigitVal (c_char s) in
        if 0 \<le> dig then
          (let s = tl s; octet = octet * 10 + dig;
               dig = ParseIPv6Addr_DecimalDigitVal (c_char s) in
           if 0 \<le> dig then
             (let s = tl s; octet = octet * 10 + dig in
              if 255 < octet then None else Some (octet, s))
           else Some (octet, s))
        else Some (octet, s))"

text \<open>
  The dotted decimal loop. The first argument is the room left up to \<open>pEndDottedDecimal\<close>,
  the second the bytes stored so far. \<open>Inl\<close> is \<open>return false\<close> with the bytes stored by then.
\<close>

fun parse_dotted :: "nat \<Rightarrow> byte list \<Rightarrow> string \<Rightarrow> byte list + byte list \<times> string" where
  "parse_dotted 0 d s = Inr (d, s)"
| "parse_dotted (Suc n) d s =
     (case parse_octet s of
        None \<Rightarrow> Inl d
      | Some (octet, s) \<Rightarrow>
          let d = d @ [word_of_int octet] in
          if n = 0 then Inr (d, s)
          else if c_char s \<noteq> CHR ''.'' then Inl d
          else parse_dotted n d (tl s))"

lemma parse_quad_digits_length: "length (snd (parse_quad_digits q s)) \<le> length s"
  by (auto simp: parse_quad_digits_def Let_def)

lemma hex_digit_of_end [simp]: "ParseIPv6Addr_HexDigitVal NUL = -1"
  and dec_digit_of_end [simp]: "ParseIPv6Addr_DecimalDigitVal NUL = -1"
  by (simp_all add: ParseIPv6Addr_HexDigitVal_def ParseIPv6Addr_DecimalDigitVal_def NUL_def)

text \<open>
  The main loop: \<open>d\<close> is what was stored through the moving pointer, \<open>pZeroFill\<close> the offset at
  which compressed zeros belong, \<open>s\<close> the text left. The loop reads on only after a quad, so
  the text gets shorter.
\<close>

function parse_quads ::
  "byte list \<Rightarrow> nat option \<Rightarrow> bool \<Rightarrow> string \<Rightarrow> byte list + byte list \<times> nat option \<times> string" where
  "parse_quads d pZeroFill bQuadMustFollow s =
     (let quadDigit = ParseIPv6Addr_HexDigitVal (c_char s) in
      if quadDigit < 0 then
        (if bQuadMustFollow then Inl d else Inr (d, pZeroFill, s))
      else if 16 \<le> length d then Inl d
      else
        let q = parse_quad_digits quadDigit (tl s); quad = fst q; s' = snd q in
        if c_char s' = CHR ''.'' then
          (if 16 < length d + 4 then Inl d
           else case parse_dotted 4 d s of
                  Inl d \<Rightarrow> Inl d
                | Inr (d, s) \<Rightarrow> Inr (d, pZeroFill, s))
        else
          let d = d @ [word_of_int (drop_bit 8 quad), word_of_int quad] in
          if c_char s' \<noteq> CHR '':'' then Inr (d, pZeroFill, s')
          else if c_char (tl s') = CHR '':'' then
            (if pZeroFill \<noteq> None then Inl d
             else parse_quads d (Some (length d)) False (tl (tl s')))
          else if pZeroFill = None \<and> 16 \<le> length d then Inr (d, pZeroFill, s')
          else parse_quads d pZeroFill True (tl s'))"
  by pat_completeness auto

lemma parse_quads_shrinks:
  assumes "\<not> ParseIPv6Addr_HexDigitVal (c_char s) < 0"
  shows "length (tl (tl (snd (parse_quad_digits q (tl s))))) < length s"
    and "length (tl (snd (parse_quad_digits q (tl s)))) < length s"
proof -
  have "s \<noteq> []" using assms by auto
  then have "length (tl s) < length s" by simp
  moreover have "length (snd (parse_quad_digits q (tl s))) \<le> length (tl s)"
    by (rule parse_quad_digits_length)
  ultimately show "length (tl (tl (snd (parse_quad_digits q (tl s))))) < length s"
    and "length (tl (snd (parse_quad_digits q (tl s)))) < length s" by auto
qed

termination parse_quads
  by (relation "measure (\<lambda>(d, z, b, s). length s)") (auto dest: parse_quads_shrinks)

declare parse_quads.simps [simp del]

text \<open>Compressed zeros are put in by moving the bytes behind them to the end of the address.\<close>

definition expand_zeros :: "byte list \<Rightarrow> nat option \<Rightarrow> byte list + byte list" where
  "expand_zeros d pZeroFill =
     (case pZeroFill of
        Some z \<Rightarrow>
          (if int 16 - int (length d) \<le> 0 then Inl d
           else Inr (take z d @ replicate (16 - length d) 0 @ drop z d))
      | None \<Rightarrow> if length d \<noteq> 16 then Inl d else Inr d)"

fun scope_digits :: "u32 \<Rightarrow> string \<Rightarrow> (u32 \<times> string) option" where
  "scope_digits unScope [] = Some (unScope, [])"
| "scope_digits unScope (c # s) =
     (if c = NUL \<or> c = CHR '']'' \<or> ParseIPv6Addr_IsSpace c then Some (unScope, c # s)
      else let nScopeDigit = ParseIPv6Addr_DecimalDigitVal c in
           if nScopeDigit < 0 then None
           else scope_digits (unScope * 10 + word_of_int nScopeDigit) s)"

definition parse_scope :: "string \<Rightarrow> (u32 \<times> string) option" where
  "parse_scope s =
     (if c_char s = CHR ''%'' then
        (let s = tl s; nScopeDigit = ParseIPv6Addr_DecimalDigitVal (c_char s) in
         if nScopeDigit < 0 then None else scope_digits (word_of_int nScopeDigit) (tl s))
      else Some (0, s))"

definition parse_close_bracket :: "bool \<Rightarrow> string \<Rightarrow> string option" where
  "parse_close_bracket bracketed s =
     (if bracketed then
        (let s = skip_space s in if c_char s \<noteq> CHR '']'' then None else Some (tl s))
      else Some s)"

text \<open>What follows the address: nothing, the text of a port, or something that is an error.\<close>

datatype port_sep = NoPort | PortText string | NotAPort

definition parse_port_sep :: "string \<Rightarrow> port_sep" where
  "parse_port_sep s =
     (if c_char s \<in> {CHR '':'', CHR ''#'', CHR ''.'', CHR ''p'', CHR ''P''} then PortText (tl s)
      else
        let s = skip_space s in
        if c_char s = NUL then NoPort
        else if take 4 s = ''port'' then PortText (skip_space (drop 4 s))
        else NotAPort)"

fun port_digits :: "int \<Rightarrow> string \<Rightarrow> (int \<times> string) option" where
  "port_digits nPort [] = Some (nPort, [])"
| "port_digits nPort (c # s) =
     (if c = NUL \<or> ParseIPv6Addr_IsSpace c then Some (nPort, c # s)
      else let portDigit = ParseIPv6Addr_DecimalDigitVal c in
           if portDigit < 0 then None
           else if 0xffff < nPort * 10 + portDigit then None
           else port_digits (nPort * 10 + portDigit) s)"

definition parse_port :: "string \<Rightarrow> int option" where
  "parse_port s =
     (let nPort = ParseIPv6Addr_DecimalDigitVal (c_char s) in
      if nPort < 0 then None
      else case port_digits nPort (tl s) of
             None \<Rightarrow> None
           | Some (nPort, s) \<Rightarrow> if c_char (skip_space s) \<noteq> NUL then None else Some nPort)"

text \<open>
  What the parser leaves behind: its return value, the bytes stored at \<open>pOutIP\<close>, and what it
  stored at \<open>*pOutPort\<close> and \<open>*pOutScope\<close>, if anything. The two flags of \<open>ParseIPv6Addr\<close> say
  whether the caller passed these two pointers.
\<close>

record ipv6_out =
  bParsed :: bool
  pOutIP :: "byte list"
  pOutPort :: "int option"
  pOutScope :: "u32 option"

definition ParseIPv6Addr_tail ::
  "bool \<Rightarrow> bool \<Rightarrow> bool \<Rightarrow> byte list \<Rightarrow> string \<Rightarrow> ipv6_out" where
  "ParseIPv6Addr_tail wantPort wantScope bracketed ip s =
     (let fail = (\<lambda>sc. \<lparr>bParsed = False, pOutIP = ip, pOutPort = None, pOutScope = sc\<rparr>);
          done = (\<lambda>p sc. \<lparr>bParsed = True, pOutIP = ip, pOutPort = p, pOutScope = sc\<rparr>) in
      case parse_scope s of
        None \<Rightarrow> fail None
      | Some (unScope, s) \<Rightarrow>
          let sc = (if wantScope then Some unScope else None) in
          (case parse_close_bracket bracketed s of
             None \<Rightarrow> fail sc
           | Some s \<Rightarrow>
               (case parse_port_sep s of
                  NotAPort \<Rightarrow> fail sc
                | NoPort \<Rightarrow> done (if wantPort then Some (-1) else None) sc
                | PortText s \<Rightarrow>
                    if \<not> wantPort then fail sc
                    else case parse_port s of
                           None \<Rightarrow> fail sc
                         | Some nPort \<Rightarrow> done (Some nPort) sc)))"

text \<open>The IP portion: leading \<open>::\<close>, the quads, the zeros that were left out.\<close>

definition ParseIPv6Addr_ip :: "string \<Rightarrow> byte list + byte list \<times> string" where
  "ParseIPv6Addr_ip s =
     (let lead = (c_char s = CHR '':'' \<and> c_char (tl s) = CHR '':'') in
      case parse_quads [] (if lead then Some 0 else None) (\<not> lead)
             (if lead then tl (tl s) else s) of
        Inl d \<Rightarrow> Inl d
      | Inr (d, pZeroFill, s) \<Rightarrow>
          (case expand_zeros d pZeroFill of
             Inl d \<Rightarrow> Inl d
           | Inr ip \<Rightarrow> Inr (ip, s)))"

definition ParseIPv6Addr :: "string \<Rightarrow> bool \<Rightarrow> bool \<Rightarrow> ipv6_out" where
  "ParseIPv6Addr pszText wantPort wantScope =
     (let pszText = skip_space pszText;
          bracketed = (c_char pszText = CHR ''['');
          s = (if bracketed then skip_space (tl pszText) else pszText) in
      case ParseIPv6Addr_ip s of
        Inl d \<Rightarrow> \<lparr>bParsed = False, pOutIP = d, pOutPort = None, pOutScope = None\<rparr>
      | Inr (ip, s) \<Rightarrow> ParseIPv6Addr_tail wantPort wantScope bracketed ip s)"

subsection \<open>Digits\<close>

lemma hexdigit_facts:
  assumes "k < 16"
  shows "ParseIPv6Addr_HexDigitVal (hexdigits ! k) = int k"
    and "hexdigits ! k \<noteq> CHR '':''" and "hexdigits ! k \<noteq> CHR ''.''"
    and "hexdigits ! k \<noteq> CHR ''[''" and "\<not> ParseIPv6Addr_IsSpace (hexdigits ! k)"
proof -
  have "list_all (\<lambda>k. ParseIPv6Addr_HexDigitVal (hexdigits ! k) = int k \<and>
      hexdigits ! k \<noteq> CHR '':'' \<and> hexdigits ! k \<noteq> CHR ''.'' \<and> hexdigits ! k \<noteq> CHR ''['' \<and>
      \<not> ParseIPv6Addr_IsSpace (hexdigits ! k)) [0..<16]"
    by code_simp
  with assms show "ParseIPv6Addr_HexDigitVal (hexdigits ! k) = int k"
    and "hexdigits ! k \<noteq> CHR '':''" and "hexdigits ! k \<noteq> CHR ''.''"
    and "hexdigits ! k \<noteq> CHR ''[''" and "\<not> ParseIPv6Addr_IsSpace (hexdigits ! k)"
    by (auto simp: list_all_iff)
qed

lemma digit_char_facts:
  assumes "k < 10"
  shows "ParseIPv6Addr_DecimalDigitVal (digit_char k) = int k"
    and "digit_char k \<noteq> NUL" and "digit_char k \<noteq> CHR '']''"
    and "\<not> ParseIPv6Addr_IsSpace (digit_char k)"
proof -
  have "list_all (\<lambda>k. ParseIPv6Addr_DecimalDigitVal (digit_char k) = int k \<and>
      digit_char k \<noteq> NUL \<and> digit_char k \<noteq> CHR '']'' \<and>
      \<not> ParseIPv6Addr_IsSpace (digit_char k)) [0..<10]"
    by code_simp
  with assms show "ParseIPv6Addr_DecimalDigitVal (digit_char k) = int k"
    and "digit_char k \<noteq> NUL" and "digit_char k \<noteq> CHR '']''"
    and "\<not> ParseIPv6Addr_IsSpace (digit_char k)"
    by (auto simp: list_all_iff)
qed

lemmas digit_facts [parse_simps] = hexdigit_facts digit_char_facts

lemma shift_or_digit:
  fixes q d :: int
  assumes "0 \<le> d" "d < 2 ^ n"
  shows "push_bit n q OR d = q * 2 ^ n + d"
proof -
  have "push_bit n q AND take_bit n d = 0"
    by (rule bit_eqI) (auto simp: bit_simps)
  moreover have "take_bit n d = d" using assms by (simp add: take_bit_int_eq_self)
  ultimately have "push_bit n q + d = push_bit n q OR d"
    by (intro disjunctive_add_eq_or) simp
  then show ?thesis by (simp add: push_bit_eq_mult)
qed

lemma shift4_or [parse_simps]: "0 \<le> d \<Longrightarrow> d < 16 \<Longrightarrow> push_bit 4 q OR d = q * 16 + (d :: int)"
  using shift_or_digit [of d 4 q] by simp

text \<open>The digits of a 16-bit value, most significant first, without leading zeros.\<close>

definition quad_digits :: "nat \<Rightarrow> nat list" where
  "quad_digits v =
     (if 16 \<le> v then
        (if 256 \<le> v then (if 4096 \<le> v then [v div 4096] else []) @ [v div 256 mod 16] else []) @
        [v div 16 mod 16]
      else []) @ [v mod 16]"

lemma format_quad_digits:
  assumes "unat q < 65536"
  shows "format_quad q = map ((!) hexdigits) (quad_digits (unat q))"
proof -
  have m: "unat (x AND 0xf) = unat x mod 16" for x :: u32
  proof -
    have "x AND 0xf = take_bit 4 x" by (simp add: take_bit_eq_mask mask_eq_exp_minus_1)
    then show ?thesis by (simp only: unsigned_take_bit_eq) (simp add: take_bit_eq_mod)
  qed
  have d: "unat (drop_bit n x) = unat x div 2 ^ n" for x :: u32 and n
    by (simp only: unat_drop_bit_eq) (simp add: drop_bit_eq_div)
  show ?thesis
    by (simp add: format_quad_def quad_digits_def m d word_le_nat_alt)
qed

lemma quad_digits_bound: "v < 65536 \<Longrightarrow> \<forall>k \<in> set (quad_digits v). k < 16"
  by (auto simp: quad_digits_def)

lemma quad_digits_length: "0 < length (quad_digits v)" "length (quad_digits v) \<le> 4"
  by (auto simp: quad_digits_def)

text \<open>Reading back the digits of a quad gives its value and stops in front of what follows.\<close>

lemma parse_quad_digits_map:
  assumes "ParseIPv6Addr_HexDigitVal (c_char rest) < 0" "v < 65536"
  shows "\<exists>k ks. k < 16 \<and> quad_digits v = k # ks \<and>
           parse_quad_digits (int k) (map ((!) hexdigits) ks @ rest) = (int v, rest)"
proof -
  have r: "\<not> 0 \<le> ParseIPv6Addr_HexDigitVal (c_char rest)" using assms by simp
  have d: "v div 256 = v div 16 div 16" "v div 4096 = v div 16 div 16 div 16"
    by (simp_all flip: div_mult2_eq)
  have e: "(v div 16) * 16 + v mod 16 = v" "(v div 16 div 16) * 16 + v div 16 mod 16 = v div 16"
      "(v div 16 div 16 div 16) * 16 + v div 16 div 16 mod 16 = v div 16 div 16"
    by (rule div_mult_mod_eq)+
  have i: "int a * 16 + int b = int (a * 16 + b)" for a b by simp
  note defs = quad_digits_def parse_quad_digits_def Let_def parse_simps i
  consider "v < 16" | "16 \<le> v" "v < 256" | "256 \<le> v" "v < 4096" | "4096 \<le> v" by linarith
  then show ?thesis
  proof cases
    case 1
    then show ?thesis using r by (simp add: defs)
  next
    case 2
    then have "v div 16 < 16" by simp
    with 2 r show ?thesis
      by (simp add: defs e del: of_nat_add of_nat_mult div_mult2_eq)
  next
    case 3
    then have "v div 16 div 16 < 16" by simp
    moreover have "256 * (v div 16 div 16) + v div 16 mod 16 * 16 + v mod 16 = v"
      using e by linarith
    ultimately show ?thesis using 3 r
      by (simp add: defs d del: of_nat_add of_nat_mult)
  next
    case 4
    then have "v div 16 div 16 div 16 < 16" using assms(2) by simp
    moreover have "4096 * (v div 16 div 16 div 16) + 256 * (v div 16 div 16 mod 16)
        + v div 16 mod 16 * 16 + v mod 16 = v"
      using e by linarith
    moreover from e(1,2)
    have "256 * int (v div 16 div 16) + int (v div 16 mod 16) * 16 + int (v mod 16) = int v"
      by linarith
    ultimately show ?thesis using 4
      by (simp add: defs d del: of_nat_add of_nat_mult)
  qed
qed

subsection \<open>A quad as a pair of bytes\<close>

definition quad_at :: "byte list \<Rightarrow> int \<Rightarrow> u32" where
  "quad_at ip i = push_bit 8 (ucast (ip ! nat (i * 2)) :: u32) OR ucast (ip ! nat (i * 2 + 1))"

lemma quad_bytes:
  fixes hi lo :: byte
  defines "q \<equiv> push_bit 8 (ucast hi :: u32) OR ucast lo"
  shows "unat q = 256 * unat hi + unat lo"
proof -
  have "push_bit 8 (uint hi) OR uint lo = uint hi * 256 + uint lo"
    using shift_or_digit [of "uint lo" 8 "uint hi"] uint_lt2p [of lo] by simp
  moreover have "uint q = push_bit 8 (uint hi) OR uint lo"
  proof -
    have "uint (push_bit 8 (ucast hi :: u32)) = take_bit 32 (push_bit 8 (uint hi))"
      by (simp add: unsigned_push_bit_eq unsigned_ucast_eq take_bit_push_bit)
    also have "\<dots> = push_bit 8 (uint hi)"
      using uint_lt2p [of hi] by (intro take_bit_int_eq_self) (auto simp: push_bit_eq_mult)
    finally show ?thesis
      using uint_lt2p [of lo] take_bit_int_eq_self [of "uint lo" 32]
      by (simp add: q_def unsigned_or_eq unsigned_ucast_eq)
  qed
  ultimately have "int (unat q) = int (256 * unat hi + unat lo)" by simp
  then show ?thesis by (simp only: of_nat_eq_iff)
qed

lemma quad_value_bytes:
  fixes hi lo :: byte
  shows "word_of_int (drop_bit 8 (int (256 * unat hi + unat lo))) = hi"
    and "word_of_int (int (256 * unat hi + unat lo)) = lo"
proof -
  have "unat lo < 256" using unsigned_less [of lo, where 'a = nat] by simp
  then have "drop_bit 8 (256 * unat hi + unat lo) = unat hi"
    by (simp add: drop_bit_eq_div)
  then have "drop_bit 8 (int (256 * unat hi + unat lo)) = int (unat hi)"
    by (metis drop_bit_of_nat)
  then show "word_of_int (drop_bit 8 (int (256 * unat hi + unat lo))) = hi" by simp
  have "(256 :: byte) * hi = 0 * hi" by (rule arg_cong [where f = "\<lambda>x. x * hi"]) simp
  then show "word_of_int (int (256 * unat hi + unat lo)) = lo" by simp
qed

lemma quad_at_bound: "unat (quad_at ip i) < 65536"
proof -
  have "unat (ip ! nat (i * 2)) < 256" "unat (ip ! nat (i * 2 + 1)) < 256"
    using unsigned_less [where 'b = 8 and 'a = nat] by auto
  then show ?thesis by (simp add: quad_at_def quad_bytes)
qed

subsection \<open>The scan finds the leftmost longest run of zero quads\<close>

definition zero_run :: "byte list \<Rightarrow> int \<Rightarrow> int \<Rightarrow> bool" where
  "zero_run ip a n \<longleftrightarrow>
     (\<forall>i \<in> {a ..< a + n}. ip ! nat (i * 2) = 0 \<and> ip ! nat (i * 2 + 1) = 0)"

text \<open>
  After the quads below \<open>idx\<close>: the current run ends at \<open>idx\<close> and cannot be extended to the left;
  no run is longer than the recorded one, none as long starts before it, and it is a run.
\<close>

definition scan_inv :: "byte list \<Rightarrow> int \<Rightarrow> run_state \<Rightarrow> bool" where
  "scan_inv ip idx r \<longleftrightarrow>
     0 \<le> nCurrentRun r \<and> nCurrentRun r \<le> idx \<and>
     zero_run ip (idx - nCurrentRun r) (nCurrentRun r) \<and>
     (\<forall>a n. 0 \<le> a \<and> 0 \<le> n \<and> a + n = idx \<and> zero_run ip a n \<longrightarrow> n \<le> nCurrentRun r) \<and>
     (\<forall>a n. 0 \<le> a \<and> a + n \<le> idx \<and> zero_run ip a n \<longrightarrow> n \<le> nLongestRun r) \<and>
     (idxLongestRunStart r = -1 \<and> nLongestRun r = 1 \<or>
      0 \<le> idxLongestRunStart r \<and> 2 \<le> nLongestRun r \<and>
      idxLongestRunStart r + nLongestRun r \<le> idx \<and>
      zero_run ip (idxLongestRunStart r) (nLongestRun r) \<and>
      (\<forall>a. 0 \<le> a \<and> a < idxLongestRunStart r \<longrightarrow> \<not> zero_run ip a (nLongestRun r)))"

lemma zero_run_le: "zero_run ip a n \<Longrightarrow> m \<le> n \<Longrightarrow> zero_run ip a m"
  by (auto simp: zero_run_def)

lemma zero_run_Suc:
  "0 \<le> n \<Longrightarrow> zero_run ip a (n + 1) \<longleftrightarrow>
     zero_run ip a n \<and> ip ! nat ((a + n) * 2) = 0 \<and> ip ! nat ((a + n) * 2 + 1) = 0"
proof -
  assume "0 \<le> n"
  then have "{a ..< a + (n + 1)} = insert (a + n) {a ..< a + n}" by auto
  then show ?thesis by (auto simp: zero_run_def)
qed

lemma scan_inv_init: "scan_inv ip 0 scan_init"
  by (auto simp: scan_inv_def scan_init_def zero_run_def)

lemma zero_run_snoc:
  "zero_run ip a n \<Longrightarrow> 0 < n \<Longrightarrow> zero_run ip a (n - 1) \<and>
     ip ! nat ((a + n - 1) * 2) = 0 \<and> ip ! nat ((a + n - 1) * 2 + 1) = 0"
  using zero_run_Suc [of "n - 1" ip a] by (simp add: algebra_simps)

lemma scan_quad_inv:
  assumes len: "length ip = 16" and idx: "0 \<le> idx" "idx < 8" and inv: "scan_inv ip idx r"
  shows "\<exists>r'. scan_quad ip idx r = Some r' \<and> scan_inv ip (idx + 1) r'"
proof -
  let ?cur = "nCurrentRun r" and ?long = "nLongestRun r" and ?start = "idxLongestRunStart r"
  let ?Z = "ip ! nat (idx * 2) = 0 \<and> ip ! nat (idx * 2 + 1) = 0"
  have cur: "0 \<le> ?cur" "?cur \<le> idx" "zero_run ip (idx - ?cur) ?cur"
    and ends: "\<And>a n. 0 \<le> a \<Longrightarrow> 0 \<le> n \<Longrightarrow> a + n = idx \<Longrightarrow> zero_run ip a n \<Longrightarrow> n \<le> ?cur"
    and long: "\<And>a n. 0 \<le> a \<Longrightarrow> a + n \<le> idx \<Longrightarrow> zero_run ip a n \<Longrightarrow> n \<le> ?long"
    and best: "?start = -1 \<and> ?long = 1 \<or> 0 \<le> ?start \<and> 2 \<le> ?long \<and> ?start + ?long \<le> idx \<and>
      zero_run ip ?start ?long \<and> (\<forall>a. 0 \<le> a \<and> a < ?start \<longrightarrow> \<not> zero_run ip a ?long)"
    using inv by (auto simp: scan_inv_def)
  have read: "get_at ip (idx * 2) = Some (ip ! nat (idx * 2))"
      "get_at ip (idx * 2 + 1) = Some (ip ! nat (idx * 2 + 1))"
    using len idx by (simp_all add: get_at_def)
  show ?thesis
  proof (cases ?Z)
    case False
    then have eq: "scan_quad ip idx r = Some (r\<lparr>nCurrentRun := 0\<rparr>)"
      by (auto simp: scan_quad_def read)
    have none: "n \<le> 0" if "a + n = idx + 1" "zero_run ip a n" for a n
      using False zero_run_snoc [of ip a n] that by (cases "0 < n") auto
    have "n \<le> ?long" if "0 \<le> a" "a + n \<le> idx + 1" "zero_run ip a n" for a n
    proof (cases "a + n = idx + 1")
      case True
      with none that best show ?thesis by force
    qed (use long that in force)
    moreover have "zero_run ip (idx + 1) 0" by (simp add: zero_run_def)
    ultimately show ?thesis
      using idx best none by (auto simp: eq scan_inv_def)
  next
    case True
    have ends': "n \<le> ?cur + 1" if "0 \<le> a" "0 \<le> n" "a + n = idx + 1" "zero_run ip a n" for a n
    proof (cases "n = 0")
      case False
      with that have "zero_run ip a (n - 1)" using zero_run_snoc [of ip a n] by simp
      with that False ends [of a "n - 1"] show ?thesis by simp
    qed (use cur in simp)
    have run: "zero_run ip (idx - ?cur) (?cur + 1)"
      using True cur by (simp add: zero_run_Suc)
    have long': "n \<le> max ?long (?cur + 1)" if "0 \<le> a" "a + n \<le> idx + 1" "zero_run ip a n" for a n
      using long [of a n] ends' [of a n] that cur by (cases "a + n = idx + 1"; cases "0 \<le> n") force+
    show ?thesis
    proof (cases "?long < ?cur + 1")
      case longer: True
      then have eq: "scan_quad ip idx r = Some (r\<lparr>nCurrentRun := ?cur + 1, nLongestRun := ?cur + 1,
          idxLongestRunStart := idx - ?cur\<rparr>)"
        using True by (simp add: scan_quad_def read)
      have "\<not> zero_run ip a (?cur + 1)" if "0 \<le> a" "a < idx - ?cur" for a
        using long [of a "?cur + 1"] that longer by auto
      with longer long' ends' run cur best show ?thesis by (auto simp: eq scan_inv_def)
    next
      case False
      then have eq: "scan_quad ip idx r = Some (r\<lparr>nCurrentRun := ?cur + 1\<rparr>)"
        using True by (simp add: scan_quad_def read)
      from False have "max ?long (?cur + 1) = ?long" by simp
      with long' ends' run cur best show ?thesis by (auto simp: eq scan_inv_def)
    qed
  qed
qed

lemma scan_quads_inv:
  "length ip = 16 \<Longrightarrow> 0 \<le> idx \<Longrightarrow> idx \<le> 8 \<Longrightarrow> scan_inv ip idx r \<Longrightarrow>
   \<exists>r'. scan_quads ip idx r = Some r' \<and> scan_inv ip 8 r'"
proof (induction ip idx r rule: scan_quads.induct)
  case (1 ip idx r)
  show ?case
  proof (cases "idx < 8")
    case True
    with "1.prems" obtain r' where r': "scan_quad ip idx r = Some r'" "scan_inv ip (idx + 1) r'"
      using scan_quad_inv by blast
    with True "1.prems" "1.IH" [OF True r'(1)] show ?thesis
      by (subst scan_quads.simps) simp
  next
    case False
    with "1.prems" show ?thesis by (subst scan_quads.simps) simp
  qed
qed

subsection \<open>The printed text\<close>

text \<open>
  The text of the quads from \<open>idx\<close> on, as a total function: with a run length that is at least
  one the printing loop ends, and this is what it appends.
\<close>

function quads_text :: "byte list \<Rightarrow> int \<Rightarrow> int \<Rightarrow> int \<Rightarrow> bool \<Rightarrow> string" where
  "quads_text ip st n idx colon =
     (if idx < 8 \<and> 0 < n then
        (if idx = st then CHR '':'' # CHR '':'' # quads_text ip st n (idx + n) False
         else (if colon then [CHR '':''] else []) @ format_quad (quad_at ip idx) @
              quads_text ip st n (idx + 1) True)
      else [])"
  by pat_completeness auto
termination
  by (relation "measure (\<lambda>(ip, st, n, idx, c). nat (8 - idx))") auto

declare quads_text.simps [simp del]

lemma print_quads_text:
  "length ip = 16 \<Longrightarrow> 0 \<le> idx \<Longrightarrow> 0 < n \<Longrightarrow>
   print_quads ip st n idx colon out = Some (out @ quads_text ip st n idx colon)"
proof (induction ip st n idx colon arbitrary: out rule: quads_text.induct)
  case (1 ip st n idx colon)
  show ?case
  proof (cases "idx < 8")
    case True
    with "1.prems" have "get_at ip (idx * 2) = Some (ip ! nat (idx * 2))"
        "get_at ip (idx * 2 + 1) = Some (ip ! nat (idx * 2 + 1))"
      by (simp_all add: get_at_def)
    with True "1.prems" "1.IH" show ?thesis
      by (subst print_quads.simps, subst quads_text.simps) (simp add: quad_at_def)
  next
    case False
    then show ?thesis by (subst print_quads.simps, subst quads_text.simps) simp
  qed
qed

lemma IPv6IPToString_run:
  assumes "length ip = 16"
  obtains r where "scan_inv ip 8 r" "0 < nLongestRun r"
    "scan_quads ip 0 scan_init = Some r"
    "IPv6IPToString ip = Some (quads_text ip (idxLongestRunStart r) (nLongestRun r) 0 False)"
proof -
  from scan_quads_inv [OF assms _ _ scan_inv_init] obtain r
    where r: "scan_quads ip 0 scan_init = Some r" "scan_inv ip 8 r" by auto
  then have "0 < nLongestRun r" by (auto simp: scan_inv_def)
  with r assms show ?thesis
    by (intro that [of r]) (simp_all add: IPv6IPToString_def print_quads_text)
qed

lemma format_quad_length: "0 < length (format_quad (quad_at ip i))" "length (format_quad (quad_at ip i)) \<le> 4"
  using quad_digits_length by (auto simp: format_quad_digits quad_at_bound)

lemma quads_text_length:
  "2 \<le> n \<or> st < idx \<Longrightarrow> 0 \<le> idx \<Longrightarrow> idx \<le> 8 \<Longrightarrow> st + n \<le> 8 \<Longrightarrow>
   int (length (quads_text ip st n idx colon)) \<le> 5 * (8 - idx) - (if colon \<or> idx = 8 then 0 else 1)"
proof (induction ip st n idx colon rule: quads_text.induct)
  case (1 ip st n idx colon)
  show ?case
  proof (cases "idx < 8 \<and> 0 < n")
    case True
    have len: "length (format_quad (quad_at ip idx)) \<le> 4" by (rule format_quad_length)
    show ?thesis
    proof (cases "idx = st")
      case st: True
      with True "1.prems" "1.IH"(1) have
        "int (length (quads_text ip st n (idx + n) False)) \<le> 5 * (8 - (idx + n))"
        by (auto split: if_splits)
      with True st "1.prems" show ?thesis
        by (subst quads_text.simps) (auto split: if_splits)
    next
      case st: False
      from "1.prems" have "2 \<le> n \<or> st < idx + 1" by auto
      with True st "1.prems" "1.IH"(2) have
        "int (length (quads_text ip st n (idx + 1) True)) \<le> 5 * (8 - (idx + 1))"
        by (auto split: if_splits)
      with True st len show ?thesis
        by (subst quads_text.simps) (auto split: if_splits)
    qed
  next
    case False
    with "1.prems" show ?thesis by (subst quads_text.simps) auto
  qed
qed

subsection \<open>Parsing what was printed\<close>

text \<open>The bytes of the quads from \<open>idx\<close> on.\<close>

definition bytes_from :: "byte list \<Rightarrow> int \<Rightarrow> byte list" where
  "bytes_from ip idx = drop (nat (idx * 2)) ip"

lemma bytes_from_step:
  assumes "length ip = 16" "0 \<le> idx" "idx < 8"
  shows "bytes_from ip idx =
    ip ! nat (idx * 2) # ip ! nat (idx * 2 + 1) # bytes_from ip (idx + 1)"
proof -
  have "nat (idx * 2 + 1) = Suc (nat (idx * 2))" "nat ((idx + 1) * 2) = Suc (Suc (nat (idx * 2)))"
    using assms by auto
  with assms show ?thesis by (simp add: bytes_from_def Cons_nth_drop_Suc)
qed

text \<open>What the loop does behind a quad it has stored.\<close>

definition after_quad ::
  "byte list \<Rightarrow> nat option \<Rightarrow> string \<Rightarrow> byte list + byte list \<times> nat option \<times> string" where
  "after_quad d z t =
     (if c_char t \<noteq> CHR '':'' then Inr (d, z, t)
      else if c_char (tl t) = CHR '':'' then
        (if z \<noteq> None then Inl d else parse_quads d (Some (length d)) False (tl (tl t)))
      else if z = None \<and> 16 \<le> length d then Inr (d, z, t)
      else parse_quads d z True (tl t))"

lemma c_char_append: "c_char (xs @ ys) = (if xs = [] then c_char ys else hd xs)"
  by (cases xs) auto

lemma format_quad_hd:
  assumes "unat q < 65536"
  obtains k ks where "k < 16" "format_quad q = hexdigits ! k # map ((!) hexdigits) ks"
    "quad_digits (unat q) = k # ks"
proof -
  have "quad_digits (unat q) \<noteq> []" using quad_digits_length(1) by force
  then obtain k ks where "quad_digits (unat q) = k # ks" by (cases "quad_digits (unat q)") auto
  with quad_digits_bound [OF assms] format_quad_digits [OF assms] that show ?thesis by auto
qed

lemma parse_printed_quad:
  assumes "length d < 16" "ParseIPv6Addr_HexDigitVal (c_char t) < 0" "c_char t \<noteq> CHR ''.''"
  shows "parse_quads d z must (format_quad (quad_at ip i) @ t) =
    after_quad (d @ [ip ! nat (i * 2), ip ! nat (i * 2 + 1)]) z t"
proof -
  let ?q = "quad_at ip i"
  obtain k ks where k: "k < 16" "format_quad ?q = hexdigits ! k # map ((!) hexdigits) ks"
    "quad_digits (unat ?q) = k # ks"
    using format_quad_hd [OF quad_at_bound] .
  have "parse_quad_digits (int k) (map ((!) hexdigits) ks @ t) = (int (unat ?q), t)"
    using parse_quad_digits_map [OF assms(2) quad_at_bound [of ip i]] k(3) by auto
  moreover have "word_of_int (drop_bit 8 (int (unat ?q))) = ip ! nat (i * 2)"
      "word_of_int (int (unat ?q)) = ip ! nat (i * 2 + 1)"
    using quad_value_bytes [of "ip ! nat (i * 2)" "ip ! nat (i * 2 + 1)"]
    by (simp_all only: quad_at_def quad_bytes)
  ultimately show ?thesis using k assms
    by (subst parse_quads.simps) (simp add: parse_simps Let_def after_quad_def)
qed

lemma quads_text_unfold:
  "idx < 8 \<Longrightarrow> 0 < n \<Longrightarrow> idx \<noteq> st \<Longrightarrow> quads_text ip st n idx True =
     CHR '':'' # format_quad (quad_at ip idx) @ quads_text ip st n (idx + 1) True"
  "idx < 8 \<Longrightarrow> 0 < n \<Longrightarrow> idx \<noteq> st \<Longrightarrow> quads_text ip st n idx False =
     format_quad (quad_at ip idx) @ quads_text ip st n (idx + 1) True"
  "st < 8 \<Longrightarrow> 0 < n \<Longrightarrow> quads_text ip st n st c =
     CHR '':'' # CHR '':'' # quads_text ip st n (st + n) False"
  "8 \<le> idx \<Longrightarrow> quads_text ip st n idx c = []"
  by (subst quads_text.simps; simp)+

definition ip_end :: "string \<Rightarrow> bool" where
  "ip_end t \<longleftrightarrow> ParseIPv6Addr_HexDigitVal (c_char t) < 0 \<and> c_char t \<noteq> CHR '':'' \<and> c_char t \<noteq> CHR ''.''"

text \<open>Behind a printed quad there is a colon or the end, neither of which goes on with a quad.\<close>

lemma colon_not_hex [parse_simps]:
  "ParseIPv6Addr_HexDigitVal (CHR '':'') = -1"
  by (simp add: ParseIPv6Addr_HexDigitVal_def)

lemma quads_text_next:
  assumes "ip_end t" "0 < n"
  shows "ParseIPv6Addr_HexDigitVal (c_char (quads_text ip st n idx True @ t)) < 0"
    and "c_char (quads_text ip st n idx True @ t) \<noteq> CHR ''.''"
  using assms
  by (cases "idx < 8"; cases "idx = st"; simp add: quads_text_unfold ip_end_def parse_simps)+

lemma format_quad_c_char:
  "c_char (format_quad (quad_at ip i) @ t) \<noteq> CHR '':''"
  "c_char (format_quad (quad_at ip i) @ t) \<noteq> CHR ''[''"
  "\<not> ParseIPv6Addr_IsSpace (c_char (format_quad (quad_at ip i) @ t))"
  by (rule format_quad_hd [OF quad_at_bound [of ip i]]; simp add: parse_simps)+

text \<open>Behind the compressed run, or with none ahead: the rest of the quads is read as it is.\<close>

lemma after_quad_rest:
  assumes "ip_end t" "0 < n" "length ip = 16"
  shows "0 \<le> idx \<Longrightarrow> idx \<le> 8 \<Longrightarrow> st < idx \<Longrightarrow> int (length d) + 2 * (8 - idx) \<le> 16 \<Longrightarrow>
    after_quad d z (quads_text ip st n idx True @ t) = Inr (d @ bytes_from ip idx, z, t)"
proof (induction "nat (8 - idx)" arbitrary: idx d)
  case 0
  then have "idx = 8" by simp
  with assms show ?case
    by (simp add: quads_text_unfold after_quad_def ip_end_def bytes_from_def)
next
  case (Suc k)
  then have idx: "idx < 8" "idx \<noteq> st" "k = nat (8 - (idx + 1))" by auto
  let ?t = "quads_text ip st n (idx + 1) True @ t"
  have "after_quad d z (quads_text ip st n idx True @ t) =
      parse_quads d z True (format_quad (quad_at ip idx) @ ?t)"
    using idx assms Suc.prems
    by (simp add: quads_text_unfold after_quad_def format_quad_c_char)
  also have "\<dots> = after_quad (d @ [ip ! nat (idx * 2), ip ! nat (idx * 2 + 1)]) z ?t"
    using quads_text_next [OF assms(1,2)] Suc.prems idx by (intro parse_printed_quad) auto
  also have "\<dots> = Inr ((d @ [ip ! nat (idx * 2), ip ! nat (idx * 2 + 1)]) @ bytes_from ip (idx + 1), z, t)"
    using idx Suc.prems by (intro Suc.hyps(1)) auto
  finally show ?case using idx Suc.prems assms by (simp add: bytes_from_step)
qed

lemma parse_after_zeros:
  assumes "ip_end t" "0 < n" "length ip = 16" "0 \<le> st" "st + n \<le> 8"
    and "int (length d) + 2 * (8 - (st + n)) < 16"
  shows "parse_quads d z False (quads_text ip st n (st + n) False @ t) =
    Inr (d @ bytes_from ip (st + n), z, t)"
proof (cases "st + n = 8")
  case True
  with assms show ?thesis
    by (subst parse_quads.simps) (simp add: quads_text_unfold ip_end_def bytes_from_def)
next
  case False
  let ?i = "st + n" and ?t = "quads_text ip st n (st + n + 1) True @ t"
  have "parse_quads d z False (quads_text ip st n ?i False @ t) =
      parse_quads d z False (format_quad (quad_at ip ?i) @ ?t)"
    using assms False by (simp add: quads_text_unfold)
  also have "\<dots> = after_quad (d @ [ip ! nat (?i * 2), ip ! nat (?i * 2 + 1)]) z ?t"
    using quads_text_next [OF assms(1,2)] assms False by (intro parse_printed_quad) auto
  also have "\<dots> = Inr ((d @ [ip ! nat (?i * 2), ip ! nat (?i * 2 + 1)]) @ bytes_from ip (?i + 1), z, t)"
    using assms False by (intro after_quad_rest) auto
  finally show ?thesis using assms False by (simp add: bytes_from_step)
qed

lemma take_bytes:
  assumes "length ip = 16" "0 \<le> i" "i < 8"
  shows "take (nat (i * 2)) ip @ [ip ! nat (i * 2), ip ! nat (i * 2 + 1)] = take (nat ((i + 1) * 2)) ip"
proof -
  have "nat (i * 2 + 1) = Suc (nat (i * 2))" "nat ((i + 1) * 2) = Suc (Suc (nat (i * 2)))"
    using assms by auto
  with assms show ?thesis by (simp add: take_Suc_conv_app_nth)
qed

lemma after_quad_zeros:
  assumes "ip_end t" "2 \<le> n" "length ip = 16" "0 \<le> st" "st + n \<le> 8"
  shows "0 \<le> idx \<Longrightarrow> idx \<le> st \<Longrightarrow>
    after_quad (take (nat (idx * 2)) ip) None (quads_text ip st n idx True @ t) =
      Inr (take (nat (st * 2)) ip @ bytes_from ip (st + n), Some (nat (st * 2)), t)"
proof (induction "nat (st - idx)" arbitrary: idx)
  case 0
  then have "idx = st" by simp
  with assms show ?case
    by (simp add: quads_text_unfold after_quad_def parse_after_zeros)
next
  case (Suc k)
  then have idx: "idx < 8" "idx \<noteq> st" "k = nat (st - (idx + 1))" using assms by auto
  let ?t = "quads_text ip st n (idx + 1) True @ t" and ?d = "take (nat (idx * 2)) ip"
  have "after_quad ?d None (quads_text ip st n idx True @ t) =
      parse_quads ?d None True (format_quad (quad_at ip idx) @ ?t)"
  proof -
    have "nat (idx * 2) < 16" using idx(1) Suc.prems by auto
    then show ?thesis using idx assms(2,3)
      by (simp add: quads_text_unfold after_quad_def format_quad_c_char)
  qed
  also have "\<dots> = after_quad (?d @ [ip ! nat (idx * 2), ip ! nat (idx * 2 + 1)]) None ?t"
    using quads_text_next [OF assms(1)] Suc.prems idx assms by (intro parse_printed_quad) auto
  also have "\<dots> = after_quad (take (nat ((idx + 1) * 2)) ip) None ?t"
    using idx Suc.prems assms by (simp only: take_bytes)
  also have "\<dots> = Inr (take (nat (st * 2)) ip @ bytes_from ip (st + n), Some (nat (st * 2)), t)"
    using idx Suc.prems by (intro Suc.hyps(1)) auto
  finally show ?case .
qed

text \<open>The run that was left out is put back.\<close>

lemma expand_zero_run:
  assumes "length ip = 16" "0 \<le> st" "0 < n" "st + n \<le> 8" "zero_run ip st n"
  shows "expand_zeros (take (nat (st * 2)) ip @ bytes_from ip (st + n)) (Some (nat (st * 2))) = Inr ip"
proof -
  let ?z = "nat (st * 2)" and ?m = "nat (n * 2)"
  have zm: "nat ((st + n) * 2) = ?z + ?m" "?z + ?m \<le> 16" using assms by auto
  have zero: "ip ! k = 0" if k: "?z \<le> k" "k < ?z + ?m" for k
  proof -
    have "int (k div 2) \<in> {st ..< st + n}" using k assms(2,3) by auto
    with assms(5) have "ip ! nat (int (k div 2) * 2) = 0 \<and> ip ! nat (int (k div 2) * 2 + 1) = 0"
      unfolding zero_run_def by blast
    moreover have "nat (int (k div 2) * 2) = 2 * (k div 2)" "nat (int (k div 2) * 2 + 1) = 2 * (k div 2) + 1"
      by simp_all
    moreover have "k = 2 * (k div 2) \<or> k = 2 * (k div 2) + 1" by presburger
    ultimately show ?thesis by metis
  qed
  have "take ?m (drop ?z ip) = replicate ?m 0"
    using zm assms(1) zero by (intro nth_equalityI) auto
  then have "take ?z ip @ replicate ?m 0 @ drop (?z + ?m) ip =
      take ?z ip @ take ?m (drop ?z ip) @ drop ?m (drop ?z ip)"
    by (simp add: add.commute)
  also have "\<dots> = ip" by (simp only: append_take_drop_id)
  finally have "take ?z ip @ replicate ?m 0 @ drop (?z + ?m) ip = ip" .
  moreover have d: "16 - length (take ?z ip @ drop (?z + ?m) ip) = ?m"
    "length (take ?z ip @ drop (?z + ?m) ip) < 16" "length (take ?z ip) = ?z"
    using zm assms by auto
  moreover have "\<not> int 16 - int (length (take ?z ip @ drop (?z + ?m) ip)) \<le> 0"
    using d(2) by linarith
  ultimately show ?thesis
    unfolding expand_zeros_def bytes_from_def zm(1) option.case
    by (simp only: if_False) simp
qed

lemma parse_ip_text:
  assumes "ip_end t" "length ip = 16"
  obtains u where "IPv6IPToString ip = Some u" "ParseIPv6Addr_ip (u @ t) = Inr (ip, t)"
    "\<not> ParseIPv6Addr_IsSpace (c_char (u @ t))" "c_char (u @ t) \<noteq> CHR ''[''"
    "length u \<le> 39" "u \<noteq> []"
proof -
  obtain r where r: "scan_inv ip 8 r" "0 < nLongestRun r"
    "IPv6IPToString ip = Some (quads_text ip (idxLongestRunStart r) (nLongestRun r) 0 False)"
    using IPv6IPToString_run [OF assms(2)] .
  let ?st = "idxLongestRunStart r" and ?n = "nLongestRun r"
  let ?u = "quads_text ip ?st ?n 0 False" and ?u1 = "quads_text ip ?st ?n 1 True"
  have run: "?st = -1 \<and> ?n = 1 \<or> 0 \<le> ?st \<and> 2 \<le> ?n \<and> ?st + ?n \<le> 8 \<and> zero_run ip ?st ?n"
    using r(1) by (auto simp: scan_inv_def)
  have len: "length ?u \<le> 39"
    using quads_text_length [of ?n ?st 0 ip False] run by auto
  show ?thesis
  proof (cases "?st = 0")
    case True
    with run have "0 < ?n" "?st + ?n \<le> 8" "zero_run ip ?st ?n" by auto
    then have "ParseIPv6Addr_ip (?u @ t) = Inr (ip, t)"
      using True assms parse_after_zeros [OF assms(1), of ?n ip 0 "[]" "Some 0"]
        expand_zero_run [of ip 0 ?n]
      by (simp add: ParseIPv6Addr_ip_def quads_text_unfold)
    moreover have "c_char (?u @ t) = CHR '':''" "?u \<noteq> []"
      using True r(2) by (simp_all add: quads_text_unfold)
    ultimately show ?thesis using r len
      by (intro that [of ?u]) (auto simp: ParseIPv6Addr_IsSpace_def)
  next
    case False
    then have u: "?u @ t = format_quad (quad_at ip 0) @ ?u1 @ t"
      using r(2) by (simp add: quads_text_unfold)
    have nolead: "c_char (?u @ t) \<noteq> CHR '':''" "?u \<noteq> []"
      using u format_quad_c_char format_quad_length [of ip 0] False r(2)
      by (auto simp: quads_text_unfold)
    have "parse_quads [] None True (?u @ t) = after_quad (take (nat (1 * 2)) ip) None (?u1 @ t)"
      unfolding u using quads_text_next [OF assms(1) r(2)] take_bytes [of ip 0] assms(2)
      by (subst parse_printed_quad) auto
    also have "\<dots> = (if ?st = -1 then Inr (ip, None, t)
        else Inr (take (nat (?st * 2)) ip @ bytes_from ip (?st + ?n), Some (nat (?st * 2)), t))"
      using run False assms r(2) after_quad_zeros [OF assms(1), of ?n ip ?st 1]
      by (auto simp: after_quad_rest bytes_from_def)
    finally have "ParseIPv6Addr_ip (?u @ t) = Inr (ip, t)"
      using run nolead assms(2) r(2) expand_zero_run [of ip ?st ?n]
      by (auto simp: ParseIPv6Addr_ip_def expand_zeros_def)
    with r len nolead show ?thesis
      using format_quad_c_char by (intro that [of ?u]) (auto simp: u)
  qed
qed

subsection \<open>The numbers behind the address\<close>

definition is_dec :: "char \<Rightarrow> bool" where
  "is_dec c \<longleftrightarrow> 0 \<le> ParseIPv6Addr_DecimalDigitVal c \<and> c \<noteq> NUL \<and> c \<noteq> CHR '']'' \<and>
     \<not> ParseIPv6Addr_IsSpace c"

definition dec_value :: "int \<Rightarrow> string \<Rightarrow> int" where
  "dec_value v ds = foldl (\<lambda>v c. v * 10 + ParseIPv6Addr_DecimalDigitVal c) v ds"

lemma dec_value_simps [simp]:
  "dec_value v [] = v"
  "dec_value v (c # ds) = dec_value (v * 10 + ParseIPv6Addr_DecimalDigitVal c) ds"
  "dec_value v (ds @ es) = dec_value (dec_value v ds) es"
  by (simp_all add: dec_value_def)

lemma is_dec_digit_char [simp]: "d < 10 \<Longrightarrow> is_dec (digit_char d)"
  by (simp add: is_dec_def parse_simps)

lemma dec_nat_digits: "list_all is_dec (dec_nat n) \<and> dec_value 0 (dec_nat n) = int n"
proof (induction n rule: dec_nat.induct)
  case (1 n)
  show ?case
  proof (cases "n < 10")
    case True
    then show ?thesis by (subst (1 2) dec_nat.simps) (simp add: parse_simps)
  next
    case False
    with "1.IH" have IH: "list_all is_dec (dec_nat (n div 10))"
        "dec_value 0 (dec_nat (n div 10)) = int (n div 10)" by auto
    have "int (n div 10) * 10 + int (n mod 10) = int n" by presburger
    with False IH show ?thesis
      by (subst (1 2) dec_nat.simps) (simp add: parse_simps)
  qed
qed

lemma dec_value_ge: "list_all is_dec ds \<Longrightarrow> 0 \<le> v \<Longrightarrow> v \<le> dec_value v ds"
proof (induction ds arbitrary: v)
  case (Cons c ds)
  then have "0 \<le> ParseIPv6Addr_DecimalDigitVal c" by (simp add: is_dec_def)
  with Cons.prems(2) have "v \<le> v * 10 + ParseIPv6Addr_DecimalDigitVal c" by simp
  also have "\<dots> \<le> dec_value (v * 10 + ParseIPv6Addr_DecimalDigitVal c) ds"
    using Cons \<open>0 \<le> ParseIPv6Addr_DecimalDigitVal c\<close> by (intro Cons.IH) auto
  finally show ?case by simp
qed simp

lemma port_digits_dec:
  "list_all is_dec ds \<Longrightarrow> 0 \<le> v \<Longrightarrow> dec_value v ds \<le> 0xffff \<Longrightarrow>
   port_digits v ds = Some (dec_value v ds, [])"
proof (induction ds arbitrary: v)
  case (Cons c ds)
  let ?v = "v * 10 + ParseIPv6Addr_DecimalDigitVal c"
  from Cons.prems have c: "is_dec c" and ds: "list_all is_dec ds" by auto
  from c Cons.prems(2) have v: "0 \<le> ?v" by (simp add: is_dec_def)
  from dec_value_ge [OF ds v] Cons.prems(3) have "?v \<le> 0xffff" by simp
  moreover have "port_digits ?v ds = Some (dec_value ?v ds, [])"
    using Cons.prems ds v by (intro Cons.IH) auto
  ultimately show ?case using c by (simp add: is_dec_def)
qed simp

lemma scope_digits_dec:
  assumes "c_char t = CHR '']''"
  shows "list_all is_dec ds \<Longrightarrow> scope_digits (word_of_int v) (ds @ t) = Some (word_of_int (dec_value v ds), t)"
proof (induction ds arbitrary: v)
  case Nil
  with assms show ?case by (cases t) (auto simp: NUL_def)
next
  case (Cons c ds)
  then show ?case by (simp add: is_dec_def word_of_int_hom_syms flip: Cons.IH) 
qed

lemma dec_nat_Cons:
  obtains c ds where "dec_nat n = c # ds" "is_dec c" "list_all is_dec ds"
    "dec_value (ParseIPv6Addr_DecimalDigitVal c) ds = int n"
  using dec_nat_digits [of n] dec_nat_nonempty [of n]
  by (cases "dec_nat n") auto

lemma parse_port_dec: "n \<le> 0xffff \<Longrightarrow> parse_port (dec_nat n) = Some (int n)"
  by (rule dec_nat_Cons [of n])
     (auto simp: parse_port_def port_digits_dec is_dec_def)

lemma parse_scope_dec:
  assumes "c_char t = CHR '']''"
  shows "parse_scope (CHR ''%'' # dec_nat n @ t) = Some (word_of_nat n, t)"
  using assms
  by (rule_tac dec_nat_Cons [of n])
     (auto simp: parse_scope_def scope_digits_dec is_dec_def)

subsection \<open>What an address text parses back to\<close>

lemma skip_space_id: "\<not> ParseIPv6Addr_IsSpace (c_char s) \<Longrightarrow> skip_space s = s"
  by (cases s) auto

lemma NUL_not_space [simp]: "\<not> ParseIPv6Addr_IsSpace NUL"
  and bracket_not_space [simp]: "\<not> ParseIPv6Addr_IsSpace (CHR ''['')"
    "\<not> ParseIPv6Addr_IsSpace (CHR '']'')"
  by (simp_all add: ParseIPv6Addr_IsSpace_def NUL_def)

lemma ip_end_simps [simp]: "ip_end []" "ip_end (CHR ''%'' # t)" "ip_end (CHR '']'' # t)"
  by (simp_all add: ip_end_def ParseIPv6Addr_HexDigitVal_def NUL_def)

lemma tail_empty [simp]:
  "ParseIPv6Addr_tail wantPort wantScope False ip [] =
     \<lparr>bParsed = True, pOutIP = ip, pOutPort = (if wantPort then Some (-1) else None),
      pOutScope = (if wantScope then Some 0 else None)\<rparr>"
  by (simp add: ParseIPv6Addr_tail_def parse_scope_def parse_close_bracket_def parse_port_sep_def
      NUL_def)

lemma tail_port:
  assumes "parse_scope s = Some (sc, CHR '']'' # CHR '':'' # t)" "parse_port t = Some p"
  shows "ParseIPv6Addr_tail True wantScope True ip s =
     \<lparr>bParsed = True, pOutIP = ip, pOutPort = Some p, pOutScope = (if wantScope then Some sc else None)\<rparr>"
  using assms
  by (simp add: ParseIPv6Addr_tail_def parse_close_bracket_def parse_port_sep_def)

text \<open>The printed tail: the scope is printed with \<open>%d\<close>, as a signed number.\<close>

lemma scope_text:
  fixes scope :: u32
  assumes "0 \<le> sint scope"
  shows "snprintf 12 (CHR ''%'' # dec_int (sint scope)) = CHR ''%'' # dec_nat (unat scope)"
proof -
  have "sint scope = int (unat scope)"
    using assms sint_lt [of scope] by (simp add: uint_sint take_bit_int_eq_self)
  moreover have "length (dec_nat (unat scope)) \<le> 10"
  proof (rule length_dec_nat)
    have "unat scope < 2 ^ 32" using unsigned_less [of scope, where 'a = nat] by simp
    then show "unat scope < 10 ^ 10" by simp
  qed simp
  ultimately show ?thesis by (simp add: snprintf_def dec_int_def)
qed

lemma port_text: "snprintf 8 ([CHR '']'', CHR '':''] @ dec_nat (unat port)) =
    CHR '']'' # CHR '':'' # dec_nat (unat (port :: u16))"
proof -
  have "unat port < 2 ^ 16" using unsigned_less [of port, where 'a = nat] by simp
  then have "length (dec_nat (unat port)) \<le> 5" by (intro length_dec_nat) auto
  then show ?thesis by (simp add: snprintf_def)
qed

lemma AddrToString_text:
  assumes "length ip = 16"
  obtains u where "IPv6AddrToString ip port scope = Some (CHR ''['' # u @
      (if scope \<noteq> 0 then snprintf 12 (CHR ''%'' # dec_int (sint scope)) else []) @
      CHR '']'' # CHR '':'' # dec_nat (unat port))"
    "\<forall>t. ip_end t \<longrightarrow> ParseIPv6Addr_ip (u @ t) = Inr (ip, t)"
    "\<forall>t. skip_space (u @ t) = u @ t"
proof -
  obtain u where u: "IPv6IPToString ip = Some u" "\<not> ParseIPv6Addr_IsSpace (c_char u)"
      "length u \<le> 39" "u \<noteq> []"
    using parse_ip_text [OF ip_end_simps(1) assms] by auto
  moreover have "ParseIPv6Addr_ip (u @ t) = Inr (ip, t)" if "ip_end t" for t
    using parse_ip_text [OF that assms] u(1) by auto
  moreover have "skip_space (u @ t) = u @ t" for t
    using u(2,4) by (cases u) auto
  ultimately show ?thesis
    by (intro that [of u]) (simp_all add: IPv6AddrToString_def port_text [simplified])
qed

subsection \<open>Properties\<close>

text \<open>
  C32: Printing an address and parsing the text gives the address back: for every 16 bytes
  \<open>IPv6IPToString\<close> returns a text that \<open>ParseIPv6Addr\<close> accepts, stores exactly these bytes for,
  and reports to have neither a port nor a scope.
\<close>

theorem IPv6IPToString_roundtrip:
  assumes "length ip = 16"
  shows "\<exists>t. IPv6IPToString ip = Some t \<and>
    ParseIPv6Addr t True True =
      \<lparr>bParsed = True, pOutIP = ip, pOutPort = Some (-1), pOutScope = Some 0\<rparr>"
proof -
  obtain t where "IPv6IPToString ip = Some t" "ParseIPv6Addr_ip (t @ []) = Inr (ip, [])"
    "\<not> ParseIPv6Addr_IsSpace (c_char (t @ []))" "c_char (t @ []) \<noteq> CHR ''[''"
    using parse_ip_text [OF ip_end_simps(1) assms] .
  then show ?thesis
    by (intro exI [of _ t]) (simp add: ParseIPv6Addr_def skip_space_id)
qed

theorem IPv6IPToString_roundtrip_witness:
  "\<exists>t. IPv6IPToString (replicate 15 0 @ [1]) = Some t \<and>
    ParseIPv6Addr t True True =
      \<lparr>bParsed = True, pOutIP = replicate 15 0 @ [1], pOutPort = Some (-1), pOutScope = Some 0\<rparr>"
  by (rule IPv6IPToString_roundtrip) simp

text \<open>
  C33: The bracketed form with port and scope round-trips too, as long as the scope read as a
  signed number is not negative: then the parser gives back the address, the port and the scope.
\<close>

theorem IPv6AddrToString_roundtrip:
  assumes "length ip = 16" "0 \<le> sint scope"
  shows "\<exists>t. IPv6AddrToString ip port scope = Some t \<and>
    ParseIPv6Addr t True True =
      \<lparr>bParsed = True, pOutIP = ip, pOutPort = Some (uint port), pOutScope = Some scope\<rparr>"
proof -
  let ?sc = "if scope \<noteq> 0 then snprintf 12 (CHR ''%'' # dec_int (sint scope)) else []"
    and ?p = "CHR '']'' # CHR '':'' # dec_nat (unat port)"
  obtain u where u: "IPv6AddrToString ip port scope = Some (CHR ''['' # u @ ?sc @ ?p)"
    "\<forall>t. ip_end t \<longrightarrow> ParseIPv6Addr_ip (u @ t) = Inr (ip, t)"
    "\<forall>t. skip_space (u @ t) = u @ t"
    using AddrToString_text [OF assms(1), of port scope] .
  have "ParseIPv6Addr_ip (u @ ?sc @ ?p) = Inr (ip, ?sc @ ?p)"
    by (rule u(2) [rule_format]) (simp add: scope_text assms)
  moreover have "parse_scope (?sc @ ?p) = Some (scope, ?p)"
    using parse_scope_dec [of ?p "unat scope"] assms by (auto simp: scope_text parse_scope_def)
  moreover have "parse_port (dec_nat (unat port)) = Some (uint port)"
    using unsigned_less [of port, where 'a = nat] by (subst parse_port_dec) auto
  ultimately show ?thesis using u(1,3)
    by (simp add: ParseIPv6Addr_def tail_port)
qed

theorem IPv6AddrToString_roundtrip_witness:
  "\<exists>t. IPv6AddrToString (replicate 15 0 @ [1]) 8080 7 = Some t \<and>
    ParseIPv6Addr t True True =
      \<lparr>bParsed = True, pOutIP = replicate 15 0 @ [1], pOutPort = Some (uint (8080 :: u16)),
       pOutScope = Some 7\<rparr>"
  by (rule IPv6AddrToString_roundtrip) simp_all

text \<open>
  A scope whose top bit is set does not survive: it is printed with the conversion for
  signed numbers, and the parser refuses the minus sign, whatever the address and the port.
\<close>

theorem IPv6AddrToString_negative_scope:
  assumes "length ip = 16" "sint scope < 0"
  shows "\<exists>t. IPv6AddrToString ip port scope = Some t \<and> \<not> bParsed (ParseIPv6Addr t True True)"
proof -
  obtain r where r: "snprintf 12 (CHR ''%'' # dec_int (sint scope)) = CHR ''%'' # CHR ''-'' # r"
    using assms(2) by (simp add: snprintf_def dec_int_def)
  obtain u where u: "IPv6AddrToString ip port scope = Some (CHR ''['' # u @
      (if scope \<noteq> 0 then snprintf 12 (CHR ''%'' # dec_int (sint scope)) else []) @
      CHR '']'' # CHR '':'' # dec_nat (unat port))"
    "\<forall>t. ip_end t \<longrightarrow> ParseIPv6Addr_ip (u @ t) = Inr (ip, t)"
    "\<forall>t. skip_space (u @ t) = u @ t"
    using AddrToString_text [OF assms(1), of port scope] .
  from assms(2) have "scope \<noteq> 0" by auto
  with u(1) r have u1: "IPv6AddrToString ip port scope = Some (CHR ''['' # u @
      CHR ''%'' # CHR ''-'' # r @ CHR '']'' # CHR '':'' # dec_nat (unat port))"
    by simp
  have "ParseIPv6Addr_DecimalDigitVal (CHR ''-'') = -1"
    by (simp add: ParseIPv6Addr_DecimalDigitVal_def)
  then show ?thesis using u1 u(3) u(2) [rule_format, of "CHR ''%'' # CHR ''-'' # r @ CHR '']'' # CHR '':'' # dec_nat (unat port)"]
    by (simp add: ParseIPv6Addr_def ParseIPv6Addr_tail_def parse_scope_def)
qed

theorem IPv6AddrToString_negative_scope_witness:
  "\<exists>t. IPv6AddrToString (replicate 16 0) 80 0x80000000 = Some t \<and>
    \<not> bParsed (ParseIPv6Addr t True True)"
  by (rule IPv6AddrToString_negative_scope) simp_all

text \<open>
  The compressed run is the leftmost longest run of at least two zero quads, if there is one:
  the scan over a 16-byte address returns \<open>-1\<close> exactly when no two neighbouring quads are zero,
  and otherwise the start and length of a run that no run exceeds and no equal run precedes.
\<close>

theorem scan_finds_leftmost_longest_run:
  assumes "length ip = 16"
  shows "\<exists>r. scan_quads ip 0 scan_init = Some r \<and>
    (if idxLongestRunStart r = -1 then \<forall>a. 0 \<le> a \<and> a \<le> 6 \<longrightarrow> \<not> zero_run ip a 2
     else 0 \<le> idxLongestRunStart r \<and> 2 \<le> nLongestRun r \<and>
          idxLongestRunStart r + nLongestRun r \<le> 8 \<and>
          zero_run ip (idxLongestRunStart r) (nLongestRun r) \<and>
          (\<forall>a n. 0 \<le> a \<and> a + n \<le> 8 \<and> zero_run ip a n \<longrightarrow> n \<le> nLongestRun r) \<and>
          (\<forall>a. 0 \<le> a \<and> a < idxLongestRunStart r \<longrightarrow> \<not> zero_run ip a (nLongestRun r)))"
proof -
  obtain r where r: "scan_inv ip 8 r" "scan_quads ip 0 scan_init = Some r"
    using IPv6IPToString_run [OF assms] .
  then have longest: "\<And>a n. 0 \<le> a \<Longrightarrow> a + n \<le> 8 \<Longrightarrow> zero_run ip a n \<Longrightarrow> n \<le> nLongestRun r"
    and best: "idxLongestRunStart r = -1 \<and> nLongestRun r = 1 \<or>
      0 \<le> idxLongestRunStart r \<and> 2 \<le> nLongestRun r \<and> idxLongestRunStart r + nLongestRun r \<le> 8 \<and>
      zero_run ip (idxLongestRunStart r) (nLongestRun r) \<and>
      (\<forall>a. 0 \<le> a \<and> a < idxLongestRunStart r \<longrightarrow> \<not> zero_run ip a (nLongestRun r))"
    by (auto simp: scan_inv_def)
  from longest [of _ 2] longest best r(2) show ?thesis by force
qed

theorem scan_finds_leftmost_longest_run_witness:
  "\<exists>r. scan_quads (replicate 16 0) 0 scan_init = Some r \<and>
    (if idxLongestRunStart r = -1 then \<forall>a. 0 \<le> a \<and> a \<le> 6 \<longrightarrow> \<not> zero_run (replicate 16 0) a 2
     else 0 \<le> idxLongestRunStart r \<and> 2 \<le> nLongestRun r \<and>
          idxLongestRunStart r + nLongestRun r \<le> 8 \<and>
          zero_run (replicate 16 0) (idxLongestRunStart r) (nLongestRun r) \<and>
          (\<forall>a n. 0 \<le> a \<and> a + n \<le> 8 \<and> zero_run (replicate 16 0) a n \<longrightarrow> n \<le> nLongestRun r) \<and>
          (\<forall>a. 0 \<le> a \<and> a < idxLongestRunStart r \<longrightarrow> \<not> zero_run (replicate 16 0) a (nLongestRun r)))"
  by (rule scan_finds_leftmost_longest_run) simp

text \<open>
  Neither printer overruns the buffer it asks for: the text of an address is at most 39
  characters, below the 51 of \<open>k_cchMaxIPV6AddrStringWithoutPort\<close>, and with brackets, any scope and
  any port it is at most 58, which with the terminator is the 59 of
  \<open>k_cchMaxIPV6AddrStringWithPort\<close>.
\<close>

theorem IPv6_text_fits_buffer:
  assumes "length ip = 16"
  shows "\<exists>t u. IPv6IPToString ip = Some t \<and> length t \<le> 39 \<and>
    IPv6AddrToString ip port scope = Some u \<and> length u + 1 \<le> 59"
proof -
  let ?sc = "if scope \<noteq> 0 then snprintf 12 (CHR ''%'' # dec_int (sint scope)) else []"
  let ?p = "snprintf 8 ([CHR '']'', CHR '':''] @ dec_nat (unat port))"
  obtain t where t: "IPv6IPToString ip = Some t" "length t \<le> 39"
    using parse_ip_text [OF ip_end_simps(1) assms] .
  then have "IPv6AddrToString ip port scope = Some ([CHR ''[''] @ t @ ?sc @ ?p)"
    by (simp add: IPv6AddrToString_def)
  moreover have "length ?sc \<le> 11" "length ?p \<le> 7" by (simp_all add: snprintf_def)
  ultimately show ?thesis using t by auto
qed

theorem IPv6_text_fits_buffer_witness:
  "\<exists>t u. IPv6IPToString (replicate 16 255) = Some t \<and> length t \<le> 39 \<and>
    IPv6AddrToString (replicate 16 255) 65535 (-1) = Some u \<and> length u + 1 \<le> 59"
  by (rule IPv6_text_fits_buffer) simp

lemma parse_dotted_length:
  "(case parse_dotted n d s of Inl d' \<Rightarrow> length d' \<le> length d + n
    | Inr (d', s') \<Rightarrow> length d' = length d + n)"
proof (induction n arbitrary: d s)
  case (Suc n)
  show ?case
  proof (cases "parse_octet s")
    case (Some a)
    obtain octet r where a: "a = (octet, r)" by (cases a)
    show ?thesis
      using Suc.IH [of "d @ [word_of_int octet]" "tl r"] Some a
      by (auto simp: Let_def split: sum.splits prod.splits)
  qed simp
qed simp

fun quads_ok :: "byte list + byte list \<times> nat option \<times> string \<Rightarrow> bool" where
  "quads_ok (Inl d) \<longleftrightarrow> length d \<le> 16"
| "quads_ok (Inr (d, z, s)) \<longleftrightarrow> length d \<le> 16 \<and> (\<forall>k. z = Some k \<longrightarrow> k \<le> length d)"

lemma parse_quads_length:
  "even (length d) \<Longrightarrow> length d \<le> 16 \<Longrightarrow> (\<forall>k. z = Some k \<longrightarrow> k \<le> length d) \<Longrightarrow>
   quads_ok (parse_quads d z must s)"
proof (induction d z must s rule: parse_quads.induct)
  case (1 d z must s)
  let ?dig = "ParseIPv6Addr_HexDigitVal (c_char s)"
  let ?q = "parse_quad_digits ?dig (tl s)"
  let ?d = "d @ [word_of_int (drop_bit 8 (fst ?q)), word_of_int (fst ?q)]"
  show ?case
  proof -
    consider "?dig < 0" | "\<not> ?dig < 0" "16 \<le> length d"
      | "\<not> ?dig < 0" "\<not> 16 \<le> length d" "c_char (snd ?q) = CHR ''.''"
      | "\<not> ?dig < 0" "\<not> 16 \<le> length d" "c_char (snd ?q) \<noteq> CHR ''.''" by blast
    then show ?thesis
    proof cases
      case 1
      with "1.prems" show ?thesis by (subst parse_quads.simps) (simp add: Let_def)
    next
      case 2
      with "1.prems" show ?thesis by (subst parse_quads.simps) (simp add: Let_def)
    next
      case 3
      with "1.prems" parse_dotted_length [where n = 4 and d = d and s = s] show ?thesis
        by (subst parse_quads.simps) (auto simp add: Let_def split: sum.splits)
    next
      case 4
      then have "length d \<noteq> 15" using "1.prems"(1) by auto
      with 4 "1.prems" have d: "even (length ?d)" "length ?d \<le> 16" by auto
      have 2: "c_char (snd ?q) = CHR '':'' \<Longrightarrow> c_char (tl (snd ?q)) = CHR '':'' \<Longrightarrow> z = None \<Longrightarrow>
          quads_ok (parse_quads ?d (Some (length ?d)) False (tl (tl (snd ?q))))"
        using 4 d by (intro "1.IH"(1)) auto
      have 3: "c_char (snd ?q) = CHR '':'' \<Longrightarrow> c_char (tl (snd ?q)) \<noteq> CHR '':'' \<Longrightarrow>
          \<not> (z = None \<and> 16 \<le> length ?d) \<Longrightarrow>
          quads_ok (parse_quads ?d z True (tl (snd ?q)))"
        using 4 d "1.prems" by (intro "1.IH"(2)) auto
      have "\<forall>k. z = Some k \<longrightarrow> k \<le> length ?d" using "1.prems"(3) by auto
      with 4 d 2 3 show ?thesis
        by (subst parse_quads.simps) (auto simp: Let_def)
    qed
  qed
qed

lemma ParseIPv6Addr_ip_length:
  "case ParseIPv6Addr_ip s of Inl d \<Rightarrow> length d \<le> 16 | Inr (ip, t) \<Rightarrow> length ip = 16"
proof -
  let ?lead = "c_char s = CHR '':'' \<and> c_char (tl s) = CHR '':''"
  let ?p = "parse_quads [] (if ?lead then Some 0 else None) (\<not> ?lead) (if ?lead then tl (tl s) else s)"
  have "quads_ok ?p" by (rule parse_quads_length) auto
  moreover have "ParseIPv6Addr_ip s = (case ?p of Inl d \<Rightarrow> Inl d | Inr (d, z, s) \<Rightarrow>
      (case expand_zeros d z of Inl d \<Rightarrow> Inl d | Inr ip \<Rightarrow> Inr (ip, s)))"
    by (simp only: ParseIPv6Addr_ip_def Let_def)
  ultimately show ?thesis
    by (cases ?p rule: quads_ok.cases)
       (auto simp: expand_zeros_def split: option.splits if_splits)
qed

lemma tail_ip [simp]: "pOutIP (ParseIPv6Addr_tail wp ws b ip s) = ip"
  by (simp add: ParseIPv6Addr_tail_def Let_def split: option.splits port_sep.splits)

lemma port_digits_range:
  "\<not> v < 0 \<Longrightarrow> \<not> 0xffff < v \<Longrightarrow> port_digits v s = Some (p, t) \<Longrightarrow> 0 \<le> p \<and> p \<le> 0xffff"
proof (induction s arbitrary: v)
  case (Cons c s)
  have "\<not> v * 10 + ParseIPv6Addr_DecimalDigitVal c < 0" if "\<not> ParseIPv6Addr_DecimalDigitVal c < 0"
    using Cons.prems(1) that by simp
  with Cons.prems Cons.IH [of "v * 10 + ParseIPv6Addr_DecimalDigitVal c"] show ?case
    by (simp add: Let_def split: if_splits)
qed simp

lemma parse_port_range: "parse_port s = Some p \<Longrightarrow> 0 \<le> p \<and> p \<le> 0xffff"
proof -
  assume p: "parse_port s = Some p"
  have "\<not> 0xffff < ParseIPv6Addr_DecimalDigitVal (c_char s)"
    by (simp add: ParseIPv6Addr_DecimalDigitVal_def Let_def)
  with p port_digits_range [of "ParseIPv6Addr_DecimalDigitVal (c_char s)" "tl s" p] show ?thesis
    by (auto simp: parse_port_def Let_def split: if_splits option.splits prod.splits)
qed

lemma tail_port_range:
  assumes "bParsed (ParseIPv6Addr_tail wp ws b ip s)"
  shows "if wp then \<exists>p. pOutPort (ParseIPv6Addr_tail wp ws b ip s) = Some p \<and> -1 \<le> p \<and> p \<le> 65535
         else pOutPort (ParseIPv6Addr_tail wp ws b ip s) = None"
proof -
  have "-1 \<le> p \<and> p \<le> 65535" if "parse_port t = Some p" for t p
    using parse_port_range [OF that] by simp
  with assms show ?thesis
    by (auto simp: ParseIPv6Addr_tail_def Let_def split: option.splits port_sep.splits if_splits)
qed

lemma ParseIPv6Addr_result:
  obtains d where "length d \<le> 16"
      "ParseIPv6Addr s wp ws = \<lparr>bParsed = False, pOutIP = d, pOutPort = None, pOutScope = None\<rparr>"
    | b ip t where "length ip = 16" "ParseIPv6Addr s wp ws = ParseIPv6Addr_tail wp ws b ip t"
proof -
  let ?b = "c_char (skip_space s) = CHR ''[''"
  let ?s = "if ?b then skip_space (tl (skip_space s)) else skip_space s"
  have p: "ParseIPv6Addr s wp ws = (case ParseIPv6Addr_ip ?s of
      Inl d \<Rightarrow> \<lparr>bParsed = False, pOutIP = d, pOutPort = None, pOutScope = None\<rparr>
    | Inr (ip, s) \<Rightarrow> ParseIPv6Addr_tail wp ws ?b ip s)"
    by (simp only: ParseIPv6Addr_def Let_def)
  show ?thesis
  proof (cases "ParseIPv6Addr_ip ?s")
    case (Inl d)
    with p that(1) [of d] ParseIPv6Addr_ip_length [of ?s] show ?thesis by simp
  next
    case (Inr a)
    obtain ip t where "a = (ip, t)" by (cases a)
    with Inr p that(2) [of ip ?b t] ParseIPv6Addr_ip_length [of ?s] show ?thesis by simp
  qed
qed

text \<open>
  C34: The parser stores at most the 16 bytes of the caller's buffer, whatever the text, and
  whether or not it accepts it; when it accepts, it has stored all 16.
\<close>

theorem ParseIPv6Addr_fills_buffer:
  "length (pOutIP (ParseIPv6Addr s wantPort wantScope)) \<le> 16 \<and>
   (bParsed (ParseIPv6Addr s wantPort wantScope) \<longrightarrow>
      length (pOutIP (ParseIPv6Addr s wantPort wantScope)) = 16)"
  by (rule ParseIPv6Addr_result [of s wantPort wantScope]) simp_all

theorem ParseIPv6Addr_fills_buffer_witness:
  "length (pOutIP (ParseIPv6Addr ''1::2'' True True)) = 16"
  using ParseIPv6Addr_fills_buffer [of "''1::2''" True True] by code_simp

text \<open>
  What an accepted text says about the port: nothing is stored when the caller passes no
  pointer (a text with a port is refused then), and otherwise \<open>-1\<close> for no port or a value that
  fits 16 bits.
\<close>

theorem ParseIPv6Addr_port_range:
  assumes "bParsed (ParseIPv6Addr s wantPort wantScope)"
  shows "if wantPort then \<exists>p. pOutPort (ParseIPv6Addr s wantPort wantScope) = Some p \<and>
             -1 \<le> p \<and> p \<le> 65535
         else pOutPort (ParseIPv6Addr s wantPort wantScope) = None"
proof (rule ParseIPv6Addr_result [of s wantPort wantScope])
  fix b ip t
  assume eq: "ParseIPv6Addr s wantPort wantScope = ParseIPv6Addr_tail wantPort wantScope b ip t"
  show ?thesis using assms unfolding eq by (rule tail_port_range)
qed (use assms in simp)

theorem ParseIPv6Addr_port_range_witness:
  "\<exists>p. pOutPort (ParseIPv6Addr ''[1::2]:80'' True True) = Some p \<and> -1 \<le> p \<and> p \<le> 65535"
proof -
  have "bParsed (ParseIPv6Addr ''[1::2]:80'' True True)" by code_simp
  from ParseIPv6Addr_port_range [OF this] show ?thesis by simp
qed

text \<open>
  A colon behind compressed zeros is taken for a port separator, brackets or not: after
  \<open>::\<close> the text \<open>:\<close> and a decimal number up to 65535 gives that port of the unspecified
  address, which the header calls the ambiguous case it does not support.
\<close>

theorem ParseIPv6Addr_ambiguous_port:
  assumes "n \<le> 65535"
  shows "ParseIPv6Addr (CHR '':'' # CHR '':'' # CHR '':'' # dec_nat n) True True =
    \<lparr>bParsed = True, pOutIP = replicate 16 0, pOutPort = Some (int n), pOutScope = Some 0\<rparr>"
proof -
  have "ParseIPv6Addr_ip (CHR '':'' # CHR '':'' # CHR '':'' # dec_nat n) =
      Inr (replicate 16 0, CHR '':'' # dec_nat n)"
    by (simp add: ParseIPv6Addr_ip_def parse_quads.simps [of _ _ False] expand_zeros_def parse_simps)
  then show ?thesis
    using parse_port_dec assms
    by (simp add: ParseIPv6Addr_def ParseIPv6Addr_tail_def parse_scope_def parse_close_bracket_def
        parse_port_sep_def ParseIPv6Addr_IsSpace_def)
qed

theorem ParseIPv6Addr_ambiguous_port_witness:
  "ParseIPv6Addr (CHR '':'' # CHR '':'' # CHR '':'' # dec_nat 80) True True =
    \<lparr>bParsed = True, pOutIP = replicate 16 0, pOutPort = Some (int 80), pOutScope = Some 0\<rparr>"
  by (rule ParseIPv6Addr_ambiguous_port) simp
end
