(* ===== verification/UtlMemory.thy ===== *)
theory UtlMemory
  imports Prelude
begin

text \<open>
  \<open>CUtlMemoryBase\<close> and \<open>CUtlMemory\<close> (\<open>src/GameNetworkingSockets/src/public/tier1/utlmemory.h\<close>,
  \<open>src/GameNetworkingSockets/src/tier1/utlmemory.cpp\<close>): the growable array below the vector, the
  linked list and the hash map. \<open>m_pMemory\<close> is the list of allocated cells, empty for a null
  pointer. What a fresh cell holds is not determined by the code, so every operation that
  allocates takes it as an argument, a function from the index of the cell. The sizes are \<open>int\<close>s
  and stay far below the width of the machine integer.
\<close>

record 'a utlmem =
  m_pMemory :: "'a list"
  m_nAllocationCount :: int
  m_nGrowSize :: int
  m_unSizeOfElements :: int

definition EXTERNAL_BUFFER_MARKER :: int where
  "EXTERNAL_BUFFER_MARKER = -1"

definition EXTERNAL_CONST_BUFFER_MARKER :: int where
  "EXTERNAL_CONST_BUFFER_MARKER = -2"

text \<open>The allocator, counted in cells.\<close>

definition PvAlloc :: "(nat \<Rightarrow> 'a) \<Rightarrow> int \<Rightarrow> 'a list" where
  "PvAlloc raw n = map raw [0 ..< nat n]"

definition PvRealloc :: "(nat \<Rightarrow> 'a) \<Rightarrow> 'a list \<Rightarrow> int \<Rightarrow> 'a list" where
  "PvRealloc raw p n = take (nat n) p @ map raw [length p ..< nat n]"

definition Memory_new :: "(nat \<Rightarrow> 'a) \<Rightarrow> int \<Rightarrow> int \<Rightarrow> int \<Rightarrow> 'a utlmem" where
  "Memory_new raw nSizeOfType nGrowSize nInitAllocationCount =
     \<lparr>m_pMemory = (if nInitAllocationCount \<noteq> 0 then PvAlloc raw nInitAllocationCount else []),
      m_nAllocationCount = nInitAllocationCount, m_nGrowSize = nGrowSize,
      m_unSizeOfElements = nSizeOfType\<rparr>"

definition Memory_new_external :: "int \<Rightarrow> 'a list \<Rightarrow> int \<Rightarrow> 'a utlmem" where
  "Memory_new_external nSizeOfType pMemory numElements =
     \<lparr>m_pMemory = pMemory, m_nAllocationCount = numElements,
      m_nGrowSize = EXTERNAL_BUFFER_MARKER, m_unSizeOfElements = nSizeOfType\<rparr>"

definition Memory_new_external_const :: "int \<Rightarrow> 'a list \<Rightarrow> int \<Rightarrow> 'a utlmem" where
  "Memory_new_external_const nSizeOfType pMemory numElements =
     \<lparr>m_pMemory = pMemory, m_nAllocationCount = numElements,
      m_nGrowSize = EXTERNAL_CONST_BUFFER_MARKER, m_unSizeOfElements = nSizeOfType\<rparr>"

definition Memory_IsExternallyAllocated :: "'a utlmem \<Rightarrow> bool" where
  "Memory_IsExternallyAllocated m \<longleftrightarrow> m_nGrowSize m < 0"

definition Memory_IsReadOnly :: "'a utlmem \<Rightarrow> bool" where
  "Memory_IsReadOnly m \<longleftrightarrow> m_nGrowSize m = EXTERNAL_CONST_BUFFER_MARKER"

definition Memory_SetGrowSize :: "int \<Rightarrow> 'a utlmem \<Rightarrow> 'a utlmem" where
  "Memory_SetGrowSize nSize m = m\<lparr>m_nGrowSize := nSize\<rparr>"

definition Memory_NumAllocated :: "'a utlmem \<Rightarrow> int" where
  "Memory_NumAllocated m = m_nAllocationCount m"

definition Memory_Count :: "'a utlmem \<Rightarrow> int" where
  "Memory_Count m = m_nAllocationCount m"

definition Memory_IsIdxValid :: "'a utlmem \<Rightarrow> int \<Rightarrow> bool" where
  "Memory_IsIdxValid m i \<longleftrightarrow> 0 \<le> i \<and> i < m_nAllocationCount m"

text \<open>Element access is an access of the cells; the write is an assignment through the reference.\<close>

definition Memory_Element :: "'a utlmem \<Rightarrow> int \<Rightarrow> 'a option" where
  "Memory_Element m i = get_at (m_pMemory m) i"

definition Memory_SetElement :: "'a utlmem \<Rightarrow> int \<Rightarrow> 'a \<Rightarrow> 'a utlmem option" where
  "Memory_SetElement m i x =
     (case set_at (m_pMemory m) i x of None \<Rightarrow> None | Some p \<Rightarrow> Some (m\<lparr>m_pMemory := p\<rparr>))"

text \<open>Two memories change places, field by field.\<close>

definition Memory_Swap :: "'a utlmem \<Rightarrow> 'a utlmem \<Rightarrow> 'a utlmem \<times> 'a utlmem" where
  "Memory_Swap m mem =
     (m\<lparr>m_nGrowSize := m_nGrowSize mem, m_pMemory := m_pMemory mem,
        m_nAllocationCount := m_nAllocationCount mem, m_unSizeOfElements := m_unSizeOfElements mem\<rparr>,
      mem\<lparr>m_nGrowSize := m_nGrowSize m, m_pMemory := m_pMemory m,
        m_nAllocationCount := m_nAllocationCount m, m_unSizeOfElements := m_unSizeOfElements m\<rparr>)"

definition Memory_Detach :: "'a utlmem \<Rightarrow> 'a list \<times> 'a utlmem" where
  "Memory_Detach m = (m_pMemory m, m\<lparr>m_nAllocationCount := 0, m_pMemory := []\<rparr>)"

definition Memory_ConvertToGrowableMemory :: "int \<Rightarrow> 'a utlmem \<Rightarrow> 'a utlmem" where
  "Memory_ConvertToGrowableMemory nGrowSize m =
     (if \<not> Memory_IsExternallyAllocated m then m
      else let m = m\<lparr>m_nGrowSize := nGrowSize\<rparr> in
        if m_nAllocationCount m \<noteq> 0
        then m\<lparr>m_pMemory := take (nat (m_nAllocationCount m)) (m_pMemory m)\<rparr>
        else m\<lparr>m_pMemory := []\<rparr>)"

definition Memory_Purge :: "'a utlmem \<Rightarrow> 'a utlmem" where
  "Memory_Purge m =
     (if \<not> Memory_IsExternallyAllocated m then m\<lparr>m_pMemory := [], m_nAllocationCount := 0\<rparr> else m)"

definition Memory_SetExternalBuffer :: "'a list \<Rightarrow> int \<Rightarrow> 'a utlmem \<Rightarrow> 'a utlmem" where
  "Memory_SetExternalBuffer pMemory numElements m =
     (Memory_Purge m)\<lparr>m_pMemory := pMemory, m_nAllocationCount := numElements,
        m_nGrowSize := EXTERNAL_BUFFER_MARKER\<rparr>"

definition Memory_SetExternalBuffer_const :: "'a list \<Rightarrow> int \<Rightarrow> 'a utlmem \<Rightarrow> 'a utlmem" where
  "Memory_SetExternalBuffer_const pMemory numElements m =
     (Memory_Purge m)\<lparr>m_pMemory := pMemory, m_nAllocationCount := numElements,
        m_nGrowSize := EXTERNAL_CONST_BUFFER_MARKER\<rparr>"

subsection \<open>Growing\<close>

text \<open>
  The doubling loop. It makes no progress from a count that is not positive, so not returning is
  the value \<open>None\<close> (the lemmas below say when that is ruled out).
\<close>

partial_function (option) grow_loop :: "int \<Rightarrow> int \<Rightarrow> int \<Rightarrow> int option" where
  "grow_loop nMaxGrowStep nNewSize nAllocationCount =
     (if nAllocationCount < nNewSize
      then grow_loop nMaxGrowStep nNewSize (nAllocationCount + min nAllocationCount nMaxGrowStep)
      else Some nAllocationCount)"

declare grow_loop.simps [code]

definition UtlMemory_CalcNewAllocationCount :: "int \<Rightarrow> int \<Rightarrow> int \<Rightarrow> int \<Rightarrow> int option" where
  "UtlMemory_CalcNewAllocationCount nAllocationCount nGrowSize nNewSize nBytesItem =
     (if nGrowSize \<noteq> 0 then Some ((1 + ((nNewSize - 1) div nGrowSize)) * nGrowSize)
      else
        let nAllocationCount =
              (if nAllocationCount = 0
               then (if 0 < nBytesItem then (31 + nBytesItem) div nBytesItem else 256)
               else nAllocationCount);
            nMaxGrowStep = max 1 (256 * 1024 * 1024 div (if 0 < nBytesItem then nBytesItem else 1))
        in grow_loop nMaxGrowStep nNewSize nAllocationCount)"

definition Memory_Grow :: "(nat \<Rightarrow> 'a) \<Rightarrow> int \<Rightarrow> 'a utlmem \<Rightarrow> 'a utlmem option" where
  "Memory_Grow raw num m =
     (if Memory_IsExternallyAllocated m then Some m
      else do {
        n \<leftarrow> UtlMemory_CalcNewAllocationCount (m_nAllocationCount m) (m_nGrowSize m)
               (m_nAllocationCount m + num) (m_unSizeOfElements m);
        Some (m\<lparr>m_nAllocationCount := n,
                m_pMemory := (if m_pMemory m \<noteq> [] then PvRealloc raw (m_pMemory m) n
                              else PvAlloc raw n)\<rparr>)})"

definition Memory_EnsureCapacity :: "(nat \<Rightarrow> 'a) \<Rightarrow> int \<Rightarrow> 'a utlmem \<Rightarrow> 'a utlmem" where
  "Memory_EnsureCapacity raw num m =
     (if num \<le> m_nAllocationCount m then m
      else if Memory_IsExternallyAllocated m then m
      else m\<lparr>m_nAllocationCount := num,
             m_pMemory := (if m_pMemory m \<noteq> [] then PvRealloc raw (m_pMemory m) num
                           else PvAlloc raw num)\<rparr>)"

definition Memory_PurgeTo :: "(nat \<Rightarrow> 'a) \<Rightarrow> int \<Rightarrow> bool \<Rightarrow> 'a utlmem \<Rightarrow> 'a utlmem" where
  "Memory_PurgeTo raw numElements bRealloc m =
     (if m_nAllocationCount m < numElements then m
      else if numElements = 0 then Memory_Purge m
      else if Memory_IsExternallyAllocated m then m
      else if numElements = m_nAllocationCount m then m
      else if m_pMemory m = [] then m
      else if bRealloc then m\<lparr>m_nAllocationCount := numElements,
             m_pMemory := PvRealloc raw (m_pMemory m) numElements\<rparr>
      else m\<lparr>m_nAllocationCount := numElements\<rparr>)"

subsection \<open>The invariant, and what growing does\<close>

text \<open>
  Every cell the count covers is allocated. (There may be more of them: purging to a smaller
  size without reallocation leaves the block as it is.)
\<close>

definition mem_inv :: "'a utlmem \<Rightarrow> bool" where
  "mem_inv m \<longleftrightarrow> 0 < m_unSizeOfElements m \<and> 0 \<le> m_nAllocationCount m \<and>
     m_nAllocationCount m \<le> int (length (m_pMemory m))"

lemma length_PvAlloc [simp]: "length (PvAlloc raw n) = nat n"
  by (simp add: PvAlloc_def)

lemma length_PvRealloc [simp]: "length (PvRealloc raw p n) = nat n"
  by (simp add: PvRealloc_def)

lemma take_PvRealloc: "k \<le> length p \<Longrightarrow> k \<le> nat n \<Longrightarrow> take k (PvRealloc raw p n) = take k p"
  by (simp add: PvRealloc_def min_absorb1)

lemma grow_loop_result:
  "1 \<le> step \<Longrightarrow> 0 < n \<Longrightarrow> \<exists>r. grow_loop step new n = Some r \<and> new \<le> r \<and> n \<le> r \<and>
     (r = n \<or> r < new + step \<and> r < 2 * new)"
proof (induction "nat (new - n)" arbitrary: n rule: less_induct)
  case less
  show ?case
  proof (cases "n < new")
    case False
    then show ?thesis by (subst grow_loop.simps) auto
  next
    case True
    let ?n = "n + min n step"
    have "nat (new - ?n) < nat (new - n)" "0 < ?n" using True less.prems by auto
    then obtain r where r: "grow_loop step new ?n = Some r" "new \<le> r" "?n \<le> r"
        "r = ?n \<or> r < new + step \<and> r < 2 * new"
      using less.hyps less.prems by blast
    moreover have "grow_loop step new n = grow_loop step new ?n"
      using True by (subst grow_loop.simps) simp
    moreover have "?n < new + step" "?n < 2 * new" using True less.prems by auto
    ultimately show ?thesis using True less.prems by auto
  qed
qed

lemma first_alloc_pos: "0 < bytes \<Longrightarrow> 0 < (31 + bytes) div (bytes :: int)"
  by (simp add: pos_imp_zdiv_pos_iff)

lemma CalcNewAllocationCount_result:
  assumes "0 \<le> cnt" "0 \<le> grow" "0 < bytes" "cnt < new"
  shows "\<exists>r. UtlMemory_CalcNewAllocationCount cnt grow new bytes = Some r \<and> new \<le> r"
proof (cases "grow = 0")
  case False
  then have "0 < grow" using assms by simp
  then have "(new - 1) mod grow < grow" by simp
  then have "new \<le> (1 + (new - 1) div grow) * grow"
    using div_mult_mod_eq [of "new - 1" grow] unfolding distrib_right by linarith
  with False show ?thesis by (simp add: UtlMemory_CalcNewAllocationCount_def)
next
  case True
  let ?c = "if cnt = 0 then (31 + bytes) div bytes else cnt"
  have "0 < ?c" using assms(1) first_alloc_pos [OF assms(3)] by auto
  with True assms grow_loop_result [of "max 1 (256 * 1024 * 1024 div bytes)" ?c new]
  show ?thesis by (auto simp: UtlMemory_CalcNewAllocationCount_def Let_def)
qed

lemma Memory_Grow_result:
  assumes "mem_inv m" "0 \<le> m_nGrowSize m" "0 < num"
  shows "\<exists>m'. Memory_Grow raw num m = Some m' \<and> mem_inv m' \<and>
    m_nAllocationCount m + num \<le> m_nAllocationCount m' \<and> m_nGrowSize m' = m_nGrowSize m \<and>
    m_unSizeOfElements m' = m_unSizeOfElements m \<and>
    take (nat (m_nAllocationCount m)) (m_pMemory m') = take (nat (m_nAllocationCount m)) (m_pMemory m)"
proof -
  have "\<exists>r. UtlMemory_CalcNewAllocationCount (m_nAllocationCount m) (m_nGrowSize m)
      (m_nAllocationCount m + num) (m_unSizeOfElements m) = Some r \<and> m_nAllocationCount m + num \<le> r"
    using assms by (intro CalcNewAllocationCount_result) (auto simp: mem_inv_def)
  then obtain r where r: "UtlMemory_CalcNewAllocationCount (m_nAllocationCount m) (m_nGrowSize m)
      (m_nAllocationCount m + num) (m_unSizeOfElements m) = Some r"
      "m_nAllocationCount m + num \<le> r" by blast
  then show ?thesis using assms
    by (auto simp: Memory_Grow_def Memory_IsExternallyAllocated_def mem_inv_def take_PvRealloc)
qed

lemma Memory_EnsureCapacity_result:
  assumes "mem_inv m" "0 \<le> m_nGrowSize m"
  shows "mem_inv (Memory_EnsureCapacity raw num m) \<and>
    m_nAllocationCount (Memory_EnsureCapacity raw num m) = max num (m_nAllocationCount m) \<and>
    m_nGrowSize (Memory_EnsureCapacity raw num m) = m_nGrowSize m \<and>
    m_unSizeOfElements (Memory_EnsureCapacity raw num m) = m_unSizeOfElements m \<and>
    take (nat (m_nAllocationCount m)) (m_pMemory (Memory_EnsureCapacity raw num m)) =
      take (nat (m_nAllocationCount m)) (m_pMemory m)"
  using assms
  by (auto simp: Memory_EnsureCapacity_def Memory_IsExternallyAllocated_def mem_inv_def take_PvRealloc)

text \<open>
  Growing always comes back, with room for what was asked, and moves no element: for a memory
  that is not an external buffer, \<open>Grow(num)\<close> returns, leaves the invariant and the grow size as
  they were, allocates at least \<open>num\<close> cells more, and keeps every cell that was allocated.
\<close>

theorem Memory_Grow_correct:
  assumes "mem_inv m" "\<not> Memory_IsExternallyAllocated m" "0 < num"
  shows "\<exists>m'. Memory_Grow raw num m = Some m' \<and> mem_inv m' \<and>
    Memory_NumAllocated m + num \<le> Memory_NumAllocated m' \<and> m_nGrowSize m' = m_nGrowSize m \<and>
    (\<forall>i. Memory_IsIdxValid m i \<longrightarrow>
       Memory_IsIdxValid m' i \<and> Memory_Element m' i = Memory_Element m i)"
proof -
  have "0 \<le> m_nGrowSize m" using assms(2) by (simp add: Memory_IsExternallyAllocated_def)
  from Memory_Grow_result [OF assms(1) this assms(3)] obtain m'
    where m': "Memory_Grow raw num m = Some m'" "mem_inv m'"
      "m_nAllocationCount m + num \<le> m_nAllocationCount m'" "m_nGrowSize m' = m_nGrowSize m"
      "take (nat (m_nAllocationCount m)) (m_pMemory m') = take (nat (m_nAllocationCount m)) (m_pMemory m)"
    by blast
  have "Memory_Element m' i = Memory_Element m i" if i: "0 \<le> i" "i < m_nAllocationCount m" for i
  proof -
    have "m_pMemory m' ! nat i = take (nat (m_nAllocationCount m)) (m_pMemory m') ! nat i"
      using i by simp
    also have "\<dots> = m_pMemory m ! nat i" unfolding m'(5) using i by simp
    finally show ?thesis using m' assms(1,3) i
      by (simp add: Memory_Element_def get_at_def mem_inv_def)
  qed
  then show ?thesis using m' assms(3)
    by (auto simp: Memory_NumAllocated_def Memory_IsIdxValid_def)
qed

theorem Memory_Grow_correct_witness:
  "\<exists>m'. Memory_Grow (\<lambda>i. 0) 3 (Memory_new (\<lambda>i. 7 :: nat) 8 0 2) = Some m' \<and> mem_inv m' \<and>
    Memory_NumAllocated (Memory_new (\<lambda>i. 7 :: nat) 8 0 2) + 3 \<le> Memory_NumAllocated m' \<and>
    m_nGrowSize m' = m_nGrowSize (Memory_new (\<lambda>i. 7 :: nat) 8 0 2) \<and>
    (\<forall>i. Memory_IsIdxValid (Memory_new (\<lambda>i. 7 :: nat) 8 0 2) i \<longrightarrow>
       Memory_IsIdxValid m' i \<and>
       Memory_Element m' i = Memory_Element (Memory_new (\<lambda>i. 7 :: nat) 8 0 2) i)"
  by (rule Memory_Grow_correct)
     (simp_all add: mem_inv_def Memory_new_def Memory_IsExternallyAllocated_def)

text \<open>
  The doubling is bounded: without a grow size, a reallocation asks for less than twice the
  cells needed and for less than one step (256 megabytes, but at least a cell) above them, unless
  the first allocation's 32 bytes or the present allocation already suffice.
\<close>

theorem CalcNewAllocationCount_bound:
  assumes "0 \<le> cnt" "0 < bytes" "cnt < new"
  shows "\<exists>r. UtlMemory_CalcNewAllocationCount cnt 0 new bytes = Some r \<and> new \<le> r \<and>
    (cnt = 0 \<and> r = (31 + bytes) div bytes \<or>
     r < 2 * new \<and> r < new + max 1 (256 * 1024 * 1024 div bytes))"
proof -
  let ?c = "if cnt = 0 then (31 + bytes) div bytes else cnt"
  let ?step = "max 1 (256 * 1024 * 1024 div bytes)"
  have "0 < ?c" using assms(1) first_alloc_pos [OF assms(2)] by auto
  with grow_loop_result [of ?step ?c new] obtain r where
    "grow_loop ?step new ?c = Some r" "new \<le> r" "r = ?c \<or> r < new + ?step \<and> r < 2 * new" by auto
  with assms show ?thesis
    by (auto simp: UtlMemory_CalcNewAllocationCount_def Let_def split: if_splits)
qed

theorem CalcNewAllocationCount_bound_witness:
  "\<exists>r. UtlMemory_CalcNewAllocationCount 8 0 9 4 = Some r \<and> 9 \<le> r \<and>
    ((8 :: int) = 0 \<and> r = (31 + 4) div 4 \<or>
     r < 2 * 9 \<and> r < 9 + max 1 (256 * 1024 * 1024 div 4))"
  by (rule CalcNewAllocationCount_bound) simp_all

end
