(* ===== verification/UtlVector.thy ===== *)
theory UtlVector
  imports UtlMemory "HOL-Library.Multiset"
begin

text \<open>
  \<open>CUtlVector\<close> (\<open>src/GameNetworkingSockets/src/public/tier1/utlvector.h\<close>) over the growable
  memory: a block of cells of which the first \<open>m_Size\<close> are the elements. Operations are
  translated statement by statement, block moves included; an access outside the allocated cells
  is \<open>None\<close>. Constructors and destructors of elements have no effect of their own: constructing
  is storing the value, and a default constructed value is an argument (\<open>ctor\<close>).
\<close>

record 'a utlvector =
  m_Memory :: "'a utlmem"
  m_Size :: int

definition Vector_Base :: "'a utlvector \<Rightarrow> 'a list" where
  "Vector_Base v = m_pMemory (m_Memory v)"

definition Vector_with_cells :: "'a list \<Rightarrow> 'a utlvector \<Rightarrow> 'a utlvector" where
  "Vector_with_cells c v = v\<lparr>m_Memory := (m_Memory v)\<lparr>m_pMemory := c\<rparr>\<rparr>"

definition Vector_new :: "(nat \<Rightarrow> 'a) \<Rightarrow> int \<Rightarrow> int \<Rightarrow> int \<Rightarrow> 'a utlvector" where
  "Vector_new raw sizeOfT growSize initSize =
     \<lparr>m_Memory = Memory_new raw sizeOfT growSize initSize, m_Size = 0\<rparr>"

definition Vector_new_external :: "int \<Rightarrow> 'a list \<Rightarrow> int \<Rightarrow> int \<Rightarrow> 'a utlvector" where
  "Vector_new_external sizeOfT pMemory allocationCount numElements =
     \<lparr>m_Memory = Memory_new_external sizeOfT pMemory allocationCount, m_Size = numElements\<rparr>"

subsection \<open>Element access\<close>

definition Vector_Element :: "'a utlvector \<Rightarrow> int \<Rightarrow> 'a option" where
  "Vector_Element v i = get_at (Vector_Base v) i"

definition Vector_SetElement :: "'a utlvector \<Rightarrow> int \<Rightarrow> 'a \<Rightarrow> 'a utlvector option" where
  "Vector_SetElement v i x =
     (case set_at (Vector_Base v) i x of None \<Rightarrow> None | Some c \<Rightarrow> Some (Vector_with_cells c v))"

definition Vector_Head :: "'a utlvector \<Rightarrow> 'a option" where
  "Vector_Head v = Memory_Element (m_Memory v) 0"

definition Vector_Tail :: "'a utlvector \<Rightarrow> 'a option" where
  "Vector_Tail v = Memory_Element (m_Memory v) (m_Size v - 1)"

definition Vector_Count :: "'a utlvector \<Rightarrow> int" where
  "Vector_Count v = m_Size v"

definition Vector_IsEmpty :: "'a utlvector \<Rightarrow> bool" where
  "Vector_IsEmpty v \<longleftrightarrow> Vector_Count v = 0"

definition Vector_IsValidIndex :: "'a utlvector \<Rightarrow> int \<Rightarrow> bool" where
  "Vector_IsValidIndex v i \<longleftrightarrow> 0 \<le> i \<and> i < m_Size v"

definition Vector_InvalidIndex :: int where
  "Vector_InvalidIndex = -1"

subsection \<open>Growing and shifting\<close>

definition GrowVector :: "(nat \<Rightarrow> 'a) \<Rightarrow> int \<Rightarrow> 'a utlvector \<Rightarrow> 'a utlvector option" where
  "GrowVector raw num v = do {
     m \<leftarrow> (if Memory_NumAllocated (m_Memory v) < m_Size v + num
           then Memory_Grow raw (m_Size v + num - Memory_NumAllocated (m_Memory v)) (m_Memory v)
           else Some (m_Memory v));
     Some (v\<lparr>m_Memory := m, m_Size := m_Size v + num\<rparr>)}"

definition ShiftElementsRight :: "int \<Rightarrow> int \<Rightarrow> 'a utlvector \<Rightarrow> 'a utlvector option" where
  "ShiftElementsRight elem num v =
     (let numToMove = m_Size v - elem - num in
      if 0 < numToMove \<and> 0 < num then do {
        c \<leftarrow> memmove (Vector_Base v) (elem + num) elem numToMove;
        Some (Vector_with_cells c v)}
      else Some v)"

definition ShiftElementsLeft :: "int \<Rightarrow> int \<Rightarrow> 'a utlvector \<Rightarrow> 'a utlvector option" where
  "ShiftElementsLeft elem num v =
     (let numToMove = m_Size v - elem - num in
      if 0 < numToMove \<and> 0 < num then do {
        c \<leftarrow> memmove (Vector_Base v) elem (elem + num) numToMove;
        Some (Vector_with_cells c v)}
      else Some v)"

subsection \<open>Insertion\<close>

text \<open>\<open>InsertBefore\<close> with a value to copy; the version with a default constructor stores \<open>ctor\<close>.\<close>

definition InsertBefore :: "(nat \<Rightarrow> 'a) \<Rightarrow> int \<Rightarrow> 'a \<Rightarrow> 'a utlvector \<Rightarrow> (int \<times> 'a utlvector) option" where
  "InsertBefore raw elem src v = do {
     v \<leftarrow> GrowVector raw 1 v;
     v \<leftarrow> ShiftElementsRight elem 1 v;
     v \<leftarrow> Vector_SetElement v elem src;
     Some (elem, v)}"

definition InsertBefore_default ::
  "(nat \<Rightarrow> 'a) \<Rightarrow> 'a \<Rightarrow> int \<Rightarrow> 'a utlvector \<Rightarrow> (int \<times> 'a utlvector) option" where
  "InsertBefore_default raw ctor elem v = do {
     v \<leftarrow> GrowVector raw 1 v;
     v \<leftarrow> ShiftElementsRight elem 1 v;
     v \<leftarrow> Vector_SetElement v elem ctor;
     Some (elem, v)}"

definition AddToHead_default :: "(nat \<Rightarrow> 'a) \<Rightarrow> 'a \<Rightarrow> 'a utlvector \<Rightarrow> (int \<times> 'a utlvector) option" where
  "AddToHead_default raw ctor v = InsertBefore_default raw ctor 0 v"

definition AddToTail_default :: "(nat \<Rightarrow> 'a) \<Rightarrow> 'a \<Rightarrow> 'a utlvector \<Rightarrow> (int \<times> 'a utlvector) option" where
  "AddToTail_default raw ctor v = InsertBefore_default raw ctor (m_Size v) v"

definition InsertAfter_default ::
  "(nat \<Rightarrow> 'a) \<Rightarrow> 'a \<Rightarrow> int \<Rightarrow> 'a utlvector \<Rightarrow> (int \<times> 'a utlvector) option" where
  "InsertAfter_default raw ctor elem v = InsertBefore_default raw ctor (elem + 1) v"

definition AddToHead :: "(nat \<Rightarrow> 'a) \<Rightarrow> 'a \<Rightarrow> 'a utlvector \<Rightarrow> (int \<times> 'a utlvector) option" where
  "AddToHead raw src v = InsertBefore raw 0 src v"

definition AddToTail :: "(nat \<Rightarrow> 'a) \<Rightarrow> 'a \<Rightarrow> 'a utlvector \<Rightarrow> (int \<times> 'a utlvector) option" where
  "AddToTail raw src v = InsertBefore raw (m_Size v) src v"

definition InsertAfter :: "(nat \<Rightarrow> 'a) \<Rightarrow> int \<Rightarrow> 'a \<Rightarrow> 'a utlvector \<Rightarrow> (int \<times> 'a utlvector) option" where
  "InsertAfter raw elem src v = InsertBefore raw (elem + 1) src v"

text \<open>The path for a value that is moved in does not shift.\<close>

definition AddToTail_move :: "(nat \<Rightarrow> 'a) \<Rightarrow> 'a \<Rightarrow> 'a utlvector \<Rightarrow> (int \<times> 'a utlvector) option" where
  "AddToTail_move raw src v = (let elem = m_Size v in do {
     v \<leftarrow> GrowVector raw 1 v;
     v \<leftarrow> Vector_SetElement v elem src;
     Some (elem, v)})"

text \<open>Storing a run of values from an element on, one by one.\<close>

definition Vector_Store :: "int \<Rightarrow> 'a list \<Rightarrow> 'a utlvector \<Rightarrow> 'a utlvector option" where
  "Vector_Store elem xs v =
     (case store_range elem xs (Vector_Base v) of None \<Rightarrow> None | Some c \<Rightarrow> Some (Vector_with_cells c v))"

definition InsertMultipleBefore ::
  "(nat \<Rightarrow> 'a) \<Rightarrow> 'a \<Rightarrow> int \<Rightarrow> int \<Rightarrow> 'a list option \<Rightarrow> 'a utlvector \<Rightarrow> (int \<times> 'a utlvector) option" where
  "InsertMultipleBefore raw ctor elem num pToInsert v =
     (if num = 0 then Some (elem, v)
      else do {
        v \<leftarrow> GrowVector raw num v;
        v \<leftarrow> ShiftElementsRight elem num v;
        v \<leftarrow> Vector_Store elem (replicate (nat num) ctor) v;
        v \<leftarrow> (case pToInsert of
                None \<Rightarrow> Some v
              | Some p \<Rightarrow> if int (length p) < num then None
                          else Vector_Store elem (take (nat num) p) v);
        Some (elem, v)})"

definition AddMultipleToHead ::
  "(nat \<Rightarrow> 'a) \<Rightarrow> 'a \<Rightarrow> int \<Rightarrow> 'a utlvector \<Rightarrow> (int \<times> 'a utlvector) option" where
  "AddMultipleToHead raw ctor num v = InsertMultipleBefore raw ctor 0 num None v"

definition AddMultipleToTail ::
  "(nat \<Rightarrow> 'a) \<Rightarrow> 'a \<Rightarrow> int \<Rightarrow> 'a list option \<Rightarrow> 'a utlvector \<Rightarrow> (int \<times> 'a utlvector) option" where
  "AddMultipleToTail raw ctor num pToCopy v =
     InsertMultipleBefore raw ctor (m_Size v) num pToCopy v"

definition InsertMultipleAfter ::
  "(nat \<Rightarrow> 'a) \<Rightarrow> 'a \<Rightarrow> int \<Rightarrow> int \<Rightarrow> 'a list option \<Rightarrow> 'a utlvector \<Rightarrow> (int \<times> 'a utlvector) option" where
  "InsertMultipleAfter raw ctor elem num pToCopy v =
     InsertMultipleBefore raw ctor (elem + 1) num pToCopy v"

definition AddVectorToTail ::
  "(nat \<Rightarrow> 'a) \<Rightarrow> 'a \<Rightarrow> 'a utlvector \<Rightarrow> 'a utlvector \<Rightarrow> (int \<times> 'a utlvector) option" where
  "AddVectorToTail raw ctor src v =
     AddMultipleToTail raw ctor (Vector_Count src) (Some (Vector_Base src)) v"

definition Vector_EnsureCapacity :: "(nat \<Rightarrow> 'a) \<Rightarrow> int \<Rightarrow> 'a utlvector \<Rightarrow> 'a utlvector" where
  "Vector_EnsureCapacity raw num v = v\<lparr>m_Memory := Memory_EnsureCapacity raw num (m_Memory v)\<rparr>"

definition EnsureCount :: "(nat \<Rightarrow> 'a) \<Rightarrow> 'a \<Rightarrow> int \<Rightarrow> 'a utlvector \<Rightarrow> 'a utlvector option" where
  "EnsureCount raw ctor num v =
     (if Vector_Count v < num
      then map_option snd (AddMultipleToTail raw ctor (num - Vector_Count v) None v)
      else Some v)"

definition SetCount :: "(nat \<Rightarrow> 'a) \<Rightarrow> 'a \<Rightarrow> int \<Rightarrow> 'a utlvector \<Rightarrow> 'a utlvector option" where
  "SetCount raw ctor cnt v =
     (if m_Size v < cnt then
        (let i = m_Size v in do {
           v \<leftarrow> GrowVector raw (cnt - m_Size v) v;
           Vector_Store i (replicate (nat (m_Size v - i)) ctor) v})
      else if 0 \<le> cnt then Some (v\<lparr>m_Size := cnt\<rparr>)
      else Some v)"

definition CopyArray :: "(nat \<Rightarrow> 'a) \<Rightarrow> 'a \<Rightarrow> 'a list \<Rightarrow> int \<Rightarrow> 'a utlvector \<Rightarrow> 'a utlvector option" where
  "CopyArray raw ctor pArray num v = do {
     v \<leftarrow> SetCount raw ctor num v;
     if int (length pArray) < num then None else Vector_Store 0 (take (nat num) pArray) v}"

definition Vector_assign ::
  "(nat \<Rightarrow> 'a) \<Rightarrow> 'a \<Rightarrow> 'a utlvector \<Rightarrow> 'a utlvector \<Rightarrow> 'a utlvector option" where
  "Vector_assign raw ctor other v = CopyArray raw ctor (Vector_Base other) (Vector_Count other) v"

definition Vector_Swap :: "'a utlvector \<Rightarrow> 'a utlvector \<Rightarrow> 'a utlvector \<times> 'a utlvector" where
  "Vector_Swap v vec =
     (let (m, m') = Memory_Swap (m_Memory v) (m_Memory vec) in
      (v\<lparr>m_Memory := m, m_Size := m_Size vec\<rparr>, vec\<lparr>m_Memory := m', m_Size := m_Size v\<rparr>))"

text \<open>The constructor from an initializer list makes room and then adds the values in turn.\<close>

fun AddAllToTail :: "(nat \<Rightarrow> 'a) \<Rightarrow> 'a list \<Rightarrow> 'a utlvector \<Rightarrow> 'a utlvector option" where
  "AddAllToTail raw [] v = Some v"
| "AddAllToTail raw (x # xs) v =
     (case AddToTail raw x v of None \<Rightarrow> None | Some (i, v) \<Rightarrow> AddAllToTail raw xs v)"

definition Vector_of_list :: "(nat \<Rightarrow> 'a) \<Rightarrow> int \<Rightarrow> 'a list \<Rightarrow> 'a utlvector option" where
  "Vector_of_list raw sizeOfT initializerList =
     AddAllToTail raw initializerList
       (Vector_EnsureCapacity raw (int (length initializerList)) (Vector_new raw sizeOfT 0 0))"

subsection \<open>Removal\<close>

definition FastRemove :: "int \<Rightarrow> 'a utlvector \<Rightarrow> 'a utlvector option" where
  "FastRemove elem v =
     (if 0 < m_Size v then do {
        v \<leftarrow> (if elem \<noteq> m_Size v - 1 then do {
                x \<leftarrow> Vector_Element v (m_Size v - 1);
                Vector_SetElement v elem x}
              else Some v);
        Some (v\<lparr>m_Size := m_Size v - 1\<rparr>)}
      else Some v)"

definition Vector_Remove :: "int \<Rightarrow> 'a utlvector \<Rightarrow> 'a utlvector option" where
  "Vector_Remove elem v = do {
     v \<leftarrow> ShiftElementsLeft elem 1 v;
     Some (v\<lparr>m_Size := m_Size v - 1\<rparr>)}"

definition RemoveMultiple :: "int \<Rightarrow> int \<Rightarrow> 'a utlvector \<Rightarrow> 'a utlvector option" where
  "RemoveMultiple elem num v = do {
     v \<leftarrow> ShiftElementsLeft elem num v;
     Some (v\<lparr>m_Size := m_Size v - num\<rparr>)}"

definition RemoveMultipleFromTail :: "int \<Rightarrow> 'a utlvector \<Rightarrow> 'a utlvector" where
  "RemoveMultipleFromTail num v =
     (let nToRemove = min (m_Size v) num in
      if 0 < nToRemove then v\<lparr>m_Size := m_Size v - nToRemove\<rparr> else v)"

definition Vector_RemoveAll :: "'a utlvector \<Rightarrow> 'a utlvector" where
  "Vector_RemoveAll v = v\<lparr>m_Size := 0\<rparr>"

definition Vector_Purge :: "'a utlvector \<Rightarrow> 'a utlvector" where
  "Vector_Purge v =
     (let v = Vector_RemoveAll v in v\<lparr>m_Memory := Memory_Purge (m_Memory v)\<rparr>)"

definition Vector_Compact :: "(nat \<Rightarrow> 'a) \<Rightarrow> 'a utlvector \<Rightarrow> 'a utlvector" where
  "Vector_Compact raw v = v\<lparr>m_Memory := Memory_PurgeTo raw (m_Size v) True (m_Memory v)\<rparr>"

subsection \<open>Linear search and reversal\<close>

function Find_from :: "('a \<Rightarrow> bool) \<Rightarrow> int \<Rightarrow> 'a utlvector \<Rightarrow> int option" where
  "Find_from func i v =
     (if i < Vector_Count v then
        (case Vector_Element v i of None \<Rightarrow> None
         | Some x \<Rightarrow> if func x then Some i else Find_from func (i + 1) v)
      else Some Vector_InvalidIndex)"
  by pat_completeness auto
termination
  by (relation "measure (\<lambda>(f, i, v). nat (Vector_Count v - i))") auto

declare Find_from.simps [simp del]

definition Vector_Find :: "'a \<Rightarrow> 'a utlvector \<Rightarrow> int option" where
  "Vector_Find src v = Find_from (\<lambda>x. x = src) 0 v"

definition Vector_FindMatch :: "('a \<Rightarrow> bool) \<Rightarrow> 'a utlvector \<Rightarrow> int option" where
  "Vector_FindMatch func v = Find_from func 0 v"

definition Vector_HasElement :: "'a \<Rightarrow> 'a utlvector \<Rightarrow> bool option" where
  "Vector_HasElement src v = do {
     i \<leftarrow> Vector_Find src v;
     Some (i \<noteq> Vector_InvalidIndex)}"

definition FindElementIf :: "('a \<Rightarrow> bool) \<Rightarrow> 'a \<Rightarrow> 'a utlvector \<Rightarrow> 'a option" where
  "FindElementIf comparerPredicate defaultParam v = do {
     i \<leftarrow> Find_from comparerPredicate 0 v;
     if i \<noteq> Vector_InvalidIndex then Vector_Element v i else Some defaultParam}"

definition FindAndRemove :: "'a \<Rightarrow> 'a utlvector \<Rightarrow> (bool \<times> 'a utlvector) option" where
  "FindAndRemove src v = do {
     elem \<leftarrow> Vector_Find src v;
     if elem \<noteq> Vector_InvalidIndex
     then do {v \<leftarrow> Vector_Remove elem v; Some (True, v)}
     else Some (False, v)}"

definition FindAndFastRemove :: "'a \<Rightarrow> 'a utlvector \<Rightarrow> (bool \<times> 'a utlvector) option" where
  "FindAndFastRemove src v = do {
     elem \<leftarrow> Vector_Find src v;
     if elem \<noteq> Vector_InvalidIndex
     then do {v \<leftarrow> FastRemove elem v; Some (True, v)}
     else Some (False, v)}"

function Reverse_from :: "int \<Rightarrow> int \<Rightarrow> 'a utlvector \<Rightarrow> 'a utlvector option" where
  "Reverse_from iLeft iRight v =
     (if iLeft < m_Size v div 2 then
        (case (Vector_Element v iLeft, Vector_Element v iRight) of
           (Some a, Some b) \<Rightarrow>
             (let v' = Vector_with_cells ((Vector_Base v)[nat iLeft := b, nat iRight := a]) v in
              Reverse_from (iLeft + 1) (iRight - 1) v')
         | _ \<Rightarrow> None)
      else Some v)"
  by pat_completeness auto
termination
  by (relation "measure (\<lambda>(l, r, v). nat (m_Size v div 2 - l))")
     (auto simp: Vector_with_cells_def)

declare Reverse_from.simps [simp del]

definition Vector_Reverse :: "'a utlvector \<Rightarrow> 'a utlvector option" where
  "Vector_Reverse v = Reverse_from 0 (m_Size v - 1) v"

subsection \<open>The list a vector stands for, and its invariant\<close>

definition elems :: "'a utlvector \<Rightarrow> 'a list" where
  "elems v = take (nat (m_Size v)) (Vector_Base v)"

definition vec_inv :: "'a utlvector \<Rightarrow> bool" where
  "vec_inv v \<longleftrightarrow> mem_inv (m_Memory v) \<and> 0 \<le> m_Size v \<and> m_Size v \<le> m_nAllocationCount (m_Memory v)"

text \<open>A vector that owns its cells, and so can grow.\<close>

definition vec_ok :: "'a utlvector \<Rightarrow> bool" where
  "vec_ok v \<longleftrightarrow> vec_inv v \<and> \<not> Memory_IsExternallyAllocated (m_Memory v)"

lemma vec_invD:
  "vec_inv v \<Longrightarrow> 0 \<le> m_Size v \<and> nat (m_Size v) \<le> length (Vector_Base v)"
  by (auto simp: vec_inv_def mem_inv_def Vector_Base_def)

lemma vec_okD: "vec_ok v \<Longrightarrow> vec_inv v"
  by (simp add: vec_ok_def)

lemma length_elems: "vec_inv v \<Longrightarrow> length (elems v) = nat (m_Size v)"
  using vec_invD [of v] by (simp add: elems_def)

lemma Count_elems: "vec_inv v \<Longrightarrow> Vector_Count v = int (length (elems v))"
  using vec_invD [of v] by (simp add: length_elems Vector_Count_def)

lemma Base_elems: "vec_inv v \<Longrightarrow> Vector_Base v = elems v @ drop (nat (m_Size v)) (Vector_Base v)"
  by (simp add: elems_def)

lemma Element_elems:
  "vec_inv v \<Longrightarrow> 0 \<le> i \<Longrightarrow> i < m_Size v \<Longrightarrow> Vector_Element v i = Some (elems v ! nat i)"
  using vec_invD [of v] by (simp add: Vector_Element_def get_at_def elems_def nat_less_iff)

lemma with_cells_simps [simp]:
  "m_Size (Vector_with_cells c v) = m_Size v"
  "Vector_Base (Vector_with_cells c v) = c"
  "m_nAllocationCount (m_Memory (Vector_with_cells c v)) = m_nAllocationCount (m_Memory v)"
  "Memory_IsExternallyAllocated (m_Memory (Vector_with_cells c v)) =
     Memory_IsExternallyAllocated (m_Memory v)"
  "Vector_with_cells (Vector_Base v) v = v"
  "Vector_with_cells c' (Vector_with_cells c v) = Vector_with_cells c' v"
  by (simp_all add: Vector_with_cells_def Vector_Base_def Memory_IsExternallyAllocated_def)

lemma vec_inv_with_cells:
  "vec_inv v \<Longrightarrow> length c = length (Vector_Base v) \<Longrightarrow> vec_inv (Vector_with_cells c v)"
  by (auto simp: vec_inv_def mem_inv_def Vector_with_cells_def Vector_Base_def)

lemma vec_ok_with_cells:
  "vec_ok v \<Longrightarrow> length c = length (Vector_Base v) \<Longrightarrow> vec_ok (Vector_with_cells c v)"
  by (simp add: vec_ok_def vec_inv_with_cells)

lemma m_Size_simps [simp]:
  "Vector_Base (v\<lparr>m_Size := n\<rparr>) = Vector_Base v"
  by (simp add: Vector_Base_def)

lemma vec_inv_shrink: "vec_inv v \<Longrightarrow> 0 \<le> n \<Longrightarrow> n \<le> m_Size v \<Longrightarrow> vec_inv (v\<lparr>m_Size := n\<rparr>)"
  by (simp add: vec_inv_def)

lemma vec_ok_shrink: "vec_ok v \<Longrightarrow> 0 \<le> n \<Longrightarrow> n \<le> m_Size v \<Longrightarrow> vec_ok (v\<lparr>m_Size := n\<rparr>)"
  by (simp add: vec_ok_def vec_inv_shrink)

subsection \<open>Growing and shifting, on the cells\<close>

lemma GrowVector_result:
  assumes "vec_ok v" "0 \<le> num"
  shows "\<exists>v'. GrowVector raw num v = Some v' \<and> vec_ok v' \<and> m_Size v' = m_Size v + num \<and>
    take (nat (m_Size v)) (Vector_Base v') = elems v"
proof (cases "Memory_NumAllocated (m_Memory v) < m_Size v + num")
  case False
  with assms show ?thesis
    by (auto simp: GrowVector_def vec_ok_def vec_inv_def Memory_NumAllocated_def elems_def)
next
  case True
  let ?num = "m_Size v + num - m_nAllocationCount (m_Memory v)"
  have "\<exists>m'. Memory_Grow raw ?num (m_Memory v) = Some m' \<and> mem_inv m' \<and>
    m_nAllocationCount (m_Memory v) + ?num \<le> m_nAllocationCount m' \<and>
    m_nGrowSize m' = m_nGrowSize (m_Memory v) \<and>
    m_unSizeOfElements m' = m_unSizeOfElements (m_Memory v) \<and>
    take (nat (m_nAllocationCount (m_Memory v))) (m_pMemory m') =
      take (nat (m_nAllocationCount (m_Memory v))) (m_pMemory (m_Memory v))"
    using assms True
    by (intro Memory_Grow_result)
       (auto simp: vec_ok_def vec_inv_def Memory_IsExternallyAllocated_def Memory_NumAllocated_def)
  then obtain m' where m': "Memory_Grow raw ?num (m_Memory v) = Some m'" "mem_inv m'"
      "m_Size v + num \<le> m_nAllocationCount m'" "m_nGrowSize m' = m_nGrowSize (m_Memory v)"
      "take (nat (m_nAllocationCount (m_Memory v))) (m_pMemory m') =
       take (nat (m_nAllocationCount (m_Memory v))) (m_pMemory (m_Memory v))" by auto
  have le: "nat (m_Size v) \<le> nat (m_nAllocationCount (m_Memory v))"
    using assms(1) by (auto simp: vec_ok_def vec_inv_def)
  have "take (nat (m_Size v)) (m_pMemory m') = take (nat (m_Size v)) (m_pMemory (m_Memory v))"
    using arg_cong [OF m'(5), of "take (nat (m_Size v))"] le by (simp add: min_absorb1)
  with m' True assms show ?thesis
    by (auto simp: GrowVector_def vec_ok_def vec_inv_def Memory_IsExternallyAllocated_def
      Memory_NumAllocated_def elems_def Vector_Base_def)
qed

lemma ShiftElementsRight_result:
  assumes "vec_inv v" "0 \<le> e" "0 \<le> num" "e + num \<le> m_Size v"
  shows "ShiftElementsRight e num v = Some (Vector_with_cells
    (take (nat (e + num)) (Vector_Base v) @ take (nat (m_Size v - e - num)) (drop (nat e) (Vector_Base v)) @
     drop (nat (m_Size v)) (Vector_Base v)) v)"
proof (cases "0 < m_Size v - e - num \<and> 0 < num")
  case True
  with assms vec_invD [OF assms(1)] show ?thesis
    by (simp add: ShiftElementsRight_def memmove_def Let_def nat_le_iff)
next
  case False
  have "take (nat (e + num)) (Vector_Base v) @ take (nat (m_Size v - e - num)) (drop (nat e) (Vector_Base v)) @
     drop (nat (m_Size v)) (Vector_Base v) = Vector_Base v"
  proof (cases "num = 0")
    case True
    have "take (nat (m_Size v - e)) (drop (nat e) (Vector_Base v)) @ drop (nat (m_Size v)) (Vector_Base v) =
      drop (nat e) (Vector_Base v)"
      using append_take_drop_id [of "nat (m_Size v - e)" "drop (nat e) (Vector_Base v)"] assms True
      by (simp add: nat_diff_distrib)
    with True show ?thesis by simp
  next
    case f: False
    then have "m_Size v = e + num" using False assms by auto
    then show ?thesis by simp
  qed
  with False show ?thesis
    by (auto simp add: ShiftElementsRight_def Let_def)
qed

lemma ShiftElementsLeft_result:
  assumes "vec_inv v" "0 \<le> e" "0 \<le> num" "e + num \<le> m_Size v"
  shows "ShiftElementsLeft e num v = Some (Vector_with_cells
    (take (nat e) (Vector_Base v) @ take (nat (m_Size v - e - num)) (drop (nat (e + num)) (Vector_Base v)) @
     drop (nat (m_Size v - num)) (Vector_Base v)) v)"
proof (cases "0 < m_Size v - e - num \<and> 0 < num")
  case True
  with assms vec_invD [OF assms(1)] show ?thesis
    by (simp add: ShiftElementsLeft_def memmove_def Let_def nat_le_iff)
next
  case False
  have "take (nat e) (Vector_Base v) @ take (nat (m_Size v - e - num)) (drop (nat (e + num)) (Vector_Base v)) @
     drop (nat (m_Size v - num)) (Vector_Base v) = Vector_Base v"
  proof (cases "num = 0")
    case True
    have "take (nat (m_Size v - e)) (drop (nat e) (Vector_Base v)) @ drop (nat (m_Size v)) (Vector_Base v) =
      drop (nat e) (Vector_Base v)"
      using append_take_drop_id [of "nat (m_Size v - e)" "drop (nat e) (Vector_Base v)"] assms True
      by (simp add: nat_diff_distrib)
    with True show ?thesis by simp
  next
    case f: False
    then have "m_Size v = e + num" using False assms by auto
    then show ?thesis by simp
  qed
  with False show ?thesis
    by (auto simp add: ShiftElementsLeft_def Let_def)
qed

text \<open>Room for \<open>num\<close> elements at \<open>e\<close>: what every insertion starts with.\<close>

lemma grow_shift_result:
  assumes "vec_ok v" "0 \<le> e" "e \<le> m_Size v" "0 \<le> num"
  shows "\<exists>v'. GrowVector raw num v \<bind> ShiftElementsRight e num = Some v' \<and> vec_ok v' \<and>
    m_Size v' = m_Size v + num \<and> take (nat e) (Vector_Base v') = take (nat e) (elems v) \<and>
    take (nat (m_Size v - e)) (drop (nat (e + num)) (Vector_Base v')) = drop (nat e) (elems v)"
proof -
  obtain w where w: "GrowVector raw num v = Some w" "vec_ok w" "m_Size w = m_Size v + num"
      "take (nat (m_Size v)) (Vector_Base w) = elems v"
    using GrowVector_result [OF assms(1,4)] by blast
  note wi = vec_okD [OF w(2)]
  obtain a k n where n: "e = int a" "num = int k" "m_Size v = int n"
    using assms vec_invD [OF vec_okD [OF assms(1)]] by (metis nat_0_le)
  have an: "a \<le> n" and len: "n + k \<le> length (Vector_Base w)"
    using n assms vec_invD [OF wi] w(3) by auto
  let ?c = "take (a + k) (Vector_Base w) @ take (n - a) (drop a (Vector_Base w)) @
     drop (n + k) (Vector_Base w)"
  have s: "ShiftElementsRight e num w = Some (Vector_with_cells ?c w)"
    using ShiftElementsRight_result [OF wi assms(2,4)] w(3) an unfolding n
    by (simp add: nat_int_add nat_diff_distrib')
  have "length ?c = length (Vector_Base w)" using an len by simp
  then have ok: "vec_ok (Vector_with_cells ?c w)" by (rule vec_ok_with_cells [OF w(2)])
  have el: "elems v = take n (Vector_Base w)" using w(4) n by simp
  have "take a ?c = take a (elems v)" using an len by (simp add: el min_absorb1)
  moreover have "take (n - a) (drop (a + k) ?c) = drop a (elems v)"
    using an len by (simp add: el drop_take)
  ultimately show ?thesis using w s ok an by (auto simp: n nat_int_add nat_diff_distrib')
qed

lemma Vector_Store_result:
  assumes "0 \<le> e" "e + int (length xs) \<le> int (length (Vector_Base v))"
  shows "Vector_Store e xs v = Some (Vector_with_cells
    (take (nat e) (Vector_Base v) @ xs @ drop (nat e + length xs) (Vector_Base v)) v)"
  by (simp add: Vector_Store_def store_range_Some [OF assms])

lemma SetElement_Store: "Vector_SetElement v e x = Vector_Store e [x] v"
  by (simp add: Vector_SetElement_def Vector_Store_def split: option.splits)

text \<open>Filling the room: the values stand where the gap was.\<close>

lemma insert_store_result:
  assumes "vec_ok v" "0 \<le> e" "e \<le> m_Size v" "num = int (length xs)"
  shows "\<exists>v'. (GrowVector raw num v \<bind> ShiftElementsRight e num) \<bind> Vector_Store e xs = Some v' \<and>
    vec_ok v' \<and> m_Size v' = m_Size v + num \<and>
    elems v' = take (nat e) (elems v) @ xs @ drop (nat e) (elems v)"
proof -
  have "0 \<le> num" using assms(4) by simp
  from grow_shift_result [OF assms(1-3) this] obtain w where
    w: "GrowVector raw num v \<bind> ShiftElementsRight e num = Some w" "vec_ok w"
      "m_Size w = m_Size v + num" "take (nat e) (Vector_Base w) = take (nat e) (elems v)"
      "take (nat (m_Size v - e)) (drop (nat (e + num)) (Vector_Base w)) = drop (nat e) (elems v)"
    by blast
  have len: "nat (m_Size w) \<le> length (Vector_Base w)" using vec_invD vec_okD w(2) by blast
  let ?c = "take (nat e) (Vector_Base w) @ xs @ drop (nat e + length xs) (Vector_Base w)"
  have s: "Vector_Store e xs w = Some (Vector_with_cells ?c w)"
    using assms w(3) len by (intro Vector_Store_result) auto
  have "length ?c = length (Vector_Base w)" using assms w(3) len by simp
  then have ok: "vec_ok (Vector_with_cells ?c w)" by (rule vec_ok_with_cells [OF w(2)])
  have "take (nat (m_Size w)) ?c = take (nat e) (elems v) @ xs @ drop (nat e) (elems v)"
  proof -
    have n: "nat (m_Size w) = nat e + (length xs + nat (m_Size v - e))" "nat (e + num) = nat e + length xs"
      using assms w(3) by auto
    have "length (take (nat e) (Vector_Base w)) = nat e" using len n by simp
    then show ?thesis using w(4,5) unfolding n by simp
  qed
  with w s ok show ?thesis by (auto simp: elems_def)
qed

lemma InsertBefore_result:
  assumes "vec_ok v" "0 \<le> e" "e \<le> m_Size v"
  shows "\<exists>v'. InsertBefore raw e x v = Some (e, v') \<and> vec_ok v' \<and> m_Size v' = m_Size v + 1 \<and>
    elems v' = take (nat e) (elems v) @ x # drop (nat e) (elems v)"
  using insert_store_result [OF assms, of 1 "[x]" raw]
  by (auto simp: InsertBefore_def SetElement_Store bind_eq_Some_conv)

lemma AddToTail_result:
  assumes "vec_ok v"
  shows "\<exists>v'. AddToTail raw x v = Some (m_Size v, v') \<and> vec_ok v' \<and> m_Size v' = m_Size v + 1 \<and>
    elems v' = elems v @ [x]"
  using InsertBefore_result [OF assms, of "m_Size v" raw x] vec_invD [OF vec_okD [OF assms]]
  by (auto simp: AddToTail_def length_elems [OF vec_okD [OF assms]])

lemma AddAllToTail_result:
  "vec_ok v \<Longrightarrow> \<exists>v'. AddAllToTail raw xs v = Some v' \<and> vec_ok v' \<and> elems v' = elems v @ xs"
proof (induction raw xs v rule: AddAllToTail.induct)
  case (2 raw x xs v)
  obtain w where "AddToTail raw x v = Some (m_Size v, w)" "vec_ok w" "elems w = elems v @ [x]"
    using AddToTail_result [OF "2.prems"] by blast
  with "2.IH" [of "(m_Size v, w)"] show ?case by auto
qed simp

lemma length_overwrite:
  "a + length xs \<le> length c \<Longrightarrow> length (take a c @ xs @ drop (a + length xs) c) = length c"
  by simp

lemma take_overwrite:
  assumes "a + length xs \<le> n" "n \<le> length c"
  shows "take n (take a c @ xs @ drop (a + length xs) c) =
    take a (take n c) @ xs @ drop (a + length xs) (take n c)"
proof -
  have "length (take a c) = a" "a \<le> n" "length xs \<le> n - a" using assms by auto
  then show ?thesis by (simp add: drop_take min_absorb1)
qed

lemma InsertMultipleBefore_result:
  assumes "vec_ok v" "0 \<le> e" "e \<le> m_Size v" "0 \<le> num"
    "\<And>xs. p = Some xs \<Longrightarrow> num \<le> int (length xs)"
  shows "\<exists>v'. InsertMultipleBefore raw ctor e num p v = Some (e, v') \<and> vec_ok v' \<and>
    elems v' = take (nat e) (elems v) @
      (case p of None \<Rightarrow> replicate (nat num) ctor | Some xs \<Rightarrow> take (nat num) xs) @ drop (nat e) (elems v)"
proof (cases "num = 0")
  case True
  with assms(1) show ?thesis by (cases p) (auto simp: InsertMultipleBefore_def)
next
  case False
  let ?gs = "GrowVector raw num v \<bind> ShiftElementsRight e num"
  have num: "num = int (length (replicate (nat num) ctor))" using assms(4) by simp
  from insert_store_result [OF assms(1-3) num, of raw] obtain w where
    w: "?gs \<bind> Vector_Store e (replicate (nat num) ctor) = Some w" "vec_ok w" "m_Size w = m_Size v + num"
      "elems w = take (nat e) (elems v) @ replicate (nat num) ctor @ drop (nat e) (elems v)" by blast
  show ?thesis
  proof (cases p)
    case None
    with False w assms(4) show ?thesis
      by (auto simp: InsertMultipleBefore_def bind_eq_Some_conv)
  next
    case (Some xs)
    let ?xs = "take (nat num) xs"
    have xs: "int (length ?xs) = num" using assms(4,5) Some by simp
    have len: "nat (m_Size w) \<le> length (Vector_Base w)" using vec_invD vec_okD w(2) by blast
    let ?c = "take (nat e) (Vector_Base w) @ ?xs @ drop (nat e + length ?xs) (Vector_Base w)"
    have st: "Vector_Store e ?xs w = Some (Vector_with_cells ?c w)"
      using assms w(3) len xs by (intro Vector_Store_result) auto
    have le: "nat e + length ?xs \<le> nat (m_Size w)" using assms w(3) xs by linarith
    have ok: "vec_ok (Vector_with_cells ?c w)"
      using le len by (intro vec_ok_with_cells [OF w(2)] length_overwrite) linarith
    have ed: "nat e \<le> length (elems v)"
      using assms length_elems [OF vec_okD [OF assms(1)]] by simp
    have "take (nat (m_Size w)) ?c =
      take (nat e) (elems w) @ ?xs @ drop (nat e + length ?xs) (elems w)"
      using le len unfolding elems_def by (rule take_overwrite)
    also have "\<dots> = take (nat e) (elems v) @ ?xs @ drop (nat e) (elems v)"
    proof -
      have "length ?xs = nat num" using xs by linarith
      moreover have "length (take (nat e) (elems v)) = nat e" using ed by simp
      ultimately show ?thesis by (simp add: w(4))
    qed
    finally have el: "elems (Vector_with_cells ?c w) =
      take (nat e) (elems v) @ ?xs @ drop (nat e) (elems v)" by (simp add: elems_def)
    have "\<not> int (length xs) < num" using assms(5) [OF Some] by simp
    then have "InsertMultipleBefore raw ctor e num p v = Some (e, Vector_with_cells ?c w)"
      using False w(1) st Some by (auto simp only: InsertMultipleBefore_def bind_eq_Some_conv
        option.simps if_False simp_thms)
    with ok el Some show ?thesis by simp
  qed
qed

lemma elems_shrink: "vec_inv v \<Longrightarrow> n \<le> m_Size v \<Longrightarrow> elems (v\<lparr>m_Size := n\<rparr>) = take (nat n) (elems v)"
  by (simp add: elems_def min_absorb1)

lemma RemoveMultiple_result:
  assumes "vec_inv v" "0 \<le> e" "0 \<le> num" "e + num \<le> m_Size v"
  shows "\<exists>v'. RemoveMultiple e num v = Some v' \<and> vec_inv v' \<and> m_Size v' = m_Size v - num \<and>
    Memory_IsExternallyAllocated (m_Memory v') = Memory_IsExternallyAllocated (m_Memory v) \<and>
    elems v' = take (nat e) (elems v) @ drop (nat (e + num)) (elems v)"
proof -
  obtain a k n where n: "e = int a" "num = int k" "m_Size v = int n"
    using assms vec_invD [OF assms(1)] by (metis nat_0_le)
  have le: "a + k \<le> n" and len: "n \<le> length (Vector_Base v)"
    using assms(4) vec_invD [OF assms(1)] n by auto
  let ?c = "take a (Vector_Base v) @ take (n - a - k) (drop (a + k) (Vector_Base v)) @
     drop (n - k) (Vector_Base v)"
  have s: "ShiftElementsLeft e num v = Some (Vector_with_cells ?c v)"
    using ShiftElementsLeft_result [OF assms] le unfolding n
    by (simp add: nat_int_add nat_diff_distrib')
  have "length ?c = length (Vector_Base v)" using le len by simp
  then have "vec_inv (Vector_with_cells ?c v)" by (rule vec_inv_with_cells [OF assms(1)])
  then have "vec_inv ((Vector_with_cells ?c v)\<lparr>m_Size := m_Size v - num\<rparr>)"
    using assms by (intro vec_inv_shrink) auto
  moreover have "take (n - k) ?c = take a (elems v) @ drop (a + k) (elems v)"
    using le len by (simp add: elems_def n min_absorb1 drop_take add.commute)
  ultimately show ?thesis using s le
    by (auto simp: RemoveMultiple_def elems_def n nat_int_add nat_diff_distrib')
qed

lemma Vector_Remove_eq: "Vector_Remove e v = RemoveMultiple e 1 v"
  by (simp add: Vector_Remove_def RemoveMultiple_def)

lemma FastRemove_result:
  assumes "vec_inv v" "0 \<le> e" "e < m_Size v"
  shows "\<exists>v'. FastRemove e v = Some v' \<and> vec_inv v' \<and> m_Size v' = m_Size v - 1 \<and>
    Memory_IsExternallyAllocated (m_Memory v') = Memory_IsExternallyAllocated (m_Memory v) \<and>
    elems v' = butlast ((elems v)[nat e := last (elems v)])"
proof -
  obtain a n where n: "e = int a" "m_Size v = int (Suc n)"
  proof -
    have "e = int (nat e)" "m_Size v = int (Suc (nat (m_Size v - 1)))" using assms by auto
    then show thesis by (rule that)
  qed
  have a: "a \<le> n" and len: "n < length (Vector_Base v)" and el: "elems v \<noteq> []"
    using assms vec_invD [OF assms(1)] n length_elems [OF assms(1)] by auto
  have e2: "elems v = take (Suc n) (Vector_Base v)" by (simp add: elems_def n del: of_nat_Suc)
  have l: "last (elems v) = Vector_Base v ! n" "length (elems v) = Suc n"
    using len by (auto simp: e2 take_Suc_conv_app_nth)
  let ?w = "if a = n then v else Vector_with_cells ((Vector_Base v)[a := Vector_Base v ! n]) v"
  have w: "FastRemove e v = Some (?w\<lparr>m_Size := m_Size v - 1\<rparr>)"
    using a len by (auto simp: FastRemove_def n Vector_Element_def Vector_SetElement_def arr_simps)
  have "vec_inv ?w" using assms(1) by (auto intro: vec_inv_with_cells)
  then have "vec_inv (?w\<lparr>m_Size := m_Size v - 1\<rparr>)"
    using assms by (intro vec_inv_shrink) auto
  moreover have "elems (?w\<lparr>m_Size := m_Size v - 1\<rparr>) = butlast ((elems v)[nat e := last (elems v)])"
  proof -
    have "elems (?w\<lparr>m_Size := m_Size v - 1\<rparr>) = take n ((Vector_Base v)[a := Vector_Base v ! n])"
      using a len by (auto simp: elems_def n)
    then show ?thesis using a len unfolding l(1) unfolding e2
      by (simp add: n butlast_take take_update_swap [symmetric] min_absorb1)
  qed
  ultimately show ?thesis using w by auto
qed

lemma Vector_Store_elems:
  assumes "vec_ok v" "0 \<le> e" "e + int (length xs) \<le> m_Size v"
  shows "\<exists>v'. Vector_Store e xs v = Some v' \<and> vec_ok v' \<and> m_Size v' = m_Size v \<and>
    elems v' = take (nat e) (elems v) @ xs @ drop (nat e + length xs) (elems v)"
proof -
  have len: "nat e + length xs \<le> nat (m_Size v)" "nat (m_Size v) \<le> length (Vector_Base v)"
    using assms vec_invD [OF vec_okD [OF assms(1)]] by auto
  let ?c = "take (nat e) (Vector_Base v) @ xs @ drop (nat e + length xs) (Vector_Base v)"
  have s: "Vector_Store e xs v = Some (Vector_with_cells ?c v)"
    using assms len by (intro Vector_Store_result) auto
  have "vec_ok (Vector_with_cells ?c v)"
    using len by (intro vec_ok_with_cells [OF assms(1)] length_overwrite) linarith
  moreover have "elems (Vector_with_cells ?c v) =
      take (nat e) (elems v) @ xs @ drop (nat e + length xs) (elems v)"
    unfolding elems_def with_cells_simps by (rule take_overwrite [OF len])
  ultimately show ?thesis using s by auto
qed

lemma SetCount_result:
  assumes "vec_ok v" "0 \<le> n"
  shows "\<exists>v'. SetCount raw ctor n v = Some v' \<and> vec_ok v' \<and> m_Size v' = n \<and>
    elems v' = take (nat n) (elems v) @ replicate (nat (n - m_Size v)) ctor"
proof (cases "m_Size v < n")
  case False
  then have "SetCount raw ctor n v = Some (v\<lparr>m_Size := n\<rparr>)" using assms by (simp add: SetCount_def)
  with False assms show ?thesis by (auto simp: vec_ok_shrink elems_shrink [OF vec_okD])
next
  case True
  let ?i = "m_Size v" and ?r = "replicate (nat (n - m_Size v)) ctor"
  obtain w where w: "GrowVector raw (n - ?i) v = Some w" "vec_ok w" "m_Size w = n"
      "take (nat ?i) (Vector_Base w) = elems v"
    using GrowVector_result [OF assms(1), of "n - ?i" raw] True by auto
  have i: "0 \<le> ?i" using vec_invD [OF vec_okD [OF assms(1)]] by simp
  have "?i + int (length ?r) \<le> m_Size w" using True w(3) by simp
  from Vector_Store_elems [OF w(2) i this] obtain w' where
    w': "Vector_Store ?i ?r w = Some w'" "vec_ok w'" "m_Size w' = n"
      "elems w' = take (nat ?i) (elems w) @ ?r @ drop (nat ?i + length ?r) (elems w)" using w(3) by blast
  have le: "nat ?i \<le> nat n" "nat ?i + length ?r = nat n" using True i by auto
  have "take (nat ?i) (elems w) = elems v" using w(3,4) le by (simp add: elems_def min_absorb1)
  moreover have "drop (nat n) (elems w) = []"
    using length_elems [OF vec_okD [OF w(2)]] w(3) by simp
  moreover have "take (nat n) (elems v) = elems v"
    using length_elems [OF vec_okD [OF assms(1)]] le(1) by simp
  moreover have "SetCount raw ctor n v = Some w'"
    using True w(1,3) w'(1) by (simp add: SetCount_def Let_def)
  ultimately show ?thesis using w'(2,3,4) le(2) by auto
qed

lemma CopyArray_result:
  assumes "vec_ok v" "0 \<le> n" "n \<le> int (length p)"
  shows "\<exists>v'. CopyArray raw ctor p n v = Some v' \<and> vec_ok v' \<and> elems v' = take (nat n) p"
proof -
  obtain w where w: "SetCount raw ctor n v = Some w" "vec_ok w" "m_Size w = n"
    using SetCount_result [OF assms(1,2)] by blast
  have len: "length (take (nat n) p) = nat n" using assms by auto
  have "0 + int (length (take (nat n) p)) \<le> m_Size w" using len w(3) assms(2) by linarith
  from Vector_Store_elems [OF w(2) _ this] obtain w' where
    w': "Vector_Store 0 (take (nat n) p) w = Some w'" "vec_ok w'"
      "elems w' = take (nat 0) (elems w) @ take (nat n) p @ drop (nat 0 + length (take (nat n) p)) (elems w)"
    by auto
  have "drop (nat n) (elems w) = []" using length_elems [OF vec_okD [OF w(2)]] w(3) by simp
  with w' len have "elems w' = take (nat n) p" by simp
  with w w' assms show ?thesis by (auto simp: CopyArray_def)
qed

lemma Vector_assign_result:
  assumes "vec_ok v" "vec_inv src"
  shows "\<exists>v'. Vector_assign raw ctor src v = Some v' \<and> vec_ok v' \<and> elems v' = elems src"
  using CopyArray_result [OF assms(1), of "m_Size src" "Vector_Base src" raw ctor] vec_invD [OF assms(2)]
  by (auto simp: Vector_assign_def Vector_Count_def elems_def)

lemma Vector_new_result:
  assumes "0 < sz" "0 \<le> grow" "0 \<le> init"
  shows "vec_ok (Vector_new raw sz grow init) \<and> elems (Vector_new raw sz grow init) = []"
  using assms by (simp add: Vector_new_def vec_ok_def vec_inv_def mem_inv_def Memory_new_def
    Memory_IsExternallyAllocated_def elems_def)

lemma EnsureCapacity_result:
  assumes "vec_ok v"
  shows "vec_ok (Vector_EnsureCapacity raw n v) \<and> elems (Vector_EnsureCapacity raw n v) = elems v"
proof -
  let ?m = "m_Memory v" and ?m' = "Memory_EnsureCapacity raw n (m_Memory v)"
  have inv: "mem_inv ?m" "0 \<le> m_nGrowSize ?m" "m_Size v \<le> m_nAllocationCount ?m"
    using assms by (auto simp: vec_ok_def vec_inv_def Memory_IsExternallyAllocated_def)
  note r = Memory_EnsureCapacity_result [OF inv(1,2), of raw n]
  have "take (nat (m_Size v)) (m_pMemory ?m') = take (nat (m_Size v)) (m_pMemory ?m)"
    using arg_cong [OF conjunct2 [OF conjunct2 [OF conjunct2 [OF conjunct2 [OF r]]]],
      of "take (nat (m_Size v))"] inv(3) by (simp add: min_absorb1)
  with assms r show ?thesis
    by (auto simp: Vector_EnsureCapacity_def vec_ok_def vec_inv_def elems_def Vector_Base_def
      Memory_IsExternallyAllocated_def)
qed

lemma Vector_of_list_result:
  assumes "0 < sz"
  shows "\<exists>v. Vector_of_list raw sz xs = Some v \<and> vec_ok v \<and> elems v = xs"
proof -
  let ?v = "Vector_EnsureCapacity raw (int (length xs)) (Vector_new raw sz 0 0)"
  have "vec_ok ?v \<and> elems ?v = []"
    using EnsureCapacity_result [of "Vector_new raw sz 0 0" raw "int (length xs)"]
      Vector_new_result [OF assms, of 0 0 raw] by simp
  then show ?thesis using AddAllToTail_result [of ?v raw xs] by (auto simp: Vector_of_list_def)
qed

subsection \<open>Linear search\<close>

lemma Find_from_result:
  assumes "vec_inv v" "0 \<le> i" "i \<le> m_Size v"
  shows "\<exists>r. Find_from f i v = Some r \<and>
    (r = -1 \<and> (\<forall>k. nat i \<le> k \<longrightarrow> k < length (elems v) \<longrightarrow> \<not> f (elems v ! k)) \<or>
     i \<le> r \<and> r < m_Size v \<and> f (elems v ! nat r) \<and>
       (\<forall>k. nat i \<le> k \<longrightarrow> k < nat r \<longrightarrow> \<not> f (elems v ! k)))"
  using assms(2,3)
proof (induction "nat (m_Size v - i)" arbitrary: i rule: less_induct)
  case less
  note len = length_elems [OF assms(1)]
  show ?case
  proof (cases "i < m_Size v")
    case False
    with less.prems show ?thesis
      by (subst Find_from.simps) (simp add: Vector_Count_def Vector_InvalidIndex_def len)
  next
    case True
    note el = Element_elems [OF assms(1) less.prems(1) True]
    show ?thesis
    proof (cases "f (elems v ! nat i)")
      case t: True
      with True less.prems el show ?thesis by (subst Find_from.simps) (simp add: Vector_Count_def)
    next
      case f: False
      have eq: "Find_from f i v = Find_from f (i + 1) v"
        using True el f by (subst Find_from.simps) (simp add: Vector_Count_def)
      have step: "nat i \<le> k \<Longrightarrow> k = nat i \<or> nat (i + 1) \<le> k" for k using less.prems by auto
      obtain r where r: "Find_from f (i + 1) v = Some r"
        "r = -1 \<and> (\<forall>k. nat (i + 1) \<le> k \<longrightarrow> k < length (elems v) \<longrightarrow> \<not> f (elems v ! k)) \<or>
         i + 1 \<le> r \<and> r < m_Size v \<and> f (elems v ! nat r) \<and>
           (\<forall>k. nat (i + 1) \<le> k \<longrightarrow> k < nat r \<longrightarrow> \<not> f (elems v ! k))"
        using less.hyps [of "i + 1"] less.prems True by auto
      from r(2) show ?thesis unfolding eq r(1) using f step less.prems by fastforce
    qed
  qed
qed

text \<open>The index \<open>Find\<close> gives, on the list: the first position that matches, or \<open>-1\<close>.\<close>

fun first_index :: "('a \<Rightarrow> bool) \<Rightarrow> 'a list \<Rightarrow> int" where
  "first_index f [] = -1"
| "first_index f (x # xs) =
     (if f x then 0 else let r = first_index f xs in if r = -1 then -1 else r + 1)"

lemma first_index_ge: "-1 \<le> first_index f xs"
  by (induction xs) (auto simp: Let_def)

lemma first_index_none: "(\<And>k. k < length xs \<Longrightarrow> \<not> f (xs ! k)) \<Longrightarrow> first_index f xs = -1"
proof (induction xs)
  case (Cons x xs)
  from Cons.prems [of 0] Cons.prems [of "Suc k" for k] Cons.IH show ?case by auto
qed simp

lemma first_index_some:
  "r < length xs \<Longrightarrow> f (xs ! r) \<Longrightarrow> (\<And>k. k < r \<Longrightarrow> \<not> f (xs ! k)) \<Longrightarrow> first_index f xs = int r"
proof (induction xs arbitrary: r)
  case (Cons x xs)
  show ?case
  proof (cases r)
    case 0
    with Cons.prems show ?thesis by simp
  next
    case (Suc q)
    from Cons.prems(3) [of 0] Cons.prems(3) [of "Suc k" for k] Cons.prems(1,2) Cons.IH [of q]
    show ?thesis by (simp add: Suc)
  qed
qed simp

lemma Find_from_first_index:
  assumes "vec_inv v"
  shows "Find_from f 0 v = Some (first_index f (elems v))"
proof -
  have "0 \<le> m_Size v" using vec_invD [OF assms] by simp
  from Find_from_result [OF assms _ this, of f] obtain r where
    r: "Find_from f 0 v = Some r"
      "r = -1 \<and> (\<forall>k. k < length (elems v) \<longrightarrow> \<not> f (elems v ! k)) \<or>
       0 \<le> r \<and> r < m_Size v \<and> f (elems v ! nat r) \<and> (\<forall>k. k < nat r \<longrightarrow> \<not> f (elems v ! k))"
    by auto
  from r(2) have "first_index f (elems v) = r"
  proof (elim disjE conjE)
    assume "0 \<le> r" "r < m_Size v" "f (elems v ! nat r)" "\<forall>k. k < nat r \<longrightarrow> \<not> f (elems v ! k)"
    then show ?thesis
      using first_index_some [of "nat r" "elems v" f] length_elems [OF assms] by auto
  qed (auto intro: first_index_none)
  with r(1) show ?thesis by simp
qed

lemma first_index_iff: "first_index f xs = -1 \<longleftrightarrow> (\<forall>x \<in> set xs. \<not> f x)"
proof (induction xs)
  case (Cons x xs)
  then show ?case using first_index_ge [of f xs] by (auto simp: Let_def)
qed simp

lemma first_index_bound:
  "first_index f xs \<noteq> -1 \<Longrightarrow> 0 \<le> first_index f xs \<and> first_index f xs < int (length xs)"
  by (induction xs) (auto simp: Let_def split: if_splits)

lemma remove_first:
  "first_index (\<lambda>y. y = x) xs = int k \<Longrightarrow> take k xs @ drop (Suc k) xs = remove1 x xs"
proof (induction xs arbitrary: k)
  case (Cons y ys)
  show ?case
  proof (cases "y = x")
    case True
    with Cons.prems show ?thesis by simp
  next
    case False
    with Cons.prems first_index_ge [of "\<lambda>y. y = x" ys] obtain q where
      "first_index (\<lambda>y. y = x) ys = int q" "k = Suc q"
      by (cases k) (auto simp: Let_def split: if_splits)
    with Cons.IH False show ?thesis by simp
  qed
qed simp

lemma FindAndRemove_result:
  assumes "vec_inv v"
  shows "\<exists>v'. FindAndRemove x v = Some (x \<in> set (elems v), v') \<and> vec_inv v' \<and>
    Memory_IsExternallyAllocated (m_Memory v') = Memory_IsExternallyAllocated (m_Memory v) \<and>
    elems v' = remove1 x (elems v)"
proof -
  let ?i = "first_index (\<lambda>y. y = x) (elems v)"
  have f: "Vector_Find x v = Some ?i"
    using Find_from_first_index [OF assms] by (simp add: Vector_Find_def)
  show ?thesis
  proof (cases "?i = -1")
    case True
    then have "x \<notin> set (elems v)" by (auto simp: first_index_iff)
    with f True assms show ?thesis
      by (auto simp: FindAndRemove_def Vector_InvalidIndex_def remove1_idem)
  next
    case False
    then have x: "x \<in> set (elems v)" by (auto simp: first_index_iff)
    have b: "0 \<le> ?i" "?i + 1 \<le> m_Size v"
      using first_index_bound [OF False] length_elems [OF assms] vec_invD [OF assms] by auto
    from RemoveMultiple_result [OF assms b(1) _ b(2)] obtain w where
      w: "Vector_Remove ?i v = Some w" "vec_inv w"
        "Memory_IsExternallyAllocated (m_Memory w) = Memory_IsExternallyAllocated (m_Memory v)"
        "elems w = take (nat ?i) (elems v) @ drop (nat (?i + 1)) (elems v)"
      by (auto simp: Vector_Remove_eq)
    have "elems w = remove1 x (elems v)"
      using remove_first [of x "elems v" "nat ?i"] b(1) w(4) by (simp add: nat_add_distrib)
    with f w False x show ?thesis by (auto simp: FindAndRemove_def Vector_InvalidIndex_def)
  qed
qed

subsection \<open>Reversal\<close>

lemma Reverse_from_result:
  assumes "vec_inv v" "m_Size v = int n" "l \<le> n div 2" "xs = elems v"
  shows "\<exists>v'. Reverse_from (int l) (int n - 1 - int l) v = Some v' \<and> vec_inv v' \<and> m_Size v' = m_Size v \<and>
    Memory_IsExternallyAllocated (m_Memory v') = Memory_IsExternallyAllocated (m_Memory v) \<and>
    (\<forall>k < n. elems v' ! k = (if l \<le> k \<and> k < n - l then xs ! (n - 1 - k) else xs ! k))"
  using assms
proof (induction "n div 2 - l" arbitrary: l v xs)
  case 0
  then have l: "l = n div 2" by simp
  have "n - 1 - k = k" if "l \<le> k" "k < n - l" for k using that l by linarith
  moreover have "int l \<noteq> m_Size v div 2 \<Longrightarrow> False" using l 0 by (simp add: zdiv_int)
  ultimately show ?case using 0
    by (subst Reverse_from.simps) (auto simp: zdiv_int l)
next
  case (Suc d)
  then have l: "l < n div 2" by simp
  have len: "n \<le> length (Vector_Base v)" "length xs = n"
    using vec_invD [OF Suc.prems(1)] length_elems [OF Suc.prems(1)] Suc.prems(2,4) by auto
  let ?r = "n - 1 - l"
  have r: "int n - 1 - int l = int ?r" "?r < n" "nat (int n - (1 + int l)) = n - Suc l" using l by auto
  let ?w = "Vector_with_cells ((Vector_Base v)[l := Vector_Base v ! ?r, ?r := Vector_Base v ! l]) v"
  have eq: "Reverse_from (int l) (int n - 1 - int l) v = Reverse_from (int (Suc l)) (int n - 1 - int (Suc l)) ?w"
    using l len(1) Suc.prems(2) unfolding r(1)
    by (subst Reverse_from.simps) (auto simp: Vector_Element_def arr_simps zdiv_int r Let_def algebra_simps)
  have wi: "vec_inv ?w" using Suc.prems(1) by (rule vec_inv_with_cells) simp
  have ws: "m_Size ?w = int n" "elems ?w = xs[l := xs ! ?r, ?r := xs ! l]"
    using Suc.prems(2,4) len l by (auto simp: elems_def take_update_swap [symmetric])
  have "d = n div 2 - Suc l" "Suc l \<le> n div 2" using Suc.hyps(2) l by auto
  from Suc.hyps(1) [OF this(1) wi ws(1) this(2) refl] obtain v' where
    v': "Reverse_from (int (Suc l)) (int n - 1 - int (Suc l)) ?w = Some v'" "vec_inv v'"
      "m_Size v' = m_Size ?w"
      "Memory_IsExternallyAllocated (m_Memory v') = Memory_IsExternallyAllocated (m_Memory ?w)"
      "\<forall>k < n. elems v' ! k = (if Suc l \<le> k \<and> k < n - Suc l then elems ?w ! (n - 1 - k) else elems ?w ! k)"
    by blast
  have "elems v' ! k = (if l \<le> k \<and> k < n - l then xs ! (n - 1 - k) else xs ! k)" if "k < n" for k
  proof -
    consider "k < l" | "k = l" | "Suc l \<le> k" "k < n - Suc l" | "k = ?r" | "?r < k" using l that by linarith
    then show ?thesis using v'(5) that l len(2) unfolding ws(2)
      by cases (auto simp: nth_list_update)
  qed
  then show ?case using v' Suc.prems(2) by (auto simp: eq)
qed

lemma Vector_Reverse_result:
  assumes "vec_inv v"
  shows "\<exists>v'. Vector_Reverse v = Some v' \<and> vec_inv v' \<and>
    Memory_IsExternallyAllocated (m_Memory v') = Memory_IsExternallyAllocated (m_Memory v) \<and>
    elems v' = rev (elems v)"
proof -
  obtain n where n: "m_Size v = int n" using vec_invD [OF assms] by (metis nat_0_le)
  from Reverse_from_result [OF assms n, of 0 "elems v"] n obtain v' where
    v': "Vector_Reverse v = Some v'" "vec_inv v'" "m_Size v' = m_Size v"
      "Memory_IsExternallyAllocated (m_Memory v') = Memory_IsExternallyAllocated (m_Memory v)"
      "\<forall>k < n. elems v' ! k = elems v ! (n - 1 - k)"
    by (auto simp: Vector_Reverse_def)
  have "elems v' = rev (elems v)"
    using v'(3,5) n length_elems [OF assms] length_elems [OF v'(2)]
    by (intro nth_equalityI) (auto simp: rev_nth)
  with v' show ?thesis by auto
qed

lemma mset_butlast_last:
  assumes "k < length xs"
  shows "mset (butlast (xs[k := last xs])) = mset xs - {#xs ! k#}"
proof (cases "k = length xs - 1")
  case True
  with assms show ?thesis
    by (cases xs rule: rev_cases) (auto simp: nth_append)
next
  case False
  with assms obtain ys y where "xs = ys @ [y]" "k < length ys"
    by (cases xs rule: rev_cases) auto
  then show ?thesis
    by (simp add: list_update_append nth_append mset_update diff_union_swap2)
qed

subsection \<open>Two concrete vectors\<close>

definition empty_vec :: "int utlvector" where
  "empty_vec = Vector_new (\<lambda>i. 3) 4 0 0"

definition sample_vec :: "int utlvector" where
  "sample_vec = Vector_new_external 4 [5, 6, 7, 6, 0] 5 4"

lemma empty_vec_ok: "vec_ok empty_vec" "vec_inv empty_vec" "elems empty_vec = []" "Vector_Count empty_vec = 0"
  using Vector_new_result [of 4 0 0 "\<lambda>i. 3 :: int"]
  by (auto simp: empty_vec_def vec_ok_def Vector_Count_def Vector_new_def)

lemma sample_vec_inv: "vec_inv sample_vec" "elems sample_vec = [5, 6, 7, 6]" "Vector_Count sample_vec = 4"
  by (simp_all add: sample_vec_def vec_inv_def mem_inv_def Vector_new_external_def Memory_new_external_def
    Vector_Count_def elems_def Vector_Base_def)

subsection \<open>Properties\<close>

text \<open>
  C35: Inserting one element: for a vector that owns its cells and a position up to its count,
  \<open>InsertBefore\<close> returns the position and leaves the elements before it, then the new one, then
  the others in their order, with the invariant; no access is outside the cells.
\<close>

theorem InsertBefore_correct:
  assumes "vec_ok v" "0 \<le> e" "e \<le> Vector_Count v"
  shows "\<exists>v'. InsertBefore raw e x v = Some (e, v') \<and> vec_ok v' \<and>
    Vector_Count v' = Vector_Count v + 1 \<and>
    elems v' = take (nat e) (elems v) @ x # drop (nat e) (elems v)"
  using InsertBefore_result [OF assms(1,2)] assms(3) by (auto simp: Vector_Count_def)

theorem InsertBefore_correct_witness:
  "\<exists>v'. InsertBefore (\<lambda>i. 0) 0 7 empty_vec = Some (0, v') \<and> vec_ok v' \<and>
    Vector_Count v' = Vector_Count empty_vec + 1 \<and>
    elems v' = take (nat 0) (elems empty_vec) @
      7 # drop (nat 0) (elems empty_vec)"
  by (rule InsertBefore_correct) (simp_all add: empty_vec_ok)

text \<open>
  Inserting many: \<open>InsertMultipleBefore\<close> puts \<open>num\<close> elements in front of position \<open>e\<close>, the first
  \<open>num\<close> of the array it is given or else default constructed ones, and moves no other out of order.
\<close>

theorem InsertMultipleBefore_correct:
  assumes "vec_ok v" "0 \<le> e" "e \<le> Vector_Count v" "0 \<le> num" "num \<le> int (length src)"
  shows "\<exists>v' w'. InsertMultipleBefore raw ctor e num (Some src) v = Some (e, v') \<and> vec_ok v' \<and>
      elems v' = take (nat e) (elems v) @ take (nat num) src @ drop (nat e) (elems v) \<and>
    InsertMultipleBefore raw ctor e num None v = Some (e, w') \<and> vec_ok w' \<and>
      elems w' = take (nat e) (elems v) @ replicate (nat num) ctor @ drop (nat e) (elems v)"
  using InsertMultipleBefore_result [of v e num "Some src" raw ctor]
    InsertMultipleBefore_result [of v e num None raw ctor] assms by (auto simp: Vector_Count_def)

theorem InsertMultipleBefore_correct_witness:
  "\<exists>v' w'. InsertMultipleBefore (\<lambda>i. 9) 0 0 2 (Some [5, 6 :: int]) empty_vec = Some (0, v') \<and>
      vec_ok v' \<and>
      elems v' = take (nat 0) (elems empty_vec) @ take (nat 2) [5, 6] @
        drop (nat 0) (elems empty_vec) \<and>
    InsertMultipleBefore (\<lambda>i. 9) 0 0 2 None empty_vec = Some (0, w') \<and> vec_ok w' \<and>
      elems w' = take (nat 0) (elems empty_vec) @ replicate (nat 2) 0 @
        drop (nat 0) (elems empty_vec)"
  by (rule InsertMultipleBefore_correct) (simp_all add: empty_vec_ok)

text \<open>
  Removal: \<open>RemoveMultiple\<close> and \<open>Remove\<close> take exactly the elements from \<open>e\<close> on out and keep the
  order of the others; \<open>FastRemove\<close> fills the hole with the last element instead, so that it keeps
  the multiset of the others and every position but \<open>e\<close> and the last.
\<close>

theorem Vector_removal_correct:
  assumes "vec_inv v" "0 \<le> e" "0 \<le> num" "e + num \<le> Vector_Count v" "e < Vector_Count v"
  shows "\<exists>v1 v2 v3. RemoveMultiple e num v = Some v1 \<and> vec_inv v1 \<and>
      elems v1 = take (nat e) (elems v) @ drop (nat (e + num)) (elems v) \<and>
    Vector_Remove e v = Some v2 \<and> vec_inv v2 \<and>
      elems v2 = take (nat e) (elems v) @ drop (nat e + 1) (elems v) \<and>
    FastRemove e v = Some v3 \<and> vec_inv v3 \<and>
      elems v3 = butlast ((elems v)[nat e := last (elems v)]) \<and>
      mset (elems v3) = mset (elems v) - {#elems v ! nat e#}"
proof -
  have le: "e + num \<le> m_Size v" "e + 1 \<le> m_Size v" "e < m_Size v" using assms by (auto simp: Vector_Count_def)
  obtain v1 where v1: "RemoveMultiple e num v = Some v1" "vec_inv v1"
      "elems v1 = take (nat e) (elems v) @ drop (nat (e + num)) (elems v)"
    using RemoveMultiple_result [OF assms(1-3) le(1)] by blast
  obtain v2 where v2: "Vector_Remove e v = Some v2" "vec_inv v2"
      "elems v2 = take (nat e) (elems v) @ drop (nat e + 1) (elems v)"
    using RemoveMultiple_result [OF assms(1,2) _ le(2)] assms(2)
    by (auto simp: Vector_Remove_eq nat_add_distrib)
  obtain v3 where v3: "FastRemove e v = Some v3" "vec_inv v3"
      "elems v3 = butlast ((elems v)[nat e := last (elems v)])"
    using FastRemove_result [OF assms(1,2) le(3)] by blast
  have i: "nat e < length (elems v)" using assms le(3) length_elems [OF assms(1)] by simp
  from mset_butlast_last [OF i] v1 v2 v3 show ?thesis by auto
qed

theorem Vector_removal_correct_witness:
  "\<exists>v1 v2 v3. RemoveMultiple 0 2 sample_vec = Some v1 \<and> vec_inv v1 \<and>
      elems v1 = take (nat 0) (elems sample_vec) @
        drop (nat (0 + 2)) (elems sample_vec) \<and>
    Vector_Remove 0 sample_vec = Some v2 \<and> vec_inv v2 \<and>
      elems v2 = take (nat 0) (elems sample_vec) @
        drop (nat 0 + 1) (elems sample_vec) \<and>
    FastRemove 0 sample_vec = Some v3 \<and> vec_inv v3 \<and>
      elems v3 = butlast ((elems sample_vec)
        [nat 0 := last (elems sample_vec)]) \<and>
      mset (elems v3) = mset (elems sample_vec) -
        {#elems sample_vec ! nat 0#}"
  by (rule Vector_removal_correct)
     (simp_all add: sample_vec_inv)

text \<open>
  \<open>Find\<close> gives the first position of a value or \<open>InvalidIndex\<close>, and \<open>FindAndRemove\<close> removes the first
  occurrence only, saying whether there was one.
\<close>

theorem FindAndRemove_correct:
  assumes "vec_inv v"
  shows "\<exists>v'. Vector_Find x v = Some (first_index (\<lambda>y. y = x) (elems v)) \<and>
    FindAndRemove x v = Some (x \<in> set (elems v), v') \<and> vec_inv v' \<and> elems v' = remove1 x (elems v)"
  using FindAndRemove_result [OF assms] Find_from_first_index [OF assms] by (auto simp: Vector_Find_def)

theorem FindAndRemove_correct_witness:
  "\<exists>v'. Vector_Find 6 sample_vec =
      Some (first_index (\<lambda>y. y = 6) (elems sample_vec)) \<and>
    FindAndRemove 6 sample_vec =
      Some (6 \<in> set (elems sample_vec), v') \<and> vec_inv v' \<and>
    elems v' = remove1 6 (elems sample_vec)"
  by (rule FindAndRemove_correct)
     (simp add: sample_vec_inv)

text \<open>\<open>Reverse\<close> swaps the halves in place and ends with the elements in the opposite order.\<close>

theorem Vector_Reverse_correct:
  assumes "vec_inv v"
  shows "\<exists>v'. Vector_Reverse v = Some v' \<and> vec_inv v' \<and> elems v' = rev (elems v)"
  using Vector_Reverse_result [OF assms] by blast

theorem Vector_Reverse_correct_witness:
  "\<exists>v'. Vector_Reverse sample_vec = Some v' \<and> vec_inv v' \<and>
    elems v' = rev (elems sample_vec)"
  by (rule Vector_Reverse_correct)
     (simp add: sample_vec_inv)

text \<open>
  Assignment copies the elements of the source, whatever the counts and capacities of the two
  vectors were; the constructor from a list holds the list.
\<close>

theorem Vector_assign_correct:
  assumes "vec_ok v" "vec_inv src" "0 < sz"
  shows "\<exists>v' w. Vector_assign raw ctor src v = Some v' \<and> vec_ok v' \<and> elems v' = elems src \<and>
    Vector_of_list raw sz xs = Some w \<and> vec_ok w \<and> elems w = xs"
  using Vector_assign_result [OF assms(1,2)] Vector_of_list_result [OF assms(3)] by blast

theorem Vector_assign_correct_witness:
  "\<exists>v' w. Vector_assign (\<lambda>i. 0) 0 sample_vec empty_vec = Some v' \<and>
      vec_ok v' \<and> elems v' = elems sample_vec \<and>
    Vector_of_list (\<lambda>i. 0) 4 [1, 2 :: int] = Some w \<and> vec_ok w \<and> elems w = [1, 2]"
  by (rule Vector_assign_correct) (simp_all add: sample_vec_inv empty_vec_ok)

end
