(* ===== verification/UtlVectorSearch.thy ===== *)
theory UtlVectorSearch
  imports UtlVector
begin

text \<open>
  The ordered operations of \<open>CUtlVector\<close> (\<open>src/GameNetworkingSockets/src/public/tier1/utlvector.h\<close>):
  the binary searches, sorted insertion and the sorts. The lemmas show the searches sound and
  complete on a vector that is in order for a strict weak order, that sorted insertion keeps it in
  order and goes after the elements equivalent to the new one, and that the sorts put a
  permutation in order.
\<close>

subsection \<open>Binary search\<close>

text \<open>
  The searches read the cells between \<open>start\<close> and \<open>stop\<close>. They are written once for a comparison of
  two elements; the overloads that pass a context to the comparison fix it.
\<close>

function SortedFind_loop ::
  "('a \<Rightarrow> 'a \<Rightarrow> bool) \<Rightarrow> 'a \<Rightarrow> 'a utlvector \<Rightarrow> int \<Rightarrow> int \<Rightarrow> int option" where
  "SortedFind_loop lt search v start stop =
     (if start \<le> stop then
        (let mid = (start + stop) div 2 in
         case Vector_Element v mid of None \<Rightarrow> None
         | Some x \<Rightarrow>
             if lt x search then SortedFind_loop lt search v (mid + 1) stop
             else if lt search x then SortedFind_loop lt search v start (mid - 1)
             else Some mid)
      else Some Vector_InvalidIndex)"
  by pat_completeness auto
termination
  by (relation "measure (\<lambda>(lt, x, v, a, b). nat (b - a + 1))") auto

declare SortedFind_loop.simps [simp del]

definition SortedFind :: "'a \<Rightarrow> ('a \<Rightarrow> 'a \<Rightarrow> bool) \<Rightarrow> 'a utlvector \<Rightarrow> int option" where
  "SortedFind search pfnLessFunc v =
     SortedFind_loop pfnLessFunc search v 0 (Vector_Count v - 1)"

definition SortedFind_ctx ::
  "'a \<Rightarrow> ('a \<Rightarrow> 'a \<Rightarrow> 'c \<Rightarrow> bool) \<Rightarrow> 'c \<Rightarrow> 'a utlvector \<Rightarrow> int option" where
  "SortedFind_ctx search pfnLessFunc pLessContext v =
     SortedFind_loop (\<lambda>a b. pfnLessFunc a b pLessContext) search v 0 (Vector_Count v - 1)"

text \<open>The search for the first of equal elements goes on to the left of a match.\<close>

function SortedFindFirst_loop ::
  "('a \<Rightarrow> int) \<Rightarrow> 'a utlvector \<Rightarrow> int \<Rightarrow> int \<Rightarrow> int option" where
  "SortedFindFirst_loop cmp v start stop =
     (if start \<le> stop then
        (let mid = (start + stop) div 2 in
         case Vector_Element v mid of None \<Rightarrow> None
         | Some x \<Rightarrow>
             if cmp x < 0 then SortedFindFirst_loop cmp v (mid + 1) stop
             else if 0 < cmp x then SortedFindFirst_loop cmp v start (mid - 1)
             else if start = mid then Some mid
             else SortedFindFirst_loop cmp v start mid)
      else Some Vector_InvalidIndex)"
  by pat_completeness auto
termination
  by (relation "measure (\<lambda>(cmp, v, a, b). nat (b - a + 1))") auto

declare SortedFindFirst_loop.simps [simp del]

text \<open>The comparison of \<open>SortedFindFirst\<close> with a less function, as the sign it acts on.\<close>

definition less_sign :: "('a \<Rightarrow> 'a \<Rightarrow> bool) \<Rightarrow> 'a \<Rightarrow> 'a \<Rightarrow> int" where
  "less_sign lt search x = (if lt x search then -1 else if lt search x then 1 else 0)"

definition SortedFindFirst ::
  "'a \<Rightarrow> ('a \<Rightarrow> 'a \<Rightarrow> 'c \<Rightarrow> bool) \<Rightarrow> 'c \<Rightarrow> 'a utlvector \<Rightarrow> int option" where
  "SortedFindFirst search pfnLessFunc pLessContext v =
     SortedFindFirst_loop (less_sign (\<lambda>a b. pfnLessFunc a b pLessContext) search) v 0 (Vector_Count v - 1)"

definition SortedFindFirst_if :: "('a \<Rightarrow> int) \<Rightarrow> 'a utlvector \<Rightarrow> int option" where
  "SortedFindFirst_if Compare v = SortedFindFirst_loop Compare v 0 (Vector_Count v - 1)"

function SortedFindIf_loop :: "('a \<Rightarrow> int) \<Rightarrow> 'a utlvector \<Rightarrow> int \<Rightarrow> int \<Rightarrow> int option" where
  "SortedFindIf_loop cmp v start stop =
     (if start \<le> stop then
        (let mid = (start + stop) div 2 in
         case Vector_Element v mid of None \<Rightarrow> None
         | Some x \<Rightarrow>
             if cmp x < 0 then SortedFindIf_loop cmp v (mid + 1) stop
             else if 0 < cmp x then SortedFindIf_loop cmp v start (mid - 1)
             else Some mid)
      else Some Vector_InvalidIndex)"
  by pat_completeness auto
termination
  by (relation "measure (\<lambda>(cmp, v, a, b). nat (b - a + 1))") auto

declare SortedFindIf_loop.simps [simp del]

definition SortedFindIf :: "('a \<Rightarrow> int) \<Rightarrow> 'a utlvector \<Rightarrow> int option" where
  "SortedFindIf Compare v = SortedFindIf_loop Compare v 0 (Vector_Count v - 1)"

text \<open>The upper bound: the last index whose element is not greater than what is searched.\<close>

function SortedFindLessOrEqual_range ::
  "'a \<Rightarrow> ('a \<Rightarrow> 'a \<Rightarrow> bool) \<Rightarrow> int \<Rightarrow> int \<Rightarrow> 'a utlvector \<Rightarrow> int option" where
  "SortedFindLessOrEqual_range search lt start stop v =
     (if start \<le> stop then
        (let mid = (start + stop) div 2 in
         case Vector_Element v mid of None \<Rightarrow> None
         | Some x \<Rightarrow>
             if lt x search then SortedFindLessOrEqual_range search lt (mid + 1) stop v
             else if lt search x then SortedFindLessOrEqual_range search lt start (mid - 1) v
             else if stop = mid then Some mid
             else if mid = start then
               (if mid < stop then
                  (case Vector_Element v (mid + 1) of None \<Rightarrow> None
                   | Some y \<Rightarrow> if lt search y then Some mid else Some (mid + 1))
                else Some (mid + 1))
             else SortedFindLessOrEqual_range search lt mid stop v)
      else Some stop)"
  by pat_completeness auto
termination
  by (relation "measure (\<lambda>(x, lt, a, b, v). nat (b - a + 1))") auto

declare SortedFindLessOrEqual_range.simps [simp del]

definition SortedFindLessOrEqual :: "'a \<Rightarrow> ('a \<Rightarrow> 'a \<Rightarrow> bool) \<Rightarrow> 'a utlvector \<Rightarrow> int option" where
  "SortedFindLessOrEqual search pfnLessFunc v =
     SortedFindLessOrEqual_range search pfnLessFunc 0 (Vector_Count v - 1) v"

definition SortedFindLessOrEqual_range_ctx ::
  "'a \<Rightarrow> ('a \<Rightarrow> 'a \<Rightarrow> 'c \<Rightarrow> bool) \<Rightarrow> 'c \<Rightarrow> int \<Rightarrow> int \<Rightarrow> 'a utlvector \<Rightarrow> int option" where
  "SortedFindLessOrEqual_range_ctx search pfnLessFunc pLessContext start stop v =
     SortedFindLessOrEqual_range search (\<lambda>a b. pfnLessFunc a b pLessContext) start stop v"

definition SortedFindLessOrEqual_ctx ::
  "'a \<Rightarrow> ('a \<Rightarrow> 'a \<Rightarrow> 'c \<Rightarrow> bool) \<Rightarrow> 'c \<Rightarrow> 'a utlvector \<Rightarrow> int option" where
  "SortedFindLessOrEqual_ctx search pfnLessFunc pLessContext v =
     SortedFindLessOrEqual_range_ctx search pfnLessFunc pLessContext 0 (Vector_Count v - 1) v"

definition SortedInsert ::
  "(nat \<Rightarrow> 'a) \<Rightarrow> 'a \<Rightarrow> ('a \<Rightarrow> 'a \<Rightarrow> bool) \<Rightarrow> 'a utlvector \<Rightarrow> (int \<times> 'a utlvector) option" where
  "SortedInsert raw src pfnLessFunc v = do {
     i \<leftarrow> SortedFindLessOrEqual src pfnLessFunc v;
     let pos = i + 1;
     v \<leftarrow> GrowVector raw 1 v;
     v \<leftarrow> ShiftElementsRight pos 1 v;
     v \<leftarrow> Vector_SetElement v pos src;
     Some (pos, v)}"

definition SortedInsert_ctx :: "(nat \<Rightarrow> 'a) \<Rightarrow> 'a \<Rightarrow> ('a \<Rightarrow> 'a \<Rightarrow> 'c \<Rightarrow> bool) \<Rightarrow> 'c \<Rightarrow>
    'a utlvector \<Rightarrow> (int \<times> 'a utlvector) option" where
  "SortedInsert_ctx raw src pfnLessFunc pLessContext v = do {
     i \<leftarrow> SortedFindLessOrEqual_ctx src pfnLessFunc pLessContext v;
     let pos = i + 1;
     v \<leftarrow> GrowVector raw 1 v;
     v \<leftarrow> ShiftElementsRight pos 1 v;
     v \<leftarrow> Vector_SetElement v pos src;
     Some (pos, v)}"

subsection \<open>Sorting\<close>

text \<open>
  \<open>std::sort\<close> leaves a permutation that is in order when the predicate is a strict weak order; which
  of the permutations that differ in equivalent elements is its choice, here that of an insertion
  sort. The elements are what lies between \<open>begin()\<close> and \<open>end()\<close>. The lambdas around the comparison
  functions answer false for an element and itself; an insertion sort never compares those.
\<close>

fun sort_insert :: "('a \<Rightarrow> 'a \<Rightarrow> bool) \<Rightarrow> 'a \<Rightarrow> 'a list \<Rightarrow> 'a list" where
  "sort_insert lt x [] = [x]"
| "sort_insert lt x (y # ys) = (if lt y x then y # sort_insert lt x ys else x # y # ys)"

fun std_sort :: "('a \<Rightarrow> 'a \<Rightarrow> bool) \<Rightarrow> 'a list \<Rightarrow> 'a list" where
  "std_sort lt [] = []"
| "std_sort lt (x # xs) = sort_insert lt x (std_sort lt xs)"

definition SortPredicate :: "('a \<Rightarrow> 'a \<Rightarrow> bool) \<Rightarrow> 'a utlvector \<Rightarrow> 'a utlvector" where
  "SortPredicate predicate v =
     (let n = nat (m_Size v); c = Vector_Base v in
      Vector_with_cells (std_sort predicate (take n c) @ drop n c) v)"


definition Sort_less :: "('a \<Rightarrow> 'a \<Rightarrow> bool) \<Rightarrow> 'a utlvector \<Rightarrow> 'a utlvector" where
  "Sort_less pfnLessFunc v = SortPredicate (\<lambda>a b. pfnLessFunc a b) v"

definition Sort_less_ctx :: "('a \<Rightarrow> 'a \<Rightarrow> 'c \<Rightarrow> bool) \<Rightarrow> 'c \<Rightarrow> 'a utlvector \<Rightarrow> 'a utlvector" where
  "Sort_less_ctx pfnLessFunc pLessContext v = SortPredicate (\<lambda>a b. pfnLessFunc a b pLessContext) v"

definition Sort_s_cmp :: "'c \<Rightarrow> ('c \<Rightarrow> 'a \<Rightarrow> 'a \<Rightarrow> int) \<Rightarrow> 'a utlvector \<Rightarrow> 'a utlvector" where
  "Sort_s_cmp context_ptr pfnCompare v = SortPredicate (\<lambda>a b. pfnCompare context_ptr a b < 0) v"

definition Sort_s_less :: "'c \<Rightarrow> ('a \<Rightarrow> 'a \<Rightarrow> 'c \<Rightarrow> bool) \<Rightarrow> 'a utlvector \<Rightarrow> 'a utlvector" where
  "Sort_s_less context_ptr pfnLessFunc v = SortPredicate (\<lambda>a b. pfnLessFunc a b context_ptr) v"

subsection \<open>Order\<close>

definition in_order :: "('a \<Rightarrow> 'a \<Rightarrow> bool) \<Rightarrow> 'a list \<Rightarrow> bool" where
  "in_order lt xs \<longleftrightarrow> sorted_wrt (\<lambda>a b. \<not> lt b a) xs"

definition equivalent :: "('a \<Rightarrow> 'a \<Rightarrow> bool) \<Rightarrow> 'a \<Rightarrow> 'a \<Rightarrow> bool" where
  "equivalent lt a b \<longleftrightarrow> \<not> lt a b \<and> \<not> lt b a"

lemma in_orderD: "in_order lt xs \<Longrightarrow> i < j \<Longrightarrow> j < length xs \<Longrightarrow> \<not> lt (xs ! j) (xs ! i)"
  by (simp add: in_order_def sorted_wrt_iff_nth_less)

lemma below_less:
  assumes "swo lt" "in_order lt xs" "i \<le> j" "j < length xs" "lt (xs ! j) s"
  shows "lt (xs ! i) s"
proof (cases "i = j")
  case False
  with assms(3) have "i < j" by simp
  from swo_nless_less [OF assms(1) in_orderD [OF assms(2) this assms(4)] assms(5)] show ?thesis .
qed (use assms(5) in simp)

lemma above_less:
  assumes "swo lt" "in_order lt xs" "i \<le> j" "j < length xs" "lt s (xs ! i)"
  shows "lt s (xs ! j)"
proof (cases "i = j")
  case False
  with assms(3) have "i < j" by simp
  from swo_less_nless [OF assms(1,5) in_orderD [OF assms(2) this assms(4)]] show ?thesis .
qed (use assms(5) in simp)

lemma in_order_insert:
  assumes "swo lt" "in_order lt xs" "p \<le> length xs"
    "\<And>k. k < p \<Longrightarrow> \<not> lt s (xs ! k)" "\<And>k. p \<le> k \<Longrightarrow> k < length xs \<Longrightarrow> lt s (xs ! k)"
  shows "in_order lt (take p xs @ s # drop p xs)"
proof -
  have "in_order lt (take p xs @ drop p xs)" using assms(2) by simp
  moreover have "\<not> lt s x" if "x \<in> set (take p xs)" for x
    using that assms(3,4) by (auto simp: in_set_conv_nth)
  moreover have "\<not> lt x s" if "x \<in> set (drop p xs)" for x
    using that assms(3) assms(5) [of "p + i" for i] swo_asym [OF assms(1)]
    by (fastforce simp: in_set_conv_nth)
  ultimately show ?thesis unfolding in_order_def sorted_wrt_append by simp
qed

text \<open>What the three loops share: the middle of a range lies in it, and its element is read.\<close>

lemma mid_bounds:
  fixes a b :: int
  shows "a \<le> b \<Longrightarrow> a \<le> (a + b) div 2 \<and> (a + b) div 2 \<le> b" "a < b \<Longrightarrow> (a + b) div 2 < b"
  by auto

lemma mid_Element:
  assumes "vec_inv v" "0 \<le> a" "a \<le> b" "b < m_Size v"
  shows "Vector_Element v ((a + b) div 2) = Some (elems v ! nat ((a + b) div 2))"
    "nat ((a + b) div 2) < length (elems v)"
  using assms mid_bounds(1) [OF assms(3)] Element_elems [OF assms(1), of "(a + b) div 2"]
    length_elems [OF assms(1)] by auto

lemma SortedFind_loop_result:
  assumes v: "vec_inv v" "in_order lt (elems v)" "swo lt"
  shows "0 \<le> a \<Longrightarrow> b < m_Size v \<Longrightarrow>
    (\<And>k. k < nat a \<Longrightarrow> k < length (elems v) \<Longrightarrow> lt (elems v ! k) s) \<Longrightarrow>
    (\<And>k. b < int k \<Longrightarrow> k < length (elems v) \<Longrightarrow> lt s (elems v ! k)) \<Longrightarrow>
    \<exists>r. SortedFind_loop lt s v a b = Some r \<and>
      (r = -1 \<and> (\<forall>k < length (elems v). \<not> equivalent lt (elems v ! k) s) \<or>
       0 \<le> r \<and> nat r < length (elems v) \<and> equivalent lt (elems v ! nat r) s)"
proof (induction "nat (b - a + 1)" arbitrary: a b rule: less_induct)
  case less
  show ?case
  proof (cases "a \<le> b")
    case False
    have "\<not> equivalent lt (elems v ! k) s" if "k < length (elems v)" for k
    proof (cases "k < nat a")
      case True
      then show ?thesis using less.prems(3) that by (simp add: equivalent_def)
    next
      case f: False
      then have "b < int k" using False less.prems(1) by linarith
      then show ?thesis using less.prems(4) that by (simp add: equivalent_def)
    qed
    with False show ?thesis by (subst SortedFind_loop.simps) (simp add: Vector_InvalidIndex_def)
  next
    case True
    let ?m = "(a + b) div 2"
    note m = mid_bounds(1) [OF True] and el = mid_Element [OF v(1) less.prems(1) True less.prems(2)]
    consider (low) "lt (elems v ! nat ?m) s" | (high) "\<not> lt (elems v ! nat ?m) s" "lt s (elems v ! nat ?m)"
      | (eq) "equivalent lt (elems v ! nat ?m) s" by (auto simp: equivalent_def)
    then show ?thesis
    proof cases
      case low
      have "lt (elems v ! k) s" if "k < nat (?m + 1)" for k
        using that below_less [OF v(3,2) _ el(2) low, of k] by simp
      moreover have "nat (b - (?m + 1) + 1) < nat (b - a + 1)" using m True by simp
      moreover have "SortedFind_loop lt s v a b = SortedFind_loop lt s v (?m + 1) b"
        using low el True by (subst SortedFind_loop.simps) (simp add: Let_def)
      ultimately show ?thesis
        using less.hyps [of b "?m + 1"] less.prems(1,2,4) m by auto
    next
      case high
      have "lt s (elems v ! k)" if "?m - 1 < int k" "k < length (elems v)" for k
        using that above_less [OF v(3,2) _ that(2) high(2)] by simp
      moreover have "nat (?m - 1 - a + 1) < nat (b - a + 1)" using m True by simp
      moreover have "SortedFind_loop lt s v a b = SortedFind_loop lt s v a (?m - 1)"
        using high el True by (subst SortedFind_loop.simps) (simp add: Let_def)
      ultimately show ?thesis
        using less.hyps [of "?m - 1" a] less.prems(1,2,3) m by auto
    next
      case eq
      then have "SortedFind_loop lt s v a b = Some ?m"
        using el True by (subst SortedFind_loop.simps) (simp add: Let_def equivalent_def)
      with eq el m less.prems(1) show ?thesis by auto
    qed
  qed
qed

lemma SortedFindLessOrEqual_range_result:
  assumes v: "vec_inv v" "in_order lt (elems v)" "swo lt"
  shows "0 \<le> a \<Longrightarrow> b < m_Size v \<Longrightarrow> a \<le> b + 1 \<Longrightarrow>
    (\<And>k. k < nat a \<Longrightarrow> k < length (elems v) \<Longrightarrow> \<not> lt s (elems v ! k)) \<Longrightarrow>
    (\<And>k. b < int k \<Longrightarrow> k < length (elems v) \<Longrightarrow> lt s (elems v ! k)) \<Longrightarrow>
    \<exists>r. SortedFindLessOrEqual_range s lt a b v = Some r \<and> -1 \<le> r \<and> r < m_Size v \<and>
      (\<forall>k < length (elems v). int k \<le> r \<longleftrightarrow> \<not> lt s (elems v ! k))"
proof (induction "nat (b - a + 1)" arbitrary: a b rule: less_induct)
  case less
  show ?case
  proof (cases "a \<le> b")
    case False
    then have ab: "a = b + 1" using less.prems(3) by simp
    have "int k \<le> b \<longleftrightarrow> \<not> lt s (elems v ! k)" if "k < length (elems v)" for k
      using less.prems(4) [OF _ that] less.prems(5) [OF _ that] ab less.prems(1)
      by (cases "int k \<le> b") auto
    with False less.prems ab show ?thesis by (subst SortedFindLessOrEqual_range.simps) auto
  next
    case True
    let ?m = "(a + b) div 2"
    note m = mid_bounds(1) [OF True] and el = mid_Element [OF v(1) less.prems(1) True less.prems(2)]
    have below: "\<not> lt s (elems v ! k)" if "\<not> lt s (elems v ! j)" "k \<le> j" "j < length (elems v)" for k j
      using that above_less [OF v(3,2)] by blast
    consider (low) "lt (elems v ! nat ?m) s" | (high) "\<not> lt (elems v ! nat ?m) s" "lt s (elems v ! nat ?m)"
      | (eq) "equivalent lt (elems v ! nat ?m) s" by (auto simp: equivalent_def)
    then show ?thesis
    proof cases
      case low
      then have "\<not> lt s (elems v ! nat ?m)" by (rule swo_asym [OF v(3)])
      then have "\<not> lt s (elems v ! k)" if "k < nat (?m + 1)" for k
        using below [of "nat ?m" k] that el(2) by auto
      moreover have "nat (b - (?m + 1) + 1) < nat (b - a + 1)" using m True by simp
      moreover have "SortedFindLessOrEqual_range s lt a b v = SortedFindLessOrEqual_range s lt (?m + 1) b v"
        using low el True by (subst SortedFindLessOrEqual_range.simps) (simp add: Let_def)
      ultimately show ?thesis
        using less.hyps [of b "?m + 1"] less.prems(1,2,5) m by auto
    next
      case high
      have "lt s (elems v ! k)" if "?m - 1 < int k" "k < length (elems v)" for k
        using that above_less [OF v(3,2) _ that(2) high(2)] by simp
      moreover have "nat (?m - 1 - a + 1) < nat (b - a + 1)" using m True by simp
      moreover have "SortedFindLessOrEqual_range s lt a b v = SortedFindLessOrEqual_range s lt a (?m - 1) v"
        using high el True by (subst SortedFindLessOrEqual_range.simps) (simp add: Let_def)
      ultimately show ?thesis
        using less.hyps [of "?m - 1" a] less.prems(1,2,4) m by auto
    next
      case eq
      then have ns: "\<not> lt s (elems v ! nat ?m)" "\<not> lt (elems v ! nat ?m) s" by (auto simp: equivalent_def)
      show ?thesis
      proof (cases "b = ?m")
        case bm: True
        then have "SortedFindLessOrEqual_range s lt a b v = Some ?m"
          using ns el True by (subst SortedFindLessOrEqual_range.simps) (simp add: Let_def)
        moreover have "int k \<le> ?m \<longleftrightarrow> \<not> lt s (elems v ! k)" if "k < length (elems v)" for k
          using less.prems(5) [OF _ that] below [OF ns(1) _ el(2), of k] bm by (cases "int k \<le> ?m") auto
        ultimately show ?thesis using m less.prems by auto
      next
        case bm: False
        then have lt_b: "?m < b" using m by simp
        show ?thesis
        proof (cases "?m = a")
          case ma: True
          then have b: "b = ?m + 1" using lt_b by linarith
          have lb: "nat b < length (elems v)" "0 \<le> b"
            using less.prems(1,2) True length_elems [OF v(1)] by auto
          have elb: "Vector_Element v (?m + 1) = Some (elems v ! nat b)"
            using Element_elems [OF v(1) lb(2) less.prems(2)] b by simp
          let ?r = "if lt s (elems v ! nat b) then ?m else ?m + 1"
          have "SortedFindLessOrEqual_range s lt a b v = Some ?r"
            using ns el elb True bm ma lt_b
            by (subst SortedFindLessOrEqual_range.simps) (simp add: Let_def)
          moreover have "int k \<le> ?r \<longleftrightarrow> \<not> lt s (elems v ! k)" if "k < length (elems v)" for k
          proof -
            consider "int k \<le> ?m" | "int k = b" | "b < int k" using b by linarith
            then show ?thesis
            proof cases
              case 1
              then have "\<not> lt s (elems v ! k)" using below [OF ns(1) _ el(2), of k] by auto
              with 1 show ?thesis by auto
            next
              case 2
              then have "k = nat b" "\<not> int k \<le> ?m" "int k \<le> ?m + 1" using b by auto
              then show ?thesis by auto
            next
              case 3
              with less.prems(5) [OF 3 that] b show ?thesis by auto
            qed
          qed
          moreover have "-1 \<le> ?r" "?r < m_Size v" using b less.prems m by auto
          ultimately show ?thesis by blast
        next
          case False
          then have am: "a < ?m" using m by simp
          have "SortedFindLessOrEqual_range s lt a b v = SortedFindLessOrEqual_range s lt ?m b v"
            using ns el True bm False by (subst SortedFindLessOrEqual_range.simps) (simp add: Let_def)
          moreover have "\<not> lt s (elems v ! k)" if "k < nat ?m" for k
            using below [OF ns(1) _ el(2), of k] that by simp
          moreover have "nat (b - ?m + 1) < nat (b - a + 1)" using am True by simp
          ultimately show ?thesis
            using less.hyps [of b ?m] less.prems(1,2,5) m by auto
        qed
      qed
    qed
  qed
qed

text \<open>The loop that looks for the first match, for a comparison whose sign falls along the vector.\<close>

definition sign_falls :: "('a \<Rightarrow> int) \<Rightarrow> 'a list \<Rightarrow> bool" where
  "sign_falls cmp xs \<longleftrightarrow> (\<forall>i j. i \<le> j \<longrightarrow> j < length xs \<longrightarrow>
     (cmp (xs ! j) < 0 \<longrightarrow> cmp (xs ! i) < 0) \<and> (0 < cmp (xs ! i) \<longrightarrow> 0 < cmp (xs ! j)))"

lemma sign_falls_less_sign:
  assumes "swo lt" "in_order lt xs"
  shows "sign_falls (less_sign lt s) xs"
proof -
  have "(less_sign lt s (xs ! j) < 0 \<longrightarrow> less_sign lt s (xs ! i) < 0) \<and>
      (0 < less_sign lt s (xs ! i) \<longrightarrow> 0 < less_sign lt s (xs ! j))" if "i \<le> j" "j < length xs" for i j
    using below_less [OF assms that, of s] above_less [OF assms that, of s]
      swo_asym [OF assms(1), of "xs ! j" s]
    by (auto simp: less_sign_def split: if_splits)
  then show ?thesis unfolding sign_falls_def by blast
qed

lemma SortedFindFirst_loop_result:
  assumes v: "vec_inv v" "sign_falls cmp (elems v)"
  shows "0 \<le> a \<Longrightarrow> b < m_Size v \<Longrightarrow>
    (\<And>k. k < nat a \<Longrightarrow> k < length (elems v) \<Longrightarrow> cmp (elems v ! k) < 0) \<Longrightarrow>
    (\<forall>k. b < int k \<longrightarrow> k < length (elems v) \<longrightarrow> 0 < cmp (elems v ! k)) \<or>
      a \<le> b \<and> cmp (elems v ! nat b) = 0 \<Longrightarrow>
    \<exists>r. SortedFindFirst_loop cmp v a b = Some r \<and>
      (r = -1 \<and> (\<forall>k < length (elems v). cmp (elems v ! k) \<noteq> 0) \<or>
       0 \<le> r \<and> nat r < length (elems v) \<and> cmp (elems v ! nat r) = 0 \<and>
         (\<forall>k < nat r. cmp (elems v ! k) < 0))"
proof (induction "nat (b - a + 1)" arbitrary: a b rule: less_induct)
  case less
  note falls = v(2) [unfolded sign_falls_def, rule_format]
  show ?case
  proof (cases "a \<le> b")
    case False
    have "cmp (elems v ! k) \<noteq> 0" if "k < length (elems v)" for k
    proof (cases "k < nat a")
      case True
      then show ?thesis using less.prems(3) [OF True that] by simp
    next
      case f: False
      then have "b < int k" using False less.prems(1) by linarith
      then show ?thesis using less.prems(4) that False by auto
    qed
    with False show ?thesis by (subst SortedFindFirst_loop.simps) (simp add: Vector_InvalidIndex_def)
  next
    case True
    let ?m = "(a + b) div 2"
    note m = mid_bounds(1) [OF True] and el = mid_Element [OF v(1) less.prems(1) True less.prems(2)]
    have lb: "nat b < length (elems v)" using True less.prems(1,2) length_elems [OF v(1)] by auto
    consider (low) "cmp (elems v ! nat ?m) < 0" | (high) "0 < cmp (elems v ! nat ?m)"
      | (eq) "cmp (elems v ! nat ?m) = 0" by linarith
    then show ?thesis
    proof cases
      case low
      have "cmp (elems v ! k) < 0" if "k < nat (?m + 1)" for k
        using falls [OF _ el(2), of k] that low by auto
      moreover have "nat (b - (?m + 1) + 1) < nat (b - a + 1)" using m True by simp
      moreover have "SortedFindFirst_loop cmp v a b = SortedFindFirst_loop cmp v (?m + 1) b"
        using low el True by (subst SortedFindFirst_loop.simps) (simp add: Let_def)
      moreover have "?m + 1 \<le> b" if "cmp (elems v ! nat b) = 0"
      proof -
        have "?m \<noteq> b" using that low by auto
        with m show ?thesis by simp
      qed
      ultimately show ?thesis
        using less.hyps [of b "?m + 1"] less.prems(1,2,4) m by auto
    next
      case high
      have "0 < cmp (elems v ! k)" if "?m - 1 < int k" "k < length (elems v)" for k
        using that falls [OF _ that(2), of "nat ?m"] high by auto
      moreover have "nat (?m - 1 - a + 1) < nat (b - a + 1)" using m True by simp
      moreover have "SortedFindFirst_loop cmp v a b = SortedFindFirst_loop cmp v a (?m - 1)"
        using high el True by (subst SortedFindFirst_loop.simps) (simp add: Let_def)
      ultimately show ?thesis
        using less.hyps [of "?m - 1" a] less.prems(1,2,3) m by auto
    next
      case eq
      show ?thesis
      proof (cases "a = ?m")
        case am: True
        then have "SortedFindFirst_loop cmp v a b = Some ?m"
          using eq el True by (subst SortedFindFirst_loop.simps) (simp add: Let_def)
        moreover have "\<forall>k < nat ?m. cmp (elems v ! k) < 0" using less.prems(3) am el(2) by auto
        ultimately show ?thesis using eq el(2) m less.prems(1) by auto
      next
        case False
        then have am: "a < ?m" using m by simp
        then have "?m < b" using mid_bounds(2) [of a b] m by linarith
        then have "nat (?m - a + 1) < nat (b - a + 1)" using am by simp
        moreover have "SortedFindFirst_loop cmp v a b = SortedFindFirst_loop cmp v a ?m"
          using eq el True False by (subst SortedFindFirst_loop.simps) (simp add: Let_def)
        ultimately show ?thesis
          using less.hyps [of ?m a] less.prems(1,2,3) m am eq by auto
      qed
    qed
  qed
qed

lemma SortedInsert_result:
  assumes "vec_ok v" "in_order lt (elems v)" "swo lt"
  shows "\<exists>p v'. SortedInsert raw s lt v = Some (int p, v') \<and> vec_ok v' \<and> p \<le> length (elems v) \<and>
    elems v' = take p (elems v) @ s # drop p (elems v) \<and> in_order lt (elems v') \<and>
    (\<forall>k < length (elems v). k < p \<longleftrightarrow> \<not> lt s (elems v ! k))"
proof -
  note vi = vec_okD [OF assms(1)]
  have n: "m_Size v = int (length (elems v))" using length_elems [OF vi] vec_invD [OF vi] by simp
  from SortedFindLessOrEqual_range_result [OF vi assms(2,3), of 0 "m_Size v - 1" s] n obtain r where
    r: "SortedFindLessOrEqual s lt v = Some r" "-1 \<le> r" "r < m_Size v"
      "\<forall>k < length (elems v). int k \<le> r \<longleftrightarrow> \<not> lt s (elems v ! k)"
    by (auto simp: SortedFindLessOrEqual_def Vector_Count_def)
  define p where "p = nat (r + 1)"
  have p: "int p = r + 1" "p \<le> length (elems v)" using r(2,3) n by (auto simp: p_def)
  have pk: "\<forall>k < length (elems v). k < p \<longleftrightarrow> \<not> lt s (elems v ! k)" using r(4) p(1) by auto
  have "0 \<le> r + 1" "r + 1 \<le> m_Size v" using r by auto
  from InsertBefore_result [OF assms(1) this, of raw s] obtain v' where
    v': "InsertBefore raw (r + 1) s v = Some (r + 1, v')" "vec_ok v'"
      "elems v' = take p (elems v) @ s # drop p (elems v)"
    unfolding p_def by blast
  have "SortedInsert raw s lt v = InsertBefore raw (r + 1) s v"
    by (simp add: SortedInsert_def InsertBefore_def r(1) Let_def)
  moreover have "in_order lt (elems v')"
    unfolding v'(3)
  proof (rule in_order_insert [OF assms(3,2) p(2)])
    show "\<not> lt s (elems v ! k)" if "k < p" for k using pk that p(2) less_le_trans [OF that p(2)] by blast
    show "lt s (elems v ! k)" if "p \<le> k" "k < length (elems v)" for k using pk that by (simp add: not_less [symmetric])
  qed
  ultimately have "SortedInsert raw s lt v = Some (int p, v')" "in_order lt (elems v')"
    using v'(1) p(1) by simp_all
  with v'(2,3) p(2) pk show ?thesis by blast
qed

lemma mset_sort_insert [simp]: "mset (sort_insert lt x xs) = add_mset x (mset xs)"
  by (induction xs) auto

lemma mset_std_sort [simp]: "mset (std_sort lt xs) = mset xs"
  by (induction xs) auto

lemma set_sort_insert [simp]: "set (sort_insert lt x xs) = insert x (set xs)"
  by (induction xs) auto

lemma length_std_sort [simp]: "length (std_sort lt xs) = length xs"
  using mset_eq_length [OF mset_std_sort] .




subsection \<open>Properties\<close>

lemma int_order_swo: "swo ((<) :: int \<Rightarrow> int \<Rightarrow> bool)"
  using swo_key [of "\<lambda>x. x"] by simp

definition sorted_vec :: "int utlvector" where
  "sorted_vec = Vector_new_external 4 [1, 3, 3, 8, 0] 5 4"

lemma sorted_vec_ok: "vec_inv sorted_vec" "in_order (<) (elems sorted_vec)"
  by (simp_all add: sorted_vec_def vec_inv_def mem_inv_def Vector_new_external_def Memory_new_external_def
    elems_def Vector_Base_def in_order_def)

text \<open>
  Binary search is sound and complete: on a vector in order for a strict weak order \<open>SortedFind\<close>
  returns a position of an element equivalent to what is searched, and \<open>InvalidIndex\<close> only when there
  is none; \<open>SortedFindFirst\<close> returns the first such position.
\<close>

theorem SortedFind_correct:
  assumes "vec_inv v" "in_order lt (elems v)" "swo lt"
  shows "\<exists>r f. SortedFind s lt v = Some r \<and>
      (r = Vector_InvalidIndex \<and> (\<forall>x \<in> set (elems v). \<not> equivalent lt x s) \<or>
       Vector_IsValidIndex v r \<and> equivalent lt (elems v ! nat r) s) \<and>
    SortedFindFirst s (\<lambda>a b (c :: 'c). lt a b) ctx v = Some f \<and>
      (f = Vector_InvalidIndex \<and> (\<forall>x \<in> set (elems v). \<not> equivalent lt x s) \<or>
       Vector_IsValidIndex v f \<and> equivalent lt (elems v ! nat f) s \<and>
         (\<forall>k < nat f. lt (elems v ! k) s))"
proof -
  have n: "m_Size v = int (length (elems v))"
    using length_elems [OF assms(1)] vec_invD [OF assms(1)] by simp
  from SortedFind_loop_result [OF assms, of 0 "m_Size v - 1" s] n obtain r where
    r: "SortedFind s lt v = Some r"
      "r = -1 \<and> (\<forall>k < length (elems v). \<not> equivalent lt (elems v ! k) s) \<or>
       0 \<le> r \<and> nat r < length (elems v) \<and> equivalent lt (elems v ! nat r) s"
    by (auto simp: SortedFind_def Vector_Count_def)
  have sg: "(less_sign lt s x = 0) = equivalent lt x s" "(less_sign lt s x < 0) = lt x s" for x
    by (auto simp: less_sign_def equivalent_def)
  from SortedFindFirst_loop_result [OF assms(1) sign_falls_less_sign [OF assms(3,2), of s], of 0 "m_Size v - 1"] n
  obtain f where
    f: "SortedFindFirst s (\<lambda>a b c. lt a b) ctx v = Some f"
      "f = -1 \<and> (\<forall>k < length (elems v). \<not> equivalent lt (elems v ! k) s) \<or>
       0 \<le> f \<and> nat f < length (elems v) \<and> equivalent lt (elems v ! nat f) s \<and>
         (\<forall>k < nat f. lt (elems v ! k) s)"
    by (auto simp: SortedFindFirst_def Vector_Count_def sg)
  have "Vector_IsValidIndex v i" if "0 \<le> i" "nat i < length (elems v)" for i
    using that n by (auto simp: Vector_IsValidIndex_def)
  with r f show ?thesis by (auto simp: Vector_InvalidIndex_def all_set_conv_all_nth)
qed

theorem SortedFind_correct_witness:
  "\<exists>r f. SortedFind 3 (<) sorted_vec = Some r \<and>
      (r = Vector_InvalidIndex \<and> (\<forall>x \<in> set (elems sorted_vec). \<not> equivalent (<) x 3) \<or>
       Vector_IsValidIndex sorted_vec r \<and> equivalent (<) (elems sorted_vec ! nat r) 3) \<and>
    SortedFindFirst 3 (\<lambda>a b (c :: unit). a < b) () sorted_vec = Some f \<and>
      (f = Vector_InvalidIndex \<and> (\<forall>x \<in> set (elems sorted_vec). \<not> equivalent (<) x 3) \<or>
       Vector_IsValidIndex sorted_vec f \<and> equivalent (<) (elems sorted_vec ! nat f) 3 \<and>
         (\<forall>k < nat f. elems sorted_vec ! k < 3))"
  by (rule SortedFind_correct [OF sorted_vec_ok int_order_swo])

text \<open>
  C39: \<open>SortedFindLessOrEqual\<close> is an upper bound: the elements at its result and before are not
  greater than what is searched, those after it are.
\<close>

theorem SortedFindLessOrEqual_upper_bound:
  assumes "vec_inv v" "in_order lt (elems v)" "swo lt"
  shows "\<exists>r. SortedFindLessOrEqual s lt v = Some r \<and> -1 \<le> r \<and> r < Vector_Count v \<and>
    (\<forall>k < length (elems v). int k \<le> r \<longleftrightarrow> \<not> lt s (elems v ! k))"
  using SortedFindLessOrEqual_range_result [OF assms, of 0 "m_Size v - 1" s]
    length_elems [OF assms(1)] vec_invD [OF assms(1)]
  by (auto simp: SortedFindLessOrEqual_def Vector_Count_def)

theorem SortedFindLessOrEqual_upper_bound_witness:
  "\<exists>r. SortedFindLessOrEqual 3 (<) sorted_vec = Some r \<and> -1 \<le> r \<and> r < Vector_Count sorted_vec \<and>
    (\<forall>k < length (elems sorted_vec). int k \<le> r \<longleftrightarrow> \<not> 3 < elems sorted_vec ! k)"
  by (rule SortedFindLessOrEqual_upper_bound [OF sorted_vec_ok int_order_swo])

text \<open>
  \<open>SortedInsert\<close> keeps a vector in order and puts the new element after every element that is
  not greater, in particular after those equivalent to it.
\<close>

theorem SortedInsert_keeps_order:
  assumes "vec_ok v" "in_order lt (elems v)" "swo lt"
  shows "\<exists>p v'. SortedInsert raw s lt v = Some (int p, v') \<and> vec_ok v' \<and>
    elems v' = take p (elems v) @ s # drop p (elems v) \<and> in_order lt (elems v') \<and>
    (\<forall>k < length (elems v). k < p \<longleftrightarrow> \<not> lt s (elems v ! k))"
  using SortedInsert_result [OF assms] by blast

theorem SortedInsert_keeps_order_witness:
  "\<exists>p v'. SortedInsert (\<lambda>i. 0) 3 (<) empty_vec = Some (int p, v') \<and> vec_ok v' \<and>
    elems v' = take p (elems empty_vec) @ 3 # drop p (elems empty_vec) \<and> in_order (<) (elems v') \<and>
    (\<forall>k < length (elems empty_vec). k < p \<longleftrightarrow> \<not> 3 < elems empty_vec ! k)"
  by (rule SortedInsert_keeps_order [OF empty_vec_ok(1) _ int_order_swo])
     (simp add: empty_vec_ok in_order_def)



end
