(* ===== verification/UtlPriorityQueue.thy ===== *)
theory UtlPriorityQueue
  imports UtlVector
begin

text \<open>
  \<open>CUtlPriorityQueue\<close> (\<open>src/GameNetworkingSockets/src/public/tier1/utlpriorityqueue.h\<close>): a binary heap
  over the vector, the element of greatest priority first. The less function is an argument of
  every operation, because what it compares may change between two calls (this is what
  \<open>RevaluateElement\<close> is for). The callback \<open>SetIndex\<close> tells an element where it stands; what it
  writes is the second field of the state, and the elements themselves are handles.
\<close>

record ('a, 's) pqueue =
  m_heap :: "'a utlvector"
  m_Indices :: 's

type_synonym ('a, 's) set_index = "'a \<Rightarrow> int \<Rightarrow> 's \<Rightarrow> 's"

definition PQ_new :: "(nat \<Rightarrow> 'a) \<Rightarrow> int \<Rightarrow> int \<Rightarrow> int \<Rightarrow> 's \<Rightarrow> ('a, 's) pqueue" where
  "PQ_new raw sizeOfT growSize initSize s =
     \<lparr>m_heap = Vector_new raw sizeOfT growSize initSize, m_Indices = s\<rparr>"

definition PQ_new_external :: "int \<Rightarrow> 'a list \<Rightarrow> int \<Rightarrow> 's \<Rightarrow> ('a, 's) pqueue" where
  "PQ_new_external sizeOfT pMemory numElements s =
     \<lparr>m_heap = Vector_new_external sizeOfT pMemory numElements 0, m_Indices = s\<rparr>"

definition PQ_Count :: "('a, 's) pqueue \<Rightarrow> int" where
  "PQ_Count q = Vector_Count (m_heap q)"

definition PQ_Element :: "('a, 's) pqueue \<Rightarrow> int \<Rightarrow> 'a option" where
  "PQ_Element q index = Vector_Element (m_heap q) index"

definition PQ_ElementAtHead :: "('a, 's) pqueue \<Rightarrow> 'a option" where
  "PQ_ElementAtHead q = PQ_Element q 0"

definition PQ_IsValidIndex :: "('a, 's) pqueue \<Rightarrow> int \<Rightarrow> bool" where
  "PQ_IsValidIndex q index \<longleftrightarrow> Vector_IsValidIndex (m_heap q) index"

definition PQ_RemoveAll :: "('a, 's) pqueue \<Rightarrow> ('a, 's) pqueue" where
  "PQ_RemoveAll q = q\<lparr>m_heap := Vector_RemoveAll (m_heap q)\<rparr>"

definition PQ_Purge :: "('a, 's) pqueue \<Rightarrow> ('a, 's) pqueue" where
  "PQ_Purge q = q\<lparr>m_heap := Vector_Purge (m_heap q)\<rparr>"

definition PQ_SetElement :: "('a, 's) pqueue \<Rightarrow> int \<Rightarrow> 'a \<Rightarrow> ('a, 's) pqueue option" where
  "PQ_SetElement q index x = do {
     v \<leftarrow> Vector_SetElement (m_heap q) index x;
     Some (q\<lparr>m_heap := v\<rparr>)}"

text \<open>Calling the callback for the element at one position, with the index to tell it.\<close>

definition notify :: "('a, 's) set_index \<Rightarrow> int \<Rightarrow> int \<Rightarrow> ('a, 's) pqueue \<Rightarrow> ('a, 's) pqueue option" where
  "notify SetIndex index nNewIndex q = do {
     x \<leftarrow> PQ_Element q index;
     Some (q\<lparr>m_Indices := SetIndex x nNewIndex (m_Indices q)\<rparr>)}"

definition PQ_Swap :: "('a, 's) set_index \<Rightarrow> int \<Rightarrow> int \<Rightarrow> ('a, 's) pqueue \<Rightarrow> ('a, 's) pqueue option" where
  "PQ_Swap SetIndex parent child q = do {
     tmp \<leftarrow> PQ_Element q parent;
     x \<leftarrow> PQ_Element q child;
     q \<leftarrow> PQ_SetElement q parent x;
     q \<leftarrow> PQ_SetElement q child tmp;
     q \<leftarrow> notify SetIndex parent parent q;
     notify SetIndex child child q}"

partial_function (option) PercolateDown ::
  "('a \<Rightarrow> 'a \<Rightarrow> bool) \<Rightarrow> ('a, 's) set_index \<Rightarrow> int \<Rightarrow> ('a, 's) pqueue \<Rightarrow> (int \<times> ('a, 's) pqueue) option"
where
  "PercolateDown lt SetIndex index q =
     (let child = (index + 1) * 2 - 1 in
      if PQ_Count q \<le> child then Some (index, q)
      else do {
        x \<leftarrow> PQ_Element q index;
        y \<leftarrow> PQ_Element q child;
        larger \<leftarrow>
          (let larger = (if lt x y then child else index); child = child + 1 in
           if child < PQ_Count q then do {
             l \<leftarrow> PQ_Element q larger;
             z \<leftarrow> PQ_Element q child;
             Some (if lt l z then child else larger)}
           else Some larger);
        if larger = index then Some (index, q)
        else do {
          q \<leftarrow> PQ_Swap SetIndex index larger q;
          PercolateDown lt SetIndex larger q}})"

partial_function (option) PercolateUp ::
  "('a \<Rightarrow> 'a \<Rightarrow> bool) \<Rightarrow> ('a, 's) set_index \<Rightarrow> int \<Rightarrow> ('a, 's) pqueue \<Rightarrow> (int \<times> ('a, 's) pqueue) option"
where
  "PercolateUp lt SetIndex index q =
     (if 0 < index then
        (let parent = (index + 1) div 2 - 1 in do {
           x \<leftarrow> PQ_Element q parent;
           y \<leftarrow> PQ_Element q index;
           if \<not> lt x y then Some (index, q)
           else do {
             q \<leftarrow> PQ_Swap SetIndex parent index q;
             PercolateUp lt SetIndex parent q}})
      else Some (index, q))"

declare PercolateDown.simps [code] PercolateUp.simps [code]

text \<open>The comparison of the index is one of unsigned numbers: it fails for a negative index too.\<close>

definition RevaluateElement ::
  "('a \<Rightarrow> 'a \<Rightarrow> bool) \<Rightarrow> ('a, 's) set_index \<Rightarrow> int \<Rightarrow> ('a, 's) pqueue \<Rightarrow> ('a, 's) pqueue option"
where
  "RevaluateElement lt SetIndex nStartingIndex q =
     (if nStartingIndex < 0 \<or> PQ_Count q \<le> nStartingIndex then Some q
      else do {
        (index, q) \<leftarrow> PercolateDown lt SetIndex nStartingIndex q;
        if index = nStartingIndex then map_option snd (PercolateUp lt SetIndex index q)
        else Some q})"

definition PQ_Insert ::
  "(nat \<Rightarrow> 'a) \<Rightarrow> 'a \<Rightarrow> ('a \<Rightarrow> 'a \<Rightarrow> bool) \<Rightarrow> ('a, 's) set_index \<Rightarrow> 'a \<Rightarrow> ('a, 's) pqueue \<Rightarrow>
   ('a, 's) pqueue option"
where
  "PQ_Insert raw ctor lt SetIndex element q = do {
     (index, v) \<leftarrow> AddToTail_default raw ctor (m_heap q);
     q \<leftarrow> PQ_SetElement (q\<lparr>m_heap := v\<rparr>) index element;
     q \<leftarrow> notify SetIndex index index q;
     map_option snd (PercolateUp lt SetIndex index q)}"

definition PQ_RemoveAtHead ::
  "('a \<Rightarrow> 'a \<Rightarrow> bool) \<Rightarrow> ('a, 's) set_index \<Rightarrow> ('a, 's) pqueue \<Rightarrow> ('a, 's) pqueue option"
where
  "PQ_RemoveAtHead lt SetIndex q = do {
     q \<leftarrow> notify SetIndex 0 Vector_InvalidIndex q;
     v \<leftarrow> FastRemove 0 (m_heap q);
     let q = q\<lparr>m_heap := v\<rparr>;
     if 0 < PQ_Count q then do {
       q \<leftarrow> notify SetIndex 0 0 q;
       map_option snd (PercolateDown lt SetIndex 0 q)}
     else Some q}"

definition PQ_RemoveAt ::
  "('a \<Rightarrow> 'a \<Rightarrow> bool) \<Rightarrow> ('a, 's) set_index \<Rightarrow> int \<Rightarrow> ('a, 's) pqueue \<Rightarrow> ('a, 's) pqueue option"
where
  "PQ_RemoveAt lt SetIndex index q = do {
     q \<leftarrow> notify SetIndex index Vector_InvalidIndex q;
     v \<leftarrow> FastRemove index (m_heap q);
     let q = q\<lparr>m_heap := v\<rparr>;
     if index < PQ_Count q then do {
       q \<leftarrow> notify SetIndex index index q;
       RevaluateElement lt SetIndex index q}
     else Some q}"

subsection \<open>The heap order\<close>

definition parent :: "nat \<Rightarrow> nat" where
  "parent i = (i - 1) div 2"

definition heap :: "('a \<Rightarrow> 'a \<Rightarrow> bool) \<Rightarrow> 'a list \<Rightarrow> bool" where
  "heap lt xs \<longleftrightarrow> (\<forall>i. 0 < i \<longrightarrow> i < length xs \<longrightarrow> \<not> lt (xs ! parent i) (xs ! i))"

text \<open>
  The order with a hole: nothing is known of the element at \<open>j\<close> against its children
  (\<open>heap_except\<close>, nor against its parent), but its children stand below its parent.
\<close>

definition heap_except :: "('a \<Rightarrow> 'a \<Rightarrow> bool) \<Rightarrow> 'a list \<Rightarrow> nat \<Rightarrow> bool" where
  "heap_except lt xs j \<longleftrightarrow>
     (\<forall>i. 0 < i \<longrightarrow> i < length xs \<longrightarrow> i \<noteq> j \<longrightarrow> parent i \<noteq> j \<longrightarrow> \<not> lt (xs ! parent i) (xs ! i)) \<and>
     (\<forall>i. 0 < i \<longrightarrow> i < length xs \<longrightarrow> parent i = j \<longrightarrow> 0 < j \<longrightarrow> \<not> lt (xs ! parent j) (xs ! i))"

definition heap_up :: "('a \<Rightarrow> 'a \<Rightarrow> bool) \<Rightarrow> 'a list \<Rightarrow> nat \<Rightarrow> bool" where
  "heap_up lt xs j \<longleftrightarrow> heap_except lt xs j \<and>
     (\<forall>i. 0 < i \<longrightarrow> i < length xs \<longrightarrow> parent i = j \<longrightarrow> \<not> lt (xs ! j) (xs ! i))"

abbreviation swap :: "'a list \<Rightarrow> nat \<Rightarrow> nat \<Rightarrow> 'a list" where
  "swap xs i j \<equiv> xs[i := xs ! j, j := xs ! i]"

lemma parent_less: "0 < i \<Longrightarrow> parent i < i"
  by (auto simp: parent_def)

lemma int_parent: "0 < j \<Longrightarrow> (int j + 1) div 2 - 1 = int (parent j)"
  by (cases j) (auto simp: parent_def zdiv_int)

lemma parent_iff: "0 < i \<Longrightarrow> parent i = j \<longleftrightarrow> i = 2 * j + 1 \<or> i = 2 * j + 2"
  by (auto simp: parent_def)

lemma mset_swap_nth: "i < length xs \<Longrightarrow> j < length xs \<Longrightarrow> mset (swap xs i j) = mset xs"
  by (rule mset_swap)

lemma heap_if_up: "heap_up lt xs j \<Longrightarrow> 0 < j \<longrightarrow> \<not> lt (xs ! parent j) (xs ! j) \<Longrightarrow> heap lt xs"
  unfolding heap_up_def heap_except_def heap_def by metis

lemma heap_imp_up: "swo lt \<Longrightarrow> heap lt xs \<Longrightarrow> j < length xs \<Longrightarrow> heap_up lt xs j"
proof -
  assume lt: "swo lt" and h: "heap lt xs" and j: "j < length xs"
  note h' = h [unfolded heap_def, rule_format]
  have "\<not> lt (xs ! parent j) (xs ! i)" if "0 < i" "i < length xs" "parent i = j" "0 < j" for i
  proof (rule swo_ntrans [OF lt h' [OF that(4) j]])
    show "\<not> lt (xs ! j) (xs ! i)" using h' [OF that(1,2)] that(3) by simp
  qed
  then show "heap_up lt xs j" unfolding heap_up_def heap_except_def using h' by blast
qed

lemma down_step:
  assumes lt: "swo lt" and h: "heap_except lt xs j"
    and c: "0 < c" "c < length xs" "parent c = j" "lt (xs ! j) (xs ! c)"
    and other: "\<And>i. 0 < i \<Longrightarrow> i < length xs \<Longrightarrow> parent i = j \<Longrightarrow> \<not> lt (xs ! c) (xs ! i)"
  shows "heap_except lt (swap xs j c) c \<and> \<not> lt (swap xs j c ! j) (swap xs j c ! c)"
proof -
  let ?ys = "swap xs j c"
  have jc: "j < c" using c(1,3) parent_less by blast
  have h1: "\<not> lt (xs ! parent i) (xs ! i)" if "0 < i" "i < length xs" "i \<noteq> j" "parent i \<noteq> j" for i
    using h that unfolding heap_except_def by blast
  have h2: "\<not> lt (xs ! parent j) (xs ! i)" if "0 < i" "i < length xs" "parent i = j" "0 < j" for i
    using h that unfolding heap_except_def by blast
  have ys: "?ys ! j = xs ! c" "?ys ! c = xs ! j" "\<And>i. i \<noteq> j \<Longrightarrow> i \<noteq> c \<Longrightarrow> ?ys ! i = xs ! i"
    using c(2) jc by (auto simp: nth_list_update)
  have "\<not> lt (?ys ! parent i) (?ys ! i)"
    if i: "0 < i" "i < length ?ys" "i \<noteq> c" "parent i \<noteq> c" for i
  proof -
    consider "i = j" | "i \<noteq> j" "parent i = j" | "i \<noteq> j" "parent i \<noteq> j" by blast
    then show ?thesis
    proof cases
      case 1
      then have "parent i \<noteq> j" "parent i \<noteq> c" using parent_less [OF i(1)] jc by auto
      then show ?thesis using h2 [OF c(1,2,3)] i(1) 1 ys(1) ys(3) [of "parent i"] by simp
    next
      case 2
      then show ?thesis using other [of i] i ys by simp
    next
      case 3
      then show ?thesis using h1 [of i] i ys(3) by simp
    qed
  qed
  moreover have "\<not> lt (?ys ! parent c) (?ys ! i)"
    if i: "0 < i" "i < length ?ys" "parent i = c" for i
  proof -
    have "i \<noteq> j" "i \<noteq> c" using parent_less [OF i(1)] i(3) jc by auto
    then show ?thesis using h1 [of i] i jc ys c(3) by simp
  qed
  ultimately show ?thesis using swo_asym [OF lt c(4)] ys unfolding heap_except_def by simp
qed

lemma up_step:
  assumes lt: "swo lt" and h: "heap_up lt xs j"
    and j: "0 < j" "j < length xs" "lt (xs ! parent j) (xs ! j)"
  shows "heap_up lt (swap xs (parent j) j) (parent j)"
proof -
  let ?p = "parent j" let ?ys = "swap xs ?p j"
  have pj: "?p < j" using parent_less [OF j(1)] .
  have h1: "\<not> lt (xs ! parent i) (xs ! i)" if "0 < i" "i < length xs" "i \<noteq> j" for i
    using h that unfolding heap_up_def heap_except_def by (cases "parent i = j") auto
  have h2: "\<not> lt (xs ! ?p) (xs ! i)" if "0 < i" "i < length xs" "parent i = j" for i
    using h that j unfolding heap_up_def heap_except_def by blast
  have ys: "?ys ! ?p = xs ! j" "?ys ! j = xs ! ?p" "\<And>i. i \<noteq> ?p \<Longrightarrow> i \<noteq> j \<Longrightarrow> ?ys ! i = xs ! i"
    using j(2) pj by (auto simp: nth_list_update)
  have below: "\<not> lt (?ys ! ?p) (?ys ! i)" if i: "0 < i" "i < length ?ys" "parent i = ?p" for i
  proof (cases "i = j")
    case True
    then show ?thesis using swo_asym [OF lt j(3)] ys by simp
  next
    case False
    then have "\<not> lt (xs ! ?p) (xs ! i)" using h1 [of i] i by simp
    then have "\<not> lt (xs ! j) (xs ! i)" using swo_trans [OF lt j(3)] by blast
    moreover have "i \<noteq> ?p" using parent_less [OF i(1)] i(3) by auto
    ultimately show ?thesis using ys False by simp
  qed
  have "\<not> lt (?ys ! parent i) (?ys ! i)"
    if i: "0 < i" "i < length ?ys" "i \<noteq> ?p" "parent i \<noteq> ?p" for i
  proof (cases "parent i = j")
    case True
    then have "i \<noteq> j" using parent_less [OF i(1)] by auto
    then show ?thesis using h2 [of i] True i ys by simp
  next
    case False
    moreover have "i \<noteq> j" using i(4) by auto
    ultimately show ?thesis using h1 [of i] i ys(3) by simp
  qed
  moreover have "\<not> lt (?ys ! parent ?p) (?ys ! i)"
    if i: "0 < i" "i < length ?ys" "parent i = ?p" "0 < ?p" for i
  proof -
    have g: "parent ?p < ?p" using parent_less [OF i(4)] .
    have gp: "\<not> lt (xs ! parent ?p) (xs ! ?p)" using h1 [of ?p] i(4) pj j(2) by simp
    show ?thesis
    proof (cases "i = j")
      case True
      then show ?thesis using gp ys g pj by simp
    next
      case False
      then have "\<not> lt (xs ! ?p) (xs ! i)" using h1 [of i] i by simp
      then have "\<not> lt (xs ! parent ?p) (xs ! i)" using swo_ntrans [OF lt gp] by blast
      moreover have "i \<noteq> ?p" using parent_less [OF i(1)] i(3) by auto
      ultimately show ?thesis using False ys(3) g pj by simp
    qed
  qed
  ultimately show ?thesis using below unfolding heap_up_def heap_except_def by blast
qed

text \<open>The head of a heap is not less than any element.\<close>

lemma heap_head:
  assumes "swo lt" "heap lt xs"
  shows "i < length xs \<Longrightarrow> \<not> lt (xs ! 0) (xs ! i)"
proof (induction i rule: less_induct)
  case (less i)
  show ?case
  proof (cases "i = 0")
    case True
    then show ?thesis using swo_irrefl [OF assms(1)] by simp
  next
    case False
    then have "parent i < i" using parent_less by simp
    then have "\<not> lt (xs ! 0) (xs ! parent i)" using less by simp
    moreover have "\<not> lt (xs ! parent i) (xs ! i)" using assms(2) less.prems False by (simp add: heap_def)
    ultimately show ?thesis by (rule swo_ntrans [OF assms(1)])
  qed
qed

subsection \<open>The operations\<close>

definition pq_ok :: "('a, 's) pqueue \<Rightarrow> bool" where
  "pq_ok q \<longleftrightarrow> vec_ok (m_heap q)"

definition pq_list :: "('a, 's) pqueue \<Rightarrow> 'a list" where
  "pq_list q = elems (m_heap q)"

lemma PQ_Count_list: "pq_ok q \<Longrightarrow> PQ_Count q = int (length (pq_list q))"
  by (simp add: pq_ok_def PQ_Count_def pq_list_def Count_elems vec_okD)

lemma PQ_Element_list: "pq_ok q \<Longrightarrow> i < length (pq_list q) \<Longrightarrow> PQ_Element q (int i) = Some (pq_list q ! i)"
  using Element_elems [of "m_heap q" "int i"] PQ_Count_list [of q]
  by (simp add: pq_ok_def PQ_Element_def pq_list_def vec_okD PQ_Count_def Vector_Count_def)

lemma PQ_SetElement_list:
  assumes "pq_ok q" "i < length (pq_list q)"
  shows "\<exists>q'. PQ_SetElement q (int i) x = Some q' \<and> pq_ok q' \<and> pq_list q' = (pq_list q)[i := x] \<and>
    m_Indices q' = m_Indices q"
proof -
  have v: "vec_ok (m_heap q)" "i < length (elems (m_heap q))" using assms by (auto simp: pq_ok_def pq_list_def)
  then have "int i + int (length [x]) \<le> m_Size (m_heap q)"
    using Count_elems [OF vec_okD [OF v(1)]] by (simp add: Vector_Count_def)
  from Vector_Store_elems [OF v(1) _ this] v(2) obtain v' where
    "Vector_SetElement (m_heap q) (int i) x = Some v'" "vec_ok v'" "elems v' = (elems (m_heap q))[i := x]"
    by (auto simp: SetElement_Store upd_conv_take_nth_drop)
  then show ?thesis by (simp add: PQ_SetElement_def pq_ok_def pq_list_def)
qed

lemma notify_list:
  assumes "pq_ok q" "i < length (pq_list q)"
  shows "notify SI (int i) k q = Some (q\<lparr>m_Indices := SI (pq_list q ! i) k (m_Indices q)\<rparr>)"
  using PQ_Element_list [OF assms] by (simp add: notify_def)

lemma pq_indices_simps [simp]:
  "pq_ok (q\<lparr>m_Indices := s\<rparr>) = pq_ok q" "pq_list (q\<lparr>m_Indices := s\<rparr>) = pq_list q"
  by (simp_all add: pq_ok_def pq_list_def)

lemma PQ_Swap_list:
  assumes "pq_ok q" "p < c" "c < length (pq_list q)"
  shows "\<exists>q'. PQ_Swap SI (int p) (int c) q = Some q' \<and> pq_ok q' \<and> pq_list q' = swap (pq_list q) p c \<and>
    m_Indices q' = SI (pq_list q ! p) (int c) (SI (pq_list q ! c) (int p) (m_Indices q))"
proof -
  let ?xs = "pq_list q"
  obtain q1 where q1: "PQ_SetElement q (int p) (?xs ! c) = Some q1" "pq_ok q1"
      "pq_list q1 = ?xs[p := ?xs ! c]" "m_Indices q1 = m_Indices q"
    using PQ_SetElement_list [OF assms(1), of p] assms by auto
  obtain q2 where q2: "PQ_SetElement q1 (int c) (?xs ! p) = Some q2" "pq_ok q2"
      "pq_list q2 = swap ?xs p c" "m_Indices q2 = m_Indices q"
    using PQ_SetElement_list [OF q1(2), of c] q1 assms by auto
  have e: "PQ_Element q (int p) = Some (?xs ! p)" "PQ_Element q (int c) = Some (?xs ! c)"
    using PQ_Element_list [OF assms(1)] assms by auto
  have n: "notify SI (int p) (int p) q2 = Some (q2\<lparr>m_Indices := SI (?xs ! c) (int p) (m_Indices q)\<rparr>)"
    "notify SI (int c) (int c) (q2\<lparr>m_Indices := SI (?xs ! c) (int p) (m_Indices q)\<rparr>) =
     Some (q2\<lparr>m_Indices := SI (?xs ! p) (int c) (SI (?xs ! c) (int p) (m_Indices q))\<rparr>)"
    using notify_list [OF q2(2), of p] q2 assms
      notify_list [of "q2\<lparr>m_Indices := SI (?xs ! c) (int p) (m_Indices q)\<rparr>" c]
    by (auto simp: nth_list_update)
  show ?thesis using q1(1) q2 e n by (simp add: PQ_Swap_def)
qed

text \<open>The child the loop takes, on the list.\<close>

definition larger_child :: "('a \<Rightarrow> 'a \<Rightarrow> bool) \<Rightarrow> 'a list \<Rightarrow> nat \<Rightarrow> nat" where
  "larger_child lt xs j =
     (let l = (if lt (xs ! j) (xs ! (2 * j + 1)) then 2 * j + 1 else j) in
      if 2 * j + 2 < length xs \<and> lt (xs ! l) (xs ! (2 * j + 2)) then 2 * j + 2 else l)"

lemma PercolateDown_unfold:
  assumes "pq_ok q" "j < length (pq_list q)"
  shows "PercolateDown lt SI (int j) q =
    (if length (pq_list q) \<le> 2 * j + 1 then Some (int j, q)
     else if larger_child lt (pq_list q) j = j then Some (int j, q)
     else PQ_Swap SI (int j) (int (larger_child lt (pq_list q) j)) q \<bind>
       PercolateDown lt SI (int (larger_child lt (pq_list q) j)))"
proof (cases "length (pq_list q) \<le> 2 * j + 1")
  case True
  then show ?thesis using PQ_Count_list [OF assms(1)] by (subst PercolateDown.simps) simp
next
  case False
  let ?xs = "pq_list q"
  have c: "(int j + 1) * 2 - 1 = int (2 * j + 1)" "int (2 * j + 1) + 1 = int (2 * j + 2)" by auto
  have le: "\<not> PQ_Count q \<le> int (2 * j + 1)" "int (2 * j + 2) < PQ_Count q \<longleftrightarrow> 2 * j + 2 < length ?xs"
    using False PQ_Count_list [OF assms(1)] by auto
  note e = PQ_Element_list [OF assms(1)]
  let ?l = "if lt (?xs ! j) (?xs ! (2 * j + 1)) then 2 * j + 1 else j"
  have l: "?l < length ?xs" using False assms by auto
  have il: "(if lt (?xs ! j) (?xs ! (2 * j + 1)) then int (2 * j + 1) else int j) = int ?l" by simp
  have e1: "PQ_Element q (int j) = Some (?xs ! j)" "PQ_Element q (int (2 * j + 1)) = Some (?xs ! (2 * j + 1))"
    using e [of j] e [of "2 * j + 1"] False assms(2) by simp_all
  have L: "(if 2 * j + 2 < length ?xs then do {
             l \<leftarrow> PQ_Element q (int ?l);
             z \<leftarrow> PQ_Element q (int (2 * j + 2));
             Some (if lt l z then int (2 * j + 2) else int ?l)}
           else Some (int ?l)) = Some (int (larger_child lt ?xs j))"
    using e [of ?l] e [of "2 * j + 2"] l unfolding larger_child_def Let_def by simp
  show ?thesis using False
    by (subst PercolateDown.simps)
       (simp only: Let_def c le e1 L il bind.bind_lunit if_False of_nat_eq_iff)
qed

lemma larger_child_cases:
  assumes "swo lt" "2 * j + 1 < length xs"
  shows "larger_child lt xs j = j \<and>
      (\<forall>i. 0 < i \<longrightarrow> i < length xs \<longrightarrow> parent i = j \<longrightarrow> \<not> lt (xs ! j) (xs ! i)) \<or>
    j < larger_child lt xs j \<and> larger_child lt xs j < length xs \<and> parent (larger_child lt xs j) = j \<and>
      lt (xs ! j) (xs ! larger_child lt xs j) \<and>
      (\<forall>i. 0 < i \<longrightarrow> i < length xs \<longrightarrow> parent i = j \<longrightarrow> \<not> lt (xs ! larger_child lt xs j) (xs ! i))"
proof -
  let ?a = "xs ! j" and ?b = "xs ! (2 * j + 1)" and ?c = "xs ! (2 * j + 2)" and ?more = "2 * j + 2 < length xs"
  have ch: "(\<forall>i. 0 < i \<longrightarrow> i < length xs \<longrightarrow> parent i = j \<longrightarrow> P i) \<longleftrightarrow>
      P (2 * j + 1) \<and> (?more \<longrightarrow> P (2 * j + 2))" for P
    using assms(2) parent_iff [of "2 * j + 1" j] parent_iff [of "2 * j + 2" j] parent_iff by auto
  have p: "parent (2 * j + 1) = j" "parent (2 * j + 2) = j" by (auto simp: parent_def)
  consider (none) "\<not> lt ?a ?b" "\<not> (?more \<and> lt ?a ?c)" | (right) "\<not> lt ?a ?b" "?more" "lt ?a ?c"
    | (left) "lt ?a ?b" "\<not> (?more \<and> lt ?b ?c)" | (both) "lt ?a ?b" "?more" "lt ?b ?c" by blast
  then show ?thesis
  proof cases
    case none
    then have "larger_child lt xs j = j" by (auto simp: larger_child_def)
    then show ?thesis unfolding ch using none by simp
  next
    case right
    then have "larger_child lt xs j = 2 * j + 2" by (simp add: larger_child_def)
    moreover have "\<not> lt ?c ?b" using right swo_trans [OF assms(1), of ?a ?c ?b] by blast
    ultimately show ?thesis unfolding ch using right p swo_irrefl [OF assms(1)] by simp
  next
    case left
    then have "larger_child lt xs j = 2 * j + 1" by (simp add: larger_child_def)
    then show ?thesis unfolding ch using left p assms(2) swo_irrefl [OF assms(1)] by simp
  next
    case both
    then have "larger_child lt xs j = 2 * j + 2" by (simp add: larger_child_def)
    moreover have "lt ?a ?c" "\<not> lt ?c ?b"
      using both swo_trans [OF assms(1), of ?a ?b ?c] swo_asym [OF assms(1), of ?b ?c] by blast+
    ultimately show ?thesis unfolding ch using both p swo_irrefl [OF assms(1)] by simp
  qed
qed

text \<open>What the callback promises: the index of that element is set, and no other.\<close>

definition mirrors :: "('s \<Rightarrow> 'a \<Rightarrow> int) \<Rightarrow> ('a, 's) pqueue \<Rightarrow> bool" where
  "mirrors get q \<longleftrightarrow> (\<forall>i < length (pq_list q). get (m_Indices q) (pq_list q ! i) = int i)"

definition rearranged :: "('s \<Rightarrow> 'a \<Rightarrow> int) \<Rightarrow> ('a, 's) pqueue \<Rightarrow> ('a, 's) pqueue \<Rightarrow> bool" where
  "rearranged get q q' \<longleftrightarrow> pq_ok q' \<and> mset (pq_list q') = mset (pq_list q) \<and>
     (distinct (pq_list q) \<longrightarrow> mirrors get q \<longrightarrow> mirrors get q') \<and>
     (\<forall>e. e \<notin> set (pq_list q) \<longrightarrow> get (m_Indices q') e = get (m_Indices q) e)"

lemma rearranged_refl: "pq_ok q \<Longrightarrow> rearranged get q q"
  by (simp add: rearranged_def)

lemma rearranged_trans:
  assumes "rearranged get q1 q2" "rearranged get q2 q3"
  shows "rearranged get q1 q3"
proof -
  have "set (pq_list q2) = set (pq_list q1)" "distinct (pq_list q2) = distinct (pq_list q1)"
    using assms(1) mset_eq_setD mset_eq_imp_distinct_iff unfolding rearranged_def by blast+
  with assms show ?thesis by (simp add: rearranged_def)
qed

lemma rearranged_length: "rearranged get q q' \<Longrightarrow> length (pq_list q') = length (pq_list q)"
  using mset_eq_length unfolding rearranged_def by blast

locale heap_queue =
  fixes lt :: "'a \<Rightarrow> 'a \<Rightarrow> bool"
    and SI :: "('a, 's) set_index"
    and get :: "'s \<Rightarrow> 'a \<Rightarrow> int"
  assumes lt_swo: "swo lt"
    and get_SI: "get (SI e k s) = (get s)(e := k)"
begin

lemma swap_rearranged:
  assumes "pq_ok q" "p < c" "c < length (pq_list q)"
  shows "\<exists>q'. PQ_Swap SI (int p) (int c) q = Some q' \<and> rearranged get q q' \<and>
    pq_list q' = swap (pq_list q) p c"
proof -
  let ?xs = "pq_list q"
  from PQ_Swap_list [OF assms, of SI] obtain q' where
    q': "PQ_Swap SI (int p) (int c) q = Some q'" "pq_ok q'" "pq_list q' = swap ?xs p c"
      "m_Indices q' = SI (?xs ! p) (int c) (SI (?xs ! c) (int p) (m_Indices q))" by blast
  have g: "get (m_Indices q') = (get (m_Indices q))(?xs ! c := int p, ?xs ! p := int c)"
    by (simp add: q'(4) get_SI)
  have "mirrors get q'" if d: "distinct ?xs" and m: "mirrors get q"
  proof -
    have "get (m_Indices q') (swap ?xs p c ! i) = int i" if "i < length ?xs" for i
      using m that assms(2,3) nth_eq_iff_index_eq [OF d]
      by (auto simp: mirrors_def g nth_list_update)
    then show ?thesis by (simp add: mirrors_def q'(3))
  qed
  moreover have "mset (pq_list q') = mset ?xs" using assms by (simp add: q'(3) mset_swap)
  ultimately show ?thesis using q' assms g by (auto simp: rearranged_def)
qed

lemma PercolateDown_result:
  "pq_ok q \<Longrightarrow> j < length (pq_list q) \<Longrightarrow> heap_except lt (pq_list q) j \<Longrightarrow>
   \<exists>r q'. PercolateDown lt SI (int j) q = Some (int r, q') \<and> rearranged get q q' \<and>
     (r = j \<and> q' = q \<and> heap_up lt (pq_list q) j \<or> j < r \<and> heap lt (pq_list q')) \<and>
     (\<forall>k < j. pq_list q' ! k = pq_list q ! k)"
proof (induction "length (pq_list q) - j" arbitrary: j q rule: less_induct)
  case less
  let ?xs = "pq_list q" and ?L = "larger_child lt (pq_list q) j"
  note unf = PercolateDown_unfold [OF less.prems(1,2), of lt SI]
  have none: ?case if "PercolateDown lt SI (int j) q = Some (int j, q)"
    "\<forall>i. 0 < i \<longrightarrow> i < length ?xs \<longrightarrow> parent i = j \<longrightarrow> \<not> lt (?xs ! j) (?xs ! i)"
  proof -
    have "heap_up lt ?xs j" using less.prems(3) that(2) by (simp add: heap_up_def)
    with that(1) rearranged_refl [OF less.prems(1)] show ?thesis by blast
  qed
  show ?case
  proof (cases "length ?xs \<le> 2 * j + 1")
    case True
    then show ?thesis using unf by (intro none) (auto simp: parent_iff)
  next
    case False
    then have "2 * j + 1 < length ?xs" by simp
    from larger_child_cases [OF lt_swo this] show ?thesis
    proof (elim disjE conjE)
      assume "?L = j"
        "\<forall>i. 0 < i \<longrightarrow> i < length ?xs \<longrightarrow> parent i = j \<longrightarrow> \<not> lt (?xs ! j) (?xs ! i)"
      then show ?thesis using unf by (intro none) auto
    next
      assume L: "j < ?L" "?L < length ?xs" "parent ?L = j" "lt (?xs ! j) (?xs ! ?L)"
        "\<forall>i. 0 < i \<longrightarrow> i < length ?xs \<longrightarrow> parent i = j \<longrightarrow> \<not> lt (?xs ! ?L) (?xs ! i)"
      have "0 < ?L" using L(1) by simp
      from down_step [OF lt_swo less.prems(3) this L(2-4)] L(5)
      have st: "heap_except lt (swap ?xs j ?L) ?L" "\<not> lt (swap ?xs j ?L ! j) (swap ?xs j ?L ! ?L)"
        by blast+
      from swap_rearranged [OF less.prems(1) L(1,2)] obtain w where
        w: "PQ_Swap SI (int j) (int ?L) q = Some w" "rearranged get q w" "pq_list w = swap ?xs j ?L"
        by blast
      have wo: "pq_ok w" "length (pq_list w) = length ?xs" using w(2,3) by (auto simp: rearranged_def)
      have "length (pq_list w) - ?L < length ?xs - j" using wo(2) L(1,2) by linarith
      from less.hyps [OF this wo(1)] wo(2) w(3) L(2) st(1) obtain r q' where
        r: "PercolateDown lt SI (int ?L) w = Some (int r, q')" "rearranged get w q'"
          "r = ?L \<and> q' = w \<and> heap_up lt (pq_list w) ?L \<or> ?L < r \<and> heap lt (pq_list q')"
          "\<forall>k < ?L. pq_list q' ! k = pq_list w ! k" by auto
      have "heap lt (pq_list q')"
        using r(3) heap_if_up [of lt "pq_list w" ?L] st(2) L(3) w(3) by auto
      moreover have "PercolateDown lt SI (int j) q = Some (int r, q')"
        using unf False L(1) w(1) r(1) by simp
      moreover have "\<forall>k < j. pq_list q' ! k = ?xs ! k" using r(4) L(1) w(3) by simp
      moreover have "j < r" using r(3) L(1) by auto
      ultimately show ?thesis using rearranged_trans [OF w(2) r(2)] by blast
    qed
  qed
qed

lemma PercolateUp_result:
  "pq_ok q \<Longrightarrow> j < length (pq_list q) \<Longrightarrow> heap_up lt (pq_list q) j \<Longrightarrow>
   \<exists>r q'. PercolateUp lt SI (int j) q = Some (int r, q') \<and> rearranged get q q' \<and> heap lt (pq_list q')"
proof (induction j arbitrary: q rule: less_induct)
  case (less j)
  let ?xs = "pq_list q"
  show ?case
  proof (cases "0 < j \<and> lt (?xs ! parent j) (?xs ! j)")
    case False
    have "PercolateUp lt SI (int j) q = Some (int j, q)"
    proof (cases "0 < j")
      case True
      note int_parent [OF True]
      with True False less.prems(2) parent_less [OF True] PQ_Element_list [OF less.prems(1)]
      show ?thesis by (subst PercolateUp.simps) (simp add: Let_def)
    qed (subst PercolateUp.simps, simp)
    with less.prems rearranged_refl heap_if_up [of lt ?xs j] False show ?thesis by blast
  next
    case True
    let ?p = "parent j"
    have pj: "?p < j" using parent_less True by blast
    have p: "(int j + 1) div 2 - 1 = int ?p" using int_parent True by blast
    from swap_rearranged [OF less.prems(1) pj less.prems(2)] obtain w where
      w: "PQ_Swap SI (int ?p) (int j) q = Some w" "rearranged get q w" "pq_list w = swap ?xs ?p j" by blast
    have "PercolateUp lt SI (int j) q = PercolateUp lt SI (int ?p) w"
      using True less.prems(2) pj PQ_Element_list [OF less.prems(1)] w(1)
      by (subst PercolateUp.simps) (simp add: Let_def p)
    moreover have "heap_up lt (pq_list w) ?p"
      unfolding w(3) using True less.prems by (intro up_step [OF lt_swo]) auto
    moreover have "pq_ok w" "?p < length (pq_list w)" using w(2,3) pj less.prems(2) by (auto simp: rearranged_def)
    ultimately show ?thesis using less.IH [OF pj, of w] rearranged_trans [OF w(2)] by metis
  qed
qed

lemma RevaluateElement_result:
  assumes "pq_ok q" "j < length (pq_list q)" "heap_except lt (pq_list q) j"
  shows "\<exists>q'. RevaluateElement lt SI (int j) q = Some q' \<and> rearranged get q q' \<and> heap lt (pq_list q')"
proof -
  from PercolateDown_result [OF assms] obtain r w where
    r: "PercolateDown lt SI (int j) q = Some (int r, w)" "rearranged get q w"
      "r = j \<and> w = q \<and> heap_up lt (pq_list q) j \<or> j < r \<and> heap lt (pq_list w)" by blast
  have c: "\<not> (int j < 0 \<or> PQ_Count q \<le> int j)" using PQ_Count_list [OF assms(1)] assms(2) by simp
  from r(3) show ?thesis
  proof (elim disjE conjE)
    assume "r = j" "w = q" "heap_up lt (pq_list q) j"
    with PercolateUp_result [OF assms(1,2)] r(1) c show ?thesis by (auto simp: RevaluateElement_def)
  next
    assume "j < r" "heap lt (pq_list w)"
    with r(1,2) c show ?thesis by (auto simp: RevaluateElement_def)
  qed
qed

lemma remove_hole:
  assumes "heap lt xs" "j < length xs - 1" "ys = butlast (xs[j := last xs])"
  shows "heap_except lt ys j"
proof -
  have ys: "length ys = length xs - 1" "\<And>i. i < length xs - 1 \<Longrightarrow> i \<noteq> j \<Longrightarrow> ys ! i = xs ! i"
    using assms(2,3) by (auto simp: nth_butlast)
  note h = assms(1) [unfolded heap_def, rule_format]
  have "\<not> lt (ys ! parent i) (ys ! i)" if "0 < i" "i < length ys" "i \<noteq> j" "parent i \<noteq> j" for i
    using h [of i] that ys parent_less [OF that(1)] by simp
  moreover have "\<not> lt (ys ! parent j) (ys ! i)" if "0 < i" "i < length ys" "parent i = j" "0 < j" for i
  proof -
    have "\<not> lt (xs ! parent j) (xs ! j)" "\<not> lt (xs ! j) (xs ! i)"
      using h [of j] h [of i] that ys(1) assms(2) by auto
    then have "\<not> lt (xs ! parent j) (xs ! i)" by (rule swo_ntrans [OF lt_swo])
    moreover have "i \<noteq> j" using parent_less [OF that(1)] that(3) by auto
    ultimately show ?thesis using ys that parent_less [OF that(4)] assms(2) by simp
  qed
  ultimately show ?thesis by (simp add: heap_except_def)
qed

lemma heap_butlast: "heap lt xs \<Longrightarrow> heap lt (butlast xs)"
proof -
  assume h: "heap lt xs"
  have "\<not> lt (butlast xs ! parent i) (butlast xs ! i)" if i: "0 < i" "i < length (butlast xs)" for i
  proof -
    have "parent i < length (butlast xs)" using parent_less [OF i(1)] i(2) by simp
    then show ?thesis using h i by (simp add: heap_def nth_butlast)
  qed
  then show ?thesis by (simp add: heap_def)
qed

lemma Insert_result:
  assumes "pq_ok q" "heap lt (pq_list q)"
  shows "\<exists>q'. PQ_Insert raw ctor lt SI x q = Some q' \<and> pq_ok q' \<and> heap lt (pq_list q') \<and>
    mset (pq_list q') = add_mset x (mset (pq_list q)) \<and>
    (distinct (x # pq_list q) \<longrightarrow> mirrors get q \<longrightarrow> mirrors get q')"
proof -
  let ?xs = "pq_list q"
  let ?n = "length (pq_list q)"
  have v: "vec_ok (m_heap q)" "m_Size (m_heap q) = int ?n"
    using assms(1) PQ_Count_list [OF assms(1)] by (auto simp: pq_ok_def PQ_Count_def Vector_Count_def)
  from AddToTail_result [OF v(1), of raw ctor] obtain w where
    w: "AddToTail_default raw ctor (m_heap q) = Some (int ?n, w)" "vec_ok w" "elems w = ?xs @ [ctor]"
    by (auto simp: v(2) pq_list_def AddToTail_def AddToTail_default_def InsertBefore_def InsertBefore_default_def)
  let ?q1 = "q\<lparr>m_heap := w\<rparr>"
  have q1: "pq_ok ?q1" "pq_list ?q1 = ?xs @ [ctor]" using w by (auto simp: pq_ok_def pq_list_def)
  then have "?n < length (pq_list ?q1)" by simp
  from PQ_SetElement_list [OF q1(1) this, of x] q1(2) obtain q2 where
    q2: "PQ_SetElement ?q1 (int ?n) x = Some q2" "pq_ok q2" "pq_list q2 = ?xs @ [x]"
      "m_Indices q2 = m_Indices q" by auto
  let ?q3 = "q2\<lparr>m_Indices := SI x (int ?n) (m_Indices q)\<rparr>"
  have q3: "notify SI (int ?n) (int ?n) q2 = Some ?q3"
    using notify_list [OF q2(2), of ?n] q2 by simp
  have "heap_up lt (?xs @ [x]) ?n"
  proof -
    have p: "parent i < ?n" "parent i \<noteq> ?n" if "0 < i" "i < Suc ?n" for i
      using parent_less [OF that(1)] that by auto
    then show ?thesis using assms(2) p
      by (auto simp: heap_up_def heap_except_def heap_def nth_append less_Suc_eq)
  qed
  then have "heap_up lt (pq_list ?q3) ?n" by (simp add: q2(3))
  moreover have "pq_ok ?q3" "?n < length (pq_list ?q3)" using q2 by auto
  ultimately obtain r q' where
    q': "PercolateUp lt SI (int ?n) ?q3 = Some (r, q')" "rearranged get ?q3 q'" "heap lt (pq_list q')"
    using PercolateUp_result [of ?q3 ?n] by blast
  have "mirrors get ?q3" if "distinct (x # ?xs)" "mirrors get q"
    using that q2 by (auto simp: mirrors_def get_SI nth_append less_Suc_eq)
  with q' q2(3) have "distinct (x # ?xs) \<longrightarrow> mirrors get q \<longrightarrow> mirrors get q'"
    by (simp add: rearranged_def)
  then show ?thesis using q' q2 q3 w(1) by (auto simp: PQ_Insert_def rearranged_def)
qed

text \<open>What the two removals share: the element leaves, the last one fills its place.\<close>

lemma remove_result:
  assumes "pq_ok q" "j < length (pq_list q)" "heap lt (pq_list q)"
  shows "\<exists>q1 v q2. notify SI (int j) Vector_InvalidIndex q = Some q1 \<and>
    FastRemove (int j) (m_heap q1) = Some v \<and> q2 = q1\<lparr>m_heap := v\<rparr> \<and> pq_ok q2 \<and>
    PQ_Count q2 = int (length (pq_list q)) - 1 \<and>
    pq_list q2 = butlast ((pq_list q)[j := last (pq_list q)]) \<and>
    mset (pq_list q2) = mset (pq_list q) - {#pq_list q ! j#} \<and>
    get (m_Indices q2) = (get (m_Indices q))(pq_list q ! j := -1)"
proof -
  let ?q1 = "q\<lparr>m_Indices := SI (pq_list q ! j) (-1) (m_Indices q)\<rparr>"
  have n: "notify SI (int j) Vector_InvalidIndex q = Some ?q1"
    using notify_list [OF assms(1,2)] by (simp add: Vector_InvalidIndex_def)
  have v: "vec_ok (m_heap q)" "int j < m_Size (m_heap q)"
    using assms(1,2) PQ_Count_list [OF assms(1)] by (auto simp: pq_ok_def PQ_Count_def Vector_Count_def)
  from FastRemove_result [OF vec_okD [OF v(1)] _ v(2)] obtain w where
    w: "FastRemove (int j) (m_heap q) = Some w" "vec_ok w"
      "elems w = butlast ((elems (m_heap q))[j := last (elems (m_heap q))])"
    using v(1) by (auto simp: vec_ok_def)
  let ?q2 = "?q1\<lparr>m_heap := w\<rparr>"
  have q2: "pq_ok ?q2" "pq_list ?q2 = butlast ((pq_list q)[j := last (pq_list q)])"
    using w by (auto simp: pq_ok_def pq_list_def)
  have "mset (pq_list ?q2) = mset (pq_list q) - {#pq_list q ! j#}"
    unfolding q2(2) by (rule mset_butlast_last [OF assms(2)])
  moreover have "PQ_Count ?q2 = int (length (pq_list q)) - 1"
    using PQ_Count_list [OF q2(1)] q2(2) assms(2) by (simp add: of_nat_diff)
  ultimately show ?thesis using n w(1) q2 by (auto simp: get_SI)
qed

text \<open>
  The outcome of a removal: the element is told that it is out of the queue, the others are still
  told where they stand.
\<close>

lemma removed_result:
  assumes q2: "pq_ok q2" "pq_list q2 = butlast ((pq_list q)[j := last (pq_list q)])"
      "get (m_Indices q2) = (get (m_Indices q))(pq_list q ! j := -1)"
      "mset (pq_list q2) = mset (pq_list q) - {#pq_list q ! j#}"
    and j: "j < length (pq_list q)"
    and n: "j < length (pq_list q2) \<Longrightarrow>
      rearranged get (q2\<lparr>m_Indices := SI (pq_list q2 ! j) (int j) (m_Indices q2)\<rparr>) q'"
      "\<not> j < length (pq_list q2) \<Longrightarrow> q' = q2"
    and d: "distinct (pq_list q)" and m: "mirrors get q"
  shows "mirrors get q' \<and> get (m_Indices q') (pq_list q ! j) = -1"
proof -
  let ?xs = "pq_list q" and ?ys = "pq_list q2"
  have ys: "length ?ys = length ?xs - 1" "\<And>i. i < length ?ys \<Longrightarrow> i \<noteq> j \<Longrightarrow> ?ys ! i = ?xs ! i"
    unfolding q2(2) by (auto simp: nth_butlast)
  have "mset (?xs ! j # ?ys) = mset ?xs" using q2(4) j by simp
  then have "distinct (?xs ! j # ?ys)" using d mset_eq_imp_distinct_iff by blast
  then have x: "?xs ! j \<notin> set ?ys" and dy: "distinct ?ys" by simp_all
  have old: "get (m_Indices q2) (?ys ! i) = int i" if "i < length ?ys" "i \<noteq> j" for i
    using m that ys nth_eq_iff_index_eq [OF d] j by (auto simp: mirrors_def q2(3))
  show ?thesis
  proof (cases "j < length ?ys")
    case False
    then show ?thesis using n(2) old ys(1) j by (auto simp: mirrors_def q2(3))
  next
    case True
    let ?q3 = "q2\<lparr>m_Indices := SI (?ys ! j) (int j) (m_Indices q2)\<rparr>"
    have "mirrors get ?q3"
      using old True nth_eq_iff_index_eq [OF dy] by (auto simp: mirrors_def get_SI)
    moreover have "get (m_Indices ?q3) (?xs ! j) = -1"
      using x True nth_mem by (auto simp: get_SI q2(3))
    ultimately show ?thesis using n(1) [OF True] dy x by (simp add: rearranged_def)
  qed
qed

lemma RemoveAt_result:
  assumes "pq_ok q" "j < length (pq_list q)" "heap lt (pq_list q)"
  shows "\<exists>q'. PQ_RemoveAt lt SI (int j) q = Some q' \<and> pq_ok q' \<and> heap lt (pq_list q') \<and>
    mset (pq_list q') = mset (pq_list q) - {#pq_list q ! j#} \<and>
    (distinct (pq_list q) \<longrightarrow> mirrors get q \<longrightarrow>
       mirrors get q' \<and> get (m_Indices q') (pq_list q ! j) = -1)"
proof -
  from remove_result [OF assms] obtain q1 v q2 where
    r: "notify SI (int j) Vector_InvalidIndex q = Some q1" "FastRemove (int j) (m_heap q1) = Some v"
      "q2 = q1\<lparr>m_heap := v\<rparr>" "pq_ok q2" "PQ_Count q2 = int (length (pq_list q)) - 1"
      "pq_list q2 = butlast ((pq_list q)[j := last (pq_list q)])"
      "mset (pq_list q2) = mset (pq_list q) - {#pq_list q ! j#}"
      "get (m_Indices q2) = (get (m_Indices q))(pq_list q ! j := -1)" by blast
  have len: "length (pq_list q2) = length (pq_list q) - 1" by (simp add: r(6))
  note cnt = PQ_Count_list [OF r(4)]
  note out = removed_result [OF r(4,6,8,7) assms(2)]
  show ?thesis
  proof (cases "j < length (pq_list q2)")
    case False
    then have "j = length (pq_list q) - 1" using assms(2) len by simp
    then have "heap lt (pq_list q2)" using heap_butlast [OF assms(3)] by (simp add: r(6) butlast_list_update)
    moreover have "PQ_RemoveAt lt SI (int j) q = Some q2"
      using r(1-4) False cnt by (simp add: PQ_RemoveAt_def Let_def)
    ultimately show ?thesis using r(4,7) out [of q2] False by blast
  next
    case True
    let ?q3 = "q2\<lparr>m_Indices := SI (pq_list q2 ! j) (int j) (m_Indices q2)\<rparr>"
    have "heap_except lt (pq_list ?q3) j" "pq_ok ?q3" "j < length (pq_list ?q3)"
      using remove_hole [OF assms(3) _ r(6)] True len r(4) by auto
    from RevaluateElement_result [OF this(2,3,1)] obtain q' where
      q': "RevaluateElement lt SI (int j) ?q3 = Some q'" "rearranged get ?q3 q'" "heap lt (pq_list q')" by blast
    moreover have "PQ_RemoveAt lt SI (int j) q = Some q'"
      using r(1-4) True cnt q'(1) notify_list [OF r(4) True] by (simp add: PQ_RemoveAt_def Let_def)
    ultimately show ?thesis using out [of q'] True r(7) by (auto simp: rearranged_def)
  qed
qed

lemma RemoveAtHead_result:
  assumes "pq_ok q" "pq_list q \<noteq> []" "heap lt (pq_list q)"
  shows "\<exists>q'. PQ_RemoveAtHead lt SI q = Some q' \<and> pq_ok q' \<and> heap lt (pq_list q') \<and>
    mset (pq_list q') = mset (pq_list q) - {#pq_list q ! 0#} \<and>
    (distinct (pq_list q) \<longrightarrow> mirrors get q \<longrightarrow>
       mirrors get q' \<and> get (m_Indices q') (pq_list q ! 0) = -1)"
proof -
  have z: "0 < length (pq_list q)" using assms(2) by simp
  from remove_result [OF assms(1) z assms(3)] obtain q1 v q2 where
    r: "notify SI 0 Vector_InvalidIndex q = Some q1" "FastRemove 0 (m_heap q1) = Some v"
      "q2 = q1\<lparr>m_heap := v\<rparr>" "pq_ok q2" "PQ_Count q2 = int (length (pq_list q)) - 1"
      "pq_list q2 = butlast ((pq_list q)[0 := last (pq_list q)])"
      "mset (pq_list q2) = mset (pq_list q) - {#pq_list q ! 0#}"
      "get (m_Indices q2) = (get (m_Indices q))(pq_list q ! 0 := -1)" by auto
  have len: "length (pq_list q2) = length (pq_list q) - 1" by (simp add: r(6))
  note cnt = PQ_Count_list [OF r(4)]
  note out = removed_result [OF r(4,6,8,7) z]
  show ?thesis
  proof (cases "0 < length (pq_list q2)")
    case False
    then have "PQ_RemoveAtHead lt SI q = Some q2" "heap lt (pq_list q2)"
      using r(1-4) cnt False by (auto simp: PQ_RemoveAtHead_def Let_def heap_def)
    then show ?thesis using r(4,7) out [of q2] False by blast
  next
    case True
    let ?q3 = "q2\<lparr>m_Indices := SI (pq_list q2 ! 0) 0 (m_Indices q2)\<rparr>"
    have "heap_except lt (pq_list ?q3) 0" "pq_ok ?q3" "0 < length (pq_list ?q3)"
      using remove_hole [OF assms(3) _ r(6)] True len r(4) by auto
    from PercolateDown_result [OF this(2,3,1)] obtain k q' where
      q': "PercolateDown lt SI 0 ?q3 = Some (int k, q')" "rearranged get ?q3 q'"
        "k = 0 \<and> q' = ?q3 \<and> heap_up lt (pq_list ?q3) 0 \<or> 0 < k \<and> heap lt (pq_list q')" by auto
    have "heap lt (pq_list q')" using q'(3) heap_if_up [of lt "pq_list ?q3" 0] by auto
    moreover have "PQ_RemoveAtHead lt SI q = Some q'"
      using r(1-4) True cnt q'(1) notify_list [OF r(4) True, of SI 0] by (simp add: PQ_RemoveAtHead_def Let_def)
    ultimately show ?thesis using out [of q'] True r(7) q'(2) by (auto simp: rearranged_def)
  qed
qed

end

subsection \<open>The contract of a priority queue\<close>

text \<open>Taking \<open>n\<close> elements off the head, one after the other.\<close>

fun drain :: "('q \<Rightarrow> 'a option) \<Rightarrow> ('q \<Rightarrow> 'q option) \<Rightarrow> nat \<Rightarrow> 'q \<Rightarrow> 'a list option" where
  "drain head remove 0 q = Some []"
| "drain head remove (Suc n) q =
     do {x \<leftarrow> head q; q \<leftarrow> remove q; xs \<leftarrow> drain head remove n q; Some (x # xs)}"

locale priority_queue =
  fixes less_prio :: "'a \<Rightarrow> 'a \<Rightarrow> bool"
    and inv :: "'q \<Rightarrow> bool"
    and items :: "'q \<Rightarrow> 'a multiset"
    and head_of :: "'q \<Rightarrow> 'a option"
    and insert_op :: "'a \<Rightarrow> 'q \<Rightarrow> 'q option"
    and remove_head :: "'q \<Rightarrow> 'q option"
  assumes head_greatest: "inv q \<Longrightarrow> items q \<noteq> {#} \<Longrightarrow>
      \<exists>x. head_of q = Some x \<and> x \<in># items q \<and> (\<forall>y \<in># items q. \<not> less_prio x y)"
    and insert_items: "inv q \<Longrightarrow> \<exists>q'. insert_op x q = Some q' \<and> inv q' \<and> items q' = add_mset x (items q)"
    and remove_items: "inv q \<Longrightarrow> head_of q = Some x \<Longrightarrow> items q \<noteq> {#} \<Longrightarrow>
      \<exists>q'. remove_head q = Some q' \<and> inv q' \<and> items q' = items q - {#x#}"
begin

lemma drain_in_order:
  "inv q \<Longrightarrow> n = size (items q) \<Longrightarrow>
   \<exists>xs. drain head_of remove_head n q = Some xs \<and> mset xs = items q \<and>
     sorted_wrt (\<lambda>a b. \<not> less_prio a b) xs"
proof (induction n arbitrary: q)
  case 0
  then show ?case by simp
next
  case (Suc n)
  then have ne: "items q \<noteq> {#}" by auto
  from head_greatest [OF Suc.prems(1) ne] obtain x where
    x: "head_of q = Some x" "x \<in># items q" "\<forall>y \<in># items q. \<not> less_prio x y" by blast
  from remove_items [OF Suc.prems(1) x(1) ne] obtain q' where
    q': "remove_head q = Some q'" "inv q'" "items q' = items q - {#x#}" by blast
  have "n = size (items q')" using Suc.prems(2) x(2) by (simp add: q'(3) size_Diff_singleton)
  from Suc.IH [OF q'(2) this] obtain xs where
    xs: "drain head_of remove_head n q' = Some xs" "mset xs = items q'"
      "sorted_wrt (\<lambda>a b. \<not> less_prio a b) xs" by blast
  have "\<not> less_prio x y" if "y \<in> set xs" for y
  proof -
    have "y \<in># items q'" using that xs(2) by (metis set_mset_mset)
    then have "y \<in># items q" unfolding q'(3) by (rule in_diffD)
    then show ?thesis using x(3) by blast
  qed
  then show ?case using x q' xs by (auto simp: q'(3))
qed

end

text \<open>The heap provides it, for any order and any callback that keeps its promise.\<close>

definition pq_inv :: "('a \<Rightarrow> 'a \<Rightarrow> bool) \<Rightarrow> ('a, 's) pqueue \<Rightarrow> bool" where
  "pq_inv lt q \<longleftrightarrow> pq_ok q \<and> heap lt (pq_list q)"

lemma head_result:
  assumes "swo lt" "pq_inv lt q" "pq_list q \<noteq> []"
  shows "PQ_ElementAtHead q = Some (pq_list q ! 0) \<and> (\<forall>y \<in> set (pq_list q). \<not> lt (pq_list q ! 0) y)"
  using PQ_Element_list [of q 0] heap_head [OF assms(1), of "pq_list q"] assms
  by (auto simp: PQ_ElementAtHead_def pq_inv_def in_set_conv_nth)

sublocale heap_queue < contract: priority_queue lt "pq_inv lt" "\<lambda>q. mset (pq_list q)" PQ_ElementAtHead
  "\<lambda>x. PQ_Insert (\<lambda>i. x) x lt SI x" "PQ_RemoveAtHead lt SI"
proof
  fix q :: "('a, 's) pqueue" and x :: 'a
  show "\<exists>q'. PQ_Insert (\<lambda>i. x) x lt SI x q = Some q' \<and> pq_inv lt q' \<and>
      mset (pq_list q') = add_mset x (mset (pq_list q))" if "pq_inv lt q"
    using that Insert_result [of q "\<lambda>i. x" x x] by (auto simp: pq_inv_def)
  show "\<exists>q'. PQ_RemoveAtHead lt SI q = Some q' \<and> pq_inv lt q' \<and>
      mset (pq_list q') = mset (pq_list q) - {#x#}"
    if "pq_inv lt q" "PQ_ElementAtHead q = Some x" "mset (pq_list q) \<noteq> {#}"
    using that RemoveAtHead_result [of q] head_result [OF lt_swo that(1)] by (auto simp: pq_inv_def)
qed (use head_result [OF lt_swo] nth_mem in fastforce)

context heap_queue
begin

lemma drain_result:
  "pq_inv lt q \<Longrightarrow> \<exists>xs. drain PQ_ElementAtHead (PQ_RemoveAtHead lt SI) (length (pq_list q)) q = Some xs \<and>
     mset xs = mset (pq_list q) \<and> sorted_wrt (\<lambda>a b. \<not> lt a b) xs"
  by (rule contract.drain_in_order) simp_all

end

text \<open>
  The instance of the program: the order of a key, and a callback that writes the index into the
  element, that is, updates a function from elements to indices.
\<close>

definition store_index :: "('a, 'a \<Rightarrow> int) set_index" where
  "store_index x i s = s(x := i)"

interpretation key_queue: heap_queue "\<lambda>a b. key a < (key b :: 'k :: linorder)" store_index "\<lambda>s. s" for key
  by unfold_locales (simp_all add: swo_key store_index_def)

lemma heap_queue_store: "swo lt \<Longrightarrow> heap_queue lt store_index (\<lambda>s. s)"
  by unfold_locales (simp_all add: store_index_def)

subsection \<open>Properties\<close>

lemma changed_priority:
  assumes "swo lt" "heap lt xs" "distinct xs" "j < length xs"
    "\<forall>a b. a \<noteq> xs ! j \<longrightarrow> b \<noteq> xs ! j \<longrightarrow> lt' a b = lt a b"
  shows "heap_except lt' xs j"
proof -
  have other: "xs ! i \<noteq> xs ! j" if "i < length xs" "i \<noteq> j" for i
    using nth_eq_iff_index_eq [OF assms(3) that(1) assms(4)] that(2) by simp
  have same: "lt' (xs ! i) (xs ! k) = lt (xs ! i) (xs ! k)"
    if "i < length xs" "k < length xs" "i \<noteq> j" "k \<noteq> j" for i k
    using assms(5) other [OF that(1,3)] other [OF that(2,4)] by blast
  have "heap_up lt xs j" by (rule heap_imp_up [OF assms(1,2,4)])
  then have h: "heap_except lt xs j" by (simp add: heap_up_def)
  have "lt' (xs ! parent i) (xs ! i) = lt (xs ! parent i) (xs ! i)"
    if "0 < i" "i < length xs" "i \<noteq> j" "parent i \<noteq> j" for i
    using same [of "parent i" i] parent_less [OF that(1)] that by simp
  moreover have "lt' (xs ! parent j) (xs ! i) = lt (xs ! parent j) (xs ! i)"
    if "0 < i" "i < length xs" "parent i = j" "0 < j" for i
    using same [of "parent j" i] parent_less [OF that(1)] parent_less [OF that(4)] that by simp
  ultimately show ?thesis using h by (simp add: heap_except_def)
qed

text \<open>A queue of three elements for the witnesses.\<close>

definition sample_queue :: "(int, int \<Rightarrow> int) pqueue" where
  "sample_queue =
     \<lparr>m_heap = (Vector_new (\<lambda>i. 9 - int i) 4 0 3)\<lparr>m_Size := 3\<rparr>, m_Indices = (\<lambda>x. 9 - x)\<rparr>"

lemma sample_queue_list: "pq_list sample_queue = [9, 8, 7]"
  by (simp add: pq_list_def sample_queue_def elems_def Vector_Base_def Vector_new_def Memory_new_def
    PvAlloc_def upt_conv_Cons)

lemma sample_queue_ok: "pq_inv (<) sample_queue" "mirrors (\<lambda>s. s) sample_queue"
    "distinct (pq_list sample_queue)" "pq_list sample_queue \<noteq> []"
proof -
  have "pq_ok sample_queue"
    by (simp add: pq_ok_def sample_queue_def vec_ok_def vec_inv_def mem_inv_def Vector_new_def
      Memory_new_def Memory_IsExternallyAllocated_def)
  moreover have "heap (<) [9, 8, 7 :: int]"
    by (auto simp: heap_def parent_def less_Suc_eq numeral_3_eq_3 nth_Cons')
  ultimately show "pq_inv (<) sample_queue" by (simp add: pq_inv_def sample_queue_list)
  show "mirrors (\<lambda>s. s) sample_queue"
    unfolding mirrors_def sample_queue_list
    by (auto simp: sample_queue_def less_Suc_eq numeral_3_eq_3 nth_Cons')
qed (simp_all add: sample_queue_list)

text \<open>
  C36: \<open>Insert\<close> adds exactly the new element, keeps the heap order, and every element is told the
  position it stands at; nothing is accessed outside the cells and the percolation ends.
\<close>

theorem PQ_Insert_correct:
  assumes "swo lt" "pq_inv lt q"
  shows "\<exists>q'. PQ_Insert raw ctor lt store_index x q = Some q' \<and> pq_inv lt q' \<and>
    mset (pq_list q') = add_mset x (mset (pq_list q)) \<and>
    (x \<notin> set (pq_list q) \<and> distinct (pq_list q) \<and> mirrors (\<lambda>s. s) q \<longrightarrow> mirrors (\<lambda>s. s) q')"
  using heap_queue.Insert_result [OF heap_queue_store [OF assms(1)], of q raw ctor x] assms(2)
  by (auto simp: pq_inv_def)

theorem PQ_Insert_correct_witness:
  "\<exists>q'. PQ_Insert (\<lambda>i. 0) 0 (<) store_index 12 sample_queue = Some q' \<and> pq_inv (<) q' \<and>
    mset (pq_list q') = add_mset 12 (mset (pq_list sample_queue)) \<and>
    (12 \<notin> set (pq_list sample_queue) \<and> distinct (pq_list sample_queue) \<and> mirrors (\<lambda>s. s) sample_queue \<longrightarrow>
       mirrors (\<lambda>s. s) q')"
  by (rule PQ_Insert_correct) (simp_all add: sample_queue_ok swo_key [of "\<lambda>x. x", simplified])

text \<open>
  \<open>RemoveAt\<close> takes exactly the element at the index out, and \<open>RemoveAtHead\<close> the one at the head,
  which no element exceeds; the heap order and the told positions stay right and the removed
  element is told \<open>-1\<close>.
\<close>

theorem PQ_Remove_correct:
  assumes "swo lt" "pq_inv lt q" "j < length (pq_list q)" "distinct (pq_list q)" "mirrors (\<lambda>s. s) q"
  shows "\<exists>q' h. PQ_RemoveAt lt store_index (int j) q = Some q' \<and> pq_inv lt q' \<and>
      mset (pq_list q') = mset (pq_list q) - {#pq_list q ! j#} \<and>
      mirrors (\<lambda>s. s) q' \<and> m_Indices q' (pq_list q ! j) = -1 \<and>
    PQ_RemoveAtHead lt store_index q = Some h \<and> pq_inv lt h \<and>
      mset (pq_list h) = mset (pq_list q) - {#pq_list q ! 0#} \<and>
      mirrors (\<lambda>s. s) h \<and> m_Indices h (pq_list q ! 0) = -1 \<and>
      (\<forall>y \<in> set (pq_list q). \<not> lt (pq_list q ! 0) y)"
proof -
  note hq = heap_queue_store [OF assms(1)]
  have q: "pq_ok q" "heap lt (pq_list q)" "pq_list q \<noteq> []" using assms(2,3) by (auto simp: pq_inv_def)
  show ?thesis
    using heap_queue.RemoveAt_result [OF hq q(1) assms(3) q(2)]
      heap_queue.RemoveAtHead_result [OF hq q(1,3,2)] head_result [OF assms(1,2) q(3)] assms(4,5)
    by (auto simp: pq_inv_def)
qed

theorem PQ_Remove_correct_witness:
  "\<exists>q' h. PQ_RemoveAt (<) store_index (int 1) sample_queue = Some q' \<and> pq_inv (<) q' \<and>
      mset (pq_list q') = mset (pq_list sample_queue) - {#pq_list sample_queue ! 1#} \<and>
      mirrors (\<lambda>s. s) q' \<and> m_Indices q' (pq_list sample_queue ! 1) = -1 \<and>
    PQ_RemoveAtHead (<) store_index sample_queue = Some h \<and> pq_inv (<) h \<and>
      mset (pq_list h) = mset (pq_list sample_queue) - {#pq_list sample_queue ! 0#} \<and>
      mirrors (\<lambda>s. s) h \<and> m_Indices h (pq_list sample_queue ! 0) = -1 \<and>
      (\<forall>y \<in> set (pq_list sample_queue). \<not> pq_list sample_queue ! 0 < y)"
  by (rule PQ_Remove_correct)
     (simp_all add: sample_queue_ok swo_key [of "\<lambda>x. x", simplified], simp add: sample_queue_list)

text \<open>
  \<open>RevaluateElement\<close> repairs the queue after the priority of one element has changed: if the
  queue was a heap for the old order and the new order differs only in how that element compares,
  the queue is a heap for the new order afterwards, with the same elements.
\<close>

theorem RevaluateElement_correct:
  assumes "swo lt" "swo lt'" "pq_inv lt q" "distinct (pq_list q)" "j < length (pq_list q)"
    "\<forall>a b. a \<noteq> pq_list q ! j \<longrightarrow> b \<noteq> pq_list q ! j \<longrightarrow> lt' a b = lt a b"
  shows "\<exists>q'. RevaluateElement lt' store_index (int j) q = Some q' \<and> pq_inv lt' q' \<and>
    mset (pq_list q') = mset (pq_list q) \<and> (mirrors (\<lambda>s. s) q \<longrightarrow> mirrors (\<lambda>s. s) q')"
proof -
  have q: "pq_ok q" "heap lt (pq_list q)" using assms(3) by (auto simp: pq_inv_def)
  have "heap_except lt' (pq_list q) j" by (rule changed_priority [OF assms(1) q(2) assms(4-6)])
  from heap_queue.RevaluateElement_result [OF heap_queue_store [OF assms(2)] q(1) assms(5) this]
  show ?thesis using assms(4) by (auto simp: rearranged_def pq_inv_def)
qed

theorem RevaluateElement_correct_witness:
  "\<exists>q'. RevaluateElement (\<lambda>a b. (if a = 8 then 20 else a) < (if b = 8 then 20 else b)) store_index (int 1)
      sample_queue = Some q' \<and>
    pq_inv (\<lambda>a b. (if a = 8 then 20 else a) < (if b = 8 then 20 else b)) q' \<and>
    mset (pq_list q') = mset (pq_list sample_queue) \<and>
    (mirrors (\<lambda>s. s) sample_queue \<longrightarrow> mirrors (\<lambda>s. s) q')"
  by (rule RevaluateElement_correct [where lt = "(<)"])
     (simp_all add: sample_queue_ok swo_key [of "\<lambda>x. x", simplified]
        swo_key [of "\<lambda>x. if x = 8 then 20 else x"], simp_all add: sample_queue_list)

text \<open>
  C37: Taking the head off until the queue is empty gives all elements, each once, and none before
  one of greater priority.
\<close>

theorem PQ_drain_in_order:
  assumes "swo lt" "pq_inv lt q"
  shows "\<exists>xs. drain PQ_ElementAtHead (PQ_RemoveAtHead lt store_index) (length (pq_list q)) q = Some xs \<and>
    mset xs = mset (pq_list q) \<and> sorted_wrt (\<lambda>a b. \<not> lt a b) xs"
  using heap_queue.drain_result [OF heap_queue_store [OF assms(1)] assms(2)] by simp

theorem PQ_drain_in_order_witness:
  "\<exists>xs. drain PQ_ElementAtHead (PQ_RemoveAtHead (<) store_index) (length (pq_list sample_queue)) sample_queue =
      Some xs \<and> mset xs = mset (pq_list sample_queue) \<and> sorted_wrt (\<lambda>a b. \<not> a < b) xs"
  by (rule PQ_drain_in_order) (simp_all add: sample_queue_ok swo_key [of "\<lambda>x. x", simplified])

end
