(* ===== verification/UtlLinkedList.thy ===== *)
theory UtlLinkedList
  imports UtlMemory
begin

text \<open>
  \<open>CUtlLinkedList\<close> (\<open>src/GameNetworkingSockets/src/public/tier1/utllinkedlist.h\<close>): a doubly linked list
  whose links are indices into a growable memory, with a list of free nodes threaded through the
  same cells. The index type is a word of any width, as the class is used with \<open>int\<close> and with
  \<open>uint16\<close>; \<open>(I)~0\<close> is its largest value, and the comparison of two indices is the one of unsigned
  numbers that the code writes. A fatal assertion ends the program, which is the result \<open>None\<close>.
\<close>

record ('a, 'w) ListElem_t =
  m_Element :: 'a
  m_Previous :: 'w
  m_Next :: 'w

record ('a, 'w) linkedlist =
  l_Memory :: "('a, 'w) ListElem_t utlmem"
  m_Head :: 'w
  m_Tail :: 'w
  m_FirstFree :: 'w
  m_ElementCount :: 'w
  m_TotalElements :: 'w

type_synonym ('a, 'i) node = "('a, 'i word) ListElem_t"
type_synonym ('a, 'i) llist = "('a, 'i word) linkedlist"

definition INVALID_LLIST_IDX :: "'i :: len word" where
  "INVALID_LLIST_IDX = NOT 0"

definition ConstructList :: "('a, 'i :: len) node utlmem \<Rightarrow> ('a, 'i) llist" where
  "ConstructList m =
     \<lparr>l_Memory = m, m_Head = INVALID_LLIST_IDX, m_Tail = INVALID_LLIST_IDX,
      m_FirstFree = INVALID_LLIST_IDX, m_ElementCount = 0, m_TotalElements = 0\<rparr>"

definition LinkedList_new ::
  "(nat \<Rightarrow> ('a, 'i :: len) node) \<Rightarrow> int \<Rightarrow> int \<Rightarrow> int \<Rightarrow> ('a, 'i) llist" where
  "LinkedList_new raw sizeOfElem growSize initSize =
     ConstructList (Memory_new raw sizeOfElem growSize initSize)"

definition LinkedList_new_external ::
  "int \<Rightarrow> ('a, 'i :: len) node list \<Rightarrow> int \<Rightarrow> ('a, 'i) llist" where
  "LinkedList_new_external sizeOfElem pMemory memsize =
     ConstructList (Memory_new_external sizeOfElem pMemory (memsize div sizeOfElem))"

subsection \<open>Access to the nodes\<close>

definition InternalElement :: "('a, 'i :: len) llist \<Rightarrow> 'i word \<Rightarrow> ('a, 'i) node option" where
  "InternalElement l i = Memory_Element (l_Memory l) (uint i)"

definition set_node ::
  "'i :: len word \<Rightarrow> (('a, 'i) node \<Rightarrow> ('a, 'i) node) \<Rightarrow> ('a, 'i) llist \<Rightarrow>
   ('a, 'i) llist option" where
  "set_node i f l = do {
     e \<leftarrow> InternalElement l i;
     m \<leftarrow> Memory_SetElement (l_Memory l) (uint i) (f e);
     Some (l\<lparr>l_Memory := m\<rparr>)}"

definition set_next :: "'i :: len word \<Rightarrow> 'i word \<Rightarrow> ('a, 'i) llist \<Rightarrow> ('a, 'i) llist option" where
  "set_next i n = set_node i (\<lambda>e. e\<lparr>m_Next := n\<rparr>)"

definition set_previous :: "'i :: len word \<Rightarrow> 'i word \<Rightarrow> ('a, 'i) llist \<Rightarrow> ('a, 'i) llist option" where
  "set_previous i p = set_node i (\<lambda>e. e\<lparr>m_Previous := p\<rparr>)"

definition LL_Element :: "('a, 'i :: len) llist \<Rightarrow> 'i word \<Rightarrow> 'a option" where
  "LL_Element l i = map_option m_Element (InternalElement l i)"

definition LL_SetElement :: "'i :: len word \<Rightarrow> 'a \<Rightarrow> ('a, 'i) llist \<Rightarrow> ('a, 'i) llist option" where
  "LL_SetElement i x = set_node i (\<lambda>e. e\<lparr>m_Element := x\<rparr>)"

definition LL_Count :: "('a, 'i :: len) llist \<Rightarrow> int" where
  "LL_Count l = uint (m_ElementCount l)"

definition MaxElementIndex :: "('a, 'i :: len) llist \<Rightarrow> 'i word" where
  "MaxElementIndex l = m_TotalElements l"

definition LL_IsEmpty :: "('a, 'i :: len) llist \<Rightarrow> bool" where
  "LL_IsEmpty l \<longleftrightarrow> m_Head l = INVALID_LLIST_IDX"

definition LL_Previous :: "('a, 'i :: len) llist \<Rightarrow> 'i word \<Rightarrow> 'i word option" where
  "LL_Previous l i = map_option m_Previous (InternalElement l i)"

definition LL_Next :: "('a, 'i :: len) llist \<Rightarrow> 'i word \<Rightarrow> 'i word option" where
  "LL_Next l i = map_option m_Next (InternalElement l i)"

definition LL_IsValidIndex :: "('a, 'i :: len) llist \<Rightarrow> 'i word \<Rightarrow> bool option" where
  "LL_IsValidIndex l i =
     (if unat i < unat (m_TotalElements l) then do {
        e \<leftarrow> InternalElement l i;
        Some (m_Previous e \<noteq> i \<or> m_Next e = i)}
      else Some False)"

definition IsInList :: "('a, 'i :: len) llist \<Rightarrow> 'i word \<Rightarrow> bool option" where
  "IsInList l i =
     (if unat i < unat (m_TotalElements l) then do {
        e \<leftarrow> InternalElement l i;
        Some (m_Previous e \<noteq> i)}
      else Some False)"

definition LL_EnsureCapacity ::
  "(nat \<Rightarrow> ('a, 'i :: len) node) \<Rightarrow> int \<Rightarrow> ('a, 'i) llist \<Rightarrow> ('a, 'i) llist" where
  "LL_EnsureCapacity raw num l = l\<lparr>l_Memory := Memory_EnsureCapacity raw num (l_Memory l)\<rparr>"

definition LL_Swap ::
  "('a, 'i :: len) llist \<Rightarrow> ('a, 'i) llist \<Rightarrow> ('a, 'i) llist \<times> ('a, 'i) llist" where
  "LL_Swap l k =
     (let (m, m') = Memory_Swap (l_Memory l) (l_Memory k) in
      (l\<lparr>l_Memory := m, m_Head := m_Head k, m_Tail := m_Tail k, m_FirstFree := m_FirstFree k,
         m_ElementCount := m_ElementCount k, m_TotalElements := m_TotalElements k\<rparr>,
       k\<lparr>l_Memory := m', m_Head := m_Head l, m_Tail := m_Tail l, m_FirstFree := m_FirstFree l,
         m_ElementCount := m_ElementCount l, m_TotalElements := m_TotalElements l\<rparr>))"

subsection \<open>Linking\<close>

definition Unlink :: "'i :: len word \<Rightarrow> ('a, 'i) llist \<Rightarrow> ('a, 'i) llist option" where
  "Unlink elem l = do {
     b \<leftarrow> IsInList l elem;
     if b then do {
       p \<leftarrow> LL_Previous l elem;
       n \<leftarrow> LL_Next l elem;
       l \<leftarrow> (if p \<noteq> INVALID_LLIST_IDX then set_next p n l else Some (l\<lparr>m_Head := n\<rparr>));
       n \<leftarrow> LL_Next l elem;
       p \<leftarrow> LL_Previous l elem;
       l \<leftarrow> (if n \<noteq> INVALID_LLIST_IDX then set_previous n p l else Some (l\<lparr>m_Tail := p\<rparr>));
       l \<leftarrow> set_next elem elem l;
       l \<leftarrow> set_previous elem elem l;
       Some (l\<lparr>m_ElementCount := m_ElementCount l - 1\<rparr>)}
     else Some l}"

definition LinkBefore :: "'i :: len word \<Rightarrow> 'i word \<Rightarrow> ('a, 'i) llist \<Rightarrow> ('a, 'i) llist option" where
  "LinkBefore before elem l = do {
     l \<leftarrow> Unlink elem l;
     l \<leftarrow> set_next elem before l;
     l \<leftarrow> (if before = INVALID_LLIST_IDX then do {
             l \<leftarrow> set_previous elem (m_Tail l) l;
             Some (l\<lparr>m_Tail := elem\<rparr>)}
           else do {
             p \<leftarrow> LL_Previous l before;
             l \<leftarrow> set_previous elem p l;
             set_previous before elem l});
     p \<leftarrow> LL_Previous l elem;
     l \<leftarrow> (if p = INVALID_LLIST_IDX then Some (l\<lparr>m_Head := elem\<rparr>) else set_next p elem l);
     Some (l\<lparr>m_ElementCount := m_ElementCount l + 1\<rparr>)}"

definition LinkAfter :: "'i :: len word \<Rightarrow> 'i word \<Rightarrow> ('a, 'i) llist \<Rightarrow> ('a, 'i) llist option" where
  "LinkAfter after elem l = do {
     b \<leftarrow> IsInList l elem;
     l \<leftarrow> (if b then Unlink elem l else Some l);
     l \<leftarrow> set_previous elem after l;
     l \<leftarrow> (if after = INVALID_LLIST_IDX then do {
             l \<leftarrow> set_next elem (m_Head l) l;
             Some (l\<lparr>m_Head := elem\<rparr>)}
           else do {
             n \<leftarrow> LL_Next l after;
             l \<leftarrow> set_next elem n l;
             set_next after elem l});
     n \<leftarrow> LL_Next l elem;
     l \<leftarrow> (if n = INVALID_LLIST_IDX then Some (l\<lparr>m_Tail := elem\<rparr>) else set_previous n elem l);
     Some (l\<lparr>m_ElementCount := m_ElementCount l + 1\<rparr>)}"

definition LinkToHead :: "'i :: len word \<Rightarrow> ('a, 'i) llist \<Rightarrow> ('a, 'i) llist option" where
  "LinkToHead elem l = LinkAfter INVALID_LLIST_IDX elem l"

definition LinkToTail :: "'i :: len word \<Rightarrow> ('a, 'i) llist \<Rightarrow> ('a, 'i) llist option" where
  "LinkToTail elem l = LinkBefore INVALID_LLIST_IDX elem l"

subsection \<open>Allocation\<close>

definition AllocInternal ::
  "(nat \<Rightarrow> ('a, 'i :: len) node) \<Rightarrow> bool \<Rightarrow> ('a, 'i) llist \<Rightarrow> ('i word \<times> ('a, 'i) llist) option"
where
  "AllocInternal raw multilist l = do {
     (elem, l) \<leftarrow>
       (if m_FirstFree l = INVALID_LLIST_IDX then do {
          m \<leftarrow> (if m_TotalElements l = word_of_int (Memory_NumAllocated (l_Memory l))
               then Memory_Grow raw 1 (l_Memory l) else Some (l_Memory l));
          let elem = m_TotalElements l;
          let l = l\<lparr>l_Memory := m, m_TotalElements := m_TotalElements l + 1\<rparr>;
          if elem \<noteq> INVALID_LLIST_IDX then Some (elem, l) else None}
        else do {
          let elem = m_FirstFree l;
          n \<leftarrow> LL_Next l elem;
          Some (elem, l\<lparr>m_FirstFree := n\<rparr>)});
     let link = (if \<not> multilist then elem else INVALID_LLIST_IDX);
     l \<leftarrow> set_previous elem link l;
     l \<leftarrow> set_next elem link l;
     Some (elem, l)}"

definition LL_Alloc :: "(nat \<Rightarrow> ('a, 'i :: len) node) \<Rightarrow> 'a \<Rightarrow> bool \<Rightarrow> ('a, 'i) llist \<Rightarrow>
    ('i word \<times> ('a, 'i) llist) option" where
  "LL_Alloc raw ctor multilist l = do {
     (elem, l) \<leftarrow> AllocInternal raw multilist l;
     l \<leftarrow> LL_SetElement elem ctor l;
     Some (elem, l)}"

definition LL_Free :: "'i :: len word \<Rightarrow> ('a, 'i) llist \<Rightarrow> ('a, 'i) llist option" where
  "LL_Free elem l = do {
     b \<leftarrow> LL_IsValidIndex l elem;
     if \<not> b then Some l
     else do {
       l \<leftarrow> Unlink elem l;
       l \<leftarrow> set_next elem (m_FirstFree l) l;
       Some (l\<lparr>m_FirstFree := elem\<rparr>)}}"

subsection \<open>Insertion and removal\<close>

text \<open>The versions without a value store a default constructed one; they are called with it here.\<close>

definition LL_InsertBefore :: "(nat \<Rightarrow> ('a, 'i :: len) node) \<Rightarrow> 'i word \<Rightarrow> 'a \<Rightarrow> ('a, 'i) llist \<Rightarrow>
    ('i word \<times> ('a, 'i) llist) option" where
  "LL_InsertBefore raw before src l = do {
     (newNode, l) \<leftarrow> AllocInternal raw False l;
     l \<leftarrow> LinkBefore before newNode l;
     l \<leftarrow> LL_SetElement newNode src l;
     Some (newNode, l)}"

definition LL_InsertAfter :: "(nat \<Rightarrow> ('a, 'i :: len) node) \<Rightarrow> 'i word \<Rightarrow> 'a \<Rightarrow> ('a, 'i) llist \<Rightarrow>
    ('i word \<times> ('a, 'i) llist) option" where
  "LL_InsertAfter raw after src l = do {
     (newNode, l) \<leftarrow> AllocInternal raw False l;
     l \<leftarrow> LinkAfter after newNode l;
     l \<leftarrow> LL_SetElement newNode src l;
     Some (newNode, l)}"

definition LL_InsertBefore_default :: "(nat \<Rightarrow> ('a, 'i :: len) node) \<Rightarrow> 'a \<Rightarrow> 'i word \<Rightarrow>
    ('a, 'i) llist \<Rightarrow> ('i word \<times> ('a, 'i) llist) option" where
  "LL_InsertBefore_default raw ctor before l = do {
     (newNode, l) \<leftarrow> AllocInternal raw False l;
     l \<leftarrow> LinkBefore before newNode l;
     l \<leftarrow> LL_SetElement newNode ctor l;
     Some (newNode, l)}"

definition LL_InsertAfter_default :: "(nat \<Rightarrow> ('a, 'i :: len) node) \<Rightarrow> 'a \<Rightarrow> 'i word \<Rightarrow>
    ('a, 'i) llist \<Rightarrow> ('i word \<times> ('a, 'i) llist) option" where
  "LL_InsertAfter_default raw ctor after l = do {
     (newNode, l) \<leftarrow> AllocInternal raw False l;
     l \<leftarrow> LinkAfter after newNode l;
     l \<leftarrow> LL_SetElement newNode ctor l;
     Some (newNode, l)}"

definition LL_AddToHead_default :: "(nat \<Rightarrow> ('a, 'i :: len) node) \<Rightarrow> 'a \<Rightarrow> ('a, 'i) llist \<Rightarrow>
    ('i word \<times> ('a, 'i) llist) option" where
  "LL_AddToHead_default raw ctor l = LL_InsertAfter_default raw ctor INVALID_LLIST_IDX l"

definition LL_AddToTail_default :: "(nat \<Rightarrow> ('a, 'i :: len) node) \<Rightarrow> 'a \<Rightarrow> ('a, 'i) llist \<Rightarrow>
    ('i word \<times> ('a, 'i) llist) option" where
  "LL_AddToTail_default raw ctor l = LL_InsertBefore_default raw ctor INVALID_LLIST_IDX l"

definition LL_AddToHead :: "(nat \<Rightarrow> ('a, 'i :: len) node) \<Rightarrow> 'a \<Rightarrow> ('a, 'i) llist \<Rightarrow>
    ('i word \<times> ('a, 'i) llist) option" where
  "LL_AddToHead raw src l = LL_InsertAfter raw INVALID_LLIST_IDX src l"

definition LL_AddToTail :: "(nat \<Rightarrow> ('a, 'i :: len) node) \<Rightarrow> 'a \<Rightarrow> ('a, 'i) llist \<Rightarrow>
    ('i word \<times> ('a, 'i) llist) option" where
  "LL_AddToTail raw src l = LL_InsertBefore raw INVALID_LLIST_IDX src l"

partial_function (option) LL_Find_from ::
  "'a \<Rightarrow> 'i :: len word \<Rightarrow> ('a, 'i) llist \<Rightarrow> 'i word option"
where
  "LL_Find_from src i l =
     (if i \<noteq> INVALID_LLIST_IDX then do {
        x \<leftarrow> LL_Element l i;
        if x = src then Some i
        else do {
          n \<leftarrow> LL_Next l i;
          LL_Find_from src n l}}
      else Some INVALID_LLIST_IDX)"

declare LL_Find_from.simps [code]

definition LL_Find :: "'a \<Rightarrow> ('a, 'i :: len) llist \<Rightarrow> 'i word option" where
  "LL_Find src l = LL_Find_from src (m_Head l) l"

definition LL_Remove :: "'i :: len word \<Rightarrow> ('a, 'i) llist \<Rightarrow> ('a, 'i) llist option" where
  "LL_Remove elem l = LL_Free elem l"

definition LL_FindAndRemove :: "'a \<Rightarrow> ('a, 'i :: len) llist \<Rightarrow> (bool \<times> ('a, 'i) llist) option" where
  "LL_FindAndRemove src l = do {
     i \<leftarrow> LL_Find src l;
     if i = INVALID_LLIST_IDX then Some (False, l)
     else do {l \<leftarrow> LL_Remove i l; Some (True, l)}}"

definition RemoveFromHead :: "('a, 'i :: len) llist \<Rightarrow> ('a \<times> ('a, 'i) llist) option" where
  "RemoveFromHead l = do {
     x \<leftarrow> LL_Element l (m_Head l);
     l \<leftarrow> LL_Remove (m_Head l) l;
     Some (x, l)}"

definition RemoveFromTail :: "('a, 'i :: len) llist \<Rightarrow> ('a \<times> ('a, 'i) llist) option" where
  "RemoveFromTail l = do {
     x \<leftarrow> LL_Element l (m_Tail l);
     l \<leftarrow> LL_Remove (m_Tail l) l;
     Some (x, l)}"

text \<open>The loop of \<open>RemoveAll\<close>, which threads all nodes below \<open>n\<close> to the free list from the end.\<close>

fun RemoveAll_loop :: "nat \<Rightarrow> 'i :: len word \<Rightarrow> ('a, 'i) llist \<Rightarrow> ('i word \<times> ('a, 'i) llist) option" where
  "RemoveAll_loop 0 prev l = Some (prev, l)"
| "RemoveAll_loop (Suc n) prev l =
     (let i = of_nat n in do {
        b \<leftarrow> LL_IsValidIndex l i;
        l \<leftarrow> set_next i prev l;
        l \<leftarrow> set_previous i i l;
        RemoveAll_loop n i l})"

definition LL_RemoveAll :: "('a, 'i :: len) llist \<Rightarrow> ('a, 'i) llist option" where
  "LL_RemoveAll l =
     (if m_TotalElements l = 0 then Some l
      else do {
        (prev, l) \<leftarrow> RemoveAll_loop (unat (m_TotalElements l)) INVALID_LLIST_IDX l;
        Some (l\<lparr>m_FirstFree := 0, m_Head := INVALID_LLIST_IDX, m_Tail := INVALID_LLIST_IDX,
               m_ElementCount := 0\<rparr>)})"

definition LL_Purge :: "('a, 'i :: len) llist \<Rightarrow> ('a, 'i) llist option" where
  "LL_Purge l = do {
     l \<leftarrow> LL_RemoveAll l;
     Some (l\<lparr>l_Memory := Memory_Purge (l_Memory l), m_FirstFree := INVALID_LLIST_IDX, m_TotalElements := 0\<rparr>)}"

subsection \<open>The links as functions\<close>

text \<open>
  On a list whose nodes are all allocated, every access inside it succeeds; what the nodes hold is
  then read as three functions of the index, and the stores of the code are updates of them.
\<close>

definition cells :: "('a, 'i :: len) llist \<Rightarrow> ('a, 'i) node list" where
  "cells l = m_pMemory (l_Memory l)"

definition prv :: "('a, 'i :: len) llist \<Rightarrow> 'i word \<Rightarrow> 'i word" where
  "prv l i = m_Previous (cells l ! unat i)"

definition nxt :: "('a, 'i :: len) llist \<Rightarrow> 'i word \<Rightarrow> 'i word" where
  "nxt l i = m_Next (cells l ! unat i)"

definition val :: "('a, 'i :: len) llist \<Rightarrow> 'i word \<Rightarrow> 'a" where
  "val l i = m_Element (cells l ! unat i)"

definition inr :: "('a, 'i :: len) llist \<Rightarrow> 'i word \<Rightarrow> bool" where
  "inr l i \<longleftrightarrow> unat i < unat (m_TotalElements l)"

definition nodes_ok :: "('a, 'i :: len) llist \<Rightarrow> bool" where
  "nodes_ok l \<longleftrightarrow> mem_inv (l_Memory l) \<and> unat (m_TotalElements l) \<le> nat (m_nAllocationCount (l_Memory l))"

definition upd :: "'i :: len word \<Rightarrow> (('a, 'i) node \<Rightarrow> ('a, 'i) node) \<Rightarrow> ('a, 'i) llist \<Rightarrow> ('a, 'i) llist" where
  "upd i f l = l\<lparr>l_Memory := (l_Memory l)\<lparr>m_pMemory := (cells l)[unat i := f (cells l ! unat i)]\<rparr>\<rparr>"

abbreviation put_next :: "'i :: len word \<Rightarrow> 'i word \<Rightarrow> ('a, 'i) llist \<Rightarrow> ('a, 'i) llist" where
  "put_next i n \<equiv> upd i (\<lambda>e. e\<lparr>m_Next := n\<rparr>)"

abbreviation put_prev :: "'i :: len word \<Rightarrow> 'i word \<Rightarrow> ('a, 'i) llist \<Rightarrow> ('a, 'i) llist" where
  "put_prev i p \<equiv> upd i (\<lambda>e. e\<lparr>m_Previous := p\<rparr>)"

abbreviation put_val :: "'i :: len word \<Rightarrow> 'a \<Rightarrow> ('a, 'i) llist \<Rightarrow> ('a, 'i) llist" where
  "put_val i x \<equiv> upd i (\<lambda>e. e\<lparr>m_Element := x\<rparr>)"

named_theorems ll_simps \<open>accesses to the nodes of a linked list, and what its stores change\<close>

lemma inr_length: "nodes_ok l \<Longrightarrow> inr l i \<Longrightarrow> unat i < length (cells l)"
  by (auto simp: nodes_ok_def inr_def cells_def mem_inv_def)

lemma uint_int_unat: "uint (i :: 'i :: len word) = int (unat i)"
  by simp

lemma InternalElement_ok [ll_simps]:
  "nodes_ok l \<Longrightarrow> inr l i \<Longrightarrow> InternalElement l i = Some (cells l ! unat i)"
  using inr_length [of l i]
  by (simp only: InternalElement_def Memory_Element_def uint_int_unat get_at_int cells_def)

lemma LL_Next_ok [ll_simps]: "nodes_ok l \<Longrightarrow> inr l i \<Longrightarrow> LL_Next l i = Some (nxt l i)"
  by (simp add: LL_Next_def InternalElement_ok nxt_def)

lemma LL_Previous_ok [ll_simps]: "nodes_ok l \<Longrightarrow> inr l i \<Longrightarrow> LL_Previous l i = Some (prv l i)"
  by (simp add: LL_Previous_def InternalElement_ok prv_def)

lemma LL_Element_ok [ll_simps]: "nodes_ok l \<Longrightarrow> inr l i \<Longrightarrow> LL_Element l i = Some (val l i)"
  by (simp add: LL_Element_def InternalElement_ok val_def)

lemma set_node_ok: "nodes_ok l \<Longrightarrow> inr l i \<Longrightarrow> set_node i f l = Some (upd i f l)"
  using inr_length [of l i]
  by (simp add: set_node_def InternalElement_ok)
     (simp only: Memory_SetElement_def uint_int_unat set_at_int cells_def upd_def option.simps bind.bind_lunit)

lemma set_ok [ll_simps]:
  "nodes_ok l \<Longrightarrow> inr l i \<Longrightarrow> set_next i n l = Some (put_next i n l)"
  "nodes_ok l \<Longrightarrow> inr l i \<Longrightarrow> set_previous i n l = Some (put_prev i n l)"
  "nodes_ok l \<Longrightarrow> inr l i \<Longrightarrow> LL_SetElement i x l = Some (put_val i x l)"
  by (simp_all add: set_next_def set_previous_def LL_SetElement_def set_node_ok)

lemma upd_fields [ll_simps]:
  "m_Head (upd i f l) = m_Head l" "m_Tail (upd i f l) = m_Tail l" "m_FirstFree (upd i f l) = m_FirstFree l"
  "m_ElementCount (upd i f l) = m_ElementCount l" "m_TotalElements (upd i f l) = m_TotalElements l"
  "nodes_ok (upd i f l) = nodes_ok l" "inr (upd i f l) = inr l"
  "length (cells (upd i f l)) = length (cells l)"
  "m_nGrowSize (l_Memory (upd i f l)) = m_nGrowSize (l_Memory l)"
  by (auto simp: upd_def nodes_ok_def mem_inv_def inr_def cells_def fun_eq_iff)

lemma field_updates [ll_simps]:
  "nodes_ok (l\<lparr>m_Head := h\<rparr>) = nodes_ok l" "inr (l\<lparr>m_Head := h\<rparr>) = inr l"
  "prv (l\<lparr>m_Head := h\<rparr>) = prv l" "nxt (l\<lparr>m_Head := h\<rparr>) = nxt l" "val (l\<lparr>m_Head := h\<rparr>) = val l"
  "nodes_ok (l\<lparr>m_Tail := h\<rparr>) = nodes_ok l" "inr (l\<lparr>m_Tail := h\<rparr>) = inr l"
  "prv (l\<lparr>m_Tail := h\<rparr>) = prv l" "nxt (l\<lparr>m_Tail := h\<rparr>) = nxt l" "val (l\<lparr>m_Tail := h\<rparr>) = val l"
  "nodes_ok (l\<lparr>m_FirstFree := h\<rparr>) = nodes_ok l" "inr (l\<lparr>m_FirstFree := h\<rparr>) = inr l"
  "prv (l\<lparr>m_FirstFree := h\<rparr>) = prv l" "nxt (l\<lparr>m_FirstFree := h\<rparr>) = nxt l" "val (l\<lparr>m_FirstFree := h\<rparr>) = val l"
  "nodes_ok (l\<lparr>m_ElementCount := h\<rparr>) = nodes_ok l" "inr (l\<lparr>m_ElementCount := h\<rparr>) = inr l"
  "prv (l\<lparr>m_ElementCount := h\<rparr>) = prv l" "nxt (l\<lparr>m_ElementCount := h\<rparr>) = nxt l"
  "val (l\<lparr>m_ElementCount := h\<rparr>) = val l"
  by (simp_all add: nodes_ok_def inr_def prv_def nxt_def val_def cells_def fun_eq_iff)

lemma cells_upd: "unat i < length (cells l) \<Longrightarrow>
    cells (upd i f l) ! unat j = (if j = i then f (cells l ! unat i) else cells l ! unat j)"
  by (auto simp: upd_def cells_def nth_list_update word_unat_eq_iff)

lemma put_links [ll_simps]:
  assumes "nodes_ok l" "inr l i"
  shows "nxt (put_next i n l) = (nxt l)(i := n)" "prv (put_next i n l) = prv l" "val (put_next i n l) = val l"
    "nxt (put_prev i n l) = nxt l" "prv (put_prev i n l) = (prv l)(i := n)" "val (put_prev i n l) = val l"
    "nxt (put_val i x l) = nxt l" "prv (put_val i x l) = prv l" "val (put_val i x l) = (val l)(i := x)"
  using cells_upd [OF inr_length [OF assms]] by (auto simp: nxt_def prv_def val_def fun_eq_iff)

lemma inr_valid: "inr l i \<Longrightarrow> i \<noteq> INVALID_LLIST_IDX"
proof -
  assume "inr l i"
  then have "unat i < unat (m_TotalElements l)" by (simp add: inr_def)
  also have "\<dots> \<le> unat (- 1 :: 'b word)" using word_le_nat_alt word_order.extremum by blast
  finally show ?thesis by (auto simp: INVALID_LLIST_IDX_def)
qed

subsection \<open>Chains of links\<close>

text \<open>The nodes \<open>xs\<close> hang together, from the node before them to the one after them.\<close>

fun seg :: "('w \<Rightarrow> 'w) \<Rightarrow> ('w \<Rightarrow> 'w) \<Rightarrow> 'w \<Rightarrow> 'w list \<Rightarrow> 'w \<Rightarrow> bool" where
  "seg P N p [] n = True"
| "seg P N p (x # xs) n = (P x = p \<and> N x = hd (xs @ [n]) \<and> seg P N x xs n)"

lemma seg_append:
  "seg P N p (xs @ ys) n \<longleftrightarrow> seg P N p xs (hd (ys @ [n])) \<and> seg P N (last (p # xs)) ys n"
proof (induction xs arbitrary: p)
  case (Cons x xs)
  then show ?case by (cases xs) auto
qed simp

lemma seg_cong:
  "\<forall>x \<in> set xs. P' x = P x \<and> N' x = N x \<Longrightarrow> seg P' N' p xs n = seg P N p xs n"
  by (induction xs arbitrary: p) auto

lemma seg_new_last:
  "seg P N p xs n \<Longrightarrow> xs \<noteq> [] \<Longrightarrow> distinct xs \<Longrightarrow> seg P (N(last xs := m)) p xs m"
proof (induction xs arbitrary: p)
  case (Cons x xs)
  then show ?case by (cases xs) auto
qed simp

lemma seg_new_first:
  "seg P N p xs n \<Longrightarrow> xs \<noteq> [] \<Longrightarrow> distinct xs \<Longrightarrow> seg (P(hd xs := q)) N q xs n"
proof (cases xs)
  case (Cons x ys)
  moreover assume "seg P N p xs n" "distinct xs"
  ultimately show ?thesis using seg_cong [of ys "P(x := q)" P N N x n] by auto
qed simp

lemma seg_prev: "seg P N p xs n \<Longrightarrow> x \<in> set xs \<Longrightarrow> distinct (p # xs) \<Longrightarrow> P x \<noteq> x \<and> P x \<in> set (p # xs)"
  by (induction xs arbitrary: p) auto

text \<open>
  The invariant: the nodes \<open>xs\<close> are the list in order, the nodes \<open>fs\<close> the free list; every other
  node the list knows of is allocated but not linked, and points at itself both ways.
\<close>

definition ll_inv :: "('a, 'i :: len) llist \<Rightarrow> 'i word list \<Rightarrow> 'i word list \<Rightarrow> bool" where
  "ll_inv l xs fs \<longleftrightarrow> nodes_ok l \<and> distinct (xs @ fs) \<and> (\<forall>i \<in> set (xs @ fs). inr l i) \<and>
     seg (prv l) (nxt l) INVALID_LLIST_IDX xs INVALID_LLIST_IDX \<and>
     m_Head l = hd (xs @ [INVALID_LLIST_IDX]) \<and> m_Tail l = last (INVALID_LLIST_IDX # xs) \<and>
     m_ElementCount l = of_nat (length xs) \<and>
     chain (nxt l) fs INVALID_LLIST_IDX \<and> m_FirstFree l = hd (fs @ [INVALID_LLIST_IDX]) \<and>
     (\<forall>i. inr l i \<longrightarrow> i \<notin> set xs \<longrightarrow> prv l i = i) \<and>
     (\<forall>i. inr l i \<longrightarrow> i \<notin> set xs \<longrightarrow> i \<notin> set fs \<longrightarrow> nxt l i = i)"

definition ll_values :: "('a, 'i :: len) llist \<Rightarrow> 'i word list \<Rightarrow> 'a list" where
  "ll_values l xs = map (val l) xs"

lemma ll_inv_invalid: "ll_inv l xs fs \<Longrightarrow> INVALID_LLIST_IDX \<notin> set xs \<and> INVALID_LLIST_IDX \<notin> set fs"
  unfolding ll_inv_def using inr_valid by fastforce

lemma IsInList_iff:
  assumes "ll_inv l xs fs"
  shows "IsInList l i = Some (i \<in> set xs)"
proof (cases "inr l i")
  case False
  then show ?thesis using assms by (auto simp: IsInList_def ll_inv_def inr_def)
next
  case True
  have "prv l i \<noteq> i" if "i \<in> set xs"
    using seg_prev [of "prv l" "nxt l" INVALID_LLIST_IDX xs INVALID_LLIST_IDX i] assms that
      ll_inv_invalid [OF assms] by (simp add: ll_inv_def)
  moreover have "prv l i = i" if "i \<notin> set xs" using assms True that by (simp add: ll_inv_def)
  moreover have "IsInList l i = Some (prv l i \<noteq> i)"
    using assms True InternalElement_ok [of l i] by (simp add: IsInList_def ll_inv_def inr_def prv_def)
  ultimately show ?thesis by auto
qed

lemma IsValidIndex_iff:
  assumes "ll_inv l xs fs"
  shows "LL_IsValidIndex l i = Some (inr l i \<and> i \<notin> set fs)"
proof (cases "inr l i")
  case False
  then show ?thesis by (auto simp: LL_IsValidIndex_def inr_def)
next
  case True
  have v: "LL_IsValidIndex l i = Some (prv l i \<noteq> i \<or> nxt l i = i)"
    using assms True InternalElement_ok [of l i]
    by (simp add: LL_IsValidIndex_def ll_inv_def inr_def prv_def nxt_def)
  have p: "prv l i \<noteq> i \<longleftrightarrow> i \<in> set xs"
    using IsInList_iff [OF assms, of i] assms True InternalElement_ok [of l i]
    by (simp add: IsInList_def ll_inv_def inr_def prv_def)
  have "nxt l i \<noteq> i" if "i \<in> set fs"
    using chain_next [of "nxt l" fs INVALID_LLIST_IDX i] assms that ll_inv_invalid [OF assms]
    by (simp add: ll_inv_def)
  then show ?thesis using v p assms True by (auto simp: ll_inv_def)
qed

text \<open>What no linking operation changes.\<close>

definition same_nodes :: "('a, 'i :: len) llist \<Rightarrow> ('a, 'i) llist \<Rightarrow> bool" where
  "same_nodes l' l \<longleftrightarrow> m_TotalElements l' = m_TotalElements l \<and> val l' = val l \<and>
     m_nGrowSize (l_Memory l') = m_nGrowSize (l_Memory l)"

lemma same_nodes_inr: "same_nodes l' l \<Longrightarrow> inr l' i = inr l i"
  by (simp add: same_nodes_def inr_def)

lemma ll_inv_parts:
  assumes "ll_inv l (us @ e # vs) fs"
  shows "prv l e = last (INVALID_LLIST_IDX # us)" "nxt l e = hd (vs @ [INVALID_LLIST_IDX])" "inr l e"
    "us \<noteq> [] \<Longrightarrow> inr l (last us) \<and> last us \<noteq> e \<and> last us \<noteq> INVALID_LLIST_IDX"
    "vs \<noteq> [] \<Longrightarrow> inr l (hd vs) \<and> hd vs \<noteq> e \<and> hd vs \<noteq> INVALID_LLIST_IDX"
    "us \<noteq> [] \<Longrightarrow> vs \<noteq> [] \<Longrightarrow> last us \<noteq> hd vs"
proof -
  have "seg (prv l) (nxt l) INVALID_LLIST_IDX (us @ e # vs) INVALID_LLIST_IDX"
    using assms by (simp add: ll_inv_def)
  then show "prv l e = last (INVALID_LLIST_IDX # us)" "nxt l e = hd (vs @ [INVALID_LLIST_IDX])"
    by (auto simp: seg_append)
  show "inr l e" using assms by (simp add: ll_inv_def)
  have d: "distinct (us @ e # vs)" "\<forall>i \<in> set (us @ e # vs). inr l i" using assms by (auto simp: ll_inv_def)
  show "inr l (last us) \<and> last us \<noteq> e \<and> last us \<noteq> INVALID_LLIST_IDX" if "us \<noteq> []"
    using d last_in_set [OF that] inr_valid by fastforce
  show "inr l (hd vs) \<and> hd vs \<noteq> e \<and> hd vs \<noteq> INVALID_LLIST_IDX" if "vs \<noteq> []"
    using d hd_in_set [OF that] inr_valid by fastforce
  show "last us \<noteq> hd vs" if "us \<noteq> []" "vs \<noteq> []"
    using d(1) last_in_set [OF that(1)] hd_in_set [OF that(2)] by auto
qed

lemma Unlink_effect:
  assumes inv: "ll_inv l (us @ e # vs) fs"
  shows "\<exists>l'. Unlink e l = Some l' \<and> nodes_ok l' \<and> same_nodes l' l \<and>
    prv l' = (if vs = [] then prv l else (prv l)(hd vs := last (INVALID_LLIST_IDX # us)))(e := e) \<and>
    nxt l' = (if us = [] then nxt l else (nxt l)(last us := hd (vs @ [INVALID_LLIST_IDX])))(e := e) \<and>
    m_Head l' = (if us = [] then hd (vs @ [INVALID_LLIST_IDX]) else m_Head l) \<and>
    m_Tail l' = (if vs = [] then last (INVALID_LLIST_IDX # us) else m_Tail l) \<and>
    m_FirstFree l' = m_FirstFree l \<and> m_ElementCount l' = m_ElementCount l - 1"
proof -
  note parts = ll_inv_parts [OF inv]
  have ok: "nodes_ok l" using inv by (simp add: ll_inv_def)
  have il: "IsInList l e = Some True" by (simp add: IsInList_iff [OF inv])
  show ?thesis
  proof (cases "us = []"; cases "vs = []")
    assume "us = []" "vs = []"
    with parts ok show ?thesis by (simp add: Unlink_def il ll_simps same_nodes_def)
  next
    assume "us = []" "vs \<noteq> []"
    with parts ok show ?thesis by (simp add: Unlink_def il ll_simps same_nodes_def)
  next
    assume "us \<noteq> []" "vs = []"
    with parts ok show ?thesis by (simp add: Unlink_def il ll_simps same_nodes_def)
  next
    assume "us \<noteq> []" "vs \<noteq> []"
    with parts ok show ?thesis by (simp add: Unlink_def il ll_simps same_nodes_def)
  qed
qed

lemma seg_delete:
  assumes "seg P N p (us @ e # vs) n" "distinct (us @ e # vs)"
    "P' = (if vs = [] then P else P(hd vs := last (p # us)))(e := e)"
    "N' = (if us = [] then N else N(last us := hd (vs @ [n])))(e := e)"
  shows "seg P' N' p (us @ vs) n"
proof -
  have s: "seg P N p us e" "seg P N e vs n" using assms(1) by (auto simp: seg_append)
  have "seg P' N' p us (hd (vs @ [n]))"
  proof (cases "us = []")
    case False
    have "seg P (N(last us := hd (vs @ [n]))) p us (hd (vs @ [n]))"
      using seg_new_last [OF s(1) False] assms(2) by simp
    moreover have "\<forall>x \<in> set us. P' x = P x \<and> N' x = (N(last us := hd (vs @ [n]))) x"
      using assms(2) False by (auto simp: assms(3,4))
    ultimately show ?thesis using seg_cong [of us P' P N' "N(last us := hd (vs @ [n]))"] by simp
  qed simp
  moreover have "seg P' N' (last (p # us)) vs n"
  proof (cases "vs = []")
    case False
    have "seg (P(hd vs := last (p # us))) N (last (p # us)) vs n"
    proof (cases vs)
      case (Cons v ws)
      then show ?thesis using s(2) assms(2) seg_cong [of ws "P(v := last (p # us))" P N N v n] by auto
    qed simp
    moreover have "us \<noteq> [] \<Longrightarrow> last us \<notin> set vs" using assms(2) last_in_set [of us] by (auto simp: disjoint_iff)
    then have "\<forall>x \<in> set vs. P' x = (P(hd vs := last (p # us))) x \<and> N' x = N x"
      using assms(2) False by (auto simp: assms(3,4))
    ultimately show ?thesis using seg_cong [of vs P' "P(hd vs := last (p # us))" N' N] by simp
  qed simp
  ultimately show ?thesis by (simp add: seg_append)
qed

lemma Unlink_result:
  assumes inv: "ll_inv l (us @ e # vs) fs"
  shows "\<exists>l'. Unlink e l = Some l' \<and> ll_inv l' (us @ vs) fs \<and> same_nodes l' l"
proof -
  note parts = ll_inv_parts [OF inv]
  from Unlink_effect [OF inv] obtain l' where l': "Unlink e l = Some l'" "nodes_ok l'" "same_nodes l' l"
    "prv l' = (if vs = [] then prv l else (prv l)(hd vs := last (INVALID_LLIST_IDX # us)))(e := e)"
    "nxt l' = (if us = [] then nxt l else (nxt l)(last us := hd (vs @ [INVALID_LLIST_IDX])))(e := e)"
    "m_Head l' = (if us = [] then hd (vs @ [INVALID_LLIST_IDX]) else m_Head l)"
    "m_Tail l' = (if vs = [] then last (INVALID_LLIST_IDX # us) else m_Tail l)"
    "m_FirstFree l' = m_FirstFree l" "m_ElementCount l' = m_ElementCount l - 1" by blast
  have old: "distinct ((us @ e # vs) @ fs)" "\<forall>i \<in> set ((us @ e # vs) @ fs). inr l i"
    "seg (prv l) (nxt l) INVALID_LLIST_IDX (us @ e # vs) INVALID_LLIST_IDX"
    "chain (nxt l) fs INVALID_LLIST_IDX" using inv by (auto simp: ll_inv_def)
  have "seg (prv l') (nxt l') INVALID_LLIST_IDX (us @ vs) INVALID_LLIST_IDX"
  proof (rule seg_delete [OF old(3) _ l'(4,5)])
    show "distinct (us @ e # vs)" using old(1) by (simp only: distinct_append)
  qed
  moreover have "chain (nxt l') fs INVALID_LLIST_IDX"
  proof -
    have "last us \<notin> set fs" if "us \<noteq> []" using last_in_set [OF that] old(1) by auto
    then have "\<forall>x \<in> set fs. nxt l' x = nxt l x" using old(1) by (auto simp: l'(5))
    then show ?thesis using chain_cong old(4) by metis
  qed
  moreover have "m_Head l' = hd ((us @ vs) @ [INVALID_LLIST_IDX])"
    using inv by (cases us) (auto simp: l'(6) ll_inv_def)
  moreover have "m_Tail l' = last (INVALID_LLIST_IDX # us @ vs)"
    using inv by (cases "vs = []") (auto simp: l'(7) ll_inv_def last_append)
  moreover have "m_ElementCount l' = of_nat (length (us @ vs))"
    using inv by (simp add: l'(9) ll_inv_def)
  moreover have "prv l' i = i" if "inr l' i" "i \<notin> set (us @ vs)" for i
  proof (cases "i = e")
    case False
    then have "prv l i = i" using inv that same_nodes_inr [OF l'(3)] by (simp add: ll_inv_def)
    moreover have "vs \<noteq> [] \<Longrightarrow> i \<noteq> hd vs" using that(2) hd_in_set by auto
    ultimately show ?thesis using False by (simp add: l'(4))
  qed (simp add: l'(4))
  moreover have "nxt l' i = i" if "inr l' i" "i \<notin> set (us @ vs)" "i \<notin> set fs" for i
  proof (cases "i = e")
    case False
    then have "nxt l i = i" using inv that same_nodes_inr [OF l'(3)] by (simp add: ll_inv_def)
    moreover have "us \<noteq> [] \<Longrightarrow> i \<noteq> last us" using that(2) last_in_set by auto
    ultimately show ?thesis using False by (simp add: l'(5))
  qed (simp add: l'(5))
  moreover have "m_FirstFree l' = hd (fs @ [INVALID_LLIST_IDX])" using inv by (simp add: l'(8) ll_inv_def)
  ultimately have "ll_inv l' (us @ vs) fs"
    using old(1,2) l'(2) same_nodes_inr [OF l'(3)] by (auto simp: ll_inv_def)
  with l'(1,3) show ?thesis by blast
qed

text \<open>Linking a node that is allocated but in no list, between \<open>us\<close> and \<open>vs\<close>.\<close>

definition detached :: "('a, 'i :: len) llist \<Rightarrow> 'i word list \<Rightarrow> 'i word list \<Rightarrow> 'i word \<Rightarrow> bool" where
  "detached l xs fs e \<longleftrightarrow> inr l e \<and> e \<notin> set xs \<and> e \<notin> set fs"

lemma Unlink_detached: "ll_inv l xs fs \<Longrightarrow> detached l xs fs e \<Longrightarrow> Unlink e l = Some l"
  by (simp add: Unlink_def IsInList_iff detached_def)

lemma ll_inv_ends:
  assumes "ll_inv l (us @ vs) fs"
  shows "us \<noteq> [] \<Longrightarrow> inr l (last us) \<and> last us \<noteq> INVALID_LLIST_IDX"
    "vs \<noteq> [] \<Longrightarrow> inr l (hd vs) \<and> hd vs \<noteq> INVALID_LLIST_IDX"
    "vs \<noteq> [] \<Longrightarrow> prv l (hd vs) = last (INVALID_LLIST_IDX # us)"
    "us \<noteq> [] \<Longrightarrow> nxt l (last us) = hd (vs @ [INVALID_LLIST_IDX])"
    "us \<noteq> [] \<Longrightarrow> vs \<noteq> [] \<Longrightarrow> last us \<noteq> hd vs"
proof -
  have d: "distinct (us @ vs)" "\<forall>i \<in> set (us @ vs). inr l i"
    "seg (prv l) (nxt l) INVALID_LLIST_IDX (us @ vs) INVALID_LLIST_IDX"
    using assms by (auto simp: ll_inv_def)
  show "inr l (last us) \<and> last us \<noteq> INVALID_LLIST_IDX" if "us \<noteq> []"
    using d(2) last_in_set [OF that] inr_valid by fastforce
  show "inr l (hd vs) \<and> hd vs \<noteq> INVALID_LLIST_IDX" if "vs \<noteq> []"
    using d(2) hd_in_set [OF that] inr_valid by fastforce
  show "prv l (hd vs) = last (INVALID_LLIST_IDX # us)" if "vs \<noteq> []"
    using d(3) that by (cases vs) (auto simp: seg_append)
  show "nxt l (last us) = hd (vs @ [INVALID_LLIST_IDX])" if ne: "us \<noteq> []"
  proof -
    obtain ws u where "us = ws @ [u]" using ne by (cases us rule: rev_cases) auto
    with d(3) show ?thesis by (simp add: seg_append)
  qed
  show "last us \<noteq> hd vs" if "us \<noteq> []" "vs \<noteq> []"
    using d(1) last_in_set [OF that(1)] hd_in_set [OF that(2)] by (auto simp: disjoint_iff)
qed

definition linked_between ::
  "'i :: len word list \<Rightarrow> 'i word \<Rightarrow> 'i word list \<Rightarrow> ('a, 'i) llist \<Rightarrow> ('a, 'i) llist \<Rightarrow> bool" where
  "linked_between us e vs l l' \<longleftrightarrow> nodes_ok l' \<and> same_nodes l' l \<and>
    prv l' = (if vs = [] then prv l else (prv l)(hd vs := e))(e := last (INVALID_LLIST_IDX # us)) \<and>
    nxt l' = (if us = [] then nxt l else (nxt l)(last us := e))(e := hd (vs @ [INVALID_LLIST_IDX])) \<and>
    m_Head l' = (if us = [] then e else m_Head l) \<and> m_Tail l' = (if vs = [] then e else m_Tail l) \<and>
    m_FirstFree l' = m_FirstFree l \<and> m_ElementCount l' = m_ElementCount l + 1"

lemma LinkBefore_effect:
  assumes inv: "ll_inv l (us @ vs) fs" and e: "detached l (us @ vs) fs e"
  shows "\<exists>l'. LinkBefore (hd (vs @ [INVALID_LLIST_IDX])) e l = Some l' \<and> linked_between us e vs l l'"
proof -
  note ends = ll_inv_ends [OF inv]
  have ok: "nodes_ok l" "m_Tail l = last (INVALID_LLIST_IDX # us @ vs)" using inv by (auto simp: ll_inv_def)
  have er: "inr l e" "us \<noteq> [] \<Longrightarrow> last us \<noteq> e" "vs \<noteq> [] \<Longrightarrow> hd vs \<noteq> e"
    using e last_in_set hd_in_set by (auto simp: detached_def)
  note defs = LinkBefore_def Unlink_detached [OF inv e] ll_simps same_nodes_def linked_between_def
  show ?thesis
  proof (cases "us = []"; cases "vs = []")
    assume "us = []" "vs = []"
    with ends ok er show ?thesis by (simp add: defs)
  next
    assume "us = []" "vs \<noteq> []"
    with ends ok er show ?thesis by (simp add: defs) (auto simp: fun_eq_iff)
  next
    assume "us \<noteq> []" "vs = []"
    with ends ok er show ?thesis by (simp add: defs) (auto simp: fun_eq_iff)
  next
    assume "us \<noteq> []" "vs \<noteq> []"
    with ends ok er show ?thesis by (simp add: defs) (auto simp: fun_eq_iff)
  qed
qed

lemma LinkAfter_effect:
  assumes inv: "ll_inv l (us @ vs) fs" and e: "detached l (us @ vs) fs e"
  shows "\<exists>l'. LinkAfter (last (INVALID_LLIST_IDX # us)) e l = Some l' \<and> linked_between us e vs l l'"
proof -
  note ends = ll_inv_ends [OF inv]
  have ok: "nodes_ok l" "m_Head l = hd ((us @ vs) @ [INVALID_LLIST_IDX])"
    "IsInList l e = Some False" using inv e by (auto simp: ll_inv_def IsInList_iff [OF inv] detached_def)
  have er: "inr l e" "us \<noteq> [] \<Longrightarrow> last us \<noteq> e" "vs \<noteq> [] \<Longrightarrow> hd vs \<noteq> e"
    using e last_in_set hd_in_set by (auto simp: detached_def)
  note defs = LinkAfter_def ll_simps same_nodes_def linked_between_def
  show ?thesis
  proof (cases "us = []"; cases "vs = []")
    assume "us = []" "vs = []"
    with ends ok er show ?thesis by (simp add: defs)
  next
    assume "us = []" "vs \<noteq> []"
    with ends ok er show ?thesis by (simp add: defs) (auto simp: fun_eq_iff)
  next
    assume "us \<noteq> []" "vs = []"
    with ends ok er show ?thesis by (simp add: defs) (auto simp: fun_eq_iff)
  next
    assume "us \<noteq> []" "vs \<noteq> []"
    with ends ok er show ?thesis by (simp add: defs) (auto simp: fun_eq_iff)
  qed
qed

lemma seg_insert:
  assumes "seg P N p (us @ vs) n" "distinct (us @ vs)" "e \<notin> set (us @ vs)"
    "P' = (if vs = [] then P else P(hd vs := e))(e := last (p # us))"
    "N' = (if us = [] then N else N(last us := e))(e := hd (vs @ [n]))"
  shows "seg P' N' p (us @ e # vs) n"
proof -
  have s: "seg P N p us (hd (vs @ [n]))" "seg P N (last (p # us)) vs n" using assms(1) by (auto simp: seg_append)
  have lu: "us \<noteq> [] \<Longrightarrow> last us \<notin> set vs" "vs \<noteq> [] \<Longrightarrow> hd vs \<notin> set us"
    using assms(2) last_in_set [of us] hd_in_set [of vs] by (auto simp: disjoint_iff)
  have "seg P' N' p us e"
  proof (cases "us = []")
    case False
    have "seg P (N(last us := e)) p us e" using seg_new_last [OF s(1) False] assms(2) by simp
    moreover have "\<forall>x \<in> set us. P' x = P x \<and> N' x = (N(last us := e)) x"
      using assms(3) False lu(2) by (auto simp: assms(4,5))
    ultimately show ?thesis using seg_cong [of us P' P N' "N(last us := e)"] by simp
  qed simp
  moreover have "seg P' N' e vs n"
  proof (cases "vs = []")
    case False
    have "seg (P(hd vs := e)) N e vs n"
    proof (cases vs)
      case (Cons v ws)
      then show ?thesis using s(2) assms(2) seg_cong [of ws "P(v := e)" P N N v n] by auto
    qed simp
    moreover have "\<forall>x \<in> set vs. P' x = (P(hd vs := e)) x \<and> N' x = N x"
      using assms(3) False lu(1) by (auto simp: assms(4,5))
    ultimately show ?thesis using seg_cong [of vs P' "P(hd vs := e)" N' N] by simp
  qed simp
  ultimately show ?thesis using assms(3) by (simp add: seg_append assms(4,5))
qed

lemma linked_between_inv:
  assumes inv: "ll_inv l (us @ vs) fs" and e: "detached l (us @ vs) fs e" and l': "linked_between us e vs l l'"
  shows "ll_inv l' (us @ e # vs) fs \<and> same_nodes l' l"
proof -
  have sn: "same_nodes l' l" "nodes_ok l'" and P': "prv l' = (if vs = [] then prv l else (prv l)(hd vs := e))
      (e := last (INVALID_LLIST_IDX # us))"
    and N': "nxt l' = (if us = [] then nxt l else (nxt l)(last us := e))(e := hd (vs @ [INVALID_LLIST_IDX]))"
    using l' by (auto simp: linked_between_def)
  have old: "distinct ((us @ vs) @ fs)" "\<forall>i \<in> set ((us @ vs) @ fs). inr l i"
    "seg (prv l) (nxt l) INVALID_LLIST_IDX (us @ vs) INVALID_LLIST_IDX"
    "chain (nxt l) fs INVALID_LLIST_IDX" using inv by (auto simp: ll_inv_def)
  have en: "e \<notin> set (us @ vs)" "e \<notin> set fs" "inr l e" using e by (auto simp: detached_def)
  have d2: "distinct (us @ vs)" using old(1) by (simp only: distinct_append)
  have "seg (prv l') (nxt l') INVALID_LLIST_IDX (us @ e # vs) INVALID_LLIST_IDX"
    by (rule seg_insert [OF old(3) d2 en(1) P' N'])
  moreover have "chain (nxt l') fs INVALID_LLIST_IDX"
  proof -
    have "us \<noteq> [] \<Longrightarrow> last us \<notin> set fs" using last_in_set [of us] old(1) by (auto simp: disjoint_iff)
    then have "\<forall>x \<in> set fs. nxt l' x = nxt l x" using en(2) by (auto simp: N')
    then show ?thesis using chain_cong old(4) by metis
  qed
  moreover have "m_Head l' = hd ((us @ e # vs) @ [INVALID_LLIST_IDX])"
    using inv l' by (cases us) (auto simp: linked_between_def ll_inv_def)
  moreover have "m_Tail l' = last (INVALID_LLIST_IDX # us @ e # vs)"
    using inv l' by (cases "vs = []") (auto simp: linked_between_def ll_inv_def last_append)
  moreover have "m_ElementCount l' = of_nat (length (us @ e # vs))"
    using inv l' by (simp add: linked_between_def ll_inv_def)
  moreover have "prv l' i = i" if "inr l' i" "i \<notin> set (us @ e # vs)" for i
  proof -
    have "prv l i = i" using inv that same_nodes_inr [OF sn(1)] by (simp add: ll_inv_def)
    moreover have "vs \<noteq> [] \<Longrightarrow> i \<noteq> hd vs" using that(2) hd_in_set by auto
    ultimately show ?thesis using that(2) by (simp add: P')
  qed
  moreover have "nxt l' i = i" if "inr l' i" "i \<notin> set (us @ e # vs)" "i \<notin> set fs" for i
  proof -
    have "nxt l i = i" using inv that same_nodes_inr [OF sn(1)] by (simp add: ll_inv_def)
    moreover have "us \<noteq> [] \<Longrightarrow> i \<noteq> last us" using that(2) last_in_set by auto
    ultimately show ?thesis using that(2) by (simp add: N')
  qed
  moreover have "m_FirstFree l' = hd (fs @ [INVALID_LLIST_IDX])"
    using inv l' by (simp add: linked_between_def ll_inv_def)
  ultimately show ?thesis
    using old(1,2) sn en same_nodes_inr [OF sn(1)] by (auto simp: ll_inv_def)
qed

lemma LinkBefore_result:
  assumes "ll_inv l (us @ vs) fs" "detached l (us @ vs) fs e"
  shows "\<exists>l'. LinkBefore (hd (vs @ [INVALID_LLIST_IDX])) e l = Some l' \<and> ll_inv l' (us @ e # vs) fs \<and> same_nodes l' l"
  using LinkBefore_effect [OF assms] linked_between_inv [OF assms] by blast

lemma LinkAfter_result:
  assumes "ll_inv l (us @ vs) fs" "detached l (us @ vs) fs e"
  shows "\<exists>l'. LinkAfter (last (INVALID_LLIST_IDX # us)) e l = Some l' \<and> ll_inv l' (us @ e # vs) fs \<and> same_nodes l' l"
  using LinkAfter_effect [OF assms] linked_between_inv [OF assms] by blast

text \<open>A node that is already linked is unlinked first, and may move anywhere among the others.\<close>

lemma LinkBefore_unlinked:
  "Unlink e l = Some k \<Longrightarrow> Unlink e k = Some k \<Longrightarrow> LinkBefore b e l = LinkBefore b e k"
  by (simp add: LinkBefore_def)

lemma LinkAfter_unlinked:
  "IsInList l e = Some True \<Longrightarrow> Unlink e l = Some k \<Longrightarrow> IsInList k e = Some False \<Longrightarrow>
   LinkAfter b e l = LinkAfter b e k"
  by (simp add: LinkAfter_def)

lemma move_result:
  assumes inv: "ll_inv l (xs @ e # ys) fs" and split: "xs @ ys = us @ vs"
  shows "\<exists>l1 l2. LinkBefore (hd (vs @ [INVALID_LLIST_IDX])) e l = Some l1 \<and>
      ll_inv l1 (us @ e # vs) fs \<and> same_nodes l1 l \<and>
    LinkAfter (last (INVALID_LLIST_IDX # us)) e l = Some l2 \<and>
      ll_inv l2 (us @ e # vs) fs \<and> same_nodes l2 l"
proof -
  from Unlink_result [OF inv] obtain k where
    k: "Unlink e l = Some k" "ll_inv k (us @ vs) fs" "same_nodes k l" unfolding split by blast
  have "e \<notin> set (xs @ ys) \<and> e \<notin> set fs \<and> inr l e" using inv by (auto simp: ll_inv_def)
  then have d: "detached k (us @ vs) fs e" unfolding split using same_nodes_inr [OF k(3)] by (simp add: detached_def)
  have il: "IsInList l e = Some True" "IsInList k e = Some False"
    using IsInList_iff [OF inv] IsInList_iff [OF k(2)] d by (auto simp: detached_def)
  note eqs = LinkBefore_unlinked [OF k(1) Unlink_detached [OF k(2) d]] LinkAfter_unlinked [OF il(1) k(1) il(2)]
  have "same_nodes l' k \<Longrightarrow> same_nodes l' l" for l' using k(3) by (simp add: same_nodes_def)
  with LinkBefore_result [OF k(2) d] LinkAfter_result [OF k(2) d] show ?thesis unfolding eqs by blast
qed

subsection \<open>Allocation and release\<close>

definition growable :: "('a, 'i :: len) llist \<Rightarrow> bool" where
  "growable l \<longleftrightarrow> 0 \<le> m_nGrowSize (l_Memory l)"

text \<open>There is a node to give out: a free one, or an index left that is not the invalid one.\<close>

definition room :: "('a, 'i :: len) llist \<Rightarrow> bool" where
  "room l \<longleftrightarrow> m_FirstFree l \<noteq> INVALID_LLIST_IDX \<or> m_TotalElements l \<noteq> INVALID_LLIST_IDX"

lemma unat_Suc_valid: "i \<noteq> INVALID_LLIST_IDX \<Longrightarrow> unat (i + 1) = Suc (unat i)"
proof -
  assume "i \<noteq> INVALID_LLIST_IDX"
  then have "1 + i \<noteq> 0" by (simp add: INVALID_LLIST_IDX_def eq_neg_iff_add_eq_0 add.commute)
  from unatSuc [OF this] show ?thesis by (simp add: add.commute)
qed

lemma new_node_memory:
  assumes "nodes_ok l" "growable l"
  shows "\<exists>m. (if m_TotalElements l = word_of_int (Memory_NumAllocated (l_Memory l))
      then Memory_Grow raw 1 (l_Memory l) else Some (l_Memory l)) = Some m \<and>
    mem_inv m \<and> Suc (unat (m_TotalElements l)) \<le> nat (m_nAllocationCount m) \<and>
    m_nGrowSize m = m_nGrowSize (l_Memory l) \<and> (\<forall>k < unat (m_TotalElements l). m_pMemory m ! k = cells l ! k)"
proof (cases "m_TotalElements l = word_of_int (Memory_NumAllocated (l_Memory l))")
  case False
  have "unat (m_TotalElements l) \<noteq> nat (m_nAllocationCount (l_Memory l))"
  proof
    assume "unat (m_TotalElements l) = nat (m_nAllocationCount (l_Memory l))"
    then have "int (unat (m_TotalElements l)) = m_nAllocationCount (l_Memory l)"
      using assms(1) by (simp add: nodes_ok_def mem_inv_def)
    then have "m_TotalElements l = word_of_int (m_nAllocationCount (l_Memory l))"
      by (metis uint_int_unat word_of_int_uint)
    with False show False by (simp add: Memory_NumAllocated_def)
  qed
  with False assms(1) show ?thesis by (auto simp: nodes_ok_def cells_def)
next
  case True
  from Memory_Grow_result [of "l_Memory l" 1 raw] assms obtain m where
    m: "Memory_Grow raw 1 (l_Memory l) = Some m" "mem_inv m"
      "m_nAllocationCount (l_Memory l) + 1 \<le> m_nAllocationCount m"
      "m_nGrowSize m = m_nGrowSize (l_Memory l)"
      "take (nat (m_nAllocationCount (l_Memory l))) (m_pMemory m) =
       take (nat (m_nAllocationCount (l_Memory l))) (m_pMemory (l_Memory l))"
    by (auto simp: nodes_ok_def growable_def)
  have "m_pMemory m ! k = cells l ! k" if "k < unat (m_TotalElements l)" for k
  proof -
    have "k < nat (m_nAllocationCount (l_Memory l))" using that assms(1) by (simp add: nodes_ok_def)
    then show ?thesis using m(5) unfolding cells_def by (metis nth_take)
  qed
  moreover have "Suc (unat (m_TotalElements l)) \<le> nat (m_nAllocationCount m)"
    using assms(1) m(3) by (auto simp: nodes_ok_def mem_inv_def)
  ultimately show ?thesis using True m by auto
qed

lemma AllocInternal_result:
  assumes inv: "ll_inv l xs fs" and g: "growable l" and r: "room l"
  shows "\<exists>e l' gs. AllocInternal raw False l = Some (e, l') \<and> ll_inv l' xs gs \<and> detached l' xs gs e \<and>
    growable l' \<and> (\<forall>i. inr l i \<longrightarrow> inr l' i \<and> val l' i = val l i) \<and>
    (\<forall>i. inr l' i \<longrightarrow> inr l i \<or> i = e) \<and> (fs = e # gs \<or> fs = [] \<and> gs = [] \<and> e = m_TotalElements l)"
proof (cases fs)
  case (Cons e gs)
  define l' where "l' = put_next e e (put_prev e e (l\<lparr>m_FirstFree := nxt l e\<rparr>))"
  have e: "inr l e" "e \<notin> set xs" "e \<notin> set gs" "m_FirstFree l = e" "nodes_ok l"
    "nxt l e = hd (gs @ [INVALID_LLIST_IDX])" using inv Cons by (auto simp: ll_inv_def)
  have ne: "e \<noteq> INVALID_LLIST_IDX" by (rule inr_valid [OF e(1)])
  have a: "AllocInternal raw False l = Some (e, l')"
    using e ne by (simp add: AllocInternal_def ll_simps l'_def)
  have fields: "nodes_ok l'" "inr l' = inr l" "prv l' = (prv l)(e := e)" "nxt l' = (nxt l)(e := e)"
    "val l' = val l" "m_Head l' = m_Head l" "m_Tail l' = m_Tail l" "m_FirstFree l' = nxt l e"
    "m_ElementCount l' = m_ElementCount l" "growable l' = growable l"
    using e by (auto simp: ll_simps growable_def l'_def)
  have "seg ((prv l)(e := e)) ((nxt l)(e := e)) INVALID_LLIST_IDX xs INVALID_LLIST_IDX"
    using inv e(2) seg_cong [of xs "(prv l)(e := e)" "prv l" "(nxt l)(e := e)" "nxt l"] by (auto simp: ll_inv_def)
  moreover have "chain ((nxt l)(e := e)) gs INVALID_LLIST_IDX"
    using inv e(3) Cons chain_cong [of gs "(nxt l)(e := e)" "nxt l"] by (auto simp: ll_inv_def)
  ultimately have "ll_inv l' xs gs" using inv Cons e by (auto simp: ll_inv_def fields)
  moreover have "detached l' xs gs e" using e by (simp add: detached_def fields)
  moreover have "\<forall>i. inr l i \<longrightarrow> inr l' i \<and> val l' i = val l i" "\<forall>i. inr l' i \<longrightarrow> inr l i \<or> i = e"
    by (simp_all add: fields)
  moreover have "growable l'" using g fields(10) by simp
  ultimately show ?thesis using a Cons by blast
next
  case Nil
  let ?e = "m_TotalElements l"
  have ff: "m_FirstFree l = INVALID_LLIST_IDX" and ok: "nodes_ok l" using inv Nil by (auto simp: ll_inv_def)
  with r have ev: "?e \<noteq> INVALID_LLIST_IDX" by (simp add: room_def)
  from new_node_memory [OF ok g, of raw] obtain m where
    m: "(if ?e = word_of_int (Memory_NumAllocated (l_Memory l))
         then Memory_Grow raw 1 (l_Memory l) else Some (l_Memory l)) = Some m"
      "mem_inv m" "Suc (unat ?e) \<le> nat (m_nAllocationCount m)" "m_nGrowSize m = m_nGrowSize (l_Memory l)"
      "\<forall>k < unat ?e. m_pMemory m ! k = cells l ! k" by blast
  let ?k = "l\<lparr>l_Memory := m, m_TotalElements := ?e + 1\<rparr>"
  define l' where "l' = put_next ?e ?e (put_prev ?e ?e ?k)"
  have k: "nodes_ok ?k" "inr ?k ?e" "\<And>i. inr l i \<Longrightarrow> inr ?k i"
    "\<And>i. inr ?k i \<Longrightarrow> i \<noteq> ?e \<Longrightarrow> inr l i"
    using m(2,3) unat_Suc_valid [OF ev] by (auto simp: nodes_ok_def inr_def less_Suc_eq word_unat_eq_iff)
  have old: "prv ?k i = prv l i" "nxt ?k i = nxt l i" "val ?k i = val l i" if "inr l i" for i
    using m(5) that by (auto simp: prv_def nxt_def val_def inr_def cells_def)
  have a: "AllocInternal raw False l = Some (?e, l')"
    using m(1) ff ev k by (simp add: AllocInternal_def Let_def ll_simps l'_def)
  have fields: "nodes_ok l'" "inr l' = inr ?k" "prv l' = (prv ?k)(?e := ?e)" "nxt l' = (nxt ?k)(?e := ?e)"
    "val l' = val ?k" "m_Head l' = m_Head l" "m_Tail l' = m_Tail l" "m_FirstFree l' = m_FirstFree l"
    "m_ElementCount l' = m_ElementCount l" "growable l' = growable l"
    using k m(4) by (auto simp: ll_simps growable_def l'_def)
  have nl: "\<not> inr l ?e" by (simp add: inr_def)
  then have xs: "?e \<notin> set xs" "\<forall>i \<in> set xs. inr l i" using inv by (auto simp: ll_inv_def)
  have "seg (prv l') (nxt l') INVALID_LLIST_IDX xs INVALID_LLIST_IDX"
  proof -
    have "\<forall>x \<in> set xs. prv l' x = prv l x \<and> nxt l' x = nxt l x" using xs old by (auto simp: fields)
    then show ?thesis using inv seg_cong [of xs "prv l'" "prv l" "nxt l'" "nxt l"] by (simp add: ll_inv_def)
  qed
  then have "ll_inv l' xs []" using inv Nil xs k old ff by (auto simp: ll_inv_def fields)
  moreover have "detached l' xs [] ?e" using xs(1) k(2) by (simp add: detached_def fields)
  moreover have "\<forall>i. inr l i \<longrightarrow> inr l' i \<and> val l' i = val l i" using k(3) old(3) by (auto simp: fields)
  moreover have "\<forall>i. inr l' i \<longrightarrow> inr l i \<or> i = ?e" using k(4) by (auto simp: fields)
  moreover have "growable l'" using g fields(10) by simp
  ultimately show ?thesis using a Nil by blast
qed

lemma Free_detached:
  assumes inv: "ll_inv l xs fs" and e: "detached l xs fs e"
  shows "ll_inv ((put_next e (m_FirstFree l) l)\<lparr>m_FirstFree := e\<rparr>) xs (e # fs)"
proof -
  let ?l' = "(put_next e (m_FirstFree l) l)\<lparr>m_FirstFree := e\<rparr>"
  have ok: "nodes_ok l" "inr l e" "e \<notin> set xs" "e \<notin> set fs" using inv e by (auto simp: ll_inv_def detached_def)
  have fields: "nodes_ok ?l'" "inr ?l' = inr l" "prv ?l' = prv l" "nxt ?l' = (nxt l)(e := m_FirstFree l)"
    "m_Head ?l' = m_Head l" "m_Tail ?l' = m_Tail l" "m_FirstFree ?l' = e" "m_ElementCount ?l' = m_ElementCount l"
    using ok by (auto simp: ll_simps)
  have "seg (prv l) ((nxt l)(e := m_FirstFree l)) INVALID_LLIST_IDX xs INVALID_LLIST_IDX"
    using inv ok(3) seg_cong [of xs "prv l" "prv l" "(nxt l)(e := m_FirstFree l)" "nxt l"] by (auto simp: ll_inv_def)
  moreover have "chain ((nxt l)(e := m_FirstFree l)) fs INVALID_LLIST_IDX"
    using inv ok(4) chain_cong [of fs "(nxt l)(e := m_FirstFree l)" "nxt l"] by (auto simp: ll_inv_def)
  ultimately show ?thesis using inv ok by (auto simp: ll_inv_def ll_simps)
qed

lemma Free_result:
  assumes inv: "ll_inv l xs fs" and e: "inr l e" "e \<notin> set fs"
  shows "\<exists>l'. LL_Free e l = Some l' \<and> ll_inv l' (remove1 e xs) (e # fs) \<and> same_nodes l' l"
proof -
  have v: "LL_IsValidIndex l e = Some True" using IsValidIndex_iff [OF inv] e by simp
  have "\<exists>k. Unlink e l = Some k \<and> ll_inv k (remove1 e xs) fs \<and> same_nodes k l \<and> detached k (remove1 e xs) fs e"
  proof (cases "e \<in> set xs")
    case False
    then have "detached l xs fs e" using e by (simp add: detached_def)
    with Unlink_detached [OF inv this] inv False show ?thesis by (simp add: remove1_idem same_nodes_def)
  next
    case True
    then obtain us vs where xs: "xs = us @ e # vs" "e \<notin> set us" using split_list_first by metis
    have "remove1 e xs = us @ vs" using xs by (simp add: remove1_append)
    moreover have "e \<notin> set vs" using inv xs(1) by (auto simp: ll_inv_def)
    ultimately show ?thesis using Unlink_result [of l us e vs fs] inv e xs same_nodes_inr
      by (fastforce simp: detached_def)
  qed
  then obtain k where k: "Unlink e l = Some k" "ll_inv k (remove1 e xs) fs" "same_nodes k l"
    "detached k (remove1 e xs) fs e" by blast
  have "nodes_ok k" "inr k e" using k(2,4) by (auto simp: ll_inv_def detached_def)
  then have "LL_Free e l = Some ((put_next e (m_FirstFree k) k)\<lparr>m_FirstFree := e\<rparr>)"
    using v k(1) by (simp add: LL_Free_def ll_simps)
  moreover have "same_nodes ((put_next e (m_FirstFree k) k)\<lparr>m_FirstFree := e\<rparr>) l"
    using k(3) \<open>nodes_ok k\<close> \<open>inr k e\<close> by (simp add: same_nodes_def ll_simps)
  ultimately show ?thesis using Free_detached [OF k(2,4)] by blast
qed

subsection \<open>Insertion, search and clearing\<close>

lemma put_val_inv: "ll_inv l xs fs \<Longrightarrow> inr l e \<Longrightarrow> ll_inv (put_val e x l) xs fs"
  unfolding ll_inv_def by (simp add: ll_simps)

lemma values_insert:
  assumes "ll_inv l (us @ e # vs) fs" "\<forall>i \<in> set (us @ vs). val l i = val l0 i"
  shows "ll_values (put_val e x l) (us @ e # vs) = ll_values l0 us @ x # ll_values l0 vs"
proof -
  have "val (put_val e x l) = (val l)(e := x)" "e \<notin> set us" "e \<notin> set vs"
    using assms(1) by (auto simp: ll_inv_def ll_simps)
  with assms(2) show ?thesis by (auto simp: ll_values_def)
qed

lemma LL_Insert_result:
  assumes inv: "ll_inv l (us @ vs) fs" and g: "growable l" and r: "room l"
  shows "\<exists>e l1 l2 gs. LL_InsertBefore raw (hd (vs @ [INVALID_LLIST_IDX])) x l = Some (e, l1) \<and>
      ll_inv l1 (us @ e # vs) gs \<and> growable l1 \<and>
      ll_values l1 (us @ e # vs) = ll_values l us @ x # ll_values l vs \<and>
    LL_InsertAfter raw (last (INVALID_LLIST_IDX # us)) x l = Some (e, l2) \<and>
      ll_inv l2 (us @ e # vs) gs \<and> growable l2 \<and>
      ll_values l2 (us @ e # vs) = ll_values l us @ x # ll_values l vs \<and>
    (\<forall>i. inr l1 i \<longrightarrow> inr l i \<or> i = e) \<and> (fs = e # gs \<or> fs = [] \<and> gs = [] \<and> e = m_TotalElements l)"
proof -
  from AllocInternal_result [OF inv g r, of raw] obtain e k gs where
    a: "AllocInternal raw False l = Some (e, k)" "ll_inv k (us @ vs) gs" "detached k (us @ vs) gs e"
      "growable k" "\<forall>i. inr l i \<longrightarrow> inr k i \<and> val k i = val l i" "\<forall>i. inr k i \<longrightarrow> inr l i \<or> i = e"
      "fs = e # gs \<or> fs = [] \<and> gs = [] \<and> e = m_TotalElements l" by blast
  have vk: "\<forall>i \<in> set (us @ vs). val k i = val l i" using inv a(5) by (auto simp: ll_inv_def)
  have fin: "ll_inv (put_val e x l') (us @ e # vs) gs \<and> growable (put_val e x l') \<and>
      ll_values (put_val e x l') (us @ e # vs) = ll_values l us @ x # ll_values l vs \<and>
      LL_SetElement e x l' = Some (put_val e x l')"
    if "ll_inv l' (us @ e # vs) gs" "same_nodes l' k" for l'
  proof -
    have "inr l' e" "nodes_ok l'" using that(1) by (auto simp: ll_inv_def)
    moreover have "\<forall>i \<in> set (us @ vs). val l' i = val l i" using vk that(2) by (simp add: same_nodes_def)
    ultimately show ?thesis using put_val_inv [OF that(1)] values_insert [OF that(1)] a(4) that(2)
      by (simp add: ll_simps growable_def same_nodes_def)
  qed
  obtain l1 where l1: "LinkBefore (hd (vs @ [INVALID_LLIST_IDX])) e k = Some l1"
    "ll_inv l1 (us @ e # vs) gs" "same_nodes l1 k" using LinkBefore_result [OF a(2,3)] by blast
  obtain l2 where l2: "LinkAfter (last (INVALID_LLIST_IDX # us)) e k = Some l2"
    "ll_inv l2 (us @ e # vs) gs" "same_nodes l2 k" using LinkAfter_result [OF a(2,3)] by blast
  have "LL_InsertBefore raw (hd (vs @ [INVALID_LLIST_IDX])) x l = Some (e, put_val e x l1)"
    using a(1) l1(1) fin [OF l1(2,3)] by (simp add: LL_InsertBefore_def)
  moreover have "LL_InsertAfter raw (last (INVALID_LLIST_IDX # us)) x l = Some (e, put_val e x l2)"
    using a(1) l2(1) fin [OF l2(2,3)] by (simp add: LL_InsertAfter_def)
  moreover have "\<forall>i. inr (put_val e x l1) i \<longrightarrow> inr l i \<or> i = e"
    using a(6) same_nodes_inr [OF l1(3)] by (simp add: ll_simps)
  ultimately show ?thesis using fin [OF l1(2,3)] fin [OF l2(2,3)] a(7) by blast
qed

definition first_node :: "('w \<Rightarrow> bool) \<Rightarrow> 'w list \<Rightarrow> 'w \<Rightarrow> 'w" where
  "first_node f xs n = (case List.find f xs of None \<Rightarrow> n | Some i \<Rightarrow> i)"

lemma LL_Find_from_result:
  assumes inv: "ll_inv l (us @ vs) fs"
  shows "LL_Find_from x (hd (vs @ [INVALID_LLIST_IDX])) l =
    Some (first_node (\<lambda>i. val l i = x) vs INVALID_LLIST_IDX)"
  using assms
proof (induction vs arbitrary: us)
  case Nil
  then show ?case by (subst LL_Find_from.simps) (simp add: first_node_def)
next
  case (Cons v vs)
  note parts = ll_inv_parts [OF Cons.prems]
  have ok: "nodes_ok l" using Cons.prems by (simp add: ll_inv_def)
  have v: "v \<noteq> INVALID_LLIST_IDX" using inr_valid [OF parts(3)] .
  show ?case
  proof (cases "val l v = x")
    case True
    with v ok parts show ?thesis by (subst LL_Find_from.simps) (simp add: ll_simps first_node_def)
  next
    case False
    have "LL_Find_from x v l = LL_Find_from x (hd (vs @ [INVALID_LLIST_IDX])) l"
      using v ok parts False by (subst LL_Find_from.simps) (simp add: ll_simps)
    also have "\<dots> = Some (first_node (\<lambda>i. val l i = x) vs INVALID_LLIST_IDX)"
      using Cons.IH [of "us @ [v]"] Cons.prems by simp
    finally show ?thesis using False by (simp add: first_node_def)
  qed
qed

lemma LL_Find_result:
  "ll_inv l xs fs \<Longrightarrow> LL_Find x l = Some (first_node (\<lambda>i. val l i = x) xs INVALID_LLIST_IDX)"
  using LL_Find_from_result [of l "[]" xs fs x] by (simp add: LL_Find_def ll_inv_def)

text \<open>All the indices in use, in their order.\<close>

definition indices :: "nat \<Rightarrow> 'i :: len word list" where
  "indices n = map of_nat [0 ..< n]"

lemma unat_index: "k < unat (m :: 'i :: len word) \<Longrightarrow> unat (of_nat k :: 'i word) = k"
proof -
  assume "k < unat m"
  also have "unat m < 2 ^ LENGTH('i)" by (rule unsigned_less)
  finally show ?thesis by (simp add: unsigned_of_nat take_bit_nat_eq_self_iff)
qed

lemma indices_inr: "inr l i \<longleftrightarrow> i \<in> set (indices (unat (m_TotalElements l)))"
proof
  assume "inr l i"
  then show "i \<in> set (indices (unat (m_TotalElements l)))"
    by (auto simp: indices_def inr_def intro!: image_eqI [of _ _ "unat i"])
next
  assume "i \<in> set (indices (unat (m_TotalElements l)))"
  then obtain k where "i = of_nat k" "k < unat (m_TotalElements l)" by (auto simp: indices_def)
  then show "inr l i" using unat_index [of k "m_TotalElements l"] by (simp add: inr_def)
qed

lemma distinct_indices: "n \<le> unat (m :: 'i :: len word) \<Longrightarrow> distinct (indices n :: 'i word list)"
  unfolding indices_def distinct_map
proof
  assume n: "n \<le> unat m"
  show "inj_on (of_nat :: nat \<Rightarrow> 'i word) (set [0 ..< n])"
  proof (rule inj_onI)
    fix a b assume "a \<in> set [0 ..< n]" "b \<in> set [0 ..< n]" and eq: "(of_nat a :: 'i word) = of_nat b"
    then have "a < unat m" "b < unat m" using n by auto
    then have "unat (of_nat a :: 'i word) = a" "unat (of_nat b :: 'i word) = b" using unat_index by blast+
    then show "a = b" unfolding eq by (rule trans [OF sym])
  qed
qed simp

lemma RemoveAll_loop_result:
  "nodes_ok l \<Longrightarrow> n \<le> unat (m_TotalElements l) \<Longrightarrow> \<exists>p l'. RemoveAll_loop n q l = Some (p, l') \<and>
    nodes_ok l' \<and> same_nodes l' l \<and> (\<forall>i. prv l' i = (if unat i < n then i else prv l i)) \<and>
    (\<forall>i. nxt l' i = (if unat i < n then if Suc (unat i) = n then q else i + 1 else nxt l i))"
proof (induction n arbitrary: q l)
  case 0
  then show ?case by (simp add: same_nodes_def)
next
  case (Suc n)
  let ?i = "of_nat n :: 'b word"
  have ui: "unat ?i = n" using unat_index [of n "m_TotalElements l"] Suc.prems(2) by simp
  then have i: "inr l ?i" using Suc.prems(2) by (simp add: inr_def)
  define k where "k = put_prev ?i ?i (put_next ?i q l)"
  have k: "nodes_ok k" "same_nodes k l" "prv k = (prv l)(?i := ?i)" "nxt k = (nxt l)(?i := q)"
    using Suc.prems(1) i by (auto simp: k_def ll_simps same_nodes_def)
  have v: "\<exists>b. LL_IsValidIndex l ?i = Some b"
    using i Suc.prems(1) InternalElement_ok [of l ?i] by (simp add: LL_IsValidIndex_def inr_def)
  have "n \<le> unat (m_TotalElements k)" using Suc.prems(2) k(2) by (simp add: same_nodes_def)
  from Suc.IH [OF k(1) this, of ?i] obtain p l' where
    l': "RemoveAll_loop n ?i k = Some (p, l')" "nodes_ok l'" "same_nodes l' k"
      "\<forall>i. prv l' i = (if unat i < n then i else prv k i)"
      "\<forall>i. nxt l' i = (if unat i < n then if Suc (unat i) = n then ?i else i + 1 else nxt k i)" by blast
  have "RemoveAll_loop (Suc n) q l = Some (p, l')"
    using v i Suc.prems(1) l'(1) by (auto simp: Let_def ll_simps k_def)
  moreover have "same_nodes l' l" using l'(3) k(2) by (simp add: same_nodes_def)
  moreover have eq: "unat j = n \<longleftrightarrow> j = ?i" for j using ui by (auto simp: word_unat_eq_iff)
  have "prv l' j = (if unat j < Suc n then j else prv l j)" for j
    using l'(4) eq [of j] by (auto simp: k(3) less_Suc_eq)
  moreover have "nxt l' j = (if unat j < Suc n then if Suc (unat j) = Suc n then q else j + 1 else nxt l j)" for j
  proof -
    have "j + 1 = ?i" if "Suc (unat j) = n"
    proof -
      have "?i = of_nat (Suc (unat j))" using that by simp
      also have "\<dots> = j + 1" by (simp add: add.commute)
      finally show ?thesis by simp
    qed
    then show ?thesis using l'(5) eq [of j] ui by (auto simp: k(4) less_Suc_eq)
  qed
  ultimately show ?case using l'(2) by blast
qed

lemma chain_indices:
  assumes "n \<le> unat (m :: 'i :: len word)"
    "\<forall>i. unat i < n \<longrightarrow> N i = (if Suc (unat i) = n then q else i + 1)"
  shows "k \<le> n \<Longrightarrow> chain N (map of_nat [k ..< n] :: 'i word list) q"
proof (induction "n - k" arbitrary: k)
  case (Suc d)
  then have k: "k < n" by simp
  have u: "unat (of_nat k :: 'i word) = k" using unat_index [of k m] k assms(1) by simp
  have "N (of_nat k) = hd (map of_nat [Suc k ..< n] @ [q])"
  proof (cases "Suc k = n")
    case True
    then show ?thesis using assms(2) u k by simp
  next
    case False
    then show ?thesis using assms(2) u k by (simp add: upt_conv_Cons add.commute)
  qed
  moreover have "chain N (map of_nat [Suc k ..< n] :: 'i word list) q" using Suc k by simp
  ultimately show ?case using k by (simp add: upt_conv_Cons)
qed simp

lemma RemoveAll_result:
  assumes inv: "ll_inv l xs fs"
  shows "\<exists>l'. LL_RemoveAll l = Some l' \<and> ll_inv l' [] (indices (unat (m_TotalElements l))) \<and> same_nodes l' l"
proof (cases "m_TotalElements l = 0")
  case True
  then have "\<not> inr l i" for i by (simp add: inr_def)
  then have "xs = []" "fs = []" using inv by (cases xs; cases fs; auto simp: ll_inv_def)+
  with True inv show ?thesis by (simp add: LL_RemoveAll_def indices_def same_nodes_def)
next
  case False
  let ?n = "unat (m_TotalElements l)"
  have ok: "nodes_ok l" using inv by (simp add: ll_inv_def)
  from RemoveAll_loop_result [OF ok order_refl, of INVALID_LLIST_IDX] obtain p k where
    k: "RemoveAll_loop ?n INVALID_LLIST_IDX l = Some (p, k)" "nodes_ok k" "same_nodes k l"
      "\<forall>i. prv k i = (if unat i < ?n then i else prv l i)"
      "\<forall>i. nxt k i = (if unat i < ?n then if Suc (unat i) = ?n then INVALID_LLIST_IDX else i + 1 else nxt l i)"
    by blast
  define l' where "l' = k\<lparr>m_FirstFree := 0, m_Head := INVALID_LLIST_IDX, m_Tail := INVALID_LLIST_IDX,
               m_ElementCount := 0\<rparr>"
  have l': "nodes_ok l'" "same_nodes l' l" "prv l' = prv k" "nxt l' = nxt k" "inr l' = inr l"
    "m_Head l' = INVALID_LLIST_IDX" "m_Tail l' = INVALID_LLIST_IDX" "m_ElementCount l' = 0" "m_FirstFree l' = 0"
    using k(2,3) by (auto simp: l'_def ll_simps same_nodes_def inr_def)
  have n0: "0 < ?n" using False by (simp add: unat_gt_0)
  have "chain (nxt l') (indices ?n) INVALID_LLIST_IDX"
    unfolding indices_def l'(4) using k(5) by (intro chain_indices [OF order_refl]) auto
  moreover have "m_FirstFree l' = hd (indices ?n @ [INVALID_LLIST_IDX])"
    using n0 by (simp add: l'(9) indices_def upt_conv_Cons)
  moreover have "\<forall>i. inr l' i \<longrightarrow> prv l' i = i" using k(4) by (simp add: l' inr_def)
  moreover have "\<forall>i. inr l' i \<longrightarrow> i \<in> set (indices ?n)" by (simp add: l'(5) indices_inr)
  moreover have "\<forall>i \<in> set (indices ?n). inr l' i" by (simp add: l'(5) indices_inr)
  ultimately have "ll_inv l' [] (indices ?n)"
    using l' distinct_indices [OF order_refl] by (auto simp: ll_inv_def)
  moreover have "LL_RemoveAll l = Some l'" using False k(1) by (simp add: LL_RemoveAll_def l'_def)
  ultimately show ?thesis using l'(2) by blast
qed

lemma new_inv:
  assumes "0 < sz" "0 \<le> grow" "0 \<le> init"
  shows "ll_inv (LinkedList_new raw sz grow init) [] [] \<and> growable (LinkedList_new raw sz grow init)"
  using assms
  by (auto simp: LinkedList_new_def ConstructList_def ll_inv_def nodes_ok_def mem_inv_def Memory_new_def
    inr_def growable_def)

lemma length_le_total:
  assumes "ll_inv l xs fs"
  shows "length xs + length fs \<le> unat (m_TotalElements l)"
proof -
  have "set (xs @ fs) \<subseteq> set (indices (unat (m_TotalElements l)))"
    using assms indices_inr by (fastforce simp: ll_inv_def)
  then have "card (set (xs @ fs)) \<le> card (set (indices (unat (m_TotalElements l)) :: 'b word list))"
    by (intro card_mono) auto
  moreover have "distinct (xs @ fs)" using assms by (simp add: ll_inv_def)
  ultimately show ?thesis
    using distinct_indices [OF order_refl, of "m_TotalElements l"]
    by (simp only: distinct_card) (simp add: indices_def)
qed

lemma Count_result: "ll_inv l xs fs \<Longrightarrow> LL_Count l = int (length xs)"
proof -
  assume inv: "ll_inv l xs fs"
  have "length xs < 2 ^ LENGTH('b)"
    using length_le_total [OF inv] unsigned_less [of "m_TotalElements l", where 'a = nat] by linarith
  then have "unat (of_nat (length xs) :: 'b word) = length xs"
    by (simp add: unsigned_of_nat take_bit_nat_eq_self_iff)
  then show ?thesis using inv by (simp only: LL_Count_def ll_inv_def uint_int_unat)
qed

subsection \<open>The contract of a queue\<close>

text \<open>
  A queue that holds the list \<open>xs\<close> and has room for \<open>k\<close> more: adding goes to the end, taking is from
  the front. Putting in and taking out in turn is what the client does.
\<close>

fun enqueue_all :: "('a \<Rightarrow> 'q \<Rightarrow> 'q option) \<Rightarrow> 'a list \<Rightarrow> 'q \<Rightarrow> 'q option" where
  "enqueue_all enq [] q = Some q"
| "enqueue_all enq (x # xs) q = do {q \<leftarrow> enq x q; enqueue_all enq xs q}"

fun dequeue_many :: "('q \<Rightarrow> ('a \<times> 'q) option) \<Rightarrow> nat \<Rightarrow> 'q \<Rightarrow> ('a list \<times> 'q) option" where
  "dequeue_many deq 0 q = Some ([], q)"
| "dequeue_many deq (Suc n) q = do {
     (x, q) \<leftarrow> deq q;
     (xs, q) \<leftarrow> dequeue_many deq n q;
     Some (x # xs, q)}"

locale fifo =
  fixes holds :: "'q \<Rightarrow> 'a list \<Rightarrow> nat \<Rightarrow> bool"
    and enq :: "'a \<Rightarrow> 'q \<Rightarrow> 'q option"
    and deq :: "'q \<Rightarrow> ('a \<times> 'q) option"
  assumes enq_holds: "holds q xs (Suc k) \<Longrightarrow> \<exists>q'. enq x q = Some q' \<and> holds q' (xs @ [x]) k"
    and deq_holds: "holds q (x # xs) k \<Longrightarrow> \<exists>q'. deq q = Some (x, q') \<and> holds q' xs (Suc k)"
begin

lemma enqueue_all_holds:
  "holds q ys (length xs + k) \<Longrightarrow> \<exists>q'. enqueue_all enq xs q = Some q' \<and> holds q' (ys @ xs) k"
proof (induction xs arbitrary: q ys)
  case (Cons x xs)
  then have "holds q ys (Suc (length xs + k))" by simp
  from enq_holds [OF this] obtain q' where "enq x q = Some q'" "holds q' (ys @ [x]) (length xs + k)" by blast
  with Cons.IH [of q' "ys @ [x]"] show ?case by auto
qed simp

lemma dequeue_many_holds:
  "holds q (xs @ ys) k \<Longrightarrow> \<exists>q'. dequeue_many deq (length xs) q = Some (xs, q') \<and> holds q' ys (length xs + k)"
proof (induction xs arbitrary: q k)
  case (Cons x xs)
  then have "holds q (x # (xs @ ys)) k" by simp
  from deq_holds [OF this] obtain q' where "deq q = Some (x, q')" "holds q' (xs @ ys) (Suc k)" by blast
  with Cons.IH [of q' "Suc k"] show ?case by auto
qed simp

lemma first_in_first_out:
  assumes "holds q ys (length xs + k)"
  shows "\<exists>q1 q2. enqueue_all enq xs q = Some q1 \<and>
    dequeue_many deq (length ys + length xs) q1 = Some (ys @ xs, q2) \<and> holds q2 [] (length ys + length xs + k)"
  using enqueue_all_holds [OF assms] dequeue_many_holds [of _ "ys @ xs" "[]" k] by fastforce

end

text \<open>The linked list provides it, as long as the index type has indices left.\<close>

definition ll_queue :: "('a, 'i :: len) llist \<Rightarrow> 'a list \<Rightarrow> nat \<Rightarrow> bool" where
  "ll_queue l ys k \<longleftrightarrow> (\<exists>xs fs. ll_inv l xs fs \<and> growable l \<and> ll_values l xs = ys \<and>
     (\<forall>i. inr l i \<longrightarrow> i \<in> set xs \<or> i \<in> set fs) \<and> length xs + k < 2 ^ LENGTH('i))"

definition ll_enqueue :: "(nat \<Rightarrow> ('a, 'i :: len) node) \<Rightarrow> 'a \<Rightarrow> ('a, 'i) llist \<Rightarrow> ('a, 'i) llist option" where
  "ll_enqueue raw x l = map_option snd (LL_AddToTail raw x l)"

lemma no_room_full:
  fixes l :: "('a, 'i :: len) llist"
  assumes "ll_inv l xs fs" "\<forall>i. inr l i \<longrightarrow> i \<in> set xs \<or> i \<in> set fs" "Suc (length xs) < 2 ^ LENGTH('i)"
  shows "room l"
proof (cases fs)
  case (Cons f gs)
  then have "inr l f" "m_FirstFree l = f" using assms(1) by (auto simp: ll_inv_def)
  then show ?thesis using inr_valid by (auto simp: room_def)
next
  case Nil
  then have "set (indices (unat (m_TotalElements l))) = set xs"
    using assms(1,2) indices_inr by (fastforce simp: ll_inv_def)
  then have "unat (m_TotalElements l) = length xs"
    using assms(1) distinct_indices [OF order_refl, of "m_TotalElements l"] distinct_card
    by (metis diff_zero distinct_append indices_def length_map length_upt ll_inv_def)
  moreover have "unat (- 1 :: 'i word) = 2 ^ LENGTH('i) - 1"
    by (simp add: unsigned_minus_1_eq_mask mask_eq_exp_minus_1)
  ultimately have "unat (m_TotalElements l) \<noteq> unat (- 1 :: 'i word)" using assms(3) by linarith
  then show ?thesis by (auto simp: room_def INVALID_LLIST_IDX_def)
qed

lemma ll_enqueue_holds:
  assumes "ll_queue l ys (Suc k)"
  shows "\<exists>l'. ll_enqueue raw x l = Some l' \<and> ll_queue l' (ys @ [x]) k"
proof -
  from assms obtain xs fs where
    q: "ll_inv l (xs @ []) fs" "growable l" "ll_values l xs = ys" "\<forall>i. inr l i \<longrightarrow> i \<in> set xs \<or> i \<in> set fs"
      "length xs + Suc k < 2 ^ LENGTH('b)" by (auto simp: ll_queue_def)
  have "room l" using no_room_full [of l xs fs] q by simp
  from LL_Insert_result [OF q(1,2) this, of raw x] obtain e l' gs where
    e: "LL_InsertBefore raw INVALID_LLIST_IDX x l = Some (e, l')" "ll_inv l' (xs @ [e]) gs" "growable l'"
      "ll_values l' (xs @ [e]) = ll_values l xs @ [x]" "\<forall>i. inr l' i \<longrightarrow> inr l i \<or> i = e"
      "fs = e # gs \<or> fs = [] \<and> gs = [] \<and> e = m_TotalElements l" by (auto simp: ll_values_def)
  have "\<forall>i. inr l' i \<longrightarrow> i \<in> set (xs @ [e]) \<or> i \<in> set gs" using e(5,6) q(4) by auto
  moreover have "length (xs @ [e]) + k < 2 ^ LENGTH('b)" using q(5) by simp
  ultimately have "ll_queue l' (ys @ [x]) k" using e(2-4) q(3) unfolding ll_queue_def by blast
  with e(1) show ?thesis by (simp add: ll_enqueue_def LL_AddToTail_def)
qed

lemma ll_dequeue_holds:
  assumes "ll_queue l (y # ys) k"
  shows "\<exists>l'. RemoveFromHead l = Some (y, l') \<and> ll_queue l' ys (Suc k)"
proof -
  from assms obtain xs fs where
    q: "ll_inv l xs fs" "growable l" "ll_values l xs = y # ys" "\<forall>i. inr l i \<longrightarrow> i \<in> set xs \<or> i \<in> set fs"
      "length xs + k < 2 ^ LENGTH('b)" by (auto simp: ll_queue_def)
  from q(3) obtain e vs where xs: "xs = e # vs" "val l e = y" "ll_values l vs = ys"
    by (cases xs) (auto simp: ll_values_def)
  have e: "m_Head l = e" "inr l e" "e \<notin> set fs" "nodes_ok l" "e \<notin> set vs"
    using q(1) xs(1) by (auto simp: ll_inv_def)
  from Free_result [OF q(1) e(2,3)] obtain l' where
    l': "LL_Free e l = Some l'" "ll_inv l' vs (e # fs)" "same_nodes l' l" using xs(1) by auto
  have "RemoveFromHead l = Some (y, l')"
    using l'(1) e xs(2) by (simp add: RemoveFromHead_def LL_Remove_def ll_simps)
  moreover have "ll_queue l' ys (Suc k)"
    unfolding ll_queue_def using l' q xs same_nodes_inr [OF l'(3)]
    by (intro exI [of _ vs] exI [of _ "e # fs"]) (auto simp: ll_values_def same_nodes_def growable_def)
  ultimately show ?thesis by blast
qed

interpretation ll_fifo: fifo "ll_queue :: ('a, 'i :: len) llist \<Rightarrow> 'a list \<Rightarrow> nat \<Rightarrow> bool"
  "ll_enqueue raw" RemoveFromHead for raw
  by unfold_locales (auto intro: ll_enqueue_holds ll_dequeue_holds)

subsection \<open>Properties\<close>

text \<open>A list of three nodes, of which the last is free, with indices of 16 bits.\<close>

definition sample_raw :: "nat \<Rightarrow> (int, 16) node" where
  "sample_raw i = \<lparr>m_Element = 0, m_Previous = 0, m_Next = 0\<rparr>"

definition sample_list :: "(int, 16) llist" where
  "sample_list =
     \<lparr>l_Memory = Memory_new
        (\<lambda>i. \<lparr>m_Element = 10 + int i, m_Previous = (if i = 0 then -1 else if i = 1 then 0 else 2),
              m_Next = (if i = 0 then 1 else -1)\<rparr>) 8 0 3,
      m_Head = 0, m_Tail = 1, m_FirstFree = 2, m_ElementCount = 2, m_TotalElements = 3\<rparr>"

lemma sample_list_links:
  "nodes_ok sample_list" "growable sample_list" "room sample_list" "m_TotalElements sample_list = 3"
  "prv sample_list 0 = -1" "prv sample_list 1 = 0" "prv sample_list 2 = 2"
  "nxt sample_list 0 = 1" "nxt sample_list 1 = -1" "nxt sample_list 2 = -1"
  "val sample_list 0 = 10" "val sample_list 1 = 11"
  "m_Head sample_list = 0" "m_Tail sample_list = 1" "m_FirstFree sample_list = 2" "m_ElementCount sample_list = 2"
  by (simp_all add: sample_list_def nodes_ok_def growable_def room_def mem_inv_def prv_def nxt_def val_def
    cells_def Memory_new_def PvAlloc_def INVALID_LLIST_IDX_def upt_conv_Cons)

lemma sample_list_inr: "inr sample_list i \<longleftrightarrow> i = 0 \<or> i = 1 \<or> i = 2"
proof -
  have "inr sample_list i \<longleftrightarrow> unat i = unat (0 :: 16 word) \<or> unat i = unat (1 :: 16 word) \<or> unat i = unat (2 :: 16 word)"
    by (auto simp: inr_def sample_list_links(4))
  then show ?thesis by (simp only: word_unat_eq_iff [symmetric])
qed

lemma sample_list_inv: "ll_inv sample_list ([0] @ [1]) [2]"
  using sample_list_links
  by (auto simp: ll_inv_def sample_list_inr INVALID_LLIST_IDX_def)

text \<open>
  C38: Insertion: in front of the node that begins \<open>vs\<close> (at the end when \<open>vs\<close> is empty), and likewise
  after the one that ends \<open>us\<close>, the new node stands between the two, with its value there and all other
  values and links as they were; the node is the one freed last, or a new index when none is free.
\<close>

theorem LL_Insert_correct:
  assumes "ll_inv l (us @ vs) fs" "growable l" "room l"
  shows "\<exists>e l1 l2 gs. LL_InsertBefore raw (hd (vs @ [INVALID_LLIST_IDX])) x l = Some (e, l1) \<and>
      ll_inv l1 (us @ e # vs) gs \<and> ll_values l1 (us @ e # vs) = ll_values l us @ x # ll_values l vs \<and>
    LL_InsertAfter raw (last (INVALID_LLIST_IDX # us)) x l = Some (e, l2) \<and>
      ll_inv l2 (us @ e # vs) gs \<and> ll_values l2 (us @ e # vs) = ll_values l us @ x # ll_values l vs \<and>
    (fs = e # gs \<or> fs = [] \<and> gs = [] \<and> e = m_TotalElements l)"
  using LL_Insert_result [OF assms, of raw x] by blast

theorem LL_Insert_correct_witness:
  "\<exists>e l1 l2 gs. LL_InsertBefore sample_raw (hd ([1] @ [INVALID_LLIST_IDX])) 77 sample_list = Some (e, l1) \<and>
      ll_inv l1 ([0] @ e # [1]) gs \<and>
      ll_values l1 ([0] @ e # [1]) = ll_values sample_list [0] @ 77 # ll_values sample_list [1] \<and>
    LL_InsertAfter sample_raw (last (INVALID_LLIST_IDX # [0])) 77 sample_list = Some (e, l2) \<and>
      ll_inv l2 ([0] @ e # [1]) gs \<and>
      ll_values l2 ([0] @ e # [1]) = ll_values sample_list [0] @ 77 # ll_values sample_list [1] \<and>
    ([2] = e # gs \<or> [2] = ([] :: 16 word list) \<and> gs = [] \<and> e = m_TotalElements sample_list)"
  by (rule LL_Insert_correct [OF sample_list_inv sample_list_links(2,3)])

text \<open>
  Removal: \<open>Remove\<close> of a linked node takes it and nothing else out of the list, no value moves,
  the count is one less, the index is no longer valid, and it is the first to be given out again.
\<close>

theorem LL_Remove_correct:
  assumes "ll_inv l (us @ e # vs) fs"
  shows "\<exists>l'. LL_Remove e l = Some l' \<and> ll_inv l' (us @ vs) (e # fs) \<and>
    ll_values l' (us @ vs) = ll_values l us @ ll_values l vs \<and> LL_Count l' = LL_Count l - 1 \<and>
    LL_IsValidIndex l' e = Some False \<and> m_FirstFree l' = e"
proof -
  have e: "inr l e" "e \<notin> set fs" "remove1 e (us @ e # vs) = us @ vs"
    using assms by (auto simp: ll_inv_def remove1_append)
  from Free_result [OF assms e(1,2)] e(3) obtain l' where
    l': "LL_Free e l = Some l'" "ll_inv l' (us @ vs) (e # fs)" "same_nodes l' l" by auto
  then show ?thesis
    using Count_result [OF assms] Count_result [OF l'(2)] IsValidIndex_iff [OF l'(2)]
    by (auto simp: LL_Remove_def ll_values_def same_nodes_def ll_inv_def)
qed

theorem LL_Remove_correct_witness:
  "\<exists>l'. LL_Remove 1 sample_list = Some l' \<and> ll_inv l' ([0] @ []) (1 # [2]) \<and>
    ll_values l' ([0] @ []) = ll_values sample_list [0] @ ll_values sample_list [] \<and>
    LL_Count l' = LL_Count sample_list - 1 \<and> LL_IsValidIndex l' 1 = Some False \<and> m_FirstFree l' = 1"
  by (rule LL_Remove_correct [of sample_list "[0]" 1 "[]" "[2]"]) (rule sample_list_inv)

text \<open>
  Moving a node: \<open>LinkBefore\<close> and \<open>LinkAfter\<close> applied to a node that is in the list take it from
  where it is to the place asked for, keep the order of the others and the values of all.
\<close>

theorem LL_Link_moves:
  assumes "ll_inv l (xs @ e # ys) fs" "xs @ ys = us @ vs"
  shows "\<exists>l1 l2. LinkBefore (hd (vs @ [INVALID_LLIST_IDX])) e l = Some l1 \<and>
      ll_inv l1 (us @ e # vs) fs \<and> val l1 = val l \<and>
    LinkAfter (last (INVALID_LLIST_IDX # us)) e l = Some l2 \<and>
      ll_inv l2 (us @ e # vs) fs \<and> val l2 = val l"
  using move_result [OF assms] by (auto simp: same_nodes_def)

theorem LL_Link_moves_witness:
  "\<exists>l1 l2. LinkBefore (hd ([0] @ [INVALID_LLIST_IDX])) 1 sample_list = Some l1 \<and>
      ll_inv l1 ([] @ 1 # [0]) [2] \<and> val l1 = val sample_list \<and>
    LinkAfter (last (INVALID_LLIST_IDX # [])) 1 sample_list = Some l2 \<and>
      ll_inv l2 ([] @ 1 # [0]) [2] \<and> val l2 = val sample_list"
  by (rule LL_Link_moves [of sample_list "[0]" 1 "[]" "[2]"]) (use sample_list_inv in simp_all)

text \<open>
  \<open>Find\<close> returns the first node with the value, walking the links, or the invalid index when no
  node has it; \<open>FindAndRemove\<close> removes that node.
\<close>

theorem LL_FindAndRemove_correct:
  assumes "ll_inv l xs fs"
  shows "LL_Find x l = Some (first_node (\<lambda>i. val l i = x) xs INVALID_LLIST_IDX) \<and>
    (\<exists>l' ys gs. LL_FindAndRemove x l = Some (x \<in> set (ll_values l xs), l') \<and> ll_inv l' ys gs \<and>
      ll_values l' ys = remove1 x (ll_values l xs))"
proof -
  let ?i = "first_node (\<lambda>i. val l i = x) xs INVALID_LLIST_IDX"
  note f = LL_Find_result [OF assms, of x]
  show ?thesis
  proof (cases "List.find (\<lambda>i. val l i = x) xs")
    case None
    then have "x \<notin> set (ll_values l xs)" by (auto simp: find_None_iff ll_values_def)
    moreover have "?i = INVALID_LLIST_IDX" using None by (simp add: first_node_def)
    ultimately show ?thesis using f assms by (auto simp: LL_FindAndRemove_def remove1_idem)
  next
    case (Some e)
    then obtain k where k: "k < length xs" "xs ! k = e" "val l e = x" "\<forall>j < k. val l (xs ! j) \<noteq> x"
      by (auto simp: find_Some_iff)
    then have xs: "xs = take k xs @ e # drop (Suc k) xs" by (auto simp: id_take_nth_drop)
    have "e \<in> set xs" using k(1,2) by (auto simp: in_set_conv_nth)
    then have e: "e \<in> set xs" "inr l e" "e \<notin> set fs" using assms by (auto simp: ll_inv_def)
    have x: "x \<notin> val l ` set (take k xs)"
    proof
      assume "x \<in> val l ` set (take k xs)"
      then obtain j where "j < k" "val l (xs ! j) = x" by (auto simp: in_set_conv_nth)
      with k(4) show False by blast
    qed
    have "remove1 x (map (val l) (take k xs @ e # drop (Suc k) xs)) =
        map (val l) (take k xs @ drop (Suc k) xs)"
      using x k(3) by (simp add: remove1_append)
    then have rv: "remove1 x (ll_values l xs) = ll_values l (take k xs @ drop (Suc k) xs)"
      unfolding ll_values_def using xs by metis
    have "distinct (take k xs @ e # drop (Suc k) xs)" using assms xs by (simp add: ll_inv_def)
    then have re: "remove1 e xs = take k xs @ drop (Suc k) xs"
      using xs by (metis disjoint_insert(1) distinct_append list.set(2) remove1_append remove1.simps(2))
    from Free_result [OF assms e(2,3)] obtain l' where
      l': "LL_Free e l = Some l'" "ll_inv l' (take k xs @ drop (Suc k) xs) (e # fs)" "same_nodes l' l"
      unfolding re by blast
    have "?i = e" "e \<noteq> INVALID_LLIST_IDX" using Some inr_valid [OF e(2)] by (auto simp: first_node_def)
    then have "LL_FindAndRemove x l = Some (True, l')"
      using f l'(1) by (simp add: LL_FindAndRemove_def LL_Remove_def)
    moreover have "x \<in> set (ll_values l xs)" using e(1) k(3) by (auto simp: ll_values_def)
    moreover have "ll_values l' (take k xs @ drop (Suc k) xs) = remove1 x (ll_values l xs)"
      unfolding rv using l'(3) by (simp add: ll_values_def same_nodes_def)
    ultimately show ?thesis using f l'(2) by auto
  qed
qed

theorem LL_FindAndRemove_correct_witness:
  "LL_Find 11 sample_list = Some (first_node (\<lambda>i. val sample_list i = 11) ([0] @ [1]) INVALID_LLIST_IDX) \<and>
    (\<exists>l' ys gs. LL_FindAndRemove 11 sample_list = Some (11 \<in> set (ll_values sample_list ([0] @ [1])), l') \<and>
      ll_inv l' ys gs \<and> ll_values l' ys = remove1 11 (ll_values sample_list ([0] @ [1])))"
  by (rule LL_FindAndRemove_correct [OF sample_list_inv])

text \<open>
  \<open>RemoveAll\<close> ends with an empty list and every node of it free, in index order, whether it was
  linked, allocated or free before, and releases no memory.
\<close>

theorem LL_RemoveAll_correct:
  assumes "ll_inv l xs fs"
  shows "\<exists>l'. LL_RemoveAll l = Some l' \<and> ll_inv l' [] (indices (unat (m_TotalElements l))) \<and>
    LL_Count l' = 0 \<and> LL_IsEmpty l' \<and> (\<forall>i. LL_IsValidIndex l' i = Some False)"
proof -
  from RemoveAll_result [OF assms] obtain l' where
    l': "LL_RemoveAll l = Some l'" "ll_inv l' [] (indices (unat (m_TotalElements l)))" "same_nodes l' l" by blast
  have "LL_IsValidIndex l' i = Some False" for i
    using IsValidIndex_iff [OF l'(2)] indices_inr [of l i] same_nodes_inr [OF l'(3)] by simp
  with l' show ?thesis using Count_result [OF l'(2)] by (simp add: LL_IsEmpty_def ll_inv_def)
qed

theorem LL_RemoveAll_correct_witness:
  "\<exists>l'. LL_RemoveAll sample_list = Some l' \<and> ll_inv l' [] (indices (unat (m_TotalElements sample_list))) \<and>
    LL_Count l' = 0 \<and> LL_IsEmpty l' \<and> (\<forall>i. LL_IsValidIndex l' i = Some False)"
  by (rule LL_RemoveAll_correct [OF sample_list_inv])

text \<open>
  The list works as a queue: adding any values at the tail and taking as many from the head as
  there are gives first those that were there and then the new ones, all in their order, and ends
  with an empty list, as long as the index type can number the elements.
\<close>

theorem LL_first_in_first_out:
  fixes l :: "('a, 'i :: len) llist"
  assumes "ll_queue l ys (length xs + k)"
  shows "\<exists>l1 l2. enqueue_all (ll_enqueue raw) xs l = Some l1 \<and>
    dequeue_many RemoveFromHead (length ys + length xs) l1 = Some (ys @ xs, l2) \<and>
    ll_queue l2 [] (length ys + length xs + k)"
  by (rule ll_fifo.first_in_first_out [OF assms])

theorem LL_first_in_first_out_witness:
  "\<exists>l1 l2. enqueue_all (ll_enqueue sample_raw) [7, 8] sample_list = Some l1 \<and>
    dequeue_many RemoveFromHead (length [10, 11 :: int] + length [7, 8 :: int]) l1 = Some ([10, 11] @ [7, 8], l2) \<and>
    ll_queue l2 [] (length [10, 11 :: int] + length [7, 8 :: int] + 1)"
proof -
  have "ll_queue sample_list [10, 11] (length [7, 8 :: int] + 1)"
    unfolding ll_queue_def using sample_list_inv sample_list_links sample_list_inr
    by (intro exI [of _ "[0] @ [1]"] exI [of _ "[2]"]) (auto simp: ll_values_def)
  from LL_first_in_first_out [OF this] show ?thesis .
qed

end
