(* ===== verification/UtlHashMap.thy ===== *)
theory UtlHashMap
  imports UtlVector
begin

text \<open>
  \<open>CUtlHashMap\<close> (\<open>src/GameNetworkingSockets/src/public/tier1/utlhashmap.h\<close>): nodes in one growable
  memory, chained by index from a vector of buckets. When the vector of buckets grows, the nodes are
  not moved at once: the buckets from \<open>m_nNeedRehashStart\<close> to \<open>m_nNeedRehashEnd\<close> still hold nodes that
  were placed by a smaller mask, and each later operation moves a few of them. A free node holds
  the encoded index of the next free one in \<open>m_iNextNode\<close>, below \<open>-1\<close>.

  The equality and the hash function are arguments (\<open>eqf\<close>, \<open>hf\<close>); the hash is an \<open>int\<close>, possibly
  negative, of which the masks take the low bits. A bucket is its only field \<open>m_iNode\<close>. Walks along
  links that might not end are partial functions. What a fresh node or bucket holds is an argument
  (\<open>rawn\<close>, \<open>rawb\<close>).
\<close>

unbundle bit_operations_syntax

record ('k, 'e) Node_t =
  m_key :: 'k
  m_elem :: 'e
  m_iNextNode :: int

record ('k, 'e) hashmap =
  m_vecHashBuckets :: "int utlvector"
  m_memNodes :: "('k, 'e) Node_t utlmem"
  m_iNodeFreeListHead :: int
  m_cElements :: int
  m_nMaxElement :: int
  m_nNeedRehashStart :: int
  m_nNeedRehashEnd :: int
  m_nMinBucketMask :: int

definition kInvalidIndex :: int where
  "kInvalidIndex = -1"

definition FreeNodeIDToIndex :: "int \<Rightarrow> int" where
  "FreeNodeIDToIndex i = (0 - i) - 3"

definition FreeNodeIndexToID :: "int \<Rightarrow> int" where
  "FreeNodeIndexToID i = (-3) - i"

definition HM_new :: "(nat \<Rightarrow> ('k, 'e) Node_t) \<Rightarrow> (nat \<Rightarrow> int) \<Rightarrow> int \<Rightarrow> ('k, 'e) hashmap" where
  "HM_new rawn rawb sizeOfNode =
     \<lparr>m_vecHashBuckets = Vector_new rawb 4 0 0, m_memNodes = Memory_new rawn sizeOfNode 0 0,
      m_iNodeFreeListHead = kInvalidIndex, m_cElements = 0, m_nMaxElement = 0,
      m_nNeedRehashStart = 0, m_nNeedRehashEnd = 0, m_nMinBucketMask = 1\<rparr>"

subsection \<open>Nodes, buckets and links\<close>

definition node_at :: "('k, 'e) hashmap \<Rightarrow> int \<Rightarrow> ('k, 'e) Node_t option" where
  "node_at h i = Memory_Element (m_memNodes h) i"

definition node_update ::
  "int \<Rightarrow> (('k, 'e) Node_t \<Rightarrow> ('k, 'e) Node_t) \<Rightarrow> ('k, 'e) hashmap \<Rightarrow> ('k, 'e) hashmap option" where
  "node_update i f h = do {
     n \<leftarrow> node_at h i;
     m \<leftarrow> Memory_SetElement (m_memNodes h) i (f n);
     Some (h\<lparr>m_memNodes := m\<rparr>)}"

definition bucket_at :: "('k, 'e) hashmap \<Rightarrow> int \<Rightarrow> int option" where
  "bucket_at h b = Vector_Element (m_vecHashBuckets h) b"

definition bucket_set :: "int \<Rightarrow> int \<Rightarrow> ('k, 'e) hashmap \<Rightarrow> ('k, 'e) hashmap option" where
  "bucket_set b i h = do {
     v \<leftarrow> Vector_SetElement (m_vecHashBuckets h) b i;
     Some (h\<lparr>m_vecHashBuckets := v\<rparr>)}"

text \<open>\<open>pLink\<close> points at a bucket or at the link of a node.\<close>

datatype link = BucketLink int | NodeLink int

fun read_link :: "link \<Rightarrow> ('k, 'e) hashmap \<Rightarrow> int option" where
  "read_link (BucketLink b) h = bucket_at h b"
| "read_link (NodeLink i) h = map_option m_iNextNode (node_at h i)"

fun write_link :: "link \<Rightarrow> int \<Rightarrow> ('k, 'e) hashmap \<Rightarrow> ('k, 'e) hashmap option" where
  "write_link (BucketLink b) x h = bucket_set b x h"
| "write_link (NodeLink i) x h = node_update i (\<lambda>n. n\<lparr>m_iNextNode := x\<rparr>) h"

definition HM_Element :: "('k, 'e) hashmap \<Rightarrow> int \<Rightarrow> 'e option" where
  "HM_Element h i = map_option m_elem (node_at h i)"

definition HM_Key :: "('k, 'e) hashmap \<Rightarrow> int \<Rightarrow> 'k option" where
  "HM_Key h i = map_option m_key (node_at h i)"

definition HM_Count :: "('k, 'e) hashmap \<Rightarrow> int" where
  "HM_Count h = m_cElements h"

definition HM_MaxElement :: "('k, 'e) hashmap \<Rightarrow> int" where
  "HM_MaxElement h = m_nMaxElement h"

text \<open>Both sides of the comparison are unsigned, so a negative index is out of range.\<close>

definition HM_IsValidIndex :: "('k, 'e) hashmap \<Rightarrow> int \<Rightarrow> bool option" where
  "HM_IsValidIndex h i =
     (if 0 \<le> i \<and> i < m_nMaxElement h then do {
        n \<leftarrow> node_at h i;
        Some (-1 \<le> m_iNextNode n)}
      else Some False)"

definition bucket_count :: "('k, 'e) hashmap \<Rightarrow> int" where
  "bucket_count h = Vector_Count (m_vecHashBuckets h)"

subsection \<open>Capacity\<close>

partial_function (option) buckets_needed :: "int \<Rightarrow> int \<Rightarrow> int option" where
  "buckets_needed amount c = (if c < amount then buckets_needed amount (push_bit 1 c) else Some c)"

declare buckets_needed.simps [code]

definition HM_EnsureCapacity ::
  "(nat \<Rightarrow> ('k, 'e) Node_t) \<Rightarrow> (nat \<Rightarrow> int) \<Rightarrow> int \<Rightarrow> ('k, 'e) hashmap \<Rightarrow> ('k, 'e) hashmap option" where
  "HM_EnsureCapacity rawn rawb amount h =
     (let h = h\<lparr>m_memNodes := Memory_EnsureCapacity rawn amount (m_memNodes h)\<rparr> in
      if amount \<le> bucket_count h then Some h
      else do {
        cBucketsNeeded \<leftarrow> buckets_needed amount (max 16 (bucket_count h));
        let grow = cBucketsNeeded - bucket_count h;
        (iFirst, v) \<leftarrow> AddMultipleToTail rawb (rawb 0) grow None (m_vecHashBuckets h);
        v \<leftarrow> Vector_Store iFirst (replicate (nat grow) (-1)) v;
        let h = h\<lparr>m_vecHashBuckets := v\<rparr>;
        if 0 < m_cElements h
        then Some (h\<lparr>m_nNeedRehashStart := 0, m_nNeedRehashEnd := iFirst\<rparr>)
        else Some (h\<lparr>m_nNeedRehashStart := bucket_count h, m_nNeedRehashEnd := bucket_count h,
                    m_nMinBucketMask := bucket_count h - 1\<rparr>)})"

definition AllocNode :: "('k, 'e) hashmap \<Rightarrow> (int \<times> ('k, 'e) hashmap) option" where
  "AllocNode h =
     (if m_cElements h = m_nMaxElement h
      then Some (m_nMaxElement h, h\<lparr>m_cElements := m_cElements h + 1, m_nMaxElement := m_nMaxElement h + 1\<rparr>)
      else do {
        let iNewNode = m_iNodeFreeListHead h;
        n \<leftarrow> node_at h iNewNode;
        Some (iNewNode, h\<lparr>m_iNodeFreeListHead := FreeNodeIDToIndex (m_iNextNode n),
                         m_cElements := m_cElements h + 1\<rparr>)})"

subsection \<open>Buckets\<close>

definition LinkNodeIntoBucket :: "int \<Rightarrow> int \<Rightarrow> ('k, 'e) hashmap \<Rightarrow> ('k, 'e) hashmap option" where
  "LinkNodeIntoBucket iBucket iNewNode h = do {
     i \<leftarrow> bucket_at h iBucket;
     h \<leftarrow> node_update iNewNode (\<lambda>n. n\<lparr>m_iNextNode := i\<rparr>) h;
     bucket_set iBucket iNewNode h}"

partial_function (option) RehashNodes_from ::
  "('k \<Rightarrow> int) \<Rightarrow> int \<Rightarrow> link \<Rightarrow> ('k, 'e) hashmap \<Rightarrow> ('k, 'e) hashmap option"
where
  "RehashNodes_from hf iBucketSrc pLink h = do {
     iNode \<leftarrow> read_link pLink h;
     if iNode = kInvalidIndex then Some h
     else do {
       node \<leftarrow> node_at h iNode;
       let iBucketDest = hf (m_key node) AND (bucket_count h - 1);
       if iBucketDest \<noteq> iBucketSrc then do {
         h \<leftarrow> write_link pLink (m_iNextNode node) h;
         h \<leftarrow> LinkNodeIntoBucket iBucketDest iNode h;
         RehashNodes_from hf iBucketSrc pLink h}
       else RehashNodes_from hf iBucketSrc (NodeLink iNode) h}}"

declare RehashNodes_from.simps [code]

definition RehashNodesInBucket ::
  "('k \<Rightarrow> int) \<Rightarrow> int \<Rightarrow> ('k, 'e) hashmap \<Rightarrow> ('k, 'e) hashmap option" where
  "RehashNodesInBucket hf iBucketSrc h = RehashNodes_from hf iBucketSrc (BucketLink iBucketSrc) h"

text \<open>What follows the loop of \<open>IncrementalRehash\<close> when every bucket has been done.\<close>

definition rehash_done :: "('k, 'e) hashmap \<Rightarrow> ('k, 'e) hashmap" where
  "rehash_done h =
     h\<lparr>m_nNeedRehashStart := bucket_count h, m_nNeedRehashEnd := bucket_count h,
       m_nMinBucketMask := bucket_count h - 1\<rparr>"

partial_function (option) IncrementalRehash ::
  "('k \<Rightarrow> int) \<Rightarrow> ('k, 'e) hashmap \<Rightarrow> ('k, 'e) hashmap option"
where
  "IncrementalRehash hf h =
     (let iBucketSrc = m_nNeedRehashStart h;
          h = h\<lparr>m_nNeedRehashStart := m_nNeedRehashStart h + 1\<rparr> in do {
        i \<leftarrow> bucket_at h iBucketSrc;
        if i \<noteq> kInvalidIndex then do {
          h \<leftarrow> RehashNodesInBucket hf iBucketSrc h;
          if m_nNeedRehashStart h < m_nNeedRehashEnd h then Some h else Some (rehash_done h)}
        else if m_nNeedRehashStart h < m_nNeedRehashEnd h then IncrementalRehash hf h
        else Some (rehash_done h)})"

declare IncrementalRehash.simps [code]

definition rehash_some :: "('k \<Rightarrow> int) \<Rightarrow> ('k, 'e) hashmap \<Rightarrow> ('k, 'e) hashmap option" where
  "rehash_some hf h =
     (if m_nNeedRehashStart h < m_nNeedRehashEnd h then IncrementalRehash hf h else Some h)"

subsection \<open>Search\<close>

partial_function (option) FindInChain ::
  "('k \<Rightarrow> 'k \<Rightarrow> bool) \<Rightarrow> 'k \<Rightarrow> int \<Rightarrow> ('k, 'e) hashmap \<Rightarrow> int option"
where
  "FindInChain eqf key iNode h =
     (if iNode \<noteq> kInvalidIndex then do {
        node \<leftarrow> node_at h iNode;
        if eqf key (m_key node) then Some iNode
        else FindInChain eqf key (m_iNextNode node) h}
      else Some kInvalidIndex)"

declare FindInChain.simps [code]

definition FindInBucket :: "('k \<Rightarrow> 'k \<Rightarrow> bool) \<Rightarrow> int \<Rightarrow> 'k \<Rightarrow> ('k, 'e) hashmap \<Rightarrow> int option" where
  "FindInBucket eqf iBucket key h = do {
     iNode \<leftarrow> bucket_at h iBucket;
     FindInChain eqf key iNode h}"

partial_function (option) Find_masks ::
  "('k \<Rightarrow> 'k \<Rightarrow> bool) \<Rightarrow> int \<Rightarrow> int \<Rightarrow> 'k \<Rightarrow> ('k, 'e) hashmap \<Rightarrow> int option"
where
  "Find_masks eqf hash cBucketsMask key h = do {
     iNode \<leftarrow> FindInBucket eqf (hash AND cBucketsMask) key h;
     if iNode \<noteq> kInvalidIndex then Some iNode
     else
       let cBucketsMask = drop_bit 1 cBucketsMask in
       if cBucketsMask < m_nMinBucketMask h then Some kInvalidIndex
       else if m_nNeedRehashStart h \<le> hash AND cBucketsMask
       then Find_masks eqf hash cBucketsMask key h
       else Some kInvalidIndex}"

declare Find_masks.simps [code]

text \<open>A search moves nodes between buckets as well, so it returns the map.\<close>

definition HM_Find ::
  "('k \<Rightarrow> 'k \<Rightarrow> bool) \<Rightarrow> ('k \<Rightarrow> int) \<Rightarrow> 'k \<Rightarrow> ('k, 'e) hashmap \<Rightarrow> (int \<times> ('k, 'e) hashmap) option" where
  "HM_Find eqf hf key h =
     (if m_cElements h = 0 then Some (kInvalidIndex, h)
      else do {
        h \<leftarrow> rehash_some hf h;
        i \<leftarrow> Find_masks eqf (hf key) (bucket_count h - 1) key h;
        Some (i, h)})"

definition FindGetPtr ::
  "('k \<Rightarrow> 'k \<Rightarrow> bool) \<Rightarrow> ('k \<Rightarrow> int) \<Rightarrow> 'k \<Rightarrow> ('k, 'e) hashmap \<Rightarrow> ('e option \<times> ('k, 'e) hashmap) option" where
  "FindGetPtr eqf hf key h = do {
     (i, h) \<leftarrow> HM_Find eqf hf key h;
     if i = kInvalidIndex then Some (None, h)
     else do {e \<leftarrow> HM_Element h i; Some (Some e, h)}}"

definition HM_HasElement ::
  "('k \<Rightarrow> 'k \<Rightarrow> bool) \<Rightarrow> ('k \<Rightarrow> int) \<Rightarrow> 'k \<Rightarrow> ('k, 'e) hashmap \<Rightarrow> (bool \<times> ('k, 'e) hashmap) option" where
  "HM_HasElement eqf hf key h = do {
     (i, h) \<leftarrow> HM_Find eqf hf key h;
     Some (i \<noteq> kInvalidIndex, h)}"

definition FindElement ::
  "('k \<Rightarrow> 'k \<Rightarrow> bool) \<Rightarrow> ('k \<Rightarrow> int) \<Rightarrow> 'k \<Rightarrow> 'e \<Rightarrow> ('k, 'e) hashmap \<Rightarrow> ('e \<times> ('k, 'e) hashmap) option" where
  "FindElement eqf hf key defaultValue h = do {
     (i, h) \<leftarrow> HM_Find eqf hf key h;
     if i = kInvalidIndex then Some (defaultValue, h)
     else do {e \<leftarrow> HM_Element h i; Some (e, h)}}"

definition NextSameKey :: "('k \<Rightarrow> 'k \<Rightarrow> bool) \<Rightarrow> int \<Rightarrow> ('k, 'e) hashmap \<Rightarrow> int option" where
  "NextSameKey eqf i h =
     (if Memory_IsIdxValid (m_memNodes h) i then do {
        n \<leftarrow> node_at h i;
        FindInChain eqf (m_key n) (m_iNextNode n) h}
      else Some kInvalidIndex)"

partial_function (option) FindExact_from ::
  "('k \<Rightarrow> 'k \<Rightarrow> bool) \<Rightarrow> 'e \<Rightarrow> int \<Rightarrow> ('k, 'e) hashmap \<Rightarrow> int option"
where
  "FindExact_from eqf elem iNode h =
     (if iNode \<noteq> kInvalidIndex then do {
        e \<leftarrow> HM_Element h iNode;
        if elem = e then Some iNode
        else do {
          j \<leftarrow> NextSameKey eqf iNode h;
          FindExact_from eqf elem j h}}
      else Some kInvalidIndex)"

declare FindExact_from.simps [code]

definition FindExact ::
  "('k \<Rightarrow> 'k \<Rightarrow> bool) \<Rightarrow> ('k \<Rightarrow> int) \<Rightarrow> 'k \<Rightarrow> 'e \<Rightarrow> ('k, 'e) hashmap \<Rightarrow> (int \<times> ('k, 'e) hashmap) option" where
  "FindExact eqf hf key elem h = do {
     (iNode, h) \<leftarrow> HM_Find eqf hf key h;
     i \<leftarrow> FindExact_from eqf elem iNode h;
     Some (i, h)}"

subsection \<open>Insertion\<close>

partial_function (option) migrate ::
  "('k \<Rightarrow> int) \<Rightarrow> int \<Rightarrow> int \<Rightarrow> ('k, 'e) hashmap \<Rightarrow> ('k, 'e) hashmap option"
where
  "migrate hf hash nBucketMaskMigrate h =
     (if m_nMinBucketMask h \<le> nBucketMaskMigrate then
        (let iBucketMigrate = hash AND nBucketMaskMigrate in
         if iBucketMigrate < m_nNeedRehashStart h then Some h
         else do {
           h \<leftarrow> RehashNodesInBucket hf iBucketMigrate h;
           migrate hf hash (drop_bit 1 nBucketMaskMigrate) h})
      else Some h)"

declare migrate.simps [code]

text \<open>Making room: what comes before the search for a duplicate.\<close>

definition insert_room ::
  "(nat \<Rightarrow> ('k, 'e) Node_t) \<Rightarrow> (nat \<Rightarrow> int) \<Rightarrow> ('k, 'e) hashmap \<Rightarrow> ('k, 'e) hashmap option" where
  "insert_room rawn rawb h = do {
     h \<leftarrow> (if bucket_count h \<le> m_cElements h
           then HM_EnsureCapacity rawn rawb (max 16 (bucket_count h * 2)) h else Some h);
     if Memory_Count (m_memNodes h) \<le> m_cElements h then do {
       m \<leftarrow> Memory_Grow rawn (Memory_Count (m_memNodes h) * 2) (m_memNodes h);
       Some (h\<lparr>m_memNodes := m\<rparr>)}
     else Some h}"

text \<open>The result is the new node and, where the key is there already, the node that has it.\<close>

definition InsertUnconstructed ::
  "(nat \<Rightarrow> ('k, 'e) Node_t) \<Rightarrow> (nat \<Rightarrow> int) \<Rightarrow> ('k \<Rightarrow> 'k \<Rightarrow> bool) \<Rightarrow> ('k \<Rightarrow> int) \<Rightarrow> 'k \<Rightarrow> bool \<Rightarrow>
   ('k, 'e) hashmap \<Rightarrow> ((int \<times> int) \<times> ('k, 'e) hashmap) option"
where
  "InsertUnconstructed rawn rawb eqf hf key bAllowDupes h = do {
     h \<leftarrow> insert_room rawn rawb h;
     h \<leftarrow> rehash_some hf h;
     let hash = hf key;
     h \<leftarrow> migrate hf hash (drop_bit 1 (bucket_count h) - 1) h;
     let iBucket = hash AND (bucket_count h - 1);
     iNode \<leftarrow> (if \<not> bAllowDupes then FindInBucket eqf iBucket key h else Some kInvalidIndex);
     if iNode \<noteq> kInvalidIndex then Some ((kInvalidIndex, iNode), h)
     else do {
       (iNewNode, h) \<leftarrow> AllocNode h;
       h \<leftarrow> node_update iNewNode (\<lambda>n. n\<lparr>m_iNextNode := kInvalidIndex\<rparr>) h;
       h \<leftarrow> node_update iNewNode (\<lambda>n. n\<lparr>m_key := key\<rparr>) h;
       h \<leftarrow> LinkNodeIntoBucket iBucket iNewNode h;
       Some ((iNewNode, kInvalidIndex), h)}}"

definition FindOrInsert_Internal ::
  "(nat \<Rightarrow> ('k, 'e) Node_t) \<Rightarrow> (nat \<Rightarrow> int) \<Rightarrow> ('k \<Rightarrow> 'k \<Rightarrow> bool) \<Rightarrow> ('k \<Rightarrow> int) \<Rightarrow> 'k \<Rightarrow> 'e \<Rightarrow> bool \<Rightarrow>
   ('k, 'e) hashmap \<Rightarrow> (int \<times> ('k, 'e) hashmap) option"
where
  "FindOrInsert_Internal rawn rawb eqf hf key elem bReplace h = do {
     ((iNodeInserted, iNodeExisting), h) \<leftarrow> InsertUnconstructed rawn rawb eqf hf key False h;
     if bReplace \<and> iNodeExisting \<noteq> kInvalidIndex then do {
       h \<leftarrow> node_update iNodeExisting (\<lambda>n. n\<lparr>m_elem := elem\<rparr>) h;
       Some (iNodeExisting, h)}
     else if iNodeInserted \<noteq> kInvalidIndex then do {
       h \<leftarrow> node_update iNodeInserted (\<lambda>n. n\<lparr>m_elem := elem\<rparr>) h;
       Some (iNodeInserted, h)}
     else Some (iNodeExisting, h)}"

text \<open>The overload without an element stores a default constructed one.\<close>

definition FindOrInsert_Internal_default ::
  "(nat \<Rightarrow> ('k, 'e) Node_t) \<Rightarrow> (nat \<Rightarrow> int) \<Rightarrow> ('k \<Rightarrow> 'k \<Rightarrow> bool) \<Rightarrow> ('k \<Rightarrow> int) \<Rightarrow> 'e \<Rightarrow> 'k \<Rightarrow> bool \<Rightarrow>
   ('k, 'e) hashmap \<Rightarrow> (int \<times> ('k, 'e) hashmap) option"
where
  "FindOrInsert_Internal_default rawn rawb eqf hf ctor key bReplace h = do {
     ((iNodeInserted, iNodeExisting), h) \<leftarrow> InsertUnconstructed rawn rawb eqf hf key False h;
     if bReplace \<and> iNodeExisting \<noteq> kInvalidIndex then do {
       h \<leftarrow> node_update iNodeExisting (\<lambda>n. n\<lparr>m_elem := ctor\<rparr>) h;
       Some (iNodeExisting, h)}
     else if iNodeInserted \<noteq> kInvalidIndex then do {
       h \<leftarrow> node_update iNodeInserted (\<lambda>n. n\<lparr>m_elem := ctor\<rparr>) h;
       Some (iNodeInserted, h)}
     else Some (iNodeExisting, h)}"

definition InsertWithDupes_Internal ::
  "(nat \<Rightarrow> ('k, 'e) Node_t) \<Rightarrow> (nat \<Rightarrow> int) \<Rightarrow> ('k \<Rightarrow> 'k \<Rightarrow> bool) \<Rightarrow> ('k \<Rightarrow> int) \<Rightarrow> 'k \<Rightarrow> 'e \<Rightarrow>
   ('k, 'e) hashmap \<Rightarrow> (int \<times> ('k, 'e) hashmap) option"
where
  "InsertWithDupes_Internal rawn rawb eqf hf key ins h = do {
     ((iNodeInserted, iNodeExisting), h) \<leftarrow> InsertUnconstructed rawn rawb eqf hf key True h;
     if iNodeInserted \<noteq> kInvalidIndex then do {
       h \<leftarrow> node_update iNodeInserted (\<lambda>n. n\<lparr>m_elem := ins\<rparr>) h;
       Some (iNodeInserted, h)}
     else Some (iNodeInserted, h)}"

definition HM_Insert where
  "HM_Insert rawn rawb eqf hf key ins h = FindOrInsert_Internal rawn rawb eqf hf key ins True h"

definition HM_FindOrInsert where
  "HM_FindOrInsert rawn rawb eqf hf key ins h = FindOrInsert_Internal rawn rawb eqf hf key ins False h"

subsection \<open>Removal\<close>

partial_function (option) RemoveNode_from ::
  "link \<Rightarrow> int \<Rightarrow> ('k, 'e) hashmap \<Rightarrow> (bool \<times> ('k, 'e) hashmap) option"
where
  "RemoveNode_from pLink iNodeToRemove h = do {
     iNode \<leftarrow> read_link pLink h;
     if iNode = kInvalidIndex then Some (False, h)
     else do {
       node \<leftarrow> node_at h iNode;
       if iNodeToRemove = iNode then do {
         h \<leftarrow> write_link pLink (m_iNextNode node) h;
         h \<leftarrow> node_update iNode (\<lambda>n. n\<lparr>m_iNextNode := FreeNodeIndexToID (m_iNodeFreeListHead h)\<rparr>) h;
         let h = h\<lparr>m_iNodeFreeListHead := iNode, m_cElements := m_cElements h - 1\<rparr>;
         if m_cElements h = 0
         then Some (True, h\<lparr>m_nNeedRehashStart := bucket_count h, m_nNeedRehashEnd := bucket_count h,
                           m_nMinBucketMask := bucket_count h - 1\<rparr>)
         else Some (True, h)}
       else RemoveNode_from (NodeLink iNode) iNodeToRemove h}}"

declare RemoveNode_from.simps [code]

definition RemoveNodeFromBucket ::
  "int \<Rightarrow> int \<Rightarrow> ('k, 'e) hashmap \<Rightarrow> (bool \<times> ('k, 'e) hashmap) option" where
  "RemoveNodeFromBucket iBucket iNodeToRemove h = RemoveNode_from (BucketLink iBucket) iNodeToRemove h"

partial_function (option) RemoveAt_masks ::
  "int \<Rightarrow> int \<Rightarrow> int \<Rightarrow> ('k, 'e) hashmap \<Rightarrow> ('k, 'e) hashmap option"
where
  "RemoveAt_masks hash nBucketMask i h =
     (let nBucketMask = drop_bit 1 nBucketMask in
      if nBucketMask < m_nMinBucketMask h then Some h
      else
        let iBucket = hash AND nBucketMask in
        if iBucket < m_nNeedRehashStart h then Some h
        else do {
          (b, h) \<leftarrow> RemoveNodeFromBucket iBucket i h;
          if b then Some h else RemoveAt_masks hash nBucketMask i h})"

declare RemoveAt_masks.simps [code]

definition HM_RemoveAt :: "('k \<Rightarrow> int) \<Rightarrow> int \<Rightarrow> ('k, 'e) hashmap \<Rightarrow> ('k, 'e) hashmap option" where
  "HM_RemoveAt hf i h = do {
     v \<leftarrow> HM_IsValidIndex h i;
     if \<not> v then Some h
     else do {
       h \<leftarrow> rehash_some hf h;
       n \<leftarrow> node_at h i;
       let hash = hf (m_key n);
       let nBucketMask = bucket_count h - 1;
       (b, h) \<leftarrow> RemoveNodeFromBucket (hash AND nBucketMask) i h;
       if b then Some h else RemoveAt_masks hash nBucketMask i h}}"

definition HM_Remove ::
  "('k \<Rightarrow> 'k \<Rightarrow> bool) \<Rightarrow> ('k \<Rightarrow> int) \<Rightarrow> 'k \<Rightarrow> ('k, 'e) hashmap \<Rightarrow> (bool \<times> ('k, 'e) hashmap) option" where
  "HM_Remove eqf hf key h = do {
     (iMap, h) \<leftarrow> HM_Find eqf hf key h;
     if iMap \<noteq> kInvalidIndex then do {h \<leftarrow> HM_RemoveAt hf iMap h; Some (True, h)}
     else Some (False, h)}"

text \<open>The destructors run over the valid nodes first; they read \<open>m_iNextNode\<close> and change nothing.\<close>

definition HM_RemoveAll :: "('k, 'e) hashmap \<Rightarrow> ('k, 'e) hashmap option" where
  "HM_RemoveAll h =
     (if 0 < m_cElements h then do {
        let h = h\<lparr>m_cElements := 0, m_nMaxElement := 0, m_iNodeFreeListHead := kInvalidIndex,
                  m_nNeedRehashStart := bucket_count h, m_nNeedRehashEnd := bucket_count h,
                  m_nMinBucketMask := bucket_count h - 1\<rparr>;
        v \<leftarrow> Vector_Store 0 (replicate (nat (bucket_count h)) (-1)) (m_vecHashBuckets h);
        Some (h\<lparr>m_vecHashBuckets := v\<rparr>)}
      else Some h)"

definition HM_Purge :: "('k, 'e) hashmap \<Rightarrow> ('k, 'e) hashmap" where
  "HM_Purge h =
     h\<lparr>m_cElements := 0, m_nMaxElement := 0, m_iNodeFreeListHead := kInvalidIndex,
       m_nNeedRehashStart := 0, m_nNeedRehashEnd := 0, m_nMinBucketMask := 1,
       m_vecHashBuckets := Vector_Purge (m_vecHashBuckets h), m_memNodes := Memory_Purge (m_memNodes h)\<rparr>"

definition HM_Swap :: "('k, 'e) hashmap \<Rightarrow> ('k, 'e) hashmap \<Rightarrow> ('k, 'e) hashmap \<times> ('k, 'e) hashmap" where
  "HM_Swap h that =
     (let (v, v') = Vector_Swap (m_vecHashBuckets h) (m_vecHashBuckets that);
          (m, m') = Memory_Swap (m_memNodes h) (m_memNodes that) in
      (h\<lparr>m_vecHashBuckets := v, m_memNodes := m, m_iNodeFreeListHead := m_iNodeFreeListHead that,
         m_cElements := m_cElements that, m_nMaxElement := m_nMaxElement that,
         m_nNeedRehashStart := m_nNeedRehashStart that, m_nNeedRehashEnd := m_nNeedRehashEnd that,
         m_nMinBucketMask := m_nMinBucketMask that\<rparr>,
       that\<lparr>m_vecHashBuckets := v', m_memNodes := m', m_iNodeFreeListHead := m_iNodeFreeListHead h,
         m_cElements := m_cElements h, m_nMaxElement := m_nMaxElement h,
         m_nNeedRehashStart := m_nNeedRehashStart h, m_nNeedRehashEnd := m_nNeedRehashEnd h,
         m_nMinBucketMask := m_nMinBucketMask h\<rparr>))"

subsection \<open>Iteration\<close>

text \<open>Skipping free nodes from \<open>idx\<close> on, at the start and in \<open>operator++\<close>.\<close>

partial_function (option) begin_from :: "int \<Rightarrow> ('k, 'e) hashmap \<Rightarrow> int option" where
  "begin_from idx h = do {
     n \<leftarrow> node_at h idx;
     if m_iNextNode n < -1 then begin_from (idx + 1) h else Some idx}"

definition Range_begin :: "('k, 'e) hashmap \<Rightarrow> int option" where
  "Range_begin h = (if m_cElements h \<le> 0 then Some kInvalidIndex else begin_from 0 h)"

partial_function (option) Iterator_step :: "int \<Rightarrow> ('k, 'e) hashmap \<Rightarrow> int option" where
  "Iterator_step idx h =
     (let idx = idx + 1 in
      if m_nMaxElement h \<le> idx then Some kInvalidIndex
      else do {
        n \<leftarrow> node_at h idx;
        if m_iNextNode n < -1 then Iterator_step idx h else Some idx})"

definition Iterator_next :: "int \<Rightarrow> ('k, 'e) hashmap \<Rightarrow> int option" where
  "Iterator_next idx h = (if idx = kInvalidIndex then Some idx else Iterator_step idx h)"

partial_function (option) iterate :: "int \<Rightarrow> ('k, 'e) hashmap \<Rightarrow> int list option" where
  "iterate idx h =
     (if idx = kInvalidIndex then Some []
      else do {
        j \<leftarrow> Iterator_next idx h;
        is \<leftarrow> iterate j h;
        Some (idx # is)})"

declare begin_from.simps [code] Iterator_step.simps [code] iterate.simps [code]

text \<open>The range-based loop visits these indices.\<close>

definition IterItems :: "('k, 'e) hashmap \<Rightarrow> int list option" where
  "IterItems h = do {
     i \<leftarrow> Range_begin h;
     iterate i h}"

function CopyFullHashMap_from ::
  "(nat \<Rightarrow> ('k, 'e) Node_t) \<Rightarrow> (nat \<Rightarrow> int) \<Rightarrow> ('k \<Rightarrow> 'k \<Rightarrow> bool) \<Rightarrow> ('k \<Rightarrow> int) \<Rightarrow> int \<Rightarrow>
   ('k, 'e) hashmap \<Rightarrow> ('k, 'e) hashmap \<Rightarrow> ('k, 'e) hashmap option"
where
  "CopyFullHashMap_from rawn rawb eqf hf i h target =
     (if i < HM_MaxElement h then do {
        v \<leftarrow> HM_IsValidIndex h i;
        target \<leftarrow> (if v then do {
            k \<leftarrow> HM_Key h i;
            e \<leftarrow> HM_Element h i;
            (j, target) \<leftarrow> HM_Insert rawn rawb eqf hf k e target;
            Some target}
          else Some target);
        CopyFullHashMap_from rawn rawb eqf hf (i + 1) h target}
      else Some target)"
  by pat_completeness auto
termination
  by (relation "measure (\<lambda>(rawn, rawb, eqf, hf, i, h, t). nat (HM_MaxElement h - i))") auto

declare CopyFullHashMap_from.simps [simp del]

definition CopyFullHashMap ::
  "(nat \<Rightarrow> ('k, 'e) Node_t) \<Rightarrow> (nat \<Rightarrow> int) \<Rightarrow> ('k \<Rightarrow> 'k \<Rightarrow> bool) \<Rightarrow> ('k \<Rightarrow> int) \<Rightarrow>
   ('k, 'e) hashmap \<Rightarrow> ('k, 'e) hashmap \<Rightarrow> ('k, 'e) hashmap option"
where
  "CopyFullHashMap rawn rawb eqf hf h target = do {
     target \<leftarrow> HM_RemoveAll target;
     CopyFullHashMap_from rawn rawb eqf hf 0 h target}"

section \<open>Structure\<close>

named_theorems hm_simps \<open>accesses to nodes and buckets, and what the stores change\<close>

definition nodes :: "('k, 'e) hashmap \<Rightarrow> ('k, 'e) Node_t list" where
  "nodes h = m_pMemory (m_memNodes h)"

definition ky :: "('k, 'e) hashmap \<Rightarrow> int \<Rightarrow> 'k" where
  "ky h i = m_key (nodes h ! nat i)"

definition el :: "('k, 'e) hashmap \<Rightarrow> int \<Rightarrow> 'e" where
  "el h i = m_elem (nodes h ! nat i)"

definition nx :: "('k, 'e) hashmap \<Rightarrow> int \<Rightarrow> int" where
  "nx h i = m_iNextNode (nodes h ! nat i)"

definition bk :: "('k, 'e) hashmap \<Rightarrow> int \<Rightarrow> int" where
  "bk h b = elems (m_vecHashBuckets h) ! nat b"

definition used :: "('k, 'e) hashmap \<Rightarrow> int \<Rightarrow> bool" where
  "used h i \<longleftrightarrow> 0 \<le> i \<and> i < m_nMaxElement h"

definition bucket_in :: "('k, 'e) hashmap \<Rightarrow> int \<Rightarrow> bool" where
  "bucket_in h b \<longleftrightarrow> 0 \<le> b \<and> b < bucket_count h"

definition hm_ok :: "('k, 'e) hashmap \<Rightarrow> bool" where
  "hm_ok h \<longleftrightarrow> vec_ok (m_vecHashBuckets h) \<and> mem_inv (m_memNodes h) \<and>
     0 \<le> m_nGrowSize (m_memNodes h) \<and> 0 \<le> m_nMaxElement h \<and>
     m_nMaxElement h \<le> m_nAllocationCount (m_memNodes h)"

definition nupd :: "int \<Rightarrow> (('k, 'e) Node_t \<Rightarrow> ('k, 'e) Node_t) \<Rightarrow> ('k, 'e) hashmap \<Rightarrow> ('k, 'e) hashmap" where
  "nupd i f h = h\<lparr>m_memNodes := (m_memNodes h)\<lparr>m_pMemory := (nodes h)[nat i := f (nodes h ! nat i)]\<rparr>\<rparr>"

definition bupd :: "int \<Rightarrow> int \<Rightarrow> ('k, 'e) hashmap \<Rightarrow> ('k, 'e) hashmap" where
  "bupd b x h = h\<lparr>m_vecHashBuckets :=
     Vector_with_cells ((Vector_Base (m_vecHashBuckets h))[nat b := x]) (m_vecHashBuckets h)\<rparr>"

abbreviation put_link :: "int \<Rightarrow> int \<Rightarrow> ('k, 'e) hashmap \<Rightarrow> ('k, 'e) hashmap" where
  "put_link i x \<equiv> nupd i (\<lambda>n. n\<lparr>m_iNextNode := x\<rparr>)"

lemma used_length: "hm_ok h \<Longrightarrow> used h i \<Longrightarrow> nat i < length (nodes h)"
  by (auto simp: hm_ok_def used_def nodes_def mem_inv_def)

lemma bucket_in_length: "hm_ok h \<Longrightarrow> bucket_in h b \<Longrightarrow>
    nat b < length (elems (m_vecHashBuckets h)) \<and> nat b < length (Vector_Base (m_vecHashBuckets h))"
  using vec_invD [OF vec_okD, of "m_vecHashBuckets h"] length_elems [OF vec_okD, of "m_vecHashBuckets h"]
  by (auto simp: hm_ok_def bucket_in_def bucket_count_def Vector_Count_def)

lemma node_at_ok [hm_simps]: "hm_ok h \<Longrightarrow> used h i \<Longrightarrow> node_at h i = Some (nodes h ! nat i)"
  using used_length [of h i] by (auto simp: node_at_def Memory_Element_def get_at_def nodes_def used_def)

lemma node_fields [hm_simps]:
  "m_key (nodes h ! nat i) = ky h i" "m_elem (nodes h ! nat i) = el h i" "m_iNextNode (nodes h ! nat i) = nx h i"
  by (simp_all add: ky_def el_def nx_def)

lemma node_update_ok [hm_simps]: "hm_ok h \<Longrightarrow> used h i \<Longrightarrow> node_update i f h = Some (nupd i f h)"
  using used_length [of h i]
  by (auto simp: node_update_def node_at_ok Memory_SetElement_def set_at_def nodes_def nupd_def used_def)

lemma bucket_at_ok [hm_simps]: "hm_ok h \<Longrightarrow> bucket_in h b \<Longrightarrow> bucket_at h b = Some (bk h b)"
  using Element_elems [OF vec_okD, of "m_vecHashBuckets h" b]
  by (simp add: bucket_at_def bk_def hm_ok_def bucket_in_def bucket_count_def Vector_Count_def)

lemma bucket_set_ok [hm_simps]: "hm_ok h \<Longrightarrow> bucket_in h b \<Longrightarrow> bucket_set b x h = Some (bupd b x h)"
  using bucket_in_length [of h b]
  by (auto simp: bucket_set_def Vector_SetElement_def set_at_def bupd_def bucket_in_def)

lemma nupd_fields [hm_simps]:
  "m_vecHashBuckets (nupd i f h) = m_vecHashBuckets h" "m_iNodeFreeListHead (nupd i f h) = m_iNodeFreeListHead h"
  "m_cElements (nupd i f h) = m_cElements h" "m_nMaxElement (nupd i f h) = m_nMaxElement h"
  "m_nNeedRehashStart (nupd i f h) = m_nNeedRehashStart h" "m_nNeedRehashEnd (nupd i f h) = m_nNeedRehashEnd h"
  "m_nMinBucketMask (nupd i f h) = m_nMinBucketMask h" "bucket_count (nupd i f h) = bucket_count h"
  "hm_ok (nupd i f h) = hm_ok h" "used (nupd i f h) = used h" "bucket_in (nupd i f h) = bucket_in h"
  "bk (nupd i f h) = bk h" "Memory_Count (m_memNodes (nupd i f h)) = Memory_Count (m_memNodes h)"
  by (auto simp: nupd_def bucket_count_def hm_ok_def mem_inv_def used_def bucket_in_def bk_def nodes_def
    fun_eq_iff Memory_Count_def)

lemma elems_bupd:
  "elems (m_vecHashBuckets (bupd b x h)) = (elems (m_vecHashBuckets h))[nat b := x]"
  by (simp add: bupd_def elems_def take_update_swap)

lemma bupd_fields [hm_simps]:
  "m_memNodes (bupd b x h) = m_memNodes h" "m_iNodeFreeListHead (bupd b x h) = m_iNodeFreeListHead h"
  "m_cElements (bupd b x h) = m_cElements h" "m_nMaxElement (bupd b x h) = m_nMaxElement h"
  "m_nNeedRehashStart (bupd b x h) = m_nNeedRehashStart h" "m_nNeedRehashEnd (bupd b x h) = m_nNeedRehashEnd h"
  "m_nMinBucketMask (bupd b x h) = m_nMinBucketMask h" "bucket_count (bupd b x h) = bucket_count h"
  "used (bupd b x h) = used h" "bucket_in (bupd b x h) = bucket_in h"
  "ky (bupd b x h) = ky h" "el (bupd b x h) = el h" "nx (bupd b x h) = nx h"
  by (auto simp: bupd_def bucket_count_def used_def bucket_in_def ky_def el_def nx_def nodes_def
    fun_eq_iff Vector_Count_def)

lemma bupd_ok [hm_simps]: "hm_ok (bupd b x h) = hm_ok h"
  by (auto simp: hm_ok_def bupd_def vec_ok_def vec_inv_def mem_inv_def Vector_with_cells_def Vector_Base_def
    Memory_IsExternallyAllocated_def)

lemma hm_field_updates [hm_simps]:
  "hm_ok (h\<lparr>m_iNodeFreeListHead := x\<rparr>) = hm_ok h" "used (h\<lparr>m_iNodeFreeListHead := x\<rparr>) = used h"
  "bucket_in (h\<lparr>m_iNodeFreeListHead := x\<rparr>) = bucket_in h" "nodes (h\<lparr>m_iNodeFreeListHead := x\<rparr>) = nodes h"
  "bk (h\<lparr>m_iNodeFreeListHead := x\<rparr>) = bk h" "bucket_count (h\<lparr>m_iNodeFreeListHead := x\<rparr>) = bucket_count h"
  "hm_ok (h\<lparr>m_cElements := x\<rparr>) = hm_ok h" "used (h\<lparr>m_cElements := x\<rparr>) = used h"
  "bucket_in (h\<lparr>m_cElements := x\<rparr>) = bucket_in h" "nodes (h\<lparr>m_cElements := x\<rparr>) = nodes h"
  "bk (h\<lparr>m_cElements := x\<rparr>) = bk h" "bucket_count (h\<lparr>m_cElements := x\<rparr>) = bucket_count h"
  "hm_ok (h\<lparr>m_nNeedRehashStart := x\<rparr>) = hm_ok h" "used (h\<lparr>m_nNeedRehashStart := x\<rparr>) = used h"
  "bucket_in (h\<lparr>m_nNeedRehashStart := x\<rparr>) = bucket_in h" "nodes (h\<lparr>m_nNeedRehashStart := x\<rparr>) = nodes h"
  "bk (h\<lparr>m_nNeedRehashStart := x\<rparr>) = bk h" "bucket_count (h\<lparr>m_nNeedRehashStart := x\<rparr>) = bucket_count h"
  "hm_ok (h\<lparr>m_nNeedRehashEnd := x\<rparr>) = hm_ok h" "used (h\<lparr>m_nNeedRehashEnd := x\<rparr>) = used h"
  "bucket_in (h\<lparr>m_nNeedRehashEnd := x\<rparr>) = bucket_in h" "nodes (h\<lparr>m_nNeedRehashEnd := x\<rparr>) = nodes h"
  "bk (h\<lparr>m_nNeedRehashEnd := x\<rparr>) = bk h" "bucket_count (h\<lparr>m_nNeedRehashEnd := x\<rparr>) = bucket_count h"
  "hm_ok (h\<lparr>m_nMinBucketMask := x\<rparr>) = hm_ok h" "used (h\<lparr>m_nMinBucketMask := x\<rparr>) = used h"
  "bucket_in (h\<lparr>m_nMinBucketMask := x\<rparr>) = bucket_in h" "nodes (h\<lparr>m_nMinBucketMask := x\<rparr>) = nodes h"
  "bk (h\<lparr>m_nMinBucketMask := x\<rparr>) = bk h" "bucket_count (h\<lparr>m_nMinBucketMask := x\<rparr>) = bucket_count h"
  by (simp_all add: hm_ok_def used_def bucket_in_def nodes_def bk_def bucket_count_def fun_eq_iff)

lemma node_reads [hm_simps]:
  "ky (h\<lparr>m_iNodeFreeListHead := x\<rparr>) = ky h" "el (h\<lparr>m_iNodeFreeListHead := x\<rparr>) = el h" "nx (h\<lparr>m_iNodeFreeListHead := x\<rparr>) = nx h"
  "ky (h\<lparr>m_cElements := x\<rparr>) = ky h" "el (h\<lparr>m_cElements := x\<rparr>) = el h" "nx (h\<lparr>m_cElements := x\<rparr>) = nx h"
  "ky (h\<lparr>m_nNeedRehashStart := x\<rparr>) = ky h" "el (h\<lparr>m_nNeedRehashStart := x\<rparr>) = el h" "nx (h\<lparr>m_nNeedRehashStart := x\<rparr>) = nx h"
  "ky (h\<lparr>m_nNeedRehashEnd := x\<rparr>) = ky h" "el (h\<lparr>m_nNeedRehashEnd := x\<rparr>) = el h" "nx (h\<lparr>m_nNeedRehashEnd := x\<rparr>) = nx h"
  "ky (h\<lparr>m_nMinBucketMask := x\<rparr>) = ky h" "el (h\<lparr>m_nMinBucketMask := x\<rparr>) = el h" "nx (h\<lparr>m_nMinBucketMask := x\<rparr>) = nx h"
  by (simp_all add: ky_def el_def nx_def nodes_def fun_eq_iff)

lemma nth_nupd:
  "hm_ok h \<Longrightarrow> used h i \<Longrightarrow> 0 \<le> j \<Longrightarrow>
   nodes (nupd i f h) ! nat j = (if j = i then f (nodes h ! nat i) else nodes h ! nat j)"
  using used_length [of h i] by (auto simp: nupd_def nodes_def nth_list_update used_def)

lemma bk_bupd: "hm_ok h \<Longrightarrow> bucket_in h b \<Longrightarrow> 0 \<le> c \<Longrightarrow> bk (bupd b x h) c = (if c = b then x else bk h c)"
  using bucket_in_length [of h b] by (auto simp: bk_def elems_bupd nth_list_update bucket_in_def)

lemma put_link_at:
  assumes "hm_ok h" "used h i" "0 \<le> j"
  shows "nx (put_link i x h) j = (if j = i then x else nx h j)" "ky (put_link i x h) j = ky h j"
    "el (put_link i x h) j = el h j"
  using nth_nupd [OF assms] by (simp_all add: nx_def ky_def el_def)

text \<open>
  \<open>ch b\<close> is the list of nodes that hang from bucket \<open>b\<close>: the links run through it, no node hangs
  twice, and there is nothing outside the buckets.
\<close>

definition chained :: "('k, 'e) hashmap \<Rightarrow> (int \<Rightarrow> int list) \<Rightarrow> bool" where
  "chained h ch \<longleftrightarrow> hm_ok h \<and>
     (\<forall>b. bucket_in h b \<longrightarrow> bk h b = hd (ch b @ [-1]) \<and> chain (nx h) (ch b) (-1) \<and> distinct (ch b)) \<and>
     (\<forall>b. \<not> bucket_in h b \<longrightarrow> ch b = []) \<and>
     (\<forall>b. \<forall>i \<in> set (ch b). used h i) \<and>
     (\<forall>b c. b \<noteq> c \<longrightarrow> set (ch b) \<inter> set (ch c) = {})"

lemma chainedD:
  assumes "chained h ch"
  shows "hm_ok h" "bucket_in h b \<Longrightarrow> bk h b = hd (ch b @ [-1])" "bucket_in h b \<Longrightarrow> chain (nx h) (ch b) (-1)"
    "distinct (ch b)" "\<not> bucket_in h b \<Longrightarrow> ch b = []" "i \<in> set (ch b) \<Longrightarrow> used h i" "i \<in> set (ch b) \<Longrightarrow> 0 \<le> i"
    "b \<noteq> c \<Longrightarrow> set (ch b) \<inter> set (ch c) = {}" "i \<in> set (ch b) \<Longrightarrow> bucket_in h b"
proof -
  note c = assms [unfolded chained_def]
  show "hm_ok h" "bucket_in h b \<Longrightarrow> bk h b = hd (ch b @ [-1])" "bucket_in h b \<Longrightarrow> chain (nx h) (ch b) (-1)"
    "\<not> bucket_in h b \<Longrightarrow> ch b = []" "b \<noteq> c \<Longrightarrow> set (ch b) \<inter> set (ch c) = {}" using c by simp_all
  show u: "i \<in> set (ch b) \<Longrightarrow> used h i" using c by blast
  show "i \<in> set (ch b) \<Longrightarrow> 0 \<le> i" using u by (simp add: used_def)
  show "distinct (ch b)" using c by (cases "bucket_in h b") simp_all
  show "i \<in> set (ch b) \<Longrightarrow> bucket_in h b" using c by (cases "bucket_in h b") simp_all
qed

lemma chained_updI:
  assumes c: "chained h ch" and b: "bucket_in h b"
    and h': "hm_ok h'" "used h' = used h" "bucket_in h' = bucket_in h"
    and xs: "bk h' b = hd (xs @ [-1])" "chain (nx h') xs (-1)" "distinct xs" "\<forall>x \<in> set xs. used h x"
    and others: "\<And>d. d \<noteq> b \<Longrightarrow> bucket_in h d \<Longrightarrow> bk h' d = bk h d"
      "\<And>d. d \<noteq> b \<Longrightarrow> \<forall>x \<in> set (ch d). nx h' x = nx h x" "\<And>d. d \<noteq> b \<Longrightarrow> set xs \<inter> set (ch d) = {}"
  shows "chained h' (ch(b := xs))"
  unfolding chained_def
proof (intro conjI allI impI)
  show "hm_ok h'" by (rule h'(1))
next
  fix d assume "bucket_in h' d"
  then have d: "bucket_in h d" using h' by simp
  show "bk h' d = hd ((ch(b := xs)) d @ [-1])" using others(1) [of d] chainedD(2) [OF c d] xs(1) d by (cases "d = b") simp_all
  show "distinct ((ch(b := xs)) d)" using chainedD(4) [OF c, of d] xs(3) by simp
  have "chain (nx h') (ch d) (-1)" if "d \<noteq> b" using chain_cong [OF others(2) [OF that]] chainedD(3) [OF c d] by simp
  then show "chain (nx h') ((ch(b := xs)) d) (-1)" using xs(2) by simp
next
  fix d assume "\<not> bucket_in h' d"
  then show "(ch(b := xs)) d = []" using chainedD(5) [OF c, of d] h' b by (cases "d = b") simp_all
next
  fix d
  show "\<forall>x \<in> set ((ch(b := xs)) d). used h' x" using chainedD(6) [OF c, of _ d] xs(4) h' by simp
next
  fix d e :: int assume "d \<noteq> e"
  then show "set ((ch(b := xs)) d) \<inter> set ((ch(b := xs)) e) = {}"
    using chainedD(8) [OF c, of d e] others(3) [of d] others(3) [of e] by (cases "d = b"; cases "e = b") auto
qed

definition live :: "(int \<Rightarrow> int list) \<Rightarrow> int set" where
  "live ch = (\<Union>b. set (ch b))"

text \<open>What moving nodes between buckets leaves alone.\<close>

definition same_rest :: "('k, 'e) hashmap \<Rightarrow> ('k, 'e) hashmap \<Rightarrow> bool" where
  "same_rest h' h \<longleftrightarrow> (\<forall>i. 0 \<le> i \<longrightarrow> ky h' i = ky h i \<and> el h' i = el h i) \<and>
     bucket_count h' = bucket_count h \<and> m_nMaxElement h' = m_nMaxElement h \<and> m_cElements h' = m_cElements h \<and>
     m_iNodeFreeListHead h' = m_iNodeFreeListHead h \<and> m_nNeedRehashStart h' = m_nNeedRehashStart h \<and>
     m_nNeedRehashEnd h' = m_nNeedRehashEnd h \<and> m_nMinBucketMask h' = m_nMinBucketMask h \<and>
     Memory_Count (m_memNodes h') = Memory_Count (m_memNodes h)"

lemma same_rest_refl [simp]: "same_rest h h"
  by (simp add: same_rest_def)

lemma same_rest_trans: "same_rest h3 h2 \<Longrightarrow> same_rest h2 h1 \<Longrightarrow> same_rest h3 h1"
  by (simp add: same_rest_def)

lemma same_rest_in: "same_rest h' h \<Longrightarrow> used h' i = used h i" "same_rest h' h \<Longrightarrow> bucket_in h' b = bucket_in h b"
  by (simp_all add: same_rest_def used_def bucket_in_def)

lemma LinkNode_result:
  assumes c: "chained h ch" and b: "bucket_in h b" and i: "used h i" "i \<notin> live ch"
  shows "\<exists>h'. LinkNodeIntoBucket b i h = Some h' \<and> chained h' (ch(b := i # ch b)) \<and> same_rest h' h \<and>
    (\<forall>j. 0 \<le> j \<longrightarrow> j \<noteq> i \<longrightarrow> nx h' j = nx h j)"
proof -
  define h' where "h' = bupd b i (put_link i (bk h b) h)"
  note ok = chainedD(1) [OF c]
  have s: "LinkNodeIntoBucket b i h = Some h'"
    using ok b i by (simp add: LinkNodeIntoBucket_def hm_simps h'_def)
  have i0: "0 \<le> i" using i(1) by (simp add: used_def)
  have f: "hm_ok h'" "used h' = used h" "bucket_in h' = bucket_in h" "\<And>j. 0 \<le> j \<Longrightarrow> nx h' j = (if j = i then bk h b else nx h j)"
    "\<And>d. 0 \<le> d \<Longrightarrow> bk h' d = (if d = b then i else bk h d)"
    using ok b put_link_at [OF ok i(1)] bk_bupd [of "put_link i (bk h b) h" b]
    by (simp_all add: h'_def hm_simps)
  have r: "same_rest h' h" using put_link_at [OF ok i(1)] by (simp add: same_rest_def h'_def hm_simps)
  have ni: "i \<notin> set (ch d)" for d using i(2) by (auto simp: live_def)
  have same: "\<forall>x \<in> set (ch d). nx h' x = nx h x" for d
    using f(4) chainedD(7) [OF c, of _ d] ni [of d] by auto
  have "chained h' (ch(b := i # ch b))"
  proof (rule chained_updI [OF c b f(1-3)])
    show "bk h' b = hd ((i # ch b) @ [-1])" using f(5) b by (simp add: bucket_in_def)
    show "chain (nx h') (i # ch b) (-1)"
      using f(4) [OF i0] chain_cong [OF same] chainedD(2,3) [OF c b] by simp
    show "distinct (i # ch b)" "\<forall>x \<in> set (i # ch b). used h x"
      using ni chainedD(4) [OF c] chainedD(6) [OF c] i(1) by simp_all
    show "bk h' d = bk h d" if "d \<noteq> b" "bucket_in h d" for d using f(5) that by (simp add: bucket_in_def)
    show "\<forall>x \<in> set (ch d). nx h' x = nx h x" for d by (rule same)
    show "set (i # ch b) \<inter> set (ch d) = {}" if "d \<noteq> b" for d
      using ni chainedD(8) [OF c that] by auto
  qed
  with s r f(4) show ?thesis by auto
qed

definition link_of :: "int \<Rightarrow> int list \<Rightarrow> link" where
  "link_of b us = (if us = [] then BucketLink b else NodeLink (last us))"

lemma read_link_of:
  assumes c: "chained h ch" and b: "bucket_in h b" and split: "ch b = us @ vs"
  shows "read_link (link_of b us) h = Some (hd (vs @ [-1]))"
proof (cases "us = []")
  case True
  then show ?thesis using chainedD(1,2) [OF c] b split by (simp add: link_of_def hm_simps)
next
  case False
  then obtain ws u where us: "us = ws @ [u]" by (cases us rule: rev_cases) auto
  have "u \<in> set (ch b)" using split us by simp
  then have u: "used h u" by (rule chainedD(6) [OF c])
  have "chain (nx h) (ws @ [u] @ vs) (-1)" using chainedD(3) [OF c b] split us by simp
  then have "nx h u = hd (vs @ [-1])" by (simp only: chain_append) simp
  then show ?thesis using u chainedD(1) [OF c] by (simp add: link_of_def us hm_simps)
qed

lemma unlink_result:
  assumes c: "chained h ch" and b: "bucket_in h b" and split: "ch b = us @ i # vs"
  shows "\<exists>h'. write_link (link_of b us) (nx h i) h = Some h' \<and> chained h' (ch(b := us @ vs)) \<and> same_rest h' h \<and>
    (\<forall>j. 0 \<le> j \<longrightarrow> j \<notin> set us \<longrightarrow> nx h' j = nx h j)"
proof -
  note ok = chainedD(1) [OF c]
  have ch: "chain (nx h) (us @ i # vs) (-1)" "distinct (us @ i # vs)" "\<forall>x \<in> set (us @ i # vs). used h x"
    using chainedD(3) [OF c b] chainedD(4) [OF c, of b] chainedD(6) [OF c, of _ b] by (simp_all add: split)
  have n: "nx h i = hd (vs @ [-1])" "chain (nx h) us i" "chain (nx h) vs (-1)"
    using ch(1) by (simp_all add: chain_append)
  have dis: "set (us @ i # vs) \<inter> set (ch d) = {}" if "d \<noteq> b" for d
    using chainedD(8) [OF c, of b d] that split by simp
  have ru: "distinct (us @ vs)" "\<forall>x \<in> set (us @ vs). used h x" "\<And>d. d \<noteq> b \<Longrightarrow> set (us @ vs) \<inter> set (ch d) = {}"
    using ch(2,3) dis by auto
  show ?thesis
  proof (cases "us = []")
    case True
    define h' where "h' = bupd b (nx h i) h"
    have f: "hm_ok h'" "used h' = used h" "bucket_in h' = bucket_in h" "nx h' = nx h"
      "\<And>d. 0 \<le> d \<Longrightarrow> bk h' d = (if d = b then nx h i else bk h d)"
      using ok bk_bupd [OF ok b] by (simp_all add: h'_def hm_simps)
    have "same_rest h' h" by (simp add: same_rest_def h'_def hm_simps)
    moreover have "chained h' (ch(b := us @ vs))"
    proof (rule chained_updI [OF c b f(1-3) _ _ ru(1,2)])
      show "bk h' b = hd ((us @ vs) @ [-1])" using f(5) b n True by (simp add: bucket_in_def)
      show "chain (nx h') (us @ vs) (-1)" using n True f(4) by simp
      show "bk h' d = bk h d" if "d \<noteq> b" "bucket_in h d" for d using f(5) that by (simp add: bucket_in_def)
    qed (use f(4) ru(3) in simp_all)
    moreover have "write_link (link_of b us) (nx h i) h = Some h'"
      using True ok b by (simp add: link_of_def hm_simps h'_def)
    ultimately show ?thesis using f(4) by auto
  next
    case False
    define u where "u = last us"
    have u: "used h u" "0 \<le> u" "u \<in> set us" using ch(3) False by (auto simp: u_def used_def)
    define h' where "h' = put_link u (nx h i) h"
    have f: "hm_ok h'" "used h' = used h" "bucket_in h' = bucket_in h" "bk h' = bk h"
      "\<And>j. 0 \<le> j \<Longrightarrow> nx h' j = (if j = u then nx h i else nx h j)"
      using ok put_link_at [OF ok u(1)] by (simp_all add: h'_def hm_simps)
    have r: "same_rest h' h" using put_link_at [OF ok u(1)] by (simp add: same_rest_def h'_def hm_simps)
    have "chain ((nx h)(u := nx h i)) us (nx h i)"
      using chain_new_last [OF n(2) False] ch(2) by (simp add: u_def)
    moreover have "\<forall>x \<in> set us. nx h' x = ((nx h)(u := nx h i)) x"
      using f(5) ch(3) by (simp add: used_def)
    ultimately have c1: "chain (nx h') us (nx h i)"
      using chain_cong [of us "nx h'" "(nx h)(u := nx h i)"] by metis
    have "\<forall>x \<in> set vs. nx h' x = nx h x" using f(5) ch(2,3) u(3) by (auto simp: used_def)
    then have c2: "chain (nx h') vs (-1)" using chain_cong n(3) by metis
    have "chained h' (ch(b := us @ vs))"
    proof (rule chained_updI [OF c b f(1-3) _ _ ru(1,2)])
      show "bk h' b = hd ((us @ vs) @ [-1])" using f(4) chainedD(2) [OF c b] split False by (simp add: hd_append)
      show "chain (nx h') (us @ vs) (-1)" using c1 c2 n(1) by (simp add: chain_append)
      show "bk h' d = bk h d" if "d \<noteq> b" "bucket_in h d" for d using f(4) by simp
      show "\<forall>x \<in> set (ch d). nx h' x = nx h x" if "d \<noteq> b" for d
        using f(5) u(3) dis [OF that] chainedD(7) [OF c, of _ d] by auto
    qed (rule ru(3))
    moreover have "write_link (link_of b us) (nx h i) h = Some h'"
      using False ok u by (simp add: link_of_def hm_simps h'_def u_def)
    moreover have "\<forall>j. 0 \<le> j \<longrightarrow> j \<notin> set us \<longrightarrow> nx h' j = nx h j" using f(5) u(3) by auto
    ultimately show ?thesis using r by blast
  qed
qed

end
