(* ===== verification/UtlHashMapCorrect.thy ===== *)
theory UtlHashMapCorrect
  imports UtlHashMap
begin

text \<open>
  The hash map of theory \<open>UtlHashMap\<close> is a finite map: its invariant, the map it stands for, and what each
  operation does to both.
\<close>

section \<open>Masks\<close>

lemma and_mask: "(x :: int) AND (2 ^ n - 1) = take_bit n x"
  by (simp add: take_bit_eq_mask mask_eq_exp_minus_1)

lemma half_mask: "drop_bit 1 ((2 :: int) ^ n - 1) = 2 ^ (n - 1) - 1"
  by (metis drop_bit_mask_eq mask_eq_exp_minus_1)

lemma take_bit_mono: "m \<le> n \<Longrightarrow> take_bit m (x :: int) \<le> take_bit n x"
  by (metis min.absorb1 take_bit_int_less_eq_self_iff take_bit_nonnegative take_bit_take_bit)

lemma mask_less: "(2 :: int) ^ m - 1 < 2 ^ j - 1 \<longleftrightarrow> m < j"
  by simp

section \<open>Moving the nodes of a bucket\<close>

definition home :: "('k \<Rightarrow> int) \<Rightarrow> ('k, 'e) hashmap \<Rightarrow> int \<Rightarrow> int" where
  "home hf h i = hf (ky h i) AND (bucket_count h - 1)"

text \<open>What moving nodes between buckets does: the nodes hang differently, and all else is as it was.\<close>

definition shuffled ::
  "('k, 'e) hashmap \<Rightarrow> (int \<Rightarrow> int list) \<Rightarrow> ('k, 'e) hashmap \<Rightarrow> (int \<Rightarrow> int list) \<Rightarrow> bool" where
  "shuffled h ch h' ch' \<longleftrightarrow> chained h' ch' \<and> live ch' = live ch \<and>
     (\<forall>i. 0 \<le> i \<longrightarrow> ky h' i = ky h i \<and> el h' i = el h i) \<and>
     (\<forall>i. 0 \<le> i \<longrightarrow> i \<notin> live ch \<longrightarrow> nx h' i = nx h i) \<and>
     bucket_count h' = bucket_count h \<and> m_nMaxElement h' = m_nMaxElement h \<and> m_cElements h' = m_cElements h \<and>
     m_iNodeFreeListHead h' = m_iNodeFreeListHead h \<and> Memory_Count (m_memNodes h') = Memory_Count (m_memNodes h)"

definition emptied ::
  "('k \<Rightarrow> int) \<Rightarrow> int \<Rightarrow> ('k, 'e) hashmap \<Rightarrow> (int \<Rightarrow> int list) \<Rightarrow> (int \<Rightarrow> int list) \<Rightarrow> bool" where
  "emptied hf b h ch ch' \<longleftrightarrow>
     (\<forall>c i. i \<in> set (ch' c) \<longleftrightarrow> (if i \<in> set (ch b) then c = home hf h i else i \<in> set (ch c)))"

lemma shuffled_refl: "chained h ch \<Longrightarrow> shuffled h ch h ch"
  by (simp add: shuffled_def)

lemma shuffled_trans: "shuffled h1 c1 h2 c2 \<Longrightarrow> shuffled h2 c2 h3 c3 \<Longrightarrow> shuffled h1 c1 h3 c3"
  by (simp add: shuffled_def)

lemma live_pos: "chained h ch \<Longrightarrow> i \<in> live ch \<Longrightarrow> 0 \<le> i \<and> used h i"
  using chainedD(6,7) [of h ch] by (auto simp: live_def)

lemma live_bucket: "i \<in> set (ch b) \<Longrightarrow> i \<in> live ch"
  by (auto simp: live_def)

lemma live_upd:
  assumes "chained h ch"
  shows "live (ch(b := xs)) = (live ch - set (ch b)) \<union> set xs"
proof (intro set_eqI iffI)
  fix x assume "x \<in> live (ch(b := xs))"
  then obtain c where x: "x \<in> set ((ch(b := xs)) c)" by (auto simp: live_def)
  show "x \<in> (live ch - set (ch b)) \<union> set xs"
  proof (cases "c = b")
    case False
    then show ?thesis using x chainedD(8) [OF assms False] live_bucket [of x ch c] by auto
  qed (use x in simp)
next
  fix x assume x: "x \<in> (live ch - set (ch b)) \<union> set xs"
  show "x \<in> live (ch(b := xs))"
  proof (cases "x \<in> set xs")
    case True
    then show ?thesis by (intro live_bucket [of x _ b]) simp
  next
    case False
    then obtain c where "x \<in> set (ch c)" "c \<noteq> b" using x by (auto simp: live_def)
    then show ?thesis by (intro live_bucket [of x _ c]) simp
  qed
qed

lemma RehashNodes_from_result:
  assumes "chained h ch" "bucket_in h b" "\<forall>x. bucket_in h (hf x AND (bucket_count h - 1))" "ch b = us @ vs"
    "\<forall>u \<in> set us. home hf h u = b"
  shows "\<exists>h' ch'. RehashNodes_from hf b (link_of b us) h = Some h' \<and> shuffled h ch h' ch' \<and> same_rest h' h \<and>
    emptied hf b h ch ch'"
  using assms
proof (induction vs arbitrary: us h ch)
  case Nil
  have "RehashNodes_from hf b (link_of b us) h = Some h"
    using read_link_of [OF Nil.prems(1,2,4)] by (subst RehashNodes_from.simps) (simp add: kInvalidIndex_def)
  moreover have "emptied hf b h ch ch"
    using Nil.prems(4,5) chainedD(8) [OF Nil.prems(1)] by (fastforce simp: emptied_def)
  ultimately show ?case using shuffled_refl [OF Nil.prems(1)] by auto
next
  case (Cons i vs)
  note c = Cons.prems(1) and b = Cons.prems(2) and split = Cons.prems(4)
  note ok = chainedD(1) [OF c]
  have ib: "i \<in> set (ch b)" using split by simp
  have i: "used h i" "0 \<le> i" using chainedD(6,7) [OF c ib] by auto
  have rd: "read_link (link_of b us) h = Some i" using read_link_of [OF c b split] by simp
  let ?d = "hf (ky h i) AND (bucket_count h - 1)"
  show ?case
  proof (cases "?d = b")
    case True
    then have "RehashNodes_from hf b (link_of b us) h = RehashNodes_from hf b (link_of b (us @ [i])) h"
      using rd i ok by (subst RehashNodes_from.simps) (simp add: kInvalidIndex_def hm_simps link_of_def)
    moreover have "ch b = (us @ [i]) @ vs" "\<forall>u \<in> set (us @ [i]). home hf h u = b"
      using split Cons.prems(5) True by (auto simp: home_def)
    ultimately show ?thesis using Cons.IH [OF c b Cons.prems(3)] by simp
  next
    case False
    obtain h1 where h1: "write_link (link_of b us) (nx h i) h = Some h1" "chained h1 (ch(b := us @ vs))"
      "same_rest h1 h" "\<forall>j. 0 \<le> j \<longrightarrow> j \<notin> set us \<longrightarrow> nx h1 j = nx h j"
      using unlink_result [OF c b split] by blast
    have d: "bucket_in h1 ?d" using Cons.prems(3) same_rest_in(2) [OF h1(3)] by simp
    have dist: "i \<notin> set (us @ vs)" using chainedD(4) [OF c, of b] split by simp
    have i1: "used h1 i" "i \<notin> live (ch(b := us @ vs))"
      using i(1) same_rest_in(1) [OF h1(3)] dist chainedD(8) [OF c, of _ b] ib by (auto simp: live_def)
    obtain h2 where h2: "LinkNodeIntoBucket ?d i h1 = Some h2"
      "chained h2 ((ch(b := us @ vs))(?d := i # (ch(b := us @ vs)) ?d))" "same_rest h2 h1"
      "\<forall>j. 0 \<le> j \<longrightarrow> j \<noteq> i \<longrightarrow> nx h2 j = nx h1 j"
      using LinkNode_result [OF h1(2) d i1] by blast
    define ch2 where "ch2 = ch(b := us @ vs, ?d := i # ch ?d)"
    have c2: "chained h2 ch2" using h2(2) False by (simp add: ch2_def)
    have r: "same_rest h2 h" using h1(3) h2(3) by (rule same_rest_trans [rotated])
    have st: "RehashNodes_from hf b (link_of b us) h = RehashNodes_from hf b (link_of b us) h2"
      using rd i ok h1(1) h2(1) False by (subst RehashNodes_from.simps) (simp add: kInvalidIndex_def hm_simps)
    have pos: "\<forall>u \<in> set (ch b). 0 \<le> u" using chainedD(7) [OF c] by blast
    have hm: "\<forall>u. 0 \<le> u \<longrightarrow> home hf h2 u = home hf h u" using r by (simp add: home_def same_rest_def)
    have bc: "\<forall>x. bucket_in h2 (hf x AND (bucket_count h2 - 1))" "bucket_in h2 b"
      using Cons.prems(2,3) r by (simp_all add: same_rest_def bucket_in_def)
    have cb: "ch2 b = us @ vs" using False by (simp add: ch2_def)
    have us: "\<forall>u \<in> set us. home hf h2 u = b" using Cons.prems(5) hm pos split by simp
    obtain h' ch' where h': "RehashNodes_from hf b (link_of b us) h2 = Some h'" "shuffled h2 ch2 h' ch'" "same_rest h' h2"
      "emptied hf b h2 ch2 ch'"
      using Cons.IH [OF c2 bc(2,1) cb us] by blast
    have live: "live ch2 = live ch"
    proof -
      have "live ch2 = (live (ch(b := us @ vs)) - set (ch ?d)) \<union> set (i # ch ?d)"
        using live_upd [OF h1(2), of ?d "i # ch ?d"] False by (simp add: ch2_def)
      moreover have "set (us @ i # vs) \<subseteq> live ch" using live_bucket [of _ ch b] split by auto
      moreover have "set (ch ?d) \<subseteq> live ch" using live_bucket [of _ ch ?d] by auto
      moreover have "set (ch ?d) \<inter> set (us @ i # vs) = {}" using chainedD(8) [OF c False] split by simp
      ultimately show ?thesis using live_upd [OF c, of b "us @ vs"] split by auto
    qed
    have dead: "nx h2 j = nx h j" if "0 \<le> j" "j \<notin> live ch" for j
    proof -
      have "j \<notin> set (us @ i # vs)" using that(2) live_bucket [of j ch b] split by metis
      then have "j \<notin> set us" "j \<noteq> i" by simp_all
      then show ?thesis using h1(4) h2(4) that(1) by simp
    qed
    have sh: "shuffled h ch h2 ch2" using c2 live dead r by (simp add: shuffled_def same_rest_def)
    have "emptied hf b h ch ch'"
      unfolding emptied_def
    proof (intro allI)
      fix e x
      have e: "x \<in> set (ch' e) \<longleftrightarrow> (if x \<in> set (us @ vs) then e = home hf h2 x else x \<in> set (ch2 e))"
        using h'(4) unfolding emptied_def cb by blast
      show "x \<in> set (ch' e) \<longleftrightarrow> (if x \<in> set (ch b) then e = home hf h x else x \<in> set (ch e))"
      proof (cases "x \<in> set (us @ vs)")
        case True
        then have "x \<in> set (ch b)" "0 \<le> x" using split pos by auto
        then show ?thesis using e True hm by simp
      next
        case n: False
        show ?thesis
        proof (cases "x = i")
          case True
          have "i \<notin> set (ch e)" if "e \<noteq> b" using chainedD(8) [OF c that] ib by blast
          then show ?thesis using e n True ib False split by (auto simp: ch2_def home_def)
        next
          case xi: False
          then have "x \<notin> set (ch b)" using n split by simp
          then show ?thesis using e n xi split by (auto simp: ch2_def)
        qed
      qed
    qed
    with st h' shuffled_trans [OF sh h'(2)] same_rest_trans [OF h'(3) r] show ?thesis by auto
  qed
qed

lemma RehashNodesInBucket_result:
  assumes "chained h ch" "bucket_in h b" "\<forall>x. bucket_in h (hf x AND (bucket_count h - 1))"
  shows "\<exists>h' ch'. RehashNodesInBucket hf b h = Some h' \<and> shuffled h ch h' ch' \<and> same_rest h' h \<and> emptied hf b h ch ch'"
  using RehashNodes_from_result [OF assms, of "[]" "ch b"] by (simp add: RehashNodesInBucket_def link_of_def)

section \<open>The invariant\<close>

text \<open>The free nodes, from the head on.\<close>

definition free_list :: "('k, 'e) hashmap \<Rightarrow> (int \<Rightarrow> int list) \<Rightarrow> int list \<Rightarrow> bool" where
  "free_list h ch fs \<longleftrightarrow> m_iNodeFreeListHead h = hd (fs @ [-1]) \<and>
     chain (\<lambda>i. FreeNodeIDToIndex (nx h i)) fs (-1) \<and> distinct fs \<and> live ch \<inter> set fs = {} \<and>
     live ch \<union> set fs = {0 ..< m_nMaxElement h} \<and> m_cElements h = int (card (live ch))"

text \<open>
  Where a node may hang: in the bucket of its hash under the full mask or, in the range that still has
  to be rehashed, under a smaller mask, down to \<open>m_nMinBucketMask\<close>.
\<close>

definition placed :: "('k \<Rightarrow> int) \<Rightarrow> ('k, 'e) hashmap \<Rightarrow> (int \<Rightarrow> int list) \<Rightarrow> nat \<Rightarrow> nat \<Rightarrow> int \<Rightarrow> int \<Rightarrow> bool" where
  "placed hf h ch n j s e \<longleftrightarrow> (\<forall>b. \<forall>i \<in> set (ch b). b = take_bit n (hf (ky h i)) \<or>
     (s \<le> b \<and> b < e \<and> (\<exists>m. j \<le> m \<and> m < n \<and> b = take_bit m (hf (ky h i)))))"

definition together :: "('k \<Rightarrow> int) \<Rightarrow> ('k, 'e) hashmap \<Rightarrow> (int \<Rightarrow> int list) \<Rightarrow> bool" where
  "together hf h ch \<longleftrightarrow>
     (\<forall>b c. \<forall>i \<in> set (ch b). \<forall>k \<in> set (ch c). hf (ky h i) = hf (ky h k) \<longrightarrow> b = c)"

definition masks :: "('k, 'e) hashmap \<Rightarrow> nat \<Rightarrow> nat \<Rightarrow> bool" where
  "masks h n j \<longleftrightarrow> bucket_count h = 2 ^ n \<and> m_nMinBucketMask h = 2 ^ j - 1 \<and> 1 \<le> j \<and> j \<le> n \<and>
     0 \<le> m_nNeedRehashStart h \<and> m_nNeedRehashStart h \<le> m_nNeedRehashEnd h \<and> m_nNeedRehashEnd h \<le> 2 ^ n \<and>
     0 < Memory_Count (m_memNodes h)"

definition hm_rep ::
  "('k \<Rightarrow> int) \<Rightarrow> ('k, 'e) hashmap \<Rightarrow> (int \<Rightarrow> int list) \<Rightarrow> int list \<Rightarrow> nat \<Rightarrow> nat \<Rightarrow> bool" where
  "hm_rep hf h ch fs n j \<longleftrightarrow> chained h ch \<and> free_list h ch fs \<and> masks h n j \<and> together hf h ch \<and>
     placed hf h ch n j (m_nNeedRehashStart h) (m_nNeedRehashEnd h)"

lemma masks_bucket: "masks h n j \<Longrightarrow> m \<le> n \<Longrightarrow> bucket_in h (take_bit m x)"
  using take_bit_mono [of m n x] take_bit_int_less_exp [of n x]
  by (auto simp: masks_def bucket_in_def intro: le_less_trans)

lemma masks_home: "masks h n j \<Longrightarrow> home hf h i = take_bit n (hf (ky h i))"
  by (simp add: home_def masks_def and_mask)

lemma masks_all: "masks h n j \<Longrightarrow> \<forall>x. bucket_in h (hf x AND (bucket_count h - 1))"
  using masks_bucket [of h n j n] by (simp add: masks_def and_mask)

lemma shuffled_free_list: "shuffled h ch h' ch' \<Longrightarrow> free_list h ch fs \<Longrightarrow> free_list h' ch' fs"
proof -
  assume s: "shuffled h ch h' ch'" and f: "free_list h ch fs"
  have "\<forall>x \<in> set fs. FreeNodeIDToIndex (nx h' x) = FreeNodeIDToIndex (nx h x)"
  proof
    fix x assume "x \<in> set fs"
    then have "0 \<le> x" "x \<notin> live ch" using f by (auto simp: free_list_def)
    then show "FreeNodeIDToIndex (nx h' x) = FreeNodeIDToIndex (nx h x)" using s by (simp add: shuffled_def)
  qed
  then have "chain (\<lambda>i. FreeNodeIDToIndex (nx h' i)) fs (-1) = chain (\<lambda>i. FreeNodeIDToIndex (nx h i)) fs (-1)"
    by (rule chain_cong)
  then show ?thesis using s f by (simp add: free_list_def shuffled_def)
qed

text \<open>Emptying a bucket keeps equal hashes together, and every node of it is then in its place.\<close>

lemma emptied_together:
  assumes "emptied hf b h ch ch'" "together hf h ch" "shuffled h ch h' ch'" "chained h ch"
  shows "together hf h' ch'"
  unfolding together_def
proof (intro allI ballI impI)
  fix c d i k
  assume i: "i \<in> set (ch' c)" and k: "k \<in> set (ch' d)" and eq: "hf (ky h' i) = hf (ky h' k)"
  have "0 \<le> i" "0 \<le> k" using i k assms(3) chainedD(7) [of h' ch'] by (auto simp: shuffled_def)
  then have h: "hf (ky h i) = hf (ky h k)" using eq assms(3) by (simp add: shuffled_def)
  note i' = assms(1) [unfolded emptied_def, rule_format, of i c]
  note k' = assms(1) [unfolded emptied_def, rule_format, of k d]
  note t = assms(2) [unfolded together_def, rule_format, OF _ _ h]
  show "c = d"
  proof (cases "i \<in> set (ch b)"; cases "k \<in> set (ch b)")
    assume "i \<in> set (ch b)" "k \<in> set (ch b)"
    then show ?thesis using i i' k k' h by (simp add: home_def)
  next
    assume a: "i \<in> set (ch b)" "k \<notin> set (ch b)"
    then have "k \<in> set (ch d)" using k k' by simp
    then show ?thesis using t [OF a(1)] a(2) by blast
  next
    assume a: "i \<notin> set (ch b)" "k \<in> set (ch b)"
    then have "i \<in> set (ch c)" using i i' by simp
    then show ?thesis using t [OF _ a(2)] a(1) by blast
  next
    assume "i \<notin> set (ch b)" "k \<notin> set (ch b)"
    then show ?thesis using i i' k k' t by simp
  qed
qed

lemma emptied_placed:
  assumes "emptied hf b h ch ch'" "placed hf h ch n j s e" "shuffled h ch h' ch'" "chained h ch" "masks h n j"
  shows "placed hf h' ch' n j s e" and "b = s \<Longrightarrow> placed hf h' ch' n j (s + 1) e"
proof -
  have "c = take_bit n (hf (ky h' i)) \<or>
      (s \<le> c \<and> c < e \<and> c \<noteq> b \<and> (\<exists>m. j \<le> m \<and> m < n \<and> c = take_bit m (hf (ky h' i))))" if i: "i \<in> set (ch' c)" for c i
  proof -
    have "0 \<le> i" using i assms(3) chainedD(7) [of h' ch'] by (auto simp: shuffled_def)
    then have ky: "ky h' i = ky h i" using assms(3) by (simp add: shuffled_def)
    note i' = assms(1) [unfolded emptied_def, rule_format, of i c]
    show ?thesis
    proof (cases "i \<in> set (ch b)")
      case True
      then show ?thesis using i i' masks_home [OF assms(5)] ky by simp
    next
      case False
      then have "i \<in> set (ch c)" "c \<noteq> b" using i i' by auto
      then show ?thesis using assms(2) ky unfolding placed_def by auto
    qed
  qed
  note * = this
  show "placed hf h' ch' n j s e" using * unfolding placed_def by blast
  assume "b = s"
  then show "placed hf h' ch' n j (s + 1) e" using * unfolding placed_def by fastforce
qed

subsection \<open>Incremental rehashing\<close>

lemma chained_fields [hm_simps]:
  "chained (h\<lparr>m_nNeedRehashStart := x\<rparr>) ch = chained h ch" "chained (h\<lparr>m_nNeedRehashEnd := x\<rparr>) ch = chained h ch"
  "chained (h\<lparr>m_nMinBucketMask := x\<rparr>) ch = chained h ch" "chained (h\<lparr>m_cElements := x\<rparr>) ch = chained h ch"
  "chained (h\<lparr>m_iNodeFreeListHead := x\<rparr>) ch = chained h ch"
  by (simp_all add: chained_def hm_simps)

lemma together_fields [hm_simps]:
  "together hf (h\<lparr>m_nNeedRehashStart := x\<rparr>) ch = together hf h ch" "together hf (h\<lparr>m_nNeedRehashEnd := x\<rparr>) ch = together hf h ch"
  "together hf (h\<lparr>m_nMinBucketMask := x\<rparr>) ch = together hf h ch"
  "placed hf (h\<lparr>m_nNeedRehashStart := x\<rparr>) ch = placed hf h ch" "placed hf (h\<lparr>m_nNeedRehashEnd := x\<rparr>) ch = placed hf h ch"
  "placed hf (h\<lparr>m_nMinBucketMask := x\<rparr>) ch = placed hf h ch"
  by (simp_all add: together_def placed_def fun_eq_iff hm_simps)

lemma free_list_fields [hm_simps]:
  "free_list (h\<lparr>m_nNeedRehashStart := x\<rparr>) ch fs = free_list h ch fs" "free_list (h\<lparr>m_nNeedRehashEnd := x\<rparr>) ch fs = free_list h ch fs"
  "free_list (h\<lparr>m_nMinBucketMask := x\<rparr>) ch fs = free_list h ch fs"
  by (simp_all add: free_list_def hm_simps)

lemma placed_home: "placed hf h ch n j s e \<Longrightarrow> e \<le> s \<Longrightarrow> placed hf h ch n j' s' e'"
  unfolding placed_def by force

lemma placed_skip:
  assumes p: "placed hf h ch n j s e" and s: "ch s = []"
  shows "placed hf h ch n j (s + 1) e"
  unfolding placed_def
proof (intro allI ballI)
  fix b i assume i: "i \<in> set (ch b)"
  then have "s \<le> b \<Longrightarrow> s + 1 \<le> b" using s by (cases "b = s") auto
  then show "b = take_bit n (hf (ky h i)) \<or> (s + 1 \<le> b \<and> b < e \<and> (\<exists>m. j \<le> m \<and> m < n \<and> b = take_bit m (hf (ky h i))))"
    using p [unfolded placed_def, rule_format, OF i] by blast
qed

lemma rehash_done_rep:
  assumes "chained h ch" "free_list h ch fs" "together hf h ch" "placed hf h ch n j s e" "e \<le> s" "bucket_count h = 2 ^ n" "1 \<le> n"
    "0 < Memory_Count (m_memNodes h)"
  shows "hm_rep hf (rehash_done h) ch fs n n"
  using assms placed_home [OF assms(4,5)] by (simp add: hm_rep_def rehash_done_def masks_def hm_simps)

lemma rehash_done_shuffled: "shuffled h ch (h\<lparr>m_nNeedRehashStart := s\<rparr>) ch = chained h ch"
  "shuffled h1 ch1 (rehash_done h) ch = shuffled h1 ch1 h ch"
  "shuffled (h\<lparr>m_nNeedRehashStart := s\<rparr>) ch h' ch' = shuffled h ch h' ch'"
  by (simp_all add: shuffled_def rehash_done_def hm_simps)

lemma rehash_step:
  assumes "hm_rep hf h ch fs n j" "m_nNeedRehashStart h < m_nNeedRehashEnd h"
  defines "s \<equiv> m_nNeedRehashStart h" and "h1 \<equiv> h\<lparr>m_nNeedRehashStart := m_nNeedRehashStart h + 1\<rparr>"
  obtains (empty) "bucket_at h1 s = Some (-1)" "placed hf h1 ch n j (s + 1) (m_nNeedRehashEnd h)"
  | (moved) i h2 ch2 where "bucket_at h1 s = Some i" "i \<noteq> -1" "RehashNodesInBucket hf s h1 = Some h2" "shuffled h ch h2 ch2"
      "same_rest h2 h1" "placed hf h2 ch2 n j (s + 1) (m_nNeedRehashEnd h)" "together hf h2 ch2"
proof -
  have c: "chained h ch" and m: "masks h n j" using assms(1) by (auto simp: hm_rep_def)
  have s: "bucket_in h s" using m assms(2) by (simp add: bucket_in_def masks_def s_def)
  have c1: "chained h1 ch" "bucket_in h1 s" using c s by (simp_all add: h1_def hm_simps)
  have at: "bucket_at h1 s = Some (hd (ch s @ [-1]))" using chainedD(1,2) [OF c1(1)] c1(2) by (simp add: hm_simps)
  show thesis
  proof (cases "ch s = []")
    case True
    then have "placed hf h1 ch n j (s + 1) (m_nNeedRehashEnd h)"
      using assms(1) placed_skip [of hf h ch n j s "m_nNeedRehashEnd h"] by (simp add: hm_rep_def h1_def hm_simps s_def)
    then show ?thesis using True at by (intro empty) simp_all
  next
    case False
    have all: "\<forall>x. bucket_in h1 (hf x AND (bucket_count h1 - 1))" using masks_all [OF m, of hf] by (simp add: h1_def hm_simps)
    obtain h2 ch2 where h2: "RehashNodesInBucket hf s h1 = Some h2" "shuffled h1 ch h2 ch2" "same_rest h2 h1"
      "emptied hf s h1 ch ch2" using RehashNodesInBucket_result [OF c1 all] by blast
    have e: "emptied hf s h ch ch2" using h2(4) by (simp add: emptied_def home_def h1_def hm_simps)
    have sh: "shuffled h ch h2 ch2" using h2(2) by (simp add: h1_def rehash_done_shuffled)
    have p: "placed hf h ch n j s (m_nNeedRehashEnd h)" "together hf h ch" using assms(1) by (simp_all add: hm_rep_def s_def)
    have "hd (ch s @ [-1]) \<noteq> -1" using False chainedD(7) [OF c, of "hd (ch s)" s] by (cases "ch s") auto
    then show ?thesis using at h2(1,3) sh emptied_placed(2) [OF e p(1) sh c m refl] emptied_together [OF e p(2) sh c]
      by (intro moved) simp_all
  qed
qed

lemma IncrementalRehash_result:
  "hm_rep hf h ch fs n j \<Longrightarrow> m_nNeedRehashStart h < m_nNeedRehashEnd h \<Longrightarrow>
   \<exists>h' ch' j'. IncrementalRehash hf h = Some h' \<and> hm_rep hf h' ch' fs n j' \<and> shuffled h ch h' ch'"
proof (induction "nat (m_nNeedRehashEnd h - m_nNeedRehashStart h)" arbitrary: h rule: less_induct)
  case less
  define s e where "s = m_nNeedRehashStart h" and "e = m_nNeedRehashEnd h"
  define h1 where "h1 = h\<lparr>m_nNeedRehashStart := m_nNeedRehashStart h + 1\<rparr>"
  have c: "chained h ch" and f: "free_list h ch fs" and m: "masks h n j" and t: "together hf h ch"
    using less.prems(1) by (auto simp: hm_rep_def)
  have n: "bucket_count h = 2 ^ n" "1 \<le> n" "0 < Memory_Count (m_memNodes h)" using m by (auto simp: masks_def)
  have c1: "chained h1 ch" "free_list h1 ch fs" "together hf h1 ch" "bucket_count h1 = 2 ^ n"
    "0 < Memory_Count (m_memNodes h1)" "m_nNeedRehashStart h1 = s + 1" "m_nNeedRehashEnd h1 = e"
    using c f t n by (simp_all add: h1_def hm_simps s_def e_def)
  have m1: "masks h1 n j" if "s + 1 < e" using m that by (simp add: masks_def h1_def hm_simps s_def e_def)
  have sh1: "shuffled h ch h1 ch" using c by (simp add: h1_def rehash_done_shuffled)
  show ?case
  proof (rule rehash_step [OF less.prems])
    assume b: "bucket_at (h\<lparr>m_nNeedRehashStart := m_nNeedRehashStart h + 1\<rparr>) (m_nNeedRehashStart h) = Some (-1)"
      and p: "placed hf (h\<lparr>m_nNeedRehashStart := m_nNeedRehashStart h + 1\<rparr>) ch n j (m_nNeedRehashStart h + 1) (m_nNeedRehashEnd h)"
    show ?thesis
    proof (cases "s + 1 < e")
      case True
      have r: "hm_rep hf h1 ch fs n j" using c1 p m1 [OF True] by (simp add: hm_rep_def h1_def [symmetric] s_def e_def)
      have st: "IncrementalRehash hf h = IncrementalRehash hf h1"
        using b True c1(6,7) by (subst IncrementalRehash.simps) (simp add: kInvalidIndex_def h1_def s_def e_def)
      show ?thesis using less.hyps [OF _ r] c1(6,7) True shuffled_trans [OF sh1] unfolding st by (auto simp: s_def e_def)
    next
      case False
      have "IncrementalRehash hf h = Some (rehash_done h1)"
        using b False by (subst IncrementalRehash.simps) (simp add: kInvalidIndex_def h1_def s_def e_def)
      moreover have "hm_rep hf (rehash_done h1) ch fs n n"
        using rehash_done_rep [OF c1(1-3) p [folded h1_def] _ c1(4) n(2) c1(5)] False by (simp add: s_def e_def)
      ultimately show ?thesis using sh1 rehash_done_shuffled(2) by blast
    qed
  next
    fix i h2 ch2
    assume b: "bucket_at (h\<lparr>m_nNeedRehashStart := m_nNeedRehashStart h + 1\<rparr>) (m_nNeedRehashStart h) = Some i" "i \<noteq> -1"
      and h2: "RehashNodesInBucket hf (m_nNeedRehashStart h) (h\<lparr>m_nNeedRehashStart := m_nNeedRehashStart h + 1\<rparr>) = Some h2"
      "shuffled h ch h2 ch2" "same_rest h2 (h\<lparr>m_nNeedRehashStart := m_nNeedRehashStart h + 1\<rparr>)"
      "placed hf h2 ch2 n j (m_nNeedRehashStart h + 1) (m_nNeedRehashEnd h)" "together hf h2 ch2"
    have same: "m_nNeedRehashStart h2 = s + 1" "m_nNeedRehashEnd h2 = e" "bucket_count h2 = 2 ^ n"
      "m_nMinBucketMask h2 = m_nMinBucketMask h" "0 < Memory_Count (m_memNodes h2)"
      using h2(3) n by (simp_all add: same_rest_def s_def e_def hm_simps)
    have c2: "chained h2 ch2" using h2(2) by (simp add: shuffled_def)
    have f2: "free_list h2 ch2 fs" using shuffled_free_list [OF h2(2) f] .
    show ?thesis
    proof (cases "s + 1 < e")
      case True
      have "IncrementalRehash hf h = Some h2"
        using b h2(1) True same by (subst IncrementalRehash.simps) (simp add: kInvalidIndex_def s_def e_def)
      moreover have "hm_rep hf h2 ch2 fs n j"
        using c2 f2 h2(4,5) same m True by (simp add: hm_rep_def masks_def s_def e_def)
      ultimately show ?thesis using h2(2) by blast
    next
      case False
      have "IncrementalRehash hf h = Some (rehash_done h2)"
        using b h2(1) False same by (subst IncrementalRehash.simps) (simp add: kInvalidIndex_def s_def e_def)
      moreover have "hm_rep hf (rehash_done h2) ch2 fs n n"
        using rehash_done_rep [OF c2 f2 h2(5,4) _ same(3) n(2) same(5)] False by (simp add: s_def e_def)
      ultimately show ?thesis using h2(2) rehash_done_shuffled(2) by blast
    qed
  qed
qed

lemma rehash_some_result:
  assumes "hm_rep hf h ch fs n j"
  shows "\<exists>h' ch' j'. rehash_some hf h = Some h' \<and> hm_rep hf h' ch' fs n j' \<and> shuffled h ch h' ch'"
proof (cases "m_nNeedRehashStart h < m_nNeedRehashEnd h")
  case True
  then show ?thesis using IncrementalRehash_result [OF assms] by (simp add: rehash_some_def)
next
  case False
  then show ?thesis using assms shuffled_refl [of h ch] by (auto simp: rehash_some_def hm_rep_def)
qed

section \<open>Search\<close>

text \<open>What the equality and the hash function owe each other.\<close>

definition eq_hash :: "('k \<Rightarrow> 'k \<Rightarrow> bool) \<Rightarrow> ('k \<Rightarrow> int) \<Rightarrow> bool" where
  "eq_hash eqf hf \<longleftrightarrow> equivp eqf \<and> (\<forall>a b. eqf a b \<longrightarrow> hf a = hf b)"

lemma eq_hash_eq [simp]: "eq_hash (=) hf"
  by (simp add: eq_hash_def identity_equivp)

lemma eq_hashD:
  assumes "eq_hash eqf hf"
  shows "eqf a a" "eqf a b \<Longrightarrow> eqf b a" "eqf a b \<Longrightarrow> eqf b c \<Longrightarrow> eqf a c" "eqf a b \<Longrightarrow> hf a = hf b"
proof -
  have e: "equivp eqf" "\<forall>a b. eqf a b \<longrightarrow> hf a = hf b" using assms by (simp_all add: eq_hash_def)
  show "eqf a a" "eqf a b \<Longrightarrow> eqf b a" "eqf a b \<Longrightarrow> eqf b c \<Longrightarrow> eqf a c"
    using equivp_reflp [OF e(1)] equivp_symp [OF e(1)] equivp_transp [OF e(1)] by blast+
  show "eqf a b \<Longrightarrow> hf a = hf b" using e(2) by blast
qed

text \<open>The first node of a chain that has the key, or \<open>kInvalidIndex\<close>.\<close>

abbreviation first_match :: "('k \<Rightarrow> 'k \<Rightarrow> bool) \<Rightarrow> 'k \<Rightarrow> ('k, 'e) hashmap \<Rightarrow> int list \<Rightarrow> int" where
  "first_match eqf key h xs \<equiv> hd (filter (\<lambda>i. eqf key (ky h i)) xs @ [-1])"

lemma FindInChain_result:
  "hm_ok h \<Longrightarrow> chain (nx h) xs (-1) \<Longrightarrow> \<forall>x \<in> set xs. used h x \<Longrightarrow>
   FindInChain eqf key (hd (xs @ [-1])) h = Some (first_match eqf key h xs)"
proof (induction xs)
  case Nil
  then show ?case by (subst FindInChain.simps) (simp add: kInvalidIndex_def)
next
  case (Cons x xs)
  then have "0 \<le> x" by (simp add: used_def)
  then show ?case using Cons by (subst FindInChain.simps) (simp add: kInvalidIndex_def hm_simps)
qed

lemma FindInBucket_result:
  assumes "chained h ch" "bucket_in h b"
  shows "FindInBucket eqf b key h = Some (first_match eqf key h (ch b))"
  using FindInChain_result [OF chainedD(1) [OF assms(1)] chainedD(3) [OF assms], of eqf key] chainedD(1,2,6) [OF assms(1)] assms(2)
  by (simp add: FindInBucket_def hm_simps)

lemma first_match_cases:
  assumes "chained h ch"
  obtains (no) "first_match eqf key h (ch b) = -1" "\<forall>i \<in> set (ch b). \<not> eqf key (ky h i)"
  | (yes) i where "first_match eqf key h (ch b) = i" "i \<in> set (ch b)" "eqf key (ky h i)" "0 \<le> i"
proof (cases "filter (\<lambda>i. eqf key (ky h i)) (ch b)")
  case Nil
  then show ?thesis using no by (simp add: filter_empty_conv)
next
  case (Cons i rest)
  then have "i \<in> set (filter (\<lambda>i. eqf key (ky h i)) (ch b))" by simp
  then have "i \<in> set (ch b)" "eqf key (ky h i)" by simp_all
  then show ?thesis using yes [of i] Cons chainedD(7) [OF assms, of i b] by simp
qed

text \<open>The buckets a search goes through below the mask \<open>2 ^ m\<close>.\<close>

definition on_path :: "('k, 'e) hashmap \<Rightarrow> (int \<Rightarrow> int list) \<Rightarrow> nat \<Rightarrow> nat \<Rightarrow> int \<Rightarrow> int \<Rightarrow> bool" where
  "on_path h ch j m hash i \<longleftrightarrow> i \<in> set (ch (take_bit m hash)) \<or>
     (\<exists>m'. j \<le> m' \<and> m' < m \<and> m_nNeedRehashStart h \<le> take_bit m' hash \<and> i \<in> set (ch (take_bit m' hash)))"

lemma on_path_top:
  assumes "hm_rep hf h ch fs n j" "i \<in> live ch"
  shows "on_path h ch j n (hf (ky h i)) i"
proof -
  obtain b where b: "i \<in> set (ch b)" using assms(2) by (auto simp: live_def)
  have "placed hf h ch n j (m_nNeedRehashStart h) (m_nNeedRehashEnd h)" using assms(1) by (simp add: hm_rep_def)
  then show ?thesis using b unfolding placed_def on_path_def by metis
qed

lemma on_path_step:
  assumes "on_path h ch j m hash i" "i \<notin> set (ch (take_bit m hash))" "j \<le> m"
  shows "j < m" "m_nNeedRehashStart h \<le> take_bit (m - 1) hash" "on_path h ch j (m - 1) hash i"
proof -
  obtain m' where m': "j \<le> m'" "m' < m" "m_nNeedRehashStart h \<le> take_bit m' hash" "i \<in> set (ch (take_bit m' hash))"
    using assms by (auto simp: on_path_def)
  then show "j < m" by simp
  show "m_nNeedRehashStart h \<le> take_bit (m - 1) hash" using m' take_bit_mono [of m' "m - 1" hash] by linarith
  show "on_path h ch j (m - 1) hash i" using m' by (cases "m' = m - 1") (auto simp: on_path_def)
qed

lemma Find_masks_result:
  assumes c: "chained h ch" and ms: "masks h n j" and t: "together hf h ch" and eq: "eq_hash eqf hf"
  shows "j \<le> m \<Longrightarrow> m \<le> n \<Longrightarrow> (\<forall>i \<in> live ch. eqf key (ky h i) \<longrightarrow> on_path h ch j m (hf key) i) \<Longrightarrow>
   \<exists>b. bucket_in h b \<and> Find_masks eqf (hf key) (2 ^ m - 1) key h = Some (first_match eqf key h (ch b)) \<and>
     (\<forall>i \<in> live ch. eqf key (ky h i) \<longrightarrow> i \<in> set (ch b))"
proof (induction m)
  case 0
  then show ?case using ms by (simp add: masks_def)
next
  case (Suc m)
  define b where "b = take_bit (Suc m) (hf key)"
  have b: "bucket_in h b" using masks_bucket [OF ms Suc.prems(2)] by (simp add: b_def)
  have mk: "hf key AND (2 ^ Suc m - 1) = b" "drop_bit 1 ((2 :: int) ^ Suc m - 1) = 2 ^ m - 1"
    using and_mask [of "hf key" "Suc m"] half_mask [of "Suc m"] by (simp_all add: b_def)
  have minm: "(2 :: int) ^ m - 1 < m_nMinBucketMask h \<longleftrightarrow> m < j" using ms by (simp add: masks_def)
  have low: "hf key AND (2 ^ m - 1) = take_bit m (hf key)" by (rule and_mask)
  show ?case
  proof (rule first_match_cases [OF c, of eqf key b])
    fix i assume i: "first_match eqf key h (ch b) = i" "i \<in> set (ch b)" "eqf key (ky h i)" "0 \<le> i"
    have "k \<in> set (ch b)" if k: "k \<in> live ch" "eqf key (ky h k)" for k
    proof -
      obtain d where d: "k \<in> set (ch d)" using k(1) by (auto simp: live_def)
      have "hf (ky h i) = hf (ky h k)" using eq_hashD(4) [OF eq] i(3) k(2) by metis
      then have "b = d" using t i(2) d unfolding together_def by blast
      with d show ?thesis by simp
    qed
    moreover have "Find_masks eqf (hf key) (2 ^ Suc m - 1) key h = Some (first_match eqf key h (ch b))"
      using i FindInBucket_result [OF c b, of eqf key] mk(1)
      by (subst Find_masks.simps) (simp add: kInvalidIndex_def del: power_Suc)
    ultimately show ?thesis using b by blast
  next
    assume no: "first_match eqf key h (ch b) = -1" "\<forall>i \<in> set (ch b). \<not> eqf key (ky h i)"
    have st: "Find_masks eqf (hf key) (2 ^ Suc m - 1) key h =
        (if m < j then Some (-1) else if m_nNeedRehashStart h \<le> take_bit m (hf key)
         then Find_masks eqf (hf key) (2 ^ m - 1) key h else Some (-1))"
      using no(1) FindInBucket_result [OF c b, of eqf key] mk minm low
      by (subst Find_masks.simps) (simp add: kInvalidIndex_def Let_def del: power_Suc)
    have step: "j < Suc m \<and> m_nNeedRehashStart h \<le> take_bit m (hf key) \<and> on_path h ch j m (hf key) i"
      if "i \<in> live ch" "eqf key (ky h i)" for i
    proof -
      have p: "on_path h ch j (Suc m) (hf key) i" using Suc.prems(3) that by blast
      have "i \<notin> set (ch (take_bit (Suc m) (hf key)))" using no(2) that(2) by (auto simp: b_def)
      from on_path_step [OF p this Suc.prems(1)] show ?thesis by simp
    qed
    show ?thesis
    proof (cases "m < j \<or> \<not> m_nNeedRehashStart h \<le> take_bit m (hf key)")
      case True
      then have "\<forall>i \<in> live ch. \<not> eqf key (ky h i)" using step by fastforce
      then show ?thesis using st True b no(1) by auto
    next
      case False
      then show ?thesis using st Suc.IH Suc.prems(2) step by simp
    qed
  qed
qed

lemma HM_Find_result:
  assumes r: "hm_rep hf h ch fs n j" and eq: "eq_hash eqf hf"
  shows "\<exists>h' ch' j' b. HM_Find eqf hf key h = Some (first_match eqf key h' (ch' b), h') \<and> hm_rep hf h' ch' fs n j' \<and>
    shuffled h ch h' ch' \<and> bucket_in h' b \<and> (\<forall>i \<in> live ch'. eqf key (ky h' i) \<longrightarrow> i \<in> set (ch' b))"
proof (cases "m_cElements h = 0")
  case True
  have "finite (live ch)" using r infinite_super [of "live ch"] by (simp add: hm_rep_def free_list_def) (metis finite_Un finite_atLeastLessThan_int)
  then have l: "live ch = {}" using True r by (simp add: hm_rep_def free_list_def)
  have c: "chained h ch" using r by (simp add: hm_rep_def)
  have "bucket_in h 0" using r by (simp add: hm_rep_def masks_def bucket_in_def)
  moreover have "ch 0 = []" using l by (auto simp: live_def)
  ultimately show ?thesis using True r l shuffled_refl [OF c]
    by (intro exI [of _ h] exI [of _ ch] exI [of _ j] exI [of _ 0]) (simp add: HM_Find_def kInvalidIndex_def)
next
  case False
  obtain h1 ch1 j1 where h1: "rehash_some hf h = Some h1" "hm_rep hf h1 ch1 fs n j1" "shuffled h ch h1 ch1"
    using rehash_some_result [OF r] by blast
  note rep = h1(2) [unfolded hm_rep_def]
  have bc: "bucket_count h1 = 2 ^ n" "j1 \<le> n" using rep by (simp_all add: masks_def)
  have "\<forall>i \<in> live ch1. eqf key (ky h1 i) \<longrightarrow> on_path h1 ch1 j1 n (hf key) i"
    using on_path_top [OF h1(2)] eq_hashD(4) [OF eq, of key] by auto
  then obtain b where "bucket_in h1 b" "Find_masks eqf (hf key) (2 ^ n - 1) key h1 = Some (first_match eqf key h1 (ch1 b))"
    "\<forall>i \<in> live ch1. eqf key (ky h1 i) \<longrightarrow> i \<in> set (ch1 b)"
    using Find_masks_result [of h1 ch1 n j1 hf eqf n key] rep eq bc(2) by blast
  then show ?thesis using False h1 bc(1) by (auto simp: HM_Find_def)
qed

section \<open>Growing\<close>

text \<open>What growing leaves alone: the nodes in use.\<close>

definition kept :: "('k, 'e) hashmap \<Rightarrow> (int \<Rightarrow> int list) \<Rightarrow> ('k, 'e) hashmap \<Rightarrow> (int \<Rightarrow> int list) \<Rightarrow> bool" where
  "kept h ch h' ch' \<longleftrightarrow> live ch' = live ch \<and> (\<forall>i \<in> live ch. ky h' i = ky h i \<and> el h' i = el h i) \<and>
     m_nMaxElement h' = m_nMaxElement h \<and> m_cElements h' = m_cElements h"

lemma kept_refl [simp]: "kept h ch h ch"
  by (simp add: kept_def)

lemma kept_trans: "kept h1 c1 h2 c2 \<Longrightarrow> kept h2 c2 h3 c3 \<Longrightarrow> kept h1 c1 h3 c3"
  by (simp add: kept_def)

lemma shuffled_kept: "shuffled h ch h' ch' \<Longrightarrow> chained h ch \<Longrightarrow> kept h ch h' ch'"
  using live_pos [of h ch] by (simp add: kept_def shuffled_def)

text \<open>Buckets and nodes that hold what they held, where they are in use.\<close>

definition extended :: "('k, 'e) hashmap \<Rightarrow> ('k, 'e) hashmap \<Rightarrow> bool" where
  "extended h h' \<longleftrightarrow> hm_ok h' \<and> used h' = used h \<and> bucket_count h \<le> bucket_count h' \<and>
     (\<forall>b. bucket_in h b \<longrightarrow> bk h' b = bk h b) \<and> (\<forall>b. bucket_in h' b \<longrightarrow> \<not> bucket_in h b \<longrightarrow> bk h' b = -1) \<and>
     (\<forall>i. used h i \<longrightarrow> ky h' i = ky h i \<and> el h' i = el h i \<and> nx h' i = nx h i) \<and>
     m_nMaxElement h' = m_nMaxElement h \<and> m_cElements h' = m_cElements h \<and>
     m_iNodeFreeListHead h' = m_iNodeFreeListHead h"

lemma extended_rep:
  assumes e: "extended h h'" and c: "chained h ch" and f: "free_list h ch fs" and t: "together hf h ch"
  shows "chained h' ch" "free_list h' ch fs" "together hf h' ch" "kept h ch h' ch"
    "placed hf h' ch = placed hf h ch"
proof -
  note e' = e [unfolded extended_def]
  have u: "\<forall>x \<in> set (ch b). used h x" for b using chainedD(6) [OF c] by blast
  show "kept h ch h' ch" using e' live_pos [OF c] by (simp add: kept_def)
  show "chained h' ch"
    unfolding chained_def
  proof (intro conjI allI impI)
    fix b assume b: "bucket_in h' b"
    have "chain (nx h') (ch b) (-1) = chain (nx h) (ch b) (-1)" using e' u by (intro chain_cong) simp
    then show "bk h' b = hd (ch b @ [-1])" "chain (nx h') (ch b) (-1)" "distinct (ch b)"
      using e' b chainedD(2-5) [OF c, of b] by (cases "bucket_in h b"; simp)+
  next
    fix b assume "\<not> bucket_in h' b"
    then show "ch b = []" using e' chainedD(5) [OF c, of b] by (auto simp: bucket_in_def)
  next
    fix b show "\<forall>x \<in> set (ch b). used h' x" using u e' by simp
  next
    fix b d :: int assume "b \<noteq> d"
    then show "set (ch b) \<inter> set (ch d) = {}" by (rule chainedD(8) [OF c])
  qed (use e' in simp)
  have ky: "\<forall>b. \<forall>i \<in> set (ch b). ky h' i = ky h i" using e' u by blast
  show "together hf h' ch" using t ky unfolding together_def by metis
  show "placed hf h' ch = placed hf h ch" using ky by (simp add: placed_def fun_eq_iff)
  have "\<forall>x \<in> set fs. FreeNodeIDToIndex (nx h' x) = FreeNodeIDToIndex (nx h x)"
  proof
    fix x assume "x \<in> set fs"
    then have "x \<in> {0 ..< m_nMaxElement h}" using f unfolding free_list_def by blast
    then show "FreeNodeIDToIndex (nx h' x) = FreeNodeIDToIndex (nx h x)" using e' by (simp add: used_def)
  qed
  then have "chain (\<lambda>i. FreeNodeIDToIndex (nx h' i)) fs (-1) = chain (\<lambda>i. FreeNodeIDToIndex (nx h i)) fs (-1)"
    by (rule chain_cong)
  then show "free_list h' ch fs" using f e' by (simp add: free_list_def)
qed

lemma memory_extended:
  assumes ok: "hm_ok h" and m: "mem_inv m" "m_nGrowSize m = m_nGrowSize (m_memNodes h)"
    "m_nAllocationCount (m_memNodes h) \<le> m_nAllocationCount m"
    "take (nat (m_nAllocationCount (m_memNodes h))) (m_pMemory m) = take (nat (m_nAllocationCount (m_memNodes h))) (nodes h)"
  shows "extended h (h\<lparr>m_memNodes := m\<rparr>)"
proof -
  have n: "m_pMemory m ! nat i = nodes h ! nat i" if "used h i" for i
  proof -
    have "nat i < nat (m_nAllocationCount (m_memNodes h))" using that ok by (auto simp: used_def hm_ok_def)
    then show ?thesis using arg_cong [OF m(4), of "\<lambda>xs. xs ! nat i"] by simp
  qed
  have bk: "bk (h\<lparr>m_memNodes := m\<rparr>) = bk h" "bucket_count (h\<lparr>m_memNodes := m\<rparr>) = bucket_count h"
    "used (h\<lparr>m_memNodes := m\<rparr>) = used h" "bucket_in (h\<lparr>m_memNodes := m\<rparr>) = bucket_in h"
    by (simp_all add: fun_eq_iff bk_def bucket_count_def used_def bucket_in_def)
  have "hm_ok (h\<lparr>m_memNodes := m\<rparr>)" using ok m by (auto simp: hm_ok_def)
  then show ?thesis using n by (simp add: extended_def bk ky_def el_def nx_def) (simp add: nodes_def)
qed

lemma buckets_needed_result:
  "\<exists>k'. k \<le> k' \<and> buckets_needed amount (2 ^ k) = Some (2 ^ k') \<and> amount \<le> 2 ^ k' \<and> (2 ^ k < amount \<longrightarrow> k < k')"
proof (induction "nat (amount - 2 ^ k)" arbitrary: k rule: less_induct)
  case less
  show ?case
  proof (cases "2 ^ k < amount")
    case True
    have d: "(2 :: int) ^ k < 2 ^ Suc k" by simp
    have "nat (amount - 2 ^ Suc k) < nat (amount - 2 ^ k)" using True d by linarith
    from less.hyps [OF this] obtain k' where
      "Suc k \<le> k'" "buckets_needed amount (2 ^ Suc k) = Some (2 ^ k')" "amount \<le> 2 ^ k'" by blast
    then show ?thesis using True
      by (intro exI [of _ k']) (subst buckets_needed.simps, simp add: push_bit_eq_mult mult.commute)
  qed (subst buckets_needed.simps, auto intro: exI [of _ k])
qed

text \<open>A map that has buckets, or has none yet and is empty.\<close>

definition hm_pre ::
  "('k \<Rightarrow> int) \<Rightarrow> ('k, 'e) hashmap \<Rightarrow> (int \<Rightarrow> int list) \<Rightarrow> int list \<Rightarrow> bool" where
  "hm_pre hf h ch fs \<longleftrightarrow> chained h ch \<and> free_list h ch fs \<and> together hf h ch \<and>
     (bucket_count h = 0 \<and> m_cElements h = 0 \<or>
      (\<exists>n j. masks h n j \<and> placed hf h ch n j (m_nNeedRehashStart h) (m_nNeedRehashEnd h)))"

lemma hm_rep_pre: "hm_rep hf h ch fs n j \<Longrightarrow> hm_pre hf h ch fs"
  by (auto simp: hm_rep_def hm_pre_def)

lemma hm_pre_rep: "hm_pre hf h ch fs \<Longrightarrow> 0 < bucket_count h \<Longrightarrow> \<exists>n j. hm_rep hf h ch fs n j"
  by (auto simp: hm_rep_def hm_pre_def)

lemma live_finite: "free_list h ch fs \<Longrightarrow> finite (live ch)"
  by (metis finite_Un finite_atLeastLessThan_int free_list_def)

lemma no_live: "free_list h ch fs \<Longrightarrow> m_cElements h = 0 \<Longrightarrow> ch b = []"
  using live_finite [of h ch fs] by (auto simp: free_list_def live_def)

lemma EnsureCapacity_cells:
  assumes ok: "hm_ok h" and h1: "h1 = h\<lparr>m_memNodes := Memory_EnsureCapacity rawn amount (m_memNodes h)\<rparr>"
  shows "extended h h1" "amount \<le> Memory_Count (m_memNodes h1)" "Memory_Count (m_memNodes h) \<le> Memory_Count (m_memNodes h1)"
proof -
  have m: "mem_inv (m_memNodes h)" "0 \<le> m_nGrowSize (m_memNodes h)" using ok by (auto simp: hm_ok_def)
  note r = Memory_EnsureCapacity_result [OF m, of rawn amount]
  then show "amount \<le> Memory_Count (m_memNodes h1)" "Memory_Count (m_memNodes h) \<le> Memory_Count (m_memNodes h1)"
    by (auto simp: h1 Memory_Count_def)
  show "extended h h1" unfolding h1 using r by (intro memory_extended [OF ok]) (auto simp: nodes_def)
qed

lemma grow_buckets:
  assumes ok: "hm_ok h" and g: "0 \<le> grow"
  shows "\<exists>v v'. AddMultipleToTail rawb (rawb 0) grow None (m_vecHashBuckets h) = Some (bucket_count h, v) \<and>
    Vector_Store (bucket_count h) (replicate (nat grow) (-1)) v = Some v' \<and>
    extended h (h\<lparr>m_vecHashBuckets := v'\<rparr>) \<and> bucket_count (h\<lparr>m_vecHashBuckets := v'\<rparr>) = bucket_count h + grow"
proof -
  define b where "b = m_vecHashBuckets h"
  have b: "vec_ok b" "0 \<le> m_Size b" "m_Size b = bucket_count h"
    using ok vec_invD [OF vec_okD, of b] by (auto simp: hm_ok_def b_def bucket_count_def Vector_Count_def)
  obtain v where v: "AddMultipleToTail rawb (rawb 0) grow None b = Some (m_Size b, v)" "vec_ok v"
    "elems v = elems b @ replicate (nat grow) (rawb 0)"
    using InsertMultipleBefore_result [OF b(1,2) order_refl g, of None rawb "rawb 0"] length_elems [OF vec_okD [OF b(1)]]
    by (auto simp: AddMultipleToTail_def)
  have sz: "m_Size v = m_Size b + grow"
    using arg_cong [OF v(3), of "\<lambda>x. int (length x)"] Count_elems [OF vec_okD [OF v(2)]]
      Count_elems [OF vec_okD [OF b(1)]] g by (simp add: Vector_Count_def)
  obtain v' where v': "Vector_Store (m_Size b) (replicate (nat grow) (-1)) v = Some v'" "vec_ok v'" "m_Size v' = m_Size v"
    "elems v' = take (nat (m_Size b)) (elems v) @ replicate (nat grow) (-1) @ drop (nat (m_Size b) + nat grow) (elems v)"
    using Vector_Store_elems [OF v(2) b(2), of "replicate (nat grow) (-1)"] sz g by auto
  have len: "length (elems b) = nat (m_Size b)" by (rule length_elems [OF vec_okD [OF b(1)]])
  have e: "elems v' = elems b @ replicate (nat grow) (-1)" using v'(4) v(3) len by simp
  define h' where "h' = h\<lparr>m_vecHashBuckets := v'\<rparr>"
  have bc: "bucket_count h' = bucket_count h + grow" using v'(3) sz b(3) by (simp add: h'_def bucket_count_def Vector_Count_def)
  have bk: "bk h' i = (if i < bucket_count h then bk h i else -1)" if "0 \<le> i" "i < bucket_count h + grow" for i
    using that e len b(3) g by (simp add: bk_def h'_def b_def nth_append nat_less_iff flip: nat_add_distrib)
  have same: "nodes h' = nodes h" "used h' = used h" by (simp_all add: h'_def nodes_def used_def fun_eq_iff)
  have "hm_ok h'" using ok v'(2) by (simp add: hm_ok_def h'_def)
  moreover have "m_nMaxElement h' = m_nMaxElement h \<and> m_cElements h' = m_cElements h \<and>
     m_iNodeFreeListHead h' = m_iNodeFreeListHead h" by (simp add: h'_def)
  ultimately have "extended h h'"
    using bc bk g by (auto simp: extended_def same ky_def el_def nx_def bucket_in_def)
  then show ?thesis using v v' bc b(3) by (auto simp: b_def h'_def)
qed

lemma extended_pre: "extended h h' \<Longrightarrow> hm_pre hf h ch fs \<Longrightarrow> bucket_count h' = bucket_count h \<Longrightarrow>
    m_nNeedRehashStart h' = m_nNeedRehashStart h \<Longrightarrow> m_nNeedRehashEnd h' = m_nNeedRehashEnd h \<Longrightarrow>
    m_nMinBucketMask h' = m_nMinBucketMask h \<Longrightarrow> Memory_Count (m_memNodes h) \<le> Memory_Count (m_memNodes h') \<Longrightarrow>
    hm_pre hf h' ch fs \<and> kept h ch h' ch"
proof -
  assume a: "extended h h'" "hm_pre hf h ch fs" "bucket_count h' = bucket_count h"
    "m_nNeedRehashStart h' = m_nNeedRehashStart h" "m_nNeedRehashEnd h' = m_nNeedRehashEnd h"
    "m_nMinBucketMask h' = m_nMinBucketMask h" "Memory_Count (m_memNodes h) \<le> Memory_Count (m_memNodes h')"
  have p: "chained h ch" "free_list h ch fs" "together hf h ch" using a(2) by (simp_all add: hm_pre_def)
  have "masks h n j \<longrightarrow> masks h' n j" for n j using a by (simp add: masks_def)
  moreover have "m_cElements h' = m_cElements h" using a(1) by (simp add: extended_def)
  ultimately have "bucket_count h' = 0 \<and> m_cElements h' = 0 \<or>
      (\<exists>n j. masks h' n j \<and> placed hf h' ch n j (m_nNeedRehashStart h') (m_nNeedRehashEnd h'))"
    using a(2,3,4,5) extended_rep(5) [OF a(1) p] by (auto simp: hm_pre_def)
  then show ?thesis using extended_rep [OF a(1) p] by (simp add: hm_pre_def)
qed

lemma EnsureCapacity_pre:
  assumes p: "hm_pre hf h ch fs"
  shows "\<exists>h'. HM_EnsureCapacity rawn rawb amount h = Some h' \<and> hm_pre hf h' ch fs \<and> kept h ch h' ch \<and>
    amount \<le> bucket_count h' \<and> amount \<le> Memory_Count (m_memNodes h')"
proof -
  have ok: "hm_ok h" using p chainedD(1) by (auto simp: hm_pre_def)
  define h1 where "h1 = h\<lparr>m_memNodes := Memory_EnsureCapacity rawn amount (m_memNodes h)\<rparr>"
  note e1 = EnsureCapacity_cells [OF ok h1_def]
  have f1: "bucket_count h1 = bucket_count h" "m_nNeedRehashStart h1 = m_nNeedRehashStart h"
    "m_nNeedRehashEnd h1 = m_nNeedRehashEnd h" "m_nMinBucketMask h1 = m_nMinBucketMask h"
    by (simp_all add: h1_def bucket_count_def)
  have p1: "hm_pre hf h1 ch fs" "kept h ch h1 ch" using extended_pre [OF e1(1) p f1 e1(3)] by auto
  show ?thesis
  proof (cases "amount \<le> bucket_count h1")
    case True
    then have "HM_EnsureCapacity rawn rawb amount h = Some h1" by (simp add: HM_EnsureCapacity_def h1_def)
    then show ?thesis using True p1 e1(2) by blast
  next
    case False
    have c1: "chained h1 ch" "free_list h1 ch fs" "together hf h1 ch" using p1(1) by (simp_all add: hm_pre_def)
    have ok1: "hm_ok h1" by (rule chainedD(1) [OF c1(1)])
    obtain k where k: "max 16 (bucket_count h1) = 2 ^ k" "1 \<le> k" "bucket_count h1 \<le> 2 ^ k" "bucket_count h1 = 2 ^ k \<or> bucket_count h1 < 16 \<and> k = 4"
    proof (cases "bucket_count h1 < 16")
      case True
      then show ?thesis by (intro that [of 4]) auto
    next
      case big: False
      then obtain n j where "masks h1 n j" using p1(1) by (auto simp: hm_pre_def)
      then show ?thesis using big by (intro that [of n]) (auto simp: masks_def)
    qed
    obtain k' where k': "k \<le> k'" "buckets_needed amount (2 ^ k) = Some (2 ^ k')" "amount \<le> 2 ^ k'"
      using buckets_needed_result by blast
    define grow where "grow = 2 ^ k' - bucket_count h1"
    have g: "0 < grow" using False k'(3) by (simp add: grow_def)
    obtain v v' where v: "AddMultipleToTail rawb (rawb 0) grow None (m_vecHashBuckets h1) = Some (bucket_count h1, v)"
      "Vector_Store (bucket_count h1) (replicate (nat grow) (-1)) v = Some v'"
      "extended h1 (h1\<lparr>m_vecHashBuckets := v'\<rparr>)" "bucket_count (h1\<lparr>m_vecHashBuckets := v'\<rparr>) = bucket_count h1 + grow"
      using grow_buckets [OF ok1, of grow rawb] g by auto
    define h2 where "h2 = h1\<lparr>m_vecHashBuckets := v'\<rparr>"
    have h2: "bucket_count h2 = 2 ^ k'" "m_cElements h2 = m_cElements h1" "m_nMinBucketMask h2 = m_nMinBucketMask h1"
      "m_memNodes h2 = m_memNodes h1" using v(4) by (simp_all add: h2_def grow_def)
    note r2 = extended_rep [OF v(3) [folded h2_def] c1]
    define h3 where "h3 = (if 0 < m_cElements h2
        then h2\<lparr>m_nNeedRehashStart := 0, m_nNeedRehashEnd := bucket_count h1\<rparr>
        else h2\<lparr>m_nNeedRehashStart := bucket_count h2, m_nNeedRehashEnd := bucket_count h2, m_nMinBucketMask := bucket_count h2 - 1\<rparr>)"
    have st: "HM_EnsureCapacity rawn rawb amount h = Some h3"
      using False k k'(2) v(1,2)
      by (simp add: HM_EnsureCapacity_def h1_def [symmetric] grow_def [symmetric] h3_def h2_def Let_def)
    have "0 \<le> bucket_count h" using p by (auto simp: hm_pre_def masks_def)
    then have mc: "0 < Memory_Count (m_memNodes h2)" using e1(2) False h2(4) f1(1) by simp
    have "hm_pre hf h3 ch fs"
    proof (cases "0 < m_cElements h2")
      case True
      then obtain n j where n: "masks h1 n j" "placed hf h1 ch n j (m_nNeedRehashStart h1) (m_nNeedRehashEnd h1)"
        using p1(1) h2(2) by (auto simp: hm_pre_def)
      have "(2 :: int) ^ n < 2 ^ k'" using n(1) g by (simp add: masks_def grow_def)
      then have nk: "n < k'" by simp
      have "placed hf h2 ch k' j 0 (2 ^ n)"
        unfolding placed_def
      proof (intro allI ballI disjI2)
        fix b i assume i: "i \<in> set (ch b)"
        have "b < 2 ^ n" "0 \<le> b" using chainedD(9) [OF c1(1) i] n(1) by (auto simp: bucket_in_def masks_def)
        moreover have "\<exists>m. j \<le> m \<and> m \<le> n \<and> b = take_bit m (hf (ky h1 i))"
          using n i unfolding placed_def masks_def by (metis less_imp_le order_refl)
        moreover have "ky h2 i = ky h1 i" using r2(4) live_bucket [of i ch b] i by (simp add: kept_def)
        ultimately show "0 \<le> b \<and> b < 2 ^ n \<and> (\<exists>m. j \<le> m \<and> m < k' \<and> b = take_bit m (hf (ky h2 i)))"
          using nk by (auto intro: le_less_trans)
      qed
      moreover have "masks h3 k' j" using True n(1) h2 nk mc by (simp add: h3_def masks_def hm_simps)
      ultimately show ?thesis using True r2(1-3) n(1) by (auto simp: hm_pre_def h3_def hm_simps masks_def)
    next
      case False
      have "m_cElements h2 = 0" using False r2(2) by (simp add: free_list_def)
      then have "ch b = []" for b using no_live [OF r2(2)] by blast
      then have "placed hf h3 ch k' k' (m_nNeedRehashStart h3) (m_nNeedRehashEnd h3)" by (simp add: placed_def)
      moreover have "masks h3 k' k'" using False k k'(1) h2 mc by (simp add: h3_def masks_def hm_simps)
      ultimately show ?thesis using False r2(1-3) by (auto simp: hm_pre_def h3_def hm_simps)
    qed
    moreover have "kept h2 ch h3 ch" "bucket_count h3 = 2 ^ k'" "m_memNodes h3 = m_memNodes h1"
      using h2 by (simp_all add: h3_def kept_def hm_simps)
    ultimately show ?thesis using st k'(3) e1(2) kept_trans [OF kept_trans [OF p1(2) r2(4)]] by auto
  qed
qed

lemma live_card: "free_list h ch fs \<Longrightarrow> 0 \<le> m_nMaxElement h \<Longrightarrow> m_cElements h \<le> m_nMaxElement h"
proof -
  assume f: "free_list h ch fs" and m: "0 \<le> m_nMaxElement h"
  then have "live ch \<subseteq> {0 ..< m_nMaxElement h}" by (auto simp: free_list_def)
  then have "card (live ch) \<le> card {0 ..< m_nMaxElement h}" by (intro card_mono) auto
  then show ?thesis using f m by (simp add: free_list_def)
qed

lemma insert_room_result:
  assumes p: "hm_pre hf h ch fs"
  shows "\<exists>h' n j. insert_room rawn rawb h = Some h' \<and> hm_rep hf h' ch fs n j \<and> kept h ch h' ch \<and>
    m_cElements h' < Memory_Count (m_memNodes h')"
proof -
  have c0: "0 \<le> m_cElements h" using p by (auto simp: hm_pre_def free_list_def)
  obtain h1 where h1: "(if bucket_count h \<le> m_cElements h
           then HM_EnsureCapacity rawn rawb (max 16 (bucket_count h * 2)) h else Some h) = Some h1"
    "hm_pre hf h1 ch fs" "kept h ch h1 ch" "0 < bucket_count h1"
  proof (cases "bucket_count h \<le> m_cElements h")
    case True
    obtain h1 where "HM_EnsureCapacity rawn rawb (max 16 (bucket_count h * 2)) h = Some h1" "hm_pre hf h1 ch fs"
      "kept h ch h1 ch" "max 16 (bucket_count h * 2) \<le> bucket_count h1"
      using EnsureCapacity_pre [OF p] by blast
    then show ?thesis using True by (intro that [of h1]) auto
  next
    case False
    then show ?thesis using p c0 by (intro that [of h]) auto
  qed
  obtain n j where r1: "hm_rep hf h1 ch fs n j" using hm_pre_rep [OF h1(2,4)] by blast
  have c1: "chained h1 ch" "free_list h1 ch fs" "masks h1 n j" using r1 by (simp_all add: hm_rep_def)
  have ok1: "hm_ok h1" by (rule chainedD(1) [OF c1(1)])
  show ?thesis
  proof (cases "Memory_Count (m_memNodes h1) \<le> m_cElements h1")
    case False
    then show ?thesis using h1(1,3) r1 by (auto simp: insert_room_def)
  next
    case True
    define a where "a = Memory_Count (m_memNodes h1)"
    have a: "0 < a" "a = m_nAllocationCount (m_memNodes h1)" using c1(3) by (simp_all add: masks_def a_def Memory_Count_def)
    have "mem_inv (m_memNodes h1)" "0 \<le> m_nGrowSize (m_memNodes h1)" using ok1 by (simp_all add: hm_ok_def)
    then obtain m where m: "Memory_Grow rawn (a * 2) (m_memNodes h1) = Some m" "mem_inv m" "a + a * 2 \<le> m_nAllocationCount m"
      "m_nGrowSize m = m_nGrowSize (m_memNodes h1)"
      "take (nat a) (m_pMemory m) = take (nat a) (m_pMemory (m_memNodes h1))"
      using Memory_Grow_result [of "m_memNodes h1" "a * 2" rawn] a by auto
    define h2 where "h2 = h1\<lparr>m_memNodes := m\<rparr>"
    have ex: "extended h1 h2" unfolding h2_def using m a by (intro memory_extended [OF ok1]) (auto simp: nodes_def)
    have f2: "bucket_count h2 = bucket_count h1" "m_nNeedRehashStart h2 = m_nNeedRehashStart h1"
      "m_nNeedRehashEnd h2 = m_nNeedRehashEnd h1" "m_nMinBucketMask h2 = m_nMinBucketMask h1"
      "Memory_Count (m_memNodes h1) \<le> Memory_Count (m_memNodes h2)" "m_cElements h2 = m_cElements h1"
      using m(3) a by (simp_all add: h2_def bucket_count_def Memory_Count_def)
    have p2: "hm_pre hf h2 ch fs" "kept h1 ch h2 ch" using extended_pre [OF ex h1(2) f2(1-5)] by auto
    obtain n2 j2 where r2: "hm_rep hf h2 ch fs n2 j2" using hm_pre_rep [OF p2(1)] h1(4) f2(1) by auto
    have "m_cElements h1 \<le> a" using live_card [OF c1(2)] ok1 a(2) by (simp add: hm_ok_def)
    then have "m_cElements h2 < Memory_Count (m_memNodes h2)" using f2(6) m(3) a(1) by (simp add: h2_def Memory_Count_def)
    moreover have "insert_room rawn rawb h = Some h2"
      using h1(1) True m(1) by (simp add: insert_room_def h2_def a_def)
    ultimately show ?thesis using r2 kept_trans [OF h1(3) p2(2)] by blast
  qed
qed

subsection \<open>Migrating the nodes of one hash\<close>

lemma migrate_result:
  "hm_rep hf h ch fs n j \<Longrightarrow> m < n \<Longrightarrow>
   \<forall>i \<in> live ch. hf (ky h i) = hash \<longrightarrow> i \<in> set (ch (take_bit n hash)) \<or>
     (\<exists>m'. j \<le> m' \<and> m' \<le> m \<and> m_nNeedRehashStart h \<le> take_bit m' hash \<and> i \<in> set (ch (take_bit m' hash))) \<Longrightarrow>
   \<exists>h' ch'. migrate hf hash (2 ^ m - 1) h = Some h' \<and> hm_rep hf h' ch' fs n j \<and> shuffled h ch h' ch' \<and>
     (\<forall>i \<in> live ch'. hf (ky h' i) = hash \<longrightarrow> i \<in> set (ch' (take_bit n hash)))"
proof (induction m arbitrary: h ch)
  case 0
  have "migrate hf hash (2 ^ 0 - 1) h = Some h"
  proof -
    have j: "1 \<le> j" "m_nMinBucketMask h = 2 ^ j - 1" using 0(1) by (simp_all add: hm_rep_def masks_def)
    have "(2 :: int) ^ 1 \<le> 2 ^ j" by (rule power_increasing [OF j(1)]) simp
    then have "\<not> m_nMinBucketMask h \<le> 2 ^ 0 - 1" using j(2) by simp
    then show ?thesis by (subst migrate.simps) simp
  qed
  moreover have "\<forall>i \<in> live ch. hf (ky h i) = hash \<longrightarrow> i \<in> set (ch (take_bit n hash))"
    using 0(1,3) by (auto simp: hm_rep_def masks_def)
  ultimately show ?case using 0(1) shuffled_refl [of h ch] by (auto simp: hm_rep_def)
next
  case (Suc m)
  note r = Suc.prems(1) [unfolded hm_rep_def]
  have c: "chained h ch" and ms: "masks h n j" and f: "free_list h ch fs" and t: "together hf h ch"
    and p: "placed hf h ch n j (m_nNeedRehashStart h) (m_nNeedRehashEnd h)" using r by blast+
  define b where "b = take_bit (Suc m) hash"
  have b: "hash AND (2 ^ Suc m - 1) = b" unfolding b_def by (rule and_mask)
  have mj: "m_nMinBucketMask h = 2 ^ j - 1" using ms by (simp add: masks_def)
  have minm: "m_nMinBucketMask h \<le> 2 ^ Suc m - 1 \<longleftrightarrow> j \<le> Suc m"
    unfolding mj linorder_not_less [symmetric] mask_less ..
  have hlf: "drop_bit 1 ((2 :: int) ^ Suc m - 1) = 2 ^ m - 1" using half_mask [of "Suc m"] by simp
  show ?case
  proof (cases "j \<le> Suc m \<and> m_nNeedRehashStart h \<le> b")
    case False
    then have "migrate hf hash (2 ^ Suc m - 1) h = Some h"
      using b minm by (subst migrate.simps) (auto simp: Let_def simp del: power_Suc)
    moreover have "i \<in> set (ch (take_bit n hash))" if i: "i \<in> live ch" "hf (ky h i) = hash" for i
    proof (rule ccontr)
      assume "i \<notin> set (ch (take_bit n hash))"
      then obtain m' where m': "j \<le> m'" "m' \<le> Suc m" "m_nNeedRehashStart h \<le> take_bit m' hash"
        using Suc.prems(3) i by blast
      then show False using False take_bit_mono [of m' "Suc m" hash] by (auto simp: b_def)
    qed
    ultimately show ?thesis using Suc.prems(1) shuffled_refl [OF c] by blast
  next
    case True
    have bb: "bucket_in h b" using masks_bucket [OF ms, of "Suc m"] Suc.prems(2) by (simp add: b_def)
    obtain h1 ch1 where h1: "RehashNodesInBucket hf b h = Some h1" "shuffled h ch h1 ch1" "same_rest h1 h" "emptied hf b h ch ch1"
      using RehashNodesInBucket_result [OF c bb masks_all [OF ms]] by blast
    have st: "migrate hf hash (2 ^ Suc m - 1) h = migrate hf hash (2 ^ m - 1) h1"
      using True b minm h1(1) hlf by (subst migrate.simps) (simp add: Let_def del: power_Suc)
    have c1: "chained h1 ch1" "live ch1 = live ch" using h1(2) by (simp_all add: shuffled_def)
    have ms1: "masks h1 n j" "m_nNeedRehashStart h1 = m_nNeedRehashStart h" "m_nNeedRehashEnd h1 = m_nNeedRehashEnd h"
      using ms h1(3) by (simp_all add: masks_def same_rest_def)
    have r1: "hm_rep hf h1 ch1 fs n j"
      using c1(1) shuffled_free_list [OF h1(2) f] ms1 emptied_together [OF h1(4) t h1(2) c]
        emptied_placed(1) [OF h1(4) p h1(2) c ms] by (simp add: hm_rep_def)
    have "i \<in> set (ch1 (take_bit n hash)) \<or>
      (\<exists>m'. j \<le> m' \<and> m' \<le> m \<and> m_nNeedRehashStart h1 \<le> take_bit m' hash \<and> i \<in> set (ch1 (take_bit m' hash)))"
      if i: "i \<in> live ch1" "hf (ky h1 i) = hash" for i
    proof -
      have il: "i \<in> live ch" "0 \<le> i" using i(1) c1(2) live_pos [OF c] by auto
      then have hi: "hf (ky h i) = hash" using i(2) h1(2) by (simp add: shuffled_def)
      note e = h1(4) [unfolded emptied_def, rule_format, of i]
      show ?thesis
      proof (cases "i \<in> set (ch b)")
        case True
        then show ?thesis using e [of "take_bit n hash"] hi masks_home [OF ms] by simp
      next
        case False
        then have keep: "i \<in> set (ch1 d) \<longleftrightarrow> i \<in> set (ch d)" for d using e by simp
        have "i \<in> set (ch (take_bit n hash)) \<or>
          (\<exists>m'. j \<le> m' \<and> m' \<le> Suc m \<and> m_nNeedRehashStart h \<le> take_bit m' hash \<and> i \<in> set (ch (take_bit m' hash)))"
          using Suc.prems(3) il(1) hi by blast
        then show ?thesis
        proof (elim disjE exE conjE)
          fix m' assume m': "j \<le> m'" "m' \<le> Suc m" "m_nNeedRehashStart h \<le> take_bit m' hash" "i \<in> set (ch (take_bit m' hash))"
          have "m' \<noteq> Suc m" using m'(4) False by (auto simp: b_def)
          then show ?thesis using m' keep ms1(2) by (intro disjI2 exI [of _ m']) simp
        qed (simp add: keep)
      qed
    qed
    then obtain h' ch' where "migrate hf hash (2 ^ m - 1) h1 = Some h'" "hm_rep hf h' ch' fs n j" "shuffled h1 ch1 h' ch'"
      "\<forall>i \<in> live ch'. hf (ky h' i) = hash \<longrightarrow> i \<in> set (ch' (take_bit n hash))"
      using Suc.IH [OF r1] Suc.prems(2) by auto
    then show ?thesis using st shuffled_trans [OF h1(2)] by auto
  qed
qed

lemma migrate_all:
  assumes r: "hm_rep hf h ch fs n j"
  shows "\<exists>h' ch'. migrate hf hash (drop_bit 1 (bucket_count h) - 1) h = Some h' \<and> hm_rep hf h' ch' fs n j \<and>
     shuffled h ch h' ch' \<and> (\<forall>i \<in> live ch'. hf (ky h' i) = hash \<longrightarrow> i \<in> set (ch' (take_bit n hash)))"
proof -
  have n: "bucket_count h = 2 ^ n" "1 \<le> n" using r by (auto simp: hm_rep_def masks_def)
  then have mask: "drop_bit 1 (bucket_count h) - 1 = 2 ^ (n - 1) - 1"
    by (cases n) (simp_all add: drop_bit_eq_div)
  have "i \<in> set (ch (take_bit n hash)) \<or>
     (\<exists>m'. j \<le> m' \<and> m' \<le> n - 1 \<and> m_nNeedRehashStart h \<le> take_bit m' hash \<and> i \<in> set (ch (take_bit m' hash)))"
    if "i \<in> live ch" "hf (ky h i) = hash" for i
    using on_path_top [OF r that(1)] that(2) n(2) unfolding on_path_def
    by (metis Suc_diff_1 less_Suc_eq_le less_le_trans zero_less_one)
  then show ?thesis unfolding mask using n(2) by (intro migrate_result [OF r]) auto
qed

section \<open>Insertion\<close>

text \<open>Stores into a node that hangs nowhere, and stores that leave the link alone, keep the structure.\<close>

lemma chained_nupd:
  assumes c: "chained h ch" and i: "used h i"
    and f: "i \<notin> live ch \<or> (\<forall>n. m_iNextNode (f n) = m_iNextNode n)"
  shows "chained (nupd i f h) ch"
proof -
  have ok: "hm_ok h" by (rule chainedD(1) [OF c])
  have nx: "\<forall>x \<in> set (ch b). nx (nupd i f h) x = nx h x" for b
  proof
    fix x assume x: "x \<in> set (ch b)"
    then have "0 \<le> x" by (rule chainedD(7) [OF c])
    then show "nx (nupd i f h) x = nx h x"
      using f live_bucket [of x ch b, OF x] nth_nupd [OF ok i, of x f] by (cases "x = i") (auto simp: nx_def)
  qed
  show ?thesis unfolding chained_def
    using ok chainedD(2-8) [OF c] chain_cong [OF nx] by (auto simp: hm_simps simp del: node_fields)
qed

lemma AllocNode_result:
  assumes c: "chained h ch" and f: "free_list h ch fs" and room: "m_cElements h < Memory_Count (m_memNodes h)"
  shows "\<exists>i h' fs'. AllocNode h = Some (i, h') \<and> chained h' ch \<and> used h' i \<and> i \<notin> live ch \<and>
    m_iNodeFreeListHead h' = hd (fs' @ [-1]) \<and> chain (\<lambda>x. FreeNodeIDToIndex (nx h x)) fs' (-1) \<and>
    distinct fs' \<and> (insert i (live ch)) \<inter> set fs' = {} \<and> insert i (live ch) \<union> set fs' = {0 ..< m_nMaxElement h'} \<and>
    m_cElements h' = m_cElements h + 1 \<and>
    h' = h\<lparr>m_iNodeFreeListHead := m_iNodeFreeListHead h', m_cElements := m_cElements h', m_nMaxElement := m_nMaxElement h'\<rparr>"
proof (cases "m_cElements h = m_nMaxElement h")
  case True
  have ok: "hm_ok h" by (rule chainedD(1) [OF c])
  have m0: "0 \<le> m_nMaxElement h" using ok by (simp add: hm_ok_def)
  have "card (live ch \<union> set fs) = nat (m_nMaxElement h)" using f by (simp add: free_list_def)
  moreover have "card (live ch \<union> set fs) = card (live ch) + card (set fs)"
    using f live_finite [OF f] by (intro card_Un_disjoint) (auto simp: free_list_def)
  moreover have "card (live ch) = nat (m_nMaxElement h)" using f True by (simp add: free_list_def)
  ultimately have fs: "fs = []" by simp
  define h' where "h' = h\<lparr>m_cElements := m_cElements h + 1, m_nMaxElement := m_nMaxElement h + 1\<rparr>"
  have st: "AllocNode h = Some (m_nMaxElement h, h')" using True by (simp add: AllocNode_def h'_def)
  have same: "nx h' = nx h" "bk h' = bk h" "bucket_in h' = bucket_in h"
    by (simp_all add: h'_def nx_def nodes_def bk_def bucket_in_def bucket_count_def fun_eq_iff)
  have "hm_ok h'" using ok True room by (auto simp: hm_ok_def h'_def Memory_Count_def)
  moreover have "used h x \<Longrightarrow> used h' x" for x by (simp add: used_def h'_def)
  ultimately have "chained h' ch" unfolding chained_def same
    using chainedD(2-8) [OF c] by auto
  moreover have "used h' (m_nMaxElement h)" using m0 by (simp add: used_def h'_def)
  moreover have "insert (m_nMaxElement h) (live ch) = {0 ..< m_nMaxElement h'}"
    using f fs m0 by (auto simp: free_list_def h'_def)
  moreover have "m_nMaxElement h \<notin> live ch" using f by (auto simp: free_list_def)
  ultimately show ?thesis using st f fs by (intro exI [of _ "m_nMaxElement h"] exI [of _ h'] exI [of _ "[]"])
    (simp add: free_list_def h'_def)
next
  case False
  have ok: "hm_ok h" by (rule chainedD(1) [OF c])
  have "fs \<noteq> []"
  proof
    assume "fs = []"
    then have "live ch = {0 ..< m_nMaxElement h}" using f by (simp add: free_list_def)
    then show False using f False ok by (simp add: free_list_def hm_ok_def)
  qed
  then obtain i fs' where fs: "fs = i # fs'" by (cases fs) auto
  have i: "used h i" "0 \<le> i" "i \<notin> live ch" using f fs unfolding free_list_def used_def by auto
  define h' where "h' = h\<lparr>m_iNodeFreeListHead := hd (fs' @ [-1]), m_cElements := m_cElements h + 1\<rparr>"
  have st: "AllocNode h = Some (i, h')"
    using False ok i f fs by (simp add: AllocNode_def h'_def free_list_def hm_simps)
  have "chained h' ch" using c by (simp add: h'_def hm_simps)
  moreover have "used h' i" using i(1) by (simp add: h'_def hm_simps)
  moreover have "insert i (live ch) \<union> set fs' = {0 ..< m_nMaxElement h'}" using f fs by (auto simp: free_list_def h'_def)
  ultimately show ?thesis using st f fs i by (intro exI [of _ i] exI [of _ h'] exI [of _ fs'])
    (auto simp: free_list_def h'_def)
qed

text \<open>Hanging a new node with the key into the bucket of its hash.\<close>

definition add_node :: "int \<Rightarrow> 'k \<Rightarrow> ('k, 'e) hashmap \<Rightarrow> (int \<times> ('k, 'e) hashmap) option" where
  "add_node b key h = do {
     (i, h) \<leftarrow> AllocNode h;
     h \<leftarrow> node_update i (\<lambda>n. n\<lparr>m_iNextNode := kInvalidIndex\<rparr>) h;
     h \<leftarrow> node_update i (\<lambda>n. n\<lparr>m_key := key\<rparr>) h;
     h \<leftarrow> LinkNodeIntoBucket b i h;
     Some (i, h)}"

lemma add_node_result:
  assumes r: "hm_rep hf h ch fs n j" and room: "m_cElements h < Memory_Count (m_memNodes h)"
    and all: "\<forall>i \<in> live ch. hf (ky h i) = hf key \<longrightarrow> i \<in> set (ch (take_bit n (hf key)))"
  shows "\<exists>i h' ch' fs'. add_node (take_bit n (hf key)) key h = Some (i, h') \<and> hm_rep hf h' ch' fs' n j \<and>
    used h' i \<and> i \<notin> live ch \<and> live ch' = insert i (live ch) \<and> ky h' i = key \<and>
    (\<forall>k \<in> live ch. ky h' k = ky h k \<and> el h' k = el h k)"
proof -
  define b where "b = take_bit n (hf key)"
  have c: "chained h ch" and ms: "masks h n j" and f: "free_list h ch fs" and t: "together hf h ch"
    and p: "placed hf h ch n j (m_nNeedRehashStart h) (m_nNeedRehashEnd h)" using r unfolding hm_rep_def by blast+
  obtain i h1 fs' where h1: "AllocNode h = Some (i, h1)" "chained h1 ch" "used h1 i" "i \<notin> live ch"
    "m_iNodeFreeListHead h1 = hd (fs' @ [-1])" "chain (\<lambda>x. FreeNodeIDToIndex (nx h x)) fs' (-1)"
    "distinct fs'" "insert i (live ch) \<inter> set fs' = {}" "insert i (live ch) \<union> set fs' = {0 ..< m_nMaxElement h1}"
    "m_cElements h1 = m_cElements h + 1"
    and eq: "h1 = h\<lparr>m_iNodeFreeListHead := m_iNodeFreeListHead h1, m_cElements := m_cElements h1, m_nMaxElement := m_nMaxElement h1\<rparr>"
    using AllocNode_result [OF c f room] by blast
  have eq1: "nodes h1 = nodes h" "bucket_count h1 = bucket_count h" "m_nNeedRehashStart h1 = m_nNeedRehashStart h"
    "m_nNeedRehashEnd h1 = m_nNeedRehashEnd h" "m_nMinBucketMask h1 = m_nMinBucketMask h" "m_memNodes h1 = m_memNodes h"
    by (subst eq, simp add: nodes_def bucket_count_def)+
  define h2 where "h2 = put_link i kInvalidIndex h1"
  define h3 where "h3 = nupd i (\<lambda>n. n\<lparr>m_key := key\<rparr>) h2"
  have ok1: "hm_ok h1" by (rule chainedD(1) [OF h1(2)])
  have c2: "chained h2 ch" unfolding h2_def using h1(4) by (intro chained_nupd [OF h1(2,3)]) simp
  have u2: "used h2 i" "hm_ok h2" using h1(3) ok1 by (simp_all add: h2_def hm_simps)
  have c3: "chained h3 ch" unfolding h3_def using h1(4) by (intro chained_nupd [OF c2 u2(1)]) simp
  have u3: "used h3 i" "bucket_in h3 b" using h1(3) masks_bucket [OF ms order_refl, of "hf key"] eq1(2)
    by (simp_all add: h3_def h2_def hm_simps b_def bucket_in_def)
  obtain h4 where h4: "LinkNodeIntoBucket b i h3 = Some h4" "chained h4 (ch(b := i # ch b))" "same_rest h4 h3"
    "\<forall>x. 0 \<le> x \<longrightarrow> x \<noteq> i \<longrightarrow> nx h4 x = nx h3 x"
    using LinkNode_result [OF c3 u3(2,1) h1(4)] by blast
  define ch' where "ch' = ch(b := i # ch b)"
  have st: "add_node b key h = Some (i, h4)"
    using h1(1) node_update_ok [OF ok1 h1(3)] node_update_ok [OF u2(2,1)] h4(1) by (simp add: add_node_def h2_def h3_def)
  have i0: "0 \<le> i" using h1(3) by (simp add: used_def)
  have n3: "nodes h3 ! nat x = nodes h ! nat x" if "0 \<le> x" "x \<noteq> i" for x
    using that(2) nth_nupd [OF u2(2,1) that(1), of "\<lambda>n. n\<lparr>m_key := key\<rparr>"] nth_nupd [OF ok1 h1(3) that(1), of "\<lambda>n. n\<lparr>m_iNextNode := kInvalidIndex\<rparr>"]
    by (simp add: h3_def h2_def eq1(1))
  have ky3: "ky h3 i = key" using nth_nupd [OF u2(2,1) i0, of "\<lambda>n. n\<lparr>m_key := key\<rparr>"] by (simp add: h3_def ky_def)
  have ky4: "ky h4 x = (if x = i then key else ky h x)" "x \<noteq> i \<Longrightarrow> el h4 x = el h x" "x \<noteq> i \<Longrightarrow> nx h4 x = nx h x" if "0 \<le> x" for x
    using h4(3,4) that n3 [OF that] ky3 by (cases "x = i"; simp add: same_rest_def ky_def el_def nx_def)+
  have s4: "m_nNeedRehashStart h4 = m_nNeedRehashStart h" "m_nNeedRehashEnd h4 = m_nNeedRehashEnd h"
    "m_nMinBucketMask h4 = m_nMinBucketMask h" "bucket_count h4 = bucket_count h" "m_nMaxElement h4 = m_nMaxElement h1"
    "m_cElements h4 = m_cElements h + 1" "m_iNodeFreeListHead h4 = hd (fs' @ [-1])"
    "Memory_Count (m_memNodes h4) = Memory_Count (m_memNodes h)"
    using h4(3) eq1 h1(5,10) by (simp_all add: same_rest_def h3_def h2_def hm_simps)
  have l4: "live ch' = insert i (live ch)"
    using live_upd [OF c, of b "i # ch b"] live_bucket [of _ ch b] by (auto simp: ch'_def)
  have "chain (\<lambda>x. FreeNodeIDToIndex (nx h4 x)) fs' (-1)"
  proof -
    have "\<forall>x \<in> set fs'. FreeNodeIDToIndex (nx h4 x) = FreeNodeIDToIndex (nx h x)"
    proof
      fix x assume x: "x \<in> set fs'"
      have "x \<in> {0 ..< m_nMaxElement h1}" using h1(9) x by blast
      moreover have "x \<noteq> i" using h1(8) x by auto
      ultimately show "FreeNodeIDToIndex (nx h4 x) = FreeNodeIDToIndex (nx h x)" using ky4(3) by simp
    qed
    then have "chain (\<lambda>x. FreeNodeIDToIndex (nx h4 x)) fs' (-1) = chain (\<lambda>x. FreeNodeIDToIndex (nx h x)) fs' (-1)"
      by (rule chain_cong)
    then show ?thesis using h1(6) by (rule iffD2)
  qed
  note free = this
  have f4: "free_list h4 ch' fs'"
  proof -
    have "card (live ch') = Suc (card (live ch))" using h1(4) l4 live_finite [OF f] by simp
    then have "m_cElements h4 = int (card (live ch'))" using s4(6) f by (simp add: free_list_def)
    moreover have "live ch' \<inter> set fs' = {}" using l4 h1(8) by simp
    moreover have "live ch' \<union> set fs' = {0 ..< m_nMaxElement h4}" using l4 h1(9) s4(5) by simp
    ultimately show ?thesis using h1(7) s4(7) free
      unfolding free_list_def by blast
  qed
  have pos: "0 \<le> x \<and> x \<noteq> i" if "x \<in> set (ch d)" for x d
    using chainedD(7) [OF c that] live_bucket [of x ch d, OF that] h1(4) by auto
  have in': "x \<in> set (ch' d) \<longleftrightarrow> x \<in> set (ch d) \<or> (x = i \<and> d = b)" for x d by (auto simp: ch'_def)
  have "together hf h4 ch'"
    unfolding together_def
  proof (intro allI ballI impI)
    fix d e x y
    assume x: "x \<in> set (ch' d)" and y: "y \<in> set (ch' e)" and hh: "hf (ky h4 x) = hf (ky h4 y)"
    have home: "d = b" if "x \<in> set (ch d)" "hf (ky h x) = hf key" for x d
    proof -
      have "x \<in> set (ch b)" using all live_bucket [of x ch d, OF that(1)] that(2) by (auto simp: b_def)
      then show ?thesis using chainedD(8) [OF c, of d b] that(1) by blast
    qed
    show "d = e"
      using x y hh pos home t unfolding in' together_def by (auto simp: ky4(1) i0) metis+
  qed
  moreover have "placed hf h4 ch' n j (m_nNeedRehashStart h4) (m_nNeedRehashEnd h4)"
    unfolding placed_def
  proof (intro allI ballI)
    fix d x assume x: "x \<in> set (ch' d)"
    show "d = take_bit n (hf (ky h4 x)) \<or> (m_nNeedRehashStart h4 \<le> d \<and> d < m_nNeedRehashEnd h4 \<and>
        (\<exists>m. j \<le> m \<and> m < n \<and> d = take_bit m (hf (ky h4 x))))"
    proof (cases "x = i")
      case True
      then have "d = b" using x in' pos by blast
      then show ?thesis using ky4(1) [OF i0] True by (simp add: b_def)
    next
      case False
      then have xd: "x \<in> set (ch d)" using x in' by blast
      then show ?thesis using p [unfolded placed_def, rule_format, OF xd] pos [OF xd] ky4(1) [of x] s4(1,2) by simp
    qed
  qed
  ultimately have "hm_rep hf h4 ch' fs' n j"
    using h4(2) f4 ms s4(1-4,8) unfolding hm_rep_def masks_def ch'_def by simp
  moreover have "used h4 i" using same_rest_in(1) [OF h4(3)] u3(1) by simp
  moreover have "ky h4 k = ky h k \<and> el h4 k = el h k" if "k \<in> live ch" for k
    using ky4 [of k] live_pos [OF c that] that h1(4) by auto
  ultimately show ?thesis using st l4 h1(4) ky4(1) [OF i0] unfolding b_def by auto
qed

lemma add_node_bind:
  "(add_node b key h \<bind> (\<lambda>(i, h). Some ((i, x), h))) = do {
     (i, h) \<leftarrow> AllocNode h;
     h \<leftarrow> node_update i (\<lambda>n. n\<lparr>m_iNextNode := kInvalidIndex\<rparr>) h;
     h \<leftarrow> node_update i (\<lambda>n. n\<lparr>m_key := key\<rparr>) h;
     h \<leftarrow> LinkNodeIntoBucket b i h;
     Some ((i, x), h)}"
  unfolding add_node_def by (cases "AllocNode h") (auto split: Option.bind_splits)

lemma InsertUnconstructed_add_node:
  "InsertUnconstructed rawn rawb eqf hf key dup h = do {
     h \<leftarrow> insert_room rawn rawb h;
     h \<leftarrow> rehash_some hf h;
     h \<leftarrow> migrate hf (hf key) (drop_bit 1 (bucket_count h) - 1) h;
     iNode \<leftarrow> (if \<not> dup then FindInBucket eqf (hf key AND (bucket_count h - 1)) key h else Some kInvalidIndex);
     if iNode \<noteq> kInvalidIndex then Some ((kInvalidIndex, iNode), h)
     else do {
       (i, h) \<leftarrow> add_node (hf key AND (bucket_count h - 1)) key h;
       Some ((i, kInvalidIndex), h)}}"
  unfolding add_node_bind by (simp add: InsertUnconstructed_def Let_def cong: if_cong)

text \<open>What an insertion comes to: a new node with the key, or the node that has it already.\<close>

definition node_added ::
  "('k \<Rightarrow> int) \<Rightarrow> ('k, 'e) hashmap \<Rightarrow> (int \<Rightarrow> int list) \<Rightarrow> 'k \<Rightarrow> int \<Rightarrow> ('k, 'e) hashmap \<Rightarrow> (int \<Rightarrow> int list) \<Rightarrow> bool" where
  "node_added hf h ch key i h' ch' \<longleftrightarrow> (\<exists>fs n j. hm_rep hf h' ch' fs n j) \<and> used h' i \<and> i \<notin> live ch \<and>
     live ch' = insert i (live ch) \<and> ky h' i = key \<and> (\<forall>k \<in> live ch. ky h' k = ky h k \<and> el h' k = el h k)"

definition node_found ::
  "('k \<Rightarrow> 'k \<Rightarrow> bool) \<Rightarrow> ('k \<Rightarrow> int) \<Rightarrow> ('k, 'e) hashmap \<Rightarrow> (int \<Rightarrow> int list) \<Rightarrow> 'k \<Rightarrow> int \<Rightarrow> ('k, 'e) hashmap \<Rightarrow> (int \<Rightarrow> int list) \<Rightarrow> bool" where
  "node_found eqf hf h ch key i h' ch' \<longleftrightarrow> (\<exists>fs n j. hm_rep hf h' ch' fs n j) \<and> i \<in> live ch \<and> eqf key (ky h i) \<and>
     kept h ch h' ch'"

lemma InsertUnconstructed_result:
  assumes p: "hm_pre hf h ch fs" and eq: "eq_hash eqf hf"
  obtains (added) i h' ch' where "InsertUnconstructed rawn rawb eqf hf key dup h = Some ((i, -1), h')"
      "node_added hf h ch key i h' ch'" "dup \<or> (\<forall>k \<in> live ch. \<not> eqf key (ky h k))"
  | (found) i h' ch' where "\<not> dup" "InsertUnconstructed rawn rawb eqf hf key dup h = Some ((-1, i), h')"
      "node_found eqf hf h ch key i h' ch'"
proof -
  obtain h1 n j where h1: "insert_room rawn rawb h = Some h1" "hm_rep hf h1 ch fs n j" "kept h ch h1 ch"
    "m_cElements h1 < Memory_Count (m_memNodes h1)"
    using insert_room_result [OF p] by blast
  have c1: "chained h1 ch" using h1(2) by (simp add: hm_rep_def)
  obtain h2 ch2 j2 where h2: "rehash_some hf h1 = Some h2" "hm_rep hf h2 ch2 fs n j2" "shuffled h1 ch h2 ch2"
    using rehash_some_result [OF h1(2)] by blast
  obtain h3 ch3 where h3: "migrate hf (hf key) (drop_bit 1 (bucket_count h2) - 1) h2 = Some h3" "hm_rep hf h3 ch3 fs n j2"
    "shuffled h2 ch2 h3 ch3" "\<forall>i \<in> live ch3. hf (ky h3 i) = hf key \<longrightarrow> i \<in> set (ch3 (take_bit n (hf key)))"
    using migrate_all [OF h2(2)] by blast
  have sh: "shuffled h1 ch h3 ch3" using shuffled_trans [OF h2(3) h3(3)] .
  have k3: "kept h ch h3 ch3" using kept_trans [OF h1(3) shuffled_kept [OF sh c1]] .
  have room: "m_cElements h3 < Memory_Count (m_memNodes h3)" using h1(4) sh by (simp add: shuffled_def)
  have c3: "chained h3 ch3" and ms3: "masks h3 n j2" using h3(2) by (simp_all add: hm_rep_def)
  define b where "b = take_bit n (hf key)"
  have b: "hf key AND (bucket_count h3 - 1) = b" "bucket_in h3 b"
    using ms3 masks_bucket [OF ms3 order_refl] by (simp_all add: b_def masks_def and_mask)
  have l3: "live ch3 = live ch" and ky3: "\<forall>k \<in> live ch. ky h3 k = ky h k \<and> el h3 k = el h k" using k3 by (simp_all add: kept_def)
  have st: "InsertUnconstructed rawn rawb eqf hf key dup h = do {
     iNode \<leftarrow> (if \<not> dup then Some (first_match eqf key h3 (ch3 b)) else Some (-1));
     if iNode \<noteq> -1 then Some ((-1, iNode), h3)
     else do {(i, h) \<leftarrow> add_node b key h3; Some ((i, -1), h)}}"
    using h1(1) h2(1) h3(1) b FindInBucket_result [OF c3 b(2), of eqf key]
    by (simp add: InsertUnconstructed_add_node kInvalidIndex_def)
  have nomatch: "\<forall>k \<in> live ch. \<not> eqf key (ky h k)" if "\<forall>i \<in> set (ch3 b). \<not> eqf key (ky h3 i)"
  proof (intro ballI notI)
    fix k assume k: "k \<in> live ch" "eqf key (ky h k)"
    then have "hf (ky h3 k) = hf key" using ky3 eq_hashD(4) [OF eq, of key] by simp
    then have "k \<in> set (ch3 b)" using h3(4) k(1) l3 by (simp add: b_def)
    then have "\<not> eqf key (ky h3 k)" using that by blast
    moreover have "ky h3 k = ky h k" using ky3 k(1) by blast
    ultimately show False using k(2) by simp
  qed
  obtain i h4 ch4 fs4 where h4: "add_node b key h3 = Some (i, h4)" "hm_rep hf h4 ch4 fs4 n j2" "used h4 i" "i \<notin> live ch3"
    "live ch4 = insert i (live ch3)" "ky h4 i = key" "\<forall>k \<in> live ch3. ky h4 k = ky h3 k \<and> el h4 k = el h3 k"
    using add_node_result [OF h3(2) room h3(4)] unfolding b_def by blast
  have ad: "node_added hf h ch key i h4 ch4" using h4(2-7) l3 ky3 unfolding node_added_def by auto
  show thesis
  proof (cases dup)
    case True
    then show ?thesis using st h4(1) ad by (intro added [of i h4 ch4]) simp_all
  next
    case False
    show ?thesis
    proof (rule first_match_cases [OF c3, of eqf key b])
      assume no: "first_match eqf key h3 (ch3 b) = -1" "\<forall>i \<in> set (ch3 b). \<not> eqf key (ky h3 i)"
      then show ?thesis using st False h4(1) ad nomatch by (intro added [of i h4 ch4]) simp_all
    next
      fix x assume x: "first_match eqf key h3 (ch3 b) = x" "x \<in> set (ch3 b)" "eqf key (ky h3 x)" "0 \<le> x"
      have "x \<in> live ch" using live_bucket [of x ch3 b, OF x(2)] l3 by simp
      then have "node_found eqf hf h ch key x h3 ch3" using x(3) h3(2) k3 ky3 by (auto simp: node_found_def)
      then show ?thesis using st False x(1,4) by (intro found [of x h3 ch3]) simp_all
    qed
  qed
qed

lemma store_elem_result:
  assumes r: "hm_rep hf h ch fs n j" and i: "used h i"
  shows "\<exists>h'. node_update i (\<lambda>n. n\<lparr>m_elem := e\<rparr>) h = Some h' \<and> hm_rep hf h' ch fs n j \<and> el h' i = e \<and>
    (\<forall>k. 0 \<le> k \<longrightarrow> ky h' k = ky h k) \<and> (\<forall>k. 0 \<le> k \<longrightarrow> k \<noteq> i \<longrightarrow> el h' k = el h k)"
proof -
  define h' where "h' = nupd i (\<lambda>n. n\<lparr>m_elem := e\<rparr>) h"
  have c: "chained h ch" and f: "free_list h ch fs" using r by (simp_all add: hm_rep_def)
  have ok: "hm_ok h" by (rule chainedD(1) [OF c])
  have c': "chained h' ch" unfolding h'_def by (intro chained_nupd [OF c i]) simp
  have n: "nodes h' ! nat k = (if k = i then (nodes h ! nat i)\<lparr>m_elem := e\<rparr> else nodes h ! nat k)" if "0 \<le> k" for k
    using nth_nupd [OF ok i that, of "\<lambda>n. n\<lparr>m_elem := e\<rparr>"] by (simp add: h'_def)
  have i0: "0 \<le> i" using i by (simp add: used_def)
  have ky: "ky h' k = ky h k" "nx h' k = nx h k" "k \<noteq> i \<Longrightarrow> el h' k = el h k" if "0 \<le> k" for k
    using n [OF that] by (cases "k = i"; simp add: ky_def nx_def el_def)+
  have "el h' i = e" using n [OF i0] by (simp add: el_def)
  moreover have "hm_rep hf h' ch fs n j"
  proof -
    have fl: "free_list h' ch fs"
    proof -
      have "\<forall>x \<in> set fs. FreeNodeIDToIndex (nx h' x) = FreeNodeIDToIndex (nx h x)"
      proof
        fix x assume "x \<in> set fs"
        then have "x \<in> {0 ..< m_nMaxElement h}" using f unfolding free_list_def by blast
        then show "FreeNodeIDToIndex (nx h' x) = FreeNodeIDToIndex (nx h x)" using ky(2) by simp
      qed
      then have "chain (\<lambda>i. FreeNodeIDToIndex (nx h' i)) fs (-1) = chain (\<lambda>i. FreeNodeIDToIndex (nx h i)) fs (-1)"
        by (rule chain_cong)
      then show ?thesis using f by (simp add: free_list_def h'_def hm_simps)
    qed
    have kk: "\<forall>b. \<forall>x \<in> set (ch b). ky h' x = ky h x" using ky(1) chainedD(7) [OF c] by blast
    have "together hf h' ch" using r kk unfolding hm_rep_def together_def by metis
    moreover have "placed hf h' ch = placed hf h ch" using kk by (simp add: placed_def fun_eq_iff)
    ultimately show ?thesis using r c' fl by (simp add: hm_rep_def masks_def h'_def hm_simps)
  qed
  ultimately show ?thesis using node_update_ok [OF ok i] ky by (auto simp: h'_def)
qed

end
