(* ===== verification/UtlHashMapMap.thy ===== *)
theory UtlHashMapMap
  imports UtlHashMapCorrect
begin

text \<open>
  Removal from the hash map, the finite map it stands for, and the properties of its operations.
\<close>

section \<open>Removal\<close>

lemma RemoveNode_walk:
  assumes c: "chained h ch" and b: "bucket_in h b"
  shows "ch b = us @ xs @ vs \<Longrightarrow> i \<notin> set xs \<Longrightarrow>
    RemoveNode_from (link_of b us) i h = RemoveNode_from (link_of b (us @ xs)) i h"
proof (induction xs arbitrary: us)
  case (Cons x xs)
  have split: "ch b = us @ x # (xs @ vs)" using Cons.prems(1) by simp
  then have x: "used h x" "0 \<le> x" using chainedD(6,7) [OF c, of x b] by auto
  have "RemoveNode_from (link_of b us) i h = RemoveNode_from (NodeLink x) i h"
    using read_link_of [OF c b split] x chainedD(1) [OF c] Cons.prems(2)
    by (subst RemoveNode_from.simps) (auto simp: kInvalidIndex_def hm_simps)
  also have "\<dots> = RemoveNode_from (link_of b (us @ [x])) i h" by (simp add: link_of_def)
  also have "\<dots> = RemoveNode_from (link_of b ((us @ [x]) @ xs)) i h" using Cons by (intro Cons.IH) simp_all
  finally show ?case by simp
qed simp

lemma RemoveNode_absent:
  assumes c: "chained h ch" and b: "bucket_in h b" and i: "i \<notin> set (ch b)"
  shows "RemoveNodeFromBucket b i h = Some (False, h)"
proof -
  have "RemoveNodeFromBucket b i h = RemoveNode_from (link_of b ([] @ ch b)) i h"
    using RemoveNode_walk [OF c b, of "[]" "ch b" "[]" i] i by (simp add: RemoveNodeFromBucket_def link_of_def)
  also have "\<dots> = Some (False, h)"
    using read_link_of [OF c b, of "ch b" "[]"] by (subst RemoveNode_from.simps) (simp add: kInvalidIndex_def)
  finally show ?thesis .
qed

text \<open>The node \<open>i\<close> is out of the map, and nothing else has changed.\<close>

definition node_removed ::
  "('k \<Rightarrow> int) \<Rightarrow> ('k, 'e) hashmap \<Rightarrow> (int \<Rightarrow> int list) \<Rightarrow> int \<Rightarrow> ('k, 'e) hashmap \<Rightarrow> (int \<Rightarrow> int list) \<Rightarrow> bool" where
  "node_removed hf h ch i h' ch' \<longleftrightarrow> (\<exists>fs n j. hm_rep hf h' ch' fs n j) \<and> live ch' = live ch - {i} \<and>
     (\<forall>k \<in> live ch - {i}. ky h' k = ky h k \<and> el h' k = el h k)"

lemma RemoveNode_present:
  assumes r: "hm_rep hf h ch fs n j" and i: "i \<in> set (ch b)"
  shows "\<exists>h' ch'. RemoveNodeFromBucket b i h = Some (True, h') \<and> node_removed hf h ch i h' ch'"
proof -
  have c: "chained h ch" and ms: "masks h n j" and f: "free_list h ch fs" and t: "together hf h ch"
    and p: "placed hf h ch n j (m_nNeedRehashStart h) (m_nNeedRehashEnd h)" using r unfolding hm_rep_def by blast+
  have ok: "hm_ok h" and b: "bucket_in h b" and u: "used h i" and i0: "0 \<le> i"
    using chainedD(1) [OF c] chainedD(9,6,7) [OF c i] by simp_all
  obtain us vs where split: "ch b = us @ i # vs" using split_list [OF i] by blast
  have dist: "i \<notin> set us" "i \<notin> set vs" using chainedD(4) [OF c, of b] split by simp_all
  obtain h1 where h1: "write_link (link_of b us) (nx h i) h = Some h1" "chained h1 (ch(b := us @ vs))" "same_rest h1 h"
    "\<forall>x. 0 \<le> x \<longrightarrow> x \<notin> set us \<longrightarrow> nx h1 x = nx h x"
    using unlink_result [OF c b split] by blast
  define ch' where "ch' = ch(b := us @ vs)"
  have live: "live ch' = live ch - {i}"
    using live_upd [OF c, of b "us @ vs"] split dist live_bucket [of _ ch b] by (auto simp: ch'_def)
  have il: "i \<notin> live ch'" using live by simp
  have u1: "used h1 i" "hm_ok h1" using u same_rest_in(1) [OF h1(3)] chainedD(1) [OF h1(2)] by simp_all
  define h2 where "h2 = put_link i (FreeNodeIndexToID (m_iNodeFreeListHead h1)) h1"
  have c2: "chained h2 ch'" unfolding h2_def ch'_def using il by (intro chained_nupd [OF h1(2) u1(1)]) (simp add: ch'_def)
  define h3 where "h3 = h2\<lparr>m_iNodeFreeListHead := i, m_cElements := m_cElements h2 - 1\<rparr>"
  define h4 where "h4 = (if m_cElements h3 = 0 then rehash_done h3 else h3)"
  have st: "RemoveNodeFromBucket b i h = Some (True, h4)"
  proof -
    have "RemoveNodeFromBucket b i h = RemoveNode_from (link_of b us) i h"
      using RemoveNode_walk [OF c b, of "[]" us "i # vs" i] split dist(1)
      by (simp add: RemoveNodeFromBucket_def link_of_def)
    also have "\<dots> = Some (True, h4)"
      using read_link_of [OF c b split] u ok h1(1) i0 node_update_ok [OF u1(2,1)]
      by (subst RemoveNode_from.simps)
        (simp add: kInvalidIndex_def hm_simps h2_def [symmetric] h4_def rehash_done_def Let_def h3_def)
    finally show ?thesis .
  qed
  have n2: "nx h2 x = (if x = i then FreeNodeIndexToID (m_iNodeFreeListHead h) else nx h1 x)"
    "ky h2 x = ky h x" "el h2 x = el h x" if "0 \<le> x" for x
    using put_link_at [OF u1(2,1) that] h1(3) that by (simp_all add: h2_def same_rest_def)
  have s3: "m_cElements h3 = m_cElements h - 1" "m_iNodeFreeListHead h3 = i" "m_nMaxElement h3 = m_nMaxElement h"
    "bucket_count h3 = bucket_count h" "m_nNeedRehashStart h3 = m_nNeedRehashStart h" "m_nNeedRehashEnd h3 = m_nNeedRehashEnd h"
    "m_nMinBucketMask h3 = m_nMinBucketMask h" "Memory_Count (m_memNodes h3) = Memory_Count (m_memNodes h)"
    "nx h3 = nx h2" "ky h3 = ky h2" "el h3 = el h2"
    using h1(3) by (simp_all add: h3_def h2_def same_rest_def hm_simps)
  have c3: "chained h3 ch'" using c2 by (simp add: h3_def hm_simps)
  have inl: "i \<in> live ch" using live_bucket [of i ch b, OF i] .
  have f3: "free_list h3 ch' (i # fs)"
  proof -
    have old: "\<forall>x \<in> set fs. FreeNodeIDToIndex (nx h3 x) = FreeNodeIDToIndex (nx h x)"
    proof
      fix x assume x: "x \<in> set fs"
      have "x \<in> {0 ..< m_nMaxElement h}" "x \<notin> live ch" using f x unfolding free_list_def by blast+
      moreover have "x \<notin> set us" using \<open>x \<notin> live ch\<close> live_bucket [of x ch b] split by auto
      ultimately show "FreeNodeIDToIndex (nx h3 x) = FreeNodeIDToIndex (nx h x)"
        using n2(1) h1(4) inl s3(9) by auto
    qed
    have "chain (\<lambda>x. FreeNodeIDToIndex (nx h3 x)) fs (-1) = chain (\<lambda>x. FreeNodeIDToIndex (nx h x)) fs (-1)"
      using old by (rule chain_cong)
    moreover have "FreeNodeIDToIndex (nx h3 i) = m_iNodeFreeListHead h"
      using n2(1) [OF i0] s3(9) by (simp add: FreeNodeIDToIndex_def FreeNodeIndexToID_def)
    ultimately have "chain (\<lambda>x. FreeNodeIDToIndex (nx h3 x)) (i # fs) (-1)" using f by (simp add: free_list_def)
    moreover have "i \<notin> set fs" using f inl unfolding free_list_def by blast
    moreover have "card (live ch) = Suc (card (live ch'))" using card_Suc_Diff1 [OF live_finite [OF f] inl] live by simp
    moreover have "live ch' \<union> set (i # fs) = live ch \<union> set fs" using live inl by auto
    moreover have "live ch' \<inter> set (i # fs) = {}" using live f unfolding free_list_def by auto
    ultimately show ?thesis using f s3(1-3) unfolding free_list_def by simp
  qed
  have in': "x \<in> set (ch' d) \<Longrightarrow> x \<in> set (ch d)" for x d using split by (auto simp: ch'_def split: if_splits)
  have ky3: "ky h3 x = ky h x" if "x \<in> set (ch' d)" for x d using n2(2) chainedD(7) [OF c in' [OF that]] s3(10) by simp
  have t3: "together hf h3 ch'" unfolding together_def
  proof (intro allI ballI impI)
    fix d e x y assume a: "x \<in> set (ch' d)" "y \<in> set (ch' e)" "hf (ky h3 x) = hf (ky h3 y)"
    have "hf (ky h x) = hf (ky h y)" using a(3) ky3 [OF a(1)] ky3 [OF a(2)] by simp
    then show "d = e" using t in' [OF a(1)] in' [OF a(2)] unfolding together_def by blast
  qed
  have p3: "placed hf h3 ch' n j (m_nNeedRehashStart h) (m_nNeedRehashEnd h)" unfolding placed_def
  proof (intro allI ballI)
    fix d x assume x: "x \<in> set (ch' d)"
    show "d = take_bit n (hf (ky h3 x)) \<or> (m_nNeedRehashStart h \<le> d \<and> d < m_nNeedRehashEnd h \<and>
        (\<exists>m. j \<le> m \<and> m < n \<and> d = take_bit m (hf (ky h3 x))))"
      unfolding ky3 [OF x] by (rule p [unfolded placed_def, rule_format, OF in' [OF x]])
  qed
  have "\<exists>fs n j. hm_rep hf h4 ch' fs n j"
  proof (cases "m_cElements h3 = 0")
    case True
    have "ch' d = []" for d using no_live [OF f3 True] .
    then have p0: "placed hf h3 ch' n n 0 0" by (simp add: placed_def)
    have "hm_rep hf (rehash_done h3) ch' (i # fs) n n"
      using ms s3(4,8) by (intro rehash_done_rep [OF c3 f3 t3 p0]) (simp_all add: masks_def)
    then show ?thesis using True by (auto simp: h4_def)
  next
    case False
    have "hm_rep hf h3 ch' (i # fs) n j" using c3 f3 t3 p3 ms s3 unfolding hm_rep_def masks_def by simp
    then show ?thesis using False by (auto simp: h4_def)
  qed
  moreover have "ky h4 k = ky h k \<and> el h4 k = el h k" if "k \<in> live ch - {i}" for k
  proof -
    have "0 \<le> k" using that live_pos [OF c] by blast
    then show ?thesis using n2 s3(10,11) by (simp add: h4_def rehash_done_def hm_simps)
  qed
  ultimately show ?thesis using st live unfolding node_removed_def by blast
qed

lemma RemoveAt_masks_result:
  assumes r: "hm_rep hf h ch fs n j" and k: "hash = hf (ky h i)"
  shows "m \<le> n \<Longrightarrow> on_path h ch j m hash i \<Longrightarrow> i \<notin> set (ch (take_bit m hash)) \<Longrightarrow> j \<le> m \<Longrightarrow>
    \<exists>h' ch'. RemoveAt_masks hash (2 ^ m - 1) i h = Some h' \<and> node_removed hf h ch i h' ch'"
proof (induction m)
  case 0
  then show ?case using r by (simp add: hm_rep_def masks_def)
next
  case (Suc m)
  have c: "chained h ch" and ms: "masks h n j" using r by (simp_all add: hm_rep_def)
  note s = on_path_step [OF Suc.prems(2-4)]
  define b where "b = take_bit m hash"
  have b: "hash AND (2 ^ m - 1) = b" "bucket_in h b" using masks_bucket [OF ms, of m] Suc.prems(1) by (simp_all add: b_def and_mask)
  have hlf: "drop_bit 1 ((2 :: int) ^ Suc m - 1) = 2 ^ m - 1" using half_mask [of "Suc m"] by simp
  have mj: "m_nMinBucketMask h = 2 ^ j - 1" using ms by (simp add: masks_def)
  have "\<not> (2 :: int) ^ m - 1 < m_nMinBucketMask h" unfolding mj mask_less using s(1) by simp
  then have st: "RemoveAt_masks hash (2 ^ Suc m - 1) i h = do {
      (f, h) \<leftarrow> RemoveNodeFromBucket b i h;
      if f then Some h else RemoveAt_masks hash (2 ^ m - 1) i h}"
    using hlf b s(2) by (subst RemoveAt_masks.simps) (simp add: Let_def b_def del: power_Suc)
  show ?case
  proof (cases "i \<in> set (ch b)")
    case True
    then show ?thesis using RemoveNode_present [OF r True] st by auto
  next
    case False
    have "j \<le> m" using s(1) by simp
    then show ?thesis using Suc.IH s(3) False Suc.prems(1) st RemoveNode_absent [OF c b(2) False] by (simp add: b_def)
  qed
qed

section \<open>Valid indices\<close>

lemma IsValidIndex_result:
  assumes c: "chained h ch" and f: "free_list h ch fs"
  shows "HM_IsValidIndex h i = Some (i \<in> live ch)"
proof -
  have ok: "hm_ok h" by (rule chainedD(1) [OF c])
  have l: "-1 \<le> nx h i" if il: "i \<in> live ch"
  proof -
    obtain b where b: "i \<in> set (ch b)" using il by (auto simp: live_def)
    have "nx h i \<in> set (ch b) \<or> nx h i = -1"
      using chain_closed chainedD(3) [OF c chainedD(9) [OF c b]] b by metis
    then show ?thesis using chainedD(7) [OF c, of "nx h i" b] by auto
  qed
  have d: "nx h i < -1" if "i \<in> set fs"
  proof -
    have ch: "chain (\<lambda>i. FreeNodeIDToIndex (nx h i)) fs (-1)" using f by (simp add: free_list_def)
    have "FreeNodeIDToIndex (nx h i) \<in> set fs \<or> FreeNodeIDToIndex (nx h i) = -1" using chain_closed [OF ch that] by simp
    moreover have "\<forall>x \<in> set fs. 0 \<le> x" using f unfolding free_list_def by auto
    ultimately show ?thesis by (auto simp: FreeNodeIDToIndex_def)
  qed
  show ?thesis
  proof (cases "used h i")
    case True
    then have "i \<in> live ch \<union> set fs" using f unfolding free_list_def used_def by auto
    then show ?thesis using True l d ok f unfolding HM_IsValidIndex_def
      by (auto simp: hm_simps free_list_def)
  next
    case False
    then have "i \<notin> live ch" using live_pos [OF c] by blast
    then show ?thesis using False by (auto simp: HM_IsValidIndex_def used_def)
  qed
qed

lemma HM_RemoveAt_result:
  assumes p: "hm_pre hf h ch fs" and i: "i \<in> live ch"
  shows "\<exists>h' ch'. HM_RemoveAt hf i h = Some h' \<and> node_removed hf h ch i h' ch'"
proof -
  have f: "free_list h ch fs" and c: "chained h ch" using p by (simp_all add: hm_pre_def)
  have "0 < bucket_count h"
  proof (rule ccontr)
    assume "\<not> 0 < bucket_count h"
    then have "m_cElements h = 0" using p by (auto simp: hm_pre_def masks_def)
    then show False using no_live [OF f] i by (simp add: live_def)
  qed
  then obtain n j where r: "hm_rep hf h ch fs n j" using hm_pre_rep [OF p] by blast
  obtain h1 ch1 j1 where h1: "rehash_some hf h = Some h1" "hm_rep hf h1 ch1 fs n j1" "shuffled h ch h1 ch1"
    using rehash_some_result [OF r] by blast
  have k1: "kept h ch h1 ch1" using shuffled_kept [OF h1(3) c] .
  have c1: "chained h1 ch1" and ms1: "masks h1 n j1" using h1(2) by (simp_all add: hm_rep_def)
  have i1: "i \<in> live ch1" "used h1 i" using i k1 live_pos [OF c1] by (simp_all add: kept_def)
  define hash where "hash = hf (ky h1 i)"
  have path: "on_path h1 ch1 j1 n hash i" using on_path_top [OF h1(2) i1(1)] by (simp add: hash_def)
  define b where "b = take_bit n hash"
  have b: "hash AND (bucket_count h1 - 1) = b" "bucket_in h1 b" "bucket_count h1 - 1 = 2 ^ n - 1" "j1 \<le> n"
    using ms1 masks_bucket [OF ms1 order_refl] by (simp_all add: b_def masks_def and_mask)
  have st: "HM_RemoveAt hf i h = do {
      (f, h2) \<leftarrow> RemoveNodeFromBucket b i h1;
      if f then Some h2 else RemoveAt_masks hash (2 ^ n - 1) i h2}"
    using IsValidIndex_result [OF c f, of i] i h1(1) node_at_ok [OF chainedD(1) [OF c1] i1(2)] b
    by (simp add: HM_RemoveAt_def hash_def node_fields Let_def cong: if_cong)
  have "\<exists>h' ch'. HM_RemoveAt hf i h = Some h' \<and> node_removed hf h1 ch1 i h' ch'"
  proof (cases "i \<in> set (ch1 b)")
    case True
    then show ?thesis using RemoveNode_present [OF h1(2) True] st by auto
  next
    case False
    then show ?thesis using RemoveNode_absent [OF c1 b(2) False] st b(4) path
        RemoveAt_masks_result [OF h1(2) hash_def order_refl path] by (auto simp: b_def)
  qed
  then show ?thesis using k1 unfolding node_removed_def kept_def by auto
qed

section \<open>The map a hash map stands for\<close>

text \<open>The valid indices in order, and what the first of them with the key holds.\<close>

definition valid_list :: "('k, 'e) hashmap \<Rightarrow> int list" where
  "valid_list h = filter (\<lambda>i. -1 \<le> nx h i) [0 .. m_nMaxElement h - 1]"

definition contents :: "('k \<Rightarrow> 'k \<Rightarrow> bool) \<Rightarrow> ('k, 'e) hashmap \<Rightarrow> 'k \<Rightarrow> 'e option" where
  "contents eqf h k = map_option (el h) (find (\<lambda>i. eqf k (ky h i)) (valid_list h))"

definition unique_keys :: "('k \<Rightarrow> 'k \<Rightarrow> bool) \<Rightarrow> ('k, 'e) hashmap \<Rightarrow> bool" where
  "unique_keys eqf h \<longleftrightarrow> (\<forall>i \<in> set (valid_list h). \<forall>k \<in> set (valid_list h). eqf (ky h i) (ky h k) \<longrightarrow> i = k)"

definition hm_inv :: "('k \<Rightarrow> int) \<Rightarrow> ('k, 'e) hashmap \<Rightarrow> bool" where
  "hm_inv hf h \<longleftrightarrow> (\<exists>ch fs. hm_pre hf h ch fs)"

definition hm_map :: "('k \<Rightarrow> 'k \<Rightarrow> bool) \<Rightarrow> ('k \<Rightarrow> int) \<Rightarrow> ('k, 'e) hashmap \<Rightarrow> bool" where
  "hm_map eqf hf h \<longleftrightarrow> hm_inv hf h \<and> unique_keys eqf h"

lemma valid_live: "hm_pre hf h ch fs \<Longrightarrow> set (valid_list h) = live ch"
proof -
  assume p: "hm_pre hf h ch fs"
  then have c: "chained h ch" and f: "free_list h ch fs" by (simp_all add: hm_pre_def)
  have "i \<in> set (valid_list h) \<longleftrightarrow> i \<in> live ch" for i
  proof (cases "used h i")
    case True
    then show ?thesis using IsValidIndex_result [OF c f, of i] chainedD(1) [OF c]
      by (auto simp: HM_IsValidIndex_def valid_list_def used_def node_at_ok node_fields)
  next
    case False
    then show ?thesis using live_pos [OF c] by (auto simp: valid_list_def used_def)
  qed
  then show ?thesis by blast
qed

lemma valid_list_ordered [simp]: "sorted (valid_list h)" "distinct (valid_list h)"
  by (simp_all add: valid_list_def sorted_wrt_filter)

lemma valid_list_eqI: "set (valid_list h) = set (valid_list h') \<Longrightarrow> valid_list h = valid_list h'"
  by (rule sorted_distinct_set_unique) simp_all

lemma contents_None: "contents eqf h k = None \<longleftrightarrow> (\<forall>i \<in> set (valid_list h). \<not> eqf k (ky h i))"
  by (auto simp: contents_def find_None_iff)

lemma contents_Some:
  assumes "unique_keys eqf h" "eq_hash eqf hf" "i \<in> set (valid_list h)" "eqf k (ky h i)"
  shows "contents eqf h k = Some (el h i)"
proof -
  obtain x where x: "find (\<lambda>i. eqf k (ky h i)) (valid_list h) = Some x"
    using assms(3,4) find_None_iff [of "\<lambda>i. eqf k (ky h i)" "valid_list h"] by (metis option.exhaust)
  then have "x \<in> set (valid_list h)" "eqf k (ky h x)" by (auto simp: find_Some_iff)
  then have "x = i" using assms eq_hashD [OF assms(2)] unfolding unique_keys_def by metis
  then show ?thesis using x by (simp add: contents_def)
qed

lemma contents_kept:
  assumes "set (valid_list h') = set (valid_list h)" "\<forall>i \<in> set (valid_list h). ky h' i = ky h i \<and> el h' i = el h i"
  shows "contents eqf h' = contents eqf h" "unique_keys eqf h' = unique_keys eqf h"
proof -
  have v: "valid_list h' = valid_list h" by (rule valid_list_eqI [OF assms(1)])
  have "find (\<lambda>i. eqf k (ky h' i)) xs = find (\<lambda>i. eqf k (ky h i)) xs" if "set xs \<subseteq> set (valid_list h)" for k xs
    using that assms(2) by (induction xs) auto
  then have "find (\<lambda>i. eqf k (ky h' i)) (valid_list h) = find (\<lambda>i. eqf k (ky h i)) (valid_list h)" for k by simp
  moreover have "map_option (el h') (find P (valid_list h)) = map_option (el h) (find P (valid_list h))" for P
  proof (cases "find P (valid_list h)")
    case (Some x)
    then have "x \<in> set (valid_list h)" by (auto simp: find_Some_iff)
    then show ?thesis using Some assms(2) by simp
  qed simp
  ultimately show "contents eqf h' = contents eqf h" by (simp add: contents_def fun_eq_iff v)
  show "unique_keys eqf h' = unique_keys eqf h" using assms(2) by (simp add: unique_keys_def v)
qed

lemma kept_contents:
  assumes p: "hm_pre hf h ch fs" and p': "hm_pre hf h' ch' fs'" and k: "kept h ch h' ch'"
  shows "valid_list h' = valid_list h" "contents eqf h' = contents eqf h" "unique_keys eqf h' = unique_keys eqf h"
proof -
  have s: "set (valid_list h') = set (valid_list h)" "\<forall>i \<in> set (valid_list h). ky h' i = ky h i \<and> el h' i = el h i"
    using valid_live [OF p] valid_live [OF p'] k by (simp_all add: kept_def)
  show "valid_list h' = valid_list h" "contents eqf h' = contents eqf h" "unique_keys eqf h' = unique_keys eqf h"
    using valid_list_eqI [OF s(1)] contents_kept [OF s] by simp_all
qed

lemma Count_valid: "hm_inv hf h \<Longrightarrow> HM_Count h = int (length (valid_list h))"
proof -
  assume "hm_inv hf h"
  then obtain ch fs where p: "hm_pre hf h ch fs" by (auto simp: hm_inv_def)
  have "distinct (valid_list h)" by (simp add: valid_list_def)
  then have "length (valid_list h) = card (live ch)" using distinct_card [of "valid_list h"] valid_live [OF p] by simp
  then show ?thesis using p by (simp add: HM_Count_def hm_pre_def free_list_def)
qed

lemma valid_reads:
  assumes "hm_inv hf h"
  shows "HM_IsValidIndex h i = Some (i \<in> set (valid_list h))" "i \<in> set (valid_list h) \<Longrightarrow> HM_Key h i = Some (ky h i)"
    "i \<in> set (valid_list h) \<Longrightarrow> HM_Element h i = Some (el h i)"
proof -
  obtain ch fs where p: "hm_pre hf h ch fs" using assms by (auto simp: hm_inv_def)
  then have c: "chained h ch" and f: "free_list h ch fs" by (simp_all add: hm_pre_def)
  note v = valid_live [OF p]
  show "HM_IsValidIndex h i = Some (i \<in> set (valid_list h))" using IsValidIndex_result [OF c f] v by simp
  show "HM_Key h i = Some (ky h i)" "HM_Element h i = Some (el h i)" if "i \<in> set (valid_list h)"
    using live_pos [OF c, of i] that v chainedD(1) [OF c] by (simp_all add: HM_Key_def HM_Element_def node_at_ok node_fields)
qed

subsection \<open>The operations on the map\<close>

lemma Find_inv:
  assumes i: "hm_inv hf h" and eq: "eq_hash eqf hf"
  shows "\<exists>i h'. HM_Find eqf hf key h = Some (i, h') \<and> hm_inv hf h' \<and> valid_list h' = valid_list h \<and>
    (\<forall>x \<in> set (valid_list h). ky h' x = ky h x \<and> el h' x = el h x) \<and>
    (i = -1 \<and> contents eqf h key = None \<or> i \<in> set (valid_list h) \<and> eqf key (ky h i))"
proof -
  obtain ch fs where p: "hm_pre hf h ch fs" using i by (auto simp: hm_inv_def)
  show ?thesis
  proof (cases "0 < bucket_count h")
    case False
    then have "m_cElements h = 0" using p by (auto simp: hm_pre_def masks_def)
    moreover have "set (valid_list h) = {}"
      using valid_live [OF p] no_live [of h ch fs] p calculation by (auto simp: hm_pre_def live_def)
    ultimately show ?thesis using i by (simp add: HM_Find_def kInvalidIndex_def contents_None)
  next
    case True
    then obtain n j where r: "hm_rep hf h ch fs n j" using hm_pre_rep [OF p] by blast
    obtain h' ch' j' b where h': "HM_Find eqf hf key h = Some (first_match eqf key h' (ch' b), h')" "hm_rep hf h' ch' fs n j'"
      "shuffled h ch h' ch'" "bucket_in h' b" "\<forall>i \<in> live ch'. eqf key (ky h' i) \<longrightarrow> i \<in> set (ch' b)"
      using HM_Find_result [OF r eq] by blast
    have c': "chained h' ch'" using h'(2) by (simp add: hm_rep_def)
    have p': "hm_pre hf h' ch' fs" by (rule hm_rep_pre [OF h'(2)])
    have k: "kept h ch h' ch'" using shuffled_kept [OF h'(3)] p by (simp add: hm_pre_def)
    have v: "valid_list h' = valid_list h" by (rule kept_contents(1) [OF p p' k])
    have same: "\<forall>x \<in> set (valid_list h). ky h' x = ky h x \<and> el h' x = el h x" using k valid_live [OF p] by (simp add: kept_def)
    have "first_match eqf key h' (ch' b) = -1 \<and> contents eqf h key = None \<or>
        first_match eqf key h' (ch' b) \<in> set (valid_list h) \<and> eqf key (ky h (first_match eqf key h' (ch' b)))"
    proof (rule first_match_cases [OF c', of eqf key b])
      assume no: "first_match eqf key h' (ch' b) = -1" "\<forall>i \<in> set (ch' b). \<not> eqf key (ky h' i)"
      then have "\<forall>i \<in> set (valid_list h). \<not> eqf key (ky h i)" using h'(5) same v valid_live [OF p'] by metis
      then show ?thesis using no(1) by (simp add: contents_None)
    next
      fix x assume x: "first_match eqf key h' (ch' b) = x" "x \<in> set (ch' b)" "eqf key (ky h' x)"
      have "x \<in> set (valid_list h)" using live_bucket [of x ch' b, OF x(2)] v valid_live [OF p'] by simp
      then show ?thesis using x same by simp
    qed
    then show ?thesis using h'(1) p' v same by (auto simp: hm_inv_def)
  qed
qed

lemma Find_map:
  assumes m: "hm_map eqf hf h" and eq: "eq_hash eqf hf"
  shows "\<exists>i h'. HM_Find eqf hf key h = Some (i, h') \<and> hm_map eqf hf h' \<and> contents eqf h' = contents eqf h \<and>
    valid_list h' = valid_list h \<and> (\<forall>x \<in> set (valid_list h). ky h' x = ky h x \<and> el h' x = el h x) \<and>
    (i = -1 \<and> contents eqf h key = None \<or>
     i \<in> set (valid_list h) \<and> eqf key (ky h i) \<and> contents eqf h key = Some (el h i))"
proof -
  have i: "hm_inv hf h" and u: "unique_keys eqf h" using m by (simp_all add: hm_map_def)
  obtain x h' where f: "HM_Find eqf hf key h = Some (x, h')" "hm_inv hf h'" "valid_list h' = valid_list h"
    "\<forall>x \<in> set (valid_list h). ky h' x = ky h x \<and> el h' x = el h x"
    "x = -1 \<and> contents eqf h key = None \<or> x \<in> set (valid_list h) \<and> eqf key (ky h x)"
    using Find_inv [OF i eq] by blast
  have s: "set (valid_list h') = set (valid_list h)" using f(3) by simp
  show ?thesis using f contents_kept [OF s f(4), of eqf] u contents_Some [OF u eq, of x key]
    by (auto simp: hm_map_def)
qed

text \<open>The map after a node has been added, and after the element of a node has been stored.\<close>

lemma store_elem_map:
  assumes i: "hm_inv hf h" and v: "x \<in> set (valid_list h)"
  shows "\<exists>h'. node_update x (\<lambda>n. n\<lparr>m_elem := e\<rparr>) h = Some h' \<and> hm_inv hf h' \<and> valid_list h' = valid_list h \<and> el h' x = e \<and>
    (\<forall>k \<in> set (valid_list h). ky h' k = ky h k \<and> (k \<noteq> x \<longrightarrow> el h' k = el h k))"
proof -
  obtain ch fs where p: "hm_pre hf h ch fs" using i by (auto simp: hm_inv_def)
  have l: "set (valid_list h) = live ch" by (rule valid_live [OF p])
  have c: "chained h ch" using p by (simp add: hm_pre_def)
  have "m_cElements h \<noteq> 0" using v l no_live [of h ch fs] p by (auto simp: hm_pre_def live_def)
  then have "0 < bucket_count h" using p by (auto simp: hm_pre_def masks_def)
  then obtain n j where r: "hm_rep hf h ch fs n j" using hm_pre_rep [OF p] by blast
  have u: "used h x" using v l live_pos [OF c] by simp
  obtain h' where h': "node_update x (\<lambda>n. n\<lparr>m_elem := e\<rparr>) h = Some h'" "hm_rep hf h' ch fs n j" "el h' x = e"
    "\<forall>k. 0 \<le> k \<longrightarrow> ky h' k = ky h k" "\<forall>k. 0 \<le> k \<longrightarrow> k \<noteq> x \<longrightarrow> el h' k = el h k"
    using store_elem_result [OF r u] by blast
  have p': "hm_pre hf h' ch fs" by (rule hm_rep_pre [OF h'(2)])
  have "valid_list h' = valid_list h" using valid_live [OF p'] l by (intro valid_list_eqI) simp
  moreover have "\<forall>k \<in> set (valid_list h). 0 \<le> k" using l live_pos [OF c] by auto
  ultimately show ?thesis using h'(1,3-5) p' by (auto simp: hm_inv_def)
qed

lemma added_map:
  assumes u: "unique_keys eqf h" and eq: "eq_hash eqf hf" and nk: "\<forall>k \<in> set (valid_list h). \<not> eqf key (ky h k)"
    and v: "set (valid_list h') = insert x (set (valid_list h))" "x \<notin> set (valid_list h)" "ky h' x = key"
    and same: "\<forall>k \<in> set (valid_list h). ky h' k = ky h k \<and> el h' k = el h k"
  shows "unique_keys eqf h'" "contents eqf h' = (\<lambda>k. if eqf k key then Some (el h' x) else contents eqf h k)"
    "length (valid_list h') = Suc (length (valid_list h))"
proof -
  note e = eq_hashD [OF eq]
  show u': "unique_keys eqf h'" unfolding unique_keys_def v(1)
  proof (intro ballI impI)
    fix a b assume a: "a \<in> insert x (set (valid_list h))" and b: "b \<in> insert x (set (valid_list h))" and ab: "eqf (ky h' a) (ky h' b)"
    show "a = b"
    proof (cases "a = x"; cases "b = x")
      assume "a \<noteq> x" "b \<noteq> x"
      then show ?thesis using a b ab same u unfolding unique_keys_def by auto
    next
      assume "a = x" "b \<noteq> x"
      then show ?thesis using b ab same nk v(3) by auto
    next
      assume "a \<noteq> x" "b = x"
      then show ?thesis using a ab same nk v(3) e(2) by auto
    qed simp
  qed
  show "contents eqf h' = (\<lambda>k. if eqf k key then Some (el h' x) else contents eqf h k)"
  proof
    fix k
    show "contents eqf h' k = (if eqf k key then Some (el h' x) else contents eqf h k)"
    proof (cases "eqf k key")
      case True
      then show ?thesis using contents_Some [OF u' eq, of x k] v by simp
    next
      case False
      show ?thesis
      proof (cases "\<exists>i \<in> set (valid_list h). eqf k (ky h i)")
        case True
        then obtain i where i: "i \<in> set (valid_list h)" "eqf k (ky h i)" by blast
        then show ?thesis using False contents_Some [OF u eq i] contents_Some [OF u' eq, of i k] v(1) same by simp
      next
        case no: False
        then have "contents eqf h k = None" "contents eqf h' k = None" using False v same by (auto simp: contents_None)
        then show ?thesis using False by simp
      qed
    qed
  qed
  show "length (valid_list h') = Suc (length (valid_list h))"
    using v(1,2) by (metis List.finite_set card_insert_disjoint distinct_card valid_list_ordered(2))
qed

lemma Insert_map:
  assumes m: "hm_map eqf hf h" and eq: "eq_hash eqf hf"
  shows "\<exists>i h'. FindOrInsert_Internal rawn rawb eqf hf key e rep h = Some (i, h') \<and> hm_map eqf hf h' \<and>
    contents eqf h' = (\<lambda>k. if eqf k key \<and> (rep \<or> contents eqf h key = None) then Some e else contents eqf h k) \<and>
    HM_IsValidIndex h' i = Some True \<and> HM_Element h' i = contents eqf h' key \<and>
    HM_Count h' = HM_Count h + (if contents eqf h key = None then 1 else 0)"
proof -
  have i: "hm_inv hf h" and u: "unique_keys eqf h" using m by (simp_all add: hm_map_def)
  obtain ch fs where p: "hm_pre hf h ch fs" using i by (auto simp: hm_inv_def)
  have l: "set (valid_list h) = live ch" by (rule valid_live [OF p])
  note e = eq_hashD [OF eq]
  show ?thesis
  proof (rule InsertUnconstructed_result [OF p eq, of rawn rawb key False])
    fix x h1 ch1
    assume h1: "InsertUnconstructed rawn rawb eqf hf key False h = Some ((x, -1), h1)" and ad: "node_added hf h ch key x h1 ch1"
      and nk: "False \<or> (\<forall>k \<in> live ch. \<not> eqf key (ky h k))"
    obtain fs1 n j where "hm_rep hf h1 ch1 fs1 n j" using ad by (auto simp: node_added_def)
    then have p1: "hm_pre hf h1 ch1 fs1" by (rule hm_rep_pre)
    have i1: "hm_inv hf h1" using p1 by (auto simp: hm_inv_def)
    have v1: "set (valid_list h1) = insert x (set (valid_list h))" "x \<notin> set (valid_list h)" "ky h1 x = key" "used h1 x"
      "\<forall>k \<in> set (valid_list h). ky h1 k = ky h k \<and> el h1 k = el h k"
      using ad valid_live [OF p1] l by (auto simp: node_added_def)
    obtain h2 where h2: "node_update x (\<lambda>n. n\<lparr>m_elem := e\<rparr>) h1 = Some h2" "hm_inv hf h2" "valid_list h2 = valid_list h1" "el h2 x = e"
      "\<forall>k \<in> set (valid_list h1). ky h2 k = ky h1 k \<and> (k \<noteq> x \<longrightarrow> el h2 k = el h1 k)"
      using store_elem_map [OF i1, of x e] v1(1) by auto
    have s2: "set (valid_list h2) = insert x (set (valid_list h))" "ky h2 x = key"
      "\<forall>k \<in> set (valid_list h). ky h2 k = ky h k \<and> el h2 k = el h k" using h2(3,5) v1 by auto
    have nk': "\<forall>k \<in> set (valid_list h). \<not> eqf key (ky h k)" using nk l by simp
    note ad2 = added_map [OF u eq nk' s2(1) v1(2) s2(2,3)]
    have "contents eqf h key = None" using nk' by (simp add: contents_None)
    moreover have "x \<noteq> -1" using v1(4) by (simp add: used_def)
    moreover have "HM_Count h2 = HM_Count h + 1" using Count_valid [OF i] Count_valid [OF h2(2)] ad2(3) by simp
    moreover have "HM_Element h2 x = Some e" "HM_IsValidIndex h2 x = Some True" using valid_reads [OF h2(2), of x] h2(4) s2(1) by simp_all
    ultimately show ?thesis using h1 h2(1,2,4) ad2(1,2) e(1) 
      by (auto simp: FindOrInsert_Internal_def kInvalidIndex_def hm_map_def)
  next
    fix x h1 ch1
    assume h1: "InsertUnconstructed rawn rawb eqf hf key False h = Some ((-1, x), h1)" and fo: "node_found eqf hf h ch key x h1 ch1"
    obtain fs1 n j where "hm_rep hf h1 ch1 fs1 n j" using fo by (auto simp: node_found_def)
    then have p1: "hm_pre hf h1 ch1 fs1" by (rule hm_rep_pre)
    have i1: "hm_inv hf h1" using p1 by (auto simp: hm_inv_def)
    have k1: "kept h ch h1 ch1" and x: "x \<in> set (valid_list h)" "eqf key (ky h x)" using fo l by (simp_all add: node_found_def)
    note kc = kept_contents [OF p p1 k1]
    have same1: "\<forall>k \<in> set (valid_list h). ky h1 k = ky h k \<and> el h1 k = el h k" using k1 l by (simp add: kept_def)
    have old: "contents eqf h key = Some (el h x)" using contents_Some [OF u eq x] .
    have x0: "x \<noteq> -1" using x(1) by (auto simp: valid_list_def)
    have u1: "unique_keys eqf h1" using u kc(3) [of eqf] by simp
    have cnt1: "HM_Count h1 = HM_Count h" using Count_valid [OF i] Count_valid [OF i1] kc(1) by simp
    show ?thesis
    proof (cases rep)
      case False
      have "HM_IsValidIndex h1 x = Some True" "HM_Element h1 x = Some (el h x)"
        using valid_reads [OF i1, of x] x(1) kc(1) same1 by simp_all
      then show ?thesis using False h1 i1 u1 old cnt1 kc(2) [of eqf]
        by (auto simp: FindOrInsert_Internal_def kInvalidIndex_def hm_map_def)
    next
      case True
      obtain h2 where h2: "node_update x (\<lambda>n. n\<lparr>m_elem := e\<rparr>) h1 = Some h2" "hm_inv hf h2" "valid_list h2 = valid_list h1" "el h2 x = e"
        "\<forall>k \<in> set (valid_list h1). ky h2 k = ky h1 k \<and> (k \<noteq> x \<longrightarrow> el h2 k = el h1 k)"
        using store_elem_map [OF i1, of x e] x(1) kc(1) by auto
      have same2: "\<forall>k \<in> set (valid_list h). ky h2 k = ky h k \<and> (k \<noteq> x \<longrightarrow> el h2 k = el h k)"
        using h2(5) same1 kc(1) by simp
      have v2: "valid_list h2 = valid_list h" using h2(3) kc(1) by simp
      have u2: "unique_keys eqf h2" using u same2 unfolding unique_keys_def v2 by simp
      have "contents eqf h2 k = (if eqf k key then Some e else contents eqf h k)" for k
      proof (cases "eqf k key")
        case True
        then have "eqf k (ky h2 x)" using x same2 e(3) [OF True] by simp
        then show ?thesis using contents_Some [OF u2 eq, of x k] True x(1) v2 h2(4) by simp
      next
        case False
        show ?thesis
        proof (cases "\<exists>i \<in> set (valid_list h). eqf k (ky h i)")
          case True
          then obtain i where i: "i \<in> set (valid_list h)" "eqf k (ky h i)" by blast
          have "i \<noteq> x" using False i(2) x(2) e(2) [OF x(2)] e(3) [OF i(2)] by auto
          then show ?thesis using False i same2 v2 contents_Some [OF u eq i] contents_Some [OF u2 eq, of i k] by simp
        next
          case no: False
          then have "contents eqf h k = None" "contents eqf h2 k = None" using v2 same2 by (auto simp: contents_None)
          then show ?thesis using False by simp
        qed
      qed
      moreover have "HM_IsValidIndex h2 x = Some True" "HM_Element h2 x = Some e"
        using valid_reads [OF h2(2), of x] x(1) v2 h2(4) by simp_all
      moreover have "HM_Count h2 = HM_Count h" using Count_valid [OF i] Count_valid [OF h2(2)] v2 by simp
      ultimately show ?thesis using True h1 h2(1,2) u2 x0 old e(1)
        by (auto simp: FindOrInsert_Internal_def kInvalidIndex_def hm_map_def fun_eq_iff)
    qed
  qed
qed

lemma removed_map:
  assumes u: "unique_keys eqf h" and eq: "eq_hash eqf hf" and x: "x \<in> set (valid_list h)" "eqf key (ky h x)"
    and v: "set (valid_list h') = set (valid_list h) - {x}"
    and same: "\<forall>k \<in> set (valid_list h) - {x}. ky h' k = ky h k \<and> el h' k = el h k"
  shows "unique_keys eqf h'" "contents eqf h' = (\<lambda>k. if eqf k key then None else contents eqf h k)"
    "Suc (length (valid_list h')) = length (valid_list h)"
proof -
  note e = eq_hashD [OF eq]
  show u': "unique_keys eqf h'" using u same unfolding unique_keys_def v by simp
  show "contents eqf h' = (\<lambda>k. if eqf k key then None else contents eqf h k)"
  proof
    fix k
    have uniq: "i = x" if "i \<in> set (valid_list h)" "eqf k (ky h i)" "eqf k key" for i
      using u x that e unfolding unique_keys_def by metis
    show "contents eqf h' k = (if eqf k key then None else contents eqf h k)"
    proof (cases "\<exists>i \<in> set (valid_list h'). eqf k (ky h' i)")
      case True
      then obtain i where i: "i \<in> set (valid_list h')" "eqf k (ky h' i)" by blast
      then have i': "i \<in> set (valid_list h)" "eqf k (ky h i)" "i \<noteq> x" "el h' i = el h i" using v same by auto
      then show ?thesis using uniq [OF i'(1,2)] contents_Some [OF u' eq i] contents_Some [OF u eq i'(1,2)] by auto
    next
      case False
      then have n: "contents eqf h' k = None" by (simp add: contents_None)
      show ?thesis
      proof (cases "eqf k key")
        case nk: False
        have "\<not> eqf k (ky h x)" using nk x(2) e(2) [OF x(2)] e(3) [of k "ky h x" key] by blast
        then have "contents eqf h k = None" using False v same by (auto simp: contents_None)
        then show ?thesis using n nk by simp
      qed (simp add: n)
    qed
  qed
  show "Suc (length (valid_list h')) = length (valid_list h)"
  proof -
    have "length (valid_list h') = card (set (valid_list h) - {x})" using v distinct_card [of "valid_list h'"] by simp
    then show ?thesis using card_Suc_Diff1 [of "set (valid_list h)" x] x(1) distinct_card [of "valid_list h"] by simp
  qed
qed

lemma RemoveAt_inv:
  assumes i: "hm_inv hf h" and x: "x \<in> set (valid_list h)"
  shows "\<exists>h'. HM_RemoveAt hf x h = Some h' \<and> hm_inv hf h' \<and> set (valid_list h') = set (valid_list h) - {x} \<and>
    (\<forall>k \<in> set (valid_list h) - {x}. ky h' k = ky h k \<and> el h' k = el h k)"
proof -
  obtain ch fs where p: "hm_pre hf h ch fs" using i by (auto simp: hm_inv_def)
  have l: "set (valid_list h) = live ch" by (rule valid_live [OF p])
  obtain h' ch' where h': "HM_RemoveAt hf x h = Some h'" "node_removed hf h ch x h' ch'"
    using HM_RemoveAt_result [OF p] x l by blast
  then obtain fs' n j where "hm_rep hf h' ch' fs' n j" by (auto simp: node_removed_def)
  then have p': "hm_pre hf h' ch' fs'" by (rule hm_rep_pre)
  then show ?thesis using h' valid_live [OF p'] l by (auto simp: node_removed_def hm_inv_def)
qed

lemma Remove_map:
  assumes m: "hm_map eqf hf h" and eq: "eq_hash eqf hf"
  shows "\<exists>h'. HM_Remove eqf hf key h = Some (contents eqf h key \<noteq> None, h') \<and> hm_map eqf hf h' \<and>
    contents eqf h' = (\<lambda>k. if eqf k key then None else contents eqf h k) \<and>
    HM_Count h' = HM_Count h - (if contents eqf h key = None then 0 else 1)"
proof -
  have i: "hm_inv hf h" and u: "unique_keys eqf h" using m by (simp_all add: hm_map_def)
  obtain x h1 where h1: "HM_Find eqf hf key h = Some (x, h1)" "hm_map eqf hf h1" "contents eqf h1 = contents eqf h"
    "valid_list h1 = valid_list h" "\<forall>k \<in> set (valid_list h). ky h1 k = ky h k \<and> el h1 k = el h k"
    "x = -1 \<and> contents eqf h key = None \<or>
     x \<in> set (valid_list h) \<and> eqf key (ky h x) \<and> contents eqf h key = Some (el h x)"
    using Find_map [OF m eq] by blast
  have i1: "hm_inv hf h1" "unique_keys eqf h1" using h1(2) by (simp_all add: hm_map_def)
  have c1: "HM_Count h1 = HM_Count h" using Count_valid [OF i] Count_valid [OF i1(1)] h1(4) by simp
  show ?thesis
  proof (cases "x = -1")
    case True
    then have n: "contents eqf h key = None" using h1(6) by (auto simp: valid_list_def)
    have "contents eqf h k = None" if "eqf k key" for k
      using n that eq_hashD(2) [OF eq that] eq_hashD(3) [OF eq, of key k] unfolding contents_None by blast
    then show ?thesis using True n h1(1,2,3) c1 by (auto simp: HM_Remove_def kInvalidIndex_def fun_eq_iff)
  next
    case False
    then have x: "x \<in> set (valid_list h)" "eqf key (ky h x)" "contents eqf h key = Some (el h x)" using h1(6) by auto
    have x1: "x \<in> set (valid_list h1)" "eqf key (ky h1 x)" using x h1(4,5) by simp_all
    obtain h2 where h2: "HM_RemoveAt hf x h1 = Some h2" "hm_inv hf h2" "set (valid_list h2) = set (valid_list h1) - {x}"
      "\<forall>k \<in> set (valid_list h1) - {x}. ky h2 k = ky h1 k \<and> el h2 k = el h1 k"
      using RemoveAt_inv [OF i1(1) x1(1)] by blast
    note rm = removed_map [OF i1(2) eq x1 h2(3,4)]
    have "HM_Count h2 = HM_Count h - 1" using Count_valid [OF h2(2)] Count_valid [OF i1(1)] c1 rm(3) by linarith
    then show ?thesis using False h1(1,3) h2(1,2) x(3) rm(1,2)
      by (simp add: HM_Remove_def kInvalidIndex_def hm_map_def cong: if_cong)
  qed
qed

subsection \<open>Emptying, growing and the empty map\<close>

lemma no_buckets_pre:
  assumes "hm_ok h" "bucket_count h = 0" "m_cElements h = 0" "m_nMaxElement h = 0" "m_iNodeFreeListHead h = -1"
  shows "hm_pre hf h (\<lambda>_. []) []"
  using assms by (simp add: hm_pre_def chained_def free_list_def together_def live_def bucket_in_def)

lemma empty_map: "hm_inv hf h \<Longrightarrow> m_nMaxElement h = 0 \<Longrightarrow> hm_map eqf hf h \<and> contents eqf h = Map.empty"
  by (simp add: hm_map_def unique_keys_def contents_def valid_list_def fun_eq_iff)

lemma HM_new_map:
  assumes "0 < sizeOfNode"
  shows "hm_map eqf hf (HM_new rawn rawb sizeOfNode) \<and> contents eqf (HM_new rawn rawb sizeOfNode) = Map.empty"
proof -
  let ?h = "HM_new rawn rawb sizeOfNode"
  have "hm_ok ?h" using assms Vector_new_result [of 4 0 0 rawb]
    by (simp add: hm_ok_def HM_new_def mem_inv_def Memory_new_def)
  moreover have "bucket_count ?h = 0" by (simp add: HM_new_def bucket_count_def Vector_Count_def Vector_new_def)
  ultimately have "hm_pre hf ?h (\<lambda>_. []) []" by (intro no_buckets_pre) (simp_all add: HM_new_def kInvalidIndex_def)
  then have "hm_inv hf ?h" by (auto simp: hm_inv_def)
  then show ?thesis by (intro empty_map) (simp_all add: HM_new_def)
qed

lemma Purge_map:
  assumes "hm_inv hf h"
  shows "hm_map eqf hf (HM_Purge h) \<and> contents eqf (HM_Purge h) = Map.empty"
proof -
  obtain ch fs where p: "hm_pre hf h ch fs" using assms by (auto simp: hm_inv_def)
  then have "hm_ok h" using chainedD(1) by (auto simp: hm_pre_def)
  then have "hm_ok (HM_Purge h)"
    by (auto simp: hm_ok_def HM_Purge_def vec_ok_def vec_inv_def mem_inv_def Vector_Purge_def Vector_RemoveAll_def Let_def
      Memory_Purge_def Memory_IsExternallyAllocated_def)
  moreover have "bucket_count (HM_Purge h) = 0"
    by (simp add: HM_Purge_def bucket_count_def Vector_Count_def Vector_Purge_def Vector_RemoveAll_def Let_def)
  ultimately have "hm_pre hf (HM_Purge h) (\<lambda>_. []) []" by (intro no_buckets_pre) (simp_all add: HM_Purge_def kInvalidIndex_def)
  then have "hm_inv hf (HM_Purge h)" by (auto simp: hm_inv_def)
  then show ?thesis by (intro empty_map) (simp_all add: HM_Purge_def)
qed

lemma RemoveAll_map:
  assumes i: "hm_inv hf h"
  shows "\<exists>h'. HM_RemoveAll h = Some h' \<and> hm_map eqf hf h' \<and> contents eqf h' = Map.empty \<and> HM_Count h' = 0 \<and>
    bucket_count h' = bucket_count h"
proof (cases "0 < m_cElements h")
  case False
  obtain ch fs where p: "hm_pre hf h ch fs" using i by (auto simp: hm_inv_def)
  then have "m_cElements h = 0" using False by (auto simp: hm_pre_def free_list_def)
  then have "valid_list h = []" using Count_valid [OF i] by (simp add: HM_Count_def)
  then have "unique_keys eqf h \<and> contents eqf h = Map.empty" by (simp add: unique_keys_def contents_def fun_eq_iff)
  then show ?thesis using False i \<open>m_cElements h = 0\<close> by (simp add: HM_RemoveAll_def hm_map_def HM_Count_def)
next
  case True
  obtain ch fs where p: "hm_pre hf h ch fs" using i by (auto simp: hm_inv_def)
  then have c: "chained h ch" by (simp add: hm_pre_def)
  have ok: "hm_ok h" by (rule chainedD(1) [OF c])
  obtain n j where ms: "masks h n j" using p True by (auto simp: hm_pre_def)
  define h1 where "h1 = h\<lparr>m_cElements := 0, m_nMaxElement := 0, m_iNodeFreeListHead := kInvalidIndex,
      m_nNeedRehashStart := bucket_count h, m_nNeedRehashEnd := bucket_count h, m_nMinBucketMask := bucket_count h - 1\<rparr>"
  have vok: "vec_ok (m_vecHashBuckets h)" using ok by (simp add: hm_ok_def)
  have bc: "bucket_count h = m_Size (m_vecHashBuckets h)" "bucket_count h1 = bucket_count h" "bucket_count h = 2 ^ n"
    using ms by (simp_all add: bucket_count_def Vector_Count_def h1_def masks_def)
  obtain v where v: "Vector_Store 0 (replicate (nat (bucket_count h)) (-1)) (m_vecHashBuckets h) = Some v" "vec_ok v"
    "m_Size v = m_Size (m_vecHashBuckets h)" "elems v = replicate (nat (bucket_count h)) (-1) @ drop (nat (bucket_count h)) (elems (m_vecHashBuckets h))"
    using Vector_Store_elems [OF vok, of 0 "replicate (nat (bucket_count h)) (-1)"] vec_invD [OF vec_okD [OF vok]]
    by (auto simp: bc(1))
  define h2 where "h2 = h1\<lparr>m_vecHashBuckets := v\<rparr>"
  have st: "HM_RemoveAll h = Some h2"
    using True v(1) by (simp add: HM_RemoveAll_def h2_def h1_def Let_def bucket_count_def)
  have b2: "bucket_count h2 = 2 ^ n" using v(3) bc by (simp add: h2_def bucket_count_def Vector_Count_def)
  have "bk h2 b = -1" if "bucket_in h2 b" for b
    using that v(4) b2 bc(3) by (auto simp: bk_def h2_def bucket_in_def nth_append nat_less_iff)
  moreover have "hm_ok h2" using ok v(2) by (simp add: hm_ok_def h2_def h1_def)
  ultimately have c2: "chained h2 (\<lambda>_. [])" by (simp add: chained_def)
  have f2: "free_list h2 (\<lambda>_. []) []" by (simp add: free_list_def h2_def h1_def live_def kInvalidIndex_def)
  have "masks h2 n n" using ms b2 bc by (simp add: masks_def h2_def h1_def)
  moreover have "placed hf h2 (\<lambda>_. []) n n s e" for s e by (simp add: placed_def)
  ultimately have "hm_pre hf h2 (\<lambda>_. []) []"
    using c2 f2 by (auto simp: hm_pre_def together_def)
  then have "hm_inv hf h2" by (auto simp: hm_inv_def)
  moreover have "m_nMaxElement h2 = 0" "HM_Count h2 = 0" by (simp_all add: h2_def h1_def HM_Count_def)
  ultimately show ?thesis using st empty_map [of hf h2 eqf] b2 bc(3) by auto
qed

lemma EnsureCapacity_map:
  assumes i: "hm_inv hf h"
  shows "\<exists>h'. HM_EnsureCapacity rawn rawb amount h = Some h' \<and> hm_inv hf h' \<and> valid_list h' = valid_list h \<and>
    contents eqf h' = contents eqf h \<and> unique_keys eqf h' = unique_keys eqf h \<and> amount \<le> bucket_count h' \<and>
    (bucket_count h' = 0 \<or> (\<exists>n. bucket_count h' = 2 ^ n))"
proof -
  obtain ch fs where p: "hm_pre hf h ch fs" using i by (auto simp: hm_inv_def)
  obtain h' where h': "HM_EnsureCapacity rawn rawb amount h = Some h'" "hm_pre hf h' ch fs" "kept h ch h' ch" "amount \<le> bucket_count h'"
    using EnsureCapacity_pre [OF p] by blast
  then show ?thesis using kept_contents [OF p h'(2,3)] by (auto simp: hm_inv_def hm_pre_def masks_def)
qed

section \<open>Iteration\<close>

lemma filter_upto_first:
  "filter P [k .. m] = x # xs \<Longrightarrow> k \<le> x \<and> x \<le> m \<and> P x \<and> xs = filter P [x + 1 .. m]"
proof (induction "nat (m + 1 - k)" arbitrary: k)
  case 0
  then show ?case by simp
next
  case (Suc d)
  then have u: "[k .. m] = k # [k + 1 .. m]" by (intro upto_rec1) simp
  show ?case
  proof (cases "P k")
    case True
    then show ?thesis using Suc.prems Suc.hyps(2) u by auto
  next
    case False
    then have f: "filter P [k + 1 .. m] = x # xs" using Suc.prems u by simp
    have "d = nat (m + 1 - (k + 1))" using Suc.hyps(2) by linarith
    from Suc.hyps(1) [OF this f] show ?thesis by simp
  qed
qed

abbreviation valid_from :: "('k, 'e) hashmap \<Rightarrow> int \<Rightarrow> int list" where
  "valid_from h k \<equiv> filter (\<lambda>i. -1 \<le> nx h i) [k .. m_nMaxElement h - 1]"

lemma valid_from_step:
  "k < m_nMaxElement h \<Longrightarrow> valid_from h k = (if -1 \<le> nx h k then k # valid_from h (k + 1) else valid_from h (k + 1))"
  by (subst upto_rec1) simp_all

lemma begin_from_result:
  "hm_ok h \<Longrightarrow> 0 \<le> k \<Longrightarrow> valid_from h k \<noteq> [] \<Longrightarrow> begin_from k h = Some (hd (valid_from h k))"
proof (induction "nat (m_nMaxElement h - k)" arbitrary: k)
  case 0
  then show ?case by simp
next
  case (Suc d)
  then have k: "k < m_nMaxElement h" "used h k" by (auto simp: used_def)
  show ?case
  proof (cases "-1 \<le> nx h k")
    case True
    then show ?thesis using Suc.prems k by (subst begin_from.simps) (simp add: node_at_ok node_fields valid_from_step)
  next
    case False
    then have v: "valid_from h k = valid_from h (k + 1)" using valid_from_step [OF k(1)] by simp
    have "begin_from k h = begin_from (k + 1) h"
      using False Suc.prems k by (subst begin_from.simps) (simp add: node_at_ok node_fields)
    then show ?thesis using Suc.hyps(1) [of "k + 1"] Suc.hyps(2) Suc.prems v by simp
  qed
qed

lemma Iterator_step_result:
  "hm_ok h \<Longrightarrow> -1 \<le> k \<Longrightarrow> Iterator_step k h = Some (hd (valid_from h (k + 1) @ [-1]))"
proof (induction "nat (m_nMaxElement h - k)" arbitrary: k)
  case 0
  then have "m_nMaxElement h \<le> k + 1" by simp
  then show ?case by (subst Iterator_step.simps) (simp add: Let_def kInvalidIndex_def)
next
  case (Suc d)
  show ?case
  proof (cases "k + 1 < m_nMaxElement h")
    case False
    then show ?thesis by (subst Iterator_step.simps) (simp add: Let_def kInvalidIndex_def)
  next
    case True
    then have u: "used h (k + 1)" using Suc.prems by (simp add: used_def)
    show ?thesis
    proof (cases "-1 \<le> nx h (k + 1)")
      case v: True
      then show ?thesis using True u Suc.prems
        by (subst Iterator_step.simps) (simp add: Let_def node_at_ok node_fields valid_from_step)
    next
      case v: False
      have "Iterator_step k h = Iterator_step (k + 1) h"
        using v True u Suc.prems by (subst Iterator_step.simps) (simp add: Let_def node_at_ok node_fields)
      also have "\<dots> = Some (hd (valid_from h (k + 1 + 1) @ [-1]))"
        using Suc.hyps Suc.prems by (intro Suc.hyps(1)) simp_all
      finally show ?thesis using v valid_from_step [OF True] by simp
    qed
  qed
qed

lemma iterate_result:
  "hm_ok h \<Longrightarrow> 0 \<le> k \<Longrightarrow> iterate (hd (valid_from h k @ [-1])) h = Some (valid_from h k)"
proof (induction "nat (m_nMaxElement h - k)" arbitrary: k rule: less_induct)
  case less
  show ?case
  proof (cases "valid_from h k")
    case Nil
    then show ?thesis by (subst iterate.simps) (simp add: kInvalidIndex_def)
  next
    case (Cons x xs)
    have x: "k \<le> x" "x \<le> m_nMaxElement h - 1" "xs = valid_from h (x + 1)" using filter_upto_first [OF Cons] by auto
    have "iterate (hd (valid_from h (x + 1) @ [-1])) h = Some (valid_from h (x + 1))"
      using less.prems x by (intro less.hyps) auto
    then show ?thesis using Cons x less.prems Iterator_step_result [OF less.prems(1), of x]
      by (subst iterate.simps) (simp add: kInvalidIndex_def Iterator_next_def)
  qed
qed

lemma IterItems_result:
  assumes i: "hm_inv hf h"
  shows "IterItems h = Some (valid_list h)"
proof -
  obtain ch fs where p: "hm_pre hf h ch fs" using i by (auto simp: hm_inv_def)
  then have ok: "hm_ok h" using chainedD(1) by (auto simp: hm_pre_def)
  have c: "m_cElements h = int (length (valid_list h))" using Count_valid [OF i] by (simp add: HM_Count_def)
  show ?thesis
  proof (cases "valid_list h = []")
    case True
    then show ?thesis using c by (subst IterItems_def) (simp add: Range_begin_def kInvalidIndex_def iterate.simps)
  next
    case False
    then have "Range_begin h = Some (hd (valid_from h 0 @ [-1]))"
      using c begin_from_result [OF ok, of 0] by (simp add: Range_begin_def valid_list_def)
    then show ?thesis using iterate_result [OF ok, of 0] by (simp add: IterItems_def valid_list_def)
  qed
qed

section \<open>Duplicate keys\<close>

lemma FindExact_from_result:
  assumes c: "chained h ch" and eq: "eq_hash eqf hf" and b: "bucket_in h b"
  shows "ch b = us @ vs \<Longrightarrow> FindExact_from eqf elem (first_match eqf key h vs) h =
    Some (hd (filter (\<lambda>i. eqf key (ky h i) \<and> elem = el h i) vs @ [-1]))"
proof (induction vs arbitrary: us)
  case Nil
  then show ?case by (subst FindExact_from.simps) (simp add: kInvalidIndex_def)
next
  case (Cons v vs)
  have v: "used h v" "0 \<le> v" using chainedD(6,7) [OF c, of v b] Cons.prems by auto
  have ok: "hm_ok h" by (rule chainedD(1) [OF c])
  have IH: "FindExact_from eqf elem (first_match eqf key h vs) h =
      Some (hd (filter (\<lambda>i. eqf key (ky h i) \<and> elem = el h i) vs @ [-1]))"
    using Cons.IH [of "us @ [v]"] Cons.prems by simp
  show ?case
  proof (cases "eqf key (ky h v)")
    case False
    then show ?thesis using IH by simp
  next
    case True
    note e = eq_hashD [OF eq]
    have ch: "chain (nx h) (us @ v # vs) (-1)" using chainedD(3) [OF c b] Cons.prems by simp
    then have nx: "nx h v = hd (vs @ [-1])" "chain (nx h) vs (-1)" by (simp_all add: chain_append)
    have us: "\<forall>x \<in> set vs. used h x" using chainedD(6) [OF c, of _ b] Cons.prems by simp
    have same: "eqf (ky h v) a = eqf key a" for a using e(2) [OF True] e(3) True by blast
    have "NextSameKey eqf v h = Some (first_match eqf key h vs)"
      using FindInChain_result [OF ok nx(2) us, of eqf "ky h v"] v ok nx(1) same used_length [OF ok v(1)]
      by (auto simp: NextSameKey_def Memory_IsIdxValid_def node_at_ok node_fields hm_ok_def used_def)
    then show ?thesis using True v ok IH
      by (subst FindExact_from.simps) (simp add: kInvalidIndex_def HM_Element_def node_at_ok node_fields)
  qed
qed

lemma FindExact_result:
  assumes i: "hm_inv hf h" and eq: "eq_hash eqf hf"
  shows "\<exists>x h'. FindExact eqf hf key elem h = Some (x, h') \<and> hm_inv hf h' \<and> valid_list h' = valid_list h \<and>
    (\<forall>k \<in> set (valid_list h). ky h' k = ky h k \<and> el h' k = el h k) \<and>
    (x = -1 \<and> (\<forall>k \<in> set (valid_list h). \<not> (eqf key (ky h k) \<and> el h k = elem)) \<or>
     x \<in> set (valid_list h) \<and> eqf key (ky h x) \<and> el h x = elem)"
proof -
  obtain ch fs where p: "hm_pre hf h ch fs" using i by (auto simp: hm_inv_def)
  show ?thesis
  proof (cases "0 < bucket_count h")
    case False
    then have "m_cElements h = 0" using p by (auto simp: hm_pre_def masks_def)
    moreover have "valid_list h = []" using Count_valid [OF i] calculation by (simp add: HM_Count_def)
    ultimately show ?thesis using i by (simp add: FindExact_def HM_Find_def kInvalidIndex_def FindExact_from.simps)
  next
    case True
    then obtain n j where r: "hm_rep hf h ch fs n j" using hm_pre_rep [OF p] by blast
    obtain h' ch' j' b where h': "HM_Find eqf hf key h = Some (first_match eqf key h' (ch' b), h')" "hm_rep hf h' ch' fs n j'"
      "shuffled h ch h' ch'" "bucket_in h' b" "\<forall>i \<in> live ch'. eqf key (ky h' i) \<longrightarrow> i \<in> set (ch' b)"
      using HM_Find_result [OF r eq] by blast
    have c': "chained h' ch'" using h'(2) by (simp add: hm_rep_def)
    have p': "hm_pre hf h' ch' fs" by (rule hm_rep_pre [OF h'(2)])
    have k: "kept h ch h' ch'" using shuffled_kept [OF h'(3)] p by (simp add: hm_pre_def)
    have v: "valid_list h' = valid_list h" by (rule kept_contents(1) [OF p p' k])
    have same: "\<forall>x \<in> set (valid_list h). ky h' x = ky h x \<and> el h' x = el h x" using k valid_live [OF p] by (simp add: kept_def)
    define L where "L = filter (\<lambda>i. eqf key (ky h' i) \<and> elem = el h' i) (ch' b)"
    have st: "FindExact eqf hf key elem h = Some (hd (L @ [-1]), h')"
      using h'(1) FindExact_from_result [OF c' eq h'(4), of "[]" "ch' b" elem key] by (simp add: FindExact_def L_def)
    have L: "x \<in> set L \<longleftrightarrow> x \<in> set (valid_list h) \<and> eqf key (ky h x) \<and> el h x = elem" for x
    proof -
      have "x \<in> set (ch' b) \<Longrightarrow> x \<in> set (valid_list h)" using live_bucket [of x ch' b] v valid_live [OF p'] by simp
      then show ?thesis using h'(5) same v valid_live [OF p'] by (auto simp: L_def)
    qed
    show ?thesis
    proof (cases L)
      case Nil
      then have "\<forall>k \<in> set (valid_list h). \<not> (eqf key (ky h k) \<and> el h k = elem)" using L by auto
      then show ?thesis using st Nil p' v same by (auto simp: hm_inv_def)
    next
      case (Cons x xs)
      then have "x \<in> set (valid_list h) \<and> eqf key (ky h x) \<and> el h x = elem" using L by auto
      then show ?thesis using st Cons p' v same by (auto simp: hm_inv_def)
    qed
  qed
qed

lemma InsertWithDupes_result:
  assumes i: "hm_inv hf h" and eq: "eq_hash eqf hf"
  shows "\<exists>x h'. InsertWithDupes_Internal rawn rawb eqf hf key e h = Some (x, h') \<and> hm_inv hf h' \<and>
    x \<notin> set (valid_list h) \<and> set (valid_list h') = insert x (set (valid_list h)) \<and> ky h' x = key \<and> el h' x = e \<and>
    (\<forall>k \<in> set (valid_list h). ky h' k = ky h k \<and> el h' k = el h k)"
proof -
  obtain ch fs where p: "hm_pre hf h ch fs" using i by (auto simp: hm_inv_def)
  have l: "set (valid_list h) = live ch" by (rule valid_live [OF p])
  show ?thesis
  proof (rule InsertUnconstructed_result [OF p eq, of rawn rawb key True])
    fix x h1 ch1
    assume h1: "InsertUnconstructed rawn rawb eqf hf key True h = Some ((x, -1), h1)" and ad: "node_added hf h ch key x h1 ch1"
    obtain fs1 n j where "hm_rep hf h1 ch1 fs1 n j" using ad by (auto simp: node_added_def)
    then have p1: "hm_pre hf h1 ch1 fs1" by (rule hm_rep_pre)
    have i1: "hm_inv hf h1" using p1 by (auto simp: hm_inv_def)
    have v1: "set (valid_list h1) = insert x (set (valid_list h))" "x \<notin> set (valid_list h)" "ky h1 x = key" "used h1 x"
      "\<forall>k \<in> set (valid_list h). ky h1 k = ky h k \<and> el h1 k = el h k"
      using ad valid_live [OF p1] l by (auto simp: node_added_def)
    obtain h2 where h2: "node_update x (\<lambda>n. n\<lparr>m_elem := e\<rparr>) h1 = Some h2" "hm_inv hf h2" "valid_list h2 = valid_list h1" "el h2 x = e"
      "\<forall>k \<in> set (valid_list h1). ky h2 k = ky h1 k \<and> (k \<noteq> x \<longrightarrow> el h2 k = el h1 k)"
      using store_elem_map [OF i1, of x e] v1(1) by auto
    have "x \<noteq> -1" using v1(4) by (simp add: used_def)
    then have "InsertWithDupes_Internal rawn rawb eqf hf key e h = Some (x, h2)"
      using h1 h2(1) by (simp add: InsertWithDupes_Internal_def kInvalidIndex_def)
    moreover have "\<forall>k \<in> set (valid_list h). ky h2 k = ky h k \<and> el h2 k = el h k" using h2(5) v1 by auto
    ultimately show ?thesis using h2 v1 by auto
  qed simp
qed

section \<open>Copying\<close>

lemma CopyFullHashMap_from_result:
  assumes m: "hm_map eqf hf h" and eq: "eq_hash eqf hf"
  shows "hm_map eqf hf t \<Longrightarrow> 0 \<le> i \<Longrightarrow>
    (\<forall>k e. contents eqf t k = Some e \<longleftrightarrow> (\<exists>x \<in> set (valid_list h). x < i \<and> eqf k (ky h x) \<and> el h x = e)) \<Longrightarrow>
    \<exists>t'. CopyFullHashMap_from rawn rawb eqf hf i h t = Some t' \<and> hm_map eqf hf t' \<and>
      (\<forall>k e. contents eqf t' k = Some e \<longleftrightarrow> (\<exists>x \<in> set (valid_list h). eqf k (ky h x) \<and> el h x = e))"
proof (induction "nat (m_nMaxElement h - i)" arbitrary: i t rule: less_induct)
  case less
  have hi: "hm_inv hf h" and u: "unique_keys eqf h" using m by (simp_all add: hm_map_def)
  show ?case
  proof (cases "i < m_nMaxElement h")
    case False
    have "\<forall>x \<in> set (valid_list h). x < i" using False by (auto simp: valid_list_def)
    then show ?thesis using False less.prems by (subst CopyFullHashMap_from.simps) (auto simp: HM_MaxElement_def)
  next
    case True
    note r = valid_reads [OF hi]
    show ?thesis
    proof (cases "i \<in> set (valid_list h)")
      case False
      then have st: "CopyFullHashMap_from rawn rawb eqf hf i h t = CopyFullHashMap_from rawn rawb eqf hf (i + 1) h t"
        using True r(1) [of i] by (subst CopyFullHashMap_from.simps) (simp add: HM_MaxElement_def)
      have "x < i + 1 \<longleftrightarrow> x < i" if "x \<in> set (valid_list h)" for x using that False by (cases "x = i") auto
      then show ?thesis unfolding st using less.prems True by (intro less.hyps) auto
    next
      case v: True
      obtain j t1 where t1: "FindOrInsert_Internal rawn rawb eqf hf (ky h i) (el h i) True t = Some (j, t1)" "hm_map eqf hf t1"
        "contents eqf t1 = (\<lambda>k. if eqf k (ky h i) \<and> (True \<or> contents eqf t (ky h i) = None) then Some (el h i) else contents eqf t k)"
        using Insert_map [OF less.prems(1) eq, of rawn rawb "ky h i" "el h i" True] by blast
      have st: "CopyFullHashMap_from rawn rawb eqf hf i h t = CopyFullHashMap_from rawn rawb eqf hf (i + 1) h t1"
        using True r [of i] v t1(1) by (subst CopyFullHashMap_from.simps) (simp add: HM_MaxElement_def HM_Insert_def)
      have "contents eqf t1 k = Some e \<longleftrightarrow> (\<exists>x \<in> set (valid_list h). x < i + 1 \<and> eqf k (ky h x) \<and> el h x = e)" for k e
      proof (cases "eqf k (ky h i)")
        case True
        have "x = i" if x: "x \<in> set (valid_list h)" "eqf k (ky h x)" for x
        proof -
          have "eqf (ky h x) (ky h i)" using eq_hashD(2) [OF eq x(2)] eq_hashD(3) [OF eq _ True] by blast
          then show ?thesis using u x(1) v unfolding unique_keys_def by blast
        qed
        note same = this
        have c: "contents eqf t1 k = Some (el h i)" using True t1(3) by simp
        show ?thesis
        proof
          assume "contents eqf t1 k = Some e"
          then show "\<exists>x \<in> set (valid_list h). x < i + 1 \<and> eqf k (ky h x) \<and> el h x = e"
            using c v True by (intro bexI [of _ i]) simp_all
        next
          assume "\<exists>x \<in> set (valid_list h). x < i + 1 \<and> eqf k (ky h x) \<and> el h x = e"
          then obtain x where "x \<in> set (valid_list h)" "eqf k (ky h x)" "el h x = e" by blast
          then show "contents eqf t1 k = Some e" using same [of x] c by simp
        qed
      next
        case False
        have "x < i + 1 \<longleftrightarrow> x < i" if "eqf k (ky h x)" for x using that False by (cases "x = i") auto
        then show ?thesis using False t1(3) less.prems(3) by auto
      qed
      then show ?thesis unfolding st using less.prems(2) t1(2) True by (intro less.hyps) auto
    qed
  qed
qed

lemma CopyFullHashMap_result:
  assumes m: "hm_map eqf hf h" and t: "hm_inv hf t" and eq: "eq_hash eqf hf"
  shows "\<exists>t'. CopyFullHashMap rawn rawb eqf hf h t = Some t' \<and> hm_map eqf hf t' \<and> contents eqf t' = contents eqf h"
proof -
  have hi: "hm_inv hf h" and u: "unique_keys eqf h" using m by (simp_all add: hm_map_def)
  obtain t0 where t0: "HM_RemoveAll t = Some t0" "hm_map eqf hf t0" "contents eqf t0 = Map.empty"
    using RemoveAll_map [OF t, of eqf] by blast
  have "\<forall>x \<in> set (valid_list h). \<not> x < 0" by (auto simp: valid_list_def)
  then obtain t' where t': "CopyFullHashMap_from rawn rawb eqf hf 0 h t0 = Some t'" "hm_map eqf hf t'"
    "\<forall>k e. contents eqf t' k = Some e \<longleftrightarrow> (\<exists>x \<in> set (valid_list h). eqf k (ky h x) \<and> el h x = e)"
    using CopyFullHashMap_from_result [OF m eq t0(2), of 0 rawn rawb] t0(3) by auto
  have "contents eqf h k = Some e \<longleftrightarrow> (\<exists>x \<in> set (valid_list h). eqf k (ky h x) \<and> el h x = e)" for k e
  proof
    assume "contents eqf h k = Some e"
    then have "contents eqf h k \<noteq> None" by simp
    then obtain x where x: "x \<in> set (valid_list h)" "eqf k (ky h x)" unfolding contents_None by blast
    then show "\<exists>x \<in> set (valid_list h). eqf k (ky h x) \<and> el h x = e"
      using contents_Some [OF u eq x] \<open>contents eqf h k = Some e\<close> by auto
  next
    assume "\<exists>x \<in> set (valid_list h). eqf k (ky h x) \<and> el h x = e"
    then show "contents eqf h k = Some e" using contents_Some [OF u eq] by auto
  qed
  then have "contents eqf t' k = contents eqf h k" for k
    using t'(3) by (cases "contents eqf t' k"; cases "contents eqf h k") (auto, (metis option.distinct(1) option.inject)+)
  then show ?thesis using t0(1) t'(1,2) by (auto simp: CopyFullHashMap_def fun_eq_iff)
qed

section \<open>The contract of a finite map\<close>

datatype ('k, 'e) map_op = Ins 'k 'e | Del 'k | Get 'k
datatype 'e map_result = Done | Deleted bool | Got "'e option"

text \<open>A sequence of operations on an implementation, and on a map.\<close>

fun run_ops ::
  "('k \<Rightarrow> 'e \<Rightarrow> 'm \<Rightarrow> 'm option) \<Rightarrow> ('k \<Rightarrow> 'm \<Rightarrow> (bool \<times> 'm) option) \<Rightarrow> ('k \<Rightarrow> 'm \<Rightarrow> ('e option \<times> 'm) option) \<Rightarrow>
   ('k, 'e) map_op list \<Rightarrow> 'm \<Rightarrow> ('e map_result list \<times> 'm) option"
where
  "run_ops ins del look [] m = Some ([], m)"
| "run_ops ins del look (Ins k e # ops) m = do {
     m \<leftarrow> ins k e m; (rs, m) \<leftarrow> run_ops ins del look ops m; Some (Done # rs, m)}"
| "run_ops ins del look (Del k # ops) m = do {
     (b, m) \<leftarrow> del k m; (rs, m) \<leftarrow> run_ops ins del look ops m; Some (Deleted b # rs, m)}"
| "run_ops ins del look (Get k # ops) m = do {
     (r, m) \<leftarrow> look k m; (rs, m) \<leftarrow> run_ops ins del look ops m; Some (Got r # rs, m)}"

fun run_map :: "('k, 'e) map_op list \<Rightarrow> ('k \<Rightarrow> 'e option) \<Rightarrow> 'e map_result list" where
  "run_map [] f = []"
| "run_map (Ins k e # ops) f = Done # run_map ops (f(k \<mapsto> e))"
| "run_map (Del k # ops) f = Deleted (f k \<noteq> None) # run_map ops (f(k := None))"
| "run_map (Get k # ops) f = Got (f k) # run_map ops f"

locale finite_map =
  fixes ins :: "'k \<Rightarrow> 'e \<Rightarrow> 'm \<Rightarrow> 'm option" and del :: "'k \<Rightarrow> 'm \<Rightarrow> (bool \<times> 'm) option"
    and look :: "'k \<Rightarrow> 'm \<Rightarrow> ('e option \<times> 'm) option" and invar :: "'m \<Rightarrow> bool" and view :: "'m \<Rightarrow> 'k \<Rightarrow> 'e option"
  assumes ins_law: "invar m \<Longrightarrow> \<exists>m'. ins k e m = Some m' \<and> invar m' \<and> view m' = (view m)(k \<mapsto> e)"
    and del_law: "invar m \<Longrightarrow> \<exists>m'. del k m = Some (view m k \<noteq> None, m') \<and> invar m' \<and> view m' = (view m)(k := None)"
    and look_law: "invar m \<Longrightarrow> \<exists>m'. look k m = Some (view m k, m') \<and> invar m' \<and> view m' = view m"
begin

lemma runs: "invar m \<Longrightarrow> \<exists>m'. run_ops ins del look ops m = Some (run_map ops (view m), m') \<and> invar m'"
proof (induction ops arbitrary: m)
  case (Cons op ops)
  show ?case
  proof (cases op)
    case (Ins k e)
    obtain m1 where m1: "ins k e m = Some m1" "invar m1" "view m1 = (view m)(k \<mapsto> e)" using ins_law [OF Cons.prems] by blast
    obtain m2 where "run_ops ins del look ops m1 = Some (run_map ops ((view m)(k \<mapsto> e)), m2)" "invar m2"
      using Cons.IH [OF m1(2)] m1(3) by metis
    then show ?thesis using m1(1) Ins by simp
  next
    case (Del k)
    obtain m1 where m1: "del k m = Some (view m k \<noteq> None, m1)" "invar m1" "view m1 = (view m)(k := None)"
      using del_law [OF Cons.prems] by blast
    obtain m2 where "run_ops ins del look ops m1 = Some (run_map ops ((view m)(k := None)), m2)" "invar m2"
      using Cons.IH [OF m1(2)] m1(3) by metis
    then show ?thesis using m1(1) Del by simp
  next
    case (Get k)
    obtain m1 where m1: "look k m = Some (view m k, m1)" "invar m1" "view m1 = view m" using look_law [OF Cons.prems] by blast
    obtain m2 where "run_ops ins del look ops m1 = Some (run_map ops (view m), m2)" "invar m2"
      using Cons.IH [OF m1(2)] m1(3) by metis
    then show ?thesis using m1(1) Get by simp
  qed
qed simp

end

definition hm_ins where
  "hm_ins rawn rawb hf k e h = map_option snd (HM_Insert rawn rawb (=) hf k e h)"

lemma FindGetPtr_map:
  assumes m: "hm_map eqf hf h" and eq: "eq_hash eqf hf"
  shows "\<exists>h'. FindGetPtr eqf hf k h = Some (contents eqf h k, h') \<and> hm_map eqf hf h' \<and> contents eqf h' = contents eqf h"
proof -
  obtain i h' where f: "HM_Find eqf hf k h = Some (i, h')" "hm_map eqf hf h'" "contents eqf h' = contents eqf h"
    "valid_list h' = valid_list h" "\<forall>x \<in> set (valid_list h). ky h' x = ky h x \<and> el h' x = el h x"
    "i = -1 \<and> contents eqf h k = None \<or> i \<in> set (valid_list h) \<and> eqf k (ky h i) \<and> contents eqf h k = Some (el h i)"
    using Find_map [OF m eq] by blast
  have "hm_inv hf h'" using f(2) by (simp add: hm_map_def)
  then have "HM_Element h' i = Some (el h i)" if "i \<in> set (valid_list h)" using valid_reads(3) that f(4,5) by metis
  moreover have "i \<noteq> -1" if "i \<in> set (valid_list h)" using that by (auto simp: valid_list_def)
  ultimately show ?thesis using f(1,2,3,6) by (auto simp: FindGetPtr_def kInvalidIndex_def)
qed

interpretation hash_map: finite_map "hm_ins rawn rawb hf" "HM_Remove (=) hf" "FindGetPtr (=) hf" "hm_map (=) hf" "contents (=)"
proof (unfold_locales, goal_cases)
  case (1 m k e)
  then show ?case
    using Insert_map [OF 1 eq_hash_eq, of rawn rawb k e True] by (auto simp: hm_ins_def HM_Insert_def fun_eq_iff)
next
  case (2 m k)
  then show ?case using Remove_map [OF 2 eq_hash_eq, of k] by (auto simp: fun_eq_iff)
next
  case (3 m k)
  then show ?case using FindGetPtr_map [OF 3 eq_hash_eq] by blast
qed

section \<open>Properties\<close>

text \<open>A map of two entries whose hashes collide.\<close>

definition sample_node :: "nat \<Rightarrow> (int, int) Node_t" where
  "sample_node _ = \<lparr>m_key = 0, m_elem = 0, m_iNextNode = 0\<rparr>"

definition sample_hash :: "(int, int) hashmap" where
  "sample_hash = the (hm_ins sample_node (\<lambda>_. 0) (\<lambda>k. k mod 16) 17 20
     (the (hm_ins sample_node (\<lambda>_. 0) (\<lambda>k. k mod 16) 1 10 (HM_new sample_node (\<lambda>_. 0) 12))))"

lemma sample_hash_map:
  "hm_map (=) (\<lambda>k. k mod 16) sample_hash" "contents (=) sample_hash = [1 \<mapsto> 10, 17 \<mapsto> 20]"
  "hm_inv (\<lambda>k. k mod 16) sample_hash"
proof -
  let ?hf = "\<lambda>k :: int. k mod 16" and ?ins = "hm_ins sample_node (\<lambda>_. 0) (\<lambda>k. k mod 16)"
  have n: "hm_map (=) ?hf (HM_new sample_node (\<lambda>_. 0) 12)" "contents (=) (HM_new sample_node (\<lambda>_. 0) 12) = Map.empty"
    using HM_new_map [of 12 "(=)" ?hf sample_node "\<lambda>_. 0"] by simp_all
  obtain h1 where h1: "?ins 1 10 (HM_new sample_node (\<lambda>_. 0) 12) = Some h1" "hm_map (=) ?hf h1" "contents (=) h1 = [1 \<mapsto> 10]"
    using hash_map.ins_law [OF n(1), of sample_node "\<lambda>_. 0" 1 10] n(2) by auto
  obtain h2 where h2: "?ins 17 20 h1 = Some h2" "hm_map (=) ?hf h2" "contents (=) h2 = [1 \<mapsto> 10, 17 \<mapsto> 20]"
    using hash_map.ins_law [OF h1(2), of sample_node "\<lambda>_. 0" 17 20] h1(3) by auto
  have "sample_hash = h2" using h1(1) h2(1) by (simp add: sample_hash_def)
  then show "hm_map (=) ?hf sample_hash" "contents (=) sample_hash = [1 \<mapsto> 10, 17 \<mapsto> 20]" "hm_inv ?hf sample_hash"
    using h2 by (simp_all add: hm_map_def)
qed

text \<open>
  C26: Whatever the hash function, a fresh hash map answers any sequence of insertions, removals and
  searches as a finite map does, although its nodes move between buckets while it grows.
\<close>

theorem HM_runs_as_map:
  assumes "0 < sizeOfNode"
  shows "\<exists>h. run_ops (hm_ins rawn rawb hf) (HM_Remove (=) hf) (FindGetPtr (=) hf) ops (HM_new rawn rawb sizeOfNode) =
    Some (run_map ops Map.empty, h) \<and> hm_map (=) hf h"
  using hash_map.runs [of hf "HM_new rawn rawb sizeOfNode" rawn rawb ops] HM_new_map [OF assms, of "(=)" hf rawn rawb] by simp

theorem HM_runs_as_map_witness:
  "\<exists>h. run_ops (hm_ins sample_node (\<lambda>_. 0) (\<lambda>k. k mod 2)) (HM_Remove (=) (\<lambda>k. k mod 2)) (FindGetPtr (=) (\<lambda>k. k mod 2))
     [Ins 1 10, Ins 3 20, Ins 1 11, Get 1, Del 3, Get 3, Del 3] (HM_new sample_node (\<lambda>_. 0) 12) =
    Some ([Done, Done, Done, Got (Some 11), Deleted True, Got None, Deleted False], h)"
  using HM_runs_as_map [of 12 sample_node "\<lambda>_. 0" "\<lambda>k. k mod 2" "[Ins 1 10, Ins 3 20, Ins 1 11, Get 1, Del 3, Get 3, Del 3]"]
  by auto

text \<open>
  C27: A search finds a key exactly if the map has it, and the node it returns holds the key and its
  element. It may move nodes between buckets but changes no index, key or element.
\<close>

theorem HM_Find_correct:
  assumes "hm_map eqf hf h" "eq_hash eqf hf"
  shows "\<exists>i h'. HM_Find eqf hf key h = Some (i, h') \<and> hm_map eqf hf h' \<and> contents eqf h' = contents eqf h \<and>
    (\<forall>x. HM_IsValidIndex h' x = HM_IsValidIndex h x \<and>
       (HM_IsValidIndex h x = Some True \<longrightarrow> HM_Key h' x = HM_Key h x \<and> HM_Element h' x = HM_Element h x)) \<and>
    (if contents eqf h key = None then i = kInvalidIndex
     else HM_IsValidIndex h i = Some True \<and> (\<exists>k. HM_Key h i = Some k \<and> eqf key k) \<and> HM_Element h i = contents eqf h key)"
proof -
  obtain i h' where f: "HM_Find eqf hf key h = Some (i, h')" "hm_map eqf hf h'" "contents eqf h' = contents eqf h"
    "valid_list h' = valid_list h" "\<forall>x \<in> set (valid_list h). ky h' x = ky h x \<and> el h' x = el h x"
    "i = -1 \<and> contents eqf h key = None \<or>
     i \<in> set (valid_list h) \<and> eqf key (ky h i) \<and> contents eqf h key = Some (el h i)"
    using Find_map [OF assms] by blast
  have "hm_inv hf h" "hm_inv hf h'" using assms(1) f(2) by (simp_all add: hm_map_def)
  note r = valid_reads [OF this(1)] valid_reads [OF this(2)]
  show ?thesis using f r by (auto simp: kInvalidIndex_def)
qed

theorem HM_Find_correct_witness:
  "\<exists>i h'. HM_Find (=) (\<lambda>k. k mod 16) 17 sample_hash = Some (i, h') \<and> HM_Element sample_hash i = Some 20"
  using HM_Find_correct [OF sample_hash_map(1) eq_hash_eq, of 17] by (auto simp: sample_hash_map(2))

text \<open>
  C28: \<open>Insert\<close> updates the map at the key; \<open>FindOrInsert\<close> leaves the element of a key that is there.
  Both return a valid index that holds what the map now has for the key, and the count grows by one
  exactly for a new key.
\<close>

theorem HM_Insert_correct:
  assumes "hm_map eqf hf h" "eq_hash eqf hf"
  shows "(\<exists>i h'. HM_Insert rawn rawb eqf hf key e h = Some (i, h') \<and> hm_map eqf hf h' \<and>
      contents eqf h' = (\<lambda>k. if eqf k key then Some e else contents eqf h k) \<and>
      HM_IsValidIndex h' i = Some True \<and> HM_Element h' i = Some e \<and>
      HM_Count h' = HM_Count h + (if contents eqf h key = None then 1 else 0)) \<and>
    (\<exists>i h'. HM_FindOrInsert rawn rawb eqf hf key e h = Some (i, h') \<and> hm_map eqf hf h' \<and>
      contents eqf h' = (\<lambda>k. if eqf k key \<and> contents eqf h key = None then Some e else contents eqf h k) \<and>
      HM_IsValidIndex h' i = Some True \<and> HM_Element h' i = Some (case contents eqf h key of None \<Rightarrow> e | Some e' \<Rightarrow> e') \<and>
      HM_Count h' = HM_Count h + (if contents eqf h key = None then 1 else 0))"
  using Insert_map [OF assms, of rawn rawb key e True] Insert_map [OF assms, of rawn rawb key e False] eq_hashD(1) [OF assms(2), of key]
  by (auto simp: HM_Insert_def HM_FindOrInsert_def split: option.splits)

theorem HM_Insert_correct_witness:
  "\<exists>i h'. HM_FindOrInsert sample_node (\<lambda>_. 0) (=) (\<lambda>k. k mod 16) 17 5 sample_hash = Some (i, h') \<and> contents (=) h' 17 = Some 20"
  using HM_Insert_correct [OF sample_hash_map(1) eq_hash_eq, of sample_node "\<lambda>_. 0" 17 5] by (auto simp: sample_hash_map(2))

text \<open>
  C29: \<open>Remove\<close> says whether the key was there and takes it out of the map; \<open>RemoveAt\<close> takes out the
  node of a valid index and nothing else, and does nothing for an invalid one.
\<close>

theorem HM_Remove_correct:
  assumes "hm_map eqf hf h" "eq_hash eqf hf"
  shows "(\<exists>h'. HM_Remove eqf hf key h = Some (contents eqf h key \<noteq> None, h') \<and> hm_map eqf hf h' \<and>
      contents eqf h' = (\<lambda>k. if eqf k key then None else contents eqf h k) \<and>
      HM_Count h' = HM_Count h - (if contents eqf h key = None then 0 else 1)) \<and>
    (\<exists>h'. HM_RemoveAt hf i h = Some h' \<and> hm_inv hf h' \<and> set (valid_list h') = set (valid_list h) - {i} \<and>
      (\<forall>x \<in> set (valid_list h'). HM_Key h' x = HM_Key h x \<and> HM_Element h' x = HM_Element h x))"
proof (intro conjI)
  show "\<exists>h'. HM_Remove eqf hf key h = Some (contents eqf h key \<noteq> None, h') \<and> hm_map eqf hf h' \<and>
      contents eqf h' = (\<lambda>k. if eqf k key then None else contents eqf h k) \<and>
      HM_Count h' = HM_Count h - (if contents eqf h key = None then 0 else 1)" by (rule Remove_map [OF assms])
  have i: "hm_inv hf h" using assms(1) by (simp add: hm_map_def)
  show "\<exists>h'. HM_RemoveAt hf i h = Some h' \<and> hm_inv hf h' \<and> set (valid_list h') = set (valid_list h) - {i} \<and>
      (\<forall>x \<in> set (valid_list h'). HM_Key h' x = HM_Key h x \<and> HM_Element h' x = HM_Element h x)"
  proof (cases "i \<in> set (valid_list h)")
    case True
    obtain h' where h': "HM_RemoveAt hf i h = Some h'" "hm_inv hf h'" "set (valid_list h') = set (valid_list h) - {i}"
      "\<forall>k \<in> set (valid_list h) - {i}. ky h' k = ky h k \<and> el h' k = el h k" using RemoveAt_inv [OF i True] by blast
    then show ?thesis using valid_reads [OF i] valid_reads [OF h'(2)] by auto
  next
    case False
    then have "HM_RemoveAt hf i h = Some h" using valid_reads(1) [OF i, of i] by (simp add: HM_RemoveAt_def)
    then show ?thesis using False i by auto
  qed
qed

theorem HM_Remove_correct_witness:
  "\<exists>h'. HM_Remove (=) (\<lambda>k. k mod 16) 1 sample_hash = Some (True, h') \<and> contents (=) h' 1 = None \<and> contents (=) h' 17 = Some 20"
  using HM_Remove_correct [OF sample_hash_map(1) eq_hash_eq, of 1 0] by (auto simp: sample_hash_map(2))

text \<open>
  \<open>RemoveAll\<close> and \<open>Purge\<close> leave a map that has no key, from which it can be filled again;
  \<open>RemoveAll\<close> keeps the buckets.
\<close>

theorem HM_RemoveAll_correct:
  assumes "hm_inv hf h"
  shows "(\<exists>h'. HM_RemoveAll h = Some h' \<and> hm_map eqf hf h' \<and> contents eqf h' = Map.empty \<and> HM_Count h' = 0 \<and>
      bucket_count h' = bucket_count h) \<and>
    hm_map eqf hf (HM_Purge h) \<and> contents eqf (HM_Purge h) = Map.empty \<and> HM_Count (HM_Purge h) = 0"
  using RemoveAll_map [OF assms] Purge_map [OF assms] by (auto simp: HM_Count_def HM_Purge_def)

theorem HM_RemoveAll_correct_witness:
  "\<exists>h'. HM_RemoveAll sample_hash = Some h' \<and> HM_Count h' = 0"
  using HM_RemoveAll_correct [OF sample_hash_map(3), of "(=)"] by blast

text \<open>
  C30: The iteration ends, and visits every valid index once, in increasing order, as many as the
  count says.
\<close>

theorem HM_IterItems_correct:
  assumes "hm_inv hf h"
  shows "\<exists>xs. IterItems h = Some xs \<and> sorted xs \<and> distinct xs \<and> int (length xs) = HM_Count h \<and>
    (\<forall>i. i \<in> set xs \<longleftrightarrow> HM_IsValidIndex h i = Some True)"
  using IterItems_result [OF assms] Count_valid [OF assms] valid_reads(1) [OF assms] by simp

theorem HM_IterItems_correct_witness: "\<exists>xs. IterItems sample_hash = Some xs \<and> distinct xs"
  using HM_IterItems_correct [OF sample_hash_map(3)] by blast

text \<open>
  With duplicate keys: \<open>InsertWithDupes\<close> always adds a node that was not valid before, and \<open>FindExact\<close>
  finds a node with the key and the element exactly if there is one.
\<close>

theorem HM_duplicates_correct:
  assumes "hm_inv hf h" "eq_hash eqf hf"
  shows "(\<exists>i h'. InsertWithDupes_Internal rawn rawb eqf hf key e h = Some (i, h') \<and> hm_inv hf h' \<and>
      i \<notin> set (valid_list h) \<and> set (valid_list h') = insert i (set (valid_list h)) \<and>
      HM_Key h' i = Some key \<and> HM_Element h' i = Some e \<and>
      (\<forall>x \<in> set (valid_list h). HM_Key h' x = HM_Key h x \<and> HM_Element h' x = HM_Element h x)) \<and>
    (\<exists>i h'. FindExact eqf hf key e h = Some (i, h') \<and> hm_inv hf h' \<and>
      (if \<exists>x \<in> set (valid_list h). \<exists>k. HM_Key h x = Some k \<and> eqf key k \<and> HM_Element h x = Some e
       then i \<in> set (valid_list h) \<and> HM_Element h i = Some e \<and> (\<exists>k. HM_Key h i = Some k \<and> eqf key k)
       else i = kInvalidIndex))"
proof (intro conjI)
  obtain i h' where h': "InsertWithDupes_Internal rawn rawb eqf hf key e h = Some (i, h')" "hm_inv hf h'"
    "i \<notin> set (valid_list h)" "set (valid_list h') = insert i (set (valid_list h))" "ky h' i = key" "el h' i = e"
    "\<forall>k \<in> set (valid_list h). ky h' k = ky h k \<and> el h' k = el h k"
    using InsertWithDupes_result [OF assms] by blast
  then show "\<exists>i h'. InsertWithDupes_Internal rawn rawb eqf hf key e h = Some (i, h') \<and> hm_inv hf h' \<and>
      i \<notin> set (valid_list h) \<and> set (valid_list h') = insert i (set (valid_list h)) \<and>
      HM_Key h' i = Some key \<and> HM_Element h' i = Some e \<and>
      (\<forall>x \<in> set (valid_list h). HM_Key h' x = HM_Key h x \<and> HM_Element h' x = HM_Element h x)"
  proof -
    have "HM_Key h' x = HM_Key h x \<and> HM_Element h' x = HM_Element h x" if x: "x \<in> set (valid_list h)" for x
      using valid_reads(2,3) [OF assms(1) x] valid_reads(2,3) [OF h'(2), of x] h'(4,7) x by simp
    moreover have "HM_Key h' i = Some key" "HM_Element h' i = Some e"
      using valid_reads(2,3) [OF h'(2), of i] h'(4-6) by simp_all
    ultimately show ?thesis using h'(1-4) by blast
  qed
next
  obtain i h' where h': "FindExact eqf hf key e h = Some (i, h')" "hm_inv hf h'"
    "i = -1 \<and> (\<forall>k \<in> set (valid_list h). \<not> (eqf key (ky h k) \<and> el h k = e)) \<or>
     i \<in> set (valid_list h) \<and> eqf key (ky h i) \<and> el h i = e"
    using FindExact_result [OF assms, of key e] by (elim exE conjE) (rule that, assumption+)
  then show "\<exists>i h'. FindExact eqf hf key e h = Some (i, h') \<and> hm_inv hf h' \<and>
      (if \<exists>x \<in> set (valid_list h). \<exists>k. HM_Key h x = Some k \<and> eqf key k \<and> HM_Element h x = Some e
       then i \<in> set (valid_list h) \<and> HM_Element h i = Some e \<and> (\<exists>k. HM_Key h i = Some k \<and> eqf key k)
       else i = kInvalidIndex)"
  proof -
    have eq: "(\<exists>k. HM_Key h x = Some k \<and> eqf key k \<and> HM_Element h x = Some e) \<longleftrightarrow> eqf key (ky h x) \<and> el h x = e"
      if "x \<in> set (valid_list h)" for x using valid_reads(2,3) [OF assms(1) that] by auto
    from h'(3) show ?thesis
    proof (elim disjE conjE)
      assume "i = -1" "\<forall>k \<in> set (valid_list h). \<not> (eqf key (ky h k) \<and> el h k = e)"
      then have ne: "\<not> (\<exists>x \<in> set (valid_list h). \<exists>k. HM_Key h x = Some k \<and> eqf key k \<and> HM_Element h x = Some e)"
        using eq by blast
      then show ?thesis unfolding if_not_P [OF ne] using h'(1,2) \<open>i = -1\<close> by (simp add: kInvalidIndex_def)
    next
      assume i: "i \<in> set (valid_list h)" "eqf key (ky h i)" "el h i = e"
      then have ex: "\<exists>x \<in> set (valid_list h). \<exists>k. HM_Key h x = Some k \<and> eqf key k \<and> HM_Element h x = Some e"
        using eq by blast
      show ?thesis unfolding if_P [OF ex] using h'(1,2) i valid_reads(2,3) [OF assms(1) i(1)] by simp
    qed
  qed
qed

theorem HM_duplicates_correct_witness:
  "\<exists>i h'. InsertWithDupes_Internal sample_node (\<lambda>_. 0) (=) (\<lambda>k. k mod 16) 17 99 sample_hash = Some (i, h') \<and> HM_Element h' i = Some 99"
  using HM_duplicates_correct [OF sample_hash_map(3) eq_hash_eq, of sample_node "\<lambda>_. 0" 17 99] by blast

text \<open>
  Growing to a capacity makes a power of two of buckets, at least as many as asked for, and
  changes neither the map nor a valid index; a full copy into another map gives the same map.
\<close>

theorem HM_grow_and_copy_correct:
  assumes "hm_map eqf hf h" "eq_hash eqf hf" "hm_inv hf t"
  shows "(\<exists>h'. HM_EnsureCapacity rawn rawb amount h = Some h' \<and> hm_map eqf hf h' \<and> valid_list h' = valid_list h \<and>
      contents eqf h' = contents eqf h \<and> amount \<le> bucket_count h' \<and>
      (bucket_count h' = 0 \<or> (\<exists>n. bucket_count h' = 2 ^ n))) \<and>
    (\<exists>t'. CopyFullHashMap rawn rawb eqf hf h t = Some t' \<and> hm_map eqf hf t' \<and>
      contents eqf t' = contents eqf h)"
  using EnsureCapacity_map [of hf h rawn rawb amount eqf] CopyFullHashMap_result [OF assms(1,3,2), of rawn rawb] assms(1)
  by (auto simp: hm_map_def)

theorem HM_grow_and_copy_correct_witness:
  "\<exists>h' t'. HM_EnsureCapacity sample_node (\<lambda>_. 0) 100 sample_hash = Some h' \<and> 100 \<le> bucket_count h' \<and>
    CopyFullHashMap sample_node (\<lambda>_. 0) (=) (\<lambda>k. k mod 16) sample_hash sample_hash = Some t' \<and> contents (=) t' 1 = Some 10"
  using HM_grow_and_copy_correct [OF sample_hash_map(1) eq_hash_eq sample_hash_map(3), of sample_node "\<lambda>_. 0" 100]
  by (auto simp: sample_hash_map(2))

end
