(* ===== verification/SnpGaps.thy ===== *)
theory SnpGaps
  imports Prelude
begin

text \<open>
  The receiver's record of packet gaps: \<open>SSNPReceiverState\<close> and \<open>SNP_RecordReceivedPktNum\<close> of
  \<open>src/GameNetworkingSockets/src/steamnetworkingsockets/clientlib/steamnetworkingsockets_snp.h\<close> and
  \<open>steamnetworkingsockets_snp.cpp\<close>, with the steps of \<open>ProcessPlainTextDataChunk\<close> (the
  \<open>stop_waiting\<close> frame) and \<open>SNP_SerializeAckBlocks\<close> that change the same state.

  \<open>std::map<int64,SSNPPacketGap>\<close> is the list of its nodes in the order of their keys; the key of a
  node is the field \<open>m_nBegin\<close>. An iterator is the position of its node. The nodes of a
  \<open>std::map\<close> do not move, so \<open>map_insert\<close> and \<open>map_erase\<close> shift the two iterators the state
  holds; erasing the node one of them points to leaves it dangling, and walking off either end is
  undefined: both are the result \<open>None\<close>. Times and packet numbers are unbounded integers; the value
  \<open>INT64_MAX\<close>, which the code uses for \<open>never\<close>, bounds them in the invariant.
\<close>

subsection \<open>State\<close>

record SSNPPacketGap =
  m_nBegin :: int
  m_nEnd :: int
  m_usecWhenReceivedPktBefore :: int
  m_usecWhenAckPrior :: int
  m_usecWhenOKToNack :: int

record SSNPReceiverState =
  m_mapPacketGaps :: "SSNPPacketGap list"
  m_nMinPktNumToSendAcks :: int
  m_nPktNumUpdatedMinPktNumToSendAcks :: int
  m_itPendingAck :: nat
  m_itPendingNack :: nat

definition INT64_MAX :: int where
  "INT64_MAX = 2 ^ 63 - 1"

definition k_usecMaxDataAckDelay :: int where
  "k_usecMaxDataAckDelay = 50 * 1000"

definition k_usecNackFlush :: int where
  "k_usecNackFlush = 3 * 1000"

definition k_nMaxPacketGaps :: nat where
  "k_nMaxPacketGaps = 62"

subsection \<open>The map and its iterators\<close>

definition gap_at :: "SSNPPacketGap list \<Rightarrow> nat \<Rightarrow> SSNPPacketGap option" where
  "gap_at gs i = (if i < length gs then Some (gs ! i) else None)"

definition upd_gap ::
  "nat \<Rightarrow> (SSNPPacketGap \<Rightarrow> SSNPPacketGap) \<Rightarrow> SSNPPacketGap list \<Rightarrow> SSNPPacketGap list option" where
  "upd_gap i f gs = (if i < length gs then Some (gs[i := f (gs ! i)]) else None)"

definition set_ack :: "int \<Rightarrow> SSNPPacketGap \<Rightarrow> SSNPPacketGap" where
  "set_ack t g = g\<lparr>m_usecWhenAckPrior := t\<rparr>"

definition sentinel_pos :: "SSNPPacketGap list \<Rightarrow> nat option" where
  "sentinel_pos gs = (if gs = [] then None else Some (length gs - 1))"

definition upper_bound :: "int \<Rightarrow> SSNPPacketGap list \<Rightarrow> nat" where
  "upper_bound k gs = length (takeWhile (\<lambda>g. m_nBegin g \<le> k) gs)"

definition map_insert :: "SSNPPacketGap \<Rightarrow> SSNPReceiverState \<Rightarrow> SSNPReceiverState \<times> nat" where
  "map_insert g s =
     (let gs = m_mapPacketGaps s;
          p = length (takeWhile (\<lambda>h. m_nBegin h < m_nBegin g) gs)
      in if p < length gs \<and> m_nBegin (gs ! p) = m_nBegin g then (s, p)
         else (s\<lparr>m_mapPacketGaps := take p gs @ g # drop p gs,
                 m_itPendingAck := (if p \<le> m_itPendingAck s then m_itPendingAck s + 1 else m_itPendingAck s),
                 m_itPendingNack := (if p \<le> m_itPendingNack s then m_itPendingNack s + 1 else m_itPendingNack s)\<rparr>, p))"

definition map_erase :: "nat \<Rightarrow> SSNPReceiverState \<Rightarrow> SSNPReceiverState option" where
  "map_erase p s =
     (let gs = m_mapPacketGaps s
      in if p \<ge> length gs \<or> m_itPendingAck s = p \<or> m_itPendingNack s = p then None
         else Some (s\<lparr>m_mapPacketGaps := take p gs @ drop (p + 1) gs,
                 m_itPendingAck := (if p < m_itPendingAck s then m_itPendingAck s - 1 else m_itPendingAck s),
                 m_itPendingNack := (if p < m_itPendingNack s then m_itPendingNack s - 1 else m_itPendingNack s)\<rparr>))"

subsection \<open>Start\<close>

definition InitPacketGapMap :: "int \<Rightarrow> int \<Rightarrow> SSNPReceiverState \<Rightarrow> SSNPReceiverState" where
  "InitPacketGapMap nMaxRecvPktNum usecRecvTime s =
     s\<lparr>m_mapPacketGaps := [\<lparr>m_nBegin = nMaxRecvPktNum + 1, m_nEnd = INT64_MAX,
         m_usecWhenReceivedPktBefore = usecRecvTime, m_usecWhenAckPrior = INT64_MAX,
         m_usecWhenOKToNack = INT64_MAX\<rparr>],
       m_itPendingAck := 0, m_itPendingNack := 0\<rparr>"

definition ReceiverState_new :: SSNPReceiverState where
  "ReceiverState_new =
     InitPacketGapMap 0 0 \<lparr>m_mapPacketGaps = [], m_nMinPktNumToSendAcks = 0,
       m_nPktNumUpdatedMinPktNumToSendAcks = 0, m_itPendingAck = 0, m_itPendingNack = 0\<rparr>"

definition TimeWhenFlushAcks :: "SSNPReceiverState \<Rightarrow> int option" where
  "TimeWhenFlushAcks s =
     (if m_mapPacketGaps s = [] then Some INT64_MAX
      else map_option m_usecWhenAckPrior (gap_at (m_mapPacketGaps s) (m_itPendingAck s)))"

subsection \<open>Schedules\<close>

text \<open>\<open>do { it->m_usecWhenAckPrior = INT64_MAX; ++it; } while ( it != itEnd );\<close>\<close>

function clear_until :: "nat \<Rightarrow> nat \<Rightarrow> SSNPPacketGap list \<Rightarrow> SSNPPacketGap list option" where
  "clear_until it itEnd gs =
     (if it < length gs then
        let gs = gs[it := set_ack INT64_MAX (gs ! it)]
        in if it + 1 = itEnd then Some gs else clear_until (it + 1) itEnd gs
      else None)"
  by pat_completeness auto
termination
  by (relation "measure (\<lambda>(it, itEnd, gs). length gs - it)") auto

declare clear_until.simps [simp del]

text \<open>\<open>while ( p( (--it)->m_usecWhenAckPrior ) ) it->m_usecWhenAckPrior = t;\<close>\<close>

fun lower_while :: "(int \<Rightarrow> bool) \<Rightarrow> int \<Rightarrow> nat \<Rightarrow> SSNPPacketGap list \<Rightarrow> SSNPPacketGap list option" where
  "lower_while p t 0 gs = None"
| "lower_while p t (Suc it) gs =
     (if it < length gs then
        if p (m_usecWhenAckPrior (gs ! it)) then lower_while p t it (gs[it := set_ack t (gs ! it)])
        else Some gs
      else None)"

text \<open>\<open>while ( --it != itGap ) it->m_usecWhenAckPrior = t;\<close>\<close>

fun back_up_to :: "nat \<Rightarrow> int \<Rightarrow> nat \<Rightarrow> SSNPPacketGap list \<Rightarrow> SSNPPacketGap list option" where
  "back_up_to itGap t 0 gs = None"
| "back_up_to itGap t (Suc it) gs =
     (if it = itGap then Some gs
      else if it < length gs then back_up_to itGap t it (gs[it := set_ack t (gs ! it)])
      else None)"

definition QueueFlushAllAcks :: "int \<Rightarrow> SSNPReceiverState \<Rightarrow> SSNPReceiverState option" where
  "QueueFlushAllAcks usecWhen s =
     do {
       it \<leftarrow> sentinel_pos (m_mapPacketGaps s);
       sentinel \<leftarrow> gap_at (m_mapPacketGaps s) it;
       if m_usecWhenAckPrior sentinel \<le> usecWhen then Some s
       else do {
         gs \<leftarrow> upd_gap it (set_ack usecWhen) (m_mapPacketGaps s);
         if m_itPendingAck s = it then Some (s\<lparr>m_mapPacketGaps := gs\<rparr>)
         else do {
           pending \<leftarrow> gap_at gs (m_itPendingAck s);
           if m_usecWhenAckPrior pending \<ge> usecWhen then do {
             gs \<leftarrow> clear_until (m_itPendingAck s) it gs;
             Some (s\<lparr>m_mapPacketGaps := gs, m_itPendingAck := it\<rparr>)
           }
           else do {
             gs \<leftarrow> lower_while (\<lambda>t. t \<ge> usecWhen) usecWhen it gs;
             Some (s\<lparr>m_mapPacketGaps := gs\<rparr>)
           }
         }
       }
     }"

subsection \<open>Recording a packet\<close>

text \<open>The packet is the one expected next.\<close>

definition record_in_order :: "int \<Rightarrow> int \<Rightarrow> bool \<Rightarrow> SSNPReceiverState \<Rightarrow> SSNPReceiverState option" where
  "record_in_order nPktNum usecNow bScheduleAck s =
     do {
       itSentinel \<leftarrow> sentinel_pos (m_mapPacketGaps s);
       gs \<leftarrow> upd_gap itSentinel (\<lambda>g. g\<lparr>m_nBegin := nPktNum + 1, m_usecWhenReceivedPktBefore := usecNow\<rparr>)
               (m_mapPacketGaps s);
       let s = s\<lparr>m_mapPacketGaps := gs\<rparr>;
       if bScheduleAck then QueueFlushAllAcks (usecNow + k_usecMaxDataAckDelay) s else Some s
     }"

text \<open>The packet is beyond the one expected next, so a gap appears.\<close>

definition record_ahead :: "int \<Rightarrow> int \<Rightarrow> int \<Rightarrow> int \<Rightarrow> SSNPReceiverState \<Rightarrow> SSNPReceiverState option" where
  "record_ahead nMaxRecvPktNum nPktNum usecNow usecScheduleAck s =
     do {
       itSentinel \<leftarrow> sentinel_pos (m_mapPacketGaps s);
       sentinel \<leftarrow> gap_at (m_mapPacketGaps s) itSentinel;
       let x = \<lparr>m_nBegin = m_nBegin sentinel, m_nEnd = nPktNum,
                m_usecWhenReceivedPktBefore = m_usecWhenReceivedPktBefore sentinel,
                m_usecWhenAckPrior = m_usecWhenAckPrior sentinel,
                m_usecWhenOKToNack =
                  (if nPktNum < nMaxRecvPktNum + 3 then usecNow + k_usecNackFlush else usecNow)\<rparr>;
       gs \<leftarrow> upd_gap itSentinel (\<lambda>g. g\<lparr>m_nBegin := nPktNum + 1, m_usecWhenReceivedPktBefore := usecNow\<rparr>)
               (m_mapPacketGaps s);
       let (s, iter) = map_insert x (s\<lparr>m_mapPacketGaps := gs\<rparr>);
       pendingNack \<leftarrow> gap_at (m_mapPacketGaps s) (m_itPendingNack s);
       let s = (if m_nEnd pendingNack = INT64_MAX then s\<lparr>m_itPendingNack := iter\<rparr> else s);
       pendingAck \<leftarrow> gap_at (m_mapPacketGaps s) (m_itPendingAck s);
       let s = (if m_nEnd pendingAck = INT64_MAX \<and> m_usecWhenAckPrior pendingAck < INT64_MAX
                then s\<lparr>m_itPendingAck := iter\<rparr> else s);
       QueueFlushAllAcks usecScheduleAck s
     }"

text \<open>The gap that holds the packet, if there is one.\<close>

definition find_gap :: "int \<Rightarrow> SSNPPacketGap list \<Rightarrow> nat option" where
  "find_gap nPktNum gs =
     (let itGap = upper_bound nPktNum gs
      in if itGap = length gs \<or> itGap = 0 then None
         else let g = gs ! (itGap - 1)
              in if m_nBegin g > nPktNum \<or> m_nEnd g \<le> nPktNum then None else Some (itGap - 1))"

text \<open>The four ways a packet can fill a gap. Each returns the position whose schedule is to be looked at
  next, and the first one also the time, which may become earlier.\<close>

definition fill_single_gap ::
  "nat \<Rightarrow> int \<Rightarrow> SSNPReceiverState \<Rightarrow> (SSNPReceiverState \<times> nat \<times> int) option" where
  "fill_single_gap itGap usecScheduleAck s =
     do {
       g \<leftarrow> gap_at (m_mapPacketGaps s) itGap;
       let usecScheduleAck = min usecScheduleAck (m_usecWhenAckPrior g);
       let s = (if m_itPendingAck s = itGap then s\<lparr>m_itPendingAck := m_itPendingAck s + 1\<rparr> else s);
       let s = (if m_itPendingNack s = itGap then s\<lparr>m_itPendingNack := m_itPendingNack s + 1\<rparr> else s);
       let usecWhenAckPrior = m_usecWhenAckPrior g;
       s \<leftarrow> map_erase itGap s;
       next_gap \<leftarrow> gap_at (m_mapPacketGaps s) itGap;
       if usecWhenAckPrior < m_usecWhenAckPrior next_gap then do {
         gs \<leftarrow> upd_gap itGap (set_ack usecWhenAckPrior) (m_mapPacketGaps s);
         Some (s\<lparr>m_mapPacketGaps := gs\<rparr>, itGap, usecScheduleAck)
       }
       else do {
         pending \<leftarrow> gap_at (m_mapPacketGaps s) (m_itPendingAck s);
         if m_usecWhenAckPrior pending = INT64_MAX then do {
           itSentinel \<leftarrow> sentinel_pos (m_mapPacketGaps s);
           Some (s\<lparr>m_itPendingAck := itSentinel\<rparr>, itGap, usecScheduleAck)
         }
         else Some (s, itGap, usecScheduleAck)
       }
     }"

definition fill_last :: "nat \<Rightarrow> SSNPReceiverState \<Rightarrow> (SSNPReceiverState \<times> nat) option" where
  "fill_last itGap s =
     do {
       gs \<leftarrow> upd_gap itGap (\<lambda>g. g\<lparr>m_nEnd := m_nEnd g - 1\<rparr>) (m_mapPacketGaps s);
       Some (s\<lparr>m_mapPacketGaps := gs\<rparr>, itGap + 1)
     }"

definition fill_first :: "nat \<Rightarrow> int \<Rightarrow> SSNPReceiverState \<Rightarrow> (SSNPReceiverState \<times> nat) option" where
  "fill_first itGap usecNow s =
     do {
       gs \<leftarrow> upd_gap itGap (\<lambda>g. g\<lparr>m_nBegin := m_nBegin g + 1, m_usecWhenReceivedPktBefore := usecNow\<rparr>)
               (m_mapPacketGaps s);
       Some (s\<lparr>m_mapPacketGaps := gs\<rparr>, itGap)
     }"

definition fill_middle :: "nat \<Rightarrow> int \<Rightarrow> int \<Rightarrow> SSNPReceiverState \<Rightarrow> (SSNPReceiverState \<times> nat) option" where
  "fill_middle itGap nPktNum usecNow s =
     do {
       g \<leftarrow> gap_at (m_mapPacketGaps s) itGap;
       next_gap \<leftarrow> gap_at (m_mapPacketGaps s) (itGap + 1);
       let upper = \<lparr>m_nBegin = nPktNum + 1, m_nEnd = m_nEnd g, m_usecWhenReceivedPktBefore = usecNow,
             m_usecWhenAckPrior = (if itGap + 1 = m_itPendingAck s then INT64_MAX else m_usecWhenAckPrior next_gap),
             m_usecWhenOKToNack = m_usecWhenOKToNack g\<rparr>;
       gs \<leftarrow> upd_gap itGap (\<lambda>g. g\<lparr>m_nEnd := nPktNum\<rparr>) (m_mapPacketGaps s);
       Some (map_insert upper (s\<lparr>m_mapPacketGaps := gs\<rparr>))
     }"

definition fill_gap ::
  "nat \<Rightarrow> int \<Rightarrow> int \<Rightarrow> int \<Rightarrow> SSNPReceiverState \<Rightarrow> (SSNPReceiverState \<times> nat \<times> int) option" where
  "fill_gap itGap nPktNum usecNow usecScheduleAck s =
     do {
       g \<leftarrow> gap_at (m_mapPacketGaps s) itGap;
       if m_nEnd g - 1 = nPktNum then
         if m_nBegin g = nPktNum then fill_single_gap itGap usecScheduleAck s
         else do { (s, it) \<leftarrow> fill_last itGap s; Some (s, it, usecScheduleAck) }
       else if m_nBegin g = nPktNum then do { (s, it) \<leftarrow> fill_first itGap usecNow s; Some (s, it, usecScheduleAck) }
       else do { (s, it) \<leftarrow> fill_middle itGap nPktNum usecNow s; Some (s, it, usecScheduleAck) }
     }"

text \<open>Schedule an ack of the packets before the gap \<open>itGap\<close>, if it is not scheduled earlier.\<close>

definition schedule_ack :: "nat \<Rightarrow> int \<Rightarrow> SSNPReceiverState \<Rightarrow> SSNPReceiverState option" where
  "schedule_ack itGap usecScheduleAck s =
     do {
       let gs = m_mapPacketGaps s;
       let a = m_itPendingAck s;
       g \<leftarrow> gap_at gs itGap;
       if usecScheduleAck < m_usecWhenAckPrior g then do {
         pending \<leftarrow> gap_at gs a;
         if usecScheduleAck \<le> m_usecWhenAckPrior pending then do {
           gs \<leftarrow> upd_gap itGap (set_ack usecScheduleAck) gs;
           if m_nBegin pending \<le> m_nBegin g then
             if a = itGap then Some (s\<lparr>m_mapPacketGaps := gs\<rparr>)
             else do {
               gs \<leftarrow> clear_until a itGap gs;
               Some (s\<lparr>m_mapPacketGaps := gs, m_itPendingAck := itGap\<rparr>)
             }
           else do {
             gs \<leftarrow> back_up_to itGap (m_usecWhenAckPrior pending) a gs;
             Some (s\<lparr>m_mapPacketGaps := gs, m_itPendingAck := itGap\<rparr>)
           }
         }
         else if m_nBegin g < m_nBegin pending then Some s
         else do {
           gs \<leftarrow> upd_gap itGap (set_ack usecScheduleAck) gs;
           gs \<leftarrow> lower_while (\<lambda>t. t > usecScheduleAck) usecScheduleAck itGap gs;
           Some (s\<lparr>m_mapPacketGaps := gs\<rparr>)
         }
       }
       else Some s
     }"

text \<open>
  Too many gaps: of the first ten, find the two with the fewest received packets between them, and
  merge them.
\<close>

fun probe_gaps :: "nat \<Rightarrow> nat \<Rightarrow> nat \<Rightarrow> int \<Rightarrow> SSNPPacketGap list \<Rightarrow> (nat \<times> int) option" where
  "probe_gaps 0 itProbe itGapToExtend nBestNewNacks gs = Some (itGapToExtend, nBestNewNacks)"
| "probe_gaps (Suc n) itProbe itGapToExtend nBestNewNacks gs =
     do {
       next_gap \<leftarrow> gap_at gs (itProbe + 1);
       probe \<leftarrow> gap_at gs itProbe;
       let nNewNacks = m_nBegin next_gap - m_nEnd probe;
       if nNewNacks < nBestNewNacks then probe_gaps n (itProbe + 1) itProbe nNewNacks gs
       else probe_gaps n (itProbe + 1) itGapToExtend nBestNewNacks gs
     }"

definition merge_gaps :: "nat \<Rightarrow> SSNPReceiverState \<Rightarrow> SSNPReceiverState option" where
  "merge_gaps itGapToExtend s =
     do {
       let itGapToDelete = itGapToExtend + 1;
       let itGapNext = itGapToDelete + 1;
       d \<leftarrow> gap_at (m_mapPacketGaps s) itGapToDelete;
       gs \<leftarrow> upd_gap itGapNext (\<lambda>g. g\<lparr>m_usecWhenReceivedPktBefore := m_usecWhenReceivedPktBefore d,
                m_usecWhenOKToNack := m_usecWhenOKToNack d\<rparr>) (m_mapPacketGaps s);
       gs \<leftarrow> (if m_usecWhenAckPrior d < INT64_MAX then upd_gap itGapNext (set_ack (m_usecWhenAckPrior d)) gs
               else Some gs);
       let s = s\<lparr>m_mapPacketGaps := gs\<rparr>;
       let s = (if m_usecWhenAckPrior d < INT64_MAX \<and> itGapToDelete = m_itPendingAck s
                then s\<lparr>m_itPendingAck := m_itPendingAck s + 1\<rparr> else s);
       let s = (if itGapToDelete = m_itPendingNack s then s\<lparr>m_itPendingNack := m_itPendingNack s + 1\<rparr> else s);
       gs \<leftarrow> upd_gap itGapToExtend (\<lambda>g. g\<lparr>m_nEnd := m_nEnd d\<rparr>) (m_mapPacketGaps s);
       map_erase itGapToDelete (s\<lparr>m_mapPacketGaps := gs\<rparr>)
     }"

definition limit_gaps :: "SSNPReceiverState \<Rightarrow> SSNPReceiverState option" where
  "limit_gaps s =
     (if length (m_mapPacketGaps s) \<ge> k_nMaxPacketGaps then do {
        (itGapToExtend, nBestNewNacks) \<leftarrow> probe_gaps 10 0 0 INT64_MAX (m_mapPacketGaps s);
        merge_gaps itGapToExtend s
      }
      else Some s)"

text \<open>
  The second component is the time the connection asks to be woken up at
  (\<open>EnsureMinThinkTime\<close>), if it asks. \<open>nMaxRecvPktNum\<close> is \<open>m_statsEndToEnd.m_nMaxRecvPktNum\<close>.
\<close>

definition SNP_RecordReceivedPktNum ::
  "int \<Rightarrow> int \<Rightarrow> int \<Rightarrow> bool \<Rightarrow> SSNPReceiverState \<Rightarrow> (SSNPReceiverState \<times> int option) option" where
  "SNP_RecordReceivedPktNum nMaxRecvPktNum nPktNum usecNow bScheduleAck s =
     (if nPktNum < m_nMinPktNumToSendAcks s then Some (s, None)
      else do {
        itSentinel \<leftarrow> sentinel_pos (m_mapPacketGaps s);
        sentinel \<leftarrow> gap_at (m_mapPacketGaps s) itSentinel;
        let nExpectedNextPktNum = m_nBegin sentinel;
        if nPktNum = nExpectedNextPktNum then do {
          s \<leftarrow> record_in_order nPktNum usecNow bScheduleAck s;
          Some (s, None)
        }
        else do {
          let usecScheduleAck = (if bScheduleAck then usecNow + k_usecMaxDataAckDelay else INT64_MAX);
          if nPktNum > nExpectedNextPktNum then do {
            s \<leftarrow> record_ahead nMaxRecvPktNum nPktNum usecNow usecScheduleAck s;
            s \<leftarrow> limit_gaps s;
            Some (s, None)
          }
          else
            (case find_gap nPktNum (m_mapPacketGaps s) of
               None \<Rightarrow> Some (s, None)
             | Some itGap \<Rightarrow> do {
                 (s, itGap, usecScheduleAck) \<leftarrow> fill_gap itGap nPktNum usecNow usecScheduleAck s;
                 s \<leftarrow> schedule_ack itGap usecScheduleAck s;
                 wake \<leftarrow> (if bScheduleAck then map_option Some (TimeWhenFlushAcks s) else Some None);
                 s \<leftarrow> limit_gaps s;
                 Some (s, wake)
               })
        }
      })"

subsection \<open>Giving up old packets\<close>

text \<open>
  The \<open>stop_waiting\<close> frame: the sender says that it does not wait for acks of packets below a
  number. The gaps in front of it are dropped and the one across it is cut; an iterator at a
  dropped gap moves on to the next one.
\<close>

fun trim_front ::
  "int \<Rightarrow> SSNPPacketGap list \<Rightarrow> nat \<Rightarrow> nat \<Rightarrow> (SSNPPacketGap list \<times> nat \<times> nat) option" where
  "trim_front nMin [] itAck itNack = None"
| "trim_front nMin (h # gs) itAck itNack =
     (if m_nBegin h \<le> nMin then
        if m_nEnd h > nMin then Some (h\<lparr>m_nBegin := nMin\<rparr> # gs, itAck, itNack)
        else
          let itAck = (if itAck = 0 then itAck + 1 else itAck);
              itNack = (if itNack = 0 then itNack + 1 else itNack)
          in trim_front nMin gs (itAck - 1) (itNack - 1)
      else Some (h # gs, itAck, itNack))"

datatype snp_error = stop_waiting_offset | stop_waiting_reduced

definition ReceiveStopWaiting ::
  "int \<Rightarrow> 64 word \<Rightarrow> SSNPReceiverState \<Rightarrow> (snp_error + SSNPReceiverState) option" where
  "ReceiveStopWaiting nPktNum nWireOffset s =
     (let nOffset = nWireOffset + 1;
          nMinPktNum = word_of_int nPktNum - nOffset;
          nMinPktNumToSendAcks = sint nMinPktNum
      in if nMinPktNum \<ge> word_of_int nPktNum then Some (Inl stop_waiting_offset)
         else if nMinPktNumToSendAcks = m_nMinPktNumToSendAcks s then Some (Inr s)
         else if nMinPktNumToSendAcks < m_nMinPktNumToSendAcks s then
           if nPktNum \<ge> m_nPktNumUpdatedMinPktNumToSendAcks s then Some (Inl stop_waiting_reduced)
           else Some (Inr s)
         else do {
           (gs, itAck, itNack) \<leftarrow>
             trim_front nMinPktNumToSendAcks (m_mapPacketGaps s) (m_itPendingAck s) (m_itPendingNack s);
           Some (Inr (s\<lparr>m_nMinPktNumToSendAcks := nMinPktNumToSendAcks,
             m_nPktNumUpdatedMinPktNumToSendAcks := nPktNum, m_mapPacketGaps := gs,
             m_itPendingAck := itAck, m_itPendingNack := itNack\<rparr>))
         })"

subsection \<open>Acks sent\<close>

text \<open>
  What \<open>SNP_SerializeAckBlocks\<close> does to the schedule once it has decided what to write: nothing is
  missing; no block is written, only the last packet before the oldest gap; the blocks report
  everything; or the blocks report the packets below \<open>nAckEnd\<close>.
\<close>

definition ack_no_loss :: "SSNPReceiverState \<Rightarrow> SSNPReceiverState option" where
  "ack_no_loss s =
     do {
       it \<leftarrow> sentinel_pos (m_mapPacketGaps s);
       gs \<leftarrow> upd_gap it (set_ack INT64_MAX) (m_mapPacketGaps s);
       Some (s\<lparr>m_mapPacketGaps := gs\<rparr>)
     }"

definition ack_oldest :: "SSNPReceiverState \<Rightarrow> SSNPReceiverState option" where
  "ack_oldest s =
     (if m_itPendingAck s = 0 then do {
        gs \<leftarrow> upd_gap 0 (set_ack INT64_MAX) (m_mapPacketGaps s);
        Some (s\<lparr>m_mapPacketGaps := gs, m_itPendingAck := m_itPendingAck s + 1\<rparr>)
      }
      else Some s)"

function clear_to_sentinel :: "nat \<Rightarrow> SSNPPacketGap list \<Rightarrow> (SSNPPacketGap list \<times> nat) option" where
  "clear_to_sentinel it gs =
     (if it < length gs then
        let gs = gs[it := set_ack INT64_MAX (gs ! it)]
        in if m_nEnd (gs ! it) = INT64_MAX then Some (gs, it) else clear_to_sentinel (it + 1) gs
      else None)"
  by pat_completeness auto
termination
  by (relation "measure (\<lambda>(it, gs). length gs - it)") auto

declare clear_to_sentinel.simps [simp del]

definition ack_everything :: "SSNPReceiverState \<Rightarrow> SSNPReceiverState option" where
  "ack_everything s =
     do {
       (gs, it) \<leftarrow> clear_to_sentinel (m_itPendingAck s) (m_mapPacketGaps s);
       Some (s\<lparr>m_mapPacketGaps := gs, m_itPendingAck := it, m_itPendingNack := it\<rparr>)
     }"

function clear_below :: "int \<Rightarrow> nat \<Rightarrow> SSNPPacketGap list \<Rightarrow> (SSNPPacketGap list \<times> nat) option" where
  "clear_below nAckEnd it gs =
     (if it < length gs then
        if m_nBegin (gs ! it) \<le> nAckEnd
        then clear_below nAckEnd (it + 1) (gs[it := set_ack INT64_MAX (gs ! it)])
        else Some (gs, it)
      else None)"
  by pat_completeness auto
termination
  by (relation "measure (\<lambda>(nAckEnd, it, gs). length gs - it)") auto

declare clear_below.simps [simp del]

function skip_nacks :: "int \<Rightarrow> nat \<Rightarrow> SSNPPacketGap list \<Rightarrow> nat option" where
  "skip_nacks nAckEnd it gs =
     (if it < length gs then
        if m_nBegin (gs ! it) < nAckEnd then skip_nacks nAckEnd (it + 1) gs else Some it
      else None)"
  by pat_completeness auto
termination
  by (relation "measure (\<lambda>(nAckEnd, it, gs). length gs - it)") auto

declare skip_nacks.simps [simp del]

definition ack_below :: "int \<Rightarrow> SSNPReceiverState \<Rightarrow> SSNPReceiverState option" where
  "ack_below nAckEnd s =
     do {
       (gs, itAck) \<leftarrow> clear_below nAckEnd (m_itPendingAck s) (m_mapPacketGaps s);
       itNack \<leftarrow> skip_nacks nAckEnd (m_itPendingNack s) gs;
       Some (s\<lparr>m_mapPacketGaps := gs, m_itPendingAck := itAck, m_itPendingNack := itNack\<rparr>)
     }"

datatype acks_written = No_blocks | Blocks_to int

definition AcksWritten :: "acks_written \<Rightarrow> SSNPReceiverState \<Rightarrow> SSNPReceiverState option" where
  "AcksWritten w s =
     do {
       it \<leftarrow> sentinel_pos (m_mapPacketGaps s);
       sentinel \<leftarrow> gap_at (m_mapPacketGaps s) it;
       let nLastPktToAck = m_nBegin sentinel - 1;
       if length (m_mapPacketGaps s) = 1 then ack_no_loss s
       else (case w of
               No_blocks \<Rightarrow> ack_oldest s
             | Blocks_to nAckEnd \<Rightarrow> if nAckEnd > nLastPktToAck then ack_everything s else ack_below nAckEnd s)
     }"

subsection \<open>The invariant\<close>

text \<open>The gaps lie between \<open>p\<close> and \<open>q\<close>, are not empty, do not overlap and do not touch.\<close>

fun gaps_to :: "int \<Rightarrow> SSNPPacketGap list \<Rightarrow> int \<Rightarrow> bool" where
  "gaps_to p [] q \<longleftrightarrow> p < q"
| "gaps_to p (g # gs) q \<longleftrightarrow> p < m_nBegin g \<and> m_nBegin g < m_nEnd g \<and> gaps_to (m_nEnd g) gs q"

definition map_ok :: "SSNPPacketGap list \<Rightarrow> bool" where
  "map_ok gs \<longleftrightarrow> gs \<noteq> [] \<and> gaps_to 0 (butlast gs) (m_nBegin (last gs)) \<and>
     m_nBegin (last gs) < INT64_MAX \<and> m_nEnd (last gs) = INT64_MAX"

text \<open>
  The schedule, as a function of the position: nothing before the pending ack, and from there on
  the times do not decrease.
\<close>

definition sched_ok :: "(nat \<Rightarrow> int) \<Rightarrow> nat \<Rightarrow> nat \<Rightarrow> bool" where
  "sched_ok T a n \<longleftrightarrow> a < n \<and> (\<forall>i < a. T i = INT64_MAX) \<and>
     (\<forall>i j. a \<le> i \<longrightarrow> i \<le> j \<longrightarrow> j < n \<longrightarrow> T i \<le> T j) \<and> (\<forall>i < n. T i \<le> INT64_MAX)"

definition armed :: "(nat \<Rightarrow> int) \<Rightarrow> nat \<Rightarrow> nat \<Rightarrow> bool" where
  "armed T a n \<longleftrightarrow> (Suc a < n \<longrightarrow> T a < INT64_MAX)"

abbreviation ack_time :: "SSNPPacketGap list \<Rightarrow> nat \<Rightarrow> int" where
  "ack_time gs i \<equiv> m_usecWhenAckPrior (gs ! i)"

definition gaps_inv :: "SSNPReceiverState \<Rightarrow> bool" where
  "gaps_inv s \<longleftrightarrow> map_ok (m_mapPacketGaps s) \<and>
     sched_ok (ack_time (m_mapPacketGaps s)) (m_itPendingAck s) (length (m_mapPacketGaps s)) \<and>
     m_itPendingNack s < length (m_mapPacketGaps s)"

definition ack_armed :: "SSNPReceiverState \<Rightarrow> bool" where
  "ack_armed s \<longleftrightarrow> armed (ack_time (m_mapPacketGaps s)) (m_itPendingAck s) (length (m_mapPacketGaps s))"

text \<open>The abstract state: the packets that have not been received, below the first number that
  has not been seen; and the time by which a packet has to be reported.\<close>

definition missing_pkts :: "SSNPPacketGap list \<Rightarrow> int set" where
  "missing_pkts gs = (\<Union>g \<in> set (butlast gs). {m_nBegin g ..< m_nEnd g})"

definition next_pkt :: "SSNPPacketGap list \<Rightarrow> int" where
  "next_pkt gs = m_nBegin (last gs)"

definition ack_due :: "SSNPPacketGap list \<Rightarrow> int \<Rightarrow> int \<Rightarrow> bool" where
  "ack_due gs n t \<longleftrightarrow> (\<exists>g \<in> set gs. n < m_nBegin g \<and> m_usecWhenAckPrior g \<le> t)"

lemma gaps_to_append:
  "gaps_to p (xs @ g # ys) q \<longleftrightarrow> gaps_to p xs (m_nBegin g) \<and> m_nBegin g < m_nEnd g \<and> gaps_to (m_nEnd g) ys q"
  by (induction xs arbitrary: p) auto

lemma gaps_to_less: "gaps_to p gs q \<Longrightarrow> p < q"
  by (induction gs arbitrary: p) force+

lemma gaps_to_mono: "gaps_to p gs q \<Longrightarrow> q \<le> q' \<Longrightarrow> gaps_to p gs q'"
  by (induction gs arbitrary: p) auto

lemma gaps_to_lower: "gaps_to p gs q \<Longrightarrow> p' \<le> p \<Longrightarrow> gaps_to p' gs q"
  by (cases gs) auto

lemma gaps_to_mem:
  "gaps_to p gs q \<Longrightarrow> g \<in> set gs \<Longrightarrow> p < m_nBegin g \<and> m_nBegin g < m_nEnd g \<and> m_nEnd g < q"
proof (induction gs arbitrary: p)
  case (Cons h gs)
  have h: "p < m_nBegin h" "m_nBegin h < m_nEnd h" "gaps_to (m_nEnd h) gs q" using Cons.prems(1) by simp_all
  have q: "m_nEnd h < q" using h(3) by (rule gaps_to_less)
  show ?case
  proof (cases "g = h")
    case True
    with h q show ?thesis by simp
  next
    case False
    then have "g \<in> set gs" using Cons.prems(2) by simp
    with Cons.IH [OF h(3)] h show ?thesis by simp
  qed
qed simp

lemma gaps_to_cong:
  "map (\<lambda>g. (m_nBegin g, m_nEnd g)) gs' = map (\<lambda>g. (m_nBegin g, m_nEnd g)) gs \<Longrightarrow>
   gaps_to p gs' q = gaps_to p gs q"
proof (induction gs arbitrary: gs' p)
  case (Cons g gs)
  then obtain g' r where gs': "gs' = g' # r" by (cases gs') auto
  then have e: "m_nBegin g' = m_nBegin g" "m_nEnd g' = m_nEnd g"
    and r: "map (\<lambda>g. (m_nBegin g, m_nEnd g)) r = map (\<lambda>g. (m_nBegin g, m_nEnd g)) gs"
    using Cons.prems by simp_all
  show ?case unfolding gs' gaps_to.simps e Cons.IH [OF r] ..
qed simp

text \<open>A map, with its sentinel named.\<close>

lemma map_ok_snoc:
  "map_ok (xs @ [z]) \<longleftrightarrow> gaps_to 0 xs (m_nBegin z) \<and> m_nBegin z < INT64_MAX \<and> m_nEnd z = INT64_MAX"
  by (simp add: map_ok_def)

lemma missing_snoc: "missing_pkts (xs @ [z]) = (\<Union>g \<in> set xs. {m_nBegin g ..< m_nEnd g})"
  by (simp add: missing_pkts_def)

lemma next_snoc [simp]: "next_pkt (xs @ [z]) = m_nBegin z"
  by (simp add: next_pkt_def)

lemma map_okE:
  assumes "map_ok gs"
  obtains xs z where "gs = xs @ [z]" "gaps_to 0 xs (m_nBegin z)" "m_nBegin z < INT64_MAX" "m_nEnd z = INT64_MAX"
  using assms unfolding map_ok_def by (metis append_butlast_last_id)

abbreviation before :: "SSNPPacketGap \<Rightarrow> SSNPPacketGap \<Rightarrow> bool" where
  "before g h \<equiv> m_nBegin g < m_nEnd g \<and> m_nEnd g < m_nBegin h"

lemma gaps_to_sorted: "gaps_to p gs q \<Longrightarrow> sorted_wrt before gs"
proof (induction gs arbitrary: p)
  case (Cons g gs)
  then have g: "m_nBegin g < m_nEnd g" "gaps_to (m_nEnd g) gs q" by simp_all
  then have "\<forall>h \<in> set gs. before g h" using gaps_to_mem [OF g(2)] by simp
  with Cons.IH [OF g(2)] show ?case by simp
qed simp

lemma map_ok_sorted:
  assumes "map_ok gs"
  shows "sorted_wrt before gs"
proof -
  obtain xs z where gs: "gs = xs @ [z]" "gaps_to 0 xs (m_nBegin z)" using assms by (rule map_okE)
  have "\<forall>h \<in> set xs. before h z" using gaps_to_mem [OF gs(2)] by simp
  with gaps_to_sorted [OF gs(2)] show ?thesis by (simp add: gs(1) sorted_wrt_append)
qed

lemma begins_sorted:
  assumes "map_ok gs" "i < j" "j < length gs"
  shows "m_nEnd (gs ! i) < m_nBegin (gs ! j)" "m_nBegin (gs ! i) < m_nEnd (gs ! i)"
    "m_nBegin (gs ! i) < m_nBegin (gs ! j)"
proof -
  have "before (gs ! i) (gs ! j)" using map_ok_sorted [OF assms(1)] assms(2,3) by (rule sorted_wrt_nth_less)
  then show "m_nEnd (gs ! i) < m_nBegin (gs ! j)" "m_nBegin (gs ! i) < m_nEnd (gs ! i)"
    "m_nBegin (gs ! i) < m_nBegin (gs ! j)" by simp_all
qed

lemma begins_le_iff:
  assumes "map_ok gs" "i < length gs" "j < length gs"
  shows "m_nBegin (gs ! i) \<le> m_nBegin (gs ! j) \<longleftrightarrow> i \<le> j"
  using begins_sorted(3) [OF assms(1), of i j] begins_sorted(3) [OF assms(1), of j i] assms(2,3)
  by (cases i j rule: linorder_cases) auto

subsection \<open>Changing times only\<close>

definition retimed :: "SSNPPacketGap list \<Rightarrow> (nat \<Rightarrow> int) \<Rightarrow> SSNPPacketGap list" where
  "retimed gs T = map (\<lambda>i. set_ack (T i) (gs ! i)) [0 ..< length gs]"

lemma length_retimed [simp]: "length (retimed gs T) = length gs"
  by (simp add: retimed_def)

lemma nth_retimed [simp]: "i < length gs \<Longrightarrow> retimed gs T ! i = set_ack (T i) (gs ! i)"
  by (simp add: retimed_def)

lemma set_ack_fields [simp]:
  "m_nBegin (set_ack t g) = m_nBegin g" "m_nEnd (set_ack t g) = m_nEnd g"
  "m_usecWhenAckPrior (set_ack t g) = t" "set_ack t (set_ack u g) = set_ack t g"
  "m_usecWhenReceivedPktBefore (set_ack t g) = m_usecWhenReceivedPktBefore g"
  "m_usecWhenOKToNack (set_ack t g) = m_usecWhenOKToNack g"
  "set_ack (m_usecWhenAckPrior g) g = g"
  by (simp_all add: set_ack_def)

lemma retimed_same [simp]: "retimed gs (ack_time gs) = gs"
  by (rule nth_equalityI) simp_all

lemma retimed_update [simp]:
  "i < length gs \<Longrightarrow> (retimed gs T)[i := set_ack t (gs ! i)] = retimed gs (T(i := t))"
  by (rule nth_equalityI) (auto simp: nth_list_update)

lemma retimed_shape: "map (\<lambda>g. (m_nBegin g, m_nEnd g)) (retimed gs T) = map (\<lambda>g. (m_nBegin g, m_nEnd g)) gs"
  by (rule nth_equalityI) simp_all

lemma retimed_Nil_iff [simp]: "retimed gs T = [] \<longleftrightarrow> gs = []"
  by (simp add: retimed_def)

lemma last_retimed: "gs \<noteq> [] \<Longrightarrow> last (retimed gs T) = set_ack (T (length gs - 1)) (last gs)"
  by (simp add: last_conv_nth)

lemma map_ok_retimed [simp]: "map_ok (retimed gs T) = map_ok gs"
proof (cases "gs = []")
  case False
  have "gaps_to p (butlast (retimed gs T)) q = gaps_to p (butlast gs) q" for p q
    by (rule gaps_to_cong) (simp add: map_butlast retimed_shape)
  with False show ?thesis by (simp add: map_ok_def last_retimed)
qed (simp add: map_ok_def)

lemma missing_retimed [simp]: "missing_pkts (retimed gs T) = missing_pkts gs"
proof -
  have "missing_pkts gs' = (\<Union>(b, e) \<in> set (butlast (map (\<lambda>g. (m_nBegin g, m_nEnd g)) gs')). {b ..< e})" for gs'
    by (auto simp: missing_pkts_def simp flip: map_butlast)
  then show ?thesis by (simp add: retimed_shape)
qed

lemma next_retimed [simp]: "gs \<noteq> [] \<Longrightarrow> next_pkt (retimed gs T) = next_pkt gs"
  by (simp add: next_pkt_def last_retimed)

lemma sched_ok_retimed [simp]: "length gs = n \<Longrightarrow> sched_ok (ack_time (retimed gs T)) a n = sched_ok T a n"
  by (auto simp: sched_ok_def)

lemma armed_retimed [simp]: "length gs = n \<Longrightarrow> armed (ack_time (retimed gs T)) a n = armed T a n"
  by (auto simp: armed_def)

lemma ack_due_nth: "ack_due gs p t \<longleftrightarrow> (\<exists>i < length gs. p < m_nBegin (gs ! i) \<and> ack_time gs i \<le> t)"
  unfolding ack_due_def by (metis in_set_conv_nth)

lemma ack_due_retimed: "ack_due (retimed gs T) p t \<longleftrightarrow> (\<exists>i < length gs. p < m_nBegin (gs ! i) \<and> T i \<le> t)"
  by (auto simp: ack_due_nth)

text \<open>Every time of \<open>T\<close> is kept, at its position or later, when \<open>T\<close> becomes \<open>T'\<close>.\<close>

definition keeps_dues :: "(nat \<Rightarrow> int) \<Rightarrow> (nat \<Rightarrow> int) \<Rightarrow> nat \<Rightarrow> bool" where
  "keeps_dues T T' n \<longleftrightarrow> (\<forall>i < n. \<exists>j \<ge> i. j < n \<and> T' j \<le> T i)"

lemma ack_due_later:
  assumes "map_ok gs" "i \<le> j" "j < length gs" "p < m_nBegin (gs ! i)"
  shows "p < m_nBegin (gs ! j)"
  using assms begins_le_iff [OF assms(1), of i j] by linarith

lemma keeps_dues_ack_due:
  assumes "map_ok gs" "keeps_dues (ack_time gs) T (length gs)" "ack_due gs p t"
  shows "ack_due (retimed gs T) p t"
proof -
  obtain i where i: "i < length gs" "p < m_nBegin (gs ! i)" "ack_time gs i \<le> t"
    using assms(3) by (auto simp: ack_due_nth)
  then obtain j where j: "j \<ge> i" "j < length gs" "T j \<le> ack_time gs i"
    using assms(2) unfolding keeps_dues_def by blast
  have "p < m_nBegin (gs ! j)" using assms(1) j(1,2) i(2) by (rule ack_due_later)
  with i j show ?thesis unfolding ack_due_retimed by (metis order_trans)
qed

subsection \<open>The loops\<close>

lemma clear_until_retimed:
  "it < itEnd \<Longrightarrow> itEnd \<le> length gs \<Longrightarrow>
   clear_until it itEnd (retimed gs T) =
     Some (retimed gs (\<lambda>i. if it \<le> i \<and> i < itEnd then INT64_MAX else T i))"
proof (induction "itEnd - it" arbitrary: it T)
  case (Suc k)
  show ?case
  proof (cases "it + 1 = itEnd")
    case True
    then have "T(it := INT64_MAX) = (\<lambda>i. if it \<le> i \<and> i < itEnd then INT64_MAX else T i)" by auto
    with True Suc.prems show ?thesis by (subst clear_until.simps) (simp add: Let_def)
  next
    case False
    have "clear_until (it + 1) itEnd (retimed gs (T(it := INT64_MAX))) =
        Some (retimed gs (\<lambda>i. if it + 1 \<le> i \<and> i < itEnd then INT64_MAX else (T(it := INT64_MAX)) i))"
      using False Suc by (intro Suc.hyps(1)) auto
    moreover have "(\<lambda>i. if it + 1 \<le> i \<and> i < itEnd then INT64_MAX else (T(it := INT64_MAX)) i) =
        (\<lambda>i. if it \<le> i \<and> i < itEnd then INT64_MAX else T i)"
      using Suc.prems by auto
    ultimately show ?thesis using False Suc.prems by (subst clear_until.simps) (simp add: Let_def)
  qed
qed simp

lemma lower_while_retimed:
  "a < it \<Longrightarrow> it \<le> length gs \<Longrightarrow> \<not> p (T a) \<Longrightarrow>
   \<exists>b. a \<le> b \<and> b < it \<and> \<not> p (T b) \<and> (\<forall>i. b < i \<and> i < it \<longrightarrow> p (T i)) \<and>
     lower_while p t it (retimed gs T) = Some (retimed gs (\<lambda>i. if b < i \<and> i < it then t else T i))"
proof (induction it arbitrary: T)
  case (Suc it)
  show ?case
  proof (cases "p (T it)")
    case True
    then have "a < it" using Suc.prems by (cases "a = it") auto
    have "\<not> p ((T(it := t)) a)" using \<open>a < it\<close> Suc.prems by simp
    moreover have "it \<le> length gs" using Suc.prems by simp
    ultimately obtain b where
      b: "a \<le> b" "b < it" "\<not> p ((T(it := t)) b)" "\<forall>i. b < i \<and> i < it \<longrightarrow> p ((T(it := t)) i)"
      "lower_while p t it (retimed gs (T(it := t))) =
         Some (retimed gs (\<lambda>i. if b < i \<and> i < it then t else (T(it := t)) i))"
      using Suc.IH [of "T(it := t)", OF \<open>a < it\<close>] by blast
    have "(\<lambda>i. if b < i \<and> i < it then t else (T(it := t)) i) = (\<lambda>i. if b < i \<and> i < Suc it then t else T i)"
      using b(2) by (auto simp: less_Suc_eq)
    then have "lower_while p t (Suc it) (retimed gs T) =
        Some (retimed gs (\<lambda>i. if b < i \<and> i < Suc it then t else T i))"
      using b(5) True Suc.prems by simp
    moreover have "\<not> p (T b)" "\<forall>i. b < i \<and> i < Suc it \<longrightarrow> p (T i)"
      using b(2-4) True by (auto simp: less_Suc_eq)
    ultimately show ?thesis using b(1,2) less_SucI by blast
  next
    case False
    have "(\<lambda>i. if it < i \<and> i < Suc it then t else T i) = T" by auto
    with False Suc.prems show ?thesis by (intro exI [of _ it]) auto
  qed
qed simp

lemma back_up_retimed:
  "g < it \<Longrightarrow> it \<le> length gs \<Longrightarrow>
   back_up_to g t it (retimed gs T) = Some (retimed gs (\<lambda>i. if g < i \<and> i < it then t else T i))"
proof (induction it arbitrary: T)
  case (Suc it)
  show ?case
  proof (cases "it = g")
    case True
    have "(\<lambda>i. if g < i \<and> i < Suc g then t else T i) = T" by auto
    with True show ?thesis by simp
  next
    case False
    have "(\<lambda>i. if g < i \<and> i < it then t else (T(it := t)) i) = (\<lambda>i. if g < i \<and> i < Suc it then t else T i)"
      using False Suc.prems by (auto simp: less_Suc_eq)
    moreover have "back_up_to g t it (retimed gs (T(it := t))) =
        Some (retimed gs (\<lambda>i. if g < i \<and> i < it then t else (T(it := t)) i))"
      using False Suc.prems by (intro Suc.IH) auto
    ultimately show ?thesis using False Suc.prems by simp
  qed
qed simp

end
