(* ===== verification/SnpGapsSchedule.thy ===== *)
theory SnpGapsSchedule
  imports SnpGaps
begin

text \<open>
  The schedule of acks: what \<open>QueueFlushAllAcks\<close> and the rescheduling step of
  \<open>SNP_RecordReceivedPktNum\<close> do to the times of the gaps, and how the schedule survives the
  insertion and the removal of a gap.
\<close>

subsection \<open>What the schedule becomes\<close>

lemma sched_okD:
  assumes "sched_ok T a n"
  shows "a < n" "i < a \<Longrightarrow> T i = INT64_MAX" "a \<le> i \<Longrightarrow> i \<le> j \<Longrightarrow> j < n \<Longrightarrow> T i \<le> T j"
    "i < n \<Longrightarrow> T i \<le> INT64_MAX"
  using assms by (auto simp: sched_ok_def)

text \<open>Every packet due by the pending time: it is the earliest of all.\<close>

lemma pending_earliest: "sched_ok T a n \<Longrightarrow> i < n \<Longrightarrow> T a \<le> T i"
  by (cases "i < a") (auto simp: sched_ok_def)

lemma sched_last:
  assumes "sched_ok T m (Suc m)" "t \<le> INT64_MAX"
  shows "sched_ok (T(m := t)) m (Suc m)"
  using assms by (auto simp: sched_ok_def)

lemma sched_cleared:
  assumes "sched_ok T a n" "a < g" "g < n" "t \<le> INT64_MAX" "t \<le> T g"
  shows "sched_ok (\<lambda>i. if a \<le> i \<and> i < g then INT64_MAX else (T(g := t)) i) g n"
  unfolding sched_ok_def
proof (intro conjI allI impI)
  fix i j assume ij: "g \<le> i" "i \<le> j" "j < n"
  have "T g \<le> T j" "T i \<le> T j" using sched_okD(3) [OF assms(1)] assms(2) ij by simp_all
  then show "(if a \<le> i \<and> i < g then INT64_MAX else (T(g := t)) i) \<le>
      (if a \<le> j \<and> j < g then INT64_MAX else (T(g := t)) j)"
    using ij assms(5) by auto
qed (use assms sched_okD(2,4) [OF assms(1)] in auto)

lemma sched_lowered:
  assumes "sched_ok T a n" "a \<le> b" "b < g" "g < n" "T b \<le> t" "t \<le> T g"
  shows "sched_ok (\<lambda>i. if b < i \<and> i < g then t else (T(g := t)) i) a n"
  unfolding sched_ok_def
proof (intro conjI allI impI)
  fix i j assume ij: "a \<le> i" "i \<le> j" "j < n"
  have "T i \<le> T j" using sched_okD(3) [OF assms(1)] ij by simp
  moreover have "i \<le> b \<Longrightarrow> T i \<le> T b" using sched_okD(3) [OF assms(1), of i b] assms ij by simp
  moreover have "g \<le> j \<Longrightarrow> T g \<le> T j" using sched_okD(3) [OF assms(1), of g j] assms ij by simp
  ultimately show "(if b < i \<and> i < g then t else (T(g := t)) i) \<le> (if b < j \<and> j < g then t else (T(g := t)) j)"
    using ij assms by auto
next
  fix i assume "i < n"
  have "t \<le> INT64_MAX" using assms(4,6) sched_okD(4) [OF assms(1), of g] by simp
  with \<open>i < n\<close> show "(if b < i \<and> i < g then t else (T(g := t)) i) \<le> INT64_MAX"
    using sched_okD(4) [OF assms(1)] by auto
qed (use assms sched_okD(1,2) [OF assms(1)] in auto)

lemma sched_backed_up:
  assumes "sched_ok T a n" "g < a" "t \<le> T a"
  shows "sched_ok (\<lambda>i. if g < i \<and> i < a then T a else (T(g := t)) i) g n"
  unfolding sched_ok_def
proof (intro conjI allI impI)
  fix i j assume ij: "g \<le> i" "i \<le> j" "j < n"
  have "a \<le> i \<Longrightarrow> T i \<le> T j" "a \<le> j \<Longrightarrow> T a \<le> T j"
    using sched_okD(3) [OF assms(1)] ij by simp_all
  then show "(if g < i \<and> i < a then T a else (T(g := t)) i) \<le> (if g < j \<and> j < a then T a else (T(g := t)) j)"
    using ij assms by auto
next
  fix i assume "i < n"
  have "T a \<le> INT64_MAX" using sched_okD(1,4) [OF assms(1)] by simp
  with \<open>i < n\<close> show "(if g < i \<and> i < a then T a else (T(g := t)) i) \<le> INT64_MAX"
    using sched_okD(4) [OF assms(1)] assms(3) by auto
qed (use assms sched_okD(1,2) [OF assms(1)] in auto)

lemma keeps_dues_refl: "keeps_dues T T n"
  by (auto simp: keeps_dues_def)

lemma keeps_dues_pointwise: "(\<And>i. i < n \<Longrightarrow> T' i \<le> T i) \<Longrightarrow> keeps_dues T T' n"
  by (auto simp: keeps_dues_def)

lemma keeps_dues_cleared:
  assumes "sched_ok T a n" "a < g" "g < n" "t \<le> T a"
  shows "keeps_dues T (\<lambda>i. if a \<le> i \<and> i < g then INT64_MAX else (T(g := t)) i) n"
  unfolding keeps_dues_def
proof (intro allI impI)
  fix i assume i: "i < n"
  show "\<exists>j\<ge>i. j < n \<and> (if a \<le> j \<and> j < g then INT64_MAX else (T(g := t)) j) \<le> T i"
  proof (cases "i \<le> g")
    case True
    have "t \<le> T i" using pending_earliest [OF assms(1) i] assms(4) by simp
    with True assms show ?thesis by (intro exI [of _ g]) simp
  next
    case False
    with i show ?thesis by (intro exI [of _ i]) simp
  qed
qed

lemma upd_gap_retimed:
  "i < length gs \<Longrightarrow> upd_gap i (set_ack t) (retimed gs T) = Some (retimed gs (T(i := t)))"
  by (simp add: upd_gap_def)

lemma gap_at_retimed: "i < length gs \<Longrightarrow> gap_at (retimed gs T) i = Some (set_ack (T i) (gs ! i))"
  by (simp add: gap_at_def)

lemma gaps_invD:
  assumes "gaps_inv s"
  shows "map_ok (m_mapPacketGaps s)" "m_mapPacketGaps s \<noteq> []"
    "sched_ok (ack_time (m_mapPacketGaps s)) (m_itPendingAck s) (length (m_mapPacketGaps s))"
    "m_itPendingAck s < length (m_mapPacketGaps s)" "m_itPendingNack s < length (m_mapPacketGaps s)"
  using assms by (auto simp: gaps_inv_def map_ok_def sched_ok_def)

lemma lower_result:
  assumes so: "sched_ok T a (length gs)" and g: "a < g" "g < length gs" "t \<le> T g"
    and p: "\<And>u. t < u \<Longrightarrow> p u" "\<And>u. p u \<Longrightarrow> t \<le> u" "\<not> p (T a)"
  obtains T' where "lower_while p t g (retimed gs (T(g := t))) = Some (retimed gs T')"
    "sched_ok T' a (length gs)" "\<And>i. T' i \<le> T i" "T' a = T a" "T' g = t"
proof -
  have np: "\<not> p ((T(g := t)) a)" and le: "g \<le> length gs" using p(3) g by simp_all
  from lower_while_retimed [of a g gs p "T(g := t)" t, OF g(1) le np] obtain b where b:
    "a \<le> b" "b < g" "\<not> p ((T(g := t)) b)" "\<forall>i. b < i \<and> i < g \<longrightarrow> p ((T(g := t)) i)"
    "lower_while p t g (retimed gs (T(g := t))) =
       Some (retimed gs (\<lambda>i. if b < i \<and> i < g then t else (T(g := t)) i))" by auto
  have "T b \<le> t" using b(2,3) p(1) [of "T b"] by (simp add: not_less [symmetric]) blast
  then have "sched_ok (\<lambda>i. if b < i \<and> i < g then t else (T(g := t)) i) a (length gs)"
    using so b(1,2) g(2,3) by (intro sched_lowered)
  moreover have "(if b < i \<and> i < g then t else (T(g := t)) i) \<le> T i" for i
    using b(4) p(2) [of "T i"] g(3) by (auto split: if_splits)
  ultimately show ?thesis using b g(1) by (intro that [OF b(5)]) auto
qed

text \<open>An operation that only changes times and the pending ack: the new times \<open>T\<close> form a schedule
  again, no time is lost, and a pending ack that was armed stays so.\<close>

definition rescheduled :: "SSNPReceiverState \<Rightarrow> (nat \<Rightarrow> int) \<Rightarrow> nat \<Rightarrow> SSNPReceiverState \<Rightarrow> bool" where
  "rescheduled s T a s' \<longleftrightarrow>
     s' = s\<lparr>m_mapPacketGaps := retimed (m_mapPacketGaps s) T, m_itPendingAck := a\<rparr> \<and>
     sched_ok T a (length (m_mapPacketGaps s)) \<and>
     keeps_dues (ack_time (m_mapPacketGaps s)) T (length (m_mapPacketGaps s)) \<and>
     (ack_armed s \<longrightarrow> armed T a (length (m_mapPacketGaps s)))"

lemma rescheduled_facts:
  assumes "gaps_inv s" "rescheduled s T a s'"
  shows "gaps_inv s'" "ack_armed s \<Longrightarrow> ack_armed s'"
    "missing_pkts (m_mapPacketGaps s') = missing_pkts (m_mapPacketGaps s)"
    "next_pkt (m_mapPacketGaps s') = next_pkt (m_mapPacketGaps s)"
    "length (m_mapPacketGaps s') = length (m_mapPacketGaps s)"
    "m_nMinPktNumToSendAcks s' = m_nMinPktNumToSendAcks s"
    "ack_due (m_mapPacketGaps s) p t \<Longrightarrow> ack_due (m_mapPacketGaps s') p t"
  using assms gaps_invD [OF assms(1)] keeps_dues_ack_due [OF gaps_invD(1) [OF assms(1)]]
  by (simp_all add: rescheduled_def gaps_inv_def ack_armed_def)

lemma rescheduled_due:
  assumes "rescheduled s T a s'" "i < length (m_mapPacketGaps s)" "p < m_nBegin (m_mapPacketGaps s ! i)" "T i \<le> t"
  shows "ack_due (m_mapPacketGaps s') p t"
proof -
  have "m_mapPacketGaps s' = retimed (m_mapPacketGaps s) T" using assms(1) by (simp add: rescheduled_def)
  with assms(2-4) show ?thesis by (auto simp: ack_due_retimed)
qed

lemma QueueFlush_result:
  assumes inv: "gaps_inv s"
  obtains T a s' where "QueueFlushAllAcks t s = Some s'" "rescheduled s T a s'"
    "T (length (m_mapPacketGaps s) - 1) \<le> t"
proof -
  define gs where "gs = m_mapPacketGaps s"
  define T0 where "T0 = ack_time gs"
  define a where "a = m_itPendingAck s"
  have ne: "gs \<noteq> []" and so: "sched_ok T0 a (length gs)"
    using gaps_invD [OF inv] by (simp_all add: gs_def T0_def a_def)
  obtain m where n: "length gs = Suc m" using ne by (cases gs) auto
  have sp: "sentinel_pos gs = Some m" using ne n by (simp add: sentinel_pos_def)
  have g0: "gap_at gs m = Some (gs ! m)" using n by (simp add: gap_at_def)
  have Tm: "m_usecWhenAckPrior (gs ! m) = T0 m" by (simp add: T0_def)
  have same: "rescheduled s T0 a s"
    using so by (simp add: rescheduled_def gs_def T0_def a_def keeps_dues_refl ack_armed_def)
  show ?thesis
  proof (cases "T0 m \<le> t")
    case True
    then have "QueueFlushAllAcks t s = Some s"
      by (simp add: QueueFlushAllAcks_def gs_def [symmetric] sp g0 Tm)
    with True same n show ?thesis by (intro that) (simp_all add: gs_def)
  next
    case late: False
    have up: "upd_gap m (set_ack t) gs = Some (retimed gs (T0(m := t)))"
      using upd_gap_retimed [of m gs t T0] n by (simp add: T0_def)
    have am: "a \<le> m" using sched_okD(1) [OF so] n by simp
    have tmax: "t \<le> INT64_MAX" using late sched_okD(4) [OF so, of m] n by simp
    show ?thesis
    proof (cases "a = m")
      case True
      have "QueueFlushAllAcks t s = Some (s\<lparr>m_mapPacketGaps := retimed gs (T0(m := t))\<rparr>)"
        using late True by (simp add: QueueFlushAllAcks_def gs_def [symmetric] a_def [symmetric] sp g0 Tm up)
      moreover have "rescheduled s (T0(m := t)) a (s\<lparr>m_mapPacketGaps := retimed gs (T0(m := t))\<rparr>)"
        using so sched_last [of T0 m t] tmax late True n
        by (auto simp: rescheduled_def gs_def [symmetric] T0_def [symmetric] a_def armed_def
            intro!: keeps_dues_pointwise)
      ultimately show ?thesis using n by (intro that [of _ "T0(m := t)" a]) (simp_all add: gs_def)
    next
      case False
      then have lt: "a < m" using am by simp
      have ga: "gap_at (retimed gs (T0(m := t))) a = Some (set_ack (T0 a) (gs ! a))"
        using lt n by (simp add: gap_at_retimed)
      show ?thesis
      proof (cases "t \<le> T0 a")
        case True
        define T where "T = (\<lambda>i. if a \<le> i \<and> i < m then INT64_MAX else (T0(m := t)) i)"
        have "clear_until a m (retimed gs (T0(m := t))) = Some (retimed gs T)"
          unfolding T_def using lt n by (intro clear_until_retimed) simp_all
        then have "QueueFlushAllAcks t s = Some (s\<lparr>m_mapPacketGaps := retimed gs T, m_itPendingAck := m\<rparr>)"
          using late False True by (simp add: QueueFlushAllAcks_def gs_def [symmetric] a_def [symmetric] sp g0 Tm up ga)
        moreover have "rescheduled s T m (s\<lparr>m_mapPacketGaps := retimed gs T, m_itPendingAck := m\<rparr>)"
          using sched_cleared [OF so lt _ tmax] keeps_dues_cleared [OF so lt _ True] late n
          by (simp add: rescheduled_def gs_def [symmetric] T0_def [symmetric] T_def armed_def)
        ultimately show ?thesis using n by (intro that [of _ T m]) (simp_all add: gs_def T_def)
      next
        case less: False
        from so lt obtain T where T: "lower_while (\<lambda>u. t \<le> u) t m (retimed gs (T0(m := t))) = Some (retimed gs T)"
          "sched_ok T a (length gs)" "\<And>i. T i \<le> T0 i" "T a = T0 a" "T m = t"
          by (rule lower_result [of T0 a gs m t "\<lambda>u. t \<le> u"]) (use less late n in auto)
        have "QueueFlushAllAcks t s = Some (s\<lparr>m_mapPacketGaps := retimed gs T\<rparr>)"
          using late False less T(1) by (simp add: QueueFlushAllAcks_def gs_def [symmetric] a_def [symmetric] sp g0 Tm up ga)
        moreover have "rescheduled s T a (s\<lparr>m_mapPacketGaps := retimed gs T\<rparr>)"
          using T less tmax
          by (simp add: rescheduled_def gs_def [symmetric] T0_def [symmetric] a_def keeps_dues_pointwise armed_def)
        ultimately show ?thesis using n T(5) by (intro that [of _ T a]) (simp_all add: gs_def)
      qed
    qed
  qed
qed

lemma schedule_ack_result:
  assumes inv: "gaps_inv s" and g: "g < length (m_mapPacketGaps s)"
  obtains T a s' where "schedule_ack g t s = Some s'" "rescheduled s T a s'"
    "\<exists>j \<ge> g. j < length (m_mapPacketGaps s) \<and> T j \<le> t"
proof -
  define gs where "gs = m_mapPacketGaps s"
  define T0 where "T0 = ack_time gs"
  define a where "a = m_itPendingAck s"
  have ok: "map_ok gs" and so: "sched_ok T0 a (length gs)" and an: "a < length gs" and gn: "g < length gs"
    using gaps_invD [OF inv] g by (simp_all add: gs_def T0_def a_def)
  have at: "gap_at gs g = Some (gs ! g)" "gap_at gs a = Some (gs ! a)"
    using gn an by (simp_all add: gap_at_def)
  have T0: "m_usecWhenAckPrior (gs ! g) = T0 g" "m_usecWhenAckPrior (gs ! a) = T0 a" by (simp_all add: T0_def)
  have key: "m_nBegin (gs ! a) \<le> m_nBegin (gs ! g) \<longleftrightarrow> a \<le> g" "m_nBegin (gs ! g) < m_nBegin (gs ! a) \<longleftrightarrow> g < a"
    using begins_le_iff [OF ok an gn] by auto
  have up: "upd_gap g (set_ack t) gs = Some (retimed gs (T0(g := t)))"
    using upd_gap_retimed [of g gs t T0] gn by (simp add: T0_def)
  note eval = schedule_ack_def Let_def gs_def [symmetric] a_def [symmetric] at T0 key up
  have same: "rescheduled s T0 a s"
    using so by (simp add: rescheduled_def gs_def T0_def a_def keeps_dues_refl ack_armed_def)
  consider (early) "T0 g \<le> t" | (subsumed) "t < T0 g" "T0 a < t" "g < a" | (behind) "t < T0 g" "T0 a < t" "a < g"
    | (here) "t < T0 g" "t \<le> T0 a" "a = g" | (supersedes) "t < T0 g" "t \<le> T0 a" "a < g"
    | (backed) "t < T0 g" "t \<le> T0 a" "g < a" by (cases a g rule: linorder_cases) fastforce+
  then show ?thesis
  proof cases
    case early
    then have "schedule_ack g t s = Some s" by (simp add: eval)
    with early same gn show ?thesis by (intro that [of _ T0 a]) (auto simp: gs_def)
  next
    case subsumed
    then have "schedule_ack g t s = Some s" by (simp add: eval)
    with subsumed same an show ?thesis
      by (intro that [of _ T0 a]) (auto simp: gs_def intro!: exI [of _ a])
  next
    case behind
    from so behind(3) gn obtain T where T: "lower_while (\<lambda>u. u > t) t g (retimed gs (T0(g := t))) = Some (retimed gs T)"
      "sched_ok T a (length gs)" "\<And>i. T i \<le> T0 i" "T a = T0 a" "T g = t"
      by (rule lower_result [of T0 a gs g t "\<lambda>u. u > t"]) (use behind in auto)
    have "schedule_ack g t s = Some (s\<lparr>m_mapPacketGaps := retimed gs T\<rparr>)"
      using behind T(1) by (simp add: eval)
    moreover have "rescheduled s T a (s\<lparr>m_mapPacketGaps := retimed gs T\<rparr>)"
      using T same by (simp add: rescheduled_def gs_def [symmetric] T0_def [symmetric] a_def keeps_dues_pointwise armed_def)
    ultimately show ?thesis using gn T(5) by (intro that [of _ T a]) (auto simp: gs_def)
  next
    case here
    have tm: "t < INT64_MAX" using here(1) sched_okD(4) [OF so gn] by simp
    have "sched_ok (T0(g := t)) g (length gs)"
      unfolding sched_ok_def
    proof (intro conjI allI impI)
      fix i j assume ij: "g \<le> i" "i \<le> j" "j < length gs"
      have "T0 i \<le> T0 j" "T0 g \<le> T0 j" using sched_okD(3) [OF so] ij here(3) by simp_all
      then show "(T0(g := t)) i \<le> (T0(g := t)) j" using here(1) ij by auto
    qed (use tm gn sched_okD(2,4) [OF so] here(3) in auto)
    moreover have "schedule_ack g t s = Some (s\<lparr>m_mapPacketGaps := retimed gs (T0(g := t))\<rparr>)"
      using here by (simp add: eval)
    moreover have "keeps_dues T0 (T0(g := t)) (length gs)" using here(1) by (intro keeps_dues_pointwise) simp
    ultimately have "rescheduled s (T0(g := t)) g (s\<lparr>m_mapPacketGaps := retimed gs (T0(g := t))\<rparr>)"
      using tm here(3) by (simp add: rescheduled_def gs_def [symmetric] T0_def [symmetric] a_def [symmetric] armed_def)
    with \<open>schedule_ack g t s = Some (s\<lparr>m_mapPacketGaps := retimed gs (T0(g := t))\<rparr>)\<close> gn
    show ?thesis by (intro that [of _ "T0(g := t)" g]) (auto simp: gs_def intro!: exI [of _ g])
  next
    case supersedes
    have tm: "t < INT64_MAX" using supersedes(1) sched_okD(4) [OF so gn] by simp
    define T where "T = (\<lambda>i. if a \<le> i \<and> i < g then INT64_MAX else (T0(g := t)) i)"
    have "clear_until a g (retimed gs (T0(g := t))) = Some (retimed gs T)"
      unfolding T_def using supersedes gn by (intro clear_until_retimed) simp_all
    then have "schedule_ack g t s = Some (s\<lparr>m_mapPacketGaps := retimed gs T, m_itPendingAck := g\<rparr>)"
      using supersedes by (simp add: eval)
    moreover have "rescheduled s T g (s\<lparr>m_mapPacketGaps := retimed gs T, m_itPendingAck := g\<rparr>)"
      using sched_cleared [OF so supersedes(3) gn, of t] keeps_dues_cleared [OF so supersedes(3) gn supersedes(2)]
        supersedes tm
      by (simp add: rescheduled_def gs_def [symmetric] T0_def [symmetric] T_def armed_def)
    ultimately show ?thesis using gn by (intro that [of _ T g]) (auto simp: gs_def T_def intro!: exI [of _ g])
  next
    case backed
    have tm: "t < INT64_MAX" using backed(1) sched_okD(4) [OF so gn] by simp
    define T where "T = (\<lambda>i. if g < i \<and> i < a then T0 a else (T0(g := t)) i)"
    have "back_up_to g (T0 a) a (retimed gs (T0(g := t))) = Some (retimed gs T)"
      unfolding T_def using backed an by (intro back_up_retimed) simp_all
    then have "schedule_ack g t s = Some (s\<lparr>m_mapPacketGaps := retimed gs T, m_itPendingAck := g\<rparr>)"
      using backed by (simp add: eval)
    moreover have "T i \<le> T0 i" if i: "i < length gs" for i
      using pending_earliest [OF so i] backed by (auto simp: T_def)
    then have "keeps_dues T0 T (length gs)" by (rule keeps_dues_pointwise)
    moreover have "sched_ok T g (length gs)" unfolding T_def using so backed(3,2) by (rule sched_backed_up)
    ultimately have "rescheduled s T g (s\<lparr>m_mapPacketGaps := retimed gs T, m_itPendingAck := g\<rparr>)"
      using tm by (simp add: rescheduled_def gs_def [symmetric] T0_def [symmetric] T_def armed_def)
    with \<open>schedule_ack g t s = Some (s\<lparr>m_mapPacketGaps := retimed gs T, m_itPendingAck := g\<rparr>)\<close> gn
    show ?thesis by (intro that [of _ T g]) (auto simp: gs_def T_def intro!: exI [of _ g])
  qed
qed

end
