(* ===== verification/SnpGapsRecord.thy ===== *)
theory SnpGapsRecord
  imports SnpGapsSchedule
begin

text \<open>
  Correctness of \<open>SNP_RecordReceivedPktNum\<close>: filling a gap, opening one, merging two; and of the
  \<open>stop_waiting\<close> frame and the bookkeeping of sent acks.
\<close>

subsection \<open>Filling a gap\<close>

text \<open>What a step on a received packet keeps: the invariant, an armed pending ack, every due time, and the
  limit of the sender.\<close>

definition keeps_all :: "SSNPReceiverState \<Rightarrow> SSNPReceiverState \<Rightarrow> bool" where
  "keeps_all s s' \<longleftrightarrow> gaps_inv s' \<and> (ack_armed s \<longrightarrow> ack_armed s') \<and>
     (\<forall>p t. ack_due (m_mapPacketGaps s) p t \<longrightarrow> ack_due (m_mapPacketGaps s') p t) \<and>
     m_nMinPktNumToSendAcks s' = m_nMinPktNumToSendAcks s"

lemma keeps_all_refl: "gaps_inv s \<Longrightarrow> keeps_all s s"
  by (simp add: keeps_all_def)

lemma keeps_all_trans: "keeps_all s t \<Longrightarrow> keeps_all t u \<Longrightarrow> keeps_all s u"
  by (auto simp: keeps_all_def)

lemma rescheduled_keeps:
  assumes "gaps_inv s" "rescheduled s T a s'"
  shows "keeps_all s s'"
  using rescheduled_facts(1,2,6,7) [OF assms] by (simp add: keeps_all_def)

definition cover :: "SSNPPacketGap list \<Rightarrow> int set" where
  "cover gs = (\<Union>g \<in> set gs. {m_nBegin g ..< m_nEnd g})"

lemma cover_simps [simp]:
  "cover [] = {}" "cover (g # gs) = {m_nBegin g ..< m_nEnd g} \<union> cover gs" "cover (xs @ ys) = cover xs \<union> cover ys"
  by (auto simp: cover_def)

lemma missing_cover: "missing_pkts (xs @ [z]) = cover xs"
  by (simp add: missing_snoc cover_def)

lemma cover_bounds: "gaps_to p gs q \<Longrightarrow> cover gs \<subseteq> {p <..< q}"
  using gaps_to_mem [of p gs q] by (force simp: cover_def)

lemma gaps_to_glue: "gaps_to p us m \<Longrightarrow> gaps_to m' ws q \<Longrightarrow> m \<le> m' \<Longrightarrow> gaps_to p (us @ ws) q"
proof (induction us arbitrary: p)
  case Nil
  then show ?case using gaps_to_lower [of m' ws q p] by simp
qed simp

lemma split_gap:
  assumes "map_ok gs" "Suc j < length gs"
  obtains us ws z where "gs = us @ gs ! j # ws @ [z]" "length us = j"
    "gaps_to 0 us (m_nBegin (gs ! j))" "m_nBegin (gs ! j) < m_nEnd (gs ! j)"
    "gaps_to (m_nEnd (gs ! j)) ws (m_nBegin z)" "m_nBegin z < INT64_MAX" "m_nEnd z = INT64_MAX"
proof -
  obtain xs z where gs: "gs = xs @ [z]" "gaps_to 0 xs (m_nBegin z)" "m_nBegin z < INT64_MAX" "m_nEnd z = INT64_MAX"
    using assms(1) by (rule map_okE)
  have j: "j < length xs" using assms(2) gs(1) by simp
  then have xs: "xs = take j xs @ gs ! j # drop (Suc j) xs" by (simp add: gs(1) nth_append id_take_nth_drop)
  have "gaps_to 0 (take j xs @ gs ! j # drop (Suc j) xs) (m_nBegin z)" using gs(2) xs by simp
  then show ?thesis using j gs(1,3,4) xs
    by (intro that [of "take j xs" "drop (Suc j) xs" z]) (simp_all add: gaps_to_append)
qed

lemma sched_ok_cong:
  assumes "\<And>i. i < n \<Longrightarrow> T i = T' i"
  shows "sched_ok T a n = sched_ok T' a n"
proof -
  have cut: "sched_ok U a n = sched_ok (\<lambda>i. if i < n then U i else 0) a n" for U
    by (auto simp: sched_ok_def)
  have "(\<lambda>i. if i < n then T i else 0) = (\<lambda>i. if i < n then T' i else 0)" using assms by auto
  then show ?thesis by (simp add: cut [of T] cut [of T'])
qed

lemma armed_cong: "(\<And>i. i < n \<Longrightarrow> T i = T' i) \<Longrightarrow> armed T a n = armed T' a n"
  unfolding armed_def by (metis Suc_lessD)

text \<open>Changing one gap and leaving its time: the schedule is the same.\<close>

lemma reshaped_keeps:
  assumes inv: "gaps_inv s" and j: "j < length (m_mapPacketGaps s)"
    and ok: "map_ok ((m_mapPacketGaps s)[j := h])"
    and h: "m_usecWhenAckPrior h = ack_time (m_mapPacketGaps s) j" "m_nBegin (m_mapPacketGaps s ! j) \<le> m_nBegin h"
  shows "keeps_all s (s\<lparr>m_mapPacketGaps := (m_mapPacketGaps s)[j := h]\<rparr>)"
proof -
  define gs where "gs = m_mapPacketGaps s"
  have t: "ack_time (gs[j := h]) i = ack_time gs i" if "i < length gs" for i
    using that h(1) by (cases "i = j") (simp_all add: gs_def)
  have so: "sched_ok (ack_time (gs[j := h])) a (length gs) = sched_ok (ack_time gs) a (length gs)" for a
    by (rule sched_ok_cong) (rule t)
  have ar: "armed (ack_time (gs[j := h])) a (length gs) = armed (ack_time gs) a (length gs)" for a
    by (rule armed_cong) (rule t)
  have "ack_due (gs[j := h]) p u" if d: "ack_due gs p u" for p u
  proof -
    obtain i where i: "i < length gs" "p < m_nBegin (gs ! i)" "ack_time gs i \<le> u"
      using d by (auto simp: ack_due_nth)
    have "p < m_nBegin (gs[j := h] ! i)" using i h(2) by (cases "i = j") (auto simp: gs_def)
    with i t [OF i(1)] show ?thesis unfolding ack_due_nth by auto
  qed
  with inv ok so ar show ?thesis
    by (simp add: keeps_all_def gaps_inv_def ack_armed_def gs_def [symmetric])
qed

lemma fill_last_result:
  assumes inv: "gaps_inv s" and j: "Suc j < length (m_mapPacketGaps s)"
    and n: "m_nBegin (m_mapPacketGaps s ! j) < n" "m_nEnd (m_mapPacketGaps s ! j) - 1 = n"
  obtains s' where "fill_last j s = Some (s', Suc j)" "keeps_all s s'"
    "missing_pkts (m_mapPacketGaps s') = missing_pkts (m_mapPacketGaps s) - {n}"
    "next_pkt (m_mapPacketGaps s') = next_pkt (m_mapPacketGaps s)"
    "length (m_mapPacketGaps s') = length (m_mapPacketGaps s)" "n < m_nBegin (m_mapPacketGaps s' ! Suc j)"
proof -
  define gs where "gs = m_mapPacketGaps s"
  define g where "g = gs ! j"
  define h where "h = g\<lparr>m_nEnd := m_nEnd g - 1\<rparr>"
  have ok: "map_ok gs" using gaps_invD [OF inv] by (simp add: gs_def)
  obtain us ws z where gs: "gs = us @ g # ws @ [z]" "length us = j" "gaps_to 0 us (m_nBegin g)"
    "m_nBegin g < m_nEnd g" "gaps_to (m_nEnd g) ws (m_nBegin z)" "m_nBegin z < INT64_MAX" "m_nEnd z = INT64_MAX"
    using split_gap [OF ok j [folded gs_def]] unfolding g_def .
  have n': "m_nBegin g < n" "m_nEnd g - 1 = n" using n by (simp_all add: g_def gs_def)
  have upd: "gs[j := h] = (us @ h # ws) @ [z]" using gs(1,2) by (simp add: list_update_append)
  have g2: "gaps_to (m_nEnd g - 1) ws (m_nBegin z)" using gs(5) by (rule gaps_to_lower) simp
  have "map_ok ((us @ h # ws) @ [z])" unfolding map_ok_snoc gaps_to_append
    using gs(3,6,7) n' g2 by (simp add: h_def)
  then have "map_ok (gs[j := h])" unfolding upd .
  then have k: "keeps_all s (s\<lparr>m_mapPacketGaps := gs[j := h]\<rparr>)"
    unfolding gs_def using inv j by (intro reshaped_keeps) (simp_all add: h_def g_def gs_def)
  have gz: "gs = (us @ g # ws) @ [z]" using gs(1) by simp
  have "missing_pkts (gs[j := h]) = missing_pkts gs - {n}"
    unfolding upd missing_cover unfolding gz missing_cover
    using cover_bounds [OF gs(3)] cover_bounds [OF gs(5)] n' by (auto simp: h_def)
  moreover have "fill_last j s = Some (s\<lparr>m_mapPacketGaps := gs[j := h]\<rparr>, Suc j)"
    using j by (simp add: fill_last_def upd_gap_def gs_def [symmetric] h_def g_def)
  moreover have "next_pkt (gs[j := h]) = next_pkt gs"
    unfolding upd next_snoc unfolding gz next_snoc ..
  moreover have "n < m_nBegin (gs[j := h] ! Suc j)"
    using begins_sorted(1) [OF ok lessI j [folded gs_def]] n' by (simp add: g_def)
  ultimately show ?thesis using k
    by (intro that [of "s\<lparr>m_mapPacketGaps := gs[j := h]\<rparr>"]) (simp_all add: gs_def)
qed

lemma fill_first_result:
  assumes inv: "gaps_inv s" and j: "Suc j < length (m_mapPacketGaps s)"
    and n: "m_nBegin (m_mapPacketGaps s ! j) = n" "n < m_nEnd (m_mapPacketGaps s ! j) - 1"
  obtains s' where "fill_first j now s = Some (s', j)" "keeps_all s s'"
    "missing_pkts (m_mapPacketGaps s') = missing_pkts (m_mapPacketGaps s) - {n}"
    "next_pkt (m_mapPacketGaps s') = next_pkt (m_mapPacketGaps s)"
    "length (m_mapPacketGaps s') = length (m_mapPacketGaps s)" "n < m_nBegin (m_mapPacketGaps s' ! j)"
proof -
  define gs where "gs = m_mapPacketGaps s"
  define g where "g = gs ! j"
  define h where "h = g\<lparr>m_nBegin := m_nBegin g + 1, m_usecWhenReceivedPktBefore := now\<rparr>"
  have ok: "map_ok gs" using gaps_invD [OF inv] by (simp add: gs_def)
  obtain us ws z where gs: "gs = us @ g # ws @ [z]" "length us = j" "gaps_to 0 us (m_nBegin g)"
    "m_nBegin g < m_nEnd g" "gaps_to (m_nEnd g) ws (m_nBegin z)" "m_nBegin z < INT64_MAX" "m_nEnd z = INT64_MAX"
    using split_gap [OF ok j [folded gs_def]] unfolding g_def .
  have n': "m_nBegin g = n" "n < m_nEnd g - 1" using n by (simp_all add: g_def gs_def)
  have upd: "gs[j := h] = (us @ h # ws) @ [z]" using gs(1,2) by (simp add: list_update_append)
  have g2: "gaps_to 0 us (m_nBegin g + 1)" using gs(3) by (rule gaps_to_mono) simp
  have "map_ok ((us @ h # ws) @ [z])" unfolding map_ok_snoc gaps_to_append
    using gs(5-7) n' g2 by (simp add: h_def)
  then have "map_ok (gs[j := h])" unfolding upd .
  then have k: "keeps_all s (s\<lparr>m_mapPacketGaps := gs[j := h]\<rparr>)"
    unfolding gs_def using inv j by (intro reshaped_keeps) (simp_all add: h_def g_def gs_def)
  have gz: "gs = (us @ g # ws) @ [z]" using gs(1) by simp
  have "missing_pkts (gs[j := h]) = missing_pkts gs - {n}"
    unfolding upd missing_cover unfolding gz missing_cover
    using cover_bounds [OF gs(3)] cover_bounds [OF gs(5)] n' by (auto simp: h_def)
  moreover have "fill_first j now s = Some (s\<lparr>m_mapPacketGaps := gs[j := h]\<rparr>, j)"
    using j by (simp add: fill_first_def upd_gap_def gs_def [symmetric] h_def g_def)
  moreover have "next_pkt (gs[j := h]) = next_pkt gs"
    unfolding upd next_snoc unfolding gz next_snoc ..
  moreover have "n < m_nBegin (gs[j := h] ! j)" using j n' by (simp add: gs_def h_def)
  ultimately show ?thesis using k
    by (intro that [of "s\<lparr>m_mapPacketGaps := gs[j := h]\<rparr>"]) (simp_all add: gs_def)
qed

subsection \<open>Inserting and erasing\<close>

lemma map_insert_between:
  assumes "m_mapPacketGaps s = xs @ y # ys" "\<forall>h \<in> set xs. m_nBegin h < m_nBegin x" "m_nBegin x < m_nBegin y"
  shows "map_insert x s =
    (s\<lparr>m_mapPacketGaps := xs @ x # y # ys,
       m_itPendingAck := (if length xs \<le> m_itPendingAck s then m_itPendingAck s + 1 else m_itPendingAck s),
       m_itPendingNack := (if length xs \<le> m_itPendingNack s then m_itPendingNack s + 1 else m_itPendingNack s)\<rparr>,
     length xs)"
proof -
  have "takeWhile (\<lambda>h. m_nBegin h < m_nBegin x) (xs @ y # ys) = xs"
    using assms(2,3) by (subst takeWhile_append2) auto
  with assms show ?thesis by (simp add: map_insert_def Let_def)
qed

text \<open>The times after an insertion at \<open>p\<close>, and after the gap at \<open>j\<close> has been erased and its time
  given to the next one if that is earlier.\<close>

definition time_insert :: "nat \<Rightarrow> int \<Rightarrow> (nat \<Rightarrow> int) \<Rightarrow> nat \<Rightarrow> int" where
  "time_insert p x T i = (if i < p then T i else if i = p then x else T (i - 1))"

definition time_erase :: "nat \<Rightarrow> (nat \<Rightarrow> int) \<Rightarrow> nat \<Rightarrow> int" where
  "time_erase j T i = (if i < j then T i else if i = j then min (T j) (T (Suc j)) else T (Suc i))"

lemma sched_insert:
  assumes so: "sched_ok T a n" and p: "p < n" "x \<le> INT64_MAX"
    and x: "p \<le> a \<Longrightarrow> x = INT64_MAX" "a < p \<Longrightarrow> T (p - 1) \<le> x \<and> x \<le> T p"
  shows "sched_ok (time_insert p x T) (if p \<le> a then a + 1 else a) (Suc n)"
  unfolding sched_ok_def
proof (intro conjI allI impI)
  fix i j assume ij: "(if p \<le> a then a + 1 else a) \<le> i" "i \<le> j" "j < Suc n"
  show "time_insert p x T i \<le> time_insert p x T j"
  proof (cases "p \<le> a")
    case True
    with ij so show ?thesis by (auto simp: time_insert_def intro!: sched_okD(3))
  next
    case False
    then have x': "T (p - 1) \<le> x" "x \<le> T p" using x(2) by simp_all
    have mid: "T i' \<le> T j'" if "a \<le> i'" "i' \<le> j'" "j' < n" for i' j'
      using so that by (rule sched_okD(3))
    have low: "T i \<le> x" if "i < p"
    proof -
      have "T i \<le> T (p - 1)" using that ij p False by (intro mid) (auto split: if_splits)
      with x' show ?thesis by simp
    qed
    have high: "x \<le> T (j - 1)" if "p < j"
    proof -
      have "T p \<le> T (j - 1)" using that ij False by (intro mid) auto
      with x' show ?thesis by simp
    qed
    show ?thesis using ij False low high mid [of i j] mid [of i "j - 1"] mid [of "i - 1" "j - 1"] p
      by (auto simp: time_insert_def)
  qed
next
  fix i assume i: "i < (if p \<le> a then a + 1 else a)"
  show "time_insert p x T i = INT64_MAX"
  proof (cases "p \<le> a")
    case True
    then show ?thesis using i x(1) sched_okD(2) [OF so] by (auto simp: time_insert_def)
  next
    case False
    then show ?thesis using i sched_okD(2) [OF so] by (simp add: time_insert_def)
  qed
qed (use p sched_okD(1,4) [OF so] in \<open>auto simp: time_insert_def\<close>)

lemma armed_insert:
  assumes "armed T a n" "p < n"
  shows "armed (time_insert p x T) (if p \<le> a then a + 1 else a) (Suc n)"
  using assms by (auto simp: armed_def time_insert_def)

text \<open>A gap is put before the sentinel when everything was scheduled to be reported at the time of the
  sentinel: that time is now the one of the new gap as well, and it becomes the pending one.\<close>

lemma sched_double_last:
  assumes "sched_ok T m (Suc m)"
  shows "sched_ok (time_insert m (T m) T) m (Suc (Suc m))"
  using assms by (auto simp: sched_ok_def time_insert_def)

lemma sched_erase:
  assumes so: "sched_ok T a (Suc n)" and j: "j < n"
  shows "sched_ok (time_erase j T) (if j < a then a - 1 else a) n"
  unfolding sched_ok_def
proof (intro conjI allI impI)
  fix i k assume ik: "(if j < a then a - 1 else a) \<le> i" "i \<le> k" "k < n"
  have mid: "T i' \<le> T j'" if "a \<le> i'" "i' \<le> j'" "j' < Suc n" for i' j'
    using so that by (rule sched_okD(3))
  show "time_erase j T i \<le> time_erase j T k"
  proof (cases "j < a")
    case True
    have "T j = INT64_MAX" using sched_okD(2) [OF so True] .
    moreover have "T (Suc j) \<le> INT64_MAX" using sched_okD(4) [OF so] j by simp
    ultimately have "time_erase j T j = T (Suc j)" by (simp add: time_erase_def)
    then show ?thesis using True ik mid [of "Suc i" "Suc k"] by (auto simp: time_erase_def)
  next
    case False
    then have "T j \<le> T (Suc j)" using mid j by simp
    then have "time_erase j T j = T j" by (simp add: time_erase_def)
    then show ?thesis using False ik mid [of i k] mid [of i j] mid [of i "Suc k"] mid [of "Suc i" "Suc k"] mid [of j "Suc k"]
      by (auto simp: time_erase_def)
  qed
next
  fix i assume "i < (if j < a then a - 1 else a)"
  then show "time_erase j T i = INT64_MAX"
    using sched_okD(2) [OF so] by (auto simp: time_erase_def split: if_splits)
next
  fix i assume "i < n"
  then show "time_erase j T i \<le> INT64_MAX"
    using sched_okD(4) [OF so] by (auto simp: time_erase_def min_def)
qed (use sched_okD(1) [OF so] j in auto)

lemma armed_erase:
  assumes so: "sched_ok T a (Suc n)" and j: "j < n" and ar: "armed T a (Suc n)"
  shows "armed (time_erase j T) (if j < a then a - 1 else a) n"
  using ar sched_okD(1,2) [OF so] j
  by (auto simp: armed_def time_erase_def min_def)

lemma sched_all_never:
  assumes so: "sched_ok T a n" and never: "T a = INT64_MAX"
  shows "sched_ok T (n - 1) n"
proof -
  have "T i = INT64_MAX" if i: "i < n" for i
    using sched_okD(4) [OF so i] pending_earliest [OF so i] never by simp
  moreover have "0 < n" using sched_okD(1) [OF so] by simp
  ultimately show ?thesis by (auto simp: sched_ok_def)
qed

lemma ack_time_insert:
  "i < Suc (length (xs @ ys)) \<Longrightarrow>
   ack_time (xs @ x # ys) i = time_insert (length xs) (m_usecWhenAckPrior x) (ack_time (xs @ ys)) i"
  by (auto simp: time_insert_def nth_append nth_Cons' Suc_diff_Suc)

lemma ack_time_erase:
  assumes "m_usecWhenAckPrior y' = min (m_usecWhenAckPrior g) (m_usecWhenAckPrior y)" "i < length (us @ y' # vs)"
  shows "ack_time (us @ y' # vs) i = time_erase (length us) (ack_time (us @ g # y # vs)) i"
  using assms by (auto simp: time_erase_def nth_append nth_Cons' Suc_diff_le)

lemma inserted_keeps:
  assumes inv: "gaps_inv s" and gs: "m_mapPacketGaps s = xs @ ys" and ok: "map_ok (xs @ x # ys)"
    and s': "s' = s\<lparr>m_mapPacketGaps := xs @ x # ys, m_itPendingAck := a', m_itPendingNack := k\<rparr>"
    and k: "k < Suc (length (xs @ ys))"
    and so: "sched_ok (time_insert (length xs) (m_usecWhenAckPrior x) (ack_time (xs @ ys))) a' (Suc (length (xs @ ys)))"
    and ar: "ack_armed s \<longrightarrow> armed (time_insert (length xs) (m_usecWhenAckPrior x) (ack_time (xs @ ys))) a' (Suc (length (xs @ ys)))"
  shows "keeps_all s s'"
proof -
  have t: "sched_ok (ack_time (xs @ x # ys)) b (Suc (length (xs @ ys))) =
      sched_ok (time_insert (length xs) (m_usecWhenAckPrior x) (ack_time (xs @ ys))) b (Suc (length (xs @ ys)))"
    "armed (ack_time (xs @ x # ys)) b (Suc (length (xs @ ys))) =
      armed (time_insert (length xs) (m_usecWhenAckPrior x) (ack_time (xs @ ys))) b (Suc (length (xs @ ys)))" for b
    by (rule sched_ok_cong, erule ack_time_insert) (rule armed_cong, erule ack_time_insert)
  have n: "length (xs @ x # ys) = Suc (length (xs @ ys))" by simp
  have "ack_due (xs @ ys) p u \<Longrightarrow> ack_due (xs @ x # ys) p u" for p u by (auto simp: ack_due_def)
  then show ?thesis using ok k so ar
    unfolding keeps_all_def gaps_inv_def ack_armed_def s' by (simp del: length_append add: t n gs)
qed

lemma erased_keeps:
  assumes inv: "gaps_inv s" and gs: "m_mapPacketGaps s = us @ g # y # vs" and ok: "map_ok (us @ y' # vs)"
    and y': "m_usecWhenAckPrior y' = min (m_usecWhenAckPrior g) (m_usecWhenAckPrior y)" "m_nBegin y' = m_nBegin y"
    and s': "s' = s\<lparr>m_mapPacketGaps := us @ y' # vs, m_itPendingAck := a', m_itPendingNack := k\<rparr>"
    and k: "k < length (us @ y' # vs)"
    and so: "sched_ok (time_erase (length us) (ack_time (us @ g # y # vs))) a' (length (us @ y' # vs))"
    and ar: "ack_armed s \<longrightarrow> armed (time_erase (length us) (ack_time (us @ g # y # vs))) a' (length (us @ y' # vs))"
  shows "keeps_all s s'"
proof -
  have t: "sched_ok (ack_time (us @ y' # vs)) b (length (us @ y' # vs)) =
      sched_ok (time_erase (length us) (ack_time (us @ g # y # vs))) b (length (us @ y' # vs))"
    "armed (ack_time (us @ y' # vs)) b (length (us @ y' # vs)) =
      armed (time_erase (length us) (ack_time (us @ g # y # vs))) b (length (us @ y' # vs))" for b
    by (rule sched_ok_cong, rule ack_time_erase [OF y'(1)], assumption)
      (rule armed_cong, rule ack_time_erase [OF y'(1)], assumption)
  have "map_ok (us @ g # y # vs)" using gaps_invD(1) [OF inv] gs by simp
  then have "m_nBegin g < m_nBegin y"
    using begins_sorted(3) [of "us @ g # y # vs" "length us" "Suc (length us)"] by (simp add: nth_append)
  then have "ack_due (us @ y' # vs) p u" if "ack_due (us @ g # y # vs) p u" for p u
    using that y' by (auto simp: ack_due_def min_le_iff_disj)
  then show ?thesis using ok k so ar
    unfolding keeps_all_def gaps_inv_def ack_armed_def s' by (simp del: length_append add: t gs)
qed

lemma keeps_all_inv: "keeps_all s s' \<Longrightarrow> gaps_inv s'"
  by (simp add: keeps_all_def)

lemma fill_middle_result:
  assumes inv: "gaps_inv s" and j: "Suc j < length (m_mapPacketGaps s)"
    and n: "m_nBegin (m_mapPacketGaps s ! j) < n" "n < m_nEnd (m_mapPacketGaps s ! j) - 1"
  obtains s' where "fill_middle j n now s = Some (s', Suc j)" "keeps_all s s'"
    "missing_pkts (m_mapPacketGaps s') = missing_pkts (m_mapPacketGaps s) - {n}"
    "next_pkt (m_mapPacketGaps s') = next_pkt (m_mapPacketGaps s)"
    "length (m_mapPacketGaps s') = Suc (length (m_mapPacketGaps s))" "n < m_nBegin (m_mapPacketGaps s' ! Suc j)"
proof -
  define gs where "gs = m_mapPacketGaps s"
  define g where "g = gs ! j"
  define h where "h = g\<lparr>m_nEnd := n\<rparr>"
  define a where "a = m_itPendingAck s"
  have ok: "map_ok gs" and so: "sched_ok (ack_time gs) a (length gs)" and kn: "m_itPendingNack s < length gs"
    using gaps_invD [OF inv] by (simp_all add: gs_def a_def)
  obtain us ws z where gs: "gs = us @ g # ws @ [z]" "length us = j" "gaps_to 0 us (m_nBegin g)"
    "m_nBegin g < m_nEnd g" "gaps_to (m_nEnd g) ws (m_nBegin z)" "m_nBegin z < INT64_MAX" "m_nEnd z = INT64_MAX"
    using split_gap [OF ok j [folded gs_def]] unfolding g_def .
  have n': "m_nBegin g < n" "n < m_nEnd g - 1" using n by (simp_all add: g_def gs_def)
  obtain y ys where ys: "ws @ [z] = y # ys" by (cases "ws @ [z]") auto
  have y: "gs ! Suc j = y" using gs(1,2) ys by (simp add: nth_append)
  have gy: "m_nEnd g < m_nBegin y" using begins_sorted(1) [OF ok lessI j [folded gs_def]] y by (simp add: g_def)
  define x where "x = \<lparr>m_nBegin = n + 1, m_nEnd = m_nEnd g, m_usecWhenReceivedPktBefore = now,
    m_usecWhenAckPrior = (if Suc j = a then INT64_MAX else m_usecWhenAckPrior y),
    m_usecWhenOKToNack = m_usecWhenOKToNack g\<rparr>"
  define s1 where "s1 = s\<lparr>m_mapPacketGaps := gs[j := h]\<rparr>"
  have upd: "gs[j := h] = (us @ [h]) @ y # ys" using gs(1,2) ys by (simp add: list_update_append)
  have upd': "gs[j := h] = (us @ h # ws) @ [z]" using gs(1,2) by (simp add: list_update_append)
  have g2: "gaps_to n ws (m_nBegin z)" using gs(5) by (rule gaps_to_lower) (use n' in simp)
  have "map_ok ((us @ h # ws) @ [z])" unfolding map_ok_snoc gaps_to_append
    using gs(3,6,7) n' g2 by (simp add: h_def)
  then have "map_ok (gs[j := h])" unfolding upd' .
  then have k1: "keeps_all s s1"
    unfolding s1_def gs_def using inv j by (intro reshaped_keeps) (simp_all add: h_def g_def gs_def)
  have s1: "m_mapPacketGaps s1 = (us @ [h]) @ y # ys" "m_itPendingAck s1 = a" "m_itPendingNack s1 = m_itPendingNack s"
    by (simp_all add: s1_def upd a_def)
  have t1: "ack_time ((us @ [h]) @ y # ys) i = ack_time gs i" if "i < length gs" for i
    using that unfolding upd [symmetric] by (cases "i = j") (simp_all add: h_def g_def)
  have len: "length ((us @ [h]) @ y # ys) = length gs" unfolding upd [symmetric] by simp
  have so1: "sched_ok (ack_time ((us @ [h]) @ y # ys)) a (length gs)"
    using so sched_ok_cong [of "length gs", OF t1] by simp
  have "map_ok ((us @ [h] @ x # ws) @ [z])" unfolding map_ok_snoc
    using gs(3,5,6,7) n' by (simp add: gaps_to_append h_def x_def)
  moreover have eq2: "(us @ [h] @ x # ws) @ [z] = (us @ [h]) @ x # y # ys" using ys by simp
  ultimately have ok2: "map_ok ((us @ [h]) @ x # y # ys)" by simp
  define s2 where "s2 = s1\<lparr>m_mapPacketGaps := (us @ [h]) @ x # y # ys,
    m_itPendingAck := (if Suc j \<le> a then a + 1 else a),
    m_itPendingNack := (if Suc j \<le> m_itPendingNack s then m_itPendingNack s + 1 else m_itPendingNack s)\<rparr>"
  have keys: "\<forall>e \<in> set (us @ [h]). m_nBegin e < m_nBegin x" "m_nBegin x < m_nBegin y"
    using gaps_to_mem [OF gs(3)] n' gy by (force simp: h_def x_def)+
  have ins: "map_insert x s1 = (s2, Suc j)"
    unfolding map_insert_between [OF s1(1) keys] using gs(2) by (simp add: s1(2,3) s2_def)
  have xt: "a < Suc j \<Longrightarrow> ack_time gs j \<le> m_usecWhenAckPrior x \<and> m_usecWhenAckPrior x \<le> ack_time gs (Suc j)"
    "Suc j \<le> a \<Longrightarrow> m_usecWhenAckPrior x = INT64_MAX" "m_usecWhenAckPrior x \<le> INT64_MAX"
    using sched_okD(2,3,4) [OF so] j y by (auto simp: x_def gs_def [symmetric])
  have k2: "keeps_all s1 s2"
  proof (rule inserted_keeps [OF keeps_all_inv [OF k1] s1(1) ok2 s2_def])
    show "(if Suc j \<le> m_itPendingNack s then m_itPendingNack s + 1 else m_itPendingNack s) < Suc (length ((us @ [h]) @ y # ys))"
      using kn len by simp
    show "sched_ok (time_insert (length (us @ [h])) (m_usecWhenAckPrior x) (ack_time ((us @ [h]) @ y # ys)))
        (if Suc j \<le> a then a + 1 else a) (Suc (length ((us @ [h]) @ y # ys)))"
      unfolding len using sched_insert [OF so1, of "Suc j" "m_usecWhenAckPrior x"] xt t1 j gs(2)
      by (simp add: gs_def)
    show "ack_armed s1 \<longrightarrow> armed (time_insert (length (us @ [h])) (m_usecWhenAckPrior x) (ack_time ((us @ [h]) @ y # ys)))
        (if Suc j \<le> a then a + 1 else a) (Suc (length ((us @ [h]) @ y # ys)))"
      using armed_insert [of "ack_time ((us @ [h]) @ y # ys)" a "length gs" "Suc j"] j gs(2) len
      by (simp add: ack_armed_def s1 gs_def)
  qed
  have gz: "gs = (us @ g # ws) @ [z]" using gs(1) by simp
  have "missing_pkts ((us @ [h]) @ x # y # ys) = missing_pkts gs - {n}"
    unfolding eq2 [symmetric] missing_cover unfolding gz missing_cover
    using cover_bounds [OF gs(3)] cover_bounds [OF gs(5)] n' by (auto simp: h_def x_def)
  moreover have "next_pkt ((us @ [h]) @ x # y # ys) = next_pkt gs"
    unfolding eq2 [symmetric] next_snoc unfolding gz next_snoc ..
  moreover have "fill_middle j n now s = Some (s2, Suc j)"
    using j ins by (simp add: fill_middle_def gap_at_def upd_gap_def gs_def [symmetric] y a_def [symmetric]
        g_def [symmetric] h_def [symmetric] x_def [symmetric] s1_def)
  ultimately show ?thesis using keeps_all_trans [OF k1 k2] len gs(2)
    by (intro that [of s2]) (simp_all add: s2_def gs_def nth_append x_def)
qed

lemma map_erase_between:
  assumes "m_mapPacketGaps s = us @ g # vs" "m_itPendingAck s \<noteq> length us" "m_itPendingNack s \<noteq> length us"
  shows "map_erase (length us) s =
    Some (s\<lparr>m_mapPacketGaps := us @ vs,
      m_itPendingAck := (if length us < m_itPendingAck s then m_itPendingAck s - 1 else m_itPendingAck s),
      m_itPendingNack := (if length us < m_itPendingNack s then m_itPendingNack s - 1 else m_itPendingNack s)\<rparr>)"
  using assms by (simp add: map_erase_def Let_def)

lemma retimed_middle:
  "us @ set_ack t y # vs = retimed (us @ y # vs) ((ack_time (us @ y # vs))(length us := t))"
proof -
  have "(us @ y # vs)[length us := set_ack t ((us @ y # vs) ! length us)] =
      retimed (us @ y # vs) ((ack_time (us @ y # vs))(length us := t))"
    by (subst retimed_update [symmetric], simp, subst retimed_same, rule refl)
  then show ?thesis by simp
qed

text \<open>Erasing a gap after the iterators have been moved off it.\<close>

definition moved_on :: "nat \<Rightarrow> nat \<Rightarrow> nat" where
  "moved_on j it = (if j < it then it - 1 else it)"

lemma erase_moved:
  assumes "m_mapPacketGaps s = us @ g # vs"
  shows "map_erase (length us)
      (let s = (if m_itPendingAck s = length us then s\<lparr>m_itPendingAck := m_itPendingAck s + 1\<rparr> else s)
       in if m_itPendingNack s = length us then s\<lparr>m_itPendingNack := m_itPendingNack s + 1\<rparr> else s) =
    Some (s\<lparr>m_mapPacketGaps := us @ vs, m_itPendingAck := moved_on (length us) (m_itPendingAck s),
      m_itPendingNack := moved_on (length us) (m_itPendingNack s)\<rparr>)"
  using assms by (simp add: map_erase_def Let_def moved_on_def)

lemma fill_single_result:
  assumes inv: "gaps_inv s" and j: "Suc j < length (m_mapPacketGaps s)"
    and n: "m_nBegin (m_mapPacketGaps s ! j) = n" "m_nEnd (m_mapPacketGaps s ! j) - 1 = n"
  obtains s' t' where "fill_single_gap j t s = Some (s', j, t')" "t' \<le> t" "keeps_all s s'"
    "missing_pkts (m_mapPacketGaps s') = missing_pkts (m_mapPacketGaps s) - {n}"
    "next_pkt (m_mapPacketGaps s') = next_pkt (m_mapPacketGaps s)"
    "Suc (length (m_mapPacketGaps s')) = length (m_mapPacketGaps s)" "n < m_nBegin (m_mapPacketGaps s' ! j)"
proof -
  define gs where "gs = m_mapPacketGaps s"
  define g where "g = gs ! j"
  define a where "a = m_itPendingAck s"
  have ok: "map_ok gs" and so: "sched_ok (ack_time gs) a (length gs)" and kn: "m_itPendingNack s < length gs"
    using gaps_invD [OF inv] by (simp_all add: gs_def a_def)
  obtain us ws z where gs: "gs = us @ g # ws @ [z]" "length us = j" "gaps_to 0 us (m_nBegin g)"
    "m_nBegin g < m_nEnd g" "gaps_to (m_nEnd g) ws (m_nBegin z)" "m_nBegin z < INT64_MAX" "m_nEnd z = INT64_MAX"
    using split_gap [OF ok j [folded gs_def]] unfolding g_def .
  have n': "m_nBegin g = n" "m_nEnd g = n + 1" using n by (simp_all add: g_def gs_def)
  obtain y vs where ys: "ws @ [z] = y # vs" by (cases "ws @ [z]") auto
  have gs2: "gs = us @ g # y # vs" using gs(1) ys by simp
  have y: "gs ! Suc j = y" using gs2 gs(2) by (simp add: nth_append)
  have gy: "n < m_nBegin y" using begins_sorted(1) [OF ok lessI j [folded gs_def]] y n' by (simp add: g_def)
  define t0 where "t0 = min (m_usecWhenAckPrior g) (m_usecWhenAckPrior y)"
  define y' where "y' = set_ack t0 y"
  define a' where "a' = moved_on j a"
  define k' where "k' = moved_on j (m_itPendingNack s)"
  have len: "length gs = Suc (length (us @ y' # vs))" by (simp add: gs2)
  have eq: "us @ y # vs = (us @ ws) @ [z]" using ys by simp
  have "map_ok ((us @ ws) @ [z])" unfolding map_ok_snoc
    using gaps_to_glue [OF gs(3,5)] gs(4,6,7) by simp
  then have ok1: "map_ok (us @ y # vs)" unfolding eq .
  have upd: "us @ y' # vs = retimed (us @ y # vs) ((ack_time (us @ y # vs))(j := t0))"
    unfolding y'_def gs(2) [symmetric] by (rule retimed_middle)
  have ok': "map_ok (us @ y' # vs)" unfolding upd by (simp add: ok1)
  have so': "sched_ok (time_erase j (ack_time gs)) a' (length (us @ y' # vs))"
    unfolding a'_def moved_on_def using so j len by (intro sched_erase) (simp_all add: gs_def [symmetric])
  have ar': "ack_armed s \<longrightarrow> armed (time_erase j (ack_time gs)) a' (length (us @ y' # vs))"
    unfolding a'_def moved_on_def ack_armed_def gs_def [symmetric] a_def [symmetric]
    using so j len by (intro impI armed_erase) (simp_all add: gs_def [symmetric])
  have an: "a' < length (us @ y' # vs)" using so' by (rule sched_okD)
  have k'n: "k' < length (us @ y' # vs)" using kn j len by (auto simp: k'_def moved_on_def gs_def)
  have te: "ack_time (us @ y' # vs) i = time_erase j (ack_time gs) i" if "i < length (us @ y' # vs)" for i
    unfolding gs2 gs(2) [symmetric] by (rule ack_time_erase) (use that in \<open>simp_all add: y'_def t0_def\<close>)
  define a'' where "a'' = (if m_usecWhenAckPrior g < m_usecWhenAckPrior y \<or> ack_time (us @ y' # vs) a' \<noteq> INT64_MAX
    then a' else length (us @ y' # vs) - 1)"
  define s' where "s' = s\<lparr>m_mapPacketGaps := us @ y' # vs, m_itPendingAck := a'', m_itPendingNack := k'\<rparr>"
  have "fill_single_gap j t s = Some (s', j, min t (m_usecWhenAckPrior g))"
  proof -
    have e: "map_erase j (let s = (if m_itPendingAck s = j then s\<lparr>m_itPendingAck := m_itPendingAck s + 1\<rparr> else s)
         in if m_itPendingNack s = j then s\<lparr>m_itPendingNack := m_itPendingNack s + 1\<rparr> else s) =
      Some (s\<lparr>m_mapPacketGaps := us @ y # vs, m_itPendingAck := a', m_itPendingNack := k'\<rparr>)"
      using erase_moved [of s us g "y # vs"] gs2 gs(2) by (simp add: gs_def a'_def k'_def a_def)
    show ?thesis
    proof (cases "m_usecWhenAckPrior g < m_usecWhenAckPrior y")
      case True
      then have "t0 = m_usecWhenAckPrior g" by (simp add: t0_def)
      with True e gs(2) show ?thesis
        by (simp add: fill_single_gap_def gap_at_def gs_def [symmetric] gs2 nth_append upd_gap_def Let_def
            list_update_append s'_def a''_def y'_def)
    next
      case False
      then have y'y: "y' = y" by (simp add: y'_def t0_def)
      with False e gs(2) an show ?thesis
        by (simp add: fill_single_gap_def gap_at_def gs_def [symmetric] gs2 nth_append Let_def
            s'_def a''_def sentinel_pos_def)
    qed
  qed
  moreover have "keeps_all s s'"
  proof (rule erased_keeps [where us = us and g = g and y = y and vs = vs and y' = y' and a' = a'' and k = k'])
    show "sched_ok (time_erase (length us) (ack_time (us @ g # y # vs))) a'' (length (us @ y' # vs))"
      using so' sched_all_never [OF so'] te [OF an] unfolding gs2 [symmetric] gs(2) a''_def by auto
    show "ack_armed s \<longrightarrow> armed (time_erase (length us) (ack_time (us @ g # y # vs))) a'' (length (us @ y' # vs))"
      using ar' unfolding gs2 [symmetric] gs(2) a''_def by (auto simp: armed_def)
  qed (use inv ok' k'n gs2 in \<open>simp_all add: gs_def y'_def t0_def s'_def\<close>)
  moreover have "missing_pkts (us @ y' # vs) = missing_pkts gs - {n}"
  proof -
    have gz: "gs = (us @ g # ws) @ [z]" using gs(1) by simp
    have "missing_pkts (us @ y # vs) = missing_pkts gs - {n}"
      unfolding eq missing_cover unfolding gz missing_cover
      using cover_bounds [OF gs(3)] cover_bounds [OF gs(5)] n' by auto
    then show ?thesis unfolding upd by simp
  qed
  moreover have "next_pkt (us @ y' # vs) = next_pkt gs"
  proof -
    have "next_pkt (us @ y # vs) = m_nBegin z" "next_pkt gs = m_nBegin z" using eq gs(1) by (simp_all add: next_pkt_def)
    then show ?thesis unfolding upd by simp
  qed
  ultimately show ?thesis using gy len gs(2)
    by (intro that [of s' "min t (m_usecWhenAckPrior g)"]) (simp_all add: s'_def gs_def nth_append y'_def)
qed

subsection \<open>Finding the gap\<close>

lemma find_gapD:
  assumes "find_gap n gs = Some j" "map_ok gs" "n < next_pkt gs"
  shows "Suc j < length gs" "m_nBegin (gs ! j) \<le> n" "n < m_nEnd (gs ! j)"
proof -
  have f: "j < upper_bound n gs" "m_nBegin (gs ! j) \<le> n" "n < m_nEnd (gs ! j)"
    using assms(1) by (auto simp: find_gap_def Let_def split: if_splits)
  have "upper_bound n gs \<le> length gs" by (simp add: upper_bound_def length_takeWhile_le)
  with f have jl: "j < length gs" by simp
  have "j \<noteq> length gs - 1" using f(2) assms(2,3) by (auto simp: next_pkt_def map_ok_def last_conv_nth)
  with jl f show "Suc j < length gs" "m_nBegin (gs ! j) \<le> n" "n < m_nEnd (gs ! j)" by simp_all
qed

lemma missing_nth: "n \<in> missing_pkts gs \<longleftrightarrow> (\<exists>j. Suc j < length gs \<and> m_nBegin (gs ! j) \<le> n \<and> n < m_nEnd (gs ! j))"
proof
  assume "n \<in> missing_pkts gs"
  then obtain g where g: "g \<in> set (butlast gs)" "m_nBegin g \<le> n" "n < m_nEnd g" by (auto simp: missing_pkts_def)
  then obtain j where "j < length (butlast gs)" "butlast gs ! j = g" by (auto simp: in_set_conv_nth)
  with g show "\<exists>j. Suc j < length gs \<and> m_nBegin (gs ! j) \<le> n \<and> n < m_nEnd (gs ! j)"
    by (intro exI [of _ j]) (simp add: nth_butlast)
next
  assume "\<exists>j. Suc j < length gs \<and> m_nBegin (gs ! j) \<le> n \<and> n < m_nEnd (gs ! j)"
  then obtain j where j: "Suc j < length gs" "m_nBegin (gs ! j) \<le> n" "n < m_nEnd (gs ! j)" by blast
  then have "butlast gs ! j = gs ! j" "gs ! j \<in> set (butlast gs)"
    by (simp_all add: nth_butlast) (metis Suc_lessE diff_Suc_1 length_butlast nth_butlast nth_mem)
  with j show "n \<in> missing_pkts gs" by (auto simp: missing_pkts_def)
qed

lemma find_gap_complete:
  assumes ok: "map_ok gs" and n: "n \<in> missing_pkts gs"
  shows "find_gap n gs \<noteq> None"
proof -
  obtain j where j: "Suc j < length gs" "m_nBegin (gs ! j) \<le> n" "n < m_nEnd (gs ! j)"
    using n unfolding missing_nth by blast
  have "takeWhile (\<lambda>g. m_nBegin g \<le> n) gs = take (Suc j) gs"
  proof (rule takeWhile_eq_take_P_nth)
    fix i assume i: "i < Suc j" "i < length gs"
    show "m_nBegin (gs ! i) \<le> n" using begins_le_iff [OF ok i(2), of j] i(1) j by simp
  next
    assume "Suc j < length gs"
    then show "\<not> m_nBegin (gs ! Suc j) \<le> n" using begins_sorted(1) [OF ok lessI] j(3) by fastforce
  qed
  then have "upper_bound n gs = Suc j" using j(1) by (simp add: upper_bound_def)
  with j show ?thesis by (simp add: find_gap_def)
qed

subsection \<open>The whole fill\<close>

lemma fill_gap_result:
  assumes inv: "gaps_inv s" and j: "Suc j < length (m_mapPacketGaps s)"
    and n: "m_nBegin (m_mapPacketGaps s ! j) \<le> n" "n < m_nEnd (m_mapPacketGaps s ! j)"
  obtains s' i t' where "fill_gap j n now t s = Some (s', i, t')" "t' \<le> t" "keeps_all s s'"
    "missing_pkts (m_mapPacketGaps s') = missing_pkts (m_mapPacketGaps s) - {n}"
    "next_pkt (m_mapPacketGaps s') = next_pkt (m_mapPacketGaps s)"
    "length (m_mapPacketGaps s') \<le> Suc (length (m_mapPacketGaps s))"
    "i < length (m_mapPacketGaps s')" "n < m_nBegin (m_mapPacketGaps s' ! i)"
proof -
  define g where "g = m_mapPacketGaps s ! j"
  have at: "gap_at (m_mapPacketGaps s) j = Some g" using j by (simp add: gap_at_def g_def)
  consider (single) "m_nBegin g = n" "m_nEnd g - 1 = n" | (last) "m_nBegin g < n" "m_nEnd g - 1 = n"
    | (first) "m_nBegin g = n" "n < m_nEnd g - 1" | (middle) "m_nBegin g < n" "n < m_nEnd g - 1"
    using n unfolding g_def by linarith
  then show ?thesis
  proof cases
    case single
    obtain s' t' where f: "fill_single_gap j t s = Some (s', j, t')" "t' \<le> t" "keeps_all s s'"
      "missing_pkts (m_mapPacketGaps s') = missing_pkts (m_mapPacketGaps s) - {n}"
      "next_pkt (m_mapPacketGaps s') = next_pkt (m_mapPacketGaps s)"
      "Suc (length (m_mapPacketGaps s')) = length (m_mapPacketGaps s)" "n < m_nBegin (m_mapPacketGaps s' ! j)"
      using fill_single_result [OF inv j] single unfolding g_def by metis
    have "fill_gap j n now t s = Some (s', j, t')" using single f(1) by (simp add: fill_gap_def at)
    with f j show ?thesis by (intro that) auto
  next
    case last
    obtain s' where f: "fill_last j s = Some (s', Suc j)" "keeps_all s s'"
      "missing_pkts (m_mapPacketGaps s') = missing_pkts (m_mapPacketGaps s) - {n}"
      "next_pkt (m_mapPacketGaps s') = next_pkt (m_mapPacketGaps s)"
      "length (m_mapPacketGaps s') = length (m_mapPacketGaps s)" "n < m_nBegin (m_mapPacketGaps s' ! Suc j)"
      using fill_last_result [OF inv j] last unfolding g_def by metis
    have "fill_gap j n now t s = Some (s', Suc j, t)" using last f(1) by (simp add: fill_gap_def at)
    with f j show ?thesis by (intro that) auto
  next
    case first
    obtain s' where f: "fill_first j now s = Some (s', j)" "keeps_all s s'"
      "missing_pkts (m_mapPacketGaps s') = missing_pkts (m_mapPacketGaps s) - {n}"
      "next_pkt (m_mapPacketGaps s') = next_pkt (m_mapPacketGaps s)"
      "length (m_mapPacketGaps s') = length (m_mapPacketGaps s)" "n < m_nBegin (m_mapPacketGaps s' ! j)"
      using fill_first_result [OF inv j] first unfolding g_def by metis
    have "fill_gap j n now t s = Some (s', j, t)" using first f(1) by (simp add: fill_gap_def at)
    with f j show ?thesis by (intro that) auto
  next
    case middle
    obtain s' where f: "fill_middle j n now s = Some (s', Suc j)" "keeps_all s s'"
      "missing_pkts (m_mapPacketGaps s') = missing_pkts (m_mapPacketGaps s) - {n}"
      "next_pkt (m_mapPacketGaps s') = next_pkt (m_mapPacketGaps s)"
      "length (m_mapPacketGaps s') = Suc (length (m_mapPacketGaps s))" "n < m_nBegin (m_mapPacketGaps s' ! Suc j)"
      using fill_middle_result [OF inv j] middle unfolding g_def by metis
    have "fill_gap j n now t s = Some (s', Suc j, t)" using middle f(1) by (simp add: fill_gap_def at)
    with f j show ?thesis by (intro that) auto
  qed
qed

subsection \<open>Merging\<close>

lemma begin_bounded:
  assumes ok: "map_ok gs" and i: "i < length gs"
  shows "m_nBegin (gs ! i) < INT64_MAX"
proof -
  have ne: "gs \<noteq> []" using i by auto
  then have "m_nBegin (gs ! i) \<le> m_nBegin (last gs)"
    using begins_le_iff [OF ok i, of "length gs - 1"] i by (simp add: last_conv_nth)
  then show ?thesis using ok by (simp add: map_ok_def)
qed

lemma probe_gaps_result:
  assumes "itProbe + n < length gs" "map_ok gs" "itExt < itProbe \<or> nBest = INT64_MAX \<and> itExt = itProbe \<and> 0 < n"
    and "itProbe \<le> N" "itProbe + n = N"
  shows "\<exists>e best. probe_gaps n itProbe itExt nBest gs = Some (e, best) \<and> e < N"
  using assms
proof (induction n arbitrary: itProbe itExt nBest)
  case (Suc n)
  have next_gap: "gap_at gs (Suc itProbe) = Some (gs ! Suc itProbe)" and probe: "gap_at gs itProbe = Some (gs ! itProbe)"
    using Suc.prems(1) by (simp_all add: gap_at_def)
  define nNew where "nNew = m_nBegin (gs ! Suc itProbe) - m_nEnd (gs ! itProbe)"
  have bound: "nNew < INT64_MAX"
  proof -
    have "m_nBegin (gs ! Suc itProbe) < INT64_MAX"
      using Suc.prems(1) by (intro begin_bounded [OF Suc.prems(2)]) simp
    moreover have "0 < m_nEnd (gs ! itProbe)"
    proof -
      obtain xs z where gs: "gs = xs @ [z]" "gaps_to 0 xs (m_nBegin z)" using Suc.prems(2) by (rule map_okE)
      have "itProbe < length xs" using Suc.prems(1) gs(1) by simp
      then have "gs ! itProbe \<in> set xs" by (simp add: gs(1) nth_append)
      then show ?thesis using gaps_to_mem [OF gs(2)] by fastforce
    qed
    ultimately show ?thesis by (simp add: nNew_def)
  qed
  show ?case
  proof (cases "nNew < nBest")
    case True
    have "\<exists>e best. probe_gaps n (itProbe + 1) itProbe nNew gs = Some (e, best) \<and> e < N"
      using Suc.prems by (intro Suc.IH) auto
    with True show ?thesis by (simp add: next_gap probe nNew_def)
  next
    case False
    then have "itExt < itProbe" using Suc.prems(3) bound by auto
    then have "\<exists>e best. probe_gaps n (itProbe + 1) itExt nBest gs = Some (e, best) \<and> e < N"
      using Suc.prems by (intro Suc.IH) auto
    with False show ?thesis by (simp add: next_gap probe nNew_def)
  qed
qed auto

lemma merge_eval:
  fixes s us d y vs
  defines "e \<equiv> length us" and "y' \<equiv> (set_ack (if m_usecWhenAckPrior d < INT64_MAX then m_usecWhenAckPrior d
      else m_usecWhenAckPrior y) y)\<lparr>m_usecWhenReceivedPktBefore := m_usecWhenReceivedPktBefore d,
    m_usecWhenOKToNack := m_usecWhenOKToNack d\<rparr>"
  assumes gs: "m_mapPacketGaps s = us @ g # d # y # vs"
    and armed: "m_itPendingAck s = Suc e \<Longrightarrow> m_usecWhenAckPrior d < INT64_MAX"
  shows "merge_gaps e s = Some (s\<lparr>m_mapPacketGaps := us @ g\<lparr>m_nEnd := m_nEnd d\<rparr> # y' # vs,
    m_itPendingAck := moved_on (Suc e) (m_itPendingAck s), m_itPendingNack := moved_on (Suc e) (m_itPendingNack s)\<rparr>)"
proof -
  have at: "gap_at (us @ g # d # y # vs) (Suc e) = Some d" by (simp add: gap_at_def e_def nth_append)
  have u: "upd_gap (Suc (Suc e)) f (us @ g # d # x # vs) = Some (us @ g # d # f x # vs)" for f x
    by (simp add: upd_gap_def e_def nth_append list_update_append)
  have ue: "upd_gap e f (us @ g # d # x # vs) = Some (us @ f g # d # x # vs)" for f x
    by (simp add: upd_gap_def e_def list_update_append)
  have er: "map_erase (Suc e) t = Some (t\<lparr>m_mapPacketGaps := us @ h # x # vs,
      m_itPendingAck := (if Suc e < m_itPendingAck t then m_itPendingAck t - 1 else m_itPendingAck t),
      m_itPendingNack := (if Suc e < m_itPendingNack t then m_itPendingNack t - 1 else m_itPendingNack t)\<rparr>)"
    if "m_mapPacketGaps t = us @ h # d # x # vs" "m_itPendingAck t \<noteq> Suc e" "m_itPendingNack t \<noteq> Suc e" for t h x
    using map_erase_between [of t "us @ [h]" d "x # vs"] that by (simp add: e_def)
  show ?thesis
  proof (cases "m_usecWhenAckPrior d < INT64_MAX")
    case True
    then have "set_ack (m_usecWhenAckPrior d) (y\<lparr>m_usecWhenReceivedPktBefore := m_usecWhenReceivedPktBefore d,
        m_usecWhenOKToNack := m_usecWhenOKToNack d\<rparr>) = y'" by (simp add: y'_def set_ack_def)
    with True show ?thesis
      by (cases "m_itPendingAck s = Suc e"; cases "m_itPendingNack s = Suc e")
        (simp_all add: merge_gaps_def gs at u ue er moved_on_def Let_def)
  next
    case False
    then have "y\<lparr>m_usecWhenReceivedPktBefore := m_usecWhenReceivedPktBefore d,
        m_usecWhenOKToNack := m_usecWhenOKToNack d\<rparr> = y'" by (simp add: y'_def)
    moreover have "m_itPendingAck s \<noteq> Suc e" using armed False by auto
    ultimately show ?thesis using False
      by (cases "m_itPendingNack s = Suc e") (simp_all add: merge_gaps_def gs at u ue er moved_on_def Let_def)
  qed
qed

text \<open>The gap that takes over the time of the erased one gets the earlier of the two times.\<close>

lemma sched_takes_min:
  assumes so: "sched_ok T a n" and i: "Suc i < n"
  shows "(if T i < INT64_MAX then T i else T (Suc i)) = min (T i) (T (Suc i))"
proof (cases "T i < INT64_MAX")
  case True
  then have "a \<le> i" using sched_okD(2) [OF so, of i] by (cases "i < a") auto
  then have "T i \<le> T (Suc i)" using sched_okD(3) [OF so, of i "Suc i"] i by simp
  with True show ?thesis by simp
next
  case False
  then have "T i = INT64_MAX" using sched_okD(4) [OF so, of i] i by simp
  moreover have "T (Suc i) \<le> INT64_MAX" using sched_okD(4) [OF so, of "Suc i"] i by simp
  ultimately show ?thesis by simp
qed

lemma merge_result:
  assumes inv: "gaps_inv s" and e: "Suc (Suc (Suc e)) < length (m_mapPacketGaps s)"
    and arm: "m_itPendingAck s = Suc e \<Longrightarrow> ack_time (m_mapPacketGaps s) (Suc e) < INT64_MAX"
  obtains s' where "merge_gaps e s = Some s'" "keeps_all s s'"
    "missing_pkts (m_mapPacketGaps s') =
       missing_pkts (m_mapPacketGaps s) \<union> {m_nEnd (m_mapPacketGaps s ! e) ..< m_nBegin (m_mapPacketGaps s ! Suc e)}"
    "next_pkt (m_mapPacketGaps s') = next_pkt (m_mapPacketGaps s)"
    "Suc (length (m_mapPacketGaps s')) = length (m_mapPacketGaps s)"
proof -
  define gs where "gs = m_mapPacketGaps s"
  define a where "a = m_itPendingAck s"
  define g where "g = gs ! e"
  define d where "d = gs ! Suc e"
  define y where "y = gs ! Suc (Suc e)"
  have ok: "map_ok gs" and so: "sched_ok (ack_time gs) a (length gs)" and kn: "m_itPendingNack s < length gs"
    using gaps_invD [OF inv] by (simp_all add: gs_def a_def)
  have e': "Suc (Suc (Suc e)) < length gs" using e by (simp add: gs_def)
  define us where "us = take e gs"
  define vs where "vs = drop (Suc (Suc (Suc e))) gs"
  have us: "length us = e" and vs: "vs \<noteq> []" using e' by (simp_all add: us_def vs_def)
  have "drop e gs = g # d # y # vs" using e' by (simp add: g_def d_def y_def vs_def Cons_nth_drop_Suc)
  then have gs2: "gs = us @ g # d # y # vs" unfolding us_def by (metis append_take_drop_id)
  obtain ws z where wz: "vs = ws @ [z]" using vs by (metis append_butlast_last_id)
  define h where "h = g\<lparr>m_nEnd := m_nEnd d\<rparr>"
  define t0 where "t0 = (if m_usecWhenAckPrior d < INT64_MAX then m_usecWhenAckPrior d else m_usecWhenAckPrior y)"
  define y' where "y' = (set_ack t0 y)\<lparr>m_usecWhenReceivedPktBefore := m_usecWhenReceivedPktBefore d,
    m_usecWhenOKToNack := m_usecWhenOKToNack d\<rparr>"
  define s' where "s' = s\<lparr>m_mapPacketGaps := us @ h # y' # vs, m_itPendingAck := moved_on (Suc e) a,
    m_itPendingNack := moved_on (Suc e) (m_itPendingNack s)\<rparr>"
  have tmin: "t0 = min (m_usecWhenAckPrior d) (m_usecWhenAckPrior y)"
    unfolding t0_def d_def y_def using so Suc_lessD [OF e'] by (rule sched_takes_min)
  have arm': "m_itPendingAck s = Suc e \<Longrightarrow> m_usecWhenAckPrior d < INT64_MAX"
    using arm by (simp add: gs_def d_def)
  have "merge_gaps e s = Some s'"
    using merge_eval [of s us g d y vs] gs2 arm' us
    by (simp add: gs_def [symmetric] s'_def h_def y'_def t0_def a_def)
  have shape: "gaps_to 0 us (m_nBegin g)" "m_nBegin g < m_nEnd g" "m_nEnd g < m_nBegin d"
    "m_nBegin d < m_nEnd d" "m_nEnd d < m_nBegin y" "m_nBegin y < m_nEnd y" "gaps_to (m_nEnd y) ws (m_nBegin z)"
    "m_nBegin z < INT64_MAX" "m_nEnd z = INT64_MAX"
  proof -
    have "map_ok ((us @ g # d # y # ws) @ [z])" using ok gs2 wz by simp
    then show "gaps_to 0 us (m_nBegin g)" "m_nBegin g < m_nEnd g" "m_nEnd g < m_nBegin d"
      "m_nBegin d < m_nEnd d" "m_nEnd d < m_nBegin y" "m_nBegin y < m_nEnd y" "gaps_to (m_nEnd y) ws (m_nBegin z)"
      "m_nBegin z < INT64_MAX" "m_nEnd z = INT64_MAX"
      unfolding map_ok_snoc gaps_to_append by simp_all
  qed
  have y': "m_nBegin y' = m_nBegin y" "m_nEnd y' = m_nEnd y" "m_usecWhenAckPrior y' = t0" by (simp_all add: y'_def)
  have "map_ok ((us @ g # y' # ws) @ [z])" "map_ok ((us @ h # y' # ws) @ [z])"
    unfolding map_ok_snoc gaps_to_append using shape y' by (simp_all add: h_def)
  then have ok1: "map_ok ((us @ [g]) @ y' # vs)" and ok2: "map_ok (us @ h # y' # vs)" by (simp_all add: wz)
  define t where "t = s\<lparr>m_mapPacketGaps := (us @ [g]) @ y' # vs, m_itPendingAck := moved_on (Suc e) a,
    m_itPendingNack := moved_on (Suc e) (m_itPendingNack s)\<rparr>"
  have len: "length gs = Suc (length ((us @ [g]) @ y' # vs))" by (simp add: gs2)
  define N where "N = length ((us @ [g]) @ y' # vs)"
  have soN: "sched_ok (ack_time gs) a (Suc N)" and eN: "Suc e < N" using so len e' by (simp_all add: N_def)
  have so': "sched_ok (time_erase (Suc e) (ack_time gs)) (moved_on (Suc e) a) N"
    unfolding moved_on_def using soN eN by (rule sched_erase)
  have ar': "ack_armed s \<longrightarrow> armed (time_erase (Suc e) (ack_time gs)) (moved_on (Suc e) a) N"
    unfolding moved_on_def ack_armed_def gs_def [symmetric] a_def [symmetric]
    using armed_erase [OF soN eN] len by (simp add: N_def)
  have src: "(us @ [g]) @ d # y # vs = gs" "length (us @ [g]) = Suc e" using gs2 us by simp_all
  have "keeps_all s t"
  proof (rule erased_keeps [OF inv _ ok1, where g = d and y = y and a' = "moved_on (Suc e) a" and k = "moved_on (Suc e) (m_itPendingNack s)"])
    show "sched_ok (time_erase (length (us @ [g])) (ack_time ((us @ [g]) @ d # y # vs))) (moved_on (Suc e) a)
        (length ((us @ [g]) @ y' # vs))"
      unfolding src N_def [symmetric] by (rule so')
    show "ack_armed s \<longrightarrow> armed (time_erase (length (us @ [g])) (ack_time ((us @ [g]) @ d # y # vs)))
        (moved_on (Suc e) a) (length ((us @ [g]) @ y' # vs))"
      unfolding src N_def [symmetric] by (rule ar')
    show "moved_on (Suc e) (m_itPendingNack s) < length ((us @ [g]) @ y' # vs)"
      using kn len e' by (auto simp: moved_on_def)
  qed (use gs2 tmin y' in \<open>simp_all add: gs_def [symmetric] t_def\<close>)
  moreover have "keeps_all t s'"
  proof -
    have tl: "m_mapPacketGaps t = us @ g # y' # vs" "(us @ g # y' # vs)[e := h] = us @ h # y' # vs"
      using us by (simp_all add: t_def list_update_append)
    have "keeps_all t (t\<lparr>m_mapPacketGaps := (m_mapPacketGaps t)[e := h]\<rparr>)"
    proof (rule reshaped_keeps)
      show "map_ok ((m_mapPacketGaps t)[e := h])" unfolding tl by (rule ok2)
    qed (use \<open>keeps_all s t\<close> us in \<open>simp_all add: keeps_all_inv tl h_def nth_append\<close>)
    moreover have "t\<lparr>m_mapPacketGaps := (m_mapPacketGaps t)[e := h]\<rparr> = s'" unfolding tl by (simp add: t_def s'_def)
    ultimately show ?thesis by simp
  qed
  ultimately have keep: "keeps_all s s'" by (blast intro: keeps_all_trans)
  have gz: "gs = (us @ g # d # y # ws) @ [z]" and gz': "us @ h # y' # vs = (us @ h # y' # ws) @ [z]"
    using gs2 wz by simp_all
  have "missing_pkts (us @ h # y' # vs) = missing_pkts gs \<union> {m_nEnd g ..< m_nBegin d}"
    unfolding gz' missing_cover unfolding gz missing_cover using shape(2-5) y' by (auto simp: h_def)
  moreover have "next_pkt (us @ h # y' # vs) = next_pkt gs"
    by (simp add: next_pkt_def gs2 vs)
  moreover note keep \<open>merge_gaps e s = Some s'\<close>
  ultimately show ?thesis
    by (intro that [of s']) (simp_all add: s'_def gs_def [symmetric] g_def [symmetric] d_def [symmetric] len)
qed

text \<open>Merging when the pending ack stands on the gap to be erased and has no time: the iterator dangles.\<close>

lemma merge_dangles:
  assumes "m_itPendingAck s = Suc e" "Suc (Suc e) < length (m_mapPacketGaps s)"
    "\<not> ack_time (m_mapPacketGaps s) (Suc e) < INT64_MAX"
  shows "merge_gaps e s = None"
  using assms by (cases "m_itPendingNack s = Suc e")
    (simp_all add: merge_gaps_def gap_at_def upd_gap_def map_erase_def Let_def)

lemma probe_first_ten:
  assumes "gaps_inv s" "length (m_mapPacketGaps s) = k_nMaxPacketGaps"
  obtains e best where "probe_gaps 10 0 0 INT64_MAX (m_mapPacketGaps s) = Some (e, best)"
    "Suc (Suc (Suc e)) < length (m_mapPacketGaps s)"
proof -
  have "\<exists>e best. probe_gaps 10 0 0 INT64_MAX (m_mapPacketGaps s) = Some (e, best) \<and> e < 10"
    using assms gaps_invD(1) [OF assms(1)] by (intro probe_gaps_result) (simp_all add: k_nMaxPacketGaps_def)
  then obtain e best where "probe_gaps 10 0 0 INT64_MAX (m_mapPacketGaps s) = Some (e, best)" "e < 10" by blast
  moreover from this(2) have "Suc (Suc (Suc e)) < length (m_mapPacketGaps s)"
    unfolding assms(2) k_nMaxPacketGaps_def by linarith
  ultimately show ?thesis by (intro that)
qed

text \<open>What \<open>limit_gaps\<close> leaves: fewer than 62 nodes, nothing that was missing is forgotten, and nothing
  at all happens below the limit. The only way to fail is the dangling iterator.\<close>

definition limited :: "SSNPReceiverState \<Rightarrow> SSNPReceiverState \<Rightarrow> bool" where
  "limited s s' \<longleftrightarrow> keeps_all s s' \<and>
     missing_pkts (m_mapPacketGaps s) \<subseteq> missing_pkts (m_mapPacketGaps s') \<and>
     next_pkt (m_mapPacketGaps s') = next_pkt (m_mapPacketGaps s) \<and>
     length (m_mapPacketGaps s') < k_nMaxPacketGaps \<and>
     (length (m_mapPacketGaps s) < k_nMaxPacketGaps \<longrightarrow> s' = s)"

lemma limit_gaps_result:
  assumes inv: "gaps_inv s" and len: "length (m_mapPacketGaps s) \<le> k_nMaxPacketGaps"
  shows "(\<exists>s'. limit_gaps s = Some s' \<and> limited s s') \<or>
    limit_gaps s = None \<and> \<not> ack_armed s \<and> length (m_mapPacketGaps s) = k_nMaxPacketGaps"
proof (cases "length (m_mapPacketGaps s) < k_nMaxPacketGaps")
  case True
  then have "limit_gaps s = Some s" "limited s s"
    using keeps_all_refl [OF inv] by (simp_all add: limit_gaps_def limited_def)
  then show ?thesis by blast
next
  case False
  then have n: "length (m_mapPacketGaps s) = k_nMaxPacketGaps" using len by simp
  obtain e best where e: "probe_gaps 10 0 0 INT64_MAX (m_mapPacketGaps s) = Some (e, best)"
    "Suc (Suc (Suc e)) < length (m_mapPacketGaps s)"
    using probe_first_ten [OF inv n] .
  have eval: "limit_gaps s = merge_gaps e s" using n e(1) by (simp add: limit_gaps_def)
  show ?thesis
  proof (cases "m_itPendingAck s = Suc e \<and> \<not> ack_time (m_mapPacketGaps s) (Suc e) < INT64_MAX")
    case True
    then have "\<not> ack_armed s" using e(2) by (simp add: ack_armed_def armed_def)
    moreover have "merge_gaps e s = None" using True e(2) by (intro merge_dangles) auto
    ultimately show ?thesis using eval n by simp
  next
    case False
    then obtain s' where s': "merge_gaps e s = Some s'" "keeps_all s s'"
      "missing_pkts (m_mapPacketGaps s') =
         missing_pkts (m_mapPacketGaps s) \<union> {m_nEnd (m_mapPacketGaps s ! e) ..< m_nBegin (m_mapPacketGaps s ! Suc e)}"
      "next_pkt (m_mapPacketGaps s') = next_pkt (m_mapPacketGaps s)"
      "Suc (length (m_mapPacketGaps s')) = length (m_mapPacketGaps s)"
      using merge_result [OF inv e(2)] by blast
    then have "limited s s'" using n by (simp add: limited_def)
    with eval s'(1) show ?thesis by auto
  qed
qed

subsection \<open>The packet expected next, and the ones beyond it\<close>

text \<open>The sentinel moves on to \<open>n + 1\<close>.\<close>

lemma advance_sentinel:
  fixes now :: int
  assumes inv: "gaps_inv s" and n: "next_pkt (m_mapPacketGaps s) \<le> n" "n + 1 < INT64_MAX"
  obtains us z where "m_mapPacketGaps s = us @ [z]" "m_nBegin z = next_pkt (m_mapPacketGaps s)"
    "gaps_to 0 us (m_nBegin z)" "m_nEnd z = INT64_MAX"
    "upd_gap (length us) (\<lambda>g. g\<lparr>m_nBegin := n + 1, m_usecWhenReceivedPktBefore := now\<rparr>) (m_mapPacketGaps s) =
      Some (us @ [z\<lparr>m_nBegin := n + 1, m_usecWhenReceivedPktBefore := now\<rparr>])"
    "keeps_all s (s\<lparr>m_mapPacketGaps := us @ [z\<lparr>m_nBegin := n + 1, m_usecWhenReceivedPktBefore := now\<rparr>]\<rparr>)"
proof -
  obtain us z where gs: "m_mapPacketGaps s = us @ [z]" "gaps_to 0 us (m_nBegin z)" "m_nBegin z < INT64_MAX" "m_nEnd z = INT64_MAX"
    using gaps_invD(1) [OF inv] by (rule map_okE)
  define z' where "z' = z\<lparr>m_nBegin := n + 1, m_usecWhenReceivedPktBefore := now\<rparr>"
  have g2: "gaps_to 0 us (n + 1)" using gs(2) by (rule gaps_to_mono) (use n gs(1) in simp)
  have "(m_mapPacketGaps s)[length us := z'] = us @ [z']" by (simp add: gs(1))
  moreover have "keeps_all s (s\<lparr>m_mapPacketGaps := (m_mapPacketGaps s)[length us := z']\<rparr>)"
  proof (rule reshaped_keeps [OF inv])
    show "map_ok ((m_mapPacketGaps s)[length us := z'])"
      using g2 n(2) gs(4) by (simp add: gs(1) map_ok_snoc z'_def)
  qed (use n gs(1) in \<open>simp_all add: z'_def\<close>)
  ultimately show ?thesis using gs by (intro that [of us z]) (simp_all add: z'_def upd_gap_def)
qed

lemma record_in_order_result:
  assumes inv: "gaps_inv s" and n: "n = next_pkt (m_mapPacketGaps s)" "n + 1 < INT64_MAX"
  obtains s' where "record_in_order n now b s = Some s'" "keeps_all s s'"
    "missing_pkts (m_mapPacketGaps s') = missing_pkts (m_mapPacketGaps s)"
    "next_pkt (m_mapPacketGaps s') = n + 1" "length (m_mapPacketGaps s') = length (m_mapPacketGaps s)"
    "b \<Longrightarrow> ack_due (m_mapPacketGaps s') n (now + k_usecMaxDataAckDelay)"
proof -
  obtain us z where gs: "m_mapPacketGaps s = us @ [z]" "m_nBegin z = next_pkt (m_mapPacketGaps s)"
    "gaps_to 0 us (m_nBegin z)" "m_nEnd z = INT64_MAX"
    "upd_gap (length us) (\<lambda>g. g\<lparr>m_nBegin := n + 1, m_usecWhenReceivedPktBefore := now\<rparr>) (m_mapPacketGaps s) =
      Some (us @ [z\<lparr>m_nBegin := n + 1, m_usecWhenReceivedPktBefore := now\<rparr>])"
    "keeps_all s (s\<lparr>m_mapPacketGaps := us @ [z\<lparr>m_nBegin := n + 1, m_usecWhenReceivedPktBefore := now\<rparr>]\<rparr>)"
    using advance_sentinel [OF inv, of n now] n by auto
  define s1 where "s1 = s\<lparr>m_mapPacketGaps := us @ [z\<lparr>m_nBegin := n + 1, m_usecWhenReceivedPktBefore := now\<rparr>]\<rparr>"
  have inv1: "gaps_inv s1" using gs(6) by (simp add: s1_def keeps_all_inv)
  have s1: "missing_pkts (m_mapPacketGaps s1) = missing_pkts (m_mapPacketGaps s)"
    "next_pkt (m_mapPacketGaps s1) = n + 1" "length (m_mapPacketGaps s1) = length (m_mapPacketGaps s)"
    by (simp_all add: s1_def gs(1) missing_cover)
  have sp: "sentinel_pos (m_mapPacketGaps s) = Some (length us)" by (simp add: sentinel_pos_def gs(1))
  have eval: "record_in_order n now b s =
      (if b then QueueFlushAllAcks (now + k_usecMaxDataAckDelay) s1 else Some s1)"
    by (simp add: record_in_order_def sp gs(5) s1_def Let_def)
  show ?thesis
  proof (cases b)
    case False
    with eval s1 gs(6) show ?thesis by (intro that [of s1]) (simp_all add: s1_def)
  next
    case True
    obtain T a s' where q: "QueueFlushAllAcks (now + k_usecMaxDataAckDelay) s1 = Some s'" "rescheduled s1 T a s'"
      "T (length (m_mapPacketGaps s1) - 1) \<le> now + k_usecMaxDataAckDelay"
      using QueueFlush_result [OF inv1] .
    have "ack_due (m_mapPacketGaps s') n (now + k_usecMaxDataAckDelay)"
      using q(2) _ _ q(3) by (rule rescheduled_due) (simp_all add: s1_def)
    with eval True q(1) s1 rescheduled_facts(3-5) [OF inv1 q(2)]
      keeps_all_trans [OF gs(6) [folded s1_def] rescheduled_keeps [OF inv1 q(2)]]
    show ?thesis by (intro that [of s']) simp_all
  qed
qed

text \<open>The new gap takes the time of the sentinel; if that was pending, it is the new gap that is pending.\<close>

lemma sched_before_sentinel:
  assumes so: "sched_ok T a (Suc m)"
  defines "a' \<equiv> (if a = m \<and> INT64_MAX \<le> T m then Suc m else a)"
  shows "sched_ok (time_insert m (T m) T) a' (Suc (Suc m))"
    and "armed T a (Suc m) \<longrightarrow> armed (time_insert m (T m) T) a' (Suc (Suc m))"
proof -
  have le: "a \<le> m" "T m \<le> INT64_MAX" using sched_okD(1) [OF so] sched_okD(4) [OF so, of m] by simp_all
  consider (never) "a = m" "T m = INT64_MAX" | (pending) "a = m" "T m < INT64_MAX" | (other) "a < m"
    using le by linarith
  then have "sched_ok (time_insert m (T m) T) a' (Suc (Suc m)) \<and>
      (armed T a (Suc m) \<longrightarrow> armed (time_insert m (T m) T) a' (Suc (Suc m)))"
  proof cases
    case never
    then show ?thesis using sched_insert [OF so, of m "T m"] by (simp add: a'_def armed_def)
  next
    case pending
    then show ?thesis using sched_double_last [of T m] so by (simp add: a'_def armed_def time_insert_def)
  next
    case other
    then have "T (m - 1) \<le> T m" using sched_okD(3) [OF so, of "m - 1" m] by simp
    then show ?thesis using other le sched_insert [OF so, of m "T m"] armed_insert [of T a "Suc m" m "T m"]
      by (simp add: a'_def)
  qed
  then show "sched_ok (time_insert m (T m) T) a' (Suc (Suc m))"
    "armed T a (Suc m) \<longrightarrow> armed (time_insert m (T m) T) a' (Suc (Suc m))" by simp_all
qed

lemma record_ahead_result:
  assumes inv: "gaps_inv s" and n: "next_pkt (m_mapPacketGaps s) < n" "n + 1 < INT64_MAX"
  obtains s' where "record_ahead nMax n now t s = Some s'" "keeps_all s s'"
    "missing_pkts (m_mapPacketGaps s') =
       missing_pkts (m_mapPacketGaps s) \<union> {next_pkt (m_mapPacketGaps s) ..< n}"
    "next_pkt (m_mapPacketGaps s') = n + 1"
    "length (m_mapPacketGaps s') = Suc (length (m_mapPacketGaps s))"
    "ack_due (m_mapPacketGaps s') n t"
proof -
  obtain us z where gs: "m_mapPacketGaps s = us @ [z]" "m_nBegin z = next_pkt (m_mapPacketGaps s)"
    "gaps_to 0 us (m_nBegin z)" "m_nEnd z = INT64_MAX"
    "upd_gap (length us) (\<lambda>g. g\<lparr>m_nBegin := n + 1, m_usecWhenReceivedPktBefore := now\<rparr>) (m_mapPacketGaps s) =
      Some (us @ [z\<lparr>m_nBegin := n + 1, m_usecWhenReceivedPktBefore := now\<rparr>])"
    "keeps_all s (s\<lparr>m_mapPacketGaps := us @ [z\<lparr>m_nBegin := n + 1, m_usecWhenReceivedPktBefore := now\<rparr>]\<rparr>)"
    using advance_sentinel [OF inv, of n now] n by auto
  define m where "m = length us"
  define z' where "z' = z\<lparr>m_nBegin := n + 1, m_usecWhenReceivedPktBefore := now\<rparr>"
  define s1 where "s1 = s\<lparr>m_mapPacketGaps := us @ [z']\<rparr>"
  have z': "m_nBegin z' = n + 1" "m_nEnd z' = INT64_MAX" "m_usecWhenAckPrior z' = m_usecWhenAckPrior z"
    using gs(4) by (simp_all add: z'_def)
  have k1: "keeps_all s s1" using gs(6) by (simp add: s1_def z'_def)
  define x where "x = \<lparr>m_nBegin = m_nBegin z, m_nEnd = n, m_usecWhenReceivedPktBefore = m_usecWhenReceivedPktBefore z,
    m_usecWhenAckPrior = m_usecWhenAckPrior z,
    m_usecWhenOKToNack = (if n < nMax + 3 then now + k_usecNackFlush else now)\<rparr>"
  define a where "a = m_itPendingAck s"
  define k where "k = m_itPendingNack s"
  define T where "T = ack_time (us @ [z'])"
  have Tm: "T m = m_usecWhenAckPrior z" by (simp add: T_def m_def z')
  have inv1: "gaps_inv s1" using k1 by (rule keeps_all_inv)
  have so: "sched_ok T a (Suc m)" and km: "k \<le> m" and am: "a \<le> m" and Tmax: "T m \<le> INT64_MAX"
    using gaps_invD [OF inv1] sched_okD(1) [OF gaps_invD(3) [OF inv1]]
      sched_okD(4) [OF gaps_invD(3) [OF inv1], of m]
    by (simp_all add: s1_def T_def a_def k_def m_def)
  define a' where "a' = (if a = m \<and> INT64_MAX \<le> T m then Suc m else a)"
  define s2 where "s2 = s1\<lparr>m_mapPacketGaps := us @ x # [z'], m_itPendingAck := a', m_itPendingNack := k\<rparr>"
  have keys: "\<forall>h \<in> set us. m_nBegin h < m_nBegin x" "m_nBegin x < m_nBegin z'"
    using gaps_to_mem [OF gs(3)] gs(2) n z' by (force simp: x_def)+
  have ins: "map_insert x s1 = (s1\<lparr>m_mapPacketGaps := us @ x # [z'],
      m_itPendingAck := (if m \<le> a then a + 1 else a), m_itPendingNack := (if m \<le> k then k + 1 else k)\<rparr>, m)"
    using map_insert_between [of s1 us z' "[]" x, OF _ keys] by (simp add: s1_def a_def k_def m_def)
  have pos: "gap_at (us @ x # [z']) m = Some x" "gap_at (us @ x # [z']) (Suc m) = Some z'"
    by (simp_all add: gap_at_def m_def nth_append)
  have early: "\<exists>g. gap_at (us @ x # [z']) i = Some g \<and> m_nEnd g \<noteq> INT64_MAX" if "i < m" for i
  proof -
    have "us ! i \<in> set us" using that by (simp add: m_def)
    then have "m_nEnd (us ! i) < m_nBegin z" using gaps_to_mem [OF gs(3)] by simp
    then show ?thesis using that gs(2) n by (auto simp: gap_at_def m_def nth_append)
  qed
  have sp: "sentinel_pos (us @ [z]) = Some m" "gap_at (us @ [z]) m = Some z"
    by (simp_all add: sentinel_pos_def gap_at_def m_def)
  have upd: "upd_gap m (\<lambda>g. g\<lparr>m_nBegin := n + 1, m_usecWhenReceivedPktBefore := now\<rparr>) (us @ [z]) = Some (us @ [z'])"
    using gs(5) by (simp add: gs(1) m_def z'_def)
  have eval: "record_ahead nMax n now t s = QueueFlushAllAcks t s2"
  proof -
    have ifs: "(if m \<le> k then k + 1 else k) = (if k = m then Suc m else k)"
      "(if m \<le> a then a + 1 else a) = (if a = m then Suc m else a)" using km am by auto
    have ek: "k \<noteq> m \<Longrightarrow> \<exists>g. gap_at (us @ x # [z']) k = Some g \<and> m_nEnd g \<noteq> INT64_MAX"
      and ea: "a \<noteq> m \<Longrightarrow> \<exists>g. gap_at (us @ x # [z']) a = Some g \<and> m_nEnd g \<noteq> INT64_MAX"
      using early [of k] early [of a] km am by auto
    have s2: "s2 = s1\<lparr>m_mapPacketGaps := us @ x # [z'], m_itPendingNack := k, m_itPendingAck := a'\<rparr>"
      unfolding s2_def by (cases s1) simp
    have same: "u\<lparr>m_mapPacketGaps := us @ [x, z'], m_itPendingAck := i, m_itPendingNack := j, m_itPendingAck := l\<rparr> =
        u\<lparr>m_mapPacketGaps := us @ [x, z'], m_itPendingNack := j, m_itPendingAck := l\<rparr>"
      "u\<lparr>m_mapPacketGaps := us @ [x, z'], m_itPendingAck := i, m_itPendingNack := j\<rparr> =
        u\<lparr>m_mapPacketGaps := us @ [x, z'], m_itPendingNack := j, m_itPendingAck := i\<rparr>" for u :: SSNPReceiverState and i j l
      by (cases u, simp)+
    note unf = record_ahead_def gs(1) sp upd x_def [symmetric] s1_def [symmetric] ins ifs pos z' s2 a'_def same
    show ?thesis
    proof (cases "k = m"; cases "a = m")
      assume "k = m" "a = m"
      then show ?thesis using Tm by (simp add: unf)
    next
      assume "k = m" "a \<noteq> m"
      then show ?thesis using ea by (auto simp: unf)
    next
      assume "k \<noteq> m" "a = m"
      then show ?thesis using ek Tm by (auto simp: unf)
    next
      assume "k \<noteq> m" "a \<noteq> m"
      then show ?thesis using ea ek by (auto simp: unf)
    qed
  qed
  have ok2: "map_ok (us @ x # [z'])"
    using map_ok_snoc [of "us @ [x]" z'] gs(2,3) n z' by (simp add: gaps_to_append x_def)
  have k2: "keeps_all s1 s2"
  proof (rule inserted_keeps [OF inv1 _ ok2 s2_def])
    have xt: "m_usecWhenAckPrior x = T m" by (simp add: x_def Tm)
    show "sched_ok (time_insert (length us) (m_usecWhenAckPrior x) (ack_time (us @ [z']))) a' (Suc (length (us @ [z'])))"
      using sched_before_sentinel(1) [OF so] unfolding xt by (simp add: a'_def T_def m_def)
    show "ack_armed s1 \<longrightarrow>
        armed (time_insert (length us) (m_usecWhenAckPrior x) (ack_time (us @ [z']))) a' (Suc (length (us @ [z'])))"
      using sched_before_sentinel(2) [OF so] unfolding xt
      by (simp add: a'_def T_def m_def ack_armed_def s1_def a_def)
  qed (use km in \<open>simp_all add: s1_def m_def\<close>)
  have inv2: "gaps_inv s2" using k2 by (rule keeps_all_inv)
  have s2: "missing_pkts (m_mapPacketGaps s2) = missing_pkts (m_mapPacketGaps s) \<union> {next_pkt (m_mapPacketGaps s) ..< n}"
    "next_pkt (m_mapPacketGaps s2) = n + 1" "length (m_mapPacketGaps s2) = Suc (length (m_mapPacketGaps s))"
  proof -
    have m2: "m_mapPacketGaps s2 = (us @ [x]) @ [z']" by (simp add: s2_def)
    show "missing_pkts (m_mapPacketGaps s2) = missing_pkts (m_mapPacketGaps s) \<union> {next_pkt (m_mapPacketGaps s) ..< n}"
      unfolding m2 gs(1) missing_cover next_snoc by (auto simp: x_def)
    show "next_pkt (m_mapPacketGaps s2) = n + 1" unfolding m2 next_snoc by (rule z')
    show "length (m_mapPacketGaps s2) = Suc (length (m_mapPacketGaps s))" by (simp add: m2 gs(1))
  qed
  obtain T' b s' where q: "QueueFlushAllAcks t s2 = Some s'" "rescheduled s2 T' b s'"
    "T' (length (m_mapPacketGaps s2) - 1) \<le> t"
    using QueueFlush_result [OF inv2] .
  have "ack_due (m_mapPacketGaps s') n t"
    using q(2) _ _ q(3) by (rule rescheduled_due) (simp_all add: s2_def z' nth_append)
  with q(1) eval s2 rescheduled_facts(3-5) [OF inv2 q(2)]
    keeps_all_trans [OF k1 keeps_all_trans [OF k2 rescheduled_keeps [OF inv2 q(2)]]]
  show ?thesis by (intro that [of s']) simp_all
qed

subsection \<open>The whole operation\<close>

text \<open>The abstract effect of recording packet \<open>n\<close> when \<open>M\<close> is the set of the missing packets and \<open>N\<close> the
  next one.\<close>

definition record_missing :: "int \<Rightarrow> int set \<Rightarrow> int \<Rightarrow> int set" where
  "record_missing n M N = (if n < N then M - {n} else M \<union> {N ..< n})"

text \<open>The ack that is due after the packet: only a packet that is news is scheduled.\<close>

definition recorded :: "int \<Rightarrow> int \<Rightarrow> bool \<Rightarrow> SSNPReceiverState \<Rightarrow> SSNPReceiverState \<Rightarrow> bool" where
  "recorded n now b s s' \<longleftrightarrow> (let gs = m_mapPacketGaps s; gs' = m_mapPacketGaps s' in
     keeps_all s s' \<and> length gs' < k_nMaxPacketGaps \<and>
     (if n < m_nMinPktNumToSendAcks s then s' = s
      else record_missing n (missing_pkts gs) (next_pkt gs) \<subseteq> missing_pkts gs' \<and>
           (Suc (length gs) < k_nMaxPacketGaps \<longrightarrow>
              missing_pkts gs' = record_missing n (missing_pkts gs) (next_pkt gs)) \<and>
           next_pkt gs' = max (next_pkt gs) (n + 1) \<and>
           (b \<and> (next_pkt gs \<le> n \<or> n \<in> missing_pkts gs) \<longrightarrow> ack_due gs' n (now + k_usecMaxDataAckDelay))))"

lemma limited_recorded:
  assumes k: "keeps_all s t" and l: "limited t s'" and n: "\<not> n < m_nMinPktNumToSendAcks s"
    and m: "missing_pkts (m_mapPacketGaps t) = record_missing n (missing_pkts (m_mapPacketGaps s)) (next_pkt (m_mapPacketGaps s))"
    and x: "next_pkt (m_mapPacketGaps t) = max (next_pkt (m_mapPacketGaps s)) (n + 1)"
    and len: "length (m_mapPacketGaps t) \<le> Suc (length (m_mapPacketGaps s))"
    and due: "b \<longrightarrow> ack_due (m_mapPacketGaps t) n (now + k_usecMaxDataAckDelay)"
  shows "recorded n now b s s'"
proof -
  have "ack_due (m_mapPacketGaps t) p u \<longrightarrow> ack_due (m_mapPacketGaps s') p u" for p u
    using l by (simp add: limited_def keeps_all_def)
  then show ?thesis using l n m x len due keeps_all_trans [OF k, of s']
    by (auto simp: recorded_def limited_def Let_def)
qed

lemma missing_below_next: "map_ok gs \<Longrightarrow> n \<in> missing_pkts gs \<Longrightarrow> 0 < n \<and> n < next_pkt gs"
  by (elim map_okE) (use cover_bounds in \<open>fastforce simp: missing_cover\<close>)

lemma Record_result:
  assumes inv: "gaps_inv s" and len: "length (m_mapPacketGaps s) < k_nMaxPacketGaps" and n: "n + 1 < INT64_MAX"
  shows "(\<exists>s' w. SNP_RecordReceivedPktNum nMax n now b s = Some (s', w) \<and> recorded n now b s s') \<or>
    SNP_RecordReceivedPktNum nMax n now b s = None \<and> \<not> ack_armed s \<and>
      Suc (length (m_mapPacketGaps s)) = k_nMaxPacketGaps"
proof -
  define gs where "gs = m_mapPacketGaps s"
  have ok: "map_ok gs" and ne: "gs \<noteq> []" using gaps_invD [OF inv] by (simp_all add: gs_def)
  define m where "m = length gs - 1"
  have sp: "sentinel_pos gs = Some m" "gap_at gs m = Some (last gs)"
    using ne by (simp_all add: sentinel_pos_def gap_at_def last_conv_nth m_def)
  define N where "N = next_pkt gs"
  define t where "t = (if b then now + k_usecMaxDataAckDelay else INT64_MAX)"
  have key: "m_nBegin (last gs) = N" by (simp add: N_def next_pkt_def)
  consider (old) "n < m_nMinPktNumToSendAcks s" | (inorder) "\<not> n < m_nMinPktNumToSendAcks s" "n = N"
    | (ahead) "\<not> n < m_nMinPktNumToSendAcks s" "N < n" | (late) "\<not> n < m_nMinPktNumToSendAcks s" "n < N"
    by linarith
  then show ?thesis
  proof cases
    case old
    then have "SNP_RecordReceivedPktNum nMax n now b s = Some (s, None)"
      by (simp add: SNP_RecordReceivedPktNum_def)
    moreover have "recorded n now b s s" using old keeps_all_refl [OF inv] len by (simp add: recorded_def)
    ultimately show ?thesis by blast
  next
    case inorder
    obtain s' where s': "record_in_order n now b s = Some s'" "keeps_all s s'"
      "missing_pkts (m_mapPacketGaps s') = missing_pkts (m_mapPacketGaps s)"
      "next_pkt (m_mapPacketGaps s') = n + 1" "length (m_mapPacketGaps s') = length (m_mapPacketGaps s)"
      "b \<Longrightarrow> ack_due (m_mapPacketGaps s') n (now + k_usecMaxDataAckDelay)"
      using record_in_order_result [OF inv _ n, of now b] inorder(2) unfolding N_def gs_def by metis
    have "SNP_RecordReceivedPktNum nMax n now b s = Some (s', None)"
      using inorder s'(1) by (simp add: SNP_RecordReceivedPktNum_def gs_def [symmetric] sp key)
    moreover have "recorded n now b s s'"
      using inorder s'(2-6) len by (simp add: recorded_def record_missing_def Let_def N_def gs_def)
    ultimately show ?thesis by blast
  next
    case ahead
    obtain s1 where s1: "record_ahead nMax n now t s = Some s1" "keeps_all s s1"
      "missing_pkts (m_mapPacketGaps s1) = missing_pkts (m_mapPacketGaps s) \<union> {next_pkt (m_mapPacketGaps s) ..< n}"
      "next_pkt (m_mapPacketGaps s1) = n + 1" "length (m_mapPacketGaps s1) = Suc (length (m_mapPacketGaps s))"
      "ack_due (m_mapPacketGaps s1) n t"
      using record_ahead_result [OF inv _ n] ahead(2) unfolding N_def gs_def by metis
    have eval: "SNP_RecordReceivedPktNum nMax n now b s = map_option (\<lambda>s. (s, None)) (limit_gaps s1)"
      using ahead s1(1) by (cases "limit_gaps s1")
        (simp_all add: SNP_RecordReceivedPktNum_def gs_def [symmetric] sp key t_def)
    have due: "b \<longrightarrow> ack_due (m_mapPacketGaps s1) n (now + k_usecMaxDataAckDelay)"
      using s1(6) by (cases b) (simp_all add: t_def)
    have "length (m_mapPacketGaps s1) \<le> k_nMaxPacketGaps" using s1(5) len by simp
    from limit_gaps_result [OF keeps_all_inv [OF s1(2)] this] show ?thesis
    proof (elim disjE exE conjE)
      fix s' assume s': "limit_gaps s1 = Some s'" "limited s1 s'"
      have "recorded n now b s s'"
        using s1(2) s'(2) ahead(1)
        by (rule limited_recorded) (use s1(3-5) due ahead(2) in \<open>simp_all add: record_missing_def N_def gs_def\<close>)
      with s'(1) eval show ?thesis by simp
    next
      assume "limit_gaps s1 = None" "\<not> ack_armed s1" "length (m_mapPacketGaps s1) = k_nMaxPacketGaps"
      then show ?thesis using eval s1(2,5) by (auto simp: keeps_all_def)
    qed
  next
    case late
    show ?thesis
    proof (cases "find_gap n gs")
      case None
      then have "n \<notin> missing_pkts gs" using find_gap_complete [OF ok] by blast
      moreover have "SNP_RecordReceivedPktNum nMax n now b s = Some (s, None)"
        using late None by (simp add: SNP_RecordReceivedPktNum_def gs_def [symmetric] sp key)
      ultimately show ?thesis using late keeps_all_refl [OF inv] len
        by (auto simp: recorded_def record_missing_def Let_def N_def gs_def)
    next
      case (Some j)
      have j: "Suc j < length gs" "m_nBegin (gs ! j) \<le> n" "n < m_nEnd (gs ! j)"
        using find_gapD [OF Some ok] late(2) by (simp_all add: N_def)
      obtain s1 i t' where f: "fill_gap j n now t s = Some (s1, i, t')" "t' \<le> t" "keeps_all s s1"
        "missing_pkts (m_mapPacketGaps s1) = missing_pkts (m_mapPacketGaps s) - {n}"
        "next_pkt (m_mapPacketGaps s1) = next_pkt (m_mapPacketGaps s)"
        "length (m_mapPacketGaps s1) \<le> Suc (length (m_mapPacketGaps s))"
        "i < length (m_mapPacketGaps s1)" "n < m_nBegin (m_mapPacketGaps s1 ! i)"
        using fill_gap_result [OF inv, of j n now t] j unfolding gs_def by metis
      have inv1: "gaps_inv s1" using f(3) by (rule keeps_all_inv)
      obtain T a s2 where s2: "schedule_ack i t' s1 = Some s2" "rescheduled s1 T a s2"
        "\<exists>k \<ge> i. k < length (m_mapPacketGaps s1) \<and> T k \<le> t'"
        using schedule_ack_result [OF inv1 f(7)] .
      obtain k where k: "i \<le> k" "k < length (m_mapPacketGaps s1)" "T k \<le> t'" using s2(3) by blast
      have nk: "n < m_nBegin (m_mapPacketGaps s1 ! k)"
        using ack_due_later [OF gaps_invD(1) [OF inv1] k(1,2) f(8)] .
      have "T k \<le> t" using k(3) f(2) by simp
      with s2(2) k(2) nk have "ack_due (m_mapPacketGaps s2) n t" by (rule rescheduled_due)
      then have due: "b \<longrightarrow> ack_due (m_mapPacketGaps s2) n (now + k_usecMaxDataAckDelay)"
        by (cases b) (simp_all add: t_def)
      note r = rescheduled_facts [OF inv1 s2(2)]
      have keep2: "keeps_all s s2" using keeps_all_trans [OF f(3) rescheduled_keeps [OF inv1 s2(2)]] .
      have inv2: "gaps_inv s2" using keep2 by (rule keeps_all_inv)
      obtain w where w: "(if b then map_option Some (TimeWhenFlushAcks s2) else Some None) = Some w"
        using gaps_invD [OF inv2] by (cases b) (auto simp: TimeWhenFlushAcks_def gap_at_def)
      have eval: "SNP_RecordReceivedPktNum nMax n now b s = map_option (\<lambda>s. (s, w)) (limit_gaps s2)"
        using late Some f(1) s2(1) w by (cases "limit_gaps s2")
          (simp_all add: SNP_RecordReceivedPktNum_def gs_def [symmetric] sp key t_def Let_def)
      have "length (m_mapPacketGaps s2) \<le> k_nMaxPacketGaps" using r(5) f(6) len by simp
      from limit_gaps_result [OF inv2 this] show ?thesis
      proof (elim disjE exE conjE)
        fix s' assume s': "limit_gaps s2 = Some s'" "limited s2 s'"
        have "recorded n now b s s'"
          using keep2 s'(2) late(1)
          by (rule limited_recorded) (use r(3-5) f(4-6) late(2) due in \<open>simp_all add: record_missing_def N_def gs_def\<close>)
        with s'(1) eval show ?thesis by simp
      next
        assume "limit_gaps s2 = None" "\<not> ack_armed s2" "length (m_mapPacketGaps s2) = k_nMaxPacketGaps"
        then show ?thesis using eval keep2 r(5) f(6) len by (auto simp: keeps_all_def)
      qed
    qed
  qed
qed

end
