(* ===== verification/SnpGapsRun.thy ===== *)
theory SnpGapsRun
  imports SnpGapsRecord
begin

text \<open>
  The life of the receiver's packet gap map: packets recorded, acks scheduled and sent, old packets
  given up. The step relation, what holds in every reachable state, and the one way the map can be
  corrupted.
\<close>

subsection \<open>Giving up packets\<close>

lemma sched_tail:
  assumes so: "sched_ok T a (Suc n)" and n: "0 < n"
  shows "sched_ok (\<lambda>i. T (Suc i)) (a - 1) n"
  unfolding sched_ok_def
proof (intro conjI allI impI)
  fix i j assume "a - 1 \<le> i" "i \<le> j" "j < n"
  then show "T (Suc i) \<le> T (Suc j)" by (intro sched_okD(3) [OF so]) auto
qed (use sched_okD(1,2,4) [OF so] n in auto)

lemma map_ok_tail: "map_ok (h # gs) \<Longrightarrow> gs \<noteq> [] \<Longrightarrow> map_ok gs"
  by (auto simp: map_ok_def intro: gaps_to_lower)

lemma map_ok_head_end: "map_ok (h # gs) \<Longrightarrow> gs \<noteq> [] \<Longrightarrow> m_nBegin h < m_nEnd h \<and> m_nEnd h < m_nBegin (hd gs)"
  by (cases gs) (auto simp: map_ok_def split: if_splits)

lemma missing_Cons: "gs \<noteq> [] \<Longrightarrow> missing_pkts (h # gs) = {m_nBegin h ..< m_nEnd h} \<union> missing_pkts gs"
  by (auto simp: missing_pkts_def)

lemma missing_lower_bound:
  assumes "map_ok gs" "n \<in> missing_pkts gs"
  shows "m_nBegin (hd gs) \<le> n"
proof -
  obtain j where j: "Suc j < length gs" "m_nBegin (gs ! j) \<le> n" using assms(2) unfolding missing_nth by blast
  moreover from j(1) have "0 < length gs" "j < length gs" by linarith+
  then have "m_nBegin (gs ! 0) \<le> m_nBegin (gs ! j)" using begins_le_iff [OF assms(1), of 0 j] by simp
  moreover have "hd gs = gs ! 0" using j(1) by (cases gs) auto
  ultimately show ?thesis by simp
qed

lemma head_le_next:
  assumes "map_ok gs"
  shows "m_nBegin (hd gs) \<le> next_pkt gs"
proof -
  have ne: "gs \<noteq> []" using assms by (simp add: map_ok_def)
  then have "m_nBegin (gs ! 0) \<le> m_nBegin (gs ! (length gs - 1))" using begins_le_iff [OF assms, of 0] by simp
  with ne show ?thesis by (simp add: next_pkt_def hd_conv_nth last_conv_nth)
qed

lemma trim_front_result:
  assumes "map_ok gs" "sched_ok (ack_time gs) a (length gs)" "k < length gs" "0 < m" "m < INT64_MAX"
  shows "\<exists>gs' a' k'. trim_front m gs a k = Some (gs', a', k') \<and> map_ok gs' \<and>
    sched_ok (ack_time gs') a' (length gs') \<and> k' < length gs' \<and> length gs' \<le> length gs \<and>
    missing_pkts gs' = missing_pkts gs \<inter> {m..} \<and> next_pkt gs' = max m (next_pkt gs)"
  using assms
proof (induction m gs a k rule: trim_front.induct)
  case (2 m h gs a k)
  show ?case
  proof (cases "m_nBegin h \<le> m")
    case False
    then have "missing_pkts (h # gs) \<inter> {m..} = missing_pkts (h # gs)"
      using missing_lower_bound [OF "2.prems"(1)] by fastforce
    moreover have "m < next_pkt (h # gs)" using False head_le_next [OF "2.prems"(1)] by simp
    ultimately show ?thesis using False "2.prems" by (auto simp: max_def)
  next
    case le: True
    show ?thesis
    proof (cases "m_nEnd h > m")
      case True
      define h' where "h' = h\<lparr>m_nBegin := m\<rparr>"
      have t: "ack_time (h' # gs) i = ack_time (h # gs) i" for i by (cases i) (simp_all add: h'_def)
      have so: "sched_ok (ack_time (h' # gs)) a (length (h' # gs))"
        using "2.prems"(2) unfolding t by simp
      have ok: "map_ok (h' # gs)"
        using "2.prems"(1,4,5) le True by (auto simp: map_ok_def h'_def)
      have mi: "missing_pkts (h' # gs) = missing_pkts (h # gs) \<inter> {m..}"
      proof (cases "gs = []")
        case ne: False
        have "m < n" if "n \<in> missing_pkts gs" for n
          using missing_lower_bound [OF map_ok_tail [OF "2.prems"(1) ne] that] map_ok_head_end [OF "2.prems"(1) ne] True by simp
        then show ?thesis using le by (force simp: missing_Cons [OF ne] h'_def)
      qed (simp add: missing_pkts_def)
      have "next_pkt (h' # gs) = max m (next_pkt (h # gs))"
      proof (cases "gs = []")
        case ne: False
        have "m < m_nBegin (hd gs)" using True map_ok_head_end [OF "2.prems"(1) ne] by simp
        also have "\<dots> \<le> next_pkt gs" using map_ok_tail [OF "2.prems"(1) ne] by (rule head_le_next)
        finally show ?thesis using ne by (simp add: next_pkt_def h'_def)
      qed (use le in \<open>simp add: next_pkt_def h'_def\<close>)
      with so ok mi le True "2.prems"(3) show ?thesis by (simp add: h'_def)
    next
      case False
      have ne: "gs \<noteq> []"
        using False "2.prems"(1,5) by (auto simp: map_ok_def)
      have so: "sched_ok (ack_time gs) (a - 1) (length gs)"
        using sched_tail [of "ack_time (h # gs)" a "length gs"] "2.prems"(2) ne by simp
      have k: "k - 1 < length gs" using "2.prems"(3) ne by (cases k) auto
      have ak: "(if a = 0 then a + 1 else a) - 1 = a - 1" "(if k = 0 then k + 1 else k) - 1 = k - 1" by auto
      have "\<exists>gs' a' k'. trim_front m gs (a - 1) (k - 1) = Some (gs', a', k') \<and> map_ok gs' \<and>
        sched_ok (ack_time gs') a' (length gs') \<and> k' < length gs' \<and> length gs' \<le> length gs \<and>
        missing_pkts gs' = missing_pkts gs \<inter> {m..} \<and> next_pkt gs' = max m (next_pkt gs)"
        using "2.IH" [OF le False refl refl] map_ok_tail [OF "2.prems"(1) ne] so k "2.prems"(4,5)
        unfolding ak by simp
      moreover have "missing_pkts (h # gs) \<inter> {m..} = missing_pkts gs \<inter> {m..}"
        using False by (auto simp: missing_Cons [OF ne])
      moreover have "next_pkt (h # gs) = next_pkt gs" using ne by (simp add: next_pkt_def)
      ultimately show ?thesis using le False ak by (auto simp: Let_def)
    qed
  qed
qed simp

lemma StopWaiting_result:
  assumes inv: "gaps_inv s" and n: "0 < n" "n < INT64_MAX" and min: "0 \<le> m_nMinPktNumToSendAcks s"
  obtains (error) e where "ReceiveStopWaiting n off s = Some (Inl e)"
  | (ok) s' where "ReceiveStopWaiting n off s = Some (Inr s')" "gaps_inv s'"
      "m_nMinPktNumToSendAcks s \<le> m_nMinPktNumToSendAcks s'"
      "length (m_mapPacketGaps s') \<le> length (m_mapPacketGaps s)"
      "s' = s \<or> missing_pkts (m_mapPacketGaps s') = missing_pkts (m_mapPacketGaps s) \<inter> {m_nMinPktNumToSendAcks s'..} \<and>
         next_pkt (m_mapPacketGaps s') = max (m_nMinPktNumToSendAcks s') (next_pkt (m_mapPacketGaps s))"
proof -
  define w where "w = (word_of_int n :: 64 word) - (off + 1)"
  define m where "m = sint w"
  have n': "uint (word_of_int n :: 64 word) = n"
    using n by (simp add: uint_word_of_int INT64_MAX_def take_bit_int_eq_self)
  consider (bad) "word_of_int n \<le> w" | (same) "w < word_of_int n" "m = m_nMinPktNumToSendAcks s"
    | (less) "w < word_of_int n" "m < m_nMinPktNumToSendAcks s" | (more) "w < word_of_int n" "m_nMinPktNumToSendAcks s < m"
    by (cases "w < word_of_int n") (auto simp: not_less, linarith)
  then show ?thesis
  proof cases
    case bad
    then have "ReceiveStopWaiting n off s = Some (Inl stop_waiting_offset)"
      by (simp add: ReceiveStopWaiting_def Let_def w_def)
    then show ?thesis by (rule error)
  next
    case same
    then have "ReceiveStopWaiting n off s = Some (Inr s)"
      by (auto simp: ReceiveStopWaiting_def Let_def w_def [symmetric] m_def [symmetric] not_le [symmetric])
    then show ?thesis using inv by (intro ok [of s]) simp_all
  next
    case less
    show ?thesis
    proof (cases "n \<ge> m_nPktNumUpdatedMinPktNumToSendAcks s")
      case True
      then have "ReceiveStopWaiting n off s = Some (Inl stop_waiting_reduced)"
        using less by (simp add: ReceiveStopWaiting_def Let_def w_def [symmetric] m_def [symmetric] not_le [symmetric])
      then show ?thesis by (rule error)
    next
      case False
      then have "ReceiveStopWaiting n off s = Some (Inr s)"
        using less by (simp add: ReceiveStopWaiting_def Let_def w_def [symmetric] m_def [symmetric] not_le [symmetric])
      then show ?thesis using inv by (intro ok [of s]) simp_all
    qed
  next
    case more
    have "uint w < n" using more(1) n' by (simp add: word_less_def)
    have "- (2 ^ 63) \<le> (0::int)" "0 \<le> uint w" by simp_all
    then have "- (2 ^ 63) \<le> uint w" by (rule order_trans)
    with \<open>uint w < n\<close> have "signed_take_bit 63 (uint w) = uint w"
      using n(2) by (intro signed_take_bit_int_eq_self) (simp_all add: INT64_MAX_def)
    then have "m = uint w" by (simp add: m_def sint_uint)
    with \<open>uint w < n\<close> have mb: "0 < m" "m < INT64_MAX" using more(2) min n by simp_all
    obtain gs' a' k' where t: "trim_front m (m_mapPacketGaps s) (m_itPendingAck s) (m_itPendingNack s) = Some (gs', a', k')"
      "map_ok gs'" "sched_ok (ack_time gs') a' (length gs')" "k' < length gs'" "length gs' \<le> length (m_mapPacketGaps s)"
      "missing_pkts gs' = missing_pkts (m_mapPacketGaps s) \<inter> {m..}" "next_pkt gs' = max m (next_pkt (m_mapPacketGaps s))"
      using trim_front_result [OF gaps_invD(1,3,5) [OF inv] mb] by blast
    define s' where "s' = s\<lparr>m_nMinPktNumToSendAcks := m, m_nPktNumUpdatedMinPktNumToSendAcks := n,
      m_mapPacketGaps := gs', m_itPendingAck := a', m_itPendingNack := k'\<rparr>"
    have "ReceiveStopWaiting n off s = Some (Inr s')"
      using more t(1) by (simp add: ReceiveStopWaiting_def Let_def w_def [symmetric] m_def [symmetric] not_le [symmetric] s'_def)
    then show ?thesis using t more(2) by (intro ok [of s']) (simp_all add: s'_def gaps_inv_def)
  qed
qed
subsection \<open>Acks sent\<close>

lemma sched_cleared_to:
  assumes so: "sched_ok T a n" and b: "a \<le> b" "b < n"
  shows "sched_ok (\<lambda>i. if a \<le> i \<and> i < b then INT64_MAX else T i) b n"
  unfolding sched_ok_def
proof (intro conjI allI impI)
  fix i j assume ij: "b \<le> i" "i \<le> j" "j < n"
  have "T i \<le> T j" using sched_okD(3) [OF so, of i j] ij b by simp
  then show "(if a \<le> i \<and> i < b then INT64_MAX else T i) \<le> (if a \<le> j \<and> j < b then INT64_MAX else T j)"
    using ij by simp
qed (use b sched_okD(2,4) [OF so] in auto)

lemma clear_to_sentinel_retimed:
  assumes ok: "map_ok gs" and it: "it < length gs"
  shows "clear_to_sentinel it (retimed gs T) =
    Some (retimed gs (\<lambda>i. if it \<le> i then INT64_MAX else T i), length gs - 1)"
  using it
proof (induction "length gs - it" arbitrary: it T)
  case (Suc k)
  have e: "m_nEnd (gs ! it) = INT64_MAX \<longleftrightarrow> Suc it = length gs"
  proof (cases "Suc it = length gs")
    case True
    then show ?thesis using ok by (auto simp: map_ok_def last_conv_nth dest: arg_cong [of _ _ "\<lambda>n. n - 1"])
  next
    case False
    then have l: "Suc it < length gs" using Suc.prems by simp
    then have "m_nEnd (gs ! it) < m_nBegin (gs ! Suc it)" using begins_sorted(1) [OF ok lessI] by simp
    then show ?thesis using begin_bounded [OF ok l] False by simp
  qed
  show ?case
  proof (cases "Suc it = length gs")
    case True
    have "retimed gs (T(it := INT64_MAX)) = retimed gs (\<lambda>i. if it \<le> i then INT64_MAX else T i)"
      using True by (intro nth_equalityI) auto
    then show ?thesis using Suc.prems e True
      by (subst clear_to_sentinel.simps) (simp add: Let_def)
  next
    case False
    have "clear_to_sentinel (it + 1) (retimed gs (T(it := INT64_MAX))) =
        Some (retimed gs (\<lambda>i. if it + 1 \<le> i then INT64_MAX else (T(it := INT64_MAX)) i), length gs - 1)"
      using Suc.hyps(2) Suc.prems False by (intro Suc.hyps(1)) auto
    moreover have "(\<lambda>i. if it + 1 \<le> i then INT64_MAX else (T(it := INT64_MAX)) i) = (\<lambda>i. if it \<le> i then INT64_MAX else T i)"
      by auto
    ultimately show ?thesis using Suc.prems e False
      by (subst clear_to_sentinel.simps) (simp add: Let_def)
  qed
qed simp

lemma clear_below_retimed:
  assumes ok: "map_ok gs" and nx: "e < next_pkt gs" and it: "it < length gs"
  shows "\<exists>b. it \<le> b \<and> b < length gs \<and> clear_below e it (retimed gs T) =
    Some (retimed gs (\<lambda>i. if it \<le> i \<and> i < b then INT64_MAX else T i), b)"
  using it
proof (induction "length gs - it" arbitrary: it T)
  case (Suc k)
  show ?case
  proof (cases "m_nBegin (gs ! it) \<le> e")
    case False
    have "(\<lambda>i. if it \<le> i \<and> i < it then INT64_MAX else T i) = T" by auto
    with False Suc.prems show ?thesis by (intro exI [of _ it]) (subst clear_below.simps, simp)
  next
    case True
    have "Suc it \<noteq> length gs"
    proof
      assume "Suc it = length gs"
      then have "gs ! it = last gs" by (cases gs rule: rev_cases) auto
      with True nx show False by (simp add: next_pkt_def)
    qed
    then have l: "it + 1 < length gs" using Suc.prems by simp
    then obtain b where b: "it + 1 \<le> b" "b < length gs" "clear_below e (it + 1) (retimed gs (T(it := INT64_MAX))) =
        Some (retimed gs (\<lambda>i. if it + 1 \<le> i \<and> i < b then INT64_MAX else (T(it := INT64_MAX)) i), b)"
      using Suc.hyps(1) [of "it + 1" "T(it := INT64_MAX)", OF _ l] Suc.hyps(2) by fastforce
    have "(\<lambda>i. if it + 1 \<le> i \<and> i < b then INT64_MAX else (T(it := INT64_MAX)) i) =
        (\<lambda>i. if it \<le> i \<and> i < b then INT64_MAX else T i)" using b(1) by auto
    with b True Suc.prems show ?thesis
      by (intro exI [of _ b]) (subst clear_below.simps, simp)
  qed
qed simp

lemma skip_nacks_result:
  assumes ok: "map_ok gs" and nx: "e \<le> next_pkt gs" and it: "it < length gs"
  shows "\<exists>b. it \<le> b \<and> b < length gs \<and> skip_nacks e it gs = Some b"
  using it
proof (induction "length gs - it" arbitrary: it)
  case (Suc k)
  show ?case
  proof (cases "m_nBegin (gs ! it) < e")
    case False
    with Suc.prems show ?thesis by (subst skip_nacks.simps) simp
  next
    case True
    have "Suc it \<noteq> length gs"
    proof
      assume "Suc it = length gs"
      then have "gs ! it = last gs" by (cases gs rule: rev_cases) auto
      with True nx show False by (simp add: next_pkt_def)
    qed
    then have l: "it + 1 < length gs" using Suc.prems by simp
    have "k = length gs - (it + 1)" using Suc.hyps(2) by simp
    from Suc.hyps(1) [OF this l] obtain b where "it + 1 \<le> b" "b < length gs" "skip_nacks e (it + 1) gs = Some b"
      by blast
    with True Suc.prems show ?thesis by (intro exI [of _ b]) (subst skip_nacks.simps, simp)
  qed
qed simp

text \<open>Sending acks never fails and changes times and iterators only.\<close>

lemma AcksWritten_result:
  assumes inv: "gaps_inv s"
  obtains s' where "AcksWritten w s = Some s'" "gaps_inv s'"
    "missing_pkts (m_mapPacketGaps s') = missing_pkts (m_mapPacketGaps s)"
    "next_pkt (m_mapPacketGaps s') = next_pkt (m_mapPacketGaps s)"
    "length (m_mapPacketGaps s') = length (m_mapPacketGaps s)"
    "m_nMinPktNumToSendAcks s' = m_nMinPktNumToSendAcks s"
proof -
  define gs where "gs = m_mapPacketGaps s"
  define T where "T = ack_time gs"
  define a where "a = m_itPendingAck s"
  have ok: "map_ok gs" and ne: "gs \<noteq> []" and so: "sched_ok T a (length gs)" and kn: "m_itPendingNack s < length gs"
    using gaps_invD [OF inv] by (simp_all add: gs_def T_def a_def)
  have an: "a < length gs" using so by (rule sched_okD)
  have same: "retimed gs T = gs" by (simp add: T_def)
  have sp: "sentinel_pos gs = Some (length gs - 1)" "gap_at gs (length gs - 1) = Some (last gs)"
    using ne by (simp_all add: sentinel_pos_def gap_at_def last_conv_nth)
  have res: "\<exists>s'. AcksWritten w s = Some s' \<and> (\<exists>T' b k. s' = s\<lparr>m_mapPacketGaps := retimed gs T', m_itPendingAck := b, m_itPendingNack := k\<rparr>
      \<and> sched_ok T' b (length gs) \<and> k < length gs)"
  proof (cases "length gs = 1")
    case True
    then have a0: "a = 0" using an by simp
    have "upd_gap 0 (set_ack INT64_MAX) gs = Some (retimed gs (T(0 := INT64_MAX)))"
      using upd_gap_retimed [of 0 gs INT64_MAX T] True same by simp
    then have "AcksWritten w s = Some (s\<lparr>m_mapPacketGaps := retimed gs (T(0 := INT64_MAX))\<rparr>)"
      using True sp by (simp add: AcksWritten_def ack_no_loss_def gs_def [symmetric])
    moreover have "sched_ok (T(0 := INT64_MAX)) 0 (length gs)" using True by (simp add: sched_ok_def)
    moreover have "s\<lparr>m_mapPacketGaps := gs'\<rparr> = s\<lparr>m_mapPacketGaps := gs', m_itPendingAck := a, m_itPendingNack := m_itPendingNack s\<rparr>" for gs'
      by (simp add: a_def)
    ultimately show ?thesis using kn a0 by metis
  next
    case False
    then have two: "1 < length gs" using ne by (cases gs) auto
    have eval: "AcksWritten w s = (case w of No_blocks \<Rightarrow> ack_oldest s
        | Blocks_to e \<Rightarrow> if e > next_pkt gs - 1 then ack_everything s else ack_below e s)"
      using False sp by (cases w) (simp_all add: AcksWritten_def gs_def [symmetric] next_pkt_def)
    show ?thesis
    proof (cases w)
      case No_blocks
      show ?thesis
      proof (cases "a = 0")
        case True
        have "upd_gap 0 (set_ack INT64_MAX) gs = Some (retimed gs (T(0 := INT64_MAX)))"
          using upd_gap_retimed [of 0 gs INT64_MAX T] ne same by simp
        then have "AcksWritten w s = Some (s\<lparr>m_mapPacketGaps := retimed gs (T(0 := INT64_MAX)), m_itPendingAck := 1\<rparr>)"
          using eval No_blocks True by (simp add: ack_oldest_def gs_def [symmetric] a_def)
        moreover have "sched_ok (T(0 := INT64_MAX)) 1 (length gs)"
          using so True two by (auto simp: sched_ok_def)
        moreover have "s\<lparr>m_mapPacketGaps := gs', m_itPendingAck := 1\<rparr> =
            s\<lparr>m_mapPacketGaps := gs', m_itPendingAck := 1, m_itPendingNack := m_itPendingNack s\<rparr>" for gs' by simp
        ultimately show ?thesis using kn by metis
      next
        case False
        then have "AcksWritten w s = Some s" using eval No_blocks by (simp add: ack_oldest_def a_def)
        moreover have "s = s\<lparr>m_mapPacketGaps := retimed gs T, m_itPendingAck := a, m_itPendingNack := m_itPendingNack s\<rparr>"
          unfolding same by (simp add: gs_def a_def)
        ultimately show ?thesis using so kn by metis
      qed
    next
      case (Blocks_to e)
      show ?thesis
      proof (cases "e > next_pkt gs - 1")
        case True
        define T' where "T' = (\<lambda>i. if a \<le> i then INT64_MAX else T i)"
        have "clear_to_sentinel a gs = Some (retimed gs T', length gs - 1)"
          using clear_to_sentinel_retimed [OF ok an, of T] same by (simp add: T'_def)
        then have "AcksWritten w s = Some (s\<lparr>m_mapPacketGaps := retimed gs T', m_itPendingAck := length gs - 1,
            m_itPendingNack := length gs - 1\<rparr>)"
          using eval Blocks_to True by (simp add: ack_everything_def gs_def [symmetric] a_def [symmetric])
        moreover have "sched_ok T' (length gs - 1) (length gs)"
          using two sched_okD(2) [OF so] by (auto simp: sched_ok_def T'_def)
        ultimately show ?thesis using two by (metis diff_less zero_less_one less_trans)
      next
        case False
        obtain b where b: "a \<le> b" "b < length gs"
          "clear_below e a gs = Some (retimed gs (\<lambda>i. if a \<le> i \<and> i < b then INT64_MAX else T i), b)"
          using clear_below_retimed [OF ok _ an, of e T] same False by auto
        define T' where "T' = (\<lambda>i. if a \<le> i \<and> i < b then INT64_MAX else T i)"
        obtain k where k: "k < length gs" "skip_nacks e (m_itPendingNack s) (retimed gs T') = Some k"
          using skip_nacks_result [of "retimed gs T'" e "m_itPendingNack s"] ok ne kn False by auto
        have "AcksWritten w s = Some (s\<lparr>m_mapPacketGaps := retimed gs T', m_itPendingAck := b, m_itPendingNack := k\<rparr>)"
          using eval Blocks_to False b(3) k(2)
          by (simp add: ack_below_def gs_def [symmetric] a_def [symmetric] T'_def)
        moreover have "sched_ok T' b (length gs)" unfolding T'_def using so b(1,2) by (rule sched_cleared_to)
        ultimately show ?thesis using k(1) by metis
      qed
    qed
  qed
  then obtain s' T' b k where s': "AcksWritten w s = Some s'"
    "s' = s\<lparr>m_mapPacketGaps := retimed gs T', m_itPendingAck := b, m_itPendingNack := k\<rparr>"
    "sched_ok T' b (length gs)" "k < length gs" by metis
  then show ?thesis using ok ne by (intro that [of s']) (simp_all add: gaps_inv_def gs_def [symmetric])
qed

subsection \<open>Runs\<close>

text \<open>
  The life of the map from \<open>InitPacketGapMap\<close> on, with packets up to \<open>k\<close> behind us. \<open>R\<close> is the set of
  the packets that were recorded. A \<open>stop_waiting\<close> frame that does not decode ends the connection.
\<close>

inductive receiver_run :: "int \<Rightarrow> int set \<Rightarrow> SSNPReceiverState \<Rightarrow> bool" for k where
  start: "m_nMinPktNumToSendAcks s = 0 \<Longrightarrow> receiver_run k {} (InitPacketGapMap k t s)"
| received: "receiver_run k R s \<Longrightarrow> 0 < n \<Longrightarrow> n + 1 < INT64_MAX \<Longrightarrow>
    SNP_RecordReceivedPktNum nMax n now b s = Some (s', w) \<Longrightarrow> receiver_run k (insert n R) s'"
| flushed: "receiver_run k R s \<Longrightarrow> QueueFlushAllAcks t s = Some s' \<Longrightarrow> receiver_run k R s'"
| stopped: "receiver_run k R s \<Longrightarrow> 0 < n \<Longrightarrow> n < INT64_MAX \<Longrightarrow>
    ReceiveStopWaiting n off s = Some (Inr s') \<Longrightarrow> receiver_run k R s'"
| sent: "receiver_run k R s \<Longrightarrow> AcksWritten w s = Some s' \<Longrightarrow> receiver_run k R s'"

definition acked_pkts :: "SSNPReceiverState \<Rightarrow> int set" where
  "acked_pkts s = {m_nMinPktNumToSendAcks s ..< next_pkt (m_mapPacketGaps s)} - missing_pkts (m_mapPacketGaps s)"

definition receiver_ok :: "int \<Rightarrow> int set \<Rightarrow> SSNPReceiverState \<Rightarrow> bool" where
  "receiver_ok k R s \<longleftrightarrow> gaps_inv s \<and> length (m_mapPacketGaps s) < k_nMaxPacketGaps \<and>
     0 \<le> m_nMinPktNumToSendAcks s \<and> acked_pkts s \<inter> {k<..} \<subseteq> R"

lemma init_gaps:
  assumes "0 \<le> k" "k + 1 < INT64_MAX"
  shows "gaps_inv (InitPacketGapMap k t s)" "ack_armed (InitPacketGapMap k t s)"
    "missing_pkts (m_mapPacketGaps (InitPacketGapMap k t s)) = {}"
    "next_pkt (m_mapPacketGaps (InitPacketGapMap k t s)) = k + 1"
  using assms
  by (simp_all add: InitPacketGapMap_def gaps_inv_def map_ok_def sched_ok_def ack_armed_def armed_def
      missing_pkts_def next_pkt_def)

lemma recorded_ok:
  assumes "receiver_ok k R s" "recorded n now b s s'"
  shows "receiver_ok k (insert n R) s'"
proof (cases "n < m_nMinPktNumToSendAcks s")
  case True
  with assms show ?thesis by (auto simp: receiver_ok_def recorded_def Let_def)
next
  case False
  define M where "M = missing_pkts (m_mapPacketGaps s)"
  define N where "N = next_pkt (m_mapPacketGaps s)"
  have r: "gaps_inv s'" "length (m_mapPacketGaps s') < k_nMaxPacketGaps"
    "m_nMinPktNumToSendAcks s' = m_nMinPktNumToSendAcks s"
    "record_missing n M N \<subseteq> missing_pkts (m_mapPacketGaps s')" "next_pkt (m_mapPacketGaps s') = max N (n + 1)"
    using assms(2) False by (simp_all add: recorded_def keeps_all_def Let_def M_def N_def)
  have "acked_pkts s' \<subseteq> insert n (acked_pkts s)"
  proof (cases "n < N")
    case True
    then show ?thesis
      using r(3-5) by (auto simp: acked_pkts_def record_missing_def M_def [symmetric] N_def [symmetric])
  next
    case False
    show ?thesis
    proof
      fix x assume x: "x \<in> acked_pkts s'"
      then have x': "m_nMinPktNumToSendAcks s \<le> x" "x < max N (n + 1)" "x \<notin> missing_pkts (m_mapPacketGaps s')"
        by (simp_all add: acked_pkts_def r(3,5))
      have "M \<union> {N ..< n} \<subseteq> missing_pkts (m_mapPacketGaps s')" using r(4) False by (simp add: record_missing_def)
      with x'(3) have "x \<notin> M \<union> {N ..< n}" by blast
      then show "x \<in> insert n (acked_pkts s)"
        using x'(1,2) False by (cases "x = n") (simp_all add: acked_pkts_def M_def [symmetric] N_def [symmetric])
    qed
  qed
  with assms(1) r(1-3) show ?thesis by (auto simp: receiver_ok_def)
qed

lemma rescheduled_ok:
  assumes "receiver_ok k R s" "rescheduled s T a s'"
  shows "receiver_ok k R s'"
proof -
  have inv: "gaps_inv s" using assms(1) by (simp add: receiver_ok_def)
  have "m_nMinPktNumToSendAcks s' = m_nMinPktNumToSendAcks s" using assms(2) by (simp add: rescheduled_def)
  with rescheduled_facts(1,3-5) [OF inv assms(2)] assms(1) show ?thesis
    by (simp add: receiver_ok_def acked_pkts_def)
qed

lemma receiver_run_ok:
  assumes "receiver_run k R s" "0 \<le> k" "k + 1 < INT64_MAX"
  shows "receiver_ok k R s"
  using assms
proof (induction rule: receiver_run.induct)
  case (start s t)
  then show ?case using init_gaps [of k t s]
    by (auto simp: receiver_ok_def acked_pkts_def InitPacketGapMap_def k_nMaxPacketGaps_def)
next
  case (received R s n nMax now b s' w)
  then have ok: "receiver_ok k R s" by simp
  then have "recorded n now b s s'"
    using Record_result [of s n nMax now b] received.hyps by (auto simp: receiver_ok_def)
  with ok show ?case by (rule recorded_ok)
next
  case (flushed R s t s')
  then have ok: "receiver_ok k R s" by simp
  then have "gaps_inv s" by (simp add: receiver_ok_def)
  then obtain T a u where "QueueFlushAllAcks t s = Some u" "rescheduled s T a u"
    using QueueFlush_result by metis
  with flushed.hyps ok show ?case using rescheduled_ok by simp
next
  case (stopped R s n off s')
  then have ok: "receiver_ok k R s" by simp
  then have inv: "gaps_inv s" and min: "0 \<le> m_nMinPktNumToSendAcks s" by (simp_all add: receiver_ok_def)
  show ?case
  proof (cases rule: StopWaiting_result [OF inv stopped.hyps(2,3) min, of off])
    case (1 e)
    with stopped.hyps(4) show ?thesis by simp
  next
    case (2 u)
    then have u: "u = s'" using stopped.hyps(4) by simp
    have "acked_pkts s' \<subseteq> acked_pkts s"
    proof (cases "s' = s")
      case False
      then have "missing_pkts (m_mapPacketGaps s') = missing_pkts (m_mapPacketGaps s) \<inter> {m_nMinPktNumToSendAcks s'..}"
        "next_pkt (m_mapPacketGaps s') = max (m_nMinPktNumToSendAcks s') (next_pkt (m_mapPacketGaps s))"
        using 2(5) u by blast+
      then show ?thesis using 2(3) u unfolding acked_pkts_def by fastforce
    qed simp
    with ok 2 u show ?thesis unfolding receiver_ok_def by fastforce
  qed
next
  case (sent R s w s')
  then have ok: "receiver_ok k R s" by simp
  then have "gaps_inv s" by (simp add: receiver_ok_def)
  then obtain u where "AcksWritten w s = Some u" "gaps_inv u"
    "missing_pkts (m_mapPacketGaps u) = missing_pkts (m_mapPacketGaps s)"
    "next_pkt (m_mapPacketGaps u) = next_pkt (m_mapPacketGaps s)"
    "length (m_mapPacketGaps u) = length (m_mapPacketGaps s)"
    "m_nMinPktNumToSendAcks u = m_nMinPktNumToSendAcks s" using AcksWritten_result by metis
  with sent.hyps ok show ?case by (simp add: receiver_ok_def acked_pkts_def)
qed

subsection \<open>What the receiver state promises\<close>

lemma retimed_last_due:
  assumes "rescheduled s T a s'" "gaps_inv s" "T (length (m_mapPacketGaps s) - 1) \<le> t" "p < next_pkt (m_mapPacketGaps s)"
  shows "ack_due (m_mapPacketGaps s') p t"
proof -
  have ne: "m_mapPacketGaps s \<noteq> []" using gaps_invD [OF assms(2)] by simp
  then have "p < m_nBegin (m_mapPacketGaps s ! (length (m_mapPacketGaps s) - 1))"
    using assms(4) by (simp add: next_pkt_def last_conv_nth)
  with ne assms(1,3) show ?thesis by (intro rescheduled_due [of s T a s' "length (m_mapPacketGaps s) - 1"]) simp_all
qed

lemma TimeWhenFlushAcks_least:
  assumes "gaps_inv s"
  shows "\<exists>u. TimeWhenFlushAcks s = Some u \<and> (\<forall>g \<in> set (m_mapPacketGaps s). u \<le> m_usecWhenAckPrior g)"
proof -
  define gs a where "gs = m_mapPacketGaps s" and "a = m_itPendingAck s"
  have so: "sched_ok (ack_time gs) a (length gs)" using gaps_invD [OF assms] by (simp add: gs_def a_def)
  have a: "a < length gs" using so by (rule sched_okD)
  have "ack_time gs a \<le> ack_time gs i" if "i < length gs" for i
  proof (cases "i < a")
    case True
    then show ?thesis using sched_okD(2,4) [OF so] a by simp
  next
    case False
    then show ?thesis using sched_okD(3) [OF so, of a i] that by simp
  qed
  then have "\<forall>g \<in> set gs. ack_time gs a \<le> m_usecWhenAckPrior g" by (auto simp: in_set_conv_nth)
  moreover have "TimeWhenFlushAcks s = Some (ack_time gs a)"
    using a by (auto simp: TimeWhenFlushAcks_def gap_at_def gs_def a_def)
  ultimately show ?thesis by (auto simp: gs_def)
qed

lemma start_new: "receiver_run 0 {} ReceiverState_new"
  unfolding ReceiverState_new_def by (rule receiver_run.start) simp

inductive_cases receiver_runE: "receiver_run k R s"

text \<open>
  C21: Whatever packets arrive, in whatever order, whatever acks are sent or flushed and whatever
  \<open>stop_waiting\<close> frames are received: from \<open>InitPacketGapMap( k, t )\<close> on, every packet above \<open>k\<close> that the
  receiver acks (it is at or above \<open>m_nMinPktNumToSendAcks\<close>, below the sentinel and in no gap) was
  recorded; the map keeps its invariant (gaps disjoint, sorted and separated by received packets, the
  sentinel last, the schedule monotone from \<open>m_itPendingAck\<close> on) and never holds \<open>k_nMaxPacketGaps\<close> nodes.
\<close>
theorem receiver_acks_only_received:
  assumes "receiver_run k R s" "0 \<le> k" "k + 1 < INT64_MAX"
  shows "acked_pkts s \<inter> {k<..} \<subseteq> R \<and> gaps_inv s \<and> length (m_mapPacketGaps s) < k_nMaxPacketGaps"
  using receiver_run_ok [OF assms] by (simp add: receiver_ok_def)

theorem receiver_acks_only_received_witness:
  "acked_pkts ReceiverState_new \<inter> {0<..} \<subseteq> {} \<and> gaps_inv ReceiverState_new \<and>
     length (m_mapPacketGaps ReceiverState_new) < k_nMaxPacketGaps"
  by (rule receiver_acks_only_received [OF start_new]) (simp_all add: INT64_MAX_def)





text \<open>
  C23: After \<open>QueueFlushAllAcks( t )\<close> every packet below the sentinel is to be reported by \<open>t\<close>, what was due is
  still due by its time, nothing else about the gaps changes, and \<open>TimeWhenFlushAcks\<close>, the time the
  connection wakes up at, is not later than any time in the map.
\<close>
theorem flush_schedules_everything:
  assumes "gaps_inv s"
  shows "\<exists>s' u. QueueFlushAllAcks t s = Some s' \<and> TimeWhenFlushAcks s' = Some u \<and>
    (\<forall>g \<in> set (m_mapPacketGaps s'). u \<le> m_usecWhenAckPrior g) \<and>
    (\<forall>p < next_pkt (m_mapPacketGaps s). ack_due (m_mapPacketGaps s') p t) \<and>
    (\<forall>p v. ack_due (m_mapPacketGaps s) p v \<longrightarrow> ack_due (m_mapPacketGaps s') p v) \<and>
    gaps_inv s' \<and> (ack_armed s \<longrightarrow> ack_armed s') \<and>
    missing_pkts (m_mapPacketGaps s') = missing_pkts (m_mapPacketGaps s) \<and>
    next_pkt (m_mapPacketGaps s') = next_pkt (m_mapPacketGaps s)"
proof -
  obtain T a s' where s': "QueueFlushAllAcks t s = Some s'" "rescheduled s T a s'"
    "T (length (m_mapPacketGaps s) - 1) \<le> t"
    using QueueFlush_result [OF assms] by metis
  note r = rescheduled_facts [OF assms s'(2)]
  obtain u where u: "TimeWhenFlushAcks s' = Some u" "\<forall>g \<in> set (m_mapPacketGaps s'). u \<le> m_usecWhenAckPrior g"
    using TimeWhenFlushAcks_least [OF r(1)] by metis
  show ?thesis
    using s'(1) u r retimed_last_due [OF s'(2) assms s'(3)]
    by (intro exI [of _ s'] exI [of _ u]) simp
qed

theorem flush_schedules_everything_witness:
  "\<exists>s' u. QueueFlushAllAcks 70 ReceiverState_new = Some s' \<and> TimeWhenFlushAcks s' = Some u \<and>
    (\<forall>g \<in> set (m_mapPacketGaps s'). u \<le> m_usecWhenAckPrior g) \<and>
    (\<forall>p < next_pkt (m_mapPacketGaps ReceiverState_new). ack_due (m_mapPacketGaps s') p 70) \<and>
    (\<forall>p v. ack_due (m_mapPacketGaps ReceiverState_new) p v \<longrightarrow> ack_due (m_mapPacketGaps s') p v) \<and>
    gaps_inv s' \<and> (ack_armed ReceiverState_new \<longrightarrow> ack_armed s') \<and>
    missing_pkts (m_mapPacketGaps s') = missing_pkts (m_mapPacketGaps ReceiverState_new) \<and>
    next_pkt (m_mapPacketGaps s') = next_pkt (m_mapPacketGaps ReceiverState_new)"
proof (rule flush_schedules_everything)
  show "gaps_inv ReceiverState_new" unfolding ReceiverState_new_def by (rule init_gaps) (simp_all add: INT64_MAX_def)
qed

end
