(* ===== verification/PktNumbers.thy ===== *)
theory PktNumbers
  imports Prelude "HOL-Library.Signed_Division"
begin

text \<open>
  The packet numbers of a connection: \<open>LinkStatsTrackerBase\<close> and \<open>LinkStatsTracker\<close> of
  \<open>src/GameNetworkingSockets/src/steamnetworkingsockets/steamnetworking_statsutils.h\<close> and
  \<open>steamnetworkingsockets_stats.cpp\<close>, restricted to what a sequenced packet touches.

  A packet carries the low 16 bits of its number. \<open>ExpandWirePacketNumberAndCheck\<close> restores the
  number relative to the highest one processed and rejects duplicates and old packets by two
  64-bit masks; \<open>TrackProcessSequencedPacket\<close> enters a packet that has been authenticated into
  the masks and keeps the counters of dropped, reordered and duplicate packets.

  Packet numbers are \<open>int64\<close> in the source and grow by at most \<open>2 ^ 15\<close> per packet, so they
  are unbounded integers here, as are the counters; the 16-bit wire number and the masks keep
  their width. The masks are lists read and written by \<open>get_at\<close> and \<open>set_at\<close>, so an index
  outside them is the result \<open>None\<close>.
\<close>

type_synonym u64 = "64 word"

subsection \<open>Counters\<close>

record SequencedPacketCounters =
  m_nRecv :: int
  m_nDropped :: int
  m_nOutOfOrder :: int
  m_nOutOfOrderCorrected :: int
  m_nLurch :: int
  m_nDuplicate :: int
  m_usecMaxJitter :: int

definition Counters_Reset :: SequencedPacketCounters where
  "Counters_Reset = \<lparr>m_nRecv = 0, m_nDropped = 0, m_nOutOfOrder = 0, m_nOutOfOrderCorrected = 0,
     m_nLurch = 0, m_nDuplicate = 0, m_usecMaxJitter = - 1\<rparr>"

definition Counters_Accumulate ::
  "SequencedPacketCounters \<Rightarrow> SequencedPacketCounters \<Rightarrow> SequencedPacketCounters" where
  "Counters_Accumulate c x =
     \<lparr>m_nRecv = m_nRecv c + m_nRecv x,
      m_nDropped = m_nDropped c + m_nDropped x,
      m_nOutOfOrder = m_nOutOfOrder c + m_nOutOfOrder c,
      m_nOutOfOrderCorrected = m_nOutOfOrderCorrected c + m_nOutOfOrderCorrected x,
      m_nLurch = m_nLurch c + m_nLurch c,
      m_nDuplicate = m_nDuplicate c + m_nDuplicate x,
      m_usecMaxJitter = max (m_usecMaxJitter c) (m_usecMaxJitter x)\<rparr>"

definition Weird :: "SequencedPacketCounters \<Rightarrow> int" where
  "Weird c = m_nOutOfOrder c + m_nLurch c + m_nDuplicate c"

definition OnRecv :: "SequencedPacketCounters \<Rightarrow> SequencedPacketCounters" where
  "OnRecv c = c\<lparr>m_nRecv := m_nRecv c + 1\<rparr>"

definition OnDropped :: "int \<Rightarrow> SequencedPacketCounters \<Rightarrow> SequencedPacketCounters" where
  "OnDropped nDropped c = c\<lparr>m_nDropped := m_nDropped c + nDropped\<rparr>"

definition OnDuplicate :: "SequencedPacketCounters \<Rightarrow> SequencedPacketCounters" where
  "OnDuplicate c = c\<lparr>m_nDuplicate := m_nDuplicate c + 1\<rparr>"

definition OnLurch :: "SequencedPacketCounters \<Rightarrow> SequencedPacketCounters" where
  "OnLurch c = c\<lparr>m_nLurch := m_nLurch c + 1\<rparr>"

definition OnOutOfOrder :: "SequencedPacketCounters \<Rightarrow> SequencedPacketCounters" where
  "OnOutOfOrder c =
     (let c = c\<lparr>m_nOutOfOrder := m_nOutOfOrder c + 1\<rparr>
      in if m_nDropped c > 0 then c\<lparr>m_nDropped := m_nDropped c - 1\<rparr> else c)"

definition OnOutOfOrderCorrected :: "SequencedPacketCounters \<Rightarrow> SequencedPacketCounters" where
  "OnOutOfOrderCorrected c = c\<lparr>m_nOutOfOrderCorrected := m_nOutOfOrderCorrected c + 1\<rparr>"

record JitterHistogram =
  m_nNegligible :: int
  m_n1 :: int
  m_n2 :: int
  m_n5 :: int
  m_n10 :: int
  m_n20 :: int

definition Jitter_Reset :: JitterHistogram where
  "Jitter_Reset = \<lparr>m_nNegligible = 0, m_n1 = 0, m_n2 = 0, m_n5 = 0, m_n10 = 0, m_n20 = 0\<rparr>"

definition Jitter_AddSample :: "int \<Rightarrow> JitterHistogram \<Rightarrow> JitterHistogram" where
  "Jitter_AddSample usecJitter h =
     (if usecJitter < 1000 then h\<lparr>m_nNegligible := m_nNegligible h + 1\<rparr>
      else if usecJitter < 2000 then h\<lparr>m_n1 := m_n1 h + 1\<rparr>
      else if usecJitter < 5000 then h\<lparr>m_n2 := m_n2 h + 1\<rparr>
      else if usecJitter < 10000 then h\<lparr>m_n5 := m_n5 h + 1\<rparr>
      else if usecJitter < 20000 then h\<lparr>m_n10 := m_n10 h + 1\<rparr>
      else h\<lparr>m_n20 := m_n20 h + 1\<rparr>)"

definition Jitter_TotalCount :: "JitterHistogram \<Rightarrow> int" where
  "Jitter_TotalCount h = m_nNegligible h + m_n1 h + m_n2 h + m_n5 h + m_n10 h + m_n20 h"

subsection \<open>The tracker\<close>

text \<open>
  The fields of \<open>LinkStatsTrackerBase\<close> that a sequenced packet reads or writes. The rate trackers,
  the ping tracker, the exchange of statistics with the peer and the reply timeouts are separate
  parts of the class that these operations do not use.
\<close>

record LinkStatsTracker =
  m_nNextSendSequenceNumber :: int
  m_usecTimeLastSentSeq :: int
  m_nMaxRecvPktNum :: int
  m_nDebugLastInitMaxRecvPktNum :: int
  m_nDebugPktsRecvInOrder :: int
  m_arDebugHistoryRecvSeqNum :: "int list"
  m_recvPktNumberMask :: "u64 list"
  m_usecTimeLastRecvSeq :: int
  m_recvPktNumberMaskMultiPath :: "u64 list list"
  m_nMultiPathRecvLater :: "int list"
  m_nMultiPathRecvSeq :: "int list"
  m_seqPktCounters :: SequencedPacketCounters
  m_nPktsRecvSequenced :: int
  m_nPktsRecvDroppedAccumulator :: int
  m_nPktsRecvOutOfOrderAccumulator :: int
  m_nPktsRecvOutOfOrderCorrectedAccumulator :: int
  m_nPktsRecvDuplicateAccumulator :: int
  m_nPktsRecvLurchAccumulator :: int
  m_jitterHistogram :: JitterHistogram
  m_usecIntervalStart :: int

abbreviation upd_counters ::
  "(SequencedPacketCounters \<Rightarrow> SequencedPacketCounters) \<Rightarrow> LinkStatsTracker \<Rightarrow> LinkStatsTracker" where
  "upd_counters f s \<equiv> s\<lparr>m_seqPktCounters := f (m_seqPktCounters s)\<rparr>"

definition PktsRecvDropped :: "LinkStatsTracker \<Rightarrow> int" where
  "PktsRecvDropped s = m_nPktsRecvDroppedAccumulator s + m_nDropped (m_seqPktCounters s)"

definition PktsRecvOutOfOrder :: "LinkStatsTracker \<Rightarrow> int" where
  "PktsRecvOutOfOrder s = m_nPktsRecvOutOfOrderAccumulator s + m_nOutOfOrder (m_seqPktCounters s)"

definition PktsRecvOutOfOrderCorrected :: "LinkStatsTracker \<Rightarrow> int" where
  "PktsRecvOutOfOrderCorrected s =
     m_nPktsRecvOutOfOrderCorrectedAccumulator s + m_nOutOfOrderCorrected (m_seqPktCounters s)"

definition PktsRecvDuplicate :: "LinkStatsTracker \<Rightarrow> int" where
  "PktsRecvDuplicate s = m_nPktsRecvDuplicateAccumulator s + m_nDuplicate (m_seqPktCounters s)"

definition PktsRecvLurch :: "LinkStatsTracker \<Rightarrow> int" where
  "PktsRecvLurch s = m_nPktsRecvLurchAccumulator s + m_nLurch (m_seqPktCounters s)"

definition ConsumeSendPacketNumberAndGetWireFmt :: "int \<Rightarrow> LinkStatsTracker \<Rightarrow> LinkStatsTracker \<times> u16" where
  "ConsumeSendPacketNumberAndGetWireFmt usecNow s =
     (s\<lparr>m_usecTimeLastSentSeq := usecNow, m_nNextSendSequenceNumber := m_nNextSendSequenceNumber s + 1\<rparr>,
      word_of_int (m_nNextSendSequenceNumber s))"

definition init_mask1 :: "int \<Rightarrow> u64" where
  "init_mask1 nPktNum =
     (let nBitsToSet = nat (nPktNum AND 63) + 1
      in if nBitsToSet = 64 then NOT 0 else push_bit nBitsToSet 1 - 1)"

definition InitMaxRecvPktNum :: "int \<Rightarrow> LinkStatsTracker \<Rightarrow> LinkStatsTracker" where
  "InitMaxRecvPktNum nPktNum s =
     (let mask0 = NOT 0;
          mask1 = init_mask1 nPktNum
      in s\<lparr>m_nMaxRecvPktNum := nPktNum,
           m_recvPktNumberMask := [mask0, mask1],
           m_recvPktNumberMaskMultiPath := [[mask0, mask1], [mask0, mask1]],
           m_nDebugLastInitMaxRecvPktNum := nPktNum\<rparr>)"

definition ResetMaxRecvPktNumForIncomingWirePktNum :: "u16 \<Rightarrow> LinkStatsTracker \<Rightarrow> LinkStatsTracker" where
  "ResetMaxRecvPktNumForIncomingWirePktNum nPktNum s = InitMaxRecvPktNum (uint (nPktNum - 1)) s"

definition StartNextInterval :: "int \<Rightarrow> LinkStatsTracker \<Rightarrow> LinkStatsTracker" where
  "StartNextInterval usecNow s =
     s\<lparr>m_nPktsRecvDroppedAccumulator := m_nPktsRecvDroppedAccumulator s + m_nDropped (m_seqPktCounters s),
       m_nPktsRecvOutOfOrderAccumulator :=
         m_nPktsRecvOutOfOrderAccumulator s + m_nOutOfOrder (m_seqPktCounters s),
       m_nPktsRecvOutOfOrderCorrectedAccumulator :=
         m_nPktsRecvOutOfOrderCorrectedAccumulator s + m_nOutOfOrderCorrected (m_seqPktCounters s),
       m_nPktsRecvDuplicateAccumulator := m_nPktsRecvDuplicateAccumulator s + m_nDuplicate (m_seqPktCounters s),
       m_nPktsRecvLurchAccumulator := m_nPktsRecvLurchAccumulator s + m_nLurch (m_seqPktCounters s),
       m_seqPktCounters := Counters_Reset,
       m_usecIntervalStart := usecNow\<rparr>"

definition InitInternal :: "LinkStatsTracker \<Rightarrow> LinkStatsTracker" where
  "InitInternal s =
     (let s = InitMaxRecvPktNum 0 (s\<lparr>m_nNextSendSequenceNumber := 1, m_usecTimeLastSentSeq := 0\<rparr>)
      in s\<lparr>m_nDebugPktsRecvInOrder := 0,
           m_usecTimeLastRecvSeq := 0,
           m_nMultiPathRecvLater := [0, 0],
           m_nMultiPathRecvSeq := [0, 0],
           m_seqPktCounters := Counters_Reset,
           m_nPktsRecvSequenced := 0,
           m_nPktsRecvDroppedAccumulator := 0,
           m_nPktsRecvOutOfOrderAccumulator := 0,
           m_nPktsRecvOutOfOrderCorrectedAccumulator := 0,
           m_nPktsRecvDuplicateAccumulator := 0,
           m_nPktsRecvLurchAccumulator := 0,
           m_jitterHistogram := Jitter_Reset,
           m_usecIntervalStart := 0\<rparr>)"

definition InternalProcessSequencedPacket_Count :: "int \<Rightarrow> LinkStatsTracker \<Rightarrow> LinkStatsTracker option" where
  "InternalProcessSequencedPacket_Count idxMultiPath s =
     do {
       n \<leftarrow> get_at (m_nMultiPathRecvSeq s) idxMultiPath;
       ns \<leftarrow> set_at (m_nMultiPathRecvSeq s) idxMultiPath (n + 1);
       Some (upd_counters OnRecv (s\<lparr>m_nPktsRecvSequenced := m_nPktsRecvSequenced s + 1, m_nMultiPathRecvSeq := ns\<rparr>))
     }"

definition InternalProcessSequencedPacket_OutOfOrder :: "LinkStatsTracker \<Rightarrow> LinkStatsTracker" where
  "InternalProcessSequencedPacket_OutOfOrder s = upd_counters OnOutOfOrder s"

definition InternalProcessSequencedPacket_Duplicate :: "LinkStatsTracker \<Rightarrow> LinkStatsTracker" where
  "InternalProcessSequencedPacket_Duplicate s = upd_counters OnDuplicate s"

definition InternalProcessSequencedPacket_Lurch :: "LinkStatsTracker \<Rightarrow> LinkStatsTracker" where
  "InternalProcessSequencedPacket_Lurch s = upd_counters OnLurch s"

definition InternalProcessSequencedPacket_Dropped :: "int \<Rightarrow> LinkStatsTracker \<Rightarrow> LinkStatsTracker" where
  "InternalProcessSequencedPacket_Dropped nDropped s = upd_counters (OnDropped nDropped) s"

definition InternalProcessJitterSample :: "int \<Rightarrow> LinkStatsTracker \<Rightarrow> LinkStatsTracker" where
  "InternalProcessJitterSample usecJitter s =
     (let usecJitter = abs usecJitter;
          s = upd_counters (\<lambda>c. c\<lparr>m_usecMaxJitter := max (m_usecMaxJitter c) usecJitter\<rparr>) s
      in s\<lparr>m_jitterHistogram := Jitter_AddSample usecJitter (m_jitterHistogram s)\<rparr>)"

subsection \<open>Receiving a packet\<close>

definition k_usecTimeSinceLastPacketMaxReasonable :: int where
  "k_usecTimeSinceLastPacketMaxReasonable = 1000000 div 4"

text \<open>\<open>B\<close>, the first number of the block of 64 that holds the highest number, and the index of
  the mask for a number.\<close>

definition block_base :: "int \<Rightarrow> int" where
  "block_base nMax = nMax AND NOT 63"

definition recv_bitmask_index :: "int \<Rightarrow> int \<Rightarrow> int" where
  "recv_bitmask_index nMax nPktNum = drop_bit 6 (nPktNum - block_base nMax) + 1"

definition pkt_bit :: "int \<Rightarrow> u64" where
  "pkt_bit nPktNum = push_bit (nat (nPktNum AND 63)) 1"

definition get_mask2 :: "u64 list list \<Rightarrow> int \<Rightarrow> int \<Rightarrow> u64 option" where
  "get_mask2 m i j = do { row \<leftarrow> get_at m i; get_at row j }"

definition set_mask2 :: "u64 list list \<Rightarrow> int \<Rightarrow> int \<Rightarrow> u64 \<Rightarrow> u64 list list option" where
  "set_mask2 m i j x = do { row \<leftarrow> get_at m i; row \<leftarrow> set_at row j x; set_at m i row }"

text \<open>The test of \<open>ExpandWirePacketNumberAndCheck\<close> on the number it has computed: the number itself,
  or 0 when the packet must be dropped.\<close>

definition check_pkt_num :: "int \<Rightarrow> int \<Rightarrow> LinkStatsTracker \<Rightarrow> (LinkStatsTracker \<times> int) option" where
  "check_pkt_num nPktNum idxMultiPath s =
     (if nPktNum > m_nMaxRecvPktNum s then Some (s, nPktNum)
      else do {
        let idxRecvBitmask = recv_bitmask_index (m_nMaxRecvPktNum s) nPktNum;
        if idxRecvBitmask < 0 then Some (InternalProcessSequencedPacket_Lurch s, 0)
        else do {
          let b = pkt_bit nPktNum;
          m \<leftarrow> get_at (m_recvPktNumberMask s) idxRecvBitmask;
          if m AND b \<noteq> 0 then do {
            mp \<leftarrow> get_mask2 (m_recvPktNumberMaskMultiPath s) idxMultiPath idxRecvBitmask;
            if mp AND b \<noteq> 0 then Some (InternalProcessSequencedPacket_Duplicate s, 0)
            else do {
              n \<leftarrow> get_at (m_nMultiPathRecvLater s) idxMultiPath;
              later \<leftarrow> set_at (m_nMultiPathRecvLater s) idxMultiPath (n + 1);
              mps \<leftarrow> set_mask2 (m_recvPktNumberMaskMultiPath s) idxMultiPath idxRecvBitmask (mp OR b);
              Some (s\<lparr>m_nMultiPathRecvLater := later, m_recvPktNumberMaskMultiPath := mps\<rparr>, 0)
            }
          }
          else Some (s, nPktNum)
        }
      })"

definition ExpandWirePacketNumberAndCheck ::
  "u16 \<Rightarrow> int \<Rightarrow> LinkStatsTracker \<Rightarrow> (LinkStatsTracker \<times> int) option" where
  "ExpandWirePacketNumberAndCheck nWireSeqNum idxMultiPath s =
     do {
       let nGap = sint (nWireSeqNum - word_of_int (m_nMaxRecvPktNum s));
       let nPktNum = m_nMaxRecvPktNum s + nGap;
       hist \<leftarrow> set_at (m_arDebugHistoryRecvSeqNum s) (m_nPktsRecvSequenced s AND 7) nPktNum;
       s \<leftarrow> InternalProcessSequencedPacket_Count idxMultiPath (s\<lparr>m_arDebugHistoryRecvSeqNum := hist\<rparr>);
       check_pkt_num nPktNum idxMultiPath s
     }"

definition ExpandWirePacketNumberAndCheckMaybeInitialize ::
  "u16 \<Rightarrow> int \<Rightarrow> LinkStatsTracker \<Rightarrow> (LinkStatsTracker \<times> int) option" where
  "ExpandWirePacketNumberAndCheckMaybeInitialize nWireSeqNum idxMultiPath s =
     (let s = (if m_nMaxRecvPktNum s = 0 then ResetMaxRecvPktNumForIncomingWirePktNum nWireSeqNum s else s)
      in ExpandWirePacketNumberAndCheck nWireSeqNum idxMultiPath s)"

text \<open>The bitfield update of \<open>TrackProcessSequencedPacket\<close>: the masks move forward by a block, or
  start afresh, when the number lies beyond them; then its bit is set.\<close>

definition shift_masks :: "int \<Rightarrow> LinkStatsTracker \<Rightarrow> LinkStatsTracker option" where
  "shift_masks idxRecvBitmask s =
     (if idxRecvBitmask = 2 then do {
        m1 \<leftarrow> get_at (m_recvPktNumberMask s) 1;
        a1 \<leftarrow> get_mask2 (m_recvPktNumberMaskMultiPath s) 0 1;
        b1 \<leftarrow> get_mask2 (m_recvPktNumberMaskMultiPath s) 1 1;
        Some (s\<lparr>m_recvPktNumberMask := [m1, 0], m_recvPktNumberMaskMultiPath := [[a1, 0], [b1, 0]]\<rparr>)
      }
      else Some (s\<lparr>m_recvPktNumberMask := [0, 0], m_recvPktNumberMaskMultiPath := [[0, 0], [0, 0]]\<rparr>))"

definition set_received_bit :: "int \<Rightarrow> int \<Rightarrow> int \<Rightarrow> LinkStatsTracker \<Rightarrow> LinkStatsTracker option" where
  "set_received_bit nPktNum idxMultiPath idxRecvBitmask s =
     do {
       let b = pkt_bit nPktNum;
       m \<leftarrow> get_at (m_recvPktNumberMask s) idxRecvBitmask;
       ms \<leftarrow> set_at (m_recvPktNumberMask s) idxRecvBitmask (m OR b);
       mp \<leftarrow> get_mask2 (m_recvPktNumberMaskMultiPath s) idxMultiPath idxRecvBitmask;
       mps \<leftarrow> set_mask2 (m_recvPktNumberMaskMultiPath s) idxMultiPath idxRecvBitmask (mp OR b);
       Some (s\<lparr>m_recvPktNumberMask := ms, m_recvPktNumberMaskMultiPath := mps\<rparr>)
     }"

definition mark_received :: "int \<Rightarrow> int \<Rightarrow> LinkStatsTracker \<Rightarrow> LinkStatsTracker option" where
  "mark_received nPktNum idxMultiPath s =
     do {
       let idxRecvBitmask = recv_bitmask_index (m_nMaxRecvPktNum s) nPktNum;
       if idxRecvBitmask \<ge> 2 then do {
         s \<leftarrow> shift_masks idxRecvBitmask s;
         set_received_bit nPktNum idxMultiPath 1 s
       }
       else set_received_bit nPktNum idxMultiPath idxRecvBitmask s
     }"

text \<open>Two packets in order: the jitter is sampled when both intervals between them are reasonable. The
  second comparison of the source is on unsigned numbers, so it fails for a negative interval.\<close>

definition sample_jitter :: "int \<Rightarrow> int \<Rightarrow> LinkStatsTracker \<Rightarrow> LinkStatsTracker" where
  "sample_jitter usecNow usecSenderTimeSincePrev s =
     (if usecSenderTimeSincePrev \<ge> 0 \<and> usecSenderTimeSincePrev < k_usecTimeSinceLastPacketMaxReasonable
      then let usecRecvTimeSincePrev = usecNow - m_usecTimeLastRecvSeq s
           in if 0 \<le> usecRecvTimeSincePrev \<and> usecRecvTimeSincePrev < k_usecTimeSinceLastPacketMaxReasonable
              then InternalProcessJitterSample (usecRecvTimeSincePrev - usecSenderTimeSincePrev) s
              else s
      else s)"

definition TrackProcessSequencedPacket ::
  "int \<Rightarrow> int \<Rightarrow> int \<Rightarrow> int \<Rightarrow> LinkStatsTracker \<Rightarrow> LinkStatsTracker option" where
  "TrackProcessSequencedPacket nPktNum usecNow usecSenderTimeSincePrev idxMultiPath s =
     do {
       s \<leftarrow> mark_received nPktNum idxMultiPath s;
       let nGap = nPktNum - m_nMaxRecvPktNum s;
       if nGap = 1 then do {
         let s = s\<lparr>m_nDebugPktsRecvInOrder := m_nDebugPktsRecvInOrder s + 1\<rparr>;
         let s = sample_jitter usecNow usecSenderTimeSincePrev s;
         Some (s\<lparr>m_nMaxRecvPktNum := nPktNum, m_usecTimeLastRecvSeq := usecNow\<rparr>)
       }
       else if nGap \<le> 0 then Some (InternalProcessSequencedPacket_OutOfOrder s)
       else if nGap \<ge> 100 then do {
         let s = InternalProcessSequencedPacket_Lurch s;
         let s = InitMaxRecvPktNum nPktNum s;
         Some (s\<lparr>m_usecTimeLastRecvSeq := usecNow\<rparr>)
       }
       else do {
         let s = InternalProcessSequencedPacket_Dropped (nGap - 1) s;
         Some (s\<lparr>m_nMaxRecvPktNum := nPktNum, m_usecTimeLastRecvSeq := usecNow\<rparr>)
       }
     }"

text \<open>
  \<open>DecryptDataChunk\<close> of \<open>clientlib/steamnetworkingsockets_connections.cpp\<close>, as far as it uses the
  tracker: the cipher is a parameter, whose answer for the chunk at a packet number is
  \<open>decrypt\<close>. \<open>ProcessPlainTextDataChunk\<close> of \<open>clientlib/steamnetworkingsockets_snp.cpp\<close> then
  calls \<open>TrackProcessSequencedPacket\<close>.
\<close>

definition DecryptDataChunk ::
  "(int \<Rightarrow> bool) \<Rightarrow> u16 \<Rightarrow> int \<Rightarrow> LinkStatsTracker \<Rightarrow> (LinkStatsTracker \<times> int option) option" where
  "DecryptDataChunk decrypt nWireSeqNum idxMultiPath s =
     do {
       (s, nPktNum) \<leftarrow> ExpandWirePacketNumberAndCheck nWireSeqNum idxMultiPath s;
       if nPktNum \<le> 0 then Some (s, None)
       else if \<not> decrypt nPktNum then Some (s, None)
       else if nPktNum - m_nMaxRecvPktNum s > 0x4000 then Some (s, None)
       else Some (s, Some nPktNum)
     }"

record packet =
  pkt_wire :: u16
  pkt_path :: int
  pkt_now :: int
  pkt_sender_gap :: int
  pkt_decrypt :: "int \<Rightarrow> bool"

definition receive_packet :: "packet \<Rightarrow> LinkStatsTracker \<Rightarrow> (LinkStatsTracker \<times> int option) option" where
  "receive_packet p s =
     do {
       (s, r) \<leftarrow> DecryptDataChunk (pkt_decrypt p) (pkt_wire p) (pkt_path p) s;
       (case r of
          None \<Rightarrow> Some (s, None)
        | Some nPktNum \<Rightarrow> do {
            s \<leftarrow> TrackProcessSequencedPacket nPktNum (pkt_now p) (pkt_sender_gap p) (pkt_path p) s;
            Some (s, Some nPktNum)
          })
     }"

text \<open>
  The quality of an interval, from \<open>UpdateInterval\<close>: the sample and its bucket, when more than five
  sequenced packets arrived and the interval was long enough to be judged. Division truncates.
\<close>

datatype EBucket = k_nBucket_100 | k_nBucket_99 | k_nBucket_97 | k_nBucket_95 | k_nBucket_90
  | k_nBucket_75 | k_nBucket_50 | k_nBucket_1 | k_nBucket_Dead

definition raw_quality :: "SequencedPacketCounters \<Rightarrow> int" where
  "raw_quality c =
     (let nWeird = Weird c;
          nTotalSent = m_nRecv c + m_nDropped c;
          nRecvGood = m_nRecv c - nWeird
      in (nRecvGood * 100) sdiv nTotalSent)"

definition interval_quality :: "SequencedPacketCounters \<Rightarrow> (int \<times> EBucket) option" where
  "interval_quality c =
     (if m_nRecv c > 5 then
        (let nBad = m_nDropped c + Weird c
         in if nBad = 0 then Some (100, k_nBucket_100)
            else let nQuality = raw_quality c
                 in if nQuality \<ge> 99 then Some (99, k_nBucket_99)
                    else if nQuality \<le> 1 then Some (1, k_nBucket_1)
                    else Some (nQuality,
                      if nQuality \<ge> 97 then k_nBucket_97
                      else if nQuality \<ge> 95 then k_nBucket_95
                      else if nQuality \<ge> 90 then k_nBucket_90
                      else if nQuality \<ge> 75 then k_nBucket_75
                      else if nQuality \<ge> 50 then k_nBucket_50
                      else k_nBucket_1))
      else None)"

text \<open>The life of a tracker: packets arrive, intervals end, numbers are consumed by the sender.
  The list holds the packet numbers processed, the latest first.\<close>

inductive link_run :: "LinkStatsTracker \<Rightarrow> int list \<Rightarrow> LinkStatsTracker \<Rightarrow> bool" for s0 where
  start: "link_run s0 [] s0"
| rejected: "link_run s0 ns s \<Longrightarrow> pkt_path p \<in> {0, 1} \<Longrightarrow> receive_packet p s = Some (s', None) \<Longrightarrow>
    link_run s0 ns s'"
| processed: "link_run s0 ns s \<Longrightarrow> pkt_path p \<in> {0, 1} \<Longrightarrow> receive_packet p s = Some (s', Some n) \<Longrightarrow>
    link_run s0 (n # ns) s'"
| interval: "link_run s0 ns s \<Longrightarrow> link_run s0 ns (StartNextInterval t s)"
| sent: "link_run s0 ns s \<Longrightarrow> link_run s0 ns (fst (ConsumeSendPacketNumberAndGetWireFmt t s))"

subsection \<open>Blocks and bits\<close>

lemma and_63: "(n::int) AND 63 = n mod 64"
  using take_bit_eq_mask [of 6 n] by (simp add: take_bit_eq_mod mask_eq_exp_minus_1)

lemma and_7: "(n::int) AND 7 = n mod 8"
  using take_bit_eq_mask [of 3 n] by (simp add: take_bit_eq_mod mask_eq_exp_minus_1)

lemma block_base_eq: "block_base n = 64 * (n div 64)"
proof -
  have "(n AND NOT 63) + (n AND 63) = (n AND NOT 63) OR (n AND 63)"
    by (rule disjunctive_add) (simp add: bit_simps)
  also have "\<dots> = n" by (rule bit_eqI) (auto simp: bit_simps)
  finally have "block_base n = n - n mod 64" by (simp add: block_base_def and_63)
  then show ?thesis by (simp add: minus_mod_eq_mult_div)
qed

lemma recv_bitmask_index_eq: "recv_bitmask_index m n = n div 64 - m div 64 + 1"
proof -
  have "(n - 64 * (m div 64)) div 64 = n div 64 - m div 64" by simp
  then show ?thesis by (simp add: recv_bitmask_index_def block_base_eq drop_bit_eq_div)
qed

lemma nat_mod_64 [simp]: "nat (n mod 64) < 64"
  using pos_mod_bound [of 64 n] by simp

lemma bit_pkt_bit: "k < 64 \<Longrightarrow> bit (pkt_bit n) k \<longleftrightarrow> k = nat (n mod 64)"
  by (auto simp: pkt_bit_def and_63 bit_simps)

lemma and_pkt_bit: "m AND pkt_bit n \<noteq> 0 \<longleftrightarrow> bit m (nat (n mod 64))"
proof
  assume "m AND pkt_bit n \<noteq> 0"
  then obtain k where "bit (m AND pkt_bit n) k" by (metis bit_eqI bit_0_eq bot_apply bot_bool_def)
  then have "bit m k \<and> bit (pkt_bit n) k" "k < 64"
    using bit_imp_le_length [of m k] by (auto simp: bit_and_iff)
  then show "bit m (nat (n mod 64))" by (auto simp: bit_pkt_bit)
next
  assume "bit m (nat (n mod 64))"
  then have "bit (m AND pkt_bit n) (nat (n mod 64))" by (simp add: bit_and_iff bit_pkt_bit)
  then show "m AND pkt_bit n \<noteq> 0" by auto
qed

lemma bit_or_pkt_bit:
  "bit (m OR pkt_bit n) (nat (k mod 64)) \<longleftrightarrow> bit m (nat (k mod 64)) \<or> k mod 64 = n mod 64"
proof -
  have "nat (k mod 64) = nat (n mod 64) \<longleftrightarrow> k mod 64 = n mod 64"
    by (rule eq_nat_nat_iff) simp_all
  then show ?thesis by (simp add: bit_or_iff bit_pkt_bit)
qed

lemma div_mod_64_eq: "k div 64 = n div 64 \<Longrightarrow> k mod 64 = n mod 64 \<Longrightarrow> k = (n::int)"
  by (metis mult_div_mod_eq)

subsection \<open>What the masks represent\<close>

text \<open>\<open>R\<close> is the set of the packet numbers that must not be processed any more: those up to the
  number the masks were initialised with, and those processed since.\<close>

definition block_rep :: "int \<Rightarrow> u64 \<Rightarrow> int set \<Rightarrow> bool" where
  "block_rep q m R \<longleftrightarrow> (\<forall>n. n div 64 = q \<longrightarrow> bit m (nat (n mod 64)) = (n \<in> R))"

definition tracker_inv :: "LinkStatsTracker \<Rightarrow> int set \<Rightarrow> bool" where
  "tracker_inv s R \<longleftrightarrow>
     length (m_arDebugHistoryRecvSeqNum s) = 8 \<and> length (m_nMultiPathRecvLater s) = 2 \<and>
     length (m_nMultiPathRecvSeq s) = 2 \<and>
     (\<exists>m0 m1. m_recvPktNumberMask s = [m0, m1] \<and>
        block_rep (m_nMaxRecvPktNum s div 64 - 1) m0 R \<and> block_rep (m_nMaxRecvPktNum s div 64) m1 R) \<and>
     (\<exists>a0 a1 b0 b1. m_recvPktNumberMaskMultiPath s = [[a0, a1], [b0, b1]]) \<and>
     0 \<le> m_nDebugLastInitMaxRecvPktNum s \<and>
     m_nDebugLastInitMaxRecvPktNum s \<le> m_nMaxRecvPktNum s \<and>
     {..m_nDebugLastInitMaxRecvPktNum s} \<subseteq> R \<and> R \<subseteq> {..m_nMaxRecvPktNum s}"

lemma tracker_invD:
  assumes "tracker_inv s R"
  shows "length (m_arDebugHistoryRecvSeqNum s) = 8" "length (m_nMultiPathRecvLater s) = 2"
    "length (m_nMultiPathRecvSeq s) = 2" "0 \<le> m_nDebugLastInitMaxRecvPktNum s"
    "m_nDebugLastInitMaxRecvPktNum s \<le> m_nMaxRecvPktNum s"
    "{..m_nDebugLastInitMaxRecvPktNum s} \<subseteq> R" "R \<subseteq> {..m_nMaxRecvPktNum s}"
  using assms by (auto simp: tracker_inv_def)

lemma tracker_inv_masks:
  assumes "tracker_inv s R"
  obtains m0 m1 where "m_recvPktNumberMask s = [m0, m1]"
    "block_rep (m_nMaxRecvPktNum s div 64 - 1) m0 R" "block_rep (m_nMaxRecvPktNum s div 64) m1 R"
  using assms by (auto simp: tracker_inv_def)

lemma tracker_inv_paths:
  assumes "tracker_inv s R"
  obtains a0 a1 b0 b1 where "m_recvPktNumberMaskMultiPath s = [[a0, a1], [b0, b1]]"
  using assms by (auto simp: tracker_inv_def)

lemma block_repD: "block_rep q m R \<Longrightarrow> n div 64 = q \<Longrightarrow> bit m (nat (n mod 64)) \<longleftrightarrow> n \<in> R"
  by (simp add: block_rep_def)

lemma block_rep_insert:
  assumes "block_rep q m R" "n div 64 = q"
  shows "block_rep q (m OR pkt_bit n) (insert n R)"
proof -
  have "k mod 64 = n mod 64 \<longleftrightarrow> k = n" if "k div 64 = q" for k
    using that assms(2) div_mod_64_eq [of k n] by auto
  then show ?thesis using assms(1) by (simp add: block_rep_def bit_or_pkt_bit disj_commute)
qed

lemma block_rep_other: "block_rep q m R \<Longrightarrow> n div 64 \<noteq> q \<Longrightarrow> block_rep q m (insert n R)"
  by (auto simp: block_rep_def)

lemma block_rep_empty: "\<forall>n. n div 64 = q \<longrightarrow> n \<notin> R \<Longrightarrow> block_rep q 0 R"
  by (simp add: block_rep_def)

lemma block_rep_full: "\<forall>n. n div 64 = q \<longrightarrow> n \<in> R \<Longrightarrow> block_rep q (- 1) R"
  by (simp add: block_rep_def)

lemma bit_low_mask: "n \<le> 64 \<Longrightarrow> k < 64 \<Longrightarrow> bit (push_bit n 1 - 1 :: u64) k \<longleftrightarrow> k < n"
  by (simp add: push_bit_of_1 flip: mask_eq_exp_minus_1, simp add: bit_mask_iff)

lemma block_rep_init:
  "block_rep (n div 64) (init_mask1 n) {..n}"
proof (cases "n mod 64 = 63")
  case True
  have "k \<le> n" if k: "k div 64 = n div 64" for k
  proof -
    have "k mod 64 \<le> 63" using pos_mod_bound [of 64 k] by simp
    then show ?thesis using mult_div_mod_eq [of 64 k] mult_div_mod_eq [of 64 n] k True by linarith
  qed
  with True show ?thesis by (auto simp: init_mask1_def and_63 intro!: block_rep_full)
next
  case False
  have "n mod 64 < 63" using False pos_mod_bound [of 64 n] by linarith
  then have lt: "nat (n mod 64) + 1 < 64" by linarith
  then have m: "init_mask1 n = push_bit (nat (n mod 64) + 1) 1 - 1"
    by (simp only: init_mask1_def and_63 Let_def less_imp_neq if_False)
  have "bit (init_mask1 n) (nat (k mod 64)) \<longleftrightarrow> k mod 64 \<le> n mod 64" for k
    unfolding m using lt by (subst bit_low_mask) (auto simp: less_Suc_eq_le)
  moreover
  have "k mod 64 \<le> n mod 64 \<longleftrightarrow> k \<le> n" if k: "k div 64 = n div 64" for k
    using mult_div_mod_eq [of 64 k] mult_div_mod_eq [of 64 n] k by linarith
  ultimately show ?thesis by (simp add: block_rep_def)
qed

lemma tracker_inv_InitMaxRecvPktNum:
  assumes "0 \<le> n" "length (m_arDebugHistoryRecvSeqNum s) = 8" "length (m_nMultiPathRecvLater s) = 2"
    "length (m_nMultiPathRecvSeq s) = 2"
  shows "tracker_inv (InitMaxRecvPktNum n s) {..n}"
proof -
  have "k \<le> n" if k: "k div 64 = n div 64 - 1" for k
    using mult_div_mod_eq [of 64 k] mult_div_mod_eq [of 64 n] pos_mod_bound [of 64 k]
      pos_mod_sign [of 64 n] k by linarith
  then have "block_rep (n div 64 - 1) (- 1) {..n}" by (intro block_rep_full) auto
  then show ?thesis using assms block_rep_init [of n]
    by (simp add: tracker_inv_def InitMaxRecvPktNum_def Let_def)
qed

lemma two_paths:
  assumes "i \<in> {0, 1::int}" "j \<in> {0, 1::int}"
  shows "get_mask2 [[a0, a1], [b0, b1]] i j = Some (if i = 0 then if j = 0 then a0 else a1 else if j = 0 then b0 else b1)"
    and "\<exists>a0' a1' b0' b1'. set_mask2 [[a0, a1], [b0, b1]] i j x = Some [[a0', a1'], [b0', b1']]"
  using assms by (auto simp: get_mask2_def set_mask2_def get_at_def set_at_def)

lemma two_cells:
  assumes "i \<in> {0, 1::int}"
  shows "get_at [x, y] i = Some (if i = 0 then x else y)"
    and "set_at [x, y] i z = Some (if i = 0 then [z, y] else [x, z])"
  using assms by (auto simp: get_at_def set_at_def)

subsection \<open>Expanding a wire number\<close>

definition expanded :: "u16 \<Rightarrow> LinkStatsTracker \<Rightarrow> int" where
  "expanded w s = m_nMaxRecvPktNum s + sint (w - word_of_int (m_nMaxRecvPktNum s))"

lemma expanded_wire:
  assumes "- 32768 \<le> n - m_nMaxRecvPktNum s" "n - m_nMaxRecvPktNum s < 32768"
  shows "expanded (word_of_int n) s = n"
proof -
  define g where "g = n - m_nMaxRecvPktNum s"
  have "(word_of_int n :: u16) - word_of_int (m_nMaxRecvPktNum s) = word_of_int g"
    by (simp add: g_def)
  moreover have "sint (word_of_int g :: u16) = g"
    using assms by (simp add: signed_take_bit_int_eq_self signed_of_int g_def [symmetric])
  ultimately show ?thesis by (simp add: expanded_def g_def)
qed

text \<open>What the filter answers: numbers above the highest one are new; others are refused when their
  block has left the masks or when they are in \<open>R\<close>.\<close>

definition fresh :: "LinkStatsTracker \<Rightarrow> int set \<Rightarrow> int \<Rightarrow> bool" where
  "fresh s R n \<longleftrightarrow> m_nMaxRecvPktNum s < n \<or> m_nMaxRecvPktNum s div 64 - 1 \<le> n div 64 \<and> n \<notin> R"

text \<open>The numbers and masks of the tracker, which the counters do not touch.\<close>

lemma tracker_inv_cong:
  assumes "tracker_inv s R"
    and "m_recvPktNumberMask s' = m_recvPktNumberMask s" "m_nMaxRecvPktNum s' = m_nMaxRecvPktNum s"
    and "m_nDebugLastInitMaxRecvPktNum s' = m_nDebugLastInitMaxRecvPktNum s"
    and "length (m_arDebugHistoryRecvSeqNum s') = 8" "length (m_nMultiPathRecvLater s') = 2"
    and "length (m_nMultiPathRecvSeq s') = 2"
    and "\<exists>a0 a1 b0 b1. m_recvPktNumberMaskMultiPath s' = [[a0, a1], [b0, b1]]"
  shows "tracker_inv s' R"
  using assms unfolding tracker_inv_def by presburger

lemma tally_result:
  assumes inv: "tracker_inv s R" and path: "i \<in> {0, 1}" and lh: "length hist = 8"
  obtains t where
    "InternalProcessSequencedPacket_Count i (s\<lparr>m_arDebugHistoryRecvSeqNum := hist\<rparr>) = Some t"
    "tracker_inv t R" "m_nMaxRecvPktNum t = m_nMaxRecvPktNum s"
    "m_nDebugLastInitMaxRecvPktNum t = m_nDebugLastInitMaxRecvPktNum s"
    "m_seqPktCounters t = OnRecv (m_seqPktCounters s)"
    "m_nPktsRecvSequenced t = m_nPktsRecvSequenced s + 1"
    "m_nPktsRecvDroppedAccumulator t = m_nPktsRecvDroppedAccumulator s"
proof -
  obtain x y where xy: "m_nMultiPathRecvSeq s = [x, y]"
    using tracker_invD(3) [OF inv] by (auto simp: length_Suc_conv numeral_2_eq_2)
  obtain a0 a1 b0 b1 where mp: "m_recvPktNumberMaskMultiPath s = [[a0, a1], [b0, b1]]"
    using inv by (rule tracker_inv_paths)
  define ns where "ns = (if i = 0 then [x + 1, y] else [x, y + 1])"
  define t where "t = s\<lparr>m_arDebugHistoryRecvSeqNum := hist, m_nPktsRecvSequenced := m_nPktsRecvSequenced s + 1,
    m_nMultiPathRecvSeq := ns, m_seqPktCounters := OnRecv (m_seqPktCounters s)\<rparr>"
  have "InternalProcessSequencedPacket_Count i (s\<lparr>m_arDebugHistoryRecvSeqNum := hist\<rparr>) = Some t"
    using path by (auto simp: InternalProcessSequencedPacket_Count_def xy get_at_def set_at_def t_def ns_def)
  moreover have "tracker_inv t R"
    using inv by (rule tracker_inv_cong) (simp_all add: t_def lh ns_def mp tracker_invD [OF inv])
  ultimately show ?thesis by (rule that) (simp_all add: t_def)
qed

lemma check_index:
  assumes "n \<le> m_nMaxRecvPktNum s" "m_nMaxRecvPktNum s div 64 - 1 \<le> n div 64" "tracker_inv s R"
  obtains j m where "recv_bitmask_index (m_nMaxRecvPktNum s) n = j" "j \<in> {0, 1}"
    "get_at (m_recvPktNumberMask s) j = Some m" "m AND pkt_bit n \<noteq> 0 \<longleftrightarrow> n \<in> R"
proof -
  define j where "j = recv_bitmask_index (m_nMaxRecvPktNum s) n"
  have "n div 64 \<le> m_nMaxRecvPktNum s div 64" using assms(1) by (intro zdiv_mono1) auto
  with assms(2) have j: "j = 0 \<and> n div 64 = m_nMaxRecvPktNum s div 64 - 1 \<or>
      j = 1 \<and> n div 64 = m_nMaxRecvPktNum s div 64"
    by (auto simp: j_def recv_bitmask_index_eq)
  obtain m0 m1 where m: "m_recvPktNumberMask s = [m0, m1]"
    "block_rep (m_nMaxRecvPktNum s div 64 - 1) m0 R" "block_rep (m_nMaxRecvPktNum s div 64) m1 R"
    using assms(3) by (rule tracker_inv_masks)
  have "(if j = 0 then m0 else m1) AND pkt_bit n \<noteq> 0 \<longleftrightarrow> n \<in> R"
    using j block_repD [OF m(2), of n] block_repD [OF m(3), of n] by (auto simp: and_pkt_bit)
  then show ?thesis using j
    by (intro that [of j "if j = 0 then m0 else m1"]) (auto simp: j_def m(1) two_cells(1))
qed

text \<open>What may change when a packet is checked: the masks per path and the counters.\<close>

definition checked :: "LinkStatsTracker \<Rightarrow> int set \<Rightarrow> int \<Rightarrow> LinkStatsTracker \<Rightarrow> bool" where
  "checked s R d s' \<longleftrightarrow> tracker_inv s' R \<and> m_nMaxRecvPktNum s' = m_nMaxRecvPktNum s \<and>
     m_nDebugLastInitMaxRecvPktNum s' = m_nDebugLastInitMaxRecvPktNum s \<and>
     m_nPktsRecvDroppedAccumulator s' = m_nPktsRecvDroppedAccumulator s \<and>
     m_nDropped (m_seqPktCounters s') = m_nDropped (m_seqPktCounters s) \<and>
     m_nRecv (m_seqPktCounters s') = m_nRecv (m_seqPktCounters s) \<and>
     Weird (m_seqPktCounters s) \<le> Weird (m_seqPktCounters s') \<and>
     Weird (m_seqPktCounters s') \<le> Weird (m_seqPktCounters s) + d \<and>
     m_nPktsRecvSequenced s' = m_nPktsRecvSequenced s"

lemma check_seen:
  assumes inv: "tracker_inv s R" and path: "i \<in> {0, 1}"
    and n: "n \<le> m_nMaxRecvPktNum s" "m_nMaxRecvPktNum s div 64 - 1 \<le> n div 64" "n \<in> R"
  obtains s' where "check_pkt_num n i s = Some (s', 0)" "checked s R 1 s'"
proof -
  obtain j m where j: "recv_bitmask_index (m_nMaxRecvPktNum s) n = j" "j \<in> {0, 1}"
    "get_at (m_recvPktNumberMask s) j = Some m" "m AND pkt_bit n \<noteq> 0"
    using check_index [OF n(1,2) inv] n(3) by metis
  obtain a0 a1 b0 b1 where mp: "m_recvPktNumberMaskMultiPath s = [[a0, a1], [b0, b1]]"
    using inv by (rule tracker_inv_paths)
  obtain pj where pj: "get_mask2 [[a0, a1], [b0, b1]] i j = Some pj"
    using two_paths(1) [OF path j(2)] by blast
  obtain a0' a1' b0' b1' where st: "set_mask2 [[a0, a1], [b0, b1]] i j (pj OR pkt_bit n) = Some [[a0', a1'], [b0', b1']]"
    using two_paths(2) [OF path j(2)] by blast
  obtain l0 l1 where l: "m_nMultiPathRecvLater s = [l0, l1]"
    using tracker_invD(2) [OF inv] by (auto simp: length_Suc_conv numeral_2_eq_2)
  obtain k later' where k: "get_at [l0, l1] i = Some k" "set_at [l0, l1] i (k + 1) = Some later'" "length later' = 2"
    using path by (cases "i = 0") (auto simp: get_at_def set_at_def)
  note inv' = tracker_inv_cong [OF inv]
  define d where "d = InternalProcessSequencedPacket_Duplicate s"
  define e where "e = s\<lparr>m_nMultiPathRecvLater := later', m_recvPktNumberMaskMultiPath := [[a0', a1'], [b0', b1']]\<rparr>"
  have "check_pkt_num n i s = Some (if pj AND pkt_bit n \<noteq> 0 then (d, 0) else (e, 0))"
    using n(1) j by (auto simp: check_pkt_num_def mp pj st l k d_def e_def)
  moreover have "checked s R 1 d"
    by (auto simp: checked_def d_def InternalProcessSequencedPacket_Duplicate_def OnDuplicate_def
        Weird_def mp intro!: inv' tracker_invD [OF inv])
  moreover have "checked s R 1 e"
    by (auto simp: checked_def e_def Weird_def k(3) intro!: inv' tracker_invD [OF inv])
  ultimately show ?thesis by (auto intro: that split: if_splits)
qed

lemma check_result:
  assumes inv: "tracker_inv s R" and path: "i \<in> {0, 1}"
  obtains s' where "check_pkt_num n i s = Some (s', if fresh s R n then n else 0)"
    "checked s R (if fresh s R n then 0 else 1) s'"
proof -
  have same: "checked s R 0 s" using inv by (simp add: checked_def)
  consider (new) "n > m_nMaxRecvPktNum s"
    | (old) "n \<le> m_nMaxRecvPktNum s" "n div 64 < m_nMaxRecvPktNum s div 64 - 1"
    | (seen) "n \<le> m_nMaxRecvPktNum s" "m_nMaxRecvPktNum s div 64 - 1 \<le> n div 64" "n \<in> R"
    | (late) "n \<le> m_nMaxRecvPktNum s" "m_nMaxRecvPktNum s div 64 - 1 \<le> n div 64" "n \<notin> R"
    by linarith
  then show ?thesis
  proof cases
    case new
    with same show ?thesis by (intro that [of s]) (simp_all add: check_pkt_num_def fresh_def)
  next
    case old
    obtain a0 a1 b0 b1 where mp: "m_recvPktNumberMaskMultiPath s = [[a0, a1], [b0, b1]]"
      using inv by (rule tracker_inv_paths)
    have "checked s R 1 (InternalProcessSequencedPacket_Lurch s)"
      by (auto simp: checked_def InternalProcessSequencedPacket_Lurch_def OnLurch_def Weird_def mp
          intro!: tracker_inv_cong [OF inv] tracker_invD [OF inv])
    with old show ?thesis
      by (intro that [of "InternalProcessSequencedPacket_Lurch s"])
        (simp_all add: check_pkt_num_def fresh_def recv_bitmask_index_eq)
  next
    case seen
    then show ?thesis using check_seen [OF inv path seen] that by (auto simp: fresh_def)
  next
    case late
    obtain j m where j: "recv_bitmask_index (m_nMaxRecvPktNum s) n = j" "j \<in> {0, 1}"
      "get_at (m_recvPktNumberMask s) j = Some m" "m AND pkt_bit n = 0"
      using check_index [OF late(1,2) inv] late(3) by metis
    with late same show ?thesis by (intro that [of s]) (auto simp: check_pkt_num_def fresh_def)
  qed
qed

lemma Expand_result:
  assumes inv: "tracker_inv s R" and path: "i \<in> {0, 1}"
  obtains s' where
    "ExpandWirePacketNumberAndCheck w i s = Some (s', if fresh s R (expanded w s) then expanded w s else 0)"
    "tracker_inv s' R" "m_nMaxRecvPktNum s' = m_nMaxRecvPktNum s"
    "m_nDebugLastInitMaxRecvPktNum s' = m_nDebugLastInitMaxRecvPktNum s"
    "m_nPktsRecvDroppedAccumulator s' = m_nPktsRecvDroppedAccumulator s"
    "m_nDropped (m_seqPktCounters s') = m_nDropped (m_seqPktCounters s)"
    "m_nRecv (m_seqPktCounters s') = m_nRecv (m_seqPktCounters s) + 1"
    "Weird (m_seqPktCounters s) \<le> Weird (m_seqPktCounters s')"
    "Weird (m_seqPktCounters s') \<le> Weird (m_seqPktCounters s) + (if fresh s R (expanded w s) then 0 else 1)"
    "m_nPktsRecvSequenced s' = m_nPktsRecvSequenced s + 1"
proof -
  define n where "n = expanded w s"
  define hist where "hist = (m_arDebugHistoryRecvSeqNum s)[nat (m_nPktsRecvSequenced s mod 8) := n]"
  have "m_nPktsRecvSequenced s mod 8 < 8" by simp
  then have hist: "set_at (m_arDebugHistoryRecvSeqNum s) (m_nPktsRecvSequenced s AND 7) n = Some hist"
    using tracker_invD(1) [OF inv] by (simp add: and_7 set_at_def hist_def)
  have lh: "length hist = 8" using tracker_invD(1) [OF inv] by (simp add: hist_def)
  obtain t where t: "InternalProcessSequencedPacket_Count i (s\<lparr>m_arDebugHistoryRecvSeqNum := hist\<rparr>) = Some t"
    "tracker_inv t R" "m_nMaxRecvPktNum t = m_nMaxRecvPktNum s"
    "m_nDebugLastInitMaxRecvPktNum t = m_nDebugLastInitMaxRecvPktNum s"
    "m_seqPktCounters t = OnRecv (m_seqPktCounters s)"
    "m_nPktsRecvSequenced t = m_nPktsRecvSequenced s + 1"
    "m_nPktsRecvDroppedAccumulator t = m_nPktsRecvDroppedAccumulator s"
    using tally_result [OF inv path lh] .
  have f: "fresh t R n = fresh s R n" by (simp add: fresh_def t)
  obtain s' where s': "check_pkt_num n i t = Some (s', if fresh t R n then n else 0)"
    "checked t R (if fresh t R n then 0 else 1) s'"
    using check_result [OF t(2) path] .
  have "ExpandWirePacketNumberAndCheck w i s = Some (s', if fresh s R n then n else 0)"
    by (simp add: ExpandWirePacketNumberAndCheck_def hist [unfolded n_def expanded_def] t(1)
        s'(1) [unfolded n_def expanded_def] f [unfolded n_def expanded_def] n_def expanded_def)
  with s'(2) show ?thesis
    by (intro that [of s']) (simp_all add: n_def [symmetric] f checked_def t OnRecv_def Weird_def)
qed

subsection \<open>Entering a packet\<close>

lemma block_rep_beyond: "R \<subseteq> {..m} \<Longrightarrow> m div 64 < q \<Longrightarrow> block_rep q 0 R"
  by (rule block_rep_empty) (auto dest: zdiv_mono1 [where b = "64::int"] simp: not_le [symmetric])

text \<open>After the shift the masks represent the block of the new number and the one before it.\<close>

lemma shift_masks_result:
  assumes inv: "tracker_inv s R" and n: "m_nMaxRecvPktNum s div 64 < n div 64"
  obtains s' m0 m1 a0 a1 b0 b1 where
    "shift_masks (recv_bitmask_index (m_nMaxRecvPktNum s) n) s = Some s'"
    "s' = s\<lparr>m_recvPktNumberMask := [m0, m1], m_recvPktNumberMaskMultiPath := [[a0, a1], [b0, b1]]\<rparr>"
    "block_rep (n div 64 - 1) m0 R" "block_rep (n div 64) m1 R"
proof -
  obtain m0 m1 where m: "m_recvPktNumberMask s = [m0, m1]"
    "block_rep (m_nMaxRecvPktNum s div 64 - 1) m0 R" "block_rep (m_nMaxRecvPktNum s div 64) m1 R"
    using inv by (rule tracker_inv_masks)
  obtain a0 a1 b0 b1 where mp: "m_recvPktNumberMaskMultiPath s = [[a0, a1], [b0, b1]]"
    using inv by (rule tracker_inv_paths)
  have R: "R \<subseteq> {..m_nMaxRecvPktNum s}" using inv by (rule tracker_invD)
  have z: "block_rep (n div 64) 0 R" using R n by (rule block_rep_beyond)
  show ?thesis
  proof (cases "n div 64 = m_nMaxRecvPktNum s div 64 + 1")
    case True
    with m(3) z show ?thesis
      by (intro that [of "s\<lparr>m_recvPktNumberMask := [m1, 0], m_recvPktNumberMaskMultiPath := [[a1, 0], [b1, 0]]\<rparr>"])
        (simp_all add: shift_masks_def recv_bitmask_index_eq m(1) mp get_at_def get_mask2_def)
  next
    case False
    then have "block_rep (n div 64 - 1) 0 R" using n by (intro block_rep_beyond [OF R]) linarith
    with False z show ?thesis
      by (intro that [of "s\<lparr>m_recvPktNumberMask := [0, 0], m_recvPktNumberMaskMultiPath := [[0, 0], [0, 0]]\<rparr>"])
        (simp_all add: shift_masks_def recv_bitmask_index_eq)
  qed
qed

text \<open>The masks of \<open>s'\<close> stand for \<open>R\<close> in the block \<open>q\<close> and the one before; nothing else differs
  from \<open>s\<close>.\<close>

definition marked :: "LinkStatsTracker \<Rightarrow> int \<Rightarrow> int set \<Rightarrow> LinkStatsTracker \<Rightarrow> bool" where
  "marked s q R s' \<longleftrightarrow> (\<exists>m0 m1 a0 a1 b0 b1.
     s' = s\<lparr>m_recvPktNumberMask := [m0, m1], m_recvPktNumberMaskMultiPath := [[a0, a1], [b0, b1]]\<rparr> \<and>
     block_rep (q - 1) m0 R \<and> block_rep q m1 R)"

lemma marked_self:
  assumes "tracker_inv s R"
  shows "marked s (m_nMaxRecvPktNum s div 64) R s"
proof -
  obtain m0 m1 where m: "m_recvPktNumberMask s = [m0, m1]"
    "block_rep (m_nMaxRecvPktNum s div 64 - 1) m0 R" "block_rep (m_nMaxRecvPktNum s div 64) m1 R"
    using assms by (rule tracker_inv_masks)
  obtain a0 a1 b0 b1 where mp: "m_recvPktNumberMaskMultiPath s = [[a0, a1], [b0, b1]]"
    using assms by (rule tracker_inv_paths)
  have "s = s\<lparr>m_recvPktNumberMask := [m0, m1], m_recvPktNumberMaskMultiPath := [[a0, a1], [b0, b1]]\<rparr>"
    using m(1) mp by simp
  with m(2,3) show ?thesis unfolding marked_def by blast
qed

lemma set_received_bit_result:
  assumes j: "j \<in> {0, 1}" "j = n div 64 - q + 1" and path: "i \<in> {0, 1}" and s: "marked t q R s"
  obtains s' where "set_received_bit n i j s = Some s'" "marked t q (insert n R) s'"
proof -
  obtain m0 m1 a0 a1 b0 b1 where m:
    "s = t\<lparr>m_recvPktNumberMask := [m0, m1], m_recvPktNumberMaskMultiPath := [[a0, a1], [b0, b1]]\<rparr>"
    "block_rep (q - 1) m0 R" "block_rep q m1 R"
    using s by (auto simp: marked_def)
  have fields: "m_recvPktNumberMask s = [m0, m1]" "m_recvPktNumberMaskMultiPath s = [[a0, a1], [b0, b1]]"
    unfolding m(1) by simp_all
  obtain p where p: "get_mask2 [[a0, a1], [b0, b1]] i j = Some p"
    using two_paths(1) [OF path j(1)] by blast
  obtain a0' a1' b0' b1' where st: "set_mask2 [[a0, a1], [b0, b1]] i j (p OR pkt_bit n) = Some [[a0', a1'], [b0', b1']]"
    using two_paths(2) [OF path j(1)] by blast
  define m0' where "m0' = (if j = 0 then m0 OR pkt_bit n else m0)"
  define m1' where "m1' = (if j = 0 then m1 else m1 OR pkt_bit n)"
  have r0: "block_rep (q - 1) m0' (insert n R)"
    using j m(2) by (auto simp: m0'_def intro: block_rep_insert block_rep_other)
  have r1: "block_rep q m1' (insert n R)"
    using j m(3) by (auto simp: m1'_def intro: block_rep_insert block_rep_other)
  have cell: "get_at [m0, m1] j = Some (if j = 0 then m0 else m1)"
    "set_at [m0, m1] j ((if j = 0 then m0 else m1) OR pkt_bit n) = Some [m0', m1']"
    using j(1) by (auto simp: m0'_def m1'_def get_at_def set_at_def)
  have "set_received_bit n i j s =
      Some (s\<lparr>m_recvPktNumberMask := [m0', m1'], m_recvPktNumberMaskMultiPath := [[a0', a1'], [b0', b1']]\<rparr>)"
    unfolding set_received_bit_def Let_def fields cell p st bind.simps by simp
  also have "\<dots> = Some (t\<lparr>m_recvPktNumberMask := [m0', m1'], m_recvPktNumberMaskMultiPath := [[a0', a1'], [b0', b1']]\<rparr>)"
    unfolding m(1) by simp
  finally show ?thesis by (rule that) (unfold marked_def, use r0 r1 in blast)
qed

lemma mark_result:
  assumes inv: "tracker_inv s R" and path: "i \<in> {0, 1}" and new: "m_nMaxRecvPktNum s div 64 - 1 \<le> n div 64"
  obtains s' where "mark_received n i s = Some s'"
    "marked s (max n (m_nMaxRecvPktNum s) div 64) (insert n R) s'"
proof -
  define M where "M = m_nMaxRecvPktNum s"
  show ?thesis
  proof (cases "M div 64 < n div 64")
    case True
    obtain t m0 m1 a0 a1 b0 b1 where t: "shift_masks (recv_bitmask_index M n) s = Some t"
      "t = s\<lparr>m_recvPktNumberMask := [m0, m1], m_recvPktNumberMaskMultiPath := [[a0, a1], [b0, b1]]\<rparr>"
      "block_rep (n div 64 - 1) m0 R" "block_rep (n div 64) m1 R"
      using shift_masks_result [OF inv] True unfolding M_def by metis
    have mt: "marked s (n div 64) R t" using t(2-4) unfolding marked_def by blast
    have "M < n" using True zdiv_mono1 [of n M 64] by linarith
    then have mx: "max n M = n" by simp
    obtain s' where s': "set_received_bit n i 1 t = Some s'" "marked s (n div 64) (insert n R) s'"
      using set_received_bit_result [of 1 n "n div 64", OF _ _ path mt] by auto
    have "recv_bitmask_index M n \<ge> 2" using True by (simp add: recv_bitmask_index_eq)
    then have "mark_received n i s = Some s'"
      using t(1) s'(1) by (simp add: mark_received_def M_def)
    then show ?thesis using s'(2) mx by (intro that) (auto simp: M_def)
  next
    case False
    have j: "recv_bitmask_index M n \<in> {0, 1}" "recv_bitmask_index M n = n div 64 - M div 64 + 1"
      using False new by (auto simp: recv_bitmask_index_eq M_def)
    have ms: "marked s (M div 64) R s" unfolding M_def using inv by (rule marked_self)
    obtain s' where s': "set_received_bit n i (recv_bitmask_index M n) s = Some s'"
      "marked s (M div 64) (insert n R) s'"
      using set_received_bit_result [OF j path ms] .
    have "max n M div 64 = M div 64"
      using False zdiv_mono1 [of M n 64] by (cases "M \<le> n") (auto simp: max_def)
    moreover have "mark_received n i s = Some s'"
      using s'(1) j(1) by (auto simp: mark_received_def M_def)
    ultimately show ?thesis using s'(2) by (intro that) (auto simp: M_def)
  qed
qed

lemma marked_inv:
  assumes inv: "tracker_inv s R" and m: "marked s (M div 64) R' s1"
    and max: "m_nMaxRecvPktNum s \<le> M" and R': "R \<subseteq> R'" "R' \<subseteq> {..M}"
    and t: "m_recvPktNumberMask t = m_recvPktNumberMask s1"
      "m_recvPktNumberMaskMultiPath t = m_recvPktNumberMaskMultiPath s1"
      "m_arDebugHistoryRecvSeqNum t = m_arDebugHistoryRecvSeqNum s1"
      "m_nMultiPathRecvLater t = m_nMultiPathRecvLater s1" "m_nMultiPathRecvSeq t = m_nMultiPathRecvSeq s1"
      "m_nDebugLastInitMaxRecvPktNum t = m_nDebugLastInitMaxRecvPktNum s1" "m_nMaxRecvPktNum t = M"
  shows "tracker_inv t R'"
proof -
  obtain m0 m1 a0 a1 b0 b1 where s1:
    "s1 = s\<lparr>m_recvPktNumberMask := [m0, m1], m_recvPktNumberMaskMultiPath := [[a0, a1], [b0, b1]]\<rparr>"
    "block_rep (M div 64 - 1) m0 R'" "block_rep (M div 64) m1 R'"
    using m unfolding marked_def by blast
  have "{..m_nDebugLastInitMaxRecvPktNum s} \<subseteq> R'" using tracker_invD(6) [OF inv] R'(1) by blast
  moreover have "m_nDebugLastInitMaxRecvPktNum s \<le> M" using tracker_invD(5) [OF inv] max by simp
  ultimately show ?thesis using s1(2,3) R'(2) tracker_invD(1-4) [OF inv]
    by (simp add: tracker_inv_def t s1(1))
qed

lemma OnOutOfOrder_fields:
  "m_nDropped (OnOutOfOrder c) = (if m_nDropped c > 0 then m_nDropped c - 1 else m_nDropped c)"
  "m_nRecv (OnOutOfOrder c) = m_nRecv c" "Weird (OnOutOfOrder c) = Weird c + 1"
  by (simp_all add: OnOutOfOrder_def Let_def Weird_def)

lemma sample_jitter_fields:
  "m_nDropped (m_seqPktCounters (sample_jitter now since s)) = m_nDropped (m_seqPktCounters s)"
  "m_nRecv (m_seqPktCounters (sample_jitter now since s)) = m_nRecv (m_seqPktCounters s)"
  "Weird (m_seqPktCounters (sample_jitter now since s)) = Weird (m_seqPktCounters s)"
  "m_recvPktNumberMask (sample_jitter now since s) = m_recvPktNumberMask s"
  "m_recvPktNumberMaskMultiPath (sample_jitter now since s) = m_recvPktNumberMaskMultiPath s"
  "m_arDebugHistoryRecvSeqNum (sample_jitter now since s) = m_arDebugHistoryRecvSeqNum s"
  "m_nMultiPathRecvLater (sample_jitter now since s) = m_nMultiPathRecvLater s"
  "m_nMultiPathRecvSeq (sample_jitter now since s) = m_nMultiPathRecvSeq s"
  "m_nDebugLastInitMaxRecvPktNum (sample_jitter now since s) = m_nDebugLastInitMaxRecvPktNum s"
  "m_nPktsRecvDroppedAccumulator (sample_jitter now since s) = m_nPktsRecvDroppedAccumulator s"
  by (simp_all add: sample_jitter_def InternalProcessJitterSample_def Let_def Weird_def)

text \<open>What entering a fresh number does to the set, the highest number and the counters.\<close>

definition entered :: "LinkStatsTracker \<Rightarrow> int set \<Rightarrow> int \<Rightarrow> LinkStatsTracker \<Rightarrow> bool" where
  "entered s R n s' \<longleftrightarrow>
     (let gap = n - m_nMaxRecvPktNum s; c = m_seqPktCounters s; c' = m_seqPktCounters s'
      in tracker_inv s' (if gap \<ge> 100 then {..n} else insert n R) \<and>
         m_nMaxRecvPktNum s' = max n (m_nMaxRecvPktNum s) \<and>
         m_nDebugLastInitMaxRecvPktNum s' = (if gap \<ge> 100 then n else m_nDebugLastInitMaxRecvPktNum s) \<and>
         m_nDropped c' = (if gap \<ge> 100 then m_nDropped c else if gap > 0 then m_nDropped c + (gap - 1)
           else if m_nDropped c > 0 then m_nDropped c - 1 else m_nDropped c) \<and>
         m_nRecv c' = m_nRecv c \<and> Weird c \<le> Weird c' \<and> Weird c' \<le> Weird c + 1 \<and>
         m_nPktsRecvDroppedAccumulator s' = m_nPktsRecvDroppedAccumulator s)"

lemma Track_result:
  assumes inv: "tracker_inv s R" and path: "i \<in> {0, 1}" and new: "fresh s R n"
  obtains s' where "TrackProcessSequencedPacket n now since i s = Some s'" "entered s R n s'"
proof -
  define M where "M = max n (m_nMaxRecvPktNum s)"
  have "m_nMaxRecvPktNum s div 64 - 1 \<le> n div 64"
    using new zdiv_mono1 [of "m_nMaxRecvPktNum s" n 64] by (auto simp: fresh_def)
  then obtain s1 where s1: "mark_received n i s = Some s1" "marked s (M div 64) (insert n R) s1"
    using mark_result [OF inv path] unfolding M_def by metis
  have RM: "insert n R \<subseteq> {..M}" using tracker_invD(7) [OF inv] by (auto simp: M_def)
  note inv1 = marked_inv [OF inv s1(2) _ subset_insertI RM]
  have f: "m_nMaxRecvPktNum s1 = m_nMaxRecvPktNum s" "m_seqPktCounters s1 = m_seqPktCounters s"
    "m_nDebugLastInitMaxRecvPktNum s1 = m_nDebugLastInitMaxRecvPktNum s"
    "m_nPktsRecvDroppedAccumulator s1 = m_nPktsRecvDroppedAccumulator s"
    "m_arDebugHistoryRecvSeqNum s1 = m_arDebugHistoryRecvSeqNum s"
    "m_nMultiPathRecvLater s1 = m_nMultiPathRecvLater s" "m_nMultiPathRecvSeq s1 = m_nMultiPathRecvSeq s"
    using s1(2) by (auto simp: marked_def)
  have pos: "0 \<le> m_nMaxRecvPktNum s" using tracker_invD(4,5) [OF inv] by simp
  consider (succ) "n - m_nMaxRecvPktNum s = 1" | (late) "n - m_nMaxRecvPktNum s \<le> 0"
    | (jump) "n - m_nMaxRecvPktNum s \<ge> 100" | (lost) "n - m_nMaxRecvPktNum s > 1" "n - m_nMaxRecvPktNum s < 100"
    by linarith
  then show ?thesis
  proof cases
    case succ
    define t1 where "t1 = s1\<lparr>m_nDebugPktsRecvInOrder := m_nDebugPktsRecvInOrder s1 + 1\<rparr>"
    define t2 where "t2 = sample_jitter now since t1"
    define s' where "s' = t2\<lparr>m_nMaxRecvPktNum := n, m_usecTimeLastRecvSeq := now\<rparr>"
    have track: "TrackProcessSequencedPacket n now since i s = Some s'"
      using succ by (simp add: TrackProcessSequencedPacket_def s1(1) f t1_def t2_def s'_def Let_def)
    have g: "m_recvPktNumberMask s' = m_recvPktNumberMask s1"
      "m_recvPktNumberMaskMultiPath s' = m_recvPktNumberMaskMultiPath s1"
      "m_arDebugHistoryRecvSeqNum s' = m_arDebugHistoryRecvSeqNum s1"
      "m_nMultiPathRecvLater s' = m_nMultiPathRecvLater s1" "m_nMultiPathRecvSeq s' = m_nMultiPathRecvSeq s1"
      "m_nDebugLastInitMaxRecvPktNum s' = m_nDebugLastInitMaxRecvPktNum s1" "m_nMaxRecvPktNum s' = n"
      "m_nDropped (m_seqPktCounters s') = m_nDropped (m_seqPktCounters s)"
      "m_nRecv (m_seqPktCounters s') = m_nRecv (m_seqPktCounters s)"
      "Weird (m_seqPktCounters s') = Weird (m_seqPktCounters s)"
      "m_nPktsRecvDroppedAccumulator s' = m_nPktsRecvDroppedAccumulator s"
      by (simp_all add: s'_def t2_def sample_jitter_fields t1_def f)
    have "M = n" using succ by (simp add: M_def)
    then have "tracker_inv s' (insert n R)" using succ by (intro inv1) (simp_all add: g)
    then have "entered s R n s'" using succ g by (simp add: entered_def f)
    with track show ?thesis by (rule that)
  next
    case late
    define s' where "s' = upd_counters OnOutOfOrder s1"
    have "TrackProcessSequencedPacket n now since i s = Some s'"
      using late by (simp add: TrackProcessSequencedPacket_def s1(1) f s'_def
          InternalProcessSequencedPacket_OutOfOrder_def)
    moreover have "tracker_inv s' (insert n R)"
      using late by (intro inv1) (simp_all add: s'_def f M_def)
    then have "entered s R n s'"
      using late by (simp add: entered_def s'_def f OnOutOfOrder_fields)
    ultimately show ?thesis by (rule that)
  next
    case jump
    define s' where "s' = (InitMaxRecvPktNum n (upd_counters OnLurch s1))\<lparr>m_usecTimeLastRecvSeq := now\<rparr>"
    have "TrackProcessSequencedPacket n now since i s = Some s'"
      using jump by (simp add: TrackProcessSequencedPacket_def s1(1) f s'_def
          InternalProcessSequencedPacket_Lurch_def)
    moreover have inv0: "tracker_inv (InitMaxRecvPktNum n (upd_counters OnLurch s1)) {..n}"
      using jump pos tracker_invD [OF inv] by (intro tracker_inv_InitMaxRecvPktNum) (simp_all add: f)
    have "tracker_inv s' {..n}"
      using inv0 by (rule tracker_inv_cong)
        (use tracker_invD [OF inv] in \<open>simp_all add: s'_def InitMaxRecvPktNum_def Let_def f\<close>)
    then have "entered s R n s'"
      using jump by (simp add: entered_def s'_def InitMaxRecvPktNum_def Let_def f OnLurch_def Weird_def)
    ultimately show ?thesis by (rule that)
  next
    case lost
    define s' where "s' = (upd_counters (OnDropped (n - m_nMaxRecvPktNum s - 1)) s1)
      \<lparr>m_nMaxRecvPktNum := n, m_usecTimeLastRecvSeq := now\<rparr>"
    have "TrackProcessSequencedPacket n now since i s = Some s'"
      using lost by (simp add: TrackProcessSequencedPacket_def s1(1) f s'_def
          InternalProcessSequencedPacket_Dropped_def)
    moreover have "tracker_inv s' (insert n R)"
      using lost by (intro inv1) (simp_all add: s'_def f M_def)
    then have "entered s R n s'"
      using lost by (simp add: entered_def s'_def f OnDropped_def Weird_def)
    ultimately show ?thesis by (rule that)
  qed
qed

subsection \<open>A whole packet\<close>

lemma fresh_above_floor:
  "tracker_inv s R \<Longrightarrow> fresh s R n \<Longrightarrow> m_nDebugLastInitMaxRecvPktNum s < n"
  using tracker_invD(5,6) [of s R] by (auto simp: fresh_def not_less [symmetric])

lemma fresh_new: "tracker_inv s R \<Longrightarrow> fresh s R n \<Longrightarrow> n \<notin> R"
  using tracker_invD(7) [of s R] by (auto simp: fresh_def)

text \<open>The packets that are processed: fresh, authentic and not too far ahead.\<close>

definition accepts :: "packet \<Rightarrow> LinkStatsTracker \<Rightarrow> int set \<Rightarrow> bool" where
  "accepts p s R \<longleftrightarrow>
     (let n = expanded (pkt_wire p) s
      in fresh s R n \<and> pkt_decrypt p n \<and> n - m_nMaxRecvPktNum s \<le> 0x4000)"

lemma receive_result:
  assumes inv: "tracker_inv s R" and path: "pkt_path p \<in> {0, 1}"
  obtains s1 s' where
    "receive_packet p s = Some (s', if accepts p s R then Some (expanded (pkt_wire p) s) else None)"
    "tracker_inv s1 R" "m_nMaxRecvPktNum s1 = m_nMaxRecvPktNum s"
    "m_nDebugLastInitMaxRecvPktNum s1 = m_nDebugLastInitMaxRecvPktNum s"
    "m_nPktsRecvDroppedAccumulator s1 = m_nPktsRecvDroppedAccumulator s"
    "m_nDropped (m_seqPktCounters s1) = m_nDropped (m_seqPktCounters s)"
    "m_nRecv (m_seqPktCounters s1) = m_nRecv (m_seqPktCounters s) + 1"
    "Weird (m_seqPktCounters s) \<le> Weird (m_seqPktCounters s1)"
    "Weird (m_seqPktCounters s1) \<le> Weird (m_seqPktCounters s) + (if accepts p s R then 0 else 1)"
    "if accepts p s R then entered s1 R (expanded (pkt_wire p) s) s' else s' = s1"
proof -
  define n where "n = expanded (pkt_wire p) s"
  obtain s1 where s1:
    "ExpandWirePacketNumberAndCheck (pkt_wire p) (pkt_path p) s = Some (s1, if fresh s R n then n else 0)"
    "tracker_inv s1 R" "m_nMaxRecvPktNum s1 = m_nMaxRecvPktNum s"
    "m_nDebugLastInitMaxRecvPktNum s1 = m_nDebugLastInitMaxRecvPktNum s"
    "m_nPktsRecvDroppedAccumulator s1 = m_nPktsRecvDroppedAccumulator s"
    "m_nDropped (m_seqPktCounters s1) = m_nDropped (m_seqPktCounters s)"
    "m_nRecv (m_seqPktCounters s1) = m_nRecv (m_seqPktCounters s) + 1"
    "Weird (m_seqPktCounters s) \<le> Weird (m_seqPktCounters s1)"
    "Weird (m_seqPktCounters s1) \<le> Weird (m_seqPktCounters s) + (if fresh s R n then 0 else 1)"
    using Expand_result [OF inv path] unfolding n_def by metis
  have acc: "accepts p s R \<longleftrightarrow> fresh s R n \<and> pkt_decrypt p n \<and> n - m_nMaxRecvPktNum s \<le> 0x4000"
    by (simp add: accepts_def n_def Let_def)
  have pos: "0 < n" if "fresh s R n"
    using fresh_above_floor [OF inv that] tracker_invD(4) [OF inv] by simp
  show ?thesis
  proof (cases "accepts p s R")
    case True
    then have f: "fresh s R n" by (simp add: acc)
    then have "fresh s1 R n" by (simp add: fresh_def s1(3))
    then obtain s' where s': "TrackProcessSequencedPacket n (pkt_now p) (pkt_sender_gap p) (pkt_path p) s1 = Some s'"
      "entered s1 R n s'" using Track_result [OF s1(2) path] by metis
    have "receive_packet p s = Some (s', Some n)"
      using True pos [OF f] f s'(1) by (simp add: receive_packet_def DecryptDataChunk_def s1(1,3) acc)
    with True f s1 s'(2) show ?thesis by (intro that [of s' s1]) (simp_all add: n_def [symmetric])
  next
    case False
    then have "receive_packet p s = Some (s1, None)"
      using pos by (auto simp: receive_packet_def DecryptDataChunk_def s1(1,3) acc)
    with False s1 show ?thesis by (intro that [of s1 s1]) (auto split: if_splits)
  qed
qed

subsection \<open>Runs\<close>

abbreviation floor_of :: "LinkStatsTracker \<Rightarrow> int" where
  "floor_of s \<equiv> m_nDebugLastInitMaxRecvPktNum s"

definition missing :: "LinkStatsTracker \<Rightarrow> int list \<Rightarrow> int set" where
  "missing s ns = {floor_of s <.. m_nMaxRecvPktNum s} - set ns"

definition run_inv :: "int \<Rightarrow> int list \<Rightarrow> LinkStatsTracker \<Rightarrow> bool" where
  "run_inv k ns s \<longleftrightarrow>
     tracker_inv s ({..floor_of s} \<union> set ns) \<and> distinct ns \<and> (\<forall>n \<in> set ns. k < n) \<and> k \<le> floor_of s \<and>
     0 \<le> Weird (m_seqPktCounters s) \<and> Weird (m_seqPktCounters s) \<le> m_nRecv (m_seqPktCounters s) \<and>
     0 \<le> m_nDropped (m_seqPktCounters s) \<and> 0 \<le> m_nPktsRecvDroppedAccumulator s \<and>
     int (card (missing s ns)) \<le> PktsRecvDropped s \<and>
     (floor_of s = k \<and> m_nPktsRecvDroppedAccumulator s = 0 \<longrightarrow>
        m_nDropped (m_seqPktCounters s) = int (card (missing s ns)))"

definition started :: "int \<Rightarrow> LinkStatsTracker \<Rightarrow> LinkStatsTracker" where
  "started k s0 = InitMaxRecvPktNum k (InitInternal s0)"

lemma run_inv_started:
  assumes "0 \<le> k" "length (m_arDebugHistoryRecvSeqNum s0) = 8"
  shows "run_inv k [] (started k s0)"
proof -
  have "tracker_inv (InitMaxRecvPktNum k (InitInternal s0)) {..k}"
    using assms by (intro tracker_inv_InitMaxRecvPktNum)
      (simp_all add: InitInternal_def InitMaxRecvPktNum_def Let_def)
  then show ?thesis
    by (simp add: run_inv_def started_def InitMaxRecvPktNum_def InitInternal_def Let_def missing_def
        Counters_Reset_def Weird_def PktsRecvDropped_def)
qed

lemma tracker_inv_interval: "tracker_inv (StartNextInterval t s) R = tracker_inv s R"
  by (simp add: tracker_inv_def StartNextInterval_def)

lemma tracker_inv_sent:
  "tracker_inv (fst (ConsumeSendPacketNumberAndGetWireFmt t s)) R = tracker_inv s R"
  by (simp add: tracker_inv_def ConsumeSendPacketNumberAndGetWireFmt_def)

lemma run_inv_interval:
  assumes "run_inv k ns s"
  shows "run_inv k ns (StartNextInterval t s)"
proof -
  define s' where "s' = StartNextInterval t s"
  have f: "floor_of s' = floor_of s" "m_nMaxRecvPktNum s' = m_nMaxRecvPktNum s"
    "m_nDropped (m_seqPktCounters s') = 0" "m_nRecv (m_seqPktCounters s') = 0" "Weird (m_seqPktCounters s') = 0"
    "m_nPktsRecvDroppedAccumulator s' = m_nPktsRecvDroppedAccumulator s + m_nDropped (m_seqPktCounters s)"
    by (simp_all add: s'_def StartNextInterval_def Counters_Reset_def Weird_def)
  have inv: "tracker_inv s' R = tracker_inv s R" for R by (simp add: s'_def tracker_inv_interval)
  have "missing s' ns = missing s ns" by (simp add: missing_def f)
  then show ?thesis using assms unfolding run_inv_def s'_def [symmetric] f PktsRecvDropped_def inv by auto
qed

lemma run_inv_sent: "run_inv k ns s \<Longrightarrow> run_inv k ns (fst (ConsumeSendPacketNumberAndGetWireFmt t s))"
  unfolding run_inv_def tracker_inv_sent
  by (simp add: ConsumeSendPacketNumberAndGetWireFmt_def missing_def PktsRecvDropped_def)

text \<open>The missing numbers after a packet: one less when it was missing, more when it skips some.\<close>

lemma finite_missing [simp]: "finite (missing s ns)"
  by (simp add: missing_def)

lemma missing_entered:
  assumes inv: "tracker_inv s ({..floor_of s} \<union> set ns)" and n: "n \<notin> {..floor_of s} \<union> set ns"
    and e: "m_nMaxRecvPktNum s' = max n (m_nMaxRecvPktNum s)" "floor_of s' = floor_of s"
  shows "int (card (missing s' (n # ns))) =
    int (card (missing s ns)) + (if n > m_nMaxRecvPktNum s then n - m_nMaxRecvPktNum s - 1 else - 1)"
proof (cases "n > m_nMaxRecvPktNum s")
  case True
  have le: "floor_of s \<le> m_nMaxRecvPktNum s" and sub: "set ns \<subseteq> {..m_nMaxRecvPktNum s}"
    using tracker_invD(5,7) [OF inv] by auto
  have "missing s' (n # ns) = missing s ns \<union> {m_nMaxRecvPktNum s <..< n}"
    using True le sub by (auto simp: missing_def e)
  moreover have "missing s ns \<inter> {m_nMaxRecvPktNum s <..< n} = {}" by (auto simp: missing_def)
  ultimately have "card (missing s' (n # ns)) = card (missing s ns) + card {m_nMaxRecvPktNum s <..< n}"
    by (simp add: card_Un_disjoint)
  with True show ?thesis by simp
next
  case False
  then have m: "n \<in> missing s ns" using n by (auto simp: missing_def)
  have "missing s' (n # ns) = missing s ns - {n}" using False by (auto simp: missing_def e)
  then have "Suc (card (missing s' (n # ns))) = card (missing s ns)"
    using card_Suc_Diff1 [OF finite_missing m] by simp
  with False show ?thesis by simp
qed

lemma run_inv_rejected:
  assumes "run_inv k ns s" "tracker_inv s' ({..floor_of s} \<union> set ns)"
    and "m_nMaxRecvPktNum s' = m_nMaxRecvPktNum s" "floor_of s' = floor_of s"
    and "m_nPktsRecvDroppedAccumulator s' = m_nPktsRecvDroppedAccumulator s"
    and "m_nDropped (m_seqPktCounters s') = m_nDropped (m_seqPktCounters s)"
    and "Weird (m_seqPktCounters s) \<le> Weird (m_seqPktCounters s')"
    and "Weird (m_seqPktCounters s') \<le> m_nRecv (m_seqPktCounters s')"
  shows "run_inv k ns s'"
  using assms by (simp add: run_inv_def missing_def PktsRecvDropped_def)

lemma run_inv_entered:
  assumes run: "run_inv k ns s" and new: "n \<notin> {..floor_of s} \<union> set ns"
    and e: "entered s ({..floor_of s} \<union> set ns) n s'"
    and w: "Weird (m_seqPktCounters s) < m_nRecv (m_seqPktCounters s)"
  shows "run_inv k (n # ns) s'"
proof -
  have r: "tracker_inv s ({..floor_of s} \<union> set ns)" "distinct ns" "\<forall>m \<in> set ns. k < m" "k \<le> floor_of s"
    "0 \<le> m_nDropped (m_seqPktCounters s)" "0 \<le> m_nPktsRecvDroppedAccumulator s"
    "int (card (missing s ns)) \<le> PktsRecvDropped s"
    "floor_of s = k \<and> m_nPktsRecvDroppedAccumulator s = 0 \<longrightarrow>
       m_nDropped (m_seqPktCounters s) = int (card (missing s ns))"
    using run by (auto simp: run_inv_def)
  have kn: "k < n" using r(4) new by auto
  have e': "m_nMaxRecvPktNum s' = max n (m_nMaxRecvPktNum s)"
    "m_nPktsRecvDroppedAccumulator s' = m_nPktsRecvDroppedAccumulator s"
    "0 \<le> Weird (m_seqPktCounters s')" "Weird (m_seqPktCounters s') \<le> m_nRecv (m_seqPktCounters s')"
    using e w run by (auto simp: entered_def run_inv_def Let_def)
  show ?thesis
  proof (cases "n - m_nMaxRecvPktNum s \<ge> 100")
    case True
    then have j: "tracker_inv s' {..n}" "floor_of s' = n"
      "m_nDropped (m_seqPktCounters s') = m_nDropped (m_seqPktCounters s)"
      using e by (simp_all add: entered_def Let_def)
    have "{..n} \<union> set (n # ns) = {..n}" using tracker_invD(7) [OF r(1)] True by auto
    moreover have "missing s' (n # ns) = {}" using True by (auto simp: missing_def j(2) e'(1))
    ultimately show ?thesis using r kn new j e' by (auto simp: run_inv_def PktsRecvDropped_def)
  next
    case False
    then have j: "tracker_inv s' (insert n ({..floor_of s} \<union> set ns))" "floor_of s' = floor_of s"
      "m_nDropped (m_seqPktCounters s') =
        (if n - m_nMaxRecvPktNum s > 0 then m_nDropped (m_seqPktCounters s) + (n - m_nMaxRecvPktNum s - 1)
         else if m_nDropped (m_seqPktCounters s) > 0 then m_nDropped (m_seqPktCounters s) - 1
         else m_nDropped (m_seqPktCounters s))"
      using e by (simp_all add: entered_def Let_def)
    have c: "int (card (missing s' (n # ns))) =
      int (card (missing s ns)) + (if n > m_nMaxRecvPktNum s then n - m_nMaxRecvPktNum s - 1 else - 1)"
      using r(1) new e'(1) j(2) by (rule missing_entered)
    have one: "0 < card (missing s ns)" if le: "n \<le> m_nMaxRecvPktNum s"
    proof -
      have "n \<in> missing s ns" using new le by (auto simp: missing_def)
      then show ?thesis by (auto simp: card_gt_0_iff)
    qed
    have "{..floor_of s} \<union> set (n # ns) = insert n ({..floor_of s} \<union> set ns)" by auto
    then have "tracker_inv s' ({..floor_of s'} \<union> set (n # ns))" using j(1,2) by metis
    moreover have "int (card (missing s' (n # ns))) \<le> PktsRecvDropped s'"
      using r(5-7) c j(3) e'(2) one by (auto simp: PktsRecvDropped_def split: if_splits)
    moreover have "floor_of s' = k \<and> m_nPktsRecvDroppedAccumulator s' = 0 \<longrightarrow>
       m_nDropped (m_seqPktCounters s') = int (card (missing s' (n # ns)))"
      using r(8) c j(2,3) e'(2) one by (auto split: if_splits)
    moreover have "0 \<le> m_nDropped (m_seqPktCounters s')" using r(5) j(3) by auto
    ultimately show ?thesis using r kn new j(2) e' by (auto simp: run_inv_def)
  qed
qed

lemma run_inv_receive:
  assumes run: "run_inv k ns s" and path: "pkt_path p \<in> {0, 1}"
  obtains s' where
    "receive_packet p s = Some (s', if accepts p s ({..floor_of s} \<union> set ns)
       then Some (expanded (pkt_wire p) s) else None)"
    "run_inv k (if accepts p s ({..floor_of s} \<union> set ns) then expanded (pkt_wire p) s # ns else ns) s'"
proof -
  define R where "R = {..floor_of s} \<union> set ns"
  define n where "n = expanded (pkt_wire p) s"
  have inv: "tracker_inv s R" and wr: "Weird (m_seqPktCounters s) \<le> m_nRecv (m_seqPktCounters s)"
    using run by (auto simp: run_inv_def R_def)
  obtain s1 s' where s': "receive_packet p s = Some (s', if accepts p s R then Some n else None)"
    "tracker_inv s1 R" "m_nMaxRecvPktNum s1 = m_nMaxRecvPktNum s" "floor_of s1 = floor_of s"
    "m_nPktsRecvDroppedAccumulator s1 = m_nPktsRecvDroppedAccumulator s"
    "m_nDropped (m_seqPktCounters s1) = m_nDropped (m_seqPktCounters s)"
    "m_nRecv (m_seqPktCounters s1) = m_nRecv (m_seqPktCounters s) + 1"
    "Weird (m_seqPktCounters s) \<le> Weird (m_seqPktCounters s1)"
    "Weird (m_seqPktCounters s1) \<le> Weird (m_seqPktCounters s) + (if accepts p s R then 0 else 1)"
    "if accepts p s R then entered s1 R n s' else s' = s1"
    using receive_result [OF inv path] unfolding n_def by metis
  have w1: "Weird (m_seqPktCounters s1) \<le> m_nRecv (m_seqPktCounters s1)"
    using s'(7,9) wr by (auto split: if_splits)
  have run1: "run_inv k ns s1"
    using run s'(2) [unfolded R_def] s'(3-6,8) w1 by (rule run_inv_rejected)
  show ?thesis
  proof (cases "accepts p s R")
    case True
    then have "n \<notin> R" using fresh_new [OF inv] by (simp add: accepts_def n_def Let_def)
    moreover have "Weird (m_seqPktCounters s1) < m_nRecv (m_seqPktCounters s1)"
      using True s'(7,9) wr by simp
    ultimately have "run_inv k (n # ns) s'"
      using run1 s'(10) True by (intro run_inv_entered) (simp_all add: s'(4) R_def)
    with True s'(1) show ?thesis by (intro that [of s']) (simp_all add: R_def n_def)
  next
    case False
    with run1 s'(1,10) show ?thesis by (intro that [of s']) (simp_all add: R_def n_def)
  qed
qed

lemma link_run_inv:
  assumes "link_run (started k s0) ns s" "0 \<le> k" "length (m_arDebugHistoryRecvSeqNum s0) = 8"
  shows "run_inv k ns s"
  using assms
proof (induction rule: link_run.induct)
  case start
  then show ?case by (rule run_inv_started)
next
  case (rejected ns s p s')
  then have run: "run_inv k ns s" by simp
  obtain t where t: "receive_packet p s = Some (t, if accepts p s ({..floor_of s} \<union> set ns)
       then Some (expanded (pkt_wire p) s) else None)"
    "run_inv k (if accepts p s ({..floor_of s} \<union> set ns) then expanded (pkt_wire p) s # ns else ns) t"
    using run_inv_receive [OF run rejected.hyps(2)] .
  with rejected.hyps(3) show ?case by (simp split: if_splits)
next
  case (processed ns s p s' n)
  then have run: "run_inv k ns s" by simp
  obtain t where t: "receive_packet p s = Some (t, if accepts p s ({..floor_of s} \<union> set ns)
       then Some (expanded (pkt_wire p) s) else None)"
    "run_inv k (if accepts p s ({..floor_of s} \<union> set ns) then expanded (pkt_wire p) s # ns else ns) t"
    using run_inv_receive [OF run processed.hyps(2)] .
  with processed.hyps(3) show ?case by (simp split: if_splits)
next
  case (interval ns s t)
  then show ?case by (intro run_inv_interval)
next
  case (sent ns s t)
  then show ?case by (intro run_inv_sent)
qed

subsection \<open>Quality\<close>

text \<open>The range of samples a bucket stands for.\<close>

fun bucket_range :: "EBucket \<Rightarrow> int set" where
  "bucket_range k_nBucket_100 = {100}"
| "bucket_range k_nBucket_99 = {99}"
| "bucket_range k_nBucket_97 = {97..98}"
| "bucket_range k_nBucket_95 = {95..96}"
| "bucket_range k_nBucket_90 = {90..94}"
| "bucket_range k_nBucket_75 = {75..89}"
| "bucket_range k_nBucket_50 = {50..74}"
| "bucket_range k_nBucket_1 = {1..49}"
| "bucket_range k_nBucket_Dead = {0}"

lemma sdiv_pos: "0 \<le> a \<Longrightarrow> 0 < b \<Longrightarrow> (a::int) sdiv b = a div b"
  by (simp add: signed_divide_int_def sgn_if)

lemma raw_quality_less:
  assumes "0 \<le> Weird c" "Weird c \<le> m_nRecv c" "0 \<le> m_nDropped c" "0 < m_nDropped c + Weird c"
  shows "raw_quality c < 100"
proof -
  have pos: "0 < m_nRecv c + m_nDropped c" using assms by linarith
  define a where "a = (m_nRecv c - Weird c) * 100"
  have "0 \<le> a" using assms(2) by (simp add: a_def)
  then have "raw_quality c = a div (m_nRecv c + m_nDropped c)"
    using pos unfolding raw_quality_def Let_def a_def by (rule sdiv_pos)
  moreover have "a < 100 * (m_nRecv c + m_nDropped c)" using assms(4) by (simp add: a_def)
  moreover have "100 * (m_nRecv c + m_nDropped c) \<le> a" if q: "100 \<le> a div (m_nRecv c + m_nDropped c)"
    using mult_right_mono [OF q, of "m_nRecv c + m_nDropped c"] pos
      div_mult_mod_eq [of a "m_nRecv c + m_nDropped c"] pos_mod_sign [OF pos, of a] by linarith
  ultimately show ?thesis by linarith
qed

lemma interval_quality_bucket: "interval_quality c = Some (q, b) \<Longrightarrow> q \<in> bucket_range b"
  by (auto simp: interval_quality_def Let_def split: if_splits)

lemma Accumulate_wrong:
  "Counters_Accumulate c x =
     \<lparr>m_nRecv = m_nRecv c + m_nRecv x, m_nDropped = m_nDropped c + m_nDropped x,
      m_nOutOfOrder = m_nOutOfOrder c + m_nOutOfOrder x,
      m_nOutOfOrderCorrected = m_nOutOfOrderCorrected c + m_nOutOfOrderCorrected x,
      m_nLurch = m_nLurch c + m_nLurch x, m_nDuplicate = m_nDuplicate c + m_nDuplicate x,
      m_usecMaxJitter = max (m_usecMaxJitter c) (m_usecMaxJitter x)\<rparr> \<longleftrightarrow>
   m_nOutOfOrder x = m_nOutOfOrder c \<and> m_nLurch x = m_nLurch c"
  by (auto simp: Counters_Accumulate_def)

subsection \<open>Properties\<close>

text \<open>
  A concrete tracker and packet, for the witnesses: packets up to 5 are behind us, packet 8 and then
  the late packet 6 arrive.
\<close>

definition sample_tracker :: LinkStatsTracker where
  "sample_tracker = \<lparr>m_nNextSendSequenceNumber = 0, m_usecTimeLastSentSeq = 0, m_nMaxRecvPktNum = 0,
     m_nDebugLastInitMaxRecvPktNum = 0, m_nDebugPktsRecvInOrder = 0,
     m_arDebugHistoryRecvSeqNum = replicate 8 0, m_recvPktNumberMask = [], m_usecTimeLastRecvSeq = 0,
     m_recvPktNumberMaskMultiPath = [], m_nMultiPathRecvLater = [], m_nMultiPathRecvSeq = [],
     m_seqPktCounters = Counters_Reset, m_nPktsRecvSequenced = 0, m_nPktsRecvDroppedAccumulator = 0,
     m_nPktsRecvOutOfOrderAccumulator = 0, m_nPktsRecvOutOfOrderCorrectedAccumulator = 0,
     m_nPktsRecvDuplicateAccumulator = 0, m_nPktsRecvLurchAccumulator = 0,
     m_jitterHistogram = Jitter_Reset, m_usecIntervalStart = 0\<rparr>"

definition sample_packet :: "u16 \<Rightarrow> packet" where
  "sample_packet w =
     \<lparr>pkt_wire = w, pkt_path = 0, pkt_now = 7, pkt_sender_gap = 3, pkt_decrypt = (\<lambda>_. True)\<rparr>"

definition sample_8 :: LinkStatsTracker where
  "sample_8 = fst (the (receive_packet (sample_packet 8) (started 5 sample_tracker)))"

definition sample_86 :: LinkStatsTracker where
  "sample_86 = fst (the (receive_packet (sample_packet 6) sample_8))"

lemma sample_hist: "length (m_arDebugHistoryRecvSeqNum sample_tracker) = 8"
  by (simp add: sample_tracker_def)

lemma sample_run_8: "link_run (started 5 sample_tracker) [8] sample_8"
proof -
  have "map_option snd (receive_packet (sample_packet 8) (started 5 sample_tracker)) = Some (Some 8)"
    by code_simp
  then have "receive_packet (sample_packet 8) (started 5 sample_tracker) = Some (sample_8, Some 8)"
    by (auto simp: sample_8_def)
  then show ?thesis
    using link_run.processed [OF link_run.start, of "sample_packet 8"] by (simp add: sample_packet_def)
qed

lemma sample_run: "link_run (started 5 sample_tracker) [6, 8] sample_86"
proof -
  have "map_option snd (receive_packet (sample_packet 6) sample_8) = Some (Some 6)"
    by code_simp
  then have "receive_packet (sample_packet 6) sample_8 = Some (sample_86, Some 6)"
    by (auto simp: sample_86_def)
  then show ?thesis
    using link_run.processed [OF sample_run_8, of "sample_packet 6"] by (simp add: sample_packet_def)
qed

text \<open>
  C18: No packet is processed twice. Over any sequence of received packets (duplicates, replays,
  forgeries and late packets on either path), interval ends and sent packets, the numbers that
  \<open>TrackProcessSequencedPacket\<close> gets are pairwise different, above the number the tracker was
  initialised with and at most the highest number recorded.
\<close>
theorem link_processes_packets_once:
  assumes "link_run (started k s0) ns s" "0 \<le> k" "length (m_arDebugHistoryRecvSeqNum s0) = 8"
  shows "distinct ns \<and> (\<forall>n \<in> set ns. k < n \<and> n \<le> m_nMaxRecvPktNum s)"
proof -
  have run: "run_inv k ns s" using assms by (rule link_run_inv)
  then have "tracker_inv s ({..floor_of s} \<union> set ns)" by (simp add: run_inv_def)
  then have "set ns \<subseteq> {..m_nMaxRecvPktNum s}" using tracker_invD(7) by blast
  with run show ?thesis by (auto simp: run_inv_def)
qed

theorem link_processes_packets_once_witness:
  "distinct [6::int, 8] \<and> (5::int) < 6 \<and> 6 \<le> m_nMaxRecvPktNum sample_86 \<and> 8 \<le> m_nMaxRecvPktNum sample_86"
  using link_processes_packets_once [OF sample_run _ sample_hist] by simp

text \<open>
  C19: What the receiver does with a packet, in every reachable state. It never reads or writes outside
  the masks, the history or the counters per path, and it processes the packet exactly if
  the number nearest to the highest one with these low 16 bits is above the highest one, or lies in the
  last one or two blocks of 64, above the starting point, and has not been processed; and the chunk
  decrypts under that number; and the number is at most \<open>0x4000\<close> ahead.
\<close>
theorem link_accepts_exactly_new_packets:
  assumes "link_run (started k s0) ns s" "0 \<le> k" "length (m_arDebugHistoryRecvSeqNum s0) = 8"
    and "pkt_path p \<in> {0, 1}"
  shows "\<exists>s'. receive_packet p s = Some (s',
    let n = m_nMaxRecvPktNum s + sint (pkt_wire p - word_of_int (m_nMaxRecvPktNum s))
    in if (m_nMaxRecvPktNum s < n \<or>
           m_nMaxRecvPktNum s div 64 - 1 \<le> n div 64 \<and> m_nDebugLastInitMaxRecvPktNum s < n \<and> n \<notin> set ns) \<and>
          pkt_decrypt p n \<and> n - m_nMaxRecvPktNum s \<le> 0x4000
       then Some n else None)"
proof -
  have "run_inv k ns s" using assms(1-3) by (rule link_run_inv)
  from run_inv_receive [OF this assms(4)] obtain s' where
    s': "receive_packet p s = Some (s', if accepts p s ({..floor_of s} \<union> set ns)
       then Some (expanded (pkt_wire p) s) else None)" by metis
  define n where "n = m_nMaxRecvPktNum s + sint (pkt_wire p - word_of_int (m_nMaxRecvPktNum s))"
  have e: "expanded (pkt_wire p) s = n" by (simp add: expanded_def n_def)
  then have a: "accepts p s ({..floor_of s} \<union> set ns) \<longleftrightarrow>
      (m_nMaxRecvPktNum s < n \<or> m_nMaxRecvPktNum s div 64 - 1 \<le> n div 64 \<and> floor_of s < n \<and> n \<notin> set ns) \<and>
      pkt_decrypt p n \<and> n - m_nMaxRecvPktNum s \<le> 0x4000"
    by (simp add: accepts_def fresh_def Let_def not_le)
  show ?thesis unfolding Let_def n_def [symmetric] using s' unfolding e a by (rule exI)
qed

theorem link_accepts_exactly_new_packets_witness:
  "\<exists>s'. receive_packet (sample_packet 7) sample_86 = Some (s',
    let n = m_nMaxRecvPktNum sample_86 + sint (pkt_wire (sample_packet 7) - word_of_int (m_nMaxRecvPktNum sample_86))
    in if (m_nMaxRecvPktNum sample_86 < n \<or>
           m_nMaxRecvPktNum sample_86 div 64 - 1 \<le> n div 64 \<and>
           m_nDebugLastInitMaxRecvPktNum sample_86 < n \<and> n \<notin> set [6, 8]) \<and>
          pkt_decrypt (sample_packet 7) n \<and> n - m_nMaxRecvPktNum sample_86 \<le> 0x4000
       then Some n else None)"
  by (rule link_accepts_exactly_new_packets [OF sample_run _ sample_hist]) (simp_all add: sample_packet_def)

text \<open>
  C25: The 16 bits on the wire are enough. When a sender consumes its next number and the packet
  reaches a receiver whose highest number differs from it by less than \<open>2 ^ 15\<close> (one more downwards),
  the receiver recovers the number, if the packet is new to it and not too old, and reports 0 otherwise.
\<close>
theorem wire_packet_number_roundtrip:
  assumes "link_run (started k s0) ns s" "0 \<le> k" "length (m_arDebugHistoryRecvSeqNum s0) = 8" "i \<in> {0, 1}"
    and "n = m_nNextSendSequenceNumber t" "- 0x8000 \<le> n - m_nMaxRecvPktNum s" "n - m_nMaxRecvPktNum s < 0x8000"
  shows "\<exists>s'. ExpandWirePacketNumberAndCheck (snd (ConsumeSendPacketNumberAndGetWireFmt now t)) i s =
    Some (s', if m_nMaxRecvPktNum s < n \<or>
        m_nMaxRecvPktNum s div 64 - 1 \<le> n div 64 \<and> m_nDebugLastInitMaxRecvPktNum s < n \<and> n \<notin> set ns
      then n else 0)"
proof -
  have "run_inv k ns s" using assms(1-3) by (rule link_run_inv)
  then have inv: "tracker_inv s ({..floor_of s} \<union> set ns)" by (simp add: run_inv_def)
  have w: "snd (ConsumeSendPacketNumberAndGetWireFmt now t) = word_of_int n"
    by (simp add: ConsumeSendPacketNumberAndGetWireFmt_def assms(5))
  have "expanded (word_of_int n) s = n" using assms(6,7) by (intro expanded_wire) simp_all
  then obtain s' where "ExpandWirePacketNumberAndCheck (word_of_int n) i s =
      Some (s', if fresh s ({..floor_of s} \<union> set ns) n then n else 0)"
    using Expand_result [OF inv assms(4), of "word_of_int n"] by metis
  then show ?thesis by (intro exI [of _ s']) (simp add: w fresh_def not_le)
qed

theorem wire_packet_number_roundtrip_witness:
  "\<exists>s'. ExpandWirePacketNumberAndCheck
      (snd (ConsumeSendPacketNumberAndGetWireFmt 0 (sample_tracker\<lparr>m_nNextSendSequenceNumber := 70\<rparr>))) 1 sample_8 =
    Some (s', if m_nMaxRecvPktNum sample_8 < 70 \<or>
        m_nMaxRecvPktNum sample_8 div 64 - 1 \<le> 70 div 64 \<and>
        m_nDebugLastInitMaxRecvPktNum sample_8 < 70 \<and> 70 \<notin> set [8::int] then 70 else 0)"
proof -
  have "m_nMaxRecvPktNum sample_8 = 8" by code_simp
  then show ?thesis
    by (intro wire_packet_number_roundtrip [OF sample_run_8 _ sample_hist]) simp_all
qed

text \<open>
  The drop count. At any time the packets counted as dropped are at least the numbers that are
  missing between the starting point and the highest number; and as long as no interval with
  drops has ended and no jump has moved the starting point, the current count is exactly their number:
  each late packet takes back the drop it was counted as.
\<close>
theorem dropped_packets_are_the_missing_ones:
  assumes "link_run (started k s0) ns s" "0 \<le> k" "length (m_arDebugHistoryRecvSeqNum s0) = 8"
  shows "int (card ({m_nDebugLastInitMaxRecvPktNum s <.. m_nMaxRecvPktNum s} - set ns)) \<le> PktsRecvDropped s \<and>
    (m_nDebugLastInitMaxRecvPktNum s = k \<and> m_nPktsRecvDroppedAccumulator s = 0 \<longrightarrow>
       PktsRecvDropped s = int (card ({k <.. m_nMaxRecvPktNum s} - set ns)))"
  using link_run_inv [OF assms] by (auto simp: run_inv_def missing_def PktsRecvDropped_def)

theorem dropped_packets_are_the_missing_ones_witness:
  "PktsRecvDropped sample_86 = int (card ({5 <.. m_nMaxRecvPktNum sample_86} - {6, 8}))"
proof -
  have "m_nDebugLastInitMaxRecvPktNum sample_86 = 5 \<and> m_nPktsRecvDroppedAccumulator sample_86 = 0"
    by code_simp
  with dropped_packets_are_the_missing_ones [OF sample_run _ sample_hist] show ?thesis by simp
qed

text \<open>
  The quality of an interval. Anomalies never outnumber the received packets, which
  \<open>UpdateInterval\<close> asserts; the computed quality of an imperfect interval is below 100 before it is
  capped; a sample is 100 exactly when nothing was dropped or anomalous, and
  every sample lies in the range its bucket stands for.
\<close>
theorem interval_quality_in_range:
  assumes "link_run (started k s0) ns s" "0 \<le> k" "length (m_arDebugHistoryRecvSeqNum s0) = 8"
  shows "Weird (m_seqPktCounters s) \<le> m_nRecv (m_seqPktCounters s) \<and>
    (0 < m_nDropped (m_seqPktCounters s) + Weird (m_seqPktCounters s) \<longrightarrow> raw_quality (m_seqPktCounters s) < 100) \<and>
    (\<forall>q b. interval_quality (m_seqPktCounters s) = Some (q, b) \<longrightarrow> q \<in> bucket_range b \<and>
       (q = 100 \<longleftrightarrow> m_nDropped (m_seqPktCounters s) = 0 \<and> Weird (m_seqPktCounters s) = 0))"
proof -
  define c where "c = m_seqPktCounters s"
  have c: "0 \<le> Weird c" "Weird c \<le> m_nRecv c" "0 \<le> m_nDropped c"
    using link_run_inv [OF assms] by (auto simp: run_inv_def c_def)
  have "q = 100 \<longleftrightarrow> m_nDropped c = 0 \<and> Weird c = 0" if "interval_quality c = Some (q, b)" for q b
    using that c by (auto simp: interval_quality_def Let_def split: if_splits)
  then show ?thesis
    using c raw_quality_less [of c] interval_quality_bucket [of c] by (auto simp: c_def)
qed

theorem interval_quality_in_range_witness:
  "Weird (m_seqPktCounters sample_86) \<le> m_nRecv (m_seqPktCounters sample_86) \<and>
    raw_quality (m_seqPktCounters sample_86) < 100"
proof -
  have "0 < m_nDropped (m_seqPktCounters sample_86) + Weird (m_seqPktCounters sample_86)" by code_simp
  with interval_quality_in_range [OF sample_run _ sample_hist] show ?thesis by simp
qed

end
