(* ===== verification/ConnReceive.thy ===== *)
theory ConnReceive
  imports SnpGapsRun PktNumbers
begin

text \<open>
  A connection that receives: the packet number tracker of \<open>PktNumbers\<close> and the gap map of \<open>SnpGaps\<close> together, the
  way the end of \<open>ProcessPlainTextDataChunk\<close> (\<open>steamnetworkingsockets_snp.cpp\<close>) and
  \<open>RecvNonDataSequencedPacket\<close> (\<open>steamnetworkingsockets_connections.cpp\<close>) drive them.
\<close>

subsection \<open>Operations\<close>

text \<open>
  The frames have been decoded. \<open>inhibit\<close> is \<open>bInhibitMarkReceived\<close>, \<open>reliable\<close> that reliable data was among them,
  \<open>ping\<close> is \<open>m_statsEndToEnd.m_ping.m_nSmoothedPing\<close>. The last component is the time to wake up at, if any.
\<close>

definition FinishDataChunk ::
  "bool \<Rightarrow> bool \<Rightarrow> int \<Rightarrow> int \<Rightarrow> int \<Rightarrow> int \<Rightarrow> int \<Rightarrow> LinkStatsTracker \<Rightarrow> SSNPReceiverState \<Rightarrow>
   (LinkStatsTracker \<times> SSNPReceiverState \<times> int option) option" where
  "FinishDataChunk inhibit reliable ping nPktNum usecNow usecTimeSinceLast idxMultiPath t s =
     do {
       t \<leftarrow> TrackProcessSequencedPacket nPktNum usecNow usecTimeSinceLast idxMultiPath t;
       if inhibit then do {
         let nPingMs = (if ping < 0 \<or> ping > 100 then 100 else ping);
         s \<leftarrow> QueueFlushAllAcks (usecNow + (nPingMs + 5) * 2000) s;
         Some (t, s, None)
       }
       else do {
         (s, wake) \<leftarrow> SNP_RecordReceivedPktNum (m_nMaxRecvPktNum t) nPktNum usecNow reliable s;
         Some (t, s, wake)
       }
     }"

definition RecvNonDataSequencedPacket ::
  "int \<Rightarrow> int \<Rightarrow> LinkStatsTracker \<Rightarrow> SSNPReceiverState \<Rightarrow>
   (LinkStatsTracker \<times> SSNPReceiverState \<times> int option) option" where
  "RecvNonDataSequencedPacket nPktNum usecNow t s =
     do {
       t \<leftarrow> TrackProcessSequencedPacket nPktNum usecNow 0 0 t;
       (s, wake) \<leftarrow> SNP_RecordReceivedPktNum (m_nMaxRecvPktNum t) nPktNum usecNow False s;
       Some (t, s, wake)
     }"

text \<open>A data packet, from the bytes to the record of its number. The number is returned if the packet is
  processed.\<close>

definition receive_chunk ::
  "bool \<Rightarrow> bool \<Rightarrow> int \<Rightarrow> packet \<Rightarrow> LinkStatsTracker \<Rightarrow> SSNPReceiverState \<Rightarrow>
   (LinkStatsTracker \<times> SSNPReceiverState \<times> int option) option" where
  "receive_chunk inhibit reliable ping p t s =
     do {
       (t, r) \<leftarrow> DecryptDataChunk (pkt_decrypt p) (pkt_wire p) (pkt_path p) t;
       (case r of
          None \<Rightarrow> Some (t, s, None)
        | Some nPktNum \<Rightarrow> do {
            (t, s, wake) \<leftarrow> FinishDataChunk inhibit reliable ping nPktNum (pkt_now p) (pkt_sender_gap p) (pkt_path p) t s;
            Some (t, s, Some nPktNum)
          })
     }"

text \<open>
  The life of a connection, from the handshake on, where both components start at \<open>k\<close>. \<open>ns\<close> are the
  numbers of the packets processed, latest first, \<open>R\<close> those recorded. A \<open>stop_waiting\<close> frame may come with any packet.
\<close>

inductive conn_run ::
  "int \<Rightarrow> LinkStatsTracker \<Rightarrow> int list \<Rightarrow> int set \<Rightarrow> LinkStatsTracker \<Rightarrow> SSNPReceiverState \<Rightarrow> bool" for k t0 where
  start: "m_nMinPktNumToSendAcks s = 0 \<Longrightarrow> conn_run k t0 [] {} (started k t0) (InitPacketGapMap k u s)"
| rejected: "conn_run k t0 ns R t s \<Longrightarrow> pkt_path p \<in> {0, 1} \<Longrightarrow>
    receive_chunk i b ping p t s = Some (t', s', None) \<Longrightarrow> conn_run k t0 ns R t' s'"
| processed: "conn_run k t0 ns R t s \<Longrightarrow> pkt_path p \<in> {0, 1} \<Longrightarrow>
    receive_chunk i b ping p t s = Some (t', s', Some n) \<Longrightarrow> n + 1 < INT64_MAX \<Longrightarrow>
    conn_run k t0 (n # ns) (if i then R else insert n R) t' s'"
| interval: "conn_run k t0 ns R t s \<Longrightarrow> conn_run k t0 ns R (StartNextInterval u t) s"
| consumed: "conn_run k t0 ns R t s \<Longrightarrow> conn_run k t0 ns R (fst (ConsumeSendPacketNumberAndGetWireFmt u t)) s"
| flushed: "conn_run k t0 ns R t s \<Longrightarrow> QueueFlushAllAcks u s = Some s' \<Longrightarrow> conn_run k t0 ns R t s'"
| stopped: "conn_run k t0 ns R t s \<Longrightarrow> 0 < n \<Longrightarrow> n < INT64_MAX \<Longrightarrow>
    ReceiveStopWaiting n off s = Some (Inr s') \<Longrightarrow> conn_run k t0 ns R t s'"
| acked: "conn_run k t0 ns R t s \<Longrightarrow> AcksWritten w s = Some s' \<Longrightarrow> conn_run k t0 ns R t s'"

subsection \<open>The numbers and the gaps\<close>






subsection \<open>Runs of the two components\<close>

lemma receive_chunk_cases:
  assumes "receive_chunk i b ping p t s = Some (t', s', r)"
  shows "receive_packet p t = Some (t', r) \<and>
    (case r of None \<Rightarrow> s' = s
     | Some n \<Rightarrow> if i then \<exists>u. QueueFlushAllAcks u s = Some s'
                else \<exists>w. SNP_RecordReceivedPktNum (m_nMaxRecvPktNum t') n (pkt_now p) b s = Some (s', w))"
proof -
  obtain t1 r1 where d: "DecryptDataChunk (pkt_decrypt p) (pkt_wire p) (pkt_path p) t = Some (t1, r1)"
    using assms by (auto simp: receive_chunk_def split: bind_splits)
  show ?thesis
  proof (cases r1)
    case None
    with assms d show ?thesis by (simp add: receive_chunk_def receive_packet_def)
  next
    case (Some n)
    then obtain w where f: "FinishDataChunk i b ping n (pkt_now p) (pkt_sender_gap p) (pkt_path p) t1 s = Some (t', s', w)"
      and r: "r = Some n"
      using assms d by (auto simp: receive_chunk_def split: bind_splits)
    obtain t2 where t2: "TrackProcessSequencedPacket n (pkt_now p) (pkt_sender_gap p) (pkt_path p) t1 = Some t2"
      using f by (cases "TrackProcessSequencedPacket n (pkt_now p) (pkt_sender_gap p) (pkt_path p) t1")
        (simp_all add: FinishDataChunk_def)
    have "t2 = t'" using f t2 by (auto simp: FinishDataChunk_def Let_def split: if_splits bind_splits)
    moreover have "receive_packet p t = Some (t2, r)" using d Some t2 r by (simp add: receive_packet_def)
    moreover have "if i then \<exists>u. QueueFlushAllAcks u s = Some s'
        else \<exists>w. SNP_RecordReceivedPktNum (m_nMaxRecvPktNum t2) n (pkt_now p) b s = Some (s', w)"
      using f t2 by (auto simp: FinishDataChunk_def Let_def split: if_splits bind_splits)
    ultimately show ?thesis using r by (cases i) simp_all
  qed
qed

text \<open>The projections of a run are runs of the components.\<close>

lemma conn_run_link:
  assumes "conn_run k t0 ns R t s"
  shows "link_run (started k t0) ns t"
  using assms
proof (induction rule: conn_run.induct)
  case (rejected ns R t s p i b ping t' s')
  then show ?case using receive_chunk_cases [OF rejected.hyps(3)] by (blast intro: link_run.rejected)
next
  case (processed ns R t s p i b ping t' s' n)
  then show ?case using receive_chunk_cases [OF processed.hyps(3)] by (blast intro: link_run.processed)
qed (auto intro: link_run.intros)

lemma conn_run_receiver:
  assumes "conn_run k t0 ns R t s" "0 \<le> k" "length (m_arDebugHistoryRecvSeqNum t0) = 8"
  shows "receiver_run k R s \<and> R \<subseteq> set ns"
  using assms
proof (induction rule: conn_run.induct)
  case (start s u)
  then show ?case by (simp add: receiver_run.start)
next
  case (rejected ns R t s p i b ping t' s')
  then show ?case using receive_chunk_cases [OF rejected.hyps(3)] by simp
next
  case (processed ns R t s p i b ping t' s' n)
  have c: "if i then \<exists>u. QueueFlushAllAcks u s = Some s'
      else \<exists>w. SNP_RecordReceivedPktNum (m_nMaxRecvPktNum t') n (pkt_now p) b s = Some (s', w)"
    using receive_chunk_cases [OF processed.hyps(3)] by simp
  have run: "receiver_run k R s" "R \<subseteq> set ns" using processed by simp_all
  have "link_run (started k t0) (n # ns) t'"
    using conn_run.processed [OF processed.hyps(1-4)] by (rule conn_run_link)
  then have "k < n" using link_run_inv [OF _ processed.prems] by (simp add: run_inv_def)
  then have "0 < n" using processed.prems(1) by simp
  show ?case
  proof (cases i)
    case True
    then show ?thesis using c run receiver_run.flushed by fastforce
  next
    case False
    then obtain w where w: "SNP_RecordReceivedPktNum (m_nMaxRecvPktNum t') n (pkt_now p) b s = Some (s', w)"
      using c by auto
    have "receiver_run k (insert n R) s'"
      using run(1) \<open>0 < n\<close> processed.hyps(4) w by (rule receiver_run.received)
    with False run(2) show ?thesis by auto
  qed
next
  case (flushed ns R t s u s')
  then show ?case using receiver_run.flushed by blast
next
  case (stopped ns R t s n off s')
  then show ?case using receiver_run.stopped by blast
next
  case (acked ns R t s w s')
  then show ?case using receiver_run.sent by blast
qed simp_all

text \<open>
  C16: Only packets that were received are acked. In every state of a connection, a packet above the starting
  number that the gap map acks came in a chunk that decrypted under its number, and was processed
  exactly once.
\<close>
theorem acked_packets_were_processed:
  assumes "conn_run k t0 ns R t s" "0 \<le> k" "k + 1 < INT64_MAX" "length (m_arDebugHistoryRecvSeqNum t0) = 8"
  shows "acked_pkts s \<inter> {k<..} \<subseteq> set ns \<and> distinct ns"
proof -
  have r: "receiver_run k R s" "R \<subseteq> set ns" using conn_run_receiver [OF assms(1,2,4)] by simp_all
  have "acked_pkts s \<inter> {k<..} \<subseteq> R" using receiver_run_ok [OF r(1) assms(2,3)] by (simp add: receiver_ok_def)
  moreover have "distinct ns" using link_run_inv [OF conn_run_link [OF assms(1)] assms(2,4)] by (simp add: run_inv_def)
  ultimately show ?thesis using r(2) by auto
qed

definition conn_8 :: "LinkStatsTracker \<times> SSNPReceiverState" where
  "conn_8 = (case receive_chunk False True 30 (sample_packet 8) (started 5 sample_tracker)
       (InitPacketGapMap 5 1 ReceiverState_new) of None \<Rightarrow> (sample_tracker, ReceiverState_new) | Some (t, s, _) \<Rightarrow> (t, s))"

lemma conn_run_8: "conn_run 5 sample_tracker [8] {8} (fst conn_8) (snd conn_8)"
proof -
  define r where "r = receive_chunk False True 30 (sample_packet 8) (started 5 sample_tracker)
       (InitPacketGapMap 5 1 ReceiverState_new)"
  have "map_option (\<lambda>(t, s, n). n) r = Some (Some 8)" unfolding r_def by code_simp
  then have "r = Some (fst conn_8, snd conn_8, Some 8)"
    by (auto simp: conn_8_def r_def [symmetric])
  moreover have "conn_run 5 sample_tracker [] {} (started 5 sample_tracker) (InitPacketGapMap 5 1 ReceiverState_new)"
    by (rule conn_run.start) (simp add: ReceiverState_new_def InitPacketGapMap_def)
  ultimately have "conn_run 5 sample_tracker [8] (if False then {} else insert 8 {}) (fst conn_8) (snd conn_8)"
    unfolding r_def by (intro conn_run.processed) (simp_all add: sample_packet_def INT64_MAX_def)
  then show ?thesis by simp
qed

theorem acked_packets_were_processed_witness:
  "acked_pkts (snd conn_8) \<inter> {5<..} \<subseteq> set [8] \<and> distinct [8::int]"
  by (rule acked_packets_were_processed [OF conn_run_8 _ _ sample_hist]) (simp_all add: INT64_MAX_def)

text \<open>
  C17: The replay window and the gap map agree. A packet that passes \<open>DecryptDataChunk\<close> in a state of a
  connection, below the sentinel and not given up by the sender, lies in a gap: the lookup of
  \<open>SNP_RecordReceivedPktNum\<close> finds it, and none of the three assertions about packets processed twice can fire.
\<close>
theorem accepted_packet_finds_its_gap:
  fixes p :: packet
  assumes "conn_run k t0 ns R t s" "0 \<le> k" "k + 1 < INT64_MAX" "length (m_arDebugHistoryRecvSeqNum t0) = 8"
    "pkt_path p \<in> {0, 1}" "DecryptDataChunk (pkt_decrypt p) (pkt_wire p) (pkt_path p) t = Some (t', Some n)"
    "m_nMinPktNumToSendAcks s \<le> n" "n < next_pkt (m_mapPacketGaps s)"
  shows "\<exists>i. find_gap n (m_mapPacketGaps s) = Some i"
proof -
  have run: "run_inv k ns t" using conn_run_link [OF assms(1)] assms(2,4) by (rule link_run_inv)
  obtain t2 r where r: "receive_packet p t = Some (t2, r)" using run_inv_receive [OF run assms(5)] by metis
  have rn: "r = Some n" using r assms(6) by (auto simp: receive_packet_def split: bind_splits)
  have "link_run (started k t0) (n # ns) t2"
    using conn_run_link [OF assms(1)] assms(5) r unfolding rn by (rule link_run.processed)
  then have "run_inv k (n # ns) t2" using assms(2,4) by (rule link_run_inv)
  then have n: "k < n" "n \<notin> set ns" by (simp_all add: run_inv_def)
  have rr: "receiver_run k R s" "R \<subseteq> set ns" using conn_run_receiver [OF assms(1,2,4)] by simp_all
  have ok: "receiver_ok k R s" using rr(1) assms(2,3) by (rule receiver_run_ok)
  then have "n \<notin> acked_pkts s" using n rr(2) by (auto simp: receiver_ok_def)
  then have "n \<in> missing_pkts (m_mapPacketGaps s)" using assms(7,8) by (simp add: acked_pkts_def)
  moreover have "map_ok (m_mapPacketGaps s)" using ok by (simp add: receiver_ok_def gaps_inv_def)
  ultimately show ?thesis using find_gap_complete by blast
qed

lemma conn_8_facts:
  "map_option snd (DecryptDataChunk (pkt_decrypt (sample_packet 6)) (pkt_wire (sample_packet 6)) 0 (fst conn_8)) = Some (Some 6)"
  "m_nMinPktNumToSendAcks (snd conn_8) = 0" "next_pkt (m_mapPacketGaps (snd conn_8)) = 9"
  by code_simp+

theorem accepted_packet_finds_its_gap_witness:
  "\<exists>i. find_gap 6 (m_mapPacketGaps (snd conn_8)) = Some i"
proof -
  obtain t' where d: "DecryptDataChunk (pkt_decrypt (sample_packet 6)) (pkt_wire (sample_packet 6))
      (pkt_path (sample_packet 6)) (fst conn_8) = Some (t', Some 6)"
    using conn_8_facts(1) by (auto simp: sample_packet_def)
  show ?thesis
    by (rule accepted_packet_finds_its_gap [OF conn_run_8 _ _ sample_hist _ d])
      (use conn_8_facts in \<open>simp_all add: INT64_MAX_def sample_packet_def\<close>)
qed

end
