(* ===== verification/SnpGapsDangle.thy ===== *)
theory SnpGapsDangle
  imports SnpGapsRun
begin

text \<open>
  The one way the receiver's gap map can be corrupted: a run, as a list of events that is evaluated, after which
  \<open>SNP_RecordReceivedPktNum\<close> erases the node an iterator of the state points to.
\<close>

subsection \<open>Events\<close>

text \<open>A run as a list of events, to be evaluated.\<close>

datatype gap_event = Received int int bool | Flush int | Sent acks_written

fun run_events :: "gap_event list \<Rightarrow> SSNPReceiverState \<Rightarrow> SSNPReceiverState option" where
  "run_events [] s = Some s"
| "run_events (Received n now b # es) s =
     (case SNP_RecordReceivedPktNum n n now b s of None \<Rightarrow> None | Some (s, w) \<Rightarrow> run_events es s)"
| "run_events (Flush t # es) s = (case QueueFlushAllAcks t s of None \<Rightarrow> None | Some s \<Rightarrow> run_events es s)"
| "run_events (Sent w # es) s = (case AcksWritten w s of None \<Rightarrow> None | Some s \<Rightarrow> run_events es s)"

lemma run_events_run:
  assumes "run_events es s = Some s'" "receiver_run k R s"
    "\<forall>n now b. Received n now b \<in> set es \<longrightarrow> 0 < n \<and> n + 1 < INT64_MAX"
  shows "\<exists>R'. receiver_run k R' s'"
  using assms
proof (induction es s arbitrary: R rule: run_events.induct)
  case (2 n now b es s)
  then obtain u w where u: "SNP_RecordReceivedPktNum n n now b s = Some (u, w)" "run_events es u = Some s'"
    by (auto split: option.splits)
  have "receiver_run k (insert n R) u" using "2.prems" u(1) by (intro receiver_run.received) auto
  moreover have "\<forall>n now b. Received n now b \<in> set es \<longrightarrow> 0 < n \<and> n + 1 < INT64_MAX" using "2.prems"(3) by auto
  ultimately show ?case by (rule "2.IH" [OF u(1) refl u(2)])
next
  case (3 t es s)
  then obtain u where u: "QueueFlushAllAcks t s = Some u" "run_events es u = Some s'"
    by (auto split: option.splits)
  have "receiver_run k R u" using "3.prems"(2) u(1) by (rule receiver_run.flushed)
  with "3.IH" [OF u] "3.prems"(3) show ?case by simp
next
  case (4 w es s)
  then obtain u where u: "AcksWritten w s = Some u" "run_events es u = Some s'"
    by (auto split: option.splits)
  have "receiver_run k R u" using "4.prems"(2) u(1) by (rule receiver_run.sent)
  with "4.IH" [OF u] "4.prems"(3) show ?case by simp
qed auto

text \<open>
  Two gaps; a reliable packet fills the first packet of the older one, so an ack is scheduled before it; the
  ack goes out without blocks, and the pending ack moves on to the second gap, for which nothing is scheduled;
  then packets without reliable data arrive with every other one lost.
\<close>

definition dangling_events :: "gap_event list" where
  "dangling_events =
     [Received 5 1000 False, Received 10 1100 False, Received 1 1200 True, Sent No_blocks] @
     map (\<lambda>i. Received (12 + 2 * i) (2000 + i) False) [0 .. 57]"

text \<open>The run of \<open>dangling_events\<close> and one packet more.\<close>

lemma dangling_run:
  "(case run_events dangling_events ReceiverState_new of
      None \<Rightarrow> False
    | Some s \<Rightarrow> SNP_RecordReceivedPktNum 128 128 3000 False s = None)"
  by code_simp

text \<open>
  C24: The map can be corrupted: there is a run from a new receiver after which
  \<open>SNP_RecordReceivedPktNum\<close> does not return, because the gap that is merged away is the one
  \<open>m_itPendingAck\<close> points to. It needs an ack without blocks, which moves \<open>m_itPendingAck\<close> to a gap that has no
  time (the header says that there is one unless it is the sentinel), and then 62 nodes.
\<close>
theorem pending_ack_can_dangle:
  "\<exists>R s. receiver_run 0 R s \<and> \<not> ack_armed s \<and> SNP_RecordReceivedPktNum 128 128 3000 False s = None"
proof -
  obtain s where s: "run_events dangling_events ReceiverState_new = Some s"
    "SNP_RecordReceivedPktNum 128 128 3000 False s = None"
    using dangling_run by (auto split: option.splits)
  have "\<forall>n now b. Received n now b \<in> set dangling_events \<longrightarrow> 0 < n \<and> n + 1 < INT64_MAX"
    by (auto simp: dangling_events_def INT64_MAX_def)
  from run_events_run [OF s(1) start_new this] obtain R where R: "receiver_run 0 R s" by blast
  then have ok: "gaps_inv s" "length (m_mapPacketGaps s) < k_nMaxPacketGaps"
    using receiver_run_ok [OF R] by (simp_all add: receiver_ok_def INT64_MAX_def)
  have "\<not> ack_armed s" using Record_result [OF ok, of 128 128 3000 False] s(2) by (simp add: INT64_MAX_def)
  with R s(2) show ?thesis by blast
qed

end
