(* ===== verification/VarInt.thy ===== *)
theory VarInt
  imports Prelude
begin

text \<open>
  Numbers of variable length on the wire: \<open>SerializeVarInt\<close>, \<open>VarIntSerializedSize\<close> and
  \<open>DeserializeVarInt\<close> of \<open>src/GameNetworkingSockets/src/steamnetworkingsockets/steamnetworkingsockets_internal.h\<close>,
  for 64-bit numbers; a 32-bit number is the same bytes.

  The bytes between \<open>p\<close> and the end are the list of the bytes still in front of \<open>p\<close>, and writing is
  appending. \<open>DeserializeVarInt\<close> has three kinds of result: \<open>None\<close> when it shifts by the width of the
  type or more, which is undefined; \<open>Some None\<close> for the null pointer, when the bytes end too early;
  and otherwise the number and the bytes behind it.
\<close>

subsection \<open>Operations\<close>

lemma unat_drop_7: "unat (drop_bit 7 (x :: 64 word)) = unat x div 128"
  by (simp add: drop_bit_eq_div unat_div_distrib)

lemma drop_bit_7_less: "0x80 \<le> (x :: 64 word) \<Longrightarrow> unat (drop_bit 7 x) < unat x"
  by (simp add: word_le_nat_alt unat_drop_7)

function SerializeVarInt :: "64 word \<Rightarrow> byte list" where
  "SerializeVarInt x =
     (if x \<ge> 0x80 then (ucast x OR 0x80) # SerializeVarInt (drop_bit 7 x) else [ucast x])"
  by pat_completeness auto

termination
  by (relation "measure unat") (auto intro: drop_bit_7_less)

declare SerializeVarInt.simps [simp del]

text \<open>The version that stops at an end: \<open>n\<close> is the room up to it.\<close>

function SerializeVarInt_end :: "64 word \<Rightarrow> nat \<Rightarrow> byte list option" where
  "SerializeVarInt_end x n =
     (if x \<ge> 0x80 then
        if n = 0 then None
        else map_option (\<lambda>bs. (ucast x OR 0x80) # bs) (SerializeVarInt_end (drop_bit 7 x) (n - 1))
      else if n = 0 then None else Some [ucast x])"
  by pat_completeness auto
termination
  by (relation "measure (\<lambda>(x, n). unat x)") (auto intro: drop_bit_7_less)

declare SerializeVarInt_end.simps [simp del]

definition VarIntSerializedSize32 :: "u32 \<Rightarrow> int" where
  "VarIntSerializedSize32 x =
     (if x < push_bit 7 1 then 1 else if x < push_bit 14 1 then 2 else if x < push_bit 21 1 then 3
      else if x < push_bit 28 1 then 4 else 5)"

definition VarIntSerializedSize :: "64 word \<Rightarrow> int" where
  "VarIntSerializedSize x =
     (if x < push_bit 35 1 then
        if x < push_bit 7 1 then 1 else if x < push_bit 14 1 then 2 else if x < push_bit 21 1 then 3
        else if x < push_bit 28 1 then 4 else 5
      else if x < push_bit 42 1 then 6 else if x < push_bit 49 1 then 7 else if x < push_bit 56 1 then 8
      else if x < push_bit 63 1 then 9 else 10)"

text \<open>The loop: \<open>c\<close> is the byte just read, \<open>bs\<close> those behind it.\<close>

fun Deserialize_loop :: "byte \<Rightarrow> byte list \<Rightarrow> 64 word \<Rightarrow> nat \<Rightarrow> (64 word \<times> byte list) option option" where
  "Deserialize_loop c [] nResult nShift =
     (if c AND 0x80 \<noteq> 0 then Some None else Some (Some (nResult, [])))"
| "Deserialize_loop c (d # bs) nResult nShift =
     (if c AND 0x80 \<noteq> 0 then
        if nShift \<ge> 64 then None
        else Deserialize_loop d bs (nResult OR push_bit nShift (ucast (d AND 0x7f))) (nShift + 7)
      else Some (Some (nResult, d # bs)))"

fun DeserializeVarInt :: "byte list \<Rightarrow> (64 word \<times> byte list) option option" where
  "DeserializeVarInt [] = Some None"
| "DeserializeVarInt (c # bs) = Deserialize_loop c bs (ucast (c AND 0x7f)) 7"

subsection \<open>Bytes and bits\<close>

lemma high_bit: "(c :: byte) AND 0x80 \<noteq> 0 \<longleftrightarrow> bit c 7"
proof -
  have "(0x80 :: byte) = 2 ^ 7" by simp
  then show ?thesis by (simp only: and_exp_eq_0_iff_not_bit) simp
qed

lemma low_7: "(c :: byte) AND 0x7f = take_bit 7 c"
  by (simp add: take_bit_eq_mask mask_eq_exp_minus_1)

lemma less_128_drop: "(x :: 64 word) < 0x80 \<longleftrightarrow> drop_bit 7 x = 0"
proof -
  have "x < 0x80 \<longleftrightarrow> unat x < 128" by (simp add: word_less_nat_alt)
  also have "\<dots> \<longleftrightarrow> unat (drop_bit 7 x) = 0" unfolding unat_drop_7 by auto
  finally show ?thesis by (simp add: unat_eq_zero)
qed

lemma geq_128_drop: "0x80 \<le> (x :: 64 word) \<longleftrightarrow> drop_bit 7 x \<noteq> 0"
  using less_128_drop [of x] by (simp add: linorder_not_less [symmetric])

lemma drop_bit_pos_width: "drop_bit n (x :: 64 word) \<noteq> 0 \<Longrightarrow> n < 64"
  by (rule ccontr) (auto simp: not_less bit_eq_iff bit_simps dest: bit_imp_le_length)

text \<open>The bytes of \<open>x\<close>: the low bits, and whether more follow.\<close>

lemma varint_head:
  "\<exists>c cs. SerializeVarInt x = c # cs \<and> ucast (c AND 0x7f) = take_bit 7 x \<and>
     (bit c 7 \<longleftrightarrow> 0x80 \<le> x) \<and> cs = (if 0x80 \<le> x then SerializeVarInt (drop_bit 7 x) else [])"
proof (cases "0x80 \<le> x")
  case True
  have "ucast ((ucast x OR 0x80 :: byte) AND 0x7f) = take_bit 7 x"
    unfolding low_7 by (rule bit_word_eqI) (auto simp: bit_simps bit_numeral_iff)
  moreover have "bit (ucast x OR 0x80 :: byte) 7" by (simp add: bit_simps)
  ultimately show ?thesis using True by (subst SerializeVarInt.simps) simp
next
  case False
  then have d: "drop_bit 7 x = 0" using less_128_drop [of x] by (simp add: not_le)
  have "\<not> bit x 7" using arg_cong [OF d, of "\<lambda>y. bit y 0"] by (simp add: bit_drop_bit_eq)
  then have "\<not> bit (ucast x :: byte) 7" by (simp add: bit_simps)
  moreover have "ucast ((ucast x :: byte) AND 0x7f) = take_bit 7 x"
    unfolding low_7 by (rule bit_word_eqI) (auto simp: bit_simps)
  ultimately show ?thesis using False by (subst SerializeVarInt.simps) simp
qed


subsection \<open>Reading back\<close>

lemma take_bit_extend:
  "take_bit n x OR push_bit n (take_bit m (drop_bit n x)) = take_bit (n + m) (x :: 64 word)"
  by (rule bit_word_eqI) (auto simp: bit_simps)

lemma Deserialize_loop_Serialize:
  assumes "SerializeVarInt (drop_bit n x) = c # cs" "n < 64"
  shows "Deserialize_loop c (cs @ rest) (take_bit (n + 7) x) (n + 7) = Some (Some (x, rest))"
  using assms
proof (induction "64 - n" arbitrary: n c cs rule: less_induct)
  case less
  obtain c' cs' where h: "SerializeVarInt (drop_bit n x) = c' # cs'" "bit c' 7 \<longleftrightarrow> 0x80 \<le> drop_bit n x"
    "cs' = (if 0x80 \<le> drop_bit n x then SerializeVarInt (drop_bit 7 (drop_bit n x)) else [])"
    using varint_head by metis
  then have c: "c AND 0x80 \<noteq> 0 \<longleftrightarrow> 0x80 \<le> drop_bit n x"
    "cs = (if 0x80 \<le> drop_bit n x then SerializeVarInt (drop_bit (n + 7) x) else [])"
    using less.prems(1) high_bit [of c] by (simp_all add: add.commute)
  show ?case
  proof (cases "0x80 \<le> drop_bit n x")
    case False
    then have "drop_bit 7 (drop_bit n x) = 0" using less_128_drop [of "drop_bit n x"] by (simp add: not_le)
    then have "take_bit (n + 7) x = x" by (simp add: take_bit_eq_self_iff_drop_bit_eq_0 add.commute)
    with False c show ?thesis by (cases rest) simp_all
  next
    case True
    then have "drop_bit 7 (drop_bit n x) \<noteq> 0" using geq_128_drop [of "drop_bit n x"] by blast
    then have n: "n + 7 < 64" using drop_bit_pos_width [of "n + 7" x] by (simp add: add.commute)
    obtain d ds where d: "SerializeVarInt (drop_bit (n + 7) x) = d # ds"
      "ucast (d AND 0x7f) = take_bit 7 (drop_bit (n + 7) x)" using varint_head by metis
    have "Deserialize_loop d (ds @ rest) (take_bit (n + 7 + 7) x) (n + 7 + 7) = Some (Some (x, rest))"
      using d(1) n by (intro less.hyps) auto
    moreover have "take_bit (n + 7) x OR push_bit (n + 7) (ucast (d AND 0x7f)) = take_bit (n + 7 + 7) x"
      unfolding d(2) by (rule take_bit_extend)
    moreover have "cs = d # ds" "c AND 0x80 \<noteq> 0" using True c d(1) by simp_all
    ultimately show ?thesis using n by (simp del: One_nat_def)
  qed
qed

lemma Deserialize_Serialize:
  "DeserializeVarInt (SerializeVarInt x @ rest) = Some (Some (x, rest))"
proof -
  obtain c cs where h: "SerializeVarInt x = c # cs" "ucast (c AND 0x7f) = take_bit 7 x" using varint_head by metis
  then show ?thesis using Deserialize_loop_Serialize [of 0 x c cs rest] by simp
qed

text \<open>A number that is cut off is not read: the loop asks for one more byte.\<close>

lemma Deserialize_loop_short:
  assumes "SerializeVarInt (drop_bit n x) = c # cs" "n < 64" "k < length cs"
  shows "Deserialize_loop c (take k cs) r (n + 7) = Some None"
  using assms
proof (induction k arbitrary: n c cs r)
  case 0
  have "bit c 7" using 0 varint_head [of "drop_bit n x"] by (auto split: if_splits)
  then show ?case using high_bit [of c] by simp
next
  case (Suc k)
  have h: "0x80 \<le> drop_bit n x" "bit c 7" "cs = SerializeVarInt (drop_bit (n + 7) x)"
    using Suc.prems varint_head [of "drop_bit n x"] by (auto simp: add.commute split: if_splits)
  then have "drop_bit 7 (drop_bit n x) \<noteq> 0" using geq_128_drop [of "drop_bit n x"] by blast
  then have n: "n + 7 < 64" using drop_bit_pos_width [of "n + 7" x] by (simp add: add.commute)
  obtain d ds where d: "cs = d # ds" using Suc.prems(3) by (cases cs) auto
  have e: "SerializeVarInt (drop_bit (n + 7) x) = d # ds" using h(3) d by simp
  have "k < length ds" using Suc.prems(3) d by simp
  with e have "Deserialize_loop d (take k ds) r' (n + 7 + 7) = Some None" for r'
    using n by (intro Suc.IH)
  then show ?case using d n h(2) high_bit [of c] by (simp add: not_le)
qed

lemma Deserialize_short:
  assumes "k < length (SerializeVarInt x)"
  shows "DeserializeVarInt (take k (SerializeVarInt x)) = Some None"
proof (cases k)
  case (Suc j)
  obtain c cs where h: "SerializeVarInt x = c # cs" using varint_head by metis
  with Suc assms show ?thesis using Deserialize_loop_short [of 0 x c cs j] by simp
qed simp


subsection \<open>Sizes\<close>

lemma length_Serialize:
  "0 < k \<Longrightarrow> length (SerializeVarInt x) \<le> k \<longleftrightarrow> unat x < 128 ^ k"
proof (induction k arbitrary: x)
  case (Suc k)
  show ?case
  proof (cases "0x80 \<le> x")
    case True
    then have "128 \<le> unat x" by (simp add: word_le_nat_alt)
    have l: "length (SerializeVarInt x) = Suc (length (SerializeVarInt (drop_bit 7 x)))"
      using True by (subst SerializeVarInt.simps) simp
    show ?thesis
    proof (cases "k = 0")
      case True
      obtain c cs where "SerializeVarInt (drop_bit 7 x) = c # cs" using varint_head by metis
      then have "\<not> length (SerializeVarInt x) \<le> Suc k" using True l by simp
      with \<open>128 \<le> unat x\<close> True show ?thesis by simp
    next
      case False
      then have "length (SerializeVarInt x) \<le> Suc k \<longleftrightarrow> unat (drop_bit 7 x) < 128 ^ k"
        unfolding l using Suc.IH [of "drop_bit 7 x"] by simp
      then show ?thesis unfolding unat_drop_7 by (simp add: div_less_iff_less_mult mult.commute)
    qed
  next
    case False
    then have "unat x < 128" by (simp add: word_le_nat_alt)
    also have "(128 :: nat) \<le> 128 ^ Suc k" by simp
    finally show ?thesis using False by (subst SerializeVarInt.simps) simp
  qed
qed simp

lemma length_Serialize_pos: "0 < length (SerializeVarInt x)"
  using varint_head [of x] by auto

lemma VarIntSerializedSize_length: "VarIntSerializedSize x = int (length (SerializeVarInt x))"
proof -
  have le: "k \<ge> 1 \<Longrightarrow> length (SerializeVarInt x) \<le> k \<longleftrightarrow> unat x < 128 ^ k" for k
    using length_Serialize [of k x] by simp
  note ls = le [of 1] le [of 2] le [of 3] le [of 4] le [of 5] le [of 6] le [of 7] le [of 8] le [of 9]
  have "unat x < 128 ^ 10" using unsigned_less [of x, where ?'a = nat] by simp
  then have l10: "length (SerializeVarInt x) \<le> 10" using le [of 10] by simp
  define L where "L = length (SerializeVarInt x)"
  have "0 < L" using length_Serialize_pos [of x] by (simp add: L_def)
  then have "L = 1 \<or> L = 2 \<or> L = 3 \<or> L = 4 \<or> L = 5 \<or> L = 6 \<or> L = 7 \<or> L = 8 \<or> L = 9 \<or> L = 10"
    using l10 unfolding L_def [symmetric] by presburger
  then show ?thesis
    using ls unfolding VarIntSerializedSize_def L_def [symmetric]
    by (elim disjE) (simp_all add: word_less_nat_alt)
qed

lemma VarIntSerializedSize32_eq: "VarIntSerializedSize32 x = VarIntSerializedSize (ucast x)"
proof -
  have "unat x < 2 ^ 35" using unsigned_less [of x, where ?'a = nat] by simp
  moreover have "unat (ucast x :: 64 word) = unat x"
    using unsigned_less [of x, where ?'a = nat] by (simp add: unsigned_ucast_eq take_bit_nat_eq_self)
  ultimately show ?thesis
    by (simp add: VarIntSerializedSize32_def VarIntSerializedSize_def word_less_nat_alt)
qed

lemma SerializeVarInt_end_eq:
  "SerializeVarInt_end x n = (if length (SerializeVarInt x) \<le> n then Some (SerializeVarInt x) else None)"
proof (induction x n rule: SerializeVarInt_end.induct)
  case (1 x n)
  show ?case
  proof (cases "0x80 \<le> x \<and> n \<noteq> 0")
    case True
    then show ?thesis
      using "1.IH" by (subst SerializeVarInt_end.simps, subst (1 2) SerializeVarInt.simps) auto
  next
    case False
    then show ?thesis
      using length_Serialize_pos [of x]
      by (subst SerializeVarInt_end.simps) (auto simp: SerializeVarInt.simps [of x])
  qed
qed

text \<open>
  C15: The wire format of numbers: reading what \<open>SerializeVarInt\<close> wrote gives the number back and stops
  behind it; a number whose bytes are cut off is not read; the length is the one
  \<open>VarIntSerializedSize\<close> computes, at most ten; and the version with an end writes the same bytes exactly if they fit.
\<close>
theorem varint_roundtrip:
  "DeserializeVarInt (SerializeVarInt x @ rest) = Some (Some (x, rest)) \<and>
   DeserializeVarInt (take (length (SerializeVarInt x) - Suc k) (SerializeVarInt x)) = Some None \<and>
   VarIntSerializedSize x = int (length (SerializeVarInt x)) \<and> length (SerializeVarInt x) \<le> 10 \<and>
   SerializeVarInt_end x n = (if length (SerializeVarInt x) \<le> n then Some (SerializeVarInt x) else None)"
proof -
  have "unat x < 128 ^ 10" using unsigned_less [of x, where ?'a = nat] by simp
  then show ?thesis
    using Deserialize_Serialize Deserialize_short [of "length (SerializeVarInt x) - Suc k" x] length_Serialize_pos [of x]
      VarIntSerializedSize_length SerializeVarInt_end_eq length_Serialize [of 10 x] by simp
qed

text \<open>Bytes that no serializer writes can make the reader shift by the width of its type.\<close>

lemma overlong_undefined: "DeserializeVarInt (replicate 11 0x80) = None"
  by code_simp

end
