(* ===== verification/SnpReliable.thy ===== *)
theory SnpReliable
  imports VarInt
begin

text \<open>
  The receiver of the reliable stream: \<open>SNP_ReceiveReliableSegment\<close> of
  \<open>src/GameNetworkingSockets/src/steamnetworkingsockets/clientlib/steamnetworkingsockets_snp.cpp\<close> and the queue its
  messages go to, \<open>AllocateNewRecvMessage\<close>, \<open>ReceivedMessageData\<close> and \<open>ReceivedMessage\<close> of
  \<open>steamnetworkingsockets_connections.cpp\<close>.

  \<open>std::map<int64,int64>\<close> is the list of its pairs, begin and end of a gap, in the order of the keys. The
  message queue is the list of its messages; its counts are the length and the sum of the sizes.
  Stream positions and message numbers are unbounded integers. A read or write outside the buffer, and an
  undefined shift, is \<open>None\<close>. \<open>return false\<close> is \<open>Rejected\<close>, or \<open>Problem\<close> when the connection was given up before.
\<close>

subsection \<open>State\<close>

record Lane =
  m_nHighestSeenMsgNum :: int
  m_nReliableStreamPos :: int
  m_nLastRecvReliableMsgNum :: int
  m_bufReliableStream :: "byte list"
  m_mapReliableStreamGaps :: "(int \<times> int) list"

record message =
  m_idxLane :: int
  m_nMessageNumber :: int
  m_nFlags :: int
  m_pData :: "byte list"

record RecvConfig =
  RecvBufferSize :: int
  RecvBufferMessages :: int
  RecvMaxMessageSize :: int

datatype ConnectionState = State_None | Connecting | FindingRoute | Connected | ClosedByPeer |
  ProblemDetectedLocally | FinWait | Linger | Dead

datatype segment_result = Accepted | Rejected | Problem

definition k_nSteamNetworkingSend_Reliable :: int where
  "k_nSteamNetworkingSend_Reliable = 8"

definition k_nMaxReliableStreamGaps_Extend :: nat where
  "k_nMaxReliableStreamGaps_Extend = 30"

definition k_nMaxReliableStreamGaps_Fragment :: nat where
  "k_nMaxReliableStreamGaps_Fragment = 20"

definition Lane_new :: Lane where
  "Lane_new = \<lparr>m_nHighestSeenMsgNum = 0, m_nReliableStreamPos = 1, m_nLastRecvReliableMsgNum = 0,
     m_bufReliableStream = [], m_mapReliableStreamGaps = []\<rparr>"

subsection \<open>The queue of received messages\<close>

definition m_nMessageSize :: "message list \<Rightarrow> int" where
  "m_nMessageSize q = sum_list (map (\<lambda>m. int (length (m_pData m))) q)"

text \<open>Where a message that is out of order goes: in front of those with higher numbers.\<close>

fun scan_back :: "int \<Rightarrow> message list \<Rightarrow> nat \<Rightarrow> nat" where
  "scan_back nMessageNumber q 0 = 0"
| "scan_back nMessageNumber q (Suc i) =
     (if m_nMessageNumber (q ! i) \<le> nMessageNumber then Suc i else scan_back nMessageNumber q i)"

definition ReceivedMessage :: "RecvConfig \<Rightarrow> message \<Rightarrow> message list \<Rightarrow> bool \<times> message list" where
  "ReceivedMessage cfg m q =
     (if int (length q) \<ge> RecvBufferMessages cfg then (False, q)
      else if m_nMessageSize q + int (length (m_pData m)) > RecvBufferSize cfg then (False, q)
      else if q \<noteq> [] \<and> m_nMessageNumber (last q) > m_nMessageNumber m then
        let i = scan_back (m_nMessageNumber m) q (length q - 1)
        in (True, take i q @ m # drop i q)
      else (True, q @ [m]))"

definition AllocateNewRecvMessage :: "RecvConfig \<Rightarrow> u32 \<Rightarrow> message list \<Rightarrow> segment_result" where
  "AllocateNewRecvMessage cfg cbSize q =
     (if word_of_int (RecvMaxMessageSize cfg) < cbSize then Problem
      else if int (length q) \<ge> RecvBufferMessages cfg then Rejected
      else Accepted)"

text \<open>\<open>bs\<close> is the memory from \<open>pData\<close> on.\<close>

definition ReceivedMessageData ::
  "RecvConfig \<Rightarrow> byte list \<Rightarrow> int \<Rightarrow> int \<Rightarrow> int \<Rightarrow> int \<Rightarrow> message list \<Rightarrow> (segment_result \<times> message list) option" where
  "ReceivedMessageData cfg bs cbData idxLane nMsgNum nFlags q =
     (case AllocateNewRecvMessage cfg (word_of_int cbData) q of
        Accepted \<Rightarrow>
          if 0 \<le> cbData \<and> cbData \<le> int (length bs) then
            (case ReceivedMessage cfg \<lparr>m_idxLane = idxLane, m_nMessageNumber = nMsgNum, m_nFlags = nFlags,
                    m_pData = take (nat cbData) bs\<rparr> q of
               (ok, q) \<Rightarrow> Some (if ok then Accepted else Rejected, q))
          else None
      | r \<Rightarrow> Some (r, q))"

definition RemoveMessages :: "nat \<Rightarrow> message list \<Rightarrow> message list \<times> message list" where
  "RemoveMessages nMaxMessages q = (take nMaxMessages q, drop nMaxMessages q)"

subsection \<open>The gaps in the stream\<close>

text \<open>\<open>map[k] = v\<close>.\<close>

fun map_set :: "int \<Rightarrow> int \<Rightarrow> (int \<times> int) list \<Rightarrow> (int \<times> int) list" where
  "map_set k v [] = [(k, v)]"
| "map_set k v ((f, s) # gs) =
     (if f < k then (f, s) # map_set k v gs else if f = k then (k, v) # gs else (k, v) # (f, s) # gs)"

definition gap_upper_bound :: "int \<Rightarrow> (int \<times> int) list \<Rightarrow> nat" where
  "gap_upper_bound k gs = length (takeWhile (\<lambda>g. fst g \<le> k) gs)"

text \<open>
  The loop that fills the gaps from the one at \<open>i\<close> on. The result says whether the segment may be
  processed.
\<close>

function fill_loop :: "nat \<Rightarrow> int \<Rightarrow> int \<Rightarrow> (int \<times> int) list \<Rightarrow> (bool \<times> (int \<times> int) list) option" where
  "fill_loop i nSegBegin nSegEnd gs =
     (if i < length gs then
        let (b, e) = gs ! i in
        if nSegBegin = b then
          if nSegEnd < e then Some (True, gs[i := (nSegEnd, e)])
          else
            let gs = take i gs @ drop (i + 1) gs
            in if i < length gs \<and> fst (gs ! i) < nSegEnd then fill_loop i nSegBegin nSegEnd gs else Some (True, gs)
        else if nSegEnd \<ge> e then
          let gs = gs[i := (b, nSegBegin)]; i = i + 1
          in if i < length gs \<and> fst (gs ! i) < nSegEnd then fill_loop i nSegBegin nSegEnd gs else Some (True, gs)
        else if length gs \<ge> k_nMaxReliableStreamGaps_Fragment then Some (False, gs)
        else Some (True, map_set nSegEnd e (gs[i := (b, nSegBegin)]))
      else None)"
  by pat_completeness auto
termination
  by (relation "measure (\<lambda>(i, b, e, gs). length gs - i)") auto

declare fill_loop.simps [simp del]

definition fill_stream_gaps ::
  "int \<Rightarrow> int \<Rightarrow> (int \<times> int) list \<Rightarrow> (bool \<times> (int \<times> int) list) option" where
  "fill_stream_gaps nSegBegin nSegEnd gs =
     (let i = gap_upper_bound nSegBegin gs
      in if i = 0 then Some (True, gs)
         else if snd (gs ! (i - 1)) > nSegBegin then fill_loop (i - 1) nSegBegin nSegEnd gs
         else Some (True, gs))"

text \<open>Growing the buffer, with a gap in front of a segment that is not the next one.\<close>

definition extend_stream :: "RecvConfig \<Rightarrow> int \<Rightarrow> int \<Rightarrow> Lane \<Rightarrow> Lane option" where
  "extend_stream cfg nSegBegin nSegEnd lane =
     (let nExpectNextStreamPos = m_nReliableStreamPos lane + int (length (m_bufReliableStream lane));
          gs = m_mapReliableStreamGaps lane
      in if nSegEnd > nExpectNextStreamPos then
           let cbNewSize = nSegEnd - m_nReliableStreamPos lane
           in if cbNewSize > RecvBufferSize cfg then None
              else if nSegBegin > nExpectNextStreamPos \<and> gs \<noteq> [] \<and> length gs \<ge> k_nMaxReliableStreamGaps_Extend then None
              else Some (lane\<lparr>
                m_mapReliableStreamGaps := (if nSegBegin > nExpectNextStreamPos then map_set nExpectNextStreamPos nSegBegin gs else gs),
                m_bufReliableStream := m_bufReliableStream lane @
                  replicate (nat cbNewSize - length (m_bufReliableStream lane)) 0\<rparr>)
         else Some lane)"

subsection \<open>Decoding messages\<close>

text \<open>The parts of a message header, from the bytes behind its first one.\<close>

datatype 'a parsed = Parse_problem | Parse_incomplete | Parsed 'a "byte list"

definition decode_msg_num :: "Lane \<Rightarrow> byte \<Rightarrow> byte list \<Rightarrow> int parsed option" where
  "decode_msg_num lane nHeaderByte bs =
     (if nHeaderByte AND 0x40 \<noteq> 0 then
        (case DeserializeVarInt bs of
           None \<Rightarrow> None
         | Some None \<Rightarrow> Some Parse_incomplete
         | Some (Some (nOffset, bs)) \<Rightarrow>
             let nMsgNum = m_nLastRecvReliableMsgNum lane + uint nOffset
             in if nOffset > 1000000 \<or> nMsgNum > m_nHighestSeenMsgNum lane + 10000 then Some Parse_problem
                else Some (Parsed nMsgNum bs))
      else Some (Parsed (m_nLastRecvReliableMsgNum lane + 1) bs))"

definition decode_msg_size :: "RecvConfig \<Rightarrow> byte \<Rightarrow> byte list \<Rightarrow> int parsed option" where
  "decode_msg_size cfg nHeaderByte bs =
     (let cbMsgSize = (ucast (nHeaderByte AND 0x1f) :: u32) in
      if nHeaderByte AND 0x20 \<noteq> 0 then
        (case DeserializeVarInt bs of
           None \<Rightarrow> None
         | Some None \<Rightarrow> Some Parse_incomplete
         | Some (Some (nMsgSizeUpperBits, bs)) \<Rightarrow>
             if nMsgSizeUpperBits > push_bit 5 (word_of_int (RecvBufferSize cfg)) then Some Parse_problem
             else
               let cbMsgSize = sint (cbMsgSize + ucast (push_bit 5 nMsgSizeUpperBits))
               in if cbMsgSize > RecvBufferSize cfg then Some Parse_problem
                  else if cbMsgSize > RecvMaxMessageSize cfg then Some Parse_problem
                  else Some (Parsed cbMsgSize bs))
      else Some (Parsed (sint cbMsgSize) bs))"

text \<open>
  Dispatching the messages in the first \<open>nNumReliableBytes\<close> bytes of the buffer. \<open>pReliableDecode\<close> is the
  offset behind the part that has been read.
\<close>

partial_function (option) Dispatch ::
  "RecvConfig \<Rightarrow> int \<Rightarrow> int \<Rightarrow> Lane \<Rightarrow> message list \<Rightarrow> (segment_result \<times> Lane \<times> message list) option"
where
  "Dispatch cfg idxLane nNumReliableBytes lane q = do {
     nHeaderByte \<leftarrow> get_at (m_bufReliableStream lane) 0;
     let bs = drop 1 (take (nat nNumReliableBytes) (m_bufReliableStream lane));
     if nHeaderByte AND 0x80 \<noteq> 0 then Some (Problem, lane, q)
     else do {
       num \<leftarrow> decode_msg_num lane nHeaderByte bs;
       (case num of
          Parse_problem \<Rightarrow> Some (Problem, lane, q)
        | Parse_incomplete \<Rightarrow> Some (Accepted, lane, q)
        | Parsed nMsgNum bs1 \<Rightarrow> do {
            let lane = (if nMsgNum > m_nHighestSeenMsgNum lane then lane\<lparr>m_nHighestSeenMsgNum := nMsgNum\<rparr> else lane);
            size \<leftarrow> decode_msg_size cfg nHeaderByte bs1;
            (case size of
               Parse_problem \<Rightarrow> Some (Problem, lane, q)
             | Parse_incomplete \<Rightarrow> Some (Accepted, lane, q)
             | Parsed cbMsgSize bs2 \<Rightarrow> do {
                 let pReliableDecode = 1 + int (length bs - length bs2);
                 if pReliableDecode + cbMsgSize > nNumReliableBytes then Some (Accepted, lane, q)
                 else do {
                   (r, q) \<leftarrow> ReceivedMessageData cfg (drop (nat pReliableDecode) (m_bufReliableStream lane)) cbMsgSize
                              idxLane nMsgNum k_nSteamNetworkingSend_Reliable q;
                   if r \<noteq> Accepted then Some (r, lane, q)
                   else do {
                     let cbStreamConsumed = pReliableDecode + cbMsgSize;
                     let lane = lane\<lparr>m_nLastRecvReliableMsgNum := nMsgNum,
                       m_nReliableStreamPos := m_nReliableStreamPos lane + cbStreamConsumed,
                       m_bufReliableStream := drop (nat cbStreamConsumed) (m_bufReliableStream lane)\<rparr>;
                     if nNumReliableBytes - cbStreamConsumed > 0
                     then Dispatch cfg idxLane (nNumReliableBytes - cbStreamConsumed) lane q
                     else Some (Accepted, lane, q)
                   }
                 }
               })
          })
     }}"

declare Dispatch.simps [code]

subsection \<open>Receiving a segment\<close>

text \<open>How many bytes at the head of the buffer are valid; \<open>None\<close> if there is a gap in front of the segment.\<close>

definition num_reliable_bytes :: "int \<Rightarrow> Lane \<Rightarrow> int option" where
  "num_reliable_bytes nSegBegin lane =
     (case m_mapReliableStreamGaps lane of
        [] \<Rightarrow> Some (int (length (m_bufReliableStream lane)))
      | (b, e) # _ \<Rightarrow> if b < nSegBegin then None else Some (b - m_nReliableStreamPos lane))"

definition SNP_ReceiveReliableSegment ::
  "RecvConfig \<Rightarrow> ConnectionState \<Rightarrow> int \<Rightarrow> byte list \<Rightarrow> int \<Rightarrow> Lane \<Rightarrow> message list \<Rightarrow>
   (segment_result \<times> Lane \<times> message list) option" where
  "SNP_ReceiveReliableSegment cfg state nSegBegin pSegmentData idxLane lane q =
     (let nSegEnd = nSegBegin + int (length pSegmentData) in
      if pSegmentData = [] then Some (Accepted, lane, q)
      else if state = Linger \<or> state = FinWait then Some (Accepted, lane, q)
      else if state \<noteq> Connected \<and> state \<noteq> FindingRoute then Some (Rejected, lane, q)
      else if nSegEnd \<le> m_nReliableStreamPos lane then Some (Accepted, lane, q)
      else
        let nExpectNextStreamPos = m_nReliableStreamPos lane + int (length (m_bufReliableStream lane)) in
        (case extend_stream cfg nSegBegin nSegEnd lane of
           None \<Rightarrow> Some (Rejected, lane, q)
         | Some lane \<Rightarrow> do {
             let nSkip = (if nSegBegin < nExpectNextStreamPos \<and> nSegBegin < m_nReliableStreamPos lane
                          then m_nReliableStreamPos lane - nSegBegin else 0);
             let pSegmentData = drop (nat nSkip) pSegmentData;
             (ok, gs) \<leftarrow> (if nSegBegin < nExpectNextStreamPos
                          then fill_stream_gaps (nSegBegin + nSkip) nSegEnd (m_mapReliableStreamGaps lane)
                          else Some (True, m_mapReliableStreamGaps lane));
             let lane = lane\<lparr>m_mapReliableStreamGaps := gs\<rparr>;
             let nSegBegin = nSegBegin + nSkip;
             if \<not> ok then Some (Rejected, lane, q)
             else do {
               buf \<leftarrow> store_range (nSegBegin - m_nReliableStreamPos lane) pSegmentData (m_bufReliableStream lane);
               let lane = lane\<lparr>m_bufReliableStream := buf\<rparr>;
               (case num_reliable_bytes nSegBegin lane of
                  None \<Rightarrow> Some (Accepted, lane, q)
                | Some nNumReliableBytes \<Rightarrow> Dispatch cfg idxLane nNumReliableBytes lane q)
             }
           }))"

end
