(* ===== verification/SnpSend.thy ===== *)
theory SnpSend
  imports SnpReliable
begin

text \<open>
  The sender of messages: \<open>SNP_SendMessage\<close> of
  \<open>src/GameNetworkingSockets/src/steamnetworkingsockets/clientlib/steamnetworkingsockets_snp.cpp\<close>, from the checks to the
  queue of the lane: message numbers, the header of a reliable message and its place in the
  reliable stream. Rate limiting, Nagle times and virtual finish times, which are times and floating point
  numbers and decide when a message is put on the wire, are not part of the model.

  \<open>stream_of\<close> is the reliable stream that the messages of a lane make up, and the lemmas say what the
  decoder of \<open>SnpReliable\<close> makes of the beginning of it.
\<close>

subsection \<open>State\<close>

record OutMessage =
  out_msg_num :: int
  out_flags :: int
  out_stream_pos :: int
  out_hdr :: "byte list"
  out_data :: "byte list"

record SendLane =
  m_nReliableStreamNextSendPos :: int
  m_nLastSendMsgNumReliable :: int
  m_nLastSentMsgNum :: int
  m_cbCurrentSendMessageSent :: int
  lane_cbPendingUnreliable :: int
  lane_cbPendingReliable :: int
  lane_cbSentUnackedReliable :: int
  lane_messagesQueued :: "OutMessage list"

text \<open>
  A segment of the reliable stream that has been sent. \<open>m_hStatusOrRetry\<close> holds the handle of its entry in the retry
  list when it waits for a retry; the entry is the one that holds the segment.
\<close>

datatype segment_status = k_nStatus_InFlight | k_nStatus_Acked | k_nStatus_Retry

record SNPSendReliableSegment =
  seg_lane :: nat
  seg_msg :: OutMessage
  m_nOffset :: int
  m_cbSize :: int
  m_nRefCount :: int
  m_hStatusOrRetry :: segment_status

record SNPInFlightPacket =
  m_usecWhenSent :: int
  m_bNack :: bool
  m_vecReliableSegments :: "nat list"

text \<open>
  The tables of segments and of packets in flight are the lists of their entries: segments with their handles in the
  order of the linked list, packets with their numbers in the order of the map. A handle that is free is
  taken from a counter. An iterator into the map of packets is the number it points to, \<open>None\<close> the end.
  The reference counts that the messages hold are a function of lane and number.
\<close>

record SSNPSenderState =
  send_lanes :: "SendLane list"
  m_cbPendingUnreliable :: int
  m_cbPendingReliable :: int
  m_cbSentUnackedReliable :: int
  m_nMessagesSentReliable :: int
  m_nMessagesSentUnreliable :: int
  m_unackedReliableMessages :: "(nat \<times> OutMessage) list"
  m_nSentReliableSegRefCount :: "nat \<times> int \<Rightarrow> int"
  m_listSentReliableSegments :: "(nat \<times> SNPSendReliableSegment) list"
  next_segment_handle :: nat
  m_listReadyRetryReliableRange :: "nat list"
  m_mapInFlightPacketsByPktNum :: "(int \<times> SNPInFlightPacket) list"
  m_itNextInFlightPacketToTimeout :: "int option"
  m_nMinPktWaitingOnAck :: int

datatype send_error = InvalidParam | LimitExceeded

definition k_cbMaxUnreliableMsgSizeSend :: int where
  "k_cbMaxUnreliableMsgSizeSend = 15 * 1100"

definition SendLane_new :: SendLane where
  "SendLane_new = \<lparr>m_nReliableStreamNextSendPos = 1, m_nLastSendMsgNumReliable = 0, m_nLastSentMsgNum = 0,
     m_cbCurrentSendMessageSent = 0, lane_cbPendingUnreliable = 0, lane_cbPendingReliable = 0, lane_cbSentUnackedReliable = 0,
     lane_messagesQueued = []\<rparr>"

text \<open>A state with \<open>n\<close> lanes; the map of packets holds its sentinel.\<close>

definition INT64_MIN :: int where
  "INT64_MIN = - (2 ^ 63)"

definition sender_new :: "nat \<Rightarrow> SSNPSenderState" where
  "sender_new n = \<lparr>send_lanes = replicate n SendLane_new, m_cbPendingUnreliable = 0, m_cbPendingReliable = 0,
     m_cbSentUnackedReliable = 0, m_nMessagesSentReliable = 0, m_nMessagesSentUnreliable = 0, m_unackedReliableMessages = [],
     m_nSentReliableSegRefCount = (\<lambda>_. 0), m_listSentReliableSegments = [], next_segment_handle = 0,
     m_listReadyRetryReliableRange = [],
     m_mapInFlightPacketsByPktNum = [(INT64_MIN, \<lparr>m_usecWhenSent = 0, m_bNack = False, m_vecReliableSegments = []\<rparr>)],
     m_itNextInFlightPacketToTimeout = None, m_nMinPktWaitingOnAck = 0\<rparr>"

subsection \<open>Operations\<close>

definition ReliableHeader :: "int \<Rightarrow> int \<Rightarrow> byte list" where
  "ReliableHeader nMsgNumGap cbData =
     (let gap = (if nMsgNumGap > 1 then SerializeVarInt (word_of_int nMsgNumGap) else []);
          hdr0 = (if nMsgNumGap > 1 then 0 OR 0x40 else 0)
      in if cbData < 0x20 then (hdr0 OR word_of_int cbData) # gap
         else (hdr0 OR word_of_int (0x20 OR (cbData AND 0x1f))) # gap @ SerializeVarInt (word_of_int (drop_bit 5 cbData)))"

definition PendingBytesTotal :: "SSNPSenderState \<Rightarrow> int" where
  "PendingBytesTotal s = m_cbPendingUnreliable s + m_cbPendingReliable s"

text \<open>A message that is accepted: it gets its number and goes to the end of the lane's queue.\<close>

definition queue_reliable :: "int \<Rightarrow> byte list \<Rightarrow> SendLane \<Rightarrow> OutMessage \<times> SendLane" where
  "queue_reliable flags data l =
     (let num = m_nLastSentMsgNum l + 1;
          hdr = ReliableHeader (num - m_nLastSendMsgNumReliable l) (int (length data));
          cbSize = int (length data) + int (length hdr);
          msg = \<lparr>out_msg_num = num, out_flags = flags, out_stream_pos = m_nReliableStreamNextSendPos l,
                 out_hdr = hdr, out_data = data\<rparr>
      in (msg, l\<lparr>m_nLastSentMsgNum := num,
            m_nReliableStreamNextSendPos := m_nReliableStreamNextSendPos l + cbSize,
            lane_cbPendingReliable := lane_cbPendingReliable l + cbSize,
            m_nLastSendMsgNumReliable := num, lane_messagesQueued := lane_messagesQueued l @ [msg]\<rparr>))"

definition queue_unreliable :: "int \<Rightarrow> byte list \<Rightarrow> SendLane \<Rightarrow> OutMessage \<times> SendLane" where
  "queue_unreliable flags data l =
     (let num = m_nLastSentMsgNum l + 1;
          msg = \<lparr>out_msg_num = num, out_flags = flags, out_stream_pos = 0, out_hdr = [], out_data = data\<rparr>
      in (msg, l\<lparr>m_nLastSentMsgNum := num,
            lane_cbPendingUnreliable := lane_cbPendingUnreliable l + int (length data),
            lane_messagesQueued := lane_messagesQueued l @ [msg]\<rparr>))"

definition SNP_SendMessage ::
  "int \<Rightarrow> nat \<Rightarrow> int \<Rightarrow> byte list \<Rightarrow> SSNPSenderState \<Rightarrow> send_error + (OutMessage \<times> SSNPSenderState)" where
  "SNP_SendMessage nSendBufferSize idxLane nFlags data s =
     (if idxLane \<ge> length (send_lanes s) then Inl InvalidParam
      else
        let cbData = int (length data); l = send_lanes s ! idxLane
        in if PendingBytesTotal s + cbData > nSendBufferSize then Inl LimitExceeded
           else
             let nFlags = (if cbData > k_cbMaxUnreliableMsgSizeSend \<and> nFlags AND k_nSteamNetworkingSend_Reliable = 0
                           then nFlags OR k_nSteamNetworkingSend_Reliable else nFlags)
             in if nFlags AND k_nSteamNetworkingSend_Reliable \<noteq> 0 then
                  let (msg, l) = queue_reliable nFlags data l
                  in Inr (msg, s\<lparr>send_lanes := (send_lanes s)[idxLane := l],
                       m_nSentReliableSegRefCount := (m_nSentReliableSegRefCount s)((idxLane, out_msg_num msg) := 1),
                       m_nMessagesSentReliable := m_nMessagesSentReliable s + 1,
                       m_cbPendingReliable := m_cbPendingReliable s + cbData + int (length (out_hdr msg))\<rparr>)
                else
                  let (msg, l) = queue_unreliable nFlags data l
                  in Inr (msg, s\<lparr>send_lanes := (send_lanes s)[idxLane := l],
                       m_nMessagesSentUnreliable := m_nMessagesSentUnreliable s + 1,
                       m_cbPendingUnreliable := m_cbPendingUnreliable s + cbData\<rparr>))"

subsection \<open>The reliable stream\<close>

text \<open>The bytes of the messages, given by number and data, behind a message with number \<open>prev\<close>.\<close>

definition wire :: "int \<Rightarrow> int \<times> byte list \<Rightarrow> byte list" where
  "wire prev m = ReliableHeader (fst m - prev) (int (length (snd m))) @ snd m"

fun stream_of :: "int \<Rightarrow> (int \<times> byte list) list \<Rightarrow> byte list" where
  "stream_of prev [] = []"
| "stream_of prev (m # ms) = wire prev m @ stream_of (fst m) ms"

text \<open>Numbers that increase, and sizes of 31 bits.\<close>

fun well_sent :: "int \<Rightarrow> (int \<times> byte list) list \<Rightarrow> bool" where
  "well_sent prev [] \<longleftrightarrow> True"
| "well_sent prev (m # ms) \<longleftrightarrow> prev < fst m \<and> fst m - prev < 2 ^ 63 \<and> int (length (snd m)) < 2 ^ 31 \<and> well_sent (fst m) ms"

definition last_num :: "int \<Rightarrow> (int \<times> byte list) list \<Rightarrow> int" where
  "last_num prev ms = (if ms = [] then prev else fst (last ms))"

lemma last_num_simps [simp]:
  "last_num prev [] = prev" "last_num prev (m # ms) = last_num (fst m) ms" "last_num prev (ms @ [m]) = fst m"
  by (simp_all add: last_num_def)

lemma stream_of_append: "stream_of prev (ms @ ms') = stream_of prev ms @ stream_of (last_num prev ms) ms'"
  by (induction ms arbitrary: prev) simp_all

lemma well_sent_append: "well_sent prev (ms @ ms') \<longleftrightarrow> well_sent prev ms \<and> well_sent (last_num prev ms) ms'"
  by (induction ms arbitrary: prev) auto

lemma ReliableHeader_Cons:
  "\<exists>h hs. ReliableHeader g z = h # hs"
  by (simp add: ReliableHeader_def Let_def)

lemma wire_nonempty [simp]: "wire prev m \<noteq> []"
  using ReliableHeader_Cons [of "fst m - prev" "int (length (snd m))"] by (auto simp: wire_def)

subsection \<open>Decoding a header\<close>

lemma byte_tests:
  "(c :: byte) AND 0x20 \<noteq> 0 \<longleftrightarrow> bit c 5" "c AND 0x40 \<noteq> 0 \<longleftrightarrow> bit c 6" "c AND 0x80 \<noteq> 0 \<longleftrightarrow> bit c 7"
proof -
  have "(0x20 :: byte) = 2 ^ 5" "(0x40 :: byte) = 2 ^ 6" "(0x80 :: byte) = 2 ^ 7" by simp_all
  then show "c AND 0x20 \<noteq> 0 \<longleftrightarrow> bit c 5" "c AND 0x40 \<noteq> 0 \<longleftrightarrow> bit c 6" "c AND 0x80 \<noteq> 0 \<longleftrightarrow> bit c 7"
    by (simp_all only: and_exp_eq_0_iff_not_bit not_not)
qed

definition gap_bytes :: "int \<Rightarrow> byte list" where
  "gap_bytes g = (if g > 1 then SerializeVarInt (word_of_int g) else [])"

definition size_bytes :: "int \<Rightarrow> byte list" where
  "size_bytes z = (if z < 0x20 then [] else SerializeVarInt (word_of_int (drop_bit 5 z)))"

lemma small_bits: "0 \<le> (z :: int) \<Longrightarrow> z < 0x20 \<Longrightarrow> 5 \<le> i \<Longrightarrow> \<not> bit z i"
proof -
  assume z: "0 \<le> z" "z < 0x20" "5 \<le> i"
  then have "take_bit 5 z = z" by (simp add: take_bit_int_eq_self_iff)
  then have "bit z i = bit (take_bit 5 z) i" by simp
  also have "\<dots> = False" using z(3) by (simp add: bit_take_bit_iff)
  finally show ?thesis by simp
qed

lemma bit_constants:
  "bit (0x40 :: int) i \<longleftrightarrow> i = 6" "bit (0x20 :: int) i \<longleftrightarrow> i = 5" "bit (0x1f :: int) i \<longleftrightarrow> i < 5"
proof -
  have c: "(0x40 :: int) = 2 ^ 6" "(0x20 :: int) = 2 ^ 5" "(0x1f :: int) = mask 5"
    by (simp_all add: mask_eq_exp_minus_1)
  show "bit (0x40 :: int) i \<longleftrightarrow> i = 6" unfolding c(1) bit_exp_iff by auto
  show "bit (0x20 :: int) i \<longleftrightarrow> i = 5" unfolding c(2) bit_exp_iff by auto
  show "bit (0x1f :: int) i \<longleftrightarrow> i < 5" unfolding c(3) bit_mask_iff by auto
qed

lemma header_byte:
  assumes z: "0 \<le> z"
  obtains h where "ReliableHeader g z = h # gap_bytes g @ size_bytes z"
    "\<And>i. i < 5 \<Longrightarrow> bit h i = bit z i" "bit h 5 \<longleftrightarrow> 0x20 \<le> z" "bit h 6 \<longleftrightarrow> 1 < g" "\<not> bit h 7"
proof -
  define low where "low = (if z < 0x20 then z else 0x20 OR (z AND 0x1f))"
  define h :: byte where "h = (if g > 1 then 0 OR 0x40 else 0) OR word_of_int low"
  have hdr: "ReliableHeader g z = h # gap_bytes g @ size_bytes z"
    by (simp add: ReliableHeader_def Let_def h_def low_def gap_bytes_def size_bytes_def)
  have low: "bit low i \<longleftrightarrow> (if i < 5 then bit z i else i = 5 \<and> 0x20 \<le> z)" for i
    using small_bits [OF z, of i] by (auto simp: low_def bit_or_iff bit_and_iff bit_constants)
  have h: "bit h i \<longleftrightarrow> i = 6 \<and> 1 < g \<or> i < 8 \<and> bit low i" for i
    by (auto simp: h_def bit_or_iff bit_word_of_int_iff bit_constants)
  show ?thesis using hdr by (rule that) (simp_all add: h low)
qed

text \<open>Reading the message number, when \<open>k\<close> bytes behind the first one are there.\<close>

lemma decode_num_prefix:
  assumes h: "bit h 6 \<longleftrightarrow> 1 < g" and g: "1 \<le> g" "g < 2 ^ 63"
  shows "decode_msg_num lane h (take k (gap_bytes g @ R)) = Some (
    if k < length (gap_bytes g) then Parse_incomplete
    else if g > 1 \<and> (g > 1000000 \<or> m_nLastRecvReliableMsgNum lane + g > m_nHighestSeenMsgNum lane + 10000) then Parse_problem
    else Parsed (m_nLastRecvReliableMsgNum lane + g) (take (k - length (gap_bytes g)) R))"
proof (cases "1 < g")
  case False
  then have "g = 1" using g(1) by simp
  then show ?thesis using h byte_tests(2) [of h] by (simp add: decode_msg_num_def gap_bytes_def)
next
  case True
  define x :: "64 word" where "x = word_of_int g"
  have gb: "gap_bytes g = SerializeVarInt x" using True by (simp add: gap_bytes_def x_def)
  have u: "uint x = g" using g by (simp add: x_def uint_word_of_int take_bit_int_eq_self)
  have c: "1000000 < x \<longleftrightarrow> 1000000 < g" by (simp add: word_less_def u)
  have t: "h AND 0x40 \<noteq> 0" using h True byte_tests(2) by simp
  show ?thesis
  proof (cases "k < length (gap_bytes g)")
    case True
    then have "DeserializeVarInt (take k (gap_bytes g @ R)) = Some None"
      using Deserialize_short by (simp add: gb)
    with True t show ?thesis by (simp add: decode_msg_num_def)
  next
    case False
    then have "take k (gap_bytes g @ R) = SerializeVarInt x @ take (k - length (gap_bytes g)) R" by (simp add: gb)
    then have "DeserializeVarInt (take k (gap_bytes g @ R)) = Some (Some (x, take (k - length (gap_bytes g)) R))"
      using Deserialize_Serialize by simp
    with False t \<open>1 < g\<close> show ?thesis by (simp add: decode_msg_num_def Let_def u c)
  qed
qed

text \<open>Reading the size: \<open>too_large\<close> is what the checks refuse.\<close>

definition too_large :: "RecvConfig \<Rightarrow> int \<Rightarrow> bool" where
  "too_large cfg z \<longleftrightarrow> 0x20 \<le> z \<and>
     ((word_of_int (drop_bit 5 z) :: 64 word) > push_bit 5 (word_of_int (RecvBufferSize cfg)) \<or>
      z > RecvBufferSize cfg \<or> z > RecvMaxMessageSize cfg)"

lemma sint_small: "0 \<le> z \<Longrightarrow> z < 2 ^ 31 \<Longrightarrow> sint (word_of_int z :: u32) = z"
  by (simp add: sint_sbintrunc' signed_take_bit_int_eq_self)

lemma decode_size_prefix:
  assumes h: "\<And>i. i < 5 \<Longrightarrow> bit h i = bit z i" "bit h 5 \<longleftrightarrow> 0x20 \<le> z" and z: "0 \<le> z" "z < 2 ^ 31"
  shows "decode_msg_size cfg h (take k (size_bytes z @ R)) = Some (
    if k < length (size_bytes z) then Parse_incomplete
    else if too_large cfg z then Parse_problem
    else Parsed z (take (k - length (size_bytes z)) R))"
proof -
  have low: "ucast (h AND 0x1f) = (word_of_int (take_bit 5 z) :: u32)"
  proof (rule bit_word_eqI)
    fix i assume "i < LENGTH(32)"
    then show "bit (ucast (h AND 0x1f) :: u32) i = bit (word_of_int (take_bit 5 z) :: u32) i"
      using h(1) [of i] by (auto simp: bit_simps bit_constants)
  qed
  show ?thesis
  proof (cases "z < 0x20")
    case True
    then have "take_bit 5 z = z" using z by (simp add: take_bit_int_eq_self)
    then have "sint (ucast (h AND 0x1f) :: u32) = z" using low z sint_small by simp
    moreover have "h AND 0x20 = 0" using h(2) True byte_tests(1) [of h] by simp
    ultimately show ?thesis using True by (simp add: decode_msg_size_def Let_def size_bytes_def too_large_def)
  next
    case False
    define x :: "64 word" where "x = word_of_int (drop_bit 5 z)"
    have sb: "size_bytes z = SerializeVarInt x" using False by (simp add: size_bytes_def x_def)
    have t: "h AND 0x20 \<noteq> 0" using h(2) False byte_tests(1) [of h] by simp
    have "(ucast (push_bit 5 x) :: u32) = word_of_int (push_bit 5 (drop_bit 5 z))"
      by (rule bit_word_eqI) (auto simp: x_def bit_simps)
    moreover have "take_bit 5 z + push_bit 5 (drop_bit 5 z) = z"
      by (simp add: take_bit_eq_mod drop_bit_eq_div push_bit_eq_mult)
    ultimately have "ucast (h AND 0x1f) + (ucast (push_bit 5 x) :: u32) = word_of_int z"
      unfolding low by (metis of_int_add)
    then have v: "sint (ucast (h AND 0x1f) + (ucast (push_bit 5 x) :: u32)) = z" using z sint_small by simp
    show ?thesis
    proof (cases "k < length (size_bytes z)")
      case True
      then have "DeserializeVarInt (take k (size_bytes z @ R)) = Some None"
        using Deserialize_short by (simp add: sb)
      with True t show ?thesis by (simp add: decode_msg_size_def)
    next
      case k: False
      then have "take k (size_bytes z @ R) = SerializeVarInt x @ take (k - length (size_bytes z)) R" by (simp add: sb)
      then have "DeserializeVarInt (take k (size_bytes z @ R)) = Some (Some (x, take (k - length (size_bytes z)) R))"
        using Deserialize_Serialize by simp
      with k t v False show ?thesis
        by (simp add: decode_msg_size_def Let_def too_large_def x_def [symmetric])
    qed
  qed
qed

end
