(* ===== verification/SnpDispatch.thy ===== *)
theory SnpDispatch
  imports SnpSend
begin

text \<open>
  What \<open>Dispatch\<close> makes of the head of the reliable stream: the messages that are complete, in order, go to the
  queue, and the buffer then starts with the first that is not. The messages of a lane stay in their order in the
  queue, whatever else arrives.
\<close>

subsection \<open>The queue\<close>

definition lane_msgs :: "int \<Rightarrow> message list \<Rightarrow> message list" where
  "lane_msgs idx q = filter (\<lambda>m. m_idxLane m = idx \<and> m_nFlags m = k_nSteamNetworkingSend_Reliable) q"

definition to_message :: "int \<Rightarrow> int \<times> byte list \<Rightarrow> message" where
  "to_message idx m = \<lparr>m_idxLane = idx, m_nMessageNumber = fst m, m_nFlags = k_nSteamNetworkingSend_Reliable,
     m_pData = snd m\<rparr>"

lemma lane_msgs_simps [simp]:
  "lane_msgs idx [] = []" "lane_msgs idx (q @ q') = lane_msgs idx q @ lane_msgs idx q'"
  "lane_msgs idx (m # q) = (if m_idxLane m = idx \<and> m_nFlags m = k_nSteamNetworkingSend_Reliable
     then m # lane_msgs idx q else lane_msgs idx q)"
  by (simp_all add: lane_msgs_def)

lemma set_lane_msgs: "set (lane_msgs idx q) \<subseteq> set q"
  by (auto simp: lane_msgs_def)

lemma scan_back_result:
  "k \<le> length q \<Longrightarrow> scan_back n q k \<le> k \<and> (\<forall>j. scan_back n q k \<le> j \<and> j < k \<longrightarrow> n < m_nMessageNumber (q ! j))"
proof (induction k)
  case (Suc k)
  then show ?case by (auto simp: less_Suc_eq)
qed simp

text \<open>A message goes behind those of its lane if their numbers are lower, and leaves the order of the others.\<close>

lemma ReceivedMessage_result:
  assumes "ReceivedMessage cfg m q = (ok, q')"
  shows "if ok then \<exists>q1 q2. q = q1 @ q2 \<and> q' = q1 @ m # q2 \<and> (\<forall>m' \<in> set q2. m_nMessageNumber m < m_nMessageNumber m')
    else q' = q"
proof (cases "q \<noteq> [] \<and> m_nMessageNumber (last q) > m_nMessageNumber m")
  case True
  define i where "i = scan_back (m_nMessageNumber m) q (length q - 1)"
  have i: "\<forall>j. i \<le> j \<and> j < length q - 1 \<longrightarrow> m_nMessageNumber m < m_nMessageNumber (q ! j)"
    using scan_back_result [of "length q - 1" q "m_nMessageNumber m"] by (simp add: i_def)
  have "m_nMessageNumber m < m_nMessageNumber m'" if m': "m' \<in> set (drop i q)" for m'
  proof -
    obtain j' where "j' < length q - i" "m' = q ! (i + j')" using m' by (auto simp: in_set_conv_nth)
    then obtain j where j: "j < length q" "i \<le> j" "m' = q ! j" using that [of "i + j'"] by simp
    show ?thesis
    proof (cases "j = length q - 1")
      case True
      moreover have "last q = q ! (length q - 1)" using \<open>q \<noteq> [] \<and> _\<close> by (simp add: last_conv_nth)
      ultimately show ?thesis using j(3) \<open>q \<noteq> [] \<and> _\<close> by metis
    next
      case False
      with j i show ?thesis by simp
    qed
  qed
  then have *: "\<forall>m' \<in> set (drop i q). m_nMessageNumber m < m_nMessageNumber m'" by blast
  show ?thesis
  proof (cases ok)
    case ok: True
    then have "q' = take i q @ m # drop i q"
      using assms True unfolding ReceivedMessage_def i_def [symmetric] Let_def by (auto split: if_splits)
    with * ok show ?thesis by (simp, intro exI [of _ "take i q"] exI [of _ "drop i q"]) simp
  next
    case False
    with assms True show ?thesis unfolding ReceivedMessage_def Let_def by (auto split: if_splits)
  qed
next
  case False
  show ?thesis
  proof (cases ok)
    case ok: True
    then have "q' = q @ [m]" using assms False unfolding ReceivedMessage_def by (auto split: if_splits)
    with ok show ?thesis by (simp, intro exI [of _ q] exI [of _ "[]"]) simp
  next
    case False
    then show ?thesis using assms unfolding ReceivedMessage_def Let_def by (auto split: if_splits)
  qed
qed

lemma ReceivedMessage_lane:
  assumes "ReceivedMessage cfg m q = (True, q')" "m_idxLane m = idx" "m_nFlags m = k_nSteamNetworkingSend_Reliable"
    "\<forall>m' \<in> set (lane_msgs idx q). m_nMessageNumber m' \<le> m_nMessageNumber m"
  shows "lane_msgs idx q' = lane_msgs idx q @ [m]"
proof -
  obtain q1 q2 where q: "q = q1 @ q2" "q' = q1 @ m # q2" "\<forall>m' \<in> set q2. m_nMessageNumber m < m_nMessageNumber m'"
    using ReceivedMessage_result [OF assms(1)] by auto
  have "lane_msgs idx q2 = []"
  proof (rule ccontr)
    assume "lane_msgs idx q2 \<noteq> []"
    then obtain m' where "m' \<in> set (lane_msgs idx q2)" by (meson last_in_set)
    then have "m' \<in> set q2" "m' \<in> set (lane_msgs idx q)" using set_lane_msgs [of idx q2] q(1) by auto
    with q(3) assms(4) show False by (meson not_less)
  qed
  with q assms(2,3) show ?thesis by simp
qed

lemma ReceivedMessage_other:
  assumes "ReceivedMessage cfg m q = (ok, q')" "m_idxLane m \<noteq> idx \<or> m_nFlags m \<noteq> k_nSteamNetworkingSend_Reliable"
  shows "lane_msgs idx q' = lane_msgs idx q"
  using ReceivedMessage_result [OF assms(1)] assms(2) by (cases ok) auto

subsection \<open>Dispatching\<close>

text \<open>A complete message: what is left of \<open>k\<close> bytes does not hold the next one.\<close>

definition no_complete :: "int \<Rightarrow> (int \<times> byte list) list \<Rightarrow> nat \<Rightarrow> bool" where
  "no_complete prev ms k \<longleftrightarrow> (case ms of [] \<Rightarrow> True | m # _ \<Rightarrow> k < length (wire prev m))"

text \<open>Messages that a receiver with the limits of \<open>cfg\<close> does not refuse.\<close>

definition refused :: "RecvConfig \<Rightarrow> int \<Rightarrow> int \<times> byte list \<Rightarrow> bool" where
  "refused cfg prev m \<longleftrightarrow> fst m - prev > 10000 \<or> too_large cfg (int (length (snd m))) \<or>
     word_of_int (RecvMaxMessageSize cfg) < (word_of_int (int (length (snd m))) :: u32)"

fun sendable :: "RecvConfig \<Rightarrow> int \<Rightarrow> (int \<times> byte list) list \<Rightarrow> bool" where
  "sendable cfg prev [] \<longleftrightarrow> True"
| "sendable cfg prev (m # ms) \<longleftrightarrow> \<not> refused cfg prev m \<and> sendable cfg (fst m) ms"

text \<open>One message.\<close>

definition advance :: "int \<Rightarrow> int \<Rightarrow> nat \<Rightarrow> Lane \<Rightarrow> Lane" where
  "advance hi num n lane = lane\<lparr>m_nHighestSeenMsgNum := hi, m_nReliableStreamPos := m_nReliableStreamPos lane + int n,
     m_nLastRecvReliableMsgNum := num, m_bufReliableStream := drop n (m_bufReliableStream lane)\<rparr>"

lemma advance_fields [simp]:
  "m_nHighestSeenMsgNum (advance hi num n lane) = hi" "m_nLastRecvReliableMsgNum (advance hi num n lane) = num"
  "m_nReliableStreamPos (advance hi num n lane) = m_nReliableStreamPos lane + int n"
  "m_bufReliableStream (advance hi num n lane) = drop n (m_bufReliableStream lane)"
  "m_mapReliableStreamGaps (advance hi num n lane) = m_mapReliableStreamGaps lane"
  by (simp_all add: advance_def)

lemma advance_0: "advance (m_nHighestSeenMsgNum lane) (m_nLastRecvReliableMsgNum lane) 0 lane = lane"
  by (simp add: advance_def)

lemma advance_advance: "advance hi' num' n' (advance hi num n lane) = advance hi' num' (n + n') lane"
  by (cases lane) (simp add: advance_def add.commute)

lemma Dispatch_parsed:
  assumes "get_at (m_bufReliableStream lane) 0 = Some h" "h AND 0x80 = 0"
    "decode_msg_num lane h (drop 1 (take (nat n) (m_bufReliableStream lane))) = Some (Parsed num bs1)"
    "decode_msg_size cfg h bs1 = Some (Parsed sz bs2)"
    "p = 1 + int (length (drop 1 (take (nat n) (m_bufReliableStream lane))) - length bs2)"
  defines "hi \<equiv> max (m_nHighestSeenMsgNum lane) num"
  shows "Dispatch cfg idx n lane q =
     (if p + sz > n then Some (Accepted, lane\<lparr>m_nHighestSeenMsgNum := hi\<rparr>, q)
      else do {
        (r, q) \<leftarrow> ReceivedMessageData cfg (drop (nat p) (m_bufReliableStream lane)) sz idx num k_nSteamNetworkingSend_Reliable q;
        if r \<noteq> Accepted then Some (r, lane\<lparr>m_nHighestSeenMsgNum := hi\<rparr>, q)
        else let lane' = lane\<lparr>m_nHighestSeenMsgNum := hi, m_nReliableStreamPos := m_nReliableStreamPos lane + (p + sz),
            m_nLastRecvReliableMsgNum := num, m_bufReliableStream := drop (nat (p + sz)) (m_bufReliableStream lane)\<rparr>
          in if 0 < n - (p + sz) then Dispatch cfg idx (n - (p + sz)) lane' q else Some (Accepted, lane', q)
      })"
proof -
  define lane1 where "lane1 = (if num > m_nHighestSeenMsgNum lane then lane\<lparr>m_nHighestSeenMsgNum := num\<rparr> else lane)"
  have l1: "lane1 = lane\<lparr>m_nHighestSeenMsgNum := hi\<rparr>"
    unfolding lane1_def hi_def by (cases lane) (simp add: max_def)
  show ?thesis
    by (subst Dispatch.simps,
      simp only: assms(1-4) Option.bind.simps Let_def parsed.case if_False not_not simp_thms lane1_def [symmetric]
        assms(5) [symmetric] l1,
      cases lane)
      (auto simp: Let_def algebra_simps intro!: arg_cong [where f = "Option.bind _"] ext)
qed

lemma Dispatch_one:
  assumes m: "fst m - m_nLastRecvReliableMsgNum lane = g" "1 \<le> g" "g < 2 ^ 63" "int (length (snd m)) < 2 ^ 31"
    and LH: "m_nLastRecvReliableMsgNum lane \<le> m_nHighestSeenMsgNum lane"
    and N: "0 < N" "N \<le> length (m_bufReliableStream lane)"
      "take N (m_bufReliableStream lane) = take N (wire (m_nLastRecvReliableMsgNum lane) m @ rest)"
      "N \<le> length (wire (m_nLastRecvReliableMsgNum lane) m @ rest)"
    and q: "\<forall>m' \<in> set (lane_msgs idx q). m_nMessageNumber m' \<le> m_nLastRecvReliableMsgNum lane"
  shows "(\<exists>r hi. Dispatch cfg idx (int N) lane q = Some (r, lane\<lparr>m_nHighestSeenMsgNum := hi\<rparr>, q) \<and>
      m_nHighestSeenMsgNum lane \<le> hi \<and>
      (r = Accepted \<longrightarrow> N < length (wire (m_nLastRecvReliableMsgNum lane) m)) \<and>
      (r = Problem \<longrightarrow> refused cfg (m_nLastRecvReliableMsgNum lane) m)) \<or>
    (\<exists>q' hi. length (wire (m_nLastRecvReliableMsgNum lane) m) \<le> N \<and>
      m_nHighestSeenMsgNum lane \<le> hi \<and> fst m \<le> hi \<and>
      lane_msgs idx q' = lane_msgs idx q @ [to_message idx m] \<and>
      Dispatch cfg idx (int N) lane q =
        (let lane' = advance hi (fst m) (length (wire (m_nLastRecvReliableMsgNum lane) m)) lane;
             N' = N - length (wire (m_nLastRecvReliableMsgNum lane) m)
         in if 0 < N' then Dispatch cfg idx (int N') lane' q' else Some (Accepted, lane', q')))"
proof -
  define L H buf z where "L = m_nLastRecvReliableMsgNum lane" and "H = m_nHighestSeenMsgNum lane"
    and "buf = m_bufReliableStream lane" and "z = int (length (snd m))"
  note defs = L_def [symmetric] H_def [symmetric] buf_def [symmetric] z_def [symmetric]
  have z: "0 \<le> z" "z < 2 ^ 31" using m(4) by (simp_all add: z_def)
  obtain h where h: "ReliableHeader g z = h # gap_bytes g @ size_bytes z"
    "\<And>i. i < 5 \<Longrightarrow> bit h i = bit z i" "bit h 5 \<longleftrightarrow> 0x20 \<le> z" "bit h 6 \<longleftrightarrow> 1 < g" "\<not> bit h 7"
    using header_byte [OF z(1), of g] by metis
  have w: "wire L m = h # gap_bytes g @ size_bytes z @ snd m" using m(1) h(1) by (simp add: wire_def defs)
  define K where "K = 1 + length (gap_bytes g) + length (size_bytes z)"
  have lw: "length (wire L m) = K + length (snd m)" by (simp add: w K_def)
  define bs where "bs = take (N - 1) (gap_bytes g @ (size_bytes z @ snd m @ rest))"
  have t: "take N buf = h # bs" using N(1,3) by (cases N) (simp_all add: bs_def w defs)
  then have b0: "get_at buf 0 = Some h" using N(1,2) by (cases buf) (auto simp: get_at_def defs take_Cons' split: if_splits)
  have bs': "drop (Suc 0) (take N buf) = bs" using t by simp
  have h7: "h AND 0x80 = 0" using h(5) byte_tests(3) [of h] by simp
  define D where "D = Dispatch cfg idx (int N) lane q"
  define k where "k = N - 1 - length (gap_bytes g)"
  define B1 where "B1 = take k (size_bytes z @ snd m @ rest)"
  have f: "fst m = L + g" using m(1) by (simp add: L_def)
  have num: "decode_msg_num lane h bs = Some (
      if N - 1 < length (gap_bytes g) then Parse_incomplete
      else if g > 1 \<and> (g > 1000000 \<or> L + g > H + 10000) then Parse_problem
      else Parsed (fst m) B1)"
    unfolding bs_def B1_def k_def f unfolding L_def H_def by (rule decode_num_prefix [OF h(4) m(2,3)])
  have size: "decode_msg_size cfg h B1 = Some (
      if k < length (size_bytes z) then Parse_incomplete
      else if too_large cfg z then Parse_problem
      else Parsed z (take (k - length (size_bytes z)) (snd m @ rest)))"
    unfolding B1_def using h(2,3) z by (rule decode_size_prefix)
  have same: "lane\<lparr>m_nHighestSeenMsgNum := H\<rparr> = lane" by (simp add: H_def)
  define hi where "hi = max H (fst m)"
  define lane1 where "lane1 = lane\<lparr>m_nHighestSeenMsgNum := hi\<rparr>"
  have l1: "(if fst m > H then lane\<lparr>m_nHighestSeenMsgNum := fst m\<rparr> else lane) = lane1"
    using same by (auto simp: lane1_def hi_def max_def)
  have hi: "H \<le> hi" "fst m \<le> hi" by (simp_all add: hi_def)
  consider (a) "N - 1 < length (gap_bytes g)"
    | (b) "\<not> N - 1 < length (gap_bytes g)" "g > 1 \<and> (g > 1000000 \<or> L + g > H + 10000)"
    | (c) "decode_msg_num lane h bs = Some (Parsed (fst m) B1)"
        "\<not> N - 1 < length (gap_bytes g)"
    using num by (auto split: if_splits)
  then show ?thesis
  proof cases
    case a
    then have "D = Some (Accepted, lane, q)"
      unfolding D_def by (subst Dispatch.simps) (simp add: defs b0 bs' h7 num)
    moreover have "N < length (wire L m)" using a N(1) by (simp add: lw K_def)
    ultimately show ?thesis using same unfolding D_def by (intro disjI1 exI [of _ Accepted] exI [of _ H]) (simp add: defs)
  next
    case b
    then have "D = Some (Problem, lane, q)"
      unfolding D_def by (subst Dispatch.simps) (simp add: defs b0 bs' h7 num)
    moreover have "10000 < fst m - L" using b(2) LH f by (auto simp: defs)
    moreover from this have "refused cfg L m" by (simp add: refused_def)
    ultimately show ?thesis using same unfolding D_def by (intro disjI1 exI [of _ Problem] exI [of _ H]) (simp add: defs)
  next
    case c
    show ?thesis
    proof (cases "k < length (size_bytes z) \<or> too_large cfg z")
      case True
      define r where "r = (if k < length (size_bytes z) then Accepted else Problem)"
      have "D = Some (r, lane1, q)"
        unfolding D_def using True
        by (subst Dispatch.simps) (auto simp: defs b0 bs' h7 c(1) l1 size r_def)
      moreover have "N < length (wire L m)" if "r = Accepted"
        using that N(1) c(2) by (auto simp: r_def k_def lw K_def split: if_splits)
      moreover have "refused cfg L m" if "r = Problem"
        using that True by (auto simp: r_def refused_def z_def split: if_splits)
      ultimately show ?thesis using hi unfolding D_def lane1_def by (intro disjI1 exI [of _ r] exI [of _ hi]) (simp add: defs)
    next
      case False
      then have K: "K \<le> N" "k - length (size_bytes z) = N - K"
        using c(2) N(1) by (auto simp: k_def K_def)
      define bs2 where "bs2 = take (N - K) (snd m @ rest)"
      have size: "decode_msg_size cfg h B1 = Some (Parsed z bs2)"
        using size False unfolding K(2) bs2_def by simp
      have "length (snd m @ rest) = length (wire L m @ rest) - K" by (simp add: lw)
      then have "length bs2 = N - K" using N(4) by (simp add: bs2_def defs)
      moreover have "length bs = N - 1" using t N(1,2) by (metis defs(3) length_Cons length_take min.absorb2 diff_Suc_1)
      ultimately have pd: "1 + int (length bs - length bs2) = int K" using K(1) N(1) by (simp add: K_def)
      have buf1: "m_bufReliableStream lane1 = buf" by (simp add: lane1_def buf_def)
      have eval: "D = (if int K + z > int N then Some (Accepted, lane1, q)
          else do {
            (r, q) \<leftarrow> ReceivedMessageData cfg (drop K buf) z idx (fst m) k_nSteamNetworkingSend_Reliable q;
            if r \<noteq> Accepted then Some (r, lane1, q)
            else let lane' = advance hi (fst m) (length (wire L m)) lane
              in if 0 < int N - (int K + z) then Dispatch cfg idx (int N - (int K + z)) lane' q else Some (Accepted, lane', q)
          })"
      proof -
        have s: "m_bufReliableStream lane = buf" "m_nHighestSeenMsgNum lane = H" by (simp_all add: defs)
        have p: "int K = 1 + int (length (drop 1 (take (nat (int N)) (m_bufReliableStream lane))) - length bs2)"
          unfolding s by (simp add: bs' pd)
        have d1: "decode_msg_num lane h (drop 1 (take (nat (int N)) (m_bufReliableStream lane))) = Some (Parsed (fst m) B1)"
          unfolding s by (simp add: bs' c(1))
        have b: "get_at (m_bufReliableStream lane) 0 = Some h" unfolding s by (rule b0)
        have w': "int K + z = int (length (wire L m))" by (simp add: lw z_def)
        have a: "lane\<lparr>m_nHighestSeenMsgNum := hi, m_nReliableStreamPos := m_nReliableStreamPos lane + (int K + z),
            m_nLastRecvReliableMsgNum := fst m, m_bufReliableStream := drop (nat (int K + z)) (m_bufReliableStream lane)\<rparr> =
            advance hi (fst m) (length (wire L m)) lane"
          unfolding w' nat_int advance_def ..
        show ?thesis
          unfolding D_def Dispatch_parsed [OF b h7 d1 size p] s(2) hi_def [symmetric] a lane1_def
          by (simp add: s(1))
      qed
      show ?thesis
      proof (cases "int K + z > int N")
        case True
        then have "N < length (wire L m)" by (simp add: lw z_def)
        with True eval hi show ?thesis unfolding D_def lane1_def
          by (intro disjI1 exI [of _ Accepted] exI [of _ hi]) (simp add: defs)
      next
        case fits: False
        then have W: "length (wire L m) \<le> N" "int N - (int K + z) = int (N - length (wire L m))"
          by (simp_all add: lw z_def)
        have tb: "take N buf = take N (wire L m @ rest)" "N \<le> length buf" using N(2,3) by (simp_all add: defs)
        then have "take (length (wire L m)) buf = wire L m"
          using W(1) by (metis append_eq_conv_conj min.absorb1 take_take)
        then have "take (length (snd m)) (drop K buf) = drop K (wire L m)"
          by (metis add.commute lw take_drop)
        also have "\<dots> = snd m" by (simp add: w K_def)
        finally have msg: "\<lparr>m_idxLane = idx, m_nMessageNumber = fst m, m_nFlags = k_nSteamNetworkingSend_Reliable,
            m_pData = take (nat z) (drop K buf)\<rparr> = to_message idx m"
          by (simp add: to_message_def z_def)
        have mem: "0 \<le> z \<and> z \<le> int (length (drop K buf))" using z(1) fits tb(2) by simp
        obtain ok q' where rm: "ReceivedMessage cfg (to_message idx m) q = (ok, q')" by fastforce
        define a where "a = AllocateNewRecvMessage cfg (word_of_int z) q"
        have data: "ReceivedMessageData cfg (drop K buf) z idx (fst m) k_nSteamNetworkingSend_Reliable q =
            Some (if a = Accepted then (if ok then Accepted else Rejected, q') else (a, q))"
          using mem by (simp add: ReceivedMessageData_def a_def [symmetric] msg rm split: segment_result.split)
        show ?thesis
        proof (cases "a = Accepted \<and> ok")
          case True
          have "lane_msgs idx q' = lane_msgs idx q @ [to_message idx m]"
          proof (rule ReceivedMessage_lane)
            show "ReceivedMessage cfg (to_message idx m) q = (True, q')" using rm True by simp
            show "\<forall>m' \<in> set (lane_msgs idx q). m_nMessageNumber m' \<le> m_nMessageNumber (to_message idx m)"
              using q m(2) f by (fastforce simp: to_message_def defs)
          qed (simp_all add: to_message_def)
          moreover have "D = (let lane' = advance hi (fst m) (length (wire L m)) lane; N' = N - length (wire L m)
              in if 0 < N' then Dispatch cfg idx (int N') lane' q' else Some (Accepted, lane', q'))"
            using fits data True W(1) unfolding eval W(2) by (simp add: Let_def)
          ultimately show ?thesis using W(1) hi unfolding D_def by (intro disjI2 exI [of _ q'] exI [of _ hi]) (simp add: defs)
        next
          case False
          define r where "r = (if a = Accepted then Rejected else a)"
          have "q' = q" if "\<not> ok" using ReceivedMessage_result [OF rm] that by simp
          then have "D = Some (r, lane1, q)" using fits data False unfolding eval by (auto simp: r_def)
          moreover have "refused cfg L m" if "r = Problem"
            using that by (auto simp: r_def a_def AllocateNewRecvMessage_def refused_def z_def split: if_splits)
          moreover have "r \<noteq> Accepted" by (simp add: r_def)
          ultimately show ?thesis using hi unfolding D_def lane1_def by (intro disjI1 exI [of _ r] exI [of _ hi]) (simp add: defs)
        qed
      qed
    qed
  qed
qed

text \<open>All of them: some messages are delivered, and what stops it is a message that is not complete, or a result other than
  \<open>Accepted\<close>.\<close>

lemma well_sent_mono: "well_sent prev ms \<Longrightarrow> prev \<le> last_num prev ms"
  by (induction ms arbitrary: prev) force+

lemma Dispatch_stream:
  assumes "well_sent (m_nLastRecvReliableMsgNum lane) ms"
    "m_nLastRecvReliableMsgNum lane \<le> m_nHighestSeenMsgNum lane"
    "0 < N" "N \<le> length (m_bufReliableStream lane)"
    "take N (m_bufReliableStream lane) = take N (stream_of (m_nLastRecvReliableMsgNum lane) ms)"
    "N \<le> length (stream_of (m_nLastRecvReliableMsgNum lane) ms)"
    "\<forall>m' \<in> set (lane_msgs idx q). m_nMessageNumber m' \<le> m_nLastRecvReliableMsgNum lane"
  shows "\<exists>r ms1 ms2 hi q'. ms = ms1 @ ms2 \<and>
    Dispatch cfg idx (int N) lane q = Some (r, advance hi (last_num (m_nLastRecvReliableMsgNum lane) ms1)
      (length (stream_of (m_nLastRecvReliableMsgNum lane) ms1)) lane, q') \<and>
    length (stream_of (m_nLastRecvReliableMsgNum lane) ms1) \<le> N \<and>
    m_nHighestSeenMsgNum lane \<le> hi \<and> last_num (m_nLastRecvReliableMsgNum lane) ms1 \<le> hi \<and>
    lane_msgs idx q' = lane_msgs idx q @ map (to_message idx) ms1 \<and>
    (r = Accepted \<longrightarrow> no_complete (last_num (m_nLastRecvReliableMsgNum lane) ms1) ms2
      (N - length (stream_of (m_nLastRecvReliableMsgNum lane) ms1))) \<and>
    (r = Problem \<longrightarrow> \<not> sendable cfg (m_nLastRecvReliableMsgNum lane) ms)"
  using assms
proof (induction ms arbitrary: lane N q)
  case Nil
  then show ?case by simp
next
  case (Cons m ms)
  define L where "L = m_nLastRecvReliableMsgNum lane"
  define W where "W = length (wire L m)"
  note p = Cons.prems [folded L_def]
  have one: "(\<exists>r hi. Dispatch cfg idx (int N) lane q = Some (r, lane\<lparr>m_nHighestSeenMsgNum := hi\<rparr>, q) \<and>
      m_nHighestSeenMsgNum lane \<le> hi \<and> (r = Accepted \<longrightarrow> N < W) \<and> (r = Problem \<longrightarrow> refused cfg L m)) \<or>
    (\<exists>q' hi. W \<le> N \<and> m_nHighestSeenMsgNum lane \<le> hi \<and> fst m \<le> hi \<and>
      lane_msgs idx q' = lane_msgs idx q @ [to_message idx m] \<and>
      Dispatch cfg idx (int N) lane q =
        (let lane' = advance hi (fst m) W lane; N' = N - W
         in if 0 < N' then Dispatch cfg idx (int N') lane' q' else Some (Accepted, lane', q')))"
    unfolding W_def L_def
    by (rule Dispatch_one [OF refl, where rest = "stream_of (fst m) ms"])
      (use Cons.prems in \<open>auto simp: L_def\<close>)
  then consider (stop) r hi where "Dispatch cfg idx (int N) lane q = Some (r, lane\<lparr>m_nHighestSeenMsgNum := hi\<rparr>, q)"
      "m_nHighestSeenMsgNum lane \<le> hi" "r = Accepted \<longrightarrow> N < W" "r = Problem \<longrightarrow> refused cfg L m"
    | (more) q' hi where "W \<le> N" "m_nHighestSeenMsgNum lane \<le> hi" "fst m \<le> hi"
      "lane_msgs idx q' = lane_msgs idx q @ [to_message idx m]"
      "Dispatch cfg idx (int N) lane q =
        (let lane' = advance hi (fst m) W lane; N' = N - W
         in if 0 < N' then Dispatch cfg idx (int N') lane' q' else Some (Accepted, lane', q'))"
    by blast
  then show ?case
  proof cases
    case stop
    have "lane\<lparr>m_nHighestSeenMsgNum := hi\<rparr> = advance hi L 0 lane" by (cases lane) (simp add: advance_def L_def)
    then show ?thesis using stop p(2)
      by (intro exI [of _ r] exI [of _ "[]"] exI [of _ "m # ms"] exI [of _ hi] exI [of _ q])
        (auto simp: L_def [symmetric] W_def no_complete_def)
  next
    case more
    define lane' where "lane' = advance hi (fst m) W lane"
    define N' where "N' = N - W"
    have l': "m_nLastRecvReliableMsgNum lane' = fst m" "m_nHighestSeenMsgNum lane' = hi"
      "m_bufReliableStream lane' = drop W (m_bufReliableStream lane)" by (simp_all add: lane'_def)
    have q': "\<forall>m' \<in> set (lane_msgs idx q'). m_nMessageNumber m' \<le> fst m"
      using more(4) p(1,7) by (auto simp: to_message_def)
    show ?thesis
    proof (cases "0 < N'")
      case False
      then have e: "Dispatch cfg idx (int N) lane q = Some (Accepted, lane', q')" "N = W"
        using more(1,5) by (simp_all add: N'_def lane'_def Let_def)
      have "no_complete (fst m) ms 0" by (cases ms) (simp_all add: no_complete_def)
      then show ?thesis using e more p
        by (intro exI [of _ Accepted] exI [of _ "[m]"] exI [of _ ms] exI [of _ hi] exI [of _ q'])
          (simp add: L_def [symmetric] W_def lane'_def)
    next
      case True
      have e: "Dispatch cfg idx (int N) lane q = Dispatch cfg idx (int N') lane' q'"
        using more(5) True by (simp add: N'_def lane'_def Let_def)
      have t: "take N' (m_bufReliableStream lane') = take N' (stream_of (fst m) ms)"
      proof -
        have "take N' (m_bufReliableStream lane') = drop W (take N (m_bufReliableStream lane))"
          by (simp add: l' N'_def drop_take)
        also have "\<dots> = take N' (stream_of (fst m) ms)"
          unfolding p(5) drop_take N'_def [symmetric] by (simp add: W_def)
        finally show ?thesis .
      qed
      have len: "N' \<le> length (m_bufReliableStream lane')" "N' \<le> length (stream_of (fst m) ms)"
        using p(4,6) by (auto simp: l' N'_def W_def)
      have ws: "well_sent (m_nLastRecvReliableMsgNum lane') ms" using p(1) by (simp add: l')
      obtain r ms1 ms2 hi2 q2 where d: "ms = ms1 @ ms2"
        "Dispatch cfg idx (int N') lane' q' = Some (r, advance hi2 (last_num (fst m) ms1) (length (stream_of (fst m) ms1)) lane', q2)"
        "length (stream_of (fst m) ms1) \<le> N'" "hi \<le> hi2" "last_num (fst m) ms1 \<le> hi2"
        "lane_msgs idx q2 = lane_msgs idx q' @ map (to_message idx) ms1"
        "r = Accepted \<longrightarrow> no_complete (last_num (fst m) ms1) ms2 (N' - length (stream_of (fst m) ms1))"
        "r = Problem \<longrightarrow> \<not> sendable cfg (fst m) ms"
        using Cons.IH [of lane' N' q'] ws more(3) True t len q' unfolding l' by blast
      have "advance hi2 (last_num (fst m) ms1) (length (stream_of (fst m) ms1)) lane' =
          advance hi2 (last_num L (m # ms1)) (length (stream_of L (m # ms1))) lane"
        by (simp add: lane'_def advance_advance W_def)
      then have "Dispatch cfg idx (int N) lane q =
          Some (r, advance hi2 (last_num L (m # ms1)) (length (stream_of L (m # ms1))) lane, q2)"
        using e d(2) by simp
      then show ?thesis unfolding L_def [symmetric] using d more(1,2,4)
        by (intro exI [of _ r] exI [of _ "m # ms1"] exI [of _ ms2] exI [of _ hi2] exI [of _ q2])
          (auto simp: W_def N'_def)
    qed
  qed
qed

end
