(* ===== verification/SnpStream.thy ===== *)
theory SnpStream
  imports SnpDispatch
begin

text \<open>
  The reliable stream from end to end. The sender cuts the stream of a lane into segments and
  sends each as often as it is lost, always with the same bounds; they arrive in any order,
  any number of times. What \<open>SNP_ReceiveReliableSegment\<close> makes of them: the application gets the messages of the
  lane in the order they were sent, each once, and gets each of which all bytes were acknowledged,
  unless a segment was refused.
\<close>

subsection \<open>Gaps\<close>

definition gaps_ok :: "int \<Rightarrow> int \<Rightarrow> (int \<times> int) list \<Rightarrow> bool" where
  "gaps_ok lo hi gs \<longleftrightarrow> sorted_wrt (\<lambda>g g'. snd g < fst g') gs \<and> (\<forall>g \<in> set gs. lo \<le> fst g \<and> fst g < snd g \<and> snd g < hi)"

definition in_gap :: "(int \<times> int) list \<Rightarrow> int \<Rightarrow> bool" where
  "in_gap gs p \<longleftrightarrow> (\<exists>g \<in> set gs. fst g \<le> p \<and> p < snd g)"

text \<open>A segment is in one gap or meets none.\<close>

definition whole :: "int \<Rightarrow> int \<Rightarrow> (int \<times> int) list \<Rightarrow> bool" where
  "whole b e gs \<longleftrightarrow> (\<forall>g \<in> set gs. e \<le> fst g \<or> snd g \<le> b \<or> fst g \<le> b \<and> e \<le> snd g)"

lemma in_gap_simps [simp]:
  "\<not> in_gap [] p" "in_gap (g # gs) p \<longleftrightarrow> fst g \<le> p \<and> p < snd g \<or> in_gap gs p"
  "in_gap (gs @ gs') p \<longleftrightarrow> in_gap gs p \<or> in_gap gs' p"
  by (auto simp: in_gap_def)

lemma whole_simps [simp]:
  "whole b e []" "whole b e (gs @ gs') \<longleftrightarrow> whole b e gs \<and> whole b e gs'"
  "whole b e (g # gs) \<longleftrightarrow> (e \<le> fst g \<or> snd g \<le> b \<or> fst g \<le> b \<and> e \<le> snd g) \<and> whole b e gs"
  by (auto simp: whole_def)

lemma gaps_ok_Nil [simp]: "gaps_ok lo hi []"
  by (simp add: gaps_ok_def)

lemma gaps_ok_Cons [simp]:
  "gaps_ok lo hi (g # gs) \<longleftrightarrow> lo \<le> fst g \<and> fst g < snd g \<and> snd g < hi \<and> gaps_ok (snd g + 1) hi gs"
  by (fastforce simp: gaps_ok_def)

lemma gaps_ok_append:
  "gaps_ok lo hi (gs @ g # gs') \<longleftrightarrow> gaps_ok lo (fst g) gs \<and> gaps_ok lo hi (g # gs')"
  by (fastforce simp: gaps_ok_def sorted_wrt_append)

lemma gaps_ok_mono: "gaps_ok lo hi gs \<Longrightarrow> lo' \<le> lo \<Longrightarrow> hi \<le> hi' \<Longrightarrow> gaps_ok lo' hi' gs"
  by (fastforce simp: gaps_ok_def)

lemma gaps_ok_before:
  "gaps_ok lo hi (gs @ g # gs') \<Longrightarrow> x \<in> set gs \<Longrightarrow> lo \<le> fst x \<and> fst x < snd x \<and> snd x < fst g"
  by (auto simp: gaps_ok_def sorted_wrt_append)

lemma gap_upper_bound_split:
  assumes "gaps_ok lo hi (gs1 @ g # gs2)" "fst g \<le> k" "k < snd g"
  shows "gap_upper_bound k (gs1 @ g # gs2) = Suc (length gs1)"
proof -
  have "takeWhile (\<lambda>g. fst g \<le> k) (gs1 @ g # gs2) = gs1 @ takeWhile (\<lambda>g. fst g \<le> k) (g # gs2)"
    using assms by (intro takeWhile_append2) (force dest: gaps_ok_before)
  also have "takeWhile (\<lambda>g. fst g \<le> k) (g # gs2) = [g]"
    using assms by (cases gs2) (auto simp: gaps_ok_def sorted_wrt_append)
  finally show ?thesis by (simp add: gap_upper_bound_def)
qed

lemma map_set_append:
  "gaps_ok lo k gs \<Longrightarrow> map_set k v (gs @ gs') = gs @ map_set k v gs'"
  by (induction gs arbitrary: lo) auto

lemma map_set_front: "gaps_ok lo hi gs \<Longrightarrow> k < lo \<Longrightarrow> map_set k v gs = (k, v) # gs"
  by (cases gs) auto

text \<open>Filling a gap with a segment inside: what is left of the gap, or nothing happens when there
  are too many.\<close>

definition pieces :: "int \<Rightarrow> int \<Rightarrow> int \<times> int \<Rightarrow> (int \<times> int) list" where
  "pieces b e g = filter (\<lambda>g. fst g < snd g) [(fst g, b), (e, snd g)]"

lemma fill_inside:
  assumes "gaps_ok lo hi (gs1 @ g # gs2)" "fst g \<le> b" "b < e" "e \<le> snd g"
  shows "fill_stream_gaps b e (gs1 @ g # gs2) =
    (if fst g < b \<and> e < snd g \<and> Suc (length gs1 + length gs2) \<ge> k_nMaxReliableStreamGaps_Fragment
     then Some (False, gs1 @ g # gs2) else Some (True, gs1 @ pieces b e g @ gs2))"
proof -
  obtain f s where g: "g = (f, s)" by force
  have nxt: "\<not> (gs2 \<noteq> [] \<and> fst (gs2 ! 0) < e)"
    using assms(1,4) by (cases gs2) (auto simp: gaps_ok_append g)
  have "fill_stream_gaps b e (gs1 @ g # gs2) = fill_loop (length gs1) b e (gs1 @ g # gs2)"
    using gap_upper_bound_split [OF assms(1), of b] assms by (simp add: fill_stream_gaps_def)
  also have "\<dots> = (if f < b \<and> e < s \<and> Suc (length gs1 + length gs2) \<ge> k_nMaxReliableStreamGaps_Fragment
     then Some (False, gs1 @ g # gs2) else Some (True, gs1 @ pieces b e g @ gs2))"
  proof -
    consider "b = f" "e < s" | "b = f" "e = s" | "f < b" "e = s" | "f < b" "e < s" using assms(2,4) g by fastforce
    then show ?thesis
    proof cases
      case 4
      have "gaps_ok lo e (gs1 @ [(f, b)])" using assms 4 by (auto simp: gaps_ok_append g intro: gaps_ok_mono)
      then have "map_set e s (gs1 @ (f, b) # gs2) = gs1 @ (f, b) # map_set e s gs2"
        using map_set_append [of lo e "gs1 @ [(f, b)]"] by simp
      also have "map_set e s gs2 = (e, s) # gs2"
        using assms 4 by (intro map_set_front [where lo = "s + 1" and hi = hi]) (auto simp: gaps_ok_append g)
      finally show ?thesis using 4 assms(3)
        by (subst fill_loop.simps) (simp add: g pieces_def)
    qed (use nxt assms(3) in \<open>subst fill_loop.simps, auto simp: g pieces_def nth_append\<close>)+
  qed
  finally show ?thesis by (simp add: g)
qed

text \<open>A segment that meets no gap changes none.\<close>

lemma fill_outside:
  assumes "gaps_ok lo hi gs" "\<And>p. b \<le> p \<Longrightarrow> p < e \<Longrightarrow> \<not> in_gap gs p" "b < e"
  shows "fill_stream_gaps b e gs = Some (True, gs)"
proof (cases "gap_upper_bound b gs")
  case (Suc i)
  define ts where "ts = takeWhile (\<lambda>g. fst g \<le> b) gs"
  have l: "length ts = Suc i" using Suc by (simp add: ts_def gap_upper_bound_def)
  then have t: "ts ! i \<in> set ts" "ts ! i = gs ! i" by (simp, simp add: ts_def takeWhile_nth)
  then have "fst (gs ! i) \<le> b" "gs ! i \<in> set gs" unfolding ts_def by (metis set_takeWhileD)+
  moreover have "\<not> in_gap gs b" using assms(2) [of b] assms(3) by simp
  ultimately have "\<not> b < snd (gs ! i)" by (auto simp: in_gap_def)
  then show ?thesis by (simp add: fill_stream_gaps_def Suc)
qed (simp add: fill_stream_gaps_def)

text \<open>What filling keeps.\<close>

lemma pieces_in_gap: "fst g \<le> b \<Longrightarrow> b < e \<Longrightarrow> e \<le> snd g \<Longrightarrow>
  in_gap (pieces b e g) p \<longleftrightarrow> fst g \<le> p \<and> p < snd g \<and> \<not> (b \<le> p \<and> p < e)"
  by (auto simp: pieces_def)

lemma gaps_ok_pieces:
  assumes "gaps_ok lo hi (gs1 @ g # gs2)" "fst g \<le> b" "b < e" "e \<le> snd g"
  shows "gaps_ok lo hi (gs1 @ pieces b e g @ gs2)"
proof -
  have 1: "gaps_ok lo (fst g) gs1" and 2: "lo \<le> fst g" "fst g < snd g" "snd g < hi" "gaps_ok (snd g + 1) hi gs2"
    using assms(1) by (auto simp: gaps_ok_append)
  consider "b = fst g" "e < snd g" | "b = fst g" "e = snd g" | "fst g < b" "e = snd g" | "fst g < b" "e < snd g"
    using assms(2,4) by fastforce
  then show ?thesis
  proof cases
    case 1
    then show ?thesis using assms(3) 2 gaps_ok_mono [OF \<open>gaps_ok lo (fst g) gs1\<close>, of lo e]
      by (simp add: pieces_def gaps_ok_append)
  next
    case c: 2
    then show ?thesis
    proof (cases gs2)
      case Nil
      with c 2 gaps_ok_mono [OF 1, of lo hi] show ?thesis by (simp add: pieces_def)
    next
      case (Cons g' gs')
      with c 2 gaps_ok_mono [OF 1, of lo "fst g'"] show ?thesis by (simp add: pieces_def gaps_ok_append)
    qed
  next
    case 3
    then show ?thesis using assms(3) 1 2 gaps_ok_mono [OF 2(4), of "b + 1" hi]
      by (simp add: pieces_def gaps_ok_append)
  next
    case 4
    then show ?thesis using assms(3) 1 2 by (simp add: pieces_def gaps_ok_append)
  qed
qed

lemma whole_pieces:
  assumes "whole b' e' (gs1 @ g # gs2)" "fst g \<le> b" "b < e" "e \<le> snd g" "b' < e'"
    "(b', e') = (b, e) \<or> e' \<le> b \<or> e \<le> b'"
  shows "whole b' e' (gs1 @ pieces b e g @ gs2)"
  using assms by (auto simp: pieces_def)

subsection \<open>The lane\<close>

text \<open>Positions count from 1. \<open>S\<close> is the whole stream.\<close>

definition stream_end :: "Lane \<Rightarrow> int" where
  "stream_end lane = m_nReliableStreamPos lane + int (length (m_bufReliableStream lane))"

definition has_byte :: "Lane \<Rightarrow> int \<Rightarrow> bool" where
  "has_byte lane p \<longleftrightarrow> p < m_nReliableStreamPos lane \<or> p < stream_end lane \<and> \<not> in_gap (m_mapReliableStreamGaps lane) p"

definition seg_bytes :: "byte list \<Rightarrow> int \<Rightarrow> int \<Rightarrow> byte list" where
  "seg_bytes S b e = take (nat (e - b)) (drop (nat (b - 1)) S)"

text \<open>Segments of a stream of \<open>n\<close> bytes: no two of them overlap.\<close>

definition segments_ok :: "(int \<times> int) set \<Rightarrow> nat \<Rightarrow> bool" where
  "segments_ok Segs n \<longleftrightarrow> (\<forall>s \<in> Segs. 1 \<le> fst s \<and> fst s < snd s \<and> snd s \<le> 1 + int n) \<and>
     (\<forall>s \<in> Segs. \<forall>t \<in> Segs. s = t \<or> snd s \<le> fst t \<or> snd t \<le> fst s)"

definition stream_lane :: "byte list \<Rightarrow> (int \<times> int) set \<Rightarrow> Lane \<Rightarrow> bool" where
  "stream_lane S Segs lane \<longleftrightarrow> 1 \<le> m_nReliableStreamPos lane \<and> stream_end lane \<le> 1 + int (length S) \<and>
     gaps_ok (m_nReliableStreamPos lane) (stream_end lane) (m_mapReliableStreamGaps lane) \<and>
     (\<forall>p. m_nReliableStreamPos lane \<le> p \<and> has_byte lane p \<longrightarrow>
        m_bufReliableStream lane ! nat (p - m_nReliableStreamPos lane) = S ! nat (p - 1)) \<and>
     (\<forall>s \<in> Segs. whole (fst s) (snd s) (m_mapReliableStreamGaps lane) \<and> (stream_end lane \<le> fst s \<or> snd s \<le> stream_end lane))"

lemma length_seg_bytes: "1 \<le> b \<Longrightarrow> b \<le> e \<Longrightarrow> e \<le> 1 + int (length S) \<Longrightarrow> length (seg_bytes S b e) = nat (e - b)"
  by (auto simp: seg_bytes_def)

lemma nth_seg_bytes:
  assumes "1 \<le> b" "b \<le> p" "p < e" "e \<le> 1 + int (length S)"
  shows "seg_bytes S b e ! nat (p - b) = S ! nat (p - 1)"
proof -
  have "nat (b - 1) + nat (p - b) = nat (p - 1)" "nat (p - b) < nat (e - b)" "nat (b - 1) \<le> length S" using assms by auto
  then show ?thesis by (simp add: seg_bytes_def)
qed

lemma drop_seg_bytes: "1 \<le> b \<Longrightarrow> b \<le> b' \<Longrightarrow> drop (nat (b' - b)) (seg_bytes S b e) = seg_bytes S b' e"
proof -
  assume "1 \<le> b" "b \<le> b'"
  then have "nat (e - b) - nat (b' - b) = nat (e - b')" "nat (b' - b) + nat (b - 1) = nat (b' - 1)" by arith+
  then show ?thesis by (simp add: seg_bytes_def drop_take)
qed

lemma store_nth:
  "k + length xs \<le> length c \<Longrightarrow> i < length c \<Longrightarrow>
   (take k c @ xs @ drop (k + length xs) c) ! i = (if k \<le> i \<and> i < k + length xs then xs ! (i - k) else c ! i)"
  by (auto simp: nth_append min_def)

text \<open>Writing a segment into the buffer, when the gaps are already without it.\<close>

lemma store_segment:
  assumes pos: "pos = m_nReliableStreamPos lane" and b: "1 \<le> b" "pos \<le> b" "b \<le> e" "e \<le> stream_end lane"
    "e \<le> 1 + int (length S)"
    and old: "\<And>p. pos \<le> p \<Longrightarrow> p < stream_end lane \<Longrightarrow> \<not> in_gap gs p \<Longrightarrow> \<not> (b \<le> p \<and> p < e) \<Longrightarrow>
      m_bufReliableStream lane ! nat (p - pos) = S ! nat (p - 1)"
  obtains buf where
    "store_range (b - pos) (seg_bytes S b e) (m_bufReliableStream lane) = Some buf"
    "length buf = length (m_bufReliableStream lane)"
    "\<And>p. pos \<le> p \<Longrightarrow> p < stream_end lane \<Longrightarrow> \<not> in_gap gs p \<Longrightarrow> buf ! nat (p - pos) = S ! nat (p - 1)"
proof -
  define k xs c where "k = nat (b - pos)" and "xs = seg_bytes S b e" and "c = m_bufReliableStream lane"
  have l: "length xs = nat (e - b)" using b by (simp add: xs_def length_seg_bytes)
  have fit: "k + length xs \<le> length c" using b by (simp add: l k_def c_def stream_end_def pos)
  have "store_range (b - pos) xs c = Some (take k c @ xs @ drop (k + length xs) c)"
    using b fit l unfolding k_def by (intro store_range_Some) auto
  moreover have "length (take k c @ xs @ drop (k + length xs) c) = length c" using fit by simp
  moreover have "(take k c @ xs @ drop (k + length xs) c) ! nat (p - pos) = S ! nat (p - 1)"
    if p: "pos \<le> p" "p < stream_end lane" "\<not> in_gap gs p" for p
  proof -
    have i: "nat (p - pos) < length c" using p by (simp add: c_def stream_end_def pos)
    show ?thesis
    proof (cases "b \<le> p \<and> p < e")
      case True
      then have "k \<le> nat (p - pos)" "nat (p - pos) < k + length xs" "nat (p - pos) - k = nat (p - b)"
        using b(2) by (auto simp: k_def l)
      then show ?thesis using store_nth [OF fit i] nth_seg_bytes [of b p e S] True b by (simp add: xs_def)
    next
      case False
      then have "\<not> (k \<le> nat (p - pos) \<and> nat (p - pos) < k + length xs)"
        using b(2,3) p(1) by (auto simp: k_def l)
      then show ?thesis using store_nth [OF fit i] old [OF p False] unfolding c_def by (metis (full_types))
    qed
  qed
  ultimately show ?thesis using that unfolding xs_def c_def by metis
qed

text \<open>A new segment: the lane grows, or is refused and does not change.\<close>

lemma fill_stream_lane:
  assumes lane: "stream_lane S Segs lane" and segs: "segments_ok Segs (length S)" and s: "(b, e) \<in> Segs"
    and e: "e \<le> stream_end lane" "m_nReliableStreamPos lane < e"
  defines "b' \<equiv> max b (m_nReliableStreamPos lane)" and "gs \<equiv> m_mapReliableStreamGaps lane"
  obtains "fill_stream_gaps b' e gs = Some (False, gs)"
  | gs' where "fill_stream_gaps b' e gs = Some (True, gs')"
    "gaps_ok (m_nReliableStreamPos lane) (stream_end lane) gs'"
    "\<And>p. m_nReliableStreamPos lane \<le> p \<Longrightarrow> in_gap gs' p \<longleftrightarrow> in_gap gs p \<and> \<not> (b \<le> p \<and> p < e)"
    "\<And>t. t \<in> Segs \<Longrightarrow> whole (fst t) (snd t) gs'"
proof -
  let ?pos = "m_nReliableStreamPos lane"
  have ok: "gaps_ok ?pos (stream_end lane) gs" and w: "\<And>t. t \<in> Segs \<Longrightarrow> whole (fst t) (snd t) gs"
    using lane by (auto simp: stream_lane_def gs_def)
  have b: "1 \<le> b" "b < e" using segs s by (auto simp: segments_ok_def)
  then have b'e: "b' < e" using e(2) by (simp add: b'_def)
  show ?thesis
  proof (cases "\<exists>p. b' \<le> p \<and> p < e \<and> in_gap gs p")
    case False
    have "\<not> (b \<le> p \<and> p < e)" if "?pos \<le> p" "in_gap gs p" for p
      using False that by (auto simp: b'_def)
    moreover have "fill_stream_gaps b' e gs = Some (True, gs)"
      using fill_outside [OF ok _ b'e] False by blast
    ultimately show ?thesis using ok w by (intro that(2)) auto
  next
    case True
    then obtain g p where g: "g \<in> set gs" "b' \<le> p" "p < e" "fst g \<le> p" "p < snd g" by (auto simp: in_gap_def)
    have "fst g \<le> b" "e \<le> snd g"
      using w [OF s] g by (auto simp: whole_def b'_def)
    moreover have "?pos \<le> fst g" using ok g(1) by (auto simp: gaps_ok_def)
    ultimately have i: "b' = b" "fst g \<le> b" "b < e" "e \<le> snd g" using b by (auto simp: b'_def)
    obtain gs1 gs2 where gs: "gs = gs1 @ g # gs2" using g(1) by (meson split_list)
    note fill = fill_inside [OF ok [unfolded gs] i(2-4)]
    show ?thesis
    proof (cases "fst g < b \<and> e < snd g \<and> Suc (length gs1 + length gs2) \<ge> k_nMaxReliableStreamGaps_Fragment")
      case True
      then show ?thesis using fill by (intro that(1)) (simp add: gs i(1))
    next
      case False
      show ?thesis
      proof (rule that(2))
        show "fill_stream_gaps b' e gs = Some (True, gs1 @ pieces b e g @ gs2)" using fill False by (auto simp: gs i(1))
        show "gaps_ok ?pos (stream_end lane) (gs1 @ pieces b e g @ gs2)"
          by (rule gaps_ok_pieces [OF ok [unfolded gs] i(2-4)])
        show "whole (fst t) (snd t) (gs1 @ pieces b e g @ gs2)" if t: "t \<in> Segs" for t
        proof (rule whole_pieces [OF _ i(2-4)])
          show "whole (fst t) (snd t) (gs1 @ g # gs2)" using w [OF t] by (simp add: gs)
          show "fst t < snd t" using segs t by (auto simp: segments_ok_def)
          show "(fst t, snd t) = (b, e) \<or> snd t \<le> b \<or> e \<le> fst t"
            using segs s t unfolding segments_ok_def by (metis fst_conv snd_conv prod.collapse)
        qed
        show "in_gap (gs1 @ pieces b e g @ gs2) p \<longleftrightarrow> in_gap gs p \<and> \<not> (b \<le> p \<and> p < e)" for p
        proof -
          have "\<not> (fst x \<le> p \<and> p < snd x \<and> b \<le> p \<and> p < e)" if "x \<in> set (gs1 @ gs2)" for x
            using ok that i(2,4) by (fastforce simp: gs gaps_ok_def sorted_wrt_append)
          then have "\<not> (in_gap (gs1 @ gs2) p \<and> b \<le> p \<and> p < e)" unfolding in_gap_def by blast
          then show ?thesis unfolding gs in_gap_simps pieces_in_gap [OF i(2-4)] by auto
        qed
      qed
    qed
  qed
qed

lemma receive_extending:
  assumes lane: "stream_lane S Segs lane" and segs: "segments_ok Segs (length S)" and s: "(b, e) \<in> Segs"
    and e: "stream_end lane < e"
    and ext: "extend_stream cfg b e lane = Some lane'"
  obtains buf where
    "store_range (b - m_nReliableStreamPos lane') (seg_bytes S b e) (m_bufReliableStream lane') = Some buf"
    "stream_lane S Segs (lane'\<lparr>m_bufReliableStream := buf\<rparr>)"
    "m_nReliableStreamPos lane' = m_nReliableStreamPos lane" "m_nHighestSeenMsgNum lane' = m_nHighestSeenMsgNum lane"
    "m_nLastRecvReliableMsgNum lane' = m_nLastRecvReliableMsgNum lane"
    "\<And>p. has_byte (lane'\<lparr>m_bufReliableStream := buf\<rparr>) p \<longleftrightarrow> has_byte lane p \<or> b \<le> p \<and> p < e"
proof -
  let ?pos = "m_nReliableStreamPos lane" and ?E = "stream_end lane" and ?gs = "m_mapReliableStreamGaps lane"
  define gs' where "gs' = (if b > ?E then ?gs @ [(?E, b)] else ?gs)"
  have ok: "gaps_ok ?pos ?E ?gs" and w: "\<And>t. t \<in> Segs \<Longrightarrow> whole (fst t) (snd t) ?gs \<and> (?E \<le> fst t \<or> snd t \<le> ?E)"
    and data: "\<And>p. ?pos \<le> p \<Longrightarrow> p < ?E \<Longrightarrow> \<not> in_gap ?gs p \<Longrightarrow> m_bufReliableStream lane ! nat (p - ?pos) = S ! nat (p - 1)"
    and pos: "1 \<le> ?pos"
    using lane by (auto simp: stream_lane_def has_byte_def)
  have b: "1 \<le> b" "b < e" "e \<le> 1 + int (length S)" using segs s by (auto simp: segments_ok_def)
  have bE: "?E \<le> b" using w [OF s] e by simp
  have posE: "?pos \<le> ?E" by (simp add: stream_end_def)
  have map: "(if b > ?E then map_set ?E b ?gs else ?gs) = gs'"
    using map_set_append [OF ok, of b "[]"] by (simp add: gs'_def)
  have lane': "lane' = lane\<lparr>m_mapReliableStreamGaps := gs',
      m_bufReliableStream := m_bufReliableStream lane @ replicate (nat (e - ?pos) - length (m_bufReliableStream lane)) 0\<rparr>"
    using ext e map unfolding extend_stream_def Let_def stream_end_def [symmetric] by (auto split: if_splits)
  have end': "stream_end lane' = e" using e posE by (simp add: lane' stream_end_def)
  have gap: "in_gap gs' p \<longleftrightarrow> in_gap ?gs p \<or> ?E \<le> p \<and> p < b" for p by (auto simp: gs'_def)
  have f: "m_nReliableStreamPos lane' = ?pos" "m_nHighestSeenMsgNum lane' = m_nHighestSeenMsgNum lane"
    "m_nLastRecvReliableMsgNum lane' = m_nLastRecvReliableMsgNum lane" "m_mapReliableStreamGaps lane' = gs'"
    by (simp_all add: lane')
  obtain buf where buf: "store_range (b - ?pos) (seg_bytes S b e) (m_bufReliableStream lane') = Some buf"
    "length buf = length (m_bufReliableStream lane')"
    "\<And>p. ?pos \<le> p \<Longrightarrow> p < stream_end lane' \<Longrightarrow> \<not> in_gap gs' p \<Longrightarrow> buf ! nat (p - ?pos) = S ! nat (p - 1)"
  proof (rule store_segment [of ?pos lane' b e S gs'])
    fix p assume p: "?pos \<le> p" "p < stream_end lane'" "\<not> in_gap gs' p" "\<not> (b \<le> p \<and> p < e)"
    then have q: "p < ?E" "\<not> in_gap ?gs p" using end' gap [of p] by auto
    then have "nat (p - ?pos) < length (m_bufReliableStream lane)" using p(1) by (simp add: stream_end_def)
    then show "m_bufReliableStream lane' ! nat (p - ?pos) = S ! nat (p - 1)"
      using data [OF p(1) q] by (simp add: lane' nth_append)
  qed (use b bE posE end' f in auto)
  define lane1 where "lane1 = lane'\<lparr>m_bufReliableStream := buf\<rparr>"
  have f1: "m_nReliableStreamPos lane1 = ?pos" "m_mapReliableStreamGaps lane1 = gs'" "m_bufReliableStream lane1 = buf"
    "stream_end lane1 = e"
    using f buf(2) end' by (simp_all add: lane1_def stream_end_def)
  have has: "has_byte lane1 p \<longleftrightarrow> has_byte lane p \<or> b \<le> p \<and> p < e" for p
  proof -
    have "\<not> in_gap ?gs p" if "?E \<le> p" using ok that by (fastforce simp: in_gap_def gaps_ok_def)
    then show ?thesis using bE posE gap [of p] b(2) e by (auto simp: has_byte_def f1)
  qed
  have "gaps_ok ?pos e gs'"
  proof (cases "b > ?E")
    case True
    then show ?thesis using ok posE b(2) by (simp add: gs'_def gaps_ok_append)
  next
    case False
    then show ?thesis using gaps_ok_mono [OF ok, of ?pos e] e by (simp add: gs'_def)
  qed
  moreover have "whole (fst t) (snd t) gs' \<and> (e \<le> fst t \<or> snd t \<le> e)" if t: "t \<in> Segs" for t
  proof -
    have "t = (b, e) \<or> snd t \<le> b \<or> e \<le> fst t" "fst t < snd t"
      using segs s t unfolding segments_ok_def by (metis fst_conv snd_conv)+
    then show ?thesis using w [OF t] b(2) bE by (auto simp: gs'_def)
  qed
  ultimately have "stream_lane S Segs lane1"
    using pos b(3) buf(3) unfolding stream_lane_def f1 by (auto simp: has_byte_def f1 end')
  then show ?thesis using that buf(1) has f unfolding lane1_def by simp
qed

lemma receive_within:
  assumes lane: "stream_lane S Segs lane" and segs: "segments_ok Segs (length S)" and s: "(b, e) \<in> Segs"
    and e: "e \<le> stream_end lane" "m_nReliableStreamPos lane < e"
    and fill: "gaps_ok (m_nReliableStreamPos lane) (stream_end lane) gs'"
      "\<And>p. m_nReliableStreamPos lane \<le> p \<Longrightarrow> in_gap gs' p \<longleftrightarrow> in_gap (m_mapReliableStreamGaps lane) p \<and> \<not> (b \<le> p \<and> p < e)"
      "\<And>t. t \<in> Segs \<Longrightarrow> whole (fst t) (snd t) gs'"
  defines "b' \<equiv> max b (m_nReliableStreamPos lane)"
  obtains buf where
    "store_range (b' - m_nReliableStreamPos lane) (seg_bytes S b' e) (m_bufReliableStream lane) = Some buf"
    "stream_lane S Segs (lane\<lparr>m_mapReliableStreamGaps := gs', m_bufReliableStream := buf\<rparr>)"
    "\<And>p. has_byte (lane\<lparr>m_mapReliableStreamGaps := gs', m_bufReliableStream := buf\<rparr>) p \<longleftrightarrow> has_byte lane p \<or> b \<le> p \<and> p < e"
proof -
  let ?pos = "m_nReliableStreamPos lane" and ?E = "stream_end lane"
  have data: "\<And>p. ?pos \<le> p \<Longrightarrow> p < ?E \<Longrightarrow> \<not> in_gap (m_mapReliableStreamGaps lane) p \<Longrightarrow>
      m_bufReliableStream lane ! nat (p - ?pos) = S ! nat (p - 1)"
    and pos: "1 \<le> ?pos" and ends: "?E \<le> 1 + int (length S)" "\<And>t. t \<in> Segs \<Longrightarrow> ?E \<le> fst t \<or> snd t \<le> ?E"
    using lane by (auto simp: stream_lane_def has_byte_def)
  have b: "1 \<le> b" "b < e" "e \<le> 1 + int (length S)" using segs s by (auto simp: segments_ok_def)
  obtain buf where buf: "store_range (b' - ?pos) (seg_bytes S b' e) (m_bufReliableStream lane) = Some buf"
    "length buf = length (m_bufReliableStream lane)"
    "\<And>p. ?pos \<le> p \<Longrightarrow> p < ?E \<Longrightarrow> \<not> in_gap gs' p \<Longrightarrow> buf ! nat (p - ?pos) = S ! nat (p - 1)"
  proof (rule store_segment [of ?pos lane b' e S gs'])
    fix p assume p: "?pos \<le> p" "p < ?E" "\<not> in_gap gs' p" "\<not> (b' \<le> p \<and> p < e)"
    then have "\<not> in_gap (m_mapReliableStreamGaps lane) p" using fill(2) [OF p(1)] by (auto simp: b'_def)
    then show "m_bufReliableStream lane ! nat (p - ?pos) = S ! nat (p - 1)" by (rule data [OF p(1,2)])
  qed (use b e in \<open>auto simp: b'_def\<close>)
  define lane1 where "lane1 = lane\<lparr>m_mapReliableStreamGaps := gs', m_bufReliableStream := buf\<rparr>"
  have f1: "m_nReliableStreamPos lane1 = ?pos" "m_mapReliableStreamGaps lane1 = gs'" "m_bufReliableStream lane1 = buf"
    "stream_end lane1 = ?E"
    using buf(2) by (simp_all add: lane1_def stream_end_def)
  have has: "has_byte lane1 p \<longleftrightarrow> has_byte lane p \<or> b \<le> p \<and> p < e" for p
    using fill(2) [of p] e by (auto simp: has_byte_def f1)
  have "stream_lane S Segs lane1"
    using pos ends fill(1,3) buf(3) unfolding stream_lane_def f1 by (auto simp: has_byte_def f1)
  then show ?thesis using that buf(1) has unfolding lane1_def by simp
qed

lemma receive_segment:
  assumes lane: "stream_lane S Segs lane" and segs: "segments_ok Segs (length S)" and s: "(b, e) \<in> Segs"
    and state: "state = Connected \<or> state = FindingRoute"
  obtains (old) "e \<le> m_nReliableStreamPos lane"
      "SNP_ReceiveReliableSegment cfg state b (seg_bytes S b e) idx lane q = Some (Accepted, lane, q)"
  | (refused) "SNP_ReceiveReliableSegment cfg state b (seg_bytes S b e) idx lane q = Some (Rejected, lane, q)"
  | (stored) lane1 where "m_nReliableStreamPos lane < e" "stream_lane S Segs lane1"
      "m_nReliableStreamPos lane1 = m_nReliableStreamPos lane" "m_nHighestSeenMsgNum lane1 = m_nHighestSeenMsgNum lane"
      "m_nLastRecvReliableMsgNum lane1 = m_nLastRecvReliableMsgNum lane"
      "\<And>p. has_byte lane1 p \<longleftrightarrow> has_byte lane p \<or> b \<le> p \<and> p < e"
      "SNP_ReceiveReliableSegment cfg state b (seg_bytes S b e) idx lane q =
        (case num_reliable_bytes (max b (m_nReliableStreamPos lane)) lane1 of
           None \<Rightarrow> Some (Accepted, lane1, q) | Some n \<Rightarrow> Dispatch cfg idx n lane1 q)"
proof -
  let ?pos = "m_nReliableStreamPos lane" and ?E = "stream_end lane"
  have b: "1 \<le> b" "b < e" "e \<le> 1 + int (length S)" using segs s by (auto simp: segments_ok_def)
  define bytes where "bytes = seg_bytes S b e"
  have l: "length bytes = nat (e - b)" using b by (simp add: bytes_def length_seg_bytes)
  have e1: "b + int (length bytes) = e" "bytes \<noteq> []" using b(2) l by (simp, force)
  have posE: "?pos \<le> ?E" by (simp add: stream_end_def)
  have not_state: "\<not> (state = Linger \<or> state = FinWait)" "\<not> (state \<noteq> Connected \<and> state \<noteq> FindingRoute)"
    using state by auto
  note eval = SNP_ReceiveReliableSegment_def [of cfg state b bytes idx lane q, unfolded Let_def e1(1) stream_end_def [symmetric],
      simplified e1(2) not_state if_False simp_thms]
  show ?thesis
  proof (cases "e \<le> ?pos")
    case True
    then show ?thesis using eval by (intro old) (simp_all add: bytes_def)
  next
    case new: False
    show ?thesis
    proof (cases "?E < e")
      case True
      have bE: "?E \<le> b" using lane s True by (force simp: stream_lane_def)
      show ?thesis
      proof (cases "extend_stream cfg b e lane")
        case None
        then show ?thesis using eval new by (intro refused) (simp add: bytes_def)
      next
        case (Some lane')
        obtain buf where buf: "store_range (b - m_nReliableStreamPos lane') bytes (m_bufReliableStream lane') = Some buf"
          "stream_lane S Segs (lane'\<lparr>m_bufReliableStream := buf\<rparr>)"
          "m_nReliableStreamPos lane' = m_nReliableStreamPos lane" "m_nHighestSeenMsgNum lane' = m_nHighestSeenMsgNum lane"
          "m_nLastRecvReliableMsgNum lane' = m_nLastRecvReliableMsgNum lane"
          "\<And>p. has_byte (lane'\<lparr>m_bufReliableStream := buf\<rparr>) p \<longleftrightarrow> has_byte lane p \<or> b \<le> p \<and> p < e"
          using receive_extending [OF lane segs s True Some] unfolding bytes_def by metis
        have upd: "lane'\<lparr>m_mapReliableStreamGaps := m_mapReliableStreamGaps lane', m_bufReliableStream := buf\<rparr> =
            lane'\<lparr>m_bufReliableStream := buf\<rparr>" by (cases lane') simp
        show ?thesis
        proof (rule stored [of "lane'\<lparr>m_bufReliableStream := buf\<rparr>"])
          show "SNP_ReceiveReliableSegment cfg state b (seg_bytes S b e) idx lane q =
              (case num_reliable_bytes (max b ?pos) (lane'\<lparr>m_bufReliableStream := buf\<rparr>) of
                 None \<Rightarrow> Some (Accepted, lane'\<lparr>m_bufReliableStream := buf\<rparr>, q)
               | Some n \<Rightarrow> Dispatch cfg idx n (lane'\<lparr>m_bufReliableStream := buf\<rparr>) q)"
            using eval new bE posE Some buf(1,3) by (simp add: bytes_def upd cong: option.case_cong)
        qed (use new buf in auto)
      qed
    next
      case False
      have ext: "extend_stream cfg b e lane = Some lane"
        using False by (simp add: extend_stream_def Let_def stream_end_def [symmetric])
      define b' where "b' = max b ?pos"
      have skip: "(if b < ?E \<and> b < ?pos then ?pos - b else 0) = b' - b" using False b(2) new by (auto simp: b'_def)
      have bE: "b < ?E" using False b(2) by simp
      have bytes': "drop (nat (b' - b)) bytes = seg_bytes S b' e"
        unfolding bytes_def using b(1) by (intro drop_seg_bytes) (simp_all add: b'_def)
      have e2: "e \<le> ?E" "?pos < e" using False new by auto
      note eval' = eval [unfolded ext option.case skip]
      show ?thesis
      proof (rule fill_stream_lane [OF lane segs s e2])
        assume "fill_stream_gaps (max b ?pos) e (m_mapReliableStreamGaps lane) = Some (False, m_mapReliableStreamGaps lane)"
        then show ?thesis using eval' new bE
          by (intro refused) (simp add: bytes_def [symmetric] b'_def [symmetric])
      next
        fix gs' assume f: "fill_stream_gaps (max b ?pos) e (m_mapReliableStreamGaps lane) = Some (True, gs')"
          and g: "gaps_ok ?pos ?E gs'"
            "\<And>p. ?pos \<le> p \<Longrightarrow> in_gap gs' p \<longleftrightarrow> in_gap (m_mapReliableStreamGaps lane) p \<and> \<not> (b \<le> p \<and> p < e)"
            "\<And>t. t \<in> Segs \<Longrightarrow> whole (fst t) (snd t) gs'"
        obtain buf where buf: "store_range (b' - ?pos) (seg_bytes S b' e) (m_bufReliableStream lane) = Some buf"
          "stream_lane S Segs (lane\<lparr>m_mapReliableStreamGaps := gs', m_bufReliableStream := buf\<rparr>)"
          "\<And>p. has_byte (lane\<lparr>m_mapReliableStreamGaps := gs', m_bufReliableStream := buf\<rparr>) p \<longleftrightarrow> has_byte lane p \<or> b \<le> p \<and> p < e"
          using receive_within [OF lane segs s e2 g] unfolding b'_def by metis
        define lane1 where "lane1 = lane\<lparr>m_mapReliableStreamGaps := gs', m_bufReliableStream := buf\<rparr>"
        show ?thesis
        proof (rule stored [of lane1])
          show "SNP_ReceiveReliableSegment cfg state b (seg_bytes S b e) idx lane q =
              (case num_reliable_bytes (max b ?pos) lane1 of
                 None \<Rightarrow> Some (Accepted, lane1, q) | Some n \<Rightarrow> Dispatch cfg idx n lane1 q)"
            using eval' new bE f buf(1) bytes'
            by (simp add: bytes_def [symmetric] b'_def [symmetric] lane1_def cong: option.case_cong)
        qed (use new buf in \<open>simp_all add: lane1_def\<close>)
      qed
    qed
  qed
qed

subsection \<open>The bytes at the head\<close>

definition head_size :: "Lane \<Rightarrow> nat" where
  "head_size lane = (case m_mapReliableStreamGaps lane of [] \<Rightarrow> length (m_bufReliableStream lane)
     | g # _ \<Rightarrow> nat (fst g - m_nReliableStreamPos lane))"

lemma head_bounds:
  assumes "stream_lane S Segs lane"
  shows "head_size lane \<le> length (m_bufReliableStream lane)"
    "\<And>p. p < m_nReliableStreamPos lane + int (head_size lane) \<Longrightarrow> has_byte lane p"
    "\<not> has_byte lane (m_nReliableStreamPos lane + int (head_size lane))"
proof -
  have ok: "gaps_ok (m_nReliableStreamPos lane) (stream_end lane) (m_mapReliableStreamGaps lane)"
    using assms by (simp add: stream_lane_def)
  have "head_size lane \<le> length (m_bufReliableStream lane) \<and>
    (\<forall>p. p < m_nReliableStreamPos lane + int (head_size lane) \<longrightarrow> has_byte lane p) \<and>
    \<not> has_byte lane (m_nReliableStreamPos lane + int (head_size lane))"
  proof (cases "m_mapReliableStreamGaps lane")
    case Nil
    then show ?thesis by (auto simp: head_size_def has_byte_def stream_end_def)
  next
    case (Cons g gs)
    then have g: "m_nReliableStreamPos lane \<le> fst g" "fst g < snd g" "snd g < stream_end lane" "gaps_ok (snd g + 1) (stream_end lane) gs"
      using ok by auto
    have "\<not> in_gap gs p" if "p \<le> snd g" for p using g(4) that by (fastforce simp: in_gap_def gaps_ok_def)
    then have "\<not> in_gap (g # gs) p" if "p < fst g" for p using that g(2) by simp
    then show ?thesis using g(1-3) by (auto simp: head_size_def Cons has_byte_def stream_end_def)
  qed
  then show "head_size lane \<le> length (m_bufReliableStream lane)"
    "\<And>p. p < m_nReliableStreamPos lane + int (head_size lane) \<Longrightarrow> has_byte lane p"
    "\<not> has_byte lane (m_nReliableStreamPos lane + int (head_size lane))" by blast+
qed

lemma head_unique:
  assumes "stream_lane S Segs lane" "\<And>p. p < m_nReliableStreamPos lane + int k \<Longrightarrow> has_byte lane p"
    "\<not> has_byte lane (m_nReliableStreamPos lane + int k)"
  shows "head_size lane = k"
  using head_bounds(2) [OF assms(1), of "m_nReliableStreamPos lane + int k"] head_bounds(3) [OF assms(1)]
    assms(2) [of "m_nReliableStreamPos lane + int (head_size lane)"] assms(3)
  by (cases k "head_size lane" rule: linorder_cases) auto

lemma head_take:
  assumes "stream_lane S Segs lane"
  shows "take (head_size lane) (m_bufReliableStream lane) =
      take (head_size lane) (drop (nat (m_nReliableStreamPos lane - 1)) S)"
    "head_size lane \<le> length (drop (nat (m_nReliableStreamPos lane - 1)) S)"
proof -
  note h = head_bounds [OF assms]
  have pos: "1 \<le> m_nReliableStreamPos lane" "stream_end lane \<le> 1 + int (length S)"
    and data: "\<And>p. m_nReliableStreamPos lane \<le> p \<Longrightarrow> has_byte lane p \<Longrightarrow>
      m_bufReliableStream lane ! nat (p - m_nReliableStreamPos lane) = S ! nat (p - 1)"
    using assms by (auto simp: stream_lane_def)
  show l: "head_size lane \<le> length (drop (nat (m_nReliableStreamPos lane - 1)) S)"
    using h(1) pos by (simp add: stream_end_def)
  show "take (head_size lane) (m_bufReliableStream lane) =
      take (head_size lane) (drop (nat (m_nReliableStreamPos lane - 1)) S)"
  proof (rule nth_equalityI)
    show "length (take (head_size lane) (m_bufReliableStream lane)) =
        length (take (head_size lane) (drop (nat (m_nReliableStreamPos lane - 1)) S))" using h(1) l by simp
    fix i assume "i < length (take (head_size lane) (m_bufReliableStream lane))"
    then have i: "i < head_size lane" by simp
    have n: "nat (m_nReliableStreamPos lane + int i - 1) = nat (m_nReliableStreamPos lane - 1) + i" using pos by simp
    have le: "nat (m_nReliableStreamPos lane - 1) \<le> length S" using pos by (simp add: stream_end_def)
    show "take (head_size lane) (m_bufReliableStream lane) ! i =
        take (head_size lane) (drop (nat (m_nReliableStreamPos lane - 1)) S) ! i"
      using data [of "m_nReliableStreamPos lane + int i"] h(2) [of "m_nReliableStreamPos lane + int i"] i le by (simp add: n)
  qed
qed

lemma num_reliable_head:
  assumes "stream_lane S Segs lane"
  shows "num_reliable_bytes b lane =
    (if b \<le> m_nReliableStreamPos lane + int (head_size lane) \<or> m_mapReliableStreamGaps lane = [] then Some (int (head_size lane)) else None)"
proof (cases "m_mapReliableStreamGaps lane")
  case (Cons g gs)
  then have "m_nReliableStreamPos lane \<le> fst g" using assms by (simp add: stream_lane_def)
  then show ?thesis using Cons by (cases g) (simp add: num_reliable_bytes_def head_size_def)
qed (simp add: num_reliable_bytes_def head_size_def)

text \<open>Consuming bytes of the head.\<close>

lemma advance_lane:
  assumes "stream_lane S Segs lane" "n \<le> head_size lane"
  shows "stream_lane S Segs (advance hi num n lane)" "has_byte (advance hi num n lane) p \<longleftrightarrow> has_byte lane p"
    "head_size (advance hi num n lane) = head_size lane - n"
proof -
  let ?l = "advance hi num n lane"
  note h = head_bounds [OF assms(1)]
  have s: "1 \<le> m_nReliableStreamPos lane" "stream_end lane \<le> 1 + int (length S)"
    "gaps_ok (m_nReliableStreamPos lane) (stream_end lane) (m_mapReliableStreamGaps lane)"
    "\<forall>p. m_nReliableStreamPos lane \<le> p \<and> has_byte lane p \<longrightarrow>
        m_bufReliableStream lane ! nat (p - m_nReliableStreamPos lane) = S ! nat (p - 1)"
    "\<forall>s \<in> Segs. whole (fst s) (snd s) (m_mapReliableStreamGaps lane) \<and> (stream_end lane \<le> fst s \<or> snd s \<le> stream_end lane)"
    using assms(1) by (simp_all add: stream_lane_def)
  have se: "stream_end ?l = stream_end lane" using h(1) assms(2) by (simp add: stream_end_def)
  show has: "has_byte ?l p \<longleftrightarrow> has_byte lane p" for p
  proof (cases "p < m_nReliableStreamPos lane + int n")
    case True
    then show ?thesis using h(2) [of p] assms(2) by (simp add: has_byte_def)
  next
    case False
    then show ?thesis by (simp add: has_byte_def se)
  qed
  have g: "gaps_ok (m_nReliableStreamPos lane + int n) (stream_end lane) (m_mapReliableStreamGaps lane)"
    using s(3) assms(2) by (cases "m_mapReliableStreamGaps lane") (auto simp: head_size_def)
  have d: "m_bufReliableStream ?l ! nat (p - m_nReliableStreamPos ?l) = S ! nat (p - 1)"
    if p: "m_nReliableStreamPos ?l \<le> p" "has_byte ?l p" for p
  proof -
    have le: "n \<le> length (m_bufReliableStream lane)" using h(1) assms(2) by simp
    have e: "n + nat (p - m_nReliableStreamPos ?l) = nat (p - m_nReliableStreamPos lane)" using p(1) by simp
    have "m_bufReliableStream ?l ! nat (p - m_nReliableStreamPos ?l) = m_bufReliableStream lane ! nat (p - m_nReliableStreamPos lane)"
      using le e by (simp del: nat_diff_distrib)
    then show ?thesis using s(4) p has [of p] by simp
  qed
  show lane: "stream_lane S Segs ?l"
    unfolding stream_lane_def se using s g d by auto
  show "head_size ?l = head_size lane - n"
    using assms(2) h(2,3) by (intro head_unique [OF lane]) (simp_all add: has of_nat_diff)
qed

subsection \<open>A run\<close>

text \<open>
  What happens to lane \<open>idx\<close>: a segment arrives; a message that is not a reliable one of this lane is
  queued, and the highest number seen goes up or not; the application takes messages. \<open>taken\<close> is what it got so far,
  \<open>acked\<close> the segments that were accepted, and \<open>refused_any\<close> says whether one was not.
\<close>

inductive stream_run :: "RecvConfig \<Rightarrow> int \<Rightarrow> (int \<times> byte list) list \<Rightarrow> (int \<times> int) set \<Rightarrow>
    Lane \<Rightarrow> message list \<Rightarrow> message list \<Rightarrow> (int \<times> int) set \<Rightarrow> bool \<Rightarrow> bool"
  for cfg :: RecvConfig and idx :: int and ms :: "(int \<times> byte list) list" and Segs :: "(int \<times> int) set"
where
  start: "stream_run cfg idx ms Segs Lane_new [] [] {} False"
| segment: "stream_run cfg idx ms Segs lane q taken acked refused_any \<Longrightarrow> (b, e) \<in> Segs \<Longrightarrow>
    state = Connected \<or> state = FindingRoute \<Longrightarrow>
    SNP_ReceiveReliableSegment cfg state b (seg_bytes (stream_of 0 ms) b e) idx lane q = Some (r, lane', q') \<Longrightarrow>
    stream_run cfg idx ms Segs lane' q' taken (if r = Accepted then insert (b, e) acked else acked)
      (refused_any \<or> r \<noteq> Accepted)"
| other: "stream_run cfg idx ms Segs lane q taken acked refused_any \<Longrightarrow>
    m_idxLane m \<noteq> idx \<or> m_nFlags m \<noteq> k_nSteamNetworkingSend_Reliable \<Longrightarrow>
    ReceivedMessage cfg m q = (ok, q') \<Longrightarrow> m_nHighestSeenMsgNum lane \<le> hi \<Longrightarrow>
    stream_run cfg idx ms Segs (lane\<lparr>m_nHighestSeenMsgNum := hi\<rparr>) q' taken acked refused_any"
| take: "stream_run cfg idx ms Segs lane q taken acked refused_any \<Longrightarrow>
    RemoveMessages n q = (got, q') \<Longrightarrow> stream_run cfg idx ms Segs lane q' (taken @ got) acked refused_any"

text \<open>\<open>ms1\<close> has been delivered.\<close>

definition delivered :: "int \<Rightarrow> (int \<times> byte list) list \<Rightarrow> (int \<times> byte list) list \<Rightarrow> Lane \<Rightarrow> message list \<Rightarrow> bool" where
  "delivered idx ms1 ms2 lane q \<longleftrightarrow> lane_msgs idx q = map (to_message idx) ms1 \<and>
     m_nLastRecvReliableMsgNum lane = last_num 0 ms1 \<and> m_nReliableStreamPos lane = 1 + int (length (stream_of 0 ms1)) \<and>
     last_num 0 ms1 \<le> m_nHighestSeenMsgNum lane"

lemma stream_lane_new: "stream_lane S Segs Lane_new \<longleftrightarrow> (\<forall>s \<in> Segs. 1 \<le> fst s \<or> snd s \<le> 1)"
  by (auto simp: stream_lane_def Lane_new_def stream_end_def has_byte_def)

lemma highest_lane:
  "stream_lane S Segs (lane\<lparr>m_nHighestSeenMsgNum := hi\<rparr>) = stream_lane S Segs lane"
  "has_byte (lane\<lparr>m_nHighestSeenMsgNum := hi\<rparr>) = has_byte lane"
  "head_size (lane\<lparr>m_nHighestSeenMsgNum := hi\<rparr>) = head_size lane"
  by (auto simp: stream_lane_def has_byte_def stream_end_def head_size_def fun_eq_iff cong: list.case_cong)

lemma nums_le_last:
  "well_sent prev ms \<Longrightarrow> m \<in> set ms \<Longrightarrow> fst m \<le> last_num prev ms"
proof (induction ms arbitrary: prev)
  case (Cons a ms)
  then show ?case using well_sent_mono [of "fst a" ms] by auto
qed simp

lemma sendable_append: "sendable cfg prev (ms1 @ ms2) \<longleftrightarrow> sendable cfg prev ms1 \<and> sendable cfg (last_num prev ms1) ms2"
  by (induction ms1 arbitrary: prev) auto

text \<open>What a segment does.\<close>

lemma segment_step:
  assumes ms: "ms = ms1 @ ms2" "well_sent 0 ms" and segs: "segments_ok Segs (length (stream_of 0 ms))" "(b, e) \<in> Segs"
    and state: "state = Connected \<or> state = FindingRoute"
    and lane: "stream_lane (stream_of 0 ms) Segs lane" "delivered idx ms1 ms2 lane (taken @ q)"
    "\<not> refused_any \<longrightarrow> no_complete (last_num 0 ms1) ms2 (head_size lane)"
  obtains r lane' q' ms3 ms4 where
    "SNP_ReceiveReliableSegment cfg state b (seg_bytes (stream_of 0 ms) b e) idx lane q = Some (r, lane', q')"
    "r = Problem \<longrightarrow> \<not> sendable cfg 0 ms"
    "ms2 = ms3 @ ms4" "stream_lane (stream_of 0 ms) Segs lane'" "delivered idx (ms1 @ ms3) ms4 lane' (taken @ q')"
    "\<not> refused_any \<and> r = Accepted \<longrightarrow> no_complete (last_num 0 (ms1 @ ms3)) ms4 (head_size lane')"
    "\<And>p. has_byte lane p \<Longrightarrow> has_byte lane' p" "\<And>p. r = Accepted \<Longrightarrow> b \<le> p \<Longrightarrow> p < e \<Longrightarrow> has_byte lane' p"
proof -
  let ?S = "stream_of 0 ms" and ?pos = "m_nReliableStreamPos lane" and ?L = "last_num 0 ms1"
  let ?rec = "SNP_ReceiveReliableSegment cfg state b (seg_bytes ?S b e) idx lane q"
  have S: "?S = stream_of 0 ms1 @ stream_of ?L ms2" by (simp add: ms(1) stream_of_append)
  have d: "lane_msgs idx (taken @ q) = map (to_message idx) ms1" "m_nLastRecvReliableMsgNum lane = ?L"
    "?pos = 1 + int (length (stream_of 0 ms1))" "?L \<le> m_nHighestSeenMsgNum lane"
    using lane(2) by (simp_all add: delivered_def)
  have ws: "well_sent 0 ms1" "well_sent ?L ms2" using ms by (simp_all add: well_sent_append)
  show ?thesis
  proof (rule receive_segment [OF lane(1) segs state, where cfg = cfg and idx = idx and q = q])
    assume "e \<le> ?pos" "?rec = Some (Accepted, lane, q)"
    then show ?thesis using lane ms by (intro that [of Accepted lane q "[]" ms2]) (auto simp: has_byte_def)
  next
    assume "?rec = Some (Rejected, lane, q)"
    then show ?thesis using lane ms by (intro that [of Rejected lane q "[]" ms2]) auto
  next
    fix lane1 assume l: "?pos < e" "stream_lane ?S Segs lane1"
      and l1: "m_nReliableStreamPos lane1 = ?pos" "m_nHighestSeenMsgNum lane1 = m_nHighestSeenMsgNum lane"
        "m_nLastRecvReliableMsgNum lane1 = m_nLastRecvReliableMsgNum lane"
      and has: "\<And>p. has_byte lane1 p \<longleftrightarrow> has_byte lane p \<or> b \<le> p \<and> p < e"
      and rec: "?rec = (case num_reliable_bytes (max b ?pos) lane1 of
           None \<Rightarrow> Some (Accepted, lane1, q) | Some n \<Rightarrow> Dispatch cfg idx n lane1 q)"
    note h = head_bounds [OF l(2), unfolded l1] and t = head_take [OF l(2), unfolded l1]
    have be: "b < e" using segs by (auto simp: segments_ok_def)
    have dl: "delivered idx ms1 ms2 lane1 (taken @ q)" using d l1 by (simp add: delivered_def)
    show ?thesis
    proof (cases "num_reliable_bytes (max b ?pos) lane1")
      case None
      then have gap: "?pos + int (head_size lane1) < max b ?pos"
        using num_reliable_head [OF l(2), of "max b ?pos"] by (auto simp: l1 split: if_splits)
      have "head_size lane = head_size lane1"
      proof (rule head_unique [OF lane(1)])
        fix p assume "p < ?pos + int (head_size lane1)"
        then show "has_byte lane p" using h(2) [of p] has [of p] gap by auto
      qed (use h(3) has in blast)
      then show ?thesis using None rec lane(3) l(2) has ms dl
        by (intro that [of Accepted lane1 q "[]" ms2]) auto
    next
      case (Some n)
      then have n: "n = int (head_size lane1)"
        using num_reliable_head [OF l(2), of "max b ?pos"] by (auto split: if_splits)
      have "0 < head_size lane1"
      proof (rule ccontr)
        assume z: "\<not> 0 < head_size lane1"
        then have "\<not> has_byte lane1 ?pos" using h(3) by simp
        moreover from this have "b \<noteq> ?pos" "\<not> b < ?pos" using has [of ?pos] l(1) be by auto
        moreover have "has_byte lane1 b" using has be by blast
        ultimately have "max b ?pos = b" "?pos < b" "m_mapReliableStreamGaps lane1 \<noteq> []"
          using z h(1) by (auto simp: has_byte_def l1 head_size_def stream_end_def)
        then show False using num_reliable_head [OF l(2), of "max b ?pos"] Some z by (simp add: l1)
      qed
      moreover have tk: "drop (nat (?pos - 1)) ?S = stream_of ?L ms2" unfolding d(3) S by simp
      moreover have "\<forall>m' \<in> set (lane_msgs idx q). m_nMessageNumber m' \<le> ?L"
      proof
        fix m' assume "m' \<in> set (lane_msgs idx q)"
        then have "m' \<in> set (map (to_message idx) ms1)" unfolding d(1) [symmetric] by simp
        then show "m_nMessageNumber m' \<le> ?L" using nums_le_last [OF ws(1)] by (auto simp: to_message_def)
      qed
      ultimately obtain r ms3 ms4 hi q' where D: "ms2 = ms3 @ ms4"
        "Dispatch cfg idx n lane1 q = Some (r, advance hi (last_num ?L ms3) (length (stream_of ?L ms3)) lane1, q')"
        "length (stream_of ?L ms3) \<le> head_size lane1" "last_num ?L ms3 \<le> hi"
        "lane_msgs idx q' = lane_msgs idx q @ map (to_message idx) ms3"
        "r = Accepted \<longrightarrow> no_complete (last_num ?L ms3) ms4 (head_size lane1 - length (stream_of ?L ms3))"
        "r = Problem \<longrightarrow> \<not> sendable cfg ?L ms2"
        using Dispatch_stream [of lane1 ms2 "head_size lane1" idx q cfg] ws(2) d(2,4) h(1) t unfolding l1 d(2) n by metis
      define lane' where "lane' = advance hi (last_num ?L ms3) (length (stream_of ?L ms3)) lane1"
      note a = advance_lane [OF l(2) D(3), of hi "last_num ?L ms3", folded lane'_def]
      have ln: "last_num ?L ms3 = last_num 0 (ms1 @ ms3)" by (simp add: last_num_def)
      show ?thesis
      proof (rule that [of r lane' q' ms3 ms4])
        show "?rec = Some (r, lane', q')" using rec Some D(2) by (simp add: lane'_def)
        show "r = Problem \<longrightarrow> \<not> sendable cfg 0 ms" using D(7) by (simp add: ms(1) sendable_append)
        show "delivered idx (ms1 @ ms3) ms4 lane' (taken @ q')"
          using D(4,5) d by (simp add: delivered_def lane'_def l1 ln stream_of_append)
        show "\<not> refused_any \<and> r = Accepted \<longrightarrow> no_complete (last_num 0 (ms1 @ ms3)) ms4 (head_size lane')"
          using D(6) by (simp add: a(3) ln)
      qed (use D(1) a(1,2) has in auto)
    qed
  qed
qed

text \<open>The invariant of a run.\<close>

lemma stream_run_inv:
  assumes "stream_run cfg idx ms Segs lane q taken acked refused_any"
    and segs: "segments_ok Segs (length (stream_of 0 ms))" and ws: "well_sent 0 ms"
  shows "\<exists>ms1 ms2. ms = ms1 @ ms2 \<and> stream_lane (stream_of 0 ms) Segs lane \<and> delivered idx ms1 ms2 lane (taken @ q) \<and>
    (\<not> refused_any \<longrightarrow> no_complete (last_num 0 ms1) ms2 (head_size lane)) \<and>
    (\<forall>s \<in> acked. \<forall>p. fst s \<le> p \<and> p < snd s \<longrightarrow> has_byte lane p)"
  using assms(1)
proof (induction rule: stream_run.induct)
  case start
  have "stream_lane (stream_of 0 ms) Segs Lane_new" using segs by (auto simp: stream_lane_new segments_ok_def)
  moreover have "delivered idx [] ms Lane_new []" by (simp add: delivered_def Lane_new_def)
  moreover have "no_complete 0 ms 0" by (cases ms) (simp_all add: no_complete_def)
  moreover have "head_size Lane_new = 0" by (simp add: head_size_def Lane_new_def)
  ultimately show ?case by (intro exI [of _ "[]"] exI [of _ ms]) simp
next
  case (segment lane q taken acked refused_any b e state r lane' q')
  then obtain ms1 ms2 where IH: "ms = ms1 @ ms2" "stream_lane (stream_of 0 ms) Segs lane"
    "delivered idx ms1 ms2 lane (taken @ q)" "\<not> refused_any \<longrightarrow> no_complete (last_num 0 ms1) ms2 (head_size lane)"
    "\<forall>s \<in> acked. \<forall>p. fst s \<le> p \<and> p < snd s \<longrightarrow> has_byte lane p" by blast
  show ?case
  proof (rule segment_step [OF IH(1) ws segs segment.hyps(2,3) IH(2-4), where cfg = cfg])
    fix r2 lane2 q2 ms3 ms4
    assume r: "SNP_ReceiveReliableSegment cfg state b (seg_bytes (stream_of 0 ms) b e) idx lane q = Some (r2, lane2, q2)"
      and s: "ms2 = ms3 @ ms4" "stream_lane (stream_of 0 ms) Segs lane2" "delivered idx (ms1 @ ms3) ms4 lane2 (taken @ q2)"
        "\<not> refused_any \<and> r2 = Accepted \<longrightarrow> no_complete (last_num 0 (ms1 @ ms3)) ms4 (head_size lane2)"
        "\<And>p. has_byte lane p \<Longrightarrow> has_byte lane2 p" "\<And>p. r2 = Accepted \<Longrightarrow> b \<le> p \<Longrightarrow> p < e \<Longrightarrow> has_byte lane2 p"
    have "r2 = r" "lane2 = lane'" "q2 = q'" using r segment.hyps(4) by simp_all
    with s IH(1,5) show ?thesis by (intro exI [of _ "ms1 @ ms3"] exI [of _ ms4]) auto
  qed
next
  case (other lane q taken acked refused_any m ok q' hi)
  then have "lane_msgs idx q' = lane_msgs idx q" by (intro ReceivedMessage_other)
  with other show ?case by (fastforce simp: highest_lane delivered_def)
next
  case (take lane q taken acked refused_any n got q')
  then have "got @ q' = q" by (auto simp: RemoveMessages_def)
  with take show ?case by (metis append.assoc)
qed

subsection \<open>Running events\<close>

datatype stream_event = Segment int int | Other message int | Take nat

fun stream_event_step :: "RecvConfig \<Rightarrow> int \<Rightarrow> byte list \<Rightarrow> stream_event \<Rightarrow>
    Lane \<times> message list \<times> message list \<times> (int \<times> int) list \<times> bool \<Rightarrow>
    (Lane \<times> message list \<times> message list \<times> (int \<times> int) list \<times> bool) option" where
  "stream_event_step cfg idx S (Segment b e) (lane, q, taken, acked, refused_any) =
     (case SNP_ReceiveReliableSegment cfg Connected b (seg_bytes S b e) idx lane q of
        None \<Rightarrow> None
      | Some (r, lane, q) \<Rightarrow> Some (lane, q, taken, if r = Accepted then (b, e) # acked else acked, refused_any \<or> r \<noteq> Accepted))"
| "stream_event_step cfg idx S (Other m hi) (lane, q, taken, acked, refused_any) =
     (if (m_idxLane m \<noteq> idx \<or> m_nFlags m \<noteq> k_nSteamNetworkingSend_Reliable) \<and> m_nHighestSeenMsgNum lane \<le> hi
      then Some (lane\<lparr>m_nHighestSeenMsgNum := hi\<rparr>, snd (ReceivedMessage cfg m q), taken, acked, refused_any) else None)"
| "stream_event_step cfg idx S (Take n) (lane, q, taken, acked, refused_any) =
     Some (lane, snd (RemoveMessages n q), taken @ fst (RemoveMessages n q), acked, refused_any)"

fun stream_events :: "RecvConfig \<Rightarrow> int \<Rightarrow> byte list \<Rightarrow> stream_event list \<Rightarrow>
    Lane \<times> message list \<times> message list \<times> (int \<times> int) list \<times> bool \<Rightarrow>
    (Lane \<times> message list \<times> message list \<times> (int \<times> int) list \<times> bool) option" where
  "stream_events cfg idx S [] s = Some s"
| "stream_events cfg idx S (ev # evs) s =
     (case stream_event_step cfg idx S ev s of None \<Rightarrow> None | Some s \<Rightarrow> stream_events cfg idx S evs s)"

lemma stream_events_run:
  "stream_run cfg idx ms Segs lane q taken (set acked) ref \<Longrightarrow> \<forall>b e. Segment b e \<in> set evs \<longrightarrow> (b, e) \<in> Segs \<Longrightarrow>
   stream_events cfg idx (stream_of 0 ms) evs (lane, q, taken, acked, ref) = Some (lane', q', taken', acked', ref') \<Longrightarrow>
   stream_run cfg idx ms Segs lane' q' taken' (set acked') ref'"
proof (induction evs arbitrary: lane q taken acked ref)
  case (Cons ev evs)
  show ?case
  proof (cases ev)
    case (Segment b e)
    then obtain r lane2 q2 where
      s: "SNP_ReceiveReliableSegment cfg Connected b (seg_bytes (stream_of 0 ms) b e) idx lane q = Some (r, lane2, q2)"
      using Cons.prems(3) by (auto split: option.splits)
    have "(b, e) \<in> Segs" using Cons.prems(2) Segment by simp
    from stream_run.segment [OF Cons.prems(1) this _ s]
    have "stream_run cfg idx ms Segs lane2 q2 taken (set (if r = Accepted then (b, e) # acked else acked)) (ref \<or> r \<noteq> Accepted)"
      by (cases "r = Accepted") simp_all
    from Cons.IH [OF this] show ?thesis using Cons.prems(2,3) Segment s by simp
  next
    case (Other m hi)
    obtain ok q2 where "ReceivedMessage cfg m q = (ok, q2)" by force
    with stream_run.other [OF Cons.prems(1) _ this, of hi] Cons.IH [of "lane\<lparr>m_nHighestSeenMsgNum := hi\<rparr>" q2 taken acked ref]
    show ?thesis using Cons.prems(2,3) Other by (auto split: if_splits)
  next
    case (Take n)
    obtain got q2 where "RemoveMessages n q = (got, q2)" by force
    with stream_run.take [OF Cons.prems(1) this] Cons.IH [of lane q2 "taken @ got" acked ref]
    show ?thesis using Cons.prems(2,3) Take by auto
  qed
qed simp

subsection \<open>What the receiver guarantees\<close>

definition three_messages :: "(int \<times> byte list) list" where
  "three_messages = [(1, [7]), (2, [8]), (3, [9])]"

definition three_segments :: "(int \<times> int) set" where
  "three_segments = {(1, 3), (3, 5), (5, 7)}"

definition small_config :: RecvConfig where
  "small_config = \<lparr>RecvBufferSize = 100, RecvBufferMessages = 1, RecvMaxMessageSize = 50\<rparr>"

definition roomy_config :: RecvConfig where
  "roomy_config = \<lparr>RecvBufferSize = 100, RecvBufferMessages = 10, RecvMaxMessageSize = 50\<rparr>"


lemma three_ok: "segments_ok three_segments (length (stream_of 0 three_messages))" "well_sent 0 three_messages"
proof -
  have "length (stream_of 0 three_messages) = 6" by code_simp
  then show "segments_ok three_segments (length (stream_of 0 three_messages))" by (simp add: segments_ok_def three_segments_def)
qed (simp add: three_messages_def)

lemma roomy_run:
  "stream_events roomy_config 0 (stream_of 0 three_messages) [Segment 3 5, Segment 1 3, Take 1, Segment 3 5] (Lane_new, [], [], [], False) =
   Some (Lane_new\<lparr>m_nHighestSeenMsgNum := 2, m_nReliableStreamPos := 5, m_nLastRecvReliableMsgNum := 2\<rparr>,
     [to_message 0 (2, [8])], [to_message 0 (1, [7])], [(3, 5), (1, 3), (3, 5)], False)"
  by code_simp


text \<open>
  C9: In order, exactly once: what the application got from the lane and what waits for it in
  the queue is always the beginning of what was sent, each message with its number and bytes, whatever order the
  segments arrive in, however often, and whatever is refused.
\<close>
theorem reliable_in_order:
  assumes "stream_run cfg idx ms Segs lane q taken acked refused_any"
    "segments_ok Segs (length (stream_of 0 ms))" "well_sent 0 ms"
  shows "\<exists>k \<le> length ms. lane_msgs idx (taken @ q) = map (to_message idx) (take k ms) \<and>
    m_nReliableStreamPos lane = 1 + int (length (stream_of 0 (take k ms)))"
proof -
  obtain ms1 ms2 where "ms = ms1 @ ms2" "delivered idx ms1 ms2 lane (taken @ q)"
    using stream_run_inv [OF assms] by blast
  then show ?thesis by (intro exI [of _ "length ms1"]) (simp add: delivered_def)
qed

theorem reliable_in_order_witness:
  "\<exists>lane q taken. taken @ q \<noteq> [] \<and>
     stream_run roomy_config 0 three_messages three_segments lane q taken {(1, 3), (3, 5)} False \<and>
     (\<exists>k \<le> 3. lane_msgs 0 (taken @ q) = map (to_message 0) (take k three_messages) \<and>
       m_nReliableStreamPos lane = 1 + int (length (stream_of 0 (take k three_messages))))"
proof -
  define lane q taken where "lane = Lane_new\<lparr>m_nHighestSeenMsgNum := 2, m_nReliableStreamPos := 5, m_nLastRecvReliableMsgNum := 2\<rparr>"
    and "q = [to_message 0 (2, [8])]" and "taken = [to_message 0 (1, [7])]"
  have "stream_run roomy_config 0 three_messages three_segments Lane_new [] [] (set []) False"
    using stream_run.start by simp
  from stream_events_run [OF this _ roomy_run]
  have r: "stream_run roomy_config 0 three_messages three_segments lane q taken {(1, 3), (3, 5)} False"
    by (simp add: lane_def q_def taken_def three_segments_def insert_commute)
  have "length three_messages = 3" by (simp add: three_messages_def)
  with reliable_in_order [OF r three_ok] r show ?thesis by (intro exI [of _ lane] exI [of _ q] exI [of _ taken]) (simp add: q_def)
qed

text \<open>
  C10: Nothing is undefined when a segment of the stream arrives, whatever came before: no access outside the buffer,
  no undefined shift, no loop that does not end. If the messages are within the limits of the receiver, the
  connection is not given up.
\<close>
theorem reliable_segment_total:
  assumes "stream_run cfg idx ms Segs lane q taken acked refused_any"
    "segments_ok Segs (length (stream_of 0 ms))" "well_sent 0 ms"
    "(b, e) \<in> Segs" "state = Connected \<or> state = FindingRoute"
  shows "\<exists>r lane' q'. SNP_ReceiveReliableSegment cfg state b (seg_bytes (stream_of 0 ms) b e) idx lane q = Some (r, lane', q') \<and>
    (sendable cfg 0 ms \<longrightarrow> r \<noteq> Problem)"
proof -
  obtain ms1 ms2 where I: "ms = ms1 @ ms2" "stream_lane (stream_of 0 ms) Segs lane" "delivered idx ms1 ms2 lane (taken @ q)"
    "\<not> refused_any \<longrightarrow> no_complete (last_num 0 ms1) ms2 (head_size lane)"
    using stream_run_inv [OF assms(1-3)] by blast
  show ?thesis by (rule segment_step [OF I(1) assms(3,2,4,5) I(2-4), where cfg = cfg]) blast
qed

theorem reliable_segment_total_witness:
  "\<exists>r lane' q'. SNP_ReceiveReliableSegment small_config Connected 3 (seg_bytes (stream_of 0 three_messages) 3 5) 0 Lane_new [] =
     Some (r, lane', q') \<and> (sendable small_config 0 three_messages \<longrightarrow> r \<noteq> Problem)"
  by (rule reliable_segment_total [OF stream_run.start three_ok]) (simp_all add: three_segments_def)

text \<open>
  Acknowledged data is delivered: as long as no segment was refused, every message all of whose
  bytes were in accepted segments has gone to the application or waits in its queue.
\<close>
theorem acked_messages_delivered:
  assumes "stream_run cfg idx ms Segs lane q taken acked False"
    "segments_ok Segs (length (stream_of 0 ms))" "well_sent 0 ms"
    "k \<le> length ms" "\<And>p. 1 \<le> p \<Longrightarrow> p \<le> int (length (stream_of 0 (take k ms))) \<Longrightarrow> \<exists>s \<in> acked. fst s \<le> p \<and> p < snd s"
  shows "take k (lane_msgs idx (taken @ q)) = map (to_message idx) (take k ms)"
proof -
  obtain ms1 ms2 where I: "ms = ms1 @ ms2" "stream_lane (stream_of 0 ms) Segs lane" "delivered idx ms1 ms2 lane (taken @ q)"
    "no_complete (last_num 0 ms1) ms2 (head_size lane)" "\<forall>s \<in> acked. \<forall>p. fst s \<le> p \<and> p < snd s \<longrightarrow> has_byte lane p"
    using stream_run_inv [OF assms(1-3)] by blast
  have d: "lane_msgs idx (taken @ q) = map (to_message idx) ms1" "m_nReliableStreamPos lane = 1 + int (length (stream_of 0 ms1))"
    using I(3) by (simp_all add: delivered_def)
  have "k \<le> length ms1"
  proof (rule ccontr)
    assume k: "\<not> k \<le> length ms1"
    then obtain m ms3 where m: "ms2 = m # ms3" using I(1) assms(4) by (cases ms2) auto
    then have "take k ms = (ms1 @ [m]) @ take (k - Suc (length ms1)) ms3"
      using k I(1) Suc_diff_Suc [of "length ms1" k] by (simp add: m flip: Suc_diff_Suc)
    then have len: "length (stream_of 0 ms1) + length (wire (last_num 0 ms1) m) \<le> length (stream_of 0 (take k ms))"
      by (simp add: stream_of_append)
    have "head_size lane < length (wire (last_num 0 ms1) m)" using I(4) m by (simp add: no_complete_def)
    then obtain s where "s \<in> acked" "fst s \<le> m_nReliableStreamPos lane + int (head_size lane)"
      "m_nReliableStreamPos lane + int (head_size lane) < snd s"
      using assms(5) [of "m_nReliableStreamPos lane + int (head_size lane)"] len d(2) by auto
    then have "has_byte lane (m_nReliableStreamPos lane + int (head_size lane))" using I(5) by blast
    then show False using head_bounds(3) [OF I(2)] by blast
  qed
  then show ?thesis using I(1) d(1) by (simp add: take_map)
qed

theorem acked_messages_delivered_witness:
  "\<exists>lane q taken. stream_run roomy_config 0 three_messages three_segments lane q taken {(1, 3), (3, 5)} False \<and>
     take 2 (lane_msgs 0 (taken @ q)) = map (to_message 0) (take 2 three_messages)"
proof -
  define lane q taken where "lane = Lane_new\<lparr>m_nHighestSeenMsgNum := 2, m_nReliableStreamPos := 5, m_nLastRecvReliableMsgNum := 2\<rparr>"
    and "q = [to_message 0 (2, [8])]" and "taken = [to_message 0 (1, [7])]"
  have "stream_run roomy_config 0 three_messages three_segments Lane_new [] [] (set []) False"
    using stream_run.start by simp
  from stream_events_run [OF this _ roomy_run]
  have r: "stream_run roomy_config 0 three_messages three_segments lane q taken {(1, 3), (3, 5)} False"
    by (simp add: lane_def q_def taken_def three_segments_def insert_commute)
  have "length (stream_of 0 (take 2 three_messages)) = 4" by code_simp
  then have "take 2 (lane_msgs 0 (taken @ q)) = map (to_message 0) (take 2 three_messages)"
    by (intro acked_messages_delivered [OF r three_ok]) (auto simp: three_messages_def)
  with r show ?thesis by blast
qed


end
