(* ===== verification/ReliableTransfer.thy ===== *)
theory ReliableTransfer
  imports SnpStream
begin

text \<open>
  From \<open>SNP_SendMessage\<close> to the application at the other end. The messages a lane of the sender accepted make up the
  reliable stream, and the receiver of the segments of that stream gets them.
\<close>

subsection \<open>Sending\<close>

text \<open>A request is a lane, flags and data; one that fails changes nothing.\<close>

fun send_all :: "int \<Rightarrow> (nat \<times> int \<times> byte list) list \<Rightarrow> SSNPSenderState \<Rightarrow> SSNPSenderState" where
  "send_all nSendBufferSize [] s = s"
| "send_all nSendBufferSize ((i, flags, data) # rs) s =
     (case SNP_SendMessage nSendBufferSize i flags data s of
        Inl e \<Rightarrow> send_all nSendBufferSize rs s | Inr (msg, s) \<Rightarrow> send_all nSendBufferSize rs s)"

definition reliable_queue :: "SendLane \<Rightarrow> OutMessage list" where
  "reliable_queue l = filter (\<lambda>m. out_flags m AND k_nSteamNetworkingSend_Reliable \<noteq> 0) (lane_messagesQueued l)"

definition sent_message :: "OutMessage \<Rightarrow> int \<times> byte list" where
  "sent_message m = (out_msg_num m, out_data m)"

definition sent_bytes :: "OutMessage \<Rightarrow> byte list" where
  "sent_bytes m = out_hdr m @ out_data m"

text \<open>The positions of consecutive messages from \<open>pos\<close> on.\<close>

fun placed :: "int \<Rightarrow> OutMessage list \<Rightarrow> bool" where
  "placed pos [] \<longleftrightarrow> True"
| "placed pos (m # ms) \<longleftrightarrow> out_stream_pos m = pos \<and> placed (pos + int (length (sent_bytes m))) ms"

definition send_lane_ok :: "SendLane \<Rightarrow> bool" where
  "send_lane_ok l \<longleftrightarrow>
     concat (map sent_bytes (reliable_queue l)) = stream_of 0 (map sent_message (reliable_queue l)) \<and>
     placed 1 (reliable_queue l) \<and>
     m_nReliableStreamNextSendPos l = 1 + int (length (stream_of 0 (map sent_message (reliable_queue l)))) \<and>
     m_nLastSendMsgNumReliable l = last_num 0 (map sent_message (reliable_queue l)) \<and>
     m_nLastSendMsgNumReliable l \<le> m_nLastSentMsgNum l \<and> 0 \<le> m_nLastSendMsgNumReliable l \<and>
     m_nLastSentMsgNum l = int (length (lane_messagesQueued l)) \<and>
     (m_nLastSentMsgNum l < 2 ^ 63 \<longrightarrow> well_sent 0 (map sent_message (reliable_queue l))) \<and>
     (\<forall>m \<in> set (reliable_queue l). length (out_hdr m) \<le> 15 \<and> int (length (out_data m)) < 2 ^ 31) \<and>
     lane_cbPendingReliable l = int (length (stream_of 0 (map sent_message (reliable_queue l)))) \<and>
     lane_cbPendingUnreliable l = sum_list (map (\<lambda>m. int (length (out_data m)))
       (filter (\<lambda>m. \<not> (out_flags m AND k_nSteamNetworkingSend_Reliable \<noteq> 0)) (lane_messagesQueued l)))"

lemma placed_append: "placed pos (ms @ ms') \<longleftrightarrow> placed pos ms \<and> placed (pos + int (length (concat (map sent_bytes ms)))) ms'"
  by (induction ms arbitrary: pos) (simp_all add: add.assoc)

lemma send_lane_new: "send_lane_ok SendLane_new"
  by (simp add: send_lane_ok_def SendLane_new_def reliable_queue_def)

text \<open>The header fits into the 16 bytes of \<open>m_hdr\<close>.\<close>

lemma header_length:
  assumes "0 \<le> z" "z < 2 ^ 31"
  shows "length (ReliableHeader g z) \<le> 15"
proof -
  have g: "length (gap_bytes g) \<le> 10" using varint_roundtrip [of "word_of_int g"] by (simp add: gap_bytes_def)
  have d: "0 \<le> drop_bit 5 z" "drop_bit 5 z < 2 ^ 28" using assms by (auto simp: drop_bit_eq_div)
  then have "unat (word_of_int (drop_bit 5 z) :: 64 word) = nat (drop_bit 5 z)"
    by (simp add: nat_uint_eq [symmetric] uint_word_of_int take_bit_int_eq_self)
  then have "length (SerializeVarInt (word_of_int (drop_bit 5 z))) \<le> 4" using length_Serialize [of 4] d by simp
  then have "length (size_bytes z) \<le> 4" by (simp add: size_bytes_def)
  moreover obtain h where "ReliableHeader g z = h # gap_bytes g @ size_bytes z" using header_byte [OF assms(1)] by metis
  ultimately show ?thesis using g by simp
qed

lemma queue_reliable_ok:
  assumes l: "send_lane_ok l" and f: "flags AND k_nSteamNetworkingSend_Reliable \<noteq> 0" and data: "int (length data) < 2 ^ 31"
    and q: "queue_reliable flags data l = (msg, l')"
  shows "send_lane_ok l'" "reliable_queue l' = reliable_queue l @ [msg]" "out_data msg = data"
    "lane_cbPendingReliable l' = lane_cbPendingReliable l + int (length data) + int (length (out_hdr msg))"
    "lane_cbPendingUnreliable l' = lane_cbPendingUnreliable l"
proof -
  define num hdr where "num = m_nLastSentMsgNum l + 1"
    and "hdr = ReliableHeader (num - m_nLastSendMsgNumReliable l) (int (length data))"
  have msg: "msg = \<lparr>out_msg_num = num, out_flags = flags, out_stream_pos = m_nReliableStreamNextSendPos l, out_hdr = hdr,
      out_data = data\<rparr>"
    and l': "l' = l\<lparr>m_nLastSentMsgNum := num,
            m_nReliableStreamNextSendPos := m_nReliableStreamNextSendPos l + (int (length data) + int (length hdr)),
            lane_cbPendingReliable := lane_cbPendingReliable l + (int (length data) + int (length hdr)),
            m_nLastSendMsgNumReliable := num, lane_messagesQueued := lane_messagesQueued l @ [msg]\<rparr>"
    using q by (auto simp: queue_reliable_def Let_def num_def hdr_def)
  show rq: "reliable_queue l' = reliable_queue l @ [msg]" using f by (simp add: reliable_queue_def l' msg)
  show "out_data msg = data" by (simp add: msg)
  show "lane_cbPendingReliable l' = lane_cbPendingReliable l + int (length data) + int (length (out_hdr msg))"
    "lane_cbPendingUnreliable l' = lane_cbPendingUnreliable l" by (simp_all add: l' msg)
  let ?ms = "map sent_message (reliable_queue l)"
  note ok = l [unfolded send_lane_ok_def]
  have last: "m_nLastSendMsgNumReliable l = last_num 0 ?ms" using ok by blast
  have sb: "sent_bytes msg = wire (last_num 0 ?ms) (sent_message msg)"
    by (simp add: sent_bytes_def wire_def sent_message_def msg hdr_def last)
  have "length hdr \<le> 15" unfolding hdr_def using data by (intro header_length) simp_all
  moreover have "well_sent 0 (?ms @ [sent_message msg])" if "num < 2 ^ 63"
    using ok that data last by (auto simp: well_sent_append sent_message_def msg num_def)
  moreover have "int (length (wire (last_num 0 ?ms) (sent_message msg))) = int (length data) + int (length hdr)"
    unfolding sb [symmetric] by (simp add: sent_bytes_def msg)
  ultimately show "send_lane_ok l'"
    using ok f data sb unfolding send_lane_ok_def rq
    by (simp add: l' msg stream_of_append placed_append num_def sent_message_def)
qed

lemma queue_unreliable_ok:
  assumes l: "send_lane_ok l" and f: "flags AND k_nSteamNetworkingSend_Reliable = 0"
    and q: "queue_unreliable flags data l = (msg, l')"
  shows "send_lane_ok l'" "reliable_queue l' = reliable_queue l"
    "lane_cbPendingReliable l' = lane_cbPendingReliable l"
    "lane_cbPendingUnreliable l' = lane_cbPendingUnreliable l + int (length data)"
proof -
  define num where "num = m_nLastSentMsgNum l + 1"
  have msg: "msg = \<lparr>out_msg_num = num, out_flags = flags, out_stream_pos = 0, out_hdr = [], out_data = data\<rparr>"
    and l': "l' = l\<lparr>m_nLastSentMsgNum := num, lane_cbPendingUnreliable := lane_cbPendingUnreliable l + int (length data),
            lane_messagesQueued := lane_messagesQueued l @ [msg]\<rparr>"
    using q by (auto simp: queue_unreliable_def Let_def num_def)
  show rq: "reliable_queue l' = reliable_queue l" using f by (simp add: reliable_queue_def l' msg)
  show "lane_cbPendingReliable l' = lane_cbPendingReliable l"
    "lane_cbPendingUnreliable l' = lane_cbPendingUnreliable l + int (length data)" by (simp_all add: l')
  show "send_lane_ok l'" using l f unfolding send_lane_ok_def rq by (auto simp: l' msg num_def)
qed

definition sender_ok :: "SSNPSenderState \<Rightarrow> bool" where
  "sender_ok s \<longleftrightarrow> (\<forall>l \<in> set (send_lanes s). send_lane_ok l) \<and>
     m_cbPendingReliable s = sum_list (map lane_cbPendingReliable (send_lanes s)) \<and>
     m_cbPendingUnreliable s = sum_list (map lane_cbPendingUnreliable (send_lanes s))"

lemma pending_nonneg:
  assumes "sender_ok s"
  shows "0 \<le> PendingBytesTotal s"
proof -
  have "0 \<le> lane_cbPendingReliable l \<and> 0 \<le> lane_cbPendingUnreliable l" if "l \<in> set (send_lanes s)" for l
    using assms that by (auto simp: sender_ok_def send_lane_ok_def intro!: sum_list_nonneg)
  then have "0 \<le> sum_list (map lane_cbPendingReliable (send_lanes s))" "0 \<le> sum_list (map lane_cbPendingUnreliable (send_lanes s))"
    by (auto intro!: sum_list_nonneg)
  then show ?thesis using assms by (simp add: PendingBytesTotal_def sender_ok_def)
qed

lemma sum_list_map_update:
  "i < length xs \<Longrightarrow> sum_list (map f (xs[i := x])) = sum_list (map f xs) - f (xs ! i) + (f x :: int)"
proof (induction xs arbitrary: i)
  case (Cons a xs)
  then show ?case by (cases i) simp_all
qed simp

text \<open>A request that succeeds.\<close>

lemma SNP_SendMessage_Inr:
  assumes s: "sender_ok s" and n: "nSendBufferSize < 2 ^ 31"
    and r: "SNP_SendMessage nSendBufferSize i flags data s = Inr (msg, s')"
  shows "sender_ok s'" "length (send_lanes s') = length (send_lanes s)"
    "PendingBytesTotal s' \<le> nSendBufferSize + 15"
    "\<And>j. j < length (send_lanes s) \<Longrightarrow>
      m_nLastSentMsgNum (send_lanes s' ! j) \<le> m_nLastSentMsgNum (send_lanes s ! j) + 1"
proof -
  define l where "l = send_lanes s ! i"
  define fl where "fl = (if int (length data) > k_cbMaxUnreliableMsgSizeSend \<and> flags AND k_nSteamNetworkingSend_Reliable = 0
    then flags OR k_nSteamNetworkingSend_Reliable else flags)"
  have i: "i < length (send_lanes s)" and fits: "PendingBytesTotal s + int (length data) \<le> nSendBufferSize"
    using r by (auto simp: SNP_SendMessage_def Let_def split: if_splits)
  have l: "l \<in> set (send_lanes s)" "send_lane_ok l" using s i by (simp_all add: l_def sender_ok_def)
  have data: "int (length data) < 2 ^ 31" using fits pending_nonneg [OF s] n by simp
  have eval: "SNP_SendMessage nSendBufferSize i flags data s =
    (if fl AND k_nSteamNetworkingSend_Reliable \<noteq> 0 then
       let (msg, l) = queue_reliable fl data l
       in Inr (msg, s\<lparr>send_lanes := (send_lanes s)[i := l],
            m_nSentReliableSegRefCount := (m_nSentReliableSegRefCount s)((i, out_msg_num msg) := 1), m_nMessagesSentReliable := m_nMessagesSentReliable s + 1,
            m_cbPendingReliable := m_cbPendingReliable s + int (length data) + int (length (out_hdr msg))\<rparr>)
     else
       let (msg, l) = queue_unreliable fl data l
       in Inr (msg, s\<lparr>send_lanes := (send_lanes s)[i := l], m_nMessagesSentUnreliable := m_nMessagesSentUnreliable s + 1,
            m_cbPendingUnreliable := m_cbPendingUnreliable s + int (length data)\<rparr>))"
    using i fits unfolding SNP_SendMessage_def Let_def l_def fl_def by simp
  have up: "set ((send_lanes s)[i := x]) \<subseteq> insert x (set (send_lanes s))" for x by (rule set_update_subset_insert)
  have "sender_ok s' \<and> length (send_lanes s') = length (send_lanes s) \<and> PendingBytesTotal s' \<le> nSendBufferSize + 15 \<and>
    (\<forall>j < length (send_lanes s). m_nLastSentMsgNum (send_lanes s' ! j) \<le> m_nLastSentMsgNum (send_lanes s ! j) + 1)"
  proof (cases "fl AND k_nSteamNetworkingSend_Reliable \<noteq> 0")
    case True
    obtain m l' where q: "queue_reliable fl data l = (m, l')" by force
    note ok = queue_reliable_ok [OF l(2) True data q]
    have s': "s' = s\<lparr>send_lanes := (send_lanes s)[i := l'],
            m_nSentReliableSegRefCount := (m_nSentReliableSegRefCount s)((i, out_msg_num m) := 1), m_nMessagesSentReliable := m_nMessagesSentReliable s + 1,
            m_cbPendingReliable := m_cbPendingReliable s + int (length data) + int (length (out_hdr m))\<rparr>"
      using r True unfolding eval q by auto
    have "length (out_hdr m) \<le> 15" using ok(1,2) by (simp add: send_lane_ok_def)
    moreover have "m_nLastSentMsgNum l' = m_nLastSentMsgNum l + 1" using q by (auto simp: queue_reliable_def Let_def)
    ultimately show ?thesis
      using s i fits ok up [of l'] sum_list_map_update [OF i, of lane_cbPendingReliable l']
        sum_list_map_update [OF i, of lane_cbPendingUnreliable l']
      by (auto simp: s' sender_ok_def PendingBytesTotal_def nth_list_update l_def)
  next
    case False
    obtain m l' where q: "queue_unreliable fl data l = (m, l')" by force
    note ok = queue_unreliable_ok [OF l(2) _ q]
    have s': "s' = s\<lparr>send_lanes := (send_lanes s)[i := l'], m_nMessagesSentUnreliable := m_nMessagesSentUnreliable s + 1,
            m_cbPendingUnreliable := m_cbPendingUnreliable s + int (length data)\<rparr>"
      using r False unfolding eval q by auto
    have "m_nLastSentMsgNum l' = m_nLastSentMsgNum l + 1" using q by (auto simp: queue_unreliable_def Let_def)
    then show ?thesis
      using s i fits ok False up [of l'] sum_list_map_update [OF i, of lane_cbPendingReliable l']
        sum_list_map_update [OF i, of lane_cbPendingUnreliable l']
      by (auto simp: s' sender_ok_def PendingBytesTotal_def nth_list_update l_def)
  qed
  then show "sender_ok s'" "length (send_lanes s') = length (send_lanes s)"
    "PendingBytesTotal s' \<le> nSendBufferSize + 15"
    "\<And>j. j < length (send_lanes s) \<Longrightarrow>
      m_nLastSentMsgNum (send_lanes s' ! j) \<le> m_nLastSentMsgNum (send_lanes s ! j) + 1" by blast+
qed

lemma send_all_ok:
  assumes "sender_ok s" "nSendBufferSize < 2 ^ 31" "PendingBytesTotal s \<le> nSendBufferSize + 15"
    "\<And>j. j < length (send_lanes s) \<Longrightarrow> m_nLastSentMsgNum (send_lanes s ! j) \<le> c"
  shows "sender_ok (send_all nSendBufferSize rs s) \<and>
    length (send_lanes (send_all nSendBufferSize rs s)) = length (send_lanes s) \<and>
    PendingBytesTotal (send_all nSendBufferSize rs s) \<le> nSendBufferSize + 15 \<and>
    (\<forall>j < length (send_lanes s). m_nLastSentMsgNum (send_lanes (send_all nSendBufferSize rs s) ! j) \<le> c + int (length rs))"
  using assms
proof (induction rs arbitrary: s c)
  case (Cons r rs)
  obtain i flags data where r: "r = (i, flags, data)" using prod_cases3 by blast
  show ?case
  proof (cases "SNP_SendMessage nSendBufferSize i flags data s")
    case (Inl e)
    show ?thesis using Cons.IH [OF Cons.prems] by (force simp: r Inl)
  next
    case (Inr p)
    obtain msg s' where p: "p = (msg, s')" by force
    note ok = SNP_SendMessage_Inr [OF Cons.prems(1,2) Inr [unfolded p]]
    have "m_nLastSentMsgNum (send_lanes s' ! j) \<le> c + 1" if "j < length (send_lanes s')" for j
      using ok(2,4) Cons.prems(4) that by fastforce
    from Cons.IH [OF ok(1) Cons.prems(2) ok(3) this] show ?thesis by (simp add: r Inr p ok(2) add.assoc)
  qed
qed simp

text \<open>
  C14: The sender's stream. After any requests, whatever their lanes, flags and sizes, the headers and bytes of the
  reliable messages of a lane, one after the other, are the stream of the messages by number and data; each
  starts at its \<open>m_nReliableStreamPos\<close>, numbers increase, headers fit into the 16 bytes they have, and the bytes
  pending are within the buffer size by at most one header.
\<close>
theorem sender_makes_the_stream:
  assumes "nSendBufferSize < 2 ^ 31" "0 \<le> nSendBufferSize" "length rs < 2 ^ 63"
    "s = send_all nSendBufferSize rs (sender_new n)" "l \<in> set (send_lanes s)" "ms = map sent_message (reliable_queue l)"
  shows "concat (map sent_bytes (reliable_queue l)) = stream_of 0 ms \<and> placed 1 (reliable_queue l) \<and>
    m_nReliableStreamNextSendPos l = 1 + int (length (stream_of 0 ms)) \<and> well_sent 0 ms \<and>
    (\<forall>m \<in> set (reliable_queue l). length (out_hdr m) \<le> 16) \<and>
    m_cbPendingReliable s = sum_list (map lane_cbPendingReliable (send_lanes s)) \<and>
    0 \<le> PendingBytesTotal s \<and> PendingBytesTotal s \<le> nSendBufferSize + 16"
proof -
  have pend: "lane_cbPendingReliable SendLane_new = 0" "lane_cbPendingUnreliable SendLane_new = 0"
    by (simp_all add: SendLane_new_def)
  have new: "sender_ok (sender_new n)" "PendingBytesTotal (sender_new n) \<le> nSendBufferSize + 15"
    using assms(2) pend by (auto simp: sender_ok_def sender_new_def PendingBytesTotal_def send_lane_new sum_list_replicate)
  have "m_nLastSentMsgNum (send_lanes (sender_new n) ! j) \<le> 0" if "j < length (send_lanes (sender_new n))" for j
    using that by (simp add: sender_new_def SendLane_new_def)
  from send_all_ok [OF new(1) assms(1) new(2) this, of rs, folded assms(4)]
  have s: "sender_ok s" "length (send_lanes s) = length (send_lanes (sender_new n))" "PendingBytesTotal s \<le> nSendBufferSize + 15"
    "\<And>j. j < length (send_lanes (sender_new n)) \<Longrightarrow> m_nLastSentMsgNum (send_lanes s ! j) \<le> int (length rs)"
    by auto
  then have "send_lane_ok l" using assms(5) by (simp add: sender_ok_def)
  moreover have "m_nLastSentMsgNum l < 2 ^ 63" using assms(3,5) s(2,4) by (force simp: in_set_conv_nth)
  ultimately show ?thesis
    using s(1,3) pending_nonneg [OF s(1)] assms(6) by (force simp: send_lane_ok_def sender_ok_def)
qed

definition some_requests :: "(nat \<times> int \<times> byte list) list" where
  "some_requests = [(0, 8, [7]), (1, 0, [1, 2]), (0, 0, [5]), (0, 8, replicate 40 9), (0, 8, replicate 100 1), (3, 8, [])]"

lemma some_requests_sent:
  "map (\<lambda>l. map sent_message (reliable_queue l)) (send_lanes (send_all 100 some_requests (sender_new 2))) =
     [[(1, [7]), (3, replicate 40 9)], []] \<and>
   map (\<lambda>l. map out_hdr (reliable_queue l)) (send_lanes (send_all 100 some_requests (sender_new 2))) = [[[1], [0x68, 2, 1]], []]"
  by code_simp

theorem sender_makes_the_stream_witness:
  "\<exists>l. map sent_message (reliable_queue l) = [(1, [7]), (3, replicate 40 9)] \<and>
     concat (map sent_bytes (reliable_queue l)) = stream_of 0 [(1, [7]), (3, replicate 40 9)] \<and> placed 1 (reliable_queue l)"
proof -
  define s where "s = send_all 100 some_requests (sender_new 2)"
  define l where "l = hd (send_lanes s)"
  have q: "map sent_message (reliable_queue l) = [(1, [7]), (3, replicate 40 9)]" "send_lanes s \<noteq> []"
    using some_requests_sent unfolding s_def [symmetric] l_def by (auto simp: map_eq_Cons_conv)
  have "length some_requests < 2 ^ 63" by (simp add: some_requests_def)
  from sender_makes_the_stream [OF _ _ this s_def _ q(1) [symmetric]] q
  show ?thesis by (intro exI [of _ l]) (simp add: l_def)
qed

subsection \<open>End to end\<close>

text \<open>
  The messages a lane accepted, sent in segments that do not overlap, each as often as needed: what arrives at the
  application on that lane is what was sent, in order, without loss in between and without a message twice.
\<close>
theorem reliable_end_to_end:
  assumes "nSendBufferSize < 2 ^ 31" "0 \<le> nSendBufferSize" "length rs < 2 ^ 63"
    "l \<in> set (send_lanes (send_all nSendBufferSize rs (sender_new n)))" "ms = map sent_message (reliable_queue l)"
    "segments_ok Segs (length (concat (map sent_bytes (reliable_queue l))))"
    "stream_run cfg idx ms Segs lane q taken acked refused_any"
  shows "stream_of 0 ms = concat (map sent_bytes (reliable_queue l)) \<and>
    (\<exists>k \<le> length (reliable_queue l). map m_pData (lane_msgs idx (taken @ q)) = map out_data (take k (reliable_queue l)) \<and>
      map m_nMessageNumber (lane_msgs idx (taken @ q)) = map out_msg_num (take k (reliable_queue l)))"
proof -
  have st: "concat (map sent_bytes (reliable_queue l)) = stream_of 0 ms" and ws: "well_sent 0 ms"
    using sender_makes_the_stream [OF assms(1-3) refl assms(4,5)] by simp_all
  obtain ms1 ms2 where I: "ms = ms1 @ ms2" "delivered idx ms1 ms2 lane (taken @ q)"
    using stream_run_inv [OF assms(7) assms(6) [unfolded st] ws] by blast
  have "ms1 = map sent_message (take (length ms1) (reliable_queue l))"
    unfolding take_map [symmetric] assms(5) [symmetric] I(1) by simp
  then have "lane_msgs idx (taken @ q) = map (to_message idx \<circ> sent_message) (take (length ms1) (reliable_queue l))"
    using I(2) by (metis delivered_def map_map)
  moreover have "length ms1 \<le> length (reliable_queue l)" using I(1) assms(5) by (metis length_append length_map le_add1)
  ultimately show ?thesis
    using st by (intro conjI exI [of _ "length ms1"]) (simp_all add: to_message_def sent_message_def o_def)
qed

theorem reliable_end_to_end_witness:
  "\<exists>l lane q taken. stream_run roomy_config 0 three_messages three_segments lane q taken {(1, 3), (3, 5)} False \<and>
     map sent_message (reliable_queue l) = three_messages \<and>
     (\<exists>k \<le> length (reliable_queue l). map m_pData (lane_msgs 0 (taken @ q)) = map out_data (take k (reliable_queue l)) \<and>
      map m_nMessageNumber (lane_msgs 0 (taken @ q)) = map out_msg_num (take k (reliable_queue l)))"
proof -
  define rs where "rs = [(0 :: nat, 8 :: int, [7 :: byte]), (0, 8, [8]), (0, 8, [9])]"
  define s where "s = send_all 100 rs (sender_new 1)"
  have "map (\<lambda>l. map sent_message (reliable_queue l)) (send_lanes s) = [three_messages]" unfolding s_def rs_def by code_simp
  then obtain l where l: "l \<in> set (send_lanes s)" "three_messages = map sent_message (reliable_queue l)" by auto
  have len: "length rs < 2 ^ 63" by (simp add: rs_def)
  have st: "concat (map sent_bytes (reliable_queue l)) = stream_of 0 three_messages"
    using sender_makes_the_stream [OF _ _ len s_def l] by simp
  have "stream_run roomy_config 0 three_messages three_segments Lane_new [] [] (set []) False"
    using stream_run.start by simp
  from stream_events_run [OF this _ roomy_run]
  obtain lane q taken where r: "stream_run roomy_config 0 three_messages three_segments lane q taken {(1, 3), (3, 5)} False"
    by (auto simp: three_segments_def insert_commute)
  have "segments_ok three_segments (length (concat (map sent_bytes (reliable_queue l))))" unfolding st by (rule three_ok)
  from reliable_end_to_end [OF _ _ len l(1) [unfolded s_def] l(2) this r] r l(2) [symmetric] show ?thesis by (simp, blast)
qed

end
