(* ===== verification/SnpStreamFlaws.thy ===== *)
theory SnpStreamFlaws
  imports SnpStream
begin

text \<open>
  Segments that overlap. \<open>SNP_ReceiveReliableSegment\<close> means to handle a segment that fills more than one gap (``in
  some rare cases we might fill more than one gap with a single segment''), as a sender that cuts the stream
  anew for a retransmission would produce. Two runs show what its loop over the gaps does then.
\<close>

subsection \<open>A gap that ends before it begins\<close>

definition two_messages :: "(int \<times> byte list) list" where
  "two_messages = [(1, [7, 7, 7]), (2, [8, 8, 8])]"

definition stuck_lane :: Lane where
  "stuck_lane = \<lparr>m_nHighestSeenMsgNum = 2, m_nReliableStreamPos = 5, m_nLastRecvReliableMsgNum = 1,
     m_bufReliableStream = [3, 8, 8, 8], m_mapReliableStreamGaps = [(5, 1)]\<rparr>"

definition all_ranges :: "int list \<Rightarrow> (int \<times> int) list" where
  "all_ranges ps = concat (map (\<lambda>b. map (\<lambda>e. (b, e)) (filter (\<lambda>e. b < e) ps)) ps)"

lemma overlap_run:
  "stream_events roomy_config 0 (stream_of 0 two_messages)
     [Segment 3 5, Segment 7 9, Segment 1 6, Segment 6 7, Take 1, Segment 1 9] (Lane_new, [], [], [], False) =
   Some (stuck_lane, [], [to_message 0 (1, [7, 7, 7])], [(1, 9), (6, 7), (1, 6), (7, 9), (3, 5)], False)"
  by code_simp

lemma stuck_everywhere:
  "list_all (\<lambda>(b, e). SNP_ReceiveReliableSegment roomy_config Connected b (seg_bytes (stream_of 0 two_messages) b e) 0 stuck_lane [] =
     Some (Accepted, stuck_lane, [])) (all_ranges [1, 2, 3, 4, 5, 6, 7, 8, 9])"
  by code_simp

text \<open>
  C12: Two gaps, and a segment that fills the first and the beginning of the second: the second gap gets the
  end \<open>nSegBegin\<close>, in front of its own beginning, and nothing fills it any more. The whole stream has been accepted,
  no segment was refused, the first message is delivered, and every further segment of the stream
  is accepted and changes nothing: the second message never arrives.
\<close>
theorem overlapping_segment_stalls:
  "length (stream_of 0 two_messages) = 8 \<and>
   (\<exists>acked. stream_run roomy_config 0 two_messages {s. 1 \<le> fst s \<and> snd s \<le> 9} stuck_lane []
      [to_message 0 (1, [7, 7, 7])] acked False \<and> (1, 9) \<in> acked) \<and>
   list_all (\<lambda>(b, e). SNP_ReceiveReliableSegment roomy_config Connected b (seg_bytes (stream_of 0 two_messages) b e) 0
     stuck_lane [] = Some (Accepted, stuck_lane, [])) (all_ranges [1, 2, 3, 4, 5, 6, 7, 8, 9])"
proof (intro conjI stuck_everywhere)
  let ?Segs = "{s. 1 \<le> fst s \<and> snd s \<le> (9 :: int)}"
  have "stream_run roomy_config 0 two_messages ?Segs Lane_new [] [] (set []) False" using stream_run.start by simp
  moreover have "\<forall>b e. Segment b e \<in> set [Segment 3 5, Segment 7 9, Segment 1 6, Segment 6 7, Take 1, Segment 1 9] \<longrightarrow> (b, e) \<in> ?Segs"
    by simp
  ultimately have "stream_run roomy_config 0 two_messages ?Segs stuck_lane [] [to_message 0 (1, [7, 7, 7])]
      (set [(1, 9), (6, 7), (1, 6), (7, 9), (3, 5)]) False"
    using overlap_run by (rule stream_events_run)
  then show "\<exists>acked. stream_run roomy_config 0 two_messages ?Segs stuck_lane [] [to_message 0 (1, [7, 7, 7])] acked False \<and>
      (1, 9) \<in> acked"
    by (intro exI conjI) (assumption, simp)
qed code_simp

subsection \<open>A segment that is refused and changes the gaps\<close>

definition counted :: "byte list" where
  "counted = map (\<lambda>n. word_of_nat (Suc n)) [0..<43]"

text \<open>Twenty gaps: [1,5), [6,9), and every other byte from 10 to 44. Then the segment that is refused, then the gaps.\<close>

definition twenty_gaps :: "stream_event list" where
  "twenty_gaps = map (\<lambda>k. Segment k (k + 1)) [5, 9, 11, 13, 15, 17, 19, 21, 23, 25, 27, 29, 31, 33, 35, 37, 39, 41, 43, 45] @
     [Segment 4 7, Segment 1 4, Segment 6 9] @
     map (\<lambda>k. Segment k (k + 1)) [10, 12, 14, 16, 18, 20, 22, 24, 26, 28, 30, 32, 34, 36, 38, 40, 42, 44]"

lemma twenty_gaps_run:
  "stream_events roomy_config 0 (stream_of 0 [(1, counted)]) twenty_gaps (Lane_new, [], [], [], False) =
   Some (Lane_new\<lparr>m_nHighestSeenMsgNum := 1, m_nReliableStreamPos := 46, m_nLastRecvReliableMsgNum := 1\<rparr>,
     [to_message 0 (1, counted[1 := 0])], [],
     [(44, 45), (42, 43), (40, 41), (38, 39), (36, 37), (34, 35), (32, 33), (30, 31), (28, 29), (26, 27), (24, 25), (22, 23),
      (20, 21), (18, 19), (16, 17), (14, 15), (12, 13), (10, 11), (6, 9), (1, 4), (45, 46), (43, 44), (41, 42), (39, 40),
      (37, 38), (35, 36), (33, 34), (31, 32), (29, 30), (27, 28), (25, 26), (23, 24), (21, 22), (19, 20), (17, 18), (15, 16),
      (13, 14), (11, 12), (9, 10), (5, 6)], True)"
  by code_simp

text \<open>
  C13: A segment that fills the end of one gap and a part of the next, when there are twenty gaps: the
  first gap is made shorter, and then the segment is refused, because it would split the second, before its bytes are stored. The bytes
  that are no longer in a gap are zeros, and the message is delivered with one of them.
\<close>
theorem refused_segment_corrupts:
  "\<exists>lane acked. stream_run roomy_config 0 [(1, counted)] {s. 1 \<le> fst s \<and> snd s \<le> 46} lane
     [to_message 0 (1, counted[1 := 0])] [] acked True \<and> counted ! 1 = 2"
proof -
  let ?Segs = "{s. 1 \<le> fst s \<and> snd s \<le> (46 :: int)}"
  have s: "\<forall>b e. Segment b e \<in> set twenty_gaps \<longrightarrow> (b, e) \<in> ?Segs" by (simp add: twenty_gaps_def)
  have "stream_run roomy_config 0 [(1, counted)] ?Segs Lane_new [] [] (set []) False" using stream_run.start by simp
  from stream_events_run [OF this s twenty_gaps_run]
  have "\<exists>lane acked. stream_run roomy_config 0 [(1, counted)] ?Segs lane [to_message 0 (1, counted[1 := 0])] [] acked True"
    by blast
  moreover have "counted ! 1 = 2" by code_simp
  ultimately show ?thesis by blast
qed

end
