(* ===== verification/SnpSegments.thy ===== *)
theory SnpSegments
  imports SnpSend
begin

text \<open>
  Which segments go into a packet and what they look like on the wire: \<open>SNPEncodedSegment\<close>, the segment collectors,
  \<open>SNP_SerializePacketInternal\<close> from the retries on and \<open>SNP_SerializeSegments\<close> of
  \<open>src/GameNetworkingSockets/src/steamnetworkingsockets/clientlib/steamnetworkingsockets_snp.cpp\<close>.

  The collector is the one for several lanes; the one for a single lane does the same with lane 0, which has no
  header. Which lane sends next depends on virtual times, which are computed from floating point weights: it is the
  parameter \<open>pick\<close>. So are the room for segments, which depends on the rate and on the acks in
  the packet, and \<open>m_cbMaxReliableMessageSegment\<close>. A copy beyond the bytes of a message, an index
  without a lane or a segment, and a header that does not fit are \<open>None\<close>.
\<close>

subsection \<open>Segments\<close>

record SNPEncodedSegment =
  e_lane :: nat
  e_msg :: OutMessage
  m_cbSegSize :: int
  e_nOffset :: int
  m_hdr :: "byte list"
  m_hRetryReliableSeg :: "nat option"

definition k_cbMaxHdr :: nat where
  "k_cbMaxHdr = 13"

definition out_size :: "OutMessage \<Rightarrow> int" where
  "out_size m = int (length (out_hdr m)) + int (length (out_data m))"

definition SNPSend_IsReliable :: "OutMessage \<Rightarrow> bool" where
  "SNPSend_IsReliable m \<longleftrightarrow> out_flags m AND k_nSteamNetworkingSend_Reliable \<noteq> 0"

text \<open>The lowest \<open>n\<close> bytes, little endian.\<close>

definition le_bytes :: "nat \<Rightarrow> int \<Rightarrow> byte list" where
  "le_bytes n x = map (\<lambda>i. word_of_int (drop_bit (8 * i) x)) [0..<n]"

definition reliable_hdr :: "int \<Rightarrow> int \<Rightarrow> byte list" where
  "reliable_hdr nBegin nLastReliableStreamPosEnd =
     (if nLastReliableStreamPosEnd = 0 then
        (0x40 OR 0x10) # le_bytes 2 nBegin @ le_bytes 4 (drop_bit 16 nBegin)
      else
        let nOffset = nBegin - nLastReliableStreamPosEnd
        in if nOffset = 0 then [0x40]
           else if nOffset < 0x100 then (0x40 OR push_bit 3 1) # le_bytes 1 nOffset
           else if nOffset < 0x10000 then (0x40 OR push_bit 3 2) # le_bytes 2 nOffset
           else (0x40 OR push_bit 3 3) # le_bytes 4 nOffset)"

definition SetupReliable :: "nat \<Rightarrow> OutMessage \<Rightarrow> int \<Rightarrow> int \<Rightarrow> int \<Rightarrow> nat option \<Rightarrow> SNPEncodedSegment" where
  "SetupReliable idxLane msg nBegin nEnd nLastReliableStreamPosEnd hRetry =
     \<lparr>e_lane = idxLane, e_msg = msg, m_cbSegSize = nEnd - nBegin, e_nOffset = nBegin - out_stream_pos msg,
      m_hdr = reliable_hdr nBegin nLastReliableStreamPosEnd, m_hRetryReliableSeg = hRetry\<rparr>"

definition or_hdr :: "byte \<Rightarrow> byte list \<Rightarrow> byte list" where
  "or_hdr b hdr = (case hdr of [] \<Rightarrow> [] | h # hs \<Rightarrow> (h OR b) # hs)"

definition unreliable_hdr :: "int \<Rightarrow> int \<Rightarrow> int \<Rightarrow> byte list option" where
  "unreliable_hdr nMsgNum nOffset nLastMsgNumForUnreliable = do {
     hdr \<leftarrow> (if nLastMsgNumForUnreliable = 0 then Some ((0x00 OR 0x10) # le_bytes 4 nMsgNum)
       else
         let nDelta = nMsgNum - nLastMsgNumForUnreliable
         in if nDelta = 1 then Some [0x00]
            else map_option (\<lambda>bs. (0x00 OR 0x10) # bs) (SerializeVarInt_end (word_of_int nDelta) (k_cbMaxHdr - 1)));
     if nOffset > 0 then
       map_option (\<lambda>bs. or_hdr 0x08 (hdr @ bs)) (SerializeVarInt_end (word_of_int nOffset) (k_cbMaxHdr - length hdr))
     else Some hdr
   }"

definition SetupUnreliable :: "nat \<Rightarrow> OutMessage \<Rightarrow> int \<Rightarrow> int \<Rightarrow> SNPEncodedSegment option" where
  "SetupUnreliable idxLane msg nOffset nLastMsgNumForUnreliable =
     map_option (\<lambda>hdr. \<lparr>e_lane = idxLane, e_msg = msg, m_cbSegSize = out_size msg - nOffset, e_nOffset = nOffset,
       m_hdr = hdr, m_hRetryReliableSeg = None\<rparr>)
       (unreliable_hdr (out_msg_num msg) nOffset nLastMsgNumForUnreliable)"

subsection \<open>Collectors\<close>

record SegmentCollectorLane =
  m_nLaneID :: nat
  lane_hdr :: "byte list"
  m_vecSegments :: "SNPEncodedSegment list"
  m_nLastMsgNumForUnreliable :: int
  m_nLastReliableStreamPosEnd :: int

record SegmentCollector =
  m_cbRemainingForSegments :: int
  collector_lanes :: "SegmentCollectorLane list"

text \<open>
  The bytes that select a lane, \<open>m_cbHdr\<close> of them: the size is counted from the byte behind the first one.
\<close>

definition lane_select_hdr :: "nat \<Rightarrow> byte list" where
  "lane_select_hdr nLaneID =
     (if nLaneID = 0 then []
      else if nLaneID \<le> 7 then [word_of_nat (0x87 + nLaneID)]
      else
        let p = SerializeVarInt (word_of_nat nLaneID); m_cbHdr = length p
        in take m_cbHdr (0x8f # p))"

fun find_lane :: "nat \<Rightarrow> SegmentCollectorLane list \<Rightarrow> nat option" where
  "find_lane nLaneID [] = None"
| "find_lane nLaneID (l # ls) = (if m_nLaneID l = nLaneID then Some 0 else map_option Suc (find_lane nLaneID ls))"

definition GetLane :: "nat \<Rightarrow> SegmentCollector \<Rightarrow> nat \<times> SegmentCollector" where
  "GetLane nLaneID c =
     (case find_lane nLaneID (collector_lanes c) of
        Some k \<Rightarrow> (k, c)
      | None \<Rightarrow>
          let l = \<lparr>m_nLaneID = nLaneID, lane_hdr = lane_select_hdr nLaneID, m_vecSegments = [],
                   m_nLastMsgNumForUnreliable = 0, m_nLastReliableStreamPosEnd = 0\<rparr>
          in (length (collector_lanes c),
              c\<lparr>collector_lanes := collector_lanes c @ [l],
                m_cbRemainingForSegments := m_cbRemainingForSegments c - int (length (lane_hdr l))\<rparr>))"

definition AddReliableRetry :: "nat \<Rightarrow> SNPSendReliableSegment \<Rightarrow> SegmentCollectorLane \<Rightarrow> SegmentCollectorLane" where
  "AddReliableRetry hRelSeg relSeg l =
     (let nBegin = out_stream_pos (seg_msg relSeg) + m_nOffset relSeg; nEnd = nBegin + m_cbSize relSeg
      in l\<lparr>m_vecSegments := m_vecSegments l @
             [SetupReliable (seg_lane relSeg) (seg_msg relSeg) nBegin nEnd (m_nLastReliableStreamPosEnd l) (Some hRelSeg)],
           m_nLastReliableStreamPosEnd := nEnd\<rparr>)"

definition AddReliable :: "nat \<Rightarrow> OutMessage \<Rightarrow> int \<Rightarrow> int \<Rightarrow> SegmentCollectorLane \<Rightarrow> SegmentCollectorLane" where
  "AddReliable idxLane msg nBegin nEnd l =
     l\<lparr>m_nLastMsgNumForUnreliable :=
         (if m_nLastMsgNumForUnreliable l > 0 then m_nLastMsgNumForUnreliable l + 1 else m_nLastMsgNumForUnreliable l),
       m_vecSegments := m_vecSegments l @ [SetupReliable idxLane msg nBegin nEnd (m_nLastReliableStreamPosEnd l) None],
       m_nLastReliableStreamPosEnd := nEnd\<rparr>"

definition AddUnreliable :: "nat \<Rightarrow> OutMessage \<Rightarrow> int \<Rightarrow> SegmentCollectorLane \<Rightarrow> SegmentCollectorLane option" where
  "AddUnreliable idxLane msg nOffset l =
     map_option (\<lambda>seg. l\<lparr>m_vecSegments := m_vecSegments l @ [seg], m_nLastMsgNumForUnreliable := out_msg_num msg\<rparr>)
       (SetupUnreliable idxLane msg nOffset (m_nLastMsgNumForUnreliable l))"

text \<open>The last segment of lane \<open>k\<close> is taken back.\<close>

definition UndoLast :: "nat \<Rightarrow> SegmentCollector \<Rightarrow> SegmentCollector" where
  "UndoLast k c =
     (let l = collector_lanes c ! k; segs = butlast (m_vecSegments l)
      in if segs = [] then
           c\<lparr>m_cbRemainingForSegments := m_cbRemainingForSegments c + int (length (lane_hdr l)),
             collector_lanes := butlast (collector_lanes c)\<rparr>
         else c\<lparr>collector_lanes := (collector_lanes c)[k := l\<lparr>m_vecSegments := segs\<rparr>]\<rparr>)"

subsection \<open>Collecting\<close>

definition segment_of :: "SSNPSenderState \<Rightarrow> nat \<Rightarrow> SNPSendReliableSegment option" where
  "segment_of s h = map_of (m_listSentReliableSegments s) h"

text \<open>The retries. The result says whether to go to \<open>done_with_all_segments\<close>.\<close>

fun collect_retries :: "SSNPSenderState \<Rightarrow> nat list \<Rightarrow> SegmentCollector \<Rightarrow> (bool \<times> SegmentCollector) option" where
  "collect_retries s [] c = Some (False, c)"
| "collect_retries s (hRetrySeg # hs) c =
     (if m_cbRemainingForSegments c \<le> 2 then Some (True, c)
      else do {
        relSeg \<leftarrow> segment_of s hRetrySeg;
        let (k, c) = GetLane (seg_lane relSeg) c;
        let c = c\<lparr>collector_lanes := (collector_lanes c)[k := AddReliableRetry hRetrySeg relSeg (collector_lanes c ! k)]\<rparr>;
        let seg = last (m_vecSegments (collector_lanes c ! k));
        let cbSegTotalWithoutSizeField = int (length (m_hdr seg)) + m_cbSegSize seg;
        if cbSegTotalWithoutSizeField > m_cbRemainingForSegments c then Some (True, UndoLast k c)
        else collect_retries s hs
          (c\<lparr>m_cbRemainingForSegments := m_cbRemainingForSegments c - cbSegTotalWithoutSizeField - 1\<rparr>)
      })"

definition upd_lane :: "nat \<Rightarrow> (SendLane \<Rightarrow> SendLane) \<Rightarrow> SSNPSenderState \<Rightarrow> SSNPSenderState" where
  "upd_lane i f s = s\<lparr>send_lanes := (send_lanes s)[i := f (send_lanes s ! i)]\<rparr>"

text \<open>
  The ready lane with the earliest virtual finish time in the first priority class that has one. The finish times of messages
  are computed in floating point and are given by \<open>vft\<close>. A connection with one lane has one class.
\<close>

definition k_virtSendTime_Infinite :: int where
  "k_virtSendTime_Infinite = 2 ^ 63 - 1"

fun earliest_lane :: "(nat \<Rightarrow> OutMessage \<Rightarrow> int) \<Rightarrow> SSNPSenderState \<Rightarrow> nat list \<Rightarrow> nat option \<Rightarrow> int \<Rightarrow> nat option" where
  "earliest_lane vft s [] found virtTimeMinEstFinish = found"
| "earliest_lane vft s (idxLane # is) found virtTimeMinEstFinish =
     (case lane_messagesQueued (send_lanes s ! idxLane) of
        [] \<Rightarrow> earliest_lane vft s is found virtTimeMinEstFinish
      | pNextMsg # _ \<Rightarrow>
          if vft idxLane pNextMsg < virtTimeMinEstFinish then earliest_lane vft s is (Some idxLane) (vft idxLane pNextMsg)
          else earliest_lane vft s is found virtTimeMinEstFinish)"

fun pick_lane :: "(nat \<Rightarrow> OutMessage \<Rightarrow> int) \<Rightarrow> nat list list \<Rightarrow> SSNPSenderState \<Rightarrow> nat option" where
  "pick_lane vft [] s = None"
| "pick_lane vft (pc # m_vecPriorityClasses) s =
     (case earliest_lane vft s pc None k_virtSendTime_Infinite of
        Some idxLane \<Rightarrow> Some idxLane
      | None \<Rightarrow> pick_lane vft m_vecPriorityClasses s)"

text \<open>One turn of the loop over the messages: \<open>Stop\<close> leaves the loop.\<close>

datatype collect_step = Stop SSNPSenderState SegmentCollector | More SSNPSenderState SegmentCollector

definition upd_last :: "(SNPEncodedSegment \<Rightarrow> SNPEncodedSegment) \<Rightarrow> nat \<Rightarrow> SegmentCollector \<Rightarrow> SegmentCollector" where
  "upd_last f k c =
     (let l = collector_lanes c ! k; segs = m_vecSegments l
      in c\<lparr>collector_lanes := (collector_lanes c)[k := l\<lparr>m_vecSegments := butlast segs @ [f (last segs)]\<rparr>]\<rparr>)"

definition start_segment ::
  "int \<Rightarrow> nat \<Rightarrow> OutMessage \<Rightarrow> int \<Rightarrow> SegmentCollectorLane \<Rightarrow> (bool \<times> SegmentCollectorLane) option" where
  "start_segment m_cbMaxReliableMessageSegment idxLane msg cbSent l =
     (if SNPSend_IsReliable msg then
        let nBegin = out_stream_pos msg + cbSent; cbDesiredSegSize = out_size msg - cbSent;
            bLastSegment = (cbDesiredSegSize > m_cbMaxReliableMessageSegment);
            nEnd = nBegin + (if bLastSegment then m_cbMaxReliableMessageSegment else cbDesiredSegSize)
        in Some (bLastSegment, AddReliable idxLane msg nBegin nEnd l)
      else map_option (Pair False) (AddUnreliable idxLane msg cbSent l))"

text \<open>The message at the head of the lane leaves the queue.\<close>

definition finish_message :: "nat \<Rightarrow> OutMessage \<Rightarrow> SSNPSenderState \<Rightarrow> SSNPSenderState" where
  "finish_message idxLane msg s =
     (let s = upd_lane idxLane (\<lambda>l. l\<lparr>m_cbCurrentSendMessageSent := 0, lane_messagesQueued := tl (lane_messagesQueued l)\<rparr>) s
      in if SNPSend_IsReliable msg then
           s\<lparr>m_nSentReliableSegRefCount :=
               (m_nSentReliableSegRefCount s)((idxLane, out_msg_num msg) := m_nSentReliableSegRefCount s (idxLane, out_msg_num msg) - 1),
             m_unackedReliableMessages := m_unackedReliableMessages s @ [(idxLane, msg)]\<rparr>
         else s)"

definition collect_one ::
  "int \<Rightarrow> (SSNPSenderState \<Rightarrow> nat option) \<Rightarrow> SSNPSenderState \<Rightarrow> SegmentCollector \<Rightarrow> collect_step option" where
  "collect_one m_cbMaxReliableMessageSegment pick s c =
     (if m_cbRemainingForSegments c > 4 then
        (case pick s of
           None \<Rightarrow> Some (Stop s c)
         | Some idxLane \<Rightarrow>
             if idxLane < length (send_lanes s) \<and> lane_messagesQueued (send_lanes s ! idxLane) \<noteq> [] then do {
               let sendLane = send_lanes s ! idxLane;
               let pSendMsg = hd (lane_messagesQueued sendLane);
               let (k, c) = GetLane idxLane c;
               (bLastSegment, l) \<leftarrow> start_segment m_cbMaxReliableMessageSegment idxLane pSendMsg
                 (m_cbCurrentSendMessageSent sendLane) (collector_lanes c ! k);
               let c = c\<lparr>collector_lanes := (collector_lanes c)[k := l]\<rparr>;
               let seg = last (m_vecSegments l);
               let cbHdr = int (length (m_hdr seg));
               if bLastSegment \<or> cbHdr + m_cbSegSize seg > m_cbRemainingForSegments c then
                 if cbHdr + min 16 (m_cbSegSize seg) > m_cbRemainingForSegments c then Some (Stop s (UndoLast k c))
                 else do {
                   let cbSegSize = min (m_cbSegSize seg) (m_cbRemainingForSegments c - cbHdr);
                   let c = upd_last (\<lambda>seg. seg\<lparr>m_cbSegSize := cbSegSize\<rparr>) k c;
                   Some (Stop
                     (upd_lane idxLane (\<lambda>l. l\<lparr>m_cbCurrentSendMessageSent := m_cbCurrentSendMessageSent l + cbSegSize\<rparr>) s)
                     (c\<lparr>m_cbRemainingForSegments := m_cbRemainingForSegments c - (cbHdr + cbSegSize)\<rparr>))
                 }
               else do {
                 let c = c\<lparr>m_cbRemainingForSegments := m_cbRemainingForSegments c - (cbHdr + m_cbSegSize seg) - 1\<rparr>;
                 Some (More (finish_message idxLane pSendMsg s)
                   (if SNPSend_IsReliable pSendMsg then c else upd_last (\<lambda>seg. seg\<lparr>m_hdr := or_hdr 0x20 (m_hdr seg)\<rparr>) k c))
               }
             } else None)
      else Some (Stop s c))"

definition queued :: "SSNPSenderState \<Rightarrow> nat" where
  "queued s = sum_list (map (\<lambda>l. length (lane_messagesQueued l)) (send_lanes s))"

lemma queued_finish:
  assumes "i < length (send_lanes s)" "lane_messagesQueued (send_lanes s ! i) \<noteq> []"
  shows "queued (finish_message i m s) < queued s"
proof -
  have e: "send_lanes (finish_message i m s) = (send_lanes s)[i := (send_lanes s ! i)
      \<lparr>m_cbCurrentSendMessageSent := 0, lane_messagesQueued := tl (lane_messagesQueued (send_lanes s ! i))\<rparr>]"
    by (simp add: finish_message_def Let_def upd_lane_def)
  have "sum_list ((map (\<lambda>l. length (lane_messagesQueued l)) (send_lanes s))
      [i := length (lane_messagesQueued (send_lanes s ! i)) - 1]) < queued s"
  proof -
    have "length (lane_messagesQueued (send_lanes s ! i)) \<le> queued s"
      unfolding queued_def using assms(1) by (intro member_le_sum_list) auto
    moreover have "0 < length (lane_messagesQueued (send_lanes s ! i))" using assms(2) by simp
    ultimately have "queued s + (length (lane_messagesQueued (send_lanes s ! i)) - 1) -
        length (lane_messagesQueued (send_lanes s ! i)) < queued s" by linarith
    then show ?thesis using assms(1) by (simp add: sum_list_update queued_def)
  qed
  then show ?thesis unfolding queued_def e by (simp add: map_update)
qed

lemma collect_one_More: "collect_one n pick s c = Some (More s' c') \<Longrightarrow> queued s' < queued s"
  unfolding collect_one_def Let_def
  by (auto simp: queued_finish split: if_splits option.splits prod.splits bind_splits)

function collect_messages ::
  "int \<Rightarrow> (SSNPSenderState \<Rightarrow> nat option) \<Rightarrow> SSNPSenderState \<Rightarrow> SegmentCollector \<Rightarrow> (SSNPSenderState \<times> SegmentCollector) option" where
  "collect_messages m_cbMaxReliableMessageSegment pick s c =
     (case collect_one m_cbMaxReliableMessageSegment pick s c of
        None \<Rightarrow> None
      | Some (Stop s c) \<Rightarrow> Some (s, c)
      | Some (More s c) \<Rightarrow> collect_messages m_cbMaxReliableMessageSegment pick s c)"
  by pat_completeness auto
termination
  by (relation "measure (\<lambda>(n, pick, s, c). queued s)") (auto intro: collect_one_More)

declare collect_messages.simps [simp del]

text \<open>Retries first, then messages.\<close>

definition collect_segments ::
  "int \<Rightarrow> int \<Rightarrow> (SSNPSenderState \<Rightarrow> nat option) \<Rightarrow> SSNPSenderState \<Rightarrow> (SSNPSenderState \<times> SegmentCollector) option" where
  "collect_segments cbRemaining m_cbMaxReliableMessageSegment pick s = do {
     (done, c) \<leftarrow> collect_retries s (m_listReadyRetryReliableRange s)
       \<lparr>m_cbRemainingForSegments = cbRemaining, collector_lanes = []\<rparr>;
     if done then Some (s, c) else collect_messages m_cbMaxReliableMessageSegment pick s c
   }"

subsection \<open>Serializing\<close>

definition copy_bytes :: "byte list \<Rightarrow> int \<Rightarrow> int \<Rightarrow> byte list option" where
  "copy_bytes bs offset n =
     (if 0 \<le> offset \<and> 0 \<le> n \<and> offset + n \<le> int (length bs) then Some (take (nat n) (drop (nat offset) bs)) else None)"

text \<open>The bytes of a message from an offset on, header and data.\<close>

definition reliable_bytes :: "OutMessage \<Rightarrow> int \<Rightarrow> int \<Rightarrow> byte list option" where
  "reliable_bytes msg nOffset cbSegSize =
     (let cbHdr = int (length (out_hdr msg)) in
      if nOffset < cbHdr then do {
        let cbCopyHdr = min cbSegSize (cbHdr - nOffset);
        h \<leftarrow> copy_bytes (out_hdr msg) nOffset cbCopyHdr;
        let cbCopyBody = cbSegSize - cbCopyHdr;
        b \<leftarrow> (if cbCopyBody > 0 then copy_bytes (out_data msg) 0 cbCopyBody else Some []);
        Some (h @ b)
      } else copy_bytes (out_data msg) (nOffset - cbHdr) cbSegSize)"

text \<open>The header with the size, explicit or up to the end of the packet.\<close>

definition sized_hdr :: "bool \<Rightarrow> SNPEncodedSegment \<Rightarrow> byte list" where
  "sized_hdr bLast seg =
     (if \<not> bLast then or_hdr (word_of_int (drop_bit 8 (m_cbSegSize seg))) (m_hdr seg) @ [word_of_int (m_cbSegSize seg)]
      else or_hdr 7 (m_hdr seg))"

definition upd_segment :: "nat \<Rightarrow> (SNPSendReliableSegment \<Rightarrow> SNPSendReliableSegment) \<Rightarrow> SSNPSenderState \<Rightarrow> SSNPSenderState" where
  "upd_segment h f s = s\<lparr>m_listSentReliableSegments :=
     map (\<lambda>(k, x). (k, if k = h then f x else x)) (m_listSentReliableSegments s)\<rparr>"

definition RemoveReliableSegmentFromRetryList :: "nat \<Rightarrow> segment_status \<Rightarrow> SSNPSenderState \<Rightarrow> SSNPSenderState" where
  "RemoveReliableSegmentFromRetryList hSeg nNewStatus s =
     upd_segment hSeg (\<lambda>seg. seg\<lparr>m_hStatusOrRetry := nNewStatus\<rparr>)
       (s\<lparr>m_listReadyRetryReliableRange := remove1 hSeg (m_listReadyRetryReliableRange s)\<rparr>)"

text \<open>The record of a reliable segment that goes into a packet, new or again.\<close>

definition record_segment :: "SNPEncodedSegment \<Rightarrow> SSNPSenderState \<Rightarrow> (nat \<times> SSNPSenderState) option" where
  "record_segment seg s =
     (case m_hRetryReliableSeg seg of
        None \<Rightarrow>
          let h = next_segment_handle s; key = (e_lane seg, out_msg_num (e_msg seg))
          in Some (h, s\<lparr>next_segment_handle := h + 1,
               m_listSentReliableSegments := m_listSentReliableSegments s @
                 [(h, \<lparr>seg_lane = e_lane seg, seg_msg = e_msg seg, m_nOffset = e_nOffset seg, m_cbSize = m_cbSegSize seg,
                       m_nRefCount = 1, m_hStatusOrRetry = k_nStatus_InFlight\<rparr>)],
               m_nSentReliableSegRefCount := (m_nSentReliableSegRefCount s)(key := m_nSentReliableSegRefCount s key + 1)\<rparr>)
      | Some h \<Rightarrow>
          (case segment_of s h of
             None \<Rightarrow> None
           | Some _ \<Rightarrow> Some (h, upd_segment h (\<lambda>x. x\<lparr>m_nRefCount := m_nRefCount x + 1\<rparr>)
               (RemoveReliableSegmentFromRetryList h k_nStatus_InFlight s))))"

definition SerializeSegment ::
  "bool \<Rightarrow> SNPEncodedSegment \<Rightarrow> nat list \<times> SSNPSenderState \<Rightarrow> (byte list \<times> nat list \<times> SSNPSenderState) option" where
  "SerializeSegment bLast seg p =
     (case p of (hs, s) \<Rightarrow>
        let size = m_cbSegSize seg; i = e_lane seg in
        if SNPSend_IsReliable (e_msg seg) then do {
          bytes \<leftarrow> reliable_bytes (e_msg seg) (e_nOffset seg) size;
          (h, s) \<leftarrow> record_segment seg s;
          let s = upd_lane i (\<lambda>l. l\<lparr>lane_cbPendingReliable := lane_cbPendingReliable l - size,
            lane_cbSentUnackedReliable := lane_cbSentUnackedReliable l + size\<rparr>) s;
          Some (sized_hdr bLast seg @ bytes, hs @ [h],
            s\<lparr>m_cbPendingReliable := m_cbPendingReliable s - size, m_cbSentUnackedReliable := m_cbSentUnackedReliable s + size\<rparr>)
        } else do {
          bytes \<leftarrow> copy_bytes (out_data (e_msg seg)) (e_nOffset seg) size;
          let s = upd_lane i (\<lambda>l. l\<lparr>lane_cbPendingUnreliable := lane_cbPendingUnreliable l - size\<rparr>) s;
          Some (sized_hdr bLast seg @ bytes, hs, s\<lparr>m_cbPendingUnreliable := m_cbPendingUnreliable s - size\<rparr>)
        })"

fun SNP_SerializeSegmentArray ::
  "bool \<Rightarrow> SNPEncodedSegment list \<Rightarrow> nat list \<times> SSNPSenderState \<Rightarrow> (byte list \<times> nat list \<times> SSNPSenderState) option" where
  "SNP_SerializeSegmentArray bLastLane [] (hs, s) = Some ([], hs, s)"
| "SNP_SerializeSegmentArray bLastLane (seg # segs) (hs, s) = do {
     (bs, hs, s) \<leftarrow> SerializeSegment (bLastLane \<and> segs = []) seg (hs, s);
     (bs', hs, s) \<leftarrow> SNP_SerializeSegmentArray bLastLane segs (hs, s);
     Some (bs @ bs', hs, s)
   }"

fun serialize_lanes ::
  "SegmentCollectorLane list \<Rightarrow> nat list \<times> SSNPSenderState \<Rightarrow> (byte list \<times> nat list \<times> SSNPSenderState) option" where
  "serialize_lanes [] (hs, s) = Some ([], hs, s)"
| "serialize_lanes (l # ls) (hs, s) = do {
     (bs, hs, s) \<leftarrow> SNP_SerializeSegmentArray (ls = []) (m_vecSegments l) (hs, s);
     (bs', hs, s) \<leftarrow> serialize_lanes ls (hs, s);
     Some (lane_hdr l @ bs @ bs', hs, s)
   }"

text \<open>Lane 0 comes first and has no header.\<close>

definition SNP_SerializeSegments :: "SegmentCollector \<Rightarrow> SSNPSenderState \<Rightarrow> (byte list \<times> nat list \<times> SSNPSenderState) option" where
  "SNP_SerializeSegments c s =
     serialize_lanes (filter (\<lambda>l. m_nLaneID l = 0) (collector_lanes c) @ filter (\<lambda>l. m_nLaneID l \<noteq> 0) (collector_lanes c)) ([], s)"

end
