(* ===== verification/SnpInFlight.thy ===== *)
theory SnpInFlight
  imports SnpSegments
begin

text \<open>
  What the sender does with packets and segments that are on the way: \<open>SNP_SendPacket\<close> around the serialization of
  segments, acks, nacks, \<open>SNP_SenderCheckInFlightPackets\<close> and the reference counts, and the two
  checks \<open>DebugCheckReliable\<close> and \<open>DebugCheckInFlightPacketMap\<close>, which the code makes in its paranoid mode
  (\<open>src/GameNetworkingSockets/src/steamnetworkingsockets/clientlib/steamnetworkingsockets_snp.cpp\<close>).

  The numbers of an ack frame are given as they come out of the parser. The frames in front of the segments,
  encryption and the transport are parameters: the bytes, and whether the packet was sent. Ping and
  rate statistics are left out. A handle without a segment and an iterator that leaves the map are \<open>None\<close>.
\<close>

subsection \<open>Reference counts\<close>

definition RemoveRefCountReliableSegment :: "nat \<Rightarrow> SSNPSenderState \<Rightarrow> SSNPSenderState option" where
  "RemoveRefCountReliableSegment hSeg s = do {
     relSeg \<leftarrow> segment_of s hSeg;
     let s = upd_segment hSeg (\<lambda>x. x\<lparr>m_nRefCount := m_nRefCount x - 1\<rparr>) s;
     if m_nRefCount relSeg - 1 > 0 then Some s
     else if m_hStatusOrRetry relSeg \<noteq> k_nStatus_Acked then Some s
     else do {
       let key = (seg_lane relSeg, out_msg_num (seg_msg relSeg));
       let n = m_nSentReliableSegRefCount s key - 1;
       let s = s\<lparr>m_nSentReliableSegRefCount := (m_nSentReliableSegRefCount s)(key := n)\<rparr>;
       let s = (if n \<le> 0 then s\<lparr>m_unackedReliableMessages :=
                  filter (\<lambda>(i, m). (i, out_msg_num m) \<noteq> key) (m_unackedReliableMessages s)\<rparr> else s);
       Some (s\<lparr>m_listSentReliableSegments := filter (\<lambda>(k, x). k \<noteq> hSeg) (m_listSentReliableSegments s)\<rparr>)
     }
   }"

fun remove_refs :: "nat list \<Rightarrow> SSNPSenderState \<Rightarrow> SSNPSenderState option" where
  "remove_refs [] s = Some s"
| "remove_refs (h # hs) s = do { s \<leftarrow> RemoveRefCountReliableSegment h s; remove_refs hs s }"

subsection \<open>Retries\<close>

definition seg_begin :: "SNPSendReliableSegment \<Rightarrow> int" where
  "seg_begin seg = out_stream_pos (seg_msg seg) + m_nOffset seg"

fun link_before :: "SSNPSenderState \<Rightarrow> nat \<Rightarrow> SNPSendReliableSegment \<Rightarrow> nat list \<Rightarrow> nat list option" where
  "link_before s hSeg relSeg [] = Some [hSeg]"
| "link_before s hSeg relSeg (h # hs) = do {
     x \<leftarrow> segment_of s h;
     if seg_lane x = seg_lane relSeg \<and> seg_begin x > seg_begin relSeg then Some (hSeg # h # hs)
     else do { hs \<leftarrow> link_before s hSeg relSeg hs; Some (h # hs) }
   }"

definition queue_retry :: "nat \<Rightarrow> SSNPSenderState \<Rightarrow> SSNPSenderState option" where
  "queue_retry hSeg s = do {
     relSeg \<leftarrow> segment_of s hSeg;
     if m_hStatusOrRetry relSeg \<noteq> k_nStatus_InFlight then Some s
     else do {
       hs \<leftarrow> link_before s hSeg relSeg (m_listReadyRetryReliableRange s);
       let cbSeg = m_cbSize relSeg;
       let s = upd_segment hSeg (\<lambda>x. x\<lparr>m_hStatusOrRetry := k_nStatus_Retry\<rparr>) (s\<lparr>m_listReadyRetryReliableRange := hs\<rparr>);
       let s = s\<lparr>m_cbSentUnackedReliable := m_cbSentUnackedReliable s - cbSeg, m_cbPendingReliable := m_cbPendingReliable s + cbSeg\<rparr>;
       Some (upd_lane (seg_lane relSeg) (\<lambda>l. l\<lparr>lane_cbSentUnackedReliable := lane_cbSentUnackedReliable l - cbSeg,
         lane_cbPendingReliable := lane_cbPendingReliable l + cbSeg\<rparr>) s)
     }
   }"

fun SNP_QueueReliableSegmentsForRetry :: "nat list \<Rightarrow> SSNPSenderState \<Rightarrow> SSNPSenderState option" where
  "SNP_QueueReliableSegmentsForRetry [] s = Some s"
| "SNP_QueueReliableSegmentsForRetry (h # hs) s = do { s \<leftarrow> queue_retry h s; SNP_QueueReliableSegmentsForRetry hs s }"

definition upd_packet :: "int \<Rightarrow> (SNPInFlightPacket \<Rightarrow> SNPInFlightPacket) \<Rightarrow> SSNPSenderState \<Rightarrow> SSNPSenderState" where
  "upd_packet n f s = s\<lparr>m_mapInFlightPacketsByPktNum :=
     map (\<lambda>(k, p). (k, if k = n then f p else p)) (m_mapInFlightPacketsByPktNum s)\<rparr>"

definition SNP_SenderProcessPacketNack :: "int \<Rightarrow> SNPInFlightPacket \<Rightarrow> SSNPSenderState \<Rightarrow> SSNPSenderState option" where
  "SNP_SenderProcessPacketNack nPktNum pkt s =
     (if m_bNack pkt then Some s
      else
        let s = upd_packet nPktNum (\<lambda>p. p\<lparr>m_bNack := True\<rparr>) s
        in if m_vecReliableSegments pkt = [] then Some s
           else SNP_QueueReliableSegmentsForRetry (m_vecReliableSegments pkt) s)"

subsection \<open>Acks\<close>

definition ack_segment :: "nat \<Rightarrow> SSNPSenderState \<Rightarrow> SSNPSenderState option" where
  "ack_segment hSeg s = do {
     relSeg \<leftarrow> segment_of s hSeg;
     let cbSeg = m_cbSize relSeg;
     let i = seg_lane relSeg;
     let s = (if m_hStatusOrRetry relSeg = k_nStatus_InFlight then
          upd_segment hSeg (\<lambda>x. x\<lparr>m_hStatusOrRetry := k_nStatus_Acked\<rparr>)
            (upd_lane i (\<lambda>l. l\<lparr>lane_cbSentUnackedReliable := lane_cbSentUnackedReliable l - cbSeg\<rparr>)
              (s\<lparr>m_cbSentUnackedReliable := m_cbSentUnackedReliable s - cbSeg\<rparr>))
        else if m_hStatusOrRetry relSeg \<noteq> k_nStatus_Acked then
          upd_lane i (\<lambda>l. l\<lparr>lane_cbPendingReliable := lane_cbPendingReliable l - cbSeg\<rparr>)
            ((RemoveReliableSegmentFromRetryList hSeg k_nStatus_Acked s)\<lparr>m_cbPendingReliable := m_cbPendingReliable s - cbSeg\<rparr>)
        else s);
     RemoveRefCountReliableSegment hSeg s
   }"

fun ack_segments :: "nat list \<Rightarrow> SSNPSenderState \<Rightarrow> SSNPSenderState option" where
  "ack_segments [] s = Some s"
| "ack_segments (h # hs) s = do { s \<leftarrow> ack_segment h s; ack_segments hs s }"

text \<open>The number behind \<open>n\<close> in the map.\<close>

definition next_packet :: "int \<Rightarrow> (int \<times> SNPInFlightPacket) list \<Rightarrow> int option" where
  "next_packet n pkts = (case dropWhile (\<lambda>p. fst p \<le> n) pkts of [] \<Rightarrow> None | p # _ \<Rightarrow> Some (fst p))"

text \<open>Both loops go backwards from index \<open>i\<close>; the result is the index where they stop.\<close>

fun ack_packets :: "int \<Rightarrow> nat \<Rightarrow> SSNPSenderState \<Rightarrow> (nat \<times> SSNPSenderState) option" where
  "ack_packets nPktNumAckBegin 0 s = do {
     p \<leftarrow> get_at (m_mapInFlightPacketsByPktNum s) 0;
     if fst p \<ge> nPktNumAckBegin then None else Some (0, s)
   }"
| "ack_packets nPktNumAckBegin (Suc i) s = do {
     (n, pkt) \<leftarrow> get_at (m_mapInFlightPacketsByPktNum s) (int (Suc i));
     if n \<ge> nPktNumAckBegin then do {
       s \<leftarrow> ack_segments (m_vecReliableSegments pkt) s;
       let s = (if m_itNextInFlightPacketToTimeout s = Some n
                then s\<lparr>m_itNextInFlightPacketToTimeout := next_packet n (m_mapInFlightPacketsByPktNum s)\<rparr> else s);
       ack_packets nPktNumAckBegin i
         (s\<lparr>m_mapInFlightPacketsByPktNum := filter (\<lambda>p. fst p \<noteq> n) (m_mapInFlightPacketsByPktNum s)\<rparr>)
     } else Some (Suc i, s)
   }"

fun nack_packets :: "int \<Rightarrow> nat \<Rightarrow> SSNPSenderState \<Rightarrow> (nat \<times> SSNPSenderState) option" where
  "nack_packets nPktNumNackBegin 0 s = do {
     p \<leftarrow> get_at (m_mapInFlightPacketsByPktNum s) 0;
     if fst p \<ge> nPktNumNackBegin then None else Some (0, s)
   }"
| "nack_packets nPktNumNackBegin (Suc i) s = do {
     (n, pkt) \<leftarrow> get_at (m_mapInFlightPacketsByPktNum s) (int (Suc i));
     if n \<ge> nPktNumNackBegin then do {
       s \<leftarrow> SNP_SenderProcessPacketNack n pkt s;
       nack_packets nPktNumNackBegin i s
     } else Some (Suc i, s)
   }"

text \<open>The blocks of an ack frame, as pairs of the numbers of acks and nacks. The result says whether decoding goes on.\<close>

fun ack_blocks :: "(int \<times> int) list \<Rightarrow> int \<Rightarrow> nat \<Rightarrow> SSNPSenderState \<Rightarrow> (bool \<times> SSNPSenderState) option" where
  "ack_blocks [] nPktNumAckEnd i s =
     (if nPktNumAckEnd \<le> m_nMinPktWaitingOnAck s then Some (True, s)
      else do {
        (i, s) \<leftarrow> ack_packets (m_nMinPktWaitingOnAck s) i s;
        (i, s) \<leftarrow> nack_packets (m_nMinPktWaitingOnAck s) i s;
        Some (True, s)
      })"
| "ack_blocks ((numAcks, numNacks) # bs) nPktNumAckEnd i s =
     (let nPktNumAckBegin = nPktNumAckEnd - numAcks; nPktNumNackBegin = nPktNumAckBegin - numNacks
      in if nPktNumAckBegin < 0 \<or> nPktNumNackBegin < 0 then Some (False, s)
         else do {
           (i, s) \<leftarrow> ack_packets nPktNumAckBegin i s;
           (i, s) \<leftarrow> nack_packets nPktNumNackBegin i s;
           ack_blocks bs nPktNumNackBegin i s
         })"

definition receive_ack :: "int \<Rightarrow> (int \<times> int) list \<Rightarrow> SSNPSenderState \<Rightarrow> (bool \<times> SSNPSenderState) option" where
  "receive_ack nLatestRecvSeqNum blocks s = do {
     let i = length (takeWhile (\<lambda>p. fst p \<le> nLatestRecvSeqNum) (m_mapInFlightPacketsByPktNum s)) - 1;
     (ok, s) \<leftarrow> ack_blocks blocks (nLatestRecvSeqNum + 1) i s;
     if \<not> ok then Some (False, s)
     else Some (True, s\<lparr>m_nMinPktWaitingOnAck := max (m_nMinPktWaitingOnAck s) nLatestRecvSeqNum\<rparr>)
   }"

subsection \<open>Timeouts\<close>

fun timeout_packets :: "int \<Rightarrow> int \<Rightarrow> int list \<Rightarrow> SSNPSenderState \<Rightarrow> (int option \<times> SSNPSenderState) option" where
  "timeout_packets usecNow usecRTO [] s = Some (None, s\<lparr>m_itNextInFlightPacketToTimeout := None\<rparr>)"
| "timeout_packets usecNow usecRTO (n # ns) s = do {
     pkt \<leftarrow> map_of (m_mapInFlightPacketsByPktNum s) n;
     if m_bNack pkt then timeout_packets usecNow usecRTO ns s
     else
       let usecRetryPkt = m_usecWhenSent pkt + usecRTO
       in if usecRetryPkt > usecNow then Some (Some usecRetryPkt, s\<lparr>m_itNextInFlightPacketToTimeout := Some n\<rparr>)
          else do { s \<leftarrow> SNP_SenderProcessPacketNack n pkt s; timeout_packets usecNow usecRTO ns s }
   }"

text \<open>Packets that are too old are forgotten: \<open>pkts\<close> are those from the first one behind the sentinel on.\<close>

fun expire_packets :: "int \<Rightarrow> (int \<times> SNPInFlightPacket) list \<Rightarrow> SSNPSenderState \<Rightarrow> SSNPSenderState option" where
  "expire_packets usecWhenExpiry [] s = Some s"
| "expire_packets usecWhenExpiry ((n, pkt) # pkts) s =
     (if m_usecWhenSent pkt < usecWhenExpiry then do {
        s \<leftarrow> remove_refs (m_vecReliableSegments pkt) s;
        expire_packets usecWhenExpiry pkts
          (s\<lparr>m_mapInFlightPacketsByPktNum := filter (\<lambda>p. fst p \<noteq> n) (m_mapInFlightPacketsByPktNum s)\<rparr>)
      } else Some s)"

definition expiry_time :: "int \<Rightarrow> int \<Rightarrow> int \<Rightarrow> int \<Rightarrow> int" where
  "expiry_time usecNow usecRTO nValidPings usecTimeRecvMostRecentPing =
     (let usecExpiry = usecRTO * 2 in
      if nValidPings < 1 then usecExpiry + 1000000
      else
        let usecMostRecentPingAge = min (usecNow - usecTimeRecvMostRecentPing) (1000000 * 3)
        in if usecMostRecentPingAge > usecExpiry then usecMostRecentPingAge else usecExpiry)"

text \<open>\<open>None\<close> as time of the next retry is \<open>k_nThinkTime_Never\<close>.\<close>

definition SNP_SenderCheckInFlightPackets ::
  "int \<Rightarrow> int \<Rightarrow> int \<Rightarrow> int \<Rightarrow> SSNPSenderState \<Rightarrow> (int option \<times> SSNPSenderState) option" where
  "SNP_SenderCheckInFlightPackets usecNow usecRTO nValidPings usecTimeRecvMostRecentPing s =
     (if length (m_mapInFlightPacketsByPktNum s) \<le> 1 then Some (None, s)
      else do {
        (usecNextRetry, s) \<leftarrow> timeout_packets usecNow usecRTO
          (case m_itNextInFlightPacketToTimeout s of None \<Rightarrow> []
           | Some n \<Rightarrow> map fst (dropWhile (\<lambda>p. fst p < n) (m_mapInFlightPacketsByPktNum s))) s;
        s \<leftarrow> expire_packets (usecNow - expiry_time usecNow usecRTO nValidPings usecTimeRecvMostRecentPing)
          (tl (m_mapInFlightPacketsByPktNum s)) s;
        Some (usecNextRetry, s)
      })"

subsection \<open>Sending a packet\<close>

text \<open>
  \<open>frames\<close> are the bytes in front of the segments, \<open>room\<close> is the space for segments or \<open>None\<close> when no data is to be
  sent. The result is whether a packet was sent, and its payload.
\<close>

definition SNP_SendPacket ::
  "byte list \<Rightarrow> int option \<Rightarrow> int \<Rightarrow> (SSNPSenderState \<Rightarrow> nat option) \<Rightarrow> bool \<Rightarrow> int \<Rightarrow> int \<Rightarrow> SSNPSenderState \<Rightarrow>
   (bool \<times> byte list \<times> SSNPSenderState) option" where
  "SNP_SendPacket frames room m_cbMaxReliableMessageSegment pick bSent nPktNum usecNow s = do {
     (s, c) \<leftarrow> (case room of None \<Rightarrow> Some (s, \<lparr>m_cbRemainingForSegments = 0, collector_lanes = []\<rparr>)
       | Some cb \<Rightarrow> collect_segments cb m_cbMaxReliableMessageSegment pick s);
     (bs, hs, s) \<leftarrow> SNP_SerializeSegments c s;
     if frames @ bs = [] then Some (False, [], s)
     else if \<not> bSent then do {
       s \<leftarrow> SNP_QueueReliableSegmentsForRetry hs s;
       Some (False, frames @ bs, s)
     } else
       let pkt = \<lparr>m_usecWhenSent = usecNow, m_bNack = False, m_vecReliableSegments = hs\<rparr>
       in Some (True, frames @ bs, s\<lparr>m_mapInFlightPacketsByPktNum := m_mapInFlightPacketsByPktNum s @ [(nPktNum, pkt)],
         m_itNextInFlightPacketToTimeout :=
           (if m_itNextInFlightPacketToTimeout s = None then Some nPktNum else m_itNextInFlightPacketToTimeout s)\<rparr>)
   }"

text \<open>A packet without data, e.g. a ping, is tracked as well.\<close>

definition SNP_SentNonDataPacket :: "int \<Rightarrow> int \<Rightarrow> SSNPSenderState \<Rightarrow> SSNPSenderState" where
  "SNP_SentNonDataPacket nNextSendSequenceNumber usecNow s =
     (let nPktNum = nNextSendSequenceNumber - 1
      in s\<lparr>m_mapInFlightPacketsByPktNum := m_mapInFlightPacketsByPktNum s @
             [(nPktNum, \<lparr>m_usecWhenSent = usecNow, m_bNack = False, m_vecReliableSegments = []\<rparr>)],
           m_itNextInFlightPacketToTimeout :=
             (if m_itNextInFlightPacketToTimeout s = None then Some nPktNum else m_itNextInFlightPacketToTimeout s)\<rparr>)"

subsection \<open>The checks of the paranoid mode\<close>

definition sum_segs :: "(SNPSendReliableSegment \<Rightarrow> bool) \<Rightarrow> SSNPSenderState \<Rightarrow> int" where
  "sum_segs P s = sum_list (map (m_cbSize \<circ> snd) (filter (P \<circ> snd) (m_listSentReliableSegments s)))"

text \<open>Bytes of reliable messages in the queue of a lane that have not been put on the wire.\<close>

fun queue_pending :: "int \<Rightarrow> OutMessage list \<Rightarrow> int" where
  "queue_pending cbSent [] = 0"
| "queue_pending cbSent (m # ms) = (if SNPSend_IsReliable m then out_size m - cbSent else 0) + queue_pending 0 ms"

definition lane_pending :: "SendLane \<Rightarrow> int" where
  "lane_pending l = queue_pending (m_cbCurrentSendMessageSent l) (lane_messagesQueued l)"

definition DebugCheckReliable :: "SSNPSenderState \<Rightarrow> bool" where
  "DebugCheckReliable s \<longleftrightarrow>
     (\<forall>(h, seg) \<in> set (m_listSentReliableSegments s).
        case m_hStatusOrRetry seg of
          k_nStatus_Acked \<Rightarrow> 0 < m_nRefCount seg
        | k_nStatus_InFlight \<Rightarrow> 0 < m_nRefCount seg
        | k_nStatus_Retry \<Rightarrow> h \<in> set (m_listReadyRetryReliableRange s)) \<and>
     (\<forall>l \<in> set (send_lanes s). case lane_messagesQueued l of [] \<Rightarrow> True
        | m # _ \<Rightarrow> SNPSend_IsReliable m \<longrightarrow> 0 < out_size m - m_cbCurrentSendMessageSent l) \<and>
     sum_segs (\<lambda>x. m_hStatusOrRetry x = k_nStatus_Retry) s + sum_list (map lane_pending (send_lanes s)) = m_cbPendingReliable s \<and>
     sum_segs (\<lambda>x. m_hStatusOrRetry x = k_nStatus_InFlight) s = m_cbSentUnackedReliable s \<and>
     (\<forall>i < length (send_lanes s).
        sum_segs (\<lambda>x. seg_lane x = i \<and> m_hStatusOrRetry x = k_nStatus_Retry) s + lane_pending (send_lanes s ! i) =
          lane_cbPendingReliable (send_lanes s ! i) \<and>
        sum_segs (\<lambda>x. seg_lane x = i \<and> m_hStatusOrRetry x = k_nStatus_InFlight) s =
          lane_cbSentUnackedReliable (send_lanes s ! i))"

text \<open>\<open>found\<close> says whether the next packet to time out has been passed.\<close>

fun check_packets :: "int option \<Rightarrow> bool \<Rightarrow> int \<Rightarrow> int \<Rightarrow> (int \<times> SNPInFlightPacket) list \<Rightarrow> bool" where
  "check_packets it found prevPktNum prevWhenSent [] \<longleftrightarrow> found \<or> it = None"
| "check_packets it found prevPktNum prevWhenSent ((n, p) # ps) \<longleftrightarrow>
     prevPktNum < n \<and> prevWhenSent \<le> m_usecWhenSent p \<and>
     (if it = Some n then \<not> found else found \<or> m_bNack p) \<and>
     check_packets it (found \<or> it = Some n) n (m_usecWhenSent p) ps"

definition DebugCheckInFlightPacketMap :: "SSNPSenderState \<Rightarrow> bool" where
  "DebugCheckInFlightPacketMap s \<longleftrightarrow>
     (case m_mapInFlightPacketsByPktNum s of [] \<Rightarrow> False
      | (n, p) # ps \<Rightarrow> n = INT64_MIN \<and> m_itNextInFlightPacketToTimeout s \<noteq> Some n \<and>
          check_packets (m_itNextInFlightPacketToTimeout s) False n (m_usecWhenSent p) ps)"

end
