(* ===== verification/SnpSenderInv.thy ===== *)
theory SnpSenderInv
  imports SnpInFlight
begin

text \<open>
  The invariant of the table of sent segments, and what acks, nacks, timeouts and lost references do to it. \<open>C i\<close> is
  the list of the ranges that lane \<open>i\<close> has put on the wire, \<open>A\<close> the set of the ranges that were in
  a packet the peer has acked. \<open>P\<close> are the packets in flight, and \<open>pend\<close> the handles of a packet that is being
  taken apart; a segment in \<open>safe\<close> may be marked in flight although no packet in \<open>P\<close> has it.
\<close>

subsection \<open>The table\<close>

definition seg_range :: "SNPSendReliableSegment \<Rightarrow> int \<times> int" where
  "seg_range x = (seg_begin x, seg_begin x + m_cbSize x)"

definition seg_key :: "SNPSendReliableSegment \<Rightarrow> nat \<times> int" where
  "seg_key x = (seg_lane x, seg_begin x)"

definition holders :: "(int \<times> SNPInFlightPacket) list \<Rightarrow> nat \<Rightarrow> nat" where
  "holders P h = length (filter (\<lambda>p. h \<in> set (m_vecReliableSegments (snd p))) P)"

text \<open>Retries of a lane are in the order of the stream.\<close>

definition in_order :: "SSNPSenderState \<Rightarrow> nat \<Rightarrow> nat \<Rightarrow> bool" where
  "in_order s h h' \<longleftrightarrow> (\<forall>x x'. segment_of s h = Some x \<and> segment_of s h' = Some x' \<and> seg_lane x = seg_lane x' \<longrightarrow>
     seg_begin x < seg_begin x')"

definition segs_ok :: "SSNPSenderState \<Rightarrow> (nat \<Rightarrow> (int \<times> int) list) \<Rightarrow> (nat \<times> int \<times> int) set \<Rightarrow> bool" where
  "segs_ok s C A \<longleftrightarrow> distinct (map fst (m_listSentReliableSegments s)) \<and>
     (\<forall>h x. segment_of s h = Some x \<longrightarrow> h < next_segment_handle s \<and> seg_lane x < length (send_lanes s) \<and> 0 < m_cbSize x \<and>
        seg_range x \<in> set (C (seg_lane x))) \<and>
     (\<forall>h x h' x'. segment_of s h = Some x \<and> segment_of s h' = Some x' \<and> seg_key x = seg_key x' \<longrightarrow> h = h') \<and>
     distinct (m_listReadyRetryReliableRange s) \<and> sorted_wrt (in_order s) (m_listReadyRetryReliableRange s) \<and>
     (\<forall>h. h \<in> set (m_listReadyRetryReliableRange s) \<longleftrightarrow> (\<exists>x. segment_of s h = Some x \<and> m_hStatusOrRetry x = k_nStatus_Retry)) \<and>
     (\<forall>i. \<forall>r \<in> set (C i). (\<exists>h x. segment_of s h = Some x \<and> seg_lane x = i \<and> seg_range x = r \<and>
        m_hStatusOrRetry x \<noteq> k_nStatus_Acked) \<or> (i, r) \<in> A)"

definition refs_ok :: "SSNPSenderState \<Rightarrow> (int \<times> SNPInFlightPacket) list \<Rightarrow> nat list \<Rightarrow> nat set \<Rightarrow> bool" where
  "refs_ok s P pend safe \<longleftrightarrow>
     (\<forall>p \<in> set P. \<forall>h \<in> set (m_vecReliableSegments (snd p)). segment_of s h \<noteq> None) \<and>
     (\<forall>h \<in> set pend. segment_of s h \<noteq> None) \<and>
     (\<forall>h x. segment_of s h = Some x \<longrightarrow> int (holders P h + count_list pend h) \<le> m_nRefCount x \<and>
        (m_hStatusOrRetry x \<noteq> k_nStatus_Retry \<longrightarrow> 0 < m_nRefCount x) \<and>
        (m_hStatusOrRetry x = k_nStatus_InFlight \<longrightarrow>
          (\<exists>p \<in> set P. \<not> m_bNack (snd p) \<and> h \<in> set (m_vecReliableSegments (snd p))) \<or> h \<in> safe))"

text \<open>The counters.\<close>

definition counts_ok :: "SSNPSenderState \<Rightarrow> bool" where
  "counts_ok s \<longleftrightarrow>
     sum_segs (\<lambda>x. m_hStatusOrRetry x = k_nStatus_Retry) s + sum_list (map lane_pending (send_lanes s)) = m_cbPendingReliable s \<and>
     sum_segs (\<lambda>x. m_hStatusOrRetry x = k_nStatus_InFlight) s = m_cbSentUnackedReliable s \<and>
     (\<forall>i < length (send_lanes s).
        sum_segs (\<lambda>x. seg_lane x = i \<and> m_hStatusOrRetry x = k_nStatus_Retry) s + lane_pending (send_lanes s ! i) =
          lane_cbPendingReliable (send_lanes s ! i) \<and>
        sum_segs (\<lambda>x. seg_lane x = i \<and> m_hStatusOrRetry x = k_nStatus_InFlight) s =
          lane_cbSentUnackedReliable (send_lanes s ! i))"

subsection \<open>Lookups and sums\<close>

lemma segment_of_upd [simp]:
  "segment_of (upd_segment h f s) k = (if k = h then map_option f (segment_of s k) else segment_of s k)"
proof -
  have "map_of (map (\<lambda>(k, x). (k, if k = h then f x else x)) xs) k =
      (if k = h then map_option f (map_of xs k) else map_of xs k)" for xs
    by (induction xs) auto
  then show ?thesis by (simp add: segment_of_def upd_segment_def)
qed

lemma upd_segment_fields [simp]:
  "send_lanes (upd_segment h f s) = send_lanes s" "m_cbPendingReliable (upd_segment h f s) = m_cbPendingReliable s"
  "m_cbPendingUnreliable (upd_segment h f s) = m_cbPendingUnreliable s"
  "m_cbSentUnackedReliable (upd_segment h f s) = m_cbSentUnackedReliable s"
  "next_segment_handle (upd_segment h f s) = next_segment_handle s"
  "m_listReadyRetryReliableRange (upd_segment h f s) = m_listReadyRetryReliableRange s"
  "m_mapInFlightPacketsByPktNum (upd_segment h f s) = m_mapInFlightPacketsByPktNum s"
  "m_itNextInFlightPacketToTimeout (upd_segment h f s) = m_itNextInFlightPacketToTimeout s"
  "m_nMinPktWaitingOnAck (upd_segment h f s) = m_nMinPktWaitingOnAck s"
  "map fst (m_listSentReliableSegments (upd_segment h f s)) = map fst (m_listSentReliableSegments s)"
  by (simp_all add: upd_segment_def case_prod_unfold)

lemma upd_lane_fields [simp]:
  "segment_of (upd_lane i f s) h = segment_of s h" "m_listSentReliableSegments (upd_lane i f s) = m_listSentReliableSegments s"
  "length (send_lanes (upd_lane i f s)) = length (send_lanes s)"
  "m_cbPendingReliable (upd_lane i f s) = m_cbPendingReliable s" "m_cbPendingUnreliable (upd_lane i f s) = m_cbPendingUnreliable s"
  "m_cbSentUnackedReliable (upd_lane i f s) = m_cbSentUnackedReliable s"
  "next_segment_handle (upd_lane i f s) = next_segment_handle s"
  "m_listReadyRetryReliableRange (upd_lane i f s) = m_listReadyRetryReliableRange s"
  "m_mapInFlightPacketsByPktNum (upd_lane i f s) = m_mapInFlightPacketsByPktNum s"
  "m_itNextInFlightPacketToTimeout (upd_lane i f s) = m_itNextInFlightPacketToTimeout s"
  "m_nMinPktWaitingOnAck (upd_lane i f s) = m_nMinPktWaitingOnAck s"
  by (simp_all add: upd_lane_def segment_of_def)

lemma segment_of_cong: "m_listSentReliableSegments s = m_listSentReliableSegments s' \<Longrightarrow> segment_of s h = segment_of s' h"
  by (simp add: segment_of_def)

lemma segment_of_fields [simp]:
  "segment_of (s\<lparr>send_lanes := a\<rparr>) h = segment_of s h" "segment_of (s\<lparr>m_cbPendingReliable := b\<rparr>) h = segment_of s h"
  "segment_of (s\<lparr>m_cbPendingUnreliable := b\<rparr>) h = segment_of s h"
  "segment_of (s\<lparr>m_cbSentUnackedReliable := b\<rparr>) h = segment_of s h"
  "segment_of (s\<lparr>m_nSentReliableSegRefCount := c\<rparr>) h = segment_of s h"
  "segment_of (s\<lparr>m_unackedReliableMessages := d\<rparr>) h = segment_of s h"
  "segment_of (s\<lparr>next_segment_handle := n\<rparr>) h = segment_of s h"
  "segment_of (s\<lparr>m_listReadyRetryReliableRange := hs\<rparr>) h = segment_of s h"
  "segment_of (s\<lparr>m_mapInFlightPacketsByPktNum := P\<rparr>) h = segment_of s h"
  "segment_of (s\<lparr>m_itNextInFlightPacketToTimeout := it\<rparr>) h = segment_of s h"
  "segment_of (s\<lparr>m_nMinPktWaitingOnAck := b\<rparr>) h = segment_of s h"
  by (simp_all add: segment_of_def)

lemma segment_of_remove [simp]:
  "segment_of (s\<lparr>m_listSentReliableSegments := filter (\<lambda>(k, x). k \<noteq> h) (m_listSentReliableSegments s)\<rparr>) k =
    (if k = h then None else segment_of s k)"
proof -
  have "map_of (filter (\<lambda>(k, x). k \<noteq> h) xs) k = (if k = h then None else map_of xs k)"
    for xs :: "(nat \<times> SNPSendReliableSegment) list"
    by (induction xs) auto
  then show ?thesis by (simp add: segment_of_def)
qed

lemma sum_segs_eq: "sum_segs Q s = sum_list (map (\<lambda>p. if Q (snd p) then m_cbSize (snd p) else 0) (m_listSentReliableSegments s))"
proof -
  have "sum_list (map (m_cbSize \<circ> snd) (filter (Q \<circ> snd) xs)) = sum_list (map (\<lambda>p. if Q (snd p) then m_cbSize (snd p) else 0) xs)" for xs
    by (induction xs) simp_all
  then show ?thesis by (simp add: sum_segs_def)
qed

lemma sum_segs_cong: "m_listSentReliableSegments s = m_listSentReliableSegments s' \<Longrightarrow> sum_segs Q s = sum_segs Q s'"
  by (simp add: sum_segs_def)

definition weight :: "(SNPSendReliableSegment \<Rightarrow> bool) \<Rightarrow> SNPSendReliableSegment \<Rightarrow> int" where
  "weight Q x = (if Q x then m_cbSize x else 0)"

lemma sum_segs_upd:
  assumes "distinct (map fst (m_listSentReliableSegments s))" "segment_of s h = Some x"
  shows "sum_segs Q (upd_segment h f s) = sum_segs Q s - weight Q x + weight Q (f x)"
proof -
  have "map_of xs h = Some x \<Longrightarrow> distinct (map fst xs) \<Longrightarrow>
    sum_list (map (\<lambda>p. weight Q (snd p)) (map (\<lambda>(k, x). (k, if k = h then f x else x)) xs)) =
    sum_list (map (\<lambda>p. weight Q (snd p)) xs) - weight Q x + weight Q (f x)" for xs
  proof (induction xs)
    case (Cons a xs)
    obtain k y where a: "a = (k, y)" by force
    show ?case
    proof (cases "k = h")
      case True
      have e: "map (\<lambda>(k, x). (k, if k = h then f x else x)) xs = xs"
        using Cons.prems(2) True a by (intro map_idI) (auto simp: rev_image_eqI)
      show ?thesis using Cons.prems True unfolding a list.map(2) e by simp
    next
      case False
      with Cons a show ?thesis by simp
    qed
  qed simp
  from this [of "m_listSentReliableSegments s"] assms
  show ?thesis unfolding sum_segs_eq by (simp add: segment_of_def upd_segment_def weight_def)
qed

lemma sum_segs_remove:
  assumes "distinct (map fst (m_listSentReliableSegments s))" "segment_of s h = Some x"
  shows "sum_segs Q (s\<lparr>m_listSentReliableSegments := filter (\<lambda>(k, x). k \<noteq> h) (m_listSentReliableSegments s)\<rparr>) =
    sum_segs Q s - weight Q x"
proof -
  have "map_of xs h = Some x \<Longrightarrow> distinct (map fst xs) \<Longrightarrow>
    sum_list (map (\<lambda>p. weight Q (snd p)) (filter (\<lambda>(k, x). k \<noteq> h) xs)) =
    sum_list (map (\<lambda>p. weight Q (snd p)) xs) - weight Q x" for xs
  proof (induction xs)
    case (Cons a xs)
    obtain k y where a: "a = (k, y)" by force
    show ?case
    proof (cases "k = h")
      case True
      have e: "filter (\<lambda>(k, x). k \<noteq> h) xs = xs"
        using Cons.prems(2) True a by (intro filter_True) (auto simp: rev_image_eqI)
      show ?thesis using Cons.prems True a e by simp
    next
      case False
      with Cons a show ?thesis by simp
    qed
  qed simp
  from this [of "m_listSentReliableSegments s"] assms
  show ?thesis unfolding sum_segs_eq by (simp add: segment_of_def weight_def)
qed

subsection \<open>What operations on segments leave alone\<close>

definition lane_core :: "SendLane \<Rightarrow> SendLane" where
  "lane_core l = l\<lparr>lane_cbPendingUnreliable := 0, lane_cbPendingReliable := 0, lane_cbSentUnackedReliable := 0\<rparr>"

definition seg_static :: "SNPSendReliableSegment \<Rightarrow> SNPSendReliableSegment" where
  "seg_static x = x\<lparr>m_nRefCount := 0, m_hStatusOrRetry := k_nStatus_Acked\<rparr>"

definition frame :: "SSNPSenderState \<Rightarrow> SSNPSenderState \<Rightarrow> bool" where
  "frame s s' \<longleftrightarrow> map lane_core (send_lanes s') = map lane_core (send_lanes s) \<and>
     m_mapInFlightPacketsByPktNum s' = m_mapInFlightPacketsByPktNum s \<and>
     m_itNextInFlightPacketToTimeout s' = m_itNextInFlightPacketToTimeout s \<and>
     m_nMinPktWaitingOnAck s' = m_nMinPktWaitingOnAck s \<and> next_segment_handle s' = next_segment_handle s \<and>
     (\<forall>h x'. segment_of s' h = Some x' \<longrightarrow> (\<exists>x. segment_of s h = Some x \<and> seg_static x' = seg_static x))"

lemma frame_refl [simp]: "frame s s"
  by (auto simp: frame_def)

lemma frame_trans: "frame s s' \<Longrightarrow> frame s' s'' \<Longrightarrow> frame s s''"
  unfolding frame_def by (metis (no_types, lifting))

lemma seg_static_eq:
  "seg_static x = seg_static y \<longleftrightarrow> seg_lane x = seg_lane y \<and> seg_msg x = seg_msg y \<and> m_nOffset x = m_nOffset y \<and> m_cbSize x = m_cbSize y"
  by (cases x; cases y) (simp add: seg_static_def)

lemma static_range: "seg_static x = seg_static y \<Longrightarrow> seg_range x = seg_range y \<and> seg_lane x = seg_lane y \<and> seg_begin x = seg_begin y \<and>
   m_cbSize x = m_cbSize y \<and> seg_key x = seg_key y"
  by (simp add: seg_static_eq seg_range_def seg_begin_def seg_key_def)

lemma lane_pending_core: "lane_core l = lane_core l' \<Longrightarrow> lane_pending l = lane_pending l'"
  by (cases l; cases l') (simp add: lane_core_def lane_pending_def)

lemma upd_status [simp]:
  "seg_static (x\<lparr>m_hStatusOrRetry := a\<rparr>) = seg_static x" "seg_static (x\<lparr>m_nRefCount := b\<rparr>) = seg_static x"
  "seg_range (x\<lparr>m_hStatusOrRetry := a\<rparr>) = seg_range x" "seg_range (x\<lparr>m_nRefCount := b\<rparr>) = seg_range x"
  "seg_key (x\<lparr>m_hStatusOrRetry := a\<rparr>) = seg_key x" "seg_key (x\<lparr>m_nRefCount := b\<rparr>) = seg_key x"
  "seg_begin (x\<lparr>m_hStatusOrRetry := a\<rparr>) = seg_begin x" "seg_begin (x\<lparr>m_nRefCount := b\<rparr>) = seg_begin x"
  by (simp_all add: seg_static_eq seg_range_def seg_begin_def seg_key_def)

lemma segs_okD:
  assumes "segs_ok s C A"
  shows "distinct (map fst (m_listSentReliableSegments s))"
    "segment_of s h = Some x \<Longrightarrow> seg_lane x < length (send_lanes s)" "segment_of s h = Some x \<Longrightarrow> 0 < m_cbSize x"
    "segment_of s h = Some x \<Longrightarrow> h < next_segment_handle s"
    "h \<in> set (m_listReadyRetryReliableRange s) \<longleftrightarrow> (\<exists>x. segment_of s h = Some x \<and> m_hStatusOrRetry x = k_nStatus_Retry)"
    "distinct (m_listReadyRetryReliableRange s)" "sorted_wrt (in_order s) (m_listReadyRetryReliableRange s)"
  using assms unfolding segs_ok_def by blast+

text \<open>A change of the table by segment: static data stay, the retry list follows the status, and what is no longer waiting
  for an ack is acked.\<close>

lemma segs_ok_change:
  assumes ok: "segs_ok s C A" and fr: "frame s s'"
    and d: "distinct (map fst (m_listSentReliableSegments s'))"
    and retry: "distinct (m_listReadyRetryReliableRange s')" "sorted_wrt (in_order s') (m_listReadyRetryReliableRange s')"
      "\<And>h. h \<in> set (m_listReadyRetryReliableRange s') \<longleftrightarrow> (\<exists>x. segment_of s' h = Some x \<and> m_hStatusOrRetry x = k_nStatus_Retry)"
    and gone: "\<And>h x. segment_of s h = Some x \<Longrightarrow> m_hStatusOrRetry x \<noteq> k_nStatus_Acked \<Longrightarrow>
      (\<exists>x'. segment_of s' h = Some x' \<and> m_hStatusOrRetry x' \<noteq> k_nStatus_Acked) \<or> (seg_lane x, seg_range x) \<in> A"
  shows "segs_ok s' C A"
proof -
  have f: "\<exists>x. segment_of s h = Some x \<and> seg_static x' = seg_static x" if "segment_of s' h = Some x'" for h x'
    using fr that by (simp add: frame_def)
  have len: "length (send_lanes s') = length (send_lanes s)" "next_segment_handle s' = next_segment_handle s"
    using fr by (auto simp: frame_def dest: map_eq_imp_length_eq)
  have 1: "\<forall>h x'. segment_of s' h = Some x' \<longrightarrow> h < next_segment_handle s' \<and> seg_lane x' < length (send_lanes s') \<and>
      0 < m_cbSize x' \<and> seg_range x' \<in> set (C (seg_lane x'))"
  proof (intro allI impI)
    fix h x' assume "segment_of s' h = Some x'"
    then obtain x where x: "segment_of s h = Some x" "seg_static x' = seg_static x" using f by blast
    moreover from x(1) have "h < next_segment_handle s \<and> seg_lane x < length (send_lanes s) \<and> 0 < m_cbSize x \<and>
        seg_range x \<in> set (C (seg_lane x))" using ok unfolding segs_ok_def by blast
    ultimately show "h < next_segment_handle s' \<and> seg_lane x' < length (send_lanes s') \<and> 0 < m_cbSize x' \<and>
        seg_range x' \<in> set (C (seg_lane x'))" using static_range [OF x(2)] len by simp
  qed
  have 2: "\<forall>h x h' x'. segment_of s' h = Some x \<and> segment_of s' h' = Some x' \<and> seg_key x = seg_key x' \<longrightarrow> h = h'"
  proof (intro allI impI)
    fix h x h' x' assume a: "segment_of s' h = Some x \<and> segment_of s' h' = Some x' \<and> seg_key x = seg_key x'"
    then obtain y y' where "segment_of s h = Some y" "segment_of s h' = Some y'" "seg_static x = seg_static y" "seg_static x' = seg_static y'"
      using f by metis
    moreover from this a have "seg_key y = seg_key y'" using static_range by metis
    ultimately show "h = h'" using ok unfolding segs_ok_def by blast
  qed
  have 3: "\<forall>i. \<forall>r \<in> set (C i). (\<exists>h x. segment_of s' h = Some x \<and> seg_lane x = i \<and> seg_range x = r \<and>
        m_hStatusOrRetry x \<noteq> k_nStatus_Acked) \<or> (i, r) \<in> A"
  proof (intro allI ballI)
    fix i r assume "r \<in> set (C i)"
    then consider "(i, r) \<in> A" | h x where "segment_of s h = Some x" "seg_lane x = i" "seg_range x = r" "m_hStatusOrRetry x \<noteq> k_nStatus_Acked"
      using ok unfolding segs_ok_def by blast
    then show "(\<exists>h x. segment_of s' h = Some x \<and> seg_lane x = i \<and> seg_range x = r \<and>
        m_hStatusOrRetry x \<noteq> k_nStatus_Acked) \<or> (i, r) \<in> A"
    proof cases
      case 2
      from gone [OF 2(1,4)] show ?thesis
      proof
        assume "\<exists>x'. segment_of s' h = Some x' \<and> m_hStatusOrRetry x' \<noteq> k_nStatus_Acked"
        then obtain x' where x': "segment_of s' h = Some x'" "m_hStatusOrRetry x' \<noteq> k_nStatus_Acked" by blast
        then have "seg_static x' = seg_static x" using f [OF x'(1)] 2(1) by auto
        with x' 2 static_range show ?thesis by metis
      qed (use 2 in auto)
    qed blast
  qed
  show ?thesis unfolding segs_ok_def using d 1 2 retry 3 by blast
qed

lemma in_order_static:
  assumes "frame s s'" "in_order s h h'"
  shows "in_order s' h h'"
  unfolding in_order_def
proof (intro allI impI)
  fix x x' assume a: "segment_of s' h = Some x \<and> segment_of s' h' = Some x' \<and> seg_lane x = seg_lane x'"
  then obtain y y' where "segment_of s h = Some y" "segment_of s h' = Some y'" "seg_static x = seg_static y" "seg_static x' = seg_static y'"
    using assms(1) unfolding frame_def by metis
  with a assms(2) static_range [of x y] static_range [of x' y'] show "seg_begin x < seg_begin x'"
    unfolding in_order_def by metis
qed

lemma sorted_static: "frame s s' \<Longrightarrow> sorted_wrt (in_order s) hs \<Longrightarrow> sorted_wrt (in_order s') hs"
  by (erule sorted_wrt_mono_rel [rotated]) (rule in_order_static)

text \<open>The counters follow a change of one segment and of the counters of its lane.\<close>

definition sel :: "nat option \<Rightarrow> SNPSendReliableSegment \<Rightarrow> bool" where
  "sel k x \<longleftrightarrow> (case k of None \<Rightarrow> True | Some i \<Rightarrow> seg_lane x = i)"

definition status_sum :: "nat option \<Rightarrow> segment_status \<Rightarrow> SSNPSenderState \<Rightarrow> int" where
  "status_sum k t s = sum_segs (\<lambda>x. sel k x \<and> m_hStatusOrRetry x = t) s"

lemma status_sum_eq:
  "sum_segs (\<lambda>x. m_hStatusOrRetry x = t) s = status_sum None t s"
  "sum_segs (\<lambda>x. seg_lane x = i \<and> m_hStatusOrRetry x = t) s = status_sum (Some i) t s"
  by (simp_all add: status_sum_def sel_def)

lemma counts_ok_change:
  assumes ok: "counts_ok s"
    and lanes: "map lane_core (send_lanes s') = map lane_core (send_lanes s)"
    and r: "\<And>k. status_sum k k_nStatus_Retry s' = status_sum k k_nStatus_Retry s + dr k"
    and f: "\<And>k. status_sum k k_nStatus_InFlight s' = status_sum k k_nStatus_InFlight s + df k"
    and c: "m_cbPendingReliable s' = m_cbPendingReliable s + dr None"
      "m_cbSentUnackedReliable s' = m_cbSentUnackedReliable s + df None"
      "\<And>i. i < length (send_lanes s) \<Longrightarrow> lane_cbPendingReliable (send_lanes s' ! i) = lane_cbPendingReliable (send_lanes s ! i) + dr (Some i)"
      "\<And>i. i < length (send_lanes s) \<Longrightarrow> lane_cbSentUnackedReliable (send_lanes s' ! i) = lane_cbSentUnackedReliable (send_lanes s ! i) + df (Some i)"
  shows "counts_ok s'"
proof -
  have len: "length (send_lanes s') = length (send_lanes s)" using lanes by (rule map_eq_imp_length_eq)
  have lp: "lane_pending (send_lanes s' ! i) = lane_pending (send_lanes s ! i)" if "i < length (send_lanes s)" for i
    using lanes that len by (intro lane_pending_core) (metis nth_map)
  then have "map lane_pending (send_lanes s') = map lane_pending (send_lanes s)"
    using len by (intro nth_equalityI) auto
  with ok lp len c r f show ?thesis by (auto simp: counts_ok_def status_sum_eq)
qed

subsection \<open>Losing a reference\<close>

lemma holders_pos: "p \<in> set P \<Longrightarrow> h \<in> set (m_vecReliableSegments (snd p)) \<Longrightarrow> 0 < holders P h"
  by (auto simp: holders_def length_greater_0_conv filter_empty_conv)

lemma remove_ref_ok:
  assumes ok: "segs_ok s C A" "refs_ok s P (h # pend) safe" "counts_ok s"
    and live: "\<And>x. segment_of s h = Some x \<Longrightarrow> m_hStatusOrRetry x = k_nStatus_InFlight \<Longrightarrow>
      \<exists>p \<in> set P. \<not> m_bNack (snd p) \<and> h \<in> set (m_vecReliableSegments (snd p))"
  obtains s' where "RemoveRefCountReliableSegment h s = Some s'" "frame s s'" "segs_ok s' C A" "refs_ok s' P pend safe" "counts_ok s'"
proof -
  obtain x where x: "segment_of s h = Some x" using ok(2) by (auto simp: refs_ok_def)
  have n: "int (holders P h + count_list (h # pend) h) \<le> m_nRefCount x" using ok(2) x unfolding refs_ok_def by blast
  note d = segs_okD [OF ok(1)]
  define dec where "dec = (\<lambda>x :: SNPSendReliableSegment. x\<lparr>m_nRefCount := m_nRefCount x - 1\<rparr>)"
  define s1 where "s1 = upd_segment h dec s"
  have s1: "frame s s1" by (auto simp: frame_def s1_def dec_def)
  have dec: "m_hStatusOrRetry (dec y) = m_hStatusOrRetry y" "m_nRefCount (dec y) = m_nRefCount y - 1"
    "weight Q (dec y) = (if Q (dec y) then m_cbSize y else 0)" for y Q by (simp_all add: dec_def weight_def)
  have segs1: "segs_ok s1 C A"
  proof (rule segs_ok_change [OF ok(1) s1])
    show "sorted_wrt (in_order s1) (m_listReadyRetryReliableRange s1)" using sorted_static [OF s1 d(7)] by (simp add: s1_def)
    show "h' \<in> set (m_listReadyRetryReliableRange s1) \<longleftrightarrow> (\<exists>x. segment_of s1 h' = Some x \<and> m_hStatusOrRetry x = k_nStatus_Retry)" for h'
      using d(5) [of h'] by (auto simp: s1_def dec)
  qed (use d(1,6) in \<open>auto simp: s1_def dec\<close>)
  have sums1: "sum_segs (\<lambda>x. Q x \<and> m_hStatusOrRetry x = t) s1 = sum_segs (\<lambda>x. Q x \<and> m_hStatusOrRetry x = t) s"
    if "\<And>y. Q (dec y) = Q y" for Q t
    using sum_segs_upd [OF d(1) x, of "\<lambda>x. Q x \<and> m_hStatusOrRetry x = t" dec] that by (simp add: s1_def weight_def dec) (simp add: dec_def)
  have counts1: "counts_ok s1"
    using ok(3) sums1 [of "\<lambda>_. True"] sums1 [of "\<lambda>x. seg_lane x = i" for i]
    by (simp add: counts_ok_def) (simp add: s1_def dec_def)
  show ?thesis
  proof (cases "m_nRefCount x - 1 > 0 \<or> m_hStatusOrRetry x \<noteq> k_nStatus_Acked")
    case True
    have "RemoveRefCountReliableSegment h s = Some s1"
      using True by (auto simp: RemoveRefCountReliableSegment_def x Let_def s1_def dec_def)
    moreover have "refs_ok s1 P pend safe"
      unfolding refs_ok_def
    proof (intro conjI allI impI)
      fix k y assume y: "segment_of s1 k = Some y"
      show "int (holders P k + count_list pend k) \<le> m_nRefCount y"
      proof (cases "k = h")
        case True
        then show ?thesis using y x n by (auto simp: s1_def dec)
      next
        case False
        then have "segment_of s k = Some y" using y by (simp add: s1_def)
        then have "int (holders P k + count_list (h # pend) k) \<le> m_nRefCount y" using ok(2) unfolding refs_ok_def by blast
        with False show ?thesis by simp
      qed
      show "0 < m_nRefCount y" if st: "m_hStatusOrRetry y \<noteq> k_nStatus_Retry"
      proof (cases "k = h")
        case k: True
        then have y': "y = dec x" using y x by (simp add: s1_def)
        show ?thesis
        proof (cases "m_nRefCount x - 1 > 0")
          case False
          with True st y' have "m_hStatusOrRetry x = k_nStatus_InFlight" by (cases "m_hStatusOrRetry x") (simp_all add: dec)
          then have "0 < holders P h" using live [OF x] holders_pos by blast
          with n False show ?thesis by simp
        qed (simp add: y' dec)
      next
        case False
        then show ?thesis using y st ok(2) by (auto simp: s1_def refs_ok_def)
      qed
      show "(\<exists>p \<in> set P. \<not> m_bNack (snd p) \<and> k \<in> set (m_vecReliableSegments (snd p))) \<or> k \<in> safe"
        if "m_hStatusOrRetry y = k_nStatus_InFlight"
        using y that x live ok(2) by (cases "k = h") (auto simp: s1_def refs_ok_def dec)
    qed (use ok(2) in \<open>auto simp: s1_def refs_ok_def\<close>)
    ultimately show ?thesis using that s1 segs1 counts1 by blast
  next
    case False
    then have a: "m_hStatusOrRetry x = k_nStatus_Acked" "m_nRefCount x \<le> 1" by auto
    have zero: "holders P h = 0" "count_list pend h = 0" using n a(2) by auto
    define key n' where "key = (seg_lane x, out_msg_num (seg_msg x))" and "n' = m_nSentReliableSegRefCount s1 key - 1"
    define s2 where "s2 = s1\<lparr>m_nSentReliableSegRefCount := (m_nSentReliableSegRefCount s1)(key := n')\<rparr>"
    define s3 where "s3 = (if n' \<le> 0 then s2\<lparr>m_unackedReliableMessages :=
                  filter (\<lambda>(i, m). (i, out_msg_num m) \<noteq> key) (m_unackedReliableMessages s2)\<rparr> else s2)"
    define s4 where "s4 = s3\<lparr>m_listSentReliableSegments := filter (\<lambda>(k, x). k \<noteq> h) (m_listSentReliableSegments s3)\<rparr>"
    have rem: "RemoveRefCountReliableSegment h s = Some s4"
      using a unfolding RemoveRefCountReliableSegment_def x
      by (simp add: Let_def s4_def s3_def s2_def n'_def key_def s1_def dec_def)
    have f3: "send_lanes s3 = send_lanes s1" "m_cbPendingReliable s3 = m_cbPendingReliable s1"
      "m_cbSentUnackedReliable s3 = m_cbSentUnackedReliable s1" "next_segment_handle s3 = next_segment_handle s1"
      "m_listReadyRetryReliableRange s3 = m_listReadyRetryReliableRange s1"
      "m_mapInFlightPacketsByPktNum s3 = m_mapInFlightPacketsByPktNum s1"
      "m_itNextInFlightPacketToTimeout s3 = m_itNextInFlightPacketToTimeout s1"
      "m_nMinPktWaitingOnAck s3 = m_nMinPktWaitingOnAck s1" "m_listSentReliableSegments s3 = m_listSentReliableSegments s1"
      by (simp_all add: s3_def s2_def)
    have seg3: "segment_of s3 k = segment_of s1 k" for k by (rule segment_of_cong [OF f3(9)])
    have seg4: "segment_of s4 k = (if k = h then None else segment_of s k)" for k
      unfolding s4_def segment_of_remove seg3 by (simp add: s1_def)
    have "send_lanes s4 = send_lanes s" "m_mapInFlightPacketsByPktNum s4 = m_mapInFlightPacketsByPktNum s"
      "m_itNextInFlightPacketToTimeout s4 = m_itNextInFlightPacketToTimeout s" "m_nMinPktWaitingOnAck s4 = m_nMinPktWaitingOnAck s"
      "next_segment_handle s4 = next_segment_handle s" by (simp_all add: s4_def f3 s1_def)
    then have f4: "frame s s4" by (auto simp: frame_def seg4)
    have nr: "h \<notin> set (m_listReadyRetryReliableRange s)" using d(5) [of h] x a(1) by simp
    have retry4: "m_listReadyRetryReliableRange s4 = m_listReadyRetryReliableRange s" by (simp add: s4_def f3 s1_def)
    have "segs_ok s4 C A"
    proof (rule segs_ok_change [OF ok(1) f4])
      show "distinct (map fst (m_listSentReliableSegments s4))"
        using d(1) by (simp add: s4_def f3 s1_def distinct_map_filter)
      show "sorted_wrt (in_order s4) (m_listReadyRetryReliableRange s4)" using sorted_static [OF f4 d(7)] retry4 by simp
      show "k \<in> set (m_listReadyRetryReliableRange s4) \<longleftrightarrow> (\<exists>x. segment_of s4 k = Some x \<and> m_hStatusOrRetry x = k_nStatus_Retry)" for k
        using d(5) [of k] nr by (auto simp: retry4 seg4)
    qed (use d(6) a x in \<open>auto simp: retry4 seg4\<close>)
    moreover have "refs_ok s4 P pend safe"
      unfolding refs_ok_def
    proof (intro conjI ballI allI impI)
      show "segment_of s4 k \<noteq> None" if "p \<in> set P" "k \<in> set (m_vecReliableSegments (snd p))" for p k
        using ok(2) that holders_pos [OF that] zero(1) by (auto simp: refs_ok_def seg4)
      show "segment_of s4 k \<noteq> None" if "k \<in> set pend" for k
        using ok(2) that zero(2) by (auto simp: refs_ok_def seg4 count_list_0_iff)
      fix k y assume y: "segment_of s4 k = Some y"
      then have k: "k \<noteq> h" "segment_of s k = Some y" by (auto simp: seg4 split: if_splits)
      then have r: "int (holders P k + count_list (h # pend) k) \<le> m_nRefCount y" "m_hStatusOrRetry y \<noteq> k_nStatus_Retry \<longrightarrow> 0 < m_nRefCount y"
        "m_hStatusOrRetry y = k_nStatus_InFlight \<longrightarrow>
          (\<exists>p \<in> set P. \<not> m_bNack (snd p) \<and> k \<in> set (m_vecReliableSegments (snd p))) \<or> k \<in> safe"
        using ok(2) unfolding refs_ok_def by blast+
      show "int (holders P k + count_list pend k) \<le> m_nRefCount y" using r(1) k(1) by simp
      show "0 < m_nRefCount y" if "m_hStatusOrRetry y \<noteq> k_nStatus_Retry" using r(2) that by blast
      show "(\<exists>p \<in> set P. \<not> m_bNack (snd p) \<and> k \<in> set (m_vecReliableSegments (snd p))) \<or> k \<in> safe"
        if "m_hStatusOrRetry y = k_nStatus_InFlight" using r(3) that by blast
    qed
    moreover have "counts_ok s4"
    proof -
      have x1: "segment_of s3 h = Some (dec x)" using x by (simp add: seg3 s1_def)
      have d3: "distinct (map fst (m_listSentReliableSegments s3))" using d(1) by (simp add: f3 s1_def)
      have "sum_segs (\<lambda>x. Q x \<and> m_hStatusOrRetry x = t) s4 = sum_segs (\<lambda>x. Q x \<and> m_hStatusOrRetry x = t) s1"
        if "t \<noteq> k_nStatus_Acked" for Q t
        using sum_segs_remove [OF d3 x1, of "\<lambda>x. Q x \<and> m_hStatusOrRetry x = t"] that a(1)
          sum_segs_cong [OF f3(9), of "\<lambda>x. Q x \<and> m_hStatusOrRetry x = t"]
        by (simp add: s4_def weight_def dec)
      from this [of k_nStatus_Retry "\<lambda>_. True"] this [of k_nStatus_InFlight "\<lambda>_. True"] this [of k_nStatus_Retry] this [of k_nStatus_InFlight]
      show ?thesis using counts1 by (simp add: counts_ok_def s4_def f3)
    qed
    ultimately show ?thesis using that rem f4 by blast
  qed
qed

subsection \<open>A new status\<close>

definition set_status :: "segment_status \<Rightarrow> SNPSendReliableSegment \<Rightarrow> SNPSendReliableSegment" where
  "set_status t x = x\<lparr>m_hStatusOrRetry := t\<rparr>"

lemma set_status_simps [simp]:
  "m_hStatusOrRetry (set_status t x) = t" "m_nRefCount (set_status t x) = m_nRefCount x" "sel k (set_status t x) = sel k x"
  "m_cbSize (set_status t x) = m_cbSize x" "seg_static (set_status t x) = seg_static x"
  by (simp_all add: set_status_def sel_def split: option.split)

lemma status_change:
  assumes ok: "segs_ok s C A" and x: "segment_of s h = Some x"
    and seg: "m_listSentReliableSegments s' = m_listSentReliableSegments (upd_segment h (set_status t) s)"
    and keep: "map lane_core (send_lanes s') = map lane_core (send_lanes s)"
      "m_mapInFlightPacketsByPktNum s' = m_mapInFlightPacketsByPktNum s"
      "m_itNextInFlightPacketToTimeout s' = m_itNextInFlightPacketToTimeout s"
      "m_nMinPktWaitingOnAck s' = m_nMinPktWaitingOnAck s" "next_segment_handle s' = next_segment_handle s"
    and retry: "distinct (m_listReadyRetryReliableRange s')" "sorted_wrt (in_order s) (m_listReadyRetryReliableRange s')"
      "set (m_listReadyRetryReliableRange s') = set (m_listReadyRetryReliableRange s) - {h} \<union> (if t = k_nStatus_Retry then {h} else {})"
    and acked: "t = k_nStatus_Acked \<Longrightarrow> (seg_lane x, seg_range x) \<in> A"
  shows "frame s s'" "segs_ok s' C A" "\<And>k. segment_of s' k = (if k = h then Some (set_status t x) else segment_of s k)"
    "\<And>k u. status_sum k u s' = status_sum k u s - (if sel k x \<and> m_hStatusOrRetry x = u then m_cbSize x else 0) +
      (if sel k x \<and> t = u then m_cbSize x else 0)"
proof -
  note d = segs_okD [OF ok]
  show seg': "segment_of s' k = (if k = h then Some (set_status t x) else segment_of s k)" for k
    using segment_of_cong [OF seg, of k] x by simp
  show fr: "frame s s'" using keep x by (auto simp: frame_def seg')
  show "segs_ok s' C A"
  proof (rule segs_ok_change [OF ok fr])
    show "distinct (map fst (m_listSentReliableSegments s'))" using d(1) by (simp add: seg)
    show "sorted_wrt (in_order s') (m_listReadyRetryReliableRange s')" by (rule sorted_static [OF fr retry(2)])
    show "k \<in> set (m_listReadyRetryReliableRange s') \<longleftrightarrow> (\<exists>x. segment_of s' k = Some x \<and> m_hStatusOrRetry x = k_nStatus_Retry)" for k
      using d(5) [of k] by (auto simp: retry(3) seg')
    show "(\<exists>x'. segment_of s' k = Some x' \<and> m_hStatusOrRetry x' \<noteq> k_nStatus_Acked) \<or> (seg_lane y, seg_range y) \<in> A"
      if "segment_of s k = Some y" "m_hStatusOrRetry y \<noteq> k_nStatus_Acked" for k y
      using that x acked by (cases "t = k_nStatus_Acked") (auto simp: seg')
  qed (rule retry(1))
  show "status_sum k u s' = status_sum k u s - (if sel k x \<and> m_hStatusOrRetry x = u then m_cbSize x else 0) +
      (if sel k x \<and> t = u then m_cbSize x else 0)" for k u
    using sum_segs_upd [OF d(1) x, of "\<lambda>x. sel k x \<and> m_hStatusOrRetry x = u" "set_status t"] sum_segs_cong [OF seg]
    by (simp add: status_sum_def weight_def)
qed

lemma lane_core_counts [simp]:
  "lane_core (l\<lparr>lane_cbPendingReliable := a\<rparr>) = lane_core l" "lane_core (l\<lparr>lane_cbSentUnackedReliable := a\<rparr>) = lane_core l"
  "lane_core (l\<lparr>lane_cbPendingUnreliable := a\<rparr>) = lane_core l"
  by (simp_all add: lane_core_def)

lemma upd_lane_core:
  assumes "\<And>l. lane_core (f l) = lane_core l"
  shows "map lane_core (send_lanes (upd_lane i f s)) = map lane_core (send_lanes s)"
proof (rule nth_equalityI)
  fix k assume "k < length (map lane_core (send_lanes (upd_lane i f s)))"
  then show "map lane_core (send_lanes (upd_lane i f s)) ! k = map lane_core (send_lanes s) ! k"
    by (cases "i = k") (simp_all add: upd_lane_def assms)
qed simp

lemma nth_upd_lane:
  "j < length (send_lanes s) \<Longrightarrow> send_lanes (upd_lane i f s) ! j = (if j = i then f (send_lanes s ! i) else send_lanes s ! j)"
  by (cases "j = i") (simp_all add: upd_lane_def)

subsection \<open>Retry\<close>

lemma link_before_ok:
  assumes "\<forall>k \<in> set hs. segment_of s k \<noteq> None" "sorted_wrt (in_order s) hs" "segment_of s h = Some x"
    "\<And>k y. k \<in> set hs \<Longrightarrow> segment_of s k = Some y \<Longrightarrow> seg_lane y = seg_lane x \<Longrightarrow> seg_begin y \<noteq> seg_begin x"
  shows "\<exists>hs1 hs2. hs = hs1 @ hs2 \<and> link_before s h x hs = Some (hs1 @ h # hs2) \<and> sorted_wrt (in_order s) (hs1 @ h # hs2)"
  using assms
proof (induction hs)
  case (Cons k hs)
  then obtain y where y: "segment_of s k = Some y" by auto
  show ?case
  proof (cases "seg_lane y = seg_lane x \<and> seg_begin y > seg_begin x")
    case True
    have "in_order s h k'" if "k' \<in> set (k # hs)" for k'
      unfolding in_order_def
    proof (intro allI impI)
      fix z z' assume a: "segment_of s h = Some z \<and> segment_of s k' = Some z' \<and> seg_lane z = seg_lane z'"
      then have z: "z = x" using Cons.prems(3) by simp
      show "seg_begin z < seg_begin z'"
      proof (cases "k' = k")
        case False
        then have "in_order s k k'" using Cons.prems(2) that by simp
        with a y True z have "seg_begin y < seg_begin z'" unfolding in_order_def by metis
        with True z show ?thesis by simp
      qed (use a y True z in auto)
    qed
    then have "sorted_wrt (in_order s) (h # k # hs)" using Cons.prems(2) by simp
    with True y show ?thesis by (intro exI [of _ "[]"] exI [of _ "k # hs"]) simp
  next
    case False
    obtain hs1 hs2 where h: "hs = hs1 @ hs2" "link_before s h x hs = Some (hs1 @ h # hs2)" "sorted_wrt (in_order s) (hs1 @ h # hs2)"
      using Cons by auto
    have "in_order s k h"
      unfolding in_order_def
    proof (intro allI impI)
      fix z z' assume "segment_of s k = Some z \<and> segment_of s h = Some z' \<and> seg_lane z = seg_lane z'"
      then have "z = y" "z' = x" "seg_lane y = seg_lane x" using y Cons.prems(3) by auto
      with False Cons.prems(4) [of k y] y show "seg_begin z < seg_begin z'" by auto
    qed
    with h Cons.prems(2) have "sorted_wrt (in_order s) ((k # hs1) @ h # hs2)" by (auto simp: sorted_wrt_append)
    with h y False show ?thesis by (intro exI [of _ "k # hs1"] exI [of _ hs2]) auto
  qed
qed simp

lemma refs_ok_status:
  assumes "refs_ok s P pend safe" "segment_of s h = Some x" "t \<noteq> k_nStatus_Retry \<Longrightarrow> 0 < m_nRefCount x"
    "\<And>k. segment_of s' k = (if k = h then Some (set_status t x) else segment_of s k)"
    "t = k_nStatus_InFlight \<Longrightarrow> h \<in> safe'" "safe - {h} \<subseteq> safe'"
  shows "refs_ok s' P pend safe'"
  unfolding refs_ok_def
proof (intro conjI ballI allI impI)
  fix k y assume y: "segment_of s' k = Some y"
  obtain z where z: "segment_of s k = Some z" "m_nRefCount y = m_nRefCount z" using y assms(2,4) by (auto split: if_splits)
  have r: "int (holders P k + count_list pend k) \<le> m_nRefCount z" "m_hStatusOrRetry z \<noteq> k_nStatus_Retry \<longrightarrow> 0 < m_nRefCount z"
    "m_hStatusOrRetry z = k_nStatus_InFlight \<longrightarrow> (\<exists>p \<in> set P. \<not> m_bNack (snd p) \<and> k \<in> set (m_vecReliableSegments (snd p))) \<or> k \<in> safe"
    using assms(1) z(1) unfolding refs_ok_def by blast+
  show "int (holders P k + count_list pend k) \<le> m_nRefCount y" using r(1) z(2) by simp
  show "0 < m_nRefCount y" if "m_hStatusOrRetry y \<noteq> k_nStatus_Retry"
  proof (cases "k = h")
    case True
    then have "y = set_status t x" "z = x" using y z(1) assms(2) assms(4) [of k] by simp_all
    then show ?thesis using that assms(3) by simp
  next
    case False
    then have "z = y" using y z(1) assms(4) [of k] by simp
    then show ?thesis using that r(2) by simp
  qed
  show "(\<exists>p \<in> set P. \<not> m_bNack (snd p) \<and> k \<in> set (m_vecReliableSegments (snd p))) \<or> k \<in> safe'"
    if "m_hStatusOrRetry y = k_nStatus_InFlight"
  proof (cases "k = h")
    case True
    then have "t = k_nStatus_InFlight" using that y assms(4) [of k] by auto
    then show ?thesis using assms(5) True by blast
  next
    case False
    then have "z = y" using y z(1) assms(4) by simp
    with that r(3) False assms(6) show ?thesis by blast
  qed
qed (use assms(1,2,4) in \<open>auto simp: refs_ok_def\<close>)

lemma queue_retry_ok:
  assumes ok: "segs_ok s C A" "refs_ok s P pend (insert h safe)" "counts_ok s" and x: "segment_of s h = Some x"
  obtains s' where "queue_retry h s = Some s'" "frame s s'" "segs_ok s' C A" "refs_ok s' P pend safe" "counts_ok s'"
    "\<And>k. segment_of s' k = None \<longleftrightarrow> segment_of s k = None"
proof (cases "m_hStatusOrRetry x = k_nStatus_InFlight")
  case False
  then have "refs_ok s P pend safe" using ok(2) x unfolding refs_ok_def by (metis insert_iff option.inject)
  with False ok x show ?thesis by (intro that [of s]) (simp_all add: queue_retry_def)
next
  case True
  note d = segs_okD [OF ok(1)]
  have nr: "h \<notin> set (m_listReadyRetryReliableRange s)" using d(5) [of h] x True by simp
  have inj: "seg_begin y \<noteq> seg_begin x" if "k \<in> set (m_listReadyRetryReliableRange s)" "segment_of s k = Some y" "seg_lane y = seg_lane x" for k y
  proof
    assume "seg_begin y = seg_begin x"
    then have "seg_key y = seg_key x" using that(3) by (simp add: seg_key_def)
    then have "k = h" using ok(1) that(2) x unfolding segs_ok_def by blast
    with nr that(1) show False by simp
  qed
  obtain hs1 hs2 where hs: "m_listReadyRetryReliableRange s = hs1 @ hs2"
    "link_before s h x (m_listReadyRetryReliableRange s) = Some (hs1 @ h # hs2)" "sorted_wrt (in_order s) (hs1 @ h # hs2)"
  proof -
    have "\<forall>k \<in> set (m_listReadyRetryReliableRange s). segment_of s k \<noteq> None"
    proof
      fix k assume "k \<in> set (m_listReadyRetryReliableRange s)"
      then obtain z where "segment_of s k = Some z" using d(5) [of k] by blast
      then show "segment_of s k \<noteq> None" by simp
    qed
    then have "\<exists>hs1 hs2. m_listReadyRetryReliableRange s = hs1 @ hs2 \<and>
        link_before s h x (m_listReadyRetryReliableRange s) = Some (hs1 @ h # hs2) \<and> sorted_wrt (in_order s) (hs1 @ h # hs2)"
      by (rule link_before_ok [OF _ d(7) x]) (rule inj)
    then show ?thesis by (elim exE conjE) (rule that)
  qed
  define c where "c = m_cbSize x"
  define s1 where "s1 = upd_segment h (set_status k_nStatus_Retry) (s\<lparr>m_listReadyRetryReliableRange := hs1 @ h # hs2\<rparr>)"
  define s2 where "s2 = s1\<lparr>m_cbSentUnackedReliable := m_cbSentUnackedReliable s1 - c, m_cbPendingReliable := m_cbPendingReliable s1 + c\<rparr>"
  define f where "f = (\<lambda>l :: SendLane. l\<lparr>lane_cbSentUnackedReliable := lane_cbSentUnackedReliable l - c,
         lane_cbPendingReliable := lane_cbPendingReliable l + c\<rparr>)"
  define s3 where "s3 = upd_lane (seg_lane x) f s2"
  have ev: "queue_retry h s = Some s3"
    using True hs(2) by (simp add: queue_retry_def x Let_def s3_def s2_def s1_def c_def f_def set_status_def [abs_def])
  have seg: "m_listSentReliableSegments s3 = m_listSentReliableSegments (upd_segment h (set_status k_nStatus_Retry) s)"
    by (simp add: s3_def s2_def s1_def upd_segment_def)
  have core: "map lane_core (send_lanes s3) = map lane_core (send_lanes s)"
    unfolding s3_def by (subst upd_lane_core) (simp_all add: f_def s2_def s1_def)
  have retry: "m_listReadyRetryReliableRange s3 = hs1 @ h # hs2" by (simp add: s3_def s2_def s1_def)
  have keep: "m_mapInFlightPacketsByPktNum s3 = m_mapInFlightPacketsByPktNum s"
    "m_itNextInFlightPacketToTimeout s3 = m_itNextInFlightPacketToTimeout s"
    "m_nMinPktWaitingOnAck s3 = m_nMinPktWaitingOnAck s" "next_segment_handle s3 = next_segment_handle s"
    by (simp_all add: s3_def s2_def s1_def)
  have "distinct (hs1 @ h # hs2)" using d(6) nr hs(1) by auto
  then have rt: "distinct (m_listReadyRetryReliableRange s3)" "sorted_wrt (in_order s) (m_listReadyRetryReliableRange s3)"
    "set (m_listReadyRetryReliableRange s3) = set (m_listReadyRetryReliableRange s) - {h} \<union>
      (if k_nStatus_Retry = k_nStatus_Retry then {h} else {})"
    using hs(1,3) nr by (simp_all add: retry)
  have na: "k_nStatus_Retry = k_nStatus_Acked \<Longrightarrow> (seg_lane x, seg_range x) \<in> A" by simp
  note st = status_change [OF ok(1) x seg core keep rt na]
  have "refs_ok s3 P pend safe" by (rule refs_ok_status [OF ok(2) x _ st(3)]) simp_all
  moreover have "counts_ok s3"
  proof (rule counts_ok_change [OF ok(3) core, where dr = "\<lambda>k. if sel k x then c else 0" and df = "\<lambda>k. if sel k x then - c else 0"])
    show "status_sum k k_nStatus_Retry s3 = status_sum k k_nStatus_Retry s + (if sel k x then c else 0)"
      "status_sum k k_nStatus_InFlight s3 = status_sum k k_nStatus_InFlight s + (if sel k x then - c else 0)" for k
      using st(4) [of k k_nStatus_Retry] st(4) [of k k_nStatus_InFlight] True by (simp_all add: c_def)
    show "lane_cbPendingReliable (send_lanes s3 ! i) = lane_cbPendingReliable (send_lanes s ! i) + (if sel (Some i) x then c else 0)"
      "lane_cbSentUnackedReliable (send_lanes s3 ! i) = lane_cbSentUnackedReliable (send_lanes s ! i) + (if sel (Some i) x then - c else 0)"
      if "i < length (send_lanes s)" for i
      using that by (simp_all add: s3_def s2_def s1_def nth_upd_lane f_def sel_def)
  qed (simp_all add: sel_def s3_def s2_def s1_def)
  moreover have "segment_of s3 k = None \<longleftrightarrow> segment_of s k = None" for k using st(3) [of k] x by simp
  ultimately show ?thesis using ev st(1,2) by (intro that [of s3])
qed

subsection \<open>Ack\<close>

lemma RemoveFromRetry_list:
  "m_listSentReliableSegments (RemoveReliableSegmentFromRetryList h t s) = m_listSentReliableSegments (upd_segment h (set_status t) s)"
  by (simp add: RemoveReliableSegmentFromRetryList_def upd_segment_def set_status_def [abs_def])

lemma RemoveFromRetry_fields [simp]:
  "send_lanes (RemoveReliableSegmentFromRetryList h t s) = send_lanes s"
  "m_cbPendingReliable (RemoveReliableSegmentFromRetryList h t s) = m_cbPendingReliable s"
  "m_cbPendingUnreliable (RemoveReliableSegmentFromRetryList h t s) = m_cbPendingUnreliable s"
  "m_cbSentUnackedReliable (RemoveReliableSegmentFromRetryList h t s) = m_cbSentUnackedReliable s"
  "next_segment_handle (RemoveReliableSegmentFromRetryList h t s) = next_segment_handle s"
  "m_listReadyRetryReliableRange (RemoveReliableSegmentFromRetryList h t s) = remove1 h (m_listReadyRetryReliableRange s)"
  "m_mapInFlightPacketsByPktNum (RemoveReliableSegmentFromRetryList h t s) = m_mapInFlightPacketsByPktNum s"
  "m_itNextInFlightPacketToTimeout (RemoveReliableSegmentFromRetryList h t s) = m_itNextInFlightPacketToTimeout s"
  "m_nMinPktWaitingOnAck (RemoveReliableSegmentFromRetryList h t s) = m_nMinPktWaitingOnAck s"
  by (simp_all add: RemoveReliableSegmentFromRetryList_def)

lemma sorted_remove1: "sorted_wrt R xs \<Longrightarrow> sorted_wrt R (remove1 x xs)"
  by (induction xs) (auto dest: notin_set_remove1)

lemma ack_segment_ok:
  assumes ok: "segs_ok s C A" "refs_ok s P (h # pend) (insert h safe)" "counts_ok s" and x: "segment_of s h = Some x"
    and acked: "(seg_lane x, seg_range x) \<in> A"
  obtains s' where "ack_segment h s = Some s'" "frame s s'" "segs_ok s' C A" "refs_ok s' P pend safe" "counts_ok s'"
proof -
  note d = segs_okD [OF ok(1)]
  have pos: "0 < m_nRefCount x"
  proof -
    have "int (holders P h + count_list (h # pend) h) \<le> m_nRefCount x" using ok(2) x unfolding refs_ok_def by blast
    then show ?thesis by simp
  qed
  define c where "c = m_cbSize x"
  define i where "i = seg_lane x"
  define s1 where "s1 = (if m_hStatusOrRetry x = k_nStatus_InFlight then
          upd_segment h (set_status k_nStatus_Acked)
            (upd_lane i (\<lambda>l. l\<lparr>lane_cbSentUnackedReliable := lane_cbSentUnackedReliable l - c\<rparr>)
              (s\<lparr>m_cbSentUnackedReliable := m_cbSentUnackedReliable s - c\<rparr>))
        else if m_hStatusOrRetry x \<noteq> k_nStatus_Acked then
          upd_lane i (\<lambda>l. l\<lparr>lane_cbPendingReliable := lane_cbPendingReliable l - c\<rparr>)
            ((RemoveReliableSegmentFromRetryList h k_nStatus_Acked s)\<lparr>m_cbPendingReliable := m_cbPendingReliable s - c\<rparr>)
        else s)"
  have ev: "ack_segment h s = RemoveRefCountReliableSegment h s1"
    by (simp add: ack_segment_def x Let_def s1_def c_def i_def set_status_def [abs_def])
  have s1: "frame s s1 \<and> segs_ok s1 C A \<and> refs_ok s1 P (h # pend) safe \<and> counts_ok s1 \<and>
    segment_of s1 h = Some (set_status k_nStatus_Acked x)"
  proof (cases "m_hStatusOrRetry x")
    case k_nStatus_Acked
    then have "s1 = s" by (simp add: s1_def)
    moreover have "refs_ok s P (h # pend) safe" using ok(2) x k_nStatus_Acked unfolding refs_ok_def
      by (metis insert_iff option.inject segment_status.distinct(1))
    moreover have "set_status k_nStatus_Acked x = x" using k_nStatus_Acked by (simp add: set_status_def)
    ultimately show ?thesis using ok x by simp
  next
    case k_nStatus_InFlight
    then have e: "s1 = upd_segment h (set_status k_nStatus_Acked)
            (upd_lane i (\<lambda>l. l\<lparr>lane_cbSentUnackedReliable := lane_cbSentUnackedReliable l - c\<rparr>)
              (s\<lparr>m_cbSentUnackedReliable := m_cbSentUnackedReliable s - c\<rparr>))" by (simp add: s1_def)
    have nr: "h \<notin> set (m_listReadyRetryReliableRange s)" using d(5) [of h] x k_nStatus_InFlight by simp
    have seg: "m_listSentReliableSegments s1 = m_listSentReliableSegments (upd_segment h (set_status k_nStatus_Acked) s)"
      by (simp add: e upd_segment_def)
    have core: "map lane_core (send_lanes s1) = map lane_core (send_lanes s)"
      unfolding e upd_segment_fields by (subst upd_lane_core) simp_all
    have keep: "m_mapInFlightPacketsByPktNum s1 = m_mapInFlightPacketsByPktNum s"
      "m_itNextInFlightPacketToTimeout s1 = m_itNextInFlightPacketToTimeout s"
      "m_nMinPktWaitingOnAck s1 = m_nMinPktWaitingOnAck s" "next_segment_handle s1 = next_segment_handle s"
      by (simp_all add: e)
    have rt: "distinct (m_listReadyRetryReliableRange s1)" "sorted_wrt (in_order s) (m_listReadyRetryReliableRange s1)"
      "set (m_listReadyRetryReliableRange s1) = set (m_listReadyRetryReliableRange s) - {h} \<union>
        (if k_nStatus_Acked = k_nStatus_Retry then {h} else {})"
      using d(6,7) nr by (simp_all add: e)
    note st = status_change [OF ok(1) x seg core keep rt acked]
    have "counts_ok s1"
    proof (rule counts_ok_change [OF ok(3) core, where dr = "\<lambda>k. 0" and df = "\<lambda>k. if sel k x then - c else 0"])
      show "lane_cbPendingReliable (send_lanes s1 ! j) = lane_cbPendingReliable (send_lanes s ! j) + 0"
        "lane_cbSentUnackedReliable (send_lanes s1 ! j) = lane_cbSentUnackedReliable (send_lanes s ! j) + (if sel (Some j) x then - c else 0)"
        if "j < length (send_lanes s)" for j
        using that by (simp_all add: e nth_upd_lane sel_def i_def)
      show "status_sum k k_nStatus_Retry s1 = status_sum k k_nStatus_Retry s + 0"
        "status_sum k k_nStatus_InFlight s1 = status_sum k k_nStatus_InFlight s + (if sel k x then - c else 0)" for k
        using st(4) [of k k_nStatus_Retry] st(4) [of k k_nStatus_InFlight] k_nStatus_InFlight by (simp_all add: c_def)
    qed (simp_all add: sel_def e)
    moreover have "refs_ok s1 P (h # pend) safe"
      by (rule refs_ok_status [OF ok(2) x pos st(3)]) auto
    ultimately show ?thesis using st(1-3) by simp
  next
    case k_nStatus_Retry
    then have e: "s1 = upd_lane i (\<lambda>l. l\<lparr>lane_cbPendingReliable := lane_cbPendingReliable l - c\<rparr>)
            ((RemoveReliableSegmentFromRetryList h k_nStatus_Acked s)\<lparr>m_cbPendingReliable := m_cbPendingReliable s - c\<rparr>)"
      by (simp add: s1_def)
    have seg: "m_listSentReliableSegments s1 = m_listSentReliableSegments (upd_segment h (set_status k_nStatus_Acked) s)"
      by (simp add: e RemoveFromRetry_list)
    have core: "map lane_core (send_lanes s1) = map lane_core (send_lanes s)"
      unfolding e by (subst upd_lane_core) simp_all
    have keep: "m_mapInFlightPacketsByPktNum s1 = m_mapInFlightPacketsByPktNum s"
      "m_itNextInFlightPacketToTimeout s1 = m_itNextInFlightPacketToTimeout s"
      "m_nMinPktWaitingOnAck s1 = m_nMinPktWaitingOnAck s" "next_segment_handle s1 = next_segment_handle s"
      by (simp_all add: e)
    have rt: "distinct (m_listReadyRetryReliableRange s1)" "sorted_wrt (in_order s) (m_listReadyRetryReliableRange s1)"
      "set (m_listReadyRetryReliableRange s1) = set (m_listReadyRetryReliableRange s) - {h} \<union>
        (if k_nStatus_Acked = k_nStatus_Retry then {h} else {})"
      using d(6,7) sorted_remove1 by (simp_all add: e set_remove1_eq)
    note st = status_change [OF ok(1) x seg core keep rt acked]
    have "counts_ok s1"
    proof (rule counts_ok_change [OF ok(3) core, where dr = "\<lambda>k. if sel k x then - c else 0" and df = "\<lambda>k. 0"])
      show "lane_cbSentUnackedReliable (send_lanes s1 ! j) = lane_cbSentUnackedReliable (send_lanes s ! j) + 0"
        "lane_cbPendingReliable (send_lanes s1 ! j) = lane_cbPendingReliable (send_lanes s ! j) + (if sel (Some j) x then - c else 0)"
        if "j < length (send_lanes s)" for j
        using that by (simp_all add: e nth_upd_lane sel_def i_def)
      show "status_sum k k_nStatus_Retry s1 = status_sum k k_nStatus_Retry s + (if sel k x then - c else 0)"
        "status_sum k k_nStatus_InFlight s1 = status_sum k k_nStatus_InFlight s + 0" for k
        using st(4) [of k k_nStatus_Retry] st(4) [of k k_nStatus_InFlight] k_nStatus_Retry by (simp_all add: c_def)
    qed (simp_all add: sel_def e)
    moreover have "refs_ok s1 P (h # pend) safe"
      by (rule refs_ok_status [OF ok(2) x pos st(3)]) auto
    ultimately show ?thesis using st(1-3) by simp
  qed
  show ?thesis
  proof (rule remove_ref_ok [of s1 C A P h pend safe])
    fix s' assume "RemoveRefCountReliableSegment h s1 = Some s'" "frame s1 s'" "segs_ok s' C A" "refs_ok s' P pend safe" "counts_ok s'"
    then show ?thesis using ev s1 frame_trans by (intro that [of s']) auto
  qed (use s1 in auto)
qed

end
