(* ===== verification/SnpPacketInv.thy ===== *)
theory SnpPacketInv
  imports SnpSenderInv
begin

text \<open>
  The packets in flight: what acks, nacks and timeouts of whole packets do to the table of segments and to the
  map of packets. No operation follows a handle to a segment that is gone or leaves the map.
\<close>

subsection \<open>All segments of a packet\<close>

lemma frame_seg: "frame s s' \<Longrightarrow> segment_of s' h = Some x' \<Longrightarrow> \<exists>x. segment_of s h = Some x \<and> seg_static x' = seg_static x"
  by (simp add: frame_def)

lemma frame_range:
  assumes "frame s s'" "\<And>x. segment_of s h = Some x \<Longrightarrow> (seg_lane x, seg_range x) \<in> A" "segment_of s' h = Some x'"
  shows "(seg_lane x', seg_range x') \<in> A"
  using frame_seg [OF assms(1,3)] assms(2) static_range by metis

lemma ack_segments_ok:
  assumes "segs_ok s C A" "refs_ok s P hs (set hs)" "counts_ok s"
    "\<And>h x. h \<in> set hs \<Longrightarrow> segment_of s h = Some x \<Longrightarrow> (seg_lane x, seg_range x) \<in> A"
  shows "\<exists>s'. ack_segments hs s = Some s' \<and> frame s s' \<and> segs_ok s' C A \<and> refs_ok s' P [] {} \<and> counts_ok s'"
  using assms
proof (induction hs arbitrary: s)
  case (Cons h hs)
  obtain x where x: "segment_of s h = Some x" using Cons.prems(2) by (auto simp: refs_ok_def)
  have "refs_ok s P (h # hs) (insert h (set hs))" using Cons.prems(2) by simp
  then obtain s1 where s1: "ack_segment h s = Some s1" "frame s s1" "segs_ok s1 C A" "refs_ok s1 P hs (set hs)" "counts_ok s1"
    using Cons.prems(4) [OF list.set_intros(1) x] by (rule ack_segment_ok [OF Cons.prems(1) _ Cons.prems(3) x])
  have "\<exists>s'. ack_segments hs s1 = Some s' \<and> frame s1 s' \<and> segs_ok s' C A \<and> refs_ok s' P [] {} \<and> counts_ok s'"
  proof (rule Cons.IH [OF s1(3,4,5)])
    fix k y assume k: "k \<in> set hs" "segment_of s1 k = Some y"
    show "(seg_lane y, seg_range y) \<in> A"
      by (rule frame_range [OF s1(2) _ k(2)]) (use k(1) Cons.prems(4) in auto)
  qed
  with s1 frame_trans show ?case by fastforce
qed simp

lemma remove_refs_ok:
  assumes "segs_ok s C A" "refs_ok s P hs {}" "counts_ok s"
  shows "\<exists>s'. remove_refs hs s = Some s' \<and> frame s s' \<and> segs_ok s' C A \<and> refs_ok s' P [] {} \<and> counts_ok s'"
  using assms
proof (induction hs arbitrary: s)
  case (Cons h hs)
  show ?case
  proof (rule remove_ref_ok [OF Cons.prems])
    show "\<exists>p \<in> set P. \<not> m_bNack (snd p) \<and> h \<in> set (m_vecReliableSegments (snd p))"
      if "segment_of s h = Some x" "m_hStatusOrRetry x = k_nStatus_InFlight" for x
      using Cons.prems(2) that unfolding refs_ok_def by blast
    fix s1 assume s1: "RemoveRefCountReliableSegment h s = Some s1" "frame s s1" "segs_ok s1 C A" "refs_ok s1 P hs {}" "counts_ok s1"
    from Cons.IH [OF s1(3-5)] s1(1,2) frame_trans show ?thesis by fastforce
  qed
qed simp

lemma queue_retries_ok:
  assumes "segs_ok s C A" "refs_ok s P pend (set hs)" "counts_ok s" "\<And>h. h \<in> set hs \<Longrightarrow> segment_of s h \<noteq> None"
  shows "\<exists>s'. SNP_QueueReliableSegmentsForRetry hs s = Some s' \<and> frame s s' \<and> segs_ok s' C A \<and> refs_ok s' P pend {} \<and> counts_ok s'"
  using assms
proof (induction hs arbitrary: s)
  case (Cons h hs)
  obtain x where x: "segment_of s h = Some x" using Cons.prems(4) [of h] by auto
  have r: "refs_ok s P pend (insert h (set hs))" using Cons.prems(2) by simp
  show ?case
  proof (rule queue_retry_ok [OF Cons.prems(1) r Cons.prems(3) x])
    fix s1 assume s1: "queue_retry h s = Some s1" "frame s s1" "segs_ok s1 C A" "refs_ok s1 P pend (set hs)" "counts_ok s1"
      "\<And>k. segment_of s1 k = None \<longleftrightarrow> segment_of s k = None"
    have "segment_of s1 k \<noteq> None" if "k \<in> set hs" for k using s1(6) [of k] Cons.prems(4) [of k] that by simp
    from Cons.IH [OF s1(3-5) this] s1(1,2) frame_trans show ?thesis by fastforce
  qed
qed simp

subsection \<open>The map of packets\<close>

definition pkt_less :: "int \<times> SNPInFlightPacket \<Rightarrow> int \<times> SNPInFlightPacket \<Rightarrow> bool" where
  "pkt_less p q \<longleftrightarrow> fst p < fst q \<and> m_usecWhenSent (snd p) \<le> m_usecWhenSent (snd q)"

text \<open>Behind \<open>it\<close> come the packets that have not timed out.\<close>

definition before :: "int option \<Rightarrow> int \<Rightarrow> bool" where
  "before it n \<longleftrightarrow> (case it of None \<Rightarrow> True | Some m \<Rightarrow> n < m)"

definition pkts_ok :: "int option \<Rightarrow> (int \<times> SNPInFlightPacket) list \<Rightarrow> bool" where
  "pkts_ok it P \<longleftrightarrow> P \<noteq> [] \<and> fst (hd P) = INT64_MIN \<and> m_vecReliableSegments (snd (hd P)) = [] \<and> sorted_wrt pkt_less P \<and>
     (\<forall>p \<in> set P. distinct (m_vecReliableSegments (snd p))) \<and>
     (\<forall>p \<in> set (tl P). before it (fst p) \<longrightarrow> m_bNack (snd p)) \<and>
     (\<forall>n. it = Some n \<longrightarrow> n \<in> fst ` set (tl P))"

definition table_ok :: "SSNPSenderState \<Rightarrow> (nat \<Rightarrow> (int \<times> int) list) \<Rightarrow> (nat \<times> int \<times> int) set \<Rightarrow> bool" where
  "table_ok s C A \<longleftrightarrow> segs_ok s C A \<and> refs_ok s (m_mapInFlightPacketsByPktNum s) [] {} \<and> counts_ok s \<and>
     pkts_ok (m_itNextInFlightPacketToTimeout s) (m_mapInFlightPacketsByPktNum s)"

text \<open>What all these operations leave alone.\<close>

definition pkt_frame :: "SSNPSenderState \<Rightarrow> SSNPSenderState \<Rightarrow> bool" where
  "pkt_frame s s' \<longleftrightarrow> map lane_core (send_lanes s') = map lane_core (send_lanes s) \<and>
     m_nMinPktWaitingOnAck s' = m_nMinPktWaitingOnAck s \<and> next_segment_handle s' = next_segment_handle s \<and>
     (\<forall>h x'. segment_of s' h = Some x' \<longrightarrow> (\<exists>x. segment_of s h = Some x \<and> seg_static x' = seg_static x)) \<and>
     (\<forall>q' \<in> set (m_mapInFlightPacketsByPktNum s'). \<exists>q \<in> set (m_mapInFlightPacketsByPktNum s).
        fst q' = fst q \<and> m_vecReliableSegments (snd q') = m_vecReliableSegments (snd q) \<and> m_usecWhenSent (snd q') = m_usecWhenSent (snd q))"

lemma pkt_frame_refl [simp]: "pkt_frame s s"
  by (auto simp: pkt_frame_def)

lemma pkt_frame_trans: "pkt_frame s s' \<Longrightarrow> pkt_frame s' s'' \<Longrightarrow> pkt_frame s s''"
  unfolding pkt_frame_def by (metis (no_types, lifting))

lemma frame_pkt_frame: "frame s s' \<Longrightarrow> pkt_frame s s'"
  by (auto simp: frame_def pkt_frame_def)

lemma segs_ok_cong:
  assumes "m_listSentReliableSegments s' = m_listSentReliableSegments s" "length (send_lanes s') = length (send_lanes s)"
    "next_segment_handle s' = next_segment_handle s" "m_listReadyRetryReliableRange s' = m_listReadyRetryReliableRange s"
  shows "segs_ok s' C A \<longleftrightarrow> segs_ok s C A"
proof -
  have "segment_of s' h = segment_of s h" for h by (rule segment_of_cong [OF assms(1)])
  then show ?thesis unfolding segs_ok_def in_order_def by (simp add: assms)
qed

lemma refs_ok_cong: "m_listSentReliableSegments s' = m_listSentReliableSegments s \<Longrightarrow> refs_ok s' P pend safe = refs_ok s P pend safe"
  using segment_of_cong [of s' s] by (simp add: refs_ok_def)

lemma counts_ok_cong:
  assumes "m_listSentReliableSegments s' = m_listSentReliableSegments s" "send_lanes s' = send_lanes s"
    "m_cbPendingReliable s' = m_cbPendingReliable s" "m_cbSentUnackedReliable s' = m_cbSentUnackedReliable s"
  shows "counts_ok s' = counts_ok s"
  using sum_segs_cong [OF assms(1)] by (simp add: counts_ok_def assms)

lemma sorted_fst: "sorted_wrt pkt_less P \<Longrightarrow> p \<in> set P \<Longrightarrow> q \<in> set P \<Longrightarrow> fst p = fst q \<Longrightarrow> p = q"
  by (induction P) (auto simp: pkt_less_def)

lemma filter_index:
  assumes "sorted_wrt pkt_less P" "k < length P"
  shows "filter (\<lambda>p. fst p \<noteq> fst (P ! k)) P = take k P @ drop (Suc k) P"
proof -
  have *: "fst (P ! i) \<noteq> fst (P ! k)" if "i < length P" "i \<noteq> k" for i
  proof -
    have "i < k \<or> k < i" using that(2) by linarith
    then have "pkt_less (P ! i) (P ! k) \<or> pkt_less (P ! k) (P ! i)" using that(1) assms by (auto simp: sorted_wrt_iff_nth_less)
    then show ?thesis by (auto simp: pkt_less_def)
  qed
  have "filter (\<lambda>p. fst p \<noteq> fst (P ! k)) P = filter (\<lambda>p. fst p \<noteq> fst (P ! k)) (take k P @ P ! k # drop (Suc k) P)"
    using assms(2) by (simp add: id_take_nth_drop [symmetric])
  moreover have "filter (\<lambda>p. fst p \<noteq> fst (P ! k)) (take k P) = take k P"
  proof (intro filter_True ballI)
    fix x assume "x \<in> set (take k P)"
    then obtain i where "i < k" "x = P ! i" using assms(2) by (auto simp: in_set_conv_nth)
    then show "fst x \<noteq> fst (P ! k)" using * [of i] assms(2) by simp
  qed
  moreover have "filter (\<lambda>p. fst p \<noteq> fst (P ! k)) (drop (Suc k) P) = drop (Suc k) P"
  proof (intro filter_True ballI)
    fix x assume "x \<in> set (drop (Suc k) P)"
    then obtain i where "i < length P - Suc k" "x = P ! (Suc k + i)" by (auto simp: in_set_conv_nth)
    then show "fst x \<noteq> fst (P ! k)" using * [of "Suc k + i"] by simp
  qed
  ultimately show ?thesis by simp
qed

subsection \<open>A packet is taken out of the map\<close>

lemma sorted_nth: "sorted_wrt pkt_less P \<Longrightarrow> i < j \<Longrightarrow> j < length P \<Longrightarrow> fst (P ! i) < fst (P ! j)"
  by (simp add: sorted_wrt_iff_nth_less pkt_less_def)

lemma pkts_ok_remove:
  assumes ok: "pkts_ok it P" and k: "0 < k" "k < length P"
  shows "pkts_ok (if it = Some (fst (P ! k)) then next_packet (fst (P ! k)) P else it) (filter (\<lambda>p. fst p \<noteq> fst (P ! k)) P)"
proof -
  have d: "P \<noteq> []" "fst (hd P) = INT64_MIN" "m_vecReliableSegments (snd (hd P)) = []" "sorted_wrt pkt_less P"
    "\<forall>p \<in> set P. distinct (m_vecReliableSegments (snd p))" "\<forall>p \<in> set (tl P). before it (fst p) \<longrightarrow> m_bNack (snd p)"
    "\<forall>n. it = Some n \<longrightarrow> n \<in> fst ` set (tl P)"
    using ok by (auto simp: pkts_ok_def)
  define n where "n = fst (P ! k)"
  obtain p0 ps where P: "P = p0 # ps" using d(1) by (cases P) auto
  have less: "fst p0 < n" using sorted_nth [OF d(4), of 0 k] k by (simp add: P n_def)
  define F where "F = filter (\<lambda>p. fst p \<noteq> n) ps"
  have fil: "filter (\<lambda>p. fst p \<noteq> n) P = p0 # F" using less by (simp add: P F_def)
  have F: "set F \<subseteq> set ps" "\<And>q. q \<in> set F \<Longrightarrow> fst q \<noteq> n" by (auto simp: F_def)
  have srt: "sorted_wrt pkt_less (p0 # F)" using sorted_wrt_filter [OF d(4), of "\<lambda>p. fst p \<noteq> n"] fil by simp
  define it' where "it' = (if it = Some n then next_packet n P else it)"
  have nx: "next_packet n P = (case drop (Suc k) P of [] \<Rightarrow> None | q # _ \<Rightarrow> Some (fst q))"
  proof -
    have "dropWhile (\<lambda>p. fst p \<le> n) P = drop (Suc k) P"
    proof -
      have "takeWhile (\<lambda>p. fst p \<le> n) P = take (Suc k) P"
      proof (rule takeWhile_eq_take_P_nth)
        show "fst (P ! i) \<le> n" if "i < Suc k" "i < length P" for i
          using that sorted_nth [OF d(4), of i k] k by (cases "i = k") (auto simp: n_def less_Suc_eq)
        show "\<not> fst (P ! Suc k) \<le> n" if "Suc k < length P"
          using that sorted_nth [OF d(4), of k "Suc k"] by (simp add: n_def)
      qed
      then show ?thesis by (simp add: dropWhile_eq_drop k(2) Suc_leI min_absorb2)
    qed
    then show ?thesis by (simp add: next_packet_def)
  qed
  have b: "before it (fst q)" if bq: "before it' (fst q)" and q: "q \<in> set F" for q
  proof (cases "it = Some n")
    case False
    then show ?thesis using that(1) by (simp add: it'_def)
  next
    case True
    have "fst q \<noteq> n" using F(2) that(2) by blast
    moreover have "\<not> n < fst q"
    proof
      assume nq: "n < fst q"
      obtain j where j: "j < length P" "q = P ! j" using q F(1) by (force simp: P in_set_conv_nth)
      have kj: "k < j"
      proof (rule ccontr)
        assume "\<not> k < j"
        then have "j = k \<or> j < k" by linarith
        with nq j sorted_nth [OF d(4), of j k] k(2) show False by (auto simp: n_def)
      qed
      then have ne: "drop (Suc k) P = P ! Suc k # drop (Suc (Suc k)) P" using j(1) by (simp add: Cons_nth_drop_Suc)
      have "fst q < fst (P ! Suc k)" using that(1) True nx by (simp add: it'_def before_def ne)
      moreover have "fst (P ! Suc k) \<le> fst q" using sorted_nth [OF d(4), of "Suc k" j] kj j by (cases "j = Suc k") auto
      ultimately show False by simp
    qed
    ultimately show ?thesis using True by (simp add: before_def)
  qed
  have m: "m \<in> fst ` set F" if "it' = Some m" for m
  proof (cases "it = Some n")
    case False
    then have "m \<in> fst ` set ps" "m \<noteq> n" using that d(7) by (auto simp: it'_def P)
    then show ?thesis by (auto simp: F_def)
  next
    case True
    with that have nm: "next_packet n P = Some m" by (simp add: it'_def)
    then obtain q qs where q: "drop (Suc k) P = q # qs" "m = fst q" by (auto simp: nx split: list.splits)
    then have "Suc k < length P" "q = P ! Suc k" by (metis drop_eq_Nil list.distinct(1) not_le, metis hd_drop_conv_nth drop_eq_Nil list.distinct(1) list.sel(1) not_le)
    then have "q \<in> set ps" "fst q \<noteq> n" using sorted_nth [OF d(4) lessI, of k] by (auto simp: P n_def)
    then show ?thesis using q(2) by (auto simp: F_def)
  qed
  have "pkts_ok it' (p0 # F)" unfolding pkts_ok_def
  proof (intro conjI ballI impI allI)
    show "m_bNack (snd q)" if "q \<in> set (tl (p0 # F))" "before it' (fst q)" for q
    proof -
      have q: "q \<in> set F" using that(1) by simp
      then have "q \<in> set (tl P)" using F(1) by (auto simp: P)
      with b [OF that(2) q] d(6) show ?thesis by blast
    qed
  qed (use d srt m F in \<open>auto simp: P\<close>)
  then show ?thesis unfolding it'_def n_def [symmetric] fil .
qed

lemma count_list_distinct: "distinct hs \<Longrightarrow> count_list hs h = (if h \<in> set hs then 1 else 0)"
  by (induction hs) auto

lemma holders_filter:
  assumes "sorted_wrt pkt_less P" "q \<in> set P"
  shows "holders P h = holders (filter (\<lambda>p. fst p \<noteq> fst q) P) h + (if h \<in> set (m_vecReliableSegments (snd q)) then 1 else 0)"
  using assms
proof (induction P)
  case (Cons a P)
  show ?case
  proof (cases "q = a")
    case True
    have "filter (\<lambda>p. fst p \<noteq> fst a) P = P" using Cons.prems(1) by (intro filter_True) (auto simp: pkt_less_def)
    with True show ?thesis by (simp add: holders_def)
  next
    case False
    with Cons have "fst a \<noteq> fst q" by (auto simp: pkt_less_def)
    moreover have "sorted_wrt pkt_less P" "q \<in> set P" using Cons.prems False by auto
    ultimately show ?thesis using Cons.IH by (simp add: holders_def)
  qed
qed simp

text \<open>The references of a packet that goes are now those of the list of its segments.\<close>

lemma refs_ok_split:
  assumes ok: "refs_ok s P [] {}" and P: "sorted_wrt pkt_less P" "q \<in> set P" "distinct (m_vecReliableSegments (snd q))"
  shows "refs_ok s (filter (\<lambda>p. fst p \<noteq> fst q) P) (m_vecReliableSegments (snd q)) (if m_bNack (snd q) then {} else set (m_vecReliableSegments (snd q)))"
  unfolding refs_ok_def
proof (intro conjI allI impI)
  show "\<forall>h \<in> set (m_vecReliableSegments (snd q)). segment_of s h \<noteq> None" using ok P(2) by (auto simp: refs_ok_def)
  fix h x assume x: "segment_of s h = Some x"
  have r: "int (holders P h) \<le> m_nRefCount x" "m_hStatusOrRetry x \<noteq> k_nStatus_Retry \<longrightarrow> 0 < m_nRefCount x"
    "m_hStatusOrRetry x = k_nStatus_InFlight \<longrightarrow> (\<exists>p \<in> set P. \<not> m_bNack (snd p) \<and> h \<in> set (m_vecReliableSegments (snd p)))"
    using ok x unfolding refs_ok_def by auto
  show "int (holders (filter (\<lambda>p. fst p \<noteq> fst q) P) h + count_list (m_vecReliableSegments (snd q)) h) \<le> m_nRefCount x"
    using r(1) P(3) holders_filter [OF P(1,2), of h] by (simp add: count_list_distinct)
  show "m_hStatusOrRetry x \<noteq> k_nStatus_Retry \<Longrightarrow> 0 < m_nRefCount x" using r(2) by blast
  assume "m_hStatusOrRetry x = k_nStatus_InFlight"
  then obtain p where p: "p \<in> set P" "\<not> m_bNack (snd p)" "h \<in> set (m_vecReliableSegments (snd p))" using r(3) by blast
  show "(\<exists>p \<in> set (filter (\<lambda>p. fst p \<noteq> fst q) P). \<not> m_bNack (snd p) \<and> h \<in> set (m_vecReliableSegments (snd p))) \<or>
      h \<in> (if m_bNack (snd q) then {} else set (m_vecReliableSegments (snd q)))"
  proof (cases "fst p = fst q")
    case True
    then have "p = q" using sorted_fst [OF P(1) p(1) P(2)] by simp
    with p show ?thesis by simp
  next
    case False
    then have "p \<in> set (filter (\<lambda>p. fst p \<noteq> fst q) P)" using p(1) by simp
    with p show ?thesis by blast
  qed
qed (use ok in \<open>auto simp: refs_ok_def\<close>)

lemma refs_ok_mono: "refs_ok s P pend safe \<Longrightarrow> safe \<subseteq> safe' \<Longrightarrow> refs_ok s P pend safe'"
  unfolding refs_ok_def by blast

text \<open>\<open>drop_packet\<close> is the end of a turn of the loop over acked packets.\<close>

definition drop_packet :: "int \<Rightarrow> SSNPSenderState \<Rightarrow> SSNPSenderState" where
  "drop_packet n s =
     (let s = (if m_itNextInFlightPacketToTimeout s = Some n
               then s\<lparr>m_itNextInFlightPacketToTimeout := next_packet n (m_mapInFlightPacketsByPktNum s)\<rparr> else s)
      in s\<lparr>m_mapInFlightPacketsByPktNum := filter (\<lambda>p. fst p \<noteq> n) (m_mapInFlightPacketsByPktNum s)\<rparr>)"

lemma drop_packet_fields [simp]:
  "m_listSentReliableSegments (drop_packet n s) = m_listSentReliableSegments s" "send_lanes (drop_packet n s) = send_lanes s"
  "m_cbPendingReliable (drop_packet n s) = m_cbPendingReliable s"
  "m_cbSentUnackedReliable (drop_packet n s) = m_cbSentUnackedReliable s"
  "next_segment_handle (drop_packet n s) = next_segment_handle s"
  "m_listReadyRetryReliableRange (drop_packet n s) = m_listReadyRetryReliableRange s"
  "m_nMinPktWaitingOnAck (drop_packet n s) = m_nMinPktWaitingOnAck s"
  "m_mapInFlightPacketsByPktNum (drop_packet n s) = filter (\<lambda>p. fst p \<noteq> n) (m_mapInFlightPacketsByPktNum s)"
  "m_itNextInFlightPacketToTimeout (drop_packet n s) =
    (if m_itNextInFlightPacketToTimeout s = Some n then next_packet n (m_mapInFlightPacketsByPktNum s) else m_itNextInFlightPacketToTimeout s)"
  "segment_of (drop_packet n s) h = segment_of s h"
  by (simp_all add: drop_packet_def Let_def segment_of_def)

lemma table_ok_drop:
  assumes "segs_ok s C A" "refs_ok s (filter (\<lambda>p. fst p \<noteq> fst (P ! k)) P) [] {}" "counts_ok s"
    "pkts_ok (m_itNextInFlightPacketToTimeout s) P" "m_mapInFlightPacketsByPktNum s = P" "0 < k" "k < length P"
  shows "table_ok (drop_packet (fst (P ! k)) s) C A"
  using assms(1-3) pkts_ok_remove [OF assms(4,6,7)]
  by (simp split: if_splits add: table_ok_def segs_ok_cong [of "drop_packet (fst (P ! k)) s" s] refs_ok_cong [of "drop_packet (fst (P ! k)) s" s]
      counts_ok_cong [of "drop_packet (fst (P ! k)) s" s] assms(5))

definition carried_acked :: "SSNPSenderState \<Rightarrow> int \<Rightarrow> int \<Rightarrow> (nat \<times> int \<times> int) set \<Rightarrow> bool" where
  "carried_acked s a b A \<longleftrightarrow> (\<forall>q \<in> set (m_mapInFlightPacketsByPktNum s). a \<le> fst q \<and> fst q < b \<longrightarrow>
     (\<forall>h \<in> set (m_vecReliableSegments (snd q)). \<forall>x. segment_of s h = Some x \<longrightarrow> (seg_lane x, seg_range x) \<in> A))"

lemma carried_acked_frame:
  assumes "carried_acked s a b A" "pkt_frame s s'" "a \<le> a'" "b' \<le> b"
  shows "carried_acked s' a' b' A"
  unfolding carried_acked_def
proof (intro ballI impI allI)
  fix q' h x' assume q': "q' \<in> set (m_mapInFlightPacketsByPktNum s')" "a' \<le> fst q' \<and> fst q' < b'"
    "h \<in> set (m_vecReliableSegments (snd q'))" "segment_of s' h = Some x'"
  obtain q where q: "q \<in> set (m_mapInFlightPacketsByPktNum s)" "fst q' = fst q" "m_vecReliableSegments (snd q') = m_vecReliableSegments (snd q)"
    using assms(2) q'(1) unfolding pkt_frame_def by blast
  obtain x where x: "segment_of s h = Some x" "seg_static x' = seg_static x" using assms(2) q'(4) unfolding pkt_frame_def by blast
  have "(seg_lane x, seg_range x) \<in> A" using assms(1,3,4) q q' x(1) unfolding carried_acked_def by fastforce
  then show "(seg_lane x', seg_range x') \<in> A" using static_range [OF x(2)] by simp
qed

lemma ack_packets_ok:
  assumes "table_ok s C A" "i < length (m_mapInFlightPacketsByPktNum s)" "fst (m_mapInFlightPacketsByPktNum s ! i) < b" "INT64_MIN < a"
    "carried_acked s a b A"
  shows "\<exists>i' s'. ack_packets a i s = Some (i', s') \<and> table_ok s' C A \<and> pkt_frame s s' \<and>
    i' < length (m_mapInFlightPacketsByPktNum s') \<and> fst (m_mapInFlightPacketsByPktNum s' ! i') < a"
  using assms
proof (induction i arbitrary: s)
  case 0
  then have h: "m_mapInFlightPacketsByPktNum s \<noteq> []" "fst (hd (m_mapInFlightPacketsByPktNum s)) = INT64_MIN"
    by (simp_all add: table_ok_def pkts_ok_def)
  then have "fst (m_mapInFlightPacketsByPktNum s ! 0) = INT64_MIN" by (simp add: hd_conv_nth)
  with 0 h(1) show ?case by (simp add: get_at_def)
next
  case (Suc i)
  define P where "P = m_mapInFlightPacketsByPktNum s"
  have i: "Suc i < length P" using Suc.prems(2) by (simp add: P_def)
  define n pkt where "n = fst (P ! Suc i)" and "pkt = snd (P ! Suc i)"
  have at: "get_at P (int (Suc i)) = Some (n, pkt)" using get_at_int [OF i] by (simp add: n_def pkt_def)
  show ?case
  proof (cases "n \<ge> a")
    case False
    then show ?thesis using at Suc.prems i by (auto simp: P_def n_def)
  next
    case True
    note t = Suc.prems(1)[unfolded table_ok_def, folded P_def]
    have d: "sorted_wrt pkt_less P" "distinct (m_vecReliableSegments pkt)" "(n, pkt) \<in> set P"
      using t i by (auto simp: pkts_ok_def pkt_def n_def)
    have r0: "refs_ok s (filter (\<lambda>p. fst p \<noteq> n) P) (m_vecReliableSegments pkt) (if m_bNack pkt then {} else set (m_vecReliableSegments pkt))"
      by (rule refs_ok_split [of s P "(n, pkt)", unfolded fst_conv snd_conv]) (use t d in auto)
    have r: "refs_ok s (filter (\<lambda>p. fst p \<noteq> n) P) (m_vecReliableSegments pkt) (set (m_vecReliableSegments pkt))"
      by (rule refs_ok_mono [OF r0]) simp
    have acked: "(seg_lane x, seg_range x) \<in> A" if "h \<in> set (m_vecReliableSegments pkt)" "segment_of s h = Some x" for h x
    proof -
      have "n < b" using Suc.prems(3) by (simp add: n_def P_def)
      then show ?thesis using Suc.prems(5) d(3) True that unfolding carried_acked_def P_def by fastforce
    qed
    have "\<exists>s1. ack_segments (m_vecReliableSegments pkt) s = Some s1 \<and> frame s s1 \<and> segs_ok s1 C A \<and>
        refs_ok s1 (filter (\<lambda>p. fst p \<noteq> n) P) [] {} \<and> counts_ok s1"
      by (rule ack_segments_ok [OF _ r]) (use t acked in auto)
    then obtain s1 where s1: "ack_segments (m_vecReliableSegments pkt) s = Some s1" "frame s s1" "segs_ok s1 C A"
      "refs_ok s1 (filter (\<lambda>p. fst p \<noteq> n) P) [] {}" "counts_ok s1" by blast
    have keep: "m_mapInFlightPacketsByPktNum s1 = P" "m_itNextInFlightPacketToTimeout s1 = m_itNextInFlightPacketToTimeout s"
      using s1(2) by (simp_all add: frame_def P_def)
    define s2 where "s2 = drop_packet n s1"
    have ev: "ack_packets a (Suc i) s = ack_packets a i s2"
      using True at s1(1) by (simp add: P_def s2_def drop_packet_def Let_def)
    have t2: "table_ok s2 C A"
      unfolding s2_def n_def by (rule table_ok_drop) (use s1 t keep i in \<open>simp_all add: n_def\<close>)
    have m2: "m_mapInFlightPacketsByPktNum s2 = take (Suc i) P @ drop (Suc (Suc i)) P"
      using filter_index [OF d(1) i] keep by (simp add: s2_def n_def)
    have f2: "pkt_frame s s2"
    proof -
      have "pkt_frame s1 s2" by (force simp: pkt_frame_def s2_def)
      then show ?thesis by (rule pkt_frame_trans [OF frame_pkt_frame [OF s1(2)]])
    qed
    have "\<exists>i' s'. ack_packets a i s2 = Some (i', s') \<and> table_ok s' C A \<and> pkt_frame s2 s' \<and>
      i' < length (m_mapInFlightPacketsByPktNum s') \<and> fst (m_mapInFlightPacketsByPktNum s' ! i') < a"
    proof (rule Suc.IH [OF t2 _ _ Suc.prems(4)])
      show "i < length (m_mapInFlightPacketsByPktNum s2)" using i by (simp add: m2)
      show "fst (m_mapInFlightPacketsByPktNum s2 ! i) < b"
        using i Suc.prems(3) sorted_nth [OF d(1), of i "Suc i"] by (simp add: m2 nth_append P_def)
      show "carried_acked s2 a b A" by (rule carried_acked_frame [OF Suc.prems(5) f2]) simp_all
    qed
    then show ?thesis using ev pkt_frame_trans [OF f2] by auto
  qed
qed

subsection \<open>Nacks\<close>

definition mark_nack :: "int \<Rightarrow> (int \<times> SNPInFlightPacket) list \<Rightarrow> (int \<times> SNPInFlightPacket) list" where
  "mark_nack n P = map (\<lambda>(k, p). (k, if k = n then p\<lparr>m_bNack := True\<rparr> else p)) P"

lemma mark_nack_props [simp]:
  "length (mark_nack n P) = length P" "map fst (mark_nack n P) = map fst P"
  "map (m_usecWhenSent \<circ> snd) (mark_nack n P) = map (m_usecWhenSent \<circ> snd) P"
  "holders (mark_nack n P) h = holders P h" "mark_nack n P = [] \<longleftrightarrow> P = []" "tl (mark_nack n P) = mark_nack n (tl P)"
proof -
  show "holders (mark_nack n P) h = holders P h" by (induction P) (auto simp: mark_nack_def holders_def split: if_splits)
qed (auto simp: mark_nack_def map_tl)

lemma nth_mark_nack: "k < length P \<Longrightarrow> mark_nack n P ! k = (fst (P ! k), if fst (P ! k) = n then (snd (P ! k))\<lparr>m_bNack := True\<rparr> else snd (P ! k))"
  by (simp add: mark_nack_def case_prod_unfold)

lemma set_mark_nack: "set (mark_nack n P) = (\<lambda>p. (fst p, if fst p = n then (snd p)\<lparr>m_bNack := True\<rparr> else snd p)) ` set P"
  by (auto simp: mark_nack_def case_prod_unfold)

lemma mark_nack_id:
  assumes "sorted_wrt pkt_less P" "(n, pkt) \<in> set P" "m_bNack pkt"
  shows "mark_nack n P = P"
  unfolding mark_nack_def
proof (intro map_idI)
  fix p assume p: "p \<in> set P"
  show "(case p of (k, p) \<Rightarrow> (k, if k = n then p\<lparr>m_bNack := True\<rparr> else p)) = p"
  proof (cases "fst p = n")
    case True
    then have "p = (n, pkt)" using sorted_fst [OF assms(1) p assms(2)] by simp
    then show ?thesis using assms(3) by (cases pkt) simp
  qed (cases p, simp)
qed

text \<open>What holds of the map without the iterator.\<close>

definition pkts_base :: "(int \<times> SNPInFlightPacket) list \<Rightarrow> bool" where
  "pkts_base P \<longleftrightarrow> P \<noteq> [] \<and> fst (hd P) = INT64_MIN \<and> m_vecReliableSegments (snd (hd P)) = [] \<and> sorted_wrt pkt_less P \<and>
     (\<forall>p \<in> set P. distinct (m_vecReliableSegments (snd p)))"

definition it_ok :: "int option \<Rightarrow> (int \<times> SNPInFlightPacket) list \<Rightarrow> bool" where
  "it_ok it P \<longleftrightarrow> (\<forall>p \<in> set (tl P). before it (fst p) \<longrightarrow> m_bNack (snd p)) \<and> (\<forall>n. it = Some n \<longrightarrow> n \<in> fst ` set (tl P))"

definition table_base :: "SSNPSenderState \<Rightarrow> (nat \<Rightarrow> (int \<times> int) list) \<Rightarrow> (nat \<times> int \<times> int) set \<Rightarrow> bool" where
  "table_base s C A \<longleftrightarrow> segs_ok s C A \<and> refs_ok s (m_mapInFlightPacketsByPktNum s) [] {} \<and> counts_ok s \<and>
     pkts_base (m_mapInFlightPacketsByPktNum s)"

lemma table_ok_iff: "table_ok s C A \<longleftrightarrow> table_base s C A \<and> it_ok (m_itNextInFlightPacketToTimeout s) (m_mapInFlightPacketsByPktNum s)"
  by (auto simp: table_ok_def table_base_def pkts_ok_def pkts_base_def it_ok_def)

lemma pkts_base_mark: "pkts_base P \<Longrightarrow> pkts_base (mark_nack n P)"
proof -
  assume p: "pkts_base P"
  have "sorted_wrt (\<lambda>p q. pkt_less (fst p, if fst p = n then (snd p)\<lparr>m_bNack := True\<rparr> else snd p)
      (fst q, if fst q = n then (snd q)\<lparr>m_bNack := True\<rparr> else snd q)) P"
    using p by (auto simp: pkts_base_def pkt_less_def elim!: sorted_wrt_mono_rel [rotated])
  then have "sorted_wrt pkt_less (mark_nack n P)" by (simp add: mark_nack_def sorted_wrt_map case_prod_unfold)
  then show ?thesis using p nth_mark_nack [of 0 P n] by (cases P) (auto simp: pkts_base_def set_mark_nack mark_nack_def)
qed

lemma it_ok_mark: "it_ok it P \<Longrightarrow> it_ok it (mark_nack n P)"
  by (auto simp: it_ok_def set_mark_nack image_iff Bex_def)

lemma refs_ok_mark:
  assumes "refs_ok s P [] {}" "sorted_wrt pkt_less P" "(n, pkt) \<in> set P"
  shows "refs_ok s (mark_nack n P) [] (set (m_vecReliableSegments pkt))"
  unfolding refs_ok_def
proof (intro conjI ballI allI impI)
  fix h x assume x: "segment_of s h = Some x"
  show "(\<exists>p \<in> set (mark_nack n P). \<not> m_bNack (snd p) \<and> h \<in> set (m_vecReliableSegments (snd p))) \<or> h \<in> set (m_vecReliableSegments pkt)"
    if fl: "m_hStatusOrRetry x = k_nStatus_InFlight"
  proof -
    obtain p where p: "p \<in> set P" "\<not> m_bNack (snd p)" "h \<in> set (m_vecReliableSegments (snd p))"
      using assms(1) x fl unfolding refs_ok_def by blast
    show ?thesis
    proof (cases "fst p = n")
      case True
      then have "p = (n, pkt)" using sorted_fst [OF assms(2) p(1) assms(3)] by simp
      with p(3) show ?thesis by simp
    next
      case False
      then have "p \<in> set (mark_nack n P)" using p(1) by (force simp: set_mark_nack image_iff)
      with p show ?thesis by blast
    qed
  qed
qed (use assms(1) in \<open>auto simp: refs_ok_def set_mark_nack split: if_splits\<close>)

lemma table_base_set_map: "pkt_frame s (s\<lparr>m_mapInFlightPacketsByPktNum := mark_nack n (m_mapInFlightPacketsByPktNum s)\<rparr>)"
  by (auto simp: pkt_frame_def set_mark_nack)

lemma nack_ok:
  assumes ok: "table_base s C A" and n: "(n, pkt) \<in> set (m_mapInFlightPacketsByPktNum s)"
  shows "\<exists>s'. SNP_SenderProcessPacketNack n pkt s = Some s' \<and> table_base s' C A \<and> pkt_frame s s' \<and>
    m_mapInFlightPacketsByPktNum s' = mark_nack n (m_mapInFlightPacketsByPktNum s) \<and>
    m_itNextInFlightPacketToTimeout s' = m_itNextInFlightPacketToTimeout s"
proof -
  define P where "P = m_mapInFlightPacketsByPktNum s"
  note t = ok[unfolded table_base_def, folded P_def]
  have srt: "sorted_wrt pkt_less P" using t by (simp add: pkts_base_def)
  have nP: "(n, pkt) \<in> set P" using n by (simp add: P_def)
  show ?thesis
  proof (cases "m_bNack pkt")
    case True
    then show ?thesis using ok mark_nack_id [OF srt nP] by (simp add: SNP_SenderProcessPacketNack_def P_def)
  next
    case False
    define s1 where "s1 = s\<lparr>m_mapInFlightPacketsByPktNum := mark_nack n P\<rparr>"
    have up: "upd_packet n (\<lambda>p. p\<lparr>m_bNack := True\<rparr>) s = s1" by (simp add: upd_packet_def s1_def mark_nack_def P_def)
    have "segs_ok s1 C A = segs_ok s C A" by (rule segs_ok_cong) (simp_all add: s1_def)
    moreover have "counts_ok s1 = counts_ok s" by (rule counts_ok_cong) (simp_all add: s1_def)
    ultimately have s1: "segs_ok s1 C A" "counts_ok s1" using t by simp_all
    have same: "m_listSentReliableSegments s1 = m_listSentReliableSegments s" by (simp add: s1_def)
    have "refs_ok s (mark_nack n P) [] (set (m_vecReliableSegments pkt))" by (rule refs_ok_mark [OF _ srt nP]) (use t in simp)
    then have r1: "refs_ok s1 (mark_nack n P) [] (set (m_vecReliableSegments pkt))" by (simp only: refs_ok_cong [OF same])
    have f1: "pkt_frame s s1" using table_base_set_map [of s n] by (simp add: s1_def P_def)
    have "segment_of s1 h \<noteq> None" if "h \<in> set (m_vecReliableSegments pkt)" for h
      using t nP that by (auto simp: refs_ok_def s1_def)
    then obtain s2 where s2: "SNP_QueueReliableSegmentsForRetry (m_vecReliableSegments pkt) s1 = Some s2" "frame s1 s2"
      "segs_ok s2 C A" "refs_ok s2 (mark_nack n P) [] {}" "counts_ok s2" using queue_retries_ok [OF s1(1) r1 s1(2)] by blast
    have ev: "SNP_SenderProcessPacketNack n pkt s = Some s2"
      using False s2(1) by (cases "m_vecReliableSegments pkt") (simp_all add: SNP_SenderProcessPacketNack_def up)
    have keep: "m_mapInFlightPacketsByPktNum s2 = mark_nack n P" "m_itNextInFlightPacketToTimeout s2 = m_itNextInFlightPacketToTimeout s"
      using s2(2) by (simp_all add: frame_def s1_def)
    have "table_base s2 C A" using s2 keep pkts_base_mark t by (simp add: table_base_def)
    with ev keep pkt_frame_trans [OF f1 frame_pkt_frame [OF s2(2)]] show ?thesis by (simp add: P_def)
  qed
qed

lemma nack_packets_ok:
  assumes "table_ok s C A" "i < length (m_mapInFlightPacketsByPktNum s)" "INT64_MIN < a"
  shows "\<exists>i' s'. nack_packets a i s = Some (i', s') \<and> table_ok s' C A \<and> pkt_frame s s' \<and>
    i' < length (m_mapInFlightPacketsByPktNum s') \<and> fst (m_mapInFlightPacketsByPktNum s' ! i') < a"
  using assms
proof (induction i arbitrary: s)
  case 0
  then have h: "m_mapInFlightPacketsByPktNum s \<noteq> []" "fst (hd (m_mapInFlightPacketsByPktNum s)) = INT64_MIN"
    by (simp_all add: table_ok_def pkts_ok_def)
  then have "fst (m_mapInFlightPacketsByPktNum s ! 0) = INT64_MIN" by (simp add: hd_conv_nth)
  with 0 h(1) show ?case by (simp add: get_at_def)
next
  case (Suc i)
  define P where "P = m_mapInFlightPacketsByPktNum s"
  have i: "Suc i < length P" using Suc.prems(2) by (simp add: P_def)
  define n pkt where "n = fst (P ! Suc i)" and "pkt = snd (P ! Suc i)"
  have at: "get_at P (int (Suc i)) = Some (n, pkt)" using get_at_int [OF i] by (simp add: n_def pkt_def)
  have nP: "(n, pkt) \<in> set (m_mapInFlightPacketsByPktNum s)" using i by (simp add: n_def pkt_def P_def)
  show ?case
  proof (cases "n \<ge> a")
    case False
    then show ?thesis using at Suc.prems i by (auto simp: P_def n_def)
  next
    case True
    have t: "table_base s C A" "it_ok (m_itNextInFlightPacketToTimeout s) P" using Suc.prems(1) by (simp_all add: table_ok_iff P_def)
    obtain s1 where s1: "SNP_SenderProcessPacketNack n pkt s = Some s1" "table_base s1 C A" "pkt_frame s s1"
      "m_mapInFlightPacketsByPktNum s1 = mark_nack n P" "m_itNextInFlightPacketToTimeout s1 = m_itNextInFlightPacketToTimeout s"
      using nack_ok [OF t(1) nP] P_def by blast
    have ev: "nack_packets a (Suc i) s = nack_packets a i s1" using True at s1(1) by (simp add: P_def)
    have t1: "table_ok s1 C A" using s1 it_ok_mark [OF t(2)] by (simp add: table_ok_iff)
    have "i < length (m_mapInFlightPacketsByPktNum s1)" using i by (simp add: s1(4))
    from Suc.IH [OF t1 this Suc.prems(3)] show ?thesis using ev pkt_frame_trans [OF s1(3)] by auto
  qed
qed

subsection \<open>An ack frame\<close>

text \<open>The packets that a frame acks: those of the blocks, and all below them that have not been accounted for.\<close>

fun acked_by :: "int \<Rightarrow> int \<Rightarrow> (int \<times> int) list \<Rightarrow> int set" where
  "acked_by lo e [] = {lo..<e}"
| "acked_by lo e ((numAcks, numNacks) # bs) = {e - numAcks..<e} \<union> acked_by lo (e - numAcks - numNacks) bs"

lemma carried_acked_mono: "carried_acked s a b A \<Longrightarrow> A \<subseteq> A' \<Longrightarrow> carried_acked s a b A'"
  unfolding carried_acked_def by blast

definition covered :: "SSNPSenderState \<Rightarrow> int set \<Rightarrow> (nat \<times> int \<times> int) set \<Rightarrow> bool" where
  "covered s N A \<longleftrightarrow> (\<forall>q \<in> set (m_mapInFlightPacketsByPktNum s). fst q \<in> N \<longrightarrow>
     (\<forall>h \<in> set (m_vecReliableSegments (snd q)). \<forall>x. segment_of s h = Some x \<longrightarrow> (seg_lane x, seg_range x) \<in> A))"

lemma covered_frame:
  assumes "covered s N A" "pkt_frame s s'" "N' \<subseteq> N"
  shows "covered s' N' A"
  unfolding covered_def
proof (intro ballI impI allI)
  fix q' h x' assume q': "q' \<in> set (m_mapInFlightPacketsByPktNum s')" "fst q' \<in> N'"
    "h \<in> set (m_vecReliableSegments (snd q'))" "segment_of s' h = Some x'"
  obtain q where q: "q \<in> set (m_mapInFlightPacketsByPktNum s)" "fst q' = fst q" "m_vecReliableSegments (snd q') = m_vecReliableSegments (snd q)"
    using assms(2) q'(1) unfolding pkt_frame_def by blast
  obtain x where x: "segment_of s h = Some x" "seg_static x' = seg_static x" using assms(2) q'(4) unfolding pkt_frame_def by blast
  have "fst q \<in> N" "h \<in> set (m_vecReliableSegments (snd q))" using q q' assms(3) by auto
  then have "(seg_lane x, seg_range x) \<in> A" using assms(1) q(1) x(1) unfolding covered_def by blast
  then show "(seg_lane x', seg_range x') \<in> A" using static_range [OF x(2)] by simp
qed

lemma covered_carried: "covered s {a..<b} A \<longleftrightarrow> carried_acked s a b A"
  by (auto simp: covered_def carried_acked_def)

lemma ack_blocks_ok:
  assumes "table_ok s C A" "i < length (m_mapInFlightPacketsByPktNum s)" "fst (m_mapInFlightPacketsByPktNum s ! i) < e"
    "0 \<le> m_nMinPktWaitingOnAck s" "covered s (acked_by (m_nMinPktWaitingOnAck s) e bs) A" "\<forall>(a, n) \<in> set bs. 0 \<le> a \<and> 0 \<le> n"
  shows "\<exists>ok s'. ack_blocks bs e i s = Some (ok, s') \<and> table_ok s' C A \<and> pkt_frame s s'"
  using assms
proof (induction bs arbitrary: e i s)
  case Nil
  show ?case
  proof (cases "e \<le> m_nMinPktWaitingOnAck s")
    case False
    have lo: "INT64_MIN < m_nMinPktWaitingOnAck s" using Nil.prems(4) by (simp add: INT64_MIN_def)
    have "carried_acked s (m_nMinPktWaitingOnAck s) e A" using Nil.prems(5) by (simp add: covered_carried)
    then obtain i1 s1 where s1: "ack_packets (m_nMinPktWaitingOnAck s) i s = Some (i1, s1)" "table_ok s1 C A" "pkt_frame s s1"
      "i1 < length (m_mapInFlightPacketsByPktNum s1)"
      using ack_packets_ok [OF Nil.prems(1-3) lo] by blast
    have min: "m_nMinPktWaitingOnAck s1 = m_nMinPktWaitingOnAck s" using s1(3) by (simp add: pkt_frame_def)
    obtain i2 s2 where s2: "nack_packets (m_nMinPktWaitingOnAck s) i1 s1 = Some (i2, s2)" "table_ok s2 C A" "pkt_frame s1 s2"
      using nack_packets_ok [OF s1(2,4) lo] by blast
    show ?thesis using False s1 s2 min pkt_frame_trans [OF s1(3) s2(3)] by (intro exI [of _ True] exI [of _ s2]) simp
  qed (use Nil in auto)
next
  case (Cons b bs)
  obtain na nn where b: "b = (na, nn)" by force
  define a where "a = e - na"
  have nn: "0 \<le> na" "0 \<le> nn" using Cons.prems(6) by (auto simp: b)
  show ?case
  proof (cases "a < 0 \<or> a - nn < 0")
    case True
    then have "ack_blocks (b # bs) e i s = Some (False, s)" by (simp add: b a_def Let_def)
    then show ?thesis using Cons.prems(1) pkt_frame_refl by blast
  next
    case False
    then have lo: "INT64_MIN < a" "INT64_MIN < a - nn" by (simp_all add: INT64_MIN_def)
    have "carried_acked s a e A" using Cons.prems(5) by (simp add: b a_def covered_carried [symmetric] covered_def)
    then obtain i1 s1 where s1: "ack_packets a i s = Some (i1, s1)" "table_ok s1 C A" "pkt_frame s s1"
      "i1 < length (m_mapInFlightPacketsByPktNum s1)"
      using ack_packets_ok [OF Cons.prems(1-3) lo(1)] by blast
    obtain i2 s2 where s2: "nack_packets (a - nn) i1 s1 = Some (i2, s2)" "table_ok s2 C A" "pkt_frame s1 s2"
      "i2 < length (m_mapInFlightPacketsByPktNum s2)" "fst (m_mapInFlightPacketsByPktNum s2 ! i2) < a - nn"
      using nack_packets_ok [OF s1(2,4) lo(2)] by blast
    have f: "pkt_frame s s2" by (rule pkt_frame_trans [OF s1(3) s2(3)])
    have min: "m_nMinPktWaitingOnAck s2 = m_nMinPktWaitingOnAck s" using f by (simp add: pkt_frame_def)
    have cov: "covered s2 (acked_by (m_nMinPktWaitingOnAck s2) (a - nn) bs) A"
      by (rule covered_frame [OF Cons.prems(5) f]) (auto simp: b a_def min)
    obtain ok s3 where "ack_blocks bs (a - nn) i2 s2 = Some (ok, s3)" "table_ok s3 C A" "pkt_frame s2 s3"
      using Cons.IH [OF s2(2,4,5) _ cov] Cons.prems(4,6) min by auto
    with False s1 s2 pkt_frame_trans [OF f] show ?thesis by (simp add: b a_def [symmetric] Let_def)
  qed
qed

lemma index_upto:
  assumes "P \<noteq> []" "fst (hd P) \<le> (m :: int)"
  shows "length (takeWhile (\<lambda>p. fst p \<le> m) P) - 1 < length P" "fst (P ! (length (takeWhile (\<lambda>p. fst p \<le> m) P) - 1)) < m + 1"
proof -
  define k where "k = length (takeWhile (\<lambda>p. fst p \<le> m) P)"
  have k: "0 < k" "k \<le> length P" using assms by (cases P; auto simp: k_def length_takeWhile_le)+
  then show "k - 1 < length P" by linarith
  have "P ! (k - 1) = takeWhile (\<lambda>p. fst p \<le> m) P ! (k - 1)" using k by (simp add: k_def takeWhile_nth)
  also have "\<dots> \<in> set (takeWhile (\<lambda>p. fst p \<le> m) P)" using k by (intro nth_mem) (simp add: k_def)
  finally show "fst (P ! (k - 1)) < m + 1" by (auto dest: set_takeWhileD)
qed

lemma table_ok_min: "table_ok (s\<lparr>m_nMinPktWaitingOnAck := m\<rparr>) C A = table_ok s C A"
proof -
  define s' where "s' = s\<lparr>m_nMinPktWaitingOnAck := m\<rparr>"
  have "segs_ok s' C A = segs_ok s C A" by (rule segs_ok_cong) (simp_all add: s'_def)
  moreover have "counts_ok s' = counts_ok s" by (rule counts_ok_cong) (simp_all add: s'_def)
  moreover have "refs_ok s' P pend safe = refs_ok s P pend safe" for P pend safe by (rule refs_ok_cong) (simp add: s'_def)
  ultimately have "table_ok s' C A = table_ok s C A" by (simp add: table_ok_def s'_def)
  then show ?thesis by (simp add: s'_def)
qed

lemma receive_ack_ok:
  assumes "table_ok s C A" "0 \<le> latest" "0 \<le> m_nMinPktWaitingOnAck s"
    "covered s (acked_by (m_nMinPktWaitingOnAck s) (latest + 1) bs) A" "\<forall>(a, n) \<in> set bs. 0 \<le> a \<and> 0 \<le> n"
  shows "\<exists>ok s' s''. receive_ack latest bs s = Some (ok, s') \<and> table_ok s' C A \<and> pkt_frame s s'' \<and>
    s' = s''\<lparr>m_nMinPktWaitingOnAck := (if ok then max (m_nMinPktWaitingOnAck s) latest else m_nMinPktWaitingOnAck s)\<rparr>"
proof -
  define P where "P = m_mapInFlightPacketsByPktNum s"
  have P: "P \<noteq> []" "fst (hd P) \<le> latest" using assms(1,2) by (simp_all add: table_ok_def pkts_ok_def P_def INT64_MIN_def)
  note ix = index_upto [OF P]
  obtain ok s1 where s1: "ack_blocks bs (latest + 1) (length (takeWhile (\<lambda>p. fst p \<le> latest) P) - 1) s = Some (ok, s1)"
    "table_ok s1 C A" "pkt_frame s s1"
    using ack_blocks_ok [OF assms(1) _ _ assms(3,4,5)] ix P_def by blast
  have min: "m_nMinPktWaitingOnAck s1 = m_nMinPktWaitingOnAck s" using s1(3) by (simp add: pkt_frame_def)
  have same: "s1\<lparr>m_nMinPktWaitingOnAck := m_nMinPktWaitingOnAck s\<rparr> = s1" using min by (cases s1) simp
  define s2 where "s2 = s1\<lparr>m_nMinPktWaitingOnAck := (if ok then max (m_nMinPktWaitingOnAck s) latest else m_nMinPktWaitingOnAck s)\<rparr>"
  have "receive_ack latest bs s = Some (ok, s2)"
    using s1(1) same by (simp add: receive_ack_def P_def [symmetric] Let_def s2_def min)
  moreover have "table_ok s2 C A" using s1(2) by (simp add: s2_def table_ok_min)
  ultimately show ?thesis using s1(3) s2_def by blast
qed

subsection \<open>Timeouts\<close>

lemma sorted_times:
  assumes "sorted_wrt pkt_less P" "i < j" "j < length P"
  shows "m_usecWhenSent (snd (P ! i)) \<le> m_usecWhenSent (snd (P ! j))"
  using assms by (simp add: sorted_wrt_iff_nth_less pkt_less_def)

lemma map_of_nth:
  assumes "sorted_wrt pkt_less P" "k < length P"
  shows "map_of P (fst (P ! k)) = Some (snd (P ! k))"
proof -
  have "sorted_wrt (<) (map fst P)"
    unfolding sorted_wrt_map by (rule sorted_wrt_mono_rel [OF _ assms(1)]) (simp add: pkt_less_def)
  then have "distinct (map fst P)" by (simp add: strict_sorted_iff)
  then show ?thesis using assms(2) by (intro map_of_is_SomeI) simp_all
qed

text \<open>What the loop over the packets from index \<open>j\<close> on leaves behind: \<open>timed\<close> says which packets still have time.\<close>

definition timed :: "int \<Rightarrow> (int \<times> SNPInFlightPacket) list \<Rightarrow> bool" where
  "timed t P \<longleftrightarrow> (\<forall>p \<in> set (tl P). m_usecWhenSent (snd p) \<le> t \<longrightarrow> m_bNack (snd p))"

lemma in_tl: "p \<in> set (tl P) \<longleftrightarrow> (\<exists>k. 0 < k \<and> k < length P \<and> p = P ! k)"
proof
  assume "p \<in> set (tl P)"
  then obtain k where k: "k < length (tl P)" "p = tl P ! k" by (auto simp: in_set_conv_nth)
  then have "p = P ! Suc k" "Suc k < length P" by (auto simp: nth_tl)
  then show "\<exists>k. 0 < k \<and> k < length P \<and> p = P ! k" by blast
next
  assume "\<exists>k. 0 < k \<and> k < length P \<and> p = P ! k"
  then obtain k where k: "0 < k" "k < length P" "p = P ! k" by blast
  then have "p = tl P ! (k - 1)" "k - 1 < length (tl P)" by (simp_all add: nth_tl)
  then show "p \<in> set (tl P)" by simp
qed

lemma table_ok_it:
  assumes "table_base s C A" "it_ok it (m_mapInFlightPacketsByPktNum s)"
  shows "table_ok (s\<lparr>m_itNextInFlightPacketToTimeout := it\<rparr>) C A" "pkt_frame s (s\<lparr>m_itNextInFlightPacketToTimeout := it\<rparr>)"
proof -
  define s' where "s' = s\<lparr>m_itNextInFlightPacketToTimeout := it\<rparr>"
  have "segs_ok s' C A = segs_ok s C A" by (rule segs_ok_cong) (simp_all add: s'_def)
  moreover have "counts_ok s' = counts_ok s" by (rule counts_ok_cong) (simp_all add: s'_def)
  moreover have "refs_ok s' P pend safe = refs_ok s P pend safe" for P pend safe by (rule refs_ok_cong) (simp add: s'_def)
  ultimately have "table_base s' C A" using assms(1) by (simp add: table_base_def s'_def)
  then show "table_ok (s\<lparr>m_itNextInFlightPacketToTimeout := it\<rparr>) C A" using assms(2) by (simp add: table_ok_iff s'_def)
  show "pkt_frame s (s\<lparr>m_itNextInFlightPacketToTimeout := it\<rparr>)" by (force simp: pkt_frame_def)
qed

lemma timeout_packets_ok:
  assumes "table_base s C A" "0 < j" "j \<le> length (m_mapInFlightPacketsByPktNum s)"
    "\<And>k. 0 < k \<Longrightarrow> k < j \<Longrightarrow> m_bNack (snd (m_mapInFlightPacketsByPktNum s ! k))"
  shows "\<exists>r s'. timeout_packets now rto (map fst (drop j (m_mapInFlightPacketsByPktNum s))) s = Some (r, s') \<and> table_ok s' C A \<and>
    pkt_frame s s' \<and> timed (now - rto) (m_mapInFlightPacketsByPktNum s') \<and>
    (\<forall>p \<in> set (m_mapInFlightPacketsByPktNum s'). m_itNextInFlightPacketToTimeout s' = Some (fst p) \<longrightarrow> now - rto < m_usecWhenSent (snd p))"
  using assms
proof (induction "length (m_mapInFlightPacketsByPktNum s) - j" arbitrary: s j)
  case 0
  define P where "P = m_mapInFlightPacketsByPktNum s"
  have nack: "m_bNack (snd p)" if p: "p \<in> set (tl P)" for p
  proof -
    obtain k where "0 < k" "k < length P" "p = P ! k" using p unfolding in_tl by blast
    then show ?thesis using 0(1) 0(5) [of k] by (simp add: P_def)
  qed
  then have "it_ok None P" by (simp add: it_ok_def)
  then have "table_ok (s\<lparr>m_itNextInFlightPacketToTimeout := None\<rparr>) C A" "pkt_frame s (s\<lparr>m_itNextInFlightPacketToTimeout := None\<rparr>)"
    using table_ok_it [OF 0(2)] by (simp_all add: P_def)
  moreover have "timed (now - rto) P" using nack by (simp add: timed_def)
  ultimately show ?case using 0(1) by (simp add: P_def)
next
  case (Suc m)
  define P where "P = m_mapInFlightPacketsByPktNum s"
  have j: "j < length P" using Suc(2) by (simp add: P_def)
  define n pkt where "n = fst (P ! j)" and "pkt = snd (P ! j)"
  have srt: "sorted_wrt pkt_less P" using Suc.prems(1) by (simp add: table_base_def pkts_base_def P_def)
  have nP: "(n, pkt) \<in> set P" using j by (simp add: n_def pkt_def)
  have mo: "map_of P n = Some pkt" using map_of_nth [OF srt j] by (simp add: n_def pkt_def)
  have ns: "map fst (drop j P) = n # map fst (drop (Suc j) P)" using j by (simp add: Cons_nth_drop_Suc [symmetric] n_def)
  have step: "m_bNack (snd (mark_nack n P ! k))" if "0 < k" "k < Suc j" for k
    using that j Suc.prems(4) [of k] by (cases "k = j") (simp_all add: nth_mark_nack n_def P_def)
  show ?case
  proof (cases "\<not> m_bNack pkt \<and> m_usecWhenSent pkt + rto > now")
    case True
    have it: "it_ok (Some n) P" unfolding it_ok_def
    proof (intro conjI ballI impI allI)
      fix p assume p: "p \<in> set (tl P)" "before (Some n) (fst p)"
      then obtain k where k: "0 < k" "k < length P" "p = P ! k" unfolding in_tl by blast
      have "k < j"
      proof (rule ccontr)
        assume "\<not> k < j"
        then have "n \<le> fst p" using sorted_nth [OF srt, of j k] k j by (cases "k = j") (auto simp: n_def)
        with p(2) show False by (simp add: before_def)
      qed
      with k Suc.prems(4) [of k] show "m_bNack (snd p)" by (simp add: P_def)
    next
      fix m assume "Some n = Some m"
      moreover have "P ! j \<in> set (tl P)" using j Suc.prems(2) unfolding in_tl by blast
      ultimately show "m \<in> fst ` set (tl P)" by (force simp: n_def)
    qed
    define s' where "s' = s\<lparr>m_itNextInFlightPacketToTimeout := Some n\<rparr>"
    have s': "table_ok s' C A" "pkt_frame s s'" using table_ok_it [OF Suc.prems(1)] it by (simp_all add: P_def s'_def)
    have "timeout_packets now rto (map fst (drop j P)) s = Some (Some (m_usecWhenSent pkt + rto), s')"
      unfolding ns using True mo[unfolded P_def] by (simp add: s'_def Let_def)
    moreover have "timed (now - rto) P" unfolding timed_def
    proof (intro ballI impI)
      fix p assume p: "p \<in> set (tl P)" "m_usecWhenSent (snd p) \<le> now - rto"
      then obtain k where k: "0 < k" "k < length P" "p = P ! k" unfolding in_tl by blast
      have "k < j"
      proof (rule ccontr)
        assume "\<not> k < j"
        then have "m_usecWhenSent pkt \<le> m_usecWhenSent (snd p)" using sorted_times [OF srt, of j k] k j by (cases "k = j") (auto simp: pkt_def)
        with p(2) True show False by simp
      qed
      with k Suc.prems(4) [of k] show "m_bNack (snd p)" by (simp add: P_def)
    qed
    moreover have "now - rto < m_usecWhenSent (snd p)" if "p \<in> set P" "Some n = Some (fst p)" for p
    proof -
      have "p = (n, pkt)" using sorted_fst [OF srt that(1) nP] that(2) by simp
      then have "snd p = pkt" by simp
      then show ?thesis using True by simp
    qed
    moreover have "m_mapInFlightPacketsByPktNum s' = P" "m_itNextInFlightPacketToTimeout s' = Some n" by (simp_all add: s'_def P_def)
    ultimately show ?thesis using s' by (intro exI [of _ "Some (m_usecWhenSent pkt + rto)"] exI [of _ s']) (simp add: P_def)
  next
    case False
    obtain s1 where s1: "SNP_SenderProcessPacketNack n pkt s = Some s1" "table_base s1 C A" "pkt_frame s s1"
      "m_mapInFlightPacketsByPktNum s1 = mark_nack n P"
      using nack_ok [OF Suc.prems(1) nP[unfolded P_def]] P_def by blast
    have same: "SNP_SenderProcessPacketNack n pkt s = Some s" "mark_nack n P = P" if "m_bNack pkt"
      using that mark_nack_id [OF srt nP] by (simp_all add: SNP_SenderProcessPacketNack_def)
    have ev: "timeout_packets now rto (map fst (drop j P)) s = timeout_packets now rto (map fst (drop (Suc j) P)) s1"
      unfolding ns using False mo[unfolded P_def] s1(1) same by (cases "m_bNack pkt") (simp_all add: Let_def)
    have dr: "map fst (drop (Suc j) (mark_nack n P)) = map fst (drop (Suc j) P)" by (simp add: drop_map [symmetric])
    have "m = length (m_mapInFlightPacketsByPktNum s1) - Suc j" using Suc(2) by (simp add: s1(4) P_def)
    moreover have "0 < Suc j" "Suc j \<le> length (m_mapInFlightPacketsByPktNum s1)" using j by (simp_all add: s1(4))
    moreover have "m_bNack (snd (m_mapInFlightPacketsByPktNum s1 ! k))" if "0 < k" "k < Suc j" for k using step that by (simp add: s1(4))
    ultimately have "\<exists>r s'. timeout_packets now rto (map fst (drop (Suc j) (m_mapInFlightPacketsByPktNum s1))) s1 = Some (r, s') \<and> table_ok s' C A \<and>
      pkt_frame s1 s' \<and> timed (now - rto) (m_mapInFlightPacketsByPktNum s') \<and>
      (\<forall>p \<in> set (m_mapInFlightPacketsByPktNum s'). m_itNextInFlightPacketToTimeout s' = Some (fst p) \<longrightarrow> now - rto < m_usecWhenSent (snd p))"
      using s1(2) by (intro Suc.hyps(1)) auto
    then show ?thesis using ev dr pkt_frame_trans [OF s1(3)] by (auto simp: s1(4) P_def [symmetric])
  qed
qed

text \<open>Expired packets have timed out, so no segment is in flight because of them.\<close>

lemma expire_packets_ok:
  assumes "table_ok s C A" "m_mapInFlightPacketsByPktNum s = p0 # pkts" "timed t (m_mapInFlightPacketsByPktNum s)" "expiry \<le> t"
    "\<forall>p \<in> set (m_mapInFlightPacketsByPktNum s). m_itNextInFlightPacketToTimeout s = Some (fst p) \<longrightarrow> t < m_usecWhenSent (snd p)"
  shows "\<exists>s'. expire_packets expiry pkts s = Some s' \<and> table_ok s' C A \<and> pkt_frame s s'"
  using assms
proof (induction pkts arbitrary: s)
  case (Cons q pkts)
  obtain n pkt where q: "q = (n, pkt)" by force
  show ?case
  proof (cases "m_usecWhenSent pkt < expiry")
    case True
    define P where "P = m_mapInFlightPacketsByPktNum s"
    have P: "P = p0 # q # pkts" using Cons.prems(2) by (simp add: P_def)
    note t = Cons.prems(1)[unfolded table_ok_def, folded P_def]
    have d: "sorted_wrt pkt_less P" "distinct (m_vecReliableSegments pkt)" "(n, pkt) \<in> set P"
      using t by (auto simp: pkts_ok_def P q)
    have nk: "m_bNack pkt" using Cons.prems(3,4) True by (auto simp: timed_def Cons.prems(2) q)
    have r: "refs_ok s (filter (\<lambda>p. fst p \<noteq> n) P) (m_vecReliableSegments pkt) {}"
      using refs_ok_split [of s P "(n, pkt)"] t d nk by simp
    obtain s1 where s1: "remove_refs (m_vecReliableSegments pkt) s = Some s1" "frame s s1" "segs_ok s1 C A"
      "refs_ok s1 (filter (\<lambda>p. fst p \<noteq> n) P) [] {}" "counts_ok s1" using remove_refs_ok [OF _ r] t by blast
    have keep: "m_mapInFlightPacketsByPktNum s1 = P" "m_itNextInFlightPacketToTimeout s1 = m_itNextInFlightPacketToTimeout s"
      using s1(2) by (simp_all add: frame_def P_def)
    have it: "m_itNextInFlightPacketToTimeout s \<noteq> Some n"
    proof
      assume "m_itNextInFlightPacketToTimeout s = Some n"
      then have "t < m_usecWhenSent pkt" using Cons.prems(5) d(3) by (force simp: P_def)
      with True Cons.prems(4) show False by simp
    qed
    define s2 where "s2 = drop_packet n s1"
    have s2: "s2 = s1\<lparr>m_mapInFlightPacketsByPktNum := filter (\<lambda>p. fst p \<noteq> n) (m_mapInFlightPacketsByPktNum s1)\<rparr>"
      using it keep(2) by (simp add: s2_def drop_packet_def)
    have ev: "expire_packets expiry (q # pkts) s = expire_packets expiry pkts s2"
      using True s1(1) s2 by (simp add: q)
    have n: "n = fst (P ! 1)" by (simp add: P q)
    have t2: "table_ok s2 C A"
    proof -
      have "refs_ok s1 (filter (\<lambda>p. fst p \<noteq> fst (P ! 1)) P) [] {}" using s1(4) unfolding n .
      moreover have "pkts_ok (m_itNextInFlightPacketToTimeout s1) P" using t keep(2) by simp
      ultimately show ?thesis unfolding s2_def n by (rule table_ok_drop [OF s1(3) _ s1(5) _ keep(1)]) (simp_all add: P)
    qed
    have m2: "m_mapInFlightPacketsByPktNum s2 = p0 # pkts"
      using filter_index [OF d(1), of 1] keep(1) by (simp add: s2_def n P)
    have f2: "pkt_frame s s2"
    proof -
      have "pkt_frame s1 s2" by (force simp: pkt_frame_def s2_def)
      then show ?thesis by (rule pkt_frame_trans [OF frame_pkt_frame [OF s1(2)]])
    qed
    have "timed t (m_mapInFlightPacketsByPktNum s2)" using Cons.prems(3) by (simp add: timed_def m2 Cons.prems(2))
    moreover have "m_itNextInFlightPacketToTimeout s2 = m_itNextInFlightPacketToTimeout s" using keep(2) by (simp add: s2)
    moreover have "set (m_mapInFlightPacketsByPktNum s2) \<subseteq> set (m_mapInFlightPacketsByPktNum s)" by (auto simp: m2 Cons.prems(2))
    ultimately have "\<exists>s'. expire_packets expiry pkts s2 = Some s' \<and> table_ok s' C A \<and> pkt_frame s2 s'"
      using Cons.prems(4,5) by (intro Cons.IH [OF t2 m2]) auto
    then show ?thesis using ev pkt_frame_trans [OF f2] by auto
  qed (use Cons.prems(1) q in auto)
qed auto

lemma drop_it: 
  assumes "pkts_ok it P" "2 \<le> length P"
  obtains j where "0 < j" "j \<le> length P" "\<And>k. 0 < k \<Longrightarrow> k < j \<Longrightarrow> m_bNack (snd (P ! k))"
    "(case it of None \<Rightarrow> [] | Some n \<Rightarrow> map fst (dropWhile (\<lambda>p. fst p < n) P)) = map fst (drop j P)"
proof (cases it)
  case None
  have "m_bNack (snd (P ! k))" if "0 < k" "k < length P" for k
    using assms(1) None that in_tl [of "P ! k" P] by (auto simp: pkts_ok_def before_def)
  with None assms(2) show ?thesis by (intro that [of "length P"]) auto
next
  case (Some n)
  have srt: "sorted_wrt pkt_less P" using assms(1) by (simp add: pkts_ok_def)
  obtain q where q: "q \<in> set (tl P)" "fst q = n" using assms(1) Some by (auto simp: pkts_ok_def)
  obtain j where j: "0 < j" "j < length P" "q = P ! j" using q(1) unfolding in_tl by blast
  have "takeWhile (\<lambda>p. fst p < n) P = take j P"
  proof (rule takeWhile_eq_take_P_nth)
    show "fst (P ! i) < n" if "i < j" "i < length P" for i using sorted_nth [OF srt that(1) j(2)] q(2) j(3) by simp
    show "\<not> fst (P ! j) < n" if "j < length P" using q(2) j(3) by simp
  qed
  then have dw: "dropWhile (\<lambda>p. fst p < n) P = drop j P" using j(2) by (simp add: dropWhile_eq_drop)
  have "m_bNack (snd (P ! k))" if k: "0 < k" "k < j" for k
  proof -
    have "P ! k \<in> set (tl P)" using k j(2) unfolding in_tl by (intro exI [of _ k]) simp
    moreover have "fst (P ! k) < n" using sorted_nth [OF srt k(2) j(2)] q(2) j(3) by simp
    ultimately show ?thesis using assms(1) Some by (auto simp: pkts_ok_def before_def)
  qed
  with j dw Some show ?thesis by (intro that [of j]) auto
qed

lemma CheckInFlightPackets_ok:
  assumes "table_ok s C A" "0 \<le> rto"
  shows "\<exists>r s'. SNP_SenderCheckInFlightPackets now rto pings recent s = Some (r, s') \<and> table_ok s' C A \<and> pkt_frame s s'"
proof (cases "length (m_mapInFlightPacketsByPktNum s) \<le> 1")
  case True
  then show ?thesis using assms(1) by (simp add: SNP_SenderCheckInFlightPackets_def)
next
  case False
  have P: "pkts_ok (m_itNextInFlightPacketToTimeout s) (m_mapInFlightPacketsByPktNum s)" using assms(1) by (simp add: table_ok_def)
  have b: "table_base s C A" using assms(1) by (simp add: table_ok_iff)
  obtain j where j: "0 < j" "j \<le> length (m_mapInFlightPacketsByPktNum s)"
    "\<And>k. 0 < k \<Longrightarrow> k < j \<Longrightarrow> m_bNack (snd (m_mapInFlightPacketsByPktNum s ! k))"
    "(case m_itNextInFlightPacketToTimeout s of None \<Rightarrow> []
        | Some n \<Rightarrow> map fst (dropWhile (\<lambda>p. fst p < n) (m_mapInFlightPacketsByPktNum s))) = map fst (drop j (m_mapInFlightPacketsByPktNum s))"
    using False by (auto intro: drop_it [OF P])
  obtain r s1 where s1: "timeout_packets now rto (map fst (drop j (m_mapInFlightPacketsByPktNum s))) s = Some (r, s1)"
    "table_ok s1 C A" "pkt_frame s s1" "timed (now - rto) (m_mapInFlightPacketsByPktNum s1)"
    "\<forall>p \<in> set (m_mapInFlightPacketsByPktNum s1). m_itNextInFlightPacketToTimeout s1 = Some (fst p) \<longrightarrow> now - rto < m_usecWhenSent (snd p)"
    using timeout_packets_ok [OF b j(1-3)] by blast
  obtain p0 pkts where m1: "m_mapInFlightPacketsByPktNum s1 = p0 # pkts"
    using s1(2) by (cases "m_mapInFlightPacketsByPktNum s1") (auto simp: table_ok_def pkts_ok_def)
  have e: "now - expiry_time now rto pings recent \<le> now - rto" using assms(2) by (auto simp: expiry_time_def Let_def)
  obtain s2 where s2: "expire_packets (now - expiry_time now rto pings recent) pkts s1 = Some s2" "table_ok s2 C A" "pkt_frame s1 s2"
    using expire_packets_ok [OF s1(2) m1 s1(4) e s1(5)] by blast
  have "SNP_SenderCheckInFlightPackets now rto pings recent s = Some (r, s2)"
    using False s1(1) s2(1) by (simp add: SNP_SenderCheckInFlightPackets_def j(4) m1)
  with s2 pkt_frame_trans [OF s1(3) s2(3)] show ?thesis by blast
qed

end
