(* ===== verification/SnpCollect.thy ===== *)
theory SnpCollect
  imports SnpPacketInv ReliableTransfer
begin

text \<open>
  What the collection of segments does: retries are resent as they were, and the new segments of a lane continue its
  reliable stream where the last packet left off. Segments are compared without their headers.
\<close>

subsection \<open>The lanes of a collector\<close>

definition seg_core :: "SNPEncodedSegment \<Rightarrow> SNPEncodedSegment" where
  "seg_core seg = seg\<lparr>m_hdr := []\<rparr>"

lemma seg_core_fields [simp]:
  "e_lane (seg_core seg) = e_lane seg" "e_msg (seg_core seg) = e_msg seg" "m_cbSegSize (seg_core seg) = m_cbSegSize seg"
  "e_nOffset (seg_core seg) = e_nOffset seg" "m_hRetryReliableSeg (seg_core seg) = m_hRetryReliableSeg seg"
  "seg_core (seg\<lparr>m_hdr := h\<rparr>) = seg_core seg" "seg_core (seg_core seg) = seg_core seg"
  "seg_core (seg\<lparr>m_cbSegSize := n\<rparr>) = (seg_core seg)\<lparr>m_cbSegSize := n\<rparr>"
  by (simp_all add: seg_core_def)

definition lane_segs :: "SegmentCollector \<Rightarrow> nat \<Rightarrow> SNPEncodedSegment list" where
  "lane_segs c i = (case find_lane i (collector_lanes c) of None \<Rightarrow> []
     | Some k \<Rightarrow> map seg_core (m_vecSegments (collector_lanes c ! k)))"

definition lane_fine :: "SegmentCollectorLane \<Rightarrow> bool" where
  "lane_fine l \<longleftrightarrow> m_vecSegments l \<noteq> [] \<and> (\<forall>seg \<in> set (m_vecSegments l). e_lane seg = m_nLaneID l \<and> m_hdr seg \<noteq> [])"

definition coll_ok :: "SegmentCollector \<Rightarrow> bool" where
  "coll_ok c \<longleftrightarrow> distinct (map m_nLaneID (collector_lanes c)) \<and> (\<forall>l \<in> set (collector_lanes c). lane_fine l)"

lemma find_lane_Some: "find_lane i ls = Some k \<Longrightarrow> k < length ls \<and> m_nLaneID (ls ! k) = i"
  by (induction ls arbitrary: k) (auto split: if_splits)

lemma find_lane_None: "find_lane i ls = None \<longleftrightarrow> i \<notin> m_nLaneID ` set ls"
  by (induction ls) auto

lemma find_lane_nth: "distinct (map m_nLaneID ls) \<Longrightarrow> k < length ls \<Longrightarrow> find_lane (m_nLaneID (ls ! k)) ls = Some k"
proof (induction ls arbitrary: k)
  case (Cons l ls)
  then show ?case by (cases k) (auto simp: rev_image_eqI)
qed simp

lemma find_lane_ids: "map m_nLaneID ls = map m_nLaneID ls' \<Longrightarrow> find_lane i ls = find_lane i ls'"
proof (induction ls arbitrary: ls')
  case (Cons l ls)
  then show ?case by (cases ls') auto
qed simp

lemma find_lane_append: "find_lane i (ls @ [l]) = (case find_lane i ls of Some k \<Rightarrow> Some k
    | None \<Rightarrow> if m_nLaneID l = i then Some (length ls) else None)"
  by (induction ls) (auto split: option.splits)

text \<open>A segment is added to its lane, which may be new.\<close>

lemma put_ok:
  assumes ok: "coll_ok c" and get: "GetLane i c = (k, c1)"
    and l': "m_nLaneID l' = m_nLaneID (collector_lanes c1 ! k)" "m_vecSegments l' = m_vecSegments (collector_lanes c1 ! k) @ [seg]"
    and seg: "e_lane seg = i" "m_hdr seg \<noteq> []"
    and c2: "c2 = c1\<lparr>collector_lanes := (collector_lanes c1)[k := l']\<rparr>"
  shows "coll_ok c2" "k < length (collector_lanes c2)" "collector_lanes c2 ! k = l'" "m_nLaneID l' = i"
    "lane_segs c2 j = (if j = i then lane_segs c i @ [seg_core seg] else lane_segs c j)"
    "coll_ok (UndoLast k c2)" "lane_segs (UndoLast k c2) j = lane_segs c j"
proof -
  have d: "distinct (map m_nLaneID (collector_lanes c))" and fine: "\<forall>l \<in> set (collector_lanes c). lane_fine l"
    using ok by (simp_all add: coll_ok_def)
  have "coll_ok c2 \<and> k < length (collector_lanes c2) \<and> collector_lanes c2 ! k = l' \<and> m_nLaneID l' = i \<and>
    (\<forall>j. lane_segs c2 j = (if j = i then lane_segs c i @ [seg_core seg] else lane_segs c j)) \<and>
    coll_ok (UndoLast k c2) \<and> (\<forall>j. lane_segs (UndoLast k c2) j = lane_segs c j)"
  proof (cases "find_lane i (collector_lanes c)")
    case (Some k')
    then have k: "k' = k" "c1 = c" "k < length (collector_lanes c)" "m_nLaneID (collector_lanes c ! k) = i"
      using get find_lane_Some [OF Some] by (auto simp: GetLane_def)
    have e: "collector_lanes c2 = (collector_lanes c)[k := l']" by (simp add: c2 k(2))
    have ids: "map m_nLaneID ((collector_lanes c)[k := x]) = map m_nLaneID (collector_lanes c)" if "m_nLaneID x = i" for x
      using that k(3,4) by (simp add: map_update) (metis length_map list_update_id nth_map)
    have id: "m_nLaneID l' = i" using l'(1) k by simp
    have "lane_fine (collector_lanes c ! k)" using fine k(3) by simp
    then have lf: "lane_fine l'" using l' seg k by (auto simp: lane_fine_def)
    have up: "set ((collector_lanes c)[k := x]) \<subseteq> insert x (set (collector_lanes c))" for x by (rule set_update_subset_insert)
    have "coll_ok c2" using d fine lf ids [OF id] up [of l'] by (auto simp: coll_ok_def e)
    moreover have s: "lane_segs (c3) j = (if j = i then map seg_core (m_vecSegments x) else lane_segs c j)"
      if "collector_lanes c3 = (collector_lanes c)[k := x]" "m_nLaneID x = i" for x c3 j
    proof -
      have f: "find_lane j (collector_lanes c3) = find_lane j (collector_lanes c)"
        by (rule find_lane_ids) (simp add: that ids)
      show ?thesis
      proof (cases "j = i")
        case True
        then show ?thesis using f [unfolded that(1)] k(1,3) Some by (simp add: lane_segs_def that(1))
      next
        case False
        then have "find_lane j (collector_lanes c) \<noteq> Some k" using find_lane_Some [of j _ k] k(4) by blast
        with False show ?thesis by (cases "find_lane j (collector_lanes c)") (auto simp: lane_segs_def f [unfolded that(1)] that(1))
      qed
    qed
    moreover have "lane_segs c i = map seg_core (m_vecSegments (collector_lanes c ! k))" by (simp add: lane_segs_def Some k(1))
    moreover have u: "collector_lanes (UndoLast k c2) = (collector_lanes c)[k := l'\<lparr>m_vecSegments := m_vecSegments (collector_lanes c ! k)\<rparr>]"
      using \<open>lane_fine (collector_lanes c ! k)\<close> l'(2) k by (simp add: UndoLast_def Let_def e lane_fine_def)
    moreover have "coll_ok (UndoLast k c2)"
    proof -
      have "lane_fine (l'\<lparr>m_vecSegments := m_vecSegments (collector_lanes c ! k)\<rparr>)"
        using \<open>lane_fine (collector_lanes c ! k)\<close> l'(1) k(2) by (simp add: lane_fine_def)
      then show ?thesis using d fine id ids up by (auto simp: coll_ok_def u)
    qed
    ultimately show ?thesis using e k id l'(2) by simp
  next
    case None
    obtain l where l: "collector_lanes c1 = collector_lanes c @ [l]" "k = length (collector_lanes c)" "m_nLaneID l = i" "m_vecSegments l = []"
      using get None by (auto simp: GetLane_def Let_def)
    have e: "collector_lanes c2 = collector_lanes c @ [l']" by (simp add: c2 l)
    have id: "m_nLaneID l' = i" using l'(1) l by simp
    have new: "i \<notin> m_nLaneID ` set (collector_lanes c)" using None by (simp add: find_lane_None)
    have vs: "m_vecSegments l' = [seg]" using l'(2) l by simp
    then have "lane_fine l'" using seg id by (simp add: lane_fine_def)
    then have "coll_ok c2" using d fine new id by (auto simp: coll_ok_def e)
    moreover have "lane_segs c2 j = (if j = i then lane_segs c i @ [seg_core seg] else lane_segs c j)" for j
    proof (cases "find_lane j (collector_lanes c)")
      case (Some m)
      then have "j \<noteq> i" "m < length (collector_lanes c)" using None find_lane_Some [OF Some] by auto
      with Some show ?thesis by (simp add: lane_segs_def e find_lane_append nth_append)
    qed (use None id vs in \<open>auto simp: lane_segs_def e find_lane_append\<close>)
    moreover have u: "collector_lanes (UndoLast k c2) = collector_lanes c" by (simp add: UndoLast_def Let_def e l(2) vs)
    then have "coll_ok (UndoLast k c2)" "\<forall>j. lane_segs (UndoLast k c2) j = lane_segs c j" using ok unfolding coll_ok_def lane_segs_def u by simp_all
    ultimately show ?thesis using e id l(2) by simp
  qed
  then show "coll_ok c2" "k < length (collector_lanes c2)" "collector_lanes c2 ! k = l'" "m_nLaneID l' = i"
    "lane_segs c2 j = (if j = i then lane_segs c i @ [seg_core seg] else lane_segs c j)"
    "coll_ok (UndoLast k c2)" "lane_segs (UndoLast k c2) j = lane_segs c j" by blast+
qed

lemma upd_last_ok:
  assumes ok: "coll_ok c" and k: "k < length (collector_lanes c)" "m_nLaneID (collector_lanes c ! k) = i"
    and f: "\<And>seg. e_lane (f seg) = e_lane seg" "\<And>seg. m_hdr seg \<noteq> [] \<Longrightarrow> m_hdr (f seg) \<noteq> []" "\<And>seg. seg_core (f seg) = g (seg_core seg)"
  shows "coll_ok (upd_last f k c)"
    "lane_segs (upd_last f k c) j = (if j = i then butlast (lane_segs c i) @ [g (last (lane_segs c i))] else lane_segs c j)"
proof -
  define l where "l = collector_lanes c ! k"
  define l' where "l' = l\<lparr>m_vecSegments := butlast (m_vecSegments l) @ [f (last (m_vecSegments l))]\<rparr>"
  have e: "collector_lanes (upd_last f k c) = (collector_lanes c)[k := l']" by (simp add: upd_last_def Let_def l_def l'_def)
  have fine: "lane_fine l" using ok k(1) by (simp add: coll_ok_def l_def)
  then have ne: "m_vecSegments l \<noteq> []" by (simp add: lane_fine_def)
  have fine': "lane_fine l'" using fine ne f(1,2) by (auto simp: lane_fine_def l'_def dest: in_set_butlastD)
  have ids: "map m_nLaneID ((collector_lanes c)[k := l']) = map m_nLaneID (collector_lanes c)"
    using k by (simp add: map_update l'_def l_def) (metis length_map list_update_id nth_map)
  have "set ((collector_lanes c)[k := l']) \<subseteq> insert l' (set (collector_lanes c))" by (rule set_update_subset_insert)
  then show "coll_ok (upd_last f k c)" using ok fine' ids by (auto simp: coll_ok_def e)
  have fk: "find_lane i (collector_lanes c) = Some k" using find_lane_nth [OF _ k(1)] ok k(2) by (simp add: coll_ok_def)
  have fj: "find_lane j (collector_lanes (upd_last f k c)) = find_lane j (collector_lanes c)"
    unfolding e by (rule find_lane_ids [OF ids])
  show "lane_segs (upd_last f k c) j = (if j = i then butlast (lane_segs c i) @ [g (last (lane_segs c i))] else lane_segs c j)"
  proof (cases "j = i")
    case True
    then show ?thesis using fk fj k(1) ne f(3) by (simp add: lane_segs_def e l'_def l_def map_butlast last_map)
  next
    case False
    then have "find_lane j (collector_lanes c) \<noteq> Some k" using find_lane_Some [of j _ k] k(2) by blast
    with False show ?thesis by (cases "find_lane j (collector_lanes c)") (auto simp: lane_segs_def fj [unfolded e] e)
  qed
qed

text \<open>Lane 0 first: all segments of a lane stay in their order.\<close>

definition ordered_lanes :: "SegmentCollector \<Rightarrow> SegmentCollectorLane list" where
  "ordered_lanes c = filter (\<lambda>l. m_nLaneID l = 0) (collector_lanes c) @ filter (\<lambda>l. m_nLaneID l \<noteq> 0) (collector_lanes c)"

definition all_segs :: "SegmentCollectorLane list \<Rightarrow> SNPEncodedSegment list" where
  "all_segs ls = concat (map m_vecSegments ls)"

lemma filter_lane:
  assumes "distinct (map m_nLaneID ls)"
  shows "filter (\<lambda>l. m_nLaneID l = i) ls = (case find_lane i ls of None \<Rightarrow> [] | Some k \<Rightarrow> [ls ! k])"
  using assms
proof (induction ls)
  case (Cons l ls)
  show ?case
  proof (cases "m_nLaneID l = i")
    case True
    then have "find_lane i ls = None" using Cons.prems by (auto simp: find_lane_None)
    with Cons True show ?thesis by simp
  next
    case False
    with Cons show ?thesis by (auto split: option.splits)
  qed
qed simp

lemma segs_of_lane:
  assumes "coll_ok c"
  shows "filter (\<lambda>seg. e_lane seg = i) (map seg_core (all_segs (ordered_lanes c))) = lane_segs c i"
proof -
  have "filter (\<lambda>seg. e_lane seg = i) (map seg_core (all_segs ls)) =
      map seg_core (all_segs (filter (\<lambda>l. m_nLaneID l = i) ls))" if "\<forall>l \<in> set ls. lane_fine l" for ls
    using that
  proof (induction ls)
    case (Cons l ls)
    have "filter (\<lambda>seg. e_lane seg = i) (map seg_core (m_vecSegments l)) = (if m_nLaneID l = i then map seg_core (m_vecSegments l) else [])"
      using Cons.prems by (auto simp: lane_fine_def filter_empty_conv intro!: filter_True)
    with Cons show ?case by (simp add: all_segs_def)
  qed (simp add: all_segs_def)
  moreover have "\<forall>l \<in> set (ordered_lanes c). lane_fine l" using assms by (auto simp: ordered_lanes_def coll_ok_def)
  moreover have "filter (\<lambda>l. m_nLaneID l = i) (ordered_lanes c) = filter (\<lambda>l. m_nLaneID l = i) (collector_lanes c)"
  proof -
    have "filter (\<lambda>l. m_nLaneID l = i) (filter (\<lambda>l. m_nLaneID l = 0) ls @ filter (\<lambda>l. m_nLaneID l \<noteq> 0) ls) =
        filter (\<lambda>l. m_nLaneID l = i) ls" for ls
    proof (cases "i = 0")
      case True
      then show ?thesis by (induction ls) auto
    next
      case False
      have "filter (\<lambda>l. m_nLaneID l = i) (filter (\<lambda>l. m_nLaneID l = 0) ls) = []" using False by (auto simp: filter_empty_conv)
      moreover have "filter (\<lambda>l. m_nLaneID l = i) (filter (\<lambda>l. m_nLaneID l \<noteq> 0) ls) = filter (\<lambda>l. m_nLaneID l = i) ls"
        using False by (induction ls) auto
      ultimately show ?thesis by simp
    qed
    then show ?thesis by (simp add: ordered_lanes_def)
  qed
  ultimately show ?thesis
    using assms by (simp add: filter_lane coll_ok_def lane_segs_def all_segs_def split: option.split)
qed

subsection \<open>Lanes of the sender\<close>

text \<open>
  \<open>g\<close> is the lane as it would be if nothing had left its queue. Its reliable messages are the stream; those in the queue
  are the end of it, from \<open>lane_sent\<close> on.
\<close>

lemma reliable_queue_eq: "reliable_queue l = filter SNPSend_IsReliable (lane_messagesQueued l)"
  by (simp add: reliable_queue_def SNPSend_IsReliable_def [abs_def])

lemma out_size_eq: "out_size m = int (length (sent_bytes m))"
  by (simp add: out_size_def sent_bytes_def)

definition lane_sent :: "SendLane \<Rightarrow> int" where
  "lane_sent l = m_nReliableStreamNextSendPos l - lane_pending l"

fun numbered :: "int \<Rightarrow> OutMessage list \<Rightarrow> bool" where
  "numbered n [] \<longleftrightarrow> True"
| "numbered n (m # ms) \<longleftrightarrow> out_msg_num m = n \<and> numbered (n + 1) ms"

lemma numbered_append: "numbered n (ms @ ms') \<longleftrightarrow> numbered n ms \<and> numbered (n + int (length ms)) ms'"
  by (induction ms arbitrary: n) (auto simp: add.assoc add.commute)

definition lane_ok :: "SendLane \<Rightarrow> SendLane \<Rightarrow> bool" where
  "lane_ok l g \<longleftrightarrow> send_lane_ok g \<and> m_nReliableStreamNextSendPos l = m_nReliableStreamNextSendPos g \<and>
     m_nLastSendMsgNumReliable l = m_nLastSendMsgNumReliable g \<and> m_nLastSentMsgNum l = m_nLastSentMsgNum g \<and>
     (\<exists>pre. reliable_queue g = pre @ reliable_queue l) \<and>
     0 \<le> m_cbCurrentSendMessageSent l \<and>
     (case lane_messagesQueued l of [] \<Rightarrow> m_cbCurrentSendMessageSent l = 0
      | m # _ \<Rightarrow> m_cbCurrentSendMessageSent l \<le> out_size m \<and> (SNPSend_IsReliable m \<longrightarrow> m_cbCurrentSendMessageSent l < out_size m)) \<and>
     (\<forall>m \<in> set (reliable_queue g). out_hdr m \<noteq> []) \<and>
     (\<forall>m \<in> set (lane_messagesQueued l). (\<not> SNPSend_IsReliable m \<longrightarrow> out_hdr m = []) \<and> int (length (out_data m)) < 2 ^ 31) \<and>
     int (length (lane_messagesQueued l)) \<le> m_nLastSentMsgNum l \<and>
     numbered (m_nLastSentMsgNum l - int (length (lane_messagesQueued l)) + 1) (lane_messagesQueued l)"

lemma placed_size: "placed p ms \<Longrightarrow> m \<in> set ms \<Longrightarrow> p \<le> out_stream_pos m \<and> out_stream_pos m + out_size m \<le> p + int (length (concat (map sent_bytes ms)))"
proof (induction ms arbitrary: p)
  case (Cons a ms)
  show ?case
  proof (cases "m = a")
    case False
    then have "p + int (length (sent_bytes a)) \<le> out_stream_pos m \<and>
        out_stream_pos m + out_size m \<le> p + int (length (sent_bytes a)) + int (length (concat (map sent_bytes ms)))"
      using Cons by simp
    then show ?thesis by simp
  qed (use Cons.prems in \<open>simp add: out_size_eq\<close>)
qed simp

lemma queue_pending_eq:
  "queue_pending 0 ms = int (length (concat (map sent_bytes (filter SNPSend_IsReliable ms))))"
  by (induction ms) (simp_all add: out_size_eq)

lemma lane_core_fields:
  assumes "lane_core l = lane_core l'"
  shows "m_nReliableStreamNextSendPos l = m_nReliableStreamNextSendPos l'" "m_nLastSendMsgNumReliable l = m_nLastSendMsgNumReliable l'"
    "m_nLastSentMsgNum l = m_nLastSentMsgNum l'" "m_cbCurrentSendMessageSent l = m_cbCurrentSendMessageSent l'"
    "lane_messagesQueued l = lane_messagesQueued l'" "lane_sent l = lane_sent l'" "lane_pending l = lane_pending l'"
    "lane_ok l g = lane_ok l' g"
proof -
  show f: "m_nReliableStreamNextSendPos l = m_nReliableStreamNextSendPos l'" "m_nLastSendMsgNumReliable l = m_nLastSendMsgNumReliable l'"
    "m_nLastSentMsgNum l = m_nLastSentMsgNum l'" "m_cbCurrentSendMessageSent l = m_cbCurrentSendMessageSent l'"
    "lane_messagesQueued l = lane_messagesQueued l'"
    using assms by (cases l; cases l'; simp add: lane_core_def)+
  show "lane_sent l = lane_sent l'" "lane_pending l = lane_pending l'" "lane_ok l g = lane_ok l' g"
    unfolding lane_sent_def lane_pending_def lane_ok_def reliable_queue_def f by (rule refl)+
qed

lemma lane_size:
  assumes "lane_ok l g" "m \<in> set (reliable_queue g)"
  shows "0 < out_size m"
proof -
  have "out_hdr m \<noteq> []" using assms by (simp add: lane_ok_def)
  then show ?thesis by (cases "out_hdr m") (simp_all add: out_size_def)
qed

lemma lane_facts:
  assumes ok: "lane_ok l g" and q: "lane_messagesQueued l = m # ms"
  shows "SNPSend_IsReliable m \<Longrightarrow> out_stream_pos m + m_cbCurrentSendMessageSent l = lane_sent l"
    "SNPSend_IsReliable m \<Longrightarrow> m \<in> set (reliable_queue g)"
    "lane_ok (l\<lparr>m_cbCurrentSendMessageSent := 0, lane_messagesQueued := ms\<rparr>) g"
    "SNPSend_IsReliable m \<Longrightarrow> lane_sent (l\<lparr>m_cbCurrentSendMessageSent := 0, lane_messagesQueued := ms\<rparr>) = out_stream_pos m + out_size m"
    "\<not> SNPSend_IsReliable m \<Longrightarrow> lane_sent (l\<lparr>m_cbCurrentSendMessageSent := 0, lane_messagesQueued := ms\<rparr>) = lane_sent l"
proof -
  obtain pre where pre: "reliable_queue g = pre @ reliable_queue l" using ok by (auto simp: lane_ok_def)
  have nxt: "m_nReliableStreamNextSendPos l = 1 + int (length (concat (map sent_bytes (reliable_queue g))))" "placed 1 (reliable_queue g)"
    using ok by (simp_all add: lane_ok_def send_lane_ok_def)
  have rq: "reliable_queue l = (if SNPSend_IsReliable m then m # filter SNPSend_IsReliable ms else filter SNPSend_IsReliable ms)"
    by (simp add: reliable_queue_eq q)
  have lp: "lane_pending l = (if SNPSend_IsReliable m then out_size m - m_cbCurrentSendMessageSent l else 0) +
      int (length (concat (map sent_bytes (filter SNPSend_IsReliable ms))))"
    by (simp add: lane_pending_def q queue_pending_eq)
  have lp': "lane_pending (l\<lparr>m_cbCurrentSendMessageSent := 0, lane_messagesQueued := ms\<rparr>) =
      int (length (concat (map sent_bytes (filter SNPSend_IsReliable ms))))"
    by (simp add: lane_pending_def queue_pending_eq)
  have pos: "out_stream_pos m = 1 + int (length (concat (map sent_bytes pre)))" if "SNPSend_IsReliable m"
    using nxt(2) that unfolding pre rq by (simp add: placed_append)
  show "SNPSend_IsReliable m \<Longrightarrow> out_stream_pos m + m_cbCurrentSendMessageSent l = lane_sent l"
    using pos lp nxt(1) unfolding pre rq by (simp add: lane_sent_def out_size_eq)
  show "SNPSend_IsReliable m \<Longrightarrow> m \<in> set (reliable_queue g)" using pre rq by simp
  show "SNPSend_IsReliable m \<Longrightarrow> lane_sent (l\<lparr>m_cbCurrentSendMessageSent := 0, lane_messagesQueued := ms\<rparr>) = out_stream_pos m + out_size m"
    using pos lp' nxt(1) unfolding pre rq by (simp add: lane_sent_def out_size_eq)
  show "\<not> SNPSend_IsReliable m \<Longrightarrow> lane_sent (l\<lparr>m_cbCurrentSendMessageSent := 0, lane_messagesQueued := ms\<rparr>) = lane_sent l"
    using lp lp' by (simp add: lane_sent_def)
  have "\<exists>pre. reliable_queue g = pre @ filter SNPSend_IsReliable ms"
    using pre rq by (cases "SNPSend_IsReliable m") (auto intro: exI [of _ "pre @ [m]"])
  moreover have "0 \<le> out_size x" for x by (simp add: out_size_def)
  moreover have "SNPSend_IsReliable x \<Longrightarrow> x \<in> set (reliable_queue g) \<Longrightarrow> 0 < out_size x" for x
    using lane_size [OF ok] by blast
  moreover have "x \<in> set (reliable_queue g)" if "SNPSend_IsReliable x" "x \<in> set ms" for x
    using pre rq that by (auto split: if_splits)
  ultimately show "lane_ok (l\<lparr>m_cbCurrentSendMessageSent := 0, lane_messagesQueued := ms\<rparr>) g"
    using ok q unfolding lane_ok_def reliable_queue_eq [of "l\<lparr>m_cbCurrentSendMessageSent := 0, lane_messagesQueued := ms\<rparr>"]
    by (auto split: list.split)
qed

lemma lane_advance:
  assumes ok: "lane_ok l g" and q: "lane_messagesQueued l = m # ms" and n: "0 \<le> n" "m_cbCurrentSendMessageSent l + n < out_size m"
  shows "lane_ok (l\<lparr>m_cbCurrentSendMessageSent := m_cbCurrentSendMessageSent l + n\<rparr>) g"
    "lane_sent (l\<lparr>m_cbCurrentSendMessageSent := m_cbCurrentSendMessageSent l + n\<rparr>) = lane_sent l + (if SNPSend_IsReliable m then n else 0)"
proof -
  have rq: "reliable_queue (l\<lparr>m_cbCurrentSendMessageSent := m_cbCurrentSendMessageSent l + n\<rparr>) = reliable_queue l"
    by (simp add: reliable_queue_def)
  show "lane_ok (l\<lparr>m_cbCurrentSendMessageSent := m_cbCurrentSendMessageSent l + n\<rparr>) g"
    using ok n unfolding lane_ok_def rq by (auto simp: q)
qed (use q n in \<open>simp add: lane_sent_def lane_pending_def\<close>)

end
