(* ===== verification/SnpCollectInv.thy ===== *)
theory SnpCollectInv
  imports SnpCollect
begin

text \<open>
  The invariant of \<open>collect_segments\<close>: \<open>s0\<close> is the state before, \<open>s\<close> the state so far, \<open>G\<close> the lanes as they
  would be if nothing had left their queues.
\<close>

subsection \<open>Invariant\<close>

definition new_segs :: "SNPEncodedSegment list \<Rightarrow> SNPEncodedSegment list" where
  "new_segs segs = filter (\<lambda>seg. SNPSend_IsReliable (e_msg seg) \<and> m_hRetryReliableSeg seg = None) segs"

definition enc_range :: "SNPEncodedSegment \<Rightarrow> int \<times> int" where
  "enc_range seg = (out_stream_pos (e_msg seg) + e_nOffset seg, out_stream_pos (e_msg seg) + e_nOffset seg + m_cbSegSize seg)"

definition new_ranges :: "SNPEncodedSegment list \<Rightarrow> (int \<times> int) list" where
  "new_ranges segs = map enc_range (new_segs segs)"

definition retry_handles :: "SNPEncodedSegment list \<Rightarrow> nat list" where
  "retry_handles segs = concat (map (\<lambda>seg. case m_hRetryReliableSeg seg of None \<Rightarrow> [] | Some h \<Rightarrow> [h]) segs)"

lemma segs_lists [simp]:
  "new_segs [] = []" "new_segs (xs @ ys) = new_segs xs @ new_segs ys" "new_ranges [] = []"
  "new_ranges (xs @ ys) = new_ranges xs @ new_ranges ys" "retry_handles [] = []"
  "retry_handles (xs @ ys) = retry_handles xs @ retry_handles ys"
  by (simp_all add: new_segs_def new_ranges_def retry_handles_def)

lemma segs_Cons:
  "new_segs (x # xs) = new_segs [x] @ new_segs xs" "new_ranges (x # xs) = new_ranges [x] @ new_ranges xs"
  "retry_handles (x # xs) = retry_handles [x] @ retry_handles xs"
  by (simp_all add: new_segs_def new_ranges_def retry_handles_def)

text \<open>Ranges that follow each other from \<open>p\<close> to \<open>e\<close>.\<close>

fun tiles :: "int \<Rightarrow> (int \<times> int) list \<Rightarrow> int \<Rightarrow> bool" where
  "tiles p [] e \<longleftrightarrow> p = e"
| "tiles p ((a, b) # rs) e \<longleftrightarrow> a = p \<and> a < b \<and> tiles b rs e"

lemma tiles_append: "tiles p (rs @ rs') e \<longleftrightarrow> (\<exists>q. tiles p rs q \<and> tiles q rs' e)"
  by (induction p rs e rule: tiles.induct) auto

text \<open>The messages of the segments in the table are those of the stream, and the segments are in their messages.\<close>

definition msgs_ok :: "SSNPSenderState \<Rightarrow> (nat \<Rightarrow> SendLane) \<Rightarrow> bool" where
  "msgs_ok s G \<longleftrightarrow> (\<forall>h x. segment_of s h = Some x \<longrightarrow> seg_msg x \<in> set (reliable_queue (G (seg_lane x))) \<and>
     0 \<le> m_nOffset x \<and> m_nOffset x + m_cbSize x \<le> out_size (seg_msg x))"

definition seg_fits :: "SSNPSenderState \<Rightarrow> (nat \<Rightarrow> SendLane) \<Rightarrow> SNPEncodedSegment \<Rightarrow> bool" where
  "seg_fits s G seg \<longleftrightarrow> e_lane seg < length (send_lanes s) \<and>
     (case m_hRetryReliableSeg seg of
        Some h \<Rightarrow> \<exists>x. segment_of s h = Some x \<and> m_hStatusOrRetry x = k_nStatus_Retry \<and> e_lane seg = seg_lane x \<and>
          e_msg seg = seg_msg x \<and> e_nOffset seg = m_nOffset x \<and> m_cbSegSize seg = m_cbSize x
      | None \<Rightarrow>
          if SNPSend_IsReliable (e_msg seg) then e_msg seg \<in> set (reliable_queue (G (e_lane seg))) \<and> 0 \<le> e_nOffset seg \<and>
            0 < m_cbSegSize seg \<and> e_nOffset seg + m_cbSegSize seg \<le> out_size (e_msg seg)
          else 0 \<le> e_nOffset seg \<and> 0 \<le> m_cbSegSize seg \<and> e_nOffset seg + m_cbSegSize seg \<le> int (length (out_data (e_msg seg))))"

definition lane_counts :: "SendLane \<Rightarrow> int \<times> int" where
  "lane_counts l = (lane_cbPendingReliable l, lane_cbSentUnackedReliable l)"

definition erase_queues :: "SSNPSenderState \<Rightarrow> SSNPSenderState" where
  "erase_queues s = s\<lparr>send_lanes := [], m_nSentReliableSegRefCount := (\<lambda>_. 0), m_unackedReliableMessages := []\<rparr>"

lemma erase_upd [simp]:
  "erase_queues (s\<lparr>send_lanes := ls\<rparr>) = erase_queues s" "erase_queues (s\<lparr>m_nSentReliableSegRefCount := rc\<rparr>) = erase_queues s"
  "erase_queues (s\<lparr>m_unackedReliableMessages := um\<rparr>) = erase_queues s"
  by (cases s; simp add: erase_queues_def)+

definition same_tables :: "SSNPSenderState \<Rightarrow> SSNPSenderState \<Rightarrow> bool" where
  "same_tables s0 s \<longleftrightarrow> map lane_counts (send_lanes s) = map lane_counts (send_lanes s0) \<and>
     erase_queues s = erase_queues s0"

lemma same_tablesD:
  assumes "same_tables s0 s"
  shows "m_listSentReliableSegments s = m_listSentReliableSegments s0" "segment_of s h = segment_of s0 h"
    "m_cbPendingReliable s = m_cbPendingReliable s0" "m_cbSentUnackedReliable s = m_cbSentUnackedReliable s0"
    "next_segment_handle s = next_segment_handle s0" "m_listReadyRetryReliableRange s = m_listReadyRetryReliableRange s0"
    "m_mapInFlightPacketsByPktNum s = m_mapInFlightPacketsByPktNum s0"
    "m_itNextInFlightPacketToTimeout s = m_itNextInFlightPacketToTimeout s0" "m_nMinPktWaitingOnAck s = m_nMinPktWaitingOnAck s0"
    "length (send_lanes s) = length (send_lanes s0)"
proof -
  have e: "erase_queues s = erase_queues s0" using assms by (simp add: same_tables_def)
  show l: "m_listSentReliableSegments s = m_listSentReliableSegments s0"
    "m_cbPendingReliable s = m_cbPendingReliable s0" "m_cbSentUnackedReliable s = m_cbSentUnackedReliable s0"
    "next_segment_handle s = next_segment_handle s0" "m_listReadyRetryReliableRange s = m_listReadyRetryReliableRange s0"
    "m_mapInFlightPacketsByPktNum s = m_mapInFlightPacketsByPktNum s0"
    "m_itNextInFlightPacketToTimeout s = m_itNextInFlightPacketToTimeout s0" "m_nMinPktWaitingOnAck s = m_nMinPktWaitingOnAck s0"
    using e by (cases s; cases s0; simp add: erase_queues_def)+
  show "segment_of s h = segment_of s0 h" by (rule segment_of_cong [OF l(1)])
  show "length (send_lanes s) = length (send_lanes s0)" using assms map_eq_imp_length_eq by (auto simp: same_tables_def)
qed

lemma same_tables_upd:
  assumes "same_tables s0 s" "\<And>l. lane_counts (f l) = lane_counts l"
  shows "same_tables s0 (upd_lane i f s)"
proof -
  have "map lane_counts (send_lanes (upd_lane i f s)) = map lane_counts (send_lanes s)"
  proof (rule nth_equalityI)
    fix k assume "k < length (map lane_counts (send_lanes (upd_lane i f s)))"
    then show "map lane_counts (send_lanes (upd_lane i f s)) ! k = map lane_counts (send_lanes s) ! k"
      by (cases "i = k") (simp_all add: upd_lane_def assms(2))
  qed simp
  moreover have "erase_queues (upd_lane i f s) = erase_queues s" by (simp add: upd_lane_def)
  ultimately show ?thesis using assms(1) by (simp add: same_tables_def)
qed

lemma same_tables_finish:
  assumes "same_tables s0 s"
  shows "same_tables s0 (finish_message i m s)"
proof -
  define f where "f = (\<lambda>l :: SendLane. l\<lparr>m_cbCurrentSendMessageSent := 0, lane_messagesQueued := tl (lane_messagesQueued l)\<rparr>)"
  have "same_tables s0 (upd_lane i f s)" using assms by (rule same_tables_upd) (simp add: f_def lane_counts_def)
  then show ?thesis unfolding finish_message_def Let_def f_def [symmetric] by (simp add: same_tables_def)
qed

lemma send_lanes_finish:
  "send_lanes (finish_message i m s) = (send_lanes s)[i := (send_lanes s ! i)
     \<lparr>m_cbCurrentSendMessageSent := 0, lane_messagesQueued := tl (lane_messagesQueued (send_lanes s ! i))\<rparr>]"
  by (simp add: finish_message_def Let_def upd_lane_def)

definition coll_inv :: "SSNPSenderState \<Rightarrow> (nat \<Rightarrow> SendLane) \<Rightarrow> SSNPSenderState \<Rightarrow> SegmentCollector \<Rightarrow> bool" where
  "coll_inv s0 G s c \<longleftrightarrow> coll_ok c \<and> same_tables s0 s \<and>
     (\<forall>i < length (send_lanes s0). lane_ok (send_lanes s ! i) (G i) \<and>
        tiles (lane_sent (send_lanes s0 ! i)) (new_ranges (lane_segs c i)) (lane_sent (send_lanes s ! i))) \<and>
     (\<forall>i. \<forall>seg \<in> set (lane_segs c i). seg_fits s0 G seg) \<and>
     (\<forall>i. distinct (retry_handles (lane_segs c i)))"

lemma remaining_fields [simp]:
  "lane_segs (c\<lparr>m_cbRemainingForSegments := n\<rparr>) i = lane_segs c i" "coll_ok (c\<lparr>m_cbRemainingForSegments := n\<rparr>) = coll_ok c"
  by (auto simp: lane_segs_def coll_ok_def split: option.split)

lemma coll_inv_remaining [simp]: "coll_inv s0 G s (c\<lparr>m_cbRemainingForSegments := n\<rparr>) = coll_inv s0 G s c"
  by (simp add: coll_inv_def)

lemma coll_inv_same:
  assumes "coll_inv s0 G s c" "coll_ok c'" "\<And>j. lane_segs c' j = lane_segs c j"
  shows "coll_inv s0 G s c'"
  using assms by (simp add: coll_inv_def)

text \<open>One segment more on lane \<open>i\<close>.\<close>

lemma coll_inv_add:
  assumes inv: "coll_inv s0 G s c" and c': "coll_ok c'"
    and segs: "\<And>j. lane_segs c' j = (if j = i then lane_segs c i @ [seg] else lane_segs c j)"
    and s': "same_tables s0 s'" "send_lanes s' = (send_lanes s)[i := l]" "lane_ok l (G i)"
    and fits: "seg_fits s0 G seg" "e_lane seg = i"
    and tile: "tiles (lane_sent (send_lanes s ! i)) (new_ranges [seg]) (lane_sent l)"
    and h: "\<And>h. m_hRetryReliableSeg seg = Some h \<Longrightarrow> h \<notin> set (retry_handles (lane_segs c i))"
  shows "coll_inv s0 G s' c'"
  unfolding coll_inv_def
proof (intro conjI allI impI ballI)
  have i: "i < length (send_lanes s0)" using fits by (simp add: seg_fits_def)
  have st: "same_tables s0 s" using inv by (simp add: coll_inv_def)
  note len = same_tablesD(10) [OF st]
  fix j
  have L: "lane_ok (send_lanes s ! j) (G j)" "tiles (lane_sent (send_lanes s0 ! j)) (new_ranges (lane_segs c j)) (lane_sent (send_lanes s ! j))"
    if "j < length (send_lanes s0)" using inv that by (simp_all add: coll_inv_def)
  show "lane_ok (send_lanes s' ! j) (G j)" if "j < length (send_lanes s0)"
    using L that s'(2,3) i len by (cases "j = i") simp_all
  show "tiles (lane_sent (send_lanes s0 ! j)) (new_ranges (lane_segs c' j)) (lane_sent (send_lanes s' ! j))" if "j < length (send_lanes s0)"
    using L that s'(2) i len tile by (cases "j = i") (auto simp: segs tiles_append)
  show "seg_fits s0 G x" if "x \<in> set (lane_segs c' j)" for x
    using inv that fits(1) by (auto simp: coll_inv_def segs split: if_splits)
  have "distinct (retry_handles (lane_segs c j))" using inv by (simp add: coll_inv_def)
  then show "distinct (retry_handles (lane_segs c' j))"
    using h by (auto simp: segs retry_handles_def [of "[seg]"] split: option.splits)
qed (use c' s'(1) in simp_all)

subsection \<open>Retries\<close>

lemma reliable_hdr_nonempty: "reliable_hdr a b \<noteq> []"
  by (simp add: reliable_hdr_def Let_def)

lemma collect_retries_ok:
  assumes "coll_inv s G s c" "\<And>h. h \<in> set hs \<Longrightarrow> \<exists>x. segment_of s h = Some x \<and> m_hStatusOrRetry x = k_nStatus_Retry"
    "distinct hs" "\<And>i. set (retry_handles (lane_segs c i)) \<inter> set hs = {}" "msgs_ok s G"
    "\<And>h x. segment_of s h = Some x \<Longrightarrow> seg_lane x < length (send_lanes s)"
  shows "\<exists>d c'. collect_retries s hs c = Some (d, c') \<and> coll_inv s G s c'"
  using assms(1-4)
proof (induction hs arbitrary: c)
  case (Cons h hs)
  show ?case
  proof (cases "m_cbRemainingForSegments c \<le> 2")
    case False
    obtain x where x: "segment_of s h = Some x" "m_hStatusOrRetry x = k_nStatus_Retry" using Cons.prems(2) [of h] by auto
    define i where "i = seg_lane x"
    obtain k c1 where get: "GetLane i c = (k, c1)" by force
    define b where "b = out_stream_pos (seg_msg x) + m_nOffset x"
    define seg where "seg = SetupReliable i (seg_msg x) b (b + m_cbSize x) (m_nLastReliableStreamPosEnd (collector_lanes c1 ! k)) (Some h)"
    define l' where "l' = AddReliableRetry h x (collector_lanes c1 ! k)"
    define c2 where "c2 = c1\<lparr>collector_lanes := (collector_lanes c1)[k := l']\<rparr>"
    have l': "m_nLaneID l' = m_nLaneID (collector_lanes c1 ! k)" "m_vecSegments l' = m_vecSegments (collector_lanes c1 ! k) @ [seg]"
      by (simp_all add: l'_def AddReliableRetry_def Let_def seg_def b_def i_def)
    have seg: "e_lane seg = i" "m_hdr seg \<noteq> []" by (simp_all add: seg_def SetupReliable_def reliable_hdr_nonempty)
    have ok: "coll_ok c" using Cons.prems(1) by (simp add: coll_inv_def)
    note p = put_ok [OF ok get l' seg c2_def]
    have st: "same_tables s s" "i < length (send_lanes s)" using Cons.prems(1) assms(6) x(1) by (auto simp: coll_inv_def i_def)
    have lane: "lane_ok (send_lanes s ! i) (G i)" using Cons.prems(1) st(2) by (simp add: coll_inv_def)
    have rel: "SNPSend_IsReliable (seg_msg x)" using assms(5) x(1) by (auto simp: msgs_ok_def reliable_queue_eq)
    have "coll_inv s G s c2"
    proof (rule coll_inv_add [OF Cons.prems(1) p(1) p(5) st(1)])
      show "send_lanes s = (send_lanes s)[i := send_lanes s ! i]" by simp
      show "seg_fits s G (seg_core seg)"
        using x st(2) by (simp add: seg_fits_def) (simp add: seg_def SetupReliable_def b_def i_def)
      show "tiles (lane_sent (send_lanes s ! i)) (new_ranges [seg_core seg]) (lane_sent (send_lanes s ! i))"
        by (simp add: new_ranges_def new_segs_def) (simp add: seg_def SetupReliable_def)
      show "h' \<notin> set (retry_handles (lane_segs c i))" if "m_hRetryReliableSeg (seg_core seg) = Some h'" for h'
        using that Cons.prems(4) [of i] by (simp add: seg_def SetupReliable_def)
    qed (use seg lane in simp_all)
    have step: "collect_retries s (h # hs) c = (let n = int (length (m_hdr seg)) + m_cbSegSize seg in
        if n > m_cbRemainingForSegments c2 then Some (True, UndoLast k c2)
        else collect_retries s hs (c2\<lparr>m_cbRemainingForSegments := m_cbRemainingForSegments c2 - n - 1\<rparr>))"
      using False x get p(2,3) l'(2) by (simp add: Let_def i_def [symmetric] c2_def l'_def [symmetric])
    show ?thesis
    proof (cases "int (length (m_hdr seg)) + m_cbSegSize seg > m_cbRemainingForSegments c2")
      case True
      then have "collect_retries s (h # hs) c = Some (True, UndoLast k c2)" unfolding step by (simp add: Let_def)
      then show ?thesis using coll_inv_same [OF Cons.prems(1) p(6,7)] by blast
    next
      case nt: False
      define c3 where "c3 = c2\<lparr>m_cbRemainingForSegments := m_cbRemainingForSegments c2 - (int (length (m_hdr seg)) + m_cbSegSize seg) - 1\<rparr>"
      have c3: "coll_inv s G s c3" using \<open>coll_inv s G s c2\<close> by (simp add: c3_def)
      have rh: "retry_handles [seg_core seg] = [h]" by (simp add: retry_handles_def) (simp add: seg_def SetupReliable_def)
      have "set (retry_handles (lane_segs c3 j)) \<inter> set hs = {}" for j
        using Cons.prems(4) [of j] Cons.prems(3) by (auto simp: c3_def p(5) rh)
      then have "\<exists>d c'. collect_retries s hs c3 = Some (d, c') \<and> coll_inv s G s c'"
        using Cons.prems(2,3) by (intro Cons.IH [OF c3]) auto
      then show ?thesis unfolding step using nt by (simp add: Let_def c3_def)
    qed
  next
    case True
    then have "collect_retries s (h # hs) c = Some (True, c)" by simp
    then show ?thesis using Cons.prems(1) by blast
  qed
qed auto

subsection \<open>Messages\<close>

lemma or_hdr_nonempty [simp]: "or_hdr b h = [] \<longleftrightarrow> h = []"
  by (simp add: or_hdr_def split: list.split)

lemma unreliable_hdr_nonempty: "unreliable_hdr n off prev = Some h \<Longrightarrow> h \<noteq> []"
  by (auto simp: unreliable_hdr_def Let_def split: if_splits bind_splits)

text \<open>The segment of the message at the head of a lane, cut to the largest size when \<open>b\<close>.\<close>

lemma start_segment_ok:
  assumes st: "start_segment n i m sent l = Some (b, l')" and n: "0 < n" and sent: "0 \<le> sent" "sent \<le> out_size m"
  obtains seg where "m_nLaneID l' = m_nLaneID l" "m_vecSegments l' = m_vecSegments l @ [seg]" "m_hdr seg \<noteq> []" "e_lane seg = i"
    "e_msg seg = m" "e_nOffset seg = sent" "m_hRetryReliableSeg seg = None"
    "m_cbSegSize seg = (if b then n else out_size m - sent)" "b \<longrightarrow> n < out_size m - sent \<and> SNPSend_IsReliable m"
proof (cases "SNPSend_IsReliable m")
  case True
  define b0 where "b0 = out_stream_pos m + sent"
  define seg where "seg = SetupReliable i m b0 (b0 + (if b then n else out_size m - sent)) (m_nLastReliableStreamPosEnd l) None"
  have b: "b \<longleftrightarrow> out_size m - sent > n" and l': "l' = AddReliable i m b0 (b0 + (if b then n else out_size m - sent)) l"
    using st True by (auto simp: start_segment_def Let_def b0_def)
  show ?thesis
    by (rule that [of seg]) (use b True in \<open>simp_all add: l' AddReliable_def seg_def SetupReliable_def b0_def reliable_hdr_nonempty\<close>)
next
  case False
  obtain h where h: "unreliable_hdr (out_msg_num m) sent (m_nLastMsgNumForUnreliable l) = Some h" "\<not> b"
    "l' = l\<lparr>m_vecSegments := m_vecSegments l @ [\<lparr>e_lane = i, e_msg = m, m_cbSegSize = out_size m - sent, e_nOffset = sent,
       m_hdr = h, m_hRetryReliableSeg = None\<rparr>], m_nLastMsgNumForUnreliable := out_msg_num m\<rparr>"
    using st False by (auto simp: start_segment_def AddUnreliable_def SetupUnreliable_def)
  show ?thesis
    by (rule that [of "\<lparr>e_lane = i, e_msg = m, m_cbSegSize = out_size m - sent, e_nOffset = sent, m_hdr = h, m_hRetryReliableSeg = None\<rparr>"])
      (use h unreliable_hdr_nonempty [OF h(1)] in simp_all)
qed

lemma collect_one_ok:
  assumes inv: "coll_inv s0 G s c" and n: "0 < n" and one: "collect_one n pick s c = Some r"
  shows "case r of Stop s' c' \<Rightarrow> coll_inv s0 G s' c' | More s' c' \<Rightarrow> coll_inv s0 G s' c'"
proof (cases "m_cbRemainingForSegments c > 4 \<and> pick s \<noteq> None")
  case False
  then have "r = Stop s c" using one by (auto simp: collect_one_def split: if_splits)
  then show ?thesis using inv by simp
next
  case True
  then obtain i where i: "pick s = Some i" by blast
  have i': "i < length (send_lanes s)" "lane_messagesQueued (send_lanes s ! i) \<noteq> []"
    using one True i by (auto simp: collect_one_def split: if_splits)
  define l where "l = send_lanes s ! i"
  obtain m ms where q: "lane_messagesQueued l = m # ms" using i'(2) by (cases "lane_messagesQueued l") (auto simp: l_def)
  obtain k c1 where get: "GetLane i c = (k, c1)" by force
  obtain b l' where sg: "start_segment n i m (m_cbCurrentSendMessageSent l) (collector_lanes c1 ! k) = Some (b, l')"
    using one True i i' get q by (auto simp: collect_one_def l_def Let_def split: if_splits bind_splits)
  have st: "same_tables s0 s" and ok: "coll_ok c" using inv by (simp_all add: coll_inv_def)
  have i0: "i < length (send_lanes s0)" using i'(1) same_tablesD(10) [OF st] by simp
  have lane: "lane_ok l (G i)" using inv i0 by (simp add: coll_inv_def l_def)
  have sent: "0 \<le> m_cbCurrentSendMessageSent l" "m_cbCurrentSendMessageSent l \<le> out_size m"
    "SNPSend_IsReliable m \<Longrightarrow> m_cbCurrentSendMessageSent l < out_size m"
    "\<not> SNPSend_IsReliable m \<Longrightarrow> out_size m = int (length (out_data m))"
    using lane q by (simp_all add: lane_ok_def out_size_def)
  note facts = lane_facts [OF lane q]
  define sz where "sz = (if b then n else out_size m - m_cbCurrentSendMessageSent l)"
  obtain seg where seg: "m_nLaneID l' = m_nLaneID (collector_lanes c1 ! k)" "m_vecSegments l' = m_vecSegments (collector_lanes c1 ! k) @ [seg]"
    "m_hdr seg \<noteq> []" "e_lane seg = i" "e_msg seg = m" "e_nOffset seg = m_cbCurrentSendMessageSent l" "m_hRetryReliableSeg seg = None"
    "m_cbSegSize seg = sz" "b \<longrightarrow> n < out_size m - m_cbCurrentSendMessageSent l \<and> SNPSend_IsReliable m"
    unfolding sz_def by (rule start_segment_ok [OF sg n sent(1,2)])
  define c2 where "c2 = c1\<lparr>collector_lanes := (collector_lanes c1)[k := l']\<rparr>"
  note p = put_ok [OF ok get seg(1,2,4,3) c2_def]
  define hd where "hd = int (length (m_hdr seg))"
  have sz: "0 \<le> sz" "SNPSend_IsReliable m \<Longrightarrow> 0 < sz" "m_cbCurrentSendMessageSent l + sz \<le> out_size m"
    using n sent seg(9) by (auto simp: sz_def)
  text \<open>A segment of any size up to the one found.\<close>
  have add: "coll_inv s0 G s' c'"
    if "coll_ok c'" "\<And>j. lane_segs c' j = (if j = i then lane_segs c i @ [(seg_core seg)\<lparr>m_cbSegSize := z\<rparr>] else lane_segs c j)"
      "same_tables s0 s'" "send_lanes s' = (send_lanes s)[i := l1]" "lane_ok l1 (G i)"
      "lane_sent l1 = (if SNPSend_IsReliable m then lane_sent l + z else lane_sent l)" "0 \<le> z" "z \<le> sz" "SNPSend_IsReliable m \<Longrightarrow> 0 < z"
    for s' c' z l1
  proof (rule coll_inv_add [OF inv that(1-5)])
    show "seg_fits s0 G ((seg_core seg)\<lparr>m_cbSegSize := z\<rparr>)"
      using i0 facts(2) sent sz that(7-9) by (auto simp: seg_fits_def seg(4-7))
    show "tiles (lane_sent (send_lanes s ! i)) (new_ranges [(seg_core seg)\<lparr>m_cbSegSize := z\<rparr>]) (lane_sent l1)"
      using that(6,9) facts(1) by (simp add: new_ranges_def new_segs_def enc_range_def seg(5-7) l_def [symmetric])
  qed (simp_all add: seg(4,7))
  have at: "c1\<lparr>collector_lanes := (collector_lanes c1)[k := l']\<rparr> = c2" by (simp add: c2_def)
  have rem: "m_cbRemainingForSegments c1 = m_cbRemainingForSegments c2" by (simp add: c2_def)
  have ev: "collect_one n pick s c =
    (if b \<or> hd + sz > m_cbRemainingForSegments c2 then
       if hd + min 16 sz > m_cbRemainingForSegments c2 then Some (Stop s (UndoLast k c2))
       else let z = min sz (m_cbRemainingForSegments c2 - hd); c3 = upd_last (\<lambda>seg. seg\<lparr>m_cbSegSize := z\<rparr>) k c2 in
         Some (Stop (upd_lane i (\<lambda>l. l\<lparr>m_cbCurrentSendMessageSent := m_cbCurrentSendMessageSent l + z\<rparr>) s)
           (c3\<lparr>m_cbRemainingForSegments := m_cbRemainingForSegments c3 - (hd + z)\<rparr>))
     else let c3 = c2\<lparr>m_cbRemainingForSegments := m_cbRemainingForSegments c2 - (hd + sz) - 1\<rparr> in
       Some (More (finish_message i m s)
         (if SNPSend_IsReliable m then c3 else upd_last (\<lambda>seg. seg\<lparr>m_hdr := or_hdr 0x20 (m_hdr seg)\<rparr>) k c3)))"
    using True i i' get q sg seg(2,8) by (simp add: collect_one_def Let_def l_def [symmetric] at rem hd_def)
  have core: "(seg_core seg)\<lparr>m_cbSegSize := sz\<rparr> = seg_core seg" using seg(8) by (cases seg) (simp add: seg_core_def)
  consider (undo) "r = Stop s (UndoLast k c2)" |
    (cut) z where "z = min sz (m_cbRemainingForSegments c2 - hd)" "hd + min 16 sz \<le> m_cbRemainingForSegments c2"
      "b \<or> hd + sz > m_cbRemainingForSegments c2"
      "r = Stop (upd_lane i (\<lambda>l. l\<lparr>m_cbCurrentSendMessageSent := m_cbCurrentSendMessageSent l + z\<rparr>) s)
         ((upd_last (\<lambda>seg. seg\<lparr>m_cbSegSize := z\<rparr>) k c2)\<lparr>m_cbRemainingForSegments :=
            m_cbRemainingForSegments (upd_last (\<lambda>seg. seg\<lparr>m_cbSegSize := z\<rparr>) k c2) - (hd + z)\<rparr>)" |
    (whole) c3 where "\<not> b" "r = More (finish_message i m s)
         (if SNPSend_IsReliable m then c3 else upd_last (\<lambda>seg. seg\<lparr>m_hdr := or_hdr 0x20 (m_hdr seg)\<rparr>) k c3)"
      "c3 = c2\<lparr>m_cbRemainingForSegments := m_cbRemainingForSegments c2 - (hd + sz) - 1\<rparr>"
    using one [unfolded ev] by (auto simp: Let_def split: if_splits)
  then show ?thesis
  proof cases
    case undo
    then show ?thesis using coll_inv_same [OF inv p(6,7)] by simp
  next
    case cut
    define f where "f = (\<lambda>seg :: SNPEncodedSegment. seg\<lparr>m_cbSegSize := z\<rparr>)"
    define l1 where "l1 = l\<lparr>m_cbCurrentSendMessageSent := m_cbCurrentSendMessageSent l + z\<rparr>"
    have z: "0 \<le> z" "z \<le> sz" "SNPSend_IsReliable m \<Longrightarrow> 0 < z" using cut(1,2) sz by (auto simp: min_def split: if_splits)
    have "z < out_size m - m_cbCurrentSendMessageSent l"
      using cut(1,3) seg(9) sz_def by (cases b) auto
    then have less: "m_cbCurrentSendMessageSent l + z < out_size m" by simp
    have u: "coll_ok (upd_last f k c2)" "lane_segs (upd_last f k c2) j =
        (if j = i then butlast (lane_segs c2 i) @ [f (last (lane_segs c2 i))] else lane_segs c2 j)" for j
      by (rule upd_last_ok [OF p(1,2)]; use p(3,4) in \<open>simp add: f_def\<close>)+
    have "coll_inv s0 G (upd_lane i (\<lambda>l. l\<lparr>m_cbCurrentSendMessageSent := m_cbCurrentSendMessageSent l + z\<rparr>) s) (upd_last f k c2)"
    proof (rule add [where z = z and ?l1.0 = l1])
      show "lane_segs (upd_last f k c2) j = (if j = i then lane_segs c i @ [(seg_core seg)\<lparr>m_cbSegSize := z\<rparr>] else lane_segs c j)" for j
        unfolding u(2) p(5) by (simp add: f_def)
      show "same_tables s0 (upd_lane i (\<lambda>l. l\<lparr>m_cbCurrentSendMessageSent := m_cbCurrentSendMessageSent l + z\<rparr>) s)"
        by (rule same_tables_upd [OF st]) (simp add: lane_counts_def)
    qed (use u(1) z lane_advance [OF lane q z(1) less] in \<open>simp_all add: upd_lane_def l1_def l_def\<close>)
    then show ?thesis by (simp add: cut(4) f_def)
  next
    case whole
    have e: "sz = out_size m - m_cbCurrentSendMessageSent l" using whole(1) by (simp add: sz_def)
    define f where "f = (\<lambda>seg :: SNPEncodedSegment. seg\<lparr>m_hdr := or_hdr 0x20 (m_hdr seg)\<rparr>)"
    define l1 where "l1 = l\<lparr>m_cbCurrentSendMessageSent := 0, lane_messagesQueued := ms\<rparr>"
    have c3: "coll_ok c3" "k < length (collector_lanes c3)" "m_nLaneID (collector_lanes c3 ! k) = i" "\<And>j. lane_segs c3 j = lane_segs c2 j"
      using p(1-4) by (simp_all add: whole(3))
    have u: "coll_ok (upd_last f k c3)" "lane_segs (upd_last f k c3) j =
        (if j = i then butlast (lane_segs c3 i) @ [(\<lambda>x. x) (last (lane_segs c3 i))] else lane_segs c3 j)" for j
      by (rule upd_last_ok [OF c3(1-3)]; simp add: f_def)+
    define c4 where "c4 = (if SNPSend_IsReliable m then c3 else upd_last f k c3)"
    have "coll_inv s0 G (finish_message i m s) c4"
    proof (rule add [where z = sz and ?l1.0 = l1])
      show "coll_ok c4" using u(1) c3(1) by (simp add: c4_def)
      show "lane_segs c4 j = (if j = i then lane_segs c i @ [(seg_core seg)\<lparr>m_cbSegSize := sz\<rparr>] else lane_segs c j)" for j
        by (simp add: c4_def u(2) c3(4) p(5) core)
      show "same_tables s0 (finish_message i m s)" by (rule same_tables_finish [OF st])
      show "send_lanes (finish_message i m s) = (send_lanes s)[i := l1]" by (simp add: send_lanes_finish l1_def l_def [symmetric] q)
      show "lane_sent l1 = (if SNPSend_IsReliable m then lane_sent l + sz else lane_sent l)"
      proof (cases "SNPSend_IsReliable m")
        case True
        then show ?thesis using facts(1) [OF True] facts(4) [OF True] by (simp add: l1_def e)
      next
        case False
        then show ?thesis using facts(5) by (simp add: l1_def)
      qed
    qed (use facts(3) sz in \<open>simp_all add: l1_def\<close>)
    then show ?thesis unfolding whole(2) c4_def f_def by (simp only: collect_step.case)
  qed
qed

lemma collect_messages_ok:
  "coll_inv s0 G s c \<Longrightarrow> 0 < n \<Longrightarrow> collect_messages n pick s c = Some (s', c') \<Longrightarrow> coll_inv s0 G s' c'"
proof (induction n pick s c rule: collect_messages.induct)
  case (1 n pick s c)
  from "1.prems"(3) obtain r where r: "collect_one n pick s c = Some r" by (auto simp: collect_messages.simps [of n pick s c] split: option.splits)
  note ok = collect_one_ok [OF "1.prems"(1,2) r]
  show ?case
  proof (cases r)
    case (Stop s1 c1)
    then show ?thesis using "1.prems"(3) r ok by (simp add: collect_messages.simps [of n pick s c])
  next
    case (More s1 c1)
    then have "collect_messages n pick s1 c1 = Some (s', c')" using "1.prems"(3) r by (simp add: collect_messages.simps [of n pick s c])
    with "1.IH" [OF r More] ok "1.prems"(2) More show ?thesis by simp
  qed
qed

end
