(* ===== verification/SnpSerialInv.thy ===== *)
theory SnpSerialInv
  imports SnpCollectInv
begin

text \<open>
  What the serialization of segments does to the table. \<open>hs\<close> are the handles that go into the packet, \<open>R\<close> the
  segments that are still to be written.
\<close>

subsection \<open>Counters\<close>

text \<open>The counters, while \<open>d\<close> bytes have left the queues and are not in the table.\<close>

definition counts_with :: "(nat option \<Rightarrow> int) \<Rightarrow> SSNPSenderState \<Rightarrow> bool" where
  "counts_with d s \<longleftrightarrow>
     status_sum None k_nStatus_Retry s + sum_list (map lane_pending (send_lanes s)) + d None = m_cbPendingReliable s \<and>
     status_sum None k_nStatus_InFlight s = m_cbSentUnackedReliable s \<and>
     (\<forall>i < length (send_lanes s).
        status_sum (Some i) k_nStatus_Retry s + lane_pending (send_lanes s ! i) + d (Some i) = lane_cbPendingReliable (send_lanes s ! i) \<and>
        status_sum (Some i) k_nStatus_InFlight s = lane_cbSentUnackedReliable (send_lanes s ! i))"

lemma counts_ok_with: "counts_ok s = counts_with (\<lambda>_. 0) s"
  by (simp add: counts_ok_def counts_with_def status_sum_eq)

lemma counts_with_change:
  assumes ok: "counts_with d s"
    and lanes: "map lane_core (send_lanes s') = map lane_core (send_lanes s)"
    and r: "\<And>k. status_sum k k_nStatus_Retry s' = status_sum k k_nStatus_Retry s + dr k"
    and f: "\<And>k. status_sum k k_nStatus_InFlight s' = status_sum k k_nStatus_InFlight s + df k"
    and c: "m_cbPendingReliable s' = m_cbPendingReliable s + dr None + (d' None - d None)"
      "m_cbSentUnackedReliable s' = m_cbSentUnackedReliable s + df None"
      "\<And>i. i < length (send_lanes s) \<Longrightarrow> lane_cbPendingReliable (send_lanes s' ! i) =
         lane_cbPendingReliable (send_lanes s ! i) + dr (Some i) + (d' (Some i) - d (Some i))"
      "\<And>i. i < length (send_lanes s) \<Longrightarrow> lane_cbSentUnackedReliable (send_lanes s' ! i) = lane_cbSentUnackedReliable (send_lanes s ! i) + df (Some i)"
  shows "counts_with d' s'"
proof -
  have len: "length (send_lanes s') = length (send_lanes s)" using lanes by (rule map_eq_imp_length_eq)
  have lp: "lane_pending (send_lanes s' ! i) = lane_pending (send_lanes s ! i)" if "i < length (send_lanes s)" for i
    using lanes that len by (intro lane_pending_core) (metis nth_map)
  then have "map lane_pending (send_lanes s') = map lane_pending (send_lanes s)"
    using len by (intro nth_equalityI) auto
  with ok lp len c r f show ?thesis by (auto simp: counts_with_def)
qed

text \<open>Bytes of the new segments.\<close>

definition pend :: "SNPEncodedSegment list \<Rightarrow> nat option \<Rightarrow> int" where
  "pend R k = sum_list (map m_cbSegSize (filter (\<lambda>seg. case k of None \<Rightarrow> True | Some i \<Rightarrow> e_lane seg = i) (new_segs R)))"

lemma pend_simps [simp]:
  "pend [] k = 0" "pend (xs @ ys) k = pend xs k + pend ys k"
  by (simp_all add: pend_def)

lemma pend_Cons: "pend (x # xs) k = pend [x] k + pend xs k"
  by (simp add: pend_def segs_Cons(1) [of x xs])

subsection \<open>A new segment\<close>

lemma new_segment_ok:
  assumes ok: "segs_ok s C A" and h: "h = next_segment_handle s"
    and s': "m_listSentReliableSegments s' = m_listSentReliableSegments s @ [(h, x)]" "next_segment_handle s' = h + 1"
      "m_listReadyRetryReliableRange s' = m_listReadyRetryReliableRange s" "length (send_lanes s') = length (send_lanes s)"
    and x: "m_hStatusOrRetry x = k_nStatus_InFlight" "0 < m_cbSize x" "seg_lane x < length (send_lanes s)"
      "\<And>r. r \<in> set (C (seg_lane x)) \<Longrightarrow> fst r \<noteq> seg_begin x"
  shows "segment_of s h = None" "segment_of s' k = (if k = h then Some x else segment_of s k)"
    "segs_ok s' (C(seg_lane x := C (seg_lane x) @ [seg_range x])) A"
    "status_sum k' u s' = status_sum k' u s + (if sel k' x \<and> u = k_nStatus_InFlight then m_cbSize x else 0)"
proof -
  note d = segs_okD [OF ok]
  show none: "segment_of s h = None"
  proof (rule ccontr)
    assume "segment_of s h \<noteq> None"
    then obtain y where "segment_of s h = Some y" by blast
    then show False using d(4) h by auto
  qed
  have seg: "segment_of s' k = (if k = h then Some x else segment_of s k)" for k
    using none by (simp add: segment_of_def s'(1) map_add_def split: option.split)
  then show "segment_of s' k = (if k = h then Some x else segment_of s k)" .
  define C' where "C' = C(seg_lane x := C (seg_lane x) @ [seg_range x])"
  have inC: "fst (seg_range y) \<in> fst ` set (C (seg_lane y))" if "segment_of s k = Some y" for k y
    using ok that unfolding segs_ok_def by blast
  have "segs_ok s' C' A" unfolding segs_ok_def
  proof (intro conjI allI impI ballI)
    have "h \<notin> fst ` set (m_listSentReliableSegments s)" using none by (simp add: segment_of_def map_of_eq_None_iff)
    then show "distinct (map fst (m_listSentReliableSegments s'))" using d(1) by (simp add: s'(1))
    fix k y assume y: "segment_of s' k = Some y"
    have y': "k < next_segment_handle s' \<and> seg_lane y < length (send_lanes s') \<and> 0 < m_cbSize y \<and> seg_range y \<in> set (C' (seg_lane y))"
    proof (cases "k = h")
      case True
      then show ?thesis using y x(2,3) s'(2,4) by (auto simp: seg C'_def)
    next
      case False
      then have "segment_of s k = Some y" using y by (simp add: seg)
      then have "k < next_segment_handle s \<and> seg_lane y < length (send_lanes s) \<and> 0 < m_cbSize y \<and> seg_range y \<in> set (C (seg_lane y))"
        using ok unfolding segs_ok_def by blast
      then show ?thesis using s'(2,4) h by (auto simp: C'_def)
    qed
    then show "k < next_segment_handle s'" "seg_lane y < length (send_lanes s')" "0 < m_cbSize y" "seg_range y \<in> set (C' (seg_lane y))"
      by blast+
  next
    fix k y k' y' assume y: "segment_of s' k = Some y \<and> segment_of s' k' = Some y' \<and> seg_key y = seg_key y'"
    have neq: "seg_key z \<noteq> seg_key x" if z: "segment_of s j = Some z" for j z
    proof
      assume "seg_key z = seg_key x"
      then have "seg_lane z = seg_lane x" "seg_begin z = seg_begin x" by (simp_all add: seg_key_def)
      then obtain r where "r \<in> set (C (seg_lane x))" "fst r = seg_begin x" using inC [OF z] by (auto simp: seg_range_def)
      with x(4) show False by blast
    qed
    show "k = k'"
    proof (cases "k = h \<or> k' = h")
      case True
      then show ?thesis using y neq by (auto simp: seg split: if_splits)
    next
      case False
      then have "segment_of s k = Some y \<and> segment_of s k' = Some y' \<and> seg_key y = seg_key y'" using y by (simp add: seg)
      then show ?thesis using ok unfolding segs_ok_def by blast
    qed
  next
    show "distinct (m_listReadyRetryReliableRange s')" using d(6) by (simp add: s'(3))
    have nr: "h \<notin> set (m_listReadyRetryReliableRange s)" using d(5) [of h] none by simp
    have "in_order s' a b" if "a \<in> set (m_listReadyRetryReliableRange s)" "b \<in> set (m_listReadyRetryReliableRange s)" "in_order s a b" for a b
    proof -
      have "a \<noteq> h" "b \<noteq> h" using that nr by auto
      then show ?thesis using that(3) by (simp add: in_order_def seg)
    qed
    then show "sorted_wrt (in_order s') (m_listReadyRetryReliableRange s')"
      using sorted_wrt_mono_rel [OF _ d(7), of "in_order s'"] by (simp add: s'(3))
    show "k \<in> set (m_listReadyRetryReliableRange s') \<longleftrightarrow> (\<exists>x. segment_of s' k = Some x \<and> m_hStatusOrRetry x = k_nStatus_Retry)" for k
      using d(5) [of k] nr x(1) by (auto simp: s'(3) seg)
    fix i r assume r: "r \<in> set (C' i)"
    show "(\<exists>h x. segment_of s' h = Some x \<and> seg_lane x = i \<and> seg_range x = r \<and> m_hStatusOrRetry x \<noteq> k_nStatus_Acked) \<or> (i, r) \<in> A"
    proof (cases "r \<in> set (C i)")
      case True
      then consider "(i, r) \<in> A" | k y where "segment_of s k = Some y" "seg_lane y = i" "seg_range y = r" "m_hStatusOrRetry y \<noteq> k_nStatus_Acked"
        using ok unfolding segs_ok_def by blast
      then show ?thesis
      proof cases
        case 2
        then have "segment_of s' k = Some y" using none by (auto simp: seg)
        with 2 show ?thesis by blast
      qed blast
    next
      case False
      then have "i = seg_lane x" "r = seg_range x" using r by (auto simp: C'_def split: if_splits)
      moreover have "segment_of s' h = Some x" by (simp add: seg)
      ultimately show ?thesis using x(1) by (metis segment_status.distinct(1))
    qed
  qed
  then show "segs_ok s' (C(seg_lane x := C (seg_lane x) @ [seg_range x])) A" by (simp add: C'_def)
  show "status_sum k' u s' = status_sum k' u s + (if sel k' x \<and> u = k_nStatus_InFlight then m_cbSize x else 0)"
    using x(1) by (simp add: status_sum_def sum_segs_def s'(1))
qed

text \<open>A segment that goes into the packet.\<close>

lemma refs_ok_put:
  assumes "refs_ok s P hs safe" "int (holders P h + count_list hs h) + 1 \<le> m_nRefCount x"
    "\<And>k. segment_of s' k = (if k = h then Some x else segment_of s k)"
  shows "refs_ok s' P (hs @ [h]) (insert h safe)"
  unfolding refs_ok_def
proof (intro conjI ballI allI impI)
  fix k y assume y: "segment_of s' k = Some y"
  have r: "int (holders P k + count_list hs k) \<le> m_nRefCount y" "m_hStatusOrRetry y \<noteq> k_nStatus_Retry \<longrightarrow> 0 < m_nRefCount y"
    "m_hStatusOrRetry y = k_nStatus_InFlight \<longrightarrow> (\<exists>p \<in> set P. \<not> m_bNack (snd p) \<and> k \<in> set (m_vecReliableSegments (snd p))) \<or> k \<in> safe"
    if "k \<noteq> h"
    using that y assms(1) assms(3) [of k] unfolding refs_ok_def by auto
  have x: "y = x" if "k = h" using that y assms(3) [of k] by simp
  show "int (holders P k + count_list (hs @ [h]) k) \<le> m_nRefCount y" using r(1) x assms(2) by (cases "k = h") auto
  show "0 < m_nRefCount y" if "m_hStatusOrRetry y \<noteq> k_nStatus_Retry" using r(2) x assms(2) that by (cases "k = h") auto
  show "(\<exists>p \<in> set P. \<not> m_bNack (snd p) \<and> k \<in> set (m_vecReliableSegments (snd p))) \<or> k \<in> insert h safe"
    if "m_hStatusOrRetry y = k_nStatus_InFlight" using r(3) that by (cases "k = h") auto
qed (use assms(1,3) in \<open>auto simp: refs_ok_def\<close>)

text \<open>A new reference count.\<close>

lemma refcount_change:
  assumes ok: "segs_ok s C A" and s': "s' = upd_segment h (\<lambda>x. x\<lparr>m_nRefCount := f x\<rparr>) s"
  shows "segs_ok s' C A" "status_sum k u s' = status_sum k u s"
proof -
  note d = segs_okD [OF ok]
  have fr: "frame s s'" by (auto simp: frame_def s')
  show "segs_ok s' C A"
  proof (rule segs_ok_change [OF ok fr])
    show "sorted_wrt (in_order s') (m_listReadyRetryReliableRange s')" using sorted_static [OF fr d(7)] by (simp add: s')
    show "h' \<in> set (m_listReadyRetryReliableRange s') \<longleftrightarrow> (\<exists>x. segment_of s' h' = Some x \<and> m_hStatusOrRetry x = k_nStatus_Retry)" for h'
      using d(5) [of h'] by (auto simp: s')
  qed (use d(1,6) in \<open>auto simp: s'\<close>)
  have "map (\<lambda>p. if sel k (snd p) \<and> m_hStatusOrRetry (snd p) = u then m_cbSize (snd p) else 0) (m_listSentReliableSegments s') =
    map (\<lambda>p. if sel k (snd p) \<and> m_hStatusOrRetry (snd p) = u then m_cbSize (snd p) else 0) (m_listSentReliableSegments s)"
    by (auto simp: s' upd_segment_def sel_def split: option.splits if_splits)
  then show "status_sum k u s' = status_sum k u s" by (simp add: status_sum_def sum_segs_eq)
qed

subsection \<open>Invariant\<close>

definition ser_inv :: "(int \<times> SNPInFlightPacket) list \<Rightarrow> (nat \<Rightarrow> SendLane) \<Rightarrow> (nat \<Rightarrow> (int \<times> int) list) \<Rightarrow> (nat \<times> int \<times> int) set \<Rightarrow>
    nat list \<Rightarrow> SSNPSenderState \<Rightarrow> SNPEncodedSegment list \<Rightarrow> bool" where
  "ser_inv P G C A hs s R \<longleftrightarrow> segs_ok s C A \<and> refs_ok s P hs (set hs) \<and> counts_with (pend R) s \<and> msgs_ok s G \<and>
     distinct (hs @ retry_handles R) \<and> (\<forall>seg \<in> set R. seg_fits s G seg) \<and>
     (\<forall>i. \<exists>e. tiles 1 (C i @ new_ranges (filter (\<lambda>seg. e_lane seg = i) R)) e)"

text \<open>What stays: the map of packets, the queues, and the data of the segments that were there.\<close>

definition ser_frame :: "SSNPSenderState \<Rightarrow> SSNPSenderState \<Rightarrow> bool" where
  "ser_frame s s' \<longleftrightarrow> map lane_core (send_lanes s') = map lane_core (send_lanes s) \<and>
     m_mapInFlightPacketsByPktNum s' = m_mapInFlightPacketsByPktNum s \<and>
     m_itNextInFlightPacketToTimeout s' = m_itNextInFlightPacketToTimeout s \<and>
     m_nMinPktWaitingOnAck s' = m_nMinPktWaitingOnAck s \<and> next_segment_handle s \<le> next_segment_handle s' \<and>
     (\<forall>h x'. h < next_segment_handle s \<and> segment_of s' h = Some x' \<longrightarrow> (\<exists>x. segment_of s h = Some x \<and> seg_static x' = seg_static x))"

lemma ser_frame_refl [simp]: "ser_frame s s"
  by (auto simp: ser_frame_def)

lemma ser_frame_trans:
  assumes "ser_frame s s'" "ser_frame s' s''"
  shows "ser_frame s s''"
proof -
  have "\<exists>x. segment_of s h = Some x \<and> seg_static x'' = seg_static x" if h: "h < next_segment_handle s" "segment_of s'' h = Some x''" for h x''
  proof -
    have "h < next_segment_handle s'" using h(1) assms(1) by (auto simp: ser_frame_def)
    then obtain x' where "segment_of s' h = Some x'" "seg_static x'' = seg_static x'" using h(2) assms(2) unfolding ser_frame_def by blast
    moreover from this(1) obtain x where "segment_of s h = Some x" "seg_static x' = seg_static x"
      using h(1) assms(1) unfolding ser_frame_def by blast
    ultimately show ?thesis by simp
  qed
  then show ?thesis using assms unfolding ser_frame_def by (auto intro: order_trans)
qed

lemma tiles_begin: "tiles p rs e \<Longrightarrow> r \<in> set rs \<Longrightarrow> p \<le> fst r \<and> fst r < snd r \<and> snd r \<le> e"
proof (induction p rs e rule: tiles.induct)
  case (2 p a b rs e)
  have le: "b \<le> e" if "tiles b rs e" for b e using that by (induction b rs e rule: tiles.induct) auto
  show ?case
  proof (cases "r = (a, b)")
    case True
    then show ?thesis using "2.prems" le [of b e] by simp
  next
    case False
    then show ?thesis using "2.IH" "2.prems" by fastforce
  qed
qed simp

lemma copy_bytes_ok: "0 \<le> off \<Longrightarrow> 0 \<le> n \<Longrightarrow> off + n \<le> int (length bs) \<Longrightarrow> copy_bytes bs off n = Some (take (nat n) (drop (nat off) bs))"
  by (simp add: copy_bytes_def)

text \<open>The bytes of a reliable segment are those of the message.\<close>

lemma reliable_bytes_ok:
  assumes "0 \<le> off" "0 \<le> n" "off + n \<le> out_size m"
  shows "reliable_bytes m off n = Some (take (nat n) (drop (nat off) (sent_bytes m)))"
proof -
  define k where "k = int (length (out_hdr m))"
  show ?thesis
  proof (cases "off < k")
    case True
    define c where "c = min n (k - off)"
    have c: "0 \<le> c" "c \<le> n" "off + c \<le> k" using assms True by (auto simp: c_def)
    have h: "copy_bytes (out_hdr m) off c = Some (take (nat c) (drop (nat off) (out_hdr m)))"
      using c assms by (intro copy_bytes_ok) (simp_all add: k_def)
    have b: "(if n - c > 0 then copy_bytes (out_data m) 0 (n - c) else Some []) = Some (take (nat (n - c)) (out_data m))"
    proof (cases "n - c > 0")
      case True
      have "copy_bytes (out_data m) 0 (n - c) = Some (take (nat (n - c)) (drop (nat 0) (out_data m)))"
        using True assms c by (intro copy_bytes_ok) (auto simp: c_def k_def out_size_def min_def split: if_splits)
      then show ?thesis using True by simp
    qed (use c in simp)
    have "take (nat n) (drop (nat off) (sent_bytes m)) = take (nat c) (drop (nat off) (out_hdr m)) @ take (nat (n - c)) (out_data m)"
    proof (cases "n \<le> k - off")
      case True
      then have "c = n" by (simp add: c_def)
      moreover have "nat n \<le> length (out_hdr m) - nat off" using True assms by (simp add: k_def)
      ultimately show ?thesis using \<open>off < k\<close> by (simp add: sent_bytes_def k_def)
    next
      case False
      then have e: "c = k - off" by (simp add: c_def)
      have l: "length (drop (nat off) (out_hdr m)) = nat c" "nat n - nat c = nat (n - c)"
        using e c assms by (simp_all add: k_def nat_diff_distrib')
      have "drop (nat off) (sent_bytes m) = drop (nat off) (out_hdr m) @ out_data m" using True assms by (simp add: sent_bytes_def k_def)
      then show ?thesis using l c by (simp add: take_append)
    qed
    then show ?thesis using True h b unfolding reliable_bytes_def Let_def k_def [symmetric] c_def [symmetric] by simp
  next
    case False
    have "copy_bytes (out_data m) (off - k) n = Some (take (nat n) (drop (nat (off - k)) (out_data m)))"
      using False assms by (intro copy_bytes_ok) (simp_all add: k_def out_size_def)
    moreover have "drop (nat off) (sent_bytes m) = drop (nat (off - k)) (out_data m)"
      using False by (simp add: sent_bytes_def k_def nat_diff_distrib')
    ultimately show ?thesis using False unfolding reliable_bytes_def Let_def k_def [symmetric] by simp
  qed
qed

subsection \<open>One segment\<close>

text \<open>The counters of a reliable segment that goes out.\<close>

definition charge :: "nat \<Rightarrow> int \<Rightarrow> SSNPSenderState \<Rightarrow> SSNPSenderState" where
  "charge i n s =
     (let s = upd_lane i (\<lambda>l. l\<lparr>lane_cbPendingReliable := lane_cbPendingReliable l - n,
            lane_cbSentUnackedReliable := lane_cbSentUnackedReliable l + n\<rparr>) s
      in s\<lparr>m_cbPendingReliable := m_cbPendingReliable s - n, m_cbSentUnackedReliable := m_cbSentUnackedReliable s + n\<rparr>)"

lemma charge_fields [simp]:
  "m_listSentReliableSegments (charge i n s) = m_listSentReliableSegments s" "segment_of (charge i n s) h = segment_of s h"
  "length (send_lanes (charge i n s)) = length (send_lanes s)" "map lane_core (send_lanes (charge i n s)) = map lane_core (send_lanes s)"
  "m_cbPendingReliable (charge i n s) = m_cbPendingReliable s - n" "m_cbSentUnackedReliable (charge i n s) = m_cbSentUnackedReliable s + n"
  "next_segment_handle (charge i n s) = next_segment_handle s"
  "m_listReadyRetryReliableRange (charge i n s) = m_listReadyRetryReliableRange s"
  "m_mapInFlightPacketsByPktNum (charge i n s) = m_mapInFlightPacketsByPktNum s"
  "m_itNextInFlightPacketToTimeout (charge i n s) = m_itNextInFlightPacketToTimeout s"
  "m_nMinPktWaitingOnAck (charge i n s) = m_nMinPktWaitingOnAck s"
  by (simp_all add: charge_def Let_def upd_lane_core)

lemma charge_lane:
  "j < length (send_lanes s) \<Longrightarrow> lane_cbPendingReliable (send_lanes (charge i n s) ! j) = lane_cbPendingReliable (send_lanes s ! j) - (if j = i then n else 0)"
  "j < length (send_lanes s) \<Longrightarrow> lane_cbSentUnackedReliable (send_lanes (charge i n s) ! j) = lane_cbSentUnackedReliable (send_lanes s ! j) + (if j = i then n else 0)"
  by (simp_all add: charge_def Let_def nth_upd_lane)

lemma charge_cong:
  "segs_ok (charge i n s) C A = segs_ok s C A" "refs_ok (charge i n s) P hs safe = refs_ok s P hs safe"
  "status_sum k u (charge i n s) = status_sum k u s" "msgs_ok (charge i n s) G = msgs_ok s G"
  by (simp_all add: segs_ok_cong [of "charge i n s" s] refs_ok_cong [of "charge i n s" s] status_sum_def
      sum_segs_cong [of "charge i n s" s] msgs_ok_def)

definition ser_step :: "(int \<times> SNPInFlightPacket) list \<Rightarrow> (nat \<Rightarrow> SendLane) \<Rightarrow> (nat \<Rightarrow> (int \<times> int) list) \<Rightarrow> (nat \<times> int \<times> int) set \<Rightarrow>
    nat list \<Rightarrow> SSNPSenderState \<Rightarrow> SNPEncodedSegment \<Rightarrow> SNPEncodedSegment list \<Rightarrow> nat list \<Rightarrow> SSNPSenderState \<Rightarrow> bool" where
  "ser_step P G C A hs s seg R hs' s' \<longleftrightarrow> ser_frame s s' \<and>
     ser_inv P G (\<lambda>i. C i @ new_ranges (filter (\<lambda>seg. e_lane seg = i) [seg])) A hs' s' R"

lemma seg_fits_frame:
  assumes "seg_fits s G seg" "length (send_lanes s') = length (send_lanes s)"
    "\<And>h. m_hRetryReliableSeg seg = Some h \<Longrightarrow> segment_of s' h = segment_of s h"
  shows "seg_fits s' G seg"
  using assms by (auto simp: seg_fits_def split: option.splits)

lemma in_retry_handles: "seg \<in> set R \<Longrightarrow> m_hRetryReliableSeg seg = Some h \<Longrightarrow> h \<in> set (retry_handles R)"
  by (force simp: retry_handles_def)

lemma ser_tiles:
  "(C j @ new_ranges (filter (\<lambda>seg. e_lane seg = j) [seg])) @ new_ranges (filter (\<lambda>seg. e_lane seg = j) R) =
    C j @ new_ranges (filter (\<lambda>seg. e_lane seg = j) (seg # R))"
  using segs_Cons(2) [of seg "filter (\<lambda>seg. e_lane seg = j) R"] by simp

lemma ser_new:
  assumes inv: "ser_inv P G C A hs s (seg # R)" and rel: "SNPSend_IsReliable (e_msg seg)" "m_hRetryReliableSeg seg = None"
    and rec: "record_segment seg s = Some (h, s1)"
  shows "ser_step P G C A hs s seg R (hs @ [h]) (charge (e_lane seg) (m_cbSegSize seg) s1)"
proof -
  define i n where "i = e_lane seg" and "n = m_cbSegSize seg"
  define x where "x = \<lparr>seg_lane = i, seg_msg = e_msg seg, m_nOffset = e_nOffset seg, m_cbSize = n, m_nRefCount = 1, m_hStatusOrRetry = k_nStatus_InFlight\<rparr>"
  have r: "h = next_segment_handle s" "m_listSentReliableSegments s1 = m_listSentReliableSegments s @ [(h, x)]" "next_segment_handle s1 = h + 1"
    "m_listReadyRetryReliableRange s1 = m_listReadyRetryReliableRange s" "send_lanes s1 = send_lanes s"
    "m_mapInFlightPacketsByPktNum s1 = m_mapInFlightPacketsByPktNum s" "m_itNextInFlightPacketToTimeout s1 = m_itNextInFlightPacketToTimeout s"
    "m_nMinPktWaitingOnAck s1 = m_nMinPktWaitingOnAck s" "m_cbPendingReliable s1 = m_cbPendingReliable s"
    "m_cbSentUnackedReliable s1 = m_cbSentUnackedReliable s"
    using rec rel(2) by (auto simp: record_segment_def Let_def x_def i_def n_def)
  have fits: "i < length (send_lanes s)" "e_msg seg \<in> set (reliable_queue (G i))" "0 \<le> e_nOffset seg" "0 < n"
    "e_nOffset seg + n \<le> out_size (e_msg seg)"
    using inv rel by (auto simp: ser_inv_def seg_fits_def i_def n_def)
  have I: "segs_ok s C A" "refs_ok s P hs (set hs)" "counts_with (pend (seg # R)) s" "msgs_ok s G" "distinct (hs @ retry_handles R)"
    "\<forall>seg' \<in> set R. seg_fits s G seg'"
    using inv rel(2) by (simp_all add: ser_inv_def segs_Cons(3) [of seg R] retry_handles_def [of "[seg]"])
  have nr: "new_ranges [seg] = [seg_range x]"
    using rel by (simp add: new_ranges_def new_segs_def enc_range_def seg_range_def seg_begin_def x_def n_def)
  have tl: "\<exists>e. tiles 1 (C i @ seg_range x # new_ranges (filter (\<lambda>seg. e_lane seg = i) R)) e"
  proof -
    have "\<exists>e. tiles 1 (C i @ new_ranges (filter (\<lambda>seg. e_lane seg = i) (seg # R))) e" using inv unfolding ser_inv_def by blast
    moreover have "new_ranges (filter (\<lambda>seg. e_lane seg = i) (seg # R)) = seg_range x # new_ranges (filter (\<lambda>seg. e_lane seg = i) R)"
      using segs_Cons(2) [of seg "filter (\<lambda>seg. e_lane seg = i) R"] by (simp add: i_def nr)
    ultimately show ?thesis by simp
  qed
  have fresh: "fst q \<noteq> seg_begin x" if "q \<in> set (C (seg_lane x))" for q
  proof -
    obtain e m where "tiles 1 (C i) m" "tiles m (seg_range x # new_ranges (filter (\<lambda>seg. e_lane seg = i) R)) e"
      using tl by (auto simp: tiles_append)
    then show ?thesis using tiles_begin [of 1 "C i" m q] that by (auto simp: seg_range_def x_def)
  qed
  have x: "m_hStatusOrRetry x = k_nStatus_InFlight" "0 < m_cbSize x" "seg_lane x < length (send_lanes s)"
    using fits by (simp_all add: x_def)
  have len: "length (send_lanes s1) = length (send_lanes s)" by (simp add: r(5))
  note new = new_segment_ok [OF I(1) r(1-4) len x fresh]
  define s' where "s' = charge i n s1"
  define C' where "C' = (\<lambda>j. C j @ new_ranges (filter (\<lambda>seg. e_lane seg = j) [seg]))"
  have C': "C' = C(seg_lane x := C (seg_lane x) @ [seg_range x])"
    using nr by (auto simp: C'_def x_def i_def fun_eq_iff)
  have seg': "segment_of s' k = (if k = h then Some x else segment_of s k)" for k using new(2) by (simp add: s'_def)
  have "h \<notin> set (m_vecReliableSegments (snd p))" if "p \<in> set P" for p
  proof
    assume "h \<in> set (m_vecReliableSegments (snd p))"
    then have "segment_of s h \<noteq> None" using I(2) that unfolding refs_ok_def by blast
    with new(1) show False by simp
  qed
  then have "holders P h = 0" by (auto simp: holders_def filter_empty_conv)
  moreover have "h \<notin> set hs"
  proof
    assume "h \<in> set hs"
    then have "segment_of s h \<noteq> None" using I(2) unfolding refs_ok_def by blast
    with new(1) show False by simp
  qed
  ultimately have notP: "holders P h = 0" "count_list hs h = 0" by (simp_all add: count_list_0_iff)
  have "refs_ok s' P (hs @ [h]) (insert h (set hs))"
    by (rule refs_ok_put [OF I(2) _ seg']) (simp add: notP x_def)
  moreover have "counts_with (pend R) s'"
  proof (rule counts_with_change [OF I(3), where dr = "\<lambda>_. 0" and df = "\<lambda>k. if sel k x then n else 0"])
    have pd: "pend R k - pend (seg # R) k = - (if sel k x then n else 0)" for k
      using rel by (simp add: pend_Cons [of seg R] pend_def [of "[seg]"] new_segs_def sel_def x_def i_def n_def split: option.split)
    show "status_sum k k_nStatus_Retry s' = status_sum k k_nStatus_Retry s + 0"
      "status_sum k k_nStatus_InFlight s' = status_sum k k_nStatus_InFlight s + (if sel k x then n else 0)" for k
      using new(4) [of k k_nStatus_Retry] new(4) [of k k_nStatus_InFlight] by (simp_all add: s'_def charge_cong x_def sel_def split: option.split)
    show "m_cbPendingReliable s' = m_cbPendingReliable s + 0 + (pend R None - pend (seg # R) None)"
      unfolding pd by (simp add: s'_def r sel_def)
    show "lane_cbPendingReliable (send_lanes s' ! j) = lane_cbPendingReliable (send_lanes s ! j) + 0 + (pend R (Some j) - pend (seg # R) (Some j))"
      "lane_cbSentUnackedReliable (send_lanes s' ! j) = lane_cbSentUnackedReliable (send_lanes s ! j) + (if sel (Some j) x then n else 0)"
      if "j < length (send_lanes s)" for j
      unfolding pd using that by (simp_all add: s'_def charge_lane r(5) sel_def x_def)
  qed (simp_all add: s'_def r sel_def)
  moreover have "msgs_ok s' G" using I(4) fits by (auto simp: msgs_ok_def seg' x_def)
  moreover have "h \<notin> set (hs @ retry_handles R)"
  proof
    assume "h \<in> set (hs @ retry_handles R)"
    then consider "h \<in> set hs" | sg where "sg \<in> set R" "m_hRetryReliableSeg sg = Some h"
      by (auto simp: retry_handles_def split: option.splits)
    then show False
    proof cases
      case 2
      then have "seg_fits s G sg" using I(6) by blast
      with 2 new(1) show False by (auto simp: seg_fits_def)
    qed (use I(2) new(1) in \<open>auto simp: refs_ok_def\<close>)
  qed
  then have "distinct ((hs @ [h]) @ retry_handles R)" "\<forall>sg \<in> set R. m_hRetryReliableSeg sg \<noteq> Some h" using I(5) in_retry_handles by auto
  moreover have "\<forall>sg \<in> set R. seg_fits s' G sg"
  proof
    fix sg assume sg: "sg \<in> set R"
    show "seg_fits s' G sg"
    proof (rule seg_fits_frame [of s])
      show "seg_fits s G sg" using I(6) sg by blast
      show "length (send_lanes s') = length (send_lanes s)" by (simp add: s'_def r(5))
      show "segment_of s' k = segment_of s k" if "m_hRetryReliableSeg sg = Some k" for k
        using \<open>\<forall>sg \<in> set R. m_hRetryReliableSeg sg \<noteq> Some h\<close> sg that by (auto simp: seg')
    qed
  qed
  moreover have "\<forall>j. \<exists>e. tiles 1 (C' j @ new_ranges (filter (\<lambda>seg. e_lane seg = j) R)) e"
    using inv ser_tiles [of C _ seg R] by (simp add: ser_inv_def C'_def)
  ultimately have "ser_inv P G C' A (hs @ [h]) s' R"
    using new(3) by (simp add: ser_inv_def C' s'_def charge_cong)
  moreover have "ser_frame s s'"
  proof -
    have "\<exists>y. segment_of s k = Some y \<and> seg_static y' = seg_static y" if "k < next_segment_handle s" "segment_of s' k = Some y'" for k y'
      using that by (simp add: seg' r(1))
    moreover have "map lane_core (send_lanes s') = map lane_core (send_lanes s)" by (simp add: s'_def r(5))
    ultimately show ?thesis using r by (auto simp: ser_frame_def s'_def)
  qed
  ultimately show ?thesis by (simp add: ser_step_def C'_def s'_def i_def n_def)
qed

lemma ser_retry:
  assumes inv: "ser_inv P G C A hs s (seg # R)" and h: "m_hRetryReliableSeg seg = Some h"
    and rec: "record_segment seg s = Some (h', s1)"
  shows "h' = h" "ser_step P G C A hs s seg R (hs @ [h]) (charge (e_lane seg) (m_cbSegSize seg) s1)"
proof -
  define i n where "i = e_lane seg" and "n = m_cbSegSize seg"
  obtain x where x: "segment_of s h = Some x" "m_hStatusOrRetry x = k_nStatus_Retry" "i = seg_lane x" "n = m_cbSize x" "i < length (send_lanes s)"
    using inv h by (auto simp: ser_inv_def seg_fits_def i_def n_def)
  define s0 where "s0 = RemoveReliableSegmentFromRetryList h k_nStatus_InFlight s"
  show "h' = h" using rec h x(1) by (simp add: record_segment_def)
  have s1: "s1 = upd_segment h (\<lambda>x. x\<lparr>m_nRefCount := m_nRefCount x + 1\<rparr>) s0"
    using rec \<open>h' = h\<close> h x(1) by (simp add: record_segment_def s0_def)
  have rh: "retry_handles (seg # R) = h # retry_handles R" using h segs_Cons(3) [of seg R] by (simp add: retry_handles_def)
  have I: "segs_ok s C A" "refs_ok s P hs (set hs)" "counts_with (pend (seg # R)) s" "msgs_ok s G" "distinct (hs @ h # retry_handles R)"
    "\<forall>seg' \<in> set R. seg_fits s G seg'"
    using inv rh by (simp_all add: ser_inv_def)
  note d = segs_okD [OF I(1)]
  have seg0: "m_listSentReliableSegments s0 = m_listSentReliableSegments (upd_segment h (set_status k_nStatus_InFlight) s)"
    by (simp add: s0_def RemoveFromRetry_list)
  have keep: "map lane_core (send_lanes s0) = map lane_core (send_lanes s)" "m_mapInFlightPacketsByPktNum s0 = m_mapInFlightPacketsByPktNum s"
    "m_itNextInFlightPacketToTimeout s0 = m_itNextInFlightPacketToTimeout s"
    "m_nMinPktWaitingOnAck s0 = m_nMinPktWaitingOnAck s" "next_segment_handle s0 = next_segment_handle s"
    by (simp_all add: s0_def)
  have rt: "distinct (m_listReadyRetryReliableRange s0)" "sorted_wrt (in_order s) (m_listReadyRetryReliableRange s0)"
    "set (m_listReadyRetryReliableRange s0) = set (m_listReadyRetryReliableRange s) - {h} \<union> (if k_nStatus_InFlight = k_nStatus_Retry then {h} else {})"
    using d(6,7) sorted_remove1 by (simp_all add: s0_def set_remove1_eq)
  have na: "k_nStatus_InFlight = k_nStatus_Acked \<Longrightarrow> (seg_lane x, seg_range x) \<in> A" by simp
  note st = status_change [OF I(1) x(1) seg0 keep rt na]
  note rc = refcount_change [OF st(2) s1]
  define s' where "s' = charge i n s1"
  define x' where "x' = (set_status k_nStatus_InFlight x)\<lparr>m_nRefCount := m_nRefCount x + 1\<rparr>"
  have seg': "segment_of s' k = (if k = h then Some x' else segment_of s k)" for k
    using st(3) [of k] x(1) by (auto simp: s'_def s1 x'_def)
  have "h \<notin> set hs" using I(5) by auto
  then have c0: "count_list hs h = 0" by (simp add: count_list_0_iff)
  have "int (holders P h + count_list hs h) \<le> m_nRefCount x" using I(2) x(1) unfolding refs_ok_def by blast
  then have "refs_ok s' P (hs @ [h]) (insert h (set hs))"
    using c0 by (intro refs_ok_put [OF I(2) _ seg']) (simp add: x'_def)
  moreover have "counts_with (pend R) s'"
  proof (rule counts_with_change [OF I(3), where dr = "\<lambda>k. if sel k x then - n else 0" and df = "\<lambda>k. if sel k x then n else 0"])
    have pd: "pend R k - pend (seg # R) k = 0" for k
      using h by (simp add: pend_Cons [of seg R] pend_def [of "[seg]"] new_segs_def)
    show "status_sum k k_nStatus_Retry s' = status_sum k k_nStatus_Retry s + (if sel k x then - n else 0)"
      "status_sum k k_nStatus_InFlight s' = status_sum k k_nStatus_InFlight s + (if sel k x then n else 0)" for k
      using st(4) [of k k_nStatus_Retry] st(4) [of k k_nStatus_InFlight] rc(2) x(2) by (simp_all add: s'_def charge_cong x(4))
    show "m_cbPendingReliable s' = m_cbPendingReliable s + (if sel None x then - n else 0) + (pend R None - pend (seg # R) None)"
      unfolding pd by (simp add: s'_def s1 s0_def sel_def)
    show "lane_cbPendingReliable (send_lanes s' ! j) = lane_cbPendingReliable (send_lanes s ! j) + (if sel (Some j) x then - n else 0) + (pend R (Some j) - pend (seg # R) (Some j))"
      "lane_cbSentUnackedReliable (send_lanes s' ! j) = lane_cbSentUnackedReliable (send_lanes s ! j) + (if sel (Some j) x then n else 0)"
      if "j < length (send_lanes s)" for j
      unfolding pd using that by (simp_all add: s'_def charge_lane s1 s0_def sel_def x(3))
  qed (simp_all add: s'_def s1 s0_def sel_def)
  moreover have "msgs_ok s' G"
    unfolding msgs_ok_def
  proof (intro allI impI)
    fix k y assume y: "segment_of s' k = Some y"
    then obtain z where "segment_of s k = Some z" "seg_static y = seg_static z"
      using x(1) by (cases "k = h") (auto simp: seg' x'_def)
    then show "seg_msg y \<in> set (reliable_queue (G (seg_lane y))) \<and> 0 \<le> m_nOffset y \<and> m_nOffset y + m_cbSize y \<le> out_size (seg_msg y)"
      using I(4) unfolding msgs_ok_def seg_static_eq by metis
  qed
  moreover have nh: "\<forall>sg \<in> set R. m_hRetryReliableSeg sg \<noteq> Some h" "distinct ((hs @ [h]) @ retry_handles R)" using I(5) in_retry_handles by auto
  moreover have "\<forall>sg \<in> set R. seg_fits s' G sg"
  proof
    fix sg assume sg: "sg \<in> set R"
    show "seg_fits s' G sg"
    proof (rule seg_fits_frame [of s])
      show "seg_fits s G sg" using I(6) sg by blast
      show "length (send_lanes s') = length (send_lanes s)" by (simp add: s'_def s1 s0_def)
      show "segment_of s' k = segment_of s k" if "m_hRetryReliableSeg sg = Some k" for k
        using nh(1) sg that by (auto simp: seg')
    qed
  qed
  moreover have "new_ranges (filter (\<lambda>seg. e_lane seg = j) [seg]) = []" for j using h by (simp add: new_ranges_def new_segs_def)
  moreover have "\<forall>j. \<exists>e. tiles 1 ((C j @ new_ranges (filter (\<lambda>seg. e_lane seg = j) [seg])) @ new_ranges (filter (\<lambda>seg. e_lane seg = j) R)) e"
    using inv unfolding ser_tiles ser_inv_def by blast
  moreover have "segs_ok s' C A" using rc(1) by (simp add: s'_def charge_cong)
  ultimately have "ser_inv P G (\<lambda>j. C j @ new_ranges (filter (\<lambda>seg. e_lane seg = j) [seg])) A (hs @ [h]) s' R"
    unfolding ser_inv_def by simp
  moreover have "ser_frame s s'"
    using x(1) by (auto simp: ser_frame_def seg' x'_def split: if_splits) (simp_all add: s'_def s1 s0_def)
  ultimately show "ser_step P G C A hs s seg R (hs @ [h]) (charge (e_lane seg) (m_cbSegSize seg) s1)"
    by (simp add: ser_step_def s'_def i_def n_def)
qed

lemma ser_unreliable:
  assumes inv: "ser_inv P G C A hs s (seg # R)" and rel: "\<not> SNPSend_IsReliable (e_msg seg)"
    and s': "s' = (upd_lane (e_lane seg) (\<lambda>l. l\<lparr>lane_cbPendingUnreliable := lane_cbPendingUnreliable l - n\<rparr>) s)\<lparr>m_cbPendingUnreliable := k\<rparr>"
  shows "ser_step P G C A hs s seg R hs s'" "m_hRetryReliableSeg seg = None"
proof -
  have fits: "seg_fits s G seg" and I: "segs_ok s C A" "refs_ok s P hs (set hs)" "counts_with (pend (seg # R)) s" "msgs_ok s G"
    "distinct (hs @ retry_handles (seg # R))" "\<forall>seg' \<in> set R. seg_fits s G seg'"
    using inv by (simp_all add: ser_inv_def)
  show nn: "m_hRetryReliableSeg seg = None"
  proof (rule ccontr)
    assume "m_hRetryReliableSeg seg \<noteq> None"
    then obtain h x where "segment_of s h = Some x" "e_msg seg = seg_msg x" using fits by (auto simp: seg_fits_def)
    then have "e_msg seg \<in> set (reliable_queue (G (seg_lane x)))" using I(4) by (auto simp: msgs_ok_def)
    with rel show False by (simp add: reliable_queue_eq)
  qed
  have none_new: "retry_handles (seg # R) = retry_handles R" "pend (seg # R) = pend R" "\<And>j. new_ranges (filter (\<lambda>seg. e_lane seg = j) [seg]) = []"
    using rel nn segs_Cons(3) [of seg R] pend_Cons [of seg R]
    by (simp_all add: retry_handles_def fun_eq_iff pend_def [of "[seg]"] new_segs_def new_ranges_def)
  have seg: "m_listSentReliableSegments s' = m_listSentReliableSegments s" and len: "length (send_lanes s') = length (send_lanes s)"
    and more: "next_segment_handle s' = next_segment_handle s" "m_listReadyRetryReliableRange s' = m_listReadyRetryReliableRange s"
      "m_mapInFlightPacketsByPktNum s' = m_mapInFlightPacketsByPktNum s"
      "m_itNextInFlightPacketToTimeout s' = m_itNextInFlightPacketToTimeout s" "m_nMinPktWaitingOnAck s' = m_nMinPktWaitingOnAck s"
      "m_cbPendingReliable s' = m_cbPendingReliable s" "m_cbSentUnackedReliable s' = m_cbSentUnackedReliable s"
    by (simp_all add: s')
  have seg': "segment_of s' h = segment_of s h" for h by (rule segment_of_cong [OF seg])
  have core: "map lane_core (send_lanes s') = map lane_core (send_lanes s)" unfolding s' by (simp add: upd_lane_core)
  have "segs_ok s' C A" using I(1) segs_ok_cong [OF seg len more(1,2)] by simp
  moreover have "refs_ok s' P hs (set hs)" using I(2) refs_ok_cong [OF seg] by simp
  moreover have c: "counts_with (pend R) s" using I(3) none_new(2) by simp
  have "counts_with (pend R) s'"
  proof (rule counts_with_change [OF c core, where dr = "\<lambda>_. 0" and df = "\<lambda>_. 0"])
    show "lane_cbPendingReliable (send_lanes s' ! j) = lane_cbPendingReliable (send_lanes s ! j) + 0 + (pend R (Some j) - pend R (Some j))"
      "lane_cbSentUnackedReliable (send_lanes s' ! j) = lane_cbSentUnackedReliable (send_lanes s ! j) + 0" if "j < length (send_lanes s)" for j
      using that by (simp_all add: s' nth_upd_lane)
  qed (simp_all add: status_sum_def sum_segs_cong [OF seg] more)
  moreover have "msgs_ok s' G" using I(4) by (simp add: msgs_ok_def seg')
  moreover have "\<forall>sg \<in> set R. seg_fits s' G sg" using I(6) seg_fits_frame [OF _ len seg'] by blast
  moreover have "\<forall>j. \<exists>e. tiles 1 ((C j @ new_ranges (filter (\<lambda>seg. e_lane seg = j) [seg])) @ new_ranges (filter (\<lambda>seg. e_lane seg = j) R)) e"
    using inv unfolding ser_tiles ser_inv_def by blast
  ultimately have "ser_inv P G (\<lambda>j. C j @ new_ranges (filter (\<lambda>seg. e_lane seg = j) [seg])) A hs s' R"
    using I(5) none_new by (simp add: ser_inv_def)
  moreover have "ser_frame s s'" using core more by (auto simp: ser_frame_def seg')
  ultimately show "ser_step P G C A hs s seg R hs s'" by (simp add: ser_step_def)
qed

text \<open>The serialization of a segment never fails, and it puts at least one byte into the packet.\<close>

lemma length_reliable_bytes:
  assumes "0 \<le> off" "0 < n" "off + n \<le> out_size m"
  shows "\<exists>bs. reliable_bytes m off n = Some bs \<and> bs \<noteq> []"
proof -
  have "int (length (take (nat n) (drop (nat off) (sent_bytes m)))) = n"
    using assms by (simp add: out_size_eq)
  then show ?thesis using reliable_bytes_ok [of off n m] assms by (intro exI [of _ "take (nat n) (drop (nat off) (sent_bytes m))"]) auto
qed

lemma ser_inv_cong:
  assumes "ser_inv P G C A hs s (seg_core seg # R)"
  shows "ser_inv P G C A hs s (seg # R)"
proof -
  have e: "new_segs [seg_core seg] = (if new_segs [seg] = [] then [] else [seg_core seg])" by (simp add: new_segs_def)
  have r: "new_ranges (filter (\<lambda>seg. e_lane seg = i) (seg_core seg # R)) = new_ranges (filter (\<lambda>seg. e_lane seg = i) (seg # R))" for i
    using segs_Cons(2) [of seg "filter (\<lambda>seg. e_lane seg = i) R"] segs_Cons(2) [of "seg_core seg" "filter (\<lambda>seg. e_lane seg = i) R"]
    by (simp add: new_ranges_def [of "[seg]"] new_ranges_def [of "[seg_core seg]"] new_segs_def [of "[seg]"] new_segs_def [of "[seg_core seg]"] enc_range_def)
  have h: "retry_handles (seg_core seg # R) = retry_handles (seg # R)" by (simp add: retry_handles_def)
  have p: "pend (seg_core seg # R) = pend (seg # R)"
    by (simp add: fun_eq_iff pend_Cons [of "seg_core seg" R] pend_Cons [of seg R] pend_def [of "[seg]"] pend_def [of "[seg_core seg]"]
        new_segs_def [of "[seg]"] new_segs_def [of "[seg_core seg]"] split: option.split)
  have f: "seg_fits s G (seg_core seg) = seg_fits s G seg" unfolding seg_fits_def seg_core_fields by (rule refl)
  have "(\<forall>sg \<in> set (seg_core seg # R). seg_fits s G sg) = (\<forall>sg \<in> set (seg # R). seg_fits s G sg)" by (simp add: f)
  then show ?thesis using assms unfolding ser_inv_def r h p by blast
qed

lemma SerializeSegment_ok:
  assumes "ser_inv P G C A hs s (seg_core seg # R)"
  shows "\<exists>bs hs' s'. SerializeSegment bLast seg (hs, s) = Some (bs, hs', s') \<and> ser_step P G C A hs s seg R hs' s' \<and> (bs = [] \<longrightarrow> hs' = hs)"
proof -
  note inv = ser_inv_cong [OF assms]
  have fits: "seg_fits s G seg" and mo: "msgs_ok s G" using inv by (simp_all add: ser_inv_def)
  show ?thesis
  proof (cases "SNPSend_IsReliable (e_msg seg)")
    case True
    have b: "0 \<le> e_nOffset seg" "0 < m_cbSegSize seg" "e_nOffset seg + m_cbSegSize seg \<le> out_size (e_msg seg)"
    proof -
      have "0 \<le> e_nOffset seg \<and> 0 < m_cbSegSize seg \<and> e_nOffset seg + m_cbSegSize seg \<le> out_size (e_msg seg)"
      proof (cases "m_hRetryReliableSeg seg")
        case None
        then show ?thesis using fits True by (simp add: seg_fits_def)
      next
        case (Some h)
        then obtain x where x: "segment_of s h = Some x" "e_msg seg = seg_msg x" "e_nOffset seg = m_nOffset x" "m_cbSegSize seg = m_cbSize x"
          using fits by (auto simp: seg_fits_def)
        have "0 < m_cbSize x" using inv segs_okD(3) [OF _ x(1)] by (auto simp: ser_inv_def)
        with x mo show ?thesis by (auto simp: msgs_ok_def)
      qed
      then show "0 \<le> e_nOffset seg" "0 < m_cbSegSize seg" "e_nOffset seg + m_cbSegSize seg \<le> out_size (e_msg seg)" by blast+
    qed
    obtain bytes where bytes: "reliable_bytes (e_msg seg) (e_nOffset seg) (m_cbSegSize seg) = Some bytes" "bytes \<noteq> []"
      using length_reliable_bytes [OF b] by blast
    obtain h s1 where rec: "record_segment seg s = Some (h, s1)"
      using fits by (auto simp: record_segment_def seg_fits_def Let_def split: option.splits)
    have "ser_step P G C A hs s seg R (hs @ [h]) (charge (e_lane seg) (m_cbSegSize seg) s1)"
    proof (cases "m_hRetryReliableSeg seg")
      case None
      show ?thesis by (rule ser_new [OF inv True None rec])
    next
      case (Some h')
      then show ?thesis using ser_retry [OF inv Some rec] by simp
    qed
    moreover have "SerializeSegment bLast seg (hs, s) = Some (sized_hdr bLast seg @ bytes, hs @ [h], charge (e_lane seg) (m_cbSegSize seg) s1)"
      using True bytes(1) rec by (simp add: SerializeSegment_def Let_def charge_def)
    ultimately show ?thesis using bytes(2) by auto
  next
    case False
    define s' where "s' = (upd_lane (e_lane seg) (\<lambda>l. l\<lparr>lane_cbPendingUnreliable := lane_cbPendingUnreliable l - m_cbSegSize seg\<rparr>) s)
      \<lparr>m_cbPendingUnreliable := m_cbPendingUnreliable s - m_cbSegSize seg\<rparr>"
    note st = ser_unreliable [OF inv False s'_def]
    have "0 \<le> e_nOffset seg \<and> 0 \<le> m_cbSegSize seg \<and> e_nOffset seg + m_cbSegSize seg \<le> int (length (out_data (e_msg seg)))"
      using fits False st(2) by (simp add: seg_fits_def)
    then obtain bytes where "copy_bytes (out_data (e_msg seg)) (e_nOffset seg) (m_cbSegSize seg) = Some bytes" using copy_bytes_ok by blast
    then have "SerializeSegment bLast seg (hs, s) = Some (sized_hdr bLast seg @ bytes, hs, s')"
      using False by (simp add: SerializeSegment_def Let_def s'_def)
    with st(1) show ?thesis by blast
  qed
qed

subsection \<open>All segments\<close>

lemma ranges_append: "filter (\<lambda>seg. e_lane seg = i) (xs @ ys) = filter (\<lambda>seg. e_lane seg = i) xs @ filter (\<lambda>seg. e_lane seg = i) ys"
  by simp

lemma SerializeSegmentArray_ok:
  assumes "ser_inv P G C A hs s (map seg_core segs @ R)"
  shows "\<exists>bs hs' s'. SNP_SerializeSegmentArray bLast segs (hs, s) = Some (bs, hs', s') \<and> ser_frame s s' \<and>
    ser_inv P G (\<lambda>i. C i @ new_ranges (filter (\<lambda>seg. e_lane seg = i) segs)) A hs' s' R \<and> (bs = [] \<longrightarrow> hs' = hs)"
  using assms
proof (induction segs arbitrary: C hs s)
  case (Cons seg segs)
  define C1 where "C1 = (\<lambda>i. C i @ new_ranges (filter (\<lambda>seg. e_lane seg = i) [seg]))"
  have "ser_inv P G C A hs s (seg_core seg # (map seg_core segs @ R))" using Cons.prems by simp
  from SerializeSegment_ok [OF this, of "bLast \<and> segs = []"] obtain bs hs1 s1 where
    s1: "SerializeSegment (bLast \<and> segs = []) seg (hs, s) = Some (bs, hs1, s1)" "ser_frame s s1"
      "ser_inv P G C1 A hs1 s1 (map seg_core segs @ R)" "bs = [] \<longrightarrow> hs1 = hs"
    unfolding ser_step_def C1_def by blast
  obtain bs' hs2 s2 where s2: "SNP_SerializeSegmentArray bLast segs (hs1, s1) = Some (bs', hs2, s2)" "ser_frame s1 s2"
    "ser_inv P G (\<lambda>i. C1 i @ new_ranges (filter (\<lambda>seg. e_lane seg = i) segs)) A hs2 s2 R" "bs' = [] \<longrightarrow> hs2 = hs1"
    using Cons.IH [OF s1(3)] by blast
  have "(\<lambda>i. C1 i @ new_ranges (filter (\<lambda>seg. e_lane seg = i) segs)) = (\<lambda>i. C i @ new_ranges (filter (\<lambda>seg. e_lane seg = i) (seg # segs)))"
    using ser_tiles [of C _ seg segs] by (simp add: C1_def fun_eq_iff)
  with s1 s2 ser_frame_trans [OF s1(2) s2(2)] show ?case by simp
qed simp

lemma serialize_lanes_ok:
  assumes "ser_inv P G C A hs s (map seg_core (all_segs ls))"
  shows "\<exists>bs hs' s'. serialize_lanes ls (hs, s) = Some (bs, hs', s') \<and> ser_frame s s' \<and>
    ser_inv P G (\<lambda>i. C i @ new_ranges (filter (\<lambda>seg. e_lane seg = i) (all_segs ls))) A hs' s' [] \<and> (bs = [] \<longrightarrow> hs' = hs)"
  using assms
proof (induction ls arbitrary: C hs s)
  case (Cons l ls)
  define C1 where "C1 = (\<lambda>i. C i @ new_ranges (filter (\<lambda>seg. e_lane seg = i) (m_vecSegments l)))"
  have "ser_inv P G C A hs s (map seg_core (m_vecSegments l) @ map seg_core (all_segs ls))" using Cons.prems by (simp add: all_segs_def)
  from SerializeSegmentArray_ok [OF this, of "ls = []"] obtain bs hs1 s1 where
    s1: "SNP_SerializeSegmentArray (ls = []) (m_vecSegments l) (hs, s) = Some (bs, hs1, s1)" "ser_frame s s1"
      "ser_inv P G C1 A hs1 s1 (map seg_core (all_segs ls))" "bs = [] \<longrightarrow> hs1 = hs"
    unfolding C1_def by blast
  obtain bs' hs2 s2 where s2: "serialize_lanes ls (hs1, s1) = Some (bs', hs2, s2)" "ser_frame s1 s2"
    "ser_inv P G (\<lambda>i. C1 i @ new_ranges (filter (\<lambda>seg. e_lane seg = i) (all_segs ls))) A hs2 s2 []" "bs' = [] \<longrightarrow> hs2 = hs1"
    using Cons.IH [OF s1(3)] by blast
  have "(\<lambda>i. C1 i @ new_ranges (filter (\<lambda>seg. e_lane seg = i) (all_segs ls))) =
      (\<lambda>i. C i @ new_ranges (filter (\<lambda>seg. e_lane seg = i) (all_segs (l # ls))))"
    by (simp add: C1_def all_segs_def)
  with s1 s2 ser_frame_trans [OF s1(2) s2(2)] show ?case by simp
qed (simp add: all_segs_def)

end
