(* ===== verification/SnpSenderRun.thy ===== *)
theory SnpSenderRun
  imports SnpSerialInv
begin

text \<open>
  The sender as a state machine: messages are queued, packets are sent or fail to be sent, acks arrive and packets time
  out, in any order.
\<close>

subsection \<open>Invariant\<close>

definition sender_inv :: "SSNPSenderState \<Rightarrow> (nat \<Rightarrow> SendLane) \<Rightarrow> (nat \<Rightarrow> (int \<times> int) list) \<Rightarrow> (nat \<times> int \<times> int) set \<Rightarrow> bool" where
  "sender_inv s G C A \<longleftrightarrow> table_ok s C A \<and> msgs_ok s G \<and> 0 \<le> m_nMinPktWaitingOnAck s \<and>
     (\<forall>i < length (send_lanes s). lane_ok (send_lanes s ! i) (G i) \<and> tiles 1 (C i) (lane_sent (send_lanes s ! i))) \<and>
     (\<forall>i \<ge> length (send_lanes s). C i = [])"

lemma map_core_nth:
  assumes "map lane_core ls = map lane_core ls'" "i < length ls'"
  shows "lane_core (ls ! i) = lane_core (ls' ! i)" "length ls = length ls'"
proof -
  show len: "length ls = length ls'" using assms(1) by (rule map_eq_imp_length_eq)
  show "lane_core (ls ! i) = lane_core (ls' ! i)" using assms len by (metis nth_map)
qed

text \<open>Acks and timeouts.\<close>

lemma sender_inv_frame:
  assumes inv: "sender_inv s G C A" and fr: "pkt_frame s s'" and t: "table_ok s' C A'"
  shows "sender_inv s' G C A'"
proof -
  have core: "map lane_core (send_lanes s') = map lane_core (send_lanes s)" using fr by (simp add: pkt_frame_def)
  then have len: "length (send_lanes s') = length (send_lanes s)" by (rule map_eq_imp_length_eq)
  have "lane_ok (send_lanes s' ! i) (G i) \<and> tiles 1 (C i) (lane_sent (send_lanes s' ! i))" if "i < length (send_lanes s)" for i
    using inv that lane_core_fields [OF map_core_nth(1) [OF core that]] by (simp add: sender_inv_def)
  moreover have "msgs_ok s' G"
    unfolding msgs_ok_def
  proof (intro allI impI)
    fix h y assume "segment_of s' h = Some y"
    then obtain z where "segment_of s h = Some z" "seg_static y = seg_static z" using fr unfolding pkt_frame_def by blast
    then show "seg_msg y \<in> set (reliable_queue (G (seg_lane y))) \<and> 0 \<le> m_nOffset y \<and> m_nOffset y + m_cbSize y \<le> out_size (seg_msg y)"
      using inv unfolding sender_inv_def msgs_ok_def seg_static_eq by metis
  qed
  ultimately show ?thesis using inv t fr len by (simp add: sender_inv_def pkt_frame_def)
qed

subsection \<open>A packet\<close>

lemma empty_collector [simp]: "lane_segs \<lparr>m_cbRemainingForSegments = cb, collector_lanes = []\<rparr> i = []"
  "coll_ok \<lparr>m_cbRemainingForSegments = cb, collector_lanes = []\<rparr>"
  by (simp_all add: lane_segs_def coll_ok_def)

lemma coll_inv_start:
  assumes "sender_inv s G C A"
  shows "coll_inv s G s \<lparr>m_cbRemainingForSegments = cb, collector_lanes = []\<rparr>"
  using assms by (simp add: coll_inv_def sender_inv_def same_tables_def)

lemma collect_segments_ok:
  assumes inv: "sender_inv s G C A" and n: "0 < n" and c: "collect_segments cb n pick s = Some (s1, c)"
  shows "coll_inv s G s1 c"
proof -
  have so: "segs_ok s C A" "msgs_ok s G" using inv by (simp_all add: sender_inv_def table_ok_def)
  note d = segs_okD [OF so(1)]
  obtain dn c1 where r: "collect_retries s (m_listReadyRetryReliableRange s) \<lparr>m_cbRemainingForSegments = cb, collector_lanes = []\<rparr> = Some (dn, c1)"
    "coll_inv s G s c1"
  proof -
    have "\<exists>x. segment_of s h = Some x \<and> m_hStatusOrRetry x = k_nStatus_Retry" if "h \<in> set (m_listReadyRetryReliableRange s)" for h
      using d(5) that by blast
    then have "\<exists>dn c1. collect_retries s (m_listReadyRetryReliableRange s) \<lparr>m_cbRemainingForSegments = cb, collector_lanes = []\<rparr> = Some (dn, c1) \<and>
        coll_inv s G s c1"
      by (intro collect_retries_ok [OF coll_inv_start [OF inv] _ d(6) _ so(2)]) (simp_all add: d(2))
    then show ?thesis by (elim exE conjE) (rule that)
  qed
  show ?thesis
  proof (cases dn)
    case True
    then show ?thesis using c r by (simp add: collect_segments_def)
  next
    case False
    then show ?thesis using c r n by (auto simp: collect_segments_def intro: collect_messages_ok)
  qed
qed

lemma tiles_length: "tiles p rs e \<Longrightarrow> e - p = sum_list (map (\<lambda>r. snd r - fst r) rs)"
  by (induction p rs e rule: tiles.induct) auto

lemma pend_tiles:
  assumes "tiles p (new_ranges (filter (\<lambda>seg. e_lane seg = i) R)) e"
  shows "pend R (Some i) = e - p"
proof -
  have "filter (\<lambda>seg. e_lane seg = i) (new_segs R) = new_segs (filter (\<lambda>seg. e_lane seg = i) R)"
    by (auto simp: new_segs_def intro: filter_cong)
  then have "pend R (Some i) = sum_list (map (\<lambda>r. snd r - fst r) (new_ranges (filter (\<lambda>seg. e_lane seg = i) R)))"
    by (simp add: pend_def new_ranges_def enc_range_def o_def)
  then show ?thesis using tiles_length [OF assms] by simp
qed

lemma pend_None:
  assumes "\<forall>seg \<in> set R. e_lane seg < n"
  shows "pend R None = (\<Sum>i<n. pend R (Some i))"
  using assms
proof (induction R)
  case (Cons x R)
  have "(\<Sum>i<n. pend [x] (Some i)) = (\<Sum>i<n. if i = e_lane x then pend [x] None else 0)"
    by (intro sum.cong) (auto simp: pend_def new_segs_def)
  also have "\<dots> = pend [x] None" using Cons.prems by simp
  finally have one: "(\<Sum>i<n. pend [x] (Some i)) = pend [x] None" .
  have "(\<Sum>i<n. pend (x # R) (Some i)) = (\<Sum>i<n. pend [x] (Some i) + pend R (Some i))"
    by (intro sum.cong refl) (rule pend_Cons)
  also have "\<dots> = pend [x] None + pend R None" using Cons one by (simp add: sum.distrib)
  also have "\<dots> = pend (x # R) None" by (rule pend_Cons [symmetric])
  finally show ?case by simp
qed simp

lemma ranges_core: "new_ranges (map seg_core xs) = new_ranges xs"
proof (induction xs)
  case (Cons x xs)
  have "new_ranges [seg_core x] = new_ranges [x]" by (simp add: new_ranges_def new_segs_def enc_range_def)
  then show ?case using Cons segs_Cons(2) [of x xs] segs_Cons(2) [of "seg_core x" "map seg_core xs"] by simp
qed simp

lemma filter_core: "filter (\<lambda>seg. e_lane seg = i) (map seg_core xs) = map seg_core (filter (\<lambda>seg. e_lane seg = i) xs)"
  by (induction xs) simp_all

lemma distinct_retries:
  assumes "\<forall>i. distinct (retry_handles (filter (\<lambda>seg. e_lane seg = i) R))" "\<forall>seg \<in> set R. seg_fits s G seg"
  shows "distinct (retry_handles R)"
  using assms
proof (induction R)
  case (Cons x R)
  have r: "retry_handles (x # R) = retry_handles [x] @ retry_handles R" by (rule segs_Cons(3))
  have 1: "\<forall>i. distinct (retry_handles (filter (\<lambda>seg. e_lane seg = i) R))"
  proof
    fix i
    have "distinct (retry_handles (filter (\<lambda>seg. e_lane seg = i) (x # R)))" using Cons.prems(1) by blast
    then show "distinct (retry_handles (filter (\<lambda>seg. e_lane seg = i) R))"
      using segs_Cons(3) [of x "filter (\<lambda>seg. e_lane seg = i) R"] by (simp split: if_splits)
  qed
  have "h \<notin> set (retry_handles R)" if h: "m_hRetryReliableSeg x = Some h" for h
  proof
    assume "h \<in> set (retry_handles R)"
    then obtain y where y: "y \<in> set R" "m_hRetryReliableSeg y = Some h" by (auto simp: retry_handles_def split: option.splits)
    then have "e_lane x = e_lane y" using h Cons.prems(2) by (auto simp: seg_fits_def)
    then have "h \<in> set (retry_handles (filter (\<lambda>seg. e_lane seg = e_lane x) R))" using y by (intro in_retry_handles [of y]) auto
    moreover have "distinct (h # retry_handles (filter (\<lambda>seg. e_lane seg = e_lane x) R))"
      using Cons.prems(1) h segs_Cons(3) [of x "filter (\<lambda>seg. e_lane seg = e_lane x) R"]
      by (auto simp: retry_handles_def [of "[x]"] dest!: spec [of _ "e_lane x"])
    ultimately show False by simp
  qed
  then show ?case using Cons 1 r by (auto simp: retry_handles_def [of "[x]"] split: option.splits)
qed simp

text \<open>The collected segments are ready to be written.\<close>

lemma ser_start:
  assumes inv: "sender_inv s G C A" and coll: "coll_inv s G s1 c"
  shows "ser_inv (m_mapInFlightPacketsByPktNum s) G C A [] s1 (map seg_core (all_segs (ordered_lanes c)))"
proof -
  define R where "R = map seg_core (all_segs (ordered_lanes c))"
  have ok: "coll_ok c" and st: "same_tables s s1" using coll by (simp_all add: coll_inv_def)
  note eq = same_tablesD [OF st]
  have R: "filter (\<lambda>seg. e_lane seg = i) R = lane_segs c i" for i using segs_of_lane [OF ok] by (simp add: R_def)
  have inR: "seg \<in> set (lane_segs c (e_lane seg))" if "seg \<in> set R" for seg
    using that unfolding R [symmetric] by simp
  have fits: "\<forall>seg \<in> set R. seg_fits s G seg" using coll inR by (auto simp: coll_inv_def)
  have lt: "\<forall>seg \<in> set R. e_lane seg < length (send_lanes s)" using fits by (simp add: seg_fits_def)
  have t: "segs_ok s C A" "refs_ok s (m_mapInFlightPacketsByPktNum s) [] {}" "counts_ok s" "msgs_ok s G"
    using inv by (simp_all add: sender_inv_def table_ok_def)
  have L: "lane_ok (send_lanes s ! i) (G i)" "lane_ok (send_lanes s1 ! i) (G i)"
    "tiles (lane_sent (send_lanes s ! i)) (new_ranges (lane_segs c i)) (lane_sent (send_lanes s1 ! i))"
    if "i < length (send_lanes s)" for i
    using inv coll that by (simp_all add: sender_inv_def coll_inv_def)
  have pend: "pend R (Some i) = lane_pending (send_lanes s ! i) - lane_pending (send_lanes s1 ! i)" if "i < length (send_lanes s)" for i
  proof -
    have "tiles (lane_sent (send_lanes s ! i)) (new_ranges (filter (\<lambda>seg. e_lane seg = i) R)) (lane_sent (send_lanes s1 ! i))"
      using L(3) [OF that] by (simp add: R)
    from pend_tiles [OF this] show ?thesis using L(1,2) [OF that] by (simp add: lane_sent_def lane_ok_def)
  qed
  have sums: "status_sum k u s1 = status_sum k u s" for k u by (simp add: status_sum_def sum_segs_cong [OF eq(1)])
  have cnt: "lane_counts (send_lanes s1 ! i) = lane_counts (send_lanes s ! i)" if "i < length (send_lanes s)" for i
    using st that eq(10) by (simp add: same_tables_def) (metis nth_map)
  have total: "pend R None = sum_list (map lane_pending (send_lanes s)) - sum_list (map lane_pending (send_lanes s1))"
  proof -
    have "pend R None = (\<Sum>i<length (send_lanes s). lane_pending (send_lanes s ! i) - lane_pending (send_lanes s1 ! i))"
      unfolding pend_None [OF lt] by (intro sum.cong) (simp_all add: pend)
    then show ?thesis using eq(10) by (simp add: sum_list_sum_nth atLeast0LessThan sum_subtractf)
  qed
  have "counts_with (pend R) s1"
    using t(3) total pend cnt unfolding counts_ok_with counts_with_def sums eq(3,4,10) by (auto simp: lane_counts_def)
  moreover have "segs_ok s1 C A" using t(1) segs_ok_cong [OF eq(1,10,5,6)] by simp
  moreover have "refs_ok s1 (m_mapInFlightPacketsByPktNum s) [] (set [])" using t(2) refs_ok_cong [OF eq(1)] by simp
  moreover have "msgs_ok s1 G" using t(4) by (simp add: msgs_ok_def eq(2))
  moreover have "distinct ([] @ retry_handles R)"
  proof -
    have "\<forall>i. distinct (retry_handles (filter (\<lambda>seg. e_lane seg = i) R))" using coll by (simp add: R coll_inv_def)
    then show ?thesis using distinct_retries [OF _ fits] by simp
  qed
  moreover have "\<forall>seg \<in> set R. seg_fits s1 G seg" using fits seg_fits_frame [OF _ eq(10,2)] by blast
  moreover have "\<exists>e. tiles 1 (C i @ new_ranges (filter (\<lambda>seg. e_lane seg = i) R)) e" for i
  proof (cases "i < length (send_lanes s)")
    case True
    then have "tiles 1 (C i) (lane_sent (send_lanes s ! i))" using inv by (simp add: sender_inv_def)
    then show ?thesis using L(3) [OF True] unfolding R tiles_append by blast
  next
    case False
    then have "filter (\<lambda>seg. e_lane seg = i) R = []" "C i = []" using lt inv by (auto simp: filter_empty_conv sender_inv_def)
    then show ?thesis by simp
  qed
  ultimately show ?thesis by (simp add: ser_inv_def R_def [symmetric])
qed

text \<open>What sending leaves alone, apart from the queues.\<close>

definition send_frame :: "SSNPSenderState \<Rightarrow> SSNPSenderState \<Rightarrow> bool" where
  "send_frame s s' \<longleftrightarrow> length (send_lanes s') = length (send_lanes s) \<and> next_segment_handle s \<le> next_segment_handle s' \<and>
     (\<forall>h x'. h < next_segment_handle s \<and> segment_of s' h = Some x' \<longrightarrow> (\<exists>x. segment_of s h = Some x \<and> seg_static x' = seg_static x))"

lemma refs_ok_sent:
  assumes "refs_ok s P hs (set hs)" "distinct hs"
  shows "refs_ok s (P @ [(n, \<lparr>m_usecWhenSent = t, m_bNack = False, m_vecReliableSegments = hs\<rparr>)]) [] {}"
  unfolding refs_ok_def
proof (intro conjI allI impI)
  fix h x assume x: "segment_of s h = Some x"
  have r: "int (holders P h + count_list hs h) \<le> m_nRefCount x" "m_hStatusOrRetry x \<noteq> k_nStatus_Retry \<longrightarrow> 0 < m_nRefCount x"
    "m_hStatusOrRetry x = k_nStatus_InFlight \<longrightarrow> (\<exists>p \<in> set P. \<not> m_bNack (snd p) \<and> h \<in> set (m_vecReliableSegments (snd p))) \<or> h \<in> set hs"
    using assms(1) x unfolding refs_ok_def by blast+
  show "int (holders (P @ [(n, \<lparr>m_usecWhenSent = t, m_bNack = False, m_vecReliableSegments = hs\<rparr>)]) h + count_list [] h) \<le> m_nRefCount x"
    using r(1) assms(2) by (simp add: holders_def count_list_distinct split: if_splits)
  show "m_hStatusOrRetry x \<noteq> k_nStatus_Retry \<Longrightarrow> 0 < m_nRefCount x" using r(2) by blast
  show "(\<exists>p \<in> set (P @ [(n, \<lparr>m_usecWhenSent = t, m_bNack = False, m_vecReliableSegments = hs\<rparr>)]).
      \<not> m_bNack (snd p) \<and> h \<in> set (m_vecReliableSegments (snd p))) \<or> h \<in> {}"
    if "m_hStatusOrRetry x = k_nStatus_InFlight" using r(3) that by auto
qed (use assms(1) in \<open>auto simp: refs_ok_def\<close>)

lemma pkts_ok_append:
  assumes "pkts_ok it P" "\<forall>p \<in> set P. fst p < n \<and> m_usecWhenSent (snd p) \<le> m_usecWhenSent pkt" "distinct (m_vecReliableSegments pkt)"
    "\<not> m_bNack pkt"
  shows "pkts_ok (if it = None then Some n else it) (P @ [(n, pkt)])"
proof -
  obtain p0 ps where P: "P = p0 # ps" using assms(1) by (cases P) (auto simp: pkts_ok_def)
  have d: "fst p0 = INT64_MIN" "m_vecReliableSegments (snd p0) = []" "sorted_wrt pkt_less P"
    "\<forall>p \<in> set P. distinct (m_vecReliableSegments (snd p))" "\<forall>p \<in> set ps. before it (fst p) \<longrightarrow> m_bNack (snd p)"
    "\<And>m. it = Some m \<Longrightarrow> m \<in> fst ` set ps"
    using assms(1) by (simp_all add: pkts_ok_def P)
  have srt: "sorted_wrt pkt_less (P @ [(n, pkt)])" using d(3) assms(2) by (auto simp: sorted_wrt_append pkt_less_def)
  show ?thesis
  proof (cases it)
    case None
    have "before (Some n) (fst p) \<longrightarrow> m_bNack (snd p)" if "p \<in> set (ps @ [(n, pkt)])" for p
      using that d(5) by (auto simp: before_def None)
    then show ?thesis using d srt assms(3) None by (auto simp: pkts_ok_def P)
  next
    case (Some m)
    have "m < n" using d(6) [OF Some] assms(2) by (auto simp: P)
    then have "before it (fst p) \<longrightarrow> m_bNack (snd p)" if "p \<in> set (ps @ [(n, pkt)])" for p
      using that d(5) by (auto simp: before_def Some)
    then show ?thesis using d srt assms(3) Some by (auto simp: pkts_ok_def P)
  qed
qed

lemma track_fields [simp]:
  "segment_of (s\<lparr>m_mapInFlightPacketsByPktNum := P, m_itNextInFlightPacketToTimeout := it\<rparr>) h = segment_of s h"
  by (simp add: segment_of_def)

lemma table_ok_track:
  assumes "segs_ok s C A" "refs_ok s P [] {}" "counts_ok s" "pkts_ok it P"
  shows "table_ok (s\<lparr>m_mapInFlightPacketsByPktNum := P, m_itNextInFlightPacketToTimeout := it\<rparr>) C A"
proof -
  define s' where "s' = s\<lparr>m_mapInFlightPacketsByPktNum := P, m_itNextInFlightPacketToTimeout := it\<rparr>"
  have "segs_ok s' C A = segs_ok s C A" by (rule segs_ok_cong) (simp_all add: s'_def)
  moreover have "counts_ok s' = counts_ok s" by (rule counts_ok_cong) (simp_all add: s'_def)
  moreover have "refs_ok s' P [] {} = refs_ok s P [] {}" by (rule refs_ok_cong) (simp add: s'_def)
  ultimately show ?thesis using assms by (simp add: table_ok_def s'_def [symmetric]) (simp add: s'_def)
qed

text \<open>What has been written is in the table; the rest is what a packet, sent or not, does with it.\<close>

lemma SendPacket_ok:
  assumes inv: "sender_inv s G C A" and n: "0 < maxseg"
    and col: "(case room of None \<Rightarrow> Some (s, \<lparr>m_cbRemainingForSegments = 0, collector_lanes = []\<rparr>)
       | Some cb \<Rightarrow> collect_segments cb maxseg pick s) = Some (s1, c)"
    and num: "\<forall>p \<in> set (m_mapInFlightPacketsByPktNum s). fst p < num \<and> m_usecWhenSent (snd p) \<le> now"
  shows "\<exists>sent bs s' C' hs. SNP_SendPacket frames room maxseg pick ok num now s = Some (sent, bs, s') \<and>
    sender_inv s' G C' A \<and> send_frame s s' \<and> (\<forall>i. \<exists>rs. C' i = C i @ rs) \<and>
    m_mapInFlightPacketsByPktNum s' = m_mapInFlightPacketsByPktNum s @
      (if sent then [(num, \<lparr>m_usecWhenSent = now, m_bNack = False, m_vecReliableSegments = hs\<rparr>)] else []) \<and>
    (sent \<longrightarrow> ok)"
proof -
  define P where "P = m_mapInFlightPacketsByPktNum s"
  have coll: "coll_inv s G s1 c"
    using col coll_inv_start [OF inv] collect_segments_ok [OF inv n] by (cases room) auto
  have ok1: "coll_ok c" and st: "same_tables s s1" using coll by (simp_all add: coll_inv_def)
  note eq = same_tablesD [OF st]
  define C' where "C' = (\<lambda>i. C i @ new_ranges (filter (\<lambda>seg. e_lane seg = i) (all_segs (ordered_lanes c))))"
  obtain bs hs s2 where ser: "serialize_lanes (ordered_lanes c) ([], s1) = Some (bs, hs, s2)" "ser_frame s1 s2"
    "ser_inv P G C' A hs s2 []" "bs = [] \<longrightarrow> hs = []"
    using serialize_lanes_ok [OF ser_start [OF inv coll]] by (auto simp: C'_def P_def)
  have core: "map lane_core (send_lanes s2) = map lane_core (send_lanes s1)" using ser(2) by (simp add: ser_frame_def)
  have len2: "length (send_lanes s2) = length (send_lanes s)" using map_eq_imp_length_eq [OF core] eq(10) by simp
  have C'i: "C' i = C i @ new_ranges (lane_segs c i)" for i
    unfolding C'_def segs_of_lane [OF ok1, symmetric] filter_core ranges_core ..
  have I: "segs_ok s2 C' A" "refs_ok s2 P hs (set hs)" "counts_ok s2" "msgs_ok s2 G" "distinct hs"
  proof -
    have "counts_with (pend []) s2" using ser(3) by (simp add: ser_inv_def)
    moreover have "pend [] = (\<lambda>_. 0)" by (simp add: fun_eq_iff)
    ultimately show "counts_ok s2" by (simp add: counts_ok_with)
  qed (use ser(3) in \<open>simp_all add: ser_inv_def\<close>)
  have lanes: "lane_ok (send_lanes s2 ! i) (G i)" "tiles 1 (C' i) (lane_sent (send_lanes s2 ! i))" if i: "i < length (send_lanes s)" for i
  proof -
    have i1: "i < length (send_lanes s1)" using i eq(10) by simp
    note lc = lane_core_fields [OF map_core_nth(1) [OF core i1]]
    have "tiles 1 (C i) (lane_sent (send_lanes s ! i))" using inv i by (simp add: sender_inv_def)
    moreover have "tiles (lane_sent (send_lanes s ! i)) (new_ranges (lane_segs c i)) (lane_sent (send_lanes s1 ! i))" "lane_ok (send_lanes s1 ! i) (G i)"
      using coll i by (simp_all add: coll_inv_def)
    ultimately show "lane_ok (send_lanes s2 ! i) (G i)" "tiles 1 (C' i) (lane_sent (send_lanes s2 ! i))"
      unfolding lc(6) lc(8) C'i tiles_append by blast+
  qed
  have rest: "C' i = []" if "i \<ge> length (send_lanes s)" for i
  proof -
    have "lane_segs c i = []"
    proof (rule ccontr)
      assume ne: "lane_segs c i \<noteq> []"
      then obtain seg where seg: "seg \<in> set (lane_segs c i)" by (cases "lane_segs c i") auto
      then have "seg_fits s G seg" using coll by (auto simp: coll_inv_def)
      moreover have "e_lane seg = i" using seg unfolding segs_of_lane [OF ok1, symmetric] by auto
      ultimately show False using that by (simp add: seg_fits_def)
    qed
    then show ?thesis using inv that by (simp add: C'i sender_inv_def)
  qed
  have fr: "send_frame s s2"
    using ser(2) len2 by (auto simp: send_frame_def ser_frame_def eq)
  have mp: "m_mapInFlightPacketsByPktNum s2 = P" "m_itNextInFlightPacketToTimeout s2 = m_itNextInFlightPacketToTimeout s"
    "m_nMinPktWaitingOnAck s2 = m_nMinPktWaitingOnAck s"
    using ser(2) by (simp_all add: ser_frame_def eq P_def)
  have Pok: "pkts_ok (m_itNextInFlightPacketToTimeout s) P" using inv by (simp add: sender_inv_def table_ok_def P_def)
  have inv': "sender_inv s3 G C' A" if t3: "table_ok s3 C' A" and f3: "frame s2 s3 \<or> (send_lanes s3 = send_lanes s2 \<and> m_nMinPktWaitingOnAck s3 = m_nMinPktWaitingOnAck s2 \<and> (\<forall>h. segment_of s3 h = segment_of s2 h))" for s3
  proof -
    have c: "map lane_core (send_lanes s3) = map lane_core (send_lanes s2)" using f3 by (auto simp: frame_def)
    then have l: "length (send_lanes s3) = length (send_lanes s)" using map_eq_imp_length_eq len2 by fastforce
    have "msgs_ok s3 G" unfolding msgs_ok_def
    proof (intro allI impI)
      fix h y assume "segment_of s3 h = Some y"
      then obtain z where "segment_of s2 h = Some z" "seg_static y = seg_static z" using f3 unfolding frame_def by auto
      then show "seg_msg y \<in> set (reliable_queue (G (seg_lane y))) \<and> 0 \<le> m_nOffset y \<and> m_nOffset y + m_cbSize y \<le> out_size (seg_msg y)"
        using I(4) unfolding msgs_ok_def seg_static_eq by metis
    qed
    moreover have "lane_ok (send_lanes s3 ! i) (G i) \<and> tiles 1 (C' i) (lane_sent (send_lanes s3 ! i))" if i: "i < length (send_lanes s)" for i
    proof -
      have "i < length (send_lanes s2)" using i len2 by simp
      from lane_core_fields [OF map_core_nth(1) [OF c this]] lanes [OF i] show ?thesis by simp
    qed
    moreover have "m_nMinPktWaitingOnAck s3 = m_nMinPktWaitingOnAck s" using f3 mp(3) by (auto simp: frame_def)
    ultimately show ?thesis using t3 rest l inv by (simp add: sender_inv_def)
  qed
  have ev: "SNP_SendPacket frames room maxseg pick ok num now s =
    (if frames @ bs = [] then Some (False, [], s2)
     else if \<not> ok then do { s \<leftarrow> SNP_QueueReliableSegmentsForRetry hs s2; Some (False, frames @ bs, s) }
     else let pkt = \<lparr>m_usecWhenSent = now, m_bNack = False, m_vecReliableSegments = hs\<rparr>
       in Some (True, frames @ bs, s2\<lparr>m_mapInFlightPacketsByPktNum := m_mapInFlightPacketsByPktNum s2 @ [(num, pkt)],
         m_itNextInFlightPacketToTimeout := (if m_itNextInFlightPacketToTimeout s2 = None then Some num else m_itNextInFlightPacketToTimeout s2)\<rparr>))"
    using col ser(1) unfolding SNP_SendPacket_def SNP_SerializeSegments_def ordered_lanes_def [symmetric] by (cases room) simp_all
  have ext: "\<forall>i. \<exists>rs. C' i = C i @ rs" by (simp add: C'_def)
  consider (nothing_sent) "frames @ bs = []" | (failed) "frames @ bs \<noteq> []" "\<not> ok" | (sent) "frames @ bs \<noteq> []" ok by blast
  then show ?thesis
  proof cases
    case nothing_sent
    then have "hs = []" using ser(4) by simp
    then have "table_ok s2 C' A" using I Pok mp by (simp add: table_ok_def)
    then have "sender_inv s2 G C' A" by (rule inv') simp
    moreover have "SNP_SendPacket frames room maxseg pick ok num now s = Some (False, [], s2)" using ev nothing_sent by simp
    ultimately show ?thesis using fr ext mp(1) by (auto simp: P_def)
  next
    case failed
    have "segment_of s2 h \<noteq> None" if "h \<in> set hs" for h using I(2) that unfolding refs_ok_def by blast
    then obtain s3 where s3: "SNP_QueueReliableSegmentsForRetry hs s2 = Some s3" "frame s2 s3" "segs_ok s3 C' A" "refs_ok s3 P hs {}" "counts_ok s3"
      using queue_retries_ok [OF I(1,2,3)] by blast
    have "refs_ok s3 P [] {}" using s3(4) by (force simp: refs_ok_def)
    moreover have mp3: "m_mapInFlightPacketsByPktNum s3 = P" "m_itNextInFlightPacketToTimeout s3 = m_itNextInFlightPacketToTimeout s"
      using s3(2) mp by (simp_all add: frame_def)
    ultimately have "table_ok s3 C' A" using s3 Pok by (simp add: table_ok_def)
    then have "sender_inv s3 G C' A" by (rule inv') (simp add: s3(2))
    moreover have "send_frame s s3"
    proof -
      have "map lane_core (send_lanes s3) = map lane_core (send_lanes s2)" using s3(2) by (simp add: frame_def)
      then have "length (send_lanes s3) = length (send_lanes s)" using map_eq_imp_length_eq len2 by fastforce
      moreover have "next_segment_handle s3 = next_segment_handle s2" using s3(2) by (simp add: frame_def)
      moreover have "\<exists>x. segment_of s h = Some x \<and> seg_static x' = seg_static x" if h: "h < next_segment_handle s" "segment_of s3 h = Some x'" for h x'
      proof -
        obtain y where "segment_of s2 h = Some y" "seg_static x' = seg_static y" using frame_seg [OF s3(2) h(2)] by blast
        moreover from this(1) obtain x where "segment_of s h = Some x" "seg_static y = seg_static x"
          using fr h(1) unfolding send_frame_def by blast
        ultimately show ?thesis by simp
      qed
      ultimately show ?thesis using fr by (simp add: send_frame_def)
    qed
    moreover have "SNP_SendPacket frames room maxseg pick ok num now s = Some (False, frames @ bs, s3)" unfolding ev using failed s3(1) by auto
    ultimately show ?thesis using ext mp3(1) P_def by (intro exI [of _ False] exI [of _ "frames @ bs"] exI [of _ s3] exI [of _ C'] exI [of _ "[]"]) simp
  next
    case sent
    define pkt where "pkt = \<lparr>m_usecWhenSent = now, m_bNack = False, m_vecReliableSegments = hs\<rparr>"
    define it where "it = (if m_itNextInFlightPacketToTimeout s = None then Some num else m_itNextInFlightPacketToTimeout s)"
    define s3 where "s3 = s2\<lparr>m_mapInFlightPacketsByPktNum := P @ [(num, pkt)], m_itNextInFlightPacketToTimeout := it\<rparr>"
    have "refs_ok s2 (P @ [(num, pkt)]) [] {}" unfolding pkt_def by (rule refs_ok_sent [OF I(2,5)])
    moreover have "pkts_ok it (P @ [(num, pkt)])"
      unfolding it_def by (rule pkts_ok_append [OF Pok]) (use num I(5) in \<open>simp_all add: pkt_def P_def\<close>)
    ultimately have "table_ok s3 C' A" unfolding s3_def by (intro table_ok_track I(1,3))
    then have "sender_inv s3 G C' A" by (rule inv') (simp add: s3_def)
    moreover have "send_frame s s3" using fr by (simp add: send_frame_def s3_def)
    moreover have "SNP_SendPacket frames room maxseg pick ok num now s = Some (True, frames @ bs, s3)"
      unfolding ev using sent by (simp add: s3_def it_def pkt_def mp Let_def)
    moreover have "m_mapInFlightPacketsByPktNum s3 = P @ [(num, pkt)]" by (simp add: s3_def)
    ultimately show ?thesis using ext P_def sent pkt_def
      by (intro exI [of _ True] exI [of _ "frames @ bs"] exI [of _ s3] exI [of _ C'] exI [of _ hs]) simp
  qed
qed

subsection \<open>A message\<close>

definition lane_accepts :: "OutMessage \<Rightarrow> SendLane \<Rightarrow> SendLane" where
  "lane_accepts m g = snd (if SNPSend_IsReliable m then queue_reliable (out_flags m) (out_data m) g
     else queue_unreliable (out_flags m) (out_data m) g)"

lemma queue_pending_append:
  "queue_pending c (q @ [m]) = queue_pending c q + (if SNPSend_IsReliable m then out_size m - (if q = [] then c else 0) else 0)"
  by (induction c q rule: queue_pending.induct) simp_all

lemma queue_reliable_fields:
  assumes "queue_reliable fl d l = (m, l')"
  shows "lane_messagesQueued l' = lane_messagesQueued l @ [m]" "m_cbCurrentSendMessageSent l' = m_cbCurrentSendMessageSent l"
    "m_nReliableStreamNextSendPos l' = m_nReliableStreamNextSendPos l + out_size m" "m_nLastSendMsgNumReliable l' = m_nLastSentMsgNum l + 1"
    "m_nLastSentMsgNum l' = m_nLastSentMsgNum l + 1" "lane_cbPendingReliable l' = lane_cbPendingReliable l + out_size m"
    "lane_cbSentUnackedReliable l' = lane_cbSentUnackedReliable l" "out_hdr m \<noteq> []"
    "out_flags m = fl" "out_data m = d" "out_msg_num m = m_nLastSentMsgNum l + 1"
  using assms ReliableHeader_Cons [of "m_nLastSentMsgNum l + 1 - m_nLastSendMsgNumReliable l" "int (length d)"]
  by (auto simp: queue_reliable_def Let_def out_size_def)

lemma queue_unreliable_fields:
  assumes "queue_unreliable fl d l = (m, l')"
  shows "lane_messagesQueued l' = lane_messagesQueued l @ [m]" "m_cbCurrentSendMessageSent l' = m_cbCurrentSendMessageSent l"
    "m_nReliableStreamNextSendPos l' = m_nReliableStreamNextSendPos l" "m_nLastSendMsgNumReliable l' = m_nLastSendMsgNumReliable l"
    "m_nLastSentMsgNum l' = m_nLastSentMsgNum l + 1" "lane_cbPendingReliable l' = lane_cbPendingReliable l"
    "lane_cbSentUnackedReliable l' = lane_cbSentUnackedReliable l" "out_hdr m = []"
    "out_flags m = fl" "out_data m = d" "out_msg_num m = m_nLastSentMsgNum l + 1"
  using assms by (auto simp: queue_unreliable_def Let_def)

lemma queue_same:
  assumes "m_nReliableStreamNextSendPos l = m_nReliableStreamNextSendPos g" "m_nLastSendMsgNumReliable l = m_nLastSendMsgNumReliable g"
    "m_nLastSentMsgNum l = m_nLastSentMsgNum g"
  shows "fst (queue_reliable fl d l) = fst (queue_reliable fl d g)" "fst (queue_unreliable fl d l) = fst (queue_unreliable fl d g)"
  using assms by (simp_all add: queue_reliable_def queue_unreliable_def Let_def)

lemma lane_accepts_ok:
  assumes ok: "lane_ok l g" and data: "int (length (out_data m)) < 2 ^ 31"
    and q: "(if SNPSend_IsReliable m then queue_reliable (out_flags m) (out_data m) l else queue_unreliable (out_flags m) (out_data m) l) = (m, l')"
  shows "lane_ok l' (lane_accepts m g)" "lane_sent l' = lane_sent l" "set (reliable_queue g) \<subseteq> set (reliable_queue (lane_accepts m g))"
    "lane_pending l' = lane_pending l + (if SNPSend_IsReliable m then out_size m else 0)"
    "lane_cbPendingReliable l' = lane_cbPendingReliable l + (if SNPSend_IsReliable m then out_size m else 0)"
    "lane_cbSentUnackedReliable l' = lane_cbSentUnackedReliable l"
proof -
  obtain pre where pre: "reliable_queue g = pre @ reliable_queue l" using ok by (auto simp: lane_ok_def)
  have num: "m_nReliableStreamNextSendPos l = m_nReliableStreamNextSendPos g" "m_nLastSendMsgNumReliable l = m_nLastSendMsgNumReliable g"
    "m_nLastSentMsgNum l = m_nLastSentMsgNum g" and g: "send_lane_ok g" using ok by (simp_all add: lane_ok_def)
  have empty: "m_cbCurrentSendMessageSent l = 0" if "lane_messagesQueued l = []" using ok that by (simp add: lane_ok_def)
  have "lane_ok l' (lane_accepts m g) \<and> lane_sent l' = lane_sent l \<and> set (reliable_queue g) \<subseteq> set (reliable_queue (lane_accepts m g)) \<and>
    lane_pending l' = lane_pending l + (if SNPSend_IsReliable m then out_size m else 0) \<and>
    lane_cbPendingReliable l' = lane_cbPendingReliable l + (if SNPSend_IsReliable m then out_size m else 0) \<and>
    lane_cbSentUnackedReliable l' = lane_cbSentUnackedReliable l"
  proof (cases "SNPSend_IsReliable m")
    case True
    have ql: "queue_reliable (out_flags m) (out_data m) l = (m, l')" using q True by simp
    obtain g' where g': "queue_reliable (out_flags m) (out_data m) g = (m, g')"
      using queue_same(1) [OF num, of "out_flags m" "out_data m"] ql by (cases "queue_reliable (out_flags m) (out_data m) g") simp
    have fl: "out_flags m AND k_nSteamNetworkingSend_Reliable \<noteq> 0" using True by (simp add: SNPSend_IsReliable_def)
    note gok = queue_reliable_ok [OF g fl data g']
    have la: "lane_accepts m g = g'" using True g' by (simp add: lane_accepts_def)
    note l' = queue_reliable_fields [OF ql]
    note g'f = queue_reliable_fields(3-5) [OF g']
    have rq: "reliable_queue l' = reliable_queue l @ [m]" using l'(1) True by (simp add: reliable_queue_eq)
    have "0 < out_size m" using l'(8) by (cases "out_hdr m") (simp_all add: out_size_def)
    then have "lane_ok l' g'"
      using ok data gok(1,2) l' g'f rq pre empty True unfolding lane_ok_def by (auto simp: numbered_append split: list.splits)
    moreover have lp: "lane_pending l' = lane_pending l + out_size m"
      using True empty by (simp add: lane_pending_def l' queue_pending_append)
    ultimately show ?thesis using True l' la gok(2) by (auto simp: lane_sent_def)
  next
    case False
    have ql: "queue_unreliable (out_flags m) (out_data m) l = (m, l')" using q False by simp
    obtain g' where g': "queue_unreliable (out_flags m) (out_data m) g = (m, g')"
      using queue_same(2) [OF num, of "out_flags m" "out_data m"] ql by (cases "queue_unreliable (out_flags m) (out_data m) g") simp
    have fl: "out_flags m AND k_nSteamNetworkingSend_Reliable = 0" using False by (simp add: SNPSend_IsReliable_def)
    note gok = queue_unreliable_ok [OF g fl g']
    have la: "lane_accepts m g = g'" using False g' by (simp add: lane_accepts_def)
    note l' = queue_unreliable_fields [OF ql]
    note g'f = queue_unreliable_fields(3-5) [OF g']
    have rq: "reliable_queue l' = reliable_queue l" using l'(1) False by (simp add: reliable_queue_eq)
    have "0 \<le> out_size m" by (simp add: out_size_def)
    then have "lane_ok l' g'"
      using ok data gok(1,2) l' g'f rq pre empty False unfolding lane_ok_def by (auto simp: numbered_append split: list.splits)
    moreover have "lane_pending l' = lane_pending l" using False by (simp add: lane_pending_def l' queue_pending_append)
    ultimately show ?thesis using False l' la gok(2) by (auto simp: lane_sent_def)
  qed
  then show "lane_ok l' (lane_accepts m g)" "lane_sent l' = lane_sent l" "set (reliable_queue g) \<subseteq> set (reliable_queue (lane_accepts m g))"
    "lane_pending l' = lane_pending l + (if SNPSend_IsReliable m then out_size m else 0)"
    "lane_cbPendingReliable l' = lane_cbPendingReliable l + (if SNPSend_IsReliable m then out_size m else 0)"
    "lane_cbSentUnackedReliable l' = lane_cbSentUnackedReliable l" by blast+
qed

lemma SendMessage_ok:
  assumes inv: "sender_inv s G C A" and data: "int (length data) < 2 ^ 31"
    and r: "SNP_SendMessage buf i flags data s = Inr (m, s')"
  shows "sender_inv s' (G(i := lane_accepts m (G i))) C A" "length (send_lanes s') = length (send_lanes s)"
    "m_listSentReliableSegments s' = m_listSentReliableSegments s" "m_mapInFlightPacketsByPktNum s' = m_mapInFlightPacketsByPktNum s"
proof -
  define l where "l = send_lanes s ! i"
  define fl where "fl = (if int (length data) > k_cbMaxUnreliableMsgSizeSend \<and> flags AND k_nSteamNetworkingSend_Reliable = 0
    then flags OR k_nSteamNetworkingSend_Reliable else flags)"
  have i: "i < length (send_lanes s)" using r by (auto simp: SNP_SendMessage_def Let_def split: if_splits)
  obtain l' where q: "(if fl AND k_nSteamNetworkingSend_Reliable \<noteq> 0 then queue_reliable fl data l else queue_unreliable fl data l) = (m, l')"
    and s': "send_lanes s' = (send_lanes s)[i := l']" "m_listSentReliableSegments s' = m_listSentReliableSegments s"
      "m_cbPendingReliable s' = m_cbPendingReliable s + (if fl AND k_nSteamNetworkingSend_Reliable \<noteq> 0 then out_size m else 0)"
      "m_cbSentUnackedReliable s' = m_cbSentUnackedReliable s" "next_segment_handle s' = next_segment_handle s"
      "m_listReadyRetryReliableRange s' = m_listReadyRetryReliableRange s" "m_mapInFlightPacketsByPktNum s' = m_mapInFlightPacketsByPktNum s"
      "m_itNextInFlightPacketToTimeout s' = m_itNextInFlightPacketToTimeout s" "m_nMinPktWaitingOnAck s' = m_nMinPktWaitingOnAck s"
  proof -
    have "SNP_SendMessage buf i flags data s = Inr (m, s') \<Longrightarrow> \<exists>l'.
      (if fl AND k_nSteamNetworkingSend_Reliable \<noteq> 0 then queue_reliable fl data l else queue_unreliable fl data l) = (m, l') \<and>
      send_lanes s' = (send_lanes s)[i := l'] \<and> m_listSentReliableSegments s' = m_listSentReliableSegments s \<and>
      m_cbPendingReliable s' = m_cbPendingReliable s + (if fl AND k_nSteamNetworkingSend_Reliable \<noteq> 0 then out_size m else 0) \<and>
      m_cbSentUnackedReliable s' = m_cbSentUnackedReliable s \<and> next_segment_handle s' = next_segment_handle s \<and>
      m_listReadyRetryReliableRange s' = m_listReadyRetryReliableRange s \<and> m_mapInFlightPacketsByPktNum s' = m_mapInFlightPacketsByPktNum s \<and>
      m_itNextInFlightPacketToTimeout s' = m_itNextInFlightPacketToTimeout s \<and> m_nMinPktWaitingOnAck s' = m_nMinPktWaitingOnAck s"
      unfolding SNP_SendMessage_def Let_def fl_def [symmetric] l_def [symmetric]
      by (cases "fl AND k_nSteamNetworkingSend_Reliable \<noteq> 0")
        (auto simp: queue_reliable_def queue_unreliable_def Let_def out_size_def split: if_splits)
    from this [OF r] show ?thesis by (elim exE conjE) (rule that)
  qed
  have m: "out_flags m = fl" "out_data m = data"
    using q queue_reliable_fields(9,10) queue_unreliable_fields(9,10) by (metis (full_types))+
  have rel: "SNPSend_IsReliable m \<longleftrightarrow> fl AND k_nSteamNetworkingSend_Reliable \<noteq> 0" by (simp add: SNPSend_IsReliable_def m)
  have ok: "lane_ok l (G i)" using inv i by (simp add: sender_inv_def l_def)
  note acc = lane_accepts_ok [OF ok, of m l', unfolded m rel, OF data, OF q]
  show len: "length (send_lanes s') = length (send_lanes s)" by (simp add: s')
  show "m_listSentReliableSegments s' = m_listSentReliableSegments s" "m_mapInFlightPacketsByPktNum s' = m_mapInFlightPacketsByPktNum s" by (rule s')+
  have seg: "segment_of s' h = segment_of s h" for h by (rule segment_of_cong [OF s'(2)])
  have t: "segs_ok s C A" "refs_ok s (m_mapInFlightPacketsByPktNum s) [] {}" "counts_ok s" "msgs_ok s G"
    "pkts_ok (m_itNextInFlightPacketToTimeout s) (m_mapInFlightPacketsByPktNum s)"
    using inv by (simp_all add: sender_inv_def table_ok_def)
  have "counts_ok s'" unfolding counts_ok_with counts_with_def
  proof (intro conjI allI impI)
    have st: "status_sum k u s' = status_sum k u s" for k u by (simp add: status_sum_def sum_segs_cong [OF s'(2)])
    have c: "status_sum None k_nStatus_Retry s + sum_list (map lane_pending (send_lanes s)) = m_cbPendingReliable s"
      "status_sum None k_nStatus_InFlight s = m_cbSentUnackedReliable s"
      "\<And>j. j < length (send_lanes s) \<Longrightarrow> status_sum (Some j) k_nStatus_Retry s + lane_pending (send_lanes s ! j) = lane_cbPendingReliable (send_lanes s ! j) \<and>
        status_sum (Some j) k_nStatus_InFlight s = lane_cbSentUnackedReliable (send_lanes s ! j)"
      using t(3) by (simp_all add: counts_ok_with counts_with_def)
    show "status_sum None k_nStatus_Retry s' + sum_list (map lane_pending (send_lanes s')) + 0 = m_cbPendingReliable s'"
      using c(1) acc(4) rel i by (simp add: st s' sum_list_map_update l_def)
    show "status_sum None k_nStatus_InFlight s' = m_cbSentUnackedReliable s'" using c(2) by (simp add: st s')
    fix j assume "j < length (send_lanes s')"
    then have j: "j < length (send_lanes s)" by (simp add: len)
    show "status_sum (Some j) k_nStatus_Retry s' + lane_pending (send_lanes s' ! j) + 0 = lane_cbPendingReliable (send_lanes s' ! j)"
      using c(3) [OF j] acc(4,5) j by (cases "j = i") (simp_all add: st s'(1) l_def)
    show "status_sum (Some j) k_nStatus_InFlight s' = lane_cbSentUnackedReliable (send_lanes s' ! j)"
      using c(3) [OF j] acc(6) j by (cases "j = i") (simp_all add: st s'(1) l_def)
  qed
  moreover have "segs_ok s' C A" using t(1) segs_ok_cong [OF s'(2) len s'(5,6)] by simp
  moreover have "refs_ok s' (m_mapInFlightPacketsByPktNum s) [] {}" using t(2) refs_ok_cong [OF s'(2)] by simp
  ultimately have "table_ok s' C A" using t(5) by (simp add: table_ok_def s')
  moreover have "msgs_ok s' (G(i := lane_accepts m (G i)))" using t(4) acc(3) by (auto simp: msgs_ok_def seg)
  moreover have "lane_ok (send_lanes s' ! j) ((G(i := lane_accepts m (G i))) j) \<and> tiles 1 (C j) (lane_sent (send_lanes s' ! j))"
    if "j < length (send_lanes s)" for j
    using inv that acc(1,2) by (cases "j = i") (simp_all add: sender_inv_def s'(1) l_def)
  ultimately show "sender_inv s' (G(i := lane_accepts m (G i))) C A" using inv by (simp add: sender_inv_def s'(9) len)
qed

end
