(* ===== verification/SnpSenderMachine.thy ===== *)
theory SnpSenderMachine
  imports SnpSenderRun
begin

text \<open>
  Runs of the sender and what holds in every state they reach. A run keeps, next to the state of the sender, what the
  environment knows: the next packet number, the time, the segments that each packet carried, and the numbers of the
  packets that frames from the peer have acked. \<open>run_lanes\<close> are the lanes as they would be if no message had
  left its queue, so the reliable messages that a lane has accepted are \<open>reliable_queue (run_lanes r i)\<close>.
\<close>

subsection \<open>Events\<close>

datatype sender_event =
    Send nat int "byte list"
  | Packet "byte list" "int option" int "SSNPSenderState \<Rightarrow> nat option" bool int
  | NonData int
  | Ack int "(int \<times> int) list"
  | Timeouts int int int int

record SenderRun =
  run_state :: SSNPSenderState
  run_lanes :: "nat \<Rightarrow> SendLane"
  m_nNextSendSequenceNumber :: int
  run_now :: int
  run_carried :: "(int \<times> nat \<times> int \<times> int) list"
  run_acked :: "int set"

definition run_new :: "nat \<Rightarrow> SenderRun" where
  "run_new n = \<lparr>run_state = sender_new n, run_lanes = (\<lambda>_. SendLane_new), m_nNextSendSequenceNumber = 1, run_now = 0,
     run_carried = [], run_acked = {}\<rparr>"

text \<open>The ranges of the reliable stream of each lane that the last packet carries.\<close>

definition carries :: "int \<Rightarrow> SSNPSenderState \<Rightarrow> (int \<times> nat \<times> int \<times> int) list" where
  "carries n s = concat (map (\<lambda>h. case segment_of s h of None \<Rightarrow> [] | Some x \<Rightarrow> [(n, seg_lane x, seg_range x)])
     (m_vecReliableSegments (snd (last (m_mapInFlightPacketsByPktNum s)))))"

lemma in_carries:
  "x \<in> set (carries n s) \<longleftrightarrow> (\<exists>h \<in> set (m_vecReliableSegments (snd (last (m_mapInFlightPacketsByPktNum s)))).
     \<exists>y. segment_of s h = Some y \<and> x = (n, seg_lane y, seg_range y))"
proof -
  have "x \<in> set (concat (map (\<lambda>h. case segment_of s h of None \<Rightarrow> [] | Some y \<Rightarrow> [(n, seg_lane y, seg_range y)]) hs)) \<longleftrightarrow>
      (\<exists>h \<in> set hs. \<exists>y. segment_of s h = Some y \<and> x = (n, seg_lane y, seg_range y))" for hs
  proof (induction hs)
    case (Cons a hs)
    then show ?case by (cases "segment_of s a") auto
  qed simp
  then show ?thesis unfolding carries_def .
qed

text \<open>
  A packet takes the next number also when it is not sent. Time does not go back, sizes have 31 bits as
  the code's \<open>int\<close>, the decoder of acks refuses packet numbers that have not been used.
\<close>

definition event_ok :: "sender_event \<Rightarrow> SenderRun \<Rightarrow> bool" where
  "event_ok e r \<longleftrightarrow>
     (case e of
        Send i flags data \<Rightarrow> int (length data) < 2 ^ 31
      | Packet frames room maxseg pick sent now \<Rightarrow> 0 < maxseg \<and> run_now r \<le> now
      | NonData now \<Rightarrow> run_now r \<le> now
      | Ack latest blocks \<Rightarrow> 0 \<le> latest \<and> latest < m_nNextSendSequenceNumber r \<and> list_all (\<lambda>(a, n). 0 \<le> a \<and> 0 \<le> n) blocks
      | Timeouts now rto pings recent \<Rightarrow> 0 \<le> rto)"

definition sender_step :: "int \<Rightarrow> sender_event \<Rightarrow> SenderRun \<Rightarrow> SenderRun option" where
  "sender_step nSendBufferSize e r =
     (case e of
        Send i flags data \<Rightarrow>
          (case SNP_SendMessage nSendBufferSize i flags data (run_state r) of
             Inl _ \<Rightarrow> Some r
           | Inr (m, s) \<Rightarrow> Some (r\<lparr>run_state := s, run_lanes := (run_lanes r)(i := lane_accepts m (run_lanes r i))\<rparr>))
      | Packet frames room maxseg pick ok now \<Rightarrow> do {
          let n = m_nNextSendSequenceNumber r;
          (sent, _, s) \<leftarrow> SNP_SendPacket frames room maxseg pick ok n now (run_state r);
          Some (r\<lparr>run_state := s, m_nNextSendSequenceNumber := n + 1, run_now := now,
            run_carried := run_carried r @ (if sent then carries n s else [])\<rparr>)
        }
      | NonData now \<Rightarrow>
          Some (r\<lparr>run_state := SNP_SentNonDataPacket (m_nNextSendSequenceNumber r + 1) now (run_state r),
            m_nNextSendSequenceNumber := m_nNextSendSequenceNumber r + 1, run_now := now\<rparr>)
      | Ack latest blocks \<Rightarrow> do {
          (_, s) \<leftarrow> receive_ack latest blocks (run_state r);
          Some (r\<lparr>run_state := s,
            run_acked := run_acked r \<union> acked_by (m_nMinPktWaitingOnAck (run_state r)) (latest + 1) blocks\<rparr>)
        }
      | Timeouts now rto pings recent \<Rightarrow> do {
          (_, s) \<leftarrow> SNP_SenderCheckInFlightPackets now rto pings recent (run_state r);
          Some (r\<lparr>run_state := s\<rparr>)
        })"

inductive sender_run :: "int \<Rightarrow> nat \<Rightarrow> SenderRun \<Rightarrow> bool" for nSendBufferSize :: int and n :: nat where
  start: "sender_run nSendBufferSize n (run_new n)"
| step: "sender_run nSendBufferSize n r \<Longrightarrow> event_ok e r \<Longrightarrow> sender_step nSendBufferSize e r = Some r' \<Longrightarrow>
    sender_run nSendBufferSize n r'"

text \<open>A list of events, for concrete runs.\<close>

fun sender_steps :: "int \<Rightarrow> sender_event list \<Rightarrow> SenderRun \<Rightarrow> SenderRun option" where
  "sender_steps nSendBufferSize [] r = Some r"
| "sender_steps nSendBufferSize (e # es) r =
     (if event_ok e r then do { r \<leftarrow> sender_step nSendBufferSize e r; sender_steps nSendBufferSize es r } else None)"

lemma sender_steps_run: "sender_run b n r \<Longrightarrow> sender_steps b es r = Some r' \<Longrightarrow> sender_run b n r'"
proof (induction es arbitrary: r)
  case (Cons e es)
  then obtain r1 where "event_ok e r" "sender_step b e r = Some r1" "sender_steps b es r1 = Some r'"
    by (auto split: if_splits bind_splits)
  with Cons show ?case by (blast intro: sender_run.step)
qed simp

subsection \<open>The invariant of runs\<close>

definition acked_ranges :: "SenderRun \<Rightarrow> (nat \<times> int \<times> int) set" where
  "acked_ranges r = {x. \<exists>n \<in> run_acked r. (n, x) \<in> set (run_carried r)}"

definition run_inv :: "SenderRun \<Rightarrow> bool" where
  "run_inv r \<longleftrightarrow> (\<exists>C. sender_inv (run_state r) (run_lanes r) C (acked_ranges r) \<and>
     (\<forall>(n, i, rg) \<in> set (run_carried r). i < length (send_lanes (run_state r)) \<and> rg \<in> set (C i))) \<and>
     (\<forall>p \<in> set (m_mapInFlightPacketsByPktNum (run_state r)). fst p < m_nNextSendSequenceNumber r \<and> m_usecWhenSent (snd p) \<le> run_now r) \<and>
     (\<forall>p \<in> set (m_mapInFlightPacketsByPktNum (run_state r)). \<forall>h \<in> set (m_vecReliableSegments (snd p)).
        \<forall>x. segment_of (run_state r) h = Some x \<longrightarrow> (fst p, seg_lane x, seg_range x) \<in> set (run_carried r)) \<and>
     0 < m_nNextSendSequenceNumber r"

lemma segs_ok_mono: "segs_ok s C A \<Longrightarrow> A \<subseteq> A' \<Longrightarrow> segs_ok s C A'"
  unfolding segs_ok_def by blast

lemma sender_inv_mono: "sender_inv s G C A \<Longrightarrow> A \<subseteq> A' \<Longrightarrow> sender_inv s G C A'"
  using segs_ok_mono by (auto simp: sender_inv_def table_ok_def)

lemma acked_mono: "run_acked r \<subseteq> run_acked r' \<Longrightarrow> set (run_carried r) \<subseteq> set (run_carried r') \<Longrightarrow> acked_ranges r \<subseteq> acked_ranges r'"
  by (auto simp: acked_ranges_def)

lemma sender_new_fields:
  "length (send_lanes (sender_new n)) = n" "m_listSentReliableSegments (sender_new n) = []" "segment_of (sender_new n) h = None"
  "m_listReadyRetryReliableRange (sender_new n) = []"
  "m_mapInFlightPacketsByPktNum (sender_new n) = [(INT64_MIN, \<lparr>m_usecWhenSent = 0, m_bNack = False, m_vecReliableSegments = []\<rparr>)]"
  "i < n \<Longrightarrow> send_lanes (sender_new n) ! i = SendLane_new"
  by (simp_all add: sender_new_def segment_of_def)

lemma SendLane_new_fields [simp]:
  "lane_pending SendLane_new = 0" "lane_sent SendLane_new = 1" "lane_ok SendLane_new SendLane_new"
  using send_lane_new by (simp_all add: lane_pending_def lane_sent_def lane_ok_def SendLane_new_def reliable_queue_def)

lemma run_inv_new: "run_inv (run_new n)"
proof -
  have "counts_ok (sender_new n)"
    by (simp add: counts_ok_def sum_segs_def sender_new_def sum_list_replicate SendLane_new_def [symmetric])
      (simp add: SendLane_new_def)
  moreover have "segs_ok (sender_new n) (\<lambda>_. []) {}" by (simp add: segs_ok_def sender_new_fields)
  moreover have "refs_ok (sender_new n) (m_mapInFlightPacketsByPktNum (sender_new n)) [] {}"
    by (simp add: refs_ok_def sender_new_fields)
  moreover have "pkts_ok (m_itNextInFlightPacketToTimeout (sender_new n)) (m_mapInFlightPacketsByPktNum (sender_new n))"
    by (simp add: pkts_ok_def sender_new_fields) (simp add: sender_new_def)
  moreover have "msgs_ok (sender_new n) (\<lambda>_. SendLane_new)" by (simp add: msgs_ok_def sender_new_fields)
  moreover have "m_nMinPktWaitingOnAck (sender_new n) = 0" by (simp add: sender_new_def)
  ultimately have "sender_inv (sender_new n) (\<lambda>_. SendLane_new) (\<lambda>_. []) {}"
    by (simp add: sender_inv_def table_ok_def sender_new_fields)
  then show ?thesis by (auto simp: run_inv_def run_new_def acked_ranges_def sender_new_fields INT64_MIN_def intro!: exI [of _ "\<lambda>_. []"])
qed

lemma run_invE:
  assumes "run_inv r"
  obtains C where "sender_inv (run_state r) (run_lanes r) C (acked_ranges r)"
    "\<forall>(n, i, rg) \<in> set (run_carried r). i < length (send_lanes (run_state r)) \<and> rg \<in> set (C i)"
    "\<forall>p \<in> set (m_mapInFlightPacketsByPktNum (run_state r)). fst p < m_nNextSendSequenceNumber r \<and> m_usecWhenSent (snd p) \<le> run_now r"
    "\<forall>p \<in> set (m_mapInFlightPacketsByPktNum (run_state r)). \<forall>h \<in> set (m_vecReliableSegments (snd p)).
        \<forall>x. segment_of (run_state r) h = Some x \<longrightarrow> (fst p, seg_lane x, seg_range x) \<in> set (run_carried r)"
    "0 < m_nNextSendSequenceNumber r"
  using assms unfolding run_inv_def by blast

text \<open>Every event has its step, and the step keeps the invariant.\<close>

definition goes_on :: "SenderRun option \<Rightarrow> SenderRun \<Rightarrow> bool" where
  "goes_on st r \<longleftrightarrow> (\<exists>r'. st = Some r' \<and> run_inv r' \<and> length (send_lanes (run_state r')) = length (send_lanes (run_state r)))"

lemma send_goes_on:
  assumes inv: "run_inv r" and ev: "event_ok (Send i flags data) r"
  shows "goes_on (sender_step b (Send i flags data) r) r"
proof (cases "SNP_SendMessage b i flags data (run_state r)")
  case (Inl x)
  then show ?thesis using inv by (simp add: sender_step_def goes_on_def)
next
  case (Inr ms)
  obtain m s' where ms: "ms = (m, s')" by force
  obtain C where C: "sender_inv (run_state r) (run_lanes r) C (acked_ranges r)"
    "\<forall>(n, i, rg) \<in> set (run_carried r). i < length (send_lanes (run_state r)) \<and> rg \<in> set (C i)" using inv by (rule run_invE)
  define r' where "r' = r\<lparr>run_state := s', run_lanes := (run_lanes r)(i := lane_accepts m (run_lanes r i))\<rparr>"
  have data: "int (length data) < 2 ^ 31" using ev by (simp add: event_ok_def)
  note sm = SendMessage_ok [OF C(1) data Inr [unfolded ms]]
  have seg: "segment_of s' h = segment_of (run_state r) h" for h by (rule segment_of_cong [OF sm(3)])
  have "acked_ranges r' = acked_ranges r" by (simp add: acked_ranges_def r'_def)
  then have "run_inv r'" using sm C(2) inv by (auto simp: run_inv_def r'_def seg)
  then show ?thesis using sm(2) Inr by (simp add: goes_on_def sender_step_def ms r'_def)
qed

text \<open>Steps that only take packets out of the map, or nack them.\<close>

lemma run_inv_frame:
  assumes inv: "run_inv r" and fr: "pkt_frame (run_state r) s'" and m: "0 \<le> m"
    and t: "\<And>C. table_ok (run_state r) C (acked_ranges r) \<Longrightarrow> table_ok s' C (acked_ranges r')"
    and r': "run_state r' = s'\<lparr>m_nMinPktWaitingOnAck := m\<rparr>" "run_lanes r' = run_lanes r"
      "m_nNextSendSequenceNumber r' = m_nNextSendSequenceNumber r" "run_now r' = run_now r" "run_carried r' = run_carried r"
  shows "goes_on (Some r') r"
proof -
  obtain C where C: "sender_inv (run_state r) (run_lanes r) C (acked_ranges r)"
    "\<forall>(n, i, rg) \<in> set (run_carried r). i < length (send_lanes (run_state r)) \<and> rg \<in> set (C i)"
    and P: "\<forall>p \<in> set (m_mapInFlightPacketsByPktNum (run_state r)). fst p < m_nNextSendSequenceNumber r \<and> m_usecWhenSent (snd p) \<le> run_now r"
    "\<forall>p \<in> set (m_mapInFlightPacketsByPktNum (run_state r)). \<forall>h \<in> set (m_vecReliableSegments (snd p)).
        \<forall>x. segment_of (run_state r) h = Some x \<longrightarrow> (fst p, seg_lane x, seg_range x) \<in> set (run_carried r)"
    using inv by (rule run_invE)
  have "map lane_core (send_lanes s') = map lane_core (send_lanes (run_state r))" using fr by (simp add: pkt_frame_def)
  then have len: "length (send_lanes s') = length (send_lanes (run_state r))" by (rule map_eq_imp_length_eq)
  have seg: "segment_of (s'\<lparr>m_nMinPktWaitingOnAck := m\<rparr>) h = segment_of s' h" for h by simp
  have "sender_inv s' (run_lanes r) C (acked_ranges r')"
  proof (rule sender_inv_frame [OF C(1) fr])
    show "table_ok s' C (acked_ranges r')" using C(1) by (intro t) (simp add: sender_inv_def)
  qed
  then have "sender_inv (s'\<lparr>m_nMinPktWaitingOnAck := m\<rparr>) (run_lanes r) C (acked_ranges r')"
    using m by (simp add: sender_inv_def table_ok_min msgs_ok_def)
  moreover have "fst p < m_nNextSendSequenceNumber r \<and> m_usecWhenSent (snd p) \<le> run_now r"
    if "p \<in> set (m_mapInFlightPacketsByPktNum s')" for p
    using P(1) fr that unfolding pkt_frame_def by metis
  moreover have "(fst p, seg_lane x, seg_range x) \<in> set (run_carried r)"
    if p: "p \<in> set (m_mapInFlightPacketsByPktNum s')" "h \<in> set (m_vecReliableSegments (snd p))" "segment_of s' h = Some x" for p h x
  proof -
    obtain q where q: "q \<in> set (m_mapInFlightPacketsByPktNum (run_state r))" "fst p = fst q"
      "m_vecReliableSegments (snd p) = m_vecReliableSegments (snd q)"
      using fr p(1) unfolding pkt_frame_def by blast
    obtain y where y: "segment_of (run_state r) h = Some y" "seg_static x = seg_static y" using fr p(3) unfolding pkt_frame_def by blast
    have "(fst q, seg_lane y, seg_range y) \<in> set (run_carried r)" using P(2) q(1) y(1) p(2) unfolding q(3) by blast
    then show ?thesis using q(2) static_range [OF y(2)] by simp
  qed
  ultimately have "run_inv r'" using C(2) inv unfolding run_inv_def r' seg by (auto simp: len)
  then show ?thesis by (simp add: goes_on_def r' len)
qed

lemma ack_goes_on:
  assumes inv: "run_inv r" and ev: "event_ok (Ack latest blocks) r"
  shows "goes_on (sender_step b (Ack latest blocks) r) r"
proof -
  define s where "s = run_state r"
  define N where "N = acked_by (m_nMinPktWaitingOnAck s) (latest + 1) blocks"
  obtain C where C: "sender_inv s (run_lanes r) C (acked_ranges r)"
    and P: "\<forall>p \<in> set (m_mapInFlightPacketsByPktNum s). \<forall>h \<in> set (m_vecReliableSegments (snd p)).
        \<forall>x. segment_of s h = Some x \<longrightarrow> (fst p, seg_lane x, seg_range x) \<in> set (run_carried r)"
    unfolding s_def using inv by (rule run_invE)
  have g: "0 \<le> latest" "\<forall>(a, n) \<in> set blocks. 0 \<le> a \<and> 0 \<le> n" using ev by (auto simp: event_ok_def list_all_iff)
  define A' where "A' = {x. \<exists>n \<in> run_acked r \<union> N. (n, x) \<in> set (run_carried r)}"
  have cov: "covered s N A'" using P unfolding covered_def A'_def by blast
  have min: "0 \<le> m_nMinPktWaitingOnAck s" using C by (simp add: sender_inv_def)
  have ra: "\<exists>ok s1 s2. receive_ack latest blocks s = Some (ok, s1) \<and> table_ok s1 C A' \<and> pkt_frame s s2 \<and>
      s1 = s2\<lparr>m_nMinPktWaitingOnAck := (if ok then max (m_nMinPktWaitingOnAck s) latest else m_nMinPktWaitingOnAck s)\<rparr>"
    if "table_ok s C (acked_ranges r)" for C
  proof (rule receive_ack_ok [OF _ g(1) min cov [unfolded N_def] g(2)])
    have "acked_ranges r \<subseteq> A'" by (auto simp: acked_ranges_def A'_def)
    then show "table_ok s C A'" using that segs_ok_mono unfolding table_ok_def by blast
  qed
  obtain ok s1 s2 where s1: "receive_ack latest blocks s = Some (ok, s1)" "pkt_frame s s2"
    "s1 = s2\<lparr>m_nMinPktWaitingOnAck := (if ok then max (m_nMinPktWaitingOnAck s) latest else m_nMinPktWaitingOnAck s)\<rparr>"
    using ra [of C] C unfolding sender_inv_def by blast
  define r' where "r' = r\<lparr>run_state := s1, run_acked := run_acked r \<union> N\<rparr>"
  have acked: "acked_ranges r' = A'" by (simp add: acked_ranges_def r'_def A'_def)
  have "goes_on (Some r') r"
  proof (rule run_inv_frame [OF inv s1(2) [unfolded s_def]])
    show "0 \<le> (if ok then max (m_nMinPktWaitingOnAck s) latest else m_nMinPktWaitingOnAck s)" using min by (simp add: max_def)
    show "table_ok s2 C (acked_ranges r')" if "table_ok (run_state r) C (acked_ranges r)" for C
      using ra [of C] that s1(1,3) by (auto simp: acked s_def table_ok_min)
  qed (simp_all add: r'_def s1(3))
  then show ?thesis using s1(1) by (simp add: sender_step_def s_def N_def r'_def)
qed

lemma timeouts_goes_on:
  assumes inv: "run_inv r" and ev: "event_ok (Timeouts now rto pings recent) r"
  shows "goes_on (sender_step b (Timeouts now rto pings recent) r) r"
proof -
  have g: "0 \<le> rto" using ev by (simp add: event_ok_def)
  obtain C where C: "sender_inv (run_state r) (run_lanes r) C (acked_ranges r)" using inv by (rule run_invE)
  then have t: "table_ok (run_state r) C (acked_ranges r)" "0 \<le> m_nMinPktWaitingOnAck (run_state r)" by (simp_all add: sender_inv_def)
  obtain x s1 where s1: "SNP_SenderCheckInFlightPackets now rto pings recent (run_state r) = Some (x, s1)"
    "pkt_frame (run_state r) s1" using CheckInFlightPackets_ok [OF t(1) g] by blast
  define r' where "r' = r\<lparr>run_state := s1\<rparr>"
  have ac: "acked_ranges r' = acked_ranges r" by (simp add: acked_ranges_def r'_def)
  have "goes_on (Some r') r"
  proof (rule run_inv_frame [OF inv s1(2)])
    show "0 \<le> m_nMinPktWaitingOnAck s1" using t(2) s1(2) by (simp add: pkt_frame_def)
    show "table_ok s1 C (acked_ranges r')" if "table_ok (run_state r) C (acked_ranges r)" for C
      using CheckInFlightPackets_ok [OF that g, of now pings recent] s1(1) by (simp add: ac)
  qed (simp_all add: r'_def)
  then show ?thesis using s1(1) by (simp add: sender_step_def r'_def)
qed

lemma non_data_goes_on:
  assumes inv: "run_inv r" and ev: "event_ok (NonData now) r"
  shows "goes_on (sender_step b (NonData now) r) r"
proof -
  define s where "s = run_state r"
  obtain C where C: "sender_inv s (run_lanes r) C (acked_ranges r)"
    "\<forall>(n, i, rg) \<in> set (run_carried r). i < length (send_lanes s) \<and> rg \<in> set (C i)"
    using inv unfolding run_inv_def s_def by blast
  have P: "\<forall>p \<in> set (m_mapInFlightPacketsByPktNum s). fst p < m_nNextSendSequenceNumber r \<and> m_usecWhenSent (snd p) \<le> run_now r"
    "\<forall>p \<in> set (m_mapInFlightPacketsByPktNum s). \<forall>h \<in> set (m_vecReliableSegments (snd p)).
        \<forall>x. segment_of s h = Some x \<longrightarrow> (fst p, seg_lane x, seg_range x) \<in> set (run_carried r)"
    "0 < m_nNextSendSequenceNumber r"
    using inv unfolding run_inv_def s_def by blast+
  define n where "n = m_nNextSendSequenceNumber r"
  have g: "run_now r \<le> now" using ev by (simp add: event_ok_def)
  define pkt where "pkt = \<lparr>m_usecWhenSent = now, m_bNack = False, m_vecReliableSegments = []\<rparr>"
  define it where "it = (if m_itNextInFlightPacketToTimeout s = None then Some n else m_itNextInFlightPacketToTimeout s)"
  define s' where "s' = s\<lparr>m_mapInFlightPacketsByPktNum := m_mapInFlightPacketsByPktNum s @ [(n, pkt)], m_itNextInFlightPacketToTimeout := it\<rparr>"
  define r' where "r' = r\<lparr>run_state := s', m_nNextSendSequenceNumber := n + 1, run_now := now\<rparr>"
  have "SNP_SentNonDataPacket (n + 1) now s = s'" by (simp add: SNP_SentNonDataPacket_def s'_def it_def pkt_def Let_def)
  then have st: "sender_step b (NonData now) r = Some r'" by (simp add: sender_step_def n_def [symmetric] s_def [symmetric] r'_def)
  have t: "segs_ok s C (acked_ranges r)" "refs_ok s (m_mapInFlightPacketsByPktNum s) [] {}" "counts_ok s"
    "pkts_ok (m_itNextInFlightPacketToTimeout s) (m_mapInFlightPacketsByPktNum s)"
    using C(1) by (simp_all add: sender_inv_def table_ok_def)
  have num: "\<forall>p \<in> set (m_mapInFlightPacketsByPktNum s). fst p < n \<and> m_usecWhenSent (snd p) \<le> m_usecWhenSent pkt"
    using P(1) g by (auto simp: n_def pkt_def)
  have "refs_ok s (m_mapInFlightPacketsByPktNum s @ [(n, pkt)]) [] {}"
    unfolding pkt_def by (rule refs_ok_sent) (use t(2) in simp_all)
  moreover have "pkts_ok it (m_mapInFlightPacketsByPktNum s @ [(n, pkt)])"
    unfolding it_def by (rule pkts_ok_append [OF t(4) num]) (simp_all add: pkt_def)
  ultimately have tok: "table_ok s' C (acked_ranges r)" unfolding s'_def by (intro table_ok_track t(1,3))
  have seg: "segment_of s' h = segment_of s h" for h by (simp add: s'_def)
  have lanes: "send_lanes s' = send_lanes s" "m_nMinPktWaitingOnAck s' = m_nMinPktWaitingOnAck s"
    "m_mapInFlightPacketsByPktNum s' = m_mapInFlightPacketsByPktNum s @ [(n, pkt)]" by (simp_all add: s'_def)
  have "sender_inv s' (run_lanes r) C (acked_ranges r)" using C(1) tok by (simp add: sender_inv_def lanes msgs_ok_def seg)
  moreover have "acked_ranges r' = acked_ranges r" by (simp add: acked_ranges_def r'_def)
  ultimately have "run_inv r'"
    using C(2) P num by (auto simp: run_inv_def r'_def lanes seg n_def pkt_def)
  then show ?thesis by (simp add: goes_on_def st) (simp add: r'_def s_def lanes)
qed

text \<open>A packet, when the segments can be collected.\<close>

lemma packet_goes_on:
  assumes inv: "run_inv r" and ev: "event_ok (Packet frames room maxseg pick ok now) r"
    and col: "(case room of None \<Rightarrow> Some (run_state r, \<lparr>m_cbRemainingForSegments = 0, collector_lanes = []\<rparr>)
       | Some cb \<Rightarrow> collect_segments cb maxseg pick (run_state r)) = Some (s1, c)"
  shows "goes_on (sender_step b (Packet frames room maxseg pick ok now) r) r"
proof -
  define s where "s = run_state r"
  obtain C where C: "sender_inv s (run_lanes r) C (acked_ranges r)"
    "\<forall>(n, i, rg) \<in> set (run_carried r). i < length (send_lanes s) \<and> rg \<in> set (C i)"
    using inv unfolding run_inv_def s_def by blast
  have P: "\<forall>p \<in> set (m_mapInFlightPacketsByPktNum s). fst p < m_nNextSendSequenceNumber r \<and> m_usecWhenSent (snd p) \<le> run_now r"
    "\<forall>p \<in> set (m_mapInFlightPacketsByPktNum s). \<forall>h \<in> set (m_vecReliableSegments (snd p)).
        \<forall>x. segment_of s h = Some x \<longrightarrow> (fst p, seg_lane x, seg_range x) \<in> set (run_carried r)"
    "0 < m_nNextSendSequenceNumber r"
    using inv unfolding run_inv_def s_def by blast+
  define n where "n = m_nNextSendSequenceNumber r"
  have g: "0 < maxseg" "run_now r \<le> now" using ev by (simp_all add: event_ok_def)
  have num: "\<forall>p \<in> set (m_mapInFlightPacketsByPktNum s). fst p < n \<and> m_usecWhenSent (snd p) \<le> now" using P(1) g(2) by (auto simp: n_def)
  obtain sent bs s' C' hs where sp: "SNP_SendPacket frames room maxseg pick ok n now s = Some (sent, bs, s')"
    and C': "sender_inv s' (run_lanes r) C' (acked_ranges r)" "send_frame s s'" "\<forall>i. \<exists>rs. C' i = C i @ rs"
    "m_mapInFlightPacketsByPktNum s' = m_mapInFlightPacketsByPktNum s @
      (if sent then [(n, \<lparr>m_usecWhenSent = now, m_bNack = False, m_vecReliableSegments = hs\<rparr>)] else [])"
    using SendPacket_ok [OF C(1) g(1) col [folded s_def] num, of frames ok] by blast
  define r' where "r' = r\<lparr>run_state := s', m_nNextSendSequenceNumber := n + 1, run_now := now,
          run_carried := run_carried r @ (if sent then carries n s' else [])\<rparr>"
  have st: "sender_step b (Packet frames room maxseg pick ok now) r = Some r'"
    using sp by (simp add: sender_step_def s_def n_def Let_def r'_def)
  have len: "length (send_lanes s') = length (send_lanes s)" using C'(2) by (simp add: send_frame_def)
  have t': "segs_ok s' C' (acked_ranges r)" "refs_ok s' (m_mapInFlightPacketsByPktNum s') [] {}"
    using C'(1) by (simp_all add: sender_inv_def table_ok_def)
  have car: "x \<in> set (carries n s') \<longleftrightarrow> (\<exists>h \<in> set hs. \<exists>y. segment_of s' h = Some y \<and> x = (n, seg_lane y, seg_range y))" if sent for x
  proof -
    have "m_vecReliableSegments (snd (last (m_mapInFlightPacketsByPktNum s'))) = hs" using C'(4) that by simp
    then show ?thesis by (simp add: in_carries)
  qed
  have "\<exists>C. sender_inv (run_state r') (run_lanes r') C (acked_ranges r') \<and>
    (\<forall>(n, i, rg) \<in> set (run_carried r'). i < length (send_lanes (run_state r')) \<and> rg \<in> set (C i))"
  proof (intro exI [of _ C'] conjI)
    have "acked_ranges r \<subseteq> acked_ranges r'" by (rule acked_mono) (simp_all add: r'_def)
    then show "sender_inv (run_state r') (run_lanes r') C' (acked_ranges r')"
      using sender_inv_mono [OF C'(1)] by (simp add: r'_def)
    show "\<forall>(n, i, rg) \<in> set (run_carried r'). i < length (send_lanes (run_state r')) \<and> rg \<in> set (C' i)"
    proof
      fix x assume "x \<in> set (run_carried r')"
      then consider "x \<in> set (run_carried r)" | "sent" "x \<in> set (carries n s')" by (auto simp: r'_def split: if_splits)
      then show "case x of (n, i, rg) \<Rightarrow> i < length (send_lanes (run_state r')) \<and> rg \<in> set (C' i)"
      proof cases
        case 1
        obtain k i rg where x: "x = (k, i, rg)" by (cases x) auto
        have "i < length (send_lanes s)" "rg \<in> set (C i)" using 1 C(2) by (auto simp: x)
        moreover obtain rs where "C' i = C i @ rs" using C'(3) by blast
        ultimately show ?thesis by (simp add: x r'_def len)
      next
        case 2
        then obtain h y where y: "segment_of s' h = Some y" "x = (n, seg_lane y, seg_range y)" using car by blast
        then show ?thesis using t'(1) unfolding segs_ok_def by (auto simp: r'_def)
      qed
    qed
  qed
  moreover have "fst p < n + 1 \<and> m_usecWhenSent (snd p) \<le> now" if "p \<in> set (m_mapInFlightPacketsByPktNum s')" for p
  proof (cases "p \<in> set (m_mapInFlightPacketsByPktNum s)")
    case True
    then show ?thesis using num by force
  next
    case False
    then show ?thesis using that C'(4) by (auto split: if_splits)
  qed
  moreover have "(fst p, seg_lane x, seg_range x) \<in> set (run_carried r')"
    if p: "p \<in> set (m_mapInFlightPacketsByPktNum s')" "h \<in> set (m_vecReliableSegments (snd p))" "segment_of s' h = Some x" for p h x
  proof (cases "p \<in> set (m_mapInFlightPacketsByPktNum s)")
    case True
    have "segs_ok s C (acked_ranges r)" "refs_ok s (m_mapInFlightPacketsByPktNum s) [] {}" using C(1) by (simp_all add: sender_inv_def table_ok_def)
    then have "segment_of s h \<noteq> None" "\<And>y. segment_of s h = Some y \<Longrightarrow> h < next_segment_handle s"
      using True p(2) segs_okD(4) by (auto simp: refs_ok_def)
    then have "h < next_segment_handle s" by blast
    then obtain y where y: "segment_of s h = Some y" "seg_static x = seg_static y" using C'(2) p(3) unfolding send_frame_def by blast
    then have "(fst p, seg_lane y, seg_range y) \<in> set (run_carried r)" using P(2) True p(2) by blast
    then show ?thesis using static_range [OF y(2)] by (simp add: r'_def)
  next
    case False
    then have "sent" "p = (n, \<lparr>m_usecWhenSent = now, m_bNack = False, m_vecReliableSegments = hs\<rparr>)" using p(1) C'(4) by (auto split: if_splits)
    then show ?thesis using p(2,3) car by (auto simp: r'_def)
  qed
  ultimately have "run_inv r'" using P(3) by (simp add: run_inv_def r'_def n_def)
  then show ?thesis using len by (simp add: goes_on_def st) (simp add: r'_def s_def)
qed

lemma run_step_ok:
  assumes inv: "run_inv r" and ev: "event_ok e r" and st: "sender_step b e r = Some r'"
  shows "run_inv r' \<and> length (send_lanes (run_state r')) = length (send_lanes (run_state r))"
proof -
  have "goes_on (sender_step b e r) r"
  proof (cases e)
    case (Packet frames room maxseg pick ok now)
    obtain s1 c where "(case room of None \<Rightarrow> Some (run_state r, \<lparr>m_cbRemainingForSegments = 0, collector_lanes = []\<rparr>)
       | Some cb \<Rightarrow> collect_segments cb maxseg pick (run_state r)) = Some (s1, c)"
      using st Packet by (cases room) (auto simp: sender_step_def SNP_SendPacket_def Let_def split: bind_splits)
    then show ?thesis using packet_goes_on inv ev Packet by simp
  qed (use send_goes_on ack_goes_on non_data_goes_on timeouts_goes_on inv ev in simp_all)
  then show ?thesis using st by (simp add: goes_on_def)
qed

lemma sender_run_inv: "sender_run b n r \<Longrightarrow> run_inv r \<and> length (send_lanes (run_state r)) = n"
proof (induction rule: sender_run.induct)
  case start
  then show ?case using run_inv_new by (simp add: run_new_def sender_new_fields)
next
  case (step r e r')
  then show ?case using run_step_ok by metis
qed

end
