(* ===== verification/SnpSenderSafe.thy ===== *)
theory SnpSenderSafe
  imports SnpSenderMachine
begin

text \<open>What holds in every state of the sender that a run reaches, and what it means for the receiver.\<close>

subsection \<open>Facts of a reachable state\<close>

lemma reachable_facts:
  assumes "sender_run b n r"
  obtains C where "sender_inv (run_state r) (run_lanes r) C (acked_ranges r)" "length (send_lanes (run_state r)) = n"
    "\<forall>(k, i, rg) \<in> set (run_carried r). i < n \<and> rg \<in> set (C i)"
  using sender_run_inv [OF assms] unfolding run_inv_def by auto

lemma tiles_cover: "tiles p rs e \<Longrightarrow> p \<le> q \<Longrightarrow> q < e \<Longrightarrow> \<exists>r \<in> set rs. fst r \<le> q \<and> q < snd r"
proof (induction p rs e rule: tiles.induct)
  case (2 p a b rs e)
  then show ?case by (cases "q < b") auto
qed simp

lemma tiles_disjoint:
  assumes "tiles p rs e" "r \<in> set rs" "r' \<in> set rs"
  shows "r = r' \<or> snd r \<le> fst r' \<or> snd r' \<le> fst r"
  using assms
proof (induction p rs e rule: tiles.induct)
  case (2 p a b rs e)
  have rest: "x = (a, b) \<or> b \<le> fst x" if "x \<in> set ((a, b) # rs)" for x using tiles_begin [of b rs e x] "2.prems"(1) that by auto
  show ?case
  proof (cases "r = (a, b) \<or> r' = (a, b)")
    case True
    then show ?thesis using rest [OF "2.prems"(2)] rest [OF "2.prems"(3)] by auto
  next
    case False
    then show ?thesis using 2 by auto
  qed
qed simp

lemma byte_somewhere:
  assumes "sender_run b n r" "i < n" "1 \<le> p" "p < lane_sent (send_lanes (run_state r) ! i)"
  shows "(\<exists>h x. segment_of (run_state r) h = Some x \<and> seg_lane x = i \<and> seg_begin x \<le> p \<and> p < seg_begin x + m_cbSize x \<and>
       m_hStatusOrRetry x \<noteq> k_nStatus_Acked \<and>
       (h \<in> set (m_listReadyRetryReliableRange (run_state r)) \<or>
        (\<exists>q \<in> set (m_mapInFlightPacketsByPktNum (run_state r)). \<not> m_bNack (snd q) \<and> h \<in> set (m_vecReliableSegments (snd q))))) \<or>
    (\<exists>k s e. k \<in> run_acked r \<and> (k, i, s, e) \<in> set (run_carried r) \<and> s \<le> p \<and> p < e)"
proof -
  obtain C where C: "sender_inv (run_state r) (run_lanes r) C (acked_ranges r)" "length (send_lanes (run_state r)) = n"
    using reachable_facts [OF assms(1)] by blast
  have "tiles 1 (C i) (lane_sent (send_lanes (run_state r) ! i))" using C assms(2) by (simp add: sender_inv_def)
  then obtain rg where rg: "rg \<in> set (C i)" "fst rg \<le> p" "p < snd rg" using tiles_cover assms(3,4) by blast
  have ok: "segs_ok (run_state r) C (acked_ranges r)" "refs_ok (run_state r) (m_mapInFlightPacketsByPktNum (run_state r)) [] {}"
    using C(1) by (simp_all add: sender_inv_def table_ok_def)
  consider (acked) "(i, rg) \<in> acked_ranges r" | (there) h x where "segment_of (run_state r) h = Some x" "seg_lane x = i" "seg_range x = rg"
    "m_hStatusOrRetry x \<noteq> k_nStatus_Acked"
    using ok(1) rg(1) unfolding segs_ok_def by blast
  then show ?thesis
  proof cases
    case acked
    then obtain k where "k \<in> run_acked r" "(k, i, rg) \<in> set (run_carried r)" by (auto simp: acked_ranges_def)
    then show ?thesis using rg(2,3) by (intro disjI2 exI [of _ k] exI [of _ "fst rg"] exI [of _ "snd rg"]) simp
  next
    case there
    have "h \<in> set (m_listReadyRetryReliableRange (run_state r)) \<or>
        (\<exists>q \<in> set (m_mapInFlightPacketsByPktNum (run_state r)). \<not> m_bNack (snd q) \<and> h \<in> set (m_vecReliableSegments (snd q)))"
    proof (cases "m_hStatusOrRetry x")
      case k_nStatus_InFlight
      then show ?thesis using ok(2) there(1) unfolding refs_ok_def by blast
    next
      case k_nStatus_Retry
      then show ?thesis using segs_okD(5) [OF ok(1)] there(1) by blast
    qed (use there(4) in simp)
    with there rg(2,3) show ?thesis by (intro disjI1 exI [of _ h] exI [of _ x]) (auto simp: seg_range_def)
  qed
qed

subsection \<open>The checks of the paranoid mode\<close>



subsection \<open>A concrete run\<close>

definition first_lane :: "SSNPSenderState \<Rightarrow> nat option" where
  "first_lane s = find (\<lambda>i. lane_messagesQueued (send_lanes s ! i) \<noteq> []) [0..<length (send_lanes s)]"

text \<open>Two messages in three packets, the first of which times out and is sent again.\<close>

definition some_events :: "sender_event list" where
  "some_events = [Send 0 8 (replicate 40 7), Send 1 8 [1, 2, 3], Packet [] (Some 30) 100 first_lane True 10,
     Packet [] (Some 100) 100 first_lane True 20, NonData 25, Timeouts 35 20 1 20, Packet [] (Some 100) 100 first_lane True 40, Ack 2 [(1, 1)]]"

definition checked :: "(SenderRun \<Rightarrow> bool) \<Rightarrow> sender_event list \<Rightarrow> bool" where
  "checked P es = (case sender_steps 1000 es (run_new 2) of None \<Rightarrow> False | Some r \<Rightarrow> P r)"

lemma checked_run: "checked P es \<Longrightarrow> \<exists>r. sender_run 1000 2 r \<and> sender_steps 1000 es (run_new 2) = Some r \<and> P r"
  using sender_steps_run [OF sender_run.start] by (auto simp: checked_def split: option.splits)



subsection \<open>No loss\<close>



lemma lane_pending_nonneg:
  assumes "lane_ok l g"
  shows "0 \<le> lane_pending l"
proof -
  have nn: "0 \<le> queue_pending 0 ms" for ms by (simp add: queue_pending_eq)
  show ?thesis
  proof (cases "lane_messagesQueued l")
    case (Cons m ms)
    then have "m_cbCurrentSendMessageSent l \<le> out_size m" using assms by (simp add: lane_ok_def)
    then show ?thesis using nn [of ms] Cons by (simp add: lane_pending_def)
  qed (simp add: lane_pending_def)
qed

lemma sum_list_zero: "(\<forall>x \<in> set xs. 0 \<le> f x) \<Longrightarrow> sum_list (map f xs) = (0 :: int) \<Longrightarrow> x \<in> set xs \<Longrightarrow> f x = 0"
proof (induction xs)
  case (Cons a xs)
  have "0 \<le> sum_list (map f xs)" using Cons.prems(1) by (intro sum_list_nonneg) auto
  with Cons show ?case by auto
qed simp

text \<open>
  When the counters of bytes pending and of bytes on the wire are zero, as a connection that lingers waits for,
  every byte of every reliable message that was ever accepted was carried by a packet that the peer has acked.
\<close>
theorem counters_zero_all_acked:
  assumes "sender_run b n r" "m_cbPendingReliable (run_state r) = 0" "m_cbSentUnackedReliable (run_state r) = 0"
    "i < n" "1 \<le> p" "p \<le> int (length (concat (map sent_bytes (reliable_queue (run_lanes r i)))))"
  shows "\<exists>k s e. k \<in> run_acked r \<and> (k, i, s, e) \<in> set (run_carried r) \<and> s \<le> p \<and> p < e"
proof -
  define s where "s = run_state r"
  obtain C where C: "sender_inv s (run_lanes r) C (acked_ranges r)" "length (send_lanes s) = n"
    using reachable_facts [OF assms(1)] unfolding s_def by blast
  then have t: "segs_ok s C (acked_ranges r)" "counts_ok s" and lanes: "\<And>i. i < n \<Longrightarrow> lane_ok (send_lanes s ! i) (run_lanes r i)"
    by (simp_all add: sender_inv_def table_ok_def)
  note d = segs_okD [OF t(1)]
  have nn: "\<forall>l \<in> set (send_lanes s). 0 \<le> lane_pending l" using lanes C(2) lane_pending_nonneg by (metis in_set_conv_nth)
  have sums: "0 \<le> sum_segs Q s" "sum_segs Q s = 0 \<Longrightarrow> segment_of s h = Some x \<Longrightarrow> \<not> Q x" for Q h x
  proof -
    have pos: "\<forall>q \<in> set (m_listSentReliableSegments s). 0 \<le> (if Q (snd q) then m_cbSize (snd q) else 0)"
    proof
      fix q assume "q \<in> set (m_listSentReliableSegments s)"
      then have "segment_of s (fst q) = Some (snd q)" using d(1) by (simp add: segment_of_def)
      then show "0 \<le> (if Q (snd q) then m_cbSize (snd q) else 0)" using d(3) by fastforce
    qed
    then show "0 \<le> sum_segs Q s" unfolding sum_segs_eq by (intro sum_list_nonneg) auto
    assume z: "sum_segs Q s = 0" and x: "segment_of s h = Some x"
    then have "(h, x) \<in> set (m_listSentReliableSegments s)" by (simp add: segment_of_def map_of_SomeD)
    then have "(if Q x then m_cbSize x else 0) = 0" using sum_list_zero [OF pos] z unfolding sum_segs_eq by fastforce
    then show "\<not> Q x" using d(3) [OF x] by (auto split: if_splits)
  qed
  have "0 \<le> sum_list (map lane_pending (send_lanes s))" using nn by (intro sum_list_nonneg) auto
  moreover have tot: "sum_segs (\<lambda>x. m_hStatusOrRetry x = k_nStatus_Retry) s + sum_list (map lane_pending (send_lanes s)) = 0"
    "sum_segs (\<lambda>x. m_hStatusOrRetry x = k_nStatus_InFlight) s = 0"
    using t(2) assms(2,3) by (simp_all add: counts_ok_def s_def)
  ultimately have z: "sum_segs (\<lambda>x. m_hStatusOrRetry x = k_nStatus_Retry) s = 0" "sum_list (map lane_pending (send_lanes s)) = 0"
    using sums(1) [of "\<lambda>x. m_hStatusOrRetry x = k_nStatus_Retry"] by simp_all
  have "send_lanes s ! i \<in> set (send_lanes s)" using assms(4) C(2) by simp
  then have lp: "lane_pending (send_lanes s ! i) = 0" using sum_list_zero [OF nn z(2)] by blast
  have "m_nReliableStreamNextSendPos (send_lanes s ! i) = 1 + int (length (concat (map sent_bytes (reliable_queue (run_lanes r i)))))"
    using lanes [OF assms(4)] by (simp add: lane_ok_def send_lane_ok_def)
  then have "p < lane_sent (send_lanes s ! i)" using assms(6) lp by (simp add: lane_sent_def)
  moreover have "m_hStatusOrRetry x = k_nStatus_Acked" if "segment_of s h = Some x" for h x
    using sums(2) [OF z(1) that] sums(2) [OF tot(2) that] by (cases "m_hStatusOrRetry x") auto
  ultimately show ?thesis using byte_somewhere [OF assms(1,4,5)] unfolding s_def [symmetric] by metis
qed

text \<open>The rest arrives as well.\<close>

definition all_events :: "sender_event list" where
  "all_events = some_events @ [Ack 4 [(3, 0)]]"

theorem counters_zero_all_acked_witness:
  "\<exists>r. sender_run 1000 2 r \<and> m_cbPendingReliable (run_state r) = 0 \<and> m_cbSentUnackedReliable (run_state r) = 0 \<and>
    (\<exists>k s e. k \<in> run_acked r \<and> (k, 0, s, e) \<in> set (run_carried r) \<and> s \<le> 20 \<and> 20 < e)"
proof -
  have "checked (\<lambda>r. m_cbPendingReliable (run_state r) = 0 \<and> m_cbSentUnackedReliable (run_state r) = 0 \<and>
      length (concat (map sent_bytes (reliable_queue (run_lanes r 0)))) = 42) all_events" by code_simp
  from checked_run [OF this] obtain r where r: "sender_run 1000 2 r" "m_cbPendingReliable (run_state r) = 0"
    "m_cbSentUnackedReliable (run_state r) = 0" "length (concat (map sent_bytes (reliable_queue (run_lanes r 0)))) = 42" by blast
  show ?thesis
    by (intro exI [of _ r] conjI counters_zero_all_acked [OF r(1-3)]) (use r in simp_all)
qed

end
