(* ===== verification/SnpSenderStream.thy ===== *)
theory SnpSenderStream
  imports SnpSenderSafe
begin

text \<open>
  Sender and receiver together. The segments that a run of the sender puts into packets cut the stream of each lane, so the
  runs of the receiver (theory \<open>SnpStream\<close>) apply to them; what a sender waits for before it lets go of a lingering
  connection then means that the other side has every message.
\<close>

subsection \<open>Segments of the stream\<close>

lemma placed_bytes:
  assumes "placed p ms" "m \<in> set ms" "0 \<le> off" "0 \<le> n" "off + n \<le> out_size m"
  shows "take (nat n) (drop (nat off) (sent_bytes m)) =
    take (nat n) (drop (nat (out_stream_pos m + off - p)) (concat (map sent_bytes ms)))"
  using assms
proof (induction ms arbitrary: p)
  case (Cons a ms)
  show ?case
  proof (cases "m = a")
    case True
    have "nat n + nat off \<le> length (sent_bytes m)" using Cons.prems(3-5) by (simp add: out_size_eq)
    then show ?thesis using Cons.prems(1) True by simp
  next
    case False
    then have m: "m \<in> set ms" "placed (p + int (length (sent_bytes a))) ms" using Cons.prems(1,2) by simp_all
    have "p + int (length (sent_bytes a)) \<le> out_stream_pos m" using placed_size [OF m(2,1)] by simp
    then have e: "nat (out_stream_pos m + off - p) = length (sent_bytes a) + nat (out_stream_pos m + off - (p + int (length (sent_bytes a))))"
      using Cons.prems(3) by simp
    show ?thesis using Cons.IH [OF m(2,1) Cons.prems(3-5)] by (simp add: e)
  qed
qed simp

lemma reachable_lane:
  assumes "sender_run b n r" "i < n"
  shows "send_lane_ok (run_lanes r i)" "lane_ok (send_lanes (run_state r) ! i) (run_lanes r i)"
proof -
  obtain C where "sender_inv (run_state r) (run_lanes r) C (acked_ranges r)" "length (send_lanes (run_state r)) = n"
    using reachable_facts [OF assms(1)] by blast
  then show "lane_ok (send_lanes (run_state r) ! i) (run_lanes r i)" using assms(2) by (simp add: sender_inv_def)
  then show "send_lane_ok (run_lanes r i)" by (simp add: lane_ok_def)
qed

lemma lane_sent_bound:
  assumes "lane_ok l g"
  shows "lane_sent l \<le> 1 + int (length (concat (map sent_bytes (reliable_queue g))))"
  using lane_pending_nonneg [OF assms] assms by (simp add: lane_sent_def lane_ok_def send_lane_ok_def)

lemma segments_tile:
  assumes "sender_run b n r" "i < n"
  shows "segments_ok {rg. \<exists>k. (k, i, rg) \<in> set (run_carried r)} (length (concat (map sent_bytes (reliable_queue (run_lanes r i)))))"
proof -
  obtain C where C: "sender_inv (run_state r) (run_lanes r) C (acked_ranges r)" "length (send_lanes (run_state r)) = n"
    "\<forall>(k, i, rg) \<in> set (run_carried r). i < n \<and> rg \<in> set (C i)" using reachable_facts [OF assms(1)] by blast
  have t: "tiles 1 (C i) (lane_sent (send_lanes (run_state r) ! i))" using C assms(2) by (simp add: sender_inv_def)
  have "{rg. \<exists>k. (k, i, rg) \<in> set (run_carried r)} \<subseteq> set (C i)" using C(3) by blast
  moreover have "segments_ok (set (C i)) (length (concat (map sent_bytes (reliable_queue (run_lanes r i)))))"
    unfolding segments_ok_def
  proof (intro conjI ballI)
    fix s assume s: "s \<in> set (C i)"
    show "1 \<le> fst s" "fst s < snd s" "snd s \<le> 1 + int (length (concat (map sent_bytes (reliable_queue (run_lanes r i)))))"
      using tiles_begin [OF t s] lane_sent_bound [OF reachable_lane(2) [OF assms]] by linarith+
  qed (rule tiles_disjoint [OF t])
  ultimately show ?thesis unfolding segments_ok_def by blast
qed

text \<open>
  C6: Segments tile the stream. The ranges that packets carried lie in the stream of the lane, two of them are the same
  or do not overlap, however often messages were cut, sent again or held back; and the bytes of every segment in
  the table are the bytes of the stream at its place.
\<close>
theorem segments_tile_stream:
  assumes "sender_run b n r" "i < n" "stream = concat (map sent_bytes (reliable_queue (run_lanes r i)))"
  shows "segments_ok {rg. \<exists>k. (k, i, rg) \<in> set (run_carried r)} (length stream) \<and>
    (\<forall>h x. segment_of (run_state r) h = Some x \<and> seg_lane x = i \<longrightarrow>
       reliable_bytes (seg_msg x) (m_nOffset x) (m_cbSize x) = Some (seg_bytes stream (seg_begin x) (seg_begin x + m_cbSize x)))"
proof -
  obtain C where C: "sender_inv (run_state r) (run_lanes r) C (acked_ranges r)" using reachable_facts [OF assms(1)] by blast
  note lane = reachable_lane [OF assms(1,2)]
  have "reliable_bytes (seg_msg x) (m_nOffset x) (m_cbSize x) = Some (seg_bytes stream (seg_begin x) (seg_begin x + m_cbSize x))"
    if x: "segment_of (run_state r) h = Some x" "seg_lane x = i" for h x
  proof -
    have "segs_ok (run_state r) C (acked_ranges r)" "msgs_ok (run_state r) (run_lanes r)" using C by (simp_all add: sender_inv_def table_ok_def)
    then have m: "0 < m_cbSize x" "seg_msg x \<in> set (reliable_queue (run_lanes r i))" "0 \<le> m_nOffset x" "m_nOffset x + m_cbSize x \<le> out_size (seg_msg x)"
      using segs_okD(3) [of "run_state r" C "acked_ranges r" h x] x unfolding msgs_ok_def by auto
    have "placed 1 (reliable_queue (run_lanes r i))" using lane(1) by (simp add: send_lane_ok_def)
    from placed_bytes [OF this m(2,3) _ m(4)] show ?thesis
      using reliable_bytes_ok [OF m(3) _ m(4)] m(1) assms(3) by (simp add: seg_bytes_def seg_begin_def)
  qed
  then show ?thesis using segments_tile [OF assms(1,2)] unfolding assms(3) by blast
qed

theorem segments_tile_stream_witness:
  "\<exists>r. sender_run 1000 2 r \<and> segments_ok {rg. \<exists>k. (k, 0, rg) \<in> set (run_carried r)} 42 \<and>
    (\<forall>h x. segment_of (run_state r) h = Some x \<and> seg_lane x = 0 \<longrightarrow>
       reliable_bytes (seg_msg x) (m_nOffset x) (m_cbSize x) =
         Some (seg_bytes ([0x28, 1] @ replicate 40 7) (seg_begin x) (seg_begin x + m_cbSize x)))"
proof -
  have "checked (\<lambda>r. concat (map sent_bytes (reliable_queue (run_lanes r 0))) = [0x28, 1] @ replicate 40 7) some_events" by code_simp
  from checked_run [OF this] obtain r where r: "sender_run 1000 2 r"
    "[0x28, 1] @ replicate 40 7 = concat (map sent_bytes (reliable_queue (run_lanes r 0)))" by metis
  have "length ([0x28, 1] @ replicate 40 (7 :: byte)) = 42" "0 < (2 :: nat)" by simp_all
  with segments_tile_stream [OF r(1) _ r(2)] r(1) show ?thesis by (intro exI [of _ r]) metis
qed

subsection \<open>End to end\<close>









end
