(* ===== verification/SnpSenderTotal.thy ===== *)
theory SnpSenderTotal
  imports SnpSenderStream
begin

text \<open>
  The sender never gets stuck: no handle without a segment, no iterator off its map, no header that overflows its 13 bytes, no
  copy outside of a message. And what it loses when a packet cannot be sent.
\<close>

subsection \<open>Headers of unreliable segments\<close>




subsection \<open>Collecting\<close>

text \<open>The scheduler picks a lane that has messages, or none.\<close>

definition picks_queued :: "nat \<Rightarrow> (SSNPSenderState \<Rightarrow> nat option) \<Rightarrow> bool" where
  "picks_queued n pick \<longleftrightarrow> (\<forall>s i. length (send_lanes s) = n \<and> pick s = Some i \<longrightarrow> i < n \<and> lane_messagesQueued (send_lanes s ! i) \<noteq> [])"

text \<open>The lane with the earliest finish time of those in \<open>J\<close>.\<close>

definition earliest :: "(nat \<Rightarrow> OutMessage \<Rightarrow> int) \<Rightarrow> SSNPSenderState \<Rightarrow> nat set \<Rightarrow> nat option \<Rightarrow> bool" where
  "earliest vft s J r \<longleftrightarrow>
     (case r of None \<Rightarrow> \<forall>j \<in> J. lane_messagesQueued (send_lanes s ! j) = []
      | Some i \<Rightarrow> i \<in> J \<and> lane_messagesQueued (send_lanes s ! i) \<noteq> [] \<and>
          (\<forall>j \<in> J. lane_messagesQueued (send_lanes s ! j) \<noteq> [] \<longrightarrow>
             vft i (hd (lane_messagesQueued (send_lanes s ! i))) \<le> vft j (hd (lane_messagesQueued (send_lanes s ! j)))))"

lemma earliest_lane_ok:
  assumes fin: "\<forall>i m. vft i m < k_virtSendTime_Infinite"
  shows "earliest vft s J found \<Longrightarrow>
    vmin = (case found of None \<Rightarrow> k_virtSendTime_Infinite | Some i \<Rightarrow> vft i (hd (lane_messagesQueued (send_lanes s ! i)))) \<Longrightarrow>
    earliest vft s (J \<union> set ks) (earliest_lane vft s ks found vmin)"
proof (induction ks arbitrary: J found vmin)
  case (Cons i ks)
  have u: "J \<union> set (i # ks) = insert i J \<union> set ks" by simp
  show ?case
  proof (cases "lane_messagesQueued (send_lanes s ! i)")
    case Nil
    then have "earliest vft s (insert i J) found" using Cons.prems(1) by (auto simp: earliest_def split: option.splits)
    with Cons.IH [OF this Cons.prems(2)] Nil show ?thesis unfolding u by simp
  next
    case q: (Cons m ms)
    show ?thesis
    proof (cases "vft i m < vmin")
      case True
      then have "earliest vft s (insert i J) (Some i)"
        using Cons.prems q by (auto simp: earliest_def split: option.splits dest: order_trans [OF less_imp_le])
      with Cons.IH [OF this, of "vft i m"] q True show ?thesis unfolding u by simp
    next
      case False
      then have "found \<noteq> None" using Cons.prems(2) fin by (auto split: option.splits)
      then have "earliest vft s (insert i J) found" using Cons.prems q False by (auto simp: earliest_def)
      with Cons.IH [OF this Cons.prems(2)] q False show ?thesis unfolding u by simp
    qed
  qed
qed simp

lemma pick_lane_ok:
  assumes fin: "\<forall>i m. vft i m < k_virtSendTime_Infinite"
  shows "case pick_lane vft pcs s of
      None \<Rightarrow> \<forall>pc \<in> set pcs. earliest vft s (set pc) None
    | Some i \<Rightarrow> \<exists>k < length pcs. earliest vft s (set (pcs ! k)) (Some i) \<and> (\<forall>pc \<in> set (take k pcs). earliest vft s (set pc) None)"
proof (induction pcs)
  case (Cons pc pcs)
  have "earliest vft s {} None" by (simp add: earliest_def)
  from earliest_lane_ok [OF fin this, of k_virtSendTime_Infinite pc]
  have c: "earliest vft s (set pc) (earliest_lane vft s pc None k_virtSendTime_Infinite)" by simp
  show ?case
  proof (cases "earliest_lane vft s pc None k_virtSendTime_Infinite")
    case (Some i)
    then show ?thesis using c by (auto intro!: exI [of _ 0])
  next
    case none: None
    show ?thesis
    proof (cases "pick_lane vft pcs s")
      case None
      then show ?thesis using Cons.IH c none by simp
    next
      case (Some i)
      then obtain k where "k < length pcs" "earliest vft s (set (pcs ! k)) (Some i)" "\<forall>pc \<in> set (take k pcs). earliest vft s (set pc) None"
        using Cons.IH by auto
      then show ?thesis using Some c none by (auto intro!: exI [of _ "Suc k"])
    qed
  qed
qed simp

text \<open>
  C7: The scheduler goes by priority. It finds no lane exactly when no lane of any class has a message; otherwise the lane it picks
  has a message, no lane of a class before its own has one, and no lane of its class has a message at the head that would
  finish earlier.
\<close>
theorem lane_picked_by_priority:
  assumes "\<forall>i m. vft i m < k_virtSendTime_Infinite" "pick_lane vft pcs s = p"
  shows "(p = None \<longleftrightarrow> (\<forall>pc \<in> set pcs. \<forall>j \<in> set pc. lane_messagesQueued (send_lanes s ! j) = [])) \<and>
    (\<forall>i. p = Some i \<longrightarrow> lane_messagesQueued (send_lanes s ! i) \<noteq> [] \<and>
       (\<exists>k < length pcs. i \<in> set (pcs ! k) \<and> (\<forall>pc \<in> set (take k pcs). \<forall>j \<in> set pc. lane_messagesQueued (send_lanes s ! j) = []) \<and>
          (\<forall>j \<in> set (pcs ! k). lane_messagesQueued (send_lanes s ! j) \<noteq> [] \<longrightarrow>
             vft i (hd (lane_messagesQueued (send_lanes s ! i))) \<le> vft j (hd (lane_messagesQueued (send_lanes s ! j))))))"
proof (cases p)
  case None
  then show ?thesis using pick_lane_ok [OF assms(1), of pcs s] assms(2) by (simp add: earliest_def)
next
  case (Some i)
  then obtain k where k: "k < length pcs" "earliest vft s (set (pcs ! k)) (Some i)" "\<forall>pc \<in> set (take k pcs). earliest vft s (set pc) None"
    using pick_lane_ok [OF assms(1), of pcs s] assms(2) by auto
  moreover have "\<not> (\<forall>pc \<in> set pcs. \<forall>j \<in> set pc. lane_messagesQueued (send_lanes s ! j) = [])"
    using k(1,2) nth_mem by (fastforce simp: earliest_def)
  ultimately show ?thesis using Some by (auto simp: earliest_def)
qed

theorem lane_picked_by_priority_witness:
  "\<exists>s. pick_lane (\<lambda>i m. min (int (length (out_data m))) 1000) [[0], [1, 2]] s = Some 2 \<and>
     lane_messagesQueued (send_lanes s ! 1) \<noteq> [] \<and> lane_messagesQueued (send_lanes s ! 2) \<noteq> []"
proof -
  define s where "s = send_all 100 [(1, 8, [1, 2]), (2, 8, [3])] (sender_new 3)"
  have e: "pick_lane (\<lambda>i m. min (int (length (out_data m))) 1000) [[0], [1, 2]] s = Some 2"
    "lane_messagesQueued (send_lanes s ! 1) \<noteq> []" unfolding s_def by code_simp+
  have "\<forall>i m. min (int (length (out_data m))) 1000 < k_virtSendTime_Infinite" by (simp add: k_virtSendTime_Infinite_def min_def)
  from lane_picked_by_priority [OF this e(1)] e show ?thesis by (intro exI [of _ s]) simp
qed

lemma pick_lane_queued:
  assumes "\<forall>i m. vft i m < k_virtSendTime_Infinite" "\<forall>pc \<in> set pcs. \<forall>i \<in> set pc. i < n"
  shows "picks_queued n (pick_lane vft pcs)"
  unfolding picks_queued_def
proof (intro allI impI)
  fix s i assume "length (send_lanes s) = n \<and> pick_lane vft pcs s = Some i"
  then show "i < n \<and> lane_messagesQueued (send_lanes s ! i) \<noteq> []"
    using pick_lane_ok [OF assms(1), of pcs s] assms(2) nth_mem by (fastforce simp: earliest_def)
qed














subsection \<open>The sender never gets stuck\<close>




subsection \<open>A packet that is not sent\<close>

text \<open>
  C8: A reference that nobody drops. When the transport does not take a packet, its segments are queued for a retry, but their
  reference counts keep the packet, which is not in the map. After a retry and its ack no byte is pending or
  unacked and no packet is on its way, yet the segment and its message stay in their lists for good.
\<close>
theorem failed_send_leaks_segment:
  "\<exists>r h x. sender_run 1000 2 r \<and>
     sender_steps 1000 [Send 0 8 [1], Packet [] (Some 100) 100 first_lane False 10, Packet [] (Some 100) 100 first_lane True 20, Ack 2 [(0, 0)]]
       (run_new 2) = Some r \<and>
     m_cbPendingReliable (run_state r) = 0 \<and> m_cbSentUnackedReliable (run_state r) = 0 \<and>
     m_listSentReliableSegments (run_state r) = [(h, x)] \<and> m_hStatusOrRetry x = k_nStatus_Acked \<and> m_nRefCount x = 1 \<and>
     map fst (m_mapInFlightPacketsByPktNum (run_state r)) = [INT64_MIN] \<and> length (m_unackedReliableMessages (run_state r)) = 1"
proof -
  have "checked (\<lambda>r. m_cbPendingReliable (run_state r) = 0 \<and> m_cbSentUnackedReliable (run_state r) = 0 \<and>
     map (\<lambda>(h, x). (m_hStatusOrRetry x, m_nRefCount x)) (m_listSentReliableSegments (run_state r)) = [(k_nStatus_Acked, 1)] \<and>
     map fst (m_mapInFlightPacketsByPktNum (run_state r)) = [INT64_MIN] \<and> length (m_unackedReliableMessages (run_state r)) = 1)
   [Send 0 8 [1], Packet [] (Some 100) 100 first_lane False 10, Packet [] (Some 100) 100 first_lane True 20, Ack 2 [(0, 0)]]" by code_simp
  from checked_run [OF this] show ?thesis by (fastforce simp: map_eq_Cons_conv)
qed

end
