(* ===== verification/Spec2Isabelle.thy ===== *)
theory Spec2Isabelle
  imports Ipv6Text UtlVectorSearch UtlPriorityQueue UtlLinkedList UtlHashMapMap ConnReceive SnpGapsDangle
    ReliableTransfer SnpStreamFlaws SnpSenderTotal
begin

text \<open>
  A verification library for the networking code of SeminarTouhou99, the library under
  \<open>src/GameNetworkingSockets\<close>. The game itself (\<open>src/\<close> apart from that directory) is a client of the library and has no
  part here. Paths below are relative to \<open>src/GameNetworkingSockets/src\<close>; SNP stands for
  \<open>steamnetworkingsockets/clientlib/steamnetworkingsockets_snp.cpp\<close> and its header.

  \<^bold>\<open>The program.\<close> A connection carries messages, reliable and unreliable, over an unreliable datagram service. On
  the sending side \<open>SNP_SendMessage\<close> checks a message, gives it a number and puts it in the queue of one of the lanes; a
  reliable message also gets a header and a place in the reliable stream of its lane. \<open>SNP_SendPacket\<close>
  fills a packet: acks for the other side first, then segments that have to be sent again, then new segments cut from the
  heads of the queues. A reliable segment is an entry of a table of sent segments, with a count of the packets
  in flight that carry it; a packet in flight is an entry of a map by packet number, which lists the handles
  of its segments. Acks, nacks and timeouts take packets out of that map or mark them as lost; an acked segment is freed
  once nothing refers to it, and a lost one goes to the list of segments to retry. On the receiving side a packet number
  is restored from its low 16 bits and checked against a window of processed packets; the frames of the packet are
  decoded; a reliable segment goes to the buffer of its lane, whose gaps it fills, and the messages that
  are complete at the head of the buffer go to the queue the application reads; and the number of the packet goes to the map
  of packet gaps, out of which the acks are made. Below all of it are the containers of \<open>tier1\<close>: growable
  memory, vector, linked list, priority queue and hash map, and the text form of IPv6 addresses.

  \<^bold>\<open>How the model is made.\<close> A class or struct is a \<open>record\<close> with the names of its members, an enum is a \<open>datatype\<close>, a
  function is a definition with the name of the function that takes the state and returns the new one. Integers whose width
  matters are words; packet numbers, stream positions, message numbers and times (\<open>int64\<close> in the code) are \<open>int\<close>, and the
  theories that rely on it bound them. What is undefined in C or C++ (an access out of bounds, a dangling iterator or
  handle, a shift by the width, an iterator that walks off its map) and a fatal assertion is the result \<open>None\<close>; an error
  the code reports is a value of its own (\<open>Rejected\<close>, \<open>Problem\<close>, a negative result, \<open>False\<close>). A theorem
  that an operation returns \<open>Some\<close> is therefore a theorem of memory safety as well. Recursion ends by structure or by
  a measure; walks along links, which end only in a well-formed structure, are partial functions, and the theorems
  say that they end there. No definition takes fuel.

  What the code takes from elsewhere is a parameter: hash and comparison functions, what fresh memory holds, the cipher, whether
  the transport took a packet, clock values, and numbers computed in floating point (the rate, virtual finish times, the
  deadline of an ack). The theorems hold for all of their values, or name what they need of them.

  \<^bold>\<open>Foundations.\<close>
  \<^item> \<open>Prelude\<close>: integer types, checked arrays, strings, decimal printing, shared lemmas.
  \<^item> \<open>Ipv6Text\<close> (\<open>tier1/ipv6text.c\<close>, all of it): \<open>IPv6IPToString\<close>, \<open>IPv6AddrToString\<close>, \<open>ParseIPv6IP\<close>, \<open>ParseIPv6Addr\<close>.
    What is printed parses to the same address, scope and port; a successful parse fills the whole buffer.

  \<^bold>\<open>Containers\<close> (\<open>public/tier1\<close>).
  \<^item> \<open>UtlMemory\<close> (\<open>utlmemory.h\<close>, \<open>tier1/utlmemory.cpp\<close>): allocation, growth, purging, external buffers.
  \<^item> \<open>UtlVector\<close>, \<open>UtlVectorSearch\<close> (\<open>utlvector.h\<close>): insertion and removal at both ends and in the middle with the block
    moves they make, refined to operations on lists; binary searches, sorted insertion, sorts.
  \<^item> \<open>UtlPriorityQueue\<close> (\<open>utlpriorityqueue.h\<close>): the heap with its position callback. The locale \<open>heap_queue\<close> is
    the interface to the less function and the callback, \<open>priority_queue\<close> the contract that it meets (a sublocale).
  \<^item> \<open>UtlLinkedList\<close> (\<open>utllinkedlist.h\<close>): the list threaded through an array, refined to a list of
    elements and shown to meet the locale \<open>fifo\<close>.
  \<^item> \<open>UtlHashMap\<close>, \<open>UtlHashMapCorrect\<close>, \<open>UtlHashMapMap\<close> (\<open>utlhashmap.h\<close>): the hash map that rehashes a few nodes
    with each operation. Its invariant, each operation, and runs of operations against a finite map (locale \<open>finite_map\<close>).

  \<^bold>\<open>Packets that arrive.\<close>
  \<^item> \<open>PktNumbers\<close> (\<open>steamnetworking_statsutils.h\<close>, \<open>steamnetworkingsockets_stats.cpp\<close>): packet numbers restored from the
    wire, the window of 128 processed packets, drop, order and jitter counters. A number within \<open>2 ^ 15\<close> of the highest one
    is restored exactly, no packet is processed twice, and exactly the new packets in the window are accepted.
  \<^item> \<open>SnpGaps\<close>, \<open>SnpGapsSchedule\<close>, \<open>SnpGapsRecord\<close>, \<open>SnpGapsRun\<close>, \<open>SnpGapsDangle\<close> (SNP): \<open>SSNPReceiverState\<close>, the map of
    packet gaps with its two iterators and the schedule of acks; \<open>SNP_RecordReceivedPktNum\<close> and what the \<open>stop_waiting\<close> frame
    and a sent ack do. Runs of these operations keep the invariant, are refined to the set of missing packets,
    always return, and ack only packets that were received. The one assumption on a run, that acks are
    sent only for gaps before the pending one, is needed: \<open>SnpGapsDangle\<close> has a run without it that leaves an iterator dangling.
  \<^item> \<open>ConnReceive\<close> (\<open>steamnetworkingsockets_connections.cpp\<close>, SNP): window and gap map together, as a received packet
    drives them.
  \<^item> \<open>VarInt\<close> (\<open>steamnetworkingsockets_internal.h\<close>): numbers of variable length on the wire, and their round trip.

  \<^bold>\<open>The reliable stream at the receiver.\<close>
  \<^item> \<open>SnpReliable\<close> (SNP, \<open>steamnetworkingsockets_connections.cpp\<close>): \<open>SNP_ReceiveReliableSegment\<close>, the decoding of messages at
    the head of the buffer, and the queue of received messages with its limits.
  \<^item> \<open>SnpSend\<close> (SNP): \<open>SNP_SendMessage\<close>, and \<open>stream_of\<close>, the stream that the messages of a lane make up.
  \<^item> \<open>SnpDispatch\<close>, \<open>SnpStream\<close>: the stream cut into segments that arrive in any order, any number of times. The
    application gets the messages in order, each once; every segment is handled without an access out of bounds.
    Messages of which every byte was acked can stay in the buffer if a segment was refused.
  \<^item> \<open>SnpStreamFlaws\<close>: what happens when a segment overlaps more than one gap.
  \<^item> \<open>ReliableTransfer\<close>: the messages that \<open>SNP_SendMessage\<close> accepted make up the stream of the lane.

  \<^bold>\<open>The sender\<close> (SNP).
  \<^item> \<open>SnpSegments\<close>: which segments go into a packet and what they look like: \<open>SNPEncodedSegment\<close>, the collectors, lane
    selection by priority and virtual time, \<open>SNP_SerializeSegments\<close>.
  \<^item> \<open>SnpInFlight\<close>: packets in flight and the table of segments: sending, acks, nacks, timeouts, expiry of old
    packets, reference counts, and the two checks that the code makes in its paranoid mode.
  \<^item> \<open>SnpSenderInv\<close>, \<open>SnpPacketInv\<close>: the invariant of table and map, and that acks, nacks, timeouts and expiry keep it.
  \<^item> \<open>SnpCollect\<close>, \<open>SnpCollectInv\<close>, \<open>SnpSerialInv\<close>: the same for the collection of segments and for writing
    them into a packet; new segments continue the stream of the lane where the last packet left off.
  \<^item> \<open>SnpSenderRun\<close>, \<open>SnpSenderMachine\<close>: the sender as a state machine (\<open>sender_run\<close>) whose environment may lose, delay and
    reorder packets and acks and let sends fail, and what holds in every state it reaches.
  \<^item> \<open>SnpSenderSafe\<close>: the checks of the paranoid mode hold in every reachable state; each byte of the stream
    that was accepted is unsent, in a segment to retry, in a segment in flight, or in a packet that was acked; when the counters that
    a lingering connection waits for are zero, everything was acked.
  \<^item> \<open>SnpSenderStream\<close>: sender and receiver together: the segments on the wire cut the stream of each lane, so the
    receiver gets its messages in order, and gets all of them once the sender stops waiting.
  \<^item> \<open>SnpSenderTotal\<close>: no step of a run is undefined; the lane that sends next; and what a packet that the transport
    refuses leaves behind.

  \<^bold>\<open>Not modelled.\<close>
  \<^item> Rates, token buckets, Nagle timers, ping estimates and virtual finish times are floating point or clock arithmetic that
    decides when something is sent and how much; they are parameters, and no theorem depends on their values. Changing the
    lanes of a connection while it runs is left out.
  \<^item> The state machine of a connection and the API objects (\<open>steamnetworkingsockets_connections.cpp\<close>,
    \<open>csteamnetworkingsockets.cpp\<close>) are driven by threads, locks, callbacks, certificates and generated protobuf classes;
    what they do to packet numbers and received messages is modelled, the rest is not. Poll groups are left out.
  \<^item> \<open>steamnetworkingsockets_lowlevel.cpp\<close> and the UDP code call the operating system; peer-to-peer, ICE and STUN negotiate
    over external services; \<open>common/crypto*\<close> wraps cryptographic libraries.
  \<^item> \<open>external/\<close> (abseil, webrtc), the vendored cipher and hash code, build output, tests and examples.
\<close>

end
